(* ===== verification/Mtask_Prelude.thy ===== *)
theory Mtask_Prelude
  imports Main "HOL-Library.Word" "HOL-Library.List_Lexorder"
begin

text \<open>
  Shared vocabulary of the development: the machine types the C code uses, the byte order
  conversions that several components write out by hand, the generic list lemmas, and the
  two interfaces that more than one component implements, a first-in first-out queue
  (\<open>fifo\<close>, implemented by the three ring buffers of the program) and its operation runs.
  The named collection \<open>byte_simps\<close> holds the facts that turn shifts and masks into octets.
\<close>

unbundle bit_operations_syntax

type_synonym byte = "8 word"
type_synonym u16 = "16 word"
type_synonym u32 = "32 word"
type_synonym u64 = "64 word"

named_theorems byte_simps "octets of machine words"

section \<open>Octets of words\<close>

text \<open>\<open>octet i w\<close> is the C expression \<open>(w >> i) & 0xff\<close> stored in an \<open>uint8_t\<close>.\<close>

definition octet :: "nat \<Rightarrow> 'a::len word \<Rightarrow> byte" where
  "octet i w = ucast (drop_bit i w AND 0xff)"

definition le16 :: "u16 \<Rightarrow> byte list" where
  "le16 w = [octet 0 w, octet 8 w]"

definition le32 :: "u32 \<Rightarrow> byte list" where
  "le32 w = [octet 0 w, octet 8 w, octet 16 w, octet 24 w]"

definition be32 :: "u32 \<Rightarrow> byte list" where
  "be32 w = [octet 24 w, octet 16 w, octet 8 w, octet 0 w]"

definition le64 :: "u64 \<Rightarrow> byte list" where
  "le64 w = [octet 0 w, octet 8 w, octet 16 w, octet 24 w,
             octet 32 w, octet 40 w, octet 48 w, octet 56 w]"

definition un_le16 :: "byte list \<Rightarrow> u16" where
  "un_le16 b = ucast (b ! 0) OR push_bit 8 (ucast (b ! 1))"

definition un_le32 :: "byte list \<Rightarrow> u32" where
  "un_le32 b = ucast (b ! 0) OR push_bit 8 (ucast (b ! 1)) OR
               push_bit 16 (ucast (b ! 2)) OR push_bit 24 (ucast (b ! 3))"

definition un_be32 :: "byte list \<Rightarrow> u32" where
  "un_be32 b = push_bit 24 (ucast (b ! 0)) OR push_bit 16 (ucast (b ! 1)) OR
               push_bit 8 (ucast (b ! 2)) OR ucast (b ! 3)"

definition un_le64 :: "byte list \<Rightarrow> u64" where
  "un_le64 b = ucast (un_le32 (take 4 b)) OR push_bit 32 (ucast (un_le32 (drop 4 b)))"

lemma mask_8: "(255 :: 'a::len word) = mask 8"
  by (simp add: mask_eq_exp_minus_1)

lemma unat_drop_bit_div: "unat (drop_bit k (w :: 'a::len word)) = unat w div 2 ^ k"
  unfolding unat_drop_bit_eq by (rule drop_bit_eq_div)

lemma unat_and_mask: "unat ((w :: 'a::len word) AND mask k) = unat w mod 2 ^ k"
  unfolding take_bit_eq_mask [symmetric] unsigned_take_bit_eq by (rule take_bit_eq_mod)

lemma octet_eq [byte_simps]: "octet i w = ucast (drop_bit i w)"
  unfolding octet_def mask_8
  by (rule bit_word_eqI) (auto simp: bit_simps, metis add_lessD1 add.commute bit_imp_le_length)

lemma octet_mask [byte_simps]: "(ucast (w AND 255) :: byte) = octet 0 (w :: 'a::len word)"
  by (simp add: octet_def)

lemma bit_octet: "bit (octet i w) n \<longleftrightarrow> n < 8 \<and> bit (w :: 'a::len word) (i + n)"
  by (auto simp: octet_eq bit_simps bit_imp_le_length)

lemma length_codec [simp]:
  "length (le16 a) = 2" "length (le32 b) = 4" "length (be32 b) = 4" "length (le64 c) = 8"
  by (simp_all add: le16_def le32_def be32_def le64_def)

lemma un_le16_le16 [simp]: "un_le16 (le16 w) = w"
proof (rule bit_word_eqI)
  fix n assume "n < LENGTH(16)"
  then show "bit (un_le16 (le16 w)) n = bit w n"
    by (cases "n < 8") (auto simp: un_le16_def le16_def bit_simps bit_octet)
qed

lemma un_le32_le32 [simp]: "un_le32 (le32 w) = w"
proof (rule bit_word_eqI)
  fix n assume "n < LENGTH(32)"
  then show "bit (un_le32 (le32 w)) n = bit w n"
    by (cases "n < 8"; cases "n < 16"; cases "n < 24")
      (auto simp: un_le32_def le32_def bit_simps bit_octet)
qed

lemma un_be32_be32 [simp]: "un_be32 (be32 w) = w"
proof (rule bit_word_eqI)
  fix n assume "n < LENGTH(32)"
  then show "bit (un_be32 (be32 w)) n = bit w n"
    by (cases "n < 8"; cases "n < 16"; cases "n < 24")
      (auto simp: un_be32_def be32_def bit_simps bit_octet)
qed

lemma take4_le64: "take 4 (le64 w) = le32 (ucast w)"
  and drop4_le64: "drop 4 (le64 w) = le32 (ucast (drop_bit 32 w))"
  by (auto simp: le64_def le32_def octet_eq intro!: bit_word_eqI)
    (simp_all add: bit_simps)

lemma un_le64_le64 [simp]: "un_le64 (le64 w) = w"
proof (rule bit_word_eqI)
  fix n assume "n < LENGTH(64)"
  then show "bit (un_le64 (le64 w)) n = bit w n"
    by (cases "n < 32") (auto simp: un_le64_def take4_le64 drop4_le64 bit_simps)
qed

lemma unat_octet: "unat (octet i w) = unat w div 2 ^ i mod 256" for w :: "'a::len word"
  by (simp add: octet_eq unat_drop_bit_div unsigned_ucast_eq take_bit_eq_mod)

lemma be32_un_be32: "length bs = 4 \<Longrightarrow> be32 (un_be32 bs) = bs"
proof -
  assume "length bs = 4"
  then obtain a b c d where bs: "bs = [a, b, c, d]"
    by (auto simp: numeral_eq_Suc length_Suc_conv)
  have no: "\<not> bit x (8 + n)" "\<not> bit x (16 + n)" "\<not> bit x (24 + n)" for x :: byte and n
    using bit_imp_le_length [of x] by fastforce+
  show ?thesis unfolding bs be32_def un_be32_def octet_eq
    by (auto intro!: bit_word_eqI simp: bit_simps no)
qed

lemma unat_u64: "n < 2 ^ 64 \<Longrightarrow> unat (of_nat n :: u64) = n"
  by (simp add: unat_of_nat)

lemma mod_pos_geq_once: "n \<le> m \<Longrightarrow> m < 2 * n \<Longrightarrow> m mod n = m - (n :: int)"
  by (metis add_diff_cancel_left' diff_ge_0_iff_ge diff_less_eq minus_mod_self2 mod_pos_pos_trivial mult_2)

lemma sint_small: "unat (w :: u32) < 2 ^ 31 \<Longrightarrow> sint w = int (unat w)"
  and sint_large: "2 ^ 31 \<le> unat (w :: u32) \<Longrightarrow> sint w = int (unat w) - 2 ^ 32"
proof -
  have b: "unat w < 2 ^ 32" using unsigned_less [of w, where ?'a = nat] by simp
  have s: "sint w = (int (unat w) + 2 ^ 31) mod 2 ^ 32 - 2 ^ 31"
    by (simp add: sint_uint signed_take_bit_eq_take_bit_shift take_bit_eq_mod)
  show "sint w = int (unat w)" if "unat w < 2 ^ 31"
  proof -
    have "int (unat w) < 2 ^ 31" using that by (metis of_nat_less_iff of_nat_numeral of_nat_power)
    then have "(int (unat w) + 2 ^ 31) mod 2 ^ 32 = int (unat w) + 2 ^ 31"
      by (intro mod_pos_pos_trivial) simp_all
    with s show ?thesis by linarith
  qed
  assume "2 ^ 31 \<le> unat w"
  then have "2 ^ 31 \<le> int (unat w)" by (metis of_nat_le_iff of_nat_numeral of_nat_power)
  moreover have "int (unat w) < 2 ^ 32" using b by (metis of_nat_less_iff of_nat_numeral of_nat_power)
  ultimately have "(int (unat w) + 2 ^ 31) mod 2 ^ 32 = int (unat w) + 2 ^ 31 - 2 ^ 32"
    by (intro mod_pos_geq_once) simp_all
  then show "sint w = int (unat w) - 2 ^ 32" using s by linarith
qed

section \<open>Lists\<close>

lemma take_append_exact [simp]: "length xs = n \<Longrightarrow> take n (xs @ ys) = xs"
  and drop_append_exact [simp]: "length xs = n \<Longrightarrow> drop n (xs @ ys) = ys"
  by auto

lemma upt_split_at: "i \<le> n \<Longrightarrow> [0..<n] = [0..<i] @ [i..<n]"
  by (metis le_add_diff_inverse plus_nat.add_0 upt_add_eq_append zero_le)

lemma residue_covered:
  assumes "(x::nat) < N"
  obtains j where "j < N" "(j + m) mod N = x"
proof
  let ?j = "(x + (N - m mod N)) mod N"
  show "?j < N" using assms by simp
  have "m mod N \<le> N" using assms by (simp add: less_imp_le)
  then have "x + (N - m mod N) + m = x + N * (m div N + 1)"
    using mult_div_mod_eq [of N m] unfolding distrib_left by linarith
  then have "(?j + m) mod N = (x + N * (m div N + 1)) mod N"
    by (simp only: mod_add_left_eq)
  then show "(?j + m) mod N = x"
    using assms by (metis mod_less mod_mult_self2)
qed

section \<open>Errors\<close>

text \<open>The rest of an operation that may have failed: \<open>Inl\<close> an error, \<open>Inr\<close> a value.\<close>

fun on_ok :: "'e + 'a \<Rightarrow> ('a \<Rightarrow> 'e + 'b) \<Rightarrow> 'e + 'b" where
  "on_ok (Inl e) f = Inl e"
| "on_ok (Inr x) f = f x"

lemma on_ok_Inr: "on_ok r f = Inr y \<longleftrightarrow> (\<exists>x. r = Inr x \<and> f x = Inr y)"
  by (cases r) auto

section \<open>The queue interface\<close>

text \<open>
  \<open>contents\<close> is the abstract list a queue stands for; \<open>pop\<close> yields \<open>None\<close> on an empty
  queue. \<open>qop_run\<close> runs any sequence of operations and collects what the pops return,
  \<open>list_run\<close> does the same on a plain list, and \<open>drain\<close> is the loop
  \<open>while (pop(q)) ...\<close> with a bound on the number of iterations.
\<close>

datatype 'a qop = Push 'a | Pop

fun qop_run :: "('q \<Rightarrow> 'a \<Rightarrow> 'q) \<Rightarrow> ('q \<Rightarrow> 'a option \<times> 'q) \<Rightarrow> 'q \<Rightarrow> 'a qop list
    \<Rightarrow> 'a option list" where
  "qop_run push pop q [] = []"
| "qop_run push pop q (Push x # ops) = qop_run push pop (push q x) ops"
| "qop_run push pop q (Pop # ops) = (let (r, q') = pop q in r # qop_run push pop q' ops)"

fun list_run :: "'a list \<Rightarrow> 'a qop list \<Rightarrow> 'a option list" where
  "list_run xs [] = []"
| "list_run xs (Push x # ops) = list_run (xs @ [x]) ops"
| "list_run [] (Pop # ops) = None # list_run [] ops"
| "list_run (x # xs) (Pop # ops) = Some x # list_run xs ops"

fun drain :: "nat \<Rightarrow> ('q \<Rightarrow> 'a option \<times> 'q) \<Rightarrow> 'q \<Rightarrow> 'a list \<times> 'q" where
  "drain 0 pop q = ([], q)"
| "drain (Suc n) pop q = (case pop q of
     (None, q') \<Rightarrow> ([], q')
   | (Some x, q') \<Rightarrow> (let (xs, q'') = drain n pop q' in (x # xs, q'')))"

lemma drain_keeps:
  assumes step: "\<And>q r q'. P q \<Longrightarrow> pop q = (r, q') \<Longrightarrow> P q'"
  shows "P q \<Longrightarrow> drain n pop q = (xs, q') \<Longrightarrow> P q'"
proof (induction n arbitrary: q xs)
  case 0
  then show ?case by simp
next
  case (Suc n)
  obtain r p where p: "pop q = (r, p)" by (cases "pop q")
  with Suc.prems(1) step have P: "P p" by blast
  show ?case
  proof (cases r)
    case None
    with p P Suc.prems(2) show ?thesis by simp
  next
    case (Some x)
    with p Suc.prems(2) obtain ys where "drain n pop p = (ys, q')"
      by (auto split: prod.splits)
    then show ?thesis by (rule Suc.IH [OF P])
  qed
qed

locale fifo =
  fixes inv :: "'q \<Rightarrow> bool"
    and contents :: "'q \<Rightarrow> 'a list"
    and push :: "'q \<Rightarrow> 'a \<Rightarrow> 'q"
    and pop :: "'q \<Rightarrow> 'a option \<times> 'q"
  assumes push_inv: "inv q \<Longrightarrow> inv (push q x)"
    and push_contents: "inv q \<Longrightarrow> contents (push q x) = contents q @ [x]"
    and pop_inv: "inv q \<Longrightarrow> inv (snd (pop q))"
    and pop_result: "inv q \<Longrightarrow> fst (pop q) = (case contents q of [] \<Rightarrow> None | x # _ \<Rightarrow> Some x)"
    and pop_contents: "inv q \<Longrightarrow> contents (snd (pop q)) = tl (contents q)"
begin

lemma pop_cases:
  assumes "inv q"
  obtains q' where "contents q = []" "pop q = (None, q')" "inv q'" "contents q' = []"
  | x xs q' where "contents q = x # xs" "pop q = (Some x, q')" "inv q'" "contents q' = xs"
  using assms pop_inv [OF assms] pop_result [OF assms] pop_contents [OF assms]
  by (cases "contents q"; cases "pop q") auto

lemma run_refines: "inv q \<Longrightarrow> qop_run push pop q ops = list_run (contents q) ops"
proof (induction ops arbitrary: q)
  case Nil
  then show ?case by simp
next
  case (Cons a ops)
  show ?case
  proof (cases a)
    case (Push x)
    with Cons show ?thesis by (simp add: push_inv push_contents)
  next
    case Pop
    from Cons.prems show ?thesis
      by (cases rule: pop_cases) (auto simp: Pop Cons.IH)
  qed
qed

lemma foldl_push:
  "inv q \<Longrightarrow> inv (foldl push q xs) \<and> contents (foldl push q xs) = contents q @ xs"
  by (induction xs arbitrary: q) (auto simp: push_inv push_contents)

lemma drain_all:
  "inv q \<Longrightarrow> length (contents q) < n
   \<Longrightarrow> \<exists>q'. drain n pop q = (contents q, q') \<and> inv q' \<and> contents q' = []"
proof (induction n arbitrary: q)
  case 0
  then show ?case by simp
next
  case (Suc n)
  from Suc.prems(1) show ?case
  proof (cases rule: pop_cases)
    case (1 q')
    then show ?thesis by simp
  next
    case (2 x xs q')
    with Suc show ?thesis by fastforce
  qed
qed

end

section \<open>The table interface\<close>

text \<open>
  A table that gives out the keys or the values of its entries itself: the handle storage
  (key: the handle it chooses, value: the context) and the connection table of the gate
  (key: the socket, value: the slot it chooses). \<open>assign\<close> makes an entry, \<open>free\<close> deletes
  the one of a key. \<open>table_run\<close> performs any sequence of both, skipping an entry that may
  not be made.
\<close>

datatype ('x, 'k) table_op = Assign 'x | Free 'k

fun table_run :: "('s \<Rightarrow> 'x \<Rightarrow> bool) \<Rightarrow> ('s \<Rightarrow> 'x \<Rightarrow> ('k \<times> 'v \<times> 's) option) \<Rightarrow> ('s \<Rightarrow> 'k \<Rightarrow> 's)
    \<Rightarrow> 's \<Rightarrow> ('x, 'k) table_op list \<Rightarrow> 's" where
  "table_run ok assign free s [] = s"
| "table_run ok assign free s (Assign x # ops) =
     (if ok s x then (case assign s x of
        None \<Rightarrow> table_run ok assign free s ops
      | Some (k, v, s') \<Rightarrow> table_run ok assign free s' ops)
      else table_run ok assign free s ops)"
| "table_run ok assign free s (Free k # ops) = table_run ok assign free (free s k) ops"

locale id_table =
  fixes inv :: "'s \<Rightarrow> bool"
    and look :: "'s \<Rightarrow> 'k \<Rightarrow> 'v option"
    and ok :: "'s \<Rightarrow> 'x \<Rightarrow> bool"
    and assign :: "'s \<Rightarrow> 'x \<Rightarrow> ('k \<times> 'v \<times> 's) option"
    and free :: "'s \<Rightarrow> 'k \<Rightarrow> 's"
  assumes look_inj: "inv s \<Longrightarrow> look s k = Some v \<Longrightarrow> look s k' = Some v \<Longrightarrow> k = k'"
    and assign_look: "inv s \<Longrightarrow> ok s x \<Longrightarrow> assign s x = Some (k, v, s') \<Longrightarrow>
      inv s' \<and> look s k = None \<and> look s' = (look s)(k \<mapsto> v)"
    and free_look: "inv s \<Longrightarrow> inv (free s k) \<and> look (free s k) = (look s)(k := None)"
begin

lemma run_inv: "inv s \<Longrightarrow> inv (table_run ok assign free s ops)"
proof (induction ops arbitrary: s)
  case Nil
  then show ?case by simp
next
  case (Cons a ops)
  show ?case
  proof (cases a)
    case (Assign x)
    with Cons assign_look [OF Cons.prems, of x] show ?thesis
      by (auto split: option.split)
  next
    case (Free k)
    with Cons free_look [OF Cons.prems] show ?thesis by simp
  qed
qed

lemma run_distinct:
  assumes "inv s"
  shows "inj_on (look (table_run ok assign free s ops)) (dom (look (table_run ok assign free s ops)))"
  using look_inj [OF run_inv [OF assms]] by (auto simp: inj_on_def)

text \<open>An entry stays until its own key is freed.\<close>

lemma run_stable:
  "inv s \<Longrightarrow> look s k = Some v \<Longrightarrow> Free k \<notin> set ops \<Longrightarrow> look (table_run ok assign free s ops) k = Some v"
proof (induction ops arbitrary: s)
  case Nil
  then show ?case by simp
next
  case (Cons a ops)
  show ?case
  proof (cases a)
    case (Assign x)
    show ?thesis
    proof (cases "ok s x \<and> assign s x \<noteq> None")
      case True
      then obtain k' v' s' where a: "assign s x = Some (k', v', s')" by auto
      with True assign_look [OF Cons.prems(1) _ a] Cons.prems
      have "inv s'" "look s' k = Some v" by auto
      with Cons True Assign a show ?thesis by simp
    next
      case False
      with Cons Assign show ?thesis by (auto split: option.split)
    qed
  next
    case (Free k')
    with Cons free_look [OF Cons.prems(1), of k'] show ?thesis by auto
  qed
qed

end

section \<open>C strings\<close>

text \<open>\<open>strcmp\<close> compares by unsigned bytes; the sign of the result is what callers use.\<close>

fun strcmp :: "byte list \<Rightarrow> byte list \<Rightarrow> int" where
  "strcmp [] [] = 0"
| "strcmp [] (y # ys) = -1"
| "strcmp (x # xs) [] = 1"
| "strcmp (x # xs) (y # ys) = (if x < y then -1 else if y < x then 1 else strcmp xs ys)"

lemma strcmp_less: "strcmp xs ys < 0 \<longleftrightarrow> xs < ys"
  by (induction xs ys rule: strcmp.induct) auto

lemma strcmp_eq: "strcmp xs ys = 0 \<longleftrightarrow> xs = ys"
  by (induction xs ys rule: strcmp.induct) auto

lemma strcmp_greater: "0 < strcmp xs ys \<longleftrightarrow> ys < xs"
  using strcmp_less [of xs ys] strcmp_eq [of xs ys] by (metis less_int_code(1) linorder_cases order_less_asym)

end
