(* ===== verification/Ring.thy ===== *)
theory Ring
  imports Mtask_Prelude
begin

text \<open>
  The arithmetic the ring buffers of the program share: an array of \<open>c\<close> entries, the index
  \<open>h\<close> of the first element and the index \<open>t\<close> after the last, both below \<open>c\<close>; \<open>h = t\<close> is
  the empty buffer. The message queue, the netpack queue and the queue of a harbor each
  instantiate these lemmas.
\<close>

definition ring_len :: "nat \<Rightarrow> nat \<Rightarrow> nat \<Rightarrow> nat" where
  "ring_len c h t = (if h \<le> t then t - h else t + c - h)"

definition ring_list :: "'a list \<Rightarrow> nat \<Rightarrow> nat \<Rightarrow> nat \<Rightarrow> 'a list" where
  "ring_list xs c h t = map (\<lambda>i. xs ! ((h + i) mod c)) [0..<ring_len c h t]"

definition ring_ok :: "'a list \<Rightarrow> nat \<Rightarrow> nat \<Rightarrow> nat \<Rightarrow> bool" where
  "ring_ok xs c h t \<longleftrightarrow> length xs = c \<and> h < c \<and> t < c"

definition ring_next :: "nat \<Rightarrow> nat \<Rightarrow> nat" where
  "ring_next c i = (if c \<le> i + 1 then 0 else i + 1)"

lemma length_ring_list [simp]: "length (ring_list xs c h t) = ring_len c h t"
  by (simp add: ring_list_def)

lemma ring_next_less: "i < c \<Longrightarrow> ring_next c i < c"
  by (auto simp: ring_next_def)

lemma ring_next_mod: "i < c \<Longrightarrow> ring_next c i = Suc i mod c"
  by (auto simp: ring_next_def le_Suc_eq not_less_eq_eq)

lemma ring_len_less: "ring_ok xs c h t \<Longrightarrow> ring_len c h t < c"
  by (auto simp: ring_ok_def ring_len_def)

lemma ring_tail: "ring_ok xs c h t \<Longrightarrow> (h + ring_len c h t) mod c = t"
  by (auto simp: ring_ok_def ring_len_def)

lemma ring_list_empty [simp]: "ring_list xs c h h = []"
  by (simp add: ring_list_def ring_len_def)

lemma ring_list_Nil: "ring_ok xs c h t \<Longrightarrow> ring_list xs c h t = [] \<longleftrightarrow> h = t"
  by (auto simp: ring_list_def ring_len_def ring_ok_def)

lemma mod_ring_neq:
  fixes h i L c :: nat
  assumes "i < L" "L < c"
  shows "(h + i) mod c \<noteq> (h + L) mod c"
proof
  assume "(h + i) mod c = (h + L) mod c"
  then have "c dvd (h + L) - (h + i)"
    using assms by (metis add_le_cancel_left less_imp_le_nat mod_eq_dvd_iff_nat)
  with assms show False by (auto dest: dvd_imp_le)
qed

lemma ring_pop:
  assumes ok: "ring_ok xs c h t" and ne: "h \<noteq> t"
  shows "ring_list xs c h t = xs ! h # ring_list xs c (ring_next c h) t"
proof -
  have h: "ring_next c h = Suc h mod c" "h < c" using ok by (simp_all add: ring_next_mod ring_ok_def)
  have L: "ring_len c h t = Suc (ring_len c (ring_next c h) t)"
    using ok ne by (auto simp: ring_len_def ring_ok_def ring_next_def)
  have "(ring_next c h + i) mod c = (h + Suc i) mod c" for i
    unfolding h(1) by (simp add: mod_add_left_eq)
  with h(2) L show ?thesis
    by (simp add: ring_list_def upt_conv_Cons map_Suc_upt [symmetric] del: upt_Suc)
qed

text \<open>Writing behind the last element, seen through one index more than before.\<close>

lemma ring_write:
  assumes ok: "ring_ok xs c h t"
  shows "map (\<lambda>i. xs[t := m] ! ((h + i) mod c)) [0..<Suc (ring_len c h t)] = ring_list xs c h t @ [m]"
proof -
  have "xs[t := m] ! ((h + i) mod c) = xs ! ((h + i) mod c)" if "i < ring_len c h t" for i
    using mod_ring_neq [OF that ring_len_less [OF ok]] ring_tail [OF ok] by (metis nth_list_update_neq)
  with ring_tail [OF ok] ok show ?thesis by (simp add: ring_list_def ring_ok_def)
qed

lemma ring_push:
  assumes ok: "ring_ok xs c h t" and "h \<noteq> ring_next c t"
  shows "ring_list (xs[t := m]) c h (ring_next c t) = ring_list xs c h t @ [m]"
proof -
  have "ring_len c h (ring_next c t) = Suc (ring_len c h t)"
    using assms by (auto simp: ring_len_def ring_ok_def ring_next_def)
  with ring_write [OF ok] show ?thesis by (simp add: ring_list_def)
qed

lemma ring_grow:
  assumes ok: "ring_ok xs c h t" and "h = ring_next c t"
  shows "ring_list (map (\<lambda>i. xs[t := m] ! ((h + i) mod c)) [0..<c] @ ys) (c + k) 0 c
    = ring_list xs c h t @ [m]"
proof -
  have L: "c = Suc (ring_len c h t)"
    using assms by (auto simp: ring_len_def ring_ok_def ring_next_def split: if_splits)
  have "ring_list (map (\<lambda>i. xs[t := m] ! ((h + i) mod c)) [0..<c] @ ys) (c + k) 0 c =
      map (\<lambda>i. xs[t := m] ! ((h + i) mod c)) [0..<c]"
    by (cases "k = 0") (auto simp: ring_list_def ring_len_def nth_append)
  with ring_write [OF ok] L show ?thesis by metis
qed

end
