(* ===== verification/Mq.thy ===== *)
theory Mq
  imports Ring
begin

text \<open>
  \<open>mtask-src/mtask_mq.c\<close>: the message queue of a service and the global queue of the
  queues that have work. A message queue is a ring buffer; the global queue is a linked
  list through the \<open>next\<close> fields of the message queues, modelled at pointer level: the
  heap \<open>mqs\<close> maps the address of a queue to its struct, and every operation that would
  fail an \<open>assert\<close> or follow a dangling pointer is \<open>None\<close>. The locks are not modelled;
  each operation that runs under its lock is one step.
\<close>

section \<open>Data\<close>

text \<open>\<open>data\<close> is \<open>None\<close> for the null pointer and otherwise the bytes of the block.\<close>

record mtask_message =
  msg_source :: u32
  msg_session :: u32
  msg_data :: "byte list option"
  msg_sz :: u64

definition blank_mq_message :: mtask_message where
  "blank_mq_message = \<lparr>msg_source = 0, msg_session = 0, msg_data = None, msg_sz = 0\<rparr>"

definition DEFAULT_QUEUE_SIZE :: nat where "DEFAULT_QUEUE_SIZE = 64"
definition MQ_IN_GLOBAL :: nat where "MQ_IN_GLOBAL = 1"
definition MQ_OVERLOAD :: nat where "MQ_OVERLOAD = 1024"

type_synonym mqid = nat

record message_queue =
  mq_handle :: u32
  mq_cap :: nat
  mq_head :: nat
  mq_tail :: nat
  mq_release :: nat
  mq_in_global :: nat
  mq_over :: nat
  mq_threshold :: nat
  mq_queue :: "mtask_message list"
  mq_next :: "mqid option"

record mq_state =
  mqs :: "mqid \<Rightarrow> message_queue option"
  g_head :: "mqid option"
  g_tail :: "mqid option"

section \<open>The ring buffer of one queue\<close>

text \<open>
  \<open>mtask_mq_create\<close>: the array comes from \<open>malloc\<close>, so its contents are arbitrary; the
  model fills it with \<open>blank_mq_message\<close>, and no result below depends on that choice.
\<close>

definition mtask_mq_create :: "u32 \<Rightarrow> message_queue" where
  "mtask_mq_create handle = \<lparr>
     mq_handle = handle, mq_cap = DEFAULT_QUEUE_SIZE, mq_head = 0, mq_tail = 0,
     mq_release = 0, mq_in_global = MQ_IN_GLOBAL, mq_over = 0, mq_threshold = MQ_OVERLOAD,
     mq_queue = replicate DEFAULT_QUEUE_SIZE blank_mq_message, mq_next = None\<rparr>"

definition mtask_mq_length :: "message_queue \<Rightarrow> nat" where
  "mtask_mq_length q =
     (if mq_head q \<le> mq_tail q then mq_tail q - mq_head q
      else mq_tail q + mq_cap q - mq_head q)"

text \<open>\<open>mtask_mq_overload\<close> returns the recorded length and clears it.\<close>

definition mtask_mq_overload :: "message_queue \<Rightarrow> nat \<times> message_queue" where
  "mtask_mq_overload q =
     (if mq_over q \<noteq> 0 then (mq_over q, q\<lparr>mq_over := 0\<rparr>) else (0, q))"

text \<open>
  The loop \<open>while (length > q->overload_threshold)\<close>. The threshold starts at 1024 and is
  only doubled or reset, so it is positive; the guard \<open>0 < th\<close> says so to the termination
  proof (the C loop would not end with a threshold of 0).
\<close>

function overload_loop :: "nat \<Rightarrow> nat \<Rightarrow> nat \<Rightarrow> nat \<times> nat" where
  "overload_loop len ov th =
     (if th < len \<and> 0 < th then overload_loop len len (th * 2) else (ov, th))"
  by pat_completeness auto
termination
  by (relation "measure (\<lambda>(len, ov, th). len - th)") auto

declare overload_loop.simps [simp del]

text \<open>
  \<open>mtask_mq_pop\<close>: the message (\<open>None\<close> for the return value 1) and the new queue.
\<close>

definition mtask_mq_pop :: "message_queue \<Rightarrow> mtask_message option \<times> message_queue" where
  "mtask_mq_pop q =
     (if mq_head q \<noteq> mq_tail q then
        let message = mq_queue q ! mq_head q;
            h = mq_head q + 1;
            head = (if mq_cap q \<le> h then 0 else h);
            len0 = int (mq_tail q) - int head;
            len = nat (if len0 < 0 then len0 + int (mq_cap q) else len0);
            (ov, th) = overload_loop len (mq_over q) (mq_threshold q)
        in (Some message, q\<lparr>mq_head := head, mq_over := ov, mq_threshold := th\<rparr>)
      else (None, q\<lparr>mq_threshold := MQ_OVERLOAD, mq_in_global := 0\<rparr>))"

definition expand_queue :: "message_queue \<Rightarrow> message_queue" where
  "expand_queue q =
     (let new_queue = map (\<lambda>i. mq_queue q ! ((mq_head q + i) mod mq_cap q)) [0..<mq_cap q]
                      @ replicate (mq_cap q) blank_mq_message
      in q\<lparr>mq_head := 0, mq_tail := mq_cap q, mq_cap := mq_cap q * 2, mq_queue := new_queue\<rparr>)"

text \<open>The part of \<open>mtask_mq_push\<close> that changes the ring buffer.\<close>

definition mq_store :: "message_queue \<Rightarrow> mtask_message \<Rightarrow> message_queue" where
  "mq_store q message =
     (let q1 = q\<lparr>mq_queue := (mq_queue q)[mq_tail q := message]\<rparr>;
          t = mq_tail q + 1;
          q2 = q1\<lparr>mq_tail := (if mq_cap q \<le> t then 0 else t)\<rparr>
      in if mq_head q2 = mq_tail q2 then expand_queue q2 else q2)"

section \<open>The global queue\<close>

definition mq_upd :: "mq_state \<Rightarrow> mqid \<Rightarrow> message_queue \<Rightarrow> mq_state" where
  "mq_upd s a q = s\<lparr>mqs := (mqs s)(a := Some q)\<rparr>"

definition mtask_globalmq_push :: "mq_state \<Rightarrow> mqid \<Rightarrow> mq_state option" where
  "mtask_globalmq_push s a = (case mqs s a of
     None \<Rightarrow> None
   | Some q \<Rightarrow>
       if mq_next q \<noteq> None then None
       else (case g_tail s of
          Some t \<Rightarrow> (case mqs s t of
             None \<Rightarrow> None
           | Some tq \<Rightarrow> Some ((mq_upd s t (tq\<lparr>mq_next := Some a\<rparr>))\<lparr>g_tail := Some a\<rparr>))
        | None \<Rightarrow> Some (s\<lparr>g_head := Some a, g_tail := Some a\<rparr>)))"

definition mtask_globalmq_pop :: "mq_state \<Rightarrow> (mqid option \<times> mq_state) option" where
  "mtask_globalmq_pop s = (case g_head s of
     None \<Rightarrow> Some (None, s)
   | Some a \<Rightarrow> (case mqs s a of
        None \<Rightarrow> None
      | Some q \<Rightarrow>
          if mq_next q = None \<and> g_tail s \<noteq> Some a then None
          else let s1 = s\<lparr>g_head := mq_next q\<rparr>;
                   s2 = (if mq_next q = None then s1\<lparr>g_tail := None\<rparr> else s1)
               in Some (Some a, mq_upd s2 a (q\<lparr>mq_next := None\<rparr>))))"

definition mtask_mq_push :: "mq_state \<Rightarrow> mqid \<Rightarrow> mtask_message \<Rightarrow> mq_state option" where
  "mtask_mq_push s a message = (case mqs s a of
     None \<Rightarrow> None
   | Some q \<Rightarrow>
       let q1 = mq_store q message in
       if mq_in_global q1 = 0
       then mtask_globalmq_push (mq_upd s a (q1\<lparr>mq_in_global := MQ_IN_GLOBAL\<rparr>)) a
       else Some (mq_upd s a q1))"

definition mtask_mq_init :: mq_state where
  "mtask_mq_init = \<lparr>mqs = (\<lambda>_. None), g_head = None, g_tail = None\<rparr>"

definition mtask_mq_mark_release :: "mq_state \<Rightarrow> mqid \<Rightarrow> mq_state option" where
  "mtask_mq_mark_release s a = (case mqs s a of
     None \<Rightarrow> None
   | Some q \<Rightarrow>
       if mq_release q \<noteq> 0 then None
       else let s1 = mq_upd s a (q\<lparr>mq_release := 1\<rparr>) in
         if mq_in_global q \<noteq> MQ_IN_GLOBAL then mtask_globalmq_push s1 a else Some s1)"

text \<open>
  \<open>_drop_queue\<close> pops until the queue is empty and frees it; the dropped messages are
  returned (the code hands each to \<open>drop_func\<close>). \<open>_release\<close> asserts that the queue is
  not in the global list. The bound on the iterations is the length of the queue plus one.
\<close>

definition drop_queue :: "mq_state \<Rightarrow> mqid \<Rightarrow> (mtask_message list \<times> mq_state) option" where
  "drop_queue s a = (case mqs s a of
     None \<Rightarrow> None
   | Some q \<Rightarrow>
       let (dropped, q') = drain (mtask_mq_length q + 1) mtask_mq_pop q in
       if mq_next q' \<noteq> None then None
       else Some (dropped, s\<lparr>mqs := (mqs s)(a := None)\<rparr>))"

definition mtask_mq_release :: "mq_state \<Rightarrow> mqid \<Rightarrow> (mtask_message list \<times> mq_state) option" where
  "mtask_mq_release s a = (case mqs s a of
     None \<Rightarrow> None
   | Some q \<Rightarrow>
       if mq_release q \<noteq> 0 then drop_queue s a
       else map_option (\<lambda>s'. ([], s')) (mtask_globalmq_push s a))"

section \<open>The ring buffer is a queue\<close>

definition mq_inv :: "message_queue \<Rightarrow> bool" where
  "mq_inv q \<longleftrightarrow> mq_head q < mq_cap q \<and> mq_tail q < mq_cap q \<and> length (mq_queue q) = mq_cap q"

definition mq_contents :: "message_queue \<Rightarrow> mtask_message list" where
  "mq_contents q = map (\<lambda>i. mq_queue q ! ((mq_head q + i) mod mq_cap q)) [0..<mtask_mq_length q]"

lemma length_mq_contents [simp]: "length (mq_contents q) = mtask_mq_length q"
  by (simp add: mq_contents_def)

lemmas mq_ring = mq_contents_def mq_inv_def mtask_mq_length_def ring_list_def ring_ok_def ring_len_def

lemma mq_contents_ring: "mq_contents q = ring_list (mq_queue q) (mq_cap q) (mq_head q) (mq_tail q)"
  by (simp add: mq_ring)

lemma mq_inv_ring: "mq_inv q \<longleftrightarrow> ring_ok (mq_queue q) (mq_cap q) (mq_head q) (mq_tail q)"
  by (auto simp: mq_ring)

lemma mq_store_inv: "mq_inv q \<Longrightarrow> mq_inv (mq_store q m)"
  by (auto simp: mq_inv_def mq_store_def expand_queue_def Let_def)

lemma mq_store_ring:
  "mq_store q m = (let q' = q\<lparr>mq_queue := (mq_queue q)[mq_tail q := m],
     mq_tail := ring_next (mq_cap q) (mq_tail q)\<rparr>
   in if mq_head q = ring_next (mq_cap q) (mq_tail q) then expand_queue q' else q')"
  by (simp add: mq_store_def ring_next_def Let_def)

lemma mq_store_contents:
  assumes inv: "mq_inv q"
  shows "mq_contents (mq_store q m) = mq_contents q @ [m]"
proof (cases "mq_head q = ring_next (mq_cap q) (mq_tail q)")
  case True
  with ring_grow [OF inv [unfolded mq_inv_ring] True, of m _ "mq_cap q"] show ?thesis
    by (simp add: mq_store_ring mq_contents_ring expand_queue_def Let_def mult_2_right)
next
  case False
  with ring_push [OF inv [unfolded mq_inv_ring] False, of m] show ?thesis
    by (simp add: mq_store_ring mq_contents_ring Let_def)
qed

lemma mq_contents_cons:
  assumes "mq_inv q" "mq_head q \<noteq> mq_tail q"
  shows "mq_contents q = mq_queue q ! mq_head q #
    mq_contents (q\<lparr>mq_head := if mq_cap q \<le> Suc (mq_head q) then 0 else Suc (mq_head q)\<rparr>)"
  using ring_pop [OF assms(1) [unfolded mq_inv_ring] assms(2)] by (simp add: mq_contents_ring ring_next_def)

lemma mq_contents_cong:
  "mq_head q = mq_head p \<Longrightarrow> mq_tail q = mq_tail p \<Longrightarrow> mq_cap q = mq_cap p \<Longrightarrow> mq_queue q = mq_queue p
   \<Longrightarrow> mq_contents q = mq_contents p"
  by (simp add: mq_contents_def mtask_mq_length_def)

lemma mq_pop_some:
  assumes "mq_inv q" "mq_head q \<noteq> mq_tail q"
  obtains q' where "mtask_mq_pop q = (Some (hd (mq_contents q)), q')" "mq_inv q'"
    "mq_contents q' = tl (mq_contents q)"
proof -
  let ?h = "if mq_cap q \<le> Suc (mq_head q) then 0 else Suc (mq_head q)"
  obtain ov th where "mtask_mq_pop q =
      (Some (mq_queue q ! mq_head q), q\<lparr>mq_head := ?h, mq_over := ov, mq_threshold := th\<rparr>)"
    using assms(2) by (simp add: mtask_mq_pop_def Let_def split_beta)
  moreover have "mq_contents (q\<lparr>mq_head := ?h, mq_over := ov, mq_threshold := th\<rparr>) =
      mq_contents (q\<lparr>mq_head := ?h\<rparr>)"
    by (rule mq_contents_cong) simp_all
  ultimately show ?thesis
    using that mq_contents_cons [OF assms] assms(1) by (auto simp: mq_inv_def)
qed

lemma mq_empty_iff: "mq_inv q \<Longrightarrow> mq_contents q = [] \<longleftrightarrow> mq_head q = mq_tail q"
  by (auto simp: mq_contents_def mtask_mq_length_def mq_inv_def)

lemma mq_pop_none:
  "mq_head q = mq_tail q \<Longrightarrow> mtask_mq_pop q = (None, q\<lparr>mq_threshold := MQ_OVERLOAD, mq_in_global := 0\<rparr>)"
  by (simp add: mtask_mq_pop_def)

lemma mq_pop_none_contents:
  assumes "mq_inv q" "mq_head q = mq_tail q"
  shows "mq_inv (snd (mtask_mq_pop q)) \<and> mq_contents (snd (mtask_mq_pop q)) = []"
proof -
  have "mq_contents (q\<lparr>mq_threshold := MQ_OVERLOAD, mq_in_global := 0\<rparr>) = mq_contents q"
    by (rule mq_contents_cong) simp_all
  with assms mq_empty_iff [OF assms(1)] show ?thesis
    by (simp add: mq_pop_none mq_inv_def)
qed

interpretation ring: fifo mq_inv mq_contents mq_store mtask_mq_pop
proof
  fix q x
  assume inv: "mq_inv q"
  show "mq_inv (mq_store q x)" by (rule mq_store_inv [OF inv])
  show "mq_contents (mq_store q x) = mq_contents q @ [x]" by (rule mq_store_contents [OF inv])
  have "mq_inv (snd (mtask_mq_pop q)) \<and>
    fst (mtask_mq_pop q) = (case mq_contents q of [] \<Rightarrow> None | y # _ \<Rightarrow> Some y) \<and>
    mq_contents (snd (mtask_mq_pop q)) = tl (mq_contents q)"
  proof (cases "mq_head q = mq_tail q")
    case True
    with inv mq_pop_none_contents [OF inv] mq_empty_iff [OF inv] show ?thesis
      by (simp add: mq_pop_none)
  next
    case False
    then have "mq_contents q \<noteq> []" using mq_empty_iff [OF inv] by simp
    with mq_pop_some [OF inv False] show ?thesis
      by (metis fst_conv list.case(2) list.collapse snd_conv)
  qed
  then show "mq_inv (snd (mtask_mq_pop q))"
    and "fst (mtask_mq_pop q) = (case mq_contents q of [] \<Rightarrow> None | y # _ \<Rightarrow> Some y)"
    and "mq_contents (snd (mtask_mq_pop q)) = tl (mq_contents q)"
    by blast+
qed

section \<open>The linked list is a queue\<close>

text \<open>
  \<open>glist s xs\<close> says that the links starting at \<open>g_head\<close> spell out exactly \<open>xs\<close>.
  \<open>same_queues\<close> compares two heaps up to the \<open>next\<close> fields.
\<close>

fun gchain :: "(mqid \<Rightarrow> message_queue option) \<Rightarrow> mqid list \<Rightarrow> bool" where
  "gchain m [] \<longleftrightarrow> True"
| "gchain m [a] \<longleftrightarrow> (\<exists>q. m a = Some q \<and> mq_next q = None)"
| "gchain m (a # b # xs) \<longleftrightarrow> (\<exists>q. m a = Some q \<and> mq_next q = Some b) \<and> gchain m (b # xs)"

definition glist :: "mq_state \<Rightarrow> mqid list \<Rightarrow> bool" where
  "glist s xs \<longleftrightarrow> distinct xs \<and> gchain (mqs s) xs \<and>
     g_head s = (if xs = [] then None else Some (hd xs)) \<and>
     g_tail s = (if xs = [] then None else Some (last xs))"

definition unlinked :: "message_queue \<Rightarrow> message_queue" where
  "unlinked q = q\<lparr>mq_next := None\<rparr>"

definition same_queues :: "mq_state \<Rightarrow> mq_state \<Rightarrow> bool" where
  "same_queues s t \<longleftrightarrow> (\<forall>a. map_option unlinked (mqs s a) = map_option unlinked (mqs t a))"

lemma gchain_cong: "(\<And>a. a \<in> set xs \<Longrightarrow> m a = m' a) \<Longrightarrow> gchain m xs \<longleftrightarrow> gchain m' xs"
  by (induction m xs rule: gchain.induct) auto

lemma gchain_update:
  "gchain m xs \<Longrightarrow> (\<And>q. m a = Some q \<Longrightarrow> mq_next q = mq_next q') \<Longrightarrow> gchain (m(a := Some q')) xs"
  by (induction m xs rule: gchain.induct) auto

lemma gchain_mem: "gchain m xs \<Longrightarrow> a \<in> set xs \<Longrightarrow> \<exists>q. m a = Some q"
  by (induction m xs rule: gchain.induct) auto

lemma gchain_last: "gchain m xs \<Longrightarrow> xs \<noteq> [] \<Longrightarrow> \<exists>q. m (last xs) = Some q \<and> mq_next q = None"
  by (induction m xs rule: gchain.induct) auto

lemma gchain_Cons:
  "gchain m (a # xs) \<longleftrightarrow>
    (\<exists>q. m a = Some q \<and> mq_next q = (if xs = [] then None else Some (hd xs))) \<and> gchain m xs"
  by (cases xs) auto

lemma gchain_snoc:
  "gchain m (ys @ [l]) \<Longrightarrow> distinct (ys @ [l, a]) \<Longrightarrow> m a = Some q \<Longrightarrow> mq_next q = None \<Longrightarrow>
   mq_next t = Some a \<Longrightarrow> gchain (m(l := Some t)) (ys @ [l, a])"
proof (induction ys)
  case Nil
  then show ?case by simp
next
  case (Cons y ys)
  have "hd (ys @ [l]) = hd (ys @ [l, a])" by (cases ys) auto
  with Cons show ?case by (simp add: gchain_Cons)
qed

lemma same_queues_refl [simp]: "same_queues s s"
  by (simp add: same_queues_def)

lemma same_queuesD:
  "same_queues s t \<Longrightarrow> mqs t a = Some q' \<Longrightarrow> \<exists>q. mqs s a = Some q \<and> unlinked q = unlinked q'"
  unfolding same_queues_def by (metis map_option_eq_Some option.inject)

lemma unlinked_fields:
  assumes "unlinked p = unlinked q"
  shows "mq_inv p \<longleftrightarrow> mq_inv q" "mq_release p = mq_release q" "mq_in_global p = mq_in_global q"
    "mq_contents p = mq_contents q" "mq_handle p = mq_handle q"
  using assms
  by (cases p; cases q; simp add: unlinked_def mq_inv_def mq_contents_def mtask_mq_length_def)+

lemma globalmq_push_glist:
  assumes g: "glist s xs" and q: "mqs s a = Some q" "mq_next q = None" and new: "a \<notin> set xs"
  shows "\<exists>s'. mtask_globalmq_push s a = Some s' \<and> glist s' (xs @ [a]) \<and> same_queues s s' \<and>
    (\<forall>b. b \<notin> set xs \<longrightarrow> mqs s' b = mqs s b)"
proof (cases "xs = []")
  case True
  with assms show ?thesis
    by (auto simp: mtask_globalmq_push_def glist_def same_queues_def)
next
  case False
  with g obtain t where t: "mqs s (last xs) = Some t" "mq_next t = None" "g_tail s = Some (last xs)"
    using gchain_last [of "mqs s" xs] by (auto simp: glist_def)
  obtain ys where ys: "xs = ys @ [last xs]"
    using False by (metis append_butlast_last_id)
  let ?m = "(mqs s)(last xs := Some (t\<lparr>mq_next := Some a\<rparr>))"
  have push: "mtask_globalmq_push s a = Some (s\<lparr>mqs := ?m, g_tail := Some a\<rparr>)"
    using q t by (simp add: mtask_globalmq_push_def mq_upd_def)
  have dist: "distinct (xs @ [a])"
    using g new by (simp add: glist_def)
  have "gchain ?m (ys @ [last xs, a])"
  proof (rule gchain_snoc)
    show "gchain (mqs s) (ys @ [last xs])" using g ys by (simp add: glist_def)
    have "distinct ((ys @ [last xs]) @ [a])" using dist ys by simp
    then show "distinct (ys @ [last xs, a])" by simp
  qed (use q in simp_all)
  then have "gchain ?m (xs @ [a])" by (subst ys) simp
  then have "glist (s\<lparr>mqs := ?m, g_tail := Some a\<rparr>) (xs @ [a])"
    using g dist False by (simp add: glist_def)
  moreover have "same_queues s (s\<lparr>mqs := ?m, g_tail := Some a\<rparr>)"
    using t by (simp add: same_queues_def unlinked_def)
  ultimately show ?thesis
    using push False last_in_set [of xs] by (intro exI [of _ "s\<lparr>mqs := ?m, g_tail := Some a\<rparr>"]) auto
qed

lemma globalmq_pop_glist_Nil: "glist s [] \<Longrightarrow> mtask_globalmq_pop s = Some (None, s)"
  by (simp add: mtask_globalmq_pop_def glist_def)

lemma globalmq_pop_glist_Cons:
  assumes "glist s (a # xs)"
  shows "\<exists>s' q. mtask_globalmq_pop s = Some (Some a, s') \<and> glist s' xs \<and> same_queues s s' \<and>
    mqs s' a = Some q \<and> mq_next q = None \<and> (\<forall>b. b \<noteq> a \<longrightarrow> mqs s' b = mqs s b)"
proof -
  obtain q where q: "mqs s a = Some q" "mq_next q = (if xs = [] then None else Some (hd xs))"
    using assms by (cases xs) (auto simp: glist_def)
  let ?m = "(mqs s)(a := Some (q\<lparr>mq_next := None\<rparr>))"
  have "mtask_globalmq_pop s = Some (Some a, s\<lparr>mqs := ?m, g_head := mq_next q,
      g_tail := (if xs = [] then None else g_tail s)\<rparr>)"
    using assms q by (simp add: mtask_globalmq_pop_def mq_upd_def glist_def Let_def)
  moreover have "gchain (mqs s) xs \<Longrightarrow> a \<notin> set xs \<Longrightarrow> gchain ?m xs"
    by (subst gchain_cong [of xs ?m "mqs s"]) auto
  moreover have "gchain (mqs s) xs"
    using assms by (cases xs) (auto simp: glist_def)
  moreover have "map_option unlinked (?m b) = map_option unlinked (mqs s b)" for b
    using q by (simp add: unlinked_def)
  ultimately show ?thesis
    using assms q by (auto simp: glist_def same_queues_def)
qed

section \<open>Properties of one queue\<close>

text \<open>The overload threshold is doubled until it covers the length, and only then reported.\<close>

lemma overload_loop_spec:
  "0 < th \<Longrightarrow> overload_loop len ov th = (ov', th') \<Longrightarrow>
   len \<le> th' \<and> (if len \<le> th then ov' = ov \<and> th' = th else ov' = len \<and> th' < 2 * len)"
proof (induction len ov th rule: overload_loop.induct)
  case (1 len ov th)
  show ?case
  proof (cases "th < len")
    case False
    with "1.prems" show ?thesis
      by (subst (asm) overload_loop.simps) auto
  next
    case True
    with "1.prems" have "overload_loop len len (th * 2) = (ov', th')"
      by (subst (asm) overload_loop.simps) simp
    with "1.IH" True "1.prems"(1) show ?thesis by (auto split: if_splits)
  qed
qed

text \<open>
  C3. A message queue, grown as often as its ring buffer fills up, behaves as a first-in
  first-out list: any sequence of pushes and pops on a new queue returns exactly what a
  plain list would.
\<close>

theorem mq_refines_list:
  "qop_run mq_store mtask_mq_pop (mtask_mq_create h) ops = list_run [] ops"
proof -
  have "mq_inv (mtask_mq_create h)" "mq_contents (mtask_mq_create h) = []"
    by (simp_all add: mq_inv_def mq_contents_def mtask_mq_length_def mtask_mq_create_def
        DEFAULT_QUEUE_SIZE_def)
  then show ?thesis using ring.run_refines by metis
qed

text \<open>
  When a pop leaves more messages behind than the overload threshold (1024 at first),
  it records exactly that number for the next overload warning and doubles the threshold
  until it covers it, so the next warning waits for the backlog to double; otherwise neither
  changes. The length it uses is the number of messages left.
\<close>

theorem mq_pop_overload:
  assumes "mq_inv q" "0 < mq_threshold q" "mtask_mq_pop q = (Some m, q')"
  shows "mtask_mq_length q' = mtask_mq_length q - 1 \<and>
    (if mtask_mq_length q' \<le> mq_threshold q
     then mq_over q' = mq_over q \<and> mq_threshold q' = mq_threshold q
     else mtask_mq_overload q' = (mtask_mq_length q', q'\<lparr>mq_over := 0\<rparr>) \<and>
       mtask_mq_length q' \<le> mq_threshold q' \<and> mq_threshold q' < 2 * mtask_mq_length q')"
proof -
  let ?h = "if mq_cap q \<le> Suc (mq_head q) then 0 else Suc (mq_head q)"
  let ?d = "int (mq_tail q) - int ?h"
  let ?len = "nat (if ?d < 0 then ?d + int (mq_cap q) else ?d)"
  have ne: "mq_head q \<noteq> mq_tail q"
    using assms(3) by (auto simp: mq_pop_none)
  obtain ov th where o: "overload_loop ?len (mq_over q) (mq_threshold q) = (ov, th)" by fastforce
  with assms(3) ne have q': "q' = q\<lparr>mq_head := ?h, mq_over := ov, mq_threshold := th\<rparr>"
    by (simp add: mtask_mq_pop_def Let_def)
  have len: "?len = mtask_mq_length q'"
    using assms(1) by (auto simp: q' mtask_mq_length_def mq_inv_def)
  have "mtask_mq_length q' = mtask_mq_length q - 1"
    using assms(1) ne by (auto simp: q' mtask_mq_length_def mq_inv_def)
  with overload_loop_spec [OF assms(2) o] show ?thesis
    unfolding len [symmetric] by (auto simp: q' mtask_mq_overload_def)
qed

theorem mq_pop_overload_witness:
  "let q = (mq_store (mtask_mq_create 1) blank_mq_message)\<lparr>mq_tail := 5, mq_threshold := 2\<rparr> in
   mq_threshold (snd (mtask_mq_pop q)) = 4 \<and> mtask_mq_length (snd (mtask_mq_pop q)) = 4 \<and>
   mq_over (snd (mtask_mq_pop q)) = 4"
proof -
  let ?q = "(mq_store (mtask_mq_create 1) blank_mq_message)\<lparr>mq_tail := 5, mq_threshold := 2\<rparr>"
  have q: "mq_inv ?q" "0 < mq_threshold ?q" "mq_head ?q = 0" "mq_tail ?q = 5" "mtask_mq_length ?q = 5"
    by (simp_all add: mq_inv_def mq_store_def mtask_mq_create_def DEFAULT_QUEUE_SIZE_def
        mtask_mq_length_def Let_def)
  obtain m q' where p: "mtask_mq_pop ?q = (Some m, q')"
    using mq_pop_some [OF q(1)] q(3,4) by (metis zero_neq_numeral)
  from mq_pop_overload [OF q(1,2) p] q(5) have "mtask_mq_length q' = 4"
    "mtask_mq_overload q' = (4, q'\<lparr>mq_over := 0\<rparr>)" by simp_all
  moreover have "mq_threshold q' = 4"
    using p q by (auto simp: mtask_mq_pop_def Let_def mq_store_def mtask_mq_create_def
        DEFAULT_QUEUE_SIZE_def overload_loop.simps)
  ultimately show ?thesis
    using p by (auto simp: mtask_mq_overload_def Let_def split: if_splits)
qed

text \<open>
  Releasing a queue that has been marked hands every message still in it, oldest first,
  to the drop function (which answers each sender with an error) and frees the queue; the
  other queues and the global list are untouched.
\<close>

theorem mq_release_drops_all:
  assumes "mqs s a = Some q" "mq_inv q" "mq_next q = None" "mq_release q \<noteq> 0"
  shows "mtask_mq_release s a = Some (mq_contents q, s\<lparr>mqs := (mqs s)(a := None)\<rparr>)"
proof -
  obtain q' where d: "drain (mtask_mq_length q + 1) mtask_mq_pop q = (mq_contents q, q')"
    using ring.drain_all [OF assms(2), of "mtask_mq_length q + 1"] by auto
  have "mq_next p' = None" if "mq_next p = None" "mtask_mq_pop p = (r, p')" for p r p'
    using that by (auto simp: mtask_mq_pop_def Let_def split: if_splits prod.splits)
  then have "mq_next q' = None"
    using drain_keeps [of "\<lambda>q. mq_next q = None", OF _ assms(3) d] by blast
  with assms d show ?thesis
    by (simp add: mtask_mq_release_def drop_queue_def)
qed

theorem mq_release_drops_all_witness:
  "let q = mq_store (mtask_mq_create 7) (blank_mq_message\<lparr>msg_source := 9\<rparr>)\<lparr>mq_release := 1\<rparr>;
       s = mtask_mq_init\<lparr>mqs := [3 \<mapsto> q]\<rparr>
   in mtask_mq_release s 3 = Some ([blank_mq_message\<lparr>msg_source := 9\<rparr>], mtask_mq_init)"
proof -
  let ?m = "blank_mq_message\<lparr>msg_source := 9\<rparr>"
  let ?q = "mq_store (mtask_mq_create 7) ?m\<lparr>mq_release := 1\<rparr>"
  have inv: "mq_inv (mtask_mq_create 7)"
    by (simp add: mq_inv_def mtask_mq_create_def DEFAULT_QUEUE_SIZE_def)
  have "mq_contents ?q = mq_contents (mq_store (mtask_mq_create 7) ?m)"
    by (rule mq_contents_cong) simp_all
  then have c: "mq_contents ?q = [?m]"
    using mq_store_contents [OF inv] by (simp add: mq_contents_def mtask_mq_length_def mtask_mq_create_def)
  have "mq_inv ?q" "mq_next ?q = None" "mq_release ?q \<noteq> 0"
    using mq_store_inv [OF inv, of ?m]
    by (simp_all add: mq_inv_def mq_store_def mtask_mq_create_def DEFAULT_QUEUE_SIZE_def Let_def)
  from mq_release_drops_all [of "mtask_mq_init\<lparr>mqs := [3 \<mapsto> ?q]\<rparr>" 3, OF _ this] c
  show ?thesis by (simp add: mtask_mq_init_def)
qed

end
