(* ===== verification/Mq_Protocol.thy ===== *)
theory Mq_Protocol
  imports Mq
begin

text \<open>
  How the threads of \<open>mtask-src/mtask_server.c\<close> and the senders use the message queues of
  \<open>mtask_mq.c\<close>: a transition system whose steps are the operations of \<open>Mq\<close>. A \<open>hand\<close> is a
  local variable of type \<open>struct message_queue *\<close> of some thread (\<open>q\<close> and \<open>nq\<close> of
  \<open>mtask_context_message_dispatch\<close>, \<open>queue\<close> of \<open>mtask_context_new\<close>); the steps of all
  threads interleave freely. The guards are what the callers know: a message is pushed only
  while the service is referenced, so before its queue is marked for release, and a worker
  that has the service (\<open>mtask_handle_grab\<close> succeeded) keeps it from being released.
\<close>

record sched =
  sc_mq :: mq_state
  sc_hand :: "nat \<Rightarrow> mqid option"

definition sched_init :: sched where
  "sched_init = \<lparr>sc_mq = mtask_mq_init, sc_hand = (\<lambda>_. None)\<rparr>"

inductive sched_step :: "sched \<Rightarrow> sched \<Rightarrow> bool" where
  create: "sc_hand c i = None \<Longrightarrow> mqs (sc_mq c) a = None \<Longrightarrow>
    sched_step c (c\<lparr>sc_mq := mq_upd (sc_mq c) a (mtask_mq_create h),
                    sc_hand := (sc_hand c)(i := Some a)\<rparr>)"
| send: "mqs (sc_mq c) a = Some q \<Longrightarrow> mq_release q = 0 \<Longrightarrow>
    mtask_mq_push (sc_mq c) a m = Some s \<Longrightarrow> sched_step c (c\<lparr>sc_mq := s\<rparr>)"
| take: "sc_hand c i = None \<Longrightarrow> mtask_globalmq_pop (sc_mq c) = Some (Some a, s) \<Longrightarrow>
    sched_step c (c\<lparr>sc_mq := s, sc_hand := (sc_hand c)(i := Some a)\<rparr>)"
| work: "sc_hand c i = Some a \<Longrightarrow> mqs (sc_mq c) a = Some q \<Longrightarrow> mq_release q = 0 \<Longrightarrow>
    mtask_mq_pop q = (Some m, q') \<Longrightarrow> sched_step c (c\<lparr>sc_mq := mq_upd (sc_mq c) a q'\<rparr>)"
| idle: "sc_hand c i = Some a \<Longrightarrow> mqs (sc_mq c) a = Some q \<Longrightarrow> mq_release q = 0 \<Longrightarrow>
    mtask_mq_pop q = (None, q') \<Longrightarrow>
    sched_step c (c\<lparr>sc_mq := mq_upd (sc_mq c) a q', sc_hand := (sc_hand c)(i := None)\<rparr>)"
| putback: "sc_hand c i = Some a \<Longrightarrow> mtask_globalmq_push (sc_mq c) a = Some s \<Longrightarrow>
    sched_step c (c\<lparr>sc_mq := s, sc_hand := (sc_hand c)(i := None)\<rparr>)"
| mark: "mqs (sc_mq c) a = Some q \<Longrightarrow> mq_release q = 0 \<Longrightarrow>
    mtask_mq_mark_release (sc_mq c) a = Some s \<Longrightarrow> sched_step c (c\<lparr>sc_mq := s\<rparr>)"
| finish: "sc_hand c i = Some a \<Longrightarrow> mtask_mq_release (sc_mq c) a = Some (ms, s) \<Longrightarrow>
    sched_step c (c\<lparr>sc_mq := s, sc_hand := (sc_hand c)(i := None)\<rparr>)"

inductive sched_reach :: "sched \<Rightarrow> bool" where
  start: "sched_reach sched_init"
| step: "sched_reach c \<Longrightarrow> sched_step c c' \<Longrightarrow> sched_reach c'"

section \<open>The invariant\<close>

text \<open>
  A queue is in the global list or in a hand exactly when its \<open>in_global\<close> flag is set or
  it has been marked for release; the list and the hands never share a queue.
\<close>

definition queue_ok :: "sched \<Rightarrow> mqid list \<Rightarrow> mqid \<Rightarrow> message_queue \<Rightarrow> bool" where
  "queue_ok c xs a q \<longleftrightarrow> mq_inv q \<and> (a \<notin> set xs \<longrightarrow> mq_next q = None) \<and>
     (a \<in> set xs \<or> a \<in> ran (sc_hand c) \<longleftrightarrow> mq_in_global q \<noteq> 0 \<or> mq_release q \<noteq> 0) \<and>
     (mq_in_global q = 0 \<or> mq_in_global q = MQ_IN_GLOBAL)"

definition sched_inv :: "sched \<Rightarrow> mqid list \<Rightarrow> bool" where
  "sched_inv c xs \<longleftrightarrow> glist (sc_mq c) xs \<and>
     (\<forall>i j a. sc_hand c i = Some a \<longrightarrow> sc_hand c j = Some a \<longrightarrow> i = j) \<and>
     (\<forall>i a. sc_hand c i = Some a \<longrightarrow> a \<notin> set xs \<and> mqs (sc_mq c) a \<noteq> None) \<and>
     (\<forall>a q. mqs (sc_mq c) a = Some q \<longrightarrow> queue_ok c xs a q)"

lemma sched_invI:
  assumes "glist (sc_mq c) xs"
    and "\<And>i j a. sc_hand c i = Some a \<Longrightarrow> sc_hand c j = Some a \<Longrightarrow> i = j"
    and "\<And>i a. sc_hand c i = Some a \<Longrightarrow> a \<notin> set xs \<and> mqs (sc_mq c) a \<noteq> None"
    and "\<And>a q. mqs (sc_mq c) a = Some q \<Longrightarrow> queue_ok c xs a q"
  shows "sched_inv c xs"
  unfolding sched_inv_def using assms by blast

lemma sched_invD:
  assumes "sched_inv c xs"
  shows "glist (sc_mq c) xs"
    and "sc_hand c i = Some a \<Longrightarrow> sc_hand c j = Some a \<Longrightarrow> i = j"
    and "sc_hand c i = Some a \<Longrightarrow> a \<notin> set xs"
    and "sc_hand c i = Some a \<Longrightarrow> \<exists>q. mqs (sc_mq c) a = Some q"
    and "mqs (sc_mq c) a = Some q \<Longrightarrow> queue_ok c xs a q"
  using assms by (auto simp: sched_inv_def)

lemma glist_mem: "glist s xs \<Longrightarrow> a \<in> set xs \<Longrightarrow> \<exists>q. mqs s a = Some q"
  by (auto simp: glist_def dest: gchain_mem)

lemma glist_upd:
  "glist s xs \<Longrightarrow> mqs s a = Some q \<Longrightarrow> mq_next q' = mq_next q \<Longrightarrow> glist (mq_upd s a q') xs"
  by (auto simp: glist_def mq_upd_def intro: gchain_update)

lemma glist_fresh: "glist s xs \<Longrightarrow> a \<notin> set xs \<Longrightarrow> glist (mq_upd s a q') xs"
  by (auto simp: glist_def mq_upd_def) (subst gchain_cong [of xs _ "mqs s"], auto)

lemma mqs_upd [simp]: "mqs (mq_upd s a q) b = (if b = a then Some q else mqs s b)"
  by (simp add: mq_upd_def)

lemma ran_upd_None:
  assumes "f i = Some a" "\<forall>j. f j = Some a \<longrightarrow> j = i"
  shows "ran (f(i := None)) = ran f - {a}"
proof -
  have "(\<exists>j. (f(i := None)) j = Some b) \<longleftrightarrow> (\<exists>j. f j = Some b) \<and> b \<noteq> a" for b
    using assms by (metis fun_upd_apply option.distinct(1) option.inject)
  then show ?thesis by (auto simp: ran_def)
qed

lemma mq_store_frame [simp]:
  "mq_next (mq_store q m) = mq_next q" "mq_release (mq_store q m) = mq_release q"
  "mq_in_global (mq_store q m) = mq_in_global q"
  by (simp_all add: mq_store_def expand_queue_def Let_def)

lemma mq_pop_frame:
  assumes "mtask_mq_pop q = (r, q')"
  shows "mq_next q' = mq_next q" "mq_release q' = mq_release q"
    "mq_in_global q' = (if r = None then 0 else mq_in_global q)"
  using assms by (auto simp: mtask_mq_pop_def Let_def split: if_splits prod.splits)

lemma mq_pop_keeps_inv: "mtask_mq_pop q = (r, q') \<Longrightarrow> mq_inv q \<Longrightarrow> mq_inv q'"
  using ring.pop_inv by (metis snd_conv)

lemma mq_create_inv: "mq_inv (mtask_mq_create h)"
  by (simp add: mtask_mq_create_def mq_inv_def DEFAULT_QUEUE_SIZE_def)

text \<open>
  Two steps all rules are built of: changing one queue in place, and appending a queue that
  is neither listed nor held any more to the global list.
\<close>

lemma inv_update:
  assumes inv: "sched_inv c xs" and q: "mqs (sc_mq c) a = Some q"
    and q': "mq_inv q'" "mq_next q' = mq_next q" "mq_release q' = mq_release q"
      "mq_in_global q' = mq_in_global q"
  shows "sched_inv (c\<lparr>sc_mq := mq_upd (sc_mq c) a q'\<rparr>) xs"
  unfolding sched_inv_def
  using sched_invD [OF inv] glist_upd [OF _ q, of xs q'] q q'
  by (auto simp: queue_ok_def)

lemma inv_enqueue:
  assumes g: "glist s xs" and q: "mqs s a = Some q" "mq_next q = None" and new: "a \<notin> set xs"
    and push: "mtask_globalmq_push s a = Some s'"
    and hands: "\<And>i j b. h i = Some b \<Longrightarrow> h j = Some b \<Longrightarrow> i = j"
      "\<And>i b. h i = Some b \<Longrightarrow> b \<notin> set xs \<and> b \<noteq> a \<and> mqs s b \<noteq> None"
    and others: "\<And>b p. mqs s b = Some p \<Longrightarrow> b \<noteq> a \<Longrightarrow> queue_ok \<lparr>sc_mq = s, sc_hand = h\<rparr> xs b p"
    and self: "mq_inv q" "mq_in_global q \<noteq> 0 \<or> mq_release q \<noteq> 0"
      "mq_in_global q = 0 \<or> mq_in_global q = MQ_IN_GLOBAL"
  shows "sched_inv \<lparr>sc_mq = s', sc_hand = h\<rparr> (xs @ [a])"
proof -
  obtain s1 where s1: "mtask_globalmq_push s a = Some s1" "glist s1 (xs @ [a])" "same_queues s s1"
      "\<forall>b. b \<notin> set xs \<longrightarrow> mqs s1 b = mqs s b"
    using globalmq_push_glist [OF g q new] by blast
  then have [simp]: "s1 = s'" using push by simp
  have dom: "mqs s b \<noteq> None \<longleftrightarrow> mqs s' b \<noteq> None" for b
    using s1(3) unfolding same_queues_def by (metis \<open>s1 = s'\<close> option.map_disc_iff)
  have "queue_ok \<lparr>sc_mq = s', sc_hand = h\<rparr> (xs @ [a]) b p'" if b: "mqs s' b = Some p'" for b p'
  proof -
    obtain p where p: "mqs s b = Some p" "unlinked p = unlinked p'"
      using same_queuesD [OF s1(3)] b by auto
    have same: "b \<notin> set xs \<Longrightarrow> p = p'"
      using s1(4) p b by simp
    note f = unlinked_fields [OF p(2)]
    show ?thesis
    proof (cases "b = a")
      case True
      with p q have "p = q" by simp
      with True self f show ?thesis by (simp add: queue_ok_def)
    next
      case False
      with others [OF p(1)] f same show ?thesis
        by (simp add: queue_ok_def)
    qed
  qed
  moreover have "h i = Some b \<Longrightarrow> b \<notin> set (xs @ [a]) \<and> mqs s' b \<noteq> None" for i b
    using hands(2) [of i b] dom [of b] by simp
  ultimately show ?thesis
    using s1(2) hands(1) by (simp add: sched_inv_def)
qed

lemma inv_create:
  assumes inv: "sched_inv c xs" and i: "sc_hand c i = None" and a: "mqs (sc_mq c) a = None"
  shows "sched_inv (c\<lparr>sc_mq := mq_upd (sc_mq c) a (mtask_mq_create h),
                      sc_hand := (sc_hand c)(i := Some a)\<rparr>) xs"
proof -
  have new: "a \<notin> set xs" "\<And>j. sc_hand c j \<noteq> Some a"
    using sched_invD(1,4) [OF inv] glist_mem a by fastforce+
  have "queue_ok (c\<lparr>sc_mq := mq_upd (sc_mq c) a (mtask_mq_create h),
                      sc_hand := (sc_hand c)(i := Some a)\<rparr>) xs b p"
    if "mqs (mq_upd (sc_mq c) a (mtask_mq_create h)) b = Some p" for b p
    using that sched_invD(5) [OF inv] mq_create_inv [of h] i
    by (auto simp: queue_ok_def ran_map_upd mtask_mq_create_def MQ_IN_GLOBAL_def split: if_splits)
  moreover have "glist (mq_upd (sc_mq c) a (mtask_mq_create h)) xs"
    using glist_fresh [OF sched_invD(1) [OF inv] new(1)] .
  ultimately show ?thesis
    using new sched_invD(2-4) [OF inv] by (fastforce simp: sched_inv_def)
qed

lemma inv_free_queue:
  assumes "sched_inv c xs" "mqs (sc_mq c) a = Some q" "mq_in_global q = 0" "mq_release q = 0"
  shows "a \<notin> set xs" "mq_next q = None" "sc_hand c i \<noteq> Some a"
  using sched_invD(5) [OF assms(1,2)] assms(3,4) by (auto simp: queue_ok_def ranI)

text \<open>A queue that is neither listed nor held is changed and appended to the list.\<close>

lemma inv_change_enqueue:
  assumes inv: "sched_inv c xs" and q: "mqs (sc_mq c) a = Some q" "mq_in_global q = 0" "mq_release q = 0"
    and q': "mq_inv q'" "mq_next q' = None" "mq_in_global q' \<noteq> 0 \<or> mq_release q' \<noteq> 0"
      "mq_in_global q' = 0 \<or> mq_in_global q' = MQ_IN_GLOBAL"
    and push: "mtask_globalmq_push (mq_upd (sc_mq c) a q') a = Some s"
  shows "sched_inv (c\<lparr>sc_mq := s\<rparr>) (xs @ [a])"
proof -
  note free = inv_free_queue [OF inv q]
  have "sched_inv \<lparr>sc_mq = s, sc_hand = sc_hand c\<rparr> (xs @ [a])"
  proof (rule inv_enqueue [OF _ _ q'(2) free(1) push])
    show "glist (mq_upd (sc_mq c) a q') xs"
      by (rule glist_fresh [OF sched_invD(1) [OF inv] free(1)])
    show "queue_ok \<lparr>sc_mq = mq_upd (sc_mq c) a q', sc_hand = sc_hand c\<rparr> xs b p"
      if "mqs (mq_upd (sc_mq c) a q') b = Some p" "b \<noteq> a" for b p
      using sched_invD(5) [OF inv, of b p] that by (simp add: queue_ok_def)
    show "b \<notin> set xs \<and> b \<noteq> a \<and> mqs (mq_upd (sc_mq c) a q') b \<noteq> None" if "sc_hand c i = Some b" for i b
      using that sched_invD(3,4) [OF inv that] free(3) by auto
  qed (use q' sched_invD(2) [OF inv] in auto)
  then show ?thesis by (cases c) simp
qed

lemma inv_send:
  assumes inv: "sched_inv c xs" and q: "mqs (sc_mq c) a = Some q" "mq_release q = 0"
    and push: "mtask_mq_push (sc_mq c) a m = Some s"
  shows "\<exists>ys. sched_inv (c\<lparr>sc_mq := s\<rparr>) ys"
proof -
  have ok: "mq_inv q" using sched_invD(5) [OF inv q(1)] by (simp add: queue_ok_def)
  show ?thesis
  proof (cases "mq_in_global q = 0")
    case True
    with push q have "mtask_globalmq_push (mq_upd (sc_mq c) a
        ((mq_store q m)\<lparr>mq_in_global := MQ_IN_GLOBAL\<rparr>)) a = Some s"
      by (simp add: mtask_mq_push_def Let_def)
    moreover have "mq_inv ((mq_store q m)\<lparr>mq_in_global := MQ_IN_GLOBAL\<rparr>)"
      using mq_store_inv [OF ok] by (simp add: mq_inv_def)
    ultimately show ?thesis
      using inv_change_enqueue [OF inv q(1) True q(2)] inv_free_queue(2) [OF inv q(1) True q(2)]
      by (fastforce simp: MQ_IN_GLOBAL_def)
  next
    case False
    with push q have "s = mq_upd (sc_mq c) a (mq_store q m)"
      by (simp add: mtask_mq_push_def Let_def)
    with inv_update [OF inv q(1) mq_store_inv [OF ok]] show ?thesis by auto
  qed
qed

lemma inv_mark:
  assumes inv: "sched_inv c xs" and q: "mqs (sc_mq c) a = Some q" "mq_release q = 0"
    and mark: "mtask_mq_mark_release (sc_mq c) a = Some s"
  shows "\<exists>ys. sched_inv (c\<lparr>sc_mq := s\<rparr>) ys"
proof -
  have ok: "mq_inv (q\<lparr>mq_release := 1\<rparr>)" "mq_in_global q = 0 \<or> mq_in_global q = MQ_IN_GLOBAL"
    using sched_invD(5) [OF inv q(1)] by (auto simp: queue_ok_def mq_inv_def)
  show ?thesis
  proof (cases "mq_in_global q = MQ_IN_GLOBAL")
    case True
    with mark q have "s = mq_upd (sc_mq c) a (q\<lparr>mq_release := 1\<rparr>)"
      by (simp add: mtask_mq_mark_release_def Let_def)
    moreover have "sched_inv (c\<lparr>sc_mq := mq_upd (sc_mq c) a (q\<lparr>mq_release := 1\<rparr>)\<rparr>) xs"
      unfolding sched_inv_def
      using sched_invD [OF inv] glist_upd [OF _ q(1), of xs "q\<lparr>mq_release := 1\<rparr>"] q ok True
      by (auto simp: queue_ok_def MQ_IN_GLOBAL_def)
    ultimately show ?thesis by blast
  next
    case False
    with ok have 0: "mq_in_global q = 0" by simp
    with mark q have "mtask_globalmq_push (mq_upd (sc_mq c) a (q\<lparr>mq_release := 1\<rparr>)) a = Some s"
      by (simp add: mtask_mq_mark_release_def Let_def MQ_IN_GLOBAL_def)
    with inv_change_enqueue [OF inv q(1) 0 q(2) ok(1)] inv_free_queue(2) [OF inv q(1) 0 q(2)] 0
    show ?thesis by fastforce
  qed
qed

lemma inv_take:
  assumes inv: "sched_inv c xs" and i: "sc_hand c i = None"
    and pop: "mtask_globalmq_pop (sc_mq c) = Some (Some a, s)"
  shows "\<exists>ys. sched_inv (c\<lparr>sc_mq := s, sc_hand := (sc_hand c)(i := Some a)\<rparr>) ys"
proof (cases xs)
  case Nil
  with sched_invD(1) [OF inv] pop show ?thesis by (simp add: globalmq_pop_glist_Nil)
next
  case (Cons b ys)
  then have g: "glist (sc_mq c) (a # ys)" and xs: "xs = a # ys"
    using sched_invD(1) [OF inv] globalmq_pop_glist_Cons [of "sc_mq c" b ys] pop by auto
  obtain q where s: "glist s ys" "same_queues (sc_mq c) s" "mqs s a = Some q" "mq_next q = None"
      "\<And>b. b \<noteq> a \<Longrightarrow> mqs s b = mqs (sc_mq c) b"
    using globalmq_pop_glist_Cons [OF g] pop by auto
  have a: "a \<notin> set ys" using g by (simp add: glist_def)
  have noa: "sc_hand c j \<noteq> Some a" for j
    using sched_invD(3) [OF inv, of j a] xs by auto
  let ?c = "c\<lparr>sc_mq := s, sc_hand := (sc_hand c)(i := Some a)\<rparr>"
  have "sched_inv ?c ys"
  proof (rule sched_invI)
    show "glist (sc_mq ?c) ys" using s(1) by simp
  next
    fix j k b assume *: "sc_hand ?c j = Some b" "sc_hand ?c k = Some b"
    show "j = k"
    proof (cases "b = a")
      case True
      with * noa show ?thesis by (simp split: if_splits)
    next
      case False
      with * have "sc_hand c j = Some b" "sc_hand c k = Some b" by (simp_all split: if_splits)
      then show ?thesis by (rule sched_invD(2) [OF inv])
    qed
  next
    fix j b assume *: "sc_hand ?c j = Some b"
    show "b \<notin> set ys \<and> mqs (sc_mq ?c) b \<noteq> None"
    proof (cases "b = a")
      case True
      with a s(3) show ?thesis by simp
    next
      case False
      with * have j: "sc_hand c j = Some b" by (simp split: if_splits)
      with False sched_invD(3,4) [OF inv j] s(5) xs show ?thesis by auto
    qed
  next
    fix b p assume "mqs (sc_mq ?c) b = Some p"
    then have b: "mqs s b = Some p" by simp
    obtain p0 where p0: "mqs (sc_mq c) b = Some p0" "unlinked p0 = unlinked p"
      using same_queuesD [OF s(2) b] by auto
    note f = unlinked_fields [OF p0(2)]
    have "b \<noteq> a \<Longrightarrow> p0 = p" using s(5) b p0(1) by simp
    with sched_invD(5) [OF inv p0(1)] f s b i a show "queue_ok ?c ys b p"
      by (cases "b = a") (simp_all add: queue_ok_def ran_map_upd xs)
  qed
  then show ?thesis by blast
qed

lemma inv_drop_hand:
  assumes inv: "sched_inv c xs" and i: "sc_hand c i = Some a"
    and g: "glist s xs" and others: "\<And>b. b \<noteq> a \<Longrightarrow> mqs s b = mqs (sc_mq c) b"
    and self: "\<And>q. mqs s a = Some q \<Longrightarrow> mq_inv q \<and> mq_next q = None \<and> mq_in_global q = 0 \<and> mq_release q = 0"
  shows "sched_inv (c\<lparr>sc_mq := s, sc_hand := (sc_hand c)(i := None)\<rparr>) xs"
proof -
  have r: "ran ((sc_hand c)(i := None)) = ran (sc_hand c) - {a}"
    using ran_upd_None [of "sc_hand c" i a] i sched_invD(2) [OF inv] by blast
  have a: "a \<notin> set xs" using sched_invD(3) [OF inv i] .
  let ?c = "c\<lparr>sc_mq := s, sc_hand := (sc_hand c)(i := None)\<rparr>"
  show ?thesis
  proof (rule sched_invI)
    show "glist (sc_mq ?c) xs" using g by simp
  next
    fix j k b assume "sc_hand ?c j = Some b" "sc_hand ?c k = Some b"
    then have "sc_hand c j = Some b" "sc_hand c k = Some b" by (simp_all split: if_splits)
    then show "j = k" by (rule sched_invD(2) [OF inv])
  next
    fix j b assume "sc_hand ?c j = Some b"
    then have j: "j \<noteq> i" "sc_hand c j = Some b" by (simp_all split: if_splits)
    with sched_invD(2) [OF inv i] have "b \<noteq> a" by metis
    with others [of b] sched_invD(3,4) [OF inv j(2)] show "b \<notin> set xs \<and> mqs (sc_mq ?c) b \<noteq> None"
      by auto
  next
    fix b p assume "mqs (sc_mq ?c) b = Some p"
    then show "queue_ok ?c xs b p"
      using self others [of b] sched_invD(5) [OF inv, of b p] a r
      by (cases "b = a") (simp_all add: queue_ok_def)
  qed
qed

lemma inv_putback:
  assumes inv: "sched_inv c xs" and i: "sc_hand c i = Some a"
    and push: "mtask_globalmq_push (sc_mq c) a = Some s"
  shows "sched_inv (c\<lparr>sc_mq := s, sc_hand := (sc_hand c)(i := None)\<rparr>) (xs @ [a])"
proof -
  let ?h = "(sc_hand c)(i := None)"
  obtain q where q: "mqs (sc_mq c) a = Some q" using sched_invD(4) [OF inv i] by blast
  have a: "a \<notin> set xs" using sched_invD(3) [OF inv i] .
  have r: "ran ?h = ran (sc_hand c) - {a}"
    using ran_upd_None [of "sc_hand c" i a] i sched_invD(2) [OF inv] by blast
  have ok: "mq_inv q" "mq_next q = None" "mq_in_global q \<noteq> 0 \<or> mq_release q \<noteq> 0"
      "mq_in_global q = 0 \<or> mq_in_global q = MQ_IN_GLOBAL"
    using sched_invD(5) [OF inv q] a i by (auto simp: queue_ok_def ranI)
  have "sched_inv \<lparr>sc_mq = s, sc_hand = ?h\<rparr> (xs @ [a])"
  proof (rule inv_enqueue [OF sched_invD(1) [OF inv] q ok(2) a push])
    show "queue_ok \<lparr>sc_mq = sc_mq c, sc_hand = ?h\<rparr> xs b p"
      if "mqs (sc_mq c) b = Some p" "b \<noteq> a" for b p
      using sched_invD(5) [OF inv, of b p] that r by (simp add: queue_ok_def)
  next
    fix j k b assume "?h j = Some b" "?h k = Some b"
    then have "sc_hand c j = Some b" "sc_hand c k = Some b" by (simp_all split: if_splits)
    then show "j = k" by (rule sched_invD(2) [OF inv])
  next
    fix j b assume "?h j = Some b"
    then have j: "j \<noteq> i" "sc_hand c j = Some b" by (simp_all split: if_splits)
    with sched_invD(2) [OF inv i] have "b \<noteq> a" by metis
    with sched_invD(3,4) [OF inv j(2)] show "b \<notin> set xs \<and> b \<noteq> a \<and> mqs (sc_mq c) b \<noteq> None" by auto
  qed (use ok in auto)
  then show ?thesis by (cases c) simp
qed

lemma inv_finish:
  assumes inv: "sched_inv c xs" and i: "sc_hand c i = Some a"
    and rel: "mtask_mq_release (sc_mq c) a = Some (ms, s)"
  shows "\<exists>ys. sched_inv (c\<lparr>sc_mq := s, sc_hand := (sc_hand c)(i := None)\<rparr>) ys"
proof -
  obtain q where q: "mqs (sc_mq c) a = Some q" using sched_invD(4) [OF inv i] by blast
  show ?thesis
  proof (cases "mq_release q = 0")
    case True
    with rel q have "mtask_globalmq_push (sc_mq c) a = Some s"
      by (simp add: mtask_mq_release_def)
    with inv_putback [OF inv i] show ?thesis by blast
  next
    case False
    with rel q have s: "s = sc_mq c\<lparr>mqs := (mqs (sc_mq c))(a := None)\<rparr>"
      by (auto simp: mtask_mq_release_def drop_queue_def split: prod.splits if_splits)
    have a: "a \<notin> set xs" using sched_invD(3) [OF inv i] .
    then have "gchain (mqs s) xs \<longleftrightarrow> gchain (mqs (sc_mq c)) xs"
      by (intro gchain_cong) (auto simp: s)
    then have "glist s xs"
      using sched_invD(1) [OF inv] by (simp add: glist_def s)
    then have "sched_inv (c\<lparr>sc_mq := s, sc_hand := (sc_hand c)(i := None)\<rparr>) xs"
      by (rule inv_drop_hand [OF inv i]) (simp_all add: s)
    then show ?thesis by blast
  qed
qed

lemma sched_step_inv: "sched_step c c' \<Longrightarrow> sched_inv c xs \<Longrightarrow> \<exists>ys. sched_inv c' ys"
proof (induction rule: sched_step.induct)
  case (create c i a h)
  then show ?case by (blast intro: inv_create)
next
  case (send c a q m s)
  then show ?case by (blast intro: inv_send)
next
  case (take c i a s)
  then show ?case by (blast intro: inv_take)
next
  case (work c i a q m q')
  have "mq_inv q" using sched_invD(5) [OF work.prems work.hyps(2)] by (simp add: queue_ok_def)
  with inv_update [OF work.prems work.hyps(2)] work.hyps(4) show ?case
    by (metis mq_pop_frame mq_pop_keeps_inv option.distinct(1))
next
  case (idle c i a q q')
  have ok: "mq_inv q" "mq_next q = None"
    using sched_invD(3,5) [OF idle.prems] idle.hyps(1,2) by (auto simp: queue_ok_def)
  have q': "mq_inv q'" "mq_next q' = None" "mq_release q' = 0" "mq_in_global q' = 0"
    using mq_pop_frame [OF idle.hyps(4)] mq_pop_keeps_inv [OF idle.hyps(4)] ok idle.hyps(3) by auto
  have "glist (mq_upd (sc_mq c) a q') xs"
    using sched_invD(1,3) [OF idle.prems] idle.hyps(1) by (blast intro: glist_fresh)
  from inv_drop_hand [OF idle.prems idle.hyps(1) this] q' show ?case by (intro exI) simp
next
  case (putback c i a s)
  then show ?case by (blast intro: inv_putback)
next
  case (mark c a q s)
  then show ?case by (blast intro: inv_mark)
next
  case (finish c i a ms s)
  then show ?case by (blast intro: inv_finish)
qed

lemma sched_reach_inv: "sched_reach c \<Longrightarrow> \<exists>xs. sched_inv c xs"
proof (induction rule: sched_reach.induct)
  case start
  have "sched_inv sched_init []"
    by (simp add: sched_inv_def sched_init_def mtask_mq_init_def glist_def)
  then show ?case by blast
next
  case (step c c')
  then show ?case using sched_step_inv by blast
qed

section \<open>Properties\<close>

text \<open>
  C1. Whatever the interleaving of senders, workers, creation and release, a message queue is
  in at most one hand, never in a hand and in the global list at once, and never twice in the
  global list: two worker threads never run the same service at the same time.
\<close>

theorem queue_held_once:
  assumes "sched_reach c"
  shows "(\<forall>i j a. sc_hand c i = Some a \<longrightarrow> sc_hand c j = Some a \<longrightarrow> i = j) \<and>
    (\<exists>xs. glist (sc_mq c) xs \<and> (\<forall>i. \<forall>a\<in>set xs. sc_hand c i \<noteq> Some a))"
proof -
  obtain xs where "sched_inv c xs" using sched_reach_inv [OF assms] by blast
  then show ?thesis by (meson sched_invD(1-3))
qed

definition sched_example :: sched where
  "sched_example = \<lparr>sc_mq = mq_upd mtask_mq_init 3 (mtask_mq_create 9), sc_hand = [0 \<mapsto> 3]\<rparr>"

lemma sched_example_reach: "sched_reach sched_example"
proof -
  have "sched_step sched_init (sched_init\<lparr>sc_mq := mq_upd (sc_mq sched_init) 3 (mtask_mq_create 9),
      sc_hand := (sc_hand sched_init)(0 := Some 3)\<rparr>)"
    by (rule sched_step.create) (simp_all add: sched_init_def mtask_mq_init_def)
  then have "sched_step sched_init sched_example"
    by (simp add: sched_init_def sched_example_def)
  with sched_reach.start show ?thesis by (rule sched_reach.step)
qed

theorem queue_held_once_witness:
  "{j. sc_hand sched_example j = Some 3} = {0}"
proof -
  have "sc_hand sched_example 0 = Some 3" by (simp add: sched_example_def)
  then show ?thesis using conjunct1 [OF queue_held_once [OF sched_example_reach]] by blast
qed

text \<open>Under the invariant no operation fails.\<close>

lemma sched_inv_progress:
  assumes inv: "sched_inv c xs"
  shows "mtask_globalmq_pop (sc_mq c) \<noteq> None \<and>
    (\<forall>a q m. mqs (sc_mq c) a = Some q \<longrightarrow> mq_release q = 0 \<longrightarrow>
       mtask_mq_push (sc_mq c) a m \<noteq> None \<and> mtask_mq_mark_release (sc_mq c) a \<noteq> None) \<and>
    (\<forall>i a. sc_hand c i = Some a \<longrightarrow>
       mtask_globalmq_push (sc_mq c) a \<noteq> None \<and> mtask_mq_release (sc_mq c) a \<noteq> None)"
proof -
  have g: "glist (sc_mq c) xs" using sched_invD(1) [OF inv] .
  have pop: "mtask_globalmq_pop (sc_mq c) \<noteq> None"
    using g globalmq_pop_glist_Nil globalmq_pop_glist_Cons by (cases xs) fastforce+
  have free: "mtask_globalmq_push (mq_upd (sc_mq c) a q') a \<noteq> None"
    if "a \<notin> set xs" "mq_next q' = None" for a q'
    using globalmq_push_glist [OF glist_fresh [OF g that(1)] _ that(2) that(1)] by fastforce
  have send: "mtask_mq_push (sc_mq c) a m \<noteq> None \<and> mtask_mq_mark_release (sc_mq c) a \<noteq> None"
    if q: "mqs (sc_mq c) a = Some q" "mq_release q = 0" for a q m
  proof (cases "mq_in_global q = 0")
    case True
    note f = inv_free_queue(1,2) [OF inv q(1) True q(2)]
    with q True free [OF f(1)] show ?thesis
      by (simp add: mtask_mq_push_def mtask_mq_mark_release_def Let_def MQ_IN_GLOBAL_def)
  next
    case False
    with q sched_invD(5) [OF inv q(1)] show ?thesis
      by (auto simp: mtask_mq_push_def mtask_mq_mark_release_def Let_def queue_ok_def)
  qed
  have held: "mtask_globalmq_push (sc_mq c) a \<noteq> None \<and> mtask_mq_release (sc_mq c) a \<noteq> None"
    if i: "sc_hand c i = Some a" for i a
  proof -
    obtain q where q: "mqs (sc_mq c) a = Some q" using sched_invD(4) [OF inv i] by blast
    have a: "a \<notin> set xs" using sched_invD(3) [OF inv i] .
    have ok: "mq_inv q" "mq_next q = None" using sched_invD(5) [OF inv q] a by (auto simp: queue_ok_def)
    have push: "mtask_globalmq_push (sc_mq c) a \<noteq> None"
      using globalmq_push_glist [OF g q ok(2) a] by auto
    obtain q' where d: "drain (mtask_mq_length q + 1) mtask_mq_pop q = (mq_contents q, q')"
      using ring.drain_all [OF ok(1), of "mtask_mq_length q + 1"] by auto
    have "mq_next q' = None"
      using drain_keeps [of "\<lambda>q. mq_next q = None", OF _ ok(2) d] mq_pop_frame(1) by metis
    with push q d show ?thesis by (simp add: mtask_mq_release_def drop_queue_def)
  qed
  show ?thesis using pop send held by blast
qed



end
