(* ===== verification/Timer.thy ===== *)
theory Timer
  imports Mq "HOL-Library.Multiset"
begin

text \<open>
  \<open>mtask-src/mtask_timer.c\<close>: the hierarchical timing wheel. A timer node waits in one of
  256 \<open>near\<close> lists or in one of four levels of 64 lists; every tick moves at most one
  outer list inwards and dispatches one near list. The linked lists are lists (\<open>link\<close>
  appends at the tail), the arrays are functions of the index, which the code always masks
  into range. \<open>tm_time\<close> is an \<open>uint32_t\<close> and wraps around. The clocks (\<open>systime\<close>,
  \<open>gettime\<close>) are arguments.
\<close>

section \<open>Data\<close>

definition TIME_NEAR_SHIFT :: nat where "TIME_NEAR_SHIFT = 8"
definition TIME_NEAR :: u32 where "TIME_NEAR = 256"
definition TIME_LEVEL_SHIFT :: nat where "TIME_LEVEL_SHIFT = 6"
definition TIME_NEAR_MASK :: u32 where "TIME_NEAR_MASK = 255"
definition TIME_LEVEL_MASK :: u32 where "TIME_LEVEL_MASK = 63"

definition PTYPE_RESPONSE :: u64 where "PTYPE_RESPONSE = 1"
definition MESSAGE_TYPE_SHIFT :: nat where "MESSAGE_TYPE_SHIFT = 56"

lemmas timer_consts = TIME_NEAR_SHIFT_def TIME_NEAR_def TIME_LEVEL_SHIFT_def
  TIME_NEAR_MASK_def TIME_LEVEL_MASK_def

record timer_node =
  tn_expire :: u32
  tn_handle :: u32
  tn_session :: u32

record timer =
  tm_near :: "nat \<Rightarrow> timer_node list"
  tm_t :: "nat \<Rightarrow> nat \<Rightarrow> timer_node list"
  tm_time :: u32
  tm_current :: u32
  tm_starttime :: u32
  tm_current_point :: u64
  tm_origin_point :: u64

section \<open>Operations\<close>

definition link_near :: "timer \<Rightarrow> nat \<Rightarrow> timer_node \<Rightarrow> timer" where
  "link_near T k node = T\<lparr>tm_near := (tm_near T)(k := tm_near T k @ [node])\<rparr>"

definition link_level :: "timer \<Rightarrow> nat \<Rightarrow> nat \<Rightarrow> timer_node \<Rightarrow> timer" where
  "link_level T i k node = T\<lparr>tm_t := (tm_t T)(i := (tm_t T i)(k := tm_t T i k @ [node]))\<rparr>"

definition clear_near :: "timer \<Rightarrow> nat \<Rightarrow> timer" where
  "clear_near T k = T\<lparr>tm_near := (tm_near T)(k := [])\<rparr>"

definition clear_level :: "timer \<Rightarrow> nat \<Rightarrow> nat \<Rightarrow> timer" where
  "clear_level T i k = T\<lparr>tm_t := (tm_t T)(i := (tm_t T i)(k := []))\<rparr>"

text \<open>The loop of \<open>add_node\<close> that looks for the level.\<close>

function find_level :: "nat \<Rightarrow> u32 \<Rightarrow> u32 \<Rightarrow> u32 \<Rightarrow> nat" where
  "find_level i msk time current_time =
     (if i < 3 then
        if (time OR (msk - 1)) = (current_time OR (msk - 1)) then i
        else find_level (i + 1) (push_bit TIME_LEVEL_SHIFT msk) time current_time
      else i)"
  by pat_completeness auto
termination
  by (relation "measure (\<lambda>(i, _). 3 - i)") auto

declare find_level.simps [simp del]

definition add_node :: "timer \<Rightarrow> timer_node \<Rightarrow> timer" where
  "add_node T node =
     (let time = tn_expire node; current_time = tm_time T in
      if (time OR TIME_NEAR_MASK) = (current_time OR TIME_NEAR_MASK)
      then link_near T (unat (time AND TIME_NEAR_MASK)) node
      else let i = find_level 0 (push_bit TIME_LEVEL_SHIFT TIME_NEAR) time current_time
           in link_level T i
                (unat (drop_bit (TIME_NEAR_SHIFT + i * TIME_LEVEL_SHIFT) time AND TIME_LEVEL_MASK)) node)"

text \<open>
  A request to the timer is the pair of the delay (a C \<open>int\<close>, as a word) and the event.
\<close>

type_synonym timer_req = "u32 \<times> u32 \<times> u32"

definition timer_add :: "timer \<Rightarrow> timer_req \<Rightarrow> timer" where
  "timer_add T req = (case req of (time, handle, session) \<Rightarrow>
     add_node T \<lparr>tn_expire = time + tm_time T, tn_handle = handle, tn_session = session\<rparr>)"

definition move_list :: "timer \<Rightarrow> nat \<Rightarrow> nat \<Rightarrow> timer" where
  "move_list T level idx = foldl add_node (clear_level T level idx) (tm_t T level idx)"

text \<open>
  The \<open>while\<close> of \<open>timer_shift\<close>. The C loop has no bound on \<open>i\<close>; a count \<open>ct\<close> that is not
  0 has a nonzero digit at one of the four levels, so the guard \<open>i < 4\<close> is never what ends it.
\<close>

function shift_loop :: "timer \<Rightarrow> u32 \<Rightarrow> u32 \<Rightarrow> u32 \<Rightarrow> nat \<Rightarrow> timer" where
  "shift_loop T ct msk time i =
     (if i < 4 \<and> (ct AND (msk - 1)) = 0 then
        let idx = unat (time AND TIME_LEVEL_MASK) in
        if idx \<noteq> 0 then move_list T i idx
        else shift_loop T ct (push_bit TIME_LEVEL_SHIFT msk) (drop_bit TIME_LEVEL_SHIFT time) (i + 1)
      else T)"
  by pat_completeness auto
termination
  by (relation "measure (\<lambda>(T, ct, msk, time, i). 4 - i)") auto

declare shift_loop.simps [simp del]

definition timer_shift :: "timer \<Rightarrow> timer" where
  "timer_shift T =
     (let ct = tm_time T + 1; T1 = T\<lparr>tm_time := ct\<rparr> in
      if ct = 0 then move_list T1 3 0
      else shift_loop T1 ct TIME_NEAR (drop_bit TIME_NEAR_SHIFT ct) 0)"

text \<open>\<open>dispatch_list\<close> pushes one response message per node: the handle and the message.\<close>

definition timer_message :: "u32 \<Rightarrow> mtask_message" where
  "timer_message session = \<lparr>msg_source = 0, msg_session = session, msg_data = None,
     msg_sz = push_bit MESSAGE_TYPE_SHIFT PTYPE_RESPONSE\<rparr>"

definition dispatch_list :: "timer_node list \<Rightarrow> (u32 \<times> mtask_message) list" where
  "dispatch_list current = map (\<lambda>n. (tn_handle n, timer_message (tn_session n))) current"

text \<open>
  \<open>timer_execute\<close> gives the lock up while it dispatches. The first argument is what the
  other threads add meanwhile, one list of requests for each time the lock is released;
  the rest of it is returned.
\<close>

fun timer_execute :: "timer_req list list \<Rightarrow> timer
    \<Rightarrow> timer \<times> (u32 \<times> mtask_message) list \<times> timer_req list list" where
  "timer_execute [] T =
     (let idx = unat (tm_time T AND TIME_NEAR_MASK) in
      if tm_near T idx = [] then (T, [], [])
      else (clear_near T idx, dispatch_list (tm_near T idx), []))"
| "timer_execute (adds # env) T =
     (let idx = unat (tm_time T AND TIME_NEAR_MASK) in
      if tm_near T idx = [] then (T, [], adds # env)
      else let (T', out, env') = timer_execute env (foldl timer_add (clear_near T idx) adds)
           in (T', dispatch_list (tm_near T idx) @ out, env'))"

definition timer_update :: "timer_req list list \<Rightarrow> timer
    \<Rightarrow> timer \<times> (u32 \<times> mtask_message) list \<times> timer_req list list" where
  "timer_update env T =
     (let (T1, out1, env1) = timer_execute env T;
          T2 = timer_shift T1;
          (T3, out3, env3) = timer_execute env1 T2
      in (T3, out1 @ out3, env3))"

definition timer_create_timer :: timer where
  "timer_create_timer = \<lparr>tm_near = (\<lambda>_. []), tm_t = (\<lambda>_ _. []), tm_time = 0, tm_current = 0,
     tm_starttime = 0, tm_current_point = 0, tm_origin_point = 0\<rparr>"

text \<open>
  \<open>mtask_timeout\<close>: \<open>push\<close> is \<open>mtask_context_push\<close>, true when it succeeds. The result is
  the return value, the new timer and the message pushed at once, if any.
\<close>

definition mtask_timeout :: "(u32 \<Rightarrow> mtask_message \<Rightarrow> bool) \<Rightarrow> timer \<Rightarrow> u32 \<Rightarrow> u32 \<Rightarrow> u32
    \<Rightarrow> int \<times> timer \<times> (u32 \<times> mtask_message) option" where
  "mtask_timeout push T handle time session =
     (if time = 0 then
        (if \<not> push handle (timer_message session) then (-1, T, Some (handle, timer_message session))
         else (sint session, T, Some (handle, timer_message session)))
      else (sint session, timer_add T (time, handle, session), None))"

text \<open>\<open>n\<close> updates in a row, and the messages of each.\<close>

fun timer_run :: "nat \<Rightarrow> timer \<Rightarrow> timer \<times> (u32 \<times> mtask_message) list list" where
  "timer_run 0 T = (T, [])"
| "timer_run (Suc n) T =
     (let (T', out, _) = timer_update [] T; (T'', outs) = timer_run n T' in (T'', out # outs))"

text \<open>\<open>mtask_updatetime\<close> with the clock value \<open>cp = gettime()\<close>; the flag tells of the error report.\<close>

definition mtask_updatetime :: "u64 \<Rightarrow> timer \<Rightarrow> timer \<times> (u32 \<times> mtask_message) list list \<times> bool" where
  "mtask_updatetime cp T =
     (if cp < tm_current_point T then (T\<lparr>tm_current_point := cp\<rparr>, [], True)
      else if cp \<noteq> tm_current_point T then
        let diff = (ucast (cp - tm_current_point T) :: u32);
            oc = tm_current T;
            T1 = T\<lparr>tm_current_point := cp, tm_current := oc + diff\<rparr>;
            T2 = (if tm_current T1 < oc
                  then T1\<lparr>tm_starttime := tm_starttime T1 + 0xffffffff div 100\<rparr> else T1);
            (T3, outs) = timer_run (unat diff) T2
        in (T3, outs, False)
      else (T, [], False))"

definition mtask_timer_init :: "u32 \<Rightarrow> u32 \<Rightarrow> u64 \<Rightarrow> timer" where
  "mtask_timer_init sec cs point =
     timer_create_timer\<lparr>tm_starttime := sec, tm_current := cs,
       tm_current_point := point, tm_origin_point := point\<rparr>"

definition mtask_gettime_fixsec :: "timer \<Rightarrow> u32" where
  "mtask_gettime_fixsec T = tm_starttime T"

definition mtask_gettime :: "timer \<Rightarrow> u32" where
  "mtask_gettime T = tm_current T"

end
