(* ===== verification/Timer_Wheel.thy ===== *)
theory Timer_Wheel
  imports Timer
begin

text \<open>
  Why the timing wheel of \<open>Timer\<close> is right: \<open>place e c\<close> is the slot that \<open>add_node\<close>
  chooses for the expiry time \<open>e\<close> at the time \<open>c\<close>, and the invariant says that every
  node is in the slot that a fresh \<open>add_node\<close> would choose now. A tick breaks that for the
  nodes of one slot at most, the one \<open>timer_shift\<close> moves.
\<close>

section \<open>Arithmetic of the digits\<close>

definition same :: "nat \<Rightarrow> nat \<Rightarrow> nat \<Rightarrow> bool" where
  "same k a b \<longleftrightarrow> a div 2 ^ k = b div 2 ^ k"

definition digit :: "nat \<Rightarrow> nat \<Rightarrow> nat" where
  "digit k a = (a div 2 ^ k) mod 64"

datatype slot = Near nat | Level nat nat

definition place :: "nat \<Rightarrow> nat \<Rightarrow> slot" where
  "place e c =
     (if same 8 e c then Near (e mod 256)
      else if same 14 e c then Level 0 (digit 8 e)
      else if same 20 e c then Level 1 (digit 14 e)
      else if same 26 e c then Level 2 (digit 20 e)
      else Level 3 (digit 26 e))"

text \<open>The slot that becomes stale when the time becomes \<open>c\<close>.\<close>

definition stale :: "nat \<Rightarrow> slot option" where
  "stale c =
     (if c = 0 then Some (Level 3 0)
      else if \<not> 2 ^ 8 dvd c then None
      else if digit 8 c \<noteq> 0 then Some (Level 0 (digit 8 c))
      else if digit 14 c \<noteq> 0 then Some (Level 1 (digit 14 c))
      else if digit 20 c \<noteq> 0 then Some (Level 2 (digit 20 c))
      else if digit 26 c \<noteq> 0 then Some (Level 3 (digit 26 c))
      else None)"

lemma same_mono: "same k a b \<Longrightarrow> k \<le> l \<Longrightarrow> same l a b"
  by (auto simp: same_def le_iff_add power_add div_mult2_eq)

lemma same_next: "\<not> 2 ^ k dvd Suc t \<Longrightarrow> same k t (Suc t)"
  by (simp add: same_def div_Suc dvd_eq_mod_eq_0)

lemma not_same_next: "2 ^ k dvd Suc t \<Longrightarrow> t < e \<Longrightarrow> \<not> same k e t"
proof -
  assume d: "2 ^ k dvd Suc t" and "t < e"
  then have "Suc t div 2 ^ k \<le> e div 2 ^ k" by (simp add: div_le_mono)
  moreover have "Suc t div 2 ^ k = Suc (t div 2 ^ k)"
    using d by (simp add: div_Suc dvd_eq_mod_eq_0)
  ultimately show ?thesis by (simp add: same_def)
qed

lemma same_digit: "same (k + 6) a b \<Longrightarrow> digit k a = digit k b \<Longrightarrow> same k a b"
proof -
  assume "same (k + 6) a b" "digit k a = digit k b"
  then have "(a div 2 ^ k) div 64 = (b div 2 ^ k) div 64" "(a div 2 ^ k) mod 64 = (b div 2 ^ k) mod 64"
    by (simp_all add: same_def digit_def power_add div_mult2_eq)
  then show ?thesis by (metis same_def div_mult_mod_eq)
qed

lemma dvd_digit: "2 ^ k dvd c \<Longrightarrow> 2 ^ (k + 6) dvd c \<longleftrightarrow> digit k c = (0::nat)"
  by (auto simp: digit_def power_add dvd_eq_mod_eq_0 elim!: dvdE)

lemma same_swap: "same k a b \<Longrightarrow> same k e a \<longleftrightarrow> same k e b"
  by (auto simp: same_def)

lemma not_same_far: "a + 2 ^ k \<le> b \<Longrightarrow> \<not> same k a b"
proof -
  assume "a + 2 ^ k \<le> b"
  then have "(a + 2 ^ k) div 2 ^ k \<le> b div 2 ^ k" by (rule div_le_mono)
  moreover have "(a + 2 ^ k) div 2 ^ k = Suc (a div 2 ^ k)"
    by (metis Suc_eq_plus1 div_add_self2 power_not_zero zero_neq_numeral)
  ultimately show ?thesis by (simp add: same_def)
qed

text \<open>The heart of the wheel, without wrap-around: the time steps from \<open>t\<close> to \<open>t + 1 \<le> e\<close>.\<close>

lemma place_step_near:
  assumes "\<not> 2 ^ 8 dvd Suc t"
  shows "place e (Suc t) = place e t"
proof -
  have "\<not> 2 ^ k dvd Suc t" if "8 \<le> k" for k :: nat
    using assms power_le_dvd [OF _ that] by blast
  then have "same k e (Suc t) \<longleftrightarrow> same k e t" if "8 \<le> k" for k
    using same_swap [OF same_next [of k t], of e] that by blast
  then show ?thesis by (simp add: place_def)
qed

lemma same_step:
  assumes "t < e" "2 ^ k dvd Suc t" "\<not> 2 ^ (k + 6) dvd Suc t"
    and away: "same (k + 6) e t \<Longrightarrow> digit k e \<noteq> digit k (Suc t)"
    and l: "l \<le> k \<or> k + 6 \<le> l"
  shows "same l e (Suc t) \<longleftrightarrow> same l e t"
proof -
  have keep: "same l e (Suc t) \<longleftrightarrow> same l e t" if "k + 6 \<le> l" for l
    using same_swap [OF same_next, of l t e] assms(3) power_le_dvd [OF _ that] by blast
  have "\<not> same k e (Suc t)"
    using away keep [of "k + 6"] same_mono [of k e "Suc t" "k + 6"] by (auto simp: digit_def same_def)
  then have "\<not> same l e (Suc t) \<and> \<not> same l e t" if "l \<le> k"
    using same_mono [OF _ that] not_same_next [OF power_le_dvd [OF assms(2) that] assms(1)] by blast
  with keep l show ?thesis by blast
qed

lemma stale_cases:
  assumes "2 ^ 8 dvd c" "0 < c" "c < 2 ^ 32"
  obtains "2 ^ 8 dvd c" "\<not> 2 ^ 14 dvd c" "stale c = Some (Level 0 (digit 8 c))"
  | "2 ^ 8 dvd c" "2 ^ 14 dvd c" "\<not> 2 ^ 20 dvd c" "stale c = Some (Level 1 (digit 14 c))"
  | "2 ^ 8 dvd c" "2 ^ 14 dvd c" "2 ^ 20 dvd c" "\<not> 2 ^ 26 dvd c" "stale c = Some (Level 2 (digit 20 c))"
  | "2 ^ 8 dvd c" "2 ^ 14 dvd c" "2 ^ 20 dvd c" "2 ^ 26 dvd c" "\<not> 2 ^ 32 dvd c"
    "stale c = Some (Level 3 (digit 26 c))"
proof -
  have "\<not> 2 ^ 32 dvd c" using assms(2,3) by (auto dest: dvd_imp_le)
  with that assms dvd_digit [of 8 c] dvd_digit [of 14 c] dvd_digit [of 20 c] dvd_digit [of 26 c]
  show thesis by (auto simp: stale_def)
qed

lemma place_step:
  assumes "t < e" "stale (Suc t) \<noteq> Some (place e t)" "Suc t < 2 ^ 32"
  shows "place e (Suc t) = place e t"
proof (cases "2 ^ 8 dvd Suc t")
  case False
  then show ?thesis by (rule place_step_near)
next
  case True
  note down = not_same_next [OF _ assms(1)]
  note step = same_step [OF assms(1)]
  have "\<forall>l\<in>{8, 14, 20, 26}. same l e (Suc t) \<longleftrightarrow> same l e t"
    using True zero_less_Suc assms(3)
  proof (cases rule: stale_cases)
    case 1
    with down [of 8] assms(2)
    have "same 14 e t \<Longrightarrow> digit 8 e \<noteq> digit 8 (Suc t)" by (auto simp: place_def)
    with 1 show ?thesis
      using step [of 8 8] step [of 8 14] step [of 8 20] step [of 8 26] by simp
  next
    case 2
    with down [of 8] down [of 14] assms(2)
    have "same 20 e t \<Longrightarrow> digit 14 e \<noteq> digit 14 (Suc t)" by (auto simp: place_def)
    with 2 show ?thesis
      using step [of 14 8] step [of 14 14] step [of 14 20] step [of 14 26] by simp
  next
    case 3
    with down [of 8] down [of 14] down [of 20] assms(2)
    have "same 26 e t \<Longrightarrow> digit 20 e \<noteq> digit 20 (Suc t)" by (auto simp: place_def)
    with 3 show ?thesis
      using step [of 20 8] step [of 20 14] step [of 20 20] step [of 20 26] by simp
  next
    case 4
    with down [of 8] down [of 14] down [of 20] down [of 26] assms(2)
    have "same 32 e t \<Longrightarrow> digit 26 e \<noteq> digit 26 (Suc t)" by (auto simp: place_def)
    with 4 show ?thesis
      using step [of 26 8] step [of 26 14] step [of 26 20] step [of 26 26] by simp
  qed
  then show ?thesis by (simp add: place_def)
qed

lemma unat_suc: "unat (t + 1 :: u32) = (if t + 1 = 0 then 0 else Suc (unat t))"
  using unatSuc [of t] by (auto simp: add.commute)

lemma place_level3: "\<not> same 26 a b \<Longrightarrow> place a b = Level 3 (digit 26 a)"
  using same_mono [of 8 a b 26] same_mono [of 14 a b 26] same_mono [of 20 a b 26]
  by (auto simp: place_def)

lemma place_far: "a + 2 ^ 26 \<le> b \<Longrightarrow> place a b = Level 3 (digit 26 a)"
  by (intro place_level3 not_same_far)

text \<open>The same with the wrap-around of the 32 bit clock, for delays below \<open>2 ^ 31\<close>.\<close>

lemma place_tick:
  fixes e t :: u32
  assumes d: "e \<noteq> t" "unat (e - t) < 2 ^ 31"
    and fresh: "stale (unat (t + 1)) \<noteq> Some (place (unat e) (unat t))"
  shows "place (unat e) (unat (t + 1)) = place (unat e) (unat t)"
proof (cases "unat t < unat e")
  case True
  have "t + 1 \<noteq> 0"
  proof
    assume "t + 1 = 0"
    then have "t = - 1" by (simp add: eq_neg_iff_add_eq_0)
    then have "unat t = 2 ^ 32 - 1" by (simp add: unsigned_minus_1_eq_mask mask_eq_exp_minus_1)
    with True unsigned_less [of e, where ?'a = nat] show False by simp
  qed
  then have "unat (t + 1) = Suc (unat t)" by (simp add: unat_suc)
  with place_step [OF True] fresh unsigned_less [of "t + 1", where ?'a = nat] show ?thesis by simp
next
  case False
  with d(1) have lt: "unat e < unat t"
    by (metis linorder_neqE_nat word_unat_eq_iff)
  have "unat (e - t) + unat t = unat e + 2 ^ 32"
    using lt unsigned_less [of t, where ?'a = nat] by (simp add: unat_sub_if')
  with d(2) have far: "unat e + 2 ^ 31 < unat t" by simp
  then have p: "place (unat e) (unat t) = Level 3 (digit 26 (unat e))"
    by (intro place_far) simp
  show ?thesis
  proof (cases "t + 1 = 0")
    case False
    with far show ?thesis by (simp add: p unat_suc place_far)
  next
    case True
    with fresh p have "digit 26 (unat e) \<noteq> 0" by (simp add: stale_def)
    then have "\<not> same 26 (unat e) 0" by (auto simp: digit_def same_def)
    with True p show ?thesis by (simp add: place_level3)
  qed
qed

section \<open>Slots of the wheel\<close>

fun slot_list :: "timer \<Rightarrow> slot \<Rightarrow> timer_node list" where
  "slot_list T (Near k) = tm_near T k"
| "slot_list T (Level i k) = tm_t T i k"

fun slot_link :: "timer \<Rightarrow> slot \<Rightarrow> timer_node \<Rightarrow> timer" where
  "slot_link T (Near k) n = link_near T k n"
| "slot_link T (Level i k) n = link_level T i k n"

definition home :: "timer \<Rightarrow> timer_node \<Rightarrow> slot" where
  "home T n = place (unat (tn_expire n)) (unat (tm_time T))"

lemma slot_list_link [simp]:
  "slot_list (slot_link T s n) r = (if r = s then slot_list T s @ [n] else slot_list T r)"
  by (cases s; cases r) (auto simp: link_near_def link_level_def)

lemma slot_link_time [simp]: "tm_time (slot_link T s n) = tm_time T"
  by (cases s) (simp_all add: link_near_def link_level_def)

lemma or_mask_eq:
  fixes a b :: "'a::len word"
  shows "a OR mask k = b OR mask k \<longleftrightarrow> same k (unat a) (unat b)"
proof -
  have "a OR mask k = b OR mask k \<longleftrightarrow> drop_bit k a = drop_bit k b"
  proof
    assume "a OR mask k = b OR mask k"
    then have "drop_bit k (a OR mask k) = drop_bit k (b OR mask k)" by simp
    moreover have "drop_bit k (mask k :: 'a word) = 0"
      by (rule bit_word_eqI) (auto simp: bit_simps)
    ultimately show "drop_bit k a = drop_bit k b" by simp
  next
    assume *: "drop_bit k a = drop_bit k b"
    have "bit a n = bit b n" if "\<not> n < k" for n
      using arg_cong [OF *, of "\<lambda>w. bit w (n - k)"] that by (simp add: bit_simps)
    then show "a OR mask k = b OR mask k" by (intro bit_word_eqI) (auto simp: bit_simps)
  qed
  also have "\<dots> \<longleftrightarrow> unat (drop_bit k a) = unat (drop_bit k b)"
    by (simp add: word_unat_eq_iff)
  finally show ?thesis by (simp only: same_def unat_drop_bit_div)
qed

lemma mask_words:
  "(255 :: u32) = mask 8" "(63 :: u32) = mask 6" "(16383 :: u32) = mask 14"
  "(1048575 :: u32) = mask 20" "(67108863 :: u32) = mask 26"
  by (simp_all add: mask_eq_exp_minus_1)

lemma unat_digit: "unat (drop_bit k (a :: u32) AND 63) = digit k (unat a)"
  by (simp only: mask_words unat_and_mask digit_def unat_drop_bit_div) simp

lemma find_level_eq:
  "find_level 0 16384 e c =
    (if same 14 (unat e) (unat c) then 0 else if same 20 (unat e) (unat c) then 1
     else if same 26 (unat e) (unat c) then 2 else 3)"
  by (simp add: find_level.simps timer_consts mask_words or_mask_eq push_bit_eq_mult)

lemma add_node_home: "add_node T n = slot_link T (home T n) n"
  by (simp add: add_node_def Let_def timer_consts mask_words(1) or_mask_eq unat_and_mask home_def
      place_def find_level_eq [unfolded mask_words(1)] unat_digit push_bit_eq_mult)

section \<open>What waits in the wheel\<close>

definition slots :: "slot set" where
  "slots = Near ` {..<256} \<union> (\<lambda>(i, k). Level i k) ` ({..<4} \<times> {..<64})"

definition pending :: "timer \<Rightarrow> timer_node multiset" where
  "pending T = (\<Sum>s\<in>slots. mset (slot_list T s))"

text \<open>
  \<open>wheel d T\<close>: every node sits in its home slot and is due after \<open>d\<close> to \<open>2 ^ 31 - 1\<close> ticks
  from now; between two ticks \<open>d\<close> is 1, while a tick is at work it is 0.
\<close>

definition delay :: "timer \<Rightarrow> timer_node \<Rightarrow> nat" where
  "delay T n = unat (tn_expire n - tm_time T)"

definition wheel :: "nat \<Rightarrow> timer \<Rightarrow> bool" where
  "wheel d T \<longleftrightarrow> (\<forall>s. \<forall>n\<in>set (slot_list T s). home T n = s \<and> d \<le> delay T n \<and> delay T n < 2 ^ 31)"

lemma finite_slots [simp]: "finite slots"
  by (simp add: slots_def)

lemma place_in_slots [simp]: "place e c \<in> slots"
  by (auto simp: place_def slots_def digit_def)

lemma home_in_slots [simp]: "home T n \<in> slots"
  by (simp add: home_def)

lemma wheelD:
  "wheel d T \<Longrightarrow> n \<in> set (slot_list T s) \<Longrightarrow> home T n = s \<and> d \<le> delay T n \<and> delay T n < 2 ^ 31"
  by (auto simp: wheel_def)

lemma wheelI:
  "(\<And>s n. n \<in> set (slot_list T s) \<Longrightarrow> home T n = s \<and> d \<le> delay T n \<and> delay T n < 2 ^ 31) \<Longrightarrow> wheel d T"
  by (auto simp: wheel_def)

lemma wheel_mono: "wheel d T \<Longrightarrow> d' \<le> d \<Longrightarrow> wheel d' T"
  by (meson wheelI wheelD order_trans)

lemma pending_change:
  assumes "s \<in> slots" "\<And>r. r \<noteq> s \<Longrightarrow> slot_list T' r = slot_list T r"
  shows "pending T' + mset (slot_list T s) = pending T + mset (slot_list T' s)"
proof -
  have "pending U = mset (slot_list U s) + (\<Sum>r\<in>slots - {s}. mset (slot_list U r))" for U
    unfolding pending_def by (rule sum.remove [OF finite_slots assms(1)])
  moreover have "(\<Sum>r\<in>slots - {s}. mset (slot_list T' r)) = (\<Sum>r\<in>slots - {s}. mset (slot_list T r))"
    by (rule sum.cong) (auto simp: assms(2))
  ultimately show ?thesis by (simp add: ac_simps)
qed

lemma mem_pending: "n \<in># pending T \<longleftrightarrow> (\<exists>s\<in>slots. n \<in> set (slot_list T s))"
  by (simp add: pending_def set_mset_sum)

lemma add_node_pending: "pending (add_node T n) = pending T + {#n#}"
  using pending_change [of "home T n" "add_node T n" T] by (simp add: add_node_home)

lemma add_node_time [simp]: "tm_time (add_node T n) = tm_time T"
  by (simp add: add_node_home)

lemma home_cong: "tm_time T' = tm_time T \<Longrightarrow> home T' = home T"
  and delay_cong: "tm_time T' = tm_time T \<Longrightarrow> delay T' = delay T"
  by (auto simp: home_def delay_def)

lemma add_node_wheel:
  "wheel d T \<Longrightarrow> d \<le> delay T n \<Longrightarrow> delay T n < 2 ^ 31 \<Longrightarrow> wheel d (add_node T n)"
  using home_cong [of "add_node T n" T] delay_cong [of "add_node T n" T]
  by (auto simp: wheel_def add_node_home)

lemma add_nodes:
  "wheel d T \<Longrightarrow> \<forall>n\<in>set ns. d \<le> delay T n \<and> delay T n < 2 ^ 31 \<Longrightarrow>
   wheel d (foldl add_node T ns) \<and> tm_time (foldl add_node T ns) = tm_time T \<and>
   pending (foldl add_node T ns) = pending T + mset ns"
proof (induction ns arbitrary: T)
  case Nil
  then show ?case by simp
next
  case (Cons n ns)
  have "wheel d (add_node T n)" using Cons.prems by (intro add_node_wheel) auto
  with Cons.IH [of "add_node T n"] Cons.prems(2) delay_cong [of "add_node T n" T]
  show ?case by (simp add: add_node_pending)
qed

section \<open>The tick\<close>

lemma move_list_wheel:
  assumes "\<And>r n. r \<noteq> Level i k \<Longrightarrow> n \<in> set (slot_list T r) \<Longrightarrow> home T n = r"
    and ok: "\<And>r n. n \<in> set (slot_list T r) \<Longrightarrow> d \<le> delay T n \<and> delay T n < 2 ^ 31"
    and "Level i k \<in> slots"
  shows "wheel d (move_list T i k) \<and> tm_time (move_list T i k) = tm_time T \<and>
    pending (move_list T i k) = pending T"
proof -
  let ?C = "clear_level T i k"
  have C: "slot_list ?C r = (if r = Level i k then [] else slot_list T r)" for r
    by (cases r) (auto simp: clear_level_def)
  have t: "tm_time ?C = tm_time T" by (simp add: clear_level_def)
  have "wheel d ?C"
    using assms(1) ok home_cong [OF t] delay_cong [OF t] by (auto intro!: wheelI simp: C split: if_splits)
  moreover have "\<forall>n\<in>set (tm_t T i k). d \<le> delay ?C n \<and> delay ?C n < 2 ^ 31"
    using ok [of _ "Level i k"] delay_cong [OF t] by simp
  moreover have "pending ?C + mset (tm_t T i k) = pending T"
    using pending_change [OF assms(3), of ?C T] C by simp (simp add: clear_level_def)
  ultimately show ?thesis
    using add_nodes [of d ?C "tm_t T i k"] t by (simp add: move_list_def)
qed

lemma and_mask_zero: "(w :: 'a::len word) AND mask k = 0 \<longleftrightarrow> 2 ^ k dvd unat w"
  by (simp add: word_unat_eq_iff unat_and_mask dvd_eq_mod_eq_0)

definition settle :: "timer \<Rightarrow> nat \<Rightarrow> timer" where
  "settle T c = (case stale c of Some (Level i k) \<Rightarrow> move_list T i k | _ \<Rightarrow> T)"

lemma drop_6: "drop_bit 6 (drop_bit k (w :: u32)) = drop_bit (k + 6) w"
  by (simp add: add.commute)

lemma shift_loop_settle:
  assumes "ct \<noteq> 0"
  shows "shift_loop T ct TIME_NEAR (drop_bit TIME_NEAR_SHIFT ct) 0 = settle T (unat ct)"
proof -
  have m: "(255 :: u32) = mask 8" "(16383 :: u32) = mask 14" "(1048575 :: u32) = mask 20"
    "(67108863 :: u32) = mask 26" by (simp_all add: mask_eq_exp_minus_1)
  have push: "push_bit 6 (256 :: u32) = 16384" "push_bit 6 (16384 :: u32) = 1048576"
    "push_bit 6 (1048576 :: u32) = 67108864" by (simp_all add: push_bit_eq_mult)
  have minus: "256 - 1 = (255 :: u32)" "16384 - 1 = (16383 :: u32)" "1048576 - 1 = (1048575 :: u32)"
    "67108864 - 1 = (67108863 :: u32)" by simp_all
  have drop: "drop_bit 6 (drop_bit 8 ct) = drop_bit 14 ct" "drop_bit 6 (drop_bit 14 ct) = drop_bit 20 ct"
    "drop_bit 6 (drop_bit 20 ct) = drop_bit 26 ct" by simp_all
  note unf = push minus drop unat_digit and_mask_zero TIME_LEVEL_SHIFT_def TIME_LEVEL_MASK_def
    TIME_NEAR_def TIME_NEAR_SHIFT_def Let_def
  have 3: "shift_loop T ct 67108864 (drop_bit 26 ct) 3 =
     (if 2 ^ 26 dvd unat ct \<and> digit 26 (unat ct) \<noteq> 0 then move_list T 3 (digit 26 (unat ct)) else T)"
    by (subst shift_loop.simps) (simp only: unf m, simp add: shift_loop.simps)
  have 2: "shift_loop T ct 1048576 (drop_bit 20 ct) 2 =
     (if \<not> 2 ^ 20 dvd unat ct then T
      else if digit 20 (unat ct) \<noteq> 0 then move_list T 2 (digit 20 (unat ct))
      else shift_loop T ct 67108864 (drop_bit 26 ct) 3)"
    by (subst shift_loop.simps) (simp only: unf m, simp add: numeral_2_eq_2 [symmetric])
  have 1: "shift_loop T ct 16384 (drop_bit 14 ct) 1 =
     (if \<not> 2 ^ 14 dvd unat ct then T
      else if digit 14 (unat ct) \<noteq> 0 then move_list T 1 (digit 14 (unat ct))
      else shift_loop T ct 1048576 (drop_bit 20 ct) 2)"
    by (subst shift_loop.simps) (simp only: unf m, simp add: numeral_2_eq_2 [symmetric])
  have 0: "shift_loop T ct 256 (drop_bit 8 ct) 0 =
     (if \<not> 2 ^ 8 dvd unat ct then T
      else if digit 8 (unat ct) \<noteq> 0 then move_list T 0 (digit 8 (unat ct))
      else shift_loop T ct 16384 (drop_bit 14 ct) 1)"
    by (subst shift_loop.simps) (simp only: unf m, simp add: numeral_2_eq_2 [symmetric])
  have "unat ct \<noteq> 0" using assms by (simp add: unat_gt_0)
  then show ?thesis
    using dvd_digit [of 8 "unat ct"] dvd_digit [of 14 "unat ct"] dvd_digit [of 20 "unat ct"]
    by (simp add: 0 1 [unfolded One_nat_def] 2 3 settle_def stale_def TIME_NEAR_def TIME_NEAR_SHIFT_def)
qed

lemma timer_shift_eq:
  "timer_shift T = settle (T\<lparr>tm_time := tm_time T + 1\<rparr>) (unat (tm_time T + 1))"
  by (simp add: timer_shift_def Let_def shift_loop_settle) (simp add: settle_def stale_def)

lemma stale_slot: "stale c = None \<or> (\<exists>i k. stale c = Some (Level i k) \<and> Level i k \<in> slots)"
proof -
  have "Level i (digit k c) \<in> slots" "Level i 0 \<in> slots" if "i < 4" for i k
    using that by (auto simp: slots_def digit_def)
  then show ?thesis by (simp add: stale_def)
qed

lemma timer_shift_wheel:
  assumes "wheel 1 T"
  shows "wheel 0 (timer_shift T) \<and> tm_time (timer_shift T) = tm_time T + 1 \<and>
    pending (timer_shift T) = pending T"
proof -
  let ?U = "T\<lparr>tm_time := tm_time T + 1\<rparr>"
  have S: "slot_list ?U r = slot_list T r" for r by (cases r) simp_all
  then have P: "pending ?U = pending T" by (simp add: pending_def)
  have D: "delay ?U n < 2 ^ 31" if "n \<in> set (slot_list T r)" for n r
  proof -
    have "delay T n \<noteq> 0" "delay T n < 2 ^ 31" using wheelD [OF assms that] by auto
    moreover from this have "delay ?U n = delay T n - 1"
      by (simp add: delay_def diff_diff_eq [symmetric] unat_minus_one unat_gt_0)
    ultimately show ?thesis by simp
  qed
  have H: "home ?U n = r" if "n \<in> set (slot_list T r)" "stale (unat (tm_time T + 1)) \<noteq> Some r" for n r
  proof -
    have h: "place (unat (tn_expire n)) (unat (tm_time T)) = r" "0 < delay T n" "delay T n < 2 ^ 31"
      using wheelD [OF assms that(1)] by (auto simp: home_def)
    then have "tn_expire n \<noteq> tm_time T" by (auto simp: delay_def)
    with place_tick [of "tn_expire n" "tm_time T"] h that(2) show ?thesis
      by (simp add: home_def delay_def)
  qed
  consider i k where "stale (unat (tm_time T + 1)) = Some (Level i k)" "Level i k \<in> slots"
    | "stale (unat (tm_time T + 1)) = None"
    using stale_slot [of "unat (tm_time T + 1)"] by (elim disjE exE conjE) (simp_all only:)
  then show ?thesis
  proof cases
    case 1
    have "wheel 0 (move_list ?U i k) \<and> tm_time (move_list ?U i k) = tm_time ?U \<and>
        pending (move_list ?U i k) = pending ?U"
    proof (rule move_list_wheel [OF _ _ 1(2)])
      fix r n assume *: "n \<in> set (slot_list ?U r)"
      show "0 \<le> delay ?U n \<and> delay ?U n < 2 ^ 31" using D * by (simp add: S)
      assume "r \<noteq> Level i k"
      with 1(1) * show "home ?U n = r" by (intro H) (simp_all add: S)
    qed
    with 1(1) P show ?thesis by (simp add: timer_shift_eq settle_def)
  next
    case 2
    have "wheel 0 ?U"
    proof (rule wheelI)
      fix r n assume *: "n \<in> set (slot_list ?U r)"
      with 2 H D show "home ?U n = r \<and> 0 \<le> delay ?U n \<and> delay ?U n < 2 ^ 31" by (simp add: S)
    qed
    with 2 P show ?thesis by (simp add: timer_shift_eq settle_def)
  qed
qed

lemma slot_now:
  assumes "wheel d T" "n \<in> set (slot_list T s)"
  shows "tn_expire n = tm_time T \<longleftrightarrow> s = Near (unat (tm_time T) mod 256)"
proof
  assume "tn_expire n = tm_time T"
  with wheelD [OF assms] show "s = Near (unat (tm_time T) mod 256)"
    by (simp add: home_def place_def same_def)
next
  assume "s = Near (unat (tm_time T) mod 256)"
  with wheelD [OF assms] have "place (unat (tn_expire n)) (unat (tm_time T)) = Near (unat (tm_time T) mod 256)"
    by (simp add: home_def)
  then have "same 8 (unat (tn_expire n)) (unat (tm_time T))"
      "unat (tn_expire n) mod 256 = unat (tm_time T) mod 256"
    by (auto simp: place_def split: if_splits)
  then have "unat (tn_expire n) = unat (tm_time T)"
    by (simp add: same_def) (metis div_mult_mod_eq)
  then show "tn_expire n = tm_time T" by (simp add: word_unat_eq_iff)
qed

lemma near_index: "unat (t AND TIME_NEAR_MASK) = unat t mod 256"
  by (simp only: TIME_NEAR_MASK_def mask_words unat_and_mask) simp

lemma filter_all: "(\<And>x. x \<in># M \<Longrightarrow> P x) \<Longrightarrow> filter_mset P M = M"
  by (induction M) auto

lemma filter_none: "(\<And>x. x \<in># M \<Longrightarrow> \<not> P x) \<Longrightarrow> filter_mset P M = {#}"
  by (induction M) auto

lemma pending_due:
  assumes "wheel d T"
  shows "mset (tm_near T (unat (tm_time T) mod 256)) = {# n \<in># pending T. tn_expire n = tm_time T #}"
    and "pending (clear_near T (unat (tm_time T) mod 256)) = {# n \<in># pending T. tn_expire n \<noteq> tm_time T #}"
proof -
  let ?k = "unat (tm_time T) mod 256"
  let ?C = "clear_near T ?k"
  have k: "Near ?k \<in> slots" by (simp add: slots_def)
  have C: "slot_list ?C r = (if r = Near ?k then [] else slot_list T r)" for r
    by (cases r) (auto simp: clear_near_def)
  have split: "pending T = pending ?C + mset (tm_near T ?k)"
    using pending_change [OF k, of ?C T] C [of "Near ?k"] by (simp add: C)
  have in1: "tn_expire n = tm_time T" if "n \<in> set (tm_near T ?k)" for n
    using slot_now [OF assms, of n "Near ?k"] that by simp
  have in2: "tn_expire n \<noteq> tm_time T" if "n \<in># pending ?C" for n
    using that slot_now [OF assms] by (auto simp: mem_pending C split: if_splits)
  show "mset (tm_near T ?k) = {# n \<in># pending T. tn_expire n = tm_time T #}"
    and "pending ?C = {# n \<in># pending T. tn_expire n \<noteq> tm_time T #}"
    using filter_all [of "mset (tm_near T ?k)" "\<lambda>n. tn_expire n = tm_time T"]
      filter_none [of "mset (tm_near T ?k)" "\<lambda>n. tn_expire n \<noteq> tm_time T"]
      filter_all [of "pending ?C" "\<lambda>n. tn_expire n \<noteq> tm_time T"]
      filter_none [of "pending ?C" "\<lambda>n. tn_expire n = tm_time T"] in1 in2
    by (simp_all add: split)
qed

lemma clear_now_wheel:
  assumes "wheel 0 T"
  shows "wheel 1 (clear_near T (unat (tm_time T) mod 256))"
proof (rule wheelI)
  let ?C = "clear_near T (unat (tm_time T) mod 256)"
  have C: "slot_list ?C r = (if r = Near (unat (tm_time T) mod 256) then [] else slot_list T r)" for r
    by (cases r) (auto simp: clear_near_def)
  have t: "tm_time ?C = tm_time T" by (simp add: clear_near_def)
  fix s n assume "n \<in> set (slot_list ?C s)"
  then have n: "n \<in> set (slot_list T s)" "s \<noteq> Near (unat (tm_time T) mod 256)"
    by (auto simp: C split: if_splits)
  then have "tn_expire n \<noteq> tm_time T" using slot_now [OF assms] by blast
  then have "delay T n \<noteq> 0" by (simp add: delay_def unat_gt_0)
  with wheelD [OF assms n(1)] show "home ?C n = s \<and> 1 \<le> delay ?C n \<and> delay ?C n < 2 ^ 31"
    by (simp add: home_cong [OF t] delay_cong [OF t])
qed

text \<open>Requests of the other threads: a C \<open>int\<close> delay that is positive.\<close>

definition timeout_ok :: "timer_req \<Rightarrow> bool" where
  "timeout_ok r \<longleftrightarrow> (case r of (time, h, s) \<Rightarrow> 0 < unat time \<and> unat time < 2 ^ 31)"

definition req_node :: "u32 \<Rightarrow> timer_req \<Rightarrow> timer_node" where
  "req_node now r = (case r of (time, h, s) \<Rightarrow>
     \<lparr>tn_expire = time + now, tn_handle = h, tn_session = s\<rparr>)"

lemma timer_add_eq: "timer_add T r = add_node T (req_node (tm_time T) r)"
  by (cases r) (simp add: timer_add_def req_node_def)

lemma foldl_timer_add: "foldl timer_add T rs = foldl add_node T (map (req_node (tm_time T)) rs)"
  by (induction rs arbitrary: T) (simp_all add: timer_add_eq)

lemma req_delay: "delay T (req_node (tm_time T) r) = unat (fst r)"
  by (cases r) (simp add: delay_def req_node_def)

lemma timer_adds:
  assumes "wheel 1 T" "\<forall>r\<in>set rs. timeout_ok r"
  shows "wheel 1 (foldl timer_add T rs) \<and> tm_time (foldl timer_add T rs) = tm_time T \<and>
    pending (foldl timer_add T rs) = pending T + mset (map (req_node (tm_time T)) rs)"
  unfolding foldl_timer_add using assms by (intro add_nodes) (auto simp: req_delay timeout_ok_def)

lemma execute_idle:
  assumes "wheel 1 T"
  shows "timer_execute env T = (T, [], env)"
proof -
  have "n \<notin> set (tm_near T (unat (tm_time T) mod 256))" for n
    using slot_now [OF assms, of n "Near (unat (tm_time T) mod 256)"]
      wheelD [OF assms, of n "Near (unat (tm_time T) mod 256)"] by (auto simp: delay_def)
  then have "tm_near T (unat (tm_time T) mod 256) = []"
    by (metis list.set_intros(1) neq_Nil_conv)
  then show ?thesis by (cases env) (simp_all add: near_index)
qed

lemma execute_due:
  assumes w: "wheel 0 T" and env: "\<forall>rs\<in>set env. \<forall>r\<in>set rs. timeout_ok r"
    and e: "timer_execute env T = (T', out, env')"
  obtains ns rs where "out = dispatch_list ns" "mset ns = {# n \<in># pending T. tn_expire n = tm_time T #}"
    "wheel 1 T'" "tm_time T' = tm_time T"
    "pending T' = {# n \<in># pending T. tn_expire n \<noteq> tm_time T #} + mset (map (req_node (tm_time T)) rs)"
    "env = env' \<and> rs = [] \<or> env = rs # env'"
proof -
  let ?k = "unat (tm_time T) mod 256"
  let ?C = "clear_near T ?k"
  note due = pending_due [OF w]
  have C: "wheel 1 ?C" "tm_time ?C = tm_time T"
    using clear_now_wheel [OF w] by (simp_all add: clear_near_def)
  consider "tm_near T ?k = []" | "tm_near T ?k \<noteq> []" "env = []"
    | rs env1 where "tm_near T ?k \<noteq> []" "env = rs # env1"
    by (cases env) auto
  then show ?thesis
  proof cases
    case 1
    then have "?C = T" by (simp add: clear_near_def fun_upd_idem)
    moreover have "timer_execute env T = (T, [], env)"
      using 1 by (cases env) (simp_all add: near_index)
    ultimately show ?thesis
      using that [of "[]" "[]"] e 1 due C by (simp add: dispatch_list_def)
  next
    case 2
    then show ?thesis
      using that [of "tm_near T ?k" "[]"] e due C by (simp add: near_index Let_def)
  next
    case 3
    have *: "wheel 1 (foldl timer_add ?C rs)" "tm_time (foldl timer_add ?C rs) = tm_time T"
      "pending (foldl timer_add ?C rs) = pending ?C + mset (map (req_node (tm_time T)) rs)"
      using timer_adds [OF C(1), of rs] C(2) 3(2) env by auto
    then show ?thesis
      using that [of "tm_near T ?k" rs] e due 3 execute_idle [OF *(1)] by (simp add: near_index Let_def)
  qed
qed

section \<open>Properties\<close>

lemma wheel_new: "wheel d (timer_create_timer\<lparr>tm_starttime := a, tm_current := b,
    tm_current_point := p, tm_origin_point := p', tm_time := t\<rparr>)"
  and pending_new: "pending (timer_create_timer\<lparr>tm_starttime := a, tm_current := b,
    tm_current_point := p, tm_origin_point := p', tm_time := t\<rparr>) = {#}"
proof -
  let ?T = "timer_create_timer\<lparr>tm_starttime := a, tm_current := b, tm_current_point := p,
    tm_origin_point := p', tm_time := t\<rparr>"
  have "slot_list ?T s = []" for s by (cases s) (simp_all add: timer_create_timer_def)
  then show "wheel d ?T" "pending ?T = {#}" by (simp_all add: wheel_def pending_def)
qed

lemma timer_update_step:
  assumes "wheel 1 T" "\<forall>rs\<in>set env. \<forall>r\<in>set rs. timeout_ok r"
    and "timer_update env T = (T', out, env')"
  shows "tm_time T' = tm_time T + 1 \<and> wheel 1 T' \<and>
    (\<exists>ns rs. out = dispatch_list ns \<and>
       mset ns = {# n \<in># pending T. tn_expire n = tm_time T + 1 #} \<and>
       pending T' = {# n \<in># pending T. tn_expire n \<noteq> tm_time T + 1 #} +
                    mset (map (req_node (tm_time T + 1)) rs) \<and>
       (env = env' \<and> rs = [] \<or> env = rs # env'))"
proof -
  have "timer_execute env (timer_shift T) = (T', out, env')"
    using assms(3) execute_idle [OF assms(1)] by (simp add: timer_update_def split: prod.splits)
  moreover have S: "wheel 0 (timer_shift T)" "tm_time (timer_shift T) = tm_time T + 1"
    "pending (timer_shift T) = pending T" using timer_shift_wheel [OF assms(1)] by auto
  ultimately obtain ns rs where "out = dispatch_list ns"
    "mset ns = {# n \<in># pending (timer_shift T). tn_expire n = tm_time (timer_shift T) #}"
    "wheel 1 T'" "tm_time T' = tm_time (timer_shift T)"
    "pending T' = {# n \<in># pending (timer_shift T). tn_expire n \<noteq> tm_time (timer_shift T) #} +
       mset (map (req_node (tm_time (timer_shift T))) rs)"
    "env = env' \<and> rs = [] \<or> env = rs # env'"
    using execute_due [OF S(1) assms(2)] by metis
  then show ?thesis unfolding S by blast
qed

text \<open>
  C14. One tick of the timing wheel, with other threads adding timers while messages are
  dispatched: it pushes the response messages of exactly the timers that expire at the new
  time, each once; every other timer, and every timer added meanwhile, stays in the wheel;
  the time advances by one, wrapping around at \<open>2 ^ 32\<close>; the wheel stays well formed.
\<close>

theorem timer_update_exact:
  assumes "wheel 1 T" "\<forall>rs\<in>set env. \<forall>r\<in>set rs. timeout_ok r"
    and "timer_update env T = (T', out, env')"
  shows "tm_time T' = tm_time T + 1 \<and> wheel 1 T' \<and>
    (\<exists>ns rs. out = dispatch_list ns \<and>
       mset ns = {# n \<in># pending T. tn_expire n = tm_time T + 1 #} \<and>
       pending T' = {# n \<in># pending T. tn_expire n \<noteq> tm_time T + 1 #} +
                    mset (map (req_node (tm_time T + 1)) rs) \<and>
       (env = env' \<and> rs = [] \<or> env = rs # env'))"
  using timer_update_step [OF assms] .

definition example_timer :: timer where
  "example_timer = timer_add (timer_create_timer\<lparr>tm_starttime := 0, tm_current := 0,
     tm_current_point := 0, tm_origin_point := 0, tm_time := 0xfffffffe\<rparr>) (3, 7, 9)"

lemma example_timer: "wheel 1 example_timer" "tm_time example_timer = 0xfffffffe"
  "pending example_timer = {# \<lparr>tn_expire = 1, tn_handle = 7, tn_session = 9\<rparr> #}"
proof -
  let ?T = "timer_create_timer\<lparr>tm_starttime := 0, tm_current := 0, tm_current_point := 0,
    tm_origin_point := 0, tm_time := 0xfffffffe\<rparr>"
  have "\<forall>r\<in>set [(3, 7, 9)]. timeout_ok r" by (simp add: timeout_ok_def)
  from timer_adds [OF wheel_new [where d = 1 and t = "0xfffffffe" and a = 0 and b = 0 and p = 0 and p' = 0] this]
  show "wheel 1 example_timer" "tm_time example_timer = 0xfffffffe"
    "pending example_timer = {# \<lparr>tn_expire = 1, tn_handle = 7, tn_session = 9\<rparr> #}"
    by (simp_all add: example_timer_def pending_new req_node_def)
qed

theorem timer_update_exact_witness:
  "\<exists>T' env'. timer_update [[(5, 6, 8)]] example_timer = (T', [], env') \<and> tm_time T' = 0xffffffff \<and>
     wheel 1 T'"
proof -
  obtain T' out env' where u: "timer_update [[(5, 6, 8)]] example_timer = (T', out, env')"
    by (cases "timer_update [[(5, 6, 8)]] example_timer") auto
  have "\<forall>rs\<in>set [[(5, 6, 8)]]. \<forall>r\<in>set rs. timeout_ok r" by (simp add: timeout_ok_def)
  from timer_update_exact [OF example_timer(1) this u] u show ?thesis
    by (auto simp: example_timer dispatch_list_def)
qed

text \<open>Updates in a row: each tick fires what expires at its time.\<close>

lemma timer_run_exact:
  "wheel 1 T \<Longrightarrow> timer_run n T = (T', outs) \<Longrightarrow> n < 2 ^ 32 \<Longrightarrow>
   length outs = n \<and> wheel 1 T' \<and> tm_time T' = tm_time T + of_nat n \<and>
   (\<forall>j<n. \<exists>ns. outs ! j = dispatch_list ns \<and>
      mset ns = {# x \<in># pending T. tn_expire x = tm_time T + of_nat (Suc j) #})"
proof (induction n arbitrary: T outs)
  case 0
  then show ?case by simp
next
  case (Suc n)
  obtain U out e where u: "timer_update [] T = (U, out, e)" by (cases "timer_update [] T") auto
  obtain outs1 where r: "timer_run n U = (T', outs1)" "outs = out # outs1"
    using Suc.prems(2) u by (auto split: prod.splits)
  from timer_update_step [OF Suc.prems(1) _ u]
  obtain ns where U: "tm_time U = tm_time T + 1" "wheel 1 U" "out = dispatch_list ns"
    "mset ns = {# x \<in># pending T. tn_expire x = tm_time T + 1 #}"
    "pending U = {# x \<in># pending T. tn_expire x \<noteq> tm_time T + 1 #}" by auto
  have IH: "length outs1 = n" "wheel 1 T'" "tm_time T' = tm_time U + of_nat n"
    "\<forall>j<n. \<exists>ns. outs1 ! j = dispatch_list ns \<and>
      mset ns = {# x \<in># pending U. tn_expire x = tm_time U + of_nat (Suc j) #}"
    using Suc.IH [OF U(2) r(1)] Suc.prems(3) by auto
  have "{# x \<in># pending U. tn_expire x = tm_time U + of_nat (Suc j) #} =
      {# x \<in># pending T. tn_expire x = tm_time T + of_nat (Suc (Suc j)) #}" if "j < n" for j
  proof -
    have "unat (of_nat (Suc j) :: u32) = Suc j"
      using that Suc.prems(3) by (simp only: unat_of_nat) simp
    then have "(of_nat (Suc j) :: u32) \<noteq> 0" by (metis nat.distinct(1) unat_0)
    then show ?thesis by (auto simp: U filter_filter_mset algebra_simps intro!: filter_mset_cong)
  qed
  with IH U r show ?case
    by (auto simp: less_Suc_eq_0_disj add.assoc) 
qed

text \<open>
  C15. A timeout of \<open>time\<close> ticks (a positive C \<open>int\<close>) pushes nothing at once and returns the
  session; then, in any run of ticks, its response message is pushed at the tick number
  \<open>time\<close>, exactly once and at no other tick, beside the messages of the timers already
  waiting, whatever the current time and whether or not the clock wraps around.
\<close>

theorem timeout_fires_exactly:
  assumes "wheel 1 T" "0 < unat time" "unat time < 2 ^ 31"
    and "mtask_timeout push T handle time session = (ret, T1, now)"
    and "timer_run n T1 = (T2, outs)" "n < 2 ^ 32"
  shows "now = None \<and> ret = sint session \<and> length outs = n \<and>
    (\<forall>j<n. \<exists>ns. outs ! j = dispatch_list ns \<and>
       mset ns = (if Suc j = unat time
                  then {# \<lparr>tn_expire = time + tm_time T, tn_handle = handle, tn_session = session\<rparr> #}
                  else {#}) +
                 {# x \<in># pending T. tn_expire x = tm_time T + of_nat (Suc j) #})"
proof -
  have t0: "time \<noteq> 0" using assms(2) by (simp add: unat_gt_0)
  with assms(4) have T1: "now = None" "ret = sint session" "T1 = timer_add T (time, handle, session)"
    by (simp_all add: mtask_timeout_def)
  let ?x = "\<lparr>tn_expire = time + tm_time T, tn_handle = handle, tn_session = session\<rparr>"
  have w: "wheel 1 T1" "tm_time T1 = tm_time T" "pending T1 = pending T + {# ?x #}"
    using timer_adds [OF assms(1), of "[(time, handle, session)]"] assms(2,3)
    by (simp_all add: T1 timeout_ok_def req_node_def)
  have iff: "tn_expire ?x = tm_time T + of_nat (Suc j) \<longleftrightarrow> Suc j = unat time" if "j < n" for j
  proof -
    have "unat (of_nat (Suc j) :: u32) = Suc j"
      using that assms(6) by (simp only: unat_of_nat) simp
    then have "time = of_nat (Suc j) \<longleftrightarrow> Suc j = unat time" by (metis word_unat_eq_iff)
    then show ?thesis by (simp add: add.commute [of time] del: of_nat_Suc)
  qed
  have split: "{# x \<in># pending T1. tn_expire x = tm_time T1 + of_nat (Suc j) #} =
      (if Suc j = unat time then {# ?x #} else {#}) +
      {# x \<in># pending T. tn_expire x = tm_time T + of_nat (Suc j) #}" if "j < n" for j
    unfolding w using iff [OF that] by (simp del: of_nat_Suc)
  note run = timer_run_exact [OF w(1) assms(5,6)]
  have "\<exists>ns. outs ! j = dispatch_list ns \<and> mset ns = (if Suc j = unat time then {# ?x #} else {#}) +
      {# x \<in># pending T. tn_expire x = tm_time T + of_nat (Suc j) #}" if "j < n" for j
    unfolding split [OF that, symmetric] using run that by blast
  with run T1 show ?thesis by blast
qed

theorem timeout_fires_exactly_witness:
  "\<exists>T2 outs. timer_run 3 example_timer = (T2, outs) \<and> outs ! 0 = [] \<and> outs ! 1 = [] \<and>
     outs ! 2 = [(7, timer_message 9)]"
proof -
  let ?T = "timer_create_timer\<lparr>tm_starttime := 0, tm_current := 0, tm_current_point := 0,
    tm_origin_point := 0, tm_time := 0xfffffffe\<rparr>"
  obtain T2 outs where r: "timer_run 3 example_timer = (T2, outs)" by fastforce
  have m: "mtask_timeout (\<lambda>_ _. True) ?T 7 3 9 = (9, example_timer, None)"
    by (simp add: mtask_timeout_def example_timer_def)
  note all = timeout_fires_exactly [OF wheel_new [where d = 1 and t = "0xfffffffe" and a = 0 and b = 0 and p = 0 and p' = 0] _ _ m r]
  have wrap: "(4294967297 :: u32) = 1" by simp
  have *: "\<exists>ns. outs ! j = dispatch_list ns \<and> mset ns =
    (if j = 2 then {# \<lparr>tn_expire = 1, tn_handle = 7, tn_session = 9\<rparr> #} else {#})" if "j < 3" for j
    using all [THEN conjunct2, THEN conjunct2, THEN conjunct2, rule_format, OF _ _ _ that]
    by (cases "j = 2") (simp_all add: pending_new wrap)
  have "outs ! 0 = []" "outs ! 1 = []" "outs ! 2 = [(7, timer_message 9)]"
    using * [of 0] * [of 1] * [of 2] by (auto simp: dispatch_list_def)
  with r show ?thesis by blast
qed

lemma frame_ops [simp]:
  "tm_current (add_node T n) = tm_current T" "tm_current_point (add_node T n) = tm_current_point T"
  "tm_current (clear_near T k) = tm_current T" "tm_current_point (clear_near T k) = tm_current_point T"
  "tm_current (clear_level T i k) = tm_current T"
  "tm_current_point (clear_level T i k) = tm_current_point T"
  by (simp_all add: add_node_home clear_near_def clear_level_def)
    (cases "home T n"; simp add: link_near_def link_level_def)+

lemma frame_foldl [simp]:
  "tm_current (foldl add_node T ns) = tm_current T"
  "tm_current_point (foldl add_node T ns) = tm_current_point T"
  by (induction ns arbitrary: T) auto

lemma frame_shift [simp]:
  "tm_current (timer_shift T) = tm_current T" "tm_current_point (timer_shift T) = tm_current_point T"
  by (simp_all add: timer_shift_eq settle_def move_list_def split: option.split slot.split)

lemma frame_execute:
  "timer_execute env T = (T', out, env') \<Longrightarrow>
   tm_current T' = tm_current T \<and> tm_current_point T' = tm_current_point T"
  by (induction env T arbitrary: T' out env' rule: timer_execute.induct)
    (auto simp: Let_def foldl_timer_add split: if_splits prod.splits)

lemma frame_update:
  assumes "timer_update env T = (T', out, env')"
  shows "tm_current T' = tm_current T \<and> tm_current_point T' = tm_current_point T"
proof -
  obtain T1 o1 e1 where 1: "timer_execute env T = (T1, o1, e1)"
    by (cases "timer_execute env T") auto
  obtain T3 o3 e3 where 3: "timer_execute e1 (timer_shift T1) = (T3, o3, e3)"
    by (cases "timer_execute e1 (timer_shift T1)") auto
  from assms 1 3 have "T' = T3" by (simp add: timer_update_def)
  with frame_execute [OF 1] frame_execute [OF 3] show ?thesis by simp
qed

lemma frame_run:
  "timer_run n T = (T', outs) \<Longrightarrow>
   tm_current T' = tm_current T \<and> tm_current_point T' = tm_current_point T"
proof (induction n arbitrary: T outs)
  case 0
  then show ?case by simp
next
  case (Suc n)
  obtain U out e where u: "timer_update [] T = (U, out, e)" by (cases "timer_update [] T") auto
  obtain V outs1 where r: "timer_run n U = (V, outs1)" by (cases "timer_run n U")
  with Suc.prems u have "V = T'" by simp
  with Suc.IH [of U outs1] r frame_update [OF u] show ?case by simp
qed

lemma wheel_cong:
  assumes "wheel d T" "tm_near T' = tm_near T" "tm_t T' = tm_t T" "tm_time T' = tm_time T"
  shows "wheel d T'"
proof -
  have "slot_list T' s = slot_list T s" for s using assms(2,3) by (cases s) simp_all
  with assms(1,4) show ?thesis by (simp add: wheel_def home_def delay_def)
qed

text \<open>
  \<open>mtask_updatetime\<close> keeps the wheel in step with the clock: it runs one tick for every
  centisecond that passed since the last call, so the wheel time and \<open>mtask_gettime\<close> advance
  by the same amount; a clock that went backwards runs no tick and is reported.
\<close>

theorem updatetime_in_step:
  assumes "wheel 1 T" "mtask_updatetime cp T = (T', outs, err)"
  shows "wheel 1 T' \<and> tm_current_point T' = cp \<and>
    tm_time T' - tm_time T = tm_current T' - tm_current T \<and>
    (err \<longleftrightarrow> cp < tm_current_point T) \<and>
    length outs = (if err then 0 else unat (ucast (cp - tm_current_point T) :: u32))"
proof (cases "cp < tm_current_point T \<or> cp = tm_current_point T")
  case True
  have "wheel 1 (T\<lparr>tm_current_point := cp\<rparr>)"
    by (rule wheel_cong [OF assms(1)]) simp_all
  with True assms show ?thesis by (auto simp: mtask_updatetime_def split: if_splits)
next
  case False
  let ?diff = "ucast (cp - tm_current_point T) :: u32"
  let ?T1 = "T\<lparr>tm_current_point := cp, tm_current := tm_current T + ?diff\<rparr>"
  let ?T2 = "if tm_current ?T1 < tm_current T
    then ?T1\<lparr>tm_starttime := tm_starttime ?T1 + 0xffffffff div 100\<rparr> else ?T1"
  have r: "timer_run (unat ?diff) ?T2 = (T', outs)" and err: "\<not> err"
    using False assms(2) by (auto simp: mtask_updatetime_def Let_def split: prod.splits if_splits)
  have same: "tm_near ?T2 = tm_near T" "tm_t ?T2 = tm_t T" "tm_time ?T2 = tm_time T"
    "tm_current ?T2 = tm_current T + ?diff" "tm_current_point ?T2 = cp" by simp_all
  have w: "wheel 1 ?T2" by (rule wheel_cong [OF assms(1) same(1,2,3)])
  have "unat ?diff < 2 ^ 32" using unsigned_less [of ?diff, where ?'a = nat] by simp
  from timer_run_exact [OF w r this]
  have x: "length outs = unat ?diff" "wheel 1 T'" "tm_time T' = tm_time T + of_nat (unat ?diff)"
    unfolding same by blast+
  have y: "tm_current T' = tm_current T + ?diff" "tm_current_point T' = cp"
    using frame_run [OF r] unfolding same by blast+
  have z: "\<not> cp < tm_current_point T" using False by blast
  show ?thesis unfolding x y using x(2) z err by simp
qed

theorem updatetime_in_step_witness:
  "\<exists>T' outs. mtask_updatetime 3 example_timer = (T', outs, False) \<and> length outs = 3 \<and>
     tm_time T' = 1 \<and> tm_current T' = 3"
proof -
  obtain T' outs err where u: "mtask_updatetime 3 example_timer = (T', outs, err)"
    by (cases "mtask_updatetime 3 example_timer") auto
  have p: "tm_current_point example_timer = 0" "tm_current example_timer = 0"
    by (simp_all add: example_timer_def timer_add_eq)
  from updatetime_in_step [OF example_timer(1) u] have
    "\<not> err" "length outs = 3" "tm_time T' - 0xfffffffe = tm_current T'"
    by (simp_all add: p example_timer(2))
  moreover have "tm_current T' = 3"
    using u frame_run p by (fastforce simp: mtask_updatetime_def Let_def split: prod.splits if_splits)
  moreover from this calculation have "tm_time T' = 3 + 0xfffffffe" by (metis diff_add_cancel)
  ultimately show ?thesis using u by auto
qed

end
