(* ===== verification/Handle.thy ===== *)
theory Handle
  imports Mtask_Prelude
begin

text \<open>
  \<open>mtask-src/mtask_handle.c\<close>: the table of the services of a node. A handle is hashed to
  the slot \<open>handle & (slot_size - 1)\<close> and the table doubles when it is full; the names of
  the services are an array kept sorted by \<open>strcmp\<close> and searched by bisection. A context
  is a number; the field \<open>handle\<close> of every context is the function \<open>ch\<close>, an argument of
  the operations that read it. A failed \<open>assert\<close> is \<open>None\<close>. The read-write lock makes
  every operation one step.
\<close>

section \<open>Data\<close>

definition DEFAULT_SLOT_SIZE :: nat where "DEFAULT_SLOT_SIZE = 4"
definition MAX_SLOT_SIZE :: nat where "MAX_SLOT_SIZE = 0x40000000"
definition HANDLE_MASK :: u32 where "HANDLE_MASK = 0xffffff"
definition HANDLE_REMOTE_SHIFT :: nat where "HANDLE_REMOTE_SHIFT = 24"

type_synonym ctxid = nat

record handle_name =
  hn_name :: "byte list"
  hn_handle :: u32

record handle_storage =
  hs_harbor :: u32
  hs_handle_index :: u32
  hs_slot_size :: nat
  hs_slot :: "ctxid option list"
  hs_name_cap :: nat
  hs_name :: "handle_name list"

definition hs_name_count :: "handle_storage \<Rightarrow> nat" where
  "hs_name_count s = length (hs_name s)"

section \<open>Slots\<close>

definition slot_hash :: "nat \<Rightarrow> u32 \<Rightarrow> nat" where
  "slot_hash sz handle = unat (handle AND (of_nat sz - 1))"

text \<open>The inner loop of \<open>mtask_handle_register\<close>: the handle and the slot of the first free place.\<close>

function probe :: "handle_storage \<Rightarrow> nat \<Rightarrow> (u32 \<times> nat) option" where
  "probe s i =
     (if i < hs_slot_size s then
        let handle = (of_nat i + hs_handle_index s) AND HANDLE_MASK;
            hash = slot_hash (hs_slot_size s) handle
        in if hs_slot s ! hash = None then Some (handle, hash) else probe s (i + 1)
      else None)"
  by pat_completeness auto
termination
  by (relation "measure (\<lambda>(s, i). hs_slot_size s - i)") auto

declare probe.simps [simp del]

text \<open>
  The copy into the new array of twice the size: \<open>None\<close> when a slot is empty (the code would
  read through a null pointer) or when two contexts meet in one slot.
\<close>

fun rehash :: "(ctxid \<Rightarrow> u32) \<Rightarrow> nat \<Rightarrow> ctxid option list \<Rightarrow> ctxid option list \<Rightarrow> ctxid option list option"
  where
  "rehash ch sz [] new_slot = Some new_slot"
| "rehash ch sz (None # slots) new_slot = None"
| "rehash ch sz (Some ctx # slots) new_slot =
     (let hash = slot_hash sz (ch ctx) in
      if new_slot ! hash \<noteq> None then None
      else rehash ch sz slots (new_slot[hash := Some ctx]))"

definition expand_slots :: "(ctxid \<Rightarrow> u32) \<Rightarrow> handle_storage \<Rightarrow> handle_storage option" where
  "expand_slots ch s =
     (if int (hs_slot_size s) * 2 - 1 \<le> uint HANDLE_MASK then
        (case rehash ch (hs_slot_size s * 2) (hs_slot s) (replicate (hs_slot_size s * 2) None) of
           None \<Rightarrow> None
         | Some new_slot \<Rightarrow> Some (s\<lparr>hs_slot := new_slot, hs_slot_size := hs_slot_size s * 2\<rparr>))
      else None)"

text \<open>
  \<open>mtask_handle_register\<close>. The size starts at 4 and is only doubled, so it is positive; the
  guard \<open>0 < hs_slot_size s\<close> says so to the termination proof.
\<close>

lemma expand_slots_size: "expand_slots ch s = Some s' \<Longrightarrow>
   hs_slot_size s' = hs_slot_size s * 2 \<and> 2 * hs_slot_size s \<le> 0x1000000"
  by (auto simp: expand_slots_def HANDLE_MASK_def split: if_splits option.splits)

function mtask_handle_register :: "(ctxid \<Rightarrow> u32) \<Rightarrow> handle_storage \<Rightarrow> ctxid
    \<Rightarrow> (u32 \<times> handle_storage) option" where
  "mtask_handle_register ch s ctx =
     (case probe s 0 of
        Some (handle, hash) \<Rightarrow>
          Some (handle OR hs_harbor s,
            s\<lparr>hs_slot := (hs_slot s)[hash := Some ctx], hs_handle_index := handle + 1\<rparr>)
      | None \<Rightarrow>
          if 0 < hs_slot_size s then
            (case expand_slots ch s of
               None \<Rightarrow> None
             | Some s' \<Rightarrow> mtask_handle_register ch s' ctx)
          else None)"
  by pat_completeness auto
termination
  by (relation "measure (\<lambda>(ch, s, ctx). 0x1000000 - hs_slot_size s)")
    (auto dest!: expand_slots_size)

declare mtask_handle_register.simps [simp del]

text \<open>The assignment \<open>ctx->handle = mtask_handle_register(ctx)\<close> of \<open>mtask_context_new\<close>.\<close>

type_synonym handles = "(ctxid \<Rightarrow> u32) \<times> handle_storage"

definition context_register :: "handles \<Rightarrow> ctxid \<Rightarrow> (u32 \<times> ctxid \<times> handles) option" where
  "context_register t ctx = (case t of (ch, s) \<Rightarrow>
     (case mtask_handle_register ch s ctx of
        None \<Rightarrow> None
      | Some (h, s') \<Rightarrow> Some (h, ctx, (ch(ctx := h), s'))))"

text \<open>\<open>mtask_handle_grab\<close>: the context whose reference count the code increments.\<close>

definition mtask_handle_grab :: "(ctxid \<Rightarrow> u32) \<Rightarrow> handle_storage \<Rightarrow> u32 \<Rightarrow> ctxid option" where
  "mtask_handle_grab ch s handle =
     (case hs_slot s ! slot_hash (hs_slot_size s) handle of
        Some ctx \<Rightarrow> if ch ctx = handle then Some ctx else None
      | None \<Rightarrow> None)"

text \<open>
  \<open>mtask_handle_retire\<close>: the return value, the new storage and the context to release.
  The loop over the names keeps, in order, those of other handles.
\<close>

definition mtask_handle_retire :: "(ctxid \<Rightarrow> u32) \<Rightarrow> handle_storage \<Rightarrow> u32
    \<Rightarrow> int \<times> handle_storage \<times> ctxid option" where
  "mtask_handle_retire ch s handle =
     (let hash = slot_hash (hs_slot_size s) handle in
      case hs_slot s ! hash of
        Some ctx \<Rightarrow>
          if ch ctx = handle then
            (1, s\<lparr>hs_slot := (hs_slot s)[hash := None],
                  hs_name := filter (\<lambda>n. hn_handle n \<noteq> handle) (hs_name s)\<rparr>, Some ctx)
          else (0, s, None)
      | None \<Rightarrow> (0, s, None))"

text \<open>
  One pass of \<open>mtask_handle_retireall\<close> from index \<open>i\<close> on, then passes until one retires
  nothing. Every pass that retires something empties a slot, so the number of slots plus one
  bounds the passes; it is the fuel.
\<close>

function retire_pass :: "(ctxid \<Rightarrow> u32) \<Rightarrow> handle_storage \<Rightarrow> nat \<Rightarrow> nat \<Rightarrow> handle_storage \<times> nat" where
  "retire_pass ch s i n =
     (if i < hs_slot_size s then
        let handle = (case hs_slot s ! i of Some ctx \<Rightarrow> ch ctx | None \<Rightarrow> 0) in
        if handle \<noteq> 0 then
          (case mtask_handle_retire ch s handle of
             (ret, s', rel) \<Rightarrow> retire_pass ch s' (i + 1) (if ret \<noteq> 0 then n + 1 else n))
        else retire_pass ch s (i + 1) n
      else (s, n))"
  by pat_completeness auto
termination
  by (relation "measure (\<lambda>(ch, s, i, n). hs_slot_size s - i)")
    (auto simp: mtask_handle_retire_def Let_def split: option.splits if_splits)

declare retire_pass.simps [simp del]

fun retireall_fuel :: "nat \<Rightarrow> (ctxid \<Rightarrow> u32) \<Rightarrow> handle_storage \<Rightarrow> handle_storage option" where
  "retireall_fuel 0 ch s = None"
| "retireall_fuel (Suc fuel) ch s =
     (case retire_pass ch s 0 0 of (s', n) \<Rightarrow>
        if n = 0 then Some s' else retireall_fuel fuel ch s')"

definition mtask_handle_retireall :: "(ctxid \<Rightarrow> u32) \<Rightarrow> handle_storage \<Rightarrow> handle_storage option" where
  "mtask_handle_retireall ch s = retireall_fuel (hs_slot_size s + 1) ch s"

section \<open>Names\<close>

text \<open>The bisection of \<open>mtask_handle_findname\<close>, with \<open>begin\<close> and \<open>end\<close> as C \<open>int\<close>s.\<close>

function findname_loop :: "handle_storage \<Rightarrow> byte list \<Rightarrow> int \<Rightarrow> int \<Rightarrow> u32" where
  "findname_loop s name b e =
     (if b \<le> e then
        let mid = (b + e) div 2;
            n = hs_name s ! nat mid;
            c = strcmp (hn_name n) name
        in if c = 0 then hn_handle n
           else if c < 0 then findname_loop s name (mid + 1) e
           else findname_loop s name b (mid - 1)
      else 0)"
  by pat_completeness auto
termination
  by (relation "measure (\<lambda>(s, name, b, e). nat (e - b + 1))") auto

declare findname_loop.simps [simp del]

definition mtask_handle_findname :: "handle_storage \<Rightarrow> byte list \<Rightarrow> u32" where
  "mtask_handle_findname s name = findname_loop s name 0 (int (hs_name_count s) - 1)"

text \<open>The bisection of \<open>_insert_name\<close>: \<open>None\<close> when the name is there, else the place for it.\<close>

function insert_loop :: "handle_storage \<Rightarrow> byte list \<Rightarrow> int \<Rightarrow> int \<Rightarrow> int option" where
  "insert_loop s name b e =
     (if b \<le> e then
        let mid = (b + e) div 2;
            n = hs_name s ! nat mid;
            c = strcmp (hn_name n) name
        in if c = 0 then None
           else if c < 0 then insert_loop s name (mid + 1) e
           else insert_loop s name b (mid - 1)
      else Some b)"
  by pat_completeness auto
termination
  by (relation "measure (\<lambda>(s, name, b, e). nat (e - b + 1))") auto

declare insert_loop.simps [simp del]

definition insert_name_before :: "handle_storage \<Rightarrow> byte list \<Rightarrow> u32 \<Rightarrow> nat \<Rightarrow> handle_storage option" where
  "insert_name_before s name handle before =
     (let cap = (if hs_name_cap s \<le> hs_name_count s then hs_name_cap s * 2 else hs_name_cap s) in
      if hs_name_cap s \<le> hs_name_count s \<and> MAX_SLOT_SIZE < cap then None
      else Some (s\<lparr>hs_name_cap := cap,
        hs_name := take before (hs_name s) @ \<lparr>hn_name = name, hn_handle = handle\<rparr> #
                   drop before (hs_name s)\<rparr>))"

text \<open>
  \<open>mtask_handle_namehandle\<close> (and \<open>_insert_name\<close>): the returned copy of the name, \<open>None\<close>
  when the name is taken; the outer \<open>None\<close> is the failed assertion.
\<close>

definition mtask_handle_namehandle :: "handle_storage \<Rightarrow> u32 \<Rightarrow> byte list
    \<Rightarrow> (byte list option \<times> handle_storage) option" where
  "mtask_handle_namehandle s handle name =
     (case insert_loop s name 0 (int (hs_name_count s) - 1) of
        None \<Rightarrow> Some (None, s)
      | Some b \<Rightarrow> (case insert_name_before s name handle (nat b) of
           None \<Rightarrow> None
         | Some s' \<Rightarrow> Some (Some name, s')))"

definition mtask_handle_init :: "u32 \<Rightarrow> handle_storage" where
  "mtask_handle_init harbor = \<lparr>
     hs_harbor = push_bit HANDLE_REMOTE_SHIFT (harbor AND 0xff), hs_handle_index = 1,
     hs_slot_size = DEFAULT_SLOT_SIZE, hs_slot = replicate DEFAULT_SLOT_SIZE None,
     hs_name_cap = 2, hs_name = []\<rparr>"

end
