(* ===== verification/Handle_Table.thy ===== *)
theory Handle_Table
  imports Handle
begin

text \<open>
  The slots of the handle storage: \<open>table_inv\<close> and its preservation, the storage as an
  \<open>id_table\<close>, and what registering, grabbing and retiring do to the set of live handles.
\<close>

section \<open>Slot arithmetic\<close>

definition hs_shape :: "handle_storage \<Rightarrow> bool" where
  "hs_shape s \<longleftrightarrow> (\<exists>k. 2 \<le> k \<and> k \<le> 24 \<and> hs_slot_size s = 2 ^ k) \<and>
     length (hs_slot s) = hs_slot_size s \<and> hs_harbor s AND HANDLE_MASK = 0"

definition table_inv :: "handles \<Rightarrow> bool" where
  "table_inv t \<longleftrightarrow> (case t of (ch, s) \<Rightarrow> hs_shape s \<and>
     (\<forall>i<hs_slot_size s. \<forall>c. hs_slot s ! i = Some c \<longrightarrow>
        slot_hash (hs_slot_size s) (ch c) = i \<and> ch c AND NOT HANDLE_MASK = hs_harbor s))"

definition look :: "handles \<Rightarrow> u32 \<Rightarrow> ctxid option" where
  "look t h = mtask_handle_grab (fst t) (snd t) h"

definition slots_full :: "handle_storage \<Rightarrow> bool" where
  "slots_full s \<longleftrightarrow> (\<forall>i<hs_slot_size s. hs_slot s ! i \<noteq> None)"

lemma handle_mask: "HANDLE_MASK = mask 24"
  by (simp add: HANDLE_MASK_def mask_eq_exp_minus_1)

lemma slot_mask: "k \<le> 24 \<Longrightarrow> (of_nat (2 ^ k) - 1 :: u32) = mask k"
  by (simp add: mask_eq_exp_minus_1)

lemma slot_hash_mod: "k \<le> 24 \<Longrightarrow> slot_hash (2 ^ k) h = unat h mod 2 ^ k"
  unfolding slot_hash_def slot_mask by (rule unat_and_mask)

lemma slot_hash_bound: "hs_shape s \<Longrightarrow> slot_hash (hs_slot_size s) h < hs_slot_size s"
  by (auto simp: hs_shape_def slot_hash_mod)

lemma slot_hash_probe:
  assumes "k \<le> 24"
  shows "slot_hash (2 ^ k) ((of_nat j + idx) AND HANDLE_MASK) = (j + unat idx) mod 2 ^ k"
proof -
  have d: "(2::nat) ^ k dvd 2 ^ 24" "(2::nat) ^ k dvd 2 ^ 32" 
    using le_imp_power_dvd [OF assms, of "2::nat"] le_imp_power_dvd [of k 32 "2::nat"] assms by simp_all
  have "unat (of_nat j + idx :: u32) = (j + unat idx) mod 2 ^ 32"
    by (simp add: unat_word_ariths unat_of_nat mod_add_left_eq)
  then show ?thesis
    using d unfolding slot_hash_mod [OF assms] handle_mask unat_and_mask
    by (simp add: mod_mod_cancel)
qed

lemma slot_hash_harbor:
  assumes "k \<le> 24" "hb AND HANDLE_MASK = 0"
  shows "slot_hash (2 ^ k) (h OR hb) = slot_hash (2 ^ k) h"
proof -
  have "\<not> bit hb n" if "n < 24" for n
    using that assms(2) bit_and_iff [of hb "mask 24" n] by (auto simp: handle_mask bit_simps)
  then have "(h OR hb) AND mask k = h AND mask k"
    using assms(1) by (auto intro!: bit_word_eqI simp: bit_simps)
  then show ?thesis unfolding slot_hash_def slot_mask [OF assms(1)] by simp
qed

lemma harbor_part:
  assumes "hb AND HANDLE_MASK = 0"
  shows "((x AND HANDLE_MASK) OR hb) AND NOT HANDLE_MASK = (hb :: u32)"
proof (rule bit_word_eqI)
  fix n assume "n < LENGTH(32)"
  have "\<not> (bit hb n \<and> bit HANDLE_MASK n)"
    using assms by (metis bit_and_iff bit_0_eq bot_apply bot_bool_def)
  then show "bit (((x AND HANDLE_MASK) OR hb) AND NOT HANDLE_MASK) n = bit hb n"
    using \<open>n < LENGTH(32)\<close> by (auto simp: bit_simps)
qed

section \<open>Probing and expanding\<close>

lemma probe_Some:
  "probe s i = Some (h, x) \<Longrightarrow> \<exists>j<hs_slot_size s. h = (of_nat j + hs_handle_index s) AND HANDLE_MASK \<and>
     x = slot_hash (hs_slot_size s) h \<and> hs_slot s ! x = None"
  by (induction s i rule: probe.induct)
    (subst (asm) (2) probe.simps, auto simp: Let_def split: if_splits)

lemma probe_None:
  "probe s i = None \<Longrightarrow> i \<le> j \<Longrightarrow> j < hs_slot_size s \<Longrightarrow>
   hs_slot s ! slot_hash (hs_slot_size s) ((of_nat j + hs_handle_index s) AND HANDLE_MASK) \<noteq> None"
proof (induction s i rule: probe.induct)
  case (1 s i)
  then have "i < hs_slot_size s" by simp
  with "1.prems"(1) have ne: "hs_slot s ! slot_hash (hs_slot_size s)
      ((of_nat i + hs_handle_index s) AND HANDLE_MASK) \<noteq> None" "probe s (i + 1) = None"
    by (subst (asm) probe.simps, simp add: Let_def split: if_splits)+
  show ?case
  proof (cases "i = j")
    case True
    with ne show ?thesis by simp
  next
    case False
    with "1.IH" [OF \<open>i < hs_slot_size s\<close> refl refl] ne "1.prems" show ?thesis by auto
  qed
qed

lemma probe_full:
  assumes "hs_shape s"
  shows "probe s 0 = None \<longleftrightarrow> slots_full s"
proof
  obtain k where k: "k \<le> 24" "hs_slot_size s = 2 ^ k" using assms by (auto simp: hs_shape_def)
  assume None: "probe s 0 = None"
  show "slots_full s" unfolding slots_full_def
  proof (intro allI impI)
    fix x assume x: "x < hs_slot_size s"
    then obtain j where "j < hs_slot_size s" "(j + unat (hs_handle_index s)) mod hs_slot_size s = x"
      by (rule residue_covered)
    with probe_None [OF None, of j] k slot_hash_probe [OF k(1), of j]
    show "hs_slot s ! x \<noteq> None" by simp
  qed
next
  assume full: "slots_full s"
  show "probe s 0 = None"
  proof (cases "probe s 0")
    case (Some p)
    then obtain h x where "probe s 0 = Some (h, x)" by (cases p) auto
    from probe_Some [OF this] full slot_hash_bound [OF assms, of h] show ?thesis
      by (auto simp: slots_full_def)
  qed
qed

lemma rehash_ok:
  "\<forall>x\<in>set slots. x \<noteq> None \<Longrightarrow> distinct (map (\<lambda>x. slot_hash sz (ch (the x))) slots) \<Longrightarrow>
   \<forall>x\<in>set slots. slot_hash sz (ch (the x)) < length new \<and> new ! slot_hash sz (ch (the x)) = None \<Longrightarrow>
   \<exists>new'. rehash ch sz slots new = Some new' \<and> length new' = length new \<and>
     (\<forall>i<length new. \<forall>c. new' ! i = Some c \<longleftrightarrow>
        new ! i = Some c \<or> Some c \<in> set slots \<and> slot_hash sz (ch c) = i)"
proof (induction slots arbitrary: new)
  case Nil
  then show ?case by simp
next
  case (Cons x slots)
  then obtain c where x: "x = Some c" by auto
  let ?h = "slot_hash sz (ch c)"
  let ?new = "new[?h := Some c]"
  have h: "?h < length new" "new ! ?h = None" using Cons.prems(3) x by auto
  have "\<forall>x\<in>set slots. slot_hash sz (ch (the x)) < length ?new \<and> ?new ! slot_hash sz (ch (the x)) = None"
    using Cons.prems x by (auto simp: nth_list_update)
  with Cons.IH [of ?new] Cons.prems obtain new' where
    new': "rehash ch sz slots ?new = Some new'" "length new' = length new"
      "\<forall>i<length new. \<forall>d. new' ! i = Some d \<longleftrightarrow>
        ?new ! i = Some d \<or> Some d \<in> set slots \<and> slot_hash sz (ch d) = i"
    by auto
  have "rehash ch sz (x # slots) new = Some new'"
    using x h new'(1) by (simp add: Let_def)
  moreover have "new' ! i = Some d \<longleftrightarrow>
      new ! i = Some d \<or> Some d \<in> set (x # slots) \<and> slot_hash sz (ch d) = i" if "i < length new" for i d
    using new'(3) that h x by (auto simp: nth_list_update)
  ultimately show ?case using new'(2) by blast
qed

lemma slot_hash_double:
  assumes "Suc k \<le> 24"
  shows "slot_hash (2 ^ Suc k) h mod 2 ^ k = slot_hash (2 ^ k) h"
  using assms le_imp_power_dvd [of k "Suc k" "2::nat"]
  by (simp add: slot_hash_mod [OF assms] slot_hash_mod mod_mod_cancel del: power_Suc)

lemma slot_hash_grow:
  "k \<le> 23 \<Longrightarrow> slot_hash (2 ^ k * 2) h mod 2 ^ k = slot_hash (2 ^ k) h"
  using slot_hash_double [of k h] by (simp add: mult.commute)

lemma table_invD:
  "table_inv (ch, s) \<Longrightarrow> i < hs_slot_size s \<Longrightarrow> hs_slot s ! i = Some c \<Longrightarrow>
   slot_hash (hs_slot_size s) (ch c) = i \<and> ch c AND NOT HANDLE_MASK = hs_harbor s"
  by (simp add: table_inv_def)

lemma look_eq: "table_inv (ch, s) \<Longrightarrow> look (ch, s) h = Some c \<longleftrightarrow> Some c \<in> set (hs_slot s) \<and> ch c = h"
proof
  assume i: "table_inv (ch, s)" and "look (ch, s) h = Some c"
  then show "Some c \<in> set (hs_slot s) \<and> ch c = h"
    using slot_hash_bound [of s h]
    by (auto simp: look_def mtask_handle_grab_def table_inv_def hs_shape_def in_set_conv_nth
        split: option.splits if_splits)
next
  assume i: "table_inv (ch, s)" and c: "Some c \<in> set (hs_slot s) \<and> ch c = h"
  then obtain j where "j < hs_slot_size s" "hs_slot s ! j = Some c"
    by (auto simp: in_set_conv_nth table_inv_def hs_shape_def)
  with table_invD [OF i this] c show "look (ch, s) h = Some c"
    by (auto simp: look_def mtask_handle_grab_def)
qed

lemma expand_ok:
  assumes inv: "table_inv (ch, s)" and full: "slots_full s" and small: "hs_slot_size s < 2 ^ 24"
  shows "\<exists>s'. expand_slots ch s = Some s' \<and> table_inv (ch, s') \<and> \<not> slots_full s' \<and>
    set (hs_slot s') - {None} = set (hs_slot s) - {None} \<and> hs_harbor s' = hs_harbor s \<and>
    hs_slot_size s' = 2 * hs_slot_size s \<and> hs_name s' = hs_name s"
proof -
  from inv small obtain k where k: "2 \<le> k" "k \<le> 23" "hs_slot_size s = 2 ^ k"
    using power_strict_increasing_iff [of "2::nat" _ 24]
    by (auto simp: table_inv_def hs_shape_def less_Suc_eq_le)
  let ?n = "2 ^ k :: nat"
  let ?hash = "\<lambda>c. slot_hash (?n * 2) (ch c)"
  have shape: "hs_shape s" and len: "length (hs_slot s) = ?n"
    using inv k by (auto simp: table_inv_def hs_shape_def)
  have "\<forall>h. slot_hash (2 ^ Suc k) h < 2 ^ Suc k"
    using k(2) by (simp add: slot_hash_mod del: power_Suc)
  then have bound: "slot_hash (?n * 2) h < ?n * 2" for h by (simp add: mult.commute)
  have home: "?hash (the (hs_slot s ! i)) mod ?n = i" if "i < ?n" for i
    using that full k table_invD [OF inv, of i] by (auto simp: slots_full_def slot_hash_grow)
  have some: "\<forall>x\<in>set (hs_slot s). x \<noteq> None"
    using full len k(3) by (auto simp: slots_full_def in_set_conv_nth)
  have dist: "distinct (map (\<lambda>x. ?hash (the x)) (hs_slot s))"
    unfolding distinct_conv_nth using home len by (metis length_map nth_map)
  obtain new where new: "rehash ch (?n * 2) (hs_slot s) (replicate (?n * 2) None) = Some new"
    "length new = ?n * 2"
    "\<And>i c. i < ?n * 2 \<Longrightarrow> new ! i = Some c \<longleftrightarrow> Some c \<in> set (hs_slot s) \<and> ?hash c = i"
    using rehash_ok [OF some dist, of "replicate (?n * 2) None"] bound by auto
  let ?s = "s\<lparr>hs_slot := new, hs_slot_size := ?n * 2\<rparr>"
  have "(2::int) ^ k \<le> 2 ^ 23" using k(2) by (intro power_increasing) auto
  then have exp: "expand_slots ch s = Some ?s"
    using new(1) k(3) by (simp add: expand_slots_def HANDLE_MASK_def)
  have "hs_shape ?s" using shape new(2) k by (auto simp: hs_shape_def intro!: exI [of _ "Suc k"])
  moreover have "ch c AND NOT HANDLE_MASK = hs_harbor s" if "Some c \<in> set (hs_slot s)" for c
    using that table_invD [OF inv] len k(3) by (metis in_set_conv_nth)
  ultimately have inv': "table_inv (ch, ?s)" using new(3) by (simp add: table_inv_def)
  have "\<not> slots_full ?s"
  proof
    assume f: "slots_full ?s"
    have "{..<?n * 2} \<subseteq> (\<lambda>x. ?hash (the x)) ` set (hs_slot s)"
    proof
      fix i assume "i \<in> {..<?n * 2}"
      then have i: "i < ?n * 2" by simp
      with f obtain c where "new ! i = Some c" by (auto simp: slots_full_def)
      with new(3) [OF i, of c] have "Some c \<in> set (hs_slot s)" "i = ?hash (the (Some c))" by simp_all
      then show "i \<in> (\<lambda>x. ?hash (the x)) ` set (hs_slot s)" by blast
    qed
    then have "?n * 2 \<le> card (set (hs_slot s))"
      by (metis List.finite_set card_image_le card_lessThan card_mono finite_imageI le_trans)
    moreover have "(0::nat) < 2 ^ k" by simp
    ultimately show False using card_length [of "hs_slot s"] len by linarith
  qed
  moreover have "x \<in> set new \<longleftrightarrow> x \<in> set (hs_slot s)" if x: "x \<noteq> None" for x
  proof -
    obtain c where "x = Some c" using x by blast
    with new(2,3) bound [of "ch c"] show ?thesis by (metis in_set_conv_nth)
  qed
  ultimately show ?thesis using exp inv' k(3) by auto
qed

text \<open>One successful probe: the new context is found under its handle, the others as before.\<close>

lemma register_free:
  assumes inv: "table_inv (ch, s)" and p: "probe s 0 = Some (h, x)" and fresh: "Some ctx \<notin> set (hs_slot s)"
  defines "h' \<equiv> h OR hs_harbor s"
    and "s' \<equiv> s\<lparr>hs_slot := (hs_slot s)[x := Some ctx], hs_handle_index := h + 1\<rparr>"
  shows "mtask_handle_register ch s ctx = Some (h', s')" "table_inv (ch(ctx := h'), s')"
    "look (ch, s) h' = None" "look (ch(ctx := h'), s') = (look (ch, s))(h' \<mapsto> ctx)"
    "h' AND NOT HANDLE_MASK = hs_harbor s"
proof -
  from inv obtain k where k: "2 \<le> k" "k \<le> 24" "hs_slot_size s = 2 ^ k" "length (hs_slot s) = 2 ^ k"
    "hs_harbor s AND HANDLE_MASK = 0" "hs_shape s"
    by (auto simp: table_inv_def hs_shape_def)
  from probe_Some [OF p] obtain j where j: "h = (of_nat j + hs_handle_index s) AND HANDLE_MASK"
    "x = slot_hash (2 ^ k) h" "hs_slot s ! x = None" unfolding k by auto
  have x: "x < 2 ^ k" using slot_hash_bound [OF k(6), of h] j(2) k(3) by simp
  have hx: "slot_hash (2 ^ k) h' = x" unfolding h'_def slot_hash_harbor [OF k(2,5)] j(2) ..
  show "mtask_handle_register ch s ctx = Some (h', s')"
    using p by (subst mtask_handle_register.simps) (simp add: h'_def s'_def)
  show hb: "h' AND NOT HANDLE_MASK = hs_harbor s"
    unfolding h'_def j(1) by (rule harbor_part [OF k(5)])
  show None: "look (ch, s) h' = None"
    using hx j(3) k(3) by (simp add: look_def mtask_handle_grab_def)
  have old: "c \<noteq> ctx" if "i < 2 ^ k" "hs_slot s ! i = Some c" for i c
    using that fresh k(4) nth_mem [of i "hs_slot s"] by auto
  have "hs_shape s'" using k(6) by (simp add: s'_def hs_shape_def)
  moreover have "slot_hash (2 ^ k) ((ch(ctx := h')) c) = i \<and>
      (ch(ctx := h')) c AND NOT HANDLE_MASK = hs_harbor s"
    if "i < 2 ^ k" "(hs_slot s)[x := Some ctx] ! i = Some c" for i c
  proof (cases "i = x")
    case True
    with that x k(4) hx hb show ?thesis by simp
  next
    case False
    with that have c: "hs_slot s ! i = Some c" by simp
    with table_invD [OF inv, of i c] old [OF that(1) c] that(1) k(3) show ?thesis by simp
  qed
  ultimately show inv': "table_inv (ch(ctx := h'), s')"
    using k(3) by (simp add: table_inv_def s'_def)
  have upd: "(Some c \<in> set ((hs_slot s)[x := Some ctx])) \<longleftrightarrow> c = ctx \<or> Some c \<in> set (hs_slot s)" for c
    using x k(4) j(3) by (auto simp: in_set_conv_nth nth_list_update) (metis option.distinct(1))+
  show "look (ch(ctx := h'), s') = (look (ch, s))(h' \<mapsto> ctx)"
  proof
    fix g
    have nh: "ch c \<noteq> h'" if "Some c \<in> set (hs_slot s)" for c
      using look_eq [OF inv, of h' c] that None by auto
    have "look (ch(ctx := h'), s') g = Some c \<longleftrightarrow> ((look (ch, s))(h' \<mapsto> ctx)) g = Some c" for c
      using look_eq [OF inv'] look_eq [OF inv] fresh nh by (auto simp: s'_def upd)
    then show "look (ch(ctx := h'), s') g = ((look (ch, s))(h' \<mapsto> ctx)) g"
      by (metis not_None_eq)
  qed
qed

lemma look_cong:
  assumes "table_inv (ch, s)" "table_inv (ch, s')" "set (hs_slot s') - {None} = set (hs_slot s) - {None}"
  shows "look (ch, s') = look (ch, s)"
proof
  fix g
  have "Some c \<in> set (hs_slot s') \<longleftrightarrow> Some c \<in> set (hs_slot s)" for c using assms(3) by blast
  then have "look (ch, s') g = Some c \<longleftrightarrow> look (ch, s) g = Some c" for c
    using look_eq [OF assms(1)] look_eq [OF assms(2)] by simp
  then show "look (ch, s') g = look (ch, s) g" by (metis not_None_eq)
qed

section \<open>Registering\<close>

lemma register_all:
  assumes inv: "table_inv (ch, s)" and fresh: "Some ctx \<notin> set (hs_slot s)"
  shows "if slots_full s \<and> hs_slot_size s = 2 ^ 24 then mtask_handle_register ch s ctx = None
    else \<exists>h s'. mtask_handle_register ch s ctx = Some (h, s') \<and> table_inv (ch(ctx := h), s') \<and>
      look (ch, s) h = None \<and> look (ch(ctx := h), s') = (look (ch, s))(h \<mapsto> ctx) \<and>
      h AND NOT HANDLE_MASK = hs_harbor s \<and> hs_harbor s' = hs_harbor s \<and> hs_name s' = hs_name s"
proof (cases "probe s 0")
  case (Some p)
  moreover have "\<not> slots_full s"
    using Some probe_full [of s] inv by (auto simp: table_inv_def)
  moreover obtain h x where "p = (h, x)" by (cases p)
  ultimately show ?thesis using register_free [OF inv _ fresh, of h x] by simp
next
  case None
  have shape: "hs_shape s" using inv by (simp add: table_inv_def)
  with None have full: "slots_full s" by (simp add: probe_full)
  obtain k where k: "k \<le> 24" "hs_slot_size s = 2 ^ k" using shape by (auto simp: hs_shape_def)
  show ?thesis
  proof (cases "k = 24")
    case True
    then show ?thesis using None full k
      by (subst mtask_handle_register.simps) (simp add: expand_slots_def HANDLE_MASK_def)
  next
    case False
    have "(2::nat) ^ k < 2 ^ 24" using False k(1) by (intro power_strict_increasing) auto
    then have "hs_slot_size s < 2 ^ 24" using k(2) by simp
    from expand_ok [OF inv full this] obtain s1 where
      s1: "expand_slots ch s = Some s1" "table_inv (ch, s1)" "\<not> slots_full s1"
        "set (hs_slot s1) - {None} = set (hs_slot s) - {None}" "hs_harbor s1 = hs_harbor s"
        "hs_name s1 = hs_name s" by blast
    have reg: "mtask_handle_register ch s ctx = mtask_handle_register ch s1 ctx"
      using None s1(1) k(2) by (subst mtask_handle_register.simps) simp
    have "Some ctx \<notin> set (hs_slot s1)" using s1(4) fresh by blast
    moreover obtain h x where p: "probe s1 0 = Some (h, x)"
      using probe_full [of s1] s1(2,3) by (cases "probe s1 0") (auto simp: table_inv_def)
    ultimately show ?thesis
      using register_free [OF s1(2) p] s1(5,6) look_cong [OF inv s1(2,4)] reg
        \<open>hs_slot_size s < 2 ^ 24\<close> by simp
  qed
qed

section \<open>Retiring\<close>

lemma retire_all:
  assumes inv: "table_inv (ch, s)" and r: "mtask_handle_retire ch s h = (r, s', rel)"
  shows "table_inv (ch, s') \<and> look (ch, s') = (look (ch, s))(h := None) \<and> rel = look (ch, s) h \<and>
    r = (if rel = None then 0 else 1) \<and> hs_slot_size s' = hs_slot_size s \<and>
    hs_name s' = (if rel = None then hs_name s else filter (\<lambda>n. hn_handle n \<noteq> h) (hs_name s))"
proof (cases "look (ch, s) h")
  case None
  then have "s' = s" "rel = None" "r = 0"
    using r by (auto simp: mtask_handle_retire_def look_def mtask_handle_grab_def Let_def
        split: option.splits if_splits)
  with inv None show ?thesis by (auto simp: fun_upd_idem)
next
  case (Some c)
  let ?x = "slot_hash (hs_slot_size s) h"
  have c: "hs_slot s ! ?x = Some c" "ch c = h"
    using Some by (auto simp: look_def mtask_handle_grab_def split: option.splits if_splits)
  then have s': "s' = s\<lparr>hs_slot := (hs_slot s)[?x := None],
      hs_name := filter (\<lambda>n. hn_handle n \<noteq> h) (hs_name s)\<rparr>" "rel = Some c" "r = 1"
    using r by (auto simp: mtask_handle_retire_def Let_def)
  have shape: "hs_shape s" using inv by (simp add: table_inv_def)
  have x: "?x < length (hs_slot s)"
    using slot_hash_bound [OF shape] shape by (simp add: hs_shape_def)
  have nth: "(hs_slot s)[?x := None] ! i = (if i = ?x then None else hs_slot s ! i)" for i
    using x by (simp add: nth_list_update)
  have inv': "table_inv (ch, s')"
    using inv by (auto simp: s' table_inv_def hs_shape_def nth split: if_splits)
  moreover have "look (ch, s') g = ((look (ch, s))(h := None)) g" for g
  proof (cases "slot_hash (hs_slot_size s) g = ?x")
    case True
    with c show ?thesis by (auto simp: s' look_def mtask_handle_grab_def nth)
  next
    case False
    then show ?thesis by (auto simp: s' look_def mtask_handle_grab_def nth)
  qed
  ultimately show ?thesis using Some by (auto simp: s')
qed

interpretation handles: id_table table_inv look "\<lambda>t ctx. Some ctx \<notin> set (hs_slot (snd t))"
  context_register "\<lambda>t h. (fst t, fst (snd (mtask_handle_retire (fst t) (snd t) h)))"
proof
  fix t :: handles and h h' c
  obtain ch s where t: "t = (ch, s)" by (cases t)
  assume inv: "table_inv t"
  show "look t h = Some c \<Longrightarrow> look t h' = Some c \<Longrightarrow> h = h'"
    using look_eq [OF inv [unfolded t]] t by auto
  let ?r = "mtask_handle_retire ch s h"
  have "?r = (fst ?r, fst (snd ?r), snd (snd ?r))" by simp
  from retire_all [OF inv [unfolded t] this]
  show "table_inv (fst t, fst (snd (mtask_handle_retire (fst t) (snd t) h))) \<and>
    look (fst t, fst (snd (mtask_handle_retire (fst t) (snd t) h))) = (look t)(h := None)"
    by (simp add: t)
next
  fix t t' :: handles and ctx h v
  obtain ch s where t: "t = (ch, s)" by (cases t)
  assume "table_inv t" "Some ctx \<notin> set (hs_slot (snd t))" "context_register t ctx = Some (h, v, t')"
  then show "table_inv t' \<and> look t h = None \<and> look t' = (look t)(h \<mapsto> v)"
    using register_all [of ch s ctx] t
    by (auto simp: context_register_def split: option.splits if_splits)
qed

lemma slot_look:
  assumes "table_inv (ch, s)" "look (ch, s) h = Some c" "slot_hash (hs_slot_size s) h = i"
  shows "hs_slot s ! i = Some c \<and> ch c = h"
  using assms by (auto simp: look_def mtask_handle_grab_def split: option.splits if_splits)

lemma retire_pass_spec:
  "table_inv (ch, s) \<Longrightarrow> retire_pass ch s i n = (s', m) \<Longrightarrow>
   table_inv (ch, s') \<and> n \<le> m \<and> hs_slot_size s' = hs_slot_size s \<and>
   (\<forall>h. look (ch, s') h = (if h \<noteq> 0 \<and> i \<le> slot_hash (hs_slot_size s) h then None else look (ch, s) h)) \<and>
   hs_name s' = filter (\<lambda>x. hn_handle x = 0 \<or> slot_hash (hs_slot_size s) (hn_handle x) < i \<or>
     look (ch, s) (hn_handle x) = None) (hs_name s) \<and>
   (m = n \<longleftrightarrow> (\<forall>h. h \<noteq> 0 \<and> i \<le> slot_hash (hs_slot_size s) h \<longrightarrow> look (ch, s) h = None))"
proof (induction "hs_slot_size s - i" arbitrary: s i n)
  case 0
  have lt: "(i \<le> slot_hash (hs_slot_size s) h) = False" "slot_hash (hs_slot_size s) h < i" for h
    using slot_hash_bound [of s h] 0 by (auto simp: table_inv_def)
  have "retire_pass ch s i n = (s, n)"
    using 0 by (subst retire_pass.simps) simp
  then show ?case using 0(2,3) by (auto simp: lt)
next
  case (Suc k)
  let ?hd = "case hs_slot s ! i of Some c \<Rightarrow> ch c | None \<Rightarrow> 0"
  have i: "i < hs_slot_size s" using Suc.hyps(2) by simp
  have only: "h = ?hd" if "look (ch, s) h \<noteq> None" "slot_hash (hs_slot_size s) h = i" for h
    using slot_look [OF Suc.prems(1) _ that(2)] that(1) by auto
  show ?case
  proof (cases "?hd = 0")
    case True
    with Suc.prems(2) i have "retire_pass ch s (Suc i) n = (s', m)"
      by (subst (asm) retire_pass.simps) simp
    note IH = Suc.hyps(1) [OF _ Suc.prems(1) this]
    have iff: "h \<noteq> 0 \<Longrightarrow> look (ch, s) h \<noteq> None \<Longrightarrow> i \<le> slot_hash (hs_slot_size s) h \<longleftrightarrow>
        Suc i \<le> slot_hash (hs_slot_size s) h" for h
      using only [of h] True by (auto simp: le_less Suc_le_eq)
    have "k = hs_slot_size s - Suc i" using Suc.hyps(2) by simp
    note IH = IH [OF this]
    show ?thesis
    proof (intro conjI allI)
      show "look (ch, s') h = (if h \<noteq> 0 \<and> i \<le> slot_hash (hs_slot_size s) h then None else look (ch, s) h)" for h
        using IH iff [of h] by (cases "look (ch, s) h") auto
      show "hs_name s' = filter (\<lambda>x. hn_handle x = 0 \<or> slot_hash (hs_slot_size s) (hn_handle x) < i \<or>
         look (ch, s) (hn_handle x) = None) (hs_name s)"
        using IH iff by (auto intro!: filter_cong simp: not_le [symmetric])
      show "m = n \<longleftrightarrow> (\<forall>h. h \<noteq> 0 \<and> i \<le> slot_hash (hs_slot_size s) h \<longrightarrow> look (ch, s) h = None)"
        using IH iff by blast
    qed (use IH in blast)+
  next
    case False
    then obtain c where c: "hs_slot s ! i = Some c" "?hd = ch c" "ch c \<noteq> 0"
      by (cases "hs_slot s ! i") auto
    have home: "slot_hash (hs_slot_size s) (ch c) = i" using table_invD [OF Suc.prems(1) i c(1)] by simp
    then have lk: "look (ch, s) (ch c) = Some c"
      using c by (simp add: look_def mtask_handle_grab_def)
    obtain r s1 rel where r: "mtask_handle_retire ch s (ch c) = (r, s1, rel)"
      by (cases "mtask_handle_retire ch s (ch c)") auto
    note ra = retire_all [OF Suc.prems(1) r]
    with lk have ra': "table_inv (ch, s1)" "look (ch, s1) = (look (ch, s))(ch c := None)" "r = 1"
      "hs_slot_size s1 = hs_slot_size s" "hs_name s1 = filter (\<lambda>n. hn_handle n \<noteq> ch c) (hs_name s)"
      by auto
    have "retire_pass ch s1 (Suc i) (Suc n) = (s', m)"
      using Suc.prems(2) i c r ra'(3) by (subst (asm) retire_pass.simps) simp
    note IH = Suc.hyps(1) [OF _ ra'(1) this, unfolded ra'(4)]
    have "k = hs_slot_size s - Suc i" using Suc.hyps(2) by simp
    note IH = IH [OF this]
    have iff: "h \<noteq> ch c \<Longrightarrow> look (ch, s) h \<noteq> None \<Longrightarrow> i \<le> slot_hash (hs_slot_size s) h \<longleftrightarrow>
        Suc i \<le> slot_hash (hs_slot_size s) h" for h
      using only [of h] c by (auto simp: le_less Suc_le_eq)
    show ?thesis
    proof (intro conjI allI)
      show "look (ch, s') h = (if h \<noteq> 0 \<and> i \<le> slot_hash (hs_slot_size s) h then None else look (ch, s) h)" for h
        using IH iff [of h] home c(3) ra'(2) by (cases "look (ch, s) h"; cases "h = ch c") auto
      show "hs_name s' = filter (\<lambda>x. hn_handle x = 0 \<or> slot_hash (hs_slot_size s) (hn_handle x) < i \<or>
         look (ch, s) (hn_handle x) = None) (hs_name s)"
        using IH iff home c(3) lk unfolding ra'(2,5)
        by (auto intro!: filter_cong simp: not_le [symmetric])
      show "m = n \<longleftrightarrow> (\<forall>h. h \<noteq> 0 \<and> i \<le> slot_hash (hs_slot_size s) h \<longrightarrow> look (ch, s) h = None)"
        using IH c(3) home lk by auto
    qed (use IH in auto)
  qed
qed

section \<open>Properties\<close>

lemma handle_init_inv: "table_inv (ch, mtask_handle_init harbor)" "look (ch, mtask_handle_init harbor) = Map.empty"
proof -
  have "push_bit 24 (harbor AND 255) AND HANDLE_MASK = 0"
    unfolding handle_mask by (rule bit_word_eqI) (auto simp: bit_simps)
  then show i: "table_inv (ch, mtask_handle_init harbor)"
    by (auto simp: table_inv_def hs_shape_def mtask_handle_init_def DEFAULT_SLOT_SIZE_def
        HANDLE_REMOTE_SHIFT_def intro!: exI [of _ 2])
  show "look (ch, mtask_handle_init harbor) = Map.empty"
  proof (rule ext)
    fix h
    show "look (ch, mtask_handle_init harbor) h = None"
      using look_eq [OF i, of h]
      by (cases "look (ch, mtask_handle_init harbor) h") (auto simp: mtask_handle_init_def)
  qed
qed

text \<open>
  C16. Registering a new context, however often the table has to double for it, never fails
  an assertion before all \<open>2 ^ 24\<close> slots are taken: it returns a handle that carries the
  harbor of the node and belonged to no live context; the context is found under it from
  then on, and every other live context is still found under its own handle.
\<close>

theorem handle_register_correct:
  assumes "table_inv (ch, s)" and "Some ctx \<notin> set (hs_slot s)"
  shows "if slots_full s \<and> hs_slot_size s = 2 ^ 24 then mtask_handle_register ch s ctx = None
    else \<exists>h s'. mtask_handle_register ch s ctx = Some (h, s') \<and> table_inv (ch(ctx := h), s') \<and>
      mtask_handle_grab ch s h = None \<and>
      mtask_handle_grab (ch(ctx := h)) s' = (mtask_handle_grab ch s)(h \<mapsto> ctx) \<and>
      h AND NOT HANDLE_MASK = hs_harbor s \<and> hs_harbor s' = hs_harbor s"
proof -
  have "look (ch, s) = mtask_handle_grab ch s" for ch s by (rule ext) (simp add: look_def)
  with register_all [OF assms] show ?thesis by (auto split: if_splits)
qed

theorem handle_register_correct_witness:
  "\<exists>h s'. mtask_handle_register (\<lambda>_. 0) (mtask_handle_init 3) 5 = Some (h, s') \<and>
     mtask_handle_grab ((\<lambda>_. 0)(5 := h)) s' h = Some 5 \<and> h AND NOT HANDLE_MASK = 0x03000000"
proof -
  have h: "Some 5 \<notin> set (hs_slot (mtask_handle_init 3))" "hs_slot_size (mtask_handle_init 3) = 4"
    "hs_harbor (mtask_handle_init 3) = 0x03000000"
    by (simp_all add: mtask_handle_init_def DEFAULT_SLOT_SIZE_def HANDLE_REMOTE_SHIFT_def)
  from handle_register_correct [OF handle_init_inv(1) h(1), where ch = "\<lambda>_. 0"] h(2,3) show ?thesis
    by (auto split: if_splits)
qed

text \<open>
  C17. Retiring a handle succeeds exactly when it is live; the context is given up, none of
  the names left belongs to the handle, and the other handles and names are untouched.
\<close>

theorem handle_retire_correct:
  assumes "table_inv (ch, s)" "mtask_handle_retire ch s h = (r, s', rel)"
  shows "table_inv (ch, s') \<and> rel = mtask_handle_grab ch s h \<and> (r = 1 \<longleftrightarrow> rel \<noteq> None) \<and>
    mtask_handle_grab ch s' = (mtask_handle_grab ch s)(h := None) \<and>
    hs_name s' = (if rel = None then hs_name s else filter (\<lambda>n. hn_handle n \<noteq> h) (hs_name s))"
proof -
  have "look (ch, s) = mtask_handle_grab ch s" for ch s by (rule ext) (simp add: look_def)
  with retire_all [OF assms] show ?thesis by auto
qed

theorem handle_retire_correct_witness:
  "let s = (mtask_handle_init 0)\<lparr>hs_slot := [None, Some 9, None, None]\<rparr>; ch = (\<lambda>_. 0)(9 := 5) in
   mtask_handle_grab ch (fst (snd (mtask_handle_retire ch s 5))) 5 = None"
proof -
  let ?s = "(mtask_handle_init 0)\<lparr>hs_slot := [None, Some 9, None, None]\<rparr>"
  let ?ch = "(\<lambda>_. 0)(9 := 5) :: ctxid \<Rightarrow> u32"
  have "table_inv (?ch, ?s)"
    by (auto simp: table_inv_def hs_shape_def mtask_handle_init_def DEFAULT_SLOT_SIZE_def slot_hash_def
        HANDLE_MASK_def nth_Cons split: nat.splits intro!: exI [of _ 2])
  moreover obtain r s' rel where "mtask_handle_retire ?ch ?s 5 = (r, s', rel)"
    by (cases "mtask_handle_retire ?ch ?s 5") auto
  ultimately show ?thesis using handle_retire_correct by fastforce
qed

text \<open>
  C18. \<open>mtask_handle_retireall\<close> returns, and afterwards no handle other than 0 is live; the
  names of the retired handles are gone and all others are kept.
\<close>

theorem handle_retireall_correct:
  assumes "table_inv (ch, s)"
  shows "\<exists>s'. mtask_handle_retireall ch s = Some s' \<and> table_inv (ch, s') \<and>
    (\<forall>h. mtask_handle_grab ch s' h = (if h = 0 then mtask_handle_grab ch s 0 else None)) \<and>
    hs_name s' = filter (\<lambda>x. hn_handle x = 0 \<or> mtask_handle_grab ch s (hn_handle x) = None) (hs_name s)"
proof -
  obtain s1 m where 1: "retire_pass ch s 0 0 = (s1, m)" by fastforce
  note p1 = retire_pass_spec [OF assms 1]
  obtain s2 m2 where 2: "retire_pass ch s1 0 0 = (s2, m2)" by fastforce
  note p2 = retire_pass_spec [OF p1 [THEN conjunct1] 2]
  have lk: "look (ch, s) h = mtask_handle_grab ch s h" for ch s h by (simp add: look_def)
  have l1: "mtask_handle_grab ch s1 h = (if h = 0 then mtask_handle_grab ch s 0 else None)" for h
    using p1 by (simp add: lk)
  have l2: "mtask_handle_grab ch s2 h = mtask_handle_grab ch s1 h" for h
    using p2 l1 by (simp add: lk)
  have m2: "m2 = 0" using p2 l1 by (auto simp: lk)
  have n1: "hs_name s1 =
      filter (\<lambda>x. hn_handle x = 0 \<or> mtask_handle_grab ch s (hn_handle x) = None) (hs_name s)"
    using p1 by (simp add: lk)
  have n2: "hs_name s2 = hs_name s1"
    using p2 l1 by (auto simp: lk intro!: filter_True)
  have size: "hs_slot_size s \<noteq> 0" using assms by (auto simp: table_inv_def hs_shape_def)
  have "mtask_handle_retireall ch s = Some (if m = 0 then s1 else s2)"
    using 1 2 m2 size by (cases "hs_slot_size s") (auto simp: mtask_handle_retireall_def)
  moreover have "table_inv (ch, if m = 0 then s1 else s2)" using p1 p2 by simp
  ultimately show ?thesis using l1 l2 n1 n2 by (cases "m = 0") auto
qed

theorem handle_retireall_correct_witness:
  "\<exists>s'. mtask_handle_retireall (\<lambda>_. 7) (mtask_handle_init 1) = Some s' \<and>
     mtask_handle_grab (\<lambda>_. 7) s' 7 = None"
  using handle_retireall_correct [OF handle_init_inv(1), of "\<lambda>_. 7" 1] by fastforce

end
