(* ===== verification/Handle_Names.thy ===== *)
theory Handle_Names
  imports Handle_Table
begin

text \<open>
  The names of the handle storage: the array is strictly sorted by \<open>strcmp\<close>, the two
  bisections agree with looking the name up in an association list. Two lemmas at the end
  show what the code does when the handle index wraps around and when a context is hashed
  before its handle is stored.
\<close>

definition names_ok :: "handle_storage \<Rightarrow> bool" where
  "names_ok s \<longleftrightarrow> sorted_wrt (\<lambda>m n. hn_name m < hn_name n) (hs_name s) \<and> hs_name_count s \<le> hs_name_cap s \<and>
     0 < hs_name_cap s"

definition name_map :: "handle_storage \<Rightarrow> byte list \<Rightarrow> u32 option" where
  "name_map s = map_of (map (\<lambda>n. (hn_name n, hn_handle n)) (hs_name s))"

text \<open>\<open>bisecting s name b e\<close>: the name can only be between the indexes \<open>b\<close> and \<open>e\<close>.\<close>

definition bisecting :: "handle_storage \<Rightarrow> byte list \<Rightarrow> int \<Rightarrow> int \<Rightarrow> bool" where
  "bisecting s name b e \<longleftrightarrow> 0 \<le> b \<and> e < int (hs_name_count s) \<and> b \<le> e + 1 \<and>
     (\<forall>i<hs_name_count s. (int i < b \<longrightarrow> hn_name (hs_name s ! i) < name) \<and>
                          (e < int i \<longrightarrow> name < hn_name (hs_name s ! i)))"

lemma bisecting_start: "bisecting s name 0 (int (hs_name_count s) - 1)"
  by (simp add: bisecting_def)

lemma bisecting_mid:
  assumes ok: "names_ok s" and b: "bisecting s name b e" and be: "b \<le> e"
  defines "m \<equiv> (b + e) div 2"
  shows "0 \<le> m" "nat m < hs_name_count s"
    "hn_name (hs_name s ! nat m) < name \<Longrightarrow> bisecting s name (m + 1) e"
    "name < hn_name (hs_name s ! nat m) \<Longrightarrow> bisecting s name b (m - 1)"
proof -
  have m: "b \<le> m" "m \<le> e" using be by (simp_all add: m_def)
  with b show m0: "0 \<le> m" "nat m < hs_name_count s" by (auto simp: bisecting_def)
  have mono: "hn_name (hs_name s ! i) \<le> hn_name (hs_name s ! j)" if "i \<le> j" "j < hs_name_count s" for i j
    using ok that sorted_wrt_nth_less [of _ "hs_name s" i j]
    by (cases "i = j") (force simp: names_ok_def hs_name_count_def intro: less_imp_le)+
  show "bisecting s name (m + 1) e" if lt: "hn_name (hs_name s ! nat m) < name"
  proof -
    have "hn_name (hs_name s ! i) < name" if "int i < m + 1" for i
    proof -
      have "i \<le> nat m" using that m0 by linarith
      with mono m0 lt show ?thesis by (meson order_le_less_trans)
    qed
    with b m show ?thesis unfolding bisecting_def by auto
  qed
  show "bisecting s name b (m - 1)" if lt: "name < hn_name (hs_name s ! nat m)"
  proof -
    have "name < hn_name (hs_name s ! i)" if "m - 1 < int i" "i < hs_name_count s" for i
    proof -
      have "nat m \<le> i" using that m0 by linarith
      with mono that lt show ?thesis by (meson order_less_le_trans)
    qed
    with b m show ?thesis unfolding bisecting_def by auto
  qed
qed

lemma name_map_None: "name_map s name = None \<longleftrightarrow> (\<forall>i<hs_name_count s. hn_name (hs_name s ! i) \<noteq> name)"
  by (auto simp: name_map_def map_of_eq_None_iff hs_name_count_def in_set_conv_nth image_iff)
    (metis nth_mem)+

lemma names_distinct: "names_ok s \<Longrightarrow> distinct (map hn_name (hs_name s))"
  
  unfolding names_ok_def using strict_sorted_iff [of "map hn_name (hs_name s)"] by (simp add: sorted_wrt_map)

lemma name_map_Some:
  assumes "names_ok s" "i < hs_name_count s"
  shows "name_map s (hn_name (hs_name s ! i)) = Some (hn_handle (hs_name s ! i))"
  unfolding name_map_def using assms names_distinct [OF assms(1)]
  by (intro map_of_is_SomeI) (auto simp: hs_name_count_def o_def)

lemma bisecting_end:
  assumes "bisecting s name b e" "e < b"
  shows "name_map s name = None"
proof -
  have "hn_name (hs_name s ! i) \<noteq> name" if "i < hs_name_count s" for i
  proof -
    have "int i < b \<or> e < int i" using assms(2) by linarith
    with assms(1) that show ?thesis unfolding bisecting_def by auto
  qed
  then show ?thesis by (simp add: name_map_None)
qed

lemma findname_loop_spec:
  "names_ok s \<Longrightarrow> bisecting s name b e \<Longrightarrow>
   findname_loop s name b e = (case name_map s name of Some h \<Rightarrow> h | None \<Rightarrow> 0)"
proof (induction s name b e rule: findname_loop.induct)
  case (1 s name b e)
  let ?m = "(b + e) div 2"
  let ?n = "hs_name s ! nat ?m"
  show ?case
  proof (cases "b \<le> e")
    case False
    with bisecting_end [OF "1.prems"(2)] show ?thesis by (subst findname_loop.simps) simp
  next
    case True
    note mid = bisecting_mid [OF "1.prems" True]
    consider "strcmp (hn_name ?n) name = 0" | "strcmp (hn_name ?n) name < 0"
      | "0 < strcmp (hn_name ?n) name" by linarith
    then show ?thesis
    proof cases
      case 1
      then show ?thesis using True name_map_Some [OF "1.prems"(1) mid(2)]
        by (subst findname_loop.simps) (simp add: Let_def strcmp_eq)
    next
      case 2
      then have ne: "strcmp (hn_name ?n) name \<noteq> 0" by simp
      show ?thesis using 2 ne True "1.IH"(1) [OF True refl refl refl ne 2 "1.prems"(1)] mid(3)
        by (subst findname_loop.simps) (simp add: Let_def strcmp_less)
    next
      case 3
      then have ge: "strcmp (hn_name ?n) name \<noteq> 0" "\<not> strcmp (hn_name ?n) name < 0" by simp_all
      show ?thesis using 3 ge True "1.IH"(2) [OF True refl refl refl ge "1.prems"(1)] mid(4)
        by (subst findname_loop.simps) (simp add: Let_def strcmp_greater)
    qed
  qed
qed

lemma insert_loop_spec:
  "names_ok s \<Longrightarrow> bisecting s name b e \<Longrightarrow>
   (case insert_loop s name b e of
      None \<Rightarrow> name_map s name \<noteq> None
    | Some p \<Rightarrow> bisecting s name p (p - 1) \<and> name_map s name = None)"
proof (induction s name b e rule: insert_loop.induct)
  case (1 s name b e)
  let ?m = "(b + e) div 2"
  let ?n = "hs_name s ! nat ?m"
  show ?case
  proof (cases "b \<le> e")
    case False
    with "1.prems"(2) have "e = b - 1" by (auto simp: bisecting_def)
    with False bisecting_end [OF "1.prems"(2)] "1.prems"(2) show ?thesis
      by (subst insert_loop.simps) simp
  next
    case True
    note mid = bisecting_mid [OF "1.prems" True]
    consider "strcmp (hn_name ?n) name = 0" | "strcmp (hn_name ?n) name < 0"
      | "0 < strcmp (hn_name ?n) name" by linarith
    then show ?thesis
    proof cases
      case 1
      then show ?thesis using True name_map_Some [OF "1.prems"(1) mid(2)]
        by (subst insert_loop.simps) (simp add: Let_def strcmp_eq)
    next
      case 2
      then have ne: "strcmp (hn_name ?n) name \<noteq> 0" by simp
      show ?thesis using 2 ne True "1.IH"(1) [OF True refl refl refl ne 2 "1.prems"(1)] mid(3)
        by (subst insert_loop.simps) (simp add: Let_def strcmp_less)
    next
      case 3
      then have ge: "strcmp (hn_name ?n) name \<noteq> 0" "\<not> strcmp (hn_name ?n) name < 0" by simp_all
      show ?thesis using 3 ge True "1.IH"(2) [OF True refl refl refl ge "1.prems"(1)] mid(4)
        by (subst insert_loop.simps) (simp add: Let_def strcmp_greater)
    qed
  qed
qed

section \<open>Properties\<close>

text \<open>
  The bisection of \<open>mtask_handle_findname\<close> finds exactly the handle stored with the
  name, and 0 when there is none.
\<close>

theorem findname_correct:
  assumes "names_ok s"
  shows "mtask_handle_findname s name = (case name_map s name of Some h \<Rightarrow> h | None \<Rightarrow> 0)"
  unfolding mtask_handle_findname_def by (rule findname_loop_spec [OF assms bisecting_start])

theorem findname_correct_witness:
  "mtask_handle_findname ((mtask_handle_init 0)\<lparr>hs_name_cap := 4, hs_name :=
     [\<lparr>hn_name = [97], hn_handle = 5\<rparr>, \<lparr>hn_name = [97, 98], hn_handle = 6\<rparr>,
      \<lparr>hn_name = [99], hn_handle = 7\<rparr>]\<rparr>) [97, 98] = 6"
  by (subst findname_correct) (simp_all add: names_ok_def hs_name_count_def name_map_def)

text \<open>
  C19. Naming a handle keeps the names strictly sorted. A name in use is refused and changes
  nothing; a new one is added and all others keep their handles, unless the array would
  outgrow its maximal size.
\<close>

theorem namehandle_correct:
  assumes "names_ok s" "hs_name_cap s \<le> MAX_SLOT_SIZE div 2"
  shows "\<exists>ret s'. mtask_handle_namehandle s handle name = Some (ret, s') \<and> names_ok s' \<and>
    (ret = (if name_map s name = None then Some name else None)) \<and>
    name_map s' = (if name_map s name = None then (name_map s)(name \<mapsto> handle) else name_map s) \<and>
    hs_slot s' = hs_slot s"
proof (cases "insert_loop s name 0 (int (hs_name_count s) - 1)")
  case None
  with insert_loop_spec [OF assms(1) bisecting_start [of s name]] assms(1) show ?thesis
    by (auto simp: mtask_handle_namehandle_def)
next
  case (Some p)
  let ?new = "\<lparr>hn_name = name, hn_handle = handle\<rparr>"
  let ?names = "take (nat p) (hs_name s) @ ?new # drop (nat p) (hs_name s)"
  from Some insert_loop_spec [OF assms(1) bisecting_start [of s name]]
  have p: "bisecting s name p (p - 1)" and none: "name_map s name = None" by auto
  obtain s' where s': "mtask_handle_namehandle s handle name = Some (Some name, s')"
    "hs_name s' = ?names" "hs_slot s' = hs_slot s" "hs_name_count s' \<le> hs_name_cap s'" "0 < hs_name_cap s'"
    using Some assms p by (auto simp: mtask_handle_namehandle_def insert_name_before_def MAX_SLOT_SIZE_def
        names_ok_def hs_name_count_def bisecting_def Let_def)
  have len: "nat p \<le> length (hs_name s)" using p by (auto simp: bisecting_def hs_name_count_def)
  have before: "hn_name x < name" if "x \<in> set (take (nat p) (hs_name s))" for x
  proof -
    obtain i where "i < nat p" "x = hs_name s ! i" using \<open>x \<in> _\<close> len by (auto simp: in_set_conv_nth)
    with p len show ?thesis by (auto simp: bisecting_def hs_name_count_def)
  qed
  have after: "name < hn_name x" if "x \<in> set (drop (nat p) (hs_name s))" for x
  proof -
    obtain i where "nat p + i < length (hs_name s)" "x = hs_name s ! (nat p + i)"
      using \<open>x \<in> _\<close> len by (auto simp: in_set_conv_nth less_diff_conv add.commute)
    with p show ?thesis by (auto simp: bisecting_def hs_name_count_def)
  qed
  have "sorted_wrt (\<lambda>m n. hn_name m < hn_name n)
      (take (nat p) (hs_name s) @ drop (nat p) (hs_name s))"
    using assms(1) by (simp add: names_ok_def)
  then have "sorted_wrt (\<lambda>m n. hn_name m < hn_name n) ?names"
    unfolding sorted_wrt_append using before after by auto
  then have "names_ok s'" using s' by (simp add: names_ok_def)
  moreover have "name_map s' = (name_map s)(name \<mapsto> handle)"
  proof -
    have "name_map s' = (map_of (map (\<lambda>n. (hn_name n, hn_handle n)) (drop (nat p) (hs_name s))) ++ [name \<mapsto> handle])
        ++ map_of (map (\<lambda>n. (hn_name n, hn_handle n)) (take (nat p) (hs_name s)))"
      by (simp add: name_map_def s' map_add_def fun_eq_iff split: option.split)
    also have "\<dots> = (name_map s)(name \<mapsto> handle)"
    proof -
      have "name_map s = map_of (map (\<lambda>n. (hn_name n, hn_handle n)) (drop (nat p) (hs_name s)))
          ++ map_of (map (\<lambda>n. (hn_name n, hn_handle n)) (take (nat p) (hs_name s)))"
        unfolding name_map_def by (metis append_take_drop_id map_append map_of_append)
      moreover have "map_of (map (\<lambda>n. (hn_name n, hn_handle n)) (take (nat p) (hs_name s))) name = None"
        using before by (force simp: map_of_eq_None_iff)
      ultimately show ?thesis by (auto simp: map_add_def fun_eq_iff split: option.split)
    qed
    finally show ?thesis .
  qed
  ultimately show ?thesis using s' none by auto
qed

theorem namehandle_correct_witness:
  "\<exists>s'. mtask_handle_namehandle (mtask_handle_init 0) 5 [97] = Some (Some [97], s') \<and>
     name_map s' [97] = Some 5"
proof -
  have "names_ok (mtask_handle_init 0)" "hs_name_cap (mtask_handle_init 0) \<le> MAX_SLOT_SIZE div 2"
    "name_map (mtask_handle_init 0) [97] = None"
    by (simp_all add: names_ok_def hs_name_count_def mtask_handle_init_def MAX_SLOT_SIZE_def name_map_def)
  with namehandle_correct [of "mtask_handle_init 0" 5 "[97]"] show ?thesis by auto
qed

text \<open>
  Handle 0, which \<open>mtask_handle_init\<close> reserves for the system, is given out all the
  same once the handle index has wrapped around: in a node without harbor the context gets
  the handle 0, which the rest of the code takes for "no handle".
\<close>

theorem register_gives_zero:
  assumes "table_inv (ch, s)" "hs_handle_index s = 0x1000000" "hs_slot s ! 0 = None"
  shows "\<exists>s'. mtask_handle_register ch s ctx = Some (hs_harbor s, s')"
proof -
  have pos: "0 < hs_slot_size s" using assms(1) by (auto simp: table_inv_def hs_shape_def)
  have "slot_hash (hs_slot_size s) 0 = 0" by (simp add: slot_hash_def)
  with pos assms(2,3) have "probe s 0 = Some (0, 0)"
    by (subst probe.simps) (simp add: HANDLE_MASK_def)
  then show ?thesis by (subst mtask_handle_register.simps) simp
qed

theorem register_gives_zero_witness:
  "\<exists>s'. mtask_handle_register (\<lambda>_. 0) ((mtask_handle_init 0)\<lparr>hs_handle_index := 0x1000000\<rparr>) 5 = Some (0, s')"
proof -
  let ?s = "(mtask_handle_init 0)\<lparr>hs_handle_index := 0x1000000\<rparr>"
  have "table_inv (\<lambda>_. 0, ?s)"
    using handle_init_inv(1) [of "\<lambda>_. 0" 0] by (simp add: table_inv_def hs_shape_def)
  from register_gives_zero [OF this] show ?thesis
    by (simp add: mtask_handle_init_def DEFAULT_SLOT_SIZE_def)
qed

text \<open>
  \<open>mtask_context_new\<close> stores the handle in the context only after
  \<open>mtask_handle_register\<close> has given the lock up. When another thread registers in between
  and the table has to grow, the first context is moved to the slot of its old handle field,
  0: with the harbor 0, the fourth context of a node gets handle 4 and cannot be found under
  it any more.
\<close>

theorem register_race:
  "let ch = (\<lambda>_. 0)(1 := 1, 2 := 2, 3 := 3);
       s3 = (mtask_handle_init 0)\<lparr>hs_slot := [None, Some 1, Some 2, Some 3], hs_handle_index := 4\<rparr>
   in table_inv (ch, s3) \<and>
     (\<exists>s4 s5. mtask_handle_register ch s3 4 = Some (4, s4) \<and>
       mtask_handle_register ch s4 5 = Some (5, s5) \<and>
       mtask_handle_grab (ch(4 := 4, 5 := 5)) s5 4 = None)"
proof -
  let ?ch = "(\<lambda>_. 0)(1 := 1, 2 := 2, 3 := 3) :: ctxid \<Rightarrow> u32"
  let ?s3 = "(mtask_handle_init 0)\<lparr>hs_slot := [None, Some 1, Some 2, Some 3], hs_handle_index := 4\<rparr>"
  let ?s4 = "?s3\<lparr>hs_slot := [Some 4, Some 1, Some 2, Some 3], hs_handle_index := 5\<rparr>"
  let ?s5 = "?s4\<lparr>hs_slot_size := 8, hs_slot := [Some 4, Some 1, Some 2, Some 3, None, Some 5, None, None],
    hs_handle_index := 6\<rparr>"
  note ev = mtask_handle_init_def DEFAULT_SLOT_SIZE_def slot_hash_def HANDLE_MASK_def
  have "table_inv (?ch, ?s3)"
    by (auto simp: table_inv_def hs_shape_def ev nth_Cons split: nat.splits intro!: exI [of _ 2])
  moreover have "mtask_handle_register ?ch ?s3 4 = Some (4, ?s4)" by code_simp
  moreover have "mtask_handle_register ?ch ?s4 5 = Some (5, ?s5)" by code_simp
  moreover have "mtask_handle_grab (?ch(4 := 4, 5 := 5)) ?s5 4 = None" by code_simp
  ultimately show ?thesis unfolding Let_def by blast
qed

end
