(* ===== verification/Hashid.thy ===== *)
theory Hashid
  imports Mtask_Prelude
begin

text \<open>
  \<open>service-src/hashid.h\<close>: the table from socket ids to the indexes of the connections of
  the gate service. Its nodes are chained through their \<open>next\<close> fields, one chain per
  bucket; a pointer to a node is the index of the node, as \<open>c - hi->id\<close> computes it. The
  chain walks take the number of nodes as fuel and are \<open>None\<close> when it runs out, which a
  well-formed table never does; a failed \<open>assert\<close> or an index out of range is \<open>None\<close> too.
\<close>

section \<open>Data\<close>

record hashid_node =
  nd_id :: int
  nd_next :: "nat option"

record hashid =
  hi_hashmod :: int
  hi_cap :: int
  hi_count :: int
  hi_id :: "hashid_node list"
  hi_hash :: "nat option list"

definition INT_MAX :: int where "INT_MAX = 2 ^ 31 - 1"

section \<open>Operations\<close>

function hashcap_loop :: "int \<Rightarrow> int \<Rightarrow> int" where
  "hashcap_loop hashcap mx =
     (if hashcap < mx \<and> 0 < hashcap then hashcap_loop (hashcap * 2) mx else hashcap)"
  by pat_completeness auto
termination by (relation "measure (\<lambda>(h, m). nat (m - h))") auto

declare hashcap_loop.simps [simp del]

definition hashid_init :: "int \<Rightarrow> hashid" where
  "hashid_init mx =
     (let hashcap = hashcap_loop 16 mx in
      \<lparr>hi_hashmod = hashcap - 1, hi_cap = mx, hi_count = 0,
       hi_id = replicate (nat mx) \<lparr>nd_id = -1, nd_next = None\<rparr>,
       hi_hash = replicate (nat hashcap) None\<rparr>)"

definition hashid_clear :: "hashid \<Rightarrow> hashid" where
  "hashid_clear hi = \<lparr>hi_hashmod = 1, hi_cap = 0, hi_count = 0, hi_id = [], hi_hash = []\<rparr>"

definition bucket :: "hashid \<Rightarrow> int \<Rightarrow> nat" where
  "bucket hi i = nat (i AND hi_hashmod hi)"

text \<open>The walk of \<open>hashid_lookup\<close>; the C function returns -1 for \<open>Some None\<close>.\<close>

fun lookup_walk :: "nat \<Rightarrow> hashid_node list \<Rightarrow> int \<Rightarrow> nat option \<Rightarrow> nat option option" where
  "lookup_walk fuel nodes i None = Some None"
| "lookup_walk 0 nodes i (Some c) = None"
| "lookup_walk (Suc fuel) nodes i (Some c) =
     (if length nodes \<le> c then None
      else if nd_id (nodes ! c) = i then Some (Some c)
      else lookup_walk fuel nodes i (nd_next (nodes ! c)))"

definition hashid_lookup :: "hashid \<Rightarrow> int \<Rightarrow> nat option option" where
  "hashid_lookup hi i = lookup_walk (length (hi_id hi)) (hi_id hi) i (hi_hash hi ! bucket hi i)"

text \<open>
  The second loop of \<open>hashid_remove\<close>: from node \<open>c\<close>, the index of the node whose
  successor has the id, if any.
\<close>

fun remove_walk :: "nat \<Rightarrow> hashid_node list \<Rightarrow> int \<Rightarrow> nat \<Rightarrow> nat option option" where
  "remove_walk 0 nodes i c = None"
| "remove_walk (Suc fuel) nodes i c =
     (case nd_next (nodes ! c) of
        None \<Rightarrow> Some None
      | Some d \<Rightarrow>
          if length nodes \<le> d then None
          else if nd_id (nodes ! d) = i then Some (Some c)
          else remove_walk fuel nodes i d)"

definition clear_node :: "hashid \<Rightarrow> nat \<Rightarrow> hashid" where
  "clear_node hi c = hi\<lparr>hi_id := (hi_id hi)[c := \<lparr>nd_id = -1, nd_next = None\<rparr>],
     hi_count := hi_count hi - 1\<rparr>"

definition hashid_remove :: "hashid \<Rightarrow> int \<Rightarrow> (nat option \<times> hashid) option" where
  "hashid_remove hi i =
     (let h = bucket hi i in
      case hi_hash hi ! h of
        None \<Rightarrow> Some (None, hi)
      | Some c \<Rightarrow>
          if length (hi_id hi) \<le> c then None
          else if nd_id (hi_id hi ! c) = i then
            Some (Some c, clear_node (hi\<lparr>hi_hash := (hi_hash hi)[h := nd_next (hi_id hi ! c)]\<rparr>) c)
          else (case remove_walk (length (hi_id hi)) (hi_id hi) i c of
              None \<Rightarrow> None
            | Some None \<Rightarrow> Some (None, hi)
            | Some (Some b) \<Rightarrow>
                let temp = the (nd_next (hi_id hi ! b));
                    hi1 = hi\<lparr>hi_id := (hi_id hi)[b := (hi_id hi ! b)\<lparr>nd_next := nd_next (hi_id hi ! temp)\<rparr>]\<rparr>
                in Some (Some temp, clear_node hi1 temp)))"

text \<open>
  The search for a free node in \<open>hashid_insert\<close>, starting at \<open>id % cap\<close>. The sum \<open>i + id\<close>
  is a C \<open>int\<close>: it may not exceed \<open>INT_MAX\<close> nor be negative. The inner \<open>None\<close> is the failed
  \<open>assert(c)\<close>.
\<close>

function free_node :: "hashid \<Rightarrow> int \<Rightarrow> nat \<Rightarrow> nat option" where
  "free_node hi ident i =
     (if int i < hi_cap hi then
        if INT_MAX < int i + ident \<or> int i + ident < 0 then None
        else
          let index = nat ((int i + ident) mod hi_cap hi) in
          if nd_id (hi_id hi ! index) = -1 then Some index else free_node hi ident (i + 1)
      else None)"
  by pat_completeness auto
termination by (relation "measure (\<lambda>(hi, ident, i). nat (hi_cap hi) - i)") auto

declare free_node.simps [simp del]

definition hashid_insert :: "hashid \<Rightarrow> int \<Rightarrow> (nat \<times> hashid) option" where
  "hashid_insert hi ident =
     (case free_node hi ident 0 of
        None \<Rightarrow> None
      | Some c \<Rightarrow>
          if nd_next (hi_id hi ! c) \<noteq> None then None
          else
            let h = bucket hi ident in
            Some (c, hi\<lparr>hi_count := hi_count hi + 1,
              hi_id := (hi_id hi)[c := \<lparr>nd_id = ident, nd_next = hi_hash hi ! h\<rparr>],
              hi_hash := (hi_hash hi)[h := Some c]\<rparr>))"

definition hashid_full :: "hashid \<Rightarrow> bool" where
  "hashid_full hi \<longleftrightarrow> hi_count hi = hi_cap hi"

section \<open>Chains\<close>

fun chain :: "hashid_node list \<Rightarrow> nat option \<Rightarrow> nat list \<Rightarrow> bool" where
  "chain nodes c [] \<longleftrightarrow> c = None"
| "chain nodes c (x # xs) \<longleftrightarrow> c = Some x \<and> x < length nodes \<and> chain nodes (nd_next (nodes ! x)) xs"

definition live_nodes :: "hashid \<Rightarrow> nat set" where
  "live_nodes hi = {c. c < length (hi_id hi) \<and> nd_id (hi_id hi ! c) \<noteq> -1}"

definition chains_ok :: "hashid \<Rightarrow> (nat \<Rightarrow> nat list) \<Rightarrow> bool" where
  "chains_ok hi L \<longleftrightarrow>
     (\<forall>h<length (hi_hash hi). chain (hi_id hi) (hi_hash hi ! h) (L h) \<and> distinct (L h) \<and>
        set (L h) = {c \<in> live_nodes hi. bucket hi (nd_id (hi_id hi ! c)) = h})"

definition hash_inv :: "hashid \<Rightarrow> bool" where
  "hash_inv hi \<longleftrightarrow> (\<exists>k. hi_hashmod hi = 2 ^ k - 1 \<and> length (hi_hash hi) = 2 ^ k) \<and>
     0 < hi_cap hi \<and> int (length (hi_id hi)) = hi_cap hi \<and> hi_count hi = int (card (live_nodes hi)) \<and>
     inj_on (\<lambda>c. nd_id (hi_id hi ! c)) (live_nodes hi) \<and>
     (\<forall>c<length (hi_id hi). nd_id (hi_id hi ! c) = -1 \<longrightarrow> nd_next (hi_id hi ! c) = None) \<and>
     (\<exists>L. chains_ok hi L)"

definition slot_of :: "hashid \<Rightarrow> int \<Rightarrow> nat option" where
  "slot_of hi i = (if i = -1 then None else
     if \<exists>c\<in>live_nodes hi. nd_id (hi_id hi ! c) = i then Some (THE c. c \<in> live_nodes hi \<and> nd_id (hi_id hi ! c) = i)
     else None)"

lemma chain_cong:
  "(\<And>x. x \<in> set xs \<Longrightarrow> x < length n' \<and> nd_next (n' ! x) = nd_next (n ! x)) \<Longrightarrow> chain n c xs \<Longrightarrow> chain n' c xs"
  by (induction n c xs rule: chain.induct) auto

lemma chain_mem: "chain n c xs \<Longrightarrow> x \<in> set xs \<Longrightarrow> x < length n"
  by (induction n c xs rule: chain.induct) auto

lemma lookup_walk_chain:
  "chain nodes c xs \<Longrightarrow> length xs \<le> fuel \<Longrightarrow>
   lookup_walk fuel nodes i c = Some (find (\<lambda>x. nd_id (nodes ! x) = i) xs)"
proof (induction xs arbitrary: c fuel)
  case Nil
  then show ?case by simp
next
  case (Cons x xs)
  then show ?case by (cases fuel) auto
qed

lemma live_bound: "live_nodes hi \<subseteq> {..<length (hi_id hi)}"
  by (auto simp: live_nodes_def)

lemma finite_live [simp]: "finite (live_nodes hi)"
  using live_bound by (rule finite_subset) simp

lemma bucket_bound: "hash_inv hi \<Longrightarrow> bucket hi i < length (hi_hash hi)"
proof -
  assume "hash_inv hi"
  then obtain k where k: "hi_hashmod hi = mask k" "length (hi_hash hi) = 2 ^ k"
    by (auto simp: hash_inv_def mask_eq_exp_minus_1)
  have "i AND mask k = i mod 2 ^ k" using take_bit_eq_mask [of k i] by (simp add: take_bit_eq_mod)
  with k show ?thesis by (simp add: bucket_def nat_less_iff)
qed

lemma chain_len:
  assumes "chains_ok hi L" "h < length (hi_hash hi)"
  shows "length (L h) \<le> length (hi_id hi)"
proof -
  have "set (L h) \<subseteq> {..<length (hi_id hi)}" "distinct (L h)"
    using assms live_bound unfolding chains_ok_def by blast+
  then show ?thesis by (metis card_lessThan card_mono distinct_card finite_lessThan)
qed

lemma slot_of_iff:
  assumes "hash_inv hi"
  shows "slot_of hi i = Some c \<longleftrightarrow> c \<in> live_nodes hi \<and> nd_id (hi_id hi ! c) = i"
proof -
  have u: "d = c" if "c \<in> live_nodes hi" "d \<in> live_nodes hi" "nd_id (hi_id hi ! c) = nd_id (hi_id hi ! d)" for c d
    using assms that by (auto simp: hash_inv_def inj_on_def)
  have t: "(THE c. c \<in> live_nodes hi \<and> nd_id (hi_id hi ! c) = i) = d" if "d \<in> live_nodes hi" "nd_id (hi_id hi ! d) = i" for d
    using that u by (intro the_equality) auto
  show ?thesis
  proof
    assume s: "slot_of hi i = Some c"
    then obtain d where "d \<in> live_nodes hi" "nd_id (hi_id hi ! d) = i" by (auto simp: slot_of_def split: if_splits)
    with t [OF this] s show "c \<in> live_nodes hi \<and> nd_id (hi_id hi ! c) = i"
      by (auto simp: slot_of_def split: if_splits)
  next
    assume c: "c \<in> live_nodes hi \<and> nd_id (hi_id hi ! c) = i"
    then have "i \<noteq> -1" by (auto simp: live_nodes_def)
    with c t [of c] show "slot_of hi i = Some c" by (auto simp: slot_of_def)
  qed
qed

lemma lookup_slot_of:
  assumes inv: "hash_inv hi"
  shows "hashid_lookup hi i = Some (slot_of hi i)"
proof -
  obtain L where L: "chains_ok hi L" using inv by (auto simp: hash_inv_def)
  let ?h = "bucket hi i"
  have h: "?h < length (hi_hash hi)" by (rule bucket_bound [OF inv])
  with L have c: "chain (hi_id hi) (hi_hash hi ! ?h) (L ?h)"
    "set (L ?h) = {c \<in> live_nodes hi. bucket hi (nd_id (hi_id hi ! c)) = ?h}"
    by (auto simp: chains_ok_def)
  have l: "hashid_lookup hi i = Some (find (\<lambda>x. nd_id (hi_id hi ! x) = i) (L ?h))"
    unfolding hashid_lookup_def by (rule lookup_walk_chain [OF c(1) chain_len [OF L h]])
  have "find (\<lambda>x. nd_id (hi_id hi ! x) = i) (L ?h) = slot_of hi i"
  proof (cases "find (\<lambda>x. nd_id (hi_id hi ! x) = i) (L ?h)")
    case None
    then have "\<forall>c\<in>live_nodes hi. nd_id (hi_id hi ! c) \<noteq> i" using c(2) by (auto simp: find_None_iff)
    then have "slot_of hi i = None" by (simp add: slot_of_def)
    with None show ?thesis by simp
  next
    case (Some x)
    then have "x \<in> set (L ?h)" "nd_id (hi_id hi ! x) = i" by (auto simp: find_Some_iff)
    with c(2) slot_of_iff [OF inv, of i x] Some show ?thesis by simp
  qed
  with l show ?thesis by simp
qed

section \<open>Insertion\<close>

lemma free_node_Some:
  "free_node hi ident i = Some c \<Longrightarrow> 0 < hi_cap hi \<Longrightarrow> int c < hi_cap hi \<and> nd_id (hi_id hi ! c) = -1"
proof (induction hi ident i rule: free_node.induct)
  case (1 hi ident i)
  let ?index = "nat ((int i + ident) mod hi_cap hi)"
  have "int ?index < hi_cap hi" using "1.prems"(2) by simp
  with 1 show ?case
    by (subst (asm) (2) free_node.simps) (auto simp: Let_def split: if_splits)
qed

lemma free_node_None:
  "free_node hi ident i = None \<Longrightarrow> 0 \<le> ident \<Longrightarrow> ident + hi_cap hi \<le> INT_MAX + 1 \<Longrightarrow> i \<le> j \<Longrightarrow>
   int j < hi_cap hi \<Longrightarrow> nd_id (hi_id hi ! nat ((int j + ident) mod hi_cap hi)) \<noteq> -1"
proof (induction hi ident i rule: free_node.induct)
  case (1 hi ident i)
  have i: "int i < hi_cap hi" using "1.prems"(4,5) by linarith
  have r: "\<not> (INT_MAX < int i + ident \<or> int i + ident < 0)" using "1.prems"(2,3) i by linarith
  have ne: "nd_id (hi_id hi ! nat ((int i + ident) mod hi_cap hi)) \<noteq> -1" "free_node hi ident (i + 1) = None"
    using "1.prems"(1) i r by (subst (asm) free_node.simps, simp add: Let_def split: if_splits)+
  show ?case
  proof (cases "i = j")
    case True
    with ne show ?thesis by simp
  next
    case False
    with "1.IH" [OF i r refl ne(1,2) "1.prems"(2,3)] "1.prems"(4,5) show ?thesis by simp
  qed
qed

lemma free_node_ok:
  assumes inv: "hash_inv hi" and room: "\<not> hashid_full hi" and i: "0 \<le> ident" "ident + hi_cap hi \<le> INT_MAX + 1"
  shows "\<exists>c. free_node hi ident 0 = Some c \<and> c < length (hi_id hi) \<and> nd_id (hi_id hi ! c) = -1"
proof -
  have cap: "0 < hi_cap hi" "int (length (hi_id hi)) = hi_cap hi" using inv by (auto simp: hash_inv_def)
  have "live_nodes hi \<noteq> {..<length (hi_id hi)}"
    using room inv by (auto simp: hashid_full_def hash_inv_def)
  then obtain c where c: "c < length (hi_id hi)" "nd_id (hi_id hi ! c) = -1"
    using live_bound [of hi] by (auto simp: live_nodes_def)
  obtain j where j: "j < length (hi_id hi)" "(j + nat ident) mod length (hi_id hi) = c"
    using residue_covered [OF c(1)] .
  have "(int j + ident) mod hi_cap hi = int ((j + nat ident) mod length (hi_id hi))"
    using i(1) by (simp add: zmod_int cap(2))
  then have "nat ((int j + ident) mod hi_cap hi) = c" using j(2) by simp
  moreover have "int j < hi_cap hi" using j(1) cap(2) by simp
  ultimately have "free_node hi ident 0 \<noteq> None"
    using free_node_None [where hi = hi and ident = ident and i = 0 and j = j] i c(2) by auto
  then obtain d where "free_node hi ident 0 = Some d" by blast
  with free_node_Some [OF this cap(1)] cap(2) show ?thesis by auto
qed

lemma hashid_insert_ok:
  assumes inv: "hash_inv hi" and new: "slot_of hi i = None" and room: "\<not> hashid_full hi"
    and i: "0 \<le> i" "i + hi_cap hi \<le> INT_MAX + 1"
  shows "\<exists>c hi'. hashid_insert hi i = Some (c, hi') \<and> hash_inv hi' \<and> c \<notin> live_nodes hi \<and> c < length (hi_id hi) \<and>
    slot_of hi' = (slot_of hi)(i \<mapsto> c) \<and> hi_cap hi' = hi_cap hi"
proof -
  obtain c where c: "free_node hi i 0 = Some c" "c < length (hi_id hi)" "nd_id (hi_id hi ! c) = -1"
    using free_node_ok [OF inv room i] by blast
  obtain L where L: "chains_ok hi L" using inv by (auto simp: hash_inv_def)
  let ?h = "bucket hi i"
  let ?hi = "hi\<lparr>hi_count := hi_count hi + 1,
    hi_id := (hi_id hi)[c := \<lparr>nd_id = i, nd_next = hi_hash hi ! ?h\<rparr>], hi_hash := (hi_hash hi)[?h := Some c]\<rparr>"
  have h: "?h < length (hi_hash hi)" by (rule bucket_bound [OF inv])
  have next_none: "nd_next (hi_id hi ! c) = None" using inv c by (auto simp: hash_inv_def)
  with c(1) have ins: "hashid_insert hi i = Some (c, ?hi)" by (simp add: hashid_insert_def Let_def)
  have nl: "c \<notin> live_nodes hi" using c by (simp add: live_nodes_def)
  have live': "live_nodes ?hi = insert c (live_nodes hi)"
    using c(2) i(1) by (auto simp: live_nodes_def nth_list_update)
  have ids: "nd_id (hi_id ?hi ! x) = (if x = c then i else nd_id (hi_id hi ! x))" for x
    using c(2) by (simp add: nth_list_update)
  have fresh: "nd_id (hi_id hi ! x) \<noteq> i" if "x \<in> live_nodes hi" for x
    using slot_of_iff [OF inv, of i x] that new by auto
  have bk: "bucket ?hi = bucket hi" by (rule ext) (simp add: bucket_def)
  have "chains_ok ?hi (L(?h := c # L ?h))" unfolding chains_ok_def
  proof (intro allI impI)
    fix g assume "g < length (hi_hash ?hi)"
    then have g: "g < length (hi_hash hi)" by simp
    with L have Lg: "chain (hi_id hi) (hi_hash hi ! g) (L g)" "distinct (L g)"
      "set (L g) = {c \<in> live_nodes hi. bucket hi (nd_id (hi_id hi ! c)) = g}" by (auto simp: chains_ok_def)
    have "x \<noteq> c" if "x \<in> set (L g)" for x using that Lg(3) nl by blast
    then have ch: "chain (hi_id ?hi) (hi_hash hi ! g) (L g)"
      by (intro chain_cong [OF _ Lg(1)]) (simp add: chain_mem [OF Lg(1)] nth_list_update_neq [symmetric] neq_commute)
    have s: "{x \<in> live_nodes ?hi. bucket ?hi (nd_id (hi_id ?hi ! x)) = g} =
        (if g = ?h then insert c (set (L g)) else set (L g))"
    proof (rule set_eqI)
      fix x
      show "x \<in> {x \<in> live_nodes ?hi. bucket ?hi (nd_id (hi_id ?hi ! x)) = g} \<longleftrightarrow>
          x \<in> (if g = ?h then insert c (set (L g)) else set (L g))"
        unfolding live' bk ids Lg(3) using nl by (cases "x = c") auto
    qed
    show "chain (hi_id ?hi) (hi_hash ?hi ! g) ((L(?h := c # L ?h)) g) \<and> distinct ((L(?h := c # L ?h)) g) \<and>
      set ((L(?h := c # L ?h)) g) = {x \<in> live_nodes ?hi. bucket ?hi (nd_id (hi_id ?hi ! x)) = g}"
    proof (cases "g = ?h")
      case True
      have "c \<notin> set (L g)" using Lg(3) nl by blast
      with True ch Lg(2) s c(2) h show ?thesis by simp
    next
      case False
      with ch Lg(2) s show ?thesis by simp
    qed
  qed
  moreover have "inj_on (\<lambda>c. nd_id (hi_id ?hi ! c)) (live_nodes ?hi)"
    unfolding live' ids using inv fresh nl by (auto simp: hash_inv_def inj_on_def)
  ultimately have inv': "hash_inv ?hi"
    using inv nl c(2) i(1) unfolding hash_inv_def live' by (auto simp: nth_list_update)
  have "slot_of ?hi j = ((slot_of hi)(i \<mapsto> c)) j" for j
  proof -
    have "slot_of ?hi j = Some d \<longleftrightarrow> ((slot_of hi)(i \<mapsto> c)) j = Some d" for d
      using slot_of_iff [OF inv'] slot_of_iff [OF inv] fresh nl unfolding live' ids by auto
    then show ?thesis by (metis not_None_eq)
  qed
  with ins inv' nl c(2) show ?thesis by auto
qed

section \<open>Removal\<close>

lemma remove_walk_chain:
  "chain nodes (Some c) (c # xs) \<Longrightarrow> length xs < fuel \<Longrightarrow>
   (if \<forall>x\<in>set xs. nd_id (nodes ! x) \<noteq> i then remove_walk fuel nodes i c = Some None
    else \<exists>ys b d zs. c # xs = ys @ b # d # zs \<and> nd_id (nodes ! d) = i \<and>
      remove_walk fuel nodes i c = Some (Some b))"
proof (induction xs arbitrary: c fuel)
  case Nil
  then show ?case by (cases fuel) auto
next
  case (Cons x xs)
  obtain f where f: "fuel = Suc f" "length xs < f" using Cons.prems(2) by (cases fuel) auto
  have n: "nd_next (nodes ! c) = Some x" "x < length nodes" "chain nodes (Some x) (x # xs)"
    using Cons.prems(1) by auto
  show ?case
  proof (cases "nd_id (nodes ! x) = i")
    case True
    then have "c # x # xs = [] @ c # x # xs" "remove_walk fuel nodes i c = Some (Some c)" using n f by simp_all
    with True show ?thesis by fastforce
  next
    case False
    then have w: "remove_walk fuel nodes i c = remove_walk f nodes i x" using n f by simp
    show ?thesis
    proof (cases "\<forall>y\<in>set xs. nd_id (nodes ! y) \<noteq> i")
      case True
      with Cons.IH [OF n(3) f(2)] w False show ?thesis by simp
    next
      case ex: False
      with Cons.IH [OF n(3) f(2)] obtain ys b d zs where
        "x # xs = ys @ b # d # zs" "nd_id (nodes ! d) = i" "remove_walk f nodes i x = Some (Some b)" by auto
      then have "c # x # xs = (c # ys) @ b # d # zs \<and> nd_id (nodes ! d) = i \<and>
          remove_walk fuel nodes i c = Some (Some b)" using w by simp
      with ex show ?thesis by (metis list.set_intros(2))
    qed
  qed
qed

lemma chain_start: "chain n s xs \<Longrightarrow> xs \<noteq> [] \<Longrightarrow> s = Some (hd xs)"
  by (cases xs) auto

lemma chain_next: "chain n s (ys @ b # zs) \<Longrightarrow> chain n (nd_next (n ! b)) zs"
  by (induction ys arbitrary: s) auto

lemma chain_unlink:
  "chain n s (ys @ b # d # zs) \<Longrightarrow> distinct (ys @ b # d # zs) \<Longrightarrow>
   chain (n[b := (n ! b)\<lparr>nd_next := nd_next (n ! d)\<rparr>, d := x]) s (ys @ b # zs)"
proof (induction ys arbitrary: s)
  case Nil
  let ?n = "n[b := (n ! b)\<lparr>nd_next := nd_next (n ! d)\<rparr>, d := x]"
  have "chain ?n (nd_next (n ! d)) zs"
    by (rule chain_cong [where n = n]) (use Nil in \<open>auto dest: chain_mem simp: nth_list_update\<close>)
  with Nil show ?case by (auto simp: nth_list_update)
next
  case (Cons y ys)
  then show ?case by (auto simp: nth_list_update)
qed

text \<open>Taking node \<open>c\<close> out of its chain, however the chain is relinked.\<close>

lemma unlink_ok:
  assumes inv: "hash_inv hi" and L: "chains_ok hi L" and c: "c \<in> live_nodes hi"
    and h: "h = bucket hi (nd_id (hi_id hi ! c))"
    and same: "hi_hashmod hi' = hi_hashmod hi" "hi_cap hi' = hi_cap hi" "hi_count hi' = hi_count hi - 1"
      "length (hi_id hi') = length (hi_id hi)" "hi_hash hi' = (hi_hash hi)[h := s]"
    and ids: "\<And>x. x \<noteq> c \<Longrightarrow> nd_id (hi_id hi' ! x) = nd_id (hi_id hi ! x)"
    and cleared: "hi_id hi' ! c = \<lparr>nd_id = -1, nd_next = None\<rparr>"
    and others: "\<And>x. x \<notin> set (L h) \<Longrightarrow> hi_id hi' ! x = hi_id hi ! x"
    and relinked: "chain (hi_id hi') s (remove1 c (L h))"
  shows "hash_inv hi' \<and> slot_of hi' = (slot_of hi)(nd_id (hi_id hi ! c) := None)"
proof -
  have live': "live_nodes hi' = live_nodes hi - {c}"
  proof (rule set_eqI)
    fix x
    show "x \<in> live_nodes hi' \<longleftrightarrow> x \<in> live_nodes hi - {c}"
      using ids [of x] cleared same(4) by (cases "x = c") (simp_all add: live_nodes_def)
  qed
  have bk: "bucket hi' = bucket hi" by (rule ext) (simp add: bucket_def same)
  have hb: "h < length (hi_hash hi)" unfolding h by (rule bucket_bound [OF inv])
  have "chains_ok hi' (L(h := remove1 c (L h)))" unfolding chains_ok_def
  proof (intro allI impI)
    fix g assume "g < length (hi_hash hi')"
    then have g: "g < length (hi_hash hi)" by (simp add: same)
    with L have Lg: "chain (hi_id hi) (hi_hash hi ! g) (L g)" "distinct (L g)"
      "set (L g) = {c \<in> live_nodes hi. bucket hi (nd_id (hi_id hi ! c)) = g}" by (auto simp: chains_ok_def)
    have s: "{x \<in> live_nodes hi'. bucket hi' (nd_id (hi_id hi' ! x)) = g} = set (L g) - {c}"
    proof (rule set_eqI)
      fix x
      show "x \<in> {x \<in> live_nodes hi'. bucket hi' (nd_id (hi_id hi' ! x)) = g} \<longleftrightarrow> x \<in> set (L g) - {c}"
        unfolding live' bk Lg(3) using ids [of x] by (cases "x = c") auto
    qed
    show "chain (hi_id hi') (hi_hash hi' ! g) ((L(h := remove1 c (L h))) g) \<and>
      distinct ((L(h := remove1 c (L h))) g) \<and>
      set ((L(h := remove1 c (L h))) g) = {x \<in> live_nodes hi'. bucket hi' (nd_id (hi_id hi' ! x)) = g}"
    proof (cases "g = h")
      case True
      with relinked Lg(2) hb same(5) show ?thesis unfolding s by simp
    next
      case False
      have "c \<notin> set (L g)" unfolding Lg(3) using False h by simp
      moreover have "x \<notin> set (L h)" if "x \<in> set (L g)" for x
      proof -
        have "set (L h) = {c \<in> live_nodes hi. bucket hi (nd_id (hi_id hi ! c)) = h}"
          using L hb by (simp add: chains_ok_def)
        with that False show ?thesis unfolding Lg(3) by simp
      qed
      then have "chain (hi_id hi') (hi_hash hi ! g) (L g)"
        by (intro chain_cong [OF _ Lg(1)]) (simp add: others same chain_mem [OF Lg(1)])
      ultimately show ?thesis unfolding s using False Lg(2) same(5) by simp
    qed
  qed
  moreover have "inj_on (\<lambda>c. nd_id (hi_id hi' ! c)) (live_nodes hi')"
  proof (rule inj_onI)
    fix x y assume xy: "x \<in> live_nodes hi'" "y \<in> live_nodes hi'" "nd_id (hi_id hi' ! x) = nd_id (hi_id hi' ! y)"
    then have "x \<in> live_nodes hi" "y \<in> live_nodes hi" "nd_id (hi_id hi ! x) = nd_id (hi_id hi ! y)"
      using ids unfolding live' by auto
    with inv show "x = y" unfolding hash_inv_def by (meson inj_onD)
  qed
  moreover have "nd_next (hi_id hi' ! x) = None" if "x < length (hi_id hi')" "nd_id (hi_id hi' ! x) = -1" for x
  proof (cases "x \<in> set (L h)")
    case True
    have "x \<in> live_nodes hi" using True L hb by (auto simp: chains_ok_def)
    then show ?thesis using that ids [of x] cleared by (cases "x = c") (auto simp: live_nodes_def)
  next
    case False
    with that others [OF False] inv same(4) show ?thesis by (simp add: hash_inv_def)
  qed
  moreover have "int (card (live_nodes hi')) = int (card (live_nodes hi)) - 1"
    unfolding live' using c card_gt_0_iff [of "live_nodes hi"] by (auto simp: card_Diff_singleton of_nat_diff)
  ultimately have inv': "hash_inv hi'"
    using inv same unfolding hash_inv_def by (auto simp: length_list_update)
  have "slot_of hi' j = ((slot_of hi)(nd_id (hi_id hi ! c) := None)) j" for j
  proof -
    have uniq: "x = c" if "x \<in> live_nodes hi" "nd_id (hi_id hi ! x) = nd_id (hi_id hi ! c)" for x
      using inv that c unfolding hash_inv_def by (meson inj_onD)
    have "slot_of hi' j = Some d \<longleftrightarrow> ((slot_of hi)(nd_id (hi_id hi ! c) := None)) j = Some d" for d
      using slot_of_iff [OF inv', of j d] slot_of_iff [OF inv, of j d] ids [of d] uniq [of d]
      unfolding live' by (cases "d = c") auto
    then show ?thesis by (metis not_None_eq)
  qed
  with inv' show ?thesis by blast
qed

lemma hashid_remove_none:
  assumes inv: "hash_inv hi" and none: "slot_of hi i = None" "i \<noteq> -1"
  shows "hashid_remove hi i = Some (None, hi)"
proof -
  obtain L where L: "chains_ok hi L" using inv by (auto simp: hash_inv_def)
  let ?h = "bucket hi i"
  have h: "?h < length (hi_hash hi)" by (rule bucket_bound [OF inv])
  with L have c: "chain (hi_id hi) (hi_hash hi ! ?h) (L ?h)" "set (L ?h) \<subseteq> live_nodes hi"
    by (auto simp: chains_ok_def)
  have ne: "nd_id (hi_id hi ! x) \<noteq> i" if "x \<in> set (L ?h)" for x
    using that c(2) slot_of_iff [OF inv, of i x] none by auto
  show ?thesis
  proof (cases "L ?h")
    case Nil
    with c(1) show ?thesis by (simp add: hashid_remove_def)
  next
    case (Cons x xs)
    have "length xs < length (hi_id hi)" using chain_len [OF L h] Cons by simp
    with remove_walk_chain [of "hi_id hi" x xs "length (hi_id hi)" i] c(1) ne Cons show ?thesis
      by (simp add: hashid_remove_def)
  qed
qed

lemma hashid_remove_some:
  assumes inv: "hash_inv hi" and some: "slot_of hi i = Some c"
  shows "\<exists>hi'. hashid_remove hi i = Some (Some c, hi') \<and> hash_inv hi' \<and> slot_of hi' = (slot_of hi)(i := None) \<and>
    hi_cap hi' = hi_cap hi"
proof -
  obtain L where L: "chains_ok hi L" using inv by (auto simp: hash_inv_def)
  have live_nodes: "c \<in> live_nodes hi" and ci: "nd_id (hi_id hi ! c) = i" using slot_of_iff [OF inv] some by auto
  let ?h = "bucket hi i"
  have h: "?h < length (hi_hash hi)" by (rule bucket_bound [OF inv])
  with L have ch: "chain (hi_id hi) (hi_hash hi ! ?h) (L ?h)" "distinct (L ?h)" "c \<in> set (L ?h)"
    "set (L ?h) \<subseteq> live_nodes hi" using live_nodes ci by (auto simp: chains_ok_def)
  have uniq: "d = c" if "d \<in> set (L ?h)" "nd_id (hi_id hi ! d) = i" for d
    using slot_of_iff [OF inv, of i d] that ch(4) some by auto
  have cb: "c < length (hi_id hi)" using live_nodes by (simp add: live_nodes_def)
  obtain x xs where Lh: "L ?h = x # xs" using ch(3) by (cases "L ?h") auto
  have head: "hi_hash hi ! ?h = Some x" "x < length (hi_id hi)" using ch(1) Lh by auto
  note un = unlink_ok [OF inv L live_nodes, of ?h, unfolded ci, OF refl]
  show ?thesis
  proof (cases "x = c")
    case True
    let ?hi = "clear_node (hi\<lparr>hi_hash := (hi_hash hi)[?h := nd_next (hi_id hi ! c)]\<rparr>) c"
    have nc: "c \<notin> set xs" using ch(2) Lh True by simp
    have rel: "chain (hi_id ?hi) (nd_next (hi_id hi ! c)) (remove1 c (L ?h))"
    proof -
      have xs: "chain (hi_id hi) (nd_next (hi_id hi ! c)) xs" using ch(1) Lh True by simp
      have "chain (hi_id ?hi) (nd_next (hi_id hi ! c)) xs"
        by (rule chain_cong [OF _ xs]) (use cb nc chain_mem [OF xs] in \<open>auto simp: clear_node_def nth_list_update\<close>)
      then show ?thesis using Lh True by simp
    qed
    have "hash_inv ?hi \<and> slot_of ?hi = (slot_of hi)(i := None)"
      by (rule un [OF _ _ _ _ _ _ _ _ rel])
        (use cb ch(3) in \<open>auto simp: clear_node_def nth_list_update\<close>)
    moreover have "hashid_remove hi i = Some (Some c, ?hi)"
      using True head ci by (simp add: hashid_remove_def)
    ultimately show ?thesis by (simp add: clear_node_def)
  next
    case False
    then have xi: "nd_id (hi_id hi ! x) \<noteq> i" using uniq [of x] Lh by auto
    have cxs: "c \<in> set xs" using False ch(3) Lh by simp
    have "chain (hi_id hi) (Some x) (x # xs)" "length xs < length (hi_id hi)"
      using ch(1) Lh head chain_len [OF L h] by auto
    from remove_walk_chain [OF this, of i] cxs ci obtain ys b d zs where
      w: "x # xs = ys @ b # d # zs" "nd_id (hi_id hi ! d) = i"
        "remove_walk (length (hi_id hi)) (hi_id hi) i x = Some (Some b)" by (auto split: if_splits)
    have dc: "d = c" using uniq [of d] w Lh by simp
    let ?n = "(hi_id hi)[b := (hi_id hi ! b)\<lparr>nd_next := nd_next (hi_id hi ! c)\<rparr>]"
    let ?hi = "clear_node (hi\<lparr>hi_id := ?n\<rparr>) c"
    have lk: "chain (hi_id hi) (Some x) (ys @ b # c # zs)" "distinct (ys @ b # c # zs)"
      using ch(1,2) Lh w(1) dc head(1) by simp_all
    have nb: "nd_next (hi_id hi ! b) = Some c" using chain_next [OF lk(1)] by simp
    have bb: "b < length (hi_id hi)" "b \<noteq> c" "b \<in> set (L ?h)" using chain_mem [OF lk(1)] lk(2) Lh w(1) by auto
    have rel: "chain (hi_id ?hi) (Some x) (remove1 c (L ?h))"
      using chain_unlink [OF lk, of "\<lparr>nd_id = -1, nd_next = None\<rparr>"] lk(2) Lh w(1) dc
      by (simp add: clear_node_def remove1_append)
    have "hash_inv ?hi \<and> slot_of ?hi = (slot_of hi)(i := None)"
      by (rule un [OF _ _ _ _ _ _ _ _ rel])
        (use cb bb ch(3) list_update_id [of "hi_hash hi" ?h] head(1) in
          \<open>auto simp: clear_node_def nth_list_update\<close>)
    moreover have "hashid_remove hi i = Some (Some c, ?hi)"
      using head xi w(3) nb by (simp add: hashid_remove_def)
    ultimately show ?thesis by (simp add: clear_node_def)
  qed
qed

lemma slot_of_inj:
  assumes "hash_inv hi" "slot_of hi i = Some c" "slot_of hi j = Some c"
  shows "i = j"
  using assms slot_of_iff [OF assms(1)] by auto

definition insertable :: "hashid \<Rightarrow> int \<Rightarrow> bool" where
  "insertable hi i \<longleftrightarrow> slot_of hi i = None \<and> \<not> hashid_full hi \<and> 0 \<le> i \<and> i + hi_cap hi \<le> INT_MAX + 1"

interpretation ids: id_table hash_inv slot_of insertable
  "\<lambda>hi i. map_option (\<lambda>(c, hi'). (i, c, hi')) (hashid_insert hi i)"
  "\<lambda>hi i. if i = -1 then hi else snd (the (hashid_remove hi i))"
proof
  fix hi i j c
  assume inv: "hash_inv hi"
  show "slot_of hi i = Some c \<Longrightarrow> slot_of hi j = Some c \<Longrightarrow> i = j" by (rule slot_of_inj [OF inv])
  show "hash_inv (if i = -1 then hi else snd (the (hashid_remove hi i))) \<and>
    slot_of (if i = -1 then hi else snd (the (hashid_remove hi i))) = (slot_of hi)(i := None)"
  proof (cases "slot_of hi i")
    case None
    then show ?thesis using inv hashid_remove_none [OF inv None] by (auto simp: fun_upd_idem)
  next
    case (Some c)
    moreover have "i \<noteq> -1" using Some by (auto simp: slot_of_def)
    ultimately show ?thesis using hashid_remove_some [OF inv Some] by auto
  qed
next
  fix hi hi' and i j :: int and c
  assume "hash_inv hi" "insertable hi i"
    "map_option (\<lambda>(c, hi'). (i, c, hi')) (hashid_insert hi i) = Some (j, c, hi')"
  then show "hash_inv hi' \<and> slot_of hi j = None \<and> slot_of hi' = (slot_of hi)(j \<mapsto> c)"
    using hashid_insert_ok [of hi i] by (auto simp: insertable_def)
qed

section \<open>Properties\<close>

lemma hashcap_loop_power:
  "\<exists>k. hashcap_loop (2 ^ j) mx = 2 ^ k \<and> j \<le> k \<and> mx \<le> 2 ^ k"
proof (induction "nat (mx - 2 ^ j)" arbitrary: j rule: less_induct)
  case less
  show ?case
  proof (cases "(2::int) ^ j < mx")
    case True
    then have "nat (mx - 2 ^ Suc j) < nat (mx - 2 ^ j)" by simp
    from less [OF this] obtain k where "hashcap_loop (2 ^ Suc j) mx = 2 ^ k" "Suc j \<le> k" "mx \<le> 2 ^ k" by blast
    with True show ?thesis by (subst hashcap_loop.simps) (auto simp: mult.commute)
  next
    case False
    then show ?thesis by (subst hashcap_loop.simps) auto
  qed
qed

lemma hashid_init_inv:
  assumes "0 < mx"
  shows "hash_inv (hashid_init mx)" "slot_of (hashid_init mx) = Map.empty"
proof -
  obtain k where k: "hashcap_loop 16 mx = 2 ^ k" using hashcap_loop_power [of 4 mx] by auto
  have l: "live_nodes (hashid_init mx) = {}" by (auto simp: live_nodes_def hashid_init_def Let_def)
  have "chains_ok (hashid_init mx) (\<lambda>_. [])"
    unfolding chains_ok_def l by (simp add: hashid_init_def Let_def)
  then show "hash_inv (hashid_init mx)"
    using assms l unfolding hash_inv_def by (auto simp: hashid_init_def Let_def k nat_power_eq)
  show "slot_of (hashid_init mx) = Map.empty" by (rule ext) (simp add: slot_of_def l)
qed

text \<open>
  C22. The connection table, for any sequence of insertions and removals: no id is ever lost
  or found under another one's slot. After any run on a new table, every id that was not
  removed since it was inserted is found at the slot it was given, two ids are never in one
  slot, and a walk along a chain always ends.
\<close>

theorem hashid_run_correct:
  assumes "0 < mx"
    and "hi = table_run insertable (\<lambda>hi i. map_option (\<lambda>(c, hi'). (i, c, hi')) (hashid_insert hi i))
      (\<lambda>hi i. if i = -1 then hi else snd (the (hashid_remove hi i))) (hashid_init mx) ops"
  shows "\<exists>f. (\<forall>i. hashid_lookup hi i = Some (f i)) \<and> inj_on f (dom f) \<and>
    (\<forall>i. insertable hi i \<longrightarrow> (\<exists>c hi'. hashid_insert hi i = Some (c, hi') \<and> c \<notin> ran f \<and>
       (\<forall>j. hashid_lookup hi' j = Some ((f(i \<mapsto> c)) j)))) \<and>
    (\<forall>i. i \<noteq> -1 \<longrightarrow> (\<exists>hi'. hashid_remove hi i = Some (f i, hi') \<and>
       (\<forall>j. hashid_lookup hi' j = Some ((f(i := None)) j))))"
proof (rule exI [of _ "slot_of hi"], intro conjI allI impI)
  note inv = ids.run_inv [OF hashid_init_inv(1) [OF assms(1)], of ops, folded assms(2)]
  show "hashid_lookup hi i = Some (slot_of hi i)" for i by (rule lookup_slot_of [OF inv])
  show "inj_on (slot_of hi) (dom (slot_of hi))"
    using ids.run_distinct [OF hashid_init_inv(1) [OF assms(1)], of ops] by (simp add: assms(2))
  fix i
  show "\<exists>c hi'. hashid_insert hi i = Some (c, hi') \<and> c \<notin> ran (slot_of hi) \<and>
      (\<forall>j. hashid_lookup hi' j = Some (((slot_of hi)(i \<mapsto> c)) j))" if "insertable hi i"
  proof -
    obtain c hi' where "hashid_insert hi i = Some (c, hi')" "hash_inv hi'" "c \<notin> live_nodes hi"
      "slot_of hi' = (slot_of hi)(i \<mapsto> c)"
      using hashid_insert_ok [OF inv, of i] \<open>insertable hi i\<close> by (auto simp: insertable_def)
    moreover from this have "c \<notin> ran (slot_of hi)" using slot_of_iff [OF inv] by (auto simp: ran_def)
    ultimately show ?thesis using lookup_slot_of by metis
  qed
  show "\<exists>hi'. hashid_remove hi i = Some (slot_of hi i, hi') \<and>
      (\<forall>j. hashid_lookup hi' j = Some (((slot_of hi)(i := None)) j))" if "i \<noteq> -1"
  proof (cases "slot_of hi i")
    case None
    then show ?thesis
      using hashid_remove_none [OF inv None that] lookup_slot_of [OF inv] by (auto simp: fun_upd_idem)
  next
    case (Some c)
    then show ?thesis using hashid_remove_some [OF inv Some] lookup_slot_of by metis
  qed
qed

theorem hashid_run_correct_witness:
  "\<exists>c hi'. hashid_insert (hashid_init 4) 7 = Some (c, hi') \<and> hashid_lookup hi' 7 = Some (Some c)"
proof -
  have "hashid_init 4 = table_run insertable (\<lambda>hi i. map_option (\<lambda>(c, hi'). (i, c, hi')) (hashid_insert hi i))
      (\<lambda>hi i. if i = -1 then hi else snd (the (hashid_remove hi i))) (hashid_init 4) []" by simp
  from hashid_run_correct [OF _ this] obtain f where
    f: "\<And>i. insertable (hashid_init 4) i \<Longrightarrow> \<exists>c hi'. hashid_insert (hashid_init 4) i = Some (c, hi') \<and>
      c \<notin> ran f \<and> (\<forall>j. hashid_lookup hi' j = Some ((f(i \<mapsto> c)) j))" by auto
  have "insertable (hashid_init 4) 7"
    using hashid_init_inv(2) [of 4] by (simp add: insertable_def hashid_full_def hashid_init_def Let_def INT_MAX_def)
  from f [OF this] show ?thesis by (metis fun_upd_same)
qed

text \<open>
  The search for a free slot adds the socket id to the loop counter in a C \<open>int\<close>. The
  ids the socket server gives out run up to \<open>2 ^ 31 - 1\<close>; at that id, with the first slot
  taken, the sum overflows before a free slot is reached.
\<close>

theorem hashid_insert_overflow:
  assumes "hash_inv hi" "nd_id (hi_id hi ! nat (INT_MAX mod hi_cap hi)) \<noteq> -1"
  shows "hashid_insert hi INT_MAX = None"
proof -
  have "0 < hi_cap hi" using assms(1) by (simp add: hash_inv_def)
  moreover have "free_node hi INT_MAX 1 = None"
    by (subst free_node.simps) (simp add: INT_MAX_def)
  ultimately have "free_node hi INT_MAX 0 = None"
    using assms(2) by (subst free_node.simps) (simp add: INT_MAX_def)
  then show ?thesis by (simp add: hashid_insert_def)
qed

theorem hashid_insert_overflow_witness:
  "\<exists>c hi. hashid_insert (hashid_init 2) 1 = Some (c, hi) \<and> \<not> hashid_full hi \<and> hashid_insert hi INT_MAX = None"
proof -
  let ?hi = "snd (the (hashid_insert (hashid_init 2) 1))"
  have i: "hashid_insert (hashid_init 2) 1 = Some (1, ?hi)" by code_simp
  have "insertable (hashid_init 2) 1"
    using hashid_init_inv(2) [of 2] by (simp add: insertable_def hashid_full_def hashid_init_def Let_def INT_MAX_def)
  then have "hash_inv ?hi"
    using hashid_insert_ok [OF hashid_init_inv(1), of 2 1] i by (auto simp: insertable_def)
  moreover have "nd_id (hi_id ?hi ! nat (INT_MAX mod hi_cap ?hi)) \<noteq> -1" by code_simp
  moreover have "\<not> hashid_full ?hi" by code_simp
  ultimately show ?thesis using i hashid_insert_overflow by blast
qed

end
