(* ===== verification/Framing.thy ===== *)
theory Framing
  imports Mtask_Prelude
begin

text \<open>
  The abstract specification of the length-prefixed byte streams of the program: a frame is
  a big-endian length of \<open>k\<close> bytes followed by that many bytes of payload. The netpack
  module (2 bytes), the gate service (2 or 4 bytes) and the links between harbors (4 bytes)
  each implement an incremental reader of it. \<open>deframe\<close> is what such a reader promises
  for a whole stream; the interface \<open>framed_reader\<close> states the promise for one piece of
  input and proves, once, that the cutting of the stream into pieces does not matter.
\<close>

section \<open>Big-endian numbers\<close>

definition be_nat :: "byte list \<Rightarrow> nat" where
  "be_nat bs = foldl (\<lambda>a b. 256 * a + unat b) 0 bs"

fun be_bytes :: "nat \<Rightarrow> nat \<Rightarrow> byte list" where
  "be_bytes 0 n = []"
| "be_bytes (Suc k) n = be_bytes k (n div 256) @ [of_nat (n mod 256)]"

lemma length_be_bytes [simp]: "length (be_bytes k n) = k"
  by (induction k arbitrary: n) auto

lemma be_bytes_Nil [simp]: "be_bytes k n = [] \<longleftrightarrow> k = 0"
  by (metis length_0_conv length_be_bytes)

lemma be_nat_snoc: "be_nat (bs @ [b]) = 256 * be_nat bs + unat b"
  by (simp add: be_nat_def)

lemma be_nat_simps [simp]:
  "be_nat [] = 0" "be_nat [a] = unat a" "be_nat [a, b] = 256 * unat a + unat b"
  "be_nat [a, b, c, d] = 256 * (256 * (256 * unat a + unat b) + unat c) + unat d"
  by (simp_all add: be_nat_def)

lemma unat_of_nat_byte [simp]: "unat (of_nat (n mod 256) :: byte) = n mod 256"
  by (simp add: unat_of_nat)

lemma be_nat_be_bytes: "n < 256 ^ k \<Longrightarrow> be_nat (be_bytes k n) = n"
proof (induction k arbitrary: n)
  case 0
  then show ?case by simp
next
  case (Suc k)
  then have "n div 256 < 256 ^ k" by (simp add: less_mult_imp_div_less mult.commute)
  with Suc.IH show ?case by (simp add: be_nat_snoc)
qed

lemma be_bytes_be_nat: "length bs = k \<Longrightarrow> be_bytes k (be_nat bs) = bs"
proof (induction k arbitrary: bs)
  case 0
  then show ?case by simp
next
  case (Suc k)
  then obtain as b where bs: "bs = as @ [b]" "length as = k" by (cases bs rule: rev_cases) auto
  have "unat b < 256" using unsigned_less [of b, where ?'a = nat] by simp
  with Suc.IH bs show ?case by (simp add: be_nat_snoc)
qed

lemma be_nat_bound: "be_nat bs < 256 ^ length bs"
proof (induction bs rule: rev_induct)
  case Nil
  then show ?case by simp
next
  case (snoc b bs)
  have "unat b < 256" using unsigned_less [of b, where ?'a = nat] by simp
  with snoc show ?case by (simp add: be_nat_snoc)
qed

lemma unat_un_be32: "length bs = 4 \<Longrightarrow> unat (un_be32 bs) = be_nat bs"
proof -
  assume l: "length bs = 4"
  let ?w = "unat (un_be32 bs)"
  have w: "?w < 2 ^ 32" using unsigned_less [of "un_be32 bs", where ?'a = nat] by simp
  have "be_nat bs = be_nat (be32 (un_be32 bs))" by (simp only: be32_un_be32 [OF l])
  also have "\<dots> = 256 * (256 * (256 * (?w div 2 ^ 24 mod 256) + ?w div 2 ^ 16 mod 256) +
      ?w div 2 ^ 8 mod 256) + ?w mod 256"
    by (simp add: be32_def unat_octet)
  also have "\<dots> = ?w"
  proof -
    have d: "?w div 2 ^ 16 = ?w div 2 ^ 8 div 256" "?w div 2 ^ 24 = ?w div 2 ^ 8 div 256 div 256"
      by (simp_all add: div_mult2_eq [symmetric])
    have "?w div 2 ^ 8 div 256 div 256 < 256" using w by (simp add: div_mult2_eq [symmetric] div_less_iff_less_mult)
    then show ?thesis unfolding d by simp
  qed
  finally show ?thesis by simp
qed

section \<open>Cutting a stream into frames\<close>

text \<open>
  \<open>deframe k lim bs\<close> is the list of complete payloads at the start of \<open>bs\<close>, the bytes
  left over, and whether a length of at least \<open>lim\<close> was met (the reader then gives the
  stream up).
\<close>

function deframe :: "nat \<Rightarrow> nat \<Rightarrow> byte list \<Rightarrow> byte list list \<times> byte list \<times> bool" where
  "deframe k lim bs =
     (if k = 0 \<or> length bs < k then ([], bs, False)
      else let n = be_nat (take k bs) in
        if lim \<le> n then ([], bs, True)
        else if length bs < k + n then ([], bs, False)
        else let (fs, r, d) = deframe k lim (drop (k + n) bs)
             in (take n (drop k bs) # fs, r, d))"
  by pat_completeness auto
termination
  by (relation "measure (\<lambda>(k, lim, bs). length bs)") auto

declare deframe.simps [simp del]

definition frame :: "nat \<Rightarrow> byte list \<Rightarrow> byte list" where
  "frame k p = be_bytes k (length p) @ p"

lemma deframe_short: "k = 0 \<or> length bs < k \<Longrightarrow> deframe k lim bs = ([], bs, False)"
  by (subst deframe.simps) simp

lemma deframe_dead:
  "0 < k \<Longrightarrow> k \<le> length bs \<Longrightarrow> lim \<le> be_nat (take k bs) \<Longrightarrow> deframe k lim bs = ([], bs, True)"
  by (subst deframe.simps) simp

lemma deframe_wait:
  "0 < k \<Longrightarrow> k \<le> length bs \<Longrightarrow> be_nat (take k bs) < lim \<Longrightarrow> length bs < k + be_nat (take k bs)
   \<Longrightarrow> deframe k lim bs = ([], bs, False)"
  by (subst deframe.simps) simp

lemma deframe_step:
  "0 < k \<Longrightarrow> k + be_nat (take k bs) \<le> length bs \<Longrightarrow> be_nat (take k bs) < lim
   \<Longrightarrow> deframe k lim bs =
     (let (fs, r, d) = deframe k lim (drop (k + be_nat (take k bs)) bs)
      in (take (be_nat (take k bs)) (drop k bs) # fs, r, d))"
  by (subst deframe.simps) (simp add: Let_def)

lemma deframe_cases:
  obtains "k = 0 \<or> length bs < k"
  | "0 < k" "k \<le> length bs" "lim \<le> be_nat (take k bs)"
  | "0 < k" "k \<le> length bs" "be_nat (take k bs) < lim" "length bs < k + be_nat (take k bs)"
  | "0 < k" "k + be_nat (take k bs) \<le> length bs" "be_nat (take k bs) < lim"
  by linarith

lemma deframe_Nil [simp]: "deframe k lim [] = ([], [], False)"
  by (cases "k = 0") (simp_all add: deframe_short)

lemma deframe_partial:
  "length hdr = k \<Longrightarrow> be_nat hdr < lim \<Longrightarrow> length bs < be_nat hdr
   \<Longrightarrow> deframe k lim (hdr @ bs) = ([], hdr @ bs, False)"
  by (cases "k = 0") (auto simp: deframe_short deframe_wait)

lemma deframe_too_long:
  "length hdr = k \<Longrightarrow> 0 < k \<Longrightarrow> lim \<le> be_nat hdr \<Longrightarrow> deframe k lim (hdr @ bs) = ([], hdr @ bs, True)"
  by (simp add: deframe_dead)

lemma deframe_frame:
  "length hdr = k \<Longrightarrow> 0 < k \<Longrightarrow> be_nat hdr < lim \<Longrightarrow> length p = be_nat hdr
   \<Longrightarrow> deframe k lim (hdr @ p @ bs) =
       (let (fs, r, d) = deframe k lim bs in (p # fs, r, d))"
  by (simp add: deframe_step)

lemma deframe_append:
  "deframe k lim xs = (fs, r, False) \<Longrightarrow>
   deframe k lim (xs @ ys) = (let (gs, r', d) = deframe k lim (r @ ys) in (fs @ gs, r', d))"
proof (induction "length xs" arbitrary: xs fs rule: less_induct)
  case less
  let ?n = "be_nat (take k xs)"
  show ?case
  proof (cases rule: deframe_cases [where k = k and bs = xs and lim = lim])
    case 4
    obtain fs' where *: "deframe k lim (drop (k + ?n) xs) = (fs', r, False)"
      and fs: "fs = take ?n (drop k xs) # fs'"
      using less.prems deframe_step [OF 4] by (auto simp: Let_def split: prod.splits)
    have "deframe k lim (drop (k + ?n) xs @ ys) =
        (let (gs, r', d) = deframe k lim (r @ ys) in (fs' @ gs, r', d))"
      using 4 by (intro less.hyps *) auto
    moreover have "deframe k lim (xs @ ys) =
        (let (fs, r, d) = deframe k lim (drop (k + ?n) xs @ ys) in (take ?n (drop k xs) # fs, r, d))"
      using 4 deframe_step [of k "xs @ ys" lim] by simp
    ultimately show ?thesis
      by (simp add: fs Let_def split: prod.splits)
  qed (use less.prems in \<open>auto simp: deframe_short deframe_dead deframe_wait split: prod.splits\<close>)
qed

lemma deframe_dead_append:
  "deframe k lim xs = (fs, r, True) \<Longrightarrow> deframe k lim (xs @ ys) = (fs, r @ ys, True)"
proof (induction "length xs" arbitrary: xs fs rule: less_induct)
  case less
  let ?n = "be_nat (take k xs)"
  show ?case
  proof (cases rule: deframe_cases [where k = k and bs = xs and lim = lim])
    case 4
    obtain fs' where *: "deframe k lim (drop (k + ?n) xs) = (fs', r, True)"
      and fs: "fs = take ?n (drop k xs) # fs'"
      using less.prems deframe_step [OF 4] by (auto simp: Let_def split: prod.splits)
    have "deframe k lim (drop (k + ?n) xs @ ys) = (fs', r @ ys, True)"
      using 4 by (intro less.hyps *) auto
    with 4 fs show ?thesis
      using deframe_step [of k "xs @ ys" lim] by simp
  qed (use less.prems in \<open>auto simp: deframe_short deframe_dead deframe_wait\<close>)
qed

lemma deframe_prefix_alive:
  "deframe k lim (xs @ ys) = (fs, r, False) \<Longrightarrow> \<exists>gs r'. deframe k lim xs = (gs, r', False)"
  by (cases "deframe k lim xs") (use deframe_dead_append [of k lim xs _ _ ys] in fastforce)

text \<open>A rest is left alone by a second pass.\<close>

lemma deframe_rest:
  assumes "deframe k lim xs = (fs, r, False)"
  shows "deframe k lim r = ([], r, False)"
proof -
  obtain gs r' d where "deframe k lim r = (gs, r', d)"
    by (metis prod_cases3)
  with deframe_append [OF assms, of "[]"] assms show ?thesis
    by auto
qed

lemma deframe_frames:
  assumes "0 < k" "\<forall>p\<in>set ps. length p < lim \<and> length p < 256 ^ k"
  shows "deframe k lim (concat (map (frame k) ps)) = (ps, [], False)"
  using assms(2)
proof (induction ps)
  case Nil
  then show ?case by simp
next
  case (Cons p ps)
  with assms(1) show ?case
    by (simp add: frame_def deframe_frame be_nat_be_bytes)
qed

section \<open>The reader interface\<close>

text \<open>
  \<open>feed_all\<close> feeds the pieces of a stream one after the other and collects the output.
  A \<open>selective_reader\<close> is a state with \<open>pending\<close> bytes and an operation \<open>feed\<close> that, on
  a non-empty piece that completes only \<open>good\<close> frames, emits \<open>view\<close> of every frame
  completed by it and keeps the rest. A \<open>framed_reader\<close> promises this for all frames.
\<close>

fun feed_all :: "('s \<Rightarrow> 'i \<Rightarrow> 's \<times> 'o list) \<Rightarrow> 's \<Rightarrow> 'i list \<Rightarrow> 's \<times> 'o list" where
  "feed_all feed s [] = (s, [])"
| "feed_all feed s (c # cs) =
     (let (s1, o1) = feed s c; (s2, o2) = feed_all feed s1 cs in (s2, o1 @ o2))"

locale selective_reader =
  fixes k lim :: nat
    and good :: "byte list \<Rightarrow> bool"
    and ok :: "'s \<Rightarrow> bool"
    and pending :: "'s \<Rightarrow> byte list"
    and view :: "'s \<Rightarrow> byte list \<Rightarrow> 'o list"
    and feed :: "'s \<Rightarrow> byte list \<Rightarrow> 's \<times> 'o list"
  assumes feed_good:
    "ok s \<Longrightarrow> xs \<noteq> [] \<Longrightarrow> deframe k lim (pending s @ xs) = (fs, r, False) \<Longrightarrow> list_all good fs
     \<Longrightarrow> \<exists>s'. feed s xs = (s', concat (map (view s) fs)) \<and> ok s' \<and> pending s' = r \<and> view s' = view s"
begin

lemma feed_pieces:
  assumes "ok s" "\<forall>c\<in>set cs. c \<noteq> []" "cs \<noteq> []"
    and "deframe k lim (pending s @ concat cs) = (fs, r, False)" "list_all good fs"
  shows "\<exists>s'. feed_all feed s cs = (s', concat (map (view s) fs)) \<and> ok s' \<and> pending s' = r \<and> view s' = view s"
  using assms
proof (induction cs arbitrary: s fs)
  case Nil
  then show ?case by simp
next
  case (Cons c cs)
  have all: "deframe k lim ((pending s @ c) @ concat cs) = (fs, r, False)"
    using Cons.prems(4) by simp
  then obtain gs t where g: "deframe k lim (pending s @ c) = (gs, t, False)"
    using deframe_prefix_alive by blast
  obtain hs where h: "deframe k lim (t @ concat cs) = (hs, r, False)" "fs = gs @ hs"
    using deframe_append [OF g, of "concat cs"] all by (auto split: prod.splits)
  have good: "list_all good gs" "list_all good hs" using Cons.prems(5) h(2) by simp_all
  obtain s1 where s1: "feed s c = (s1, concat (map (view s) gs))" "ok s1" "pending s1 = t"
      "view s1 = view s"
    using feed_good [OF Cons.prems(1) _ g good(1)] Cons.prems(2) by auto
  show ?case
  proof (cases "cs = []")
    case True
    with h s1 g all show ?thesis by simp
  next
    case False
    with Cons.IH [OF s1(2) _ False _ good(2)] h(1) s1(3) Cons.prems(2)
    obtain s' where "feed_all feed s1 cs = (s', concat (map (view s1) hs))" "ok s'" "pending s' = r"
        "view s' = view s1"
      by auto
    with s1 h show ?thesis by simp
  qed
qed

text \<open>Whole frames in, cut anywhere: exactly their payloads out, in order, and nothing left.\<close>

lemma feed_good_frames:
  assumes "ok s" "pending s = []" "0 < k"
    and "\<forall>p\<in>set ps. length p < lim \<and> length p < 256 ^ k" "list_all good ps"
    and "concat cs = concat (map (frame k) ps)" "\<forall>c\<in>set cs. c \<noteq> []"
  shows "\<exists>s'. feed_all feed s cs = (s', concat (map (view s) ps)) \<and> ok s' \<and> pending s' = [] \<and> view s' = view s"
proof (cases "cs = []")
  case True
  with assms have "ps = []"
    by (cases ps) (auto simp: frame_def dest: arg_cong [where f = length])
  with True assms show ?thesis by simp
next
  case False
  with assms show ?thesis
    using feed_pieces [of s cs ps "[]"] deframe_frames [of k ps lim] by simp
qed

end

locale framed_reader =
  fixes k lim :: nat
    and ok :: "'s \<Rightarrow> bool"
    and pending :: "'s \<Rightarrow> byte list"
    and view :: "'s \<Rightarrow> byte list \<Rightarrow> 'o list"
    and feed :: "'s \<Rightarrow> byte list \<Rightarrow> 's \<times> 'o list"
  assumes feed_piece:
    "ok s \<Longrightarrow> xs \<noteq> [] \<Longrightarrow> deframe k lim (pending s @ xs) = (fs, r, False)
     \<Longrightarrow> \<exists>s'. feed s xs = (s', concat (map (view s) fs)) \<and> ok s' \<and> pending s' = r \<and> view s' = view s"

sublocale framed_reader \<subseteq> every: selective_reader k lim "\<lambda>_. True" ok pending view feed
  by unfold_locales (rule feed_piece)

context framed_reader begin

lemma feed_pieces:
  assumes "ok s" "\<forall>c\<in>set cs. c \<noteq> []" "cs \<noteq> []"
    and "deframe k lim (pending s @ concat cs) = (fs, r, False)"
  shows "\<exists>s'. feed_all feed s cs = (s', concat (map (view s) fs)) \<and> ok s' \<and> pending s' = r"
  using every.feed_pieces [OF assms] by (auto simp: list_all_iff)

lemma feed_frames:
  assumes "ok s" "pending s = []" "0 < k"
    and "\<forall>p\<in>set ps. length p < lim \<and> length p < 256 ^ k"
    and "concat cs = concat (map (frame k) ps)" "\<forall>c\<in>set cs. c \<noteq> []"
  shows "\<exists>s'. feed_all feed s cs = (s', concat (map (view s) ps)) \<and> ok s' \<and> pending s' = []"
  using every.feed_good_frames [OF assms(1-4) _ assms(5,6)] by (auto simp: list_all_iff)

end

end
