(* ===== verification/Databuffer.thy ===== *)
theory Databuffer
  imports Framing
begin

text \<open>
  \<open>service-src/databuffer.h\<close>: the receive buffer of one connection, a list of the blocks
  read from the socket with an offset into the first, and the pool its list cells come
  from. The pool is modelled by the number of its arrays of cells and the length of its
  free list. A failed \<open>assert\<close> or a read past the last block is \<open>None\<close>. \<open>buffered\<close> is the
  abstract value of a buffer, and \<open>pending\<close> the bytes of the stream not yet delivered:
  the header already taken out is put back in front.
\<close>

section \<open>Data\<close>

definition MESSAGEPOOL :: nat where "MESSAGEPOOL = 1023"

record databuffer =
  db_header :: int
  db_offset :: nat
  db_size :: int
  db_msgs :: "byte list list"

record messagepool =
  mp_pool :: nat
  mp_free :: nat

definition blank_databuffer :: databuffer where
  "blank_databuffer = \<lparr>db_header = 0, db_offset = 0, db_size = 0, db_msgs = []\<rparr>"

section \<open>Operations\<close>

definition messagepool_free :: "messagepool \<Rightarrow> messagepool" where
  "messagepool_free mp = \<lparr>mp_pool = 0, mp_free = 0\<rparr>"

definition return_message :: "databuffer \<Rightarrow> messagepool \<Rightarrow> (databuffer \<times> messagepool) option" where
  "return_message db mp = (case db_msgs db of
     [] \<Rightarrow> None
   | m # ms \<Rightarrow> Some (db\<lparr>db_msgs := ms\<rparr>, mp\<lparr>mp_free := mp_free mp + 1\<rparr>))"

text \<open>The loop of \<open>databuffer_read\<close>: the bytes copied, and the buffer and pool after it.\<close>

function read_loop :: "databuffer \<Rightarrow> messagepool \<Rightarrow> nat \<Rightarrow> (byte list \<times> databuffer \<times> messagepool) option"
  where
  "read_loop db mp sz =
     (case db_msgs db of
        [] \<Rightarrow> None
      | current # ms \<Rightarrow>
          let bsz = int (length current) - int (db_offset db) in
          if int sz < bsz then
            Some (take sz (drop (db_offset db) current), db\<lparr>db_offset := db_offset db + sz\<rparr>, mp)
          else if bsz = int sz then
            (case return_message (db\<lparr>db_offset := 0\<rparr>) mp of
               None \<Rightarrow> None
             | Some (db', mp') \<Rightarrow> Some (drop (db_offset db) current, db', mp'))
          else if bsz < 0 then None
          else (case return_message db mp of
               None \<Rightarrow> None
             | Some (db', mp') \<Rightarrow>
                 (case read_loop (db'\<lparr>db_offset := 0\<rparr>) mp' (nat (int sz - bsz)) of
                    None \<Rightarrow> None
                  | Some (buf, db'', mp'') \<Rightarrow> Some (drop (db_offset db) current @ buf, db'', mp''))))"
  by pat_completeness auto
termination
  by (relation "measure (\<lambda>(db, mp, sz). length (db_msgs db))") (auto simp: return_message_def)

declare read_loop.simps [simp del]

definition databuffer_read :: "databuffer \<Rightarrow> messagepool \<Rightarrow> nat
    \<Rightarrow> (byte list \<times> databuffer \<times> messagepool) option" where
  "databuffer_read db mp sz =
     (if db_size db < int sz then None
      else read_loop (db\<lparr>db_size := db_size db - int sz\<rparr>) mp sz)"

definition databuffer_push :: "databuffer \<Rightarrow> messagepool \<Rightarrow> byte list \<Rightarrow> databuffer \<times> messagepool" where
  "databuffer_push db mp data =
     (let mp' = (if 0 < mp_free mp then mp\<lparr>mp_free := mp_free mp - 1\<rparr>
                 else \<lparr>mp_pool = mp_pool mp + 1, mp_free = MESSAGEPOOL - 1\<rparr>)
      in (db\<lparr>db_size := db_size db + int (length data), db_msgs := db_msgs db @ [data]\<rparr>, mp'))"

text \<open>The header bytes: \<open>plen[0] << 8 | plen[1]\<close>, or the four bytes as a C \<open>int\<close>.\<close>

definition header_value :: "byte list \<Rightarrow> int" where
  "header_value plen =
     (if length plen = 2 then sint (push_bit 8 (ucast (plen ! 0)) OR ucast (plen ! 1) :: u32)
      else sint (un_be32 plen))"

definition databuffer_readheader :: "databuffer \<Rightarrow> messagepool \<Rightarrow> nat
    \<Rightarrow> (int \<times> databuffer \<times> messagepool) option" where
  "databuffer_readheader db mp header_size =
     (if db_header db = 0 then
        if db_size db < int header_size then Some (-1, db, mp)
        else (case databuffer_read db mp header_size of
            None \<Rightarrow> None
          | Some (plen, db', mp') \<Rightarrow>
              let db'' = db'\<lparr>db_header := header_value plen\<rparr> in
              if db_size db'' < db_header db'' then Some (-1, db'', mp') else Some (db_header db'', db'', mp'))
      else if db_size db < db_header db then Some (-1, db, mp) else Some (db_header db, db, mp))"

definition databuffer_reset :: "databuffer \<Rightarrow> databuffer" where
  "databuffer_reset db = db\<lparr>db_header := 0\<rparr>"

definition databuffer_clear :: "databuffer \<Rightarrow> messagepool \<Rightarrow> databuffer \<times> messagepool" where
  "databuffer_clear db mp = (blank_databuffer, mp\<lparr>mp_free := mp_free mp + length (db_msgs db)\<rparr>)"

section \<open>The abstract value\<close>

definition buffered :: "databuffer \<Rightarrow> byte list" where
  "buffered db = drop (db_offset db) (concat (db_msgs db))"

definition db_ok :: "databuffer \<Rightarrow> bool" where
  "db_ok db \<longleftrightarrow> db_size db = int (length (buffered db)) \<and>
     (case db_msgs db of [] \<Rightarrow> db_offset db = 0 | m # _ \<Rightarrow> db_offset db \<le> length m)"

text \<open>Every cell is in the free list or in a buffer.\<close>

definition cells :: "databuffer \<Rightarrow> messagepool \<Rightarrow> int" where
  "cells db mp = int (MESSAGEPOOL * mp_pool mp) - int (mp_free mp) - int (length (db_msgs db))"

lemma db_size_buffered: "db_ok db \<Longrightarrow> db_size db = int (length (buffered db))"
  by (simp add: db_ok_def)

lemma blank_ok [simp]: "db_ok blank_databuffer" "buffered blank_databuffer = []" "db_header blank_databuffer = 0"
  by (simp_all add: db_ok_def buffered_def blank_databuffer_def)

lemma push_ok:
  assumes "db_ok db" "databuffer_push db mp data = (db', mp')"
  shows "db_ok db'" "buffered db' = buffered db @ data" "db_header db' = db_header db" "cells db' mp' = cells db mp"
proof -
  have d: "db' = db\<lparr>db_size := db_size db + int (length data), db_msgs := db_msgs db @ [data]\<rparr>"
    using assms(2) by (simp add: databuffer_push_def Let_def)
  have off: "db_offset db \<le> length (concat (db_msgs db))"
    using assms(1) by (cases "db_msgs db") (auto simp: db_ok_def)
  then show b: "buffered db' = buffered db @ data" by (simp add: d buffered_def)
  show "db_ok db'" using assms(1) b by (cases "db_msgs db") (auto simp: d db_ok_def)
  show "db_header db' = db_header db" by (simp add: d)
  show "cells db' mp' = cells db mp"
    using assms(2) by (auto simp: databuffer_push_def Let_def cells_def MESSAGEPOOL_def)
qed

lemma read_loop_ok:
  "(case db_msgs db of [] \<Rightarrow> db_offset db = 0 | m # _ \<Rightarrow> db_offset db \<le> length m) \<Longrightarrow>
   0 < sz \<Longrightarrow> sz \<le> length (buffered db) \<Longrightarrow>
   \<exists>db' mp'. read_loop db mp sz = Some (take sz (buffered db), db', mp') \<and>
     buffered db' = drop sz (buffered db) \<and> db_header db' = db_header db \<and> db_size db' = db_size db \<and>
     (case db_msgs db' of [] \<Rightarrow> db_offset db' = 0 | m # _ \<Rightarrow> db_offset db' \<le> length m) \<and>
     cells db' mp' = cells db mp"
proof (induction "length (db_msgs db)" arbitrary: db mp sz)
  case 0
  then show ?case by (simp add: buffered_def)
next
  case (Suc n)
  then obtain m ms where m: "db_msgs db = m # ms" by (cases "db_msgs db") auto
  let ?off = "db_offset db"
  have off: "?off \<le> length m" using Suc.prems(1) m by simp
  have buf: "buffered db = drop ?off m @ concat ms" using off by (simp add: buffered_def m)
  consider (more) "sz < length m - ?off" | (exact) "sz = length m - ?off" | (less) "length m - ?off < sz"
    by linarith
  then show ?case
  proof cases
    case more
    then have c: "int sz < int (length m) - int ?off" using off by linarith
    have "read_loop db mp sz = Some (take sz (drop ?off m), db\<lparr>db_offset := ?off + sz\<rparr>, mp)"
      by (subst read_loop.simps) (simp only: m Let_def list.case if_P [OF c])
    with more off show ?thesis by (auto simp: buf buffered_def m cells_def add.commute)
  next
    case exact
    then have "read_loop db mp sz = Some (drop ?off m, db\<lparr>db_offset := 0, db_msgs := ms\<rparr>,
        mp\<lparr>mp_free := mp_free mp + 1\<rparr>)"
      using off by (subst read_loop.simps) (simp add: m Let_def return_message_def)
    with exact off show ?thesis by (cases ms) (auto simp: buf buffered_def m cells_def)
  next
    case less
    let ?db = "db\<lparr>db_msgs := ms, db_offset := 0\<rparr>"
    let ?mp = "mp\<lparr>mp_free := mp_free mp + 1\<rparr>"
    let ?sz = "sz - (length m - ?off)"
    have "buffered ?db = concat ms" by (simp add: buffered_def)
    then have le: "?sz \<le> length (buffered ?db)" using Suc.prems(3) less by (simp add: buf)
    have "\<exists>db' mp'. read_loop ?db ?mp ?sz = Some (take ?sz (buffered ?db), db', mp') \<and>
      buffered db' = drop ?sz (buffered ?db) \<and> db_header db' = db_header ?db \<and> db_size db' = db_size ?db \<and>
      (case db_msgs db' of [] \<Rightarrow> db_offset db' = 0 | m # _ \<Rightarrow> db_offset db' \<le> length m) \<and>
      cells db' mp' = cells ?db ?mp"
      using Suc.hyps(2) less m by (intro Suc.hyps(1)) (auto simp: le split: list.split)
    then obtain db' mp' where r: "read_loop ?db ?mp ?sz = Some (take ?sz (concat ms), db', mp')"
      "buffered db' = drop ?sz (concat ms)" "db_header db' = db_header db" "db_size db' = db_size db"
      "case db_msgs db' of [] \<Rightarrow> db_offset db' = 0 | m # _ \<Rightarrow> db_offset db' \<le> length m"
      "cells db' mp' = cells ?db ?mp"
      by (auto simp: buffered_def)
    have nsz: "nat (int sz - (int (length m) - int ?off)) = ?sz" using off less by linarith
    have "read_loop db mp sz = Some (drop ?off m @ take ?sz (concat ms), db', mp')"
      using less off r(1) nsz by (subst read_loop.simps) (simp add: m Let_def return_message_def)
    with r less off show ?thesis by (auto simp: buf m cells_def)
  qed
qed

lemma read_ok:
  assumes "db_ok db" "0 < sz" "sz \<le> length (buffered db)"
  shows "\<exists>db' mp'. databuffer_read db mp sz = Some (take sz (buffered db), db', mp') \<and>
    buffered db' = drop sz (buffered db) \<and> db_header db' = db_header db \<and> db_ok db' \<and>
    cells db' mp' = cells db mp"
proof -
  let ?db = "db\<lparr>db_size := db_size db - int sz\<rparr>"
  have b: "buffered ?db = buffered db" "cells ?db mp = cells db mp" by (simp_all add: buffered_def cells_def)
  have pre: "case db_msgs ?db of [] \<Rightarrow> db_offset ?db = 0 | m # _ \<Rightarrow> db_offset ?db \<le> length m"
    using assms(1) by (cases "db_msgs db") (simp_all add: db_ok_def)
  obtain db' mp' where r: "read_loop ?db mp sz = Some (take sz (buffered db), db', mp')"
    "buffered db' = drop sz (buffered db)" "db_header db' = db_header db" "db_size db' = db_size db - int sz"
    "case db_msgs db' of [] \<Rightarrow> db_offset db' = 0 | m # _ \<Rightarrow> db_offset db' \<le> length m"
    "cells db' mp' = cells db mp"
    using read_loop_ok [OF pre assms(2), of mp] assms(3) unfolding b by auto
  have "db_ok db'" using r assms by (auto simp: db_ok_def of_nat_diff)
  moreover have "databuffer_read db mp sz = read_loop ?db mp sz"
    using assms by (simp add: databuffer_read_def db_size_buffered)
  ultimately show ?thesis using r by auto
qed

lemma clear_ok:
  "databuffer_clear db mp = (db', mp') \<Longrightarrow> db' = blank_databuffer \<and> cells db' mp' = cells db mp"
  by (auto simp: databuffer_clear_def cells_def blank_databuffer_def)

section \<open>Headers\<close>

lemma header_value_two: "length plen = 2 \<Longrightarrow> header_value plen = int (be_nat plen)"
proof -
  assume "length plen = 2"
  then obtain a b where p: "plen = [a, b]" by (cases plen; cases "tl plen") auto
  have "(push_bit 8 (ucast a) OR ucast b :: u32) = un_be32 [0, 0, a, b]"
    by (simp add: un_be32_def)
  moreover have "unat (un_be32 [0, 0, a, b]) = be_nat [a, b]" by (simp add: unat_un_be32)
  moreover have "be_nat [a, b] < 2 ^ 31" using be_nat_bound [of "[a, b]"] by simp
  ultimately show ?thesis unfolding p header_value_def by (simp add: sint_small)
qed

lemma header_value_four:
  assumes "length plen = 4"
  shows "be_nat plen < 2 ^ 31 \<Longrightarrow> header_value plen = int (be_nat plen)"
    and "2 ^ 31 \<le> be_nat plen \<Longrightarrow> header_value plen = int (be_nat plen) - 2 ^ 32"
  using sint_small [of "un_be32 plen"] sint_large [of "un_be32 plen"] assms
  by (simp_all add: header_value_def unat_un_be32)

text \<open>
  \<open>stream\<close> is what is left of the stream of a connection: a header already read counts as
  its bytes.
\<close>

definition stream :: "nat \<Rightarrow> databuffer \<Rightarrow> byte list" where
  "stream k db = (if db_header db = 0 then [] else be_bytes k (nat (db_header db))) @ buffered db"

definition header_ok :: "nat \<Rightarrow> databuffer \<Rightarrow> bool" where
  "header_ok k db \<longleftrightarrow> db_ok db \<and> (k = 2 \<or> k = 4) \<and> 0 \<le> db_header db \<and> db_header db < 256 ^ k \<and>
     db_header db < 2 ^ 31"

lemma readheader_ok:
  assumes ok: "header_ok k db" and small: "k \<le> length (stream k db) \<Longrightarrow> be_nat (take k (stream k db)) < 2 ^ 31"
  shows "if length (stream k db) < k then databuffer_readheader db mp k = Some (-1, db, mp)
    else \<exists>db' mp'. let n = be_nat (take k (stream k db)) in
      databuffer_readheader db mp k = Some (if length (stream k db) < k + n then -1 else int n, db', mp') \<and>
      db_header db' = int n \<and> buffered db' = drop k (stream k db) \<and> header_ok k db' \<and> cells db' mp' = cells db mp"
proof (cases "db_header db = 0")
  case False
  then have h: "be_nat (take k (stream k db)) = nat (db_header db)" "k \<le> length (stream k db)"
    "drop k (stream k db) = buffered db" "length (stream k db) = k + length (buffered db)"
    using ok be_nat_be_bytes [of "nat (db_header db)" k]
    by (simp_all add: stream_def header_ok_def nat_less_iff)
  with False ok show ?thesis
    by (auto simp: databuffer_readheader_def header_ok_def Let_def db_size_buffered)
next
  case True
  have k: "0 < k" "length (take k (buffered db)) = k \<Longrightarrow> k = 2 \<or> k = 4" and dbok: "db_ok db"
    using ok by (auto simp: header_ok_def)
  have s: "stream k db = buffered db" using True by (simp add: stream_def)
  show ?thesis
  proof (cases "length (buffered db) < k")
    case short: True
    with True dbok show ?thesis by (simp add: s databuffer_readheader_def db_size_buffered)
  next
    case False
    let ?n = "be_nat (take k (buffered db))"
    obtain db' mp' where r: "databuffer_read db mp k = Some (take k (buffered db), db', mp')"
      "buffered db' = drop k (buffered db)" "db_header db' = db_header db" "db_ok db'"
      "cells db' mp' = cells db mp"
      using read_ok [OF dbok k(1), of mp] False by auto
    have n: "?n < 2 ^ 31" using small s False by simp
    have "length (take k (buffered db)) = k" using False by simp
    then have hv: "header_value (take k (buffered db)) = int ?n" and n': "?n < 256 ^ k"
      using k(2) n header_value_two header_value_four be_nat_bound [of "take k (buffered db)"] by auto
    let ?db = "db'\<lparr>db_header := int ?n\<rparr>"
    have b: "buffered ?db = drop k (buffered db)" "db_ok ?db" "cells ?db mp' = cells db mp"
      using r by (cases "db_msgs db'"; simp add: buffered_def db_ok_def cells_def)+
    have "header_ok k ?db" using b n n' ok by (simp add: header_ok_def of_nat_less_iff [symmetric])
    moreover have "databuffer_readheader db mp k =
        Some (if length (buffered db) < k + ?n then -1 else int ?n, ?db, mp')"
      using True False dbok r(1) b False
      by (auto simp: databuffer_readheader_def db_size_buffered hv Let_def)
        (simp_all add: db_size_buffered [OF b(2), simplified] b)
    ultimately show ?thesis using False b unfolding s Let_def by auto
  qed
qed

end
