(* ===== verification/C_Library.thy ===== *)
theory C_Library
  imports Mtask_Prelude
begin

text \<open>
  The functions of the C library whose results the program depends on: decimal and
  hexadecimal conversions, tokens and number printing. A C string is the list of its bytes
  without the terminating 0. \<open>long\<close> has 64 bits, \<open>int\<close> 32; storing a \<open>long\<close> in an \<open>int\<close>
  keeps the low 32 bits (\<open>as_int\<close>).
\<close>

definition str :: "string \<Rightarrow> byte list" where
  "str s = map of_char s"

definition as_int :: "int \<Rightarrow> int" where
  "as_int n = sint (word_of_int n :: u32)"

lemma as_int_small: "0 \<le> n \<Longrightarrow> n < 2 ^ 31 \<Longrightarrow> as_int n = n"
proof -
  assume n: "0 \<le> n" "n < 2 ^ 31"
  then have "uint (word_of_int n :: u32) = n" by (simp add: uint_word_of_int_eq take_bit_eq_mod)
  then have "unat (word_of_int n :: u32) = nat n" by (simp add: unat_eq_nat_uint)
  with n show ?thesis by (simp add: as_int_def sint_small)
qed

definition is_space :: "byte \<Rightarrow> bool" where
  "is_space c \<longleftrightarrow> c = 32 \<or> (9 \<le> c \<and> c \<le> 13)"

definition digit_value :: "byte \<Rightarrow> nat option" where
  "digit_value c =
     (if 48 \<le> c \<and> c \<le> 57 then Some (unat c - 48)
      else if 97 \<le> c \<and> c \<le> 122 then Some (unat c - 87)
      else if 65 \<le> c \<and> c \<le> 90 then Some (unat c - 55)
      else None)"

text \<open>The value of the longest prefix of digits of the base, and what follows it.\<close>

fun digits :: "nat \<Rightarrow> nat \<Rightarrow> byte list \<Rightarrow> nat \<times> byte list" where
  "digits base acc [] = (acc, [])"
| "digits base acc (c # cs) =
     (case digit_value c of
        Some d \<Rightarrow> if d < base then digits base (acc * base + d) cs else (acc, c # cs)
      | None \<Rightarrow> (acc, c # cs))"

fun sign_split :: "byte list \<Rightarrow> bool \<times> byte list" where
  "sign_split (c # cs) = (if c = 45 then (True, cs) else if c = 43 then (False, cs) else (False, c # cs))"
| "sign_split [] = (False, [])"

definition hex_prefix :: "byte list \<Rightarrow> byte list" where
  "hex_prefix cs =
     (case cs of
        a # b # c # rest \<Rightarrow>
          (if a = 48 \<and> (b = 120 \<or> b = 88) \<and>
              (case digit_value c of Some d \<Rightarrow> d < 16 | None \<Rightarrow> False)
           then c # rest else cs)
      | _ \<Rightarrow> cs)"

text \<open>\<open>strtol(s, NULL, base)\<close> and \<open>strtoul(s, NULL, base)\<close>, with their saturation.\<close>

definition strtol :: "nat \<Rightarrow> byte list \<Rightarrow> int" where
  "strtol base s =
     (let (neg, cs) = sign_split (dropWhile is_space s);
          n = int (fst (digits base 0 (if base = 16 then hex_prefix cs else cs)))
      in if neg then max (- (2 ^ 63)) (- n) else min (2 ^ 63 - 1) n)"

definition strtoul :: "nat \<Rightarrow> byte list \<Rightarrow> u64" where
  "strtoul base s =
     (let (neg, cs) = sign_split (dropWhile is_space s);
          n = fst (digits base 0 (if base = 16 then hex_prefix cs else cs))
      in if 2 ^ 64 \<le> n then -1 else if neg then - of_nat n else of_nat n)"

text \<open>\<open>%d\<close> and \<open>%x\<close>\<close>

definition digit_char :: "nat \<Rightarrow> byte" where
  "digit_char d = (if d < 10 then of_nat (48 + d) else of_nat (87 + d))"

function print_nat :: "nat \<Rightarrow> nat \<Rightarrow> byte list" where
  "print_nat base n =
     (if n < base \<or> base < 2 then [digit_char n]
      else print_nat base (n div base) @ [digit_char (n mod base)])"
  by pat_completeness auto
termination by (relation "measure (\<lambda>(b, n). n)") auto

declare print_nat.simps [simp del]

definition print_int :: "int \<Rightarrow> byte list" where
  "print_int i = (if i < 0 then 45 # print_nat 10 (nat (- i)) else print_nat 10 (nat i))"

text \<open>
  \<open>strsep(&s, delim)\<close> with a delimiter of one character: the token and the rest, \<open>None\<close>
  when the string held no delimiter.
\<close>

fun strsep :: "byte \<Rightarrow> byte list \<Rightarrow> byte list \<times> byte list option" where
  "strsep d [] = ([], None)"
| "strsep d (c # cs) =
     (if c = d then ([], Some cs) else (let (t, r) = strsep d cs in (c # t, r)))"

text \<open>\<open>memcmp(command, lit, i) == 0\<close> for a literal with its terminating 0.\<close>

definition same_prefix :: "byte list \<Rightarrow> byte list \<Rightarrow> nat \<Rightarrow> bool" where
  "same_prefix command lit i \<longleftrightarrow> take i command = take i (lit @ [0])"

text \<open>
  The conversions \<open>%s\<close> and \<open>%d\<close> of \<open>sscanf\<close>, and the values of a sequence of \<open>%d\<close>, which
  ends where a conversion fails.
\<close>

definition scan_word :: "byte list \<Rightarrow> (byte list \<times> byte list) option" where
  "scan_word cs =
     (let ds = dropWhile is_space cs; w = takeWhile (\<lambda>c. \<not> is_space c) ds in
      if w = [] then None else Some (w, drop (length w) ds))"

definition scan_int :: "byte list \<Rightarrow> (int \<times> byte list) option" where
  "scan_int cs =
     (let ds = dropWhile is_space cs; (neg, es) = sign_split ds; (n, rest) = digits 10 0 es in
      if length rest = length es then None else Some (as_int (strtol 10 ds), rest))"

fun scan_ints :: "nat \<Rightarrow> byte list \<Rightarrow> int list" where
  "scan_ints 0 cs = []"
| "scan_ints (Suc n) cs = (case scan_int cs of None \<Rightarrow> [] | Some (i, rest) \<Rightarrow> i # scan_ints n rest)"

section \<open>Printing and parsing\<close>

lemma digit_value_char: "d < 16 \<Longrightarrow> digit_value (digit_char d) = Some d"
proof -
  assume d: "d < 16"
  have "unat (of_nat (48 + d) :: byte) = 48 + d" "unat (of_nat (87 + d) :: byte) = 87 + d"
    using d by (simp_all only: unat_of_nat) simp_all
  with d show ?thesis by (simp add: digit_value_def digit_char_def word_le_nat_alt del: of_nat_add)
qed

lemma digits_append:
  "(\<forall>c\<in>set cs. \<exists>d<base. digit_value c = Some d) \<Longrightarrow>
   digits base acc (cs @ rest) = digits base (fst (digits base acc cs)) rest"
  by (induction base acc cs rule: digits.induct) (auto split: option.splits)

lemma print_nat_digits:
  "2 \<le> base \<Longrightarrow> base \<le> 16 \<Longrightarrow>
   (\<forall>c\<in>set (print_nat base n). \<exists>d<base. digit_value c = Some d) \<and> fst (digits base 0 (print_nat base n)) = n"
proof (induction base n rule: print_nat.induct)
  case (1 base n)
  show ?case
  proof (cases "n < base")
    case True
    with 1 have "print_nat base n = [digit_char n]" "digit_value (digit_char n) = Some n"
      by (subst print_nat.simps, simp, simp add: digit_value_char)
    with True show ?thesis by (simp)
  next
    case False
    have m: "n mod base < base" using "1.prems" by simp
    with "1.prems" have d: "digit_value (digit_char (n mod base)) = Some (n mod base)"
      by (intro digit_value_char) linarith
    from False "1.prems" have e: "print_nat base n = print_nat base (n div base) @ [digit_char (n mod base)]"
      by (subst print_nat.simps) simp
    have ne: "\<not> (n < base \<or> base < 2)" using False "1.prems" by simp
    have IH: "\<forall>c\<in>set (print_nat base (n div base)). \<exists>d<base. digit_value c = Some d"
      "fst (digits base 0 (print_nat base (n div base))) = n div base"
      using "1.IH" [OF ne "1.prems"] by blast+
    have "fst (digits base 0 (print_nat base n)) = n div base * base + n mod base"
      unfolding e digits_append [OF IH(1)] IH(2) using d m by (simp)
    moreover have "\<forall>c\<in>set (print_nat base n). \<exists>d<base. digit_value c = Some d"
      unfolding e using IH(1) d m by auto
    ultimately show ?thesis by simp
  qed
qed

end
