(* ===== verification/Mtask_Header.thy ===== *)
theory Mtask_Header
  imports C_Library
begin

text \<open>
  The constants of \<open>mtask-src/mtask.h\<close> and \<open>mtask_harbor.h\<close> that several parts use: the
  types and flags of messages, and the length of a global name.
\<close>

definition PTYPE_TEXT :: int where "PTYPE_TEXT = 0"
definition PTYPE_CLIENT :: int where "PTYPE_CLIENT = 3"
definition PTYPE_SYSTEM :: int where "PTYPE_SYSTEM = 4"
definition PTYPE_HARBOR :: int where "PTYPE_HARBOR = 5"
definition PTYPE_SOCKET :: int where "PTYPE_SOCKET = 6"
definition PTYPE_ERROR :: int where "PTYPE_ERROR = 7"
definition PTYPE_TAG_DONTCOPY :: int where "PTYPE_TAG_DONTCOPY = 0x10000"
definition PTYPE_TAG_ALLOCSESSION :: int where "PTYPE_TAG_ALLOCSESSION = 0x20000"
definition GLOBALNAME_LENGTH :: nat where "GLOBALNAME_LENGTH = 16"

end
