(* ===== verification/Gate.thy ===== *)
theory Gate
  imports Hashid Databuffer Mtask_Header
begin

text \<open>
  \<open>service-src/mtask_service_gate.c\<close>: the gate service. It accepts client connections,
  cuts their byte streams into packages and passes these on to the broker, the agent of the
  connection or the watchdog. What a handler does to the outside (messages sent, sockets
  closed, started or written, log lines) is the list of its \<open>gate_out\<close> events in order.
  \<open>None\<close> is a crash: a failed assertion, a null pointer or a read outside the message. The
  name service (\<open>mtask_queryname\<close>) and the listening socket are arguments.
\<close>

section \<open>Data\<close>


datatype gate_out =
    GSend u32 u32 int "byte list"   \<comment> \<open>source, destination, type, data of \<open>mtask_send\<close>\<close>
  | GClose int
  | GStart int
  | GWrite int "byte list"
  | GLog string

record connection =
  cn_id :: int
  cn_agent :: u32
  cn_client :: u32
  cn_remote_name :: "byte list"
  cn_buffer :: databuffer

record gate =
  gt_listen_id :: int
  gt_watchdog :: u32
  gt_broker :: u32
  gt_client_tag :: int
  gt_header_size :: nat
  gt_max_connection :: int
  gt_hash :: hashid
  gt_conn :: "connection list"
  gt_mp :: messagepool

datatype mtask_socket_type = SockData | SockConnect | SockClose | SockAccept | SockError | SockUdp | SockWarning

text \<open>A socket message with the text that follows it.\<close>

record mtask_socket_message =
  sm_type :: mtask_socket_type
  sm_id :: int
  sm_ud :: int
  sm_buffer :: "byte list"
  sm_text :: "byte list"

definition blank_connection :: connection where
  "blank_connection = \<lparr>cn_id = 0, cn_agent = 0, cn_client = 0, cn_remote_name = [], cn_buffer = blank_databuffer\<rparr>"

definition gate_create :: gate where
  "gate_create = \<lparr>gt_listen_id = -1, gt_watchdog = 0, gt_broker = 0, gt_client_tag = 0, gt_header_size = 0,
     gt_max_connection = 0, gt_hash = hashid_clear (hashid_init 0), gt_conn = [],
     gt_mp = \<lparr>mp_pool = 0, mp_free = 0\<rparr>\<rparr>"

definition gate_release :: "gate \<Rightarrow> gate_out list" where
  "gate_release g =
     map (\<lambda>c. GClose (cn_id c)) (filter (\<lambda>c. 0 \<le> cn_id c) (take (nat (gt_max_connection g)) (gt_conn g))) @
     (if 0 \<le> gt_listen_id g then [GClose (gt_listen_id g)] else [])"

section \<open>Text commands\<close>

text \<open>\<open>_parm\<close>: what follows the command and the spaces after it.\<close>

definition parm :: "byte list \<Rightarrow> nat \<Rightarrow> byte list" where
  "parm msg command_sz = dropWhile (\<lambda>c. c = 32) (drop command_sz msg)"

definition cstring :: "byte list \<Rightarrow> byte list" where
  "cstring bs = takeWhile (\<lambda>c. c \<noteq> 0) bs"

definition forward_agent :: "gate \<Rightarrow> int \<Rightarrow> u32 \<Rightarrow> u32 \<Rightarrow> gate option" where
  "forward_agent g fd agentaddr clientaddr =
     (case hashid_lookup (gt_hash g) fd of
        None \<Rightarrow> None
      | Some None \<Rightarrow> Some g
      | Some (Some i) \<Rightarrow> Some (g\<lparr>gt_conn := (gt_conn g)[i := (gt_conn g ! i)\<lparr>cn_agent := agentaddr, cn_client := clientaddr\<rparr>]\<rparr>))"

text \<open>
  \<open>agent + 1\<close> and \<open>client + 1\<close> of the forward command: after an empty token the first
  reads on into what followed the separator; the second would leave the string.
\<close>

definition ctrl_forward :: "gate \<Rightarrow> byte list \<Rightarrow> (gate \<times> gate_out list) option" where
  "ctrl_forward g tmp =
     (let (idstr, client) = strsep 32 (cstring tmp) in
      case client of
        None \<Rightarrow> Some (g, [])
      | Some rest \<Rightarrow>
          let ident = as_int (strtol 10 idstr); (agent, client2) = strsep 32 rest in
          (case client2 of
             None \<Rightarrow> Some (g, [])
           | Some cl \<Rightarrow>
               if cl = [] then None
               else
                 let agent_handle = ucast (strtoul 16 (if agent = [] then cl else tl agent));
                     client_handle = ucast (strtoul 16 (tl cl))
                 in map_option (\<lambda>g'. (g', [])) (forward_agent g ident agent_handle client_handle)))"

definition ctrl :: "(byte list \<Rightarrow> u32) \<Rightarrow> gate \<Rightarrow> byte list \<Rightarrow> (gate \<times> gate_out list) option" where
  "ctrl query g msg =
     (let i = length (takeWhile (\<lambda>c. c \<noteq> 32) msg) in
      if msg = [] then Some (g, [])
      else if same_prefix msg (str ''kick'') i then
        let uid = as_int (strtol 10 (cstring (parm msg i))) in
        (case hashid_lookup (gt_hash g) uid of
           None \<Rightarrow> None
         | Some None \<Rightarrow> Some (g, [])
         | Some (Some _) \<Rightarrow> Some (g, [GClose uid]))
      else if same_prefix msg (str ''forward'') i then ctrl_forward g (parm msg i)
      else if same_prefix msg (str ''broker'') i then
        Some (g\<lparr>gt_broker := query (cstring (parm msg i))\<rparr>, [])
      else if same_prefix msg (str ''start'') i then Some (g, [GStart (gt_listen_id g)])
      else if same_prefix msg (str ''close'') i then
        (if 0 \<le> gt_listen_id g then Some (g\<lparr>gt_listen_id := -1\<rparr>, [GClose (gt_listen_id g)]) else Some (g, []))
      else Some (g, [GLog ''[gate] Unkown command'']))"

section \<open>Packages\<close>

definition report :: "gate \<Rightarrow> byte list \<Rightarrow> gate_out list" where
  "report g text = (if gt_watchdog g = 0 then [] else [GSend 0 (gt_watchdog g) PTYPE_TEXT text])"

definition forward :: "gate \<Rightarrow> connection \<Rightarrow> nat \<Rightarrow> (gate \<times> connection \<times> gate_out list) option" where
  "forward g c sz =
     (if gt_broker g \<noteq> 0 then
        (case databuffer_read (cn_buffer c) (gt_mp g) sz of
           None \<Rightarrow> None
         | Some (temp, b, mp) \<Rightarrow> Some (g\<lparr>gt_mp := mp\<rparr>, c\<lparr>cn_buffer := b\<rparr>,
             [GSend 0 (gt_broker g) (gt_client_tag g OR PTYPE_TAG_DONTCOPY) temp]))
      else if cn_agent c \<noteq> 0 then
        (case databuffer_read (cn_buffer c) (gt_mp g) sz of
           None \<Rightarrow> None
         | Some (temp, b, mp) \<Rightarrow> Some (g\<lparr>gt_mp := mp\<rparr>, c\<lparr>cn_buffer := b\<rparr>,
             [GSend (cn_client c) (cn_agent c) (gt_client_tag g OR PTYPE_TAG_DONTCOPY) temp]))
      else if gt_watchdog g \<noteq> 0 then
        (case databuffer_read (cn_buffer c) (gt_mp g) sz of
           None \<Rightarrow> None
         | Some (temp, b, mp) \<Rightarrow> Some (g\<lparr>gt_mp := mp\<rparr>, c\<lparr>cn_buffer := b\<rparr>,
             [GSend 0 (gt_watchdog g) (PTYPE_TEXT OR PTYPE_TAG_DONTCOPY)
                (print_int (cn_id c) @ str '' data '' @ temp)]))
      else Some (g, c, []))"

text \<open>
  The loop of \<open>dispatch_message\<close>. Every round but the last takes a header, which is at
  least two bytes, out of the buffer, except a first one that finds the header already
  read: one more than the bytes buffered is enough fuel.
\<close>

fun dispatch_loop :: "nat \<Rightarrow> gate \<Rightarrow> connection \<Rightarrow> int \<Rightarrow> (gate \<times> connection \<times> gate_out list) option" where
  "dispatch_loop 0 g c ident = None"
| "dispatch_loop (Suc fuel) g c ident =
     (case databuffer_readheader (cn_buffer c) (gt_mp g) (gt_header_size g) of
        None \<Rightarrow> None
      | Some (sz, b, mp) \<Rightarrow>
          let g1 = g\<lparr>gt_mp := mp\<rparr>; c1 = c\<lparr>cn_buffer := b\<rparr> in
          if sz < 0 then Some (g1, c1, [])
          else if 0 < sz then
            if 0x1000000 \<le> sz then
              let (b2, mp2) = databuffer_clear b mp in
              Some (g1\<lparr>gt_mp := mp2\<rparr>, c1\<lparr>cn_buffer := b2\<rparr>,
                [GClose ident, GLog ''Recv socket message > 16M''])
            else
              (case forward g1 c1 (nat sz) of
                 None \<Rightarrow> None
               | Some (g2, c2, out2) \<Rightarrow>
                   (case dispatch_loop fuel g2 (c2\<lparr>cn_buffer := databuffer_reset (cn_buffer c2)\<rparr>) ident of
                      None \<Rightarrow> None
                    | Some (g3, c3, out3) \<Rightarrow> Some (g3, c3, out2 @ out3)))
          else dispatch_loop fuel g1 c1 ident)"

definition dispatch_message :: "gate \<Rightarrow> connection \<Rightarrow> int \<Rightarrow> byte list
    \<Rightarrow> (gate \<times> connection \<times> gate_out list) option" where
  "dispatch_message g c ident data =
     (let (b, mp) = databuffer_push (cn_buffer c) (gt_mp g) data in
      dispatch_loop (nat (db_size b) + 2) (g\<lparr>gt_mp := mp\<rparr>) (c\<lparr>cn_buffer := b\<rparr>) ident)"

section \<open>Socket messages\<close>

definition close_connection :: "gate \<Rightarrow> mtask_socket_message \<Rightarrow> (gate \<times> gate_out list) option" where
  "close_connection g m =
     (case hashid_remove (gt_hash g) (sm_id m) of
        None \<Rightarrow> None
      | Some (None, h) \<Rightarrow> Some (g\<lparr>gt_hash := h\<rparr>, [])
      | Some (Some i, h) \<Rightarrow>
          let (b, mp) = databuffer_clear (cn_buffer (gt_conn g ! i)) (gt_mp g);
              g' = g\<lparr>gt_hash := h, gt_mp := mp, gt_conn := (gt_conn g)[i := blank_connection\<lparr>cn_id := -1\<rparr>]\<rparr>
          in Some (g', report g' (print_int (sm_id m) @ str '' close'')))"

definition dispatch_socket_message :: "gate \<Rightarrow> mtask_socket_message \<Rightarrow> (gate \<times> gate_out list) option" where
  "dispatch_socket_message g m = (case sm_type m of
     SockData \<Rightarrow>
       (case hashid_lookup (gt_hash g) (sm_id m) of
          None \<Rightarrow> None
        | Some (Some i) \<Rightarrow>
            (case dispatch_message g (gt_conn g ! i) (sm_id m) (sm_buffer m) of
               None \<Rightarrow> None
             | Some (g', c', out) \<Rightarrow> Some (g'\<lparr>gt_conn := (gt_conn g')[i := c']\<rparr>, out))
        | Some None \<Rightarrow> Some (g, [GLog ''Drop unknown connection message'', GClose (sm_id m)]))
   | SockConnect \<Rightarrow>
       if sm_id m = gt_listen_id g then Some (g, [])
       else (case hashid_lookup (gt_hash g) (sm_id m) of
          None \<Rightarrow> None
        | Some (Some i) \<Rightarrow>
            Some (g, report g (print_int (sm_id m) @ str '' open '' @ print_int (sm_id m) @ str '' '' @
              cn_remote_name (gt_conn g ! i) @ str '':0''))
        | Some None \<Rightarrow> Some (g, [GLog ''Close unknown connection'', GClose (sm_id m)]))
   | SockClose \<Rightarrow> close_connection g m
   | SockError \<Rightarrow> close_connection g m
   | SockAccept \<Rightarrow>
       if gt_listen_id g \<noteq> sm_id m then None
       else if hashid_full (gt_hash g) then Some (g, [GClose (sm_ud m)])
       else (case hashid_insert (gt_hash g) (sm_ud m) of
          None \<Rightarrow> None
        | Some (i, h) \<Rightarrow>
            Some (g\<lparr>gt_hash := h, gt_conn := (gt_conn g)[i := (gt_conn g ! i)\<lparr>cn_id := sm_ud m,
                cn_remote_name := cstring (take 31 (sm_text m))\<rparr>]\<rparr>, [GStart (sm_ud m)]))
   | SockWarning \<Rightarrow> Some (g, [GLog ''fd send buffer''])
   | SockUdp \<Rightarrow> Some (g, []))"

text \<open>
  \<open>_cb\<close>: the callback of the service, for the message types the gate handles. The last
  component is the return value: 1 keeps the message from being freed.
\<close>

datatype gate_msg =
    TextMsg "byte list"
  | ClientMsg u32 "byte list"
  | SocketMsg u32 mtask_socket_message
  | OtherMsg

definition gate_cb :: "(byte list \<Rightarrow> u32) \<Rightarrow> gate \<Rightarrow> gate_msg \<Rightarrow> (gate \<times> gate_out list \<times> nat) option" where
  "gate_cb query g msg = (case msg of
     TextMsg t \<Rightarrow> map_option (\<lambda>(g', out). (g', out, 0)) (ctrl query g t)
   | ClientMsg source data \<Rightarrow>
       if length data \<le> 4 then Some (g, [GLog ''Invalid client message''], 0)
       else
         let uid = sint (un_le32 (drop (length data - 4) data)) in
         (case hashid_lookup (gt_hash g) uid of
            None \<Rightarrow> None
          | Some (Some _) \<Rightarrow> Some (g, [GWrite uid (take (length data - 4) data)], 1)
          | Some None \<Rightarrow> Some (g, [GLog ''Invalid client id''], 0))
   | SocketMsg source m \<Rightarrow>
       if source \<noteq> 0 then None
       else map_option (\<lambda>(g', out). (g', out, 0)) (dispatch_socket_message g m)
   | OtherMsg \<Rightarrow> Some (g, [], 0))"

section \<open>Start\<close>

text \<open>\<open>start_listen\<close>: the return value and the gate.\<close>

definition start_listen :: "(byte list \<Rightarrow> int \<Rightarrow> int) \<Rightarrow> gate \<Rightarrow> byte list \<Rightarrow> nat \<times> gate \<times> gate_out list" where
  "start_listen listen g addr =
     (let (host, portstr) = strsep 58 addr in
      case portstr of
        None \<Rightarrow>
          let port = as_int (strtol 10 addr) in
          if port \<le> 0 then (1, g, [GLog ''Invalid gate address''])
          else
            let l = listen [] port; g' = g\<lparr>gt_listen_id := l\<rparr> in (if l < 0 then 1 else 0, g', [])
      | Some ps \<Rightarrow>
          let port = as_int (strtol 10 ps) in
          if port \<le> 0 then (1, g, [GLog ''Invalid gate address''])
          else
            let l = listen host port; g' = g\<lparr>gt_listen_id := l\<rparr> in (if l < 0 then 1 else 0, g', []))"

text \<open>\<open>gate_init\<close>: the return value (1 is an error) and the gate.\<close>

definition gate_init :: "(byte list \<Rightarrow> u32) \<Rightarrow> (byte list \<Rightarrow> int \<Rightarrow> int) \<Rightarrow> gate \<Rightarrow> byte list option
    \<Rightarrow> nat \<times> gate \<times> gate_out list" where
  "gate_init query listen g args = (case args of
     None \<Rightarrow> (1, g, [])
   | Some [] \<Rightarrow> (1, g, [GLog ''Invalid gate parm''])
   | Some (header # rest) \<Rightarrow>
       (case scan_word rest of
          None \<Rightarrow> (1, g, [GLog ''Invalid gate parm''])
        | Some (watchdog, rest1) \<Rightarrow>
            (case scan_word rest1 of
               None \<Rightarrow> (1, g, [GLog ''Invalid gate parm''])
             | Some (binding, rest2) \<Rightarrow>
                 let ints = scan_ints 3 rest2;
                     mx = (if 1 < length ints then ints ! 1 else 0) in
                 if ints = [] then (1, g, [GLog ''Invalid gate parm''])
                 else if mx \<le> 0 then (1, g, [GLog ''Need max connection''])
                 else if header \<noteq> 83 \<and> header \<noteq> 76 then (1, g, [GLog ''Invalid data header style''])
                 else
                   let client_tag = (if ints ! 0 = 0 then PTYPE_CLIENT else ints ! 0);
                       wd = (if hd watchdog = 33 then 0 else query watchdog) in
                   if hd watchdog \<noteq> 33 \<and> wd = 0 then (1, g\<lparr>gt_watchdog := wd\<rparr>, [GLog ''Invalid watchdog''])
                   else start_listen listen
                     (g\<lparr>gt_watchdog := wd, gt_hash := hashid_init mx,
                        gt_conn := replicate (nat mx) (blank_connection\<lparr>cn_id := -1\<rparr>),
                        gt_max_connection := mx, gt_client_tag := client_tag,
                        gt_header_size := (if header = 83 then 2 else 4)\<rparr>) binding)))"

end
