(* ===== verification/Gate_Stream.thy ===== *)
theory Gate_Stream
  imports Gate
begin

text \<open>
  What the gate delivers: the loop of \<open>dispatch_message\<close> implements \<open>deframe\<close>, so the
  packages of a connection do not depend on how the network cuts its stream; and the
  connection table stays consistent whatever messages arrive.
\<close>

section \<open>One connection\<close>

definition MAX_PACKAGE :: nat where "MAX_PACKAGE = 0x1000000"

text \<open>The connection has someone to send to.\<close>

definition has_target :: "gate \<Rightarrow> connection \<Rightarrow> bool" where
  "has_target g c \<longleftrightarrow> gt_broker g \<noteq> 0 \<or> cn_agent c \<noteq> 0 \<or> gt_watchdog g \<noteq> 0"

text \<open>The message one package of the stream becomes; empty packages are skipped.\<close>

definition package :: "gate \<Rightarrow> connection \<Rightarrow> byte list \<Rightarrow> gate_out list" where
  "package g c p =
     (if p = [] then []
      else if gt_broker g \<noteq> 0 then [GSend 0 (gt_broker g) (gt_client_tag g OR PTYPE_TAG_DONTCOPY) p]
      else if cn_agent c \<noteq> 0 then
        [GSend (cn_client c) (cn_agent c) (gt_client_tag g OR PTYPE_TAG_DONTCOPY) p]
      else [GSend 0 (gt_watchdog g) (PTYPE_TEXT OR PTYPE_TAG_DONTCOPY)
              (print_int (cn_id c) @ str '' data '' @ p)])"

text \<open>Everything but the buffers is the same.\<close>

definition same_gate :: "gate \<Rightarrow> gate \<Rightarrow> bool" where
  "same_gate g g' \<longleftrightarrow> g'\<lparr>gt_mp := gt_mp g\<rparr> = g"

definition same_conn :: "connection \<Rightarrow> connection \<Rightarrow> bool" where
  "same_conn c c' \<longleftrightarrow> c'\<lparr>cn_buffer := cn_buffer c\<rparr> = c"

lemma same_gateD:
  "same_gate g g' \<Longrightarrow> gt_broker g' = gt_broker g \<and> gt_watchdog g' = gt_watchdog g \<and>
   gt_client_tag g' = gt_client_tag g \<and> gt_header_size g' = gt_header_size g \<and> gt_hash g' = gt_hash g \<and>
   gt_conn g' = gt_conn g \<and> gt_listen_id g' = gt_listen_id g \<and> gt_max_connection g' = gt_max_connection g"
  by (cases g; cases g') (simp add: same_gate_def)

lemma same_connD:
  "same_conn c c' \<Longrightarrow> cn_id c' = cn_id c \<and> cn_agent c' = cn_agent c \<and> cn_client c' = cn_client c \<and>
   cn_remote_name c' = cn_remote_name c"
  by (cases c; cases c') (simp add: same_conn_def)

lemma same_gate_simps [simp]: "same_gate g g" "same_gate g (g'\<lparr>gt_mp := mp\<rparr>) = same_gate g g'"
  by (simp_all add: same_gate_def)

lemma same_conn_simps [simp]: "same_conn c c" "same_conn c (c'\<lparr>cn_buffer := b\<rparr>) = same_conn c c'"
  by (simp_all add: same_conn_def)

lemma same_trans: "same_gate g g' \<Longrightarrow> same_gate g' g'' \<Longrightarrow> same_gate g g''"
  "same_conn c c' \<Longrightarrow> same_conn c' c'' \<Longrightarrow> same_conn c c''"
  by (cases g; cases g'; cases g''; simp add: same_gate_def)
    (cases c; cases c'; cases c''; simp add: same_conn_def)

lemma package_cong: "same_gate g g' \<Longrightarrow> same_conn c c' \<Longrightarrow> package g' c' = package g c"
  using same_gateD same_connD by (intro ext) (simp add: package_def)

lemma target_cong: "same_gate g g' \<Longrightarrow> same_conn c c' \<Longrightarrow> has_target g' c' = has_target g c"
  using same_gateD same_connD by (simp add: has_target_def)

lemma forward_ok:
  assumes "has_target g c" "db_ok (cn_buffer c)" "0 < n" "n \<le> length (buffered (cn_buffer c))"
  shows "\<exists>g' c'. forward g c n = Some (g', c', package g c (take n (buffered (cn_buffer c)))) \<and>
    same_gate g g' \<and> same_conn c c' \<and> db_ok (cn_buffer c') \<and>
    buffered (cn_buffer c') = drop n (buffered (cn_buffer c))"
proof -
  obtain b mp where "databuffer_read (cn_buffer c) (gt_mp g) n = Some (take n (buffered (cn_buffer c)), b, mp)"
    "buffered b = drop n (buffered (cn_buffer c))" "db_ok b"
    using read_ok [OF assms(2-4)] by blast
  moreover have "take n (buffered (cn_buffer c)) \<noteq> []" using assms(3,4) by auto
  ultimately show ?thesis
    using assms(1) by (auto simp: forward_def package_def has_target_def)
qed

lemma reset_simps [simp]: "db_header (databuffer_reset b) = 0" "buffered (databuffer_reset b) = buffered b"
  "db_ok (databuffer_reset b) = db_ok b"
  by (cases "db_msgs b"; simp add: databuffer_reset_def buffered_def db_ok_def)+

text \<open>The loop cuts the stream of the connection into packages.\<close>

definition conn_ok :: "gate \<Rightarrow> connection \<Rightarrow> bool" where
  "conn_ok g c \<longleftrightarrow> has_target g c \<and> header_ok (gt_header_size g) (cn_buffer c)"

definition rounds :: "databuffer \<Rightarrow> nat" where
  "rounds b = length (buffered b) + (if db_header b = 0 then 0 else 1)"

lemma dispatch_loop_frames:
  "conn_ok g c \<Longrightarrow> deframe (gt_header_size g) MAX_PACKAGE (stream (gt_header_size g) (cn_buffer c)) = (fs, r, False) \<Longrightarrow>
   rounds (cn_buffer c) < fuel \<Longrightarrow>
   \<exists>g' c'. dispatch_loop fuel g c ident = Some (g', c', concat (map (package g c) fs)) \<and>
     same_gate g g' \<and> same_conn c c' \<and> conn_ok g' c' \<and> stream (gt_header_size g) (cn_buffer c') = r"
proof (induction fuel arbitrary: g c fs)
  case 0
  then show ?case by simp
next
  case (Suc fuel)
  let ?k = "gt_header_size g"
  let ?s = "stream ?k (cn_buffer c)"
  let ?n = "be_nat (take ?k ?s)"
  have hok: "header_ok ?k (cn_buffer c)" and tgt: "has_target g c" using Suc.prems(1) by (auto simp: conn_ok_def)
  have k: "0 < ?k" using hok by (auto simp: header_ok_def)
  have n: "?n < MAX_PACKAGE" if "?k \<le> length ?s"
    using that Suc.prems(2) deframe_dead [OF k that] by (cases "MAX_PACKAGE \<le> ?n") auto
  have len_s: "length ?s = length (buffered (cn_buffer c)) + (if db_header (cn_buffer c) = 0 then 0 else ?k)"
    by (simp add: stream_def)
  have rs: "length (drop (?k + ?n) ?s) < fuel" if "?k + ?n \<le> length ?s"
    using that Suc.prems(3) k len_s by (auto simp: rounds_def split: if_splits)
  note rh = readheader_ok [OF hok, of "gt_mp g"]
  have small: "?n < 2 ^ 31" if "?k \<le> length ?s" using n [OF that] by (simp add: MAX_PACKAGE_def)
  show ?case
  proof (cases "length ?s < ?k")
    case True
    with rh small have "databuffer_readheader (cn_buffer c) (gt_mp g) ?k = Some (-1, cn_buffer c, gt_mp g)" by simp
    moreover have "fs = []" "r = ?s" using Suc.prems(2) True by (auto simp: deframe_short)
    ultimately show ?thesis using Suc.prems(1) by simp
  next
    case False
    then have le: "?k \<le> length ?s" by simp
    with rh small False obtain b mp where
      b: "databuffer_readheader (cn_buffer c) (gt_mp g) ?k = Some (if length ?s < ?k + ?n then -1 else int ?n, b, mp)"
        "db_header b = int ?n" "buffered b = drop ?k ?s" "header_ok ?k b"
      by (auto simp: Let_def)
    let ?g = "g\<lparr>gt_mp := mp\<rparr>" and ?c = "c\<lparr>cn_buffer := b\<rparr>"
    have hdr: "be_bytes ?k ?n = take ?k ?s" by (rule be_bytes_be_nat) (use le in simp)
    have "stream ?k b = (if int ?n = 0 then [] else be_bytes ?k (nat (int ?n))) @ drop ?k ?s"
      using b(2,3) by (simp only: stream_def [of ?k b])
    then have str0: "stream ?k b = (if ?n = 0 then drop ?k ?s else ?s)"
      unfolding nat_int hdr by simp
    show ?thesis
    proof (cases "length ?s < ?k + ?n")
      case wait: True
      then have "fs = []" "r = ?s" using Suc.prems(2) deframe_wait [OF k le n [OF le]] by auto
      moreover have "stream ?k b = ?s" using str0 wait le by (cases "?n = 0") auto
      moreover have "conn_ok ?g ?c" using b(4) tgt by (simp add: conn_ok_def has_target_def)
      ultimately show ?thesis using b(1) wait by simp
    next
      case full: False
      then have len: "?k + ?n \<le> length ?s" by simp
      obtain fs1 where d: "deframe ?k MAX_PACKAGE (drop (?k + ?n) ?s) = (fs1, r, False)"
        and fs: "fs = take ?n (drop ?k ?s) # fs1"
        using Suc.prems(2) deframe_step [OF k len n [OF le]] by (auto simp: Let_def split: prod.splits)
      show ?thesis
      proof (cases "?n = 0")
        case True
        have st: "stream ?k b = drop (?k + ?n) ?s" using str0 True by simp
        have "conn_ok ?g ?c" using b(4) tgt by (simp add: conn_ok_def has_target_def)
        moreover have "rounds b < fuel"
          using rs [OF len] True b(2,3) by (simp add: rounds_def)
        ultimately obtain g' c' where IH: "dispatch_loop fuel ?g ?c ident = Some (g', c', concat (map (package ?g ?c) fs1))"
          "same_gate ?g g'" "same_conn ?c c'" "conn_ok g' c'" "stream ?k (cn_buffer c') = r"
          using Suc.IH [of ?g ?c fs1] d st by auto
        have pk: "package ?g ?c = package g c" by (rule package_cong) simp_all
        have "dispatch_loop (Suc fuel) g c ident = Some (g', c', concat (map (package g c) fs))"
          using b(1) full True IH(1) fs unfolding pk by (simp add: package_def [of g c "[]"])
        moreover have "same_gate g g'" "same_conn c c'"
          using IH(2,3) same_trans(1) [of g ?g g'] same_trans(2) [of c ?c c'] by simp_all
        ultimately show ?thesis using IH(4,5) by blast
      next
        case False
        have bok: "db_ok b" using b(4) by (simp add: header_ok_def)
        have tg: "has_target ?g ?c" using tgt by (simp add: has_target_def)
        have "?n \<le> length (buffered b)" unfolding b(3) length_drop using len by linarith
        then have "?n \<le> length (buffered (cn_buffer ?c))" by simp
        from forward_ok [OF tg _ _ this] bok False obtain g2 c2 where
          f0: "forward ?g ?c ?n = Some (g2, c2, package ?g ?c (take ?n (buffered b)))"
            "same_gate ?g g2" "same_conn ?c c2" "db_ok (cn_buffer c2)"
            "buffered (cn_buffer c2) = drop ?n (buffered b)"
          by auto
        note f = f0 [unfolded b(3) drop_drop add.commute [of ?n ?k]]
        let ?c2 = "c2\<lparr>cn_buffer := databuffer_reset (cn_buffer c2)\<rparr>"
        have sg: "same_gate g g2" "same_conn c ?c2"
          using f(2,3) same_trans(1) [of g ?g g2] same_trans(2) [of c ?c c2] by simp_all
        have k2: "gt_header_size g2 = ?k" using same_gateD [OF sg(1)] by simp
        have st: "stream ?k (cn_buffer ?c2) = drop (?k + ?n) ?s" using f(5) by (simp add: stream_def)
        have "conn_ok g2 ?c2" using f(4) target_cong [OF sg] tgt hok k2 by (simp add: conn_ok_def header_ok_def)
        moreover have "rounds (cn_buffer ?c2) < fuel" using rs [OF len] f(5) by (simp add: rounds_def)
        ultimately obtain g' c' where IH:
          "dispatch_loop fuel g2 ?c2 ident = Some (g', c', concat (map (package g2 ?c2) fs1))"
          "same_gate g2 g'" "same_conn ?c2 c'" "conn_ok g' c'" "stream ?k (cn_buffer c') = r"
          using Suc.IH [of g2 ?c2 fs1] d st k2 by auto
        have pk: "package ?g ?c = package g c" by (rule package_cong) simp_all
        have "dispatch_loop (Suc fuel) g c ident = Some (g', c', concat (map (package g c) fs))"
          using b(1) full False IH(1) fs f(1) n [OF le] unfolding pk package_cong [OF sg]
          by (simp add: MAX_PACKAGE_def)
        moreover have "same_gate g g'" "same_conn c c'"
          using same_trans(1) [OF sg(1) IH(2)] same_trans(2) [OF sg(2) IH(3)] by simp_all
        ultimately show ?thesis using IH(4,5) by blast
      qed
    qed
  qed
qed

lemma dispatch_message_frames:
  assumes "conn_ok g c" and
    "deframe (gt_header_size g) MAX_PACKAGE (stream (gt_header_size g) (cn_buffer c) @ data) = (fs, r, False)"
  shows "\<exists>g' c'. dispatch_message g c ident data = Some (g', c', concat (map (package g c) fs)) \<and>
    same_gate g g' \<and> same_conn c c' \<and> conn_ok g' c' \<and> stream (gt_header_size g) (cn_buffer c') = r"
proof -
  obtain b mp where p: "databuffer_push (cn_buffer c) (gt_mp g) data = (b, mp)" by fastforce
  have ok: "header_ok (gt_header_size g) (cn_buffer c)" using assms(1) by (simp add: conn_ok_def)
  then have dok: "db_ok (cn_buffer c)" by (simp add: header_ok_def)
  note pk = push_ok [OF dok p]
  let ?g = "g\<lparr>gt_mp := mp\<rparr>" and ?c = "c\<lparr>cn_buffer := b\<rparr>"
  have "conn_ok ?g ?c" using assms(1) pk by (simp add: conn_ok_def has_target_def header_ok_def)
  moreover have "stream (gt_header_size g) b = stream (gt_header_size g) (cn_buffer c) @ data"
    using pk by (simp add: stream_def)
  moreover have "rounds b < nat (db_size b) + 2" using db_size_buffered [OF pk(1)] by (simp add: rounds_def)
  ultimately obtain g' c' where l: "dispatch_loop (nat (db_size b) + 2) ?g ?c ident =
      Some (g', c', concat (map (package ?g ?c) fs))" "same_gate ?g g'" "same_conn ?c c'" "conn_ok g' c'"
      "stream (gt_header_size g) (cn_buffer c') = r"
    using dispatch_loop_frames [of ?g ?c fs r "nat (db_size b) + 2" ident] assms(2) by auto
  moreover have "package ?g ?c = package g c" by (rule package_cong) simp_all
  moreover have "same_gate g g'" "same_conn c c'"
    using l(2,3) same_trans(1) [of g ?g g'] same_trans(2) [of c ?c c'] by simp_all
  ultimately show ?thesis using p by (auto simp: dispatch_message_def)
qed

definition gate_feed :: "int \<Rightarrow> gate \<times> connection \<Rightarrow> byte list \<Rightarrow> (gate \<times> connection) \<times> gate_out list" where
  "gate_feed ident s data = (case dispatch_message (fst s) (snd s) ident data of
     None \<Rightarrow> (s, [])
   | Some (g, c, out) \<Rightarrow> ((g, c), out))"

lemma gate_feed_piece:
  assumes "conn_ok (fst s) (snd s) \<and> gt_header_size (fst s) = k"
    and "deframe k MAX_PACKAGE (stream k (cn_buffer (snd s)) @ xs) = (fs, r, False)"
  shows "\<exists>s'. gate_feed ident s xs = (s', concat (map (package (fst s) (snd s)) fs)) \<and>
    (conn_ok (fst s') (snd s') \<and> gt_header_size (fst s') = k) \<and> stream k (cn_buffer (snd s')) = r \<and>
    package (fst s') (snd s') = package (fst s) (snd s)"
proof -
  obtain g' c' where d: "dispatch_message (fst s) (snd s) ident xs =
      Some (g', c', concat (map (package (fst s) (snd s)) fs))" "same_gate (fst s) g'" "same_conn (snd s) c'"
      "conn_ok g' c'" "stream k (cn_buffer c') = r"
    using dispatch_message_frames [of "fst s" "snd s" xs fs r ident] assms by auto
  have "package g' c' = package (fst s) (snd s)" using d(2,3) by (rule package_cong)
  with d same_gateD [OF d(2)] assms(1) show ?thesis by (auto simp: gate_feed_def)
qed

interpretation short_headers: framed_reader 2 MAX_PACKAGE
  "\<lambda>s. conn_ok (fst s) (snd s) \<and> gt_header_size (fst s) = 2" "\<lambda>s. stream 2 (cn_buffer (snd s))"
  "\<lambda>s. package (fst s) (snd s)" "gate_feed ident" for ident
  by unfold_locales (rule gate_feed_piece)

interpretation long_headers: framed_reader 4 MAX_PACKAGE
  "\<lambda>s. conn_ok (fst s) (snd s) \<and> gt_header_size (fst s) = 4" "\<lambda>s. stream 4 (cn_buffer (snd s))"
  "\<lambda>s. package (fst s) (snd s)" "gate_feed ident" for ident
  by unfold_locales (rule gate_feed_piece)

section \<open>Properties of the stream\<close>

text \<open>
  C20. A gate with two-byte or four-byte headers turns the packages a client sends, however
  the network cuts the stream into pieces, into exactly one message per package that is not
  empty, in order and with the payload unchanged, addressed to the broker, the agent or the
  watchdog; nothing is left in the buffer at the end.
\<close>

theorem gate_delivers_packages:
  assumes "conn_ok g c" "stream (gt_header_size g) (cn_buffer c) = []"
    and "\<forall>p\<in>set ps. length p < MAX_PACKAGE \<and> length p < 256 ^ gt_header_size g"
    and "concat cs = concat (map (frame (gt_header_size g)) ps)" "[] \<notin> set cs"
  shows "\<exists>g' c'. feed_all (gate_feed ident) (g, c) cs = ((g', c'), concat (map (package g c) ps)) \<and>
    conn_ok g' c' \<and> stream (gt_header_size g) (cn_buffer c') = []"
proof -
  have ne: "\<forall>c\<in>set cs. c \<noteq> []" using assms(5) by auto
  have "gt_header_size g = 2 \<or> gt_header_size g = 4"
    using assms(1) by (simp add: conn_ok_def header_ok_def)
  then show ?thesis
  proof
    assume k: "gt_header_size g = 2"
    have "\<exists>s'. feed_all (gate_feed ident) (g, c) cs = (s', concat (map (package (fst (g, c)) (snd (g, c))) ps)) \<and>
      (conn_ok (fst s') (snd s') \<and> gt_header_size (fst s') = 2) \<and> stream 2 (cn_buffer (snd s')) = []"
      by (rule short_headers.feed_frames) (use assms k ne in simp_all)
    with k show ?thesis by auto
  next
    assume k: "gt_header_size g = 4"
    have "\<exists>s'. feed_all (gate_feed ident) (g, c) cs = (s', concat (map (package (fst (g, c)) (snd (g, c))) ps)) \<and>
      (conn_ok (fst s') (snd s') \<and> gt_header_size (fst s') = 4) \<and> stream 4 (cn_buffer (snd s')) = []"
      by (rule long_headers.feed_frames) (use assms k ne in simp_all)
    with k show ?thesis by auto
  qed
qed

definition example_gate :: gate where
  "example_gate = gate_create\<lparr>gt_watchdog := 9, gt_header_size := 2\<rparr>"

lemma example_conn_ok: "conn_ok example_gate blank_connection"
  "stream (gt_header_size example_gate) (cn_buffer blank_connection) = []" "gt_header_size example_gate = 2"
  by (simp_all add: conn_ok_def has_target_def header_ok_def example_gate_def blank_connection_def stream_def)

theorem gate_delivers_packages_witness:
  "snd (feed_all (gate_feed 5) (example_gate, blank_connection) [[0], [2, 7], [8, 0, 0]]) =
   [GSend 0 9 0x10000 (print_int 0 @ str '' data '' @ [7, 8])]"
proof -
  have "concat [[0], [2, 7], [8, 0, 0]] = concat (map (frame (gt_header_size example_gate)) [[7, 8], []])"
    by (simp add: frame_def numeral_2_eq_2 example_gate_def)
  from gate_delivers_packages [OF example_conn_ok(1,2) _ this, of 5] obtain g' c' where
    "feed_all (gate_feed 5) (example_gate, blank_connection) [[0], [2, 7], [8, 0, 0]] =
      ((g', c'), concat (map (package example_gate blank_connection) [[7, 8], []]))"
    by (auto simp: MAX_PACKAGE_def example_conn_ok(3))
  then show ?thesis
    by (simp add: package_def example_gate_def gate_create_def blank_connection_def PTYPE_TEXT_def
        PTYPE_TAG_DONTCOPY_def)
qed

text \<open>A four-byte header of at least \<open>2 ^ 31\<close> is a negative \<open>int\<close>.\<close>

lemma negative_step:
  assumes "db_ok (cn_buffer c)" "db_header (cn_buffer c) < 0"
  shows "\<exists>g' c'. dispatch_message g c ident data = Some (g', c', []) \<and> db_ok (cn_buffer c') \<and>
    db_header (cn_buffer c') < 0 \<and> buffered (cn_buffer c') = buffered (cn_buffer c) @ data"
proof -
  obtain b mp where p: "databuffer_push (cn_buffer c) (gt_mp g) data = (b, mp)" by fastforce
  note pk = push_ok [OF assms(1) p]
  have "databuffer_readheader b mp (gt_header_size g) = Some (db_header b, b, mp)"
    using pk assms(2) by (simp add: databuffer_readheader_def db_size_buffered)
  then have "dispatch_message g c ident data = Some (g\<lparr>gt_mp := mp\<rparr>, c\<lparr>cn_buffer := b\<rparr>, [])"
    using p pk assms(2) by (simp add: dispatch_message_def)
  with pk assms(2) show ?thesis by simp
qed

lemma negative_feed:
  "db_ok (cn_buffer c) \<Longrightarrow> db_header (cn_buffer c) < 0 \<Longrightarrow>
   \<exists>g' c'. feed_all (gate_feed ident) (g, c) ds = ((g', c'), []) \<and>
     buffered (cn_buffer c') = buffered (cn_buffer c) @ concat ds"
proof (induction ds arbitrary: g c)
  case Nil
  then show ?case by simp
next
  case (Cons d ds)
  obtain g1 c1 where 1: "dispatch_message g c ident d = Some (g1, c1, [])" "db_ok (cn_buffer c1)"
    "db_header (cn_buffer c1) < 0" "buffered (cn_buffer c1) = buffered (cn_buffer c) @ d"
    using negative_step [OF Cons.prems] by blast
  obtain g' c' where "feed_all (gate_feed ident) (g1, c1) ds = ((g', c'), [])"
    "buffered (cn_buffer c') = buffered (cn_buffer c1) @ concat ds"
    using Cons.IH [OF 1(2,3)] by blast
  moreover have "gate_feed ident (g, c) d = ((g1, c1), [])" using 1(1) by (simp add: gate_feed_def)
  ultimately show ?case using 1(4) by simp
qed

text \<open>
  The check against packages of more than 16M does not see the largest ones: with
  four-byte headers, a length of \<open>2 ^ 31\<close> or more becomes negative, is never compared with
  the limit, and from then on the gate buffers everything the client sends, whatever the
  amount, without delivering a message and without closing the connection.
\<close>

theorem gate_buffers_forever:
  assumes "conn_ok g c" "gt_header_size g = 4" "stream 4 (cn_buffer c) = []"
    and "length hdr = 4" "2 ^ 31 \<le> be_nat hdr"
  shows "\<exists>g' c'. feed_all (gate_feed ident) (g, c) (hdr # ds) = ((g', c'), []) \<and>
    buffered (cn_buffer c') = concat ds"
proof -
  have h: "db_header (cn_buffer c) = 0" "buffered (cn_buffer c) = []" "db_ok (cn_buffer c)"
    using assms(1-3) by (auto simp: stream_def conn_ok_def header_ok_def split: if_splits)
  obtain b mp where p: "databuffer_push (cn_buffer c) (gt_mp g) hdr = (b, mp)" by fastforce
  note pk = push_ok [OF h(3) p]
  have bb: "buffered b = hdr" using pk(2) h(2) by simp
  obtain b' mp' where r: "databuffer_read b mp 4 = Some (hdr, b', mp')" "buffered b' = []" "db_ok b'"
    using read_ok [OF pk(1), of 4 mp] assms(4) bb by auto
  have neg: "header_value hdr < 0"
    using header_value_four(2) [OF assms(4,5)] be_nat_bound [of hdr] assms(4) by simp
  let ?b = "b'\<lparr>db_header := header_value hdr\<rparr>"
  have ok: "db_ok ?b" "buffered ?b = []" using r(2,3) by (cases "db_msgs b'"; simp add: db_ok_def buffered_def)+
  have "databuffer_readheader b mp 4 = Some (header_value hdr, ?b, mp')"
    using pk(1,3) h(1) bb assms(4) r(1) neg db_size_buffered [OF ok(1)] ok(2)
    by (simp add: databuffer_readheader_def db_size_buffered)
  then have d: "dispatch_message g c ident hdr = Some (g\<lparr>gt_mp := mp'\<rparr>, c\<lparr>cn_buffer := ?b\<rparr>, [])"
    using p neg assms(2) by (simp add: dispatch_message_def)
  obtain g' c' where "feed_all (gate_feed ident) (g\<lparr>gt_mp := mp'\<rparr>, c\<lparr>cn_buffer := ?b\<rparr>) ds = ((g', c'), [])"
    "buffered (cn_buffer c') = concat ds"
    using negative_feed [of "c\<lparr>cn_buffer := ?b\<rparr>" ident "g\<lparr>gt_mp := mp'\<rparr>" ds] ok neg by auto
  moreover have "gate_feed ident (g, c) hdr = ((g\<lparr>gt_mp := mp'\<rparr>, c\<lparr>cn_buffer := ?b\<rparr>), [])"
    using d by (simp add: gate_feed_def)
  ultimately show ?thesis by simp
qed

theorem gate_buffers_forever_witness:
  "\<exists>g' c'. feed_all (gate_feed 5) (example_gate\<lparr>gt_header_size := 4\<rparr>, blank_connection)
     ([0x80, 0, 0, 0] # [[1, 2], [3]]) = ((g', c'), []) \<and> buffered (cn_buffer c') = [1, 2, 3]"
proof -
  have "conn_ok (example_gate\<lparr>gt_header_size := 4\<rparr>) blank_connection"
    "stream 4 (cn_buffer blank_connection) = []"
    by (simp_all add: conn_ok_def has_target_def header_ok_def example_gate_def blank_connection_def stream_def)
  from gate_buffers_forever [OF this(1) _ this(2), of "[0x80, 0, 0, 0]" 5 "[[1, 2], [3]]"] show ?thesis
    by simp
qed

text \<open>
  When a connection has no broker, no agent and no watchdog to send to, the code skips
  a package without taking its payload out of the buffer: the payload is then read as the
  next header, and the stream is out of step.
\<close>

theorem gate_loses_framing:
  "\<exists>g c g' c'. \<not> has_target g c \<and> header_ok 2 (cn_buffer c) \<and> stream 2 (cn_buffer c) = [] \<and> gt_header_size g = 2 \<and>
     gate_feed 5 (g, c) (frame 2 [0, 9, 7]) = ((g', c'), []) \<and> stream 2 (cn_buffer c') = [0, 9, 7]"
proof -
  let ?g = "gate_create\<lparr>gt_header_size := 2\<rparr>"
  have "\<not> has_target ?g blank_connection" "header_ok 2 (cn_buffer blank_connection)"
    "stream 2 (cn_buffer blank_connection) = []"
    by (simp_all add: has_target_def gate_create_def blank_connection_def header_ok_def stream_def)
  moreover have "snd (gate_feed 5 (?g, blank_connection) (frame 2 [0, 9, 7])) = []" by code_simp
  moreover have "stream 2 (cn_buffer (snd (fst (gate_feed 5 (?g, blank_connection) (frame 2 [0, 9, 7]))))) = [0, 9, 7]"
    by code_simp
  moreover have "gt_header_size ?g = 2" by simp
  ultimately show ?thesis by (metis prod.collapse)
qed

section \<open>The connection table\<close>

definition gate_inv :: "gate \<Rightarrow> bool" where
  "gate_inv g \<longleftrightarrow> hash_inv (gt_hash g) \<and> int (length (gt_conn g)) = hi_cap (gt_hash g) \<and>
     (gt_header_size g = 2 \<or> gt_header_size g = 4) \<and>
     (\<forall>i k. slot_of (gt_hash g) i = Some k \<longrightarrow> cn_id (gt_conn g ! k) = i \<and> db_ok (cn_buffer (gt_conn g ! k))) \<and>
     (\<forall>k<length (gt_conn g). k \<notin> ran (slot_of (gt_hash g)) \<longrightarrow> gt_conn g ! k = blank_connection\<lparr>cn_id := -1\<rparr>)"

lemma readheader_total:
  assumes "db_ok b" "k = 2 \<or> k = 4"
  shows "\<exists>n b' mp'. databuffer_readheader b mp k = Some (n, b', mp') \<and> db_ok b' \<and>
    (0 \<le> n \<longrightarrow> n = db_header b' \<and> n \<le> int (length (buffered b')) \<and>
      (if db_header b = 0 then length (buffered b') + k = length (buffered b) else b' = b))"
proof (cases "db_header b = 0")
  case False
  with assms show ?thesis by (auto simp: databuffer_readheader_def db_size_buffered)
next
  case True
  show ?thesis
  proof (cases "length (buffered b) < k")
    case short: True
    with True assms show ?thesis by (simp add: databuffer_readheader_def db_size_buffered)
  next
    case False
    obtain b' mp' where r: "databuffer_read b mp k = Some (take k (buffered b), b', mp')"
      "buffered b' = drop k (buffered b)" "db_ok b'"
      using read_ok [OF assms(1), of k mp] False assms(2) by auto
    let ?b = "b'\<lparr>db_header := header_value (take k (buffered b))\<rparr>"
    have ok: "db_ok ?b" "buffered ?b = drop k (buffered b)"
      using r(2,3) by (cases "db_msgs b'"; simp add: db_ok_def buffered_def)+
    have "length (drop k (buffered b)) + k = length (buffered b)" using False by simp
    moreover have "db_size b' = int (length (buffered b)) - int k"
      using db_size_buffered [OF r(3)] r(2) False by (simp add: of_nat_diff)
    ultimately show ?thesis
      using True False assms r(1) ok by (auto simp: databuffer_readheader_def db_size_buffered Let_def)
  qed
qed

lemma forward_total:
  assumes "db_ok (cn_buffer c)" "0 < n" "n \<le> length (buffered (cn_buffer c))"
  shows "\<exists>g' c' out. forward g c n = Some (g', c', out) \<and> same_gate g g' \<and> same_conn c c' \<and>
    db_ok (cn_buffer c') \<and> length (buffered (cn_buffer c')) \<le> length (buffered (cn_buffer c))"
proof (cases "has_target g c")
  case True
  from forward_ok [OF this assms] show ?thesis by auto
next
  case False
  with assms show ?thesis by (simp add: forward_def has_target_def)
qed

lemma dispatch_loop_total:
  "db_ok (cn_buffer c) \<Longrightarrow> gt_header_size g = 2 \<or> gt_header_size g = 4 \<Longrightarrow> rounds (cn_buffer c) < fuel \<Longrightarrow>
   \<exists>g' c' out. dispatch_loop fuel g c ident = Some (g', c', out) \<and> same_gate g g' \<and> same_conn c c' \<and>
     db_ok (cn_buffer c')"
proof (induction fuel arbitrary: g c)
  case 0
  then show ?case by simp
next
  case (Suc fuel)
  obtain n b mp where b: "databuffer_readheader (cn_buffer c) (gt_mp g) (gt_header_size g) = Some (n, b, mp)"
    "db_ok b" "0 \<le> n \<Longrightarrow> n = db_header b \<and> n \<le> int (length (buffered b)) \<and>
      (if db_header (cn_buffer c) = 0 then length (buffered b) + gt_header_size g = length (buffered (cn_buffer c))
       else b = cn_buffer c)"
    using readheader_total [OF Suc.prems(1,2), of "gt_mp g"] by blast
  let ?g = "g\<lparr>gt_mp := mp\<rparr>" and ?c = "c\<lparr>cn_buffer := b\<rparr>"
  have up: "same_gate g g'" "same_conn c c'" if "same_gate ?g g'" "same_conn ?c c'" for g' c'
    using that same_trans(1) [of g ?g g'] same_trans(2) [of c ?c c'] by simp_all
  consider "n < 0" | "n = 0" | "0x1000000 \<le> n" | "0 < n" "n < 0x1000000" by linarith
  then show ?case
  proof cases
    case 1
    with b show ?thesis by simp
  next
    case 2
    have "rounds b < fuel" using b(3) 2 Suc.prems(2,3) by (auto simp: rounds_def split: if_splits)
    then obtain g' c' out where "dispatch_loop fuel ?g ?c ident = Some (g', c', out)" "same_gate ?g g'"
      "same_conn ?c c'" "db_ok (cn_buffer c')"
      using Suc.IH [of ?c ?g] b(2) Suc.prems(2) by auto
    with b(1) 2 up show ?thesis by auto
  next
    case 3
    with b(1) show ?thesis by (simp add: databuffer_clear_def)
  next
    case 4
    have "nat n \<le> length (buffered (cn_buffer ?c))" using b(3) 4(1) by (simp add: nat_le_iff)
    then obtain g2 c2 o2 where f: "forward ?g ?c (nat n) = Some (g2, c2, o2)" "same_gate ?g g2" "same_conn ?c c2"
      "db_ok (cn_buffer c2)" "length (buffered (cn_buffer c2)) \<le> length (buffered b)"
      using forward_total [of ?c "nat n" ?g] b(2) 4(1) by auto
    let ?c2 = "c2\<lparr>cn_buffer := databuffer_reset (cn_buffer c2)\<rparr>"
    have "rounds (cn_buffer ?c2) < fuel"
      using f(5) b(3) 4(1) Suc.prems(2,3) by (auto simp: rounds_def split: if_splits)
    moreover have sg: "same_gate g g2" "same_conn c ?c2" using up [OF f(2,3)] by simp_all
    ultimately obtain g' c' out where "dispatch_loop fuel g2 ?c2 ident = Some (g', c', out)" "same_gate g2 g'"
      "same_conn ?c2 c'" "db_ok (cn_buffer c')"
      using Suc.IH [of ?c2 g2] f(4) Suc.prems(2) same_gateD [OF sg(1)] by auto
    with b(1) 4 f(1) same_trans(1) [OF sg(1)] same_trans(2) [OF sg(2)] show ?thesis by auto
  qed
qed

lemma dispatch_message_total:
  assumes "db_ok (cn_buffer c)" "gt_header_size g = 2 \<or> gt_header_size g = 4"
  shows "\<exists>g' c' out. dispatch_message g c ident data = Some (g', c', out) \<and> same_gate g g' \<and> same_conn c c' \<and>
    db_ok (cn_buffer c')"
proof -
  obtain b mp where p: "databuffer_push (cn_buffer c) (gt_mp g) data = (b, mp)" by fastforce
  note pk = push_ok [OF assms(1) p]
  have "rounds b < nat (db_size b) + 2" using db_size_buffered [OF pk(1)] by (simp add: rounds_def)
  then obtain g' c' out where l: "dispatch_loop (nat (db_size b) + 2) (g\<lparr>gt_mp := mp\<rparr>) (c\<lparr>cn_buffer := b\<rparr>) ident =
      Some (g', c', out)" "same_gate (g\<lparr>gt_mp := mp\<rparr>) g'" "same_conn (c\<lparr>cn_buffer := b\<rparr>) c'" "db_ok (cn_buffer c')"
    using dispatch_loop_total [of "c\<lparr>cn_buffer := b\<rparr>" "g\<lparr>gt_mp := mp\<rparr>" "nat (db_size b) + 2" ident] pk(1) assms(2)
    by auto
  have "same_gate g g'" "same_conn c c'"
    using l(2,3) same_trans(1) [of g "g\<lparr>gt_mp := mp\<rparr>" g'] same_trans(2) [of c "c\<lparr>cn_buffer := b\<rparr>" c'] by simp_all
  with l p show ?thesis by (simp add: dispatch_message_def)
qed

text \<open>What the socket server and the other services promise about the messages they send.\<close>

definition valid_msg :: "(byte list \<Rightarrow> u32) \<Rightarrow> gate \<Rightarrow> gate_msg \<Rightarrow> bool" where
  "valid_msg query g msg \<longleftrightarrow> (case msg of
     SocketMsg source m \<Rightarrow> source = 0 \<and> sm_id m \<noteq> -1 \<and>
       (sm_type m = SockAccept \<longrightarrow> sm_id m = gt_listen_id g \<and>
          (hashid_full (gt_hash g) \<or> insertable (gt_hash g) (sm_ud m)))
   | TextMsg t \<Rightarrow> ctrl query g t \<noteq> None
   | _ \<Rightarrow> True)"

lemma gate_invD:
  assumes "gate_inv g" "slot_of (gt_hash g) i = Some k"
  shows "k < length (gt_conn g)" "cn_id (gt_conn g ! k) = i" "db_ok (cn_buffer (gt_conn g ! k))"
proof -
  have "hash_inv (gt_hash g)" using assms(1) by (simp add: gate_inv_def)
  then have "k \<in> live_nodes (gt_hash g)" using slot_of_iff assms(2) by blast
  with assms(1) show "k < length (gt_conn g)" by (auto simp: gate_inv_def live_nodes_def hash_inv_def)
  show "cn_id (gt_conn g ! k) = i" "db_ok (cn_buffer (gt_conn g ! k))"
    using assms by (auto simp: gate_inv_def)
qed

lemma gate_inv_cong:
  assumes "gate_inv g" "gt_hash g' = gt_hash g" "gt_conn g' = gt_conn g" "gt_header_size g' = gt_header_size g"
  shows "gate_inv g'"
  using assms by (simp add: gate_inv_def)

text \<open>Writing back the connection of a live slot.\<close>

lemma gate_inv_update:
  assumes inv: "gate_inv g" and k: "slot_of (gt_hash g) i = Some k" and c: "cn_id c = i" "db_ok (cn_buffer c)"
    and same: "gt_hash g' = gt_hash g" "gt_conn g' = (gt_conn g)[k := c]" "gt_header_size g' = gt_header_size g"
  shows "gate_inv g'"
  unfolding gate_inv_def same
proof (intro conjI allI impI)
  show "hash_inv (gt_hash g)" "int (length ((gt_conn g)[k := c])) = hi_cap (gt_hash g)"
    "gt_header_size g = 2 \<or> gt_header_size g = 4"
    using inv by (simp_all add: gate_inv_def)
  fix j l assume l: "slot_of (gt_hash g) j = Some l"
  have "cn_id (((gt_conn g)[k := c]) ! l) = j \<and> db_ok (cn_buffer (((gt_conn g)[k := c]) ! l))"
  proof (cases "l = k")
    case True
    then have "j = i" using slot_of_inj [OF _ l, of i] k \<open>hash_inv (gt_hash g)\<close> by simp
    with True c gate_invD(1) [OF inv k] show ?thesis by simp
  next
    case False
    with gate_invD [OF inv l] show ?thesis by simp
  qed
  then show "cn_id (((gt_conn g)[k := c]) ! l) = j" "db_ok (cn_buffer (((gt_conn g)[k := c]) ! l))" by auto
next
  fix l assume l: "l < length ((gt_conn g)[k := c])" "l \<notin> ran (slot_of (gt_hash g))"
  then have "l \<noteq> k" using k by (auto simp: ran_def)
  with l inv show "((gt_conn g)[k := c]) ! l = blank_connection\<lparr>cn_id := -1\<rparr>" by (simp add: gate_inv_def)
qed

lemma gate_socket_data:
  assumes inv: "gate_inv g" and m: "sm_type m = SockData"
  shows "\<exists>g' out. dispatch_socket_message g m = Some (g', out) \<and> gate_inv g'"
proof -
  have hk: "hash_inv (gt_hash g)" and hs: "gt_header_size g = 2 \<or> gt_header_size g = 4"
    using inv by (auto simp: gate_inv_def)
  show ?thesis
  proof (cases "slot_of (gt_hash g) (sm_id m)")
    case None
    with lookup_slot_of [OF hk] inv m show ?thesis by (simp add: dispatch_socket_message_def)
  next
    case (Some k)
    note c = gate_invD [OF inv Some]
    obtain g' c' out where d: "dispatch_message g (gt_conn g ! k) (sm_id m) (sm_buffer m) = Some (g', c', out)"
      "same_gate g g'" "same_conn (gt_conn g ! k) c'" "db_ok (cn_buffer c')"
      using dispatch_message_total [OF c(3) hs] by blast
    have "gate_inv (g'\<lparr>gt_conn := (gt_conn g')[k := c']\<rparr>)"
      by (rule gate_inv_update [OF inv Some])
        (use same_gateD [OF d(2)] same_connD [OF d(3)] c(2) d(4) in auto)
    with d(1) Some m lookup_slot_of [OF hk] show ?thesis by (simp add: dispatch_socket_message_def)
  qed
qed

lemma gate_close_socket:
  assumes inv: "gate_inv g" and m: "sm_id m \<noteq> -1"
  shows "\<exists>g' out. close_connection g m = Some (g', out) \<and> gate_inv g' \<and>
    slot_of (gt_hash g') = (slot_of (gt_hash g))(sm_id m := None)"
proof -
  have hk: "hash_inv (gt_hash g)" using inv by (simp add: gate_inv_def)
  show ?thesis
  proof (cases "slot_of (gt_hash g) (sm_id m)")
    case None
    with hashid_remove_none [OF hk None m] inv show ?thesis by (simp add: close_connection_def fun_upd_idem)
  next
    case (Some k)
    obtain h where h: "hashid_remove (gt_hash g) (sm_id m) = Some (Some k, h)" "hash_inv h"
      "slot_of h = (slot_of (gt_hash g))(sm_id m := None)" "hi_cap h = hi_cap (gt_hash g)"
      using hashid_remove_some [OF hk Some] by blast
    obtain b mp where b: "databuffer_clear (cn_buffer (gt_conn g ! k)) (gt_mp g) = (b, mp)" by fastforce
    let ?g = "g\<lparr>gt_hash := h, gt_mp := mp, gt_conn := (gt_conn g)[k := blank_connection\<lparr>cn_id := -1\<rparr>]\<rparr>"
    have k: "k < length (gt_conn g)" by (rule gate_invD(1) [OF inv Some])
    have "gate_inv ?g" unfolding gate_inv_def
    proof (intro conjI allI impI)
      show "hash_inv (gt_hash ?g)" "int (length (gt_conn ?g)) = hi_cap (gt_hash ?g)"
        "gt_header_size ?g = 2 \<or> gt_header_size ?g = 4"
        using h inv by (simp_all add: gate_inv_def)
      fix j l assume "slot_of (gt_hash ?g) j = Some l"
      then have jl: "slot_of (gt_hash g) j = Some l" "j \<noteq> sm_id m" using h(3) by (auto split: if_splits)
      then have "l \<noteq> k" using slot_of_inj [OF hk _ Some] by auto
      then show "cn_id (gt_conn ?g ! l) = j" "db_ok (cn_buffer (gt_conn ?g ! l))"
        using gate_invD [OF inv jl(1)] by simp_all
    next
      fix l assume l: "l < length (gt_conn ?g)" "l \<notin> ran (slot_of (gt_hash ?g))"
      show "gt_conn ?g ! l = blank_connection\<lparr>cn_id := -1\<rparr>"
      proof (cases "l = k")
        case False
        have "l \<notin> ran (slot_of (gt_hash g))"
        proof
          assume "l \<in> ran (slot_of (gt_hash g))"
          then obtain j where j: "slot_of (gt_hash g) j = Some l" by (auto simp: ran_def)
          then have "j \<noteq> sm_id m" using False Some by auto
          then have "slot_of (gt_hash ?g) j = Some l" using j h(3) by simp
          with l(2) show False by (auto simp: ran_def)
        qed
        with l(1) False inv show ?thesis by (simp add: gate_inv_def)
      qed (use k in simp)
    qed
    with h b show ?thesis by (simp add: close_connection_def Let_def)
  qed
qed

lemma gate_accept:
  assumes inv: "gate_inv g" and m: "sm_type m = SockAccept" "sm_id m = gt_listen_id g"
    and v: "hashid_full (gt_hash g) \<or> insertable (gt_hash g) (sm_ud m)"
  shows "\<exists>g' out. dispatch_socket_message g m = Some (g', out) \<and> gate_inv g'"
proof (cases "hashid_full (gt_hash g)")
  case True
  with inv m show ?thesis by (simp add: dispatch_socket_message_def)
next
  case False
  have hk: "hash_inv (gt_hash g)" using inv by (simp add: gate_inv_def)
  from v False obtain k h where h: "hashid_insert (gt_hash g) (sm_ud m) = Some (k, h)" "hash_inv h"
    "k \<notin> live_nodes (gt_hash g)" "k < length (hi_id (gt_hash g))"
    "slot_of h = (slot_of (gt_hash g))(sm_ud m \<mapsto> k)" "hi_cap h = hi_cap (gt_hash g)"
    using hashid_insert_ok [OF hk, of "sm_ud m"] by (auto simp: insertable_def)
  have nr: "k \<notin> ran (slot_of (gt_hash g))" using slot_of_iff [OF hk] h(3) by (auto simp: ran_def)
  have k: "k < length (gt_conn g)" using h(4) inv hk by (simp add: gate_inv_def hash_inv_def)
  have old: "gt_conn g ! k = blank_connection\<lparr>cn_id := -1\<rparr>" using inv nr k by (simp add: gate_inv_def)
  let ?c = "(gt_conn g ! k)\<lparr>cn_id := sm_ud m, cn_remote_name := cstring (take 31 (sm_text m))\<rparr>"
  let ?g = "g\<lparr>gt_hash := h, gt_conn := (gt_conn g)[k := ?c]\<rparr>"
  have new: "slot_of (gt_hash g) (sm_ud m) = None" using v False by (simp add: insertable_def)
  have "gate_inv ?g" unfolding gate_inv_def
  proof (intro conjI allI impI)
    show "hash_inv (gt_hash ?g)" "int (length (gt_conn ?g)) = hi_cap (gt_hash ?g)"
      "gt_header_size ?g = 2 \<or> gt_header_size ?g = 4"
      using h inv by (simp_all add: gate_inv_def)
    fix j l assume jl: "slot_of (gt_hash ?g) j = Some l"
    have "cn_id (gt_conn ?g ! l) = j \<and> db_ok (cn_buffer (gt_conn ?g ! l))"
    proof (cases "j = sm_ud m")
      case True
      with jl h(5) k old show ?thesis by (simp add: blank_connection_def)
    next
      case False
      with jl h(5) have o: "slot_of (gt_hash g) j = Some l" by simp
      with nr have "l \<noteq> k" by (auto simp: ran_def)
      with gate_invD [OF inv o] show ?thesis by simp
    qed
    then show "cn_id (gt_conn ?g ! l) = j" "db_ok (cn_buffer (gt_conn ?g ! l))" by auto
  next
    fix l assume l: "l < length (gt_conn ?g)" "l \<notin> ran (slot_of (gt_hash ?g))"
    then have "l \<noteq> k" "l \<notin> ran (slot_of (gt_hash g))" using h(5) new by (auto simp: ran_map_upd)
    with l(1) inv show "gt_conn ?g ! l = blank_connection\<lparr>cn_id := -1\<rparr>" by (simp add: gate_inv_def)
  qed
  with h m False show ?thesis by (simp add: dispatch_socket_message_def)
qed

lemma gate_socket_inv:
  assumes inv: "gate_inv g" and v: "valid_msg query g (SocketMsg source m)"
  shows "\<exists>g' out. dispatch_socket_message g m = Some (g', out) \<and> gate_inv g'"
proof -
  have hk: "hash_inv (gt_hash g)" using inv by (simp add: gate_inv_def)
  have id: "sm_id m \<noteq> -1" using v by (simp add: valid_msg_def)
  show ?thesis
  proof (cases "sm_type m")
    case SockData
    then show ?thesis by (rule gate_socket_data [OF inv])
  next
    case SockConnect
    with inv lookup_slot_of [OF hk, of "sm_id m"] show ?thesis
      by (cases "slot_of (gt_hash g) (sm_id m)") (simp_all add: dispatch_socket_message_def)
  next
    case SockClose
    with gate_close_socket [OF inv id] show ?thesis by (auto simp: dispatch_socket_message_def)
  next
    case SockError
    with gate_close_socket [OF inv id] show ?thesis by (auto simp: dispatch_socket_message_def)
  next
    case SockAccept
    with gate_accept [OF inv] v show ?thesis by (simp add: valid_msg_def)
  next
    case SockUdp
    with inv show ?thesis by (simp add: dispatch_socket_message_def)
  next
    case SockWarning
    with inv show ?thesis by (simp add: dispatch_socket_message_def)
  qed
qed

lemma gate_ctrl_inv:
  assumes inv: "gate_inv g" and c: "ctrl query g msg = Some (g', out)"
  shows "gate_inv g'"
proof -
  have hk: "hash_inv (gt_hash g)" using inv by (simp add: gate_inv_def)
  have fa: "gate_inv g2" if fa: "forward_agent g i a b = Some g2" for i a b g2
  proof (cases "slot_of (gt_hash g) i")
    case None
    with fa inv lookup_slot_of [OF hk] show ?thesis by (simp add: forward_agent_def)
  next
    case (Some k)
    with fa lookup_slot_of [OF hk] have g2: "g2 = g\<lparr>gt_conn := (gt_conn g)[k :=
        (gt_conn g ! k)\<lparr>cn_agent := a, cn_client := b\<rparr>]\<rparr>" by (simp add: forward_agent_def)
    show ?thesis
      by (rule gate_inv_update [OF inv Some]) (use gate_invD [OF inv Some] g2 in simp_all)
  qed
  have fw: "gate_inv g2" if "ctrl_forward g t = Some (g2, out2)" for t g2 out2
    using that fa inv by (auto simp: ctrl_forward_def Let_def split: prod.splits option.splits if_splits)
  show ?thesis
    using c fw inv by (auto simp: ctrl_def Let_def intro: gate_inv_cong split: if_splits option.splits)
qed


definition listening_gate :: gate where
  "listening_gate = gate_create\<lparr>gt_hash := hashid_init 2, gt_header_size := 2, gt_listen_id := 1,
     gt_conn := replicate (nat 2) (blank_connection\<lparr>cn_id := -1\<rparr>)\<rparr>"

lemma listening_gate_inv: "gate_inv listening_gate" "insertable (gt_hash listening_gate) 6"
proof -
  have i: "hi_cap (hashid_init 2) = 2" "hi_count (hashid_init 2) = 0" by (simp_all add: hashid_init_def Let_def)
  then show "gate_inv listening_gate" "insertable (gt_hash listening_gate) 6"
    using hashid_init_inv [of 2]
    by (simp_all add: gate_inv_def listening_gate_def insertable_def hashid_full_def INT_MAX_def nth_replicate [of _ 2, simplified])
qed


end
