(* ===== verification/Netpack.thy ===== *)
theory Netpack
  imports Framing Ring
begin

text \<open>
  \<open>lualib-src/mtask_lua_netpack.c\<close>: the package filter of the Lua gates. One queue object
  serves all sockets: a hash table of the packages still incomplete, one chain per bucket,
  and a ring buffer of the complete ones that grows by 1024 entries when it fills up. The
  queue is \<open>None\<close> until the first package arrives. A read outside a buffer or a failed
  \<open>assert\<close> is \<open>None\<close>.
\<close>

section \<open>Data\<close>

definition QUEUESIZE :: nat where "QUEUESIZE = 1024"
definition HASHSIZE :: nat where "HASHSIZE = 4096"

record netpack =
  np_id :: int
  np_size :: int
  np_buffer :: "byte list"

text \<open>\<open>uc_buffer\<close> holds the bytes received so far; \<open>uc_read\<close> is -1 when only the first
  byte of the header, \<open>uc_header\<close>, has arrived.\<close>

record uncomplete =
  uc_id :: int
  uc_size :: int
  uc_buffer :: "byte list"
  uc_read :: int
  uc_header :: byte

record queue =
  nq_cap :: nat
  nq_head :: nat
  nq_tail :: nat
  nq_hash :: "nat \<Rightarrow> uncomplete list"
  nq_queue :: "netpack list"

definition blank_netpack :: netpack where
  "blank_netpack = \<lparr>np_id = 0, np_size = 0, np_buffer = []\<rparr>"

datatype filter_result =
    FNone
  | FData int "byte list"
  | FMore
  | FError int "byte list"
  | FOpen int "byte list"
  | FClose int
  | FWarning int int

section \<open>The queue\<close>

definition new_queue :: queue where
  "new_queue = \<lparr>nq_cap = QUEUESIZE, nq_head = 0, nq_tail = 0, nq_hash = (\<lambda>_. []),
     nq_queue = replicate QUEUESIZE blank_netpack\<rparr>"

definition get_queue :: "queue option \<Rightarrow> queue" where
  "get_queue q = (case q of None \<Rightarrow> new_queue | Some q' \<Rightarrow> q')"

definition np_expand_queue :: "queue \<Rightarrow> queue" where
  "np_expand_queue q =
     q\<lparr>nq_cap := nq_cap q + QUEUESIZE, nq_head := 0, nq_tail := nq_cap q,
       nq_queue := map (\<lambda>i. nq_queue q ! ((nq_head q + i) mod nq_cap q)) [0..<nq_cap q] @
                   replicate QUEUESIZE blank_netpack\<rparr>"

definition np_enqueue :: "queue \<Rightarrow> netpack \<Rightarrow> queue" where
  "np_enqueue q np =
     (let t = nq_tail q + 1;
          q' = q\<lparr>nq_queue := (nq_queue q)[nq_tail q := np],
                 nq_tail := (if nq_cap q \<le> t then t - nq_cap q else t)\<rparr>
      in if nq_head q' = nq_tail q' then np_expand_queue q' else q')"

definition push_data :: "queue option \<Rightarrow> int \<Rightarrow> byte list \<Rightarrow> queue option" where
  "push_data q fd buffer =
     Some (np_enqueue (get_queue q) \<lparr>np_id = fd, np_size = int (length buffer), np_buffer = buffer\<rparr>)"

definition lpop :: "queue \<Rightarrow> netpack option \<times> queue" where
  "lpop q =
     (if nq_head q = nq_tail q then (None, q)
      else
        let h = nq_head q + 1 in
        (Some (nq_queue q ! nq_head q), q\<lparr>nq_head := (if nq_cap q \<le> h then 0 else h)\<rparr>))"

text \<open>\<open>lclear\<close>: the queue afterwards and the buffers it freed from the ring.\<close>

definition lclear :: "queue option \<Rightarrow> queue option \<times> byte list list" where
  "lclear q = (case q of
     None \<Rightarrow> (None, [])
   | Some q' \<Rightarrow>
       let tl = (if nq_tail q' < nq_head q' then nq_tail q' + nq_cap q' else nq_tail q') in
       (Some (q'\<lparr>nq_hash := (\<lambda>_. []), nq_head := 0, nq_tail := 0\<rparr>),
        map (\<lambda>i. np_buffer (nq_queue q' ! (i mod nq_cap q'))) [nq_head q'..<tl]))"

section \<open>Incomplete packages\<close>

text \<open>The C \<open>int\<close> sum wraps and is then read as unsigned.\<close>

definition hash_fd :: "int \<Rightarrow> nat" where
  "hash_fd fd =
     (let w = (word_of_int fd :: u32);
          a = signed_drop_bit 24 w; b = signed_drop_bit 12 w
      in unat (a + b + w) mod HASHSIZE)"

fun unlink_uncomplete :: "uncomplete list \<Rightarrow> int \<Rightarrow> (uncomplete \<times> uncomplete list) option" where
  "unlink_uncomplete [] fd = None"
| "unlink_uncomplete (uc # ucs) fd =
     (if uc_id uc = fd then Some (uc, ucs)
      else (case unlink_uncomplete ucs fd of
          None \<Rightarrow> None
        | Some (u, rest) \<Rightarrow> Some (u, uc # rest)))"

definition find_uncomplete :: "queue option \<Rightarrow> int \<Rightarrow> (uncomplete \<times> queue option) option" where
  "find_uncomplete q fd = (case q of
     None \<Rightarrow> None
   | Some q' \<Rightarrow> (case unlink_uncomplete (nq_hash q' (hash_fd fd)) fd of
       None \<Rightarrow> None
     | Some (uc, rest) \<Rightarrow> Some (uc, Some (q'\<lparr>nq_hash := (nq_hash q')(hash_fd fd := rest)\<rparr>))))"

definition link_uncomplete :: "queue \<Rightarrow> uncomplete \<Rightarrow> queue" where
  "link_uncomplete q uc =
     q\<lparr>nq_hash := (nq_hash q)(hash_fd (uc_id uc) := uc # nq_hash q (hash_fd (uc_id uc)))\<rparr>"

text \<open>\<open>save_uncomplete\<close>, with the fields its callers then set.\<close>

definition save_header :: "queue option \<Rightarrow> int \<Rightarrow> byte \<Rightarrow> queue option" where
  "save_header q fd b = Some (link_uncomplete (get_queue q)
     \<lparr>uc_id = fd, uc_size = 0, uc_buffer = [], uc_read = -1, uc_header = b\<rparr>)"

definition save_data :: "queue option \<Rightarrow> int \<Rightarrow> int \<Rightarrow> byte list \<Rightarrow> queue option" where
  "save_data q fd pack_size buffer = Some (link_uncomplete (get_queue q)
     \<lparr>uc_id = fd, uc_size = pack_size, uc_buffer = buffer, uc_read = int (length buffer), uc_header = 0\<rparr>)"

definition close_uncomplete :: "queue option \<Rightarrow> int \<Rightarrow> queue option" where
  "close_uncomplete q fd = (case find_uncomplete q fd of None \<Rightarrow> q | Some (uc, q') \<Rightarrow> q')"

section \<open>Filtering\<close>

definition read_size :: "byte \<Rightarrow> byte \<Rightarrow> int" where
  "read_size a b = uint (push_bit 8 (ucast a) OR ucast b :: u32)"

function push_more :: "queue option \<Rightarrow> int \<Rightarrow> byte list \<Rightarrow> queue option option" where
  "push_more q fd [] = None"
| "push_more q fd [b] = Some (save_header q fd b)"
| "push_more q fd (a # b # buffer) =
     (let pack_size = read_size a b in
      if int (length buffer) < pack_size then Some (save_data q fd pack_size buffer)
      else
        let q' = push_data q fd (take (nat pack_size) buffer);
            rest = drop (nat pack_size) buffer
        in if rest \<noteq> [] then push_more q' fd rest else Some q')"
  by pat_completeness auto
termination by (relation "measure (\<lambda>(q, fd, bs). length bs)") auto

declare push_more.simps(3) [simp del]

text \<open>\<open>filter_data_\<close> on a found entry, after a second header byte has been taken in.\<close>

definition fill_uncomplete :: "queue option \<Rightarrow> int \<Rightarrow> uncomplete \<Rightarrow> byte list
    \<Rightarrow> (queue option \<times> filter_result) option" where
  "fill_uncomplete q fd uc buffer =
     (let need = uc_size uc - uc_read uc in
      if int (length buffer) < need then
        (case q of
           None \<Rightarrow> None
         | Some q' \<Rightarrow> Some (Some (link_uncomplete q'
             (uc\<lparr>uc_buffer := uc_buffer uc @ buffer, uc_read := uc_read uc + int (length buffer)\<rparr>)), FNone))
      else
        let whole = uc_buffer uc @ take (nat need) buffer; rest = drop (nat need) buffer in
        if rest = [] then Some (q, FData fd whole)
        else (case push_more (push_data q fd whole) fd rest of
            None \<Rightarrow> None
          | Some q' \<Rightarrow> Some (q', FMore)))"

definition filter_data :: "queue option \<Rightarrow> int \<Rightarrow> byte list \<Rightarrow> (queue option \<times> filter_result) option" where
  "filter_data q fd buffer = (case find_uncomplete q fd of
     Some (uc, q') \<Rightarrow>
       if uc_read uc < 0 then
         (if uc_read uc \<noteq> -1 then None
          else (case buffer of
             [] \<Rightarrow> None
           | b # rest \<Rightarrow>
               fill_uncomplete q' fd (uc\<lparr>uc_size := read_size (uc_header uc) b, uc_buffer := [], uc_read := 0\<rparr>) rest))
       else fill_uncomplete q' fd uc buffer
   | None \<Rightarrow>
       (case buffer of
          [] \<Rightarrow> None
        | [b] \<Rightarrow> Some (save_header q fd b, FNone)
        | a # b # rest \<Rightarrow>
            let pack_size = read_size a b in
            if int (length rest) < pack_size then Some (save_data q fd pack_size rest, FNone)
            else if int (length rest) = pack_size then Some (q, FData fd rest)
            else (case push_more (push_data q fd (take (nat pack_size) rest)) fd (drop (nat pack_size) rest) of
                None \<Rightarrow> None
              | Some q' \<Rightarrow> Some (q', FMore))))"

datatype np_socket_msg =
    NData int "byte list"
  | NConnect
  | NClose int
  | NAccept int "byte list"
  | NError int "byte list"
  | NWarning int int
  | NOther

definition lfilter :: "queue option \<Rightarrow> np_socket_msg \<Rightarrow> (queue option \<times> filter_result) option" where
  "lfilter q m = (case m of
     NData fd buffer \<Rightarrow> filter_data q fd buffer
   | NConnect \<Rightarrow> Some (q, FNone)
   | NClose fd \<Rightarrow> Some (close_uncomplete q fd, FClose fd)
   | NAccept fd addr \<Rightarrow> Some (q, FOpen fd addr)
   | NError fd msg \<Rightarrow> Some (close_uncomplete q fd, FError fd msg)
   | NWarning fd k \<Rightarrow> Some (q, FWarning fd k)
   | NOther \<Rightarrow> Some (q, FNone))"

section \<open>Packing\<close>

definition write_size :: "nat \<Rightarrow> byte list" where
  "write_size len = [octet 8 (of_nat len :: u32), octet 0 (of_nat len :: u32)]"

definition lpack :: "byte list \<Rightarrow> byte list option" where
  "lpack msg =
     (if 0x10000 < length msg then None
      else Some (write_size (length msg) @ msg))"

definition ltostring :: "byte list option \<Rightarrow> nat \<Rightarrow> byte list" where
  "ltostring ptr sz = (case ptr of None \<Rightarrow> [] | Some bs \<Rightarrow> take sz bs)"

section \<open>The ring is a queue\<close>

definition np_inv :: "queue \<Rightarrow> bool" where
  "np_inv q \<longleftrightarrow> ring_ok (nq_queue q) (nq_cap q) (nq_head q) (nq_tail q)"

definition np_contents :: "queue \<Rightarrow> netpack list" where
  "np_contents q = ring_list (nq_queue q) (nq_cap q) (nq_head q) (nq_tail q)"

lemma np_enqueue_hash [simp]: "nq_hash (np_enqueue q x) = nq_hash q"
  by (simp add: np_enqueue_def np_expand_queue_def Let_def)

lemma lpop_hash [simp]: "nq_hash (snd (lpop q)) = nq_hash q"
  by (simp add: lpop_def Let_def)

lemma wrap_tail: "t < c \<Longrightarrow> (if c \<le> Suc t then Suc t - c else Suc t) = ring_next c t"
  by (auto simp: ring_next_def)

lemma np_enqueue_cases:
  assumes "np_inv q"
  shows "np_inv (np_enqueue q x) \<and> np_contents (np_enqueue q x) = np_contents q @ [x]"
proof -
  note ok = assms [unfolded np_inv_def]
  have t: "nq_tail q < nq_cap q" "0 < QUEUESIZE" using ok by (auto simp: ring_ok_def QUEUESIZE_def)
  show ?thesis
  proof (cases "nq_head q = ring_next (nq_cap q) (nq_tail q)")
    case True
    with ring_grow [OF ok True, of x "replicate QUEUESIZE blank_netpack" QUEUESIZE] t ok show ?thesis
      by (simp add: np_contents_def np_inv_def np_enqueue_def np_expand_queue_def Let_def wrap_tail ring_ok_def)
  next
    case False
    with ring_push [OF ok False, of x] t ring_next_less [OF t(1)] ok show ?thesis
      by (simp add: np_contents_def np_inv_def np_enqueue_def Let_def wrap_tail ring_ok_def)
  qed
qed

interpretation packages: fifo np_inv np_contents np_enqueue lpop
proof
  fix q x
  assume inv: "np_inv q"
  show "np_inv (np_enqueue q x)" "np_contents (np_enqueue q x) = np_contents q @ [x]"
    using np_enqueue_cases [OF inv] by auto
  note ok = inv [unfolded np_inv_def]
  have "np_inv (snd (lpop q)) \<and>
    fst (lpop q) = (case np_contents q of [] \<Rightarrow> None | y # _ \<Rightarrow> Some y) \<and>
    np_contents (snd (lpop q)) = tl (np_contents q)"
  proof (cases "nq_head q = nq_tail q")
    case True
    with inv show ?thesis by (simp add: lpop_def np_contents_def)
  next
    case False
    with ring_pop [OF ok False] ok ring_next_less [of "nq_head q" "nq_cap q"] show ?thesis
      by (simp add: lpop_def np_contents_def np_inv_def ring_ok_def ring_next_def [symmetric] Let_def
          del: One_nat_def)
  qed
  then show "np_inv (snd (lpop q))"
    and "fst (lpop q) = (case np_contents q of [] \<Rightarrow> None | y # _ \<Rightarrow> Some y)"
    and "np_contents (snd (lpop q)) = tl (np_contents q)"
    by blast+
qed

end
