(* ===== verification/Netpack_Stream.thy ===== *)
theory Netpack_Stream
  imports Netpack
begin

text \<open>
  The package filter against the stream specification: the packages of every socket come
  out complete and in order, whatever the interleaving of the sockets and the cutting of
  their streams.
\<close>

declare be_nat_simps [simp del]

section \<open>The table of incomplete packages\<close>

definition PACK_LIMIT :: nat where "PACK_LIMIT = 0x10000"

definition uc_ok :: "uncomplete \<Rightarrow> bool" where
  "uc_ok u \<longleftrightarrow> (if uc_read u = -1 then uc_buffer u = []
     else uc_read u = int (length (uc_buffer u)) \<and> uc_read u < uc_size u \<and> uc_size u < 0x10000)"

text \<open>The bytes of the stream an entry stands for.\<close>

definition uc_view :: "uncomplete \<Rightarrow> byte list" where
  "uc_view u = (if uc_read u = -1 then [uc_header u] else be_bytes 2 (nat (uc_size u)) @ uc_buffer u)"

definition table_ok :: "queue \<Rightarrow> bool" where
  "table_ok q \<longleftrightarrow> (\<forall>h. distinct (map uc_id (nq_hash q h)) \<and>
     (\<forall>u\<in>set (nq_hash q h). hash_fd (uc_id u) = h \<and> uc_ok u))"

definition entry :: "queue \<Rightarrow> int \<Rightarrow> uncomplete option" where
  "entry q fd = find (\<lambda>u. uc_id u = fd) (nq_hash q (hash_fd fd))"

definition pend :: "queue \<Rightarrow> int \<Rightarrow> byte list" where
  "pend q fd = (case entry q fd of None \<Rightarrow> [] | Some u \<Rightarrow> uc_view u)"

definition packet_queue_ok :: "queue option \<Rightarrow> bool" where
  "packet_queue_ok q \<longleftrightarrow> np_inv (get_queue q) \<and> table_ok (get_queue q)"

definition pack :: "int \<Rightarrow> byte list \<Rightarrow> netpack" where
  "pack fd bs = \<lparr>np_id = fd, np_size = int (length bs), np_buffer = bs\<rparr>"

lemma get_queue_Some [simp]: "get_queue (Some q) = q"
  by (simp add: get_queue_def)

lemma uc_view_ne [simp]: "uc_view u \<noteq> []"
  by (simp add: uc_view_def)

lemma pend_Nil: "pend q fd = [] \<longleftrightarrow> entry q fd = None"
  by (simp add: pend_def split: option.split)

lemma new_queue_ok [simp]: "packet_queue_ok None" "np_contents (get_queue None) = []" "entry (get_queue None) fd = None"
  by (simp_all add: packet_queue_ok_def get_queue_def new_queue_def np_inv_def table_ok_def ring_ok_def QUEUESIZE_def
      np_contents_def entry_def)

lemma unlink_find:
  "distinct (map uc_id ucs) \<Longrightarrow>
   unlink_uncomplete ucs fd = map_option (\<lambda>u. (u, filter (\<lambda>u. uc_id u \<noteq> fd) ucs)) (find (\<lambda>u. uc_id u = fd) ucs)"
proof (induction ucs)
  case Nil
  then show ?case by simp
next
  case (Cons u ucs)
  show ?case
  proof (cases "uc_id u = fd")
    case True
    with Cons.prems have "\<forall>x\<in>set ucs. uc_id x \<noteq> fd" by auto (metis imageI)
    then have "filter (\<lambda>u. uc_id u \<noteq> fd) ucs = ucs" by (simp add: filter_True)
    with True show ?thesis by simp
  next
    case False
    with Cons show ?thesis by (auto split: option.split)
  qed
qed

lemma find_filter_other:
  "g \<noteq> fd \<Longrightarrow> find (\<lambda>u. uc_id u = g) (filter (\<lambda>u. uc_id u \<noteq> fd) us) = find (\<lambda>u. uc_id u = g) us"
  by (induction us) auto

lemma find_filter_same: "find (\<lambda>u. uc_id u = fd) (filter (\<lambda>u. uc_id u \<noteq> fd) us) = None"
  by (induction us) auto

lemma take_entry:
  assumes ok: "packet_queue_ok q"
  shows "case find_uncomplete q fd of
      None \<Rightarrow> entry (get_queue q) fd = None
    | Some (uc, q') \<Rightarrow> entry (get_queue q) fd = Some uc \<and> uc_id uc = fd \<and> uc_ok uc \<and> packet_queue_ok q' \<and> q' \<noteq> None \<and>
        np_contents (get_queue q') = np_contents (get_queue q) \<and>
        pend (get_queue q') = (pend (get_queue q))(fd := [])"
proof (cases q)
  case None
  then show ?thesis by (simp add: find_uncomplete_def)
next
  case (Some p)
  let ?h = "hash_fd fd"
  have t: "table_ok p" "np_inv p" using ok Some by (simp_all add: packet_queue_ok_def)
  have u: "unlink_uncomplete (nq_hash p ?h) fd =
      map_option (\<lambda>u. (u, filter (\<lambda>u. uc_id u \<noteq> fd) (nq_hash p ?h))) (entry p fd)"
    unfolding entry_def using t(1) by (intro unlink_find) (simp add: table_ok_def)
  show ?thesis
  proof (cases "entry p fd")
    case None
    with u Some show ?thesis by (simp add: find_uncomplete_def)
  next
    case e: (Some uc)
    let ?p = "p\<lparr>nq_hash := (nq_hash p)(?h := filter (\<lambda>u. uc_id u \<noteq> fd) (nq_hash p ?h))\<rparr>"
    have mem: "uc \<in> set (nq_hash p ?h)" "uc_id uc = fd"
      using e by (auto simp: entry_def find_Some_iff)
    have "table_ok ?p" using t(1) by (auto simp: table_ok_def distinct_map_filter)
    moreover have "np_inv ?p" "np_contents ?p = np_contents p" using t(2) by (simp_all add: np_inv_def np_contents_def)
    moreover have "entry ?p g = (if g = fd then None else entry p g)" for g
      by (simp add: entry_def find_filter_other find_filter_same)
    then have "pend ?p g = ((pend p)(fd := [])) g" for g by (simp add: pend_def)
    then have "pend ?p = (pend p)(fd := [])" by blast
    moreover have "uc_ok uc" using mem t(1) by (auto simp: table_ok_def)
    ultimately show ?thesis using u e Some mem(2) by (simp add: find_uncomplete_def packet_queue_ok_def)
  qed
qed

lemma link_entry:
  assumes ok: "np_inv q" "table_ok q" and new: "entry q (uc_id uc) = None" and u: "uc_ok uc"
  shows "np_inv (link_uncomplete q uc) \<and> table_ok (link_uncomplete q uc) \<and>
    np_contents (link_uncomplete q uc) = np_contents q \<and>
    pend (link_uncomplete q uc) = (pend q)(uc_id uc := uc_view uc)"
proof -
  let ?h = "hash_fd (uc_id uc)"
  have "uc_id uc \<notin> uc_id ` set (nq_hash q ?h)"
    using new by (auto simp: entry_def find_None_iff)
  then have "table_ok (link_uncomplete q uc)"
    using ok(2) u by (auto simp: table_ok_def link_uncomplete_def)
  moreover have "entry (link_uncomplete q uc) g = (if g = uc_id uc then Some uc else entry q g)" for g
    by (simp add: entry_def link_uncomplete_def)
  then have "pend (link_uncomplete q uc) g = ((pend q)(uc_id uc := uc_view uc)) g" for g by (simp add: pend_def)
  then have "pend (link_uncomplete q uc) = (pend q)(uc_id uc := uc_view uc)" by blast
  ultimately show ?thesis using ok(1) by (simp add: link_uncomplete_def np_inv_def np_contents_def)
qed

lemma push_data_ok:
  assumes "packet_queue_ok q"
  shows "packet_queue_ok (push_data q fd bs) \<and>
    np_contents (get_queue (push_data q fd bs)) = np_contents (get_queue q) @ [pack fd bs] \<and>
    pend (get_queue (push_data q fd bs)) = pend (get_queue q) \<and>
    entry (get_queue (push_data q fd bs)) = entry (get_queue q)"
  using np_enqueue_cases [of "get_queue q" "pack fd bs"] assms
  by (auto simp: push_data_def packet_queue_ok_def pack_def table_ok_def pend_def entry_def fun_eq_iff)

lemma save_ok:
  assumes "packet_queue_ok q" "entry (get_queue q) fd = None"
  shows "packet_queue_ok (save_header q fd b) \<and> np_contents (get_queue (save_header q fd b)) = np_contents (get_queue q) \<and>
      pend (get_queue (save_header q fd b)) = (pend (get_queue q))(fd := [b])"
    and "n < 0x10000 \<Longrightarrow> length bs < n \<Longrightarrow> packet_queue_ok (save_data q fd (int n) bs) \<and>
      np_contents (get_queue (save_data q fd (int n) bs)) = np_contents (get_queue q) \<and>
      pend (get_queue (save_data q fd (int n) bs)) = (pend (get_queue q))(fd := be_bytes 2 n @ bs)"
  using assms
    link_entry [of "get_queue q" "\<lparr>uc_id = fd, uc_size = 0, uc_buffer = [], uc_read = -1, uc_header = b\<rparr>"]
    link_entry [of "get_queue q"
      "\<lparr>uc_id = fd, uc_size = int n, uc_buffer = bs, uc_read = int (length bs), uc_header = 0\<rparr>"]
  by (simp_all add: save_header_def save_data_def packet_queue_ok_def uc_ok_def uc_view_def)

section \<open>Filtering implements the specification\<close>

lemma read_size_be: "read_size a b = int (be_nat [a, b])"
proof -
  have "(push_bit 8 (ucast a) OR ucast b :: u32) = un_be32 [0, 0, a, b]" by (simp add: un_be32_def)
  moreover have "unat (un_be32 [0, 0, a, b]) = be_nat [a, b]" by (simp add: unat_un_be32 be_nat_simps)
  ultimately show ?thesis unfolding read_size_def by (metis uint_nat)
qed

lemma be_nat_two: "be_nat [a, b] < PACK_LIMIT"
  using be_nat_bound [of "[a, b]"] by (simp add: PACK_LIMIT_def)

text \<open>The three things a stream of at least two bytes can start with.\<close>

lemma deframe_two:
  assumes "deframe 2 PACK_LIMIT (a # b # bs) = (fs, r, False)"
  shows "if length bs < be_nat [a, b] then fs = [] \<and> r = a # b # bs
    else \<exists>fs1. deframe 2 PACK_LIMIT (drop (be_nat [a, b]) bs) = (fs1, r, False) \<and>
      fs = take (be_nat [a, b]) bs # fs1"
proof -
  let ?n = "be_nat [a, b]"
  have t: "take 2 (a # b # bs) = [a, b]" "drop (2 + ?n) (a # b # bs) = drop ?n bs" "drop 2 (a # b # bs) = bs"
    by (simp_all add: numeral_2_eq_2)
  show ?thesis
  proof (cases "length bs < ?n")
    case True
    with assms deframe_wait [of 2 "a # b # bs" PACK_LIMIT] be_nat_two [of a b] show ?thesis
      unfolding t by simp
  next
    case False
    with deframe_step [of 2 "a # b # bs" PACK_LIMIT] be_nat_two [of a b] assms show ?thesis
      unfolding t by (auto simp: Let_def split: prod.splits)
  qed
qed

lemma be_bytes_two: "be_bytes 2 (be_nat [a, b]) = [a, b]"
  by (rule be_bytes_be_nat) simp

lemma push_more_ok:
  "packet_queue_ok q \<Longrightarrow> entry (get_queue q) fd = None \<Longrightarrow> bs \<noteq> [] \<Longrightarrow> deframe 2 PACK_LIMIT bs = (fs, r, False) \<Longrightarrow>
   \<exists>q'. push_more q fd bs = Some q' \<and> packet_queue_ok q' \<and>
     np_contents (get_queue q') = np_contents (get_queue q) @ map (pack fd) fs \<and>
     pend (get_queue q') = (pend (get_queue q))(fd := r) \<and> q' \<noteq> None"
proof (induction q fd bs arbitrary: fs rule: push_more.induct)
  case (1 q fd)
  then show ?case by simp
next
  case (2 q fd b)
  then have "fs = []" "r = [b]" by (auto simp: deframe_short)
  with save_ok(1) [OF 2(1,2), of b] show ?case
    by (intro exI [of _ "save_header q fd b"]) (simp add: save_header_def)
next
  case (3 q fd a b bs)
  let ?n = "be_nat [a, b]"
  note cut = deframe_two [OF 3(5)]
  show ?case
  proof (cases "length bs < ?n")
    case True
    with cut save_ok(2) [OF 3(2,3) _ True] be_nat_two [of a b] show ?thesis
      by (intro exI [of _ "save_data q fd (int (be_nat [a, b])) bs"])
        (simp add: push_more.simps(3) read_size_be be_bytes_two PACK_LIMIT_def save_data_def)
  next
    case False
    with cut obtain fs1 where d: "deframe 2 PACK_LIMIT (drop ?n bs) = (fs1, r, False)"
      and fs: "fs = take ?n bs # fs1" by auto
    let ?q = "push_data q fd (take ?n bs)"
    note pd = push_data_ok [OF 3(2), of fd "take ?n bs"]
    show ?thesis
    proof (cases "drop ?n bs = []")
      case True
      with d have "fs1 = []" "r = []" by auto
      moreover have "push_more q fd (a # b # bs) = Some ?q"
        using False True by (simp add: push_more.simps(3) read_size_be Let_def)
      moreover have "(pend (get_queue q))(fd := []) = pend (get_queue q)"
        using 3(3) by (simp add: fun_upd_idem pend_Nil)
      ultimately show ?thesis using pd fs by (simp add: push_data_def)
    next
      case ne: False
      have "\<not> int (length bs) < read_size a b" using False by (simp add: read_size_be)
      from "3.IH" [OF refl this refl refl] ne pd 3(3) d obtain q' where
        IH: "push_more ?q fd (drop ?n bs) = Some q'" "packet_queue_ok q'"
          "np_contents (get_queue q') = np_contents (get_queue ?q) @ map (pack fd) fs1"
          "pend (get_queue q') = (pend (get_queue ?q))(fd := r)" "q' \<noteq> None"
        by (simp only: read_size_be nat_int) blast
      moreover have "push_more q fd (a # b # bs) = push_more ?q fd (drop ?n bs)"
        using False ne by (subst push_more.simps(3)) (simp add: read_size_be Let_def)
      moreover have "np_contents (get_queue q') = np_contents (get_queue q) @ map (pack fd) fs"
        unfolding IH(3) fs using pd by simp
      moreover have "pend (get_queue q') = (pend (get_queue q))(fd := r)" unfolding IH(4) using pd by metis
      ultimately show ?thesis by metis
    qed
  qed
qed

text \<open>What a call of the filter promises, given what the specification cuts off.\<close>

definition promise :: "queue option \<Rightarrow> int \<Rightarrow> byte list list \<Rightarrow> byte list \<Rightarrow> (queue option \<times> filter_result) option \<Rightarrow> bool"
  where "promise q fd fs r res \<longleftrightarrow> (\<exists>q' f. res = Some (q', f) \<and> packet_queue_ok q' \<and>
    pend (get_queue q') = (pend (get_queue q))(fd := r) \<and>
    (f = FNone \<and> fs = [] \<and> np_contents (get_queue q') = np_contents (get_queue q) \<or>
     (\<exists>p. f = FData fd p \<and> fs = [p] \<and> np_contents (get_queue q') = np_contents (get_queue q)) \<or>
     f = FMore \<and> q' \<noteq> None \<and> np_contents (get_queue q') = np_contents (get_queue q) @ map (pack fd) fs))"

lemma rest_promise:
  assumes ok: "packet_queue_ok q" "entry (get_queue q) fd = None"
    and d: "deframe 2 PACK_LIMIT rest = (fs1, r, False)"
  shows "promise q fd (p # fs1) r
    (if rest = [] then Some (q, FData fd p)
     else (case push_more (push_data q fd p) fd rest of None \<Rightarrow> None | Some q' \<Rightarrow> Some (q', FMore)))"
proof (cases "rest = []")
  case True
  with d have "fs1 = []" "r = []" by auto
  moreover have "(pend (get_queue q))(fd := []) = pend (get_queue q)" using ok(2) by (simp add: fun_upd_idem pend_Nil)
  ultimately show ?thesis using True ok by (simp add: promise_def)
next
  case False
  note pd = push_data_ok [OF ok(1), of fd p]
  then obtain q' where "push_more (push_data q fd p) fd rest = Some q'" "packet_queue_ok q'" "q' \<noteq> None"
    "np_contents (get_queue q') = np_contents (get_queue (push_data q fd p)) @ map (pack fd) fs1"
    "pend (get_queue q') = (pend (get_queue (push_data q fd p)))(fd := r)"
    using push_more_ok [of "push_data q fd p" fd rest fs1 r] ok(2) False d by auto
  with pd False show ?thesis by (simp add: promise_def)
qed

lemma fill_promise:
  assumes ok: "packet_queue_ok q" "entry (get_queue q) fd = None" "q \<noteq> None"
    and u: "uc_id uc = fd" "uc_read uc = int (length (uc_buffer uc))" "uc_read uc \<le> uc_size uc"
      "uc_size uc = int (be_nat [a, b])"
    and d: "deframe 2 PACK_LIMIT (a # b # uc_buffer uc @ bs) = (fs, r, False)"
  shows "promise q fd fs r (fill_uncomplete q fd uc bs)"
proof -
  let ?n = "be_nat [a, b]" and ?m = "length (uc_buffer uc)"
  have m: "?m \<le> ?n" using u by simp
  have need: "nat (uc_size uc - uc_read uc) = ?n - ?m" using u m by (simp add: nat_diff_distrib)
  note cut = deframe_two [OF d]
  show ?thesis
  proof (cases "length bs < ?n - ?m")
    case True
    obtain p where p: "q = Some p" using ok(3) by auto
    let ?uc = "uc\<lparr>uc_buffer := uc_buffer uc @ bs, uc_read := uc_read uc + int (length bs)\<rparr>"
    have "uc_ok ?uc" using u True be_nat_two [of a b] by (simp add: uc_ok_def PACK_LIMIT_def)
    then have l: "np_inv (link_uncomplete p ?uc) \<and> table_ok (link_uncomplete p ?uc) \<and>
        np_contents (link_uncomplete p ?uc) = np_contents p \<and>
        pend (link_uncomplete p ?uc) = (pend p)(fd := uc_view ?uc)"
      using link_entry [of p ?uc] ok p u(1) by (simp add: packet_queue_ok_def)
    have "uc_view ?uc = a # b # uc_buffer uc @ bs"
      using u be_bytes_two [of a b] by (simp add: uc_view_def)
    moreover have "fs = []" "r = a # b # uc_buffer uc @ bs" using cut True m by (auto split: if_splits)
    moreover have lt: "int (length bs) < uc_size uc - uc_read uc" using True u m by linarith
    have "fill_uncomplete q fd uc bs = Some (Some (link_uncomplete p ?uc), FNone)"
      by (simp only: fill_uncomplete_def Let_def if_P [OF lt] p option.case)
    ultimately show ?thesis using l p by (simp add: promise_def packet_queue_ok_def)
  next
    case False
    then have len: "\<not> length (uc_buffer uc @ bs) < ?n" using m by simp
    have t: "take ?n (uc_buffer uc @ bs) = uc_buffer uc @ take (?n - ?m) bs"
      "drop ?n (uc_buffer uc @ bs) = drop (?n - ?m) bs" using m by simp_all
    from cut len obtain fs1 where d1: "deframe 2 PACK_LIMIT (drop (?n - ?m) bs) = (fs1, r, False)"
      and fs: "fs = (uc_buffer uc @ take (?n - ?m) bs) # fs1" unfolding t by auto
    have "\<not> int (length bs) < uc_size uc - uc_read uc" using False u m by linarith
    then have "fill_uncomplete q fd uc bs =
      (if drop (?n - ?m) bs = [] then Some (q, FData fd (uc_buffer uc @ take (?n - ?m) bs))
       else (case push_more (push_data q fd (uc_buffer uc @ take (?n - ?m) bs)) fd (drop (?n - ?m) bs) of
           None \<Rightarrow> None | Some q' \<Rightarrow> Some (q', FMore)))"
      by (simp only: fill_uncomplete_def Let_def need if_False)
    with rest_promise [OF ok(1,2) d1] fs show ?thesis by simp
  qed
qed

lemma promise_via:
  "promise q' fd fs r res \<Longrightarrow> pend (get_queue q') = (pend (get_queue q))(fd := []) \<Longrightarrow>
   np_contents (get_queue q') = np_contents (get_queue q) \<Longrightarrow> promise q fd fs r res"
  by (simp add: promise_def)

lemma filter_promise:
  assumes ok: "packet_queue_ok q" and bs: "bs \<noteq> []"
    and d: "deframe 2 PACK_LIMIT (pend (get_queue q) fd @ bs) = (fs, r, False)"
  shows "promise q fd fs r (filter_data q fd bs)"
proof (cases "find_uncomplete q fd")
  case None
  then have e: "entry (get_queue q) fd = None" using take_entry [OF ok, of fd] by simp
  have d: "deframe 2 PACK_LIMIT bs = (fs, r, False)" using d e by (simp add: pend_def)
  consider b where "bs = [b]" | a b rest where "bs = a # b # rest"
    using bs by (metis list.exhaust)
  then show ?thesis
  proof cases
    case 1
    with d have "fs = []" "r = [b]" by (auto simp: deframe_short)
    with save_ok(1) [OF ok e, of b] 1 None show ?thesis by (simp add: filter_data_def promise_def)
  next
    case 2
    note cut = deframe_two [OF d [unfolded 2]]
    show ?thesis
    proof (cases "length rest < be_nat [a, b]")
      case True
      with cut save_ok(2) [OF ok e _ True] be_nat_two [of a b] 2 None show ?thesis
        by (simp add: filter_data_def promise_def read_size_be be_bytes_two PACK_LIMIT_def Let_def)
    next
      case False
      with cut obtain fs1 where d1: "deframe 2 PACK_LIMIT (drop (be_nat [a, b]) rest) = (fs1, r, False)"
        and fs: "fs = take (be_nat [a, b]) rest # fs1" by auto
      have "filter_data q fd bs = (if drop (be_nat [a, b]) rest = [] then Some (q, FData fd (take (be_nat [a, b]) rest))
        else (case push_more (push_data q fd (take (be_nat [a, b]) rest)) fd (drop (be_nat [a, b]) rest) of
           None \<Rightarrow> None | Some q' \<Rightarrow> Some (q', FMore)))"
        using False 2 None by (auto simp: filter_data_def read_size_be Let_def simp del: be_nat_simps)
      with rest_promise [OF ok e d1] fs show ?thesis by simp
    qed
  qed
next
  case (Some x)
  then obtain uc q' where f: "find_uncomplete q fd = Some (uc, q')" by (cases x) auto
  with take_entry [OF ok, of fd] have t: "entry (get_queue q) fd = Some uc" "uc_id uc = fd" "uc_ok uc"
    "packet_queue_ok q'" "q' \<noteq> None" "np_contents (get_queue q') = np_contents (get_queue q)"
    "pend (get_queue q') = (pend (get_queue q))(fd := [])" by auto
  have e': "entry (get_queue q') fd = None" using t(7) pend_Nil [of "get_queue q'" fd] by simp
  have p: "pend (get_queue q) fd = uc_view uc" using t(1) by (simp add: pend_def)
  have "promise q' fd fs r (filter_data q fd bs)"
  proof (cases "uc_read uc = -1")
    case True
    obtain b rest where b: "bs = b # rest" using bs by (cases bs) auto
    have "deframe 2 PACK_LIMIT (uc_header uc # b # [] @ rest) = (fs, r, False)"
      using d p b True by (simp add: uc_view_def)
    with t e' f b True show ?thesis
      by (simp add: filter_data_def)
        (rule fill_promise [where a = "uc_header uc" and b = b], simp_all add: read_size_be)
  next
    case False
    then have ro: "uc_read uc = int (length (uc_buffer uc))" "uc_read uc < uc_size uc" "uc_size uc < 0x10000"
      using t(3) by (auto simp: uc_ok_def)
    obtain a b where ab: "be_bytes 2 (nat (uc_size uc)) = [a, b]"
      using length_be_bytes [of 2 "nat (uc_size uc)"] by (auto simp: numeral_2_eq_2 length_Suc_conv)
    have "nat (uc_size uc) < 256 ^ 2" using ro by (simp add: nat_less_iff)
    from be_nat_be_bytes [OF this] have n: "uc_size uc = int (be_nat [a, b])" using ro unfolding ab by simp
    have "deframe 2 PACK_LIMIT (a # b # uc_buffer uc @ bs) = (fs, r, False)"
      using d p False ab by (simp add: uc_view_def)
    from fill_promise [OF t(4) e' t(5) t(2) ro(1) _ n this] ro f show ?thesis
      by (simp add: filter_data_def)
  qed
  then show ?thesis by (rule promise_via [OF _ t(7,6)])
qed

section \<open>The reader\<close>

text \<open>
  A client of the module: it hands each piece to the filter and, on \<open>"more"\<close>, pops the
  queue until it is empty. The capacity bounds the number of pops.
\<close>

definition np_feed :: "int \<Rightarrow> queue option \<Rightarrow> byte list \<Rightarrow> queue option \<times> (int \<times> byte list) list" where
  "np_feed fd q bs = (case filter_data q fd bs of
     None \<Rightarrow> (q, [])
   | Some (q', FData fd' p) \<Rightarrow> (q', [(fd', p)])
   | Some (Some q', FMore) \<Rightarrow>
       (let (nps, q'') = drain (nq_cap q') lpop q' in (Some q'', map (\<lambda>np. (np_id np, np_buffer np)) nps))
   | Some (q', _) \<Rightarrow> (q', []))"

definition idle :: "queue option \<Rightarrow> bool" where
  "idle q \<longleftrightarrow> packet_queue_ok q \<and> np_contents (get_queue q) = []"

lemma np_feed_piece:
  assumes ok: "idle q" and bs: "bs \<noteq> []"
    and d: "deframe 2 PACK_LIMIT (pend (get_queue q) fd @ bs) = (fs, r, False)"
  shows "\<exists>q'. np_feed fd q bs = (q', map (Pair fd) fs) \<and> idle q' \<and>
    pend (get_queue q') = (pend (get_queue q))(fd := r)"
proof -
  have qok: "packet_queue_ok q" and empty: "np_contents (get_queue q) = []" using ok by (simp_all add: idle_def)
  from filter_promise [OF qok bs d] obtain q' f where f: "filter_data q fd bs = Some (q', f)" "packet_queue_ok q'"
    "pend (get_queue q') = (pend (get_queue q))(fd := r)"
    "f = FNone \<and> fs = [] \<and> np_contents (get_queue q') = [] \<or>
     (\<exists>p. f = FData fd p \<and> fs = [p] \<and> np_contents (get_queue q') = []) \<or>
     f = FMore \<and> q' \<noteq> None \<and> np_contents (get_queue q') = map (pack fd) fs"
    unfolding promise_def empty by auto
  consider "f = FNone" "fs = []" "np_contents (get_queue q') = []"
    | p where "f = FData fd p" "fs = [p]" "np_contents (get_queue q') = []"
    | p where "f = FMore" "q' = Some p" "np_contents p = map (pack fd) fs"
    using f(4) by (cases q') auto
  then show ?thesis
  proof cases
    case 1
    with f(1-3) show ?thesis by (cases q') (simp_all add: np_feed_def idle_def)
  next
    case 2
    with f(1-3) show ?thesis by (cases q') (simp_all add: np_feed_def idle_def)
  next
    case 3
    have inv: "np_inv p" "table_ok p" using f(2) 3 by (simp_all add: packet_queue_ok_def)
    have "length (np_contents p) < nq_cap p"
      using ring_len_less [OF inv(1) [unfolded np_inv_def]] by (simp add: np_contents_def)
    from packages.drain_all [OF inv(1) this] obtain p' where
      p': "drain (nq_cap p) lpop p = (np_contents p, p')" "np_inv p'" "np_contents p' = []" by blast
    have "nq_hash p' = nq_hash p"
      using drain_keeps [of "\<lambda>q. nq_hash q = nq_hash p" lpop p "nq_cap p"] p'(1) lpop_hash by (metis snd_conv)
    then have "table_ok p'" "pend p' = pend p" using inv(2) by (simp_all add: table_ok_def pend_def entry_def fun_eq_iff)
    moreover have "map (\<lambda>np. (np_id np, np_buffer np)) (np_contents p) = map (Pair fd) fs"
      using 3(3) by (simp add: pack_def)
    ultimately show ?thesis using f(1,3) 3 p' by (simp add: np_feed_def idle_def packet_queue_ok_def)
  qed
qed

interpretation filter: framed_reader 2 PACK_LIMIT idle "\<lambda>q. pend (get_queue q) fd" "\<lambda>_ p. [(fd, p)]"
  "np_feed fd" for fd
proof
  fix q xs fs r
  assume "idle q" "xs \<noteq> []" "deframe 2 PACK_LIMIT (pend (get_queue q) fd @ xs) = (fs, r, False)"
  from np_feed_piece [OF this] show "\<exists>q'. np_feed fd q xs = (q', concat (map (\<lambda>p. [(fd, p)]) fs)) \<and> idle q' \<and>
      pend (get_queue q') fd = r \<and> (\<lambda>p. [(fd, p)]) = (\<lambda>p. [(fd, p)])"
    by (simp add: concat_map_singleton) (metis fun_upd_same)
qed

text \<open>Two-byte lengths are never over the limit.\<close>

lemma deframe_two_alive: "\<exists>fs r. deframe 2 PACK_LIMIT bs = (fs, r, False)"
proof (induction "length bs" arbitrary: bs rule: less_induct)
  case less
  show ?case
  proof (cases rule: deframe_cases [where k = 2 and bs = bs and lim = PACK_LIMIT])
    case 2
    moreover have "be_nat (take 2 bs) < PACK_LIMIT"
      using be_nat_bound [of "take 2 bs"] 2 by (simp add: PACK_LIMIT_def min_def split: if_splits)
    ultimately show ?thesis by simp
  next
    case 4
    have "length (drop (2 + be_nat (take 2 bs)) bs) < length bs" using 4 by simp
    from less [OF this] deframe_step [OF 4] show ?thesis by (auto simp: Let_def)
  qed (simp_all add: deframe_short deframe_wait)
qed

section \<open>Properties\<close>

text \<open>Pieces of any sockets, in the order in which the socket server delivers them.\<close>

fun feed_sockets :: "queue option \<Rightarrow> (int \<times> byte list) list \<Rightarrow> queue option \<times> (int \<times> byte list) list" where
  "feed_sockets q [] = (q, [])"
| "feed_sockets q ((fd, bs) # ps) =
     (let (q1, o1) = np_feed fd q bs; (q2, o2) = feed_sockets q1 ps in (q2, o1 @ o2))"

definition of_fd :: "int \<Rightarrow> (int \<times> 'a) list \<Rightarrow> 'a list" where
  "of_fd fd ps = map snd (filter (\<lambda>p. fst p = fd) ps)"

lemma of_fd_simps [simp]: "of_fd fd [] = []" "of_fd fd ((g, x) # ps) = (if g = fd then x # of_fd fd ps else of_fd fd ps)"
  "of_fd fd (xs @ ys) = of_fd fd xs @ of_fd fd ys" "of_fd fd (map (Pair g) zs) = (if g = fd then zs else [])"
  by (simp_all add: of_fd_def o_def filter_True filter_False)

text \<open>
  C28. The package filter serves all sockets of a gate with one queue and one table. Whatever
  the order in which pieces of their streams arrive and wherever these are cut, each socket
  gets exactly the packages of its own stream, complete and in order, and what is left of
  its stream waits in the table; the filter never crashes.
\<close>

theorem netpack_interleaved:
  assumes "idle q" "[] \<notin> snd ` set ps" "feed_sockets q ps = (q', out)"
  shows "idle q' \<and> (\<exists>rest. \<forall>fd. deframe 2 PACK_LIMIT (pend (get_queue q) fd @ concat (of_fd fd ps)) =
      (of_fd fd out, rest fd, False) \<and> pend (get_queue q') fd = rest fd)"
  using assms
proof (induction ps arbitrary: q out)
  case Nil
  have "deframe 2 PACK_LIMIT (pend (get_queue q) fd) = ([], pend (get_queue q) fd, False)" for fd
  proof (cases "entry (get_queue q) fd")
    case None
    then show ?thesis by (simp add: pend_def)
  next
    case (Some u)
    then have "u \<in> set (nq_hash (get_queue q) (hash_fd fd))" by (auto simp: entry_def find_Some_iff)
    then have "uc_ok u" using Nil(1) by (simp add: idle_def packet_queue_ok_def table_ok_def)
    have "length [uc_header u] < 2" by simp
    with \<open>uc_ok u\<close> Some show ?thesis
      using be_nat_be_bytes [of "nat (uc_size u)" 2]
        deframe_partial [of "be_bytes 2 (nat (uc_size u))" 2 PACK_LIMIT "uc_buffer u"]
        deframe_short [of 2 "[uc_header u]" PACK_LIMIT]
      by (auto simp: pend_def uc_view_def uc_ok_def PACK_LIMIT_def nat_less_iff split: if_splits)
  qed
  with Nil show ?case by auto
next
  case (Cons p ps)
  obtain fd bs where p: "p = (fd, bs)" by (cases p)
  obtain q1 o1 where 1: "np_feed fd q bs = (q1, o1)" by fastforce
  obtain o2 where 2: "feed_sockets q1 ps = (q', o2)" "out = o1 @ o2"
    using Cons.prems(3) p 1 by (auto split: prod.splits)
  obtain fs r where d: "deframe 2 PACK_LIMIT (pend (get_queue q) fd @ bs) = (fs, r, False)"
    using deframe_two_alive by blast
  have "bs \<noteq> []" using Cons.prems(2) p by auto
  from np_feed_piece [OF Cons.prems(1) this d] 1 have q1: "idle q1" "o1 = map (Pair fd) fs"
    "pend (get_queue q1) = (pend (get_queue q))(fd := r)" by auto
  have "[] \<notin> snd ` set ps" using Cons.prems(2) by auto
  from Cons.IH [OF q1(1) this 2(1)] obtain rest where IH: "idle q'"
    "\<And>g. deframe 2 PACK_LIMIT (pend (get_queue q1) g @ concat (of_fd g ps)) = (of_fd g o2, rest g, False)"
    "\<And>g. pend (get_queue q') g = rest g" by auto
  have "deframe 2 PACK_LIMIT (pend (get_queue q) g @ concat (of_fd g (p # ps))) = (of_fd g out, rest g, False)" for g
  proof (cases "g = fd")
    case True
    with deframe_append [OF d, of "concat (of_fd fd ps)"] IH(2) [of fd] show ?thesis
      by (simp add: p 2(2) q1(2,3))
  next
    case False
    with IH(2) [of g] show ?thesis by (simp add: p 2(2) q1(2,3))
  qed
  with IH(1,3) show ?case by auto
qed

theorem netpack_interleaved_witness:
  "of_fd 5 (snd (feed_sockets None [(5, [0]), (6, [0, 1]), (5, [2, 7]), (6, [9]), (5, [8, 0, 0, 0])])) = [[7, 8], []]"
proof -
  let ?ps = "[(5, [0]), (6, [0, 1]), (5, [2, 7]), (6, [9]), (5, [8, 0, 0, 0])] :: (int \<times> byte list) list"
  have i: "idle None" by (simp add: idle_def)
  have "[] \<notin> snd ` set ?ps" by simp
  obtain q' out where f: "feed_sockets None ?ps = (q', out)" by (cases "feed_sockets None ?ps")
  from netpack_interleaved [OF i \<open>[] \<notin> snd ` set ?ps\<close> f] obtain r where
    "deframe 2 PACK_LIMIT (pend (get_queue None) 5 @ concat (of_fd 5 ?ps)) = (of_fd 5 out, r, False)" by metis
  moreover have "pend (get_queue None) 5 = []" by (simp add: pend_def)
  moreover have "deframe 2 PACK_LIMIT (concat (of_fd 5 ?ps)) = ([[7, 8], []], [0], False)"
    by (simp add: PACK_LIMIT_def) (subst deframe.simps, simp add: be_nat_simps)+
  ultimately show ?thesis using f by simp
qed

lemma write_size_be: "n < 0x10000 \<Longrightarrow> write_size n = be_bytes 2 n"
proof -
  assume n: "n < 0x10000"
  have "be_nat (write_size n) = n"
    using n by (simp add: write_size_def be_nat_simps unat_octet unat_of_nat)
  moreover have "length (write_size n) = 2" by (simp add: write_size_def)
  ultimately show ?thesis using be_bytes_be_nat by metis
qed

text \<open>
  \<open>netpack.pack\<close> writes exactly the frame the filter reads for every message below 64K,
  so packing and filtering round trip: whatever messages are packed and however the
  resulting stream is cut, the filter gives the same messages back.
\<close>

theorem pack_filter_roundtrip:
  assumes "\<forall>m\<in>set msgs. length m < 0x10000" "map lpack msgs = map Some packed"
    and "concat cs = concat packed" "[] \<notin> set cs"
  shows "\<exists>q. feed_all (np_feed fd) None cs = (q, map (Pair fd) msgs) \<and> idle q"
proof -
  have "length p < 0x10000 \<Longrightarrow> lpack p = Some (frame 2 p)" for p :: "byte list"
    by (simp add: lpack_def frame_def write_size_be)
  then have "map lpack msgs = map (Some \<circ> frame 2) msgs" using assms(1) by simp
  with assms(2) have "packed = map (frame 2) msgs" by (metis inj_Some inj_map_eq_map map_map)
  with assms(3) have "concat cs = concat (map (frame 2) msgs)" by simp
  moreover have "\<forall>c\<in>set cs. c \<noteq> []" using assms(4) by auto
  moreover have "\<forall>p\<in>set msgs. length p < PACK_LIMIT \<and> length p < 256 ^ 2" using assms(1) by (simp add: PACK_LIMIT_def)
  moreover have "idle None" "pend (get_queue None) fd = []" by (simp_all add: idle_def pend_def)
  ultimately show ?thesis using filter.feed_frames [of None fd msgs cs] by (auto simp: concat_map_singleton)
qed

theorem pack_filter_roundtrip_witness:
  "\<exists>q. feed_all (np_feed 5) None [[0], [2, 7], [8, 0, 1, 9]] = (q, [(5, [7, 8]), (5, [9])]) \<and> idle q"
proof -
  have "map lpack [[7, 8], [9]] = map Some [[0, 2, 7, 8], [0, 1, 9]]"
    by (simp add: lpack_def write_size_def octet_eq)
  from pack_filter_roundtrip [OF _ this, of "[[0], [2, 7], [8, 0, 1, 9]]" 5] show ?thesis by simp
qed

text \<open>
  \<open>netpack.pack\<close> also accepts a message of exactly 64K, whose length does not fit the
  two bytes of the header: the header says 0, and a reader takes the message apart as an
  empty package followed by 64K of alleged packages.
\<close>

theorem pack_64k:
  assumes "length msg = 0x10000"
  shows "\<exists>bs fs. lpack msg = Some bs \<and> fst (deframe 2 PACK_LIMIT bs) = [] # fs"
proof -
  have w: "write_size 0x10000 = [0, 0]" by (simp add: write_size_def octet_eq)
  obtain fs r where d: "deframe 2 PACK_LIMIT ([0, 0] @ msg) = (fs, r, False)" using deframe_two_alive by blast
  have "be_nat [0, 0] = 0" by (simp add: be_nat_simps)
  with deframe_two [of 0 0 msg fs r] d obtain fs1 where "fs = [] # fs1" by auto
  moreover have "lpack msg = Some ([0, 0] @ msg)" using assms w by (simp add: lpack_def)
  ultimately show ?thesis using d by (metis fst_conv)
qed

theorem pack_64k_witness:
  "\<exists>bs fs. lpack (replicate 0x10000 1) = Some bs \<and> fst (deframe 2 PACK_LIMIT bs) = [] # fs"
  by (rule pack_64k) (rule length_replicate)

end
