(* ===== verification/Cluster.thy ===== *)
theory Cluster
  imports C_Library Framing
begin

text \<open>
  The packages of the cluster protocol (lualib-src/mtask_lua_cluster.c) and the reassembly
  of large requests (command.socket of service/clusterd.lua). A function of the Lua API
  takes and returns Lua values: its result is the list of the values it leaves on the
  stack, or the error it raises. A message passed as pointer and size is the list of its
  bytes and the size that was passed; \<open>take\<close> is \<open>memcpy\<close>. A C \<open>int\<close> that comes from a Lua
  integer or a \<open>size_t\<close> keeps the low 32 bits (\<open>as_int\<close>).
\<close>

definition TEMP_LENGTH :: nat where "TEMP_LENGTH = 0x8200"
definition MULTI_PART :: nat where "MULTI_PART = 0x8000"

datatype lua_value = L_Nil | L_Bool bool | L_Int int | L_Str "byte list" | L_Ptr "byte list"

datatype cluster_error =
    Header_Assertion nat
  | Invalid_Request_Message
  | Invalid_Request_Session int
  | Name_Too_Long
  | Invalid_Cluster_Message int
  | Invalid_Multi_Req_Size int
  | Invalid_Multi_Part_Message
  | Invalid_Req_Type int
  | Out_Of_Memory

definition fill_uint32 :: "u32 \<Rightarrow> byte list" where
  "fill_uint32 n = le32 n"

definition fill_header :: "nat \<Rightarrow> cluster_error + byte list" where
  "fill_header sz =
     (if sz < 0x10000 then Inr [of_nat (sz div 256 mod 256), of_nat (sz mod 256)]
      else Inl (Header_Assertion sz))"

section \<open>Requests\<close>

text \<open>A request and the number of parts that follow it, 0 when it is complete.\<close>

definition packreq_number :: "int \<Rightarrow> int \<Rightarrow> byte list \<Rightarrow> u32 \<Rightarrow> cluster_error + (byte list \<times> nat)" where
  "packreq_number arg session msg sz =
     (let addr = word_of_int arg in
      if unat sz < MULTI_PART then
        on_ok (fill_header (unat sz + 9)) (\<lambda>h.
          Inr (h @ [0] @ fill_uint32 addr @ fill_uint32 (word_of_int session) @ take (unat sz) msg, 0))
      else
        on_ok (fill_header 13) (\<lambda>h.
          Inr (h @ [1] @ fill_uint32 addr @ fill_uint32 (word_of_int session) @ fill_uint32 sz,
               (unat sz - 1) div MULTI_PART + 1)))"

definition packreq_string :: "lua_value \<Rightarrow> int \<Rightarrow> byte list \<Rightarrow> u32 \<Rightarrow> cluster_error + (byte list \<times> nat)" where
  "packreq_string arg session msg sz =
     (case arg of
        L_Str name \<Rightarrow>
          if length name < 1 \<or> 255 < length name then Inl Name_Too_Long
          else if unat sz < MULTI_PART then
            on_ok (fill_header (unat sz + 6 + length name)) (\<lambda>h.
              Inr (h @ [0x80, of_nat (length name)] @ name @ fill_uint32 (word_of_int session) @
                   take (unat sz) msg, 0))
          else
            on_ok (fill_header (10 + length name)) (\<lambda>h.
              Inr (h @ [0x81, of_nat (length name)] @ name @ fill_uint32 (word_of_int session) @
                   fill_uint32 sz, (unat sz - 1) div MULTI_PART + 1))
      | _ \<Rightarrow> Inl Name_Too_Long)"

fun packreq_parts :: "nat \<Rightarrow> int \<Rightarrow> byte list \<Rightarrow> nat \<Rightarrow> cluster_error + byte list list" where
  "packreq_parts 0 session ptr sz = Inr []"
| "packreq_parts (Suc part) session ptr sz =
     (let s = (if MULTI_PART < sz then MULTI_PART else sz);
          t = (if MULTI_PART < sz then 2 else 3)
      in on_ok (fill_header (s + 5)) (\<lambda>h.
         on_ok (packreq_parts part session (drop s ptr) (sz - s)) (\<lambda>rest.
           Inr ((h @ [t] @ fill_uint32 (word_of_int session) @ take s ptr) # rest))))"

definition packreq_multi :: "int \<Rightarrow> byte list \<Rightarrow> u32 \<Rightarrow> cluster_error + byte list list" where
  "packreq_multi session msg sz =
     packreq_parts ((unat sz - 1) div MULTI_PART + 1) session msg (unat sz)"

text \<open>\<open>++session < 0\<close> on an \<open>int\<close> that wraps around.\<close>

definition next_session :: "int \<Rightarrow> int" where
  "next_session session = (if as_int (session + 1) < 0 then 1 else as_int (session + 1))"

text \<open>
  The request, the next session and, for a large message, the table of its parts. A
  message pointer that is NULL is \<open>None\<close>.
\<close>

definition lpackrequest ::
  "lua_value \<Rightarrow> int \<Rightarrow> byte list option \<Rightarrow> int
   \<Rightarrow> cluster_error + (byte list \<times> int \<times> byte list list option)" where
  "lpackrequest addr arg2 msg arg4 =
     (case msg of
        None \<Rightarrow> Inl Invalid_Request_Message
      | Some msg \<Rightarrow>
          (let sz = word_of_int arg4; session = as_int arg2 in
           if session \<le> 0 then Inl (Invalid_Request_Session session)
           else on_ok (case addr of L_Int a \<Rightarrow> packreq_number a session msg sz
                         | _ \<Rightarrow> packreq_string addr session msg sz)
             (\<lambda>(req, multipak).
                if multipak = 0 then Inr (req, next_session session, None)
                else on_ok (packreq_multi session msg sz) (\<lambda>parts.
                       Inr (req, next_session session, Some parts)))))"

definition unpack_uint32 :: "byte list \<Rightarrow> u32" where
  "unpack_uint32 buf = un_le32 buf"

definition L_Uint :: "u32 \<Rightarrow> lua_value" where
  "L_Uint w = L_Int (uint w)"

definition unpackreq_number :: "byte list \<Rightarrow> int \<Rightarrow> cluster_error + lua_value list" where
  "unpackreq_number buf sz =
     (if sz < 9 then Inl (Invalid_Cluster_Message sz)
      else Inr [L_Uint (unpack_uint32 (drop 1 buf)), L_Uint (unpack_uint32 (drop 5 buf)),
                L_Str (take (nat (sz - 9)) (drop 9 buf))])"

definition unpackmreq_number :: "byte list \<Rightarrow> int \<Rightarrow> cluster_error + lua_value list" where
  "unpackmreq_number buf sz =
     (if sz \<noteq> 13 then Inl (Invalid_Multi_Req_Size sz)
      else Inr [L_Uint (unpack_uint32 (drop 1 buf)), L_Uint (unpack_uint32 (drop 5 buf)),
                L_Uint (unpack_uint32 (drop 9 buf)), L_Bool True])"

definition unpackmreq_part :: "byte list \<Rightarrow> int \<Rightarrow> cluster_error + lua_value list" where
  "unpackmreq_part buf sz =
     (if sz < 5 then Inl Invalid_Multi_Part_Message
      else Inr [L_Bool False, L_Uint (unpack_uint32 (drop 1 buf)),
                L_Str (take (nat (sz - 5)) (drop 5 buf)), L_Bool (buf ! 0 = 2)])"

definition unpackreq_string :: "byte list \<Rightarrow> int \<Rightarrow> cluster_error + lua_value list" where
  "unpackreq_string buf sz =
     (if sz < 2 then Inl (Invalid_Cluster_Message sz)
      else let namesz = unat (buf ! 1) in
        if sz < int namesz + 6 then Inl (Invalid_Cluster_Message sz)
        else Inr [L_Str (take namesz (drop 2 buf)), L_Uint (unpack_uint32 (drop (namesz + 2) buf)),
                  L_Str (take (nat sz - namesz - 6) (drop (2 + namesz + 4) buf))])"

definition unpackmreq_string :: "byte list \<Rightarrow> int \<Rightarrow> cluster_error + lua_value list" where
  "unpackmreq_string buf sz =
     (if sz < 2 then Inl (Invalid_Cluster_Message sz)
      else let namesz = unat (buf ! 1) in
        if sz < int namesz + 10 then Inl (Invalid_Cluster_Message sz)
        else Inr [L_Str (take namesz (drop 2 buf)), L_Uint (unpack_uint32 (drop (namesz + 2) buf)),
                  L_Uint (unpack_uint32 (drop (namesz + 6) buf)), L_Bool True])"

text \<open>A Lua string is followed by a 0, which is what \<open>msg[0]\<close> reads of an empty one.\<close>

definition lunpackrequest :: "byte list \<Rightarrow> cluster_error + lua_value list" where
  "lunpackrequest msg =
     (let sz = as_int (int (length msg)); c = (msg @ [0]) ! 0 in
      if c = 0 then unpackreq_number msg sz
      else if c = 1 then unpackmreq_number msg sz
      else if c = 2 \<or> c = 3 then unpackmreq_part msg sz
      else if c = 0x80 then unpackreq_string msg sz
      else if c = 0x81 then unpackmreq_string msg sz
      else Inl (Invalid_Req_Type (sint c)))"

section \<open>Responses\<close>

fun packres_parts :: "nat \<Rightarrow> u32 \<Rightarrow> byte list \<Rightarrow> nat \<Rightarrow> cluster_error + byte list list" where
  "packres_parts 0 session ptr sz = Inr []"
| "packres_parts (Suc part) session ptr sz =
     (let s = (if MULTI_PART < sz then MULTI_PART else sz);
          t = (if MULTI_PART < sz then 3 else 4)
      in on_ok (fill_header (s + 5)) (\<lambda>h.
         on_ok (packres_parts part session (drop s ptr) (sz - s)) (\<lambda>rest.
           Inr ((h @ fill_uint32 session @ [t] @ take s ptr) # rest))))"

text \<open>\<open>Inl\<close>: one package; \<open>Inr\<close>: the table of packages of a large response.\<close>

definition lpackresponse :: "int \<Rightarrow> bool \<Rightarrow> byte list \<Rightarrow> nat
    \<Rightarrow> cluster_error + (byte list + byte list list)" where
  "lpackresponse arg1 ok msg sz =
     (let session = word_of_int arg1 in
      if ok \<and> MULTI_PART < sz then
        on_ok (fill_header 9) (\<lambda>h.
        on_ok (packres_parts ((sz - 1) div MULTI_PART + 1) session msg sz) (\<lambda>parts.
          Inr (Inr ((h @ fill_uint32 session @ [2] @ fill_uint32 (of_nat sz)) # parts))))
      else
        (let sz = (if \<not> ok \<and> MULTI_PART < sz then MULTI_PART else sz) in
         on_ok (fill_header (sz + 5)) (\<lambda>h.
           Inr (Inl (h @ fill_uint32 session @ [if ok then 1 else 0] @ take sz msg)))))"

definition lunpackresponse :: "byte list \<Rightarrow> lua_value list" where
  "lunpackresponse buf =
     (let sz = length buf; session = L_Uint (unpack_uint32 buf); t = buf ! 4;
          body = L_Str (take (sz - 5) (drop 5 buf)) in
      if sz < 5 then []
      else if t = 0 then [session, L_Bool False, body]
      else if t = 1 \<or> t = 4 then [session, L_Bool True, body]
      else if t = 2 then
        (if sz \<noteq> 9 then []
         else [session, L_Bool True, L_Uint (unpack_uint32 (drop 5 buf)), L_Bool True])
      else if t = 3 then [session, L_Bool True, body, L_Bool True]
      else [])"

section \<open>Putting a large message together\<close>

text \<open>
  The loop of \<open>lconcat\<close>: \<open>buff\<close> holds the bytes copied so far. The first entry of the
  table that is not a string ends it.
\<close>

fun concat_loop :: "nat \<Rightarrow> byte list \<Rightarrow> lua_value list \<Rightarrow> byte list option" where
  "concat_loop sz buff (L_Str s # t) =
     (if sz < length s + length buff then None else concat_loop sz (buff @ s) t)"
| "concat_loop sz buff _ = (if length buff \<noteq> sz then None else Some buff)"

definition lconcat :: "lua_value list \<Rightarrow> cluster_error + lua_value list" where
  "lconcat t =
     (case t of
        L_Int n # rest \<Rightarrow>
          (let sz = as_int n in
           if sz < 0 then Inl Out_Of_Memory
           else case concat_loop (nat sz) [] rest of
             None \<Rightarrow> Inr []
           | Some buff \<Rightarrow> Inr [L_Ptr buff, L_Int sz])
      | _ \<Rightarrow> Inr [])"

text \<open>
  The part of \<open>command.socket\<close> that collects the parts of a large request. The table
  \<open>large_request\<close> of the service maps a session to the address and the list being
  filled. \<open>Waiting\<close>: more parts are to come; \<open>Refused\<close>: the request cannot be completed
  and an error is answered; \<open>Complete\<close>: the address and the message to dispatch.
\<close>

datatype received = Waiting | Refused lua_value | Complete lua_value lua_value "lua_value list"

type_synonym large_request = "lua_value \<rightharpoonup> lua_value \<times> lua_value list"

definition arg_at :: "lua_value list \<Rightarrow> nat \<Rightarrow> lua_value" where
  "arg_at vs i = (if i < length vs then vs ! i else L_Nil)"

definition socket_data :: "large_request \<Rightarrow> byte list \<Rightarrow> cluster_error + (large_request \<times> received)" where
  "socket_data lr data =
     on_ok (lunpackrequest data) (\<lambda>vs.
       let addr = arg_at vs 0; session = arg_at vs 1; msg = arg_at vs 2; padding = arg_at vs 3 in
       if padding = L_Bool True then
         (let (a, req) = (case lr session of Some r \<Rightarrow> r | None \<Rightarrow> (addr, []))
          in Inr (lr(session \<mapsto> (a, req @ [msg])), Waiting))
       else case lr session of
         None \<Rightarrow> Inr (lr, Complete addr session [msg])
       | Some (a, req) \<Rightarrow>
           on_ok (lconcat (req @ [msg])) (\<lambda>vs.
             Inr (lr(session := None),
                  if arg_at vs 0 = L_Nil then Refused session else Complete a session vs)))"

text \<open>A socket that closes, fails or warns makes the service forget every request under way.\<close>

definition socket_closed :: "large_request \<Rightarrow> large_request" where
  "socket_closed lr = Map.empty"

text \<open>
  The other side (lualib/socketchannel.lua, dispatch_by_session): the frames that answer
  one session, until it is complete. \<open>result\<close> is the entry of the table of partial
  results. The answer is what \<open>response\<close> gives the waiting coroutine: whether the call
  succeeded, and one value or the table of the parts.
\<close>

fun session_answer :: "lua_value list option \<Rightarrow> byte list list
    \<Rightarrow> (bool \<times> (lua_value + lua_value list)) option" where
  "session_answer result [] = None"
| "session_answer result (d # ds) =
     (let vs = lunpackresponse d;
          result_ok = (arg_at vs 1 = L_Bool True); data = arg_at vs 2
      in if arg_at vs 3 = L_Bool True \<and> result_ok then
           session_answer (Some ((case result of None \<Rightarrow> [] | Some r \<Rightarrow> r) @ [data])) ds
         else Some (result_ok,
           case result of Some r \<Rightarrow> if result_ok then Inr (r @ [data]) else Inl data
                        | None \<Rightarrow> Inl data))"

end
