(* ===== verification/Cluster_Stream.thy ===== *)
theory Cluster_Stream
  imports Cluster
begin

text \<open>
  What two nodes of a cluster agree on: a request or response of any size, number or name
  addressed, packed by one node, cut from the byte stream as frames with a length of two
  bytes and unpacked by the other, arrives as it was sent. And where the agreement ends:
  the reassembly table is shared by all connections of a node.
\<close>

section \<open>Packages are frames\<close>

lemma fill_header_be: "n < 0x10000 \<Longrightarrow> fill_header n = Inr (be_bytes 2 n)"
  by (simp add: fill_header_def numeral_2_eq_2)

lemma frame_fill_header:
  "length body = n \<Longrightarrow> n < 0x10000 \<Longrightarrow> \<exists>h. fill_header n = Inr h \<and> frame 2 body = h @ body"
  by (simp add: fill_header_be frame_def)

lemma unpack_le32 [simp]: "unpack_uint32 (le32 w @ r) = w" "unpack_uint32 (le32 w) = w"
proof -
  have "un_le32 (le32 w @ r) = un_le32 (le32 w)" by (simp add: un_le32_def le32_def)
  then show "unpack_uint32 (le32 w @ r) = w" "unpack_uint32 (le32 w) = w"
    by (simp_all add: unpack_uint32_def)
qed

lemma L_Uint_of_int: "0 \<le> n \<Longrightarrow> n < 2 ^ 32 \<Longrightarrow> L_Uint (word_of_int n) = L_Int n"
  by (simp add: L_Uint_def uint_word_of_int_eq take_bit_eq_mod)

text \<open>
  The specification of the parts: full pieces under one mapping, the last piece, which is
  not longer than \<open>MULTI_PART\<close>, under another.
\<close>

function pieces :: "(byte list \<Rightarrow> 'b) \<Rightarrow> (byte list \<Rightarrow> 'b) \<Rightarrow> byte list \<Rightarrow> 'b list" where
  "pieces f g xs = (if length xs \<le> MULTI_PART then [g xs]
     else f (take MULTI_PART xs) # pieces f g (drop MULTI_PART xs))"
  by pat_completeness auto
termination
  by (relation "measure (\<lambda>(f, g, xs). length xs)") (auto simp: MULTI_PART_def)

declare pieces.simps [simp del]

lemma pieces_small: "length xs \<le> MULTI_PART \<Longrightarrow> pieces f g xs = [g xs]"
  and pieces_large: "MULTI_PART < length xs \<Longrightarrow>
    pieces f g xs = f (take MULTI_PART xs) # pieces f g (drop MULTI_PART xs)"
  by (subst pieces.simps, simp)+

lemma parts_count:
  "MULTI_PART < n \<Longrightarrow> (n - Suc 0) div MULTI_PART = Suc ((n - Suc MULTI_PART) div MULTI_PART)"
  by (simp add: MULTI_PART_def div_if [of "n - Suc 0"])

lemma pieces_induct [case_names small large]:
  assumes "\<And>xs. length xs \<le> MULTI_PART \<Longrightarrow> P xs"
    and "\<And>xs. MULTI_PART < length xs \<Longrightarrow> P (drop MULTI_PART xs) \<Longrightarrow> P xs"
  shows "P xs"
proof (induction "length xs" arbitrary: xs rule: less_induct)
  case less
  then show ?case
    using assms by (cases "length xs \<le> MULTI_PART") (auto simp: MULTI_PART_def)
qed

definition request_part :: "byte \<Rightarrow> int \<Rightarrow> byte list \<Rightarrow> byte list" where
  "request_part t session c = t # le32 (word_of_int session) @ c"

definition response_part :: "byte \<Rightarrow> u32 \<Rightarrow> byte list \<Rightarrow> byte list" where
  "response_part t session c = le32 session @ t # c"

lemma frame_parts:
  "frame 2 (request_part t session c) = be_bytes 2 (5 + length c) @ t # le32 (word_of_int session) @ c"
  "frame 2 (response_part t s c) = be_bytes 2 (5 + length c) @ le32 s @ t # c"
  by (simp_all add: frame_def request_part_def response_part_def)

lemma packreq_parts_pieces:
  "packreq_parts ((length xs - 1) div MULTI_PART + 1) session xs (length xs) =
   Inr (map (frame 2) (pieces (request_part 2 session) (request_part 3 session) xs))"
proof (induction xs rule: pieces_induct)
  case (small xs)
  then have "(length xs - 1) div MULTI_PART = 0" by (simp add: MULTI_PART_def)
  with small show ?case
    by (simp add: pieces_small fill_header_be frame_parts fill_uint32_def MULTI_PART_def add.commute)
next
  case (large xs)
  then have "packreq_parts ((length xs - 1) div MULTI_PART) session (drop MULTI_PART xs) (length xs - MULTI_PART) =
      Inr (map (frame 2) (pieces (request_part 2 session) (request_part 3 session) (drop MULTI_PART xs)))"
    by (simp add: parts_count del: packreq_parts.simps)
  with large.hyps show ?case
    by (simp add: pieces_large fill_header_be frame_parts fill_uint32_def MULTI_PART_def)
qed

lemma packres_parts_pieces:
  "packres_parts ((length xs - 1) div MULTI_PART + 1) session xs (length xs) =
   Inr (map (frame 2) (pieces (response_part 3 session) (response_part 4 session) xs))"
proof (induction xs rule: pieces_induct)
  case (small xs)
  then have "(length xs - 1) div MULTI_PART = 0" by (simp add: MULTI_PART_def)
  with small show ?case
    by (simp add: pieces_small fill_header_be frame_parts fill_uint32_def MULTI_PART_def add.commute)
next
  case (large xs)
  then have "packres_parts ((length xs - 1) div MULTI_PART) session (drop MULTI_PART xs) (length xs - MULTI_PART) =
      Inr (map (frame 2) (pieces (response_part 3 session) (response_part 4 session) (drop MULTI_PART xs)))"
    by (simp add: parts_count del: packres_parts.simps)
  with large.hyps show ?case
    by (simp add: pieces_large fill_header_be frame_parts fill_uint32_def MULTI_PART_def)
qed

lemma pieces_bounded:
  assumes "\<And>c. length c \<le> MULTI_PART \<Longrightarrow> P (f c)" "\<And>c. length c \<le> MULTI_PART \<Longrightarrow> P (g c)"
  shows "\<forall>p\<in>set (pieces f g xs). P p"
proof (induction xs rule: pieces_induct)
  case (small xs)
  with assms show ?case by (simp add: pieces_small)
next
  case (large xs)
  with assms(1) [of "take MULTI_PART xs"] show ?case by (simp add: pieces_large)
qed

lemma concat_loop_pieces:
  "length buff + length xs = sz \<Longrightarrow> concat_loop sz buff (pieces L_Str L_Str xs) = Some (buff @ xs)"
proof (induction xs arbitrary: buff rule: pieces_induct)
  case (small xs)
  then show ?case by (simp add: pieces_small)
next
  case (large xs)
  from large.IH [of "buff @ take MULTI_PART xs"] large.hyps large.prems
  show ?case by (simp add: pieces_large)
qed

lemma lconcat_pieces:
  "length xs < 2 ^ 31 \<Longrightarrow>
   lconcat (L_Int (int (length xs)) # pieces L_Str L_Str xs) = Inr [L_Ptr xs, L_Int (int (length xs))]"
  using concat_loop_pieces [of "[]" xs "length xs"] as_int_small [of "int (length xs)"]
  by (simp add: lconcat_def)

section \<open>Requests\<close>

text \<open>The frames of a connection, one after the other: what the service makes of each.\<close>

fun socket_stream :: "large_request \<Rightarrow> byte list list \<Rightarrow> cluster_error + (large_request \<times> received list)" where
  "socket_stream lr [] = Inr (lr, [])"
| "socket_stream lr (d # ds) =
     on_ok (socket_data lr d) (\<lambda>(lr', r).
     on_ok (socket_stream lr' ds) (\<lambda>(lr'', rs).
       Inr (lr'', if r = Waiting then rs else r # rs)))"

lemma unpack_request_part:
  assumes "0 < session" "session < 2 ^ 31" "length c \<le> MULTI_PART" "t = 2 \<or> t = 3"
  shows "lunpackrequest (request_part t session c) =
    Inr [L_Bool False, L_Int session, L_Str c, L_Bool (t = 2)]"
proof -
  have l: "as_int (5 + int (length c)) = 5 + int (length c)"
    using assms(3) by (intro as_int_small) (auto simp: MULTI_PART_def)
  have u: "L_Uint (word_of_int session) = L_Int session"
    using assms(1,2) by (intro L_Uint_of_int) auto
  have d: "drop 4 (le32 w @ c) = c" for w by simp
  show ?thesis using assms(4)
    by (auto simp: lunpackrequest_def unpackmreq_part_def request_part_def l u d)
qed

lemma socket_part:
  assumes "0 < session" "session < 2 ^ 31" "length c \<le> MULTI_PART" "lr (L_Int session) = Some (a, req)"
  shows "socket_data lr (request_part 2 session c) =
      Inr (lr(L_Int session \<mapsto> (a, req @ [L_Str c])), Waiting)"
    and "socket_data lr (request_part 3 session c) =
      on_ok (lconcat (req @ [L_Str c])) (\<lambda>vs. Inr (lr(L_Int session := None),
        if arg_at vs 0 = L_Nil then Refused (L_Int session) else Complete a (L_Int session) vs))"
  using assms(4) by (simp_all add: socket_data_def unpack_request_part [OF assms(1-3)] arg_at_def Let_def cong: if_cong)

lemma socket_pieces:
  assumes "0 < session" "session < 2 ^ 31"
  shows "lr (L_Int session) = Some (a, req) \<Longrightarrow>
     socket_stream lr (pieces (request_part 2 session) (request_part 3 session) xs) =
     on_ok (lconcat (req @ pieces L_Str L_Str xs)) (\<lambda>vs. Inr (lr(L_Int session := None),
        [if arg_at vs 0 = L_Nil then Refused (L_Int session) else Complete a (L_Int session) vs]))"
proof (induction xs arbitrary: lr req rule: pieces_induct)
  case (small xs)
  with assms show ?case
    by (cases "lconcat (req @ [L_Str xs])")
      (simp_all add: pieces_small socket_part del: fun_upd_apply)
next
  case (large xs)
  let ?c = "take MULTI_PART xs"
  let ?lr = "lr(L_Int session \<mapsto> (a, req @ [L_Str ?c]))"
  have "socket_data lr (request_part 2 session ?c) = Inr (?lr, Waiting)"
    using assms large.prems by (intro socket_part) auto
  moreover have "?lr (L_Int session) = Some (a, req @ [L_Str ?c])" by simp
  ultimately show ?case using large.hyps large.IH [of ?lr "req @ [L_Str ?c]"]
    by (cases "lconcat (req @ pieces L_Str L_Str xs)")
      (simp_all add: pieces_large fun_upd_upd del: fun_upd_apply)
qed

text \<open>An address that the protocol can carry: a number of 32 bits or a name of 1 to 255 bytes.\<close>

fun good_addr :: "lua_value \<Rightarrow> bool" where
  "good_addr (L_Int n) \<longleftrightarrow> 0 \<le> n \<and> n < 2 ^ 32"
| "good_addr (L_Str name) \<longleftrightarrow> name \<noteq> [] \<and> length name \<le> 255"
| "good_addr _ \<longleftrightarrow> False"

text \<open>The body of the first package for a message of \<open>sz\<close> bytes.\<close>

fun request_body :: "lua_value \<Rightarrow> byte \<Rightarrow> int \<Rightarrow> byte list \<Rightarrow> byte list" where
  "request_body (L_Int n) t session c =
     t # le32 (word_of_int n) @ le32 (word_of_int session) @ c"
| "request_body (L_Str name) t session c =
     (0x80 + t) # of_nat (length name) # name @ le32 (word_of_int session) @ c"
| "request_body _ t session c = []"

lemma lpackrequest_small:
  assumes "good_addr addr" "0 < session" "session < 2 ^ 31" "length msg < MULTI_PART"
  shows "lpackrequest addr session (Some msg) (int (length msg)) =
    Inr (frame 2 (request_body addr 0 session msg), next_session session, None)"
proof -
  have s: "unat (word_of_int (int (length msg)) :: u32) = length msg"
    using assms(4) by (simp add: MULTI_PART_def unat_of_nat)
  have "as_int session = session" using assms(2,3) by (intro as_int_small) auto
  with assms s show ?thesis
    by (cases addr)
      (simp_all add: lpackrequest_def packreq_number_def packreq_string_def fill_header_be frame_def
        fill_uint32_def MULTI_PART_def Let_def ac_simps)
qed

lemma lpackrequest_large:
  assumes "good_addr addr" "0 < session" "session < 2 ^ 31"
    and "MULTI_PART \<le> length msg" "length msg < 2 ^ 32"
  shows "lpackrequest addr session (Some msg) (int (length msg)) =
    Inr (frame 2 (request_body addr 1 session (le32 (of_nat (length msg)))), next_session session,
         Some (map (frame 2) (pieces (request_part 2 session) (request_part 3 session) msg)))"
proof -
  have s: "unat (word_of_int (int (length msg)) :: u32) = length msg"
    using assms(5) by (simp add: unat_of_nat)
  have "as_int session = session" using assms(2,3) by (intro as_int_small) auto
  with assms s packreq_parts_pieces [of msg session] show ?thesis
    by (cases addr)
      (simp_all add: lpackrequest_def packreq_number_def packreq_string_def packreq_multi_def
        fill_header_be frame_def fill_uint32_def Let_def ac_simps del: packreq_parts.simps)
qed

lemma unat_of_nat_255: "n \<le> 255 \<Longrightarrow> unat (of_nat n :: byte) = n"
  by (simp add: unat_of_nat)

lemma drop_name:
  "drop (length name + 6) (x # y # name @ le32 a @ c) = c"
  "drop (6 + length name) (x # y # name @ le32 a @ c) = c"
  by (simp_all add: numeral_eq_Suc)

lemma unpack_request_small:
  assumes "good_addr addr" "0 < session" "session < 2 ^ 31" "length c < MULTI_PART"
  shows "lunpackrequest (request_body addr 0 session c) = Inr [addr, L_Int session, L_Str c]"
proof (cases addr)
  case (L_Int n)
  have "as_int (9 + int (length c)) = 9 + int (length c)"
    using assms(4) by (intro as_int_small) (auto simp: MULTI_PART_def)
  moreover have "drop 8 (le32 a @ le32 b @ c) = c" "drop 4 (le32 a @ le32 b @ c) = le32 b @ c" for a b
    by simp_all
  ultimately show ?thesis using L_Int assms
    by (simp add: lunpackrequest_def unpackreq_number_def L_Uint_of_int)
next
  case (L_Str name)
  let ?n = "length name"
  have l: "as_int (6 + (int ?n + int (length c))) = 6 + (int ?n + int (length c))"
    using assms(1,4) L_Str by (intro as_int_small) (auto simp: MULTI_PART_def)
  have n: "unat (of_nat ?n :: byte) = ?n" using assms(1) L_Str by (intro unat_of_nat_255) auto
  with L_Str assms show ?thesis
    by (simp add: lunpackrequest_def unpackreq_string_def L_Uint_of_int l n nat_int_add Let_def drop_name)
qed (use assms(1) in auto)

lemma unpack_request_large:
  assumes "good_addr addr" "0 < session" "session < 2 ^ 31"
  shows "lunpackrequest (request_body addr 1 session (le32 m)) =
    Inr [addr, L_Int session, L_Uint m, L_Bool True]"
proof (cases addr)
  case (L_Int n)
  have "drop 8 (le32 a @ le32 b @ c) = c" "drop 4 (le32 a @ le32 b @ c) = le32 b @ c" for a b c
    by simp_all
  with L_Int assms show ?thesis
    by (simp add: lunpackrequest_def unpackmreq_number_def L_Uint_of_int as_int_small)
next
  case (L_Str name)
  let ?n = "length name"
  have l: "as_int (10 + int ?n) = 10 + int ?n"
    using assms(1) L_Str by (intro as_int_small) auto
  have n: "unat (of_nat ?n :: byte) = ?n" using assms(1) L_Str by (intro unat_of_nat_255) auto
  with L_Str assms show ?thesis
    by (simp add: lunpackrequest_def unpackmreq_string_def L_Uint_of_int l n Let_def drop_name)
qed (use assms(1) in auto)

lemma request_body_bounds:
  assumes "good_addr addr" "length c < MULTI_PART"
  shows "length (request_body addr t session c) < 0x10000"
  using assms by (cases addr) (auto simp: MULTI_PART_def)

lemma request_part_bounds: "length c \<le> MULTI_PART \<Longrightarrow> length (request_part t session c) < 0x10000"
  by (simp add: request_part_def MULTI_PART_def)

lemma deframe_requests:
  assumes "\<forall>p\<in>set ps. length p < 0x10000"
  shows "deframe 2 0x10000 (concat (map (frame 2) ps)) = (ps, [], False)"
  using assms by (intro deframe_frames) auto



section \<open>Responses\<close>

lemma unpack_response_part:
  assumes "0 \<le> session" "session < 2 ^ 32"
  shows "lunpackresponse (response_part 0 (word_of_int session) c) = [L_Int session, L_Bool False, L_Str c]"
    and "t = 1 \<or> t = 4 \<Longrightarrow>
      lunpackresponse (response_part t (word_of_int session) c) = [L_Int session, L_Bool True, L_Str c]"
    and "lunpackresponse (response_part 2 (word_of_int session) (le32 n)) =
      [L_Int session, L_Bool True, L_Uint n, L_Bool True]"
    and "lunpackresponse (response_part 3 (word_of_int session) c) =
      [L_Int session, L_Bool True, L_Str c, L_Bool True]"
proof -
  have n: "(le32 w @ t # c) ! 4 = t" "drop 5 (le32 w @ t # c) = c" for w t c
    by (simp_all add: nth_append)
  note L_Uint_of_int [OF assms]
  note simps = this lunpackresponse_def response_part_def Let_def n
  show "lunpackresponse (response_part 0 (word_of_int session) c) = [L_Int session, L_Bool False, L_Str c]"
    by (simp add: simps)
  show "t = 1 \<or> t = 4 \<Longrightarrow>
      lunpackresponse (response_part t (word_of_int session) c) = [L_Int session, L_Bool True, L_Str c]"
    by (auto simp: simps)
  show "lunpackresponse (response_part 2 (word_of_int session) (le32 n)) =
      [L_Int session, L_Bool True, L_Uint n, L_Bool True]"
    by (simp add: simps)
  show "lunpackresponse (response_part 3 (word_of_int session) c) =
      [L_Int session, L_Bool True, L_Str c, L_Bool True]"
    by (simp add: simps)
qed

lemma answer_pieces:
  assumes "0 \<le> session" "session < 2 ^ 32"
  shows "session_answer (Some r)
      (pieces (response_part 3 (word_of_int session)) (response_part 4 (word_of_int session)) xs) =
    Some (True, Inr (r @ pieces L_Str L_Str xs))"
proof (induction xs arbitrary: r rule: pieces_induct)
  case (small xs)
  then show ?case by (simp add: pieces_small unpack_response_part [OF assms] arg_at_def)
next
  case (large xs)
  then show ?case by (simp add: pieces_large unpack_response_part [OF assms] arg_at_def)
qed

text \<open>
  A response is packed without an error; its packages are frames whose length fits two
  bytes. An answer of at most MULTI_PART bytes arrives as one string, a longer one as a table
  that \<open>lconcat\<close> turns back into the message, and an error text arrives cut to MULTI_PART
  bytes.
\<close>

theorem cluster_response_roundtrip:
  assumes "0 \<le> session" "session < 2 ^ 32" "length msg < 2 ^ 31"
  shows "\<exists>packed frames answer.
    lpackresponse session ok msg (length msg) = Inr packed \<and>
    deframe 2 0x10000 (case packed of Inl p \<Rightarrow> p | Inr ps \<Rightarrow> concat ps) = (frames, [], False) \<and>
    (\<forall>f\<in>set frames. arg_at (lunpackresponse f) 0 = L_Int session) \<and>
    session_answer None frames = Some (ok, answer) \<and>
    (if ok \<and> MULTI_PART < length msg
     then \<exists>t. answer = Inr t \<and> lconcat t = Inr [L_Ptr msg, L_Int (int (length msg))]
     else answer = Inl (L_Str (if ok then msg else take MULTI_PART msg)))"
proof (cases "ok \<and> MULTI_PART < length msg")
  case False
  let ?m = "if ok then msg else take MULTI_PART msg"
  let ?b = "response_part (if ok then 1 else 0) (word_of_int session) ?m"
  have l: "length ?m \<le> MULTI_PART" using False by auto
  have "lpackresponse session ok msg (length msg) = Inr (Inl (frame 2 ?b))"
    using False by (auto simp: lpackresponse_def fill_header_be frame_parts fill_uint32_def
        MULTI_PART_def Let_def add.commute)
  moreover have "deframe 2 0x10000 (frame 2 ?b) = ([?b], [], False)"
    using deframe_requests [of "[?b]"] l by (simp add: response_part_def MULTI_PART_def)
  moreover have "session_answer None [?b] = Some (ok, Inl (L_Str ?m))"
    "arg_at (lunpackresponse ?b) 0 = L_Int session"
    by (cases ok; simp add: unpack_response_part [OF assms(1,2)] arg_at_def)+
  ultimately show ?thesis using False by simp
next
  case True
  let ?w = "word_of_int session :: u32"
  let ?b = "response_part 2 ?w (le32 (of_nat (length msg)))"
  let ?ps = "pieces (response_part 3 ?w) (response_part 4 ?w) msg"
  have p: "lpackresponse session ok msg (length msg) = Inr (Inr (map (frame 2) (?b # ?ps)))"
    using True packres_parts_pieces [of msg ?w]
    by (simp add: lpackresponse_def fill_header_be frame_parts fill_uint32_def Let_def
        del: packres_parts.simps)
  have "\<forall>p\<in>set ?ps. length p < 0x10000"
    by (intro pieces_bounded) (simp_all add: response_part_def MULTI_PART_def)
  then have d: "deframe 2 0x10000 (concat (map (frame 2) (?b # ?ps))) = (?b # ?ps, [], False)"
    by (intro deframe_requests) (simp add: response_part_def)
  have "L_Uint (of_nat (length msg)) = L_Int (int (length msg))"
    using L_Uint_of_int [of "int (length msg)"] assms(3) by simp
  then have a: "session_answer None (?b # ?ps) =
      Some (True, Inr (L_Int (int (length msg)) # pieces L_Str L_Str msg))"
    by (simp add: unpack_response_part [OF assms(1,2)] answer_pieces [OF assms(1,2)] arg_at_def)
  have s: "\<forall>f\<in>set (?b # ?ps). arg_at (lunpackresponse f) 0 = L_Int session"
    using pieces_bounded [of "\<lambda>f. arg_at (lunpackresponse f) 0 = L_Int session"
        "response_part 3 ?w" "response_part 4 ?w" msg]
    by (simp add: unpack_response_part [OF assms(1,2)] arg_at_def)
  from p d a s True lconcat_pieces [OF assms(3)] show ?thesis by auto
qed

lemma cluster_response_roundtrip_witness:
  "\<exists>packed frames answer.
    lpackresponse 5 True (replicate 70000 9) 70000 = Inr packed \<and>
    deframe 2 0x10000 (case packed of Inl p \<Rightarrow> p | Inr ps \<Rightarrow> concat ps) = (frames, [], False) \<and>
    session_answer None frames = Some (True, answer) \<and>
    (\<exists>t. answer = Inr t \<and> lconcat t = Inr [L_Ptr (replicate 70000 9), L_Int 70000])"
  using cluster_response_roundtrip [of 5 "replicate 70000 9" True]
  by (auto simp: MULTI_PART_def)

section \<open>One table for all connections\<close>

text \<open>
  The reassembly table of a node is indexed by the session alone, and each peer counts
  its own sessions from 1. When two peers send large requests with the same session at the
  same time and the start of the second falls between the start and the first part of the
  first, the request that completes first is refused although every package of it
  arrived, and the last part of the other is dispatched on its own as a whole request
  to no address.
\<close>

theorem cluster_sessions_collide:
  assumes "good_addr a1" "good_addr a2" "0 < session" "session < 2 ^ 31"
    and "length m1 = MULTI_PART" "length m2 = MULTI_PART" "lr (L_Int session) = None"
  shows "\<exists>s1 p1 s2 p2.
    lpackrequest a1 session (Some m1) (int (length m1)) = Inr (frame 2 s1, next_session session, Some [frame 2 p1]) \<and>
    lpackrequest a2 session (Some m2) (int (length m2)) = Inr (frame 2 s2, next_session session, Some [frame 2 p2]) \<and>
    socket_stream lr [s1, p1] = Inr (lr, [Complete a1 (L_Int session) [L_Ptr m1, L_Int (int MULTI_PART)]]) \<and>
    socket_stream lr [s1, s2, p1, p2] =
      Inr (lr, [Refused (L_Int session), Complete (L_Bool False) (L_Int session) [L_Str m2]])"
proof -
  let ?s = "\<lambda>a. request_body a 1 session (le32 (of_nat MULTI_PART))"
  have u: "L_Uint (of_nat MULTI_PART) = L_Int (int MULTI_PART)"
    using L_Uint_of_int [of "int MULTI_PART"] by (simp add: MULTI_PART_def)
  have one: "lpackrequest a session (Some m) (int (length m)) =
      Inr (frame 2 (?s a), next_session session, Some [frame 2 (request_part 3 session m)])"
    if "good_addr a" "length m = MULTI_PART" for a m
    using lpackrequest_large [OF that(1) assms(3,4), of m] that(2)
    by (simp add: pieces_small) (simp add: MULTI_PART_def)
  have c1: "lconcat [L_Int (int MULTI_PART), L_Str m1] = Inr [L_Ptr m1, L_Int (int MULTI_PART)]"
    using lconcat_pieces [of m1] assms(5) by (simp add: pieces_small) (simp add: MULTI_PART_def)
  have c2: "lconcat [L_Int (int MULTI_PART), L_Int (int MULTI_PART), L_Str m1] = Inr []"
    by (simp add: lconcat_def as_int_small MULTI_PART_def)
  have start: "socket_data t (?s a) = Inr (t(L_Int session \<mapsto> (fst r, snd r @ [L_Int (int MULTI_PART)])), Waiting)"
    if "good_addr a" "r = (case t (L_Int session) of None \<Rightarrow> (a, []) | Some r \<Rightarrow> r)" for a t r
    using unpack_request_large [OF that(1) assms(3,4), of "of_nat MULTI_PART"] that(2)
    by (auto simp: socket_data_def u arg_at_def Let_def split: prod.splits option.splits)
  have end_alone: "socket_data lr (request_part 3 session m2) =
      Inr (lr, Complete (L_Bool False) (L_Int session) [L_Str m2])"
    using assms(6,7) by (simp add: socket_data_def unpack_request_part [OF assms(3,4)] arg_at_def)
  have "socket_stream lr [?s a1, request_part 3 session m1] =
      Inr (lr, [Complete a1 (L_Int session) [L_Ptr m1, L_Int (int MULTI_PART)]])"
    using assms(5,7)
    by (simp add: start [OF assms(1) refl] socket_part(2) [OF assms(3,4)] c1 arg_at_def fun_upd_idem)
  moreover have "socket_stream lr [?s a1, ?s a2, request_part 3 session m1, request_part 3 session m2] =
      Inr (lr, [Refused (L_Int session), Complete (L_Bool False) (L_Int session) [L_Str m2]])"
    using assms(5-7)
    by (simp add: start [OF assms(1) refl] start [OF assms(2) refl] socket_part(2) [OF assms(3,4)] c2
        arg_at_def fun_upd_idem end_alone)
  ultimately show ?thesis
    using one [OF assms(1,5)] one [OF assms(2,6)] by blast
qed

lemma cluster_sessions_collide_witness:
  "\<exists>s1 p1 s2 p2.
    lpackrequest (L_Int 5) 1 (Some (replicate MULTI_PART 7)) (int MULTI_PART) = Inr (frame 2 s1, 2, Some [frame 2 p1]) \<and>
    lpackrequest (L_Int 6) 1 (Some (replicate MULTI_PART 8)) (int MULTI_PART) = Inr (frame 2 s2, 2, Some [frame 2 p2]) \<and>
    socket_stream Map.empty [s1, p1] =
      Inr (Map.empty, [Complete (L_Int 5) (L_Int 1) [L_Ptr (replicate MULTI_PART 7), L_Int (int MULTI_PART)]]) \<and>
    socket_stream Map.empty [s1, s2, p1, p2] =
      Inr (Map.empty, [Refused (L_Int 1), Complete (L_Bool False) (L_Int 1) [L_Str (replicate MULTI_PART 8)]])"
  using cluster_sessions_collide [of "L_Int 5" "L_Int 6" 1 "replicate MULTI_PART 7" "replicate MULTI_PART 8" Map.empty]
  by (simp add: next_session_def as_int_small)

end
