(* ===== verification/Des.thy ===== *)
theory Des
  imports Mtask_Prelude
begin

text \<open>
  The DES block cipher of lualib-src/mtask_lua_crypt.c: the tables, the key schedule, the
  block function with its macros, and the chunking and padding of ldesencode and
  ldesdecode. The macros that assign to their arguments are functions from the old values
  of the pair to the new ones. \<open>n << k\<close> and \<open>n >> k\<close> on \<open>uint32_t\<close> are \<open>push_bit k n\<close> and
  \<open>drop_bit k n\<close>.
\<close>

datatype crypt_error =
    Invalid_Key_Size nat | Invalid_Des_Length nat | Invalid_Des_Text
  | Invalid_Hex_Size nat | Invalid_Hex_Text | Invalid_Uint64 | Invalid_Base64
  | Out_Of_Bounds int

section \<open>Tables\<close>

definition SB1 :: "u32 list" where
  "SB1 = [
    0x01010400, 0x00000000, 0x00010000, 0x01010404, 0x01010004, 0x00010404,
    0x00000004, 0x00010000, 0x00000400, 0x01010400, 0x01010404, 0x00000400,
    0x01000404, 0x01010004, 0x01000000, 0x00000004, 0x00000404, 0x01000400,
    0x01000400, 0x00010400, 0x00010400, 0x01010000, 0x01010000, 0x01000404,
    0x00010004, 0x01000004, 0x01000004, 0x00010004, 0x00000000, 0x00000404,
    0x00010404, 0x01000000, 0x00010000, 0x01010404, 0x00000004, 0x01010000,
    0x01010400, 0x01000000, 0x01000000, 0x00000400, 0x01010004, 0x00010000,
    0x00010400, 0x01000004, 0x00000400, 0x00000004, 0x01000404, 0x00010404,
    0x01010404, 0x00010004, 0x01010000, 0x01000404, 0x01000004, 0x00000404,
    0x00010404, 0x01010400, 0x00000404, 0x01000400, 0x01000400, 0x00000000,
    0x00010004, 0x00010400, 0x00000000, 0x01010004]"

definition SB2 :: "u32 list" where
  "SB2 = [
    0x80108020, 0x80008000, 0x00008000, 0x00108020, 0x00100000, 0x00000020,
    0x80100020, 0x80008020, 0x80000020, 0x80108020, 0x80108000, 0x80000000,
    0x80008000, 0x00100000, 0x00000020, 0x80100020, 0x00108000, 0x00100020,
    0x80008020, 0x00000000, 0x80000000, 0x00008000, 0x00108020, 0x80100000,
    0x00100020, 0x80000020, 0x00000000, 0x00108000, 0x00008020, 0x80108000,
    0x80100000, 0x00008020, 0x00000000, 0x00108020, 0x80100020, 0x00100000,
    0x80008020, 0x80100000, 0x80108000, 0x00008000, 0x80100000, 0x80008000,
    0x00000020, 0x80108020, 0x00108020, 0x00000020, 0x00008000, 0x80000000,
    0x00008020, 0x80108000, 0x00100000, 0x80000020, 0x00100020, 0x80008020,
    0x80000020, 0x00100020, 0x00108000, 0x00000000, 0x80008000, 0x00008020,
    0x80000000, 0x80100020, 0x80108020, 0x00108000]"

definition SB3 :: "u32 list" where
  "SB3 = [
    0x00000208, 0x08020200, 0x00000000, 0x08020008, 0x08000200, 0x00000000,
    0x00020208, 0x08000200, 0x00020008, 0x08000008, 0x08000008, 0x00020000,
    0x08020208, 0x00020008, 0x08020000, 0x00000208, 0x08000000, 0x00000008,
    0x08020200, 0x00000200, 0x00020200, 0x08020000, 0x08020008, 0x00020208,
    0x08000208, 0x00020200, 0x00020000, 0x08000208, 0x00000008, 0x08020208,
    0x00000200, 0x08000000, 0x08020200, 0x08000000, 0x00020008, 0x00000208,
    0x00020000, 0x08020200, 0x08000200, 0x00000000, 0x00000200, 0x00020008,
    0x08020208, 0x08000200, 0x08000008, 0x00000200, 0x00000000, 0x08020008,
    0x08000208, 0x00020000, 0x08000000, 0x08020208, 0x00000008, 0x00020208,
    0x00020200, 0x08000008, 0x08020000, 0x08000208, 0x00000208, 0x08020000,
    0x00020208, 0x00000008, 0x08020008, 0x00020200]"

definition SB4 :: "u32 list" where
  "SB4 = [
    0x00802001, 0x00002081, 0x00002081, 0x00000080, 0x00802080, 0x00800081,
    0x00800001, 0x00002001, 0x00000000, 0x00802000, 0x00802000, 0x00802081,
    0x00000081, 0x00000000, 0x00800080, 0x00800001, 0x00000001, 0x00002000,
    0x00800000, 0x00802001, 0x00000080, 0x00800000, 0x00002001, 0x00002080,
    0x00800081, 0x00000001, 0x00002080, 0x00800080, 0x00002000, 0x00802080,
    0x00802081, 0x00000081, 0x00800080, 0x00800001, 0x00802000, 0x00802081,
    0x00000081, 0x00000000, 0x00000000, 0x00802000, 0x00002080, 0x00800080,
    0x00800081, 0x00000001, 0x00802001, 0x00002081, 0x00002081, 0x00000080,
    0x00802081, 0x00000081, 0x00000001, 0x00002000, 0x00800001, 0x00002001,
    0x00802080, 0x00800081, 0x00002001, 0x00002080, 0x00800000, 0x00802001,
    0x00000080, 0x00800000, 0x00002000, 0x00802080]"

definition SB5 :: "u32 list" where
  "SB5 = [
    0x00000100, 0x02080100, 0x02080000, 0x42000100, 0x00080000, 0x00000100,
    0x40000000, 0x02080000, 0x40080100, 0x00080000, 0x02000100, 0x40080100,
    0x42000100, 0x42080000, 0x00080100, 0x40000000, 0x02000000, 0x40080000,
    0x40080000, 0x00000000, 0x40000100, 0x42080100, 0x42080100, 0x02000100,
    0x42080000, 0x40000100, 0x00000000, 0x42000000, 0x02080100, 0x02000000,
    0x42000000, 0x00080100, 0x00080000, 0x42000100, 0x00000100, 0x02000000,
    0x40000000, 0x02080000, 0x42000100, 0x40080100, 0x02000100, 0x40000000,
    0x42080000, 0x02080100, 0x40080100, 0x00000100, 0x02000000, 0x42080000,
    0x42080100, 0x00080100, 0x42000000, 0x42080100, 0x02080000, 0x00000000,
    0x40080000, 0x42000000, 0x00080100, 0x02000100, 0x40000100, 0x00080000,
    0x00000000, 0x40080000, 0x02080100, 0x40000100]"

definition SB6 :: "u32 list" where
  "SB6 = [
    0x20000010, 0x20400000, 0x00004000, 0x20404010, 0x20400000, 0x00000010,
    0x20404010, 0x00400000, 0x20004000, 0x00404010, 0x00400000, 0x20000010,
    0x00400010, 0x20004000, 0x20000000, 0x00004010, 0x00000000, 0x00400010,
    0x20004010, 0x00004000, 0x00404000, 0x20004010, 0x00000010, 0x20400010,
    0x20400010, 0x00000000, 0x00404010, 0x20404000, 0x00004010, 0x00404000,
    0x20404000, 0x20000000, 0x20004000, 0x00000010, 0x20400010, 0x00404000,
    0x20404010, 0x00400000, 0x00004010, 0x20000010, 0x00400000, 0x20004000,
    0x20000000, 0x00004010, 0x20000010, 0x20404010, 0x00404000, 0x20400000,
    0x00404010, 0x20404000, 0x00000000, 0x20400010, 0x00000010, 0x00004000,
    0x20400000, 0x00404010, 0x00004000, 0x00400010, 0x20004010, 0x00000000,
    0x20404000, 0x20000000, 0x00400010, 0x20004010]"

definition SB7 :: "u32 list" where
  "SB7 = [
    0x00200000, 0x04200002, 0x04000802, 0x00000000, 0x00000800, 0x04000802,
    0x00200802, 0x04200800, 0x04200802, 0x00200000, 0x00000000, 0x04000002,
    0x00000002, 0x04000000, 0x04200002, 0x00000802, 0x04000800, 0x00200802,
    0x00200002, 0x04000800, 0x04000002, 0x04200000, 0x04200800, 0x00200002,
    0x04200000, 0x00000800, 0x00000802, 0x04200802, 0x00200800, 0x00000002,
    0x04000000, 0x00200800, 0x04000000, 0x00200800, 0x00200000, 0x04000802,
    0x04000802, 0x04200002, 0x04200002, 0x00000002, 0x00200002, 0x04000000,
    0x04000800, 0x00200000, 0x04200800, 0x00000802, 0x00200802, 0x04200800,
    0x00000802, 0x04000002, 0x04200802, 0x04200000, 0x00200800, 0x00000000,
    0x00000002, 0x04200802, 0x00000000, 0x00200802, 0x04200000, 0x00000800,
    0x04000002, 0x04000800, 0x00000800, 0x00200002]"

definition SB8 :: "u32 list" where
  "SB8 = [
    0x10001040, 0x00001000, 0x00040000, 0x10041040, 0x10000000, 0x10001040,
    0x00000040, 0x10000000, 0x00040040, 0x10040000, 0x10041040, 0x00041000,
    0x10041000, 0x00041040, 0x00001000, 0x00000040, 0x10040000, 0x10000040,
    0x10001000, 0x00001040, 0x00041000, 0x00040040, 0x10040040, 0x10041000,
    0x00001040, 0x00000000, 0x00000000, 0x10040040, 0x10000040, 0x10001000,
    0x00041040, 0x00040000, 0x00041040, 0x00040000, 0x10041000, 0x00001000,
    0x00000040, 0x10040040, 0x00001000, 0x00041040, 0x10001000, 0x00000040,
    0x10000040, 0x10040000, 0x10040040, 0x10000000, 0x00040000, 0x10001040,
    0x00000000, 0x10041040, 0x00040040, 0x10000040, 0x10040000, 0x10001000,
    0x10001040, 0x00000000, 0x10041040, 0x00041000, 0x00041000, 0x00001040,
    0x00001040, 0x00040040, 0x10000000, 0x10041000]"

definition LHs :: "u32 list" where
  "LHs = [
    0x00000000, 0x00000001, 0x00000100, 0x00000101, 0x00010000, 0x00010001,
    0x00010100, 0x00010101, 0x01000000, 0x01000001, 0x01000100, 0x01000101,
    0x01010000, 0x01010001, 0x01010100, 0x01010101]"

definition RHs :: "u32 list" where
  "RHs = [
    0x00000000, 0x01000000, 0x00010000, 0x01010000, 0x00000100, 0x01000100,
    0x00010100, 0x01010100, 0x00000001, 0x01000001, 0x00010001, 0x01010001,
    0x00000101, 0x01000101, 0x00010101, 0x01010101]"

section \<open>Macros\<close>

text \<open>\<open>GET_UINT32(n, b, i)\<close> reads a big-endian word, \<open>PUT_UINT32\<close> writes one.\<close>

definition GET_UINT32 :: "byte list \<Rightarrow> nat \<Rightarrow> u32" where
  "GET_UINT32 b i = un_be32 (drop i b)"

definition PUT_UINT32 :: "u32 \<Rightarrow> byte list" where
  "PUT_UINT32 n = be32 n"

text \<open>
  The step that the permutations repeat,
  \<open>T = ((X >> k) ^ Y) & M; Y ^= T; X ^= (T << k);\<close>.
\<close>

definition swap_bits :: "nat \<Rightarrow> u32 \<Rightarrow> u32 \<times> u32 \<Rightarrow> u32 \<times> u32" where
  "swap_bits k M p =
     (let (X, Y) = p; T = (drop_bit k X XOR Y) AND M in (X XOR push_bit k T, Y XOR T))"

definition rotl1 :: "u32 \<Rightarrow> u32" where
  "rotl1 X = (push_bit 1 X OR drop_bit 31 X) AND 0xFFFFFFFF"

definition rotr1 :: "u32 \<Rightarrow> u32" where
  "rotr1 X = (push_bit 31 X OR drop_bit 1 X) AND 0xFFFFFFFF"

definition DES_IP :: "u32 \<times> u32 \<Rightarrow> u32 \<times> u32" where
  "DES_IP p =
     (let (X, Y) = swap_bits 16 0x0000FFFF (swap_bits 4 0x0F0F0F0F p);
          (Y, X) = swap_bits 8 0x00FF00FF (swap_bits 2 0x33333333 (Y, X));
          Y = rotl1 Y;
          (X, Y) = swap_bits 0 0xAAAAAAAA (X, Y);
          X = rotl1 X
      in (X, Y))"

definition DES_FP :: "u32 \<times> u32 \<Rightarrow> u32 \<times> u32" where
  "DES_FP p =
     (let (X, Y) = p;
          X = rotr1 X;
          (Y, X) = swap_bits 0 0xAAAAAAAA (Y, X);
          Y = rotr1 Y;
          (Y, X) = swap_bits 2 0x33333333 (swap_bits 8 0x00FF00FF (Y, X));
          (X, Y) = swap_bits 4 0x0F0F0F0F (swap_bits 16 0x0000FFFF (X, Y))
      in (X, Y))"

text \<open>What \<open>DES_ROUND(X, Y)\<close> combines with \<open>Y\<close>; \<open>SK\<close> is the pair of key words it consumes.\<close>

definition sbox :: "u32 list \<Rightarrow> nat \<Rightarrow> u32 \<Rightarrow> u32" where
  "sbox SB i T = SB ! unat (drop_bit i T AND 0x3F)"

definition round_mask :: "u32 \<times> u32 \<Rightarrow> u32 \<Rightarrow> u32" where
  "round_mask SK X =
     (let T = fst SK XOR X;
          U = snd SK XOR (push_bit 28 X OR drop_bit 4 X)
      in sbox SB8 0 T XOR sbox SB6 8 T XOR sbox SB4 16 T XOR sbox SB2 24 T XOR
         sbox SB7 0 U XOR sbox SB5 8 U XOR sbox SB3 16 U XOR sbox SB1 24 U)"

definition DES_ROUND :: "u32 \<times> u32 \<Rightarrow> u32 \<Rightarrow> u32 \<Rightarrow> u32" where
  "DES_ROUND SK X Y = Y XOR round_mask SK X"

section \<open>Key schedule\<close>

definition half_lookup :: "u32 list \<Rightarrow> u32 \<Rightarrow> (nat \<times> nat) list \<Rightarrow> u32" where
  "half_lookup H W shifts = foldr (\<lambda>(r, l) a. push_bit l (H ! unat (drop_bit r W AND 0xF)) OR a) shifts 0"

text \<open>A subkey word is a disjunction of masked shifts; \<open>shl\<close>, \<open>shr\<close> list them with their masks.\<close>

definition shl :: "u32 \<Rightarrow> (nat \<times> u32) list \<Rightarrow> u32" where
  "shl W ms = foldr (\<lambda>(k, m) a. (push_bit k W AND m) OR a) ms 0"

definition shr :: "u32 \<Rightarrow> (nat \<times> u32) list \<Rightarrow> u32" where
  "shr W ms = foldr (\<lambda>(k, m) a. (drop_bit k W AND m) OR a) ms 0"

definition rot28 :: "nat \<Rightarrow> u32 \<Rightarrow> u32" where
  "rot28 k X = (push_bit k X OR drop_bit (28 - k) X) AND 0x0FFFFFFF"

definition subkey :: "u32 \<Rightarrow> u32 \<Rightarrow> u32 \<times> u32" where
  "subkey X Y =
     (shl X [(4, 0x24000000), (28, 0x10000000), (14, 0x08000000), (18, 0x02080000),
             (6, 0x01000000), (9, 0x00200000), (10, 0x00040000), (2, 0x00020000)] OR
      shr X [(1, 0x00100000), (10, 0x00010000)] OR
      shr Y [(13, 0x00002000), (4, 0x00001000), (1, 0x00000400), (14, 0x00000200),
             (0, 0x00000100), (5, 0x00000020), (10, 0x00000010), (3, 0x00000008),
             (18, 0x00000004), (26, 0x00000002), (24, 0x00000001)] OR
      shl Y [(6, 0x00000800)],
      shl X [(15, 0x20000000), (17, 0x10000000), (10, 0x08000000), (22, 0x04000000),
             (1, 0x01000000), (16, 0x00200000), (11, 0x00100000), (3, 0x00080000),
             (15, 0x00020000)] OR
      shr X [(2, 0x02000000), (6, 0x00040000), (4, 0x00010000)] OR
      shr Y [(2, 0x00002000), (14, 0x00000808), (9, 0x00000400), (0, 0x00000200),
             (7, 0x00000020), (3, 0x00000011), (21, 0x00000002)] OR
      shl Y [(8, 0x00001000), (7, 0x00000100), (2, 0x00000004)])"

fun subkeys :: "nat list \<Rightarrow> u32 \<Rightarrow> u32 \<Rightarrow> (u32 \<times> u32) list" where
  "subkeys [] X Y = []"
| "subkeys (i # is) X Y =
     (let k = (if i < 2 \<or> i = 8 \<or> i = 15 then 1 else 2); X = rot28 k X; Y = rot28 k Y
      in subkey X Y # subkeys is X Y)"

text \<open>The 32 words of \<open>SK\<close> are kept as the 16 pairs that the rounds consume.\<close>

definition des_main_ks :: "byte list \<Rightarrow> (u32 \<times> u32) list" where
  "des_main_ks key =
     (let X = GET_UINT32 key 0; Y = GET_UINT32 key 4;
          (Y, X) = swap_bits 4 0x0F0F0F0F (Y, X);
          (Y, X) = swap_bits 0 0x10101010 (Y, X);
          X' = half_lookup LHs X [(0, 3), (8, 2), (16, 1), (24, 0), (5, 7), (13, 6), (21, 5), (29, 4)];
          Y' = half_lookup RHs Y [(1, 3), (9, 2), (17, 1), (25, 0), (4, 7), (12, 6), (20, 5), (28, 4)]
      in subkeys [0..<16] (X' AND 0x0FFFFFFF) (Y' AND 0x0FFFFFFF))"

section \<open>Blocks\<close>

text \<open>\<open>DES_ROUND(Y, X); DES_ROUND(X, Y);\<close> for every two pairs of the schedule.\<close>

fun des_rounds :: "(u32 \<times> u32) list \<Rightarrow> u32 \<times> u32 \<Rightarrow> u32 \<times> u32" where
  "des_rounds (k1 # k2 # SK) (X, Y) =
     (let X = DES_ROUND k1 Y X; Y = DES_ROUND k2 X Y in des_rounds SK (X, Y))"
| "des_rounds _ p = p"

definition des_crypt :: "(u32 \<times> u32) list \<Rightarrow> byte list \<Rightarrow> byte list" where
  "des_crypt SK input =
     (let X = GET_UINT32 input 0; Y = GET_UINT32 input 4;
          (X, Y) = des_rounds SK (DES_IP (X, Y));
          (Y, X) = DES_FP (Y, X)
      in PUT_UINT32 Y @ PUT_UINT32 X)"

section \<open>Texts\<close>

definition des_key :: "byte list \<Rightarrow> crypt_error + (u32 \<times> u32) list" where
  "des_key key = (if length key \<noteq> 8 then Inl (Invalid_Key_Size (length key)) else Inr (des_main_ks key))"

text \<open>Whole blocks, then the tail with the mark 0x80 and zeros.\<close>

definition des_tail :: "byte list \<Rightarrow> byte list" where
  "des_tail bytes =
     map (\<lambda>j. if j < length bytes then bytes ! j else if j = length bytes then 0x80 else 0) [0..<8]"

function encode_blocks :: "(u32 \<times> u32) list \<Rightarrow> byte list \<Rightarrow> byte list" where
  "encode_blocks SK text =
     (if 8 \<le> length text then des_crypt SK (take 8 text) @ encode_blocks SK (drop 8 text)
      else des_crypt SK (des_tail text))"
  by pat_completeness auto
termination by (relation "measure (\<lambda>(SK, text). length text)") auto

declare encode_blocks.simps [simp del]

definition ldesencode :: "byte list \<Rightarrow> byte list \<Rightarrow> crypt_error + byte list" where
  "ldesencode key text = on_ok (des_key key) (\<lambda>SK. Inr (encode_blocks SK text))"

function decode_blocks :: "(u32 \<times> u32) list \<Rightarrow> byte list \<Rightarrow> byte list" where
  "decode_blocks SK text =
     (if text = [] then [] else des_crypt SK (take 8 text) @ decode_blocks SK (drop 8 text))"
  by pat_completeness auto
termination by (relation "measure (\<lambda>(SK, text). length text)") auto

declare decode_blocks.simps [simp del]

text \<open>
  The search for the mark, from the end: \<open>i\<close> is an \<open>int\<close> that the loop condition
  compares as \<open>size_t\<close>.
\<close>

function pad_loop :: "byte list \<Rightarrow> int \<Rightarrow> nat \<Rightarrow> crypt_error + nat" where
  "pad_loop buffer i padding =
     (if (word_of_int i :: u64) < of_nat (length buffer) - 8 then Inr padding
      else if i < 0 \<or> int (length buffer) \<le> i then Inl (Out_Of_Bounds i)
      else if buffer ! nat i = 0 then pad_loop buffer (i - 1) (padding + 1)
      else if buffer ! nat i = 0x80 then Inr padding
      else Inl Invalid_Des_Text)"
  by pat_completeness auto
termination by (relation "measure (\<lambda>(buffer, i, padding). nat (i + 1))") auto

declare pad_loop.simps [simp del]

definition ldesdecode :: "byte list \<Rightarrow> byte list \<Rightarrow> crypt_error + byte list" where
  "ldesdecode key text =
     on_ok (des_key key) (\<lambda>ESK.
       let SK = rev ESK in
       if length text mod 8 \<noteq> 0 \<or> length text = 0 then Inl (Invalid_Des_Length (length text))
       else let buffer = decode_blocks SK text in
         on_ok (pad_loop buffer (int (length text) - 1) 1) (\<lambda>padding.
           if 8 < padding then Inl Invalid_Des_Text
           else Inr (take (length text - padding) buffer)))"

end
