(* ===== verification/Des_Inverse.thy ===== *)
theory Des_Inverse
  imports Des
begin

text \<open>
  Decryption undoes encryption: the permutations are built from steps that are their own
  inverse, the rounds are a Feistel network that the reversed key schedule runs backwards,
  and the padding mark is found again. The tables play no part in it.
\<close>

section \<open>The permutations\<close>

lemma drop_push_mask:
  assumes "take_bit (32 - k) M = (M :: u32)"
  shows "drop_bit k (push_bit k (T AND M)) = T AND M"
proof (rule bit_word_eqI)
  fix n assume n: "n < LENGTH(32)"
  have "bit M n \<Longrightarrow> n < 32 - k" by (subst (asm) assms [symmetric]) (simp add: bit_simps)
  with n show "bit (drop_bit k (push_bit k (T AND M))) n = bit (T AND M) n"
    by (auto simp: bit_simps)
qed

lemma swap_bits_inverse:
  assumes "take_bit (32 - k) M = M"
  shows "swap_bits k M (swap_bits k M p) = p"
proof -
  obtain X Y where p: "p = (X, Y)" by (cases p)
  let ?T = "(drop_bit k X XOR Y) AND M"
  have "(drop_bit k (X XOR push_bit k ?T) XOR (Y XOR ?T)) AND M = ?T"
  proof (rule bit_word_eqI)
    fix n assume "n < LENGTH(32)"
    have "bit (drop_bit k (push_bit k ?T)) n = bit ?T n" by (simp only: drop_push_mask [OF assms])
    then show "bit ((drop_bit k (X XOR push_bit k ?T) XOR (Y XOR ?T)) AND M) n = bit ?T n"
      unfolding drop_bit_xor by (simp only: bit_simps) blast
  qed
  note T = this
  show ?thesis
    by (simp only: p swap_bits_def Let_def prod.case T xor.assoc xor_self_eq xor.right_neutral)
qed

lemma rot_inverse [simp]: "rotr1 (rotl1 X) = X" "rotl1 (rotr1 X) = X"
proof -
  have m: "(0xFFFFFFFF :: u32) = mask 32" by (simp add: mask_eq_exp_minus_1)
  have b: "bit (rotl1 X) n = (if n = 0 then bit X 31 else bit X (n - 1))"
    "bit (rotr1 X) n = (if n = 31 then bit X 0 else bit X (n + 1))" if "n < 32" for n X
    using that unfolding rotl1_def rotr1_def m bit_and_iff bit_or_iff bit_push_bit_iff bit_drop_bit_eq
      bit_mask_iff comp_def by (auto dest: bit_imp_le_length)
  show "rotr1 (rotl1 X) = X" by (rule bit_word_eqI) (auto simp: b)
  show "rotl1 (rotr1 X) = X" by (rule bit_word_eqI) (auto simp: b)
qed

lemma swap_back:
  "swap_bits 4 0x0F0F0F0F (swap_bits 4 0x0F0F0F0F p) = p"
  "swap_bits 16 0x0000FFFF (swap_bits 16 0x0000FFFF p) = p"
  "swap_bits 2 0x33333333 (swap_bits 2 0x33333333 p) = p"
  "swap_bits 8 0x00FF00FF (swap_bits 8 0x00FF00FF p) = p"
  "swap_bits 0 0xAAAAAAAA (swap_bits 0 0xAAAAAAAA p) = p"
  by (rule swap_bits_inverse, simp)+

lemma swap_sym: "swap_bits 0 M (Y, X) = prod.swap (swap_bits 0 M (X, Y))"
  by (simp add: swap_bits_def Let_def xor.commute)

lemma FP_IP: "DES_FP (DES_IP p) = p"
proof -
  obtain X1 Y1 where 1: "swap_bits 16 0x0000FFFF (swap_bits 4 0x0F0F0F0F p) = (X1, Y1)"
    by (cases "swap_bits 16 0x0000FFFF (swap_bits 4 0x0F0F0F0F p)")
  obtain Y2 X2 where 2: "swap_bits 8 0x00FF00FF (swap_bits 2 0x33333333 (Y1, X1)) = (Y2, X2)"
    by (cases "swap_bits 8 0x00FF00FF (swap_bits 2 0x33333333 (Y1, X1))")
  obtain X3 Y3 where 3: "swap_bits 0 0xAAAAAAAA (X2, rotl1 Y2) = (X3, Y3)"
    by (cases "swap_bits 0 0xAAAAAAAA (X2, rotl1 Y2)")
  have "swap_bits 0 0xAAAAAAAA (Y3, X3) = (rotl1 Y2, X2)"
    using swap_back(5) [of "(X2, rotl1 Y2)"] by (simp add: 3 swap_sym [of _ Y3 X3])
  moreover have "swap_bits 2 0x33333333 (swap_bits 8 0x00FF00FF (Y2, X2)) = (Y1, X1)"
    unfolding 2 [symmetric] swap_back ..
  moreover have "swap_bits 4 0x0F0F0F0F (swap_bits 16 0x0000FFFF (X1, Y1)) = p"
    unfolding 1 [symmetric] swap_back ..
  ultimately show ?thesis by (simp add: DES_IP_def DES_FP_def 1 2 3)
qed

lemma IP_FP: "DES_IP (DES_FP p) = p"
proof -
  obtain X Y where p: "p = (X, Y)" by (cases p)
  obtain Y1 X1 where 1: "swap_bits 0 0xAAAAAAAA (Y, rotr1 X) = (Y1, X1)"
    by (cases "swap_bits 0 0xAAAAAAAA (Y, rotr1 X)")
  obtain Y2 X2 where 2: "swap_bits 2 0x33333333 (swap_bits 8 0x00FF00FF (rotr1 Y1, X1)) = (Y2, X2)"
    by (cases "swap_bits 2 0x33333333 (swap_bits 8 0x00FF00FF (rotr1 Y1, X1))")
  obtain X3 Y3 where 3: "swap_bits 4 0x0F0F0F0F (swap_bits 16 0x0000FFFF (X2, Y2)) = (X3, Y3)"
    by (cases "swap_bits 4 0x0F0F0F0F (swap_bits 16 0x0000FFFF (X2, Y2))")
  have "swap_bits 16 0x0000FFFF (swap_bits 4 0x0F0F0F0F (X3, Y3)) = (X2, Y2)"
    unfolding 3 [symmetric] swap_back ..
  moreover have "swap_bits 8 0x00FF00FF (swap_bits 2 0x33333333 (Y2, X2)) = (rotr1 Y1, X1)"
    unfolding 2 [symmetric] swap_back ..
  moreover have "swap_bits 0 0xAAAAAAAA (X1, Y1) = (rotr1 X, Y)"
    using swap_back(5) [of "(Y, rotr1 X)"] by (simp add: 1 swap_sym [of _ X1 Y1])
  ultimately show ?thesis by (simp add: DES_IP_def DES_FP_def 1 2 3 p)
qed

section \<open>The rounds\<close>

lemma xor_twice: "(x XOR y) XOR y = (x :: 'a::len word)"
  by (simp add: xor.assoc)

lemma des_rounds_append:
  "even (length ks) \<Longrightarrow> des_rounds (ks @ ls) p = des_rounds ls (des_rounds ks p)"
  by (induction ks p rule: des_rounds.induct) (auto simp: Let_def)

text \<open>With the halves exchanged, the reversed schedule undoes the rounds.\<close>

lemma des_rounds_reverse:
  "even (length SK) \<Longrightarrow> des_rounds (rev SK) (prod.swap (des_rounds SK p)) = prod.swap p"
proof (induction SK p rule: des_rounds.induct)
  case (1 k1 k2 SK X Y)
  let ?X = "DES_ROUND k1 Y X" let ?Y = "DES_ROUND k2 ?X Y"
  have "des_rounds (rev SK) (prod.swap (des_rounds SK (?X, ?Y))) = (?Y, ?X)"
    using 1 by simp
  then have "des_rounds (rev (k1 # k2 # SK)) (prod.swap (des_rounds (k1 # k2 # SK) (X, Y))) =
      des_rounds [k2, k1] (?Y, ?X)"
    using 1 by (simp add: des_rounds_append Let_def)
  then show ?case by (simp add: DES_ROUND_def xor_twice Let_def)
qed auto

section \<open>Blocks and texts\<close>

lemma length_des_crypt [simp]: "length (des_crypt SK b) = 8"
  by (simp add: des_crypt_def PUT_UINT32_def split: prod.splits)

lemma block_words:
  assumes "length b = 8"
  shows "be32 (GET_UINT32 b 0) @ be32 (GET_UINT32 b 4) = b"
proof -
  have "un_be32 b = un_be32 (take 4 b)" using assms by (simp add: un_be32_def)
  then have "be32 (GET_UINT32 b 0) = take 4 b" "be32 (GET_UINT32 b 4) = drop 4 b"
    using assms by (simp_all add: GET_UINT32_def be32_un_be32)
  then show ?thesis by simp
qed

lemma words_block [simp]: "GET_UINT32 (be32 X @ r) 0 = X" "GET_UINT32 (be32 X @ be32 Y) 4 = Y"
proof -
  have "un_be32 (be32 X @ r) = un_be32 (be32 X)" by (simp add: un_be32_def be32_def)
  then show "GET_UINT32 (be32 X @ r) 0 = X" "GET_UINT32 (be32 X @ be32 Y) 4 = Y"
    by (simp_all add: GET_UINT32_def)
qed

lemma des_crypt_inverse:
  assumes "length b = 8" "even (length SK)"
  shows "des_crypt (rev SK) (des_crypt SK b) = b"
proof -
  let ?p = "(GET_UINT32 b 0, GET_UINT32 b 4)"
  obtain X Y where r: "des_rounds SK (DES_IP ?p) = (X, Y)"
    by (cases "des_rounds SK (DES_IP ?p)")
  obtain Y' X' where f: "DES_FP (Y, X) = (Y', X')" by (cases "DES_FP (Y, X)")
  then have e: "des_crypt SK b = be32 Y' @ be32 X'"
    by (simp add: des_crypt_def r PUT_UINT32_def)
  have "DES_IP (Y', X') = (Y, X)" using IP_FP [of "(Y, X)"] by (simp add: f)
  moreover have "des_rounds (rev SK) (Y, X) = prod.swap (DES_IP ?p)"
    using des_rounds_reverse [OF assms(2), of "DES_IP ?p"] by (simp add: r)
  moreover have "DES_FP (prod.swap (prod.swap (DES_IP ?p))) = ?p" by (simp add: FP_IP)
  ultimately have "des_crypt (rev SK) (be32 Y' @ be32 X') = be32 (fst ?p) @ be32 (snd ?p)"
    by (cases "DES_IP ?p") (simp add: des_crypt_def PUT_UINT32_def)
  with e block_words [OF assms(1)] show ?thesis by simp
qed

lemma length_subkeys [simp]: "length (subkeys is X Y) = length is"
  by (induction "is" arbitrary: X Y) (auto simp: Let_def)

lemma length_key_schedule [simp]: "length (des_main_ks key) = 16"
  by (simp add: des_main_ks_def split: prod.splits)

definition des_pad :: "byte list \<Rightarrow> byte list" where
  "des_pad text = text @ 0x80 # replicate (7 - length text mod 8) 0"

lemma length_des_pad: "length (des_pad text) = 8 * (length text div 8 + 1)"
proof -
  have "length text mod 8 < 8" by simp
  then have "length (des_pad text) = length text + 8 - length text mod 8" by (simp add: des_pad_def)
  also have "\<dots> = 8 * (length text div 8 + 1)"
    using mult_div_mod_eq [of 8 "length text"] unfolding distrib_left by linarith
  finally show ?thesis .
qed

lemma des_tail_pad:
  assumes "length t < 8"
  shows "des_tail t = des_pad t"
proof (rule nth_equalityI)
  show "length (des_tail t) = length (des_pad t)" using assms by (simp add: des_tail_def des_pad_def)
  fix j assume "j < length (des_tail t)"
  then have "j < 8" by (simp add: des_tail_def)
  then show "des_tail t ! j = des_pad t ! j"
    using assms by (auto simp: des_tail_def des_pad_def nth_append nth_Cons')
qed

lemma encode_pad: "encode_blocks SK text = decode_blocks SK (des_pad text)"
proof (induction SK "text" rule: encode_blocks.induct)
  case (1 SK "text")
  show ?case
  proof (cases "8 \<le> length text")
    case True
    then have "drop 8 (des_pad text) = des_pad (drop 8 text)" "take 8 (des_pad text) = take 8 text"
      by (simp_all add: des_pad_def le_mod_geq)
    with 1 True show ?thesis
      by (subst encode_blocks.simps, subst decode_blocks.simps) (simp add: des_pad_def)
  next
    case False
    then have "drop 8 (des_pad text) = []" "take 8 (des_pad text) = des_pad text"
      by (simp_all add: des_pad_def)
    with False show ?thesis
      by (subst encode_blocks.simps, subst decode_blocks.simps)
        (simp add: decode_blocks.simps des_tail_pad, simp add: des_pad_def)
  qed
qed

lemma decode_inverse:
  "8 dvd length p \<Longrightarrow> even (length SK) \<Longrightarrow> decode_blocks (rev SK) (decode_blocks SK p) = p"
proof (induction SK p rule: decode_blocks.induct)
  case (1 SK p)
  show ?case
  proof (cases "p = []")
    case True
    then show ?thesis by (simp add: decode_blocks.simps)
  next
    case False
    with 1(2) have l: "8 \<le> length p" by (metis dvd_imp_le length_greater_0_conv)
    with 1(2) have "8 dvd length (drop 8 p)" by (simp add: dvd_diff_nat)
    with 1 False have IH: "decode_blocks (rev SK) (decode_blocks SK (drop 8 p)) = drop 8 p" by simp
    have "decode_blocks SK p = des_crypt SK (take 8 p) @ decode_blocks SK (drop 8 p)"
      using False by (subst decode_blocks.simps) simp
    then have "decode_blocks (rev SK) (decode_blocks SK p) =
        des_crypt (rev SK) (des_crypt SK (take 8 p)) @ drop 8 p"
      by (subst decode_blocks.simps) (auto simp: IH dest: arg_cong [where f = length])
    also have "\<dots> = p" using l 1(3) by (simp add: des_crypt_inverse)
    finally show ?thesis .
  qed
qed

lemma length_decode: "8 dvd length p \<Longrightarrow> length (decode_blocks SK p) = length p"
proof (induction SK p rule: decode_blocks.induct)
  case (1 SK p)
  show ?case
  proof (cases "p = []")
    case True
    then show ?thesis by (simp add: decode_blocks.simps)
  next
    case False
    with 1(2) have l: "8 \<le> length p" by (metis dvd_imp_le length_greater_0_conv)
    with 1(2) have "8 dvd length (drop 8 p)" by (simp add: dvd_diff_nat)
    with 1 False have "length (decode_blocks SK (drop 8 p)) = length p - 8" by simp
    with False l show ?thesis by (subst decode_blocks.simps) simp
  qed
qed

text \<open>The comparison of the search loop, for a buffer of less than 2^63 bytes.\<close>

lemma pad_bound:
  assumes "8 \<le> n" "n < 2 ^ 63" "0 \<le> i" "i < int n"
  shows "(word_of_int i :: u64) < of_nat n - 8 \<longleftrightarrow> i < int n - 8"
proof -
  have "(of_nat n - 8 :: u64) = of_nat (n - 8)" using assms(1) by (simp add: of_nat_diff)
  moreover have "(word_of_int i :: u64) = of_nat (nat i)" using assms(3) by simp
  moreover have "n - 8 < 2 ^ 64" "nat i < 2 ^ 64" using assms by simp_all
  then have "unat (of_nat (n - 8) :: u64) = n - 8" "unat (of_nat (nat i) :: u64) = nat i"
    by (simp_all only: unat_u64)
  ultimately show ?thesis using assms by (simp add: word_less_nat_alt) linarith
qed

lemma pad_loop_finds:
  assumes "length buffer < 2 ^ 63" "8 \<le> length buffer" "z < 8" "k \<le> z"
    and "buffer ! (length buffer - 1 - z) = 0x80"
    and "\<forall>j<z. buffer ! (length buffer - 1 - j) = 0"
  shows "pad_loop buffer (int (length buffer) - 1 - int k) (1 + k) = Inr (1 + z)"
  using assms(4)
proof (induction "z - k" arbitrary: k)
  case 0
  with assms have "\<not> (word_of_int (int (length buffer) - 1 - int k) :: u64) < of_nat (length buffer) - 8"
    by (subst pad_bound) auto
  moreover have "nat (int (length buffer) - 1 - int k) = length buffer - 1 - k" by simp
  ultimately show ?case using 0 assms by (subst pad_loop.simps) auto
next
  case (Suc d)
  with assms have "\<not> (word_of_int (int (length buffer) - 1 - int k) :: u64) < of_nat (length buffer) - 8"
    by (subst pad_bound) auto
  moreover have "nat (int (length buffer) - 1 - int k) = length buffer - 1 - k" by simp
  moreover have "buffer ! (length buffer - 1 - k) = 0" using Suc assms(6) by auto
  moreover have "pad_loop buffer (int (length buffer) - 1 - int (Suc k)) (1 + Suc k) = Inr (1 + z)"
    using Suc by (intro Suc.hyps) auto
  ultimately show ?case using Suc.hyps(2) Suc.prems assms(2,3)
    by (subst pad_loop.simps) (auto simp: algebra_simps)
qed

text \<open>
  C31. Decrypting with the key of the encryption gives the text back, for every key of 8 bytes
  and every text; a key of another size is refused by both.
\<close>

theorem des_roundtrip:
  assumes "length key = 8" "length text < 2 ^ 31"
  shows "\<exists>code. ldesencode key text = Inr code \<and>
    length code = 8 * (length text div 8 + 1) \<and> ldesdecode key code = Inr text"
proof -
  let ?SK = "des_main_ks key" let ?p = "des_pad text" let ?z = "7 - length text mod 8"
  have l: "length ?p = 8 * (length text div 8 + 1)" by (rule length_des_pad)
  then have d: "8 dvd length ?p" by simp
  let ?code = "decode_blocks ?SK ?p"
  have c: "length ?code = length ?p" by (rule length_decode [OF d])
  have b: "decode_blocks (rev ?SK) ?code = ?p" by (intro decode_inverse d) simp
  have "8 * (length text div 8 + 1) < 2 ^ 63" using assms(2) by simp
  then have "pad_loop ?p (int (length ?p) - 1 - int 0) (1 + 0) = Inr (1 + ?z)"
    unfolding l [symmetric]
  proof (rule pad_loop_finds)
    have rev: "rev ?p = replicate ?z 0 @ 0x80 # rev text" by (simp add: des_pad_def)
    have r: "?p ! (length ?p - 1 - j) = rev ?p ! j" if "j < length ?p" for j
      using that by (simp add: rev_nth)
    show "?p ! (length ?p - 1 - ?z) = 0x80"
      by (subst r) (simp_all add: l rev nth_append)
    show "\<forall>j<?z. ?p ! (length ?p - 1 - j) = 0"
    proof (intro allI impI)
      fix j assume "j < ?z"
      then show "?p ! (length ?p - 1 - j) = 0" by (subst r) (simp_all add: l rev nth_append)
    qed
  qed (simp_all add: l)
  then have "ldesdecode key ?code = Inr (take (length ?p - (1 + ?z)) ?p)"
    using assms(1) c b by (simp add: ldesdecode_def des_key_def l Let_def)
  moreover have "length ?p - (1 + ?z) = length text" by (simp add: des_pad_def)
  then have "take (length ?p - (1 + ?z)) ?p = text" by (simp add: des_pad_def)
  ultimately show ?thesis
    using assms(1) c l by (simp add: ldesencode_def des_key_def encode_pad)
qed

lemma des_roundtrip_witness:
  "\<exists>code. ldesencode [1, 2, 3, 4, 5, 6, 7, 8] [104, 105] = Inr code \<and> length code = 8 \<and>
     ldesdecode [1, 2, 3, 4, 5, 6, 7, 8] code = Inr [104, 105]"
  using des_roundtrip [of "[1, 2, 3, 4, 5, 6, 7, 8]" "[104, 105]"] by simp

text \<open>
  The search for the padding mark runs on below the buffer when a text of a single block
  decrypts to eight zeros: its bound \<open>textsz - 8\<close> is 0 and the index is compared as an unsigned
  number, so the loop reads the byte before the buffer.
\<close>

theorem des_decode_underrun:
  assumes "length key = 8"
  shows "\<exists>code. length code = 8 \<and> ldesdecode key code = Inl (Out_Of_Bounds (-1))"
proof -
  let ?SK = "des_main_ks key" let ?z = "replicate 8 0 :: byte list"
  have "des_crypt (rev ?SK) (des_crypt ?SK ?z) = ?z" by (intro des_crypt_inverse) simp_all
  then have "decode_blocks (rev ?SK) (des_crypt ?SK ?z) = ?z"
    by (subst decode_blocks.simps) (auto simp: decode_blocks.simps dest: arg_cong [where f = length])
  moreover have "pad_loop ?z 7 1 = Inl (Out_Of_Bounds (-1))"
    by (simp add: pad_loop.simps numeral_eq_Suc)
  ultimately have "ldesdecode key (des_crypt ?SK ?z) = Inl (Out_Of_Bounds (-1))"
    using assms by (simp add: ldesdecode_def des_key_def)
  then show ?thesis by (intro exI [of _ "des_crypt ?SK ?z"]) simp
qed

lemma des_decode_underrun_witness:
  "\<exists>code. length code = 8 \<and> ldesdecode [0, 0, 0, 0, 0, 0, 0, 0] code = Inl (Out_Of_Bounds (-1))"
  by (rule des_decode_underrun) simp

end
