(* ===== verification/Crypt.thy ===== *)
theory Crypt
  imports Des C_Library "HOL-Library.Monad_Syntax"
begin

text \<open>
  The other operations of lualib-src/mtask_lua_crypt.c: hash keys, hexadecimal and base64
  text, the 64 bit message authentication code and the Diffie-Hellman exchange. A function
  of the Lua API takes the strings it is given and returns the string it pushes or the
  error it raises. A text is followed by the 0 that ends every Lua string.
\<close>

section \<open>Words of eight bytes\<close>

definition read_word :: "byte list \<Rightarrow> nat \<Rightarrow> u32" where
  "read_word x i = un_le32 (drop i x)"

definition read64 :: "byte list \<Rightarrow> byte list \<Rightarrow> crypt_error + (u32 \<times> u32) \<times> (u32 \<times> u32)" where
  "read64 x y =
     (if length x \<noteq> 8 then Inl Invalid_Uint64
      else if length y \<noteq> 8 then Inl Invalid_Uint64
      else Inr ((read_word x 0, read_word x 4), (read_word y 0, read_word y 4)))"

definition pushqword :: "u32 \<times> u32 \<Rightarrow> byte list" where
  "pushqword result = le32 (fst result) @ le32 (snd result)"

definition push64 :: "u64 \<Rightarrow> byte list" where
  "push64 r = le64 r"

section \<open>Hash keys\<close>

fun hash_loop :: "byte list \<Rightarrow> u32 \<Rightarrow> u32 \<Rightarrow> u32 \<times> u32" where
  "hash_loop [] djb_hash js_hash = (djb_hash, js_hash)"
| "hash_loop (c # cs) djb_hash js_hash =
     hash_loop cs (djb_hash + (push_bit 5 djb_hash + ucast c))
       (js_hash XOR (push_bit 5 js_hash + ucast c + drop_bit 2 js_hash))"

definition Hash :: "byte list \<Rightarrow> byte list" where
  "Hash key = (let (djb_hash, js_hash) = hash_loop key 5381 1315423911 in le32 djb_hash @ le32 js_hash)"

definition lhashkey :: "byte list \<Rightarrow> byte list" where
  "lhashkey key = Hash key"

definition lrandomkey :: "int list \<Rightarrow> byte list" where
  "lrandomkey random = map (\<lambda>i. of_int (random ! i AND 0xff)) [0..<8]"

section \<open>Hexadecimal text\<close>

definition hex :: "byte list" where
  "hex = str ''0123456789abcdef''"

definition ltohex :: "byte list \<Rightarrow> byte list" where
  "ltohex text = concat (map (\<lambda>b. [hex ! unat (drop_bit 4 b), hex ! unat (b AND 0xf)]) text)"

definition HEX :: "byte \<Rightarrow> byte" where
  "HEX c = (if 48 \<le> c \<and> c \<le> 57 then c - 48 else c - 97 + 10)"

text \<open>The loop reads two characters at a time, at the end of an odd text the final 0.\<close>

definition hex_pair :: "byte \<Rightarrow> byte \<Rightarrow> byte option" where
  "hex_pair a b =
     (let hi = HEX a; low = HEX b in
      if 16 < hi \<or> 16 < low then None else Some (push_bit 4 hi OR low))"

fun fromhex_loop :: "byte list \<Rightarrow> crypt_error + byte list" where
  "fromhex_loop [] = Inr []"
| "fromhex_loop [a] = (case hex_pair a 0 of None \<Rightarrow> Inl Invalid_Hex_Text | Some v \<Rightarrow> Inr [v])"
| "fromhex_loop (a # b # text) =
     (case hex_pair a b of
        None \<Rightarrow> Inl Invalid_Hex_Text
      | Some v \<Rightarrow> on_ok (fromhex_loop text) (\<lambda>buffer. Inr (v # buffer)))"

definition lfromhex :: "byte list \<Rightarrow> crypt_error + byte list" where
  "lfromhex text =
     (if (of_nat (length text) :: u64) AND 2 \<noteq> 0 then Inl (Invalid_Hex_Size (length text))
      else fromhex_loop text)"

section \<open>Message authentication\<close>

definition k_table :: "u32 list" where
  "k_table = [
    0xd76aa478, 0xe8c7b756, 0x242070db, 0xc1bdceee, 0xf57c0faf, 0x4787c62a,
    0xa8304613, 0xfd469501, 0x698098d8, 0x8b44f7af, 0xffff5bb1, 0x895cd7be,
    0x6b901122, 0xfd987193, 0xa679438e, 0x49b40821, 0xf61e2562, 0xc040b340,
    0x265e5a51, 0xe9b6c7aa, 0xd62f105d, 0x02441453, 0xd8a1e681, 0xe7d3fbc8,
    0x21e1cde6, 0xc33707d6, 0xf4d50d87, 0x455a14ed, 0xa9e3e905, 0xfcefa3f8,
    0x676f02d9, 0x8d2a4c8a, 0xfffa3942, 0x8771f681, 0x6d9d6122, 0xfde5380c,
    0xa4beea44, 0x4bdecfa9, 0xf6bb4b60, 0xbebfbc70, 0x289b7ec6, 0xeaa127fa,
    0xd4ef3085, 0x04881d05, 0xd9d4d039, 0xe6db99e5, 0x1fa27cf8, 0xc4ac5665,
    0xf4292244, 0x432aff97, 0xab9423a7, 0xfc93a039, 0x655b59c3, 0x8f0ccc92,
    0xffeff47d, 0x85845dd1, 0x6fa87e4f, 0xfe2ce6e0, 0xa3014314, 0x4e0811a1,
    0xf7537e82, 0xbd3af235, 0x2ad7d2bb, 0xeb86d391]"

definition r_table :: "nat list" where
  "r_table = [
    7, 12, 17, 22, 7, 12, 17, 22, 7, 12, 17, 22, 7, 12, 17, 22,
    5, 9, 14, 20, 5, 9, 14, 20, 5, 9, 14, 20, 5, 9, 14, 20,
    4, 11, 16, 23, 4, 11, 16, 23, 4, 11, 16, 23, 4, 11, 16, 23,
    6, 10, 15, 21, 6, 10, 15, 21, 6, 10, 15, 21, 6, 10, 15, 21]"

definition LEFTROTATE :: "u32 \<Rightarrow> nat \<Rightarrow> u32" where
  "LEFTROTATE x c = push_bit c x OR drop_bit (32 - c) x"

text \<open>The message block: the two words of each argument, exchanged, four times.\<close>

definition hmac_block :: "u32 \<times> u32 \<Rightarrow> u32 \<times> u32 \<Rightarrow> u32 list" where
  "hmac_block x y = concat (replicate 4 [snd x, fst x, snd y, fst y])"

definition hmac_round :: "u32 list \<Rightarrow> nat \<Rightarrow> u32 \<times> u32 \<times> u32 \<times> u32 \<Rightarrow> u32 \<times> u32 \<times> u32 \<times> u32" where
  "hmac_round w i s =
     (let (a, b, c, d) = s;
          (f, g) =
            (if i < 16 then ((b AND c) OR (NOT b AND d), i)
             else if i < 32 then ((d AND b) OR (NOT d AND c), (5 * i + 1) mod 16)
             else if i < 48 then (b XOR c XOR d, (3 * i + 5) mod 16)
             else (c XOR (b OR NOT d), (7 * i) mod 16))
      in (d, b + LEFTROTATE (a + f + k_table ! i + w ! g) (r_table ! i), b, c))"

definition hmac :: "u32 \<times> u32 \<Rightarrow> u32 \<times> u32 \<Rightarrow> u32 \<times> u32" where
  "hmac x y =
     (let w = hmac_block x y;
          (a, b, c, d) = fold (hmac_round w) [0..<64] (0x67452301, 0xefcdab89, 0x98badcfe, 0x10325476)
      in (c XOR d, a XOR b))"

definition lhmac64 :: "byte list \<Rightarrow> byte list \<Rightarrow> crypt_error + byte list" where
  "lhmac64 a1 a2 = on_ok (read64 a1 a2) (\<lambda>(x, y). Inr (pushqword (hmac x y)))"

definition lhmac_hash :: "byte list \<Rightarrow> byte list \<Rightarrow> crypt_error + byte list" where
  "lhmac_hash x text =
     (if length x \<noteq> 8 then Inl Invalid_Uint64
      else let key = (read_word x 0, read_word x 4);
               h = Hash text;
               htext = (read_word h 0, read_word h 4)
           in Inr (pushqword (hmac htext key)))"

section \<open>Key exchange\<close>

definition P :: u64 where "P = 0xffffffffffffffc5"
definition G :: u64 where "G = 5"

function mul_loop :: "u64 \<Rightarrow> u64 \<Rightarrow> u64 \<Rightarrow> u64" where
  "mul_loop m a b =
     (if b = 0 then m
      else let m' = (if b AND 1 \<noteq> 0 then (let t = P - a in if t \<le> m then m - t else m + a) else m);
               a' = (if P - a \<le> a then a * 2 - P else a * 2)
           in mul_loop m' a' (drop_bit 1 b))"
  by pat_completeness auto
termination
proof (relation "measure (\<lambda>(m, a, b). unat b)")
  fix m a b m' a' :: u64 assume "b \<noteq> 0"
  then have "unat b div 2 < unat b" by (simp add: unat_gt_0)
  then show "((m', a', drop_bit 1 b), (m, a, b)) \<in> measure (\<lambda>(m, a, b). unat b)"
    using unat_drop_bit_div [of 1 b] by simp
qed simp

declare mul_loop.simps [simp del]

definition mul_mod_p :: "u64 \<Rightarrow> u64 \<Rightarrow> u64" where
  "mul_mod_p a b = mul_loop 0 a b"

text \<open>The recursion of \<open>pow_mod_p\<close> stops at 1 only; \<open>None\<close> is a call that does not return.\<close>

partial_function (option) pow_mod_p :: "u64 \<Rightarrow> u64 \<Rightarrow> u64 option" where
  "pow_mod_p a b =
     (if b = 1 then Some a
      else Option.bind (pow_mod_p a (drop_bit 1 b)) (\<lambda>t.
        let t = mul_mod_p t t in
        Some (if b mod 2 \<noteq> 0 then mul_mod_p t a else t)))"

definition powmodp :: "u64 \<Rightarrow> u64 \<Rightarrow> u64 option" where
  "powmodp a b = (let a = (if P < a then a mod P else a) in pow_mod_p a b)"

definition qword :: "u32 \<times> u32 \<Rightarrow> u64" where
  "qword x = ucast (fst x) OR push_bit 32 (ucast (snd x))"

definition ldhsecret :: "byte list \<Rightarrow> byte list \<Rightarrow> crypt_error + byte list option" where
  "ldhsecret a1 a2 =
     on_ok (read64 a1 a2) (\<lambda>(x, y). Inr (map_option push64 (powmodp (qword x) (qword y))))"

definition ldhexchange :: "byte list \<Rightarrow> crypt_error + byte list option" where
  "ldhexchange x =
     (if length x \<noteq> 8 then Inl Invalid_Uint64
      else Inr (map_option push64 (powmodp G (qword (read_word x 0, read_word x 4)))))"

section \<open>Base64\<close>

definition encoding :: "byte list" where
  "encoding = str ''ABCDEFGHIJKLMNOPQRSTUVWXYZabcdefghijklmnopqrstuvwxyz0123456789+/''"

definition encoding_at :: "u32 \<Rightarrow> byte" where
  "encoding_at v = encoding ! unat v"

fun lb64encode :: "byte list \<Rightarrow> byte list" where
  "lb64encode (a # b # c # text) =
     (let v = push_bit 16 (ucast a) OR push_bit 8 (ucast b) OR ucast c in
      [encoding_at (drop_bit 18 v), encoding_at (drop_bit 12 v AND 0x3f),
       encoding_at (drop_bit 6 v AND 0x3f), encoding_at (v AND 0x3f)] @ lb64encode text)"
| "lb64encode [a] =
     (let v = ucast a in [encoding_at (drop_bit 2 v), encoding_at (push_bit 4 (v AND 3)), 61, 61])"
| "lb64encode [a, b] =
     (let v = push_bit 8 (ucast a) OR ucast b in
      [encoding_at (drop_bit 10 v), encoding_at (drop_bit 4 v AND 0x3f),
       encoding_at (push_bit 2 (v AND 0xf)), 61])"
| "lb64encode [] = []"

definition decoding :: "int list" where
  "decoding = [
    62, -1, -1, -1, 63, 52, 53, 54, 55, 56, 57, 58, 59, 60, 61, -1, -1, -1, -2, -1,
    -1, -1, 0, 1, 2, 3, 4, 5, 6, 7, 8, 9, 10, 11, 12, 13, 14, 15, 16, 17,
    18, 19, 20, 21, 22, 23, 24, 25, -1, -1, -1, -1, -1, -1, 26, 27, 28, 29, 30, 31,
    32, 33, 34, 35, 36, 37, 38, 39, 40, 41, 42, 43, 44, 45, 46, 47, 48, 49, 50, 51]"

definition b64index :: "byte \<Rightarrow> int" where
  "b64index c =
     (if c < 43 then -1
      else let c = c - 43 in
        if length decoding \<le> unat c then -1 else decoding ! unat c)"

text \<open>The inner loop: \<open>n\<close> more characters that are not skipped, \<open>None\<close> when the text ends.\<close>

fun b64_chars :: "nat \<Rightarrow> byte list \<Rightarrow> (int list \<times> byte list) option" where
  "b64_chars 0 text = Some ([], text)"
| "b64_chars (Suc n) [] = None"
| "b64_chars (Suc n) (t # text) =
     (if b64index t = -1 then b64_chars (Suc n) text
      else map_option (\<lambda>(c, rest). (b64index t # c, rest)) (b64_chars n text))"

text \<open>The bytes of four characters; \<open>-2\<close> is the padding.\<close>

definition b64_quad :: "int list \<Rightarrow> byte list option" where
  "b64_quad c =
     (let padding = length (filter (\<lambda>x. x = -2) c); w = (\<lambda>i. word_of_int (c ! i) :: u32) in
      if padding = 0 then
        (let v = push_bit 18 (w 0) OR push_bit 12 (w 1) OR push_bit 6 (w 2) OR w 3
         in Some [ucast (drop_bit 16 v), ucast (drop_bit 8 v AND 0xff), ucast (v AND 0xff)])
      else if padding = 1 then
        (if c ! 3 \<noteq> -2 \<or> w 2 AND 3 \<noteq> 0 then None
         else let v = push_bit 10 (w 0) OR push_bit 4 (w 1) OR drop_bit 2 (w 2)
              in Some [ucast (drop_bit 8 v), ucast (v AND 0xff)])
      else if padding = 2 then
        (if c ! 3 \<noteq> -2 \<or> c ! 2 \<noteq> -2 \<or> w 1 AND 0xf \<noteq> 0 then None
         else let v = push_bit 2 (w 0) OR drop_bit 4 (w 1) in Some [ucast v])
      else None)"

lemma b64_chars_shorter: "b64_chars n text = Some (c, rest) \<Longrightarrow> length c = n \<and> length rest + n \<le> length text"
  by (induction n "text" arbitrary: c rest rule: b64_chars.induct) (fastforce split: if_splits)+

function lb64decode :: "byte list \<Rightarrow> crypt_error + byte list" where
  "lb64decode text =
     (if text = [] then Inr []
      else case b64_chars 4 text of
        None \<Rightarrow> Inl Invalid_Base64
      | Some (c, rest) \<Rightarrow>
          (case b64_quad c of
             None \<Rightarrow> Inl Invalid_Base64
           | Some bs \<Rightarrow> on_ok (lb64decode rest) (\<lambda>output. Inr (bs @ output))))"
  by pat_completeness auto
termination by (relation "measure length") (auto dest!: b64_chars_shorter)

declare lb64decode.simps [simp del]

end
