(* ===== verification/Crypt_Text.thy ===== *)
theory Crypt_Text
  imports Crypt
begin

text \<open>
  The text encodings of the crypt module: base64 is inverted for every text, hexadecimal
  for every second one. And the authentication code of a text is the code of its hash key.
\<close>

section \<open>Hexadecimal\<close>

lemma hex_digit:
  assumes "n < 16"
  shows "HEX (hex ! n) = of_nat n"
proof -
  have "list_all (\<lambda>n. HEX (hex ! n) = of_nat n) [0..<16]" by code_simp
  with assms show ?thesis by (simp add: list_all_iff)
qed

lemma hex_pair_digits: "hex_pair (hex ! unat (drop_bit 4 b)) (hex ! unat (b AND 0xf)) = Some b"
proof -
  have m: "(0xf :: byte) = mask 4" by (simp add: mask_eq_exp_minus_1)
  have hi: "unat (drop_bit 4 b) < 16"
    using unsigned_less [of b, where ?'a = nat] by (simp add: unat_drop_bit_div)
  have lo: "unat (b AND 0xf) < 16" unfolding m unat_and_mask by simp
  have "push_bit 4 (drop_bit 4 b) OR (b AND 0xf) = b"
    unfolding m by (rule bit_word_eqI) (auto simp: bit_simps)
  moreover have "\<not> 16 < drop_bit 4 b" "\<not> 16 < b AND 0xf"
    using hi lo by (simp_all add: word_less_nat_alt)
  ultimately show ?thesis
    by (simp add: hex_pair_def hex_digit [OF hi] hex_digit [OF lo])
qed

lemma fromhex_tohex: "fromhex_loop (ltohex text) = Inr text"
proof (induction "text")
  case Nil
  show ?case by (simp add: ltohex_def)
next
  case (Cons b t)
  have "ltohex (b # t) = hex ! unat (drop_bit 4 b) # hex ! unat (b AND 0xf) # ltohex t"
    by (simp add: ltohex_def)
  with Cons show ?case by (simp add: hex_pair_digits)
qed

lemma length_ltohex: "length (ltohex text) = 2 * length text"
  by (induction "text") (simp_all add: ltohex_def)

text \<open>
  Decoding undoes encoding exactly for the texts of even length: the size check of the
  decoder tests bit 1 of the size where bit 0 is meant, so it refuses the encoding of
  every text of odd length.
\<close>

theorem hex_roundtrip_even:
  assumes "length text < 2 ^ 31"
  shows "lfromhex (ltohex text) =
    (if even (length text) then Inr text else Inl (Invalid_Hex_Size (2 * length text)))"
proof -
  have "((of_nat (2 * length text) :: u64) AND 2 \<noteq> 0) \<longleftrightarrow> odd (length text)"
  proof -
    have "((of_nat (2 * length text) :: u64) AND 2 \<noteq> 0) = bit (of_nat (2 * length text) :: u64) 1"
      using and_exp_eq_0_iff_not_bit [of "of_nat (2 * length text) :: u64" 1] by simp
    also have "\<dots> = bit (2 * length text) 1" by (simp only: bit_of_nat_iff possible_bit_word) simp
    also have "\<dots> = odd (length text)" by (simp add: bit_Suc bit_0)
    finally show ?thesis .
  qed
  then show ?thesis by (simp add: lfromhex_def length_ltohex fromhex_tohex)
qed

lemma hex_roundtrip_even_witness:
  "lfromhex (ltohex [0x4d, 0x7a]) = Inr [0x4d, 0x7a] \<and> lfromhex (ltohex [7]) = Inl (Invalid_Hex_Size 2)"
  using hex_roundtrip_even [of "[0x4d, 0x7a]"] hex_roundtrip_even [of "[7]"] by simp

text \<open>The digit check lets the value 16, the letter g, pass.\<close>

lemma hex_accepts_g: "lfromhex [103, 49, 48, 103] = Inr [1, 16]"
  by code_simp

section \<open>Base64\<close>

lemma encoding_decoded: "map b64index encoding = map int [0..<64]"
  by code_simp

lemma encoding_index:
  assumes "v < 64"
  shows "b64index (encoding_at v) = uint v"
proof -
  have v: "unat v < 64" using assms by (simp add: word_less_nat_alt)
  have "length encoding = length (map b64index encoding)" by simp
  also have "\<dots> = 64" by (simp only: encoding_decoded) simp
  finally have "b64index (encoding ! unat v) = map b64index encoding ! unat v" using v by simp
  also have "\<dots> = int (unat v)" using v by (simp only: encoding_decoded) simp
  finally show ?thesis by (simp add: encoding_at_def)
qed

lemma index_padding: "b64index 61 = -2"
  by code_simp

lemma six_bits: "w AND 0x3f < (64 :: u32)" "drop_bit 18 (ucast (a :: byte) :: u32) = 0"
proof -
  have m: "(0x3f :: u32) = mask 6" by (simp add: mask_eq_exp_minus_1)
  show "w AND 0x3f < 64" unfolding m by (simp add: word_less_nat_alt unat_and_mask)
  show "drop_bit 18 (ucast a :: u32) = 0"
    by (rule bit_word_eqI) (auto simp: bit_simps dest: bit_imp_le_length)
qed

lemma b64_chars_4:
  assumes "\<forall>c\<in>set [a, b, c, d]. b64index c \<noteq> -1"
  shows "b64_chars 4 (a # b # c # d # rest) = Some (map b64index [a, b, c, d], rest)"
  using assms by (simp add: numeral_eq_Suc)

lemma b64_step:
  assumes "\<forall>c\<in>set [a, b, c, d]. b64index c \<noteq> -1" "b64_quad (map b64index [a, b, c, d]) = Some bs"
  shows "lb64decode (a # b # c # d # rest) = on_ok (lb64decode rest) (\<lambda>output. Inr (bs @ output))"
  using b64_chars_4 [OF assms(1), of rest] assms(2) by (subst lb64decode.simps) simp

text \<open>A word below 64 as a character: never skipped, never padding, and its own value again.\<close>

lemma index_word:
  assumes "v < 64"
  shows "b64index (encoding_at v) \<noteq> -1" "b64index (encoding_at v) \<noteq> -2"
    "word_of_int (b64index (encoding_at v)) = v"
proof -
  have "0 \<le> uint v" by simp
  with encoding_index [OF assms] show "b64index (encoding_at v) \<noteq> -1" "b64index (encoding_at v) \<noteq> -2"
    "word_of_int (b64index (encoding_at v)) = v" by (simp, linarith?)+
qed

lemma b64_words:
  assumes "x0 < 64" "x1 < 64" "x2 < 64" "x3 < 64"
  shows "b64_quad (map b64index [encoding_at x0, encoding_at x1, encoding_at x2, encoding_at x3]) =
    (let v = push_bit 18 x0 OR push_bit 12 x1 OR push_bit 6 x2 OR x3
     in Some [ucast (drop_bit 16 v), ucast (drop_bit 8 v AND 0xff), ucast (v AND 0xff)])"
  using assms by (simp add: b64_quad_def index_word)

lemma quad_3:
  fixes a b c :: byte
  defines "v \<equiv> push_bit 16 (ucast a) OR push_bit 8 (ucast b) OR ucast c :: u32"
  shows "b64_quad (map b64index [encoding_at (drop_bit 18 v), encoding_at (drop_bit 12 v AND 0x3f),
       encoding_at (drop_bit 6 v AND 0x3f), encoding_at (v AND 0x3f)]) = Some [a, b, c]"
    and "\<forall>x\<in>set [encoding_at (drop_bit 18 v), encoding_at (drop_bit 12 v AND 0x3f),
       encoding_at (drop_bit 6 v AND 0x3f), encoding_at (v AND 0x3f)]. b64index x \<noteq> -1"
proof -
  have no: "\<not> bit (x :: byte) n" if "8 \<le> n" for x n using bit_imp_le_length [of x n] that by auto
  have m: "(0x3f :: u32) = mask 6" "(0xff :: u32) = mask 8" by (simp_all add: mask_eq_exp_minus_1)
  have v: "bit v n = (if n < 8 then bit c n else if n < 16 then bit b (n - 8) else n < 24 \<and> bit a (n - 16))" for n
    by (auto simp: v_def bit_simps no dest: bit_imp_le_length)
  have top: "drop_bit 18 v < 64"
  proof -
    have "drop_bit 18 v = drop_bit 18 v AND 0x3f" unfolding m
      by (rule bit_word_eqI) (auto simp: bit_simps v)
    then show ?thesis by (metis six_bits(1))
  qed
  show "\<forall>x\<in>set [encoding_at (drop_bit 18 v), encoding_at (drop_bit 12 v AND 0x3f),
       encoding_at (drop_bit 6 v AND 0x3f), encoding_at (v AND 0x3f)]. b64index x \<noteq> -1"
    by (simp add: index_word top six_bits)
  have s: "Suc (Suc (n - 18)) = n - 16" if "18 \<le> n" for n using that by simp
  have w: "push_bit 18 (drop_bit 18 v) OR push_bit 12 (drop_bit 12 v AND 0x3f) OR
      push_bit 6 (drop_bit 6 v AND 0x3f) OR (v AND 0x3f) = v"
    unfolding m
  proof (rule bit_word_eqI)
    fix n assume "n < LENGTH(32)"
    then show "bit (push_bit 18 (drop_bit 18 v) OR push_bit 12 (drop_bit 12 v AND mask 6) OR
        push_bit 6 (drop_bit 6 v AND mask 6) OR (v AND mask 6)) n = bit v n"
      by (cases "18 \<le> n") (auto simp: bit_simps v s)
  qed
  have abc: "ucast (drop_bit 16 v) = a" "ucast (drop_bit 8 v AND 0xff) = b" "ucast (v AND 0xff) = c"
    unfolding m by (rule bit_word_eqI, auto simp: bit_simps v)+
  show "b64_quad (map b64index [encoding_at (drop_bit 18 v), encoding_at (drop_bit 12 v AND 0x3f),
       encoding_at (drop_bit 6 v AND 0x3f), encoding_at (v AND 0x3f)]) = Some [a, b, c]"
    unfolding b64_words [OF top six_bits(1) six_bits(1) six_bits(1)] w Let_def abc ..
qed

lemma b64_words_2:
  assumes "x0 < 64" "x1 < 64" "x2 < 64" "x2 AND 3 = 0"
  shows "b64_quad (map b64index [encoding_at x0, encoding_at x1, encoding_at x2, 61]) =
    (let v = push_bit 10 x0 OR push_bit 4 x1 OR drop_bit 2 x2
     in Some [ucast (drop_bit 8 v), ucast (v AND 0xff)])"
  using assms by (simp add: b64_quad_def index_word index_padding)

lemma quad_2:
  fixes a b :: byte
  defines "v \<equiv> push_bit 8 (ucast a) OR ucast b :: u32"
  shows "b64_quad (map b64index [encoding_at (drop_bit 10 v), encoding_at (drop_bit 4 v AND 0x3f),
       encoding_at (push_bit 2 (v AND 0xf)), 61]) = Some [a, b]"
    and "\<forall>x\<in>set [encoding_at (drop_bit 10 v), encoding_at (drop_bit 4 v AND 0x3f),
       encoding_at (push_bit 2 (v AND 0xf)), 61]. b64index x \<noteq> -1"
proof -
  have no: "\<not> bit (x :: byte) n" if "8 \<le> n" for x n using bit_imp_le_length [of x n] that by auto
  have m: "(0x3f :: u32) = mask 6" "(0xff :: u32) = mask 8" "(0xf :: u32) = mask 4" "(3 :: u32) = mask 2"
    by (simp_all add: mask_eq_exp_minus_1)
  have v: "bit v n = (if n < 8 then bit b n else n < 16 \<and> bit a (n - 8))" for n
    by (auto simp: v_def bit_simps no dest: bit_imp_le_length)
  define x where "x = push_bit 2 (v AND 0xf)"
  have top: "drop_bit 10 v < 64" "x < 64"
  proof -
    have "drop_bit 10 v = drop_bit 10 v AND 0x3f" unfolding m
      by (rule bit_word_eqI) (auto simp: bit_simps v)
    then show "drop_bit 10 v < 64" by (metis six_bits(1))
    have "push_bit 2 (v AND 0xf) = push_bit 2 (v AND 0xf) AND 0x3f" unfolding m
      by (rule bit_word_eqI) (auto simp: bit_simps v)
    then show "x < 64" unfolding x_def by (metis six_bits(1))
  qed
  show "\<forall>x\<in>set [encoding_at (drop_bit 10 v), encoding_at (drop_bit 4 v AND 0x3f),
       encoding_at (push_bit 2 (v AND 0xf)), 61]. b64index x \<noteq> -1"
    unfolding x_def [symmetric] by (simp add: index_word top six_bits index_padding)
  have s: "Suc (Suc (n - 10)) = n - 8" if "10 \<le> n" for n using that by simp
  have w: "push_bit 10 (drop_bit 10 v) OR push_bit 4 (drop_bit 4 v AND 0x3f) OR
      drop_bit 2 x = v"
    unfolding m x_def
  proof (rule bit_word_eqI)
    fix n assume "n < LENGTH(32)"
    then show "bit (push_bit 10 (drop_bit 10 v) OR push_bit 4 (drop_bit 4 v AND mask 6) OR
        drop_bit 2 (push_bit 2 (v AND mask 4))) n = bit v n"
      by (cases "10 \<le> n") (auto simp: bit_simps v s)
  qed
  have z: "x AND 3 = 0"
    unfolding m x_def by (rule bit_word_eqI) (auto simp: bit_simps)
  have ab: "ucast (drop_bit 8 v) = a" "ucast (v AND 0xff) = b"
    unfolding m by (rule bit_word_eqI, auto simp: bit_simps v)+
  show "b64_quad (map b64index [encoding_at (drop_bit 10 v), encoding_at (drop_bit 4 v AND 0x3f),
       encoding_at (push_bit 2 (v AND 0xf)), 61]) = Some [a, b]"
    unfolding x_def [symmetric] b64_words_2 [OF top(1) six_bits(1) top(2) z] w Let_def ab ..
qed

lemma quad_1:
  fixes a :: byte
  defines "v \<equiv> ucast a :: u32"
  shows "b64_quad (map b64index [encoding_at (drop_bit 2 v), encoding_at (push_bit 4 (v AND 3)), 61, 61]) = Some [a]"
    and "\<forall>x\<in>set [encoding_at (drop_bit 2 v), encoding_at (push_bit 4 (v AND 3)), 61, 61]. b64index x \<noteq> -1"
proof -
  have m: "(0x3f :: u32) = mask 6" "(0xf :: u32) = mask 4" "(3 :: u32) = mask 2"
    by (simp_all add: mask_eq_exp_minus_1)
  have v: "bit v n = (n < 8 \<and> bit a n)" for n
    by (auto simp: v_def bit_simps dest: bit_imp_le_length)
  define x where "x = push_bit 4 (v AND 3)"
  have top: "drop_bit 2 v < 64" "x < 64"
  proof -
    have "drop_bit 2 v = drop_bit 2 v AND 0x3f" unfolding m
      by (rule bit_word_eqI) (auto simp: bit_simps v)
    then show "drop_bit 2 v < 64" by (metis six_bits(1))
    have "push_bit 4 (v AND 3) = push_bit 4 (v AND 3) AND 0x3f" unfolding m
      by (rule bit_word_eqI) (auto simp: bit_simps v)
    then show "x < 64" unfolding x_def by (metis six_bits(1))
  qed
  show "\<forall>x\<in>set [encoding_at (drop_bit 2 v), encoding_at (push_bit 4 (v AND 3)), 61, 61]. b64index x \<noteq> -1"
    unfolding x_def [symmetric] by (simp add: index_word top index_padding)
  have s: "Suc (Suc (n - 2)) = n" if "2 \<le> n" for n using that by simp
  have w: "push_bit 2 (drop_bit 2 v) OR drop_bit 4 x = v"
    unfolding m x_def
  proof (rule bit_word_eqI)
    fix n assume "n < LENGTH(32)"
    then show "bit (push_bit 2 (drop_bit 2 v) OR drop_bit 4 (push_bit 4 (v AND mask 2))) n = bit v n"
      by (cases "2 \<le> n") (auto simp: bit_simps v s)
  qed
  have z: "x AND 0xf = 0"
    unfolding m x_def by (rule bit_word_eqI) (auto simp: bit_simps)
  have a: "ucast v = a" by (rule bit_word_eqI) (auto simp: bit_simps v)
  show "b64_quad (map b64index [encoding_at (drop_bit 2 v), encoding_at (push_bit 4 (v AND 3)), 61, 61]) = Some [a]"
    unfolding b64_quad_def x_def [symmetric] using index_word [OF top(1)] index_word [OF top(2)]
    by (simp add: index_padding w z a)
qed

text \<open>
  Base64: the decoder gives back every text the encoder was given, and the encoding has
  four characters for every three bytes, the last group filled up.
\<close>

theorem base64_roundtrip:
  "lb64decode (lb64encode text) = Inr text \<and> length (lb64encode text) = (length text + 2) div 3 * 4"
proof (induction "text" rule: lb64encode.induct)
  case (1 a b c t)
  have "(5 + length t) div 3 = Suc ((2 + length t) div 3)" by simp
  with b64_step [OF quad_3(2) quad_3(1), of a b c "lb64encode t"] 1 show ?case
    by (simp add: Let_def)
next
  case (2 a)
  from b64_step [OF quad_1(2) quad_1(1), of a "[]"] show ?case
    by (simp add: Let_def lb64decode.simps [of "[]"])
next
  case (3 a b)
  from b64_step [OF quad_2(2) quad_2(1), of a b "[]"] show ?case
    by (simp add: Let_def lb64decode.simps [of "[]"])
next
  case 4
  show ?case by (simp add: lb64decode.simps)
qed

text \<open>
  The decoder skips characters outside the alphabet between two others but not after the last
  group: a text that ends with a line break is refused.
\<close>

lemma base64_line_break:
  "lb64decode (str ''TW'' @ 10 # str ''Fu'') = Inr (str ''Man'')"
  "lb64decode (str ''TWFu'' @ [10]) = Inl Invalid_Base64"
  by code_simp+

section \<open>Authentication codes\<close>

lemma read_word_le32: "read_word (le32 a @ le32 b) 0 = a" "read_word (le32 a @ le32 b) 4 = b"
proof -
  have "un_le32 (le32 w @ r) = w" for w r
    using un_le32_le32 [of w] by (simp add: un_le32_def le32_def)
  then show "read_word (le32 a @ le32 b) 0 = a" "read_word (le32 a @ le32 b) 4 = b"
    by (simp_all add: read_word_def)
qed

text \<open>
  The authentication code of a text under a key is the 64 bit code of its hash key and
  the key, whatever the text; for a key that has not 8 bytes both fail in the same way.
\<close>

theorem hmac_hash_is_hmac64: "lhmac_hash key text = lhmac64 (lhashkey text) key"
proof -
  obtain d j where "hash_loop text 5381 1315423911 = (d, j)" by fastforce
  then have "Hash text = le32 d @ le32 j" by (simp add: Hash_def)
  then show ?thesis
    by (simp add: lhmac_hash_def lhmac64_def lhashkey_def read64_def read_word_le32 Let_def)
qed

end
