(* ===== verification/Key_Exchange.thy ===== *)
theory Key_Exchange
  imports Crypt
begin

text \<open>
  The Diffie-Hellman exchange of the crypt module computes what it is meant to: the modular
  product and power on 64 bit words without a wider type, and hence the same secret on
  both sides. The power with exponent 0, which a secret of eight zeros asks for, does not
  return.
\<close>

section \<open>Modular product\<close>

abbreviation p_nat :: nat where "p_nat \<equiv> 0xffffffffffffffc5"

lemma unat_P: "unat P = p_nat"
  by (simp add: P_def)

lemma less_P: "a < P \<longleftrightarrow> unat a < p_nat"
  by (simp add: word_less_nat_alt unat_P)

lemma add_mod_p:
  assumes "m < P" "a < P"
  shows "unat (if P - a \<le> m then m - (P - a) else m + a) = (unat m + unat a) mod p_nat"
proof -
  have m: "unat m < p_nat" and a: "unat a < p_nat" using assms by (simp_all add: less_P)
  have d: "unat (P - a) = p_nat - unat a" using assms(2) by (simp add: unat_sub unat_P)
  show ?thesis
  proof (cases "P - a \<le> m")
    case True
    then have le: "p_nat - unat a \<le> unat m" by (simp add: word_le_nat_alt d)
    have "unat (m - (P - a)) = unat m - (p_nat - unat a)" using True by (simp add: unat_sub d)
    also have "\<dots> = unat m + unat a - p_nat" using le a by linarith
    also have "\<dots> = (unat m + unat a) mod p_nat"
      using le a m by (subst le_mod_geq) (simp_all add: mod_less)
    finally show ?thesis using True by simp
  next
    case False
    then have lt: "unat m + unat a < p_nat" by (simp add: word_le_nat_alt d)
    then have "unat (m + a) = unat m + unat a" by (intro unat_add_lem [THEN iffD1]) simp
    with lt False show ?thesis by (simp add: mod_less)
  qed
qed

lemma double_mod_p:
  assumes "a < P"
  shows "unat (if P - a \<le> a then a * 2 - P else a * 2) = 2 * unat a mod p_nat"
proof -
  have "a * 2 - P = a - (P - a)" "a * 2 = a + a" by (simp_all add: algebra_simps)
  with add_mod_p [OF assms assms] show ?thesis by (simp only: mult_2)
qed

lemma mod_step: "(x mod n + y mod n * z) mod n = (x + y * z) mod (n :: nat)"
  by (metis mod_add_left_eq mod_add_right_eq mod_mult_left_eq)

lemma split_parity: "x + r * a + 2 * a * q = x + a * (2 * q + r)" for x :: nat
  by (simp add: algebra_simps)

lemma mul_loop_mod:
  assumes "m < P" "a < P"
  shows "unat (mul_loop m a b) = (unat m + unat a * unat b) mod p_nat"
  using assms
proof (induction m a b rule: mul_loop.induct)
  case (1 m a b)
  show ?case
  proof (cases "b = 0")
    case True
    with 1 show ?thesis by (simp add: mul_loop.simps [of m a 0] less_P)
  next
    case False
    define m' where "m' = (if b AND 1 \<noteq> 0 then (let t = P - a in if t \<le> m then m - t else m + a) else m)"
    define a' where "a' = (if P - a \<le> a then a * 2 - P else a * 2)"
    have odd: "b AND 1 \<noteq> 0 \<longleftrightarrow> unat b mod 2 = 1"
      by (simp add: and_one_eq unat_eq_0 [symmetric] unat_mod)
    have um: "unat m' = (unat m + unat b mod 2 * unat a) mod p_nat"
      using add_mod_p [OF 1(2,3)] 1(2) odd
      by (auto simp: m'_def Let_def less_P mod_less split: if_splits)
    have ua: "unat a' = 2 * unat a mod p_nat" unfolding a'_def by (rule double_mod_p [OF 1(3)])
    have "m' < P" "a' < P" unfolding less_P um ua by simp_all
    then have "unat (mul_loop m' a' (drop_bit 1 b)) = (unat m' + unat a' * (unat b div 2)) mod p_nat"
      using 1(1) [OF False refl refl] unfolding m'_def a'_def
      using unat_drop_bit_div [of 1 b] by (simp only: power_one_right Let_def)
    also have "\<dots> = ((unat m + unat b mod 2 * unat a) + 2 * unat a * (unat b div 2)) mod p_nat"
      unfolding um ua by (rule mod_step)
    also have "(unat m + unat b mod 2 * unat a) + 2 * unat a * (unat b div 2) = unat m + unat a * unat b"
      by (simp only: split_parity mult_div_mod_eq)
    finally show ?thesis using False by (subst mul_loop.simps) (simp add: m'_def a'_def Let_def)
  qed
qed

lemma mul_mod_p_nat: "a < P \<Longrightarrow> unat (mul_mod_p a b) = unat a * unat b mod p_nat"
  using mul_loop_mod [of 0 a b] by (simp add: mul_mod_p_def P_def)

lemma mul_mod_p_less: "a < P \<Longrightarrow> mul_mod_p a b < P"
  by (simp add: less_P mul_mod_p_nat)

section \<open>Modular power\<close>

lemma pow_mod_p_returns_nonzero:
  assumes "pow_mod_p a b = Some t"
  shows "b \<noteq> 0"
proof (rule pow_mod_p.raw_induct [where P = "\<lambda>a b t. b \<noteq> 0", OF _ assms])
  fix pow a b t
  assume IH: "\<And>a b t. pow a b = Some t \<Longrightarrow> b \<noteq> 0"
    and run: "(if b = 1 then Some a
      else Option.bind (pow a (drop_bit 1 b)) (\<lambda>t. let t = mul_mod_p t t in
        Some (if b mod 2 \<noteq> 0 then mul_mod_p t a else t))) = Some t"
  show "b \<noteq> 0"
  proof
    assume "b = 0"
    with run obtain u where "pow a 0 = Some u" by (auto simp: bind_eq_Some_conv)
    then show False using IH by blast
  qed
qed

lemma pow_mod_p_value:
  assumes "a < P"
  shows "b \<noteq> 0 \<Longrightarrow> \<exists>t. pow_mod_p a b = Some t \<and> t < P \<and> unat t = unat a ^ unat b mod p_nat"
proof (induction "unat b" arbitrary: b rule: less_induct)
  case less
  show ?case
  proof (cases "b = 1")
    case True
    with assms show ?thesis by (simp add: pow_mod_p.simps [of a 1] less_P mod_less)
  next
    case False
    let ?h = "drop_bit 1 b"
    have h: "unat ?h = unat b div 2" using unat_drop_bit_div [of 1 b] by simp
    have b: "unat b \<noteq> 0" "unat b \<noteq> 1" using less.prems False by (simp add: unat_eq_0, metis unsigned_1 unsigned_word_eqI)
    then have "unat ?h < unat b" "unat ?h \<noteq> 0" unfolding h by auto
    then have "unat ?h < unat b" "?h \<noteq> 0" by (auto simp: unat_eq_0)
    from less.hyps [OF this] obtain t where
      t: "pow_mod_p a ?h = Some t" "t < P" "unat t = unat a ^ (unat b div 2) mod p_nat"
      unfolding h by blast
    define s where "s = mul_mod_p t t"
    have s: "s < P" "unat s = unat a ^ (2 * (unat b div 2)) mod p_nat"
      unfolding s_def using t mul_mod_p_less [OF t(2)] mul_mod_p_nat [OF t(2), of t]
      by (simp_all add: mod_mult_eq power_mult_distrib power2_eq_square power_mult mult_2 power_add)
    define u where "u = (if b mod 2 \<noteq> 0 then mul_mod_p s a else s)"
    have odd: "b mod 2 \<noteq> 0 \<longleftrightarrow> unat b mod 2 = 1"
      by (simp add: unat_eq_0 [symmetric] unat_mod)
    have u: "pow_mod_p a b = Some u"
      using False t(1) by (subst pow_mod_p.simps) (simp add: u_def s_def Let_def)
    have "u < P" using s(1) mul_mod_p_less [OF s(1)] by (simp add: u_def)
    moreover have "unat u = unat a ^ unat b mod p_nat"
    proof (cases "unat b mod 2 = 1")
      case True
      then have "unat u = unat a ^ (2 * (unat b div 2)) * unat a mod p_nat"
        using odd by (simp add: u_def mul_mod_p_nat [OF s(1)] s(2) mod_mult_left_eq)
      also have "unat a ^ (2 * (unat b div 2)) * unat a = unat a ^ (2 * (unat b div 2) + unat b mod 2)"
        using True by simp
      finally show ?thesis by (simp only: mult_div_mod_eq)
    next
      case no: False
      then have "unat b = 2 * (unat b div 2)" by presburger
      with no odd s(2) show ?thesis by (simp add: u_def)
    qed
    ultimately show ?thesis using u by blast
  qed
qed



section \<open>The exchange\<close>

lemma qword_push64: "qword (read_word (push64 r) 0, read_word (push64 r) 4) = r"
proof -
  have "un_le32 (le64 r) = un_le32 (take 4 (le64 r))" by (simp add: un_le32_def le64_def)
  then have "qword (read_word (push64 r) 0, read_word (push64 r) 4) = un_le64 (le64 r)"
    by (simp add: qword_def read_word_def push64_def un_le64_def)
  then show ?thesis by simp
qed

definition secret :: "byte list \<Rightarrow> u64" where
  "secret x = qword (read_word x 0, read_word x 4)"

lemma ldhexchange_value:
  assumes "length x = 8" "secret x \<noteq> 0"
  shows "\<exists>t. ldhexchange x = Inr (Some (push64 t)) \<and> t < P \<and> unat t = 5 ^ unat (secret x) mod p_nat"
proof -
  have "G < P" "unat G = 5" "\<not> P < G" by (simp_all add: G_def P_def)
  with pow_mod_p_value [of G "secret x"] assms show ?thesis
    by (auto simp: ldhexchange_def powmodp_def secret_def)
qed

lemma ldhsecret_value:
  assumes "t < P" "length y = 8" "secret y \<noteq> 0"
  shows "\<exists>u. ldhsecret (push64 t) y = Inr (Some (push64 u)) \<and> unat u = unat t ^ unat (secret y) mod p_nat"
proof -
  have "\<not> P < t" using assms(1) by (simp add: less_asym)
  moreover have "length (push64 t) = 8" by (simp add: push64_def)
  moreover obtain u where "pow_mod_p t (secret y) = Some u" "unat u = unat t ^ unat (secret y) mod p_nat"
    using pow_mod_p_value [OF assms(1,3)] by blast
  ultimately show ?thesis
    using assms(2) qword_push64 [of t] by (auto simp: ldhsecret_def read64_def powmodp_def secret_def)
qed

text \<open>
  C33. Two parties with secrets of 8 bytes that are not all zero send each other their exchange
  keys and derive the same shared secret, the power of the generator to the product of
  the two. With a secret of zeros the exchange function never returns.
\<close>

theorem key_agreement:
  assumes "length x = 8" "length y = 8" "secret x \<noteq> 0" "secret y \<noteq> 0"
  shows "\<exists>ex ey s. ldhexchange x = Inr (Some ex) \<and> ldhexchange y = Inr (Some ey) \<and>
    ldhsecret ey x = Inr (Some s) \<and> ldhsecret ex y = Inr (Some s) \<and>
    unat (un_le64 s) = 5 ^ (unat (secret x) * unat (secret y)) mod p_nat"
proof -
  obtain tx where x: "ldhexchange x = Inr (Some (push64 tx))" "tx < P"
    "unat tx = 5 ^ unat (secret x) mod p_nat"
    using ldhexchange_value [OF assms(1,3)] by blast
  obtain ty where y: "ldhexchange y = Inr (Some (push64 ty))" "ty < P"
    "unat ty = 5 ^ unat (secret y) mod p_nat"
    using ldhexchange_value [OF assms(2,4)] by blast
  obtain u where u: "ldhsecret (push64 ty) x = Inr (Some (push64 u))"
    "unat u = unat ty ^ unat (secret x) mod p_nat"
    using ldhsecret_value [OF y(2) assms(1,3)] by blast
  obtain w where w: "ldhsecret (push64 tx) y = Inr (Some (push64 w))"
    "unat w = unat tx ^ unat (secret y) mod p_nat"
    using ldhsecret_value [OF x(2) assms(2,4)] by blast
  have uv: "unat u = 5 ^ (unat (secret x) * unat (secret y)) mod p_nat"
    unfolding u(2) y(3) power_mod by (simp only: power_mult [symmetric] mult.commute)
  have wv: "unat w = 5 ^ (unat (secret x) * unat (secret y)) mod p_nat"
    unfolding w(2) x(3) power_mod by (simp only: power_mult [symmetric])
  from uv wv have "u = w" by (metis unsigned_word_eqI)
  with x(1) y(1) u(1) w(1) uv show ?thesis
    by (intro exI [of _ "push64 tx"] exI [of _ "push64 ty"] exI [of _ "push64 u"]) (simp add: push64_def)
qed

lemma key_agreement_witness:
  "\<exists>ex ey s. ldhexchange [3, 0, 0, 0, 0, 0, 0, 0] = Inr (Some ex) \<and>
    ldhexchange [4, 0, 0, 0, 0, 0, 0, 0] = Inr (Some ey) \<and>
    ldhsecret ey [3, 0, 0, 0, 0, 0, 0, 0] = Inr (Some s) \<and>
    ldhsecret ex [4, 0, 0, 0, 0, 0, 0, 0] = Inr (Some s) \<and> unat (un_le64 s) = 5 ^ 12"
proof -
  have "secret [3, 0, 0, 0, 0, 0, 0, 0] = 3" "secret [4, 0, 0, 0, 0, 0, 0, 0] = 4" by code_simp+
  with key_agreement [of "[3, 0, 0, 0, 0, 0, 0, 0]" "[4, 0, 0, 0, 0, 0, 0, 0]"] show ?thesis by simp
qed

lemma exchange_with_zero: "ldhexchange (replicate 8 0) = Inr None"
proof -
  have "secret (replicate 8 0) = 0" by code_simp
  moreover have "pow_mod_p 5 0 = None"
    using pow_mod_p_returns_nonzero [of 5 0] by (cases "pow_mod_p 5 0") auto
  ultimately show ?thesis by (simp add: ldhexchange_def powmodp_def G_def P_def secret_def)
qed

end
