(* ===== verification/Seri.thy ===== *)
theory Seri
  imports C_Library
begin

text \<open>
  The serializer of messages, lualib-src/mtask_lua_seri.c: the write buffer made of blocks
  of 128 bytes, the packing of Lua values and the unpacking of a byte stream. Integers and
  the length fields are stored with the byte order of the machine, which is little endian.
\<close>

definition TYPE_NIL :: nat where "TYPE_NIL = 0"
definition TYPE_BOOLEAN :: nat where "TYPE_BOOLEAN = 1"
definition TYPE_NUMBER :: nat where "TYPE_NUMBER = 2"
definition TYPE_NUMBER_ZERO :: int where "TYPE_NUMBER_ZERO = 0"
definition TYPE_NUMBER_BYTE :: int where "TYPE_NUMBER_BYTE = 1"
definition TYPE_NUMBER_WORD :: int where "TYPE_NUMBER_WORD = 2"
definition TYPE_NUMBER_DWORD :: int where "TYPE_NUMBER_DWORD = 4"
definition TYPE_NUMBER_QWORD :: int where "TYPE_NUMBER_QWORD = 6"
definition TYPE_NUMBER_REAL :: int where "TYPE_NUMBER_REAL = 8"
definition TYPE_USERDATA :: nat where "TYPE_USERDATA = 3"
definition TYPE_SHORT_STRING :: nat where "TYPE_SHORT_STRING = 4"
definition TYPE_LONG_STRING :: nat where "TYPE_LONG_STRING = 5"
definition TYPE_TABLE :: nat where "TYPE_TABLE = 6"
definition MAX_COOKIE :: int where "MAX_COOKIE = 32"
definition BLOCK_SIZE :: nat where "BLOCK_SIZE = 128"
definition MAX_DEPTH :: nat where "MAX_DEPTH = 32"

definition COMBINE_TYPE :: "nat \<Rightarrow> int \<Rightarrow> byte" where
  "COMBINE_TYPE t v = of_nat t OR push_bit 3 (word_of_int v)"

text \<open>
  A Lua value as the API shows it. The number of a real is its 64 bit pattern. A table is
  the list of its elements 1 to \<open>lua_rawlen\<close> and the list of its entries in the order of
  \<open>lua_next\<close>; a table with a \<open>__pairs\<close> metafield is the list of pairs that this iterator
  yields before a nil key.
\<close>

datatype lua_val =
    V_Nil | V_Bool bool | V_Int u64 | V_Real u64 | V_Str "byte list" | V_Light u64
  | V_Table "lua_val list" "(lua_val \<times> lua_val) list"
  | V_Pairs "(lua_val \<times> lua_val) list"
  | V_Other

datatype seri_error = Too_Deep | Unsupport_Type | Invalid_Stream nat | Block_Too_Big int
  | Null_Pointer | Out_Of_Fuel

section \<open>The write buffer\<close>

text \<open>
  The chain of blocks before the current one, the bytes written to the current one, and the
  counters of the C structure.
\<close>

record write_block =
  wb_blocks :: "byte list list"
  wb_current :: "byte list"
  wb_len :: nat
  wb_ptr :: nat

definition wb_init :: write_block where
  "wb_init = \<lparr>wb_blocks = [], wb_current = [], wb_len = 0, wb_ptr = 0\<rparr>"

definition wb_new_block :: "write_block \<Rightarrow> write_block" where
  "wb_new_block b = b\<lparr>wb_blocks := wb_blocks b @ [wb_current b], wb_current := [], wb_ptr := 0\<rparr>"

text \<open>\<open>memcpy\<close> to the place \<open>ptr\<close> of the current block.\<close>

definition wb_copy :: "write_block \<Rightarrow> byte list \<Rightarrow> write_block" where
  "wb_copy b buffer = b\<lparr>wb_current := take (wb_ptr b) (wb_current b) @ buffer,
     wb_ptr := wb_ptr b + length buffer, wb_len := wb_len b + length buffer\<rparr>"

function wb_fit :: "write_block \<Rightarrow> byte list \<Rightarrow> write_block" where
  "wb_fit b buffer =
     (if int (wb_ptr b) \<le> int BLOCK_SIZE - int (length buffer) then wb_copy b buffer
      else let copy = BLOCK_SIZE - wb_ptr b
           in wb_fit (wb_new_block (b\<lparr>wb_current := take (wb_ptr b) (wb_current b) @ take copy buffer,
                                      wb_len := wb_len b + copy\<rparr>))
                (drop copy buffer))"
  by pat_completeness auto
termination
  by (relation "measure (\<lambda>(b, buffer). 2 * length buffer + (if BLOCK_SIZE \<le> wb_ptr b then 1 else 0))")
    (auto simp: wb_new_block_def BLOCK_SIZE_def)

declare wb_fit.simps [simp del]

definition wb_push :: "write_block \<Rightarrow> byte list \<Rightarrow> write_block" where
  "wb_push b buffer = (if wb_ptr b = BLOCK_SIZE then wb_fit (wb_new_block b) buffer else wb_fit b buffer)"

text \<open>The copy of the chain into one buffer of \<open>len\<close> bytes.\<close>

fun seri_loop :: "byte list list \<Rightarrow> nat \<Rightarrow> byte list" where
  "seri_loop [] len = []"
| "seri_loop (b # bs) len =
     (if len = 0 then []
      else if BLOCK_SIZE \<le> len then take BLOCK_SIZE b @ seri_loop bs (len - BLOCK_SIZE)
      else take len b)"

definition seri :: "write_block \<Rightarrow> byte list" where
  "seri b = seri_loop (wb_blocks b @ [wb_current b]) (wb_len b)"

section \<open>Packing\<close>

definition wb_nil :: "write_block \<Rightarrow> write_block" where
  "wb_nil wb = wb_push wb [of_nat TYPE_NIL]"

definition wb_boolean :: "write_block \<Rightarrow> bool \<Rightarrow> write_block" where
  "wb_boolean wb boolean = wb_push wb [COMBINE_TYPE TYPE_BOOLEAN (if boolean then 1 else 0)]"

definition wb_integer :: "write_block \<Rightarrow> u64 \<Rightarrow> write_block" where
  "wb_integer wb v =
     (if v = 0 then wb_push wb [COMBINE_TYPE TYPE_NUMBER TYPE_NUMBER_ZERO]
      else if sint v \<noteq> sint (ucast v :: u32)
        then wb_push (wb_push wb [COMBINE_TYPE TYPE_NUMBER TYPE_NUMBER_QWORD]) (le64 v)
      else if sint v < 0
        then wb_push (wb_push wb [COMBINE_TYPE TYPE_NUMBER TYPE_NUMBER_DWORD]) (le32 (ucast v))
      else if sint v < 0x100
        then wb_push (wb_push wb [COMBINE_TYPE TYPE_NUMBER TYPE_NUMBER_BYTE]) [ucast v]
      else if sint v < 0x10000
        then wb_push (wb_push wb [COMBINE_TYPE TYPE_NUMBER TYPE_NUMBER_WORD]) (le16 (ucast v))
      else wb_push (wb_push wb [COMBINE_TYPE TYPE_NUMBER TYPE_NUMBER_DWORD]) (le32 (ucast v)))"

definition wb_real :: "write_block \<Rightarrow> u64 \<Rightarrow> write_block" where
  "wb_real wb v = wb_push (wb_push wb [COMBINE_TYPE TYPE_NUMBER TYPE_NUMBER_REAL]) (le64 v)"

definition wb_pointer :: "write_block \<Rightarrow> u64 \<Rightarrow> write_block" where
  "wb_pointer wb v = wb_push (wb_push wb [of_nat TYPE_USERDATA]) (le64 v)"

text \<open>The length arrives as an \<open>int\<close>; a negative one would count as short.\<close>

definition wb_string :: "write_block \<Rightarrow> byte list \<Rightarrow> write_block" where
  "wb_string wb s =
     (let len = as_int (int (length s)); bytes = take (nat len) s in
      if len < MAX_COOKIE then
        (let wb = wb_push wb [COMBINE_TYPE TYPE_SHORT_STRING len]
         in if 0 < len then wb_push wb bytes else wb)
      else if len < 0x10000 then
        wb_push (wb_push (wb_push wb [COMBINE_TYPE TYPE_LONG_STRING 2]) (le16 (word_of_int len))) bytes
      else
        wb_push (wb_push (wb_push wb [COMBINE_TYPE TYPE_LONG_STRING 4]) (le32 (word_of_int len))) bytes)"

definition wb_array_header :: "write_block \<Rightarrow> int \<Rightarrow> write_block" where
  "wb_array_header wb array_size =
     (if MAX_COOKIE - 1 \<le> array_size then
        wb_integer (wb_push wb [COMBINE_TYPE TYPE_TABLE (MAX_COOKIE - 1)]) (word_of_int array_size)
      else wb_push wb [COMBINE_TYPE TYPE_TABLE array_size])"

definition array_key :: "int \<Rightarrow> lua_val \<Rightarrow> bool" where
  "array_key array_size k = (case k of V_Int x \<Rightarrow> 0 < sint x \<and> sint x \<le> array_size | _ \<Rightarrow> False)"

text \<open>
  \<open>pack_one\<close> with the loops of \<open>wb_table_array\<close> (\<open>pack_array\<close>), \<open>wb_table_hash\<close> and
  \<open>wb_table_metapairs\<close> (\<open>pack_hash\<close>, for the latter with an array size of 0 and no key
  skipped).
\<close>

function (sequential) pack_one :: "write_block \<Rightarrow> lua_val \<Rightarrow> nat \<Rightarrow> seri_error + write_block"
  and pack_array :: "write_block \<Rightarrow> nat \<Rightarrow> lua_val list \<Rightarrow> nat \<Rightarrow> seri_error + write_block"
  and pack_hash :: "write_block \<Rightarrow> int \<Rightarrow> (lua_val \<times> lua_val) list \<Rightarrow> nat \<Rightarrow> seri_error + write_block"
  where
  "pack_one b v depth =
     (if MAX_DEPTH < depth then Inl Too_Deep
      else case v of
        V_Nil \<Rightarrow> Inr (wb_nil b)
      | V_Int x \<Rightarrow> Inr (wb_integer b x)
      | V_Real n \<Rightarrow> Inr (wb_real b n)
      | V_Bool x \<Rightarrow> Inr (wb_boolean b x)
      | V_Str s \<Rightarrow> Inr (wb_string b s)
      | V_Light p \<Rightarrow> Inr (wb_pointer b p)
      | V_Table arr prs \<Rightarrow>
          (let array_size = as_int (int (length arr)) in
           on_ok (pack_array (wb_array_header b array_size) (nat array_size) arr (depth + 1)) (\<lambda>b.
           on_ok (pack_hash b array_size prs (depth + 1)) (\<lambda>b. Inr (wb_nil b))))
      | V_Pairs prs \<Rightarrow>
           on_ok (pack_hash (wb_push b [COMBINE_TYPE TYPE_TABLE 0]) 0 prs (depth + 1)) (\<lambda>b. Inr (wb_nil b))
      | V_Other \<Rightarrow> Inl Unsupport_Type)"
| "pack_array b (Suc n) (v # vs) depth = on_ok (pack_one b v depth) (\<lambda>b. pack_array b n vs depth)"
| "pack_array b n vs depth = Inr b"
| "pack_hash b array_size [] depth = Inr b"
| "pack_hash b array_size ((k, v) # prs) depth =
     (if array_key array_size k then pack_hash b array_size prs depth
      else on_ok (pack_one b k depth) (\<lambda>b. on_ok (pack_one b v depth) (\<lambda>b.
             pack_hash b array_size prs depth)))"

  by pat_completeness auto
termination
  by (relation "measure (\<lambda>x. case x of Inl (b, v, d) \<Rightarrow> size v
      | Inr (Inl (b, n, vs, d)) \<Rightarrow> size_list size vs
      | Inr (Inr (b, n, prs, d)) \<Rightarrow> size_list (size_prod size size) prs)") auto

declare pack_one.simps [simp del]

definition pack_from :: "write_block \<Rightarrow> lua_val list \<Rightarrow> seri_error + write_block" where
  "pack_from b stack = fold (\<lambda>v r. on_ok r (\<lambda>b. pack_one b v 0)) stack (Inr b)"

text \<open>The buffer and its size.\<close>

definition luaseri_pack :: "lua_val list \<Rightarrow> seri_error + byte list \<times> nat" where
  "luaseri_pack stack = on_ok (pack_from wb_init stack) (\<lambda>wb. Inr (seri wb, wb_len wb))"

section \<open>Unpacking\<close>

text \<open>
  The buffer, the length and the position of a read block always move together, so the block
  is the list of the bytes that are left.
\<close>

type_synonym read_block = "byte list"

definition rb_read :: "read_block \<Rightarrow> nat \<Rightarrow> (byte list \<times> read_block) option" where
  "rb_read rb sz = (if length rb < sz then None else Some (take sz rb, drop sz rb))"

definition read_or_fail :: "read_block \<Rightarrow> nat \<Rightarrow> seri_error + byte list \<times> read_block" where
  "read_or_fail rb sz = (case rb_read rb sz of None \<Rightarrow> Inl (Invalid_Stream (length rb)) | Some r \<Rightarrow> Inr r)"

definition get_integer :: "read_block \<Rightarrow> int \<Rightarrow> seri_error + u64 \<times> read_block" where
  "get_integer rb cookie =
     (if cookie = TYPE_NUMBER_ZERO then Inr (0, rb)
      else if cookie = TYPE_NUMBER_BYTE then
        on_ok (read_or_fail rb 1) (\<lambda>(bs, rb). Inr (ucast (bs ! 0), rb))
      else if cookie = TYPE_NUMBER_WORD then
        on_ok (read_or_fail rb 2) (\<lambda>(bs, rb). Inr (ucast (un_le16 bs), rb))
      else if cookie = TYPE_NUMBER_DWORD then
        on_ok (read_or_fail rb 4) (\<lambda>(bs, rb). Inr (scast (un_le32 bs), rb))
      else if cookie = TYPE_NUMBER_QWORD then
        on_ok (read_or_fail rb 8) (\<lambda>(bs, rb). Inr (un_le64 bs, rb))
      else Inl (Invalid_Stream (length rb)))"

definition get_real :: "read_block \<Rightarrow> seri_error + u64 \<times> read_block" where
  "get_real rb = on_ok (read_or_fail rb 8) (\<lambda>(bs, rb). Inr (un_le64 bs, rb))"

definition get_pointer :: "read_block \<Rightarrow> seri_error + u64 \<times> read_block" where
  "get_pointer rb = on_ok (read_or_fail rb 8) (\<lambda>(bs, rb). Inr (un_le64 bs, rb))"

text \<open>
  A negative length passes the check of \<open>rb_read\<close> and is a block too big for
  \<open>lua_pushlstring\<close>.
\<close>

definition get_buffer :: "read_block \<Rightarrow> int \<Rightarrow> seri_error + lua_val \<times> read_block" where
  "get_buffer rb len =
     (if len < 0 then Inl (Block_Too_Big len)
      else on_ok (read_or_fail rb (nat len)) (\<lambda>(bs, rb). Inr (V_Str bs, rb)))"

definition get_long_string :: "read_block \<Rightarrow> int \<Rightarrow> seri_error + lua_val \<times> read_block" where
  "get_long_string rb cookie =
     (if cookie = 2 then on_ok (read_or_fail rb 2) (\<lambda>(bs, rb). get_buffer rb (uint (un_le16 bs)))
      else if cookie \<noteq> 4 then Inl (Invalid_Stream (length rb))
      else on_ok (read_or_fail rb 4) (\<lambda>(bs, rb). get_buffer rb (sint (un_le32 bs))))"

text \<open>The number of array elements of a table, an \<open>int\<close>.\<close>

definition table_array_size :: "read_block \<Rightarrow> int \<Rightarrow> seri_error + int \<times> read_block" where
  "table_array_size rb array_size =
     (if array_size = MAX_COOKIE - 1 then
        on_ok (read_or_fail rb 1) (\<lambda>(bs, rb).
          let cookie = uint (drop_bit 3 (bs ! 0)) in
          if bs ! 0 AND 7 \<noteq> of_nat TYPE_NUMBER \<or> cookie = TYPE_NUMBER_REAL
          then Inl (Invalid_Stream (length rb))
          else on_ok (get_integer rb cookie) (\<lambda>(n, rb). Inr (sint (ucast n :: u32), rb)))
      else Inr (array_size, rb))"

text \<open>
  \<open>unpack_one\<close> with \<open>push_value\<close>, and the two loops of \<open>unpack_table\<close>. The table is the
  list of the elements set by index and the list of the keys and values set, in this order.
  The fuel bounds the depth of the calls.
\<close>

function (sequential) unpack_one :: "nat \<Rightarrow> read_block \<Rightarrow> seri_error + lua_val \<times> read_block"
  and push_value :: "nat \<Rightarrow> read_block \<Rightarrow> nat \<Rightarrow> int \<Rightarrow> seri_error + lua_val \<times> read_block"
  and unpack_table :: "nat \<Rightarrow> read_block \<Rightarrow> int \<Rightarrow> seri_error + lua_val \<times> read_block"
  and unpack_array :: "nat \<Rightarrow> nat \<Rightarrow> read_block \<Rightarrow> seri_error + lua_val list \<times> read_block"
  and unpack_hash :: "nat \<Rightarrow> read_block \<Rightarrow> seri_error + (lua_val \<times> lua_val) list \<times> read_block"
  where
  "unpack_one 0 rb = Inl Out_Of_Fuel"
| "unpack_one (Suc fuel) rb =
     on_ok (read_or_fail rb 1) (\<lambda>(bs, rb).
       push_value fuel rb (unat (bs ! 0 AND 7)) (uint (drop_bit 3 (bs ! 0))))"
| "push_value 0 rb t cookie = Inl Out_Of_Fuel"
| "push_value (Suc fuel) rb t cookie =
     (if t = TYPE_NIL then Inr (V_Nil, rb)
      else if t = TYPE_BOOLEAN then Inr (V_Bool (cookie \<noteq> 0), rb)
      else if t = TYPE_NUMBER then
        (if cookie = TYPE_NUMBER_REAL then on_ok (get_real rb) (\<lambda>(n, rb). Inr (V_Real n, rb))
         else on_ok (get_integer rb cookie) (\<lambda>(n, rb). Inr (V_Int n, rb)))
      else if t = TYPE_USERDATA then on_ok (get_pointer rb) (\<lambda>(p, rb). Inr (V_Light p, rb))
      else if t = TYPE_SHORT_STRING then get_buffer rb cookie
      else if t = TYPE_LONG_STRING then get_long_string rb cookie
      else if t = TYPE_TABLE then unpack_table fuel rb cookie
      else Inl (Invalid_Stream (length rb)))"
| "unpack_table 0 rb n = Inl Out_Of_Fuel"
| "unpack_table (Suc fuel) rb n =
     on_ok (table_array_size rb n) (\<lambda>(array_size, rb).
     on_ok (unpack_array fuel (nat array_size) rb) (\<lambda>(arr, rb).
     on_ok (unpack_hash fuel rb) (\<lambda>(prs, rb).
       Inr (V_Table arr prs, rb))))"
| "unpack_array 0 n rb = Inl Out_Of_Fuel"
| "unpack_array (Suc fuel) 0 rb = Inr ([], rb)"
| "unpack_array (Suc fuel) (Suc n) rb =
     on_ok (unpack_one fuel rb) (\<lambda>(v, rb).
     on_ok (unpack_array fuel n rb) (\<lambda>(vs, rb). Inr (v # vs, rb)))"
| "unpack_hash 0 rb = Inl Out_Of_Fuel"
| "unpack_hash (Suc fuel) rb =
     on_ok (unpack_one fuel rb) (\<lambda>(k, rb).
       if k = V_Nil then Inr ([], rb)
       else on_ok (unpack_one fuel rb) (\<lambda>(v, rb).
            on_ok (unpack_hash fuel rb) (\<lambda>(prs, rb). Inr ((k, v) # prs, rb))))"
  by pat_completeness auto
termination
  by (relation "measure (\<lambda>x. case x of Inl (Inl (f, rb)) \<Rightarrow> f | Inl (Inr (f, rb, t, c)) \<Rightarrow> f
      | Inr (Inl (f, rb, n)) \<Rightarrow> f | Inr (Inr (Inl (f, n, rb))) \<Rightarrow> f | Inr (Inr (Inr (f, rb))) \<Rightarrow> f)") simp_all

text \<open>
  The arguments of \<open>unpack\<close>: nothing or nil, a string or a pointer with a size. The loop
  ends when no byte is left.
\<close>

fun unpack_loop :: "nat \<Rightarrow> read_block \<Rightarrow> seri_error + lua_val list" where
  "unpack_loop 0 rb = Inl Out_Of_Fuel"
| "unpack_loop (Suc fuel) rb =
     (case rb_read rb 1 of
        None \<Rightarrow> Inr []
      | Some (bs, rb') \<Rightarrow>
          on_ok (push_value fuel rb' (unat (bs ! 0 AND 7)) (uint (drop_bit 3 (bs ! 0)))) (\<lambda>(v, rb).
          on_ok (unpack_loop fuel rb) (\<lambda>vs. Inr (v # vs))))"

datatype unpack_arg = No_Arg | Arg_String "byte list" | Arg_Pointer "byte list option" nat

definition unpack_fuel :: "byte list \<Rightarrow> nat" where
  "unpack_fuel buffer = 4 * length buffer + 4"

definition luaseri_unpack :: "unpack_arg \<Rightarrow> seri_error + lua_val list" where
  "luaseri_unpack a =
     (case a of
        No_Arg \<Rightarrow> Inr []
      | Arg_String s \<Rightarrow> if s = [] then Inr [] else unpack_loop (unpack_fuel s) s
      | Arg_Pointer p len \<Rightarrow>
          if len = 0 then Inr []
          else case p of
            None \<Rightarrow> Inl Null_Pointer
          | Some buffer \<Rightarrow> unpack_loop (unpack_fuel (take len buffer)) (take len buffer))"

end
