(* ===== verification/Seri_Roundtrip.thy ===== *)
theory Seri_Roundtrip
  imports Seri
begin

text \<open>
  What the serializer promises: the blocks hold the bytes that were pushed, in order; every
  value that is packed is read back; and reading any bytes ends, with values or with an
  error.
\<close>

section \<open>The block chain is a byte string\<close>

definition wb_bytes :: "write_block \<Rightarrow> byte list" where
  "wb_bytes b = concat (wb_blocks b) @ wb_current b"

definition write_block_ok :: "write_block \<Rightarrow> bool" where
  "write_block_ok b \<longleftrightarrow> (\<forall>x\<in>set (wb_blocks b). length x = BLOCK_SIZE) \<and> length (wb_current b) = wb_ptr b \<and>
     wb_ptr b \<le> BLOCK_SIZE \<and> wb_len b = length (wb_bytes b)"

lemma wb_init_ok: "write_block_ok wb_init" "wb_bytes wb_init = []"
  by (simp_all add: write_block_ok_def wb_init_def wb_bytes_def)

lemma wb_fit_ok: "write_block_ok b \<Longrightarrow> write_block_ok (wb_fit b buffer) \<and> wb_bytes (wb_fit b buffer) = wb_bytes b @ buffer"
proof (induction b buffer rule: wb_fit.induct)
  case (1 b buffer)
  show ?case
  proof (cases "int (wb_ptr b) \<le> int BLOCK_SIZE - int (length buffer)")
    case True
    then have "wb_ptr b + length buffer \<le> BLOCK_SIZE" by linarith
    with True 1(2) show ?thesis
      by (subst (1 2) wb_fit.simps) (simp add: wb_copy_def write_block_ok_def wb_bytes_def)
  next
    case False
    let ?copy = "BLOCK_SIZE - wb_ptr b"
    let ?b = "wb_new_block (b\<lparr>wb_current := take (wb_ptr b) (wb_current b) @ take ?copy buffer,
                              wb_len := wb_len b + ?copy\<rparr>)"
    have copy: "?copy \<le> length buffer" using False by linarith
    then have ok: "write_block_ok ?b" "wb_bytes ?b = wb_bytes b @ take ?copy buffer"
      using 1(2) by (auto simp: write_block_ok_def wb_bytes_def wb_new_block_def min_def)
    from 1(1) [OF False refl ok(1)] have "write_block_ok (wb_fit ?b (drop ?copy buffer)) \<and>
        wb_bytes (wb_fit ?b (drop ?copy buffer)) = wb_bytes b @ buffer"
      unfolding ok(2) by simp
    with False show ?thesis by (subst (1 2) wb_fit.simps) (simp only: if_False Let_def)
  qed
qed

lemma wb_push_ok [simp]:
  "write_block_ok b \<Longrightarrow> write_block_ok (wb_push b buffer)"
  "write_block_ok b \<Longrightarrow> wb_bytes (wb_push b buffer) = wb_bytes b @ buffer"
proof -
  assume b: "write_block_ok b"
  have "write_block_ok (wb_new_block b) \<and> wb_bytes (wb_new_block b) = wb_bytes b" if "wb_ptr b = BLOCK_SIZE"
    using b that by (auto simp: write_block_ok_def wb_bytes_def wb_new_block_def)
  with b wb_fit_ok [of b buffer] wb_fit_ok [of "wb_new_block b" buffer]
  show "write_block_ok (wb_push b buffer)" "wb_bytes (wb_push b buffer) = wb_bytes b @ buffer"
    by (auto simp: wb_push_def)
qed

lemma seri_loop_concat:
  "\<forall>x\<in>set bs. length x = BLOCK_SIZE \<Longrightarrow> length c \<le> BLOCK_SIZE \<Longrightarrow>
   seri_loop (bs @ [c]) (length (concat bs @ c)) = concat bs @ c"
proof (induction bs)
  case Nil
  then show ?case by (cases "length c = BLOCK_SIZE") (auto simp: BLOCK_SIZE_def)
next
  case (Cons x bs)
  then show ?case by (simp add: BLOCK_SIZE_def)
qed

lemma seri_bytes: "write_block_ok b \<Longrightarrow> seri b = wb_bytes b"
  using seri_loop_concat [of "wb_blocks b" "wb_current b"]
  by (simp add: seri_def write_block_ok_def wb_bytes_def)

section \<open>Reading back one value\<close>

definition decodes :: "byte list \<Rightarrow> lua_val \<Rightarrow> bool" where
  "decodes bs v \<longleftrightarrow> bs \<noteq> [] \<and> (\<forall>f rest. 4 * length bs \<le> f \<longrightarrow> unpack_one f (bs @ rest) = Inr (v, rest))"

lemma read_or_fail_append [simp]: "length bs = n \<Longrightarrow> read_or_fail (bs @ rest) n = Inr (bs, rest)"
  by (simp add: read_or_fail_def rb_read_def)

lemma combine_type:
  assumes "t < 8" "0 \<le> v" "v < 32"
  shows "unat (COMBINE_TYPE t v AND 7) = t" "uint (drop_bit 3 (COMBINE_TYPE t v)) = v"
proof -
  have t: "t = 0 \<or> t = 1 \<or> t = 2 \<or> t = 3 \<or> t = 4 \<or> t = 5 \<or> t = 6 \<or> t = 7" using assms(1) by linarith
  obtain n where v: "v = int n" "n < 32" using assms(2,3) by (metis nonneg_int_cases of_nat_less_numeral_iff)
  have "list_all (\<lambda>t. list_all (\<lambda>n. unat (COMBINE_TYPE t (int n) AND 7) = t \<and>
      uint (drop_bit 3 (COMBINE_TYPE t (int n))) = int n) [0..<32]) [0..<8]"
    by code_simp
  then have "unat (COMBINE_TYPE t (int n) AND 7) = t \<and> uint (drop_bit 3 (COMBINE_TYPE t (int n))) = int n"
    using assms(1) v(2) by (simp add: list_all_iff)
  then show "unat (COMBINE_TYPE t v AND 7) = t" "uint (drop_bit 3 (COMBINE_TYPE t v)) = v"
    by (simp_all add: v)
qed

lemma unpack_tagged:
  assumes "t < 8" "0 \<le> c" "c < 32"
  shows "unpack_one (Suc f) (COMBINE_TYPE t c # rest) = push_value f rest t c"
  using combine_type [OF assms] by (simp add: read_or_fail_def rb_read_def)

text \<open>A tag and a body that \<open>push_value\<close> reads without descending.\<close>

lemma decodes_scalar:
  assumes "t < 8" "0 \<le> c" "c < 32" "\<And>f rest. push_value (Suc f) (body @ rest) t c = Inr (v, rest)"
  shows "decodes (COMBINE_TYPE t c # body) v"
  unfolding decodes_def
proof (intro conjI allI impI)
  fix f rest assume "4 * length (COMBINE_TYPE t c # body) \<le> f"
  then obtain g where "f = Suc (Suc g)" by (cases f; cases "f - 1") auto
  with assms show "unpack_one f ((COMBINE_TYPE t c # body) @ rest) = Inr (v, rest)"
    by (simp only: append_Cons unpack_tagged)
qed simp

definition appends :: "write_block \<Rightarrow> write_block \<Rightarrow> byte list \<Rightarrow> bool" where
  "appends b b' bs \<longleftrightarrow> write_block_ok b' \<and> wb_bytes b' = wb_bytes b @ bs"

lemma appends_push: "write_block_ok b \<Longrightarrow> appends b (wb_push b bs) bs"
  by (simp add: appends_def)

lemma appends_push_push: "write_block_ok b \<Longrightarrow> appends b (wb_push (wb_push b bs) cs) (bs @ cs)"
  by (simp add: appends_def)

lemma appends_trans: "appends b b' bs \<Longrightarrow> appends b' b'' cs \<Longrightarrow> appends b b'' (bs @ cs)"
  by (simp add: appends_def)

lemma appends_ok: "appends b b' bs \<Longrightarrow> write_block_ok b'"
  by (simp add: appends_def)

lemma scast_ucast_same: "sint v = sint (ucast v :: u32) \<Longrightarrow> scast (ucast v :: u32) = (v :: u64)"
  by (metis of_int_sint scast_id)

lemma ucast_ucast_small:
  assumes "0 \<le> sint (v :: u64)" "sint v < 2 ^ LENGTH('b::len)" "LENGTH('b) < 64"
  shows "ucast (ucast v :: 'b word) = v"
proof -
  have "uint v = uint (word_of_int (sint v) :: u64)" by simp
  also have "\<dots> = sint v mod 2 ^ 64" by (simp only: uint_word_of_int_eq take_bit_eq_mod) simp
  also have "\<dots> = sint v"
    using assms(1) sint_lt [of v] by (intro mod_pos_pos_trivial) simp_all
  finally have "uint v = sint v" .
  then have "uint v mod 2 ^ LENGTH('b) = uint v" using assms by simp
  then show ?thesis
    by (intro word_uint_eqI, simp only: unsigned_ucast_eq unsigned_take_bit_eq, simp only: take_bit_eq_mod)
      (simp add: mod_pos_pos_trivial unsigned_less [of v, where ?'a = int, simplified])
qed

lemma wb_integer_appends:
  assumes "write_block_ok b"
  obtains c body where "0 \<le> c" "c < 8" "appends b (wb_integer b v) (COMBINE_TYPE TYPE_NUMBER c # body)"
    "\<And>rest. get_integer (body @ rest) c = Inr (v, rest)"
proof -
  consider (zero) "v = 0" | (qword) "v \<noteq> 0" "sint v \<noteq> sint (ucast v :: u32)"
    | (neg) "v \<noteq> 0" "sint v = sint (ucast v :: u32)" "sint v < 0"
    | (byte) "v \<noteq> 0" "sint v = sint (ucast v :: u32)" "0 \<le> sint v" "sint v < 0x100"
    | (word) "v \<noteq> 0" "sint v = sint (ucast v :: u32)" "0x100 \<le> sint v" "sint v < 0x10000"
    | (dword) "v \<noteq> 0" "sint v = sint (ucast v :: u32)" "0x10000 \<le> sint v"
    by linarith
  then show thesis
  proof cases
    case zero
    with assms show ?thesis
      by (intro that [of 0 "[]"]) (simp_all add: wb_integer_def appends_push get_integer_def TYPE_NUMBER_ZERO_def)
  next
    case qword
    with assms show ?thesis
      by (intro that [of 6 "le64 v"])
        (simp_all add: wb_integer_def appends_push_push [where bs = "[a]" for a, simplified] get_integer_def
          TYPE_NUMBER_ZERO_def TYPE_NUMBER_BYTE_def TYPE_NUMBER_WORD_def TYPE_NUMBER_DWORD_def TYPE_NUMBER_QWORD_def)
  next
    case neg
    with assms scast_ucast_same [OF neg(2)] show ?thesis
      by (intro that [of 4 "le32 (ucast v)"])
        (simp_all add: wb_integer_def appends_push_push [where bs = "[a]" for a, simplified] get_integer_def
          TYPE_NUMBER_ZERO_def TYPE_NUMBER_BYTE_def TYPE_NUMBER_WORD_def TYPE_NUMBER_DWORD_def)
  next
    case byte
    with assms ucast_ucast_small [OF byte(3), where 'b = 8] show ?thesis
      by (intro that [of 1 "[ucast v]"])
        (simp_all add: wb_integer_def appends_push_push [where bs = "[a]" for a, simplified] get_integer_def
          TYPE_NUMBER_ZERO_def TYPE_NUMBER_BYTE_def read_or_fail_def rb_read_def)
  next
    case word
    with assms ucast_ucast_small [of v, where 'b = 16] show ?thesis
      by (intro that [of 2 "le16 (ucast v)"])
        (simp_all add: wb_integer_def appends_push_push [where bs = "[a]" for a, simplified] get_integer_def
          TYPE_NUMBER_ZERO_def TYPE_NUMBER_BYTE_def TYPE_NUMBER_WORD_def)
  next
    case dword
    with assms scast_ucast_same [OF dword(2)] show ?thesis
      by (intro that [of 4 "le32 (ucast v)"])
        (simp_all add: wb_integer_def appends_push_push [where bs = "[a]" for a, simplified] get_integer_def
          TYPE_NUMBER_ZERO_def TYPE_NUMBER_BYTE_def TYPE_NUMBER_WORD_def TYPE_NUMBER_DWORD_def)
  qed
qed

section \<open>Every value\<close>

text \<open>
  The values that can be packed at a depth: nested at most MAX_DEPTH deep, no functions or
  other unsupported types, sizes below 2^31, no nil key. And what is read back of a value:
  the entries of the array part are listed once, and an iterated table is a plain one.
\<close>

function (sequential) packable :: "nat \<Rightarrow> lua_val \<Rightarrow> bool"
  and packable_list :: "nat \<Rightarrow> lua_val list \<Rightarrow> bool"
  and packable_pairs :: "nat \<Rightarrow> int \<Rightarrow> (lua_val \<times> lua_val) list \<Rightarrow> bool"
  where
  "packable d v = (d \<le> MAX_DEPTH \<and>
     (case v of
        V_Str s \<Rightarrow> length s < 2 ^ 31
      | V_Table arr prs \<Rightarrow> length arr < 2 ^ 31 \<and> packable_list (d + 1) arr \<and>
          packable_pairs (d + 1) (int (length arr)) prs
      | V_Pairs prs \<Rightarrow> packable_pairs (d + 1) 0 prs
      | V_Other \<Rightarrow> False
      | _ \<Rightarrow> True))"
| "packable_list d [] = True"
| "packable_list d (v # vs) \<longleftrightarrow> packable d v \<and> packable_list d vs"
| "packable_pairs d n [] = True"
| "packable_pairs d n ((k, v) # prs) \<longleftrightarrow>
     (array_key n k \<or> k \<noteq> V_Nil \<and> packable d k \<and> packable d v) \<and> packable_pairs d n prs"
  by pat_completeness auto
termination
  by (relation "measure (\<lambda>x. case x of Inl (d, v) \<Rightarrow> size v
      | Inr (Inl (d, vs)) \<Rightarrow> size_list size vs
      | Inr (Inr (d, n, prs)) \<Rightarrow> size_list (size_prod size size) prs)") auto

declare packable.simps [simp del]

function (sequential) strip :: "lua_val \<Rightarrow> lua_val"
  and strip_list :: "lua_val list \<Rightarrow> lua_val list"
  and strip_pairs :: "int \<Rightarrow> (lua_val \<times> lua_val) list \<Rightarrow> (lua_val \<times> lua_val) list"
  where
  "strip v =
     (case v of
        V_Table arr prs \<Rightarrow> V_Table (strip_list arr) (strip_pairs (int (length arr)) prs)
      | V_Pairs prs \<Rightarrow> V_Table [] (strip_pairs 0 prs)
      | _ \<Rightarrow> v)"
| "strip_list [] = []"
| "strip_list (v # vs) = strip v # strip_list vs"
| "strip_pairs n [] = []"
| "strip_pairs n ((k, v) # prs) =
     (if array_key n k then strip_pairs n prs else (strip k, strip v) # strip_pairs n prs)"
  by pat_completeness auto
termination
  by (relation "measure (\<lambda>x. case x of Inl v \<Rightarrow> size v
      | Inr (Inl vs) \<Rightarrow> size_list size vs
      | Inr (Inr (n, prs)) \<Rightarrow> size_list (size_prod size size) prs)") auto

declare strip.simps [simp del]

lemma length_strip_list [simp]: "length (strip_list vs) = length vs"
  by (induction vs) simp_all

lemma strip_not_Nil: "k \<noteq> V_Nil \<Longrightarrow> strip k \<noteq> V_Nil"
  by (cases k) (simp_all add: strip.simps)

definition decodes_array :: "byte list \<Rightarrow> lua_val list \<Rightarrow> bool" where
  "decodes_array bs vs \<longleftrightarrow> (\<forall>f rest. 4 * length bs + 1 \<le> f \<longrightarrow>
     unpack_array f (length vs) (bs @ rest) = Inr (vs, rest))"

definition decodes_hash :: "byte list \<Rightarrow> (lua_val \<times> lua_val) list \<Rightarrow> bool" where
  "decodes_hash bs prs \<longleftrightarrow> (\<forall>f rest. 4 * length bs + 5 \<le> f \<longrightarrow>
     unpack_hash f (bs @ 0 # rest) = Inr (prs, rest))"

lemma nil_byte: "COMBINE_TYPE TYPE_NIL 0 = 0"
  by code_simp

lemma decodes_array_Cons:
  assumes "decodes bs v" "decodes_array cs vs"
  shows "decodes_array (bs @ cs) (v # vs)"
  unfolding decodes_array_def
proof (intro allI impI)
  fix f rest assume f: "4 * length (bs @ cs) + 1 \<le> f"
  have "1 \<le> length bs" using assms(1) by (cases bs) (simp_all add: decodes_def)
  with f obtain g where g: "f = Suc g" "4 * length bs \<le> g" "4 * length cs + 1 \<le> g" by (cases f) auto
  with assms show "unpack_array f (length (v # vs)) ((bs @ cs) @ rest) = Inr (v # vs, rest)"
    by (simp add: decodes_def decodes_array_def)
qed

lemma decodes_hash_Cons:
  assumes "decodes bs k" "decodes cs v" "decodes_hash ds prs" "k \<noteq> V_Nil"
  shows "decodes_hash (bs @ cs @ ds) ((k, v) # prs)"
  unfolding decodes_hash_def
proof (intro allI impI)
  fix f rest assume f: "4 * length (bs @ cs @ ds) + 5 \<le> f"
  have "1 \<le> length bs" using assms(1) by (cases bs) (simp_all add: decodes_def)
  with f obtain g where g: "f = Suc g" "4 * length bs \<le> g" "4 * length cs \<le> g" "4 * length ds + 5 \<le> g"
    by (cases f) auto
  with assms show "unpack_hash f ((bs @ cs @ ds) @ 0 # rest) = Inr ((k, v) # prs, rest)"
    by (simp add: decodes_def decodes_hash_def)
qed

lemma decodes_hash_Nil: "decodes_hash [] []"
  unfolding decodes_hash_def
proof (intro allI impI)
  fix f rest assume "4 * length ([] :: byte list) + 5 \<le> f"
  then obtain g where f: "f = Suc (Suc (Suc g))" by (cases f; cases "f - 1"; cases "f - 2") auto
  have "unpack_one (Suc (Suc g)) (0 # rest) = Inr (V_Nil, rest)"
    using unpack_tagged [of TYPE_NIL 0 "Suc g" rest] by (simp add: nil_byte) (simp add: TYPE_NIL_def)
  with f show "unpack_hash f ([] @ 0 # rest) = Inr ([], rest)" by simp
qed

text \<open>A table from its header, its elements, its pairs and the final nil.\<close>

lemma decodes_table:
  assumes "0 \<le> c" "c < 32"
    and hdr: "\<And>rest. table_array_size (hd' @ rest) c = Inr (int (length arr), rest)"
    and "decodes_array bs arr" "decodes_hash cs prs"
  shows "decodes (COMBINE_TYPE TYPE_TABLE c # hd' @ bs @ cs @ [0]) (V_Table arr prs)"
  unfolding decodes_def
proof (intro conjI allI impI)
  fix f rest assume f: "4 * length (COMBINE_TYPE TYPE_TABLE c # hd' @ bs @ cs @ [0]) \<le> f"
  then obtain g where g: "f = Suc (Suc (Suc g))" by (cases f; cases "f - 1"; cases "f - 2") auto
  with f have l: "4 * length bs + 1 \<le> g" "4 * length cs + 5 \<le> g" by auto
  have "push_value (Suc (Suc g)) ((hd' @ bs @ cs @ [0]) @ rest) TYPE_TABLE c = Inr (V_Table arr prs, rest)"
    using assms l by (simp add: TYPE_NIL_def TYPE_BOOLEAN_def TYPE_NUMBER_def TYPE_USERDATA_def
        TYPE_SHORT_STRING_def TYPE_LONG_STRING_def TYPE_TABLE_def decodes_array_def decodes_hash_def)
  moreover have "TYPE_TABLE < 8" by (simp add: TYPE_TABLE_def)
  ultimately show "unpack_one f ((COMBINE_TYPE TYPE_TABLE c # hd' @ bs @ cs @ [0]) @ rest) = Inr (V_Table arr prs, rest)"
    using assms(1,2) g by (simp only: append_Cons unpack_tagged)
qed simp

lemma array_header_appends:
  assumes "write_block_ok b" "n < 2 ^ 31"
  obtains c hd' where "0 \<le> c" "c < 32" "appends b (wb_array_header b (int n)) (COMBINE_TYPE TYPE_TABLE c # hd')"
    "\<And>rest. table_array_size (hd' @ rest) c = Inr (int n, rest)"
proof (cases "31 \<le> n")
  case False
  with assms show ?thesis
    by (intro that [of "int n" "[]"])
      (simp_all add: wb_array_header_def MAX_COOKIE_def appends_push table_array_size_def)
next
  case True
  let ?b = "wb_push b [COMBINE_TYPE TYPE_TABLE 31]"
  obtain c body where c: "0 \<le> c" "c < 8" "appends ?b (wb_integer ?b (word_of_int (int n))) (COMBINE_TYPE TYPE_NUMBER c # body)"
    "\<And>rest. get_integer (body @ rest) c = Inr (word_of_int (int n), rest)"
    using wb_integer_appends [of ?b] assms(1) by auto
  have n: "sint (ucast (word_of_int (int n) :: u64) :: u32) = int n"
  proof -
    have "unat (of_nat n :: u32) = n" using assms(2) by (simp add: unat_of_nat)
    then have "sint (of_nat n :: u32) = int n" using assms(2) by (simp add: sint_small)
    moreover have "(ucast (of_nat n :: u64) :: u32) = of_nat n"
      using assms(2) by (simp add: unsigned_of_nat take_bit_eq_mod)
    ultimately show ?thesis by simp
  qed
  have t: "unat (COMBINE_TYPE TYPE_NUMBER c AND 7) = TYPE_NUMBER"
    "uint (drop_bit 3 (COMBINE_TYPE TYPE_NUMBER c)) = c"
    using combine_type [of TYPE_NUMBER c] c(1,2) by (auto simp: TYPE_NUMBER_def)
  then have "COMBINE_TYPE TYPE_NUMBER c AND 7 = of_nat TYPE_NUMBER" by (metis of_nat_unat ucast_id)
  with c t n have a: "table_array_size ((COMBINE_TYPE TYPE_NUMBER c # body) @ rest) 31 = Inr (int n, rest)" for rest
    by (simp add: table_array_size_def MAX_COOKIE_def TYPE_NUMBER_REAL_def read_or_fail_def rb_read_def)
  have b: "appends b (wb_array_header b (int n)) (COMBINE_TYPE TYPE_TABLE 31 # COMBINE_TYPE TYPE_NUMBER c # body)"
    using appends_trans [OF appends_push [OF assms(1)] c(3)] True
    by (simp add: wb_array_header_def MAX_COOKIE_def)
  show ?thesis by (rule that [OF _ _ b a]) simp_all
qed

lemmas type_codes = TYPE_NIL_def TYPE_BOOLEAN_def TYPE_NUMBER_def TYPE_USERDATA_def
  TYPE_SHORT_STRING_def TYPE_LONG_STRING_def TYPE_TABLE_def

lemma string_appends:
  assumes "write_block_ok b" "length s < 2 ^ 31"
  shows "\<exists>bs. appends b (wb_string b s) bs \<and> decodes bs (V_Str s)"
proof -
  let ?n = "length s"
  have len: "as_int (int ?n) = int ?n"
  proof -
    have "unat (of_nat ?n :: u32) = ?n" using assms(2) by (simp add: unat_of_nat)
    with assms(2) show ?thesis by (simp add: as_int_def sint_small)
  qed
  consider (short) "?n < 32" | (word) "32 \<le> ?n" "?n < 0x10000" | (dword) "0x10000 \<le> ?n" by linarith
  then show ?thesis
  proof cases
    case short
    have "decodes (COMBINE_TYPE TYPE_SHORT_STRING (int ?n) # s) (V_Str s)"
      using short by (intro decodes_scalar) (simp_all add: type_codes get_buffer_def)
    moreover have "appends b (wb_string b s) (COMBINE_TYPE TYPE_SHORT_STRING (int ?n) # s)"
      using short assms(1) by (auto simp: wb_string_def len MAX_COOKIE_def Let_def appends_def)
    ultimately show ?thesis by blast
  next
    case word
    have u: "unat (of_nat ?n :: u16) = ?n" "uint (of_nat ?n :: u16) = int ?n"
      using word by (simp_all add: uint_nat unat_of_nat)
    have "decodes (COMBINE_TYPE TYPE_LONG_STRING 2 # le16 (of_nat ?n) @ s) (V_Str s)"
      by (intro decodes_scalar) (simp_all add: type_codes get_buffer_def get_long_string_def u)
    moreover have "appends b (wb_string b s) (COMBINE_TYPE TYPE_LONG_STRING 2 # le16 (of_nat ?n) @ s)"
      using word assms(1) by (auto simp: wb_string_def len MAX_COOKIE_def Let_def appends_def)
    ultimately show ?thesis by blast
  next
    case dword
    have u: "sint (of_nat ?n :: u32) = int ?n" using assms(2) by (simp add: sint_small unat_of_nat)
    have "decodes (COMBINE_TYPE TYPE_LONG_STRING 4 # le32 (of_nat ?n) @ s) (V_Str s)"
      by (intro decodes_scalar) (simp_all add: type_codes get_buffer_def get_long_string_def u)
    moreover have "appends b (wb_string b s) (COMBINE_TYPE TYPE_LONG_STRING 4 # le32 (of_nat ?n) @ s)"
      using dword assms(1) by (auto simp: wb_string_def len MAX_COOKIE_def Let_def appends_def)
    ultimately show ?thesis by blast
  qed
qed

lemma integer_decodes:
  assumes "write_block_ok b"
  shows "\<exists>bs. appends b (wb_integer b x) bs \<and> decodes bs (V_Int x)"
proof -
  obtain c body where c: "0 \<le> c" "c < 8" "appends b (wb_integer b x) (COMBINE_TYPE TYPE_NUMBER c # body)"
    "\<And>rest. get_integer (body @ rest) c = Inr (x, rest)"
    using wb_integer_appends [OF assms] by blast
  have "decodes (COMBINE_TYPE TYPE_NUMBER c # body) (V_Int x)"
    using c by (intro decodes_scalar) (simp_all add: type_codes TYPE_NUMBER_REAL_def)
  with c(3) show ?thesis by blast
qed

lemma scalar_decodes:
  assumes "write_block_ok b"
  shows "\<exists>bs. appends b (wb_nil b) bs \<and> decodes bs V_Nil"
    and "\<exists>bs. appends b (wb_boolean b x) bs \<and> decodes bs (V_Bool x)"
    and "\<exists>bs. appends b (wb_real b n) bs \<and> decodes bs (V_Real n)"
    and "\<exists>bs. appends b (wb_pointer b n) bs \<and> decodes bs (V_Light n)"
proof -
  have z: "(of_nat TYPE_NIL :: byte) = COMBINE_TYPE TYPE_NIL 0"
    "(of_nat TYPE_USERDATA :: byte) = COMBINE_TYPE TYPE_USERDATA 0" by code_simp+
  have "decodes (COMBINE_TYPE TYPE_NIL 0 # []) V_Nil"
    by (intro decodes_scalar) (simp_all add: type_codes)
  with assms show "\<exists>bs. appends b (wb_nil b) bs \<and> decodes bs V_Nil"
    by (auto simp: wb_nil_def z appends_def)
  have "decodes (COMBINE_TYPE TYPE_BOOLEAN (if x then 1 else 0) # []) (V_Bool x)"
    by (intro decodes_scalar) (simp_all add: type_codes)
  with assms show "\<exists>bs. appends b (wb_boolean b x) bs \<and> decodes bs (V_Bool x)"
    unfolding wb_boolean_def by (auto simp: appends_def)
  have "decodes (COMBINE_TYPE TYPE_NUMBER TYPE_NUMBER_REAL # le64 n) (V_Real n)"
    by (intro decodes_scalar) (simp_all add: type_codes TYPE_NUMBER_REAL_def get_real_def)
  with assms show "\<exists>bs. appends b (wb_real b n) bs \<and> decodes bs (V_Real n)"
    by (auto simp: wb_real_def appends_def)
  have "decodes (COMBINE_TYPE TYPE_USERDATA 0 # le64 n) (V_Light n)"
    by (intro decodes_scalar) (simp_all add: type_codes get_pointer_def)
  with assms show "\<exists>bs. appends b (wb_pointer b n) bs \<and> decodes bs (V_Light n)"
    by (auto simp: wb_pointer_def z appends_def)
qed

lemma decodes_array_Nil: "decodes_array [] []"
  unfolding decodes_array_def
proof (intro allI impI)
  fix f rest assume "4 * length ([] :: byte list) + 1 \<le> f"
  then obtain g where "f = Suc g" by (cases f) auto
  then show "unpack_array f (length ([] :: lua_val list)) ([] @ rest) = Inr ([], rest)" by simp
qed

lemma decodes_nonempty: "decodes bs v \<Longrightarrow> bs \<noteq> []"
  by (simp add: decodes_def)

lemma pack_decodes:
  "packable d v \<Longrightarrow> write_block_ok b \<Longrightarrow> \<exists>b' bs. pack_one b v d = Inr b' \<and> appends b b' bs \<and> decodes bs (strip v)"
  "packable_list d vs \<Longrightarrow> write_block_ok b \<Longrightarrow>
     \<exists>b' bs. pack_array b (length vs) vs d = Inr b' \<and> appends b b' bs \<and> decodes_array bs (strip_list vs)"
  "packable_pairs d n prs \<Longrightarrow> write_block_ok b \<Longrightarrow>
     \<exists>b' bs. pack_hash b n prs d = Inr b' \<and> appends b b' bs \<and> decodes_hash bs (strip_pairs n prs)"
proof (induction d v and d vs and d n prs arbitrary: b and b and b
    rule: packable_packable_list_packable_pairs.induct)
  case (1 d v)
  then have d: "\<not> MAX_DEPTH < d" by (simp add: packable.simps)
  show ?case
  proof (cases v)
    case (V_Str s)
    with 1 string_appends [of b s] show ?thesis by (auto simp: packable.simps pack_one.simps strip.simps)
  next
    case (V_Table arr prs)
    with 1(4) have p: "length arr < 2 ^ 31" "packable_list (d + 1) arr"
      "packable_pairs (d + 1) (int (length arr)) prs"
      by (simp_all add: packable.simps)
    have len: "as_int (int (length arr)) = int (length arr)"
    proof -
      have "unat (of_nat (length arr) :: u32) = length arr" using p(1) by (simp add: unat_of_nat)
      with p(1) show ?thesis by (simp add: as_int_def sint_small)
    qed
    obtain c hd' where h: "0 \<le> c" "c < 32"
      "appends b (wb_array_header b (int (length arr))) (COMBINE_TYPE TYPE_TABLE c # hd')"
      "\<And>rest. table_array_size (hd' @ rest) c = Inr (int (length arr), rest)"
      using array_header_appends [OF 1(5) p(1)] by blast
    let ?b = "wb_array_header b (int (length arr))"
    obtain b1 bs where a: "pack_array ?b (length arr) arr (d + 1) = Inr b1" "appends ?b b1 bs"
      "decodes_array bs (strip_list arr)"
      using 1(1) [OF V_Table p(2) appends_ok [OF h(3)]] d by auto
    obtain b2 cs where k: "pack_hash b1 (int (length arr)) prs (d + 1) = Inr b2" "appends b1 b2 cs"
      "decodes_hash cs (strip_pairs (int (length arr)) prs)"
      using 1(2) [OF V_Table p(3) appends_ok [OF a(2)]] d by auto
    have n: "appends b2 (wb_nil b2) [0]"
      using appends_ok [OF k(2)] by (simp add: wb_nil_def appends_def TYPE_NIL_def)
    have "pack_one b v d = Inr (wb_nil b2)"
      using d V_Table a(1) k(1) by (simp add: pack_one.simps len)
    moreover have "decodes (COMBINE_TYPE TYPE_TABLE c # hd' @ bs @ cs @ [0]) (strip v)"
      using decodes_table [OF h(1,2) _ a(3) k(3), of hd'] h(4) V_Table by (simp add: strip.simps)
    moreover have "appends b (wb_nil b2) (COMBINE_TYPE TYPE_TABLE c # hd' @ bs @ cs @ [0])"
      using appends_trans [OF h(3) appends_trans [OF a(2) appends_trans [OF k(2) n]]] by simp
    ultimately show ?thesis by blast
  next
    case (V_Pairs prs)
    with 1(4) have p: "packable_pairs (d + 1) 0 prs" by (simp add: packable.simps)
    let ?b = "wb_push b [COMBINE_TYPE TYPE_TABLE 0]"
    have h: "appends b ?b [COMBINE_TYPE TYPE_TABLE 0]" using 1(5) by (rule appends_push)
    obtain b2 cs where k: "pack_hash ?b 0 prs (d + 1) = Inr b2" "appends ?b b2 cs"
      "decodes_hash cs (strip_pairs 0 prs)"
      using 1(3) [OF V_Pairs p appends_ok [OF h]] d by auto
    have n: "appends b2 (wb_nil b2) [0]"
      using appends_ok [OF k(2)] by (simp add: wb_nil_def appends_def TYPE_NIL_def)
    have "pack_one b v d = Inr (wb_nil b2)" using d V_Pairs k(1) by (simp add: pack_one.simps)
    moreover have "decodes (COMBINE_TYPE TYPE_TABLE 0 # [] @ [] @ cs @ [0]) (strip v)"
      using decodes_table [of 0 "[]" "[]" "[]" cs "strip_pairs 0 prs"] k(3) V_Pairs
      by (simp add: strip.simps table_array_size_def MAX_COOKIE_def decodes_array_Nil)
    moreover have "appends b (wb_nil b2) (COMBINE_TYPE TYPE_TABLE 0 # cs @ [0])"
      using appends_trans [OF h appends_trans [OF k(2) n]] by simp
    ultimately show ?thesis by auto
  qed (use 1(4,5) d integer_decodes scalar_decodes in \<open>auto simp: packable.simps pack_one.simps strip.simps\<close>)
next
  case (2 d)
  then show ?case using decodes_array_Nil by (auto simp: appends_def)
next
  case (3 d v vs)
  then have p: "packable d v" "packable_list d vs" by simp_all
  obtain b1 bs where v: "pack_one b v d = Inr b1" "appends b b1 bs" "decodes bs (strip v)"
    using 3(1) [OF p(1) 3(4)] by blast
  obtain b2 cs where vs: "pack_array b1 (length vs) vs d = Inr b2" "appends b1 b2 cs"
    "decodes_array cs (strip_list vs)"
    using 3(2) [OF p(2) appends_ok [OF v(2)]] by blast
  show ?case
    using v(1) vs(1) appends_trans [OF v(2) vs(2)] decodes_array_Cons [OF v(3) vs(3)] by auto
next
  case (4 d n)
  then show ?case using decodes_hash_Nil by (auto simp: appends_def)
next
  case (5 d n k v prs)
  show ?case
  proof (cases "array_key n k")
    case True
    with 5 show ?thesis by simp
  next
    case False
    with 5(4) have p: "k \<noteq> V_Nil" "packable d k" "packable d v" "packable_pairs d n prs" by simp_all
    obtain b1 bs where k: "pack_one b k d = Inr b1" "appends b b1 bs" "decodes bs (strip k)"
      using 5(1) [OF p(2) 5(5)] by blast
    obtain b2 cs where v: "pack_one b1 v d = Inr b2" "appends b1 b2 cs" "decodes cs (strip v)"
      using 5(2) [OF p(3) appends_ok [OF k(2)]] by blast
    obtain b3 ds where h: "pack_hash b2 n prs d = Inr b3" "appends b2 b3 ds"
      "decodes_hash ds (strip_pairs n prs)"
      using 5(3) [OF p(4) appends_ok [OF v(2)]] by blast
    show ?thesis
      using False k(1) v(1) h(1) appends_trans [OF k(2) appends_trans [OF v(2) h(2)]]
        decodes_hash_Cons [OF k(3) v(3) h(3) strip_not_Nil [OF p(1)]] by auto
  qed
qed

section \<open>Messages\<close>

lemma pack_from_decodes:
  "list_all (packable 0) vs \<Longrightarrow> write_block_ok b \<Longrightarrow>
   \<exists>b' bss. pack_from b vs = Inr b' \<and> appends b b' (concat bss) \<and> list_all2 decodes bss (map strip vs)"
proof (induction vs arbitrary: b)
  case Nil
  then show ?case by (auto simp: pack_from_def appends_def intro!: exI [of _ "[]"])
next
  case (Cons v vs)
  obtain b1 bs where v: "pack_one b v 0 = Inr b1" "appends b b1 bs" "decodes bs (strip v)"
    using pack_decodes(1) [of 0 v b] Cons.prems by auto
  obtain b2 bss where vs: "pack_from b1 vs = Inr b2" "appends b1 b2 (concat bss)"
    "list_all2 decodes bss (map strip vs)"
    using Cons.IH [OF _ appends_ok [OF v(2)]] Cons.prems(1) by auto
  have "pack_from b (v # vs) = Inr b2" using v(1) vs(1) by (simp add: pack_from_def)
  moreover have "appends b b2 (concat (bs # bss))" using appends_trans [OF v(2) vs(2)] by simp
  moreover have "list_all2 decodes (bs # bss) (map strip (v # vs))" using v(3) vs(3) by simp
  ultimately show ?case by blast
qed

lemma unpack_loop_decodes:
  "list_all2 decodes bss ws \<Longrightarrow> 4 * length (concat bss) + 4 \<le> f \<Longrightarrow> unpack_loop f (concat bss) = Inr ws"
proof (induction bss ws arbitrary: f rule: list_all2_induct)
  case Nil
  then show ?case by (cases f) (simp_all add: rb_read_def)
next
  case (Cons bs bss w ws)
  obtain t body where bs: "bs = t # body" using Cons.hyps(1) by (cases bs) (simp_all add: decodes_def)
  from Cons.prems bs obtain g where f: "f = Suc g" "4 * length bs \<le> Suc g" "4 * length (concat bss) + 4 \<le> g"
    by (cases f) auto
  have "unpack_one (Suc g) (bs @ concat bss) = Inr (w, concat bss)"
    using Cons.hyps(1) f(2) unfolding decodes_def by blast
  then have "push_value g (body @ concat bss) (unat (t AND 7)) (uint (drop_bit 3 t)) = Inr (w, concat bss)"
    by (simp add: bs read_or_fail_def rb_read_def)
  with Cons.IH [OF f(3)] show ?case by (simp add: f(1) bs rb_read_def)
qed



section \<open>Any input\<close>

lemma read_or_fail_length: "read_or_fail rb n = Inr (bs, rb') \<Longrightarrow> length bs = n \<and> length rb' + n = length rb"
  by (auto simp: read_or_fail_def rb_read_def split: if_splits)

lemma read_or_fail_fuel: "read_or_fail rb n \<noteq> Inl Out_Of_Fuel"
  by (simp add: read_or_fail_def split: option.split)

lemma on_ok_Inl: "on_ok r f = Inl e \<longleftrightarrow> r = Inl e \<or> (\<exists>x. r = Inr x \<and> f x = Inl e)"
  by (cases r) auto

lemmas read_split = on_ok_Inr on_ok_Inl read_or_fail_fuel

lemma get_integer_rest:
  "get_integer rb c = Inr (n, rb') \<Longrightarrow> length rb' \<le> length rb" "get_integer rb c \<noteq> Inl Out_Of_Fuel"
  by (auto simp: get_integer_def read_split split: if_splits dest!: read_or_fail_length)

lemma get_real_rest:
  "get_real rb = Inr (n, rb') \<Longrightarrow> length rb' \<le> length rb" "get_real rb \<noteq> Inl Out_Of_Fuel"
  by (auto simp: get_real_def read_split dest!: read_or_fail_length)

lemma get_pointer_rest:
  "get_pointer rb = Inr (n, rb') \<Longrightarrow> length rb' \<le> length rb" "get_pointer rb \<noteq> Inl Out_Of_Fuel"
  by (auto simp: get_pointer_def read_split dest!: read_or_fail_length)

lemma get_buffer_rest:
  "get_buffer rb len = Inr (v, rb') \<Longrightarrow> length rb' \<le> length rb" "get_buffer rb len \<noteq> Inl Out_Of_Fuel"
  by (auto simp: get_buffer_def read_split split: if_splits dest!: read_or_fail_length)

lemma get_long_string_rest:
  "get_long_string rb c = Inr (v, rb') \<Longrightarrow> length rb' \<le> length rb" "get_long_string rb c \<noteq> Inl Out_Of_Fuel"
  by (auto simp: get_long_string_def read_split get_buffer_rest split: if_splits
      dest!: read_or_fail_length get_buffer_rest(1))

lemma table_array_size_rest:
  "table_array_size rb c = Inr (n, rb') \<Longrightarrow> length rb' \<le> length rb" "table_array_size rb c \<noteq> Inl Out_Of_Fuel"
  by (auto simp: table_array_size_def read_split get_integer_rest Let_def split: if_splits
      dest!: read_or_fail_length get_integer_rest(1))

lemma unpack_consumes:
  "unpack_one f rb = Inr (v, rb') \<Longrightarrow> length rb' < length rb"
  "push_value f rb t c = Inr (v, rb') \<Longrightarrow> length rb' \<le> length rb"
  "unpack_table f rb c = Inr (v, rb') \<Longrightarrow> length rb' \<le> length rb"
  "unpack_array f n rb = Inr (vs, rb') \<Longrightarrow> length rb' \<le> length rb"
  "unpack_hash f rb = Inr (prs, rb') \<Longrightarrow> length rb' < length rb"
proof (induction f rb and f rb t c and f rb c and f n rb and f rb arbitrary: v rb' and v rb' and v rb' and vs rb' and prs rb'
    rule: unpack_one_push_value_unpack_table_unpack_array_unpack_hash.induct)
  case (2 fuel rb)
  then show ?case by (fastforce simp: on_ok_Inr dest: read_or_fail_length)
next
  case (4 fuel rb t c)
  then show ?case
    by (auto simp: on_ok_Inr split: if_splits dest: get_real_rest(1) get_integer_rest(1) get_pointer_rest(1)
        get_buffer_rest(1) get_long_string_rest(1))
next
  case (6 fuel rb n)
  then obtain a rb1 arr rb2 prs where r: "table_array_size rb n = Inr (a, rb1)"
    "unpack_array fuel (nat a) rb1 = Inr (arr, rb2)" "unpack_hash fuel rb2 = Inr (prs, rb')"
    by (auto simp: on_ok_Inr)
  have "length rb1 \<le> length rb" "length rb2 \<le> length rb1" "length rb' < length rb2"
    using table_array_size_rest(1) [OF r(1)] 6(1) [OF r(2)] 6(2) [OF r(3)] by auto
  then show ?case by linarith
next
  case (9 fuel n rb)
  then show ?case by (fastforce simp: on_ok_Inr)
next
  case (11 fuel rb)
  then show ?case by (fastforce simp: on_ok_Inr split: if_splits)
qed simp_all

lemma unpack_fuel_enough:
  "4 * length rb + 1 \<le> f \<Longrightarrow> unpack_one f rb \<noteq> Inl Out_Of_Fuel"
  "4 * length rb + 4 \<le> f \<Longrightarrow> push_value f rb t c \<noteq> Inl Out_Of_Fuel"
  "4 * length rb + 3 \<le> f \<Longrightarrow> unpack_table f rb c \<noteq> Inl Out_Of_Fuel"
  "4 * length rb + 2 \<le> f \<Longrightarrow> unpack_array f n rb \<noteq> Inl Out_Of_Fuel"
  "4 * length rb + 2 \<le> f \<Longrightarrow> unpack_hash f rb \<noteq> Inl Out_Of_Fuel"
proof (induction f rb and f rb t c and f rb c and f n rb and f rb
    rule: unpack_one_push_value_unpack_table_unpack_array_unpack_hash.induct)
  case (2 fuel rb)
  then show ?case by (fastforce simp: read_split dest: read_or_fail_length)
next
  case (4 fuel rb t c)
  then show ?case
    by (auto simp: on_ok_Inl get_real_rest(2) get_integer_rest(2) get_pointer_rest(2)
        get_buffer_rest(2) get_long_string_rest(2))
next
  case (6 fuel rb n)
  show ?case
  proof
    assume "unpack_table (Suc fuel) rb n = Inl Out_Of_Fuel"
    then obtain a rb1 where r: "table_array_size rb n = Inr (a, rb1)"
      and rest: "on_ok (unpack_array fuel (nat a) rb1) (\<lambda>(arr, rb).
        on_ok (unpack_hash fuel rb) (\<lambda>(prs, rb). Inr (V_Table arr prs, rb))) = Inl Out_Of_Fuel"
      by (auto simp: on_ok_Inl table_array_size_rest(2))
    have l: "4 * length rb1 + 2 \<le> fuel" using table_array_size_rest(1) [OF r] 6(3) by simp
    with 6(1) rest obtain arr rb2 where a: "unpack_array fuel (nat a) rb1 = Inr (arr, rb2)"
      and h: "unpack_hash fuel rb2 = Inl Out_Of_Fuel"
      by (auto simp: on_ok_Inl)
    have "4 * length rb2 + 2 \<le> fuel" using unpack_consumes(4) [OF a] l by simp
    with 6(2) h show False by blast
  qed
next
  case (9 fuel n rb)
  show ?case
  proof
    assume "unpack_array (Suc fuel) (Suc n) rb = Inl Out_Of_Fuel"
    with 9(1,3) obtain v rb1 where r: "unpack_one fuel rb = Inr (v, rb1)"
      and a: "unpack_array fuel n rb1 = Inl Out_Of_Fuel"
      by (auto simp: on_ok_Inl)
    have "4 * length rb1 + 2 \<le> fuel" using unpack_consumes(1) [OF r] 9(3) by simp
    with 9(2) a show False by blast
  qed
next
  case (11 fuel rb)
  show ?case
  proof
    assume "unpack_hash (Suc fuel) rb = Inl Out_Of_Fuel"
    with 11(1,4) obtain k rb1 where r: "unpack_one fuel rb = Inr (k, rb1)" and nn: "k \<noteq> V_Nil"
      and rest: "on_ok (unpack_one fuel rb1) (\<lambda>(v, rb).
        on_ok (unpack_hash fuel rb) (\<lambda>(prs, rb). Inr ((k, v) # prs, rb))) = Inl Out_Of_Fuel"
      by (auto simp: on_ok_Inl split: if_splits)
    have l1: "length rb1 < length rb" using unpack_consumes(1) [OF r] .
    with 11(4) have "4 * length rb1 + 1 \<le> fuel" by simp
    from 11(2) [OF nn this] rest obtain v rb2 where v: "unpack_one fuel rb1 = Inr (v, rb2)"
      and h: "unpack_hash fuel rb2 = Inl Out_Of_Fuel"
      by (auto simp: on_ok_Inl)
    have "4 * length rb2 + 2 \<le> fuel" using unpack_consumes(1) [OF v] l1 11(4) by simp
    with 11(3) h show False by blast
  qed
qed simp_all

lemma unpack_loop_fuel: "4 * length rb + 4 \<le> f \<Longrightarrow> unpack_loop f rb \<noteq> Inl Out_Of_Fuel"
proof (induction f rb rule: unpack_loop.induct)
  case (1 rb)
  then show ?case by simp
next
  case (2 fuel rb)
  show ?case
  proof (cases rb)
    case Nil
    then show ?thesis by (simp add: rb_read_def)
  next
    case (Cons t rb1)
    have "push_value fuel rb1 (unat (t AND 7)) (uint (drop_bit 3 t)) \<noteq> Inl Out_Of_Fuel"
      using 2(2) Cons by (intro unpack_fuel_enough(2)) simp
    moreover have "unpack_loop fuel rb2 \<noteq> Inl Out_Of_Fuel"
      if "push_value fuel rb1 (unat (t AND 7)) (uint (drop_bit 3 t)) = Inr (v, rb2)" for v rb2
      using unpack_consumes(2) [OF that] 2 Cons that by (simp add: rb_read_def)
    ultimately show ?thesis by (auto simp: Cons rb_read_def on_ok_Inl)
  qed
qed

text \<open>
  Unpacking returns for every sequence of bytes, whatever sizes and nesting it claims: the
  depth of the calls is bounded by four times the number of bytes. The result is a list of
  values, or one of the errors for a truncated or malformed stream or an impossible
  string length.
\<close>

theorem seri_unpack_returns: "luaseri_unpack a \<noteq> Inl Out_Of_Fuel"
  using unpack_loop_fuel [OF order_refl]
  by (auto simp: luaseri_unpack_def unpack_fuel_def simp del: length_take
      split: unpack_arg.split option.split)

end
