(* ===== verification/Harbor_Service.thy ===== *)
theory Harbor_Service
  imports Ring Mtask_Header
begin

text \<open>
  The harbor service, service-src/mtask_service_harbor.c: it keeps a connection to every
  other node (a slave), queues messages for nodes and global names that are not known yet,
  and turns the byte stream of each connection into messages. What a handler does to
  the outside is the list of its \<open>harbor_out\<close> events in order; \<open>HCrash\<close> marks a failed
  assertion or an access outside a buffer, after which the behaviour of the C program is
  undefined. \<open>alive\<close> says which handles \<open>mtask_send\<close> accepts.
\<close>

section \<open>Data\<close>

definition HASH_SIZE :: nat where "HASH_SIZE = 4096"
definition HARBOR_QUEUE_SIZE :: nat where "HARBOR_QUEUE_SIZE = 1024"
definition HEADER_COOKIE_LENGTH :: nat where "HEADER_COOKIE_LENGTH = 12"
definition REMOTE_MAX :: nat where "REMOTE_MAX = 256"
definition REMOTE_SHIFT :: nat where "REMOTE_SHIFT = 24"
definition LOW_HANDLE :: u32 where "LOW_HANDLE = 0xffffff"
definition DONTCOPY :: int where "DONTCOPY = 0x10000"

datatype harbor_out =
    HSend u32 u32 int u32 "byte list"   \<comment> \<open>source, destination, type, session, data\<close>
  | HSocketSend int "byte list"
  | HSocketClose int
  | HSocketStart int
  | HFree "byte list"
  | HLog string
  | HCrash

record remote_message_header =
  rh_source :: u32
  rh_destination :: u32
  rh_session :: u32

record harbor_msg =
  hm_header :: remote_message_header
  hm_buffer :: "byte list"

record harbor_msg_queue =
  hq_size :: nat
  hq_head :: nat
  hq_tail :: nat
  hq_data :: "harbor_msg list"

record keyvalue =
  kv_key :: "byte list"
  kv_hash :: u32
  kv_value :: u32
  kv_queue :: "harbor_msg_queue option"

datatype slave_status = WAIT | HANDSHAKE | HEADER | CONTENT | DOWN

record slave =
  sl_fd :: int
  sl_queue :: "harbor_msg_queue option"
  sl_status :: slave_status
  sl_length :: nat
  sl_read :: nat
  sl_size :: "byte list"
  sl_recv :: "byte list"

record harbor =
  hb_id :: u32
  hb_slave :: u32
  hb_map :: "nat \<Rightarrow> keyvalue list"
  hb_s :: "slave list"

definition blank_slave :: slave where
  "blank_slave = \<lparr>sl_fd = 0, sl_queue = None, sl_status = WAIT, sl_length = 0, sl_read = 0,
     sl_size = [], sl_recv = []\<rparr>"

definition harbor_create :: harbor where
  "harbor_create = \<lparr>hb_id = 0, hb_slave = 0, hb_map = (\<lambda>_. []), hb_s = replicate REMOTE_MAX blank_slave\<rparr>"

definition slave_at :: "harbor \<Rightarrow> nat \<Rightarrow> slave" where
  "slave_at h i = hb_s h ! i"

definition set_slave :: "harbor \<Rightarrow> nat \<Rightarrow> slave \<Rightarrow> harbor" where
  "set_slave h i s = h\<lparr>hb_s := (hb_s h)[i := s]\<rparr>"

section \<open>Queues\<close>

definition blank_msg :: harbor_msg where
  "blank_msg = \<lparr>hm_header = \<lparr>rh_source = 0, rh_destination = 0, rh_session = 0\<rparr>, hm_buffer = []\<rparr>"

definition hq_new :: harbor_msg_queue where
  "hq_new = \<lparr>hq_size = HARBOR_QUEUE_SIZE, hq_head = 0, hq_tail = 0,
     hq_data = replicate HARBOR_QUEUE_SIZE blank_msg\<rparr>"

definition hq_expand :: "harbor_msg_queue \<Rightarrow> harbor_msg_queue" where
  "hq_expand queue =
     queue\<lparr>hq_data := map (\<lambda>i. hq_data queue ! ((i + hq_head queue) mod hq_size queue)) [0..<hq_size queue - 1] @
                       replicate (hq_size queue + 1) blank_msg,
            hq_head := 0, hq_tail := hq_size queue - 1, hq_size := hq_size queue * 2\<rparr>"

definition push_queue_msg :: "harbor_msg_queue \<Rightarrow> harbor_msg \<Rightarrow> harbor_msg_queue" where
  "push_queue_msg queue m =
     (let queue = (if (hq_tail queue + 1) mod hq_size queue = hq_head queue then hq_expand queue else queue)
      in queue\<lparr>hq_data := (hq_data queue)[hq_tail queue := m],
                hq_tail := (hq_tail queue + 1) mod hq_size queue\<rparr>)"

definition push_queue :: "harbor_msg_queue \<Rightarrow> byte list \<Rightarrow> remote_message_header \<Rightarrow> harbor_msg_queue" where
  "push_queue queue buffer header = push_queue_msg queue \<lparr>hm_header = header, hm_buffer = buffer\<rparr>"

definition pop_queue :: "harbor_msg_queue \<Rightarrow> harbor_msg option \<times> harbor_msg_queue" where
  "pop_queue queue =
     (if hq_head queue = hq_tail queue then (None, queue)
      else (Some (hq_data queue ! hq_head queue), queue\<lparr>hq_head := (hq_head queue + 1) mod hq_size queue\<rparr>))"

text \<open>The loops \<open>while ((m = pop_queue(queue)) != NULL)\<close>; a queue never holds more than its size.\<close>

definition pop_all :: "harbor_msg_queue \<Rightarrow> harbor_msg list \<times> harbor_msg_queue" where
  "pop_all queue = drain (hq_size queue) pop_queue queue"

definition release_queue :: "harbor_msg_queue option \<Rightarrow> harbor_out list" where
  "release_queue queue = (case queue of None \<Rightarrow> [] | Some q \<Rightarrow> map (\<lambda>m. HFree (hm_buffer m)) (fst (pop_all q)))"

section \<open>Names\<close>

definition name_hash :: "byte list \<Rightarrow> u32" where
  "name_hash name = un_le32 name XOR un_le32 (drop 4 name) XOR un_le32 (drop 8 name) XOR un_le32 (drop 12 name)"

text \<open>\<open>strncmp(a, b, 16) == 0\<close>\<close>

definition same_name :: "byte list \<Rightarrow> byte list \<Rightarrow> bool" where
  "same_name a b \<longleftrightarrow> takeWhile (\<lambda>c. c \<noteq> 0) (take GLOBALNAME_LENGTH a) = takeWhile (\<lambda>c. c \<noteq> 0) (take GLOBALNAME_LENGTH b)"

definition node_matches :: "byte list \<Rightarrow> keyvalue \<Rightarrow> bool" where
  "node_matches name node \<longleftrightarrow> kv_hash node = name_hash name \<and> same_name (kv_key node) name"

definition name_bucket :: "byte list \<Rightarrow> nat" where
  "name_bucket name = unat (name_hash name) mod HASH_SIZE"

definition hash_search :: "harbor \<Rightarrow> byte list \<Rightarrow> keyvalue option" where
  "hash_search h name = List.find (node_matches name) (hb_map h (name_bucket name))"

definition hash_insert :: "harbor \<Rightarrow> byte list \<Rightarrow> harbor" where
  "hash_insert h name =
     (let b = name_bucket name;
          node = \<lparr>kv_key = take GLOBALNAME_LENGTH name, kv_hash = name_hash name, kv_value = 0, kv_queue = None\<rparr>
      in h\<lparr>hb_map := (hb_map h)(b := node # hb_map h b)\<rparr>)"

text \<open>A change through the pointer to the node that \<open>hash_search\<close> found.\<close>

fun update_first :: "('a \<Rightarrow> bool) \<Rightarrow> ('a \<Rightarrow> 'a) \<Rightarrow> 'a list \<Rightarrow> 'a list" where
  "update_first p f [] = []"
| "update_first p f (x # xs) = (if p x then f x # xs else x # update_first p f xs)"

definition set_node :: "harbor \<Rightarrow> byte list \<Rightarrow> (keyvalue \<Rightarrow> keyvalue) \<Rightarrow> harbor" where
  "set_node h name f =
     (let b = name_bucket name
      in h\<lparr>hb_map := (hb_map h)(b := update_first (node_matches name) f (hb_map h b))\<rparr>)"

definition search_or_insert :: "harbor \<Rightarrow> byte list \<Rightarrow> harbor" where
  "search_or_insert h name = (if hash_search h name = None then hash_insert h name else h)"

definition hash_delete :: "harbor \<Rightarrow> harbor_out list" where
  "hash_delete h = concat (map (\<lambda>i. concat (map (\<lambda>node. release_queue (kv_queue node)) (hb_map h i))) [0..<HASH_SIZE])"

section \<open>Connections\<close>

definition close_harbor :: "harbor \<Rightarrow> nat \<Rightarrow> harbor \<times> harbor_out list" where
  "close_harbor h i =
     (let s = slave_at h i
      in (set_slave h i (s\<lparr>sl_status := DOWN, sl_queue := None\<rparr>),
          (if sl_fd s \<noteq> 0 then [HSocketClose (sl_fd s)] else []) @ release_queue (sl_queue s)))"

definition report_harbor_down :: "harbor \<Rightarrow> nat \<Rightarrow> harbor_out list" where
  "report_harbor_down h i = [HSend 0 (hb_slave h) PTYPE_TEXT 0 (str ''D '' @ print_int (int i))]"

definition harbor_release :: "harbor \<Rightarrow> harbor_out list" where
  "harbor_release h =
     concat (map (\<lambda>i. if sl_fd (slave_at h i) \<noteq> 0 \<and> sl_status (slave_at h i) \<noteq> DOWN
                       then snd (close_harbor h i) else []) [1..<REMOTE_MAX]) @ hash_delete h"

section \<open>Packages\<close>

definition to_bigendian :: "u32 \<Rightarrow> byte list" where
  "to_bigendian n = be32 n"

definition header_to_message :: "remote_message_header \<Rightarrow> byte list" where
  "header_to_message header =
     to_bigendian (rh_source header) @ to_bigendian (rh_destination header) @ to_bigendian (rh_session header)"

definition from_bigendian :: "byte list \<Rightarrow> u32" where
  "from_bigendian n = un_be32 n"

definition message_to_header :: "byte list \<Rightarrow> remote_message_header" where
  "message_to_header message =
     \<lparr>rh_source = from_bigendian message, rh_destination = from_bigendian (drop 4 message),
      rh_session = from_bigendian (drop 8 message)\<rparr>"

text \<open>A package shorter than its cookie makes the code read before the buffer.\<close>

definition forward_local_messsage :: "(u32 \<Rightarrow> bool) \<Rightarrow> harbor \<Rightarrow> byte list \<Rightarrow> harbor_out list" where
  "forward_local_messsage alive h msg =
     (if length msg < HEADER_COOKIE_LENGTH then [HCrash]
      else
        let sz = length msg - HEADER_COOKIE_LENGTH;
            header = message_to_header (drop sz msg);
            t = uint (drop_bit REMOTE_SHIFT (rh_destination header)) OR DONTCOPY;
            destination = (rh_destination header AND LOW_HANDLE) OR push_bit REMOTE_SHIFT (hb_id h)
        in if alive destination
           then [HSend (rh_source header) destination t (rh_session header) (take sz msg)]
           else [HSend destination (rh_source header) PTYPE_ERROR (rh_session header) [],
                 HLog ''Unknown destination''])"

definition send_remote :: "int \<Rightarrow> byte list \<Rightarrow> remote_message_header \<Rightarrow> harbor_out list" where
  "send_remote fd buffer cookie =
     (let sz_header = length buffer + HEADER_COOKIE_LENGTH in
      if 0xffffffff < sz_header then [HLog ''remote message is too large'']
      else [HSocketSend fd (to_bigendian (of_nat sz_header) @ buffer @ header_to_message cookie)])"

text \<open>\<open>harbor_id\<close>, and the same search in \<open>push_socket_data\<close>.\<close>

definition harbor_id :: "harbor \<Rightarrow> int \<Rightarrow> nat" where
  "harbor_id h fd =
     (case List.find (\<lambda>i. sl_fd (slave_at h i) = fd) [1..<REMOTE_MAX] of None \<Rightarrow> 0 | Some i \<Rightarrow> i)"

section \<open>Queued messages\<close>

text \<open>
  \<open>dispatch_name_queue\<close> for the node of a name: the harbor afterwards, with the queue of the
  node as the code leaves it.
\<close>

definition or_destination :: "u32 \<Rightarrow> remote_message_header \<Rightarrow> remote_message_header" where
  "or_destination handle header = header\<lparr>rh_destination := rh_destination header OR (handle AND LOW_HANDLE)\<rparr>"

definition dispatch_name_queue :: "harbor \<Rightarrow> byte list \<Rightarrow> keyvalue \<Rightarrow> harbor \<times> harbor_out list" where
  "dispatch_name_queue h name node =
     (case kv_queue node of
        None \<Rightarrow> (h, [HCrash])
      | Some queue \<Rightarrow>
          (let handle = kv_value node;
               i = unat (drop_bit REMOTE_SHIFT handle);
               s = slave_at h i;
               (ms, empty) = pop_all queue
           in if i = 0 then (h, [HCrash])
              else if sl_fd s = 0 then
                (if sl_status s = DOWN then (h, [HLog ''Drop message''])
                 else case sl_queue s of
                   None \<Rightarrow> (set_node (set_slave h i (s\<lparr>sl_queue := Some queue\<rparr>)) name (kv_queue_update (\<lambda>_. None)), [])
                 | Some q \<Rightarrow> (set_node (set_slave h i (s\<lparr>sl_queue := Some (foldl push_queue_msg q ms)\<rparr>)) name
                                (kv_queue_update (\<lambda>_. Some empty)), []))
              else (set_node h name (kv_queue_update (\<lambda>_. Some empty)),
                concat (map (\<lambda>m. send_remote (sl_fd s) (hm_buffer m) (or_destination handle (hm_header m)) @
                                 [HFree (hm_buffer m)]) ms))))"

definition dispatch_queue :: "harbor \<Rightarrow> nat \<Rightarrow> harbor \<times> harbor_out list" where
  "dispatch_queue h i =
     (let s = slave_at h i in
      if sl_fd s = 0 then (h, [HCrash])
      else case sl_queue s of
        None \<Rightarrow> (h, [])
      | Some queue \<Rightarrow>
          (let (ms, empty) = pop_all queue in
           (set_slave h i (s\<lparr>sl_queue := None\<rparr>),
            concat (map (\<lambda>m. send_remote (sl_fd s) (hm_buffer m) (hm_header m) @ [HFree (hm_buffer m)]) ms) @
            release_queue (Some empty))))"

section \<open>Data from a connection\<close>

text \<open>
  The loop of \<open>push_socket_data\<close> over the bytes that are left of a socket message. Every
  turn but the one that changes to \<open>CONTENT\<close> or back consumes a byte, so three turns for
  each byte and three more are enough fuel.
\<close>

fun socket_data_loop :: "nat \<Rightarrow> (u32 \<Rightarrow> bool) \<Rightarrow> harbor \<Rightarrow> nat \<Rightarrow> byte list \<Rightarrow> harbor \<times> harbor_out list" where
  "socket_data_loop 0 alive h i buffer = (h, [HCrash])"
| "socket_data_loop (Suc fuel) alive h i buffer =
     (let s = slave_at h i; size = length buffer in
      case sl_status s of
        HANDSHAKE \<Rightarrow>
          (case buffer of
             [] \<Rightarrow> (h, [HCrash])
           | remote_id # buffer \<Rightarrow>
               if unat remote_id \<noteq> i then
                 (let (h, out) = close_harbor h i in (h, HLog ''Invalid shakehand id'' # out))
               else
                 (let (h, out) = dispatch_queue (set_slave h i (s\<lparr>sl_status := HEADER\<rparr>)) i;
                      (h, out') = socket_data_loop fuel alive h i buffer
                  in (h, out @ out')))
      | HEADER \<Rightarrow>
          (let need = 4 - sl_read s in
           if size < need then
             (set_slave h i (s\<lparr>sl_size := take (sl_read s) (sl_size s) @ buffer, sl_read := sl_read s + size\<rparr>), [])
           else
             let header = take (sl_read s) (sl_size s) @ take need buffer;
                 rest = drop need buffer;
                 s = s\<lparr>sl_size := header\<rparr>
             in if header ! 0 \<noteq> 0 then
                  (let (h, out) = close_harbor (set_slave h i s) i in (h, HLog ''Message is too long'' # out))
                else
                  (let len = unat (push_bit 16 (ucast (header ! 1)) OR push_bit 8 (ucast (header ! 2)) OR
                               ucast (header ! 3) :: u32);
                       h = set_slave h i (s\<lparr>sl_length := len, sl_read := 0, sl_recv := [], sl_status := CONTENT\<rparr>)
                   in if rest = [] then (h, []) else socket_data_loop fuel alive h i rest))
      | CONTENT \<Rightarrow>
          (let need = sl_length s - sl_read s in
           if size < need then
             (set_slave h i (s\<lparr>sl_recv := take (sl_read s) (sl_recv s) @ buffer, sl_read := sl_read s + size\<rparr>), [])
           else
             let msg = take (sl_read s) (sl_recv s) @ take need buffer;
                 rest = drop need buffer;
                 out = forward_local_messsage alive h msg;
                 h = set_slave h i (s\<lparr>sl_length := 0, sl_read := 0, sl_recv := [], sl_status := HEADER\<rparr>)
             in if rest = [] then (h, out)
                else (let (h, out') = socket_data_loop fuel alive h i rest in (h, out @ out')))
      | _ \<Rightarrow> (h, []))"

definition push_socket_data :: "(u32 \<Rightarrow> bool) \<Rightarrow> harbor \<Rightarrow> int \<Rightarrow> byte list \<Rightarrow> harbor \<times> harbor_out list" where
  "push_socket_data alive h fd buffer =
     (let i = harbor_id h fd in
      if i = 0 then (h, [HFree buffer, HLog ''Invalid socket fd''])
      else socket_data_loop (3 * length buffer + 3) alive h i buffer)"

section \<open>Names and messages to other nodes\<close>

definition update_name :: "harbor \<Rightarrow> byte list \<Rightarrow> u32 \<Rightarrow> harbor \<times> harbor_out list" where
  "update_name h name handle =
     (let h = set_node (search_or_insert h name) name (kv_value_update (\<lambda>_. handle)) in
      case hash_search h name of
        None \<Rightarrow> (h, [HCrash])
      | Some node \<Rightarrow>
          if kv_queue node = None then (h, [])
          else
            (let (h, out) = dispatch_name_queue h name node;
                 left = (case hash_search h name of None \<Rightarrow> None | Some node \<Rightarrow> kv_queue node)
             in (set_node h name (kv_queue_update (\<lambda>_. None)), out @ release_queue left)))"

text \<open>The result says whether the message was kept or handed on; otherwise the caller frees it.\<close>

definition remote_send_handle ::
  "harbor \<Rightarrow> u32 \<Rightarrow> u32 \<Rightarrow> int \<Rightarrow> u32 \<Rightarrow> byte list \<Rightarrow> bool \<times> harbor \<times> harbor_out list" where
  "remote_send_handle h source destination t session msg =
     (let i = unat (drop_bit REMOTE_SHIFT destination); s = slave_at h i;
          header = \<lparr>rh_source = source,
            rh_destination = push_bit REMOTE_SHIFT (word_of_int t) OR (destination AND LOW_HANDLE),
            rh_session = session\<rparr>
      in if of_nat i = hb_id h then (True, h, [HSend source destination (t OR DONTCOPY) session msg])
         else if sl_fd s = 0 \<or> sl_status s = HANDSHAKE then
           (if sl_status s = DOWN then
              (False, h, [HSend destination source PTYPE_ERROR 0 [], HLog ''Drop message to harbor''])
            else
              (let q = (case sl_queue s of None \<Rightarrow> hq_new | Some q \<Rightarrow> q)
               in (True, set_slave h i (s\<lparr>sl_queue := Some (push_queue q msg header)\<rparr>), [])))
         else (False, h, send_remote (sl_fd s) msg header))"

definition remote_send_name ::
  "harbor \<Rightarrow> u32 \<Rightarrow> byte list \<Rightarrow> int \<Rightarrow> u32 \<Rightarrow> byte list \<Rightarrow> bool \<times> harbor \<times> harbor_out list" where
  "remote_send_name h source name t session msg =
     (let h = search_or_insert h name in
      case hash_search h name of
        None \<Rightarrow> (True, h, [HCrash])
      | Some node \<Rightarrow>
          if kv_value node = 0 then
            (let q = (case kv_queue node of None \<Rightarrow> hq_new | Some q \<Rightarrow> q);
                 header = \<lparr>rh_source = source, rh_destination = push_bit REMOTE_SHIFT (word_of_int t),
                           rh_session = session\<rparr>;
                 query = takeWhile (\<lambda>c. c \<noteq> 0) (take GLOBALNAME_LENGTH name)
             in (True, set_node h name (kv_queue_update (\<lambda>_. Some (push_queue q msg header))),
                 [HSend 0 (hb_slave h) PTYPE_TEXT 0 (str ''Q '' @ query)]))
          else remote_send_handle h source (kv_value node) t session msg)"

section \<open>Commands and the main loop\<close>

definition handshake :: "harbor \<Rightarrow> nat \<Rightarrow> harbor_out list" where
  "handshake h i = [HSocketSend (sl_fd (slave_at h i)) [ucast (hb_id h)]]"

definition connect_slave :: "harbor \<Rightarrow> bool \<Rightarrow> byte list \<Rightarrow> harbor \<times> harbor_out list" where
  "connect_slave h wait buffer =
     (let vs = scan_ints 2 (takeWhile (\<lambda>c. c \<noteq> 0) buffer);
          fd = (if 0 < length vs then vs ! 0 else 0);
          i = (if 1 < length vs then vs ! 1 else 0)
      in if fd = 0 \<or> i \<le> 0 \<or> int REMOTE_MAX \<le> i then (h, [HLog ''Invalid command''])
         else if sl_fd (slave_at h (nat i)) \<noteq> 0 then (h, [HLog ''Harbor alreay exist''])
         else
           (let h = set_slave h (nat i) ((slave_at h (nat i))\<lparr>sl_fd := fd\<rparr>);
                out = HSocketStart fd # handshake h (nat i)
            in if wait then (set_slave h (nat i) ((slave_at h (nat i))\<lparr>sl_status := HANDSHAKE\<rparr>), out)
               else (let (h, out') = dispatch_queue
                           (set_slave h (nat i) ((slave_at h (nat i))\<lparr>sl_status := HEADER\<rparr>)) (nat i)
                     in (h, out @ out'))))"

definition harbor_command :: "harbor \<Rightarrow> byte list \<Rightarrow> u32 \<Rightarrow> harbor \<times> harbor_out list" where
  "harbor_command h msg source =
     (let name = drop 2 msg; s = int (length msg) - 2 in
      case msg of
        [] \<Rightarrow> (h, [HCrash])
      | c # _ \<Rightarrow>
          if c = 78 then
            (if s \<le> 0 \<or> int GLOBALNAME_LENGTH \<le> s then (h, [HLog ''Invalid global name''])
             else update_name h (name @ replicate (GLOBALNAME_LENGTH - nat s) 0) source)
          else if c = 83 \<or> c = 65 then
            (if s < 0 then (h, [HCrash]) else connect_slave h (c = 83) name)
          else (h, [HLog ''Unknown command'']))"

text \<open>
  \<open>mainloop\<close>: a socket message (its type, the id, the data and the number it carries), a
  command, or a message to another node, whose buffer is freed unless it was kept.
\<close>

datatype harbor_socket = H_Data int "byte list" | H_Close int | H_Error int | H_Connect | H_Warning int int | H_Other

datatype harbor_in =
    In_Socket harbor_socket
  | In_Command "byte list" u32
  | In_Remote int u32 u32 u32 "byte list" "byte list"
      \<comment> \<open>type, session, source, destination handle, destination name, message\<close>

definition harbor_mainloop :: "(u32 \<Rightarrow> bool) \<Rightarrow> harbor \<Rightarrow> harbor_in \<Rightarrow> harbor \<times> harbor_out list" where
  "harbor_mainloop alive h m =
     (case m of
        In_Socket (H_Data fd buffer) \<Rightarrow>
          (let (h, out) = push_socket_data alive h fd buffer in (h, out @ [HFree buffer]))
      | In_Socket (H_Close fd) \<Rightarrow>
          (h, if harbor_id h fd \<noteq> 0 then report_harbor_down h (harbor_id h fd) else [HLog ''Unkown fd closed''])
      | In_Socket (H_Error fd) \<Rightarrow>
          (h, if harbor_id h fd \<noteq> 0 then report_harbor_down h (harbor_id h fd) else [HLog ''Unkown fd closed''])
      | In_Socket H_Connect \<Rightarrow> (h, [])
      | In_Socket (H_Warning fd n) \<Rightarrow>
          (h, if harbor_id h fd \<noteq> 0 then [HLog ''message havn't send''] else [])
      | In_Socket H_Other \<Rightarrow> (h, [HLog ''recv invalid socket message type''])
      | In_Command msg source \<Rightarrow> harbor_command h msg source
      | In_Remote t session source handle name msg \<Rightarrow>
          (let (kept, h, out) = (if handle = 0 then remote_send_name h source name t session msg
                                 else remote_send_handle h source handle t session msg)
           in (h, if kept then out else out @ [HFree msg])))"

text \<open>\<open>sscanf(args, "%d %u", &harbor_id, &slave)\<close> and the start; 1 is the error.\<close>

definition harbor_init :: "harbor \<Rightarrow> byte list \<Rightarrow> nat \<times> harbor" where
  "harbor_init h args =
     (let vs = scan_ints 2 args; slave = (if 1 < length vs then word_of_int (vs ! 1) else 0) in
      if slave = 0 then (1, h)
      else (0, h\<lparr>hb_id := word_of_int (vs ! 0), hb_slave := slave\<rparr>))"

end
