(* ===== verification/Harbor_Links.thy ===== *)
theory Harbor_Links
  imports Harbor_Service Framing
begin

text \<open>
  The queue of a harbor is a queue, the reader of a connection is a reader of frames, and
  together they carry messages from one node to another. Then the places where they do
  not: queues of names, messages of 16 megabytes and data of unknown connections.
\<close>

section \<open>The ring buffer of a queue\<close>

definition hq_inv :: "harbor_msg_queue \<Rightarrow> bool" where
  "hq_inv q \<longleftrightarrow> ring_ok (hq_data q) (hq_size q) (hq_head q) (hq_tail q) \<and> 1 < hq_size q"

definition hq_contents :: "harbor_msg_queue \<Rightarrow> harbor_msg list" where
  "hq_contents q = ring_list (hq_data q) (hq_size q) (hq_head q) (hq_tail q)"

lemma hq_new_ok: "hq_inv hq_new" "hq_contents hq_new = []"
  by (simp_all add: hq_inv_def hq_contents_def hq_new_def ring_ok_def HARBOR_QUEUE_SIZE_def)

lemma hq_expand_ok:
  assumes "hq_inv q" "(hq_tail q + 1) mod hq_size q = hq_head q"
  shows "hq_inv (hq_expand q)" "hq_contents (hq_expand q) = hq_contents q"
    "ring_next (hq_size (hq_expand q)) (hq_tail (hq_expand q)) \<noteq> hq_head (hq_expand q)"
proof -
  let ?n = "hq_size q"
  have ok: "length (hq_data q) = ?n" "hq_head q < ?n" "hq_tail q < ?n" "1 < ?n"
    using assms(1) by (auto simp: hq_inv_def ring_ok_def)
  have L: "ring_len ?n (hq_head q) (hq_tail q) = ?n - 1"
    using assms(2) ok by (cases "hq_tail q + 1 = ?n") (auto simp: ring_len_def)
  show "hq_inv (hq_expand q)" using ok by (simp add: hq_inv_def hq_expand_def ring_ok_def)
  show "ring_next (hq_size (hq_expand q)) (hq_tail (hq_expand q)) \<noteq> hq_head (hq_expand q)"
    using ok by (simp add: hq_expand_def ring_next_def)
  show "hq_contents (hq_expand q) = hq_contents q"
    using ok by (simp add: hq_contents_def ring_list_def L, simp add: hq_expand_def ring_len_def)
      (simp add: nth_append add.commute)
qed

lemma push_queue_msg_ok:
  assumes "hq_inv q"
  shows "hq_inv (push_queue_msg q m) \<and> hq_contents (push_queue_msg q m) = hq_contents q @ [m]"
proof -
  have *: "hq_inv q' \<and> hq_contents q' = hq_contents p @ [m]"
    if "hq_inv p" "ring_next (hq_size p) (hq_tail p) \<noteq> hq_head p"
      "q' = p\<lparr>hq_data := (hq_data p)[hq_tail p := m], hq_tail := (hq_tail p + 1) mod hq_size p\<rparr>" for p q'
  proof -
    have ok: "ring_ok (hq_data p) (hq_size p) (hq_head p) (hq_tail p)" "hq_tail p < hq_size p"
      using that(1) by (simp_all add: hq_inv_def ring_ok_def)
    have n: "(hq_tail p + 1) mod hq_size p = ring_next (hq_size p) (hq_tail p)"
      using ring_next_mod [OF ok(2)] by simp
    with that(1) ok ring_next_less [OF ok(2)] have "hq_inv q'"
      unfolding that(3) by (simp add: hq_inv_def ring_ok_def)
    moreover have "hq_contents q' = hq_contents p @ [m]"
      using ring_push [OF ok(1) not_sym [OF that(2)], of m] n unfolding that(3)
      by (simp add: hq_contents_def)
    ultimately show ?thesis ..
  qed
  show ?thesis
  proof (cases "(hq_tail q + 1) mod hq_size q = hq_head q")
    case True
    with * [OF hq_expand_ok(1,3) [OF assms True] refl] hq_expand_ok(2) [OF assms True]
    show ?thesis by (simp add: push_queue_msg_def Let_def)
  next
    case False
    moreover have "hq_tail q < hq_size q" using assms by (simp add: hq_inv_def ring_ok_def)
    ultimately have "ring_next (hq_size q) (hq_tail q) \<noteq> hq_head q" by (simp add: ring_next_mod)
    from * [OF assms this refl] False show ?thesis by (simp add: push_queue_msg_def Let_def)
  qed
qed

lemma pop_queue_ok:
  assumes "hq_inv q"
  shows "hq_inv (snd (pop_queue q))"
    and "fst (pop_queue q) = (case hq_contents q of [] \<Rightarrow> None | m # _ \<Rightarrow> Some m)"
    and "hq_contents (snd (pop_queue q)) = tl (hq_contents q)"
proof -
  have ok: "ring_ok (hq_data q) (hq_size q) (hq_head q) (hq_tail q)" "hq_head q < hq_size q"
    using assms by (simp_all add: hq_inv_def ring_ok_def)
  have n: "(hq_head q + 1) mod hq_size q = ring_next (hq_size q) (hq_head q)"
    using ring_next_mod [OF ok(2)] by simp
  show "hq_inv (snd (pop_queue q))"
    using assms ring_next_less [OF ok(2)] n by (simp add: pop_queue_def hq_inv_def ring_ok_def)
  show "fst (pop_queue q) = (case hq_contents q of [] \<Rightarrow> None | m # _ \<Rightarrow> Some m)"
    "hq_contents (snd (pop_queue q)) = tl (hq_contents q)"
    using ring_pop [OF ok(1)] n
    by (cases "hq_head q = hq_tail q"; simp add: pop_queue_def hq_contents_def)+
qed

interpretation msgs: fifo hq_inv hq_contents push_queue_msg pop_queue
  by unfold_locales (auto simp: push_queue_msg_ok pop_queue_ok)

lemma pop_all_ok:
  assumes "hq_inv q"
  shows "\<exists>q'. pop_all q = (hq_contents q, q') \<and> hq_inv q' \<and> hq_contents q' = []"
proof -
  have "length (hq_contents q) < hq_size q"
    using assms by (auto simp: hq_inv_def hq_contents_def intro: ring_len_less)
  from msgs.drain_all [OF assms this] show ?thesis by (simp add: pop_all_def)
qed

section \<open>The reader of a connection\<close>

lemma slave_simps [simp]:
  "i < length (hb_s h) \<Longrightarrow> slave_at (set_slave h i s) i = s"
  "length (hb_s (set_slave h i s)) = length (hb_s h)"
  "hb_id (set_slave h i s) = hb_id h"
  by (simp_all add: slave_at_def set_slave_def)

definition link_ok :: "nat \<Rightarrow> harbor \<Rightarrow> bool" where
  "link_ok i h \<longleftrightarrow> i < length (hb_s h) \<and>
     (let s = slave_at h i in
      (sl_status s = HEADER \<and> sl_read s < 4 \<and> sl_read s \<le> length (sl_size s)) \<or>
      (sl_status s = CONTENT \<and> length (sl_size s) = 4 \<and> be_nat (sl_size s) < 2 ^ 24 \<and>
       sl_length s = be_nat (sl_size s) \<and> sl_read s < sl_length s \<and> sl_read s \<le> length (sl_recv s)))"

definition link_pending :: "nat \<Rightarrow> harbor \<Rightarrow> byte list" where
  "link_pending i h =
     (let s = slave_at h i in
      if sl_status s = HEADER then take (sl_read s) (sl_size s)
      else sl_size s @ take (sl_read s) (sl_recv s))"

definition link_feed :: "nat \<Rightarrow> (u32 \<Rightarrow> bool) \<Rightarrow> harbor \<Rightarrow> byte list \<Rightarrow> harbor \<times> harbor_out list" where
  "link_feed i alive h xs = socket_data_loop (3 * length xs + 3) alive h i xs"

definition whole_message :: "byte list \<Rightarrow> bool" where
  "whole_message f \<longleftrightarrow> HEADER_COOKIE_LENGTH \<le> length f"

lemma forward_cong: "hb_id h' = hb_id h \<Longrightarrow> forward_local_messsage alive h' = forward_local_messsage alive h"
  by (intro ext) (simp add: forward_local_messsage_def)

lemma header_length:
  assumes "length b = 4" "b ! 0 = (0 :: byte)"
  shows "unat (push_bit 16 (ucast (b ! 1)) OR push_bit 8 (ucast (b ! 2)) OR ucast (b ! 3) :: u32) = be_nat b"
    "be_nat b < 2 ^ 24"
proof -
  have "un_be32 b = push_bit 16 (ucast (b ! 1)) OR push_bit 8 (ucast (b ! 2)) OR ucast (b ! 3)"
    using assms(2) by (simp add: un_be32_def)
  then show "unat (push_bit 16 (ucast (b ! 1)) OR push_bit 8 (ucast (b ! 2)) OR ucast (b ! 3) :: u32) = be_nat b"
    using unat_un_be32 [OF assms(1)] by simp
  obtain b1 b2 b3 where b: "b = [0, b1, b2, b3]"
    using assms by (auto simp: numeral_eq_Suc length_Suc_conv)
  have "unat b1 < 256" "unat b2 < 256" "unat b3 < 256"
    using unsigned_less [of b1, where ?'a = nat] unsigned_less [of b2, where ?'a = nat]
      unsigned_less [of b3, where ?'a = nat] by simp_all
  then show "be_nat b < 2 ^ 24" by (simp add: b)
qed

lemma header_too_long:
  assumes "length b = 4" "b ! 0 \<noteq> (0 :: byte)"
  shows "2 ^ 24 \<le> be_nat b"
proof -
  obtain b0 b1 b2 b3 where b: "b = [b0, b1, b2, b3]"
    using assms by (auto simp: numeral_eq_Suc length_Suc_conv)
  with assms(2) have "1 \<le> unat b0" by (simp add: unat_gt_0 Suc_le_eq)
  then show ?thesis by (simp add: b)
qed

lemma socket_data_loop_frames:
  assumes "link_ok i h" "xs \<noteq> []" "length xs \<le> fuel"
    and "deframe 4 (2 ^ 24) (link_pending i h @ xs) = (fs, r, False)" "list_all whole_message fs"
  shows "\<exists>h'. socket_data_loop fuel alive h i xs = (h', concat (map (forward_local_messsage alive h) fs)) \<and>
    link_ok i h' \<and> link_pending i h' = r \<and> hb_id h' = hb_id h"
  using assms
proof (induction fuel arbitrary: h xs fs)
  case 0
  then show ?case by simp
next
  case (Suc fuel)
  let ?s = "slave_at h i"
  have i: "i < length (hb_s h)" using Suc.prems(1) by (simp add: link_ok_def)
  consider (header) "sl_status ?s = HEADER" "sl_read ?s < 4" "sl_read ?s \<le> length (sl_size ?s)"
    | (content) "sl_status ?s = CONTENT" "length (sl_size ?s) = 4" "be_nat (sl_size ?s) < 2 ^ 24"
       "sl_length ?s = be_nat (sl_size ?s)" "sl_read ?s < sl_length ?s" "sl_read ?s \<le> length (sl_recv ?s)"
    using Suc.prems(1) by (auto simp: link_ok_def Let_def)
  then show ?case
  proof cases
    case header
    let ?p = "take (sl_read ?s) (sl_size ?s)" let ?need = "4 - sl_read ?s"
    have pend: "link_pending i h = ?p" using header by (simp add: link_pending_def Let_def)
    have lp: "length ?p = sl_read ?s" using header by simp
    show ?thesis
    proof (cases "length xs < ?need")
      case True
      then have "deframe 4 (2 ^ 24) (?p @ xs) = ([], ?p @ xs, False)"
        using lp by (intro deframe_short) simp
      with Suc.prems(4) pend have "fs = []" "r = ?p @ xs" by auto
      with True header i lp show ?thesis
        by (auto simp: link_ok_def link_pending_def Let_def)
    next
      case False
      let ?hdr = "?p @ take ?need xs" let ?rest = "drop ?need xs"
      have lh: "length ?hdr = 4" using False lp header by simp
      have split: "?p @ xs = ?hdr @ ?rest" by simp
      have h0: "?hdr ! 0 = 0"
      proof (rule ccontr)
        assume "?hdr ! 0 \<noteq> 0"
        from deframe_too_long [OF lh _ header_too_long [OF lh this], of ?rest] Suc.prems(4)
        show False unfolding pend split by simp
      qed
      note len = header_length [OF lh h0]
      let ?h = "set_slave h i (?s\<lparr>sl_size := ?hdr, sl_length := be_nat ?hdr, sl_read := 0, sl_recv := [], sl_status := CONTENT\<rparr>)"
      have run: "socket_data_loop (Suc fuel) alive h i xs =
          (if ?rest = [] then (?h, []) else socket_data_loop fuel alive ?h i ?rest)"
        using header False h0 len(1) by (simp add: Let_def)
      have def: "deframe 4 (2 ^ 24) (?hdr @ ?rest) = (fs, r, False)"
        using Suc.prems(4) unfolding pend split .
      have pos: "0 < be_nat ?hdr"
      proof (rule ccontr)
        assume z: "\<not> 0 < be_nat ?hdr"
        with deframe_frame [OF lh _ len(2), of "[]" ?rest] def have "[] \<in> set fs"
          by (auto simp: Let_def split: prod.splits)
        with Suc.prems(5) show False by (auto simp: list_all_iff whole_message_def HEADER_COOKIE_LENGTH_def)
      qed
      have ok: "link_ok i ?h" "link_pending i ?h = ?hdr"
        using i lh len pos by (simp_all add: link_ok_def link_pending_def)
      show ?thesis
      proof (cases "?rest = []")
        case True
        with deframe_partial [OF lh len(2), of "[]"] pos def have "fs = []" "r = ?hdr" by auto
        with run True ok show ?thesis by auto
      next
        case rest: False
        have "length ?rest \<le> fuel" using Suc.prems(3) header False by simp
        from Suc.IH [OF ok(1) rest this _ Suc.prems(5)] def ok(2)
        show ?thesis using run rest forward_cong [of ?h h alive] by simp
      qed
    qed
  next
    case content
    let ?hdr = "sl_size ?s" let ?p = "take (sl_read ?s) (sl_recv ?s)" let ?need = "sl_length ?s - sl_read ?s"
    have pend: "link_pending i h = ?hdr @ ?p" using content by (simp add: link_pending_def Let_def)
    have lp: "length ?p = sl_read ?s" using content by simp
    show ?thesis
    proof (cases "length xs < ?need")
      case True
      then have "length (?p @ xs) < be_nat ?hdr" using lp content by simp
      from deframe_partial [OF content(2,3) this] Suc.prems(4) pend have "fs = []" "r = ?hdr @ ?p @ xs" by auto
      with True content i lp show ?thesis by (auto simp: link_ok_def link_pending_def Let_def)
    next
      case False
      let ?msg = "?p @ take ?need xs" let ?rest = "drop ?need xs"
      have lm: "length ?msg = be_nat ?hdr" using False lp content by simp
      have split: "(?hdr @ ?p) @ xs = ?hdr @ ?msg @ ?rest" by simp
      obtain gs where gs: "deframe 4 (2 ^ 24) ?rest = (gs, r, False)" "fs = ?msg # gs"
        using deframe_frame [OF content(2) _ content(3) lm, of ?rest] Suc.prems(4)
        unfolding pend split by (auto simp: Let_def split: prod.splits)
      have good: "list_all whole_message gs" using Suc.prems(5) gs(2) by simp
      let ?h = "set_slave h i (?s\<lparr>sl_length := 0, sl_read := 0, sl_recv := [], sl_status := HEADER\<rparr>)"
      have run: "socket_data_loop (Suc fuel) alive h i xs =
          (if ?rest = [] then (?h, forward_local_messsage alive h ?msg)
           else (let (h', out') = socket_data_loop fuel alive ?h i ?rest
                 in (h', forward_local_messsage alive h ?msg @ out')))"
        using content False by (simp add: Let_def)
      have ok: "link_ok i ?h" "link_pending i ?h = []"
        using i by (simp_all add: link_ok_def link_pending_def)
      show ?thesis
      proof (cases "?rest = []")
        case True
        with gs have "fs = [?msg]" "r = []" by simp_all
        with run True ok show ?thesis by simp
      next
        case rest: False
        have "length ?rest \<le> fuel" using Suc.prems(3) content False by simp
        from Suc.IH [OF ok(1) rest this _ good] gs ok(2)
        show ?thesis using run rest forward_cong [of ?h h alive] by auto
      qed
    qed
  qed
qed

lemma link_feed_piece:
  assumes "link_ok i h" "xs \<noteq> []" "deframe 4 (2 ^ 24) (link_pending i h @ xs) = (fs, r, False)"
    "list_all whole_message fs"
  shows "\<exists>h'. link_feed i alive h xs = (h', concat (map (forward_local_messsage alive h) fs)) \<and>
    link_ok i h' \<and> link_pending i h' = r \<and> forward_local_messsage alive h' = forward_local_messsage alive h"
proof -
  have "length xs \<le> 3 * length xs + 3" by simp
  from socket_data_loop_frames [OF assms(1,2) this assms(3,4), of alive] show ?thesis
    unfolding link_feed_def using forward_cong by blast
qed

interpretation links: selective_reader 4 "2 ^ 24" whole_message "link_ok i" "link_pending i"
  "forward_local_messsage alive" "link_feed i alive" for i alive
  by unfold_locales (rule link_feed_piece)

section \<open>From node to node\<close>

lemma be32_be_bytes: "n < 2 ^ 32 \<Longrightarrow> be32 (of_nat n) = be_bytes 4 n"
proof -
  assume n: "n < 2 ^ 32"
  have "be_nat (be32 (of_nat n)) = unat (un_be32 (be32 (of_nat n)))"
    by (rule unat_un_be32 [symmetric]) simp
  also have "\<dots> = n" using n by (simp add: unat_of_nat)
  finally show ?thesis using be_bytes_be_nat [of "be32 (of_nat n)" 4] by simp
qed

lemma length_header_message [simp]: "length (header_to_message c) = HEADER_COOKIE_LENGTH"
  by (simp add: header_to_message_def to_bigendian_def HEADER_COOKIE_LENGTH_def)

lemma send_remote_frame:
  "length b + HEADER_COOKIE_LENGTH < 2 ^ 32 \<Longrightarrow>
   send_remote fd b c = [HSocketSend fd (frame 4 (b @ header_to_message c))]"
  by (simp add: send_remote_def frame_def to_bigendian_def be32_be_bytes del: of_nat_add)

lemma message_header_inverse: "message_to_header (header_to_message c) = c"
proof -
  have *: "un_be32 (be32 w @ r) = w" for w r
  proof -
    have "un_be32 (be32 w @ r) = un_be32 (be32 w)" by (simp add: un_be32_def be32_def)
    then show ?thesis by simp
  qed
  have d: "drop 8 (be32 x @ be32 y @ z) = z" for x y z by simp
  show ?thesis
    by (cases c) (simp add: message_to_header_def header_to_message_def from_bigendian_def to_bigendian_def * d)
qed

text \<open>A request to send: source, destination, type, session and message.\<close>

type_synonym harbor_request = "u32 \<times> u32 \<times> int \<times> u32 \<times> byte list"

fun request_out :: "harbor \<Rightarrow> harbor_request \<Rightarrow> harbor_out list" where
  "request_out h (source, destination, t, session, msg) =
     snd (snd (remote_send_handle h source destination t session msg))"

fun sent_bytes :: "harbor_out \<Rightarrow> byte list" where
  "sent_bytes (HSocketSend fd bs) = bs"
| "sent_bytes _ = []"

fun delivery :: "(u32 \<Rightarrow> bool) \<Rightarrow> harbor_request \<Rightarrow> harbor_out list" where
  "delivery alive (source, destination, t, session, msg) =
     (if alive destination then [HSend source destination (t OR DONTCOPY) session msg]
      else [HSend destination source PTYPE_ERROR session [], HLog ''Unknown destination''])"

fun request_ok :: "u32 \<Rightarrow> harbor_request \<Rightarrow> bool" where
  "request_ok node (source, destination, t, session, msg) \<longleftrightarrow>
     drop_bit REMOTE_SHIFT destination = node \<and> 0 \<le> t \<and> t < 256 \<and> length msg + HEADER_COOKIE_LENGTH < 2 ^ 24"

lemma destination_word:
  fixes d node :: u32
  assumes "drop_bit 24 d = node" "0 \<le> t" "t < 256"
  defines "x \<equiv> push_bit 24 (word_of_int t) OR (d AND 0xffffff)"
  shows "uint (drop_bit 24 x) = t" "(x AND 0xffffff) OR push_bit 24 node = d"
proof -
  have m: "(0xffffff :: u32) = mask 24" by (simp add: mask_eq_exp_minus_1)
  have tb: "take_bit 8 t = t" using assms(2,3) by (simp add: take_bit_eq_mod)
  have small: "bit t n \<Longrightarrow> n < 8" for n
    by (subst (asm) tb [symmetric]) (simp add: bit_take_bit_iff)
  have dx: "drop_bit 24 x = word_of_int t"
    unfolding x_def m by (rule bit_word_eqI) (auto simp: bit_simps dest: small)
  with assms(2,3) show "uint (drop_bit 24 x) = t" by (simp add: uint_word_of_int_eq take_bit_eq_mod)
  have "bit (push_bit 24 node) n = (24 \<le> n \<and> bit d n)" if "n < 32" for n
    using that unfolding assms(1) [symmetric] by (auto simp: bit_simps)
  then show "(x AND 0xffffff) OR push_bit 24 node = d"
    unfolding x_def m by (intro bit_word_eqI) (auto simp: bit_and_iff bit_or_iff bit_mask_iff bit_push_bit_iff)
qed

lemma request_sent:
  assumes "request_ok node r" "node \<noteq> hb_id h" "unat node < 256"
    and "sl_fd (slave_at h (unat node)) \<noteq> 0" "sl_status (slave_at h (unat node)) \<noteq> HANDSHAKE"
  shows "\<exists>p. map sent_bytes (request_out h r) = [frame 4 p] \<and> length p < 2 ^ 24 \<and> whole_message p \<and>
    (\<forall>g alive. hb_id g = node \<longrightarrow> forward_local_messsage alive g p = delivery alive r)"
proof -
  obtain source destination t session msg where r: "r = (source, destination, t, session, msg)"
    by (cases r) auto
  note ok = assms(1) [unfolded r request_ok.simps]
  let ?c = "\<lparr>rh_source = source, rh_destination = push_bit REMOTE_SHIFT (word_of_int t) OR (destination AND LOW_HANDLE),
    rh_session = session\<rparr>"
  let ?p = "msg @ header_to_message ?c"
  have "request_out h r = send_remote (sl_fd (slave_at h (unat node))) msg ?c"
    using ok assms(2,4,5) by (simp add: r remote_send_handle_def)
  moreover have "length msg + HEADER_COOKIE_LENGTH < 2 ^ 32" using ok by simp
  ultimately have sent: "map sent_bytes (request_out h r) = [frame 4 ?p]" by (simp add: send_remote_frame)
  have "length ?p < 2 ^ 24" "whole_message ?p" using ok by (simp_all add: whole_message_def)
  moreover have "forward_local_messsage alive g ?p = delivery alive r" if "hb_id g = node" for g alive
  proof -
    have d: "drop_bit 24 destination = node" using ok by (simp add: REMOTE_SHIFT_def)
    note w = destination_word [OF d, of t]
    show ?thesis using ok w that
      by (simp add: forward_local_messsage_def message_header_inverse REMOTE_SHIFT_def LOW_HANDLE_def r Let_def)
  qed
  ultimately show ?thesis using sent by (intro exI [of _ ?p]) simp
qed

text \<open>
  C37. Messages sent to a node over its connection arrive there once each, in order, with
  source, destination, type, session and data unchanged, however the network cuts the stream
  of bytes into pieces; a message whose destination does not exist becomes an error message
  to its source.
\<close>

theorem harbor_delivers:
  assumes "link_ok i g" "link_pending i g = []"
    and "list_all (request_ok (hb_id g)) rs" "hb_id g \<noteq> hb_id h" "unat (hb_id g) < 256"
    and "sl_fd (slave_at h (unat (hb_id g))) \<noteq> 0" "sl_status (slave_at h (unat (hb_id g))) \<noteq> HANDSHAKE"
    and "concat cs = concat (map (\<lambda>r. concat (map sent_bytes (request_out h r))) rs)" "[] \<notin> set cs"
  shows "\<exists>g'. feed_all (link_feed i alive) g cs = (g', concat (map (delivery alive) rs)) \<and>
    link_ok i g' \<and> link_pending i g' = []"
proof -
  have "\<exists>ps. map (\<lambda>r. concat (map sent_bytes (request_out h r))) rs = map (frame 4) ps \<and>
      (\<forall>p\<in>set ps. length p < 2 ^ 24) \<and> list_all whole_message ps \<and>
      map (forward_local_messsage alive g) ps = map (delivery alive) rs"
    using assms(3)
  proof (induction rs)
    case Nil
    then show ?case by simp
  next
    case (Cons r rs)
    then obtain ps where ps: "map (\<lambda>r. concat (map sent_bytes (request_out h r))) rs = map (frame 4) ps"
      "\<forall>p\<in>set ps. length p < 2 ^ 24" "list_all whole_message ps"
      "map (forward_local_messsage alive g) ps = map (delivery alive) rs" by auto
    obtain p where p: "map sent_bytes (request_out h r) = [frame 4 p]" "length p < 2 ^ 24" "whole_message p"
      "forward_local_messsage alive g p = delivery alive r"
      using request_sent [OF _ assms(4-7), of r] Cons.prems by auto
    from p ps show ?case by (intro exI [of _ "p # ps"]) simp
  qed
  then obtain ps where ps: "concat cs = concat (map (frame 4) ps)" "\<forall>p\<in>set ps. length p < 2 ^ 24"
    "list_all whole_message ps" "map (forward_local_messsage alive g) ps = map (delivery alive) rs"
    using assms(8) by auto
  have "\<forall>c\<in>set cs. c \<noteq> []" using assms(9) by auto
  from links.feed_good_frames [OF assms(1,2) _ _ ps(3,1) this, of alive] ps(2,4) show ?thesis by fastforce
qed

lemma harbor_delivers_witness:
  "\<exists>g'. feed_all (link_feed 1 (\<lambda>_. True))
      \<lparr>hb_id = 2, hb_slave = 1, hb_map = (\<lambda>_. []),
       hb_s = [blank_slave, blank_slave\<lparr>sl_fd := 4, sl_status := HEADER\<rparr>]\<rparr>
      [[0, 0], [0, 14, 1, 2, 1, 0, 0, 5, 3, 0, 0, 7, 0, 0, 0, 9]] =
    (g', [HSend 0x01000005 0x02000007 (3 OR DONTCOPY) 9 [1, 2]])"
proof -
  let ?g = "\<lparr>hb_id = 2, hb_slave = 1, hb_map = (\<lambda>_. []),
       hb_s = [blank_slave, blank_slave\<lparr>sl_fd := 4, sl_status := HEADER\<rparr>]\<rparr>"
  let ?h = "\<lparr>hb_id = 1, hb_slave = 1, hb_map = (\<lambda>_. []),
       hb_s = [blank_slave, blank_slave, blank_slave\<lparr>sl_fd := 5, sl_status := HEADER\<rparr>]\<rparr>"
  let ?r = "(0x01000005, 0x02000007, 3, 9, [1, 2]) :: harbor_request"
  have r: "request_ok (hb_id ?g) ?r"
    by (simp add: REMOTE_SHIFT_def HEADER_COOKIE_LENGTH_def)
  have out: "request_out ?h ?r = [HSocketSend 5 [0, 0, 0, 14, 1, 2, 1, 0, 0, 5, 3, 0, 0, 7, 0, 0, 0, 9]]"
    by (simp add: remote_send_handle_def slave_at_def send_remote_def blank_slave_def REMOTE_SHIFT_def
        LOW_HANDLE_def HEADER_COOKIE_LENGTH_def to_bigendian_def header_to_message_def be32_def octet_eq)
  have g: "link_ok 1 ?g" "link_pending 1 ?g = []"
    by (simp_all add: link_ok_def link_pending_def slave_at_def blank_slave_def)
  have "\<exists>g'. feed_all (link_feed 1 (\<lambda>_. True)) ?g [[0, 0], [0, 14, 1, 2, 1, 0, 0, 5, 3, 0, 0, 7, 0, 0, 0, 9]] =
      (g', concat (map (delivery (\<lambda>_. True)) [?r])) \<and> link_ok 1 g' \<and> link_pending 1 g' = []"
    by (rule harbor_delivers [OF g, where h = ?h])
      (use r out in \<open>simp_all add: slave_at_def blank_slave_def del: request_ok.simps request_out.simps\<close>)
  then show ?thesis by auto
qed

section \<open>Where messages are lost\<close>

text \<open>
  A message of 2^24 - 12 bytes or more is sent, but its length makes the receiving node
  close the connection. From then on that node hands every message for the sender to the
  closed socket and drops it; no error is reported to the source, although the code has a
  branch for it: the branch needs a connection without a socket, and the number of the
  closed socket is kept.
\<close>

theorem harbor_long_message:
  assumes "link_ok i g" "link_pending i g = []" "sl_fd (slave_at g i) \<noteq> 0" "i < 256"
    and "2 ^ 24 \<le> length b + HEADER_COOKIE_LENGTH" "length b + HEADER_COOKIE_LENGTH < 2 ^ 32"
    and "drop_bit REMOTE_SHIFT destination = of_nat i" "of_nat i \<noteq> hb_id g"
    and "length msg + HEADER_COOKIE_LENGTH < 2 ^ 32"
  shows "\<exists>bytes g' out. send_remote fd b c = [HSocketSend fd bytes] \<and>
    link_feed i alive g bytes = (g', out) \<and> HSocketClose (sl_fd (slave_at g i)) \<in> set out \<and>
    (\<exists>sent. remote_send_handle g' source destination t session msg =
       (False, g', [HSocketSend (sl_fd (slave_at g i)) sent]))"
proof -
  let ?s = "slave_at g i" let ?p = "b @ header_to_message c"
  have i: "i < length (hb_s g)" using assms(1) by (simp add: link_ok_def)
  have s: "sl_status ?s = HEADER" "sl_read ?s = 0"
  proof -
    have "sl_status ?s = HEADER \<and> sl_read ?s \<le> length (sl_size ?s) \<or> sl_status ?s = CONTENT \<and> length (sl_size ?s) = 4"
      using assms(1) by (auto simp: link_ok_def Let_def)
    with assms(2) show "sl_status ?s = HEADER" "sl_read ?s = 0"
      by (auto simp: link_pending_def Let_def split: if_splits)
  qed
  let ?hdr = "be_bytes 4 (length ?p)"
  have lp: "2 ^ 24 \<le> length ?p" "length ?p < 2 ^ 32" using assms(5,6) by simp_all
  have h0: "?hdr ! 0 \<noteq> 0"
  proof
    assume "?hdr ! 0 = 0"
    from header_length(2) [OF _ this] be_nat_be_bytes [of "length ?p" 4] lp show False by simp
  qed
  let ?g1 = "set_slave g i (?s\<lparr>sl_size := ?hdr\<rparr>)"
  have loop: "link_feed i alive g (?hdr @ ?p) =
      (let (h, out) = close_harbor ?g1 i in (h, HLog ''Message is too long'' # out))"
  proof -
    have hd: "take 4 (?hdr @ ?p) = ?hdr" "\<not> length (?hdr @ ?p) < 4" by simp_all
    show ?thesis
      unfolding link_feed_def numeral_3_eq_3 add_Suc_right socket_data_loop.simps(2) Let_def s slave_status.case
      using s(2) h0 hd by simp
  qed
  define g' where "g' = fst (close_harbor ?g1 i)"
  have g': "slave_at g' i = ?s\<lparr>sl_size := ?hdr, sl_status := DOWN, sl_queue := None\<rparr>" "hb_id g' = hb_id g"
    using i by (simp_all add: g'_def close_harbor_def Let_def)
  have out: "HSocketClose (sl_fd ?s) \<in> set (snd (close_harbor ?g1 i))"
    using i assms(3) by (simp add: close_harbor_def Let_def)
  have u: "unat (of_nat i :: u32) = i" using assms(4) by (simp add: unat_of_nat)
  have "\<exists>sent. remote_send_handle g' source destination t session msg =
      (False, g', [HSocketSend (sl_fd ?s) sent])"
    using assms(3,7,8,9) g' u by (simp add: remote_send_handle_def send_remote_frame)
  moreover have "send_remote fd b c = [HSocketSend fd (?hdr @ ?p)]"
    using send_remote_frame [OF assms(6)] by (simp add: frame_def)
  moreover have "link_feed i alive g (?hdr @ ?p) = (g', HLog ''Message is too long'' # snd (close_harbor ?g1 i))"
    unfolding loop g'_def by (simp split: prod.splits)
  ultimately show ?thesis using out by (metis list.set_intros(2))
qed

lemma harbor_long_message_witness:
  "\<exists>bytes g' out sent. send_remote 5 (replicate (2 ^ 24) 0)
        \<lparr>rh_source = 1, rh_destination = 2, rh_session = 3\<rparr> = [HSocketSend 5 bytes] \<and>
    link_feed 1 (\<lambda>_. True)
      \<lparr>hb_id = 2, hb_slave = 1, hb_map = (\<lambda>_. []),
       hb_s = [blank_slave, blank_slave\<lparr>sl_fd := 4, sl_status := HEADER\<rparr>]\<rparr> bytes = (g', out) \<and>
    HSocketClose 4 \<in> set out \<and>
    remote_send_handle g' 0x02000007 0x01000005 3 9 [1] = (False, g', [HSocketSend 4 sent])"
proof -
  let ?g = "\<lparr>hb_id = 2, hb_slave = 1, hb_map = (\<lambda>_. []),
       hb_s = [blank_slave, blank_slave\<lparr>sl_fd := 4, sl_status := HEADER\<rparr>]\<rparr>"
  have g: "link_ok 1 ?g" "link_pending 1 ?g = []" "sl_fd (slave_at ?g 1) = 4"
    by (simp_all add: link_ok_def link_pending_def slave_at_def blank_slave_def)
  have n: "2 ^ 24 \<le> length (replicate (2 ^ 24) (0 :: byte)) + HEADER_COOKIE_LENGTH"
    "length (replicate (2 ^ 24) (0 :: byte)) + HEADER_COOKIE_LENGTH < 2 ^ 32"
    by (simp_all only: length_replicate HEADER_COOKIE_LENGTH_def) simp_all
  have d: "drop_bit REMOTE_SHIFT (0x01000005 :: u32) = of_nat 1" "of_nat 1 \<noteq> hb_id ?g"
    "length [1 :: byte] + HEADER_COOKIE_LENGTH < 2 ^ 32" by (simp_all add: REMOTE_SHIFT_def HEADER_COOKIE_LENGTH_def)
  have fd: "sl_fd (slave_at ?g 1) \<noteq> 0" using g(3) by simp
  have one: "(1 :: nat) < 256" by simp
  note r = harbor_long_message [OF g(1,2) fd one n d, where fd = 5 and
      c = "\<lparr>rh_source = 1, rh_destination = 2, rh_session = 3\<rparr>" and
      alive = "\<lambda>_. True" and source = "0x02000007" and t = 3 and session = 9]
  show ?thesis using r unfolding g(3) by blast
qed

text \<open>Data for a connection that is not known is freed twice.\<close>

lemma unknown_data_freed_twice:
  "harbor_id h fd = 0 \<Longrightarrow> harbor_mainloop alive h (In_Socket (H_Data fd buffer)) =
     (h, [HFree buffer, HLog ''Invalid socket fd'', HFree buffer])"
  by (simp add: harbor_mainloop_def push_socket_data_def)

end
