(* ===== verification/Harbor_Queues.thy ===== *)
theory Harbor_Queues
  imports Harbor_Links
begin

text \<open>
  Messages for a node that is not connected yet: the queue of the node keeps them in order
  until the connection is there. Names that are not known keep a queue of their own; what
  becomes of it when the name is known and the node is not yet connected.
\<close>

section \<open>The table of names\<close>

lemma node_matches_new: "node_matches name \<lparr>kv_key = take GLOBALNAME_LENGTH name, kv_hash = name_hash name, kv_value = v, kv_queue = q\<rparr>"
  by (simp add: node_matches_def same_name_def)

lemma search_insert: "hash_search (hash_insert h name) name =
    Some \<lparr>kv_key = take GLOBALNAME_LENGTH name, kv_hash = name_hash name, kv_value = 0, kv_queue = None\<rparr>"
  by (simp add: hash_search_def hash_insert_def Let_def node_matches_new)

lemma find_update_first:
  assumes "\<And>x. p (f x) = p x"
  shows "List.find p (update_first p f xs) = map_option f (List.find p xs)"
  by (induction xs) (simp_all add: assms)

lemma search_set_node:
  assumes "\<And>n. kv_key (f n) = kv_key n" "\<And>n. kv_hash (f n) = kv_hash n"
  shows "hash_search (set_node h name f) name = map_option f (hash_search h name)"
proof -
  have "node_matches name (f n) = node_matches name n" for n by (simp add: node_matches_def assms)
  then show ?thesis by (simp add: hash_search_def set_node_def Let_def find_update_first)
qed

lemma search_set_value [simp]:
  "hash_search (set_node h name (kv_value_update g)) name = map_option (kv_value_update g) (hash_search h name)"
  "hash_search (set_node h name (kv_queue_update k)) name = map_option (kv_queue_update k) (hash_search h name)"
  by (simp_all add: search_set_node)

lemma search_or_insert_found:
  "hash_search (search_or_insert h name) name = (case hash_search h name of
     None \<Rightarrow> Some \<lparr>kv_key = take GLOBALNAME_LENGTH name, kv_hash = name_hash name, kv_value = 0, kv_queue = None\<rparr>
   | Some n \<Rightarrow> Some n)"
  by (simp add: search_or_insert_def search_insert split: option.splits)

lemma names_keep_slaves [simp]:
  "slave_at (set_node h name f) i = slave_at h i" "hb_id (set_node h name f) = hb_id h"
  "hb_s (set_node h name f) = hb_s h" "hb_s (search_or_insert h name) = hb_s h"
  "slave_at (search_or_insert h name) i = slave_at h i" "hb_id (search_or_insert h name) = hb_id h"
  "hash_search (set_slave h j s) name = hash_search h name"
  by (simp_all add: slave_at_def set_node_def search_or_insert_def hash_insert_def Let_def
      hash_search_def set_slave_def)

section \<open>The queue of a node\<close>

definition queue_good :: "harbor_msg_queue option \<Rightarrow> bool" where
  "queue_good q \<longleftrightarrow> (case q of None \<Rightarrow> True | Some q \<Rightarrow> hq_inv q)"

definition queue_msgs :: "harbor_msg_queue option \<Rightarrow> harbor_msg list" where
  "queue_msgs q = (case q of None \<Rightarrow> [] | Some q \<Rightarrow> hq_contents q)"

fun request_header :: "harbor_request \<Rightarrow> remote_message_header" where
  "request_header (source, destination, t, session, msg) =
     \<lparr>rh_source = source, rh_destination = push_bit REMOTE_SHIFT (word_of_int t) OR (destination AND LOW_HANDLE),
      rh_session = session\<rparr>"

fun request_msg :: "harbor_request \<Rightarrow> byte list" where
  "request_msg (source, destination, t, session, msg) = msg"

fun request_node :: "harbor_request \<Rightarrow> nat" where
  "request_node (source, destination, t, session, msg) = unat (drop_bit REMOTE_SHIFT destination)"

definition request_queued :: "harbor_request \<Rightarrow> harbor_msg" where
  "request_queued r = \<lparr>hm_header = request_header r, hm_buffer = request_msg r\<rparr>"

fun harbor_send_request :: "harbor \<Rightarrow> harbor_request \<Rightarrow> harbor" where
  "harbor_send_request h (source, destination, t, session, msg) =
     fst (snd (remote_send_handle h source destination t session msg))"

definition unconnected :: "harbor \<Rightarrow> nat \<Rightarrow> bool" where
  "unconnected h i \<longleftrightarrow> i < length (hb_s h) \<and> of_nat i \<noteq> hb_id h \<and>
     sl_fd (slave_at h i) = 0 \<and> sl_status (slave_at h i) \<noteq> DOWN \<and> queue_good (sl_queue (slave_at h i))"

lemma push_queue_good:
  "queue_good q \<Longrightarrow>
   hq_inv (push_queue (case q of None \<Rightarrow> hq_new | Some q \<Rightarrow> q) b c) \<and>
   hq_contents (push_queue (case q of None \<Rightarrow> hq_new | Some q \<Rightarrow> q) b c) =
     queue_msgs q @ [\<lparr>hm_header = c, hm_buffer = b\<rparr>]"
  by (auto simp: queue_good_def queue_msgs_def push_queue_def push_queue_msg_ok hq_new_ok split: option.splits)

lemma send_request_queued:
  assumes "unconnected h i" "request_node r = i"
  shows "\<exists>q. harbor_send_request h r = set_slave h i ((slave_at h i)\<lparr>sl_queue := Some q\<rparr>) \<and> hq_inv q \<and>
    hq_contents q = queue_msgs (sl_queue (slave_at h i)) @ [request_queued r]"
proof -
  obtain source destination t session msg where r: "r = (source, destination, t, session, msg)"
    by (cases r) auto
  show ?thesis using assms push_queue_good
    by (auto simp: r unconnected_def remote_send_handle_def request_queued_def Let_def)
qed

lemma set_slave_twice [simp]: "set_slave (set_slave h i s) i s' = set_slave h i s'"
  by (simp add: set_slave_def)

lemma send_requests_queued:
  assumes "unconnected h i" "\<forall>r\<in>set rs. request_node r = i" "rs \<noteq> []"
  shows "\<exists>q. foldl harbor_send_request h rs = set_slave h i ((slave_at h i)\<lparr>sl_queue := Some q\<rparr>) \<and> hq_inv q \<and>
    hq_contents q = queue_msgs (sl_queue (slave_at h i)) @ map request_queued rs"
  using assms(2,3)
proof (induction rs rule: rev_induct)
  case Nil
  then show ?case by simp
next
  case (snoc r rs)
  have i: "i < length (hb_s h)" using assms(1) by (simp add: unconnected_def)
  show ?case
  proof (cases "rs = []")
    case True
    then show ?thesis using send_request_queued [OF assms(1), of r] snoc.prems by auto
  next
    case False
    then obtain q where q: "foldl harbor_send_request h rs = set_slave h i ((slave_at h i)\<lparr>sl_queue := Some q\<rparr>)"
      "hq_inv q" "hq_contents q = queue_msgs (sl_queue (slave_at h i)) @ map request_queued rs"
      using snoc by auto
    let ?h = "set_slave h i ((slave_at h i)\<lparr>sl_queue := Some q\<rparr>)"
    have "unconnected ?h i" using assms(1) q(2) by (simp add: unconnected_def queue_good_def)
    from send_request_queued [OF this, of r] snoc.prems obtain q' where
      "harbor_send_request ?h r = set_slave ?h i ((slave_at ?h i)\<lparr>sl_queue := Some q'\<rparr>)" "hq_inv q'"
      "hq_contents q' = queue_msgs (sl_queue (slave_at ?h i)) @ [request_queued r]" by auto
    with i q show ?thesis by (intro exI [of _ q']) (simp add: queue_msgs_def)
  qed
qed

section \<open>When the connection comes up\<close>

definition queued_out :: "int \<Rightarrow> harbor_msg \<Rightarrow> harbor_out list" where
  "queued_out fd m = send_remote fd (hm_buffer m) (hm_header m) @ [HFree (hm_buffer m)]"

lemma dispatch_queue_all:
  assumes "i < length (hb_s h)" "sl_fd (slave_at h i) \<noteq> 0" "queue_good (sl_queue (slave_at h i))"
  shows "dispatch_queue h i = (set_slave h i ((slave_at h i)\<lparr>sl_queue := None\<rparr>),
    concat (map (queued_out (sl_fd (slave_at h i))) (queue_msgs (sl_queue (slave_at h i)))))"
proof (cases "sl_queue (slave_at h i)")
  case None
  have "(slave_at h i)\<lparr>sl_queue := None\<rparr> = slave_at h i" using None by (cases "slave_at h i") simp
  then have "set_slave h i ((slave_at h i)\<lparr>sl_queue := None\<rparr>) = h"
    using assms(1) by (simp add: set_slave_def slave_at_def)
  with None assms(2) show ?thesis by (simp add: dispatch_queue_def queue_msgs_def)
next
  case (Some q)
  then have "hq_inv q" using assms(3) by (simp add: queue_good_def)
  from pop_all_ok [OF this] obtain q' where q': "pop_all q = (hq_contents q, q')" "hq_inv q'" "hq_contents q' = []"
    by blast
  have "release_queue (Some q') = []" using pop_all_ok [OF q'(2)] q'(3) by (auto simp: release_queue_def)
  with Some q' assms(2) show ?thesis
    by (simp add: dispatch_queue_def queue_msgs_def queued_out_def [abs_def] Let_def)
qed

lemma connect_slave_accept:
  assumes "scan_ints 2 (takeWhile (\<lambda>c. c \<noteq> 0) buffer) = [fd, int i]" "fd \<noteq> 0" "0 < i" "i < REMOTE_MAX"
    and "i < length (hb_s h)" "sl_fd (slave_at h i) = 0" "queue_good (sl_queue (slave_at h i))"
  shows "connect_slave h False buffer =
    (set_slave h i ((slave_at h i)\<lparr>sl_fd := fd, sl_status := HEADER, sl_queue := None\<rparr>),
     HSocketStart fd # HSocketSend fd [ucast (hb_id h)] #
     concat (map (queued_out fd) (queue_msgs (sl_queue (slave_at h i)))))"
proof -
  let ?h = "set_slave h i ((slave_at h i)\<lparr>sl_fd := fd, sl_status := HEADER\<rparr>)"
  have "slave_at ?h i = (slave_at h i)\<lparr>sl_fd := fd, sl_status := HEADER\<rparr>" using assms(5) by simp
  moreover have "dispatch_queue ?h i = (set_slave ?h i ((slave_at ?h i)\<lparr>sl_queue := None\<rparr>),
      concat (map (queued_out (sl_fd (slave_at ?h i))) (queue_msgs (sl_queue (slave_at ?h i)))))"
    using assms by (intro dispatch_queue_all) simp_all
  ultimately have d: "dispatch_queue ?h i =
      (set_slave h i ((slave_at h i)\<lparr>sl_fd := fd, sl_status := HEADER, sl_queue := None\<rparr>),
       concat (map (queued_out fd) (queue_msgs (sl_queue (slave_at h i)))))" by simp
  show ?thesis using assms d by (simp add: connect_slave_def Let_def handshake_def)
qed

lemma request_out_queued:
  assumes "of_nat i \<noteq> hb_id h" "sl_fd (slave_at h i) = fd" "fd \<noteq> 0" "sl_status (slave_at h i) \<noteq> HANDSHAKE"
    and "request_node r = i"
  shows "queued_out fd (request_queued r) = request_out h r @ [HFree (request_msg r)]"
  using assms
  by (cases r) (auto simp: queued_out_def request_queued_def remote_send_handle_def Let_def)

text \<open>
  C38. Messages for a node that is not connected are kept, and when the connection is accepted
  they are sent first, right after the handshake, once each and in the order they came, as
  the same bytes that would have been sent over an open connection; their buffers are freed
  once each and the queue is gone.
\<close>

theorem harbor_queue_in_order:
  assumes "unconnected h i" "sl_queue (slave_at h i) = None" "\<forall>r\<in>set rs. request_node r = i"
    and "scan_ints 2 (takeWhile (\<lambda>c. c \<noteq> 0) buffer) = [fd, int i]" "fd \<noteq> 0" "0 < i" "i < REMOTE_MAX"
  shows "\<exists>h'. connect_slave (foldl harbor_send_request h rs) False buffer =
      (h', HSocketStart fd # HSocketSend fd [ucast (hb_id h)] #
           concat (map (\<lambda>r. request_out h' r @ [HFree (request_msg r)]) rs)) \<and>
    sl_queue (slave_at h' i) = None \<and> sl_fd (slave_at h' i) = fd \<and> sl_status (slave_at h' i) = HEADER \<and>
    hb_id h' = hb_id h"
proof -
  let ?g = "foldl harbor_send_request h rs"
  have i: "i < length (hb_s h)" "sl_fd (slave_at h i) = 0" "of_nat i \<noteq> hb_id h"
    using assms(1) by (simp_all add: unconnected_def)
  have "\<exists>q. ?g = set_slave h i ((slave_at h i)\<lparr>sl_queue := q\<rparr>) \<and> queue_good q \<and> queue_msgs q = map request_queued rs"
  proof (cases "rs = []")
    case True
    have "(slave_at h i)\<lparr>sl_queue := None\<rparr> = slave_at h i" using assms(2) by (cases "slave_at h i") simp
    then have "set_slave h i ((slave_at h i)\<lparr>sl_queue := None\<rparr>) = h"
      using i by (simp add: set_slave_def slave_at_def)
    with True show ?thesis by (intro exI [of _ None]) (simp add: queue_good_def queue_msgs_def)
  next
    case False
    from send_requests_queued [OF assms(1,3) False] obtain q where
      "?g = set_slave h i ((slave_at h i)\<lparr>sl_queue := Some q\<rparr>)" "hq_inv q" "hq_contents q = map request_queued rs"
      using assms(2) by (auto simp: queue_msgs_def)
    then show ?thesis by (intro exI [of _ "Some q"]) (simp add: queue_good_def queue_msgs_def)
  qed
  then obtain q where q: "?g = set_slave h i ((slave_at h i)\<lparr>sl_queue := q\<rparr>)" "queue_good q"
    "queue_msgs q = map request_queued rs" by blast
  let ?h' = "set_slave h i ((slave_at h i)\<lparr>sl_fd := fd, sl_status := HEADER, sl_queue := None\<rparr>)"
  have "connect_slave ?g False buffer = (?h', HSocketStart fd # HSocketSend fd [ucast (hb_id h)] #
      concat (map (queued_out fd) (map request_queued rs)))"
    using connect_slave_accept [OF assms(4-7), of ?g] i q by simp
  moreover have "concat (map (queued_out fd) (map request_queued rs)) =
      concat (map (\<lambda>r. request_out ?h' r @ [HFree (request_msg r)]) rs)"
    using request_out_queued [of i ?h' fd] assms(3,5) i by (intro arg_cong [where f = concat]) simp
  ultimately show ?thesis using i by (intro exI [of _ ?h']) (simp del: map_map)
qed

lemma harbor_queue_in_order_witness:
  "\<exists>h'. connect_slave (foldl harbor_send_request
        \<lparr>hb_id = 1, hb_slave = 1, hb_map = (\<lambda>_. []), hb_s = [blank_slave, blank_slave, blank_slave]\<rparr>
        [(0x01000005, 0x02000007, 3, 9, [1]), (0x01000006, 0x02000008, 3, 10, [2])]) False [52, 32, 50] =
      (h', [HSocketStart 4, HSocketSend 4 [1],
         HSocketSend 4 [0, 0, 0, 13, 1, 1, 0, 0, 5, 3, 0, 0, 7, 0, 0, 0, 9], HFree [1],
         HSocketSend 4 [0, 0, 0, 13, 2, 1, 0, 0, 6, 3, 0, 0, 8, 0, 0, 0, 10], HFree [2]])"
proof -
  let ?h = "\<lparr>hb_id = 1, hb_slave = 1, hb_map = (\<lambda>_. []), hb_s = [blank_slave, blank_slave, blank_slave]\<rparr>"
  let ?rs = "[(0x01000005, 0x02000007, 3, 9, [1]), (0x01000006, 0x02000008, 3, 10, [2])] :: harbor_request list"
  have scan: "scan_ints 2 (takeWhile (\<lambda>c. c \<noteq> 0) [52, 32, 50]) = [4, int 2]" by code_simp
  have h: "unconnected ?h 2" "sl_queue (slave_at ?h 2) = None"
    by (simp_all add: unconnected_def slave_at_def blank_slave_def queue_good_def)
  obtain h' where h': "connect_slave (foldl harbor_send_request ?h ?rs) False [52, 32, 50] =
      (h', HSocketStart 4 # HSocketSend 4 [ucast (hb_id ?h)] #
           concat (map (\<lambda>r. request_out h' r @ [HFree (request_msg r)]) ?rs))"
    "sl_fd (slave_at h' 2) = 4" "sl_status (slave_at h' 2) = HEADER" "hb_id h' = 1"
    using harbor_queue_in_order [OF h _ scan, where rs = ?rs]
    by (auto simp: REMOTE_SHIFT_def REMOTE_MAX_def)
  show ?thesis
    using h' by (simp add: remote_send_handle_def send_remote_def REMOTE_SHIFT_def
        LOW_HANDLE_def HEADER_COOKIE_LENGTH_def to_bigendian_def header_to_message_def be32_def octet_eq)
qed

section \<open>Names\<close>

lemma remote_send_name_queued:
  assumes "hash_search h name = None"
  shows "\<exists>h' out q. remote_send_name h source name t session msg = (True, h', out) \<and>
    hb_s h' = hb_s h \<and> hb_id h' = hb_id h \<and>
    map_option kv_queue (hash_search h' name) = Some (Some q) \<and> hq_inv q \<and>
    hq_contents q = [\<lparr>hm_header = \<lparr>rh_source = source, rh_destination = push_bit REMOTE_SHIFT (word_of_int t),
       rh_session = session\<rparr>, hm_buffer = msg\<rparr>]"
  using assms push_queue_msg_ok [OF hq_new_ok(1)] hq_new_ok(2)
  by (auto simp: remote_send_name_def search_or_insert_found Let_def push_queue_def)

lemma update_name_unconnected:
  assumes "map_option kv_queue (hash_search h name) = Some (Some q)"
    and "unat (drop_bit REMOTE_SHIFT handle) = i" "0 < i" "unconnected h i" "sl_queue (slave_at h i) = None"
  shows "\<exists>h'. update_name h name handle = (h', []) \<and> unconnected h i \<and>
    hb_id h' = hb_id h \<and> hb_s h' = (hb_s h)[i := (slave_at h i)\<lparr>sl_queue := Some q\<rparr>]"
proof -
  obtain n where n: "hash_search h name = Some n" "kv_queue n = Some q" using assms(1) by auto
  have soi: "search_or_insert h name = h" using n by (simp add: search_or_insert_def)
  let ?h = "set_node h name (kv_value_update (\<lambda>_. handle))"
  have n': "hash_search ?h name = Some (n\<lparr>kv_value := handle\<rparr>)" using n by simp
  obtain ms e where e: "pop_all q = (ms, e)" by (cases "pop_all q") auto
  have s: "sl_fd (slave_at h i) = 0" "sl_status (slave_at h i) \<noteq> DOWN" using assms(4) by (simp_all add: unconnected_def)
  have d: "dispatch_name_queue ?h name (n\<lparr>kv_value := handle\<rparr>) =
      (set_node (set_slave ?h i ((slave_at h i)\<lparr>sl_queue := Some q\<rparr>)) name (kv_queue_update (\<lambda>_. None)), [])"
    using n(2) assms(2,3,5) s e by (simp add: dispatch_name_queue_def Let_def)
  show ?thesis
    unfolding update_name_def soi Let_def n' option.case
    using n n' d assms(4) by (simp add: release_queue_def) (simp add: set_slave_def)
qed

text \<open>
  A message for a name that is not known waits in the queue of the name. When the name
  becomes known before its node is connected, the queue moves to the node as it is, without
  the handle that belongs to the name: the message is sent with the destination 0 when the
  node connects, and the node delivers it to its handle 0 instead of the named service.
\<close>

theorem name_queue_misrouted:
  assumes "hash_search h name = None" "unat (drop_bit REMOTE_SHIFT handle) = i"
    and "unconnected h i" "sl_queue (slave_at h i) = None"
    and "scan_ints 2 (takeWhile (\<lambda>c. c \<noteq> 0) buffer) = [fd, int i]" "fd \<noteq> 0" "0 < i" "i < REMOTE_MAX"
    and "length msg + HEADER_COOKIE_LENGTH < 2 ^ 24" "0 \<le> t" "t < 256" "hb_id g = of_nat i"
  shows "\<exists>h1 out1 h2 h3 p. remote_send_name h source name t session msg = (True, h1, out1) \<and>
    update_name h1 name handle = (h2, []) \<and>
    connect_slave h2 False buffer =
      (h3, [HSocketStart fd, HSocketSend fd [ucast (hb_id h)], HSocketSend fd (frame 4 p), HFree msg]) \<and>
    forward_local_messsage alive g p =
      delivery alive (source, push_bit REMOTE_SHIFT (of_nat i), t, session, msg)"
proof -
  let ?c = "\<lparr>rh_source = source, rh_destination = push_bit REMOTE_SHIFT (word_of_int t), rh_session = session\<rparr>"
  let ?p = "msg @ header_to_message ?c"
  let ?d = "push_bit REMOTE_SHIFT (of_nat i) :: u32"
  obtain h1 out1 q where h1: "remote_send_name h source name t session msg = (True, h1, out1)"
    "hb_s h1 = hb_s h" "hb_id h1 = hb_id h" "map_option kv_queue (hash_search h1 name) = Some (Some q)"
    "hq_inv q" "hq_contents q = [\<lparr>hm_header = ?c, hm_buffer = msg\<rparr>]"
    using remote_send_name_queued [OF assms(1), of source t session msg] by blast
  have s: "slave_at h1 i = slave_at h i" using h1(2) by (simp add: slave_at_def)
  have un: "unconnected h1 i" using assms(3) h1(2,3) s by (simp add: unconnected_def)
  obtain h2 where h2: "update_name h1 name handle = (h2, [])" "hb_id h2 = hb_id h"
    "hb_s h2 = (hb_s h)[i := (slave_at h i)\<lparr>sl_queue := Some q\<rparr>]"
    using update_name_unconnected [OF h1(4) assms(2,7) un] assms(4) s h1(2,3) by auto
  have i: "i < length (hb_s h)" "sl_fd (slave_at h i) = 0" using assms(3) by (simp_all add: unconnected_def)
  have s2: "slave_at h2 i = (slave_at h i)\<lparr>sl_queue := Some q\<rparr>" "i < length (hb_s h2)"
    using h2(3) i by (simp_all add: slave_at_def)
  have "length msg + HEADER_COOKIE_LENGTH < 2 ^ 32" using assms(9) by simp
  then have out: "queued_out fd \<lparr>hm_header = ?c, hm_buffer = msg\<rparr> = [HSocketSend fd (frame 4 ?p), HFree msg]"
    by (simp add: queued_out_def send_remote_frame)
  have c: "connect_slave h2 False buffer = (set_slave h2 i ((slave_at h2 i)\<lparr>sl_fd := fd, sl_status := HEADER, sl_queue := None\<rparr>),
      [HSocketStart fd, HSocketSend fd [ucast (hb_id h)], HSocketSend fd (frame 4 ?p), HFree msg])"
    using connect_slave_accept [OF assms(5-8) s2(2)] s2(1) i(2) h1(5,6) h2(2) out
    by (simp add: queue_good_def queue_msgs_def)
  have d: "drop_bit 24 ?d = (of_nat i :: u32)" "?d AND 0xffffff = 0"
  proof -
    have "(of_nat i :: u32) = take_bit 8 (of_nat i)"
      using assms(8) by (simp add: REMOTE_MAX_def take_bit_nat_eq_self flip: of_nat_take_bit)
    then have b: "bit (of_nat i :: u32) n \<Longrightarrow> n < 8" for n by (metis bit_take_bit_iff)
    show "drop_bit 24 ?d = (of_nat i :: u32)"
      by (rule bit_word_eqI) (auto simp: REMOTE_SHIFT_def bit_push_bit_iff bit_drop_bit_eq dest: b)
    have m: "(0xffffff :: u32) = mask 24" by (simp add: mask_eq_exp_minus_1)
    show "?d AND 0xffffff = 0"
      unfolding m by (rule bit_word_eqI) (auto simp: REMOTE_SHIFT_def bit_simps)
  qed
  have "?c = \<lparr>rh_source = source, rh_destination = push_bit REMOTE_SHIFT (word_of_int t) OR (?d AND LOW_HANDLE),
      rh_session = session\<rparr>" using d(2) by (simp add: LOW_HANDLE_def)
  then have "forward_local_messsage alive g ?p = delivery alive (source, ?d, t, session, msg)"
    using destination_word [OF d(1) assms(10,11)] assms(12)
    by (simp add: forward_local_messsage_def message_header_inverse REMOTE_SHIFT_def LOW_HANDLE_def Let_def)
  with h1(1) h2(1) c show ?thesis by blast
qed

lemma name_queue_misrouted_witness:
  "\<exists>h1 out1 h2 h3 p. remote_send_name
        \<lparr>hb_id = 1, hb_slave = 1, hb_map = (\<lambda>_. []), hb_s = [blank_slave, blank_slave, blank_slave]\<rparr>
        5 (replicate 16 65) 3 9 [1] = (True, h1, out1) \<and>
    update_name h1 (replicate 16 65) 0x02000007 = (h2, []) \<and>
    connect_slave h2 False [52, 32, 50] =
      (h3, [HSocketStart 4, HSocketSend 4 [1], HSocketSend 4 (frame 4 p), HFree [1]]) \<and>
    forward_local_messsage (\<lambda>_. True)
        \<lparr>hb_id = 2, hb_slave = 1, hb_map = (\<lambda>_. []), hb_s = [blank_slave, blank_slave, blank_slave]\<rparr> p =
      [HSend 5 0x02000000 (3 OR DONTCOPY) 9 [1]]"
proof -
  let ?h = "\<lparr>hb_id = 1, hb_slave = 1, hb_map = (\<lambda>_. []), hb_s = [blank_slave, blank_slave, blank_slave]\<rparr>"
  let ?g = "\<lparr>hb_id = 2, hb_slave = 1, hb_map = (\<lambda>_. []), hb_s = [blank_slave, blank_slave, blank_slave]\<rparr>"
  have scan: "scan_ints 2 (takeWhile (\<lambda>c. c \<noteq> 0) [52, 32, 50]) = [4, int 2]" by code_simp
  have h: "hash_search ?h (replicate 16 65) = None" "unat (drop_bit REMOTE_SHIFT (0x02000007 :: u32)) = 2"
    "unconnected ?h 2" "sl_queue (slave_at ?h 2) = None"
    by (simp_all add: unconnected_def slave_at_def blank_slave_def queue_good_def hash_search_def REMOTE_SHIFT_def)
  have "push_bit REMOTE_SHIFT (of_nat 2) = (0x02000000 :: u32)" by (simp add: REMOTE_SHIFT_def)
  with name_queue_misrouted [OF h scan, where source = 5 and t = 3 and session = 9 and msg = "[1]" and
      alive = "\<lambda>_. True" and g = ?g]
  show ?thesis by (simp add: REMOTE_MAX_def HEADER_COOKIE_LENGTH_def)
qed

end
