(* ===== verification/Server.thy ===== *)
theory Server
  imports Mq_Protocol Handle Timer Mtask_Header "HOL-Library.Monad_Syntax"
begin

text \<open>
  mtask-src/mtask_server.c with mtask_harbor.c, mtask_error.c, mtask_monitor.c and the state
  of mtask_env.c: the contexts of the services of a node, how they are counted, sent to and
  dispatched, and the commands. It composes the message queues (\<open>Mq\<close>), the handle storage
  (\<open>Handle\<close>) and the timer (\<open>Timer\<close>). An operation maps the state of the node to a result
  and a new state; \<open>None\<close> is a crash: a failed assertion, a null pointer or the use of a
  context that has been freed. Memory is never reused: \<open>sv_brk\<close> counts the allocations.
  The services themselves and the files are arguments (\<open>services\<close>).
\<close>

section \<open>Data\<close>

definition MESSAGE_TYPE_MASK :: u64 where "MESSAGE_TYPE_MASK = 0xffffffffffffff"

record mtask_context =
  ctx_cb :: bool
  ctx_queue :: mqid
  ctx_logfile :: bool
  ctx_handle :: u32
  ctx_session_id :: u32
  ctx_ref :: int
  ctx_init :: bool
  ctx_endless :: bool

record mtask_monitor =
  mo_version :: u32
  mo_check_version :: u32
  mo_source :: u32
  mo_destination :: u32

record remote_message =
  rm_name :: "byte list"
  rm_handle :: u32
  rm_message :: "byte list option"
  rm_sz :: u64

text \<open>What the server does to the outside, in order.\<close>

datatype server_out =
    SFree "byte list option"
  | SInstanceRelease ctxid
  | SSignal ctxid int
  | SLogOpen ctxid
  | SLogOutput ctxid u32 int u32 "byte list option" u64
  | SLogClose ctxid

record server =
  sv_ctx :: "ctxid \<Rightarrow> mtask_context option"
  sv_handles :: handle_storage
  sv_mq :: mq_state
  sv_timer :: timer
  sv_total :: int
  sv_monitor_exit :: u32
  sv_harbor :: u32
  sv_remote :: "ctxid option"
  sv_rmsg :: "nat \<Rightarrow> remote_message option"
  sv_logger :: u32
  sv_env :: "byte list \<Rightarrow> byte list option"
  sv_monitors :: "nat \<Rightarrow> mtask_monitor"
  sv_current :: "nat \<Rightarrow> u32"
  sv_brk :: nat
  sv_out :: "server_out list"

text \<open>
  The services: whether a module and an instance can be had, the \<open>init\<close> function of a module
  (0 for success), the callback of a context (true when it keeps the message), and whether a
  log file can be opened.
\<close>

record services =
  se_query :: "byte list \<Rightarrow> bool"
  se_create :: "byte list \<Rightarrow> bool"
  se_init :: "byte list \<Rightarrow> ctxid \<Rightarrow> byte list option \<Rightarrow> server \<Rightarrow> (int \<times> server) option"
  se_cb :: "ctxid \<Rightarrow> int \<Rightarrow> u32 \<Rightarrow> u32 \<Rightarrow> byte list option \<Rightarrow> u64 \<Rightarrow> server \<Rightarrow> (bool \<times> server) option"
  se_fopen :: "byte list \<Rightarrow> bool"

definition out_ev :: "server_out \<Rightarrow> server \<Rightarrow> server" where
  "out_ev e s = s\<lparr>sv_out := sv_out s @ [e]\<rparr>"

text \<open>The field \<open>handle\<close> of a context, as the handle storage reads it.\<close>

definition ctx_handle_of :: "server \<Rightarrow> ctxid \<Rightarrow> u32" where
  "ctx_handle_of s c = (case sv_ctx s c of None \<Rightarrow> 0 | Some x \<Rightarrow> ctx_handle x)"

definition upd_ctx :: "ctxid \<Rightarrow> (mtask_context \<Rightarrow> mtask_context) \<Rightarrow> server \<Rightarrow> server option" where
  "upd_ctx c f s = do { x \<leftarrow> sv_ctx s c; Some (s\<lparr>sv_ctx := (sv_ctx s)(c \<mapsto> f x)\<rparr>) }"

section \<open>References to contexts\<close>

definition mtask_context_grab :: "ctxid \<Rightarrow> server \<Rightarrow> server option" where
  "mtask_context_grab c s = upd_ctx c (\<lambda>x. x\<lparr>ctx_ref := ctx_ref x + 1\<rparr>) s"

definition mtask_context_reserve :: "ctxid \<Rightarrow> server \<Rightarrow> server option" where
  "mtask_context_reserve c s = do { s \<leftarrow> mtask_context_grab c s; Some (s\<lparr>sv_total := sv_total s - 1\<rparr>) }"

definition delete_context :: "ctxid \<Rightarrow> server \<Rightarrow> server option" where
  "delete_context c s = do {
     x \<leftarrow> sv_ctx s c;
     mq \<leftarrow> mtask_mq_mark_release (sv_mq s) (ctx_queue x);
     Some (s\<lparr>sv_mq := mq, sv_ctx := (sv_ctx s)(c := None), sv_total := sv_total s - 1,
             sv_out := sv_out s @ (if ctx_logfile x then [SLogClose c] else []) @ [SInstanceRelease c]\<rparr>) }"

definition mtask_context_release :: "ctxid \<Rightarrow> server \<Rightarrow> (ctxid option \<times> server) option" where
  "mtask_context_release c s = do {
     s \<leftarrow> upd_ctx c (\<lambda>x. x\<lparr>ctx_ref := ctx_ref x - 1\<rparr>) s;
     x \<leftarrow> sv_ctx s c;
     if ctx_ref x = 0 then do { s \<leftarrow> delete_context c s; Some (None, s) } else Some (Some c, s) }"

text \<open>\<open>mtask_handle_grab\<close> and \<open>mtask_handle_retire\<close> with what they do to the context.\<close>

definition handle_grab :: "u32 \<Rightarrow> server \<Rightarrow> (ctxid option \<times> server) option" where
  "handle_grab h s =
     (case mtask_handle_grab (ctx_handle_of s) (sv_handles s) h of
        None \<Rightarrow> Some (None, s)
      | Some c \<Rightarrow> do { s \<leftarrow> mtask_context_grab c s; Some (Some c, s) })"

definition handle_retire :: "u32 \<Rightarrow> server \<Rightarrow> (int \<times> server) option" where
  "handle_retire h s =
     (let (r, hs, rel) = mtask_handle_retire (ctx_handle_of s) (sv_handles s) h;
          s = s\<lparr>sv_handles := hs\<rparr>
      in case rel of
           None \<Rightarrow> Some (r, s)
         | Some c \<Rightarrow> do { (_, s) \<leftarrow> mtask_context_release c s; Some (r, s) })"

text \<open>\<open>mtask_handle_retireall\<close>: passes over the slots until one retires nothing.\<close>

fun retire_slots :: "nat list \<Rightarrow> nat \<Rightarrow> server \<Rightarrow> (nat \<times> server) option" where
  "retire_slots [] n s = Some (n, s)"
| "retire_slots (i # is) n s =
     (let handle = (case hs_slot (sv_handles s) ! i of Some c \<Rightarrow> ctx_handle_of s c | None \<Rightarrow> 0) in
      if handle \<noteq> 0 then
        do { (r, s) \<leftarrow> handle_retire handle s; retire_slots is (if r \<noteq> 0 then n + 1 else n) s }
      else retire_slots is n s)"

fun retireall_loop :: "nat \<Rightarrow> server \<Rightarrow> server option" where
  "retireall_loop 0 s = None"
| "retireall_loop (Suc fuel) s =
     do { (n, s) \<leftarrow> retire_slots [0..<hs_slot_size (sv_handles s)] 0 s;
          if n = 0 then Some s else retireall_loop fuel s }"

definition handle_retireall :: "server \<Rightarrow> server option" where
  "handle_retireall s = retireall_loop (hs_slot_size (sv_handles s) + 1) s"

section \<open>Sending\<close>

definition mtask_context_push :: "u32 \<Rightarrow> mtask_message \<Rightarrow> server \<Rightarrow> (int \<times> server) option" where
  "mtask_context_push handle m s = do {
     (c, s) \<leftarrow> handle_grab handle s;
     case c of
       None \<Rightarrow> Some (-1, s)
     | Some c \<Rightarrow> do {
         x \<leftarrow> sv_ctx s c;
         mq \<leftarrow> mtask_mq_push (sv_mq s) (ctx_queue x) m;
         (_, s) \<leftarrow> mtask_context_release c (s\<lparr>sv_mq := mq\<rparr>);
         Some (0, s) } }"

text \<open>\<open>mtask_error\<close>; the text is what the format gives. \<open>logger\<close> is looked up once.\<close>

definition mtask_error :: "ctxid option \<Rightarrow> byte list \<Rightarrow> server \<Rightarrow> server option" where
  "mtask_error ctx text s =
     (let logger = (if sv_logger s = 0 then mtask_handle_findname (sv_handles s) (str ''logger'') else sv_logger s);
          s = s\<lparr>sv_logger := logger\<rparr>
      in if logger = 0 then Some s
         else do {
           source \<leftarrow> (case ctx of None \<Rightarrow> Some 0 | Some c \<Rightarrow> map_option ctx_handle (sv_ctx s c));
           (_, s) \<leftarrow> mtask_context_push logger
             \<lparr>msg_source = source, msg_session = 0, msg_data = Some text,
              msg_sz = of_nat (length text) OR push_bit MESSAGE_TYPE_SHIFT (word_of_int PTYPE_TEXT)\<rparr> s;
           Some s })"

definition mtask_context_newsession :: "ctxid \<Rightarrow> server \<Rightarrow> (u32 \<times> server) option" where
  "mtask_context_newsession c s = do {
     x \<leftarrow> sv_ctx s c;
     let session = ctx_session_id x + 1;
     let session = (if sint session \<le> 0 then 1 else session);
     s \<leftarrow> upd_ctx c (\<lambda>x. x\<lparr>ctx_session_id := session\<rparr>) s;
     Some (session, s) }"

text \<open>mtask_harbor.c\<close>

definition mtask_harbor_init :: "u32 \<Rightarrow> server \<Rightarrow> server" where
  "mtask_harbor_init harbor s = s\<lparr>sv_harbor := push_bit HANDLE_REMOTE_SHIFT harbor\<rparr>"

definition mtask_harbor_start :: "ctxid \<Rightarrow> server \<Rightarrow> server option" where
  "mtask_harbor_start c s = do { s \<leftarrow> mtask_context_reserve c s; Some (s\<lparr>sv_remote := Some c\<rparr>) }"

definition mtask_harbor_exit :: "server \<Rightarrow> server option" where
  "mtask_harbor_exit s =
     (case sv_remote s of
        None \<Rightarrow> Some s
      | Some c \<Rightarrow> do { (_, s) \<leftarrow> mtask_context_release c (s\<lparr>sv_remote := None\<rparr>); Some s })"

definition mtask_harbor_message_isremote :: "u32 \<Rightarrow> server \<Rightarrow> bool option" where
  "mtask_harbor_message_isremote handle s =
     (if sv_harbor s = -1 then None
      else let h = handle AND NOT HANDLE_MASK in Some (h \<noteq> sv_harbor s \<and> h \<noteq> 0))"

definition mtask_context_send ::
  "ctxid \<Rightarrow> byte list option \<Rightarrow> u64 \<Rightarrow> u32 \<Rightarrow> int \<Rightarrow> u32 \<Rightarrow> server \<Rightarrow> server option" where
  "mtask_context_send c msg sz source t session s = do {
     x \<leftarrow> sv_ctx s c;
     mq \<leftarrow> mtask_mq_push (sv_mq s) (ctx_queue x)
       \<lparr>msg_source = source, msg_session = session, msg_data = msg,
        msg_sz = sz OR push_bit MESSAGE_TYPE_SHIFT (word_of_int t)\<rparr>;
     Some (s\<lparr>sv_mq := mq\<rparr>) }"

text \<open>
  A \<open>struct remote_message\<close> is allocated (40 bytes) and its address sent as the data; the
  message holds the address, and \<open>sv_rmsg\<close> the struct.
\<close>

definition mtask_harbor_send :: "remote_message \<Rightarrow> u32 \<Rightarrow> u32 \<Rightarrow> server \<Rightarrow> server option" where
  "mtask_harbor_send rmsg source session s =
     (let t = uint (drop_bit MESSAGE_TYPE_SHIFT (rm_sz rmsg));
          rmsg = rmsg\<lparr>rm_sz := rm_sz rmsg AND MESSAGE_TYPE_MASK\<rparr>
      in if t = PTYPE_SYSTEM \<or> t = PTYPE_HARBOR then None
         else do {
           c \<leftarrow> sv_remote s;
           let a = sv_brk s;
           let s = s\<lparr>sv_brk := a + 1, sv_rmsg := (sv_rmsg s)(a \<mapsto> rmsg)\<rparr>;
           mtask_context_send c (Some (le64 (of_nat a))) 40 source t session s })"

text \<open>\<open>_filter_args\<close>: the session, the data and the size with the type in its high byte.\<close>

definition filter_args :: "ctxid option \<Rightarrow> int \<Rightarrow> u32 \<Rightarrow> byte list option \<Rightarrow> u64 \<Rightarrow> server
    \<Rightarrow> (u32 \<times> byte list option \<times> u64 \<times> server) option" where
  "filter_args ctx t session data sz s = do {
     let needcopy = (t AND PTYPE_TAG_DONTCOPY = 0);
     (session, s) \<leftarrow>
       (if t AND PTYPE_TAG_ALLOCSESSION \<noteq> 0 then
          if session \<noteq> 0 then None
          else do { c \<leftarrow> ctx; mtask_context_newsession c s }
        else Some (session, s));
     data \<leftarrow>
       (case data of
          Some d \<Rightarrow> if needcopy then (if length d < unat sz then None else Some (Some (take (unat sz) d)))
                     else Some (Some d)
        | None \<Rightarrow> Some None);
     Some (session, data, sz OR push_bit MESSAGE_TYPE_SHIFT (word_of_int (t AND 0xff)), s) }"

text \<open>\<open>source == 0\<close> stands for the context itself.\<close>

definition source_of :: "ctxid option \<Rightarrow> u32 \<Rightarrow> server \<Rightarrow> u32 option" where
  "source_of ctx source s =
     (if source = 0 then do { c \<leftarrow> ctx; x \<leftarrow> sv_ctx s c; Some (ctx_handle x) } else Some source)"

definition mtask_send :: "ctxid option \<Rightarrow> u32 \<Rightarrow> u32 \<Rightarrow> int \<Rightarrow> u32 \<Rightarrow> byte list option \<Rightarrow> u64 \<Rightarrow> server
    \<Rightarrow> (int \<times> server) option" where
  "mtask_send ctx source destination t session data sz s =
     (if sz AND MESSAGE_TYPE_MASK \<noteq> sz then do {
        s \<leftarrow> mtask_error ctx (str ''The message to '' @ print_nat 16 (unat destination) @ str '' is too large'') s;
        Some (-1, out_ev (SFree data) s) }
      else do {
        (session, data, sz, s) \<leftarrow> filter_args ctx t session data sz s;
        source \<leftarrow> source_of ctx source s;
        if destination = 0 then Some (sint session, s)
        else do {
          remote \<leftarrow> mtask_harbor_message_isremote destination s;
          if remote then do {
            s \<leftarrow> mtask_harbor_send
              \<lparr>rm_name = replicate GLOBALNAME_LENGTH 0, rm_handle = destination, rm_message = data, rm_sz = sz\<rparr>
              source session s;
            Some (sint session, s) }
          else do {
            (r, s) \<leftarrow> mtask_context_push destination
              \<lparr>msg_source = source, msg_session = session, msg_data = data, msg_sz = sz\<rparr> s;
            if r \<noteq> 0 then Some (-1, out_ev (SFree data) s) else Some (sint session, s) } } })"

definition copy_name :: "byte list \<Rightarrow> byte list" where
  "copy_name addr = (let n = take GLOBALNAME_LENGTH addr in n @ replicate (GLOBALNAME_LENGTH - length n) 0)"

text \<open>The character at the start of a string, 0 at its end.\<close>

definition first :: "byte list \<Rightarrow> byte" where
  "first a = (case a of [] \<Rightarrow> 0 | ch # _ \<Rightarrow> ch)"

definition mtask_sendname :: "ctxid option \<Rightarrow> u32 \<Rightarrow> byte list \<Rightarrow> int \<Rightarrow> u32 \<Rightarrow> byte list option \<Rightarrow> u64 \<Rightarrow> server
    \<Rightarrow> (int \<times> server) option" where
  "mtask_sendname ctx source addr t session data sz s = do {
     source \<leftarrow> source_of ctx source s;
     if first addr = 58 then mtask_send ctx source (ucast (strtoul 16 (tl addr))) t session data sz s
     else if first addr = 46 then
       (let des = mtask_handle_findname (sv_handles s) (tl addr) in
        if des = 0 then
          Some (-1, if t AND PTYPE_TAG_DONTCOPY \<noteq> 0 then out_ev (SFree data) s else s)
        else mtask_send ctx source des t session data sz s)
     else do {
       (session, data, sz, s) \<leftarrow> filter_args ctx t session data sz s;
       s \<leftarrow> mtask_harbor_send
         \<lparr>rm_name = copy_name addr, rm_handle = 0, rm_message = data, rm_sz = sz\<rparr> source session s;
       Some (sint session, s) } }"

section \<open>Queues of dead services\<close>

definition drop_message :: "u32 \<Rightarrow> mtask_message \<Rightarrow> server \<Rightarrow> server option" where
  "drop_message handle m s =
     (let s = out_ev (SFree (msg_data m)) s in
      if handle = 0 then None
      else do { (_, s) \<leftarrow> mtask_send None handle (msg_source m) PTYPE_ERROR 0 None 0 s; Some s })"

fun drop_messages :: "u32 \<Rightarrow> mtask_message list \<Rightarrow> server \<Rightarrow> server option" where
  "drop_messages handle [] s = Some s"
| "drop_messages handle (m # ms) s = do { s \<leftarrow> drop_message handle m s; drop_messages handle ms s }"

text \<open>
  \<open>mtask_mq_release(q, drop_message, &d)\<close>. Nobody can push to a queue that is dropped, so
  that it is freed before its messages are answered makes no difference.
\<close>

definition release_dead_queue :: "mqid \<Rightarrow> u32 \<Rightarrow> server \<Rightarrow> server option" where
  "release_dead_queue a handle s = do {
     (ms, mq) \<leftarrow> mtask_mq_release (sv_mq s) a;
     drop_messages handle ms (s\<lparr>sv_mq := mq\<rparr>) }"

section \<open>Starting a service\<close>

definition mtask_context_new ::
  "services \<Rightarrow> byte list \<Rightarrow> byte list option \<Rightarrow> server \<Rightarrow> (ctxid option \<times> server) option" where
  "mtask_context_new E name param s =
     (if \<not> se_query E name \<or> \<not> se_create E name then Some (None, s)
      else do {
        let c = sv_brk s;
        let s = s\<lparr>sv_brk := c + 1, sv_ctx := (sv_ctx s)(c \<mapsto>
            \<lparr>ctx_cb = False, ctx_queue = c, ctx_logfile = False, ctx_handle = 0, ctx_session_id = 0,
             ctx_ref = 2, ctx_init = False, ctx_endless = False\<rparr>)\<rparr>;
        (handle, hs) \<leftarrow> mtask_handle_register (ctx_handle_of s) (sv_handles s) c;
        s \<leftarrow> upd_ctx c (\<lambda>x. x\<lparr>ctx_handle := handle\<rparr>) (s\<lparr>sv_handles := hs\<rparr>);
        let s = s\<lparr>sv_mq := mq_upd (sv_mq s) c (mtask_mq_create handle), sv_total := sv_total s + 1\<rparr>;
        (r, s) \<leftarrow> se_init E name c param s;
        if r = 0 then do {
          (ret, s) \<leftarrow> mtask_context_release c s;
          s \<leftarrow> (case ret of None \<Rightarrow> Some s | Some c \<Rightarrow> upd_ctx c (\<lambda>x. x\<lparr>ctx_init := True\<rparr>) s);
          mq \<leftarrow> mtask_globalmq_push (sv_mq s) c;
          let s = s\<lparr>sv_mq := mq\<rparr>;
          s \<leftarrow> (case ret of
                 None \<Rightarrow> Some s
               | Some c \<Rightarrow> mtask_error (Some c)
                   (str ''LAUNCH '' @ name @ str '' '' @ (case param of None \<Rightarrow> [] | Some p \<Rightarrow> p)) s);
          Some (ret, s) }
        else do {
          s \<leftarrow> mtask_error (Some c) (str ''FAILED launch '' @ name) s;
          x \<leftarrow> sv_ctx s c;
          let handle = ctx_handle x;
          (_, s) \<leftarrow> mtask_context_release c s;
          (_, s) \<leftarrow> handle_retire handle s;
          s \<leftarrow> release_dead_queue c handle s;
          Some (None, s) } })"

section \<open>Dispatching\<close>

definition mtask_monitor_trigger :: "nat \<Rightarrow> u32 \<Rightarrow> u32 \<Rightarrow> server \<Rightarrow> server" where
  "mtask_monitor_trigger w source destination s =
     s\<lparr>sv_monitors := (sv_monitors s)(w := (sv_monitors s w)\<lparr>mo_source := source,
         mo_destination := destination, mo_version := mo_version (sv_monitors s w) + 1\<rparr>)\<rparr>"

definition mtask_context_endless :: "u32 \<Rightarrow> server \<Rightarrow> server option" where
  "mtask_context_endless handle s = do {
     (c, s) \<leftarrow> handle_grab handle s;
     case c of
       None \<Rightarrow> Some s
     | Some c \<Rightarrow> do {
         s \<leftarrow> upd_ctx c (\<lambda>x. x\<lparr>ctx_endless := True\<rparr>) s;
         (_, s) \<leftarrow> mtask_context_release c s;
         Some s } }"

text \<open>\<open>%08x\<close>\<close>

definition print_hex8 :: "u32 \<Rightarrow> byte list" where
  "print_hex8 w = (let t = print_nat 16 (unat w) in replicate (8 - length t) 48 @ t)"

definition mtask_monitor_check :: "nat \<Rightarrow> server \<Rightarrow> server option" where
  "mtask_monitor_check w s =
     (let m = sv_monitors s w in
      if mo_version m = mo_check_version m then
        (if mo_destination m \<noteq> 0 then do {
           s \<leftarrow> mtask_context_endless (mo_destination m) s;
           mtask_error None (str ''A message from [ :'' @ print_hex8 (mo_source m) @ str '' ] to [ :'' @
             print_hex8 (mo_destination m) @ str '' ] maybe in an endless loop (version = '' @
             print_int (sint (mo_version m)) @ str '')'') s }
         else Some s)
      else Some (s\<lparr>sv_monitors := (sv_monitors s)(w := m\<lparr>mo_check_version := mo_version m\<rparr>)\<rparr>))"

definition context_dispatch :: "services \<Rightarrow> nat \<Rightarrow> ctxid \<Rightarrow> mtask_message \<Rightarrow> server \<Rightarrow> server option" where
  "context_dispatch E w c m s = do {
     x \<leftarrow> sv_ctx s c;
     if \<not> ctx_init x then None
     else do {
       let s = s\<lparr>sv_current := (sv_current s)(w := ctx_handle x)\<rparr>;
       let t = uint (drop_bit MESSAGE_TYPE_SHIFT (msg_sz m));
       let sz = msg_sz m AND MESSAGE_TYPE_MASK;
       let s = (if ctx_logfile x then out_ev (SLogOutput c (msg_source m) t (msg_session m) (msg_data m) sz) s else s);
       (keep, s) \<leftarrow> se_cb E c t (msg_session m) (msg_source m) (msg_data m) sz s;
       Some (if keep then s else out_ev (SFree (msg_data m)) s) } }"

text \<open>\<open>mtask_mq_pop\<close> on a queue of the node.\<close>

definition queue_pop :: "mqid \<Rightarrow> server \<Rightarrow> (mtask_message option \<times> server) option" where
  "queue_pop a s = do {
     q \<leftarrow> mqs (sv_mq s) a;
     let (m, q) = mtask_mq_pop q;
     Some (m, s\<lparr>sv_mq := mq_upd (sv_mq s) a q\<rparr>) }"

definition queue_overload :: "mqid \<Rightarrow> server \<Rightarrow> (nat \<times> server) option" where
  "queue_overload a s = do {
     q \<leftarrow> mqs (sv_mq s) a;
     let (n, q) = mtask_mq_overload q;
     Some (n, s\<lparr>sv_mq := mq_upd (sv_mq s) a q\<rparr>) }"

text \<open>What a turn of the loop does with the message that was popped.\<close>

definition dispatch_turn :: "services \<Rightarrow> nat \<Rightarrow> ctxid \<Rightarrow> mqid \<Rightarrow> u32 \<Rightarrow> mtask_message \<Rightarrow> server \<Rightarrow> server option" where
  "dispatch_turn E w c a handle m s = do {
     (overload, s) \<leftarrow> queue_overload a s;
     s \<leftarrow> (if overload \<noteq> 0 then
             mtask_error (Some c) (str ''May overload, message queue length = '' @ print_nat 10 overload) s
           else Some s);
     let s = mtask_monitor_trigger w (msg_source m) handle s;
     x \<leftarrow> sv_ctx s c;
     s \<leftarrow> (if ctx_cb x then context_dispatch E w c m s else Some (out_ev (SFree (msg_data m)) s));
     Some (mtask_monitor_trigger w 0 0 s) }"

text \<open>The turns \<open>i = 1, 2, ...\<close>; the result says whether the queue was still full enough.\<close>

fun dispatch_turns :: "services \<Rightarrow> nat \<Rightarrow> ctxid \<Rightarrow> mqid \<Rightarrow> u32 \<Rightarrow> nat \<Rightarrow> server \<Rightarrow> (bool \<times> server) option" where
  "dispatch_turns E w c a handle 0 s = Some (True, s)"
| "dispatch_turns E w c a handle (Suc n) s = do {
     (m, s) \<leftarrow> queue_pop a s;
     case m of
       None \<Rightarrow> Some (False, s)
     | Some m \<Rightarrow> do { s \<leftarrow> dispatch_turn E w c a handle m s; dispatch_turns E w c a handle n s } }"

definition globalmq_pop :: "server \<Rightarrow> (mqid option \<times> server) option" where
  "globalmq_pop s = do { (q, mq) \<leftarrow> mtask_globalmq_pop (sv_mq s); Some (q, s\<lparr>sv_mq := mq\<rparr>) }"

text \<open>Queue \<open>q\<close> after it has been emptied, and after its turns.\<close>

definition dispatch_leave :: "ctxid \<Rightarrow> server \<Rightarrow> (mqid option \<times> server) option" where
  "dispatch_leave c s = do { (_, s) \<leftarrow> mtask_context_release c s; globalmq_pop s }"

definition dispatch_next :: "ctxid \<Rightarrow> mqid \<Rightarrow> server \<Rightarrow> (mqid option \<times> server) option" where
  "dispatch_next c a s = do {
     x \<leftarrow> sv_ctx s c;
     if a \<noteq> ctx_queue x then None
     else do {
       (nq, s) \<leftarrow> globalmq_pop s;
       s \<leftarrow> (if nq = None then Some s
             else do { mq \<leftarrow> mtask_globalmq_push (sv_mq s) a; Some (s\<lparr>sv_mq := mq\<rparr>) });
       (_, s) \<leftarrow> mtask_context_release c s;
       Some (if nq = None then Some a else nq, s) } }"

definition context_dispatch_queue :: "services \<Rightarrow> nat \<Rightarrow> mqid \<Rightarrow> int \<Rightarrow> server \<Rightarrow> (mqid option \<times> server) option" where
  "context_dispatch_queue E w a weight s = do {
     q \<leftarrow> mqs (sv_mq s) a;
     let handle = mq_handle q;
     (c, s) \<leftarrow> handle_grab handle s;
     case c of
       None \<Rightarrow> do { s \<leftarrow> release_dead_queue a handle s; globalmq_pop s }
     | Some c \<Rightarrow> do {
         (m, s) \<leftarrow> queue_pop a s;
         case m of
           None \<Rightarrow> dispatch_leave c s
         | Some m \<Rightarrow> do {
             q \<leftarrow> mqs (sv_mq s) a;
             let n = (if 0 \<le> weight then mtask_mq_length q div 2 ^ nat weight else 1);
             s \<leftarrow> dispatch_turn E w c a handle m s;
             (full, s) \<leftarrow> dispatch_turns E w c a handle (n - 1) s;
             if full then dispatch_next c a s else dispatch_leave c s } } }"

definition mtask_context_message_dispatch ::
  "services \<Rightarrow> nat \<Rightarrow> mqid option \<Rightarrow> int \<Rightarrow> server \<Rightarrow> (mqid option \<times> server) option" where
  "mtask_context_message_dispatch E w q weight s = do {
     (q, s) \<leftarrow> (case q of None \<Rightarrow> globalmq_pop s | Some a \<Rightarrow> Some (Some a, s));
     case q of None \<Rightarrow> Some (None, s) | Some a \<Rightarrow> context_dispatch_queue E w a weight s }"

text \<open>\<open>mtask_context_dispatchall\<close>, with as many turns as the queue may have.\<close>

fun dispatchall :: "services \<Rightarrow> nat \<Rightarrow> nat \<Rightarrow> ctxid \<Rightarrow> mqid \<Rightarrow> server \<Rightarrow> server option" where
  "dispatchall E w 0 c a s = None"
| "dispatchall E w (Suc fuel) c a s = do {
     (m, s) \<leftarrow> queue_pop a s;
     case m of
       None \<Rightarrow> Some s
     | Some m \<Rightarrow> do { s \<leftarrow> context_dispatch E w c m s; dispatchall E w fuel c a s } }"

text \<open>The messages of the timer: \<open>dispatch_list\<close> pushes one for each timer that expires.\<close>

fun push_all :: "(u32 \<times> mtask_message) list \<Rightarrow> server \<Rightarrow> server option" where
  "push_all [] s = Some s"
| "push_all ((h, m) # ms) s = do { (_, s) \<leftarrow> mtask_context_push h m s; push_all ms s }"

definition server_updatetime :: "u64 \<Rightarrow> server \<Rightarrow> server option" where
  "server_updatetime cp s =
     (let (T, out, back) = mtask_updatetime cp (sv_timer s) in do {
        s \<leftarrow> (if back then mtask_error None (str ''time diff error: change from '' @ print_int (sint cp) @
               str '' to '' @ print_int (sint (tm_current_point (sv_timer s)))) s else Some s);
        push_all (concat out) (s\<lparr>sv_timer := T\<rparr>) })"

end
