(* ===== verification/Server_Queues.thy ===== *)
theory Server_Queues
  imports Mq_Protocol
begin

text \<open>
  The operations of the message queues as the server uses them: what each does to the
  contents of every queue (\<open>views\<close>), and that none fails while the hands of the threads
  obey the protocol (\<open>queues_inv\<close>, which is \<open>sched_inv\<close> without the list).
\<close>

section \<open>What a queue holds\<close>

type_synonym view = "u32 \<times> bool \<times> mtask_message list"

definition view_of :: "message_queue \<Rightarrow> view" where
  "view_of q = (mq_handle q, mq_release q = 0, mq_contents q)"

definition views :: "mq_state \<Rightarrow> mqid \<Rightarrow> view option" where
  "views s a = map_option view_of (mqs s a)"

lemma views_Some: "views s a = Some (h, b, ms) \<longleftrightarrow>
    (\<exists>q. mqs s a = Some q \<and> mq_handle q = h \<and> (mq_release q = 0) = b \<and> mq_contents q = ms)"
  by (auto simp: views_def view_of_def)

lemma views_None: "views s a = None \<longleftrightarrow> mqs s a = None"
  by (simp add: views_def)

lemma view_unlinked: "unlinked p = unlinked q \<Longrightarrow> view_of p = view_of q"
  using unlinked_fields [of p q] by (cases p; cases q) (simp add: view_of_def unlinked_def mq_contents_def mtask_mq_length_def)

lemma same_queues_views: "same_queues s t \<Longrightarrow> views t = views s"
proof
  fix a assume *: "same_queues s t"
  then have "map_option unlinked (mqs s a) = map_option unlinked (mqs t a)" by (simp add: same_queues_def)
  then show "views t a = views s a"
    by (cases "mqs s a"; cases "mqs t a") (auto simp: views_def intro: view_unlinked)
qed

lemma views_mqs_cong: "mqs t = mqs s \<Longrightarrow> views t = views s"
  by (rule ext) (simp add: views_def)

lemma view_upd: "views (mq_upd s a q) = (views s)(a \<mapsto> view_of q)"
  by (rule ext) (simp add: views_def)

lemma globalmq_push_views: "mtask_globalmq_push s a = Some s' \<Longrightarrow> views s' = views s"
proof -
  assume p: "mtask_globalmq_push s a = Some s'"
  have "view_of (q\<lparr>mq_next := n\<rparr>) = view_of q" for q n
    by (rule view_unlinked) (simp add: unlinked_def)
  with p show ?thesis
    by (auto simp: mtask_globalmq_push_def views_def fun_eq_iff mq_upd_def split: option.splits if_splits)
qed

lemma globalmq_pop_views: "mtask_globalmq_pop s = Some (r, s') \<Longrightarrow> views s' = views s"
proof -
  assume p: "mtask_globalmq_pop s = Some (r, s')"
  have "view_of (q\<lparr>mq_next := n\<rparr>) = view_of q" for q n
    by (rule view_unlinked) (simp add: unlinked_def)
  with p show ?thesis
    by (auto simp: mtask_globalmq_pop_def views_def fun_eq_iff mq_upd_def Let_def split: option.splits if_splits)
qed

lemma view_store: "mq_inv q \<Longrightarrow> view_of (mq_store q m) = (mq_handle q, mq_release q = 0, mq_contents q @ [m])"
  by (simp add: view_of_def mq_store_contents) (simp add: mq_store_def expand_queue_def Let_def)

lemma view_flags: "view_of (q\<lparr>mq_in_global := g\<rparr>) = view_of q" "view_of (q\<lparr>mq_over := g\<rparr>) = view_of q"
  "view_of (q\<lparr>mq_release := r\<rparr>) = (mq_handle q, r = 0, mq_contents q)"
  by (simp_all add: view_of_def mq_contents_def mtask_mq_length_def)

lemma mq_push_views:
  assumes "mtask_mq_push s a m = Some s'" "mqs s a = Some q" "mq_inv q"
  shows "views s' = (views s)(a \<mapsto> (mq_handle q, mq_release q = 0, mq_contents q @ [m]))"
  using assms view_store [OF assms(3), of m]
  by (auto simp: mtask_mq_push_def Let_def view_upd view_flags dest!: globalmq_push_views split: if_splits)

lemma mark_release_views:
  assumes "mtask_mq_mark_release s a = Some s'" "mqs s a = Some q"
  shows "views s' = (views s)(a \<mapsto> (mq_handle q, False, mq_contents q))"
  using assms
  by (auto simp: mtask_mq_mark_release_def Let_def view_upd view_flags dest!: globalmq_push_views split: if_splits)

lemma mq_release_views:
  assumes "mtask_mq_release s a = Some (ms, s')" "mqs s a = Some q" "mq_inv q"
  shows "if mq_release q = 0 then ms = [] \<and> views s' = views s
         else ms = mq_contents q \<and> views s' = (views s)(a := None)"
proof (cases "mq_release q = 0")
  case True
  with assms show ?thesis by (auto simp: mtask_mq_release_def dest!: globalmq_push_views)
next
  case False
  obtain q' where "drain (mtask_mq_length q + 1) mtask_mq_pop q = (mq_contents q, q')"
    using ring.drain_all [OF assms(3), of "mtask_mq_length q + 1"] by auto
  with False assms show ?thesis
    by (auto simp: mtask_mq_release_def drop_queue_def Let_def views_def fun_eq_iff split: if_splits)
qed

lemma mq_pop_view:
  assumes "mtask_mq_pop q = (r, q')" "mq_inv q"
  shows "view_of q' = (mq_handle q, mq_release q = 0, tl (mq_contents q)) \<and>
    r = (case mq_contents q of [] \<Rightarrow> None | m # _ \<Rightarrow> Some m)"
proof -
  have "mq_contents q' = tl (mq_contents q)" "r = (case mq_contents q of [] \<Rightarrow> None | m # _ \<Rightarrow> Some m)"
    using ring.pop_contents [OF assms(2)] ring.pop_result [OF assms(2)] assms(1) by simp_all
  moreover have "mq_handle q' = mq_handle q"
    using assms(1) by (auto simp: mtask_mq_pop_def Let_def split: if_splits prod.splits)
  ultimately show ?thesis using mq_pop_frame(2) [OF assms(1)] by (simp add: view_of_def)
qed

section \<open>No operation fails\<close>

type_synonym hands = "nat \<Rightarrow> mqid option"

definition queues_inv :: "hands \<Rightarrow> mq_state \<Rightarrow> bool" where
  "queues_inv h s \<longleftrightarrow> (\<exists>xs. sched_inv \<lparr>sc_mq = s, sc_hand = h\<rparr> xs)"

lemma queues_invD:
  assumes "queues_inv h s"
  shows "mqs s a = Some q \<Longrightarrow> mq_inv q" "h i = Some a \<Longrightarrow> mqs s a \<noteq> None"
    and "h i = Some a \<Longrightarrow> h j = Some a \<Longrightarrow> i = j"
proof -
  obtain xs where xs: "sched_inv \<lparr>sc_mq = s, sc_hand = h\<rparr> xs" using assms by (auto simp: queues_inv_def)
  show "mqs s a = Some q \<Longrightarrow> mq_inv q" "h i = Some a \<Longrightarrow> mqs s a \<noteq> None"
    "h i = Some a \<Longrightarrow> h j = Some a \<Longrightarrow> i = j"
    using sched_invD [OF xs] by (auto simp: queue_ok_def)
qed

lemma queues_step:
  assumes "queues_inv h s" "sched_step \<lparr>sc_mq = s, sc_hand = h\<rparr> \<lparr>sc_mq = s', sc_hand = h'\<rparr>"
  shows "queues_inv h' s'"
  using assms sched_step_inv unfolding queues_inv_def by blast

lemma queues_push:
  assumes inv: "queues_inv h s" and v: "views s a = Some (handle, True, ms)"
  shows "\<exists>s'. mtask_mq_push s a m = Some s' \<and> queues_inv h s' \<and> views s' = (views s)(a \<mapsto> (handle, True, ms @ [m]))"
proof -
  obtain xs where xs: "sched_inv \<lparr>sc_mq = s, sc_hand = h\<rparr> xs" using inv by (auto simp: queues_inv_def)
  obtain q where q: "mqs s a = Some q" "mq_handle q = handle" "mq_release q = 0" "mq_contents q = ms"
    using v by (auto simp: views_Some)
  then obtain s' where s': "mtask_mq_push s a m = Some s'" using sched_inv_progress [OF xs] by fastforce
  have "sched_step \<lparr>sc_mq = s, sc_hand = h\<rparr> \<lparr>sc_mq = s', sc_hand = h\<rparr>"
    using sched_step.send [of "\<lparr>sc_mq = s, sc_hand = h\<rparr>" a q m s'] q s' by simp
  from queues_step [OF inv this] mq_push_views [OF s' q(1) queues_invD(1) [OF inv q(1)]] q s' show ?thesis by simp
qed

lemma queues_mark:
  assumes inv: "queues_inv h s" and v: "views s a = Some (handle, True, ms)"
  shows "\<exists>s'. mtask_mq_mark_release s a = Some s' \<and> queues_inv h s' \<and> views s' = (views s)(a \<mapsto> (handle, False, ms))"
proof -
  obtain xs where xs: "sched_inv \<lparr>sc_mq = s, sc_hand = h\<rparr> xs" using inv by (auto simp: queues_inv_def)
  obtain q where q: "mqs s a = Some q" "mq_handle q = handle" "mq_release q = 0" "mq_contents q = ms"
    using v by (auto simp: views_Some)
  then obtain s' where s': "mtask_mq_mark_release s a = Some s'" using sched_inv_progress [OF xs] by fastforce
  have "sched_step \<lparr>sc_mq = s, sc_hand = h\<rparr> \<lparr>sc_mq = s', sc_hand = h\<rparr>"
    using sched_step.mark [of "\<lparr>sc_mq = s, sc_hand = h\<rparr>" a q s'] q s' by simp
  from queues_step [OF inv this] mark_release_views [OF s' q(1)] q s' show ?thesis by simp
qed

lemma queues_take:
  assumes inv: "queues_inv h s"
  shows "\<exists>r s'. mtask_globalmq_pop s = Some (r, s') \<and> views s' = views s \<and>
    (case r of None \<Rightarrow> queues_inv h s' | Some a \<Rightarrow> \<forall>i. h i = None \<longrightarrow> queues_inv (h(i := Some a)) s')"
proof -
  obtain xs where xs: "sched_inv \<lparr>sc_mq = s, sc_hand = h\<rparr> xs" using inv by (auto simp: queues_inv_def)
  then obtain r s' where s': "mtask_globalmq_pop s = Some (r, s')" using sched_inv_progress [OF xs] by fastforce
  have v: "views s' = views s" by (rule globalmq_pop_views [OF s'])
  show ?thesis
  proof (cases r)
    case None
    with s' have "s' = s"
      by (auto simp: mtask_globalmq_pop_def Let_def split: option.splits if_splits)
    with s' None inv show ?thesis by simp
  next
    case (Some a)
    have "queues_inv (h(i := Some a)) s'" if "h i = None" for i
      using queues_step [OF inv, of s' "h(i := Some a)"]
        sched_step.take [of "\<lparr>sc_mq = s, sc_hand = h\<rparr>" i a s'] that s' Some by simp
    with s' v Some show ?thesis by simp
  qed
qed

lemma queues_putback:
  assumes inv: "queues_inv h s" and i: "h i = Some a"
  shows "\<exists>s'. mtask_globalmq_push s a = Some s' \<and> queues_inv (h(i := None)) s' \<and> views s' = views s"
proof -
  obtain xs where xs: "sched_inv \<lparr>sc_mq = s, sc_hand = h\<rparr> xs" using inv by (auto simp: queues_inv_def)
  obtain s' where s': "mtask_globalmq_push s a = Some s'" using sched_inv_progress [OF xs] i by fastforce
  have "sched_step \<lparr>sc_mq = s, sc_hand = h\<rparr> \<lparr>sc_mq = s', sc_hand = h(i := None)\<rparr>"
    using sched_step.putback [of "\<lparr>sc_mq = s, sc_hand = h\<rparr>" i a s'] i s' by simp
  from queues_step [OF inv this] globalmq_push_views [OF s'] s' show ?thesis by simp
qed

lemma queues_finish:
  assumes inv: "queues_inv h s" and i: "h i = Some a" and v: "views s a = Some (handle, b, ms)"
  shows "\<exists>s'. mtask_mq_release s a = Some (if b then [] else ms, s') \<and> queues_inv (h(i := None)) s' \<and>
    views s' = (if b then views s else (views s)(a := None))"
proof -
  obtain xs where xs: "sched_inv \<lparr>sc_mq = s, sc_hand = h\<rparr> xs" using inv by (auto simp: queues_inv_def)
  obtain q where q: "mqs s a = Some q" "mq_handle q = handle" "(mq_release q = 0) = b" "mq_contents q = ms"
    using v by (auto simp: views_Some)
  obtain ds s' where s': "mtask_mq_release s a = Some (ds, s')" using sched_inv_progress [OF xs] i by fastforce
  have "sched_step \<lparr>sc_mq = s, sc_hand = h\<rparr> \<lparr>sc_mq = s', sc_hand = h(i := None)\<rparr>"
    using sched_step.finish [of "\<lparr>sc_mq = s, sc_hand = h\<rparr>" i a ds s'] i s' by simp
  from queues_step [OF inv this] mq_release_views [OF s' q(1) queues_invD(1) [OF inv q(1)]] q s' show ?thesis
    by (cases b) auto
qed

lemma queues_pop:
  assumes inv: "queues_inv h s" and i: "h i = Some a" and q: "mqs s a = Some q" "mq_release q = 0"
    and p: "mtask_mq_pop q = (r, q')"
  shows "queues_inv (if r = None then h(i := None) else h) (mq_upd s a q')"
proof (cases r)
  case None
  have "sched_step \<lparr>sc_mq = s, sc_hand = h\<rparr> \<lparr>sc_mq = mq_upd s a q', sc_hand = h(i := None)\<rparr>"
    using sched_step.idle [of "\<lparr>sc_mq = s, sc_hand = h\<rparr>" i a q q'] i q p None by simp
  from queues_step [OF inv this] None show ?thesis by simp
next
  case (Some m)
  have "sched_step \<lparr>sc_mq = s, sc_hand = h\<rparr> \<lparr>sc_mq = mq_upd s a q', sc_hand = h\<rparr>"
    using sched_step.work [of "\<lparr>sc_mq = s, sc_hand = h\<rparr>" i a q m q'] i q p Some by simp
  from queues_step [OF inv this] Some show ?thesis by simp
qed

lemma queues_create:
  assumes "queues_inv h s" "h i = None" "mqs s a = None"
  shows "queues_inv (h(i := Some a)) (mq_upd s a (mtask_mq_create handle))"
  using queues_step [OF assms(1)] sched_step.create [of "\<lparr>sc_mq = s, sc_hand = h\<rparr>" i a handle] assms(2,3) by simp

lemma queues_overload:
  assumes inv: "queues_inv h s" and q: "mqs s a = Some q"
  shows "queues_inv h (mq_upd s a (snd (mtask_mq_overload q)))"
proof -
  obtain xs where xs: "sched_inv \<lparr>sc_mq = s, sc_hand = h\<rparr> xs" using inv by (auto simp: queues_inv_def)
  have "sched_inv (\<lparr>sc_mq = s, sc_hand = h\<rparr>\<lparr>sc_mq := mq_upd s a (snd (mtask_mq_overload q))\<rparr>) xs"
    using inv_update [OF xs, of a q "snd (mtask_mq_overload q)"] q queues_invD(1) [OF inv q]
    by (simp add: mtask_mq_overload_def mq_inv_def)
  then show ?thesis by (auto simp: queues_inv_def)
qed

text \<open>A queue passes from one hand to another.\<close>

lemma queues_move:
  assumes inv: "queues_inv h s" and i: "h i = Some a" "h j = None"
  shows "queues_inv (h(i := None, j := Some a)) s"
proof -
  obtain xs where xs: "sched_inv \<lparr>sc_mq = s, sc_hand = h\<rparr> xs" using inv by (auto simp: queues_inv_def)
  let ?h = "h(i := None, j := Some a)"
  have ij: "i \<noteq> j" using i by auto
  note inj = sched_invD(2) [OF xs, simplified]
  have old: "\<exists>k'. h k' = Some b" if "?h k = Some b" for k b using that i by (auto split: if_splits)
  have "\<exists>k. ?h k = Some b" if "h k = Some b" for k b
  proof (cases "k = i")
    case True
    with that i have "?h j = Some b" by simp
    then show ?thesis ..
  next
    case False
    with that i have "?h k = Some b" by auto
    then show ?thesis ..
  qed
  with old have ran: "ran ?h = ran h" unfolding ran_def by blast
  have inj': "k = l" if "?h k = Some b" "?h l = Some b" for k l b
  proof -
    have *: "h k = Some b \<and> b \<noteq> a" if "?h k = Some b" "k \<noteq> j" for k b
    proof -
      have "k \<noteq> i" "h k = Some b" using that ij by (auto split: if_splits)
      moreover have "b \<noteq> a" using inj [OF i(1), of k] \<open>k \<noteq> i\<close> \<open>h k = Some b\<close> by blast
      ultimately show ?thesis by blast
    qed
    have "b = a" if "?h j = Some b" for b using that by simp
    then show ?thesis using * [OF that(1)] * [OF that(2)] inj [of k b l] that by blast
  qed
  have "sched_inv \<lparr>sc_mq = s, sc_hand = ?h\<rparr> xs"
  proof (rule sched_invI)
    show "glist (sc_mq \<lparr>sc_mq = s, sc_hand = ?h\<rparr>) xs" using sched_invD(1) [OF xs] by simp
  next
    fix k l b
    assume "sc_hand \<lparr>sc_mq = s, sc_hand = ?h\<rparr> k = Some b" "sc_hand \<lparr>sc_mq = s, sc_hand = ?h\<rparr> l = Some b"
    then show "k = l" unfolding sched.select_convs by (rule inj')
  next
    fix k b
    assume "sc_hand \<lparr>sc_mq = s, sc_hand = ?h\<rparr> k = Some b"
    then obtain k' where "h k' = Some b" unfolding sched.select_convs using old by blast
    then show "b \<notin> set xs \<and> mqs (sc_mq \<lparr>sc_mq = s, sc_hand = ?h\<rparr>) b \<noteq> None"
      using sched_invD(3,4) [OF xs, of k' b] by auto
  next
    fix b q
    assume "mqs (sc_mq \<lparr>sc_mq = s, sc_hand = ?h\<rparr>) b = Some q"
    then show "queue_ok \<lparr>sc_mq = s, sc_hand = ?h\<rparr> xs b q"
      using sched_invD(5) [OF xs, of b q] ran by (simp add: queue_ok_def)
  qed
  then show ?thesis by (auto simp: queues_inv_def)
qed

end
