(* ===== verification/Server_Refs.thy ===== *)
theory Server_Refs
  imports Server Server_Queues Handle_Table
begin

text \<open>
  The invariant of a node (\<open>server_inv\<close>) and that every operation on contexts keeps it: the
  reference count of a context is exactly the number of places that refer to it (the handle
  storage, the harbor and the code that is running, counted by \<open>held\<close>), so that no context
  is freed while it is used and none is kept for ever; its queue lives as long as it does.
  \<open>h\<close> are the queues in the hands of the threads: \<open>3 w\<close> and \<open>3 w + 1\<close> are the variables of
  worker \<open>w\<close>, \<open>3 c + 2\<close> is the variable of the thread that creates context \<open>c\<close>.
\<close>

section \<open>The invariant\<close>

definition registered :: "server \<Rightarrow> ctxid \<Rightarrow> bool" where
  "registered s c \<longleftrightarrow> Some c \<in> set (hs_slot (sv_handles s))"

definition lookup :: "server \<Rightarrow> u32 \<Rightarrow> ctxid option" where
  "lookup s handle = look (ctx_handle_of s, sv_handles s) handle"

definition counted :: "(ctxid \<Rightarrow> nat) \<Rightarrow> server \<Rightarrow> ctxid \<Rightarrow> bool" where
  "counted held s c \<longleftrightarrow>
     (case sv_ctx s c of
        None \<Rightarrow> held c = 0 \<and> \<not> registered s c \<and> sv_remote s \<noteq> Some c
      | Some x \<Rightarrow>
          ctx_ref x = int (held c) + of_bool (registered s c) + of_bool (sv_remote s = Some c) \<and>
          0 < ctx_ref x \<and> ctx_queue x = c \<and> (\<exists>ms. views (sv_mq s) c = Some (ctx_handle x, True, ms)))"

definition server_inv :: "(ctxid \<Rightarrow> nat) \<Rightarrow> hands \<Rightarrow> server \<Rightarrow> bool" where
  "server_inv held h s \<longleftrightarrow>
     table_inv (ctx_handle_of s, sv_handles s) \<and> queues_inv h (sv_mq s) \<and> (\<forall>c. counted held s c) \<and>
     (\<forall>a handle b ms. views (sv_mq s) a = Some (handle, b, ms) \<longrightarrow>
        handle \<noteq> 0 \<and> (\<forall>c. lookup s handle = Some c \<longrightarrow> c = a)) \<and>
     (\<forall>c x. sv_ctx s c = Some x \<longrightarrow> \<not> ctx_init x \<longrightarrow> registered s c \<longrightarrow> h (3 * c + 2) = Some c) \<and>
     (\<forall>c\<ge>sv_brk s. sv_ctx s c = None \<and> views (sv_mq s) c = None \<and> h (3 * c + 2) = None) \<and>
     sv_harbor s \<noteq> -1 \<and> sv_remote s \<noteq> None"

lemma server_invI:
  assumes "table_inv (ctx_handle_of s, sv_handles s)" "queues_inv h (sv_mq s)" "\<And>c. counted held s c"
    and "\<And>a handle b ms. views (sv_mq s) a = Some (handle, b, ms) \<Longrightarrow> handle \<noteq> 0"
    and "\<And>a handle b ms c. views (sv_mq s) a = Some (handle, b, ms) \<Longrightarrow> lookup s handle = Some c \<Longrightarrow> c = a"
    and "\<And>c x. sv_ctx s c = Some x \<Longrightarrow> \<not> ctx_init x \<Longrightarrow> registered s c \<Longrightarrow> h (3 * c + 2) = Some c"
    and "\<And>c. sv_brk s \<le> c \<Longrightarrow> sv_ctx s c = None \<and> views (sv_mq s) c = None \<and> h (3 * c + 2) = None"
    and "sv_harbor s \<noteq> -1" "sv_remote s \<noteq> None"
  shows "server_inv held h s"
  unfolding server_inv_def using assms by blast

lemma server_invD:
  assumes "server_inv held h s"
  shows "table_inv (ctx_handle_of s, sv_handles s)" "queues_inv h (sv_mq s)" "counted held s c"
    and "views (sv_mq s) a = Some (handle, b, ms) \<Longrightarrow> handle \<noteq> 0"
    and "views (sv_mq s) a = Some (handle, b, ms) \<Longrightarrow> lookup s handle = Some c \<Longrightarrow> c = a"
    and "sv_ctx s c = Some x \<Longrightarrow> \<not> ctx_init x \<Longrightarrow> registered s c \<Longrightarrow> h (3 * c + 2) = Some c"
    and "sv_brk s \<le> c \<Longrightarrow> sv_ctx s c = None \<and> views (sv_mq s) c = None \<and> h (3 * c + 2) = None"
    and "sv_harbor s \<noteq> -1" "sv_remote s \<noteq> None"
  using assms unfolding server_inv_def by blast+

lemma counted_Some:
  assumes "server_inv held h s" "sv_ctx s c = Some x"
  shows "ctx_ref x = int (held c) + of_bool (registered s c) + of_bool (sv_remote s = Some c)"
    and "0 < ctx_ref x" "ctx_queue x = c" "\<exists>ms. views (sv_mq s) c = Some (ctx_handle x, True, ms)"
  using server_invD(3) [OF assms(1), of c] assms(2) by (simp_all add: counted_def)

lemma held_alive: "server_inv held h s \<Longrightarrow> 0 < held c \<Longrightarrow> \<exists>x. sv_ctx s c = Some x"
  using server_invD(3) [of held h s c] by (auto simp: counted_def split: option.splits)

text \<open>Addresses are not reused, and a context keeps its handle and stays initialised.\<close>

definition grows :: "server \<Rightarrow> server \<Rightarrow> bool" where
  "grows s s' \<longleftrightarrow> sv_brk s \<le> sv_brk s' \<and>
     (\<forall>c x'. c < sv_brk s \<longrightarrow> sv_ctx s' c = Some x' \<longrightarrow>
        (\<exists>x. sv_ctx s c = Some x \<and> ctx_handle x' = ctx_handle x \<and> (ctx_init x \<longrightarrow> ctx_init x')))"

lemma grows_refl [simp]: "grows s s"
  by (auto simp: grows_def)

lemma grows_trans [trans]: "grows s t \<Longrightarrow> grows t u \<Longrightarrow> grows s u"
  unfolding grows_def by (metis le_trans less_le_trans)

lemma grows_core: "sv_ctx s' = sv_ctx s \<Longrightarrow> sv_brk s \<le> sv_brk s' \<Longrightarrow> grows s s'"
  by (auto simp: grows_def)

section \<open>Changes that keep the invariant\<close>

lemma inv_core:
  assumes "server_inv held h s" "sv_ctx s' = sv_ctx s" "sv_handles s' = sv_handles s" "sv_mq s' = sv_mq s"
    and "sv_harbor s' = sv_harbor s" "sv_remote s' = sv_remote s" "sv_brk s \<le> sv_brk s'"
  shows "server_inv held h s'"
proof -
  have ch: "ctx_handle_of s' = ctx_handle_of s" by (rule ext) (simp add: ctx_handle_of_def assms(2))
  have *: "counted held s' = counted held s" "registered s' = registered s" "lookup s' = lookup s"
    by (rule ext, simp only: counted_def registered_def lookup_def ch assms(2-6))+
  show ?thesis using assms(1,7) unfolding server_inv_def * assms(2-6) ch by (meson le_trans)
qed

text \<open>A context that changes in anything but its queue and its handle, or changes hands.\<close>

lemma inv_ctx:
  assumes inv: "server_inv held h s" and x: "sv_ctx s c = Some x"
    and x': "ctx_queue x' = ctx_queue x" "ctx_handle x' = ctx_handle x" "ctx_init x \<longrightarrow> ctx_init x'"
    and r: "ctx_ref x' - int n = ctx_ref x - int (held c)" "0 < ctx_ref x'"
  shows "server_inv (held(c := n)) h (s\<lparr>sv_ctx := (sv_ctx s)(c \<mapsto> x')\<rparr>)" (is "server_inv _ _ ?s")
    and "grows s (s\<lparr>sv_ctx := (sv_ctx s)(c \<mapsto> x')\<rparr>)"
proof -
  have ch: "ctx_handle_of ?s = ctx_handle_of s" by (rule ext) (simp add: ctx_handle_of_def x x'(2))
  have cnt: "counted (held(c := n)) ?s d" for d
    using server_invD(3) [OF inv, of d] x x' r
    by (cases "d = c"; cases "sv_ctx s d") (simp_all add: counted_def registered_def)
  have lk: "lookup ?s = lookup s" by (rule ext) (simp add: lookup_def ch)
  have init: "\<exists>y. sv_ctx s d = Some y \<and> \<not> ctx_init y" if "sv_ctx ?s d = Some y" "\<not> ctx_init y" for d y
    using that x x'(3) by (cases "d = c") auto
  have brk: "d \<noteq> c" if "sv_brk s \<le> d" for d
    using server_invD(7) [OF inv that] x by auto
  show "server_inv (held(c := n)) h ?s"
  proof (rule server_invI)
    fix d y assume "sv_ctx ?s d = Some y" "\<not> ctx_init y" "registered ?s d"
    then show "h (3 * d + 2) = Some d"
      using init [of d y] server_invD(6) [OF inv, of d] by (auto simp: registered_def)
  next
    fix d assume "sv_brk ?s \<le> d"
    then show "sv_ctx ?s d = None \<and> views (sv_mq ?s) d = None \<and> h (3 * d + 2) = None"
      using server_invD(7) [OF inv, of d] brk [of d] by simp
  next
    fix a handle b ms d
    assume v: "views (sv_mq ?s) a = Some (handle, b, ms)"
    then show "handle \<noteq> 0" using server_invD(4) [OF inv, of a handle b ms] by simp
    assume "lookup ?s handle = Some d"
    then show "d = a" using server_invD(5) [OF inv, of a handle b ms d] v lk by simp
  qed (use server_invD(1,2,8,9) [OF inv] ch cnt in simp_all)
  show "grows s ?s" using x x' by (auto simp: grows_def)
qed

text \<open>The queues change; those that stay keep their handle and those of contexts stay.\<close>

lemma inv_mq:
  assumes inv: "server_inv held h s" and q: "queues_inv h' mq"
    and old: "\<And>a handle b ms. views mq a = Some (handle, b, ms) \<Longrightarrow> \<exists>b ms. views (sv_mq s) a = Some (handle, b, ms)"
    and live: "\<And>c handle ms. sv_ctx s c \<noteq> None \<Longrightarrow> views (sv_mq s) c = Some (handle, True, ms) \<Longrightarrow>
      \<exists>ms. views mq c = Some (handle, True, ms)"
    and hands: "\<And>c x. sv_ctx s c = Some x \<Longrightarrow> \<not> ctx_init x \<Longrightarrow> registered s c \<Longrightarrow> h' (3 * c + 2) = h (3 * c + 2)"
      "\<And>c. sv_brk s \<le> c \<Longrightarrow> h' (3 * c + 2) = h (3 * c + 2)"
  shows "server_inv held h' (s\<lparr>sv_mq := mq\<rparr>)"
proof (rule server_invI)
  have ch: "ctx_handle_of (s\<lparr>sv_mq := mq\<rparr>) = ctx_handle_of s" by (rule ext) (simp add: ctx_handle_of_def)
  have lk: "lookup (s\<lparr>sv_mq := mq\<rparr>) = lookup s" by (rule ext) (simp add: lookup_def ch)
  have rg: "registered (s\<lparr>sv_mq := mq\<rparr>) = registered s" by (rule ext) (simp add: registered_def)
  show "table_inv (ctx_handle_of (s\<lparr>sv_mq := mq\<rparr>), sv_handles (s\<lparr>sv_mq := mq\<rparr>))"
    using server_invD(1) [OF inv] ch by simp
  show "queues_inv h' (sv_mq (s\<lparr>sv_mq := mq\<rparr>))" using q by simp
  fix c
  show "counted held (s\<lparr>sv_mq := mq\<rparr>) c"
    using server_invD(3) [OF inv, of c] live [of c] by (auto simp: counted_def rg split: option.splits)
  fix a handle b ms
  assume v: "views (sv_mq (s\<lparr>sv_mq := mq\<rparr>)) a = Some (handle, b, ms)"
  then obtain b' ms' where v': "views (sv_mq s) a = Some (handle, b', ms')" using old by fastforce
  show "handle \<noteq> 0" using server_invD(4) [OF inv v'] .
  show "c = a" if "lookup (s\<lparr>sv_mq := mq\<rparr>) handle = Some c" for c
    using server_invD(5) [OF inv v'] that lk by simp
next
  fix c x
  assume "sv_ctx (s\<lparr>sv_mq := mq\<rparr>) c = Some x" "\<not> ctx_init x" "registered (s\<lparr>sv_mq := mq\<rparr>) c"
  then show "h' (3 * c + 2) = Some c"
    using server_invD(6) [OF inv, of c x] hands(1) [of c x] by (simp add: registered_def)
next
  fix c assume c: "sv_brk (s\<lparr>sv_mq := mq\<rparr>) \<le> c"
  then have n: "sv_ctx s c = None" "views (sv_mq s) c = None" "h (3 * c + 2) = None"
    using server_invD(7) [OF inv, of c] by simp_all
  moreover have "views mq c = None"
  proof (cases "views mq c")
    case (Some v)
    then show ?thesis using old [of c] n(2) by (cases v) auto
  qed
  ultimately show "sv_ctx (s\<lparr>sv_mq := mq\<rparr>) c = None \<and> views (sv_mq (s\<lparr>sv_mq := mq\<rparr>)) c = None \<and> h' (3 * c + 2) = None"
    using hands(2) [of c] c by simp
qed (use server_invD(8,9) [OF inv] in simp_all)

section \<open>Taking and dropping references\<close>

lemma grab_eq: "sv_ctx s c = Some x \<Longrightarrow>
    mtask_context_grab c s = Some (s\<lparr>sv_ctx := (sv_ctx s)(c \<mapsto> x\<lparr>ctx_ref := ctx_ref x + 1\<rparr>)\<rparr>)"
  by (simp add: mtask_context_grab_def upd_ctx_def)

lemma inv_grab:
  assumes "server_inv held h s" "sv_ctx s c = Some x"
  shows "\<exists>s'. mtask_context_grab c s = Some s' \<and> server_inv (held(c := held c + 1)) h s' \<and> grows s s' \<and> sv_mq s' = sv_mq s"
proof -
  let ?x = "x\<lparr>ctx_ref := ctx_ref x + 1\<rparr>"
  have "0 < ctx_ref x" by (rule counted_Some(2) [OF assms])
  then have "ctx_queue ?x = ctx_queue x" "ctx_handle ?x = ctx_handle x" "ctx_init x \<longrightarrow> ctx_init ?x"
    "ctx_ref ?x - int (held c + 1) = ctx_ref x - int (held c)" "0 < ctx_ref ?x" by simp_all
  from inv_ctx [OF assms this] grab_eq [OF assms(2)] show ?thesis by simp
qed

lemma lookup_registered: "server_inv held h s \<Longrightarrow> lookup s handle = Some c \<longleftrightarrow> registered s c \<and> ctx_handle_of s c = handle"
  using look_eq [OF server_invD(1)] by (simp add: lookup_def registered_def)

lemma registered_alive: "server_inv held h s \<Longrightarrow> registered s c \<Longrightarrow> \<exists>x. sv_ctx s c = Some x"
  using server_invD(3) [of held h s c] by (auto simp: counted_def split: option.splits)

text \<open>The last reference: the queue is marked and the context is gone.\<close>

lemma inv_delete:
  assumes inv: "server_inv held h s" and x: "sv_ctx s c = Some x"
    and last: "held c = 1" "\<not> registered s c" "sv_remote s \<noteq> Some c"
  shows "\<exists>s'. delete_context c (s\<lparr>sv_ctx := (sv_ctx s)(c \<mapsto> x\<lparr>ctx_ref := ctx_ref x - 1\<rparr>)\<rparr>) = Some s' \<and>
    server_inv (held(c := 0)) h s' \<and> grows s s'"
proof -
  obtain ms where v: "views (sv_mq s) c = Some (ctx_handle x, True, ms)" and qx: "ctx_queue x = c"
    using counted_Some(3,4) [OF inv x] by blast
  obtain mq where mq: "mtask_mq_mark_release (sv_mq s) c = Some mq" "queues_inv h mq"
    "views mq = (views (sv_mq s))(c \<mapsto> (ctx_handle x, False, ms))"
    using queues_mark [OF server_invD(2) [OF inv] v] by blast
  define s' where "s' = s\<lparr>sv_mq := mq, sv_ctx := (sv_ctx s)(c := None), sv_total := sv_total s - 1,
      sv_out := sv_out s @ (if ctx_logfile x then [SLogClose c] else []) @ [SInstanceRelease c]\<rparr>"
  have d: "delete_context c (s\<lparr>sv_ctx := (sv_ctx s)(c \<mapsto> x\<lparr>ctx_ref := ctx_ref x - 1\<rparr>)\<rparr>) = Some s'"
    using mq(1) qx by (simp add: delete_context_def s'_def)
  have ch: "ctx_handle_of s' d = ctx_handle_of s d" if "d \<noteq> c" for d
    using that by (simp add: ctx_handle_of_def s'_def)
  have rg: "registered s' = registered s" by (rule ext) (simp add: registered_def s'_def)
  have sel: "sv_ctx s' = (sv_ctx s)(c := None)" "sv_mq s' = mq" "sv_remote s' = sv_remote s"
    by (simp_all add: s'_def)
  have tab: "table_inv (ctx_handle_of s', sv_handles s')"
  proof -
    have "\<forall>i<hs_slot_size (sv_handles s). \<forall>d. hs_slot (sv_handles s) ! i = Some d \<longrightarrow> d \<noteq> c"
      using last(2) server_invD(1) [OF inv] unfolding registered_def table_inv_def hs_shape_def
      by (auto simp: in_set_conv_nth)
    with server_invD(1) [OF inv] ch show ?thesis
      unfolding table_inv_def by (auto simp: s'_def)
  qed
  have lk: "lookup s' handle = Some d \<Longrightarrow> lookup s handle = Some d" for handle d
    using look_eq [OF tab] look_eq [OF server_invD(1) [OF inv]] ch [of d] last(2)
    unfolding lookup_def by (cases "d = c") (auto simp: registered_def s'_def)
  have "server_inv (held(c := 0)) h s'"
  proof (rule server_invI)
    fix d show "counted (held(c := 0)) s' d"
      using server_invD(3) [OF inv, of d] last mq(3)
      by (cases "d = c"; cases "sv_ctx s d") (auto simp: counted_def rg sel)
  next
    fix a handle b ms' d assume v': "views (sv_mq s') a = Some (handle, b, ms')"
    then obtain b ms' where o: "views (sv_mq s) a = Some (handle, b, ms')"
      using mq(3) v by (cases "a = c") (auto simp: s'_def)
    show "handle \<noteq> 0" by (rule server_invD(4) [OF inv o])
    show "d = a" if "lookup s' handle = Some d" using server_invD(5) [OF inv o lk [OF that]] .
  next
    fix d y assume "sv_ctx s' d = Some y" "\<not> ctx_init y" "registered s' d"
    then show "h (3 * d + 2) = Some d"
      using server_invD(6) [OF inv, of d y] rg by (auto simp: s'_def split: if_splits)
  next
    fix d assume "sv_brk s' \<le> d"
    then show "sv_ctx s' d = None \<and> views (sv_mq s') d = None \<and> h (3 * d + 2) = None"
      using server_invD(7) [OF inv, of d] x mq(3) by (cases "d = c") (auto simp: s'_def)
  qed (use server_invD(8,9) [OF inv] mq(2) tab in \<open>simp_all add: s'_def\<close>)
  moreover have "grows s s'" by (auto simp: grows_def s'_def)
  ultimately show ?thesis using d by blast
qed

lemma inv_release:
  assumes inv: "server_inv held h s" and held: "0 < held c"
  shows "\<exists>r s'. mtask_context_release c s = Some (r, s') \<and> server_inv (held(c := held c - 1)) h s' \<and> grows s s' \<and>
    (r = None \<or> r = Some c \<and> (\<exists>x. sv_ctx s' c = Some x))"
proof -
  obtain x where x: "sv_ctx s c = Some x" using held_alive [OF inv held] by blast
  let ?x = "x\<lparr>ctx_ref := ctx_ref x - 1\<rparr>" let ?s = "s\<lparr>sv_ctx := (sv_ctx s)(c \<mapsto> ?x)\<rparr>"
  note cnt = counted_Some [OF inv x]
  show ?thesis
  proof (cases "ctx_ref x = 1")
    case True
    with cnt(1) held have last: "held c = 1" "\<not> registered s c" "sv_remote s \<noteq> Some c"
      by (auto simp: of_bool_def split: if_splits)
    obtain s' where "delete_context c ?s = Some s'" "server_inv (held(c := 0)) h s'" "grows s s'"
      using inv_delete [OF inv x last] by blast
    with True x last show ?thesis by (simp add: mtask_context_release_def upd_ctx_def)
  next
    case False
    with cnt(2) have "ctx_queue ?x = ctx_queue x" "ctx_handle ?x = ctx_handle x" "ctx_init x \<longrightarrow> ctx_init ?x"
      "ctx_ref ?x - int (held c - 1) = ctx_ref x - int (held c)" "0 < ctx_ref ?x" using held by simp_all
    from inv_ctx [OF inv x this] have "server_inv (held(c := held c - 1)) h ?s" "grows s ?s" .
    with False x show ?thesis by (simp add: mtask_context_release_def upd_ctx_def)
  qed
qed

section \<open>Pushing a message\<close>

lemma push_none: "lookup s handle = None \<Longrightarrow> mtask_context_push handle m s = Some (-1, s)"
  by (simp add: mtask_context_push_def handle_grab_def lookup_def look_def)

lemma inv_mq_push:
  assumes inv: "server_inv held h s" and x: "sv_ctx s c = Some x"
  shows "\<exists>mq ms. mtask_mq_push (sv_mq s) c m = Some mq \<and> server_inv held h (s\<lparr>sv_mq := mq\<rparr>) \<and>
    views (sv_mq s) c = Some (ctx_handle x, True, ms) \<and>
    views mq = (views (sv_mq s))(c \<mapsto> (ctx_handle x, True, ms @ [m]))"
proof -
  obtain ms where v: "views (sv_mq s) c = Some (ctx_handle x, True, ms)"
    using counted_Some(4) [OF inv x] by blast
  obtain mq where mq: "mtask_mq_push (sv_mq s) c m = Some mq" "queues_inv h mq"
    "views mq = (views (sv_mq s))(c \<mapsto> (ctx_handle x, True, ms @ [m]))"
    using queues_push [OF server_invD(2) [OF inv] v, of m] by blast
  have "server_inv held h (s\<lparr>sv_mq := mq\<rparr>)"
    by (rule inv_mq [OF inv mq(2)]) (use mq(3) v in \<open>auto split: if_splits\<close>)
  with mq v show ?thesis by blast
qed

lemma push_some:
  assumes inv: "server_inv held h s" and c: "lookup s handle = Some c"
  shows "\<exists>mq ms. mtask_context_push handle m s = Some (0, s\<lparr>sv_mq := mq\<rparr>) \<and> server_inv held h (s\<lparr>sv_mq := mq\<rparr>) \<and>
    views (sv_mq s) c = Some (handle, True, ms) \<and> views mq = (views (sv_mq s))(c \<mapsto> (handle, True, ms @ [m]))"
proof -
  have rg: "registered s c" "ctx_handle_of s c = handle" using c lookup_registered [OF inv] by auto
  obtain x where x: "sv_ctx s c = Some x" using registered_alive [OF inv rg(1)] by blast
  note cnt = counted_Some [OF inv x]
  have hx: "ctx_handle x = handle" using rg(2) x by (simp add: ctx_handle_of_def)
  obtain mq ms where mq: "mtask_mq_push (sv_mq s) c m = Some mq" "server_inv held h (s\<lparr>sv_mq := mq\<rparr>)"
    "views (sv_mq s) c = Some (handle, True, ms)" "views mq = (views (sv_mq s))(c \<mapsto> (handle, True, ms @ [m]))"
    using inv_mq_push [OF inv x, of m] hx by auto
  have g: "handle_grab handle s = Some (Some c, s\<lparr>sv_ctx := (sv_ctx s)(c \<mapsto> x\<lparr>ctx_ref := ctx_ref x + 1\<rparr>)\<rparr>)"
    using c grab_eq [OF x] by (simp add: handle_grab_def lookup_def look_def)
  have same: "(sv_ctx s)(c \<mapsto> x) = sv_ctx s" using x by (simp add: fun_upd_idem)
  have "mtask_context_push handle m s = Some (0, s\<lparr>sv_mq := mq\<rparr>)"
    using g mq(1) cnt(2,3) same by (simp add: mtask_context_push_def mtask_context_release_def upd_ctx_def)
  with mq show ?thesis by blast
qed

text \<open>In one fact: a push never fails, and changes nothing but one queue.\<close>

lemma inv_push:
  assumes inv: "server_inv held h s"
  shows "\<exists>r mq. mtask_context_push handle m s = Some (r, s\<lparr>sv_mq := mq\<rparr>) \<and> server_inv held h (s\<lparr>sv_mq := mq\<rparr>) \<and>
    r = (if lookup s handle = None then -1 else 0)"
proof (cases "lookup s handle")
  case None
  then show ?thesis using push_none [OF None] inv by (intro exI [of _ "-1"] exI [of _ "sv_mq s"]) simp
next
  case (Some c)
  from push_some [OF inv Some, of m] show ?thesis using Some by auto
qed

end
