(* ===== verification/Server_Safe.thy ===== *)
theory Server_Safe
  imports Server_Refs
begin

text \<open>
  Sending, retiring, starting and dispatching keep the invariant of the node: none of them
  fails an assertion, follows a null pointer or uses a context that has been freed, whatever
  the services do that keep the references as they found them (\<open>services_ok\<close>).
\<close>

section \<open>Error messages and sessions\<close>

lemma inv_error:
  assumes inv: "server_inv held h s" and ctx: "\<And>c. ctx = Some c \<Longrightarrow> sv_ctx s c \<noteq> None"
  shows "\<exists>s'. mtask_error ctx text s = Some s' \<and> server_inv held h s' \<and> grows s s' \<and> sv_ctx s' = sv_ctx s"
proof -
  define logger where "logger = (if sv_logger s = 0 then mtask_handle_findname (sv_handles s) (str ''logger'') else sv_logger s)"
  let ?s = "s\<lparr>sv_logger := logger\<rparr>"
  have inv': "server_inv held h ?s" by (rule inv_core [OF inv]) simp_all
  have g: "grows s ?s" by (rule grows_core) simp_all
  show ?thesis
  proof (cases "logger = 0")
    case True
    have "mtask_error ctx text s = Some ?s"
      unfolding mtask_error_def logger_def [symmetric] Let_def using True by simp
    with inv' g show ?thesis by simp
  next
    case False
    obtain source where src: "(case ctx of None \<Rightarrow> Some 0 | Some c \<Rightarrow> map_option ctx_handle (sv_ctx ?s c)) = Some source"
      using ctx by (cases ctx) auto
    define m where "m = \<lparr>msg_source = source, msg_session = 0, msg_data = Some text,
        msg_sz = of_nat (length text) OR push_bit MESSAGE_TYPE_SHIFT (word_of_int PTYPE_TEXT)\<rparr>"
    obtain r mq where p: "mtask_context_push logger m ?s = Some (r, ?s\<lparr>sv_mq := mq\<rparr>)"
      "server_inv held h (?s\<lparr>sv_mq := mq\<rparr>)" using inv_push [OF inv'] by blast
    have "mtask_error ctx text s = Some (?s\<lparr>sv_mq := mq\<rparr>)"
      unfolding mtask_error_def logger_def [symmetric] Let_def src
      using False p(1) by (simp add: m_def)
    moreover have "grows s (?s\<lparr>sv_mq := mq\<rparr>)" by (rule grows_core) simp_all
    ultimately show ?thesis using p(2) by simp
  qed
qed

lemma inv_out: "server_inv held h s \<Longrightarrow> server_inv held h (out_ev e s)"
  by (erule inv_core) (simp_all add: out_ev_def)

lemma grows_out [simp]: "grows s (out_ev e s)"
  by (rule grows_core) (simp_all add: out_ev_def)

lemma inv_newsession:
  assumes inv: "server_inv held h s" and x: "sv_ctx s c = Some x"
  shows "\<exists>v s'. mtask_context_newsession c s = Some (v, s') \<and> server_inv held h s' \<and> grows s s' \<and>
    (\<forall>d. sv_ctx s' d = None \<longleftrightarrow> sv_ctx s d = None) \<and> sv_handles s' = sv_handles s"
proof -
  define v where "v = (if sint (ctx_session_id x + 1) \<le> 0 then 1 else ctx_session_id x + 1)"
  let ?x = "x\<lparr>ctx_session_id := v\<rparr>" let ?s = "s\<lparr>sv_ctx := (sv_ctx s)(c \<mapsto> ?x)\<rparr>"
  have "ctx_queue ?x = ctx_queue x" "ctx_handle ?x = ctx_handle x" "ctx_init x \<longrightarrow> ctx_init ?x"
    "ctx_ref ?x - int (held c) = ctx_ref x - int (held c)" "0 < ctx_ref ?x"
    using counted_Some(2) [OF inv x] by simp_all
  from inv_ctx [OF inv x this] have "server_inv held h ?s" "grows s ?s" by simp_all
  moreover have "mtask_context_newsession c s = Some (v, ?s)"
    using x by (simp add: mtask_context_newsession_def upd_ctx_def v_def Let_def)
  ultimately show ?thesis using x by auto
qed

section \<open>Sending\<close>

text \<open>What a caller of \<open>mtask_send\<close> has to see to.\<close>

definition send_args :: "server \<Rightarrow> ctxid option \<Rightarrow> u32 \<Rightarrow> int \<Rightarrow> u32 \<Rightarrow> byte list option \<Rightarrow> u64 \<Rightarrow> bool" where
  "send_args s ctx source t session data sz \<longleftrightarrow>
     (\<forall>c. ctx = Some c \<longrightarrow> sv_ctx s c \<noteq> None) \<and>
     (source = 0 \<longrightarrow> ctx \<noteq> None) \<and>
     (t AND PTYPE_TAG_ALLOCSESSION \<noteq> 0 \<longrightarrow> session = 0 \<and> ctx \<noteq> None) \<and>
     (\<forall>d. data = Some d \<longrightarrow> t AND PTYPE_TAG_DONTCOPY = 0 \<longrightarrow> unat sz \<le> length d) \<and>
     t AND 0xff \<noteq> PTYPE_SYSTEM \<and> t AND 0xff \<noteq> PTYPE_HARBOR"

lemma inv_filter:
  assumes inv: "server_inv held h s" and ok: "send_args s ctx source t session data sz"
  shows "\<exists>v d s'. filter_args ctx t session data sz s =
      Some (v, d, sz OR push_bit MESSAGE_TYPE_SHIFT (word_of_int (t AND 0xff)), s') \<and>
    server_inv held h s' \<and> grows s s' \<and> (\<forall>c. sv_ctx s' c = None \<longleftrightarrow> sv_ctx s c = None) \<and>
    sv_handles s' = sv_handles s"
proof -
  have dat: "\<exists>d. (case data of
          Some d \<Rightarrow> if t AND PTYPE_TAG_DONTCOPY = 0
                     then (if length d < unat sz then None else Some (Some (take (unat sz) d)))
                     else Some (Some d)
        | None \<Rightarrow> Some None) = Some d"
    using ok by (auto simp: send_args_def split: option.splits)
  show ?thesis
  proof (cases "t AND PTYPE_TAG_ALLOCSESSION = 0")
    case True
    with dat inv show ?thesis by (auto simp: filter_args_def)
  next
    case False
    then obtain c x where c: "ctx = Some c" "session = 0" "sv_ctx s c = Some x"
      using ok by (auto simp: send_args_def)
    obtain v s' where n: "mtask_context_newsession c s = Some (v, s')" "server_inv held h s'" "grows s s'"
      "\<forall>d. sv_ctx s' d = None \<longleftrightarrow> sv_ctx s d = None" "sv_handles s' = sv_handles s"
      using inv_newsession [OF inv c(3)] by blast
    with False c dat show ?thesis by (auto simp: filter_args_def)
  qed
qed

lemma message_type:
  fixes sz :: u64 and t :: int
  assumes "sz AND MESSAGE_TYPE_MASK = sz"
  defines "z \<equiv> sz OR push_bit MESSAGE_TYPE_SHIFT (word_of_int (t AND 0xff))"
  shows "uint (drop_bit MESSAGE_TYPE_SHIFT z) = t AND 0xff" "z AND MESSAGE_TYPE_MASK = sz"
proof -
  have m: "MESSAGE_TYPE_MASK = mask 56" "MESSAGE_TYPE_SHIFT = 56"
    by (simp_all add: MESSAGE_TYPE_MASK_def MESSAGE_TYPE_SHIFT_def mask_eq_exp_minus_1)
  have sz: "bit sz n \<Longrightarrow> n < 56" for n
    using assms(1) unfolding m by (metis bit_and_iff bit_mask_iff)
  have t: "t AND 0xff = take_bit 8 t" by (simp add: take_bit_eq_mask mask_eq_exp_minus_1)
  have d: "drop_bit 56 z = word_of_int (t AND 0xff)"
    unfolding z_def m t by (rule bit_word_eqI) (auto simp: bit_simps dest: sz)
  then show "uint (drop_bit MESSAGE_TYPE_SHIFT z) = t AND 0xff"
    unfolding m d t by (simp add: uint_word_of_int_eq take_bit_take_bit)
  show "z AND MESSAGE_TYPE_MASK = sz"
    unfolding z_def m by (rule bit_word_eqI) (auto simp: bit_simps dest: sz)
qed

lemma inv_harbor_send:
  assumes inv: "server_inv held h s"
    and t: "uint (drop_bit MESSAGE_TYPE_SHIFT (rm_sz m)) \<noteq> PTYPE_SYSTEM"
      "uint (drop_bit MESSAGE_TYPE_SHIFT (rm_sz m)) \<noteq> PTYPE_HARBOR"
  shows "\<exists>s'. mtask_harbor_send m source session s = Some s' \<and> server_inv held h s' \<and> grows s s' \<and>
    sv_ctx s' = sv_ctx s \<and> sv_handles s' = sv_handles s"
proof -
  obtain c where c: "sv_remote s = Some c" using server_invD(9) [OF inv] by blast
  obtain x where x: "sv_ctx s c = Some x"
    using server_invD(3) [OF inv, of c] c by (auto simp: counted_def split: option.splits)
  have q: "ctx_queue x = c" by (rule counted_Some(3) [OF inv x])
  define s1 where "s1 = s\<lparr>sv_brk := sv_brk s + 1,
      sv_rmsg := (sv_rmsg s)(sv_brk s \<mapsto> m\<lparr>rm_sz := rm_sz m AND MESSAGE_TYPE_MASK\<rparr>)\<rparr>"
  have inv1: "server_inv held h s1" by (rule inv_core [OF inv]) (simp_all add: s1_def)
  have x1: "sv_ctx s1 c = Some x" using x by (simp add: s1_def)
  obtain mq where mq: "mtask_mq_push (sv_mq s1) c
      \<lparr>msg_source = source, msg_session = session, msg_data = Some (le64 (of_nat (sv_brk s))),
       msg_sz = 40 OR push_bit MESSAGE_TYPE_SHIFT (word_of_int (uint (drop_bit MESSAGE_TYPE_SHIFT (rm_sz m))))\<rparr> = Some mq"
    "server_inv held h (s1\<lparr>sv_mq := mq\<rparr>)"
    using inv_mq_push [OF inv1 x1] by blast
  have "mtask_harbor_send m source session s = Some (s1\<lparr>sv_mq := mq\<rparr>)"
    using t c mq(1) x q by (simp add: mtask_harbor_send_def mtask_context_send_def s1_def Let_def)
  moreover have "grows s (s1\<lparr>sv_mq := mq\<rparr>)" by (rule grows_core) (simp_all add: s1_def)
  ultimately show ?thesis using mq(2) by (simp add: s1_def)
qed

lemma isremote_some: "server_inv held h s \<Longrightarrow> \<exists>r. mtask_harbor_message_isremote d s = Some r"
  using server_invD(8) [of held h s] by (simp add: mtask_harbor_message_isremote_def Let_def)

lemma source_some:
  assumes "server_inv held h s" "\<And>c. ctx = Some c \<Longrightarrow> sv_ctx s c \<noteq> None" "source = 0 \<Longrightarrow> ctx \<noteq> None"
  shows "\<exists>v. source_of ctx source s = Some v"
  using assms(2,3) by (cases ctx) (auto simp: source_of_def)

lemma inv_context_send:
  assumes inv: "server_inv held h s" and ok: "send_args s ctx source t session data sz"
  shows "\<exists>r s'. mtask_send ctx source destination t session data sz s = Some (r, s') \<and>
    server_inv held h s' \<and> grows s s' \<and> (\<forall>c. sv_ctx s' c = None \<longleftrightarrow> sv_ctx s c = None)"
proof (cases "sz AND MESSAGE_TYPE_MASK = sz")
  case False
  have "\<And>c. ctx = Some c \<Longrightarrow> sv_ctx s c \<noteq> None" using ok by (auto simp: send_args_def)
  from inv_error [OF inv this] obtain s' where e: "mtask_error ctx (str ''The message to '' @
      print_nat 16 (unat destination) @ str '' is too large'') s = Some s'"
    "server_inv held h s'" "grows s s'" "sv_ctx s' = sv_ctx s" by blast
  have "grows s (out_ev (SFree data) s')" using e(3) by (rule grows_trans) simp
  with False e inv_out [OF e(2)] show ?thesis by (simp add: mtask_send_def) (simp add: out_ev_def)
next
  case True
  define z where "z = sz OR push_bit MESSAGE_TYPE_SHIFT (word_of_int (t AND 0xff))"
  obtain v d s1 where f: "filter_args ctx t session data sz s = Some (v, d, z, s1)"
    "server_inv held h s1" "grows s s1" "\<forall>c. sv_ctx s1 c = None \<longleftrightarrow> sv_ctx s c = None"
    using inv_filter [OF inv ok] by (auto simp: z_def)
  have c1: "\<And>c. ctx = Some c \<Longrightarrow> sv_ctx s1 c \<noteq> None" "source = 0 \<Longrightarrow> ctx \<noteq> None"
    using ok f(4) by (auto simp: send_args_def)
  obtain src where src: "source_of ctx source s1 = Some src" using source_some [OF f(2) c1] by blast
  obtain rem where rem: "mtask_harbor_message_isremote destination s1 = Some rem"
    using isremote_some [OF f(2)] by blast
  consider "destination = 0" | "destination \<noteq> 0" "rem" | "destination \<noteq> 0" "\<not> rem" by blast
  then show ?thesis
  proof cases
    case 1
    with True f src show ?thesis by (simp add: mtask_send_def)
  next
    case 2
    let ?m = "\<lparr>rm_name = replicate GLOBALNAME_LENGTH 0, rm_handle = destination, rm_message = d, rm_sz = z\<rparr>"
    have "uint (drop_bit MESSAGE_TYPE_SHIFT (rm_sz ?m)) \<noteq> PTYPE_SYSTEM"
      "uint (drop_bit MESSAGE_TYPE_SHIFT (rm_sz ?m)) \<noteq> PTYPE_HARBOR"
      using message_type(1) [OF True, of t] ok by (simp_all add: z_def send_args_def)
    from inv_harbor_send [OF f(2) this] obtain s2 where s2:
      "mtask_harbor_send ?m src v s1 = Some s2" "server_inv held h s2" "grows s1 s2" "sv_ctx s2 = sv_ctx s1" by blast
    with 2 True f(1,4) src rem grows_trans [OF f(3) s2(3)] show ?thesis by (simp add: mtask_send_def)
  next
    case 3
    let ?m = "\<lparr>msg_source = src, msg_session = v, msg_data = d, msg_sz = z\<rparr>"
    obtain r mq where p: "mtask_context_push destination ?m s1 = Some (r, s1\<lparr>sv_mq := mq\<rparr>)"
      "server_inv held h (s1\<lparr>sv_mq := mq\<rparr>)" using inv_push [OF f(2)] by blast
    have g: "grows s (s1\<lparr>sv_mq := mq\<rparr>)" "grows s (out_ev (SFree d) (s1\<lparr>sv_mq := mq\<rparr>))"
      using f(3) by (auto intro!: grows_trans [OF f(3)] grows_core simp: out_ev_def)
    have e: "mtask_send ctx source destination t session data sz s =
        Some (if r \<noteq> 0 then (-1, out_ev (SFree d) (s1\<lparr>sv_mq := mq\<rparr>)) else (sint v, s1\<lparr>sv_mq := mq\<rparr>))"
      using 3 True f(1) src rem p(1) by (simp add: mtask_send_def)
    show ?thesis
    proof (cases "r = 0")
      case True
      with e g p(2) f(4) show ?thesis by simp
    next
      case False
      with e g inv_out [OF p(2)] f(4) show ?thesis by (simp) (simp add: out_ev_def)
    qed
  qed
qed

section \<open>Retiring\<close>

lemma registered_look: "server_inv held h s \<Longrightarrow> registered s d \<longleftrightarrow> lookup s (ctx_handle_of s d) = Some d"
  using lookup_registered by blast

lemma inv_retire:
  assumes inv: "server_inv held h s"
  shows "\<exists>r s'. handle_retire handle s = Some (r, s') \<and> server_inv held h s' \<and> grows s s' \<and>
    (r = 0 \<longleftrightarrow> lookup s handle = None) \<and> lookup s' handle = None"
proof -
  obtain r hs rel where ret: "mtask_handle_retire (ctx_handle_of s) (sv_handles s) handle = (r, hs, rel)"
    by (cases "mtask_handle_retire (ctx_handle_of s) (sv_handles s) handle") auto
  note all = retire_all [OF server_invD(1) [OF inv] ret]
  define s1 where "s1 = s\<lparr>sv_handles := hs\<rparr>"
  have ch: "ctx_handle_of s1 = ctx_handle_of s" by (rule ext) (simp add: ctx_handle_of_def s1_def)
  have hsl: "sv_handles s1 = hs" by (simp add: s1_def)
  have lk: "lookup s1 = (lookup s)(handle := None)"
    using all by (intro ext) (simp add: lookup_def ch hsl)
  have rel: "rel = lookup s handle" using all by (simp add: lookup_def)
  show ?thesis
  proof (cases rel)
    case None
    then have "hs = sv_handles s"
      using ret by (auto simp: mtask_handle_retire_def Let_def split: option.splits if_splits)
    with None ret all rel inv show ?thesis by (simp add: handle_retire_def)
  next
    case (Some c)
    have "lookup s handle = Some c" using rel Some by simp
    then have c: "registered s c" "ctx_handle_of s c = handle"
      using lookup_registered [OF inv, of handle c] by blast+
    have rg: "registered s1 d \<longleftrightarrow> registered s d \<and> d \<noteq> c" for d
    proof -
      have "registered s1 d \<longleftrightarrow> lookup s1 (ctx_handle_of s1 d) = Some d"
        using look_eq [of "ctx_handle_of s1" hs] all
        by (simp add: registered_def lookup_def hsl ch)
      then show ?thesis
        using registered_look [OF inv, of d] lk ch c \<open>lookup s handle = Some c\<close>
        by (cases "ctx_handle_of s d = handle") auto
    qed
    have cnt: "counted (held(c := held c + 1)) s1 d" for d
      using server_invD(3) [OF inv, of d] rg [of d] c(1)
      by (cases "d = c"; cases "sv_ctx s d") (auto simp: counted_def s1_def)
    have inv1: "server_inv (held(c := held c + 1)) h s1"
    proof (rule server_invI)
      show "table_inv (ctx_handle_of s1, sv_handles s1)" using all ch by (simp add: s1_def)
      show "counted (held(c := held c + 1)) s1 d" for d by (rule cnt)
      fix a k b ms d assume v: "views (sv_mq s1) a = Some (k, b, ms)"
      then show "k \<noteq> 0" using server_invD(4) [OF inv, of a k b ms] by (simp add: s1_def)
      assume "lookup s1 k = Some d"
      then show "d = a"
        using server_invD(5) [OF inv, of a k b ms d] v lk by (auto simp: s1_def split: if_splits)
    next
      fix d x assume "sv_ctx s1 d = Some x" "\<not> ctx_init x" "registered s1 d"
      then show "h (3 * d + 2) = Some d" using server_invD(6) [OF inv, of d x] rg by (simp add: s1_def)
    qed (use server_invD(2,7-9) [OF inv] in \<open>simp_all add: s1_def\<close>)
    obtain q s2 where s2: "mtask_context_release c s1 = Some (q, s2)"
      "server_inv (held(c := held c)) h s2" "grows s1 s2" "q = None \<or> q = Some c \<and> (\<exists>x. sv_ctx s2 c = Some x)"
      using inv_release [OF inv1, of c] by auto
    have inv2: "server_inv held h s2" using s2(2) by simp
    have "grows s s1" by (rule grows_core) (simp_all add: s1_def)
    then have g: "grows s s2" using s2(3) by (rule grows_trans)
    have rt: "handle_retire handle s = Some (r, s2)"
      using ret Some s2(1) by (simp add: handle_retire_def s1_def)
    have hs2: "sv_handles s2 = hs"
      using s2(1) by (auto simp: mtask_context_release_def upd_ctx_def delete_context_def s1_def Let_def
          split: bind_splits if_splits)
    have "lookup s2 handle = None"
    proof (cases "lookup s2 handle")
      case (Some d)
      then have d: "registered s2 d" "ctx_handle_of s2 d = handle" using lookup_registered [OF inv2] by auto
      then obtain y where y: "sv_ctx s2 d = Some y" using registered_alive [OF inv2] by blast
      have "registered s1 d" using d(1) hs2 by (simp add: registered_def s1_def)
      moreover have "ctx_handle_of s1 d = handle"
        using s2(1) y d(2) by (auto simp: mtask_context_release_def upd_ctx_def delete_context_def ctx_handle_of_def
            split: bind_splits if_splits)
      ultimately have "lookup s1 handle = Some d" using lookup_registered [OF inv1] by blast
      then show ?thesis using lk by simp
    qed
    moreover have "r \<noteq> 0" using all Some by simp
    moreover have "lookup s handle \<noteq> None" using \<open>lookup s handle = Some c\<close> by simp
    ultimately show ?thesis using rt inv2 g by (intro exI [of _ r] exI [of _ s2]) simp
  qed
qed

section \<open>Queues of dead services\<close>

lemma inv_drop_messages:
  assumes "handle \<noteq> 0"
  shows "server_inv held h s \<Longrightarrow> \<exists>s'. drop_messages handle ms s = Some s' \<and> server_inv held h s' \<and> grows s s'"
proof (induction ms arbitrary: s)
  case Nil
  then show ?case by simp
next
  case (Cons m ms)
  let ?s = "out_ev (SFree (msg_data m)) s"
  have "send_args ?s None handle PTYPE_ERROR 0 None 0"
    using assms by (simp add: send_args_def PTYPE_ERROR_def PTYPE_TAG_ALLOCSESSION_def PTYPE_SYSTEM_def PTYPE_HARBOR_def)
  from inv_context_send [OF inv_out [OF Cons.prems] this] obtain r s1 where s1:
    "mtask_send None handle (msg_source m) PTYPE_ERROR 0 None 0 ?s = Some (r, s1)"
    "server_inv held h s1" "grows ?s s1" by blast
  from Cons.IH [OF s1(2)] obtain s2 where s2: "drop_messages handle ms s1 = Some s2" "server_inv held h s2" "grows s1 s2"
    by blast
  have "grows s s2" using grows_trans [OF grows_trans [OF grows_out s1(3)] s2(3)] .
  with s1(1) s2 assms show ?case by (simp add: drop_message_def)
qed

lemma inv_release_dead_queue:
  assumes inv: "server_inv held h s" and i: "h i = Some a" and handle: "handle \<noteq> 0"
    and own: "\<And>c. i = 3 * c + 2 \<Longrightarrow> \<not> registered s c"
  shows "\<exists>s'. release_dead_queue a handle s = Some s' \<and> server_inv held (h(i := None)) s' \<and> grows s s'"
proof -
  have "mqs (sv_mq s) a \<noteq> None" using queues_invD(2) [OF server_invD(2) [OF inv] i] .
  then obtain k b ms where v: "views (sv_mq s) a = Some (k, b, ms)"
    by (cases "views (sv_mq s) a") (auto simp: views_None)
  obtain mq where mq: "mtask_mq_release (sv_mq s) a = Some (if b then [] else ms, mq)"
    "queues_inv (h(i := None)) mq" "views mq = (if b then views (sv_mq s) else (views (sv_mq s))(a := None))"
    using queues_finish [OF server_invD(2) [OF inv] i v] by blast
  have "server_inv held (h(i := None)) (s\<lparr>sv_mq := mq\<rparr>)"
  proof (rule inv_mq [OF inv mq(2)])
    fix a' k' b' ms' assume "views mq a' = Some (k', b', ms')"
    then show "\<exists>b ms. views (sv_mq s) a' = Some (k', b, ms)" using mq(3) by (auto split: if_splits)
  next
    fix c k' ms' assume "sv_ctx s c \<noteq> None" "views (sv_mq s) c = Some (k', True, ms')"
    then show "\<exists>ms. views mq c = Some (k', True, ms)" using mq(3) v by (cases "c = a") auto
  next
    fix c x assume "sv_ctx s c = Some x" "\<not> ctx_init x" "registered s c"
    then show "(h(i := None)) (3 * c + 2) = h (3 * c + 2)" using own [of c] by auto
  next
    fix c assume "sv_brk s \<le> c"
    then show "(h(i := None)) (3 * c + 2) = h (3 * c + 2)" using server_invD(7) [OF inv, of c] i by auto
  qed
  from inv_drop_messages [OF handle this, of "if b then [] else ms"] obtain s' where
    "drop_messages handle (if b then [] else ms) (s\<lparr>sv_mq := mq\<rparr>) = Some s'"
    "server_inv held (h(i := None)) s'" "grows (s\<lparr>sv_mq := mq\<rparr>) s'" by blast
  moreover have "grows s (s\<lparr>sv_mq := mq\<rparr>)" by (rule grows_core) simp_all
  ultimately show ?thesis using mq(1) grows_trans by (fastforce simp: release_dead_queue_def)
qed

lemma inv_globalpop:
  assumes inv: "server_inv held h s" and i: "h i = None" "\<And>c. i \<noteq> 3 * c + 2"
  shows "\<exists>r s'. globalmq_pop s = Some (r, s') \<and> server_inv held (h(i := r)) s' \<and> grows s s' \<and> sv_ctx s' = sv_ctx s"
proof -
  obtain r mq where mq: "mtask_globalmq_pop (sv_mq s) = Some (r, mq)" "views mq = views (sv_mq s)"
    "case r of None \<Rightarrow> queues_inv h mq | Some a \<Rightarrow> \<forall>i. h i = None \<longrightarrow> queues_inv (h(i := Some a)) mq"
    using queues_take [OF server_invD(2) [OF inv]] by blast
  have "queues_inv (h(i := r)) mq" using mq(3) i(1) by (cases r) (auto simp: fun_upd_idem)
  then have "server_inv held (h(i := r)) (s\<lparr>sv_mq := mq\<rparr>)"
    by (rule inv_mq [OF inv]) (use mq(2) i(2) in auto)
  with mq(1) show ?thesis by (fastforce simp: globalmq_pop_def grows_core)
qed

section \<open>Dispatching\<close>

text \<open>The services keep the references and the queues as they find them.\<close>

definition services_ok :: "services \<Rightarrow> bool" where
  "services_ok E \<longleftrightarrow>
     (\<forall>held h s c t v src d z. server_inv held h s \<longrightarrow> 0 < held c \<longrightarrow>
        (\<exists>k s'. se_cb E c t v src d z s = Some (k, s') \<and> server_inv held h s' \<and> grows s s')) \<and>
     (\<forall>held h s n c p. server_inv held h s \<longrightarrow> 0 < held c \<longrightarrow>
        (\<exists>k s'. se_init E n c p s = Some (k, s') \<and> server_inv held h s' \<and> grows s s'))"

lemma inv_queue_pop:
  assumes inv: "server_inv held h s" and i: "h i = Some c" "\<And>c. i \<noteq> 3 * c + 2" and x: "sv_ctx s c = Some x"
  shows "\<exists>m s'. queue_pop c s = Some (m, s') \<and> server_inv held (if m = None then h(i := None) else h) s' \<and>
    sv_ctx s' = sv_ctx s \<and> sv_brk s' = sv_brk s"
proof -
  obtain ms where "views (sv_mq s) c = Some (ctx_handle x, True, ms)" using counted_Some(4) [OF inv x] by blast
  then obtain q where q: "mqs (sv_mq s) c = Some q" "mq_release q = 0" "mq_handle q = ctx_handle x"
    by (auto simp: views_Some)
  obtain m q' where p: "mtask_mq_pop q = (m, q')" by (cases "mtask_mq_pop q") auto
  have w: "view_of q' = (ctx_handle x, True, tl (mq_contents q))"
    using mq_pop_view [OF p queues_invD(1) [OF server_invD(2) [OF inv] q(1)]] q by simp
  have v: "views (mq_upd (sv_mq s) c q') = (views (sv_mq s))(c \<mapsto> (ctx_handle x, True, tl (mq_contents q)))"
    by (simp add: view_upd w)
  have o: "views (sv_mq s) c = Some (ctx_handle x, True, mq_contents q)" using q by (auto simp: views_Some)
  have "server_inv held (if m = None then h(i := None) else h) (s\<lparr>sv_mq := mq_upd (sv_mq s) c q'\<rparr>)"
    by (rule inv_mq [OF inv queues_pop [OF server_invD(2) [OF inv] i(1) q(1,2) p]])
      (use v o i(2) in \<open>auto split: if_splits\<close>)
  with q p show ?thesis by (simp add: queue_pop_def)
qed

lemma inv_queue_overload:
  assumes inv: "server_inv held h s" and x: "sv_ctx s c = Some x"
  shows "\<exists>n s'. queue_overload c s = Some (n, s') \<and> server_inv held h s' \<and> sv_ctx s' = sv_ctx s \<and> sv_brk s' = sv_brk s"
proof -
  obtain ms where v: "views (sv_mq s) c = Some (ctx_handle x, True, ms)" using counted_Some(4) [OF inv x] by blast
  then obtain q where q: "mqs (sv_mq s) c = Some q" "view_of q = (ctx_handle x, True, ms)"
    by (auto simp: views_def)
  obtain n q' where p: "mtask_mq_overload q = (n, q')" by (cases "mtask_mq_overload q") auto
  have "view_of q' = view_of q" using p by (auto simp: mtask_mq_overload_def view_flags split: if_splits)
  then have "views (mq_upd (sv_mq s) c q') = views (sv_mq s)"
    using v q by (simp add: view_upd fun_upd_idem)
  moreover have "queues_inv h (mq_upd (sv_mq s) c q')"
    using queues_overload [OF server_invD(2) [OF inv] q(1)] p by simp
  ultimately have "server_inv held h (s\<lparr>sv_mq := mq_upd (sv_mq s) c q'\<rparr>)"
    by (intro inv_mq [OF inv]) simp_all
  with q p show ?thesis by (simp add: queue_overload_def)
qed

lemma grows_init:
  assumes "grows s s'" "server_inv held h s" "sv_ctx s c = Some x" "ctx_init x" "sv_ctx s' c = Some x'"
  shows "ctx_init x'"
proof -
  have "c < sv_brk s" using assms(3) server_invD(7) [OF assms(2), of c] by (cases "sv_brk s \<le> c") auto
  with assms(1,3-5) show ?thesis by (auto simp: grows_def)
qed

lemma inv_dispatch_turn:
  assumes E: "services_ok E" and inv: "server_inv held h s" and c: "0 < held c" "sv_ctx s c = Some x" "ctx_init x"
  shows "\<exists>s'. dispatch_turn E w c c handle m s = Some s' \<and> server_inv held h s' \<and> grows s s'"
proof -
  obtain n s1 where s1: "queue_overload c s = Some (n, s1)" "server_inv held h s1" "sv_ctx s1 = sv_ctx s"
    "sv_brk s1 = sv_brk s" using inv_queue_overload [OF inv c(2)] by blast
  let ?t = "str ''May overload, message queue length = '' @ print_nat 10 n"
  have "\<exists>s2. (if n \<noteq> 0 then mtask_error (Some c) ?t s1 else Some s1) = Some s2 \<and> server_inv held h s2 \<and>
      grows s1 s2 \<and> sv_ctx s2 = sv_ctx s1"
    using inv_error [OF s1(2), of "Some c" ?t] s1(2,3) c(2) by (cases "n = 0") auto
  then obtain s2 where s2: "(if n \<noteq> 0 then mtask_error (Some c) ?t s1 else Some s1) = Some s2"
    "server_inv held h s2" "grows s1 s2" "sv_ctx s2 = sv_ctx s1" by blast
  let ?s3 = "mtask_monitor_trigger w (msg_source m) handle s2"
  have inv3: "server_inv held h ?s3" by (rule inv_core [OF s2(2)]) (simp_all add: mtask_monitor_trigger_def)
  have x3: "sv_ctx ?s3 c = Some x" using s2(4) s1(3) c(2) by (simp add: mtask_monitor_trigger_def)
  have "grows s s1" using s1(3,4) by (intro grows_core) simp_all
  moreover have "grows s2 ?s3" by (rule grows_core) (simp_all add: mtask_monitor_trigger_def)
  ultimately have g3: "grows s ?s3" using s2(3) grows_trans by blast
  have "\<exists>s4. (if ctx_cb x then context_dispatch E w c m ?s3 else Some (out_ev (SFree (msg_data m)) ?s3)) = Some s4 \<and>
      server_inv held h s4 \<and> grows ?s3 s4"
  proof (cases "ctx_cb x")
    case False
    with inv_out [OF inv3] show ?thesis by simp
  next
    case True
    define s4 where "s4 = ?s3\<lparr>sv_current := (sv_current ?s3)(w := ctx_handle x)\<rparr>"
    define sz where "sz = msg_sz m AND MESSAGE_TYPE_MASK"
    define t where "t = uint (drop_bit MESSAGE_TYPE_SHIFT (msg_sz m))"
    define s5 where "s5 = (if ctx_logfile x then
        out_ev (SLogOutput c (msg_source m) t (msg_session m) (msg_data m) sz) s4 else s4)"
    have inv4: "server_inv held h s4" by (rule inv_core [OF inv3]) (simp_all add: s4_def)
    have inv5: "server_inv held h s5" unfolding s5_def using inv4 inv_out by simp
    have g5: "grows ?s3 s5"
      by (rule grows_core) (simp_all add: s5_def s4_def out_ev_def)
    obtain k s6 where s6: "se_cb E c t (msg_session m) (msg_source m) (msg_data m) sz s5 = Some (k, s6)"
      "server_inv held h s6" "grows s5 s6"
      using E inv5 c(1) unfolding services_ok_def by blast
    have "context_dispatch E w c m ?s3 = Some (if k then s6 else out_ev (SFree (msg_data m)) s6)"
      using x3 c(3) s6(1) unfolding context_dispatch_def s5_def s4_def t_def sz_def by (simp add: Let_def)
    moreover have "server_inv held h (if k then s6 else out_ev (SFree (msg_data m)) s6)"
      using s6(2) inv_out by simp
    moreover have "grows ?s3 (if k then s6 else out_ev (SFree (msg_data m)) s6)"
      using grows_trans [OF g5 s6(3)] grows_trans [OF grows_trans [OF g5 s6(3)] grows_out] by simp
    ultimately show ?thesis using True by simp
  qed
  then obtain s4 where s4: "(if ctx_cb x then context_dispatch E w c m ?s3
      else Some (out_ev (SFree (msg_data m)) ?s3)) = Some s4" "server_inv held h s4" "grows ?s3 s4" by blast
  let ?s5 = "mtask_monitor_trigger w 0 0 s4"
  have "dispatch_turn E w c c handle m s = Some ?s5"
    unfolding dispatch_turn_def using s1(1) s2(1) x3 s4(1) by simp
  moreover have "server_inv held h ?s5" by (rule inv_core [OF s4(2)]) (simp_all add: mtask_monitor_trigger_def)
  moreover have "grows s4 ?s5" by (rule grows_core) (simp_all add: mtask_monitor_trigger_def)
  ultimately show ?thesis using grows_trans [OF grows_trans [OF g3 s4(3)]] by blast
qed

lemma inv_dispatch_turns:
  assumes E: "services_ok E" and i: "h i = Some c" "\<And>c. i \<noteq> 3 * c + 2" and c: "0 < held c"
  shows "server_inv held h s \<Longrightarrow> sv_ctx s c = Some x \<Longrightarrow> ctx_init x \<Longrightarrow>
    \<exists>full s'. dispatch_turns E w c c handle n s = Some (full, s') \<and>
      server_inv held (if full then h else h(i := None)) s' \<and> grows s s'"
proof (induction n arbitrary: s x)
  case 0
  then show ?case by (intro exI [of _ True]) simp
next
  case (Suc n)
  obtain m s1 where s1: "queue_pop c s = Some (m, s1)" "server_inv held (if m = None then h(i := None) else h) s1"
    "sv_ctx s1 = sv_ctx s" "sv_brk s1 = sv_brk s" using inv_queue_pop [OF Suc.prems(1) i Suc.prems(2)] by blast
  have g1: "grows s s1" using s1(3,4) by (intro grows_core) simp_all
  show ?case
  proof (cases m)
    case None
    with s1 g1 show ?thesis by (intro exI [of _ False] exI [of _ s1]) (simp del: fun_upd_apply)
  next
    case (Some m')
    then have inv1: "server_inv held h s1" and x1: "sv_ctx s1 c = Some x" using s1 Suc.prems(2) by simp_all
    obtain s2 where s2: "dispatch_turn E w c c handle m' s1 = Some s2" "server_inv held h s2" "grows s1 s2"
      using inv_dispatch_turn [OF E inv1 c x1 Suc.prems(3)] by blast
    obtain x2 where x2: "sv_ctx s2 c = Some x2" using held_alive [OF s2(2) c] by blast
    have "ctx_init x2" using grows_init [OF s2(3) inv1 x1 Suc.prems(3) x2] .
    from Suc.IH [OF s2(2) x2 this] obtain full s3 where s3: "dispatch_turns E w c c handle n s2 = Some (full, s3)"
      "server_inv held (if full then h else h(i := None)) s3" "grows s2 s3" by blast
    have "grows s s3" using grows_trans [OF grows_trans [OF g1 s2(3)] s3(3)] .
    with s1(1) Some s2(1) s3 show ?thesis by simp
  qed
qed

lemma not_creator: "3 * w \<noteq> 3 * c + (2 :: nat)" "3 * w + 1 \<noteq> 3 * c + (2 :: nat)"
  by presburger+

lemma inv_dispatch_leave:
  assumes inv: "server_inv (held(c := Suc (held c))) h s" and w: "h (3 * w) = None"
  shows "\<exists>r s'. dispatch_leave c s = Some (r, s') \<and> server_inv held (h(3 * w := r)) s' \<and> grows s s'"
proof -
  obtain q s1 where s1: "mtask_context_release c s = Some (q, s1)" "server_inv held h s1" "grows s s1"
    using inv_release [OF inv, of c] by auto
  obtain r s2 where s2: "globalmq_pop s1 = Some (r, s2)" "server_inv held (h(3 * w := r)) s2" "grows s1 s2"
    using inv_globalpop [OF s1(2) w not_creator(1)] by blast
  from s1(1) s2 grows_trans [OF s1(3) s2(3)] show ?thesis by (simp add: dispatch_leave_def)
qed

lemma inv_dispatch_next:
  assumes inv: "server_inv (held(c := Suc (held c))) h s" and w: "h (3 * w) = Some c" "h (3 * w + 1) = None"
  shows "\<exists>r s'. dispatch_next c c s = Some (r, s') \<and> server_inv held (h(3 * w := r)) s' \<and> grows s s'"
proof -
  obtain x where x: "sv_ctx s c = Some x" using held_alive [OF inv, of c] by auto
  have q: "ctx_queue x = c" by (rule counted_Some(3) [OF inv x])
  obtain nq s1 where s1: "globalmq_pop s = Some (nq, s1)"
    "server_inv (held(c := Suc (held c))) (h(3 * w + 1 := nq)) s1" "grows s s1"
    using inv_globalpop [OF inv w(2) not_creator(2)] by blast
  define r where "r = (if nq = None then Some c else nq)"
  have "\<exists>s2. (if nq = None then Some s1
             else do { mq \<leftarrow> mtask_globalmq_push (sv_mq s1) c; Some (s1\<lparr>sv_mq := mq\<rparr>) }) = Some s2 \<and>
      server_inv (held(c := Suc (held c))) (h(3 * w := r)) s2 \<and> grows s1 s2"
  proof (cases nq)
    case None
    have "h(3 * w + 1 := nq) = h" "h(3 * w := r) = h" using None w by (auto simp: r_def fun_eq_iff)
    with None s1(2) show ?thesis by simp
  next
    case (Some b)
    let ?h1 = "h(3 * w + 1 := nq)"
    have h1: "?h1 (3 * w) = Some c" using w(1) by simp
    obtain mq where mq: "mtask_globalmq_push (sv_mq s1) c = Some mq" "queues_inv (?h1(3 * w := None)) mq"
      "views mq = views (sv_mq s1)" using queues_putback [OF server_invD(2) [OF s1(2)] h1] by blast
    have "(?h1(3 * w := None)) (3 * w + 1) = Some b" "(?h1(3 * w := None)) (3 * w) = None" using Some by simp_all
    from queues_move [OF mq(2) this] have m: "queues_inv (h(3 * w := r)) mq"
    proof -
      have "(?h1(3 * w := None))(3 * w + 1 := None, 3 * w := Some b) = h(3 * w := r)"
        using w Some by (auto simp: fun_eq_iff r_def)
      then show ?thesis using queues_move [OF mq(2), of "3 * w + 1" b "3 * w"] Some by simp
    qed
    have other: "(h(3 * w := r)) (3 * d + 2) = ?h1 (3 * d + 2)" for d
      using not_creator [of w d] by auto
    have "server_inv (held(c := Suc (held c))) (h(3 * w := r)) (s1\<lparr>sv_mq := mq\<rparr>)"
      by (rule inv_mq [OF s1(2) m]) (use mq(3) other in simp_all)
    moreover have "grows s1 (s1\<lparr>sv_mq := mq\<rparr>)" by (rule grows_core) simp_all
    ultimately show ?thesis using Some mq(1) by simp
  qed
  then obtain s2 where s2: "(if nq = None then Some s1
             else do { mq \<leftarrow> mtask_globalmq_push (sv_mq s1) c; Some (s1\<lparr>sv_mq := mq\<rparr>) }) = Some s2"
    "server_inv (held(c := Suc (held c))) (h(3 * w := r)) s2" "grows s1 s2" by blast
  obtain u s3 where s3: "mtask_context_release c s2 = Some (u, s3)" "server_inv held (h(3 * w := r)) s3" "grows s2 s3"
    using inv_release [OF s2(2), of c] by auto
  have "dispatch_next c c s = Some (r, s3)"
    unfolding dispatch_next_def using x q s1(1) s2(1) s3(1) by (simp add: r_def)
  then show ?thesis using s3(2) grows_trans [OF grows_trans [OF s1(3) s2(3)] s3(3)] by blast
qed

lemma inv_context_dispatch_queue:
  assumes E: "services_ok E" and inv: "server_inv held h s" and w: "h (3 * w) = Some a" "h (3 * w + 1) = None"
  shows "\<exists>r s'. context_dispatch_queue E w a weight s = Some (r, s') \<and> server_inv held (h(3 * w := r)) s' \<and> grows s s'"
proof -
  obtain q where q: "mqs (sv_mq s) a = Some q" using queues_invD(2) [OF server_invD(2) [OF inv] w(1)] by blast
  let ?handle = "mq_handle q"
  have v: "views (sv_mq s) a = Some (?handle, mq_release q = 0, mq_contents q)" using q by (simp add: views_Some)
  have h0: "?handle \<noteq> 0" by (rule server_invD(4) [OF inv v])
  show ?thesis
  proof (cases "lookup s ?handle")
    case None
    then have g: "handle_grab ?handle s = Some (None, s)" by (simp add: handle_grab_def lookup_def look_def)
    obtain s1 where s1: "release_dead_queue a ?handle s = Some s1" "server_inv held (h(3 * w := None)) s1" "grows s s1"
      using inv_release_dead_queue [OF inv w(1) h0] not_creator(1) by blast
    obtain r s2 where s2: "globalmq_pop s1 = Some (r, s2)" "server_inv held (h(3 * w := None, 3 * w := r)) s2" "grows s1 s2"
      using inv_globalpop [OF s1(2) _ not_creator(1), of w] by auto
    from q g s1(1) s2 grows_trans [OF s1(3) s2(3)] show ?thesis
      by (simp add: context_dispatch_queue_def)
  next
    case (Some c)
    have ca: "c = a" by (rule server_invD(5) [OF inv v Some])
    have rg: "registered s a" using Some lookup_registered [OF inv, of ?handle c] ca by blast
    obtain x where x: "sv_ctx s a = Some x" using registered_alive [OF inv rg] by blast
    have init: "ctx_init x"
    proof (rule ccontr)
      assume "\<not> ctx_init x"
      from server_invD(6) [OF inv x this rg] queues_invD(3) [OF server_invD(2) [OF inv] w(1)] not_creator(1)
      show False by metis
    qed
    let ?held = "held(a := Suc (held a))"
    obtain s1 where s1: "mtask_context_grab a s = Some s1" "server_inv ?held h s1" "grows s s1" "sv_mq s1 = sv_mq s"
      using inv_grab [OF inv x] by auto
    have g: "handle_grab ?handle s = Some (Some a, s1)"
      using Some ca s1(1) by (simp add: handle_grab_def lookup_def look_def)
    obtain x1 where x1: "sv_ctx s1 a = Some x1" using held_alive [OF s1(2), of a] by auto
    have i1: "ctx_init x1" by (rule grows_init [OF s1(3) inv x init x1])
    obtain m s2 where s2: "queue_pop a s1 = Some (m, s2)" "server_inv ?held (if m = None then h(3 * w := None) else h) s2"
      "sv_ctx s2 = sv_ctx s1" "sv_brk s2 = sv_brk s1"
      using inv_queue_pop [OF s1(2) w(1) not_creator(1) x1] by blast
    have g2: "grows s s2" using s2(3,4) by (intro grows_trans [OF s1(3)] grows_core) simp_all
    show ?thesis
    proof (cases m)
      case None
      have "server_inv (held(a := Suc (held a))) (h(3 * w := None)) s2" using s2(2) None by simp
      from inv_dispatch_leave [OF this, of w] obtain r s3 where
        s3: "dispatch_leave a s2 = Some (r, s3)" "server_inv held (h(3 * w := r)) s3" "grows s2 s3" by auto
      from q g s2(1) None s3 grows_trans [OF g2 s3(3)] show ?thesis by (simp add: context_dispatch_queue_def)
    next
      case (Some m')
      have inv2: "server_inv ?held h s2" using s2(2) Some by simp
      have x2: "sv_ctx s2 a = Some x1" using s2(3) x1 by simp
      obtain q2 where q2: "mqs (sv_mq s2) a = Some q2"
        using counted_Some(4) [OF inv2 x2] by (auto simp: views_Some)
      define n where "n = (if 0 \<le> weight then mtask_mq_length q2 div 2 ^ nat weight else 1)"
      obtain s3 where s3: "dispatch_turn E w a a ?handle m' s2 = Some s3" "server_inv ?held h s3" "grows s2 s3"
        using inv_dispatch_turn [OF E inv2 _ x2 i1, of w ?handle m'] by auto
      obtain x3 where x3: "sv_ctx s3 a = Some x3" using held_alive [OF s3(2), of a] by auto
      have i3: "ctx_init x3" by (rule grows_init [OF s3(3) inv2 x2 i1 x3])
      obtain full s4 where s4: "dispatch_turns E w a a ?handle (n - 1) s3 = Some (full, s4)"
        "server_inv ?held (if full then h else h(3 * w := None)) s4" "grows s3 s4"
        using inv_dispatch_turns [OF E w(1) not_creator(1) _ s3(2) x3 i3, of w ?handle "n - 1"] by auto
      have g4: "grows s s4" by (rule grows_trans [OF grows_trans [OF g2 s3(3)] s4(3)])
      have "\<exists>r s5. (if full then dispatch_next a a s4 else dispatch_leave a s4) = Some (r, s5) \<and>
          server_inv held (h(3 * w := r)) s5 \<and> grows s4 s5"
      proof (cases full)
        case True
        with s4(2) inv_dispatch_next [OF _ w, of held] show ?thesis by simp
      next
        case False
        with s4(2) inv_dispatch_leave [of held a "h(3 * w := None)" s4 w] show ?thesis by simp
      qed
      then obtain r s5 where s5: "(if full then dispatch_next a a s4 else dispatch_leave a s4) = Some (r, s5)"
        "server_inv held (h(3 * w := r)) s5" "grows s4 s5" by blast
      have "context_dispatch_queue E w a weight s = Some (r, s5)"
        using q g s2(1) Some q2 s3(1) s4(1) s5(1) by (simp add: context_dispatch_queue_def n_def)
      then show ?thesis using s5(2) grows_trans [OF g4 s5(3)] by blast
    qed
  qed
qed

lemma inv_dispatch:
  assumes E: "services_ok E" and inv: "server_inv held h s" and w: "h (3 * w + 1) = None"
  shows "\<exists>r s'. mtask_context_message_dispatch E w (h (3 * w)) weight s = Some (r, s') \<and>
    server_inv held (h(3 * w := r)) s' \<and> grows s s'"
proof (cases "h (3 * w)")
  case (Some a)
  with inv_context_dispatch_queue [OF E inv Some w] show ?thesis by (simp add: mtask_context_message_dispatch_def)
next
  case None
  obtain q s1 where s1: "globalmq_pop s = Some (q, s1)" "server_inv held (h(3 * w := q)) s1" "grows s s1"
    using inv_globalpop [OF inv None not_creator(1)] by blast
  show ?thesis
  proof (cases q)
    case None
    with s1 \<open>h (3 * w) = None\<close> show ?thesis by (simp add: mtask_context_message_dispatch_def)
  next
    case (Some a)
    have "(h(3 * w := q)) (3 * w) = Some a" "(h(3 * w := q)) (3 * w + 1) = None" using Some w by simp_all
    from inv_context_dispatch_queue [OF E s1(2) this] obtain r s2 where
      s2: "context_dispatch_queue E w a weight s1 = Some (r, s2)" "server_inv held (h(3 * w := q, 3 * w := r)) s2" "grows s1 s2" by blast
    with s1(1) Some \<open>h (3 * w) = None\<close> grows_trans [OF s1(3) s2(3)] show ?thesis
      by (simp add: mtask_context_message_dispatch_def)
  qed
qed

end
