(* ===== verification/Server_Node.thy ===== *)
theory Server_Node
  imports Server_Safe
begin

text \<open>
  Starting a service, the clock and the monitor keep the invariant as well, and so does any
  sequence of what the threads of a node do (\<open>node_reach\<close>): the node never crashes. Then what
  sending and dispatching do to the queues.
\<close>

section \<open>Starting a service\<close>

text \<open>
  What the code relies on when it registers a service: the storage is not full, the handle
  is not the reserved one, and no dead service with the same handle still has a queue.
\<close>

definition fresh_handle :: "server \<Rightarrow> bool" where
  "fresh_handle s \<longleftrightarrow>
     (\<exists>handle hs. mtask_handle_register (ctx_handle_of s) (sv_handles s) (sv_brk s) = Some (handle, hs) \<and>
        handle \<noteq> 0 \<and> (\<forall>a b ms. views (sv_mq s) a \<noteq> Some (handle, b, ms)))"

definition new_context :: "ctxid \<Rightarrow> u32 \<Rightarrow> mtask_context" where
  "new_context c handle =
     \<lparr>ctx_cb = False, ctx_queue = c, ctx_logfile = False, ctx_handle = handle, ctx_session_id = 0,
      ctx_ref = 2, ctx_init = False, ctx_endless = False\<rparr>"

definition with_new :: "server \<Rightarrow> u32 \<Rightarrow> handle_storage \<Rightarrow> server" where
  "with_new s handle hs = s\<lparr>sv_brk := sv_brk s + 1, sv_handles := hs,
     sv_ctx := (sv_ctx s)(sv_brk s \<mapsto> new_context (sv_brk s) handle), sv_mq := mq_upd (sv_mq s) (sv_brk s) (mtask_mq_create handle), sv_total := sv_total s + 1\<rparr>"

lemma create_view: "view_of (mtask_mq_create handle) = (handle, True, [])"
  by (simp add: view_of_def mtask_mq_create_def mq_contents_def mtask_mq_length_def)

lemma inv_register:
  assumes inv: "server_inv held h s"
    and reg: "mtask_handle_register (ctx_handle_of s) (sv_handles s) (sv_brk s) = Some (handle, hs)"
    and fresh: "handle \<noteq> 0" "\<And>a b ms. views (sv_mq s) a \<noteq> Some (handle, b, ms)"
  shows "server_inv (held(sv_brk s := 1)) (h(3 * sv_brk s + 2 := Some (sv_brk s))) (with_new s handle hs)"
    and "grows s (with_new s handle hs)"
proof -
  let ?c = "sv_brk s" let ?s = "with_new s handle hs"
  note none = server_invD(7) [OF inv, of ?c, simplified]
  have c0: "\<not> registered s ?c" "sv_remote s \<noteq> Some ?c" "held ?c = 0"
    using server_invD(3) [OF inv, of ?c] none by (simp_all add: counted_def)
  have sel: "sv_ctx ?s = (sv_ctx s)(?c \<mapsto> new_context ?c handle)" "sv_handles ?s = hs" "sv_brk ?s = ?c + 1"
    "sv_mq ?s = mq_upd (sv_mq s) ?c (mtask_mq_create handle)" "sv_remote ?s = sv_remote s" "sv_harbor ?s = sv_harbor s"
    by (simp_all add: with_new_def)
  have ch: "ctx_handle_of ?s = (ctx_handle_of s)(?c := handle)"
    by (rule ext) (simp add: ctx_handle_of_def sel new_context_def)
  have all: "table_inv ((ctx_handle_of s)(?c := handle), hs)" "look (ctx_handle_of s, sv_handles s) handle = None"
    "look ((ctx_handle_of s)(?c := handle), hs) = (look (ctx_handle_of s, sv_handles s))(handle \<mapsto> ?c)"
    using register_all [OF server_invD(1) [OF inv], of ?c] c0(1) reg
    by (auto simp: registered_def split: if_splits)
  have lk: "lookup ?s = (lookup s)(handle \<mapsto> ?c)" and lk0: "lookup s handle = None"
    using all by (auto simp: lookup_def ch sel fun_eq_iff)
  have rg: "registered ?s d \<longleftrightarrow> registered s d \<or> d = ?c" for d
  proof -
    have "registered ?s d \<longleftrightarrow> lookup ?s (ctx_handle_of ?s d) = Some d"
      using look_eq [OF all(1)] by (simp add: registered_def lookup_def ch sel)
    then show ?thesis using registered_look [OF inv, of d] lk lk0 c0(1) ch by (cases "d = ?c") auto
  qed
  have vw: "views (sv_mq ?s) = (views (sv_mq s))(?c \<mapsto> (handle, True, []))"
    by (simp add: sel view_upd create_view)
  show "server_inv (held(?c := 1)) (h(3 * ?c + 2 := Some ?c)) ?s"
  proof (rule server_invI)
    show "table_inv (ctx_handle_of ?s, sv_handles ?s)" using all(1) ch sel by simp
    show "queues_inv (h(3 * ?c + 2 := Some ?c)) (sv_mq ?s)"
      unfolding sel using queues_create [OF server_invD(2) [OF inv]] none by (simp add: views_None)
    fix d show "counted (held(?c := 1)) ?s d"
      using server_invD(3) [OF inv, of d] rg [of d] c0 vw
      by (cases "d = ?c"; cases "sv_ctx s d") (auto simp: counted_def sel(1,5) new_context_def)
  next
    fix a k b ms d assume v: "views (sv_mq ?s) a = Some (k, b, ms)"
    then show "k \<noteq> 0" using vw fresh(1) server_invD(4) [OF inv, of a k b ms] by (auto split: if_splits)
    assume l: "lookup ?s k = Some d"
    show "d = a"
    proof (cases "a = ?c")
      case True
      with v vw l lk show ?thesis by simp
    next
      case False
      then have o: "views (sv_mq s) a = Some (k, b, ms)" using v vw by simp
      then have "k \<noteq> handle" using fresh(2) by auto
      with l lk server_invD(5) [OF inv o] show ?thesis by simp
    qed
  next
    fix d x assume "sv_ctx ?s d = Some x" "\<not> ctx_init x" "registered ?s d"
    then show "(h(3 * ?c + 2 := Some ?c)) (3 * d + 2) = Some d"
      using server_invD(6) [OF inv, of d x] rg sel(1) by (cases "d = ?c") auto
  next
    fix d assume "sv_brk ?s \<le> d"
    then show "sv_ctx ?s d = None \<and> views (sv_mq ?s) d = None \<and> (h(3 * ?c + 2 := Some ?c)) (3 * d + 2) = None"
      using server_invD(7) [OF inv, of d] sel(1,3) vw by auto
  qed (use server_invD(8,9) [OF inv] sel in simp_all)
  show "grows s ?s" by (auto simp: grows_def sel)
qed

lemma inv_new_success:
  assumes inv: "server_inv (held(c := 1)) h s" and c: "h (3 * c + 2) = Some c" "c < sv_brk s" and held: "held c = 0"
  shows "\<exists>ret s1 s2 mq s3. mtask_context_release c s = Some (ret, s1) \<and>
    (case ret of None \<Rightarrow> Some s1 | Some c \<Rightarrow> upd_ctx c (\<lambda>x. x\<lparr>ctx_init := True\<rparr>) s1) = Some s2 \<and>
    mtask_globalmq_push (sv_mq s2) c = Some mq \<and>
    (case ret of None \<Rightarrow> Some (s2\<lparr>sv_mq := mq\<rparr>) | Some c \<Rightarrow> mtask_error (Some c) msg (s2\<lparr>sv_mq := mq\<rparr>)) = Some s3 \<and>
    server_inv held (h(3 * c + 2 := None)) s3 \<and> grows s s3"
proof -
  have hd: "held(c := 0) = held" using held by auto
  obtain ret s1 where s1: "mtask_context_release c s = Some (ret, s1)" "server_inv held h s1" "grows s s1"
    "ret = None \<or> ret = Some c \<and> (\<exists>x. sv_ctx s1 c = Some x)"
    using inv_release [OF inv, of c] by (auto simp: hd)
  have "\<exists>s2. (case ret of None \<Rightarrow> Some s1 | Some c \<Rightarrow> upd_ctx c (\<lambda>x. x\<lparr>ctx_init := True\<rparr>) s1) = Some s2 \<and>
      server_inv held h s2 \<and> grows s1 s2 \<and> (ret \<noteq> None \<longrightarrow> ret = Some c \<and> sv_ctx s2 c \<noteq> None) \<and>
      (\<forall>x. sv_ctx s2 c = Some x \<longrightarrow> ctx_init x \<or> sv_ctx s1 c = Some x \<and> ret = None)"
  proof (cases ret)
    case None
    then show ?thesis using s1(2) by simp
  next
    case (Some c')
    then obtain x where x: "c' = c" "sv_ctx s1 c = Some x" using s1(4) by auto
    let ?x = "x\<lparr>ctx_init := True\<rparr>"
    have "ctx_queue ?x = ctx_queue x" "ctx_handle ?x = ctx_handle x" "ctx_init x \<longrightarrow> ctx_init ?x"
      "ctx_ref ?x - int (held c) = ctx_ref x - int (held c)" "0 < ctx_ref ?x"
      using counted_Some(2) [OF s1(2) x(2)] by simp_all
    from inv_ctx [OF s1(2) x(2) this] show ?thesis using Some x by (simp add: upd_ctx_def)
  qed
  then obtain s2 where s2: "(case ret of None \<Rightarrow> Some s1 | Some c \<Rightarrow> upd_ctx c (\<lambda>x. x\<lparr>ctx_init := True\<rparr>) s1) = Some s2"
    "server_inv held h s2" "grows s1 s2" "ret \<noteq> None \<longrightarrow> ret = Some c \<and> sv_ctx s2 c \<noteq> None"
    "\<forall>x. sv_ctx s2 c = Some x \<longrightarrow> ctx_init x \<or> sv_ctx s1 c = Some x \<and> ret = None" by blast
  have dead: "sv_ctx s1 c = None" if "ret = None"
    using s1(1) that by (auto simp: mtask_context_release_def upd_ctx_def delete_context_def
        split: bind_splits if_splits)
  obtain mq where mq: "mtask_globalmq_push (sv_mq s2) c = Some mq" "queues_inv (h(3 * c + 2 := None)) mq"
    "views mq = views (sv_mq s2)" using queues_putback [OF server_invD(2) [OF s2(2)] c(1)] by blast
  have brk: "c < sv_brk s2" using c(2) s1(3) s2(3) unfolding grows_def by linarith
  have inv3: "server_inv held (h(3 * c + 2 := None)) (s2\<lparr>sv_mq := mq\<rparr>)"
  proof (rule inv_mq [OF s2(2) mq(2)])
    fix d x assume "sv_ctx s2 d = Some x" "\<not> ctx_init x" "registered s2 d"
    then show "(h(3 * c + 2 := None)) (3 * d + 2) = h (3 * d + 2)"
      using s2(5) dead by (cases "d = c") auto
  next
    fix d assume "sv_brk s2 \<le> d"
    then show "(h(3 * c + 2 := None)) (3 * d + 2) = h (3 * d + 2)" using brk by auto
  qed (use mq(3) in auto)
  have g3: "grows s (s2\<lparr>sv_mq := mq\<rparr>)"
    by (intro grows_trans [OF grows_trans [OF s1(3) s2(3)]] grows_core) simp_all
  have "\<exists>s3. (case ret of None \<Rightarrow> Some (s2\<lparr>sv_mq := mq\<rparr>) | Some c \<Rightarrow> mtask_error (Some c) msg (s2\<lparr>sv_mq := mq\<rparr>)) = Some s3 \<and>
      server_inv held (h(3 * c + 2 := None)) s3 \<and> grows (s2\<lparr>sv_mq := mq\<rparr>) s3"
  proof (cases ret)
    case None
    then show ?thesis using inv3 by simp
  next
    case (Some c')
    then have "\<And>d. Some c' = Some d \<Longrightarrow> sv_ctx (s2\<lparr>sv_mq := mq\<rparr>) d \<noteq> None" using s2(4) by simp
    then obtain s3 where "mtask_error (Some c') msg (s2\<lparr>sv_mq := mq\<rparr>) = Some s3"
      "server_inv held (h(3 * c + 2 := None)) s3" "grows (s2\<lparr>sv_mq := mq\<rparr>) s3"
      using inv_error [OF inv3, of "Some c'" msg] by blast
    with Some show ?thesis by simp
  qed
  then obtain s3 where s3: "(case ret of None \<Rightarrow> Some (s2\<lparr>sv_mq := mq\<rparr>) | Some c \<Rightarrow> mtask_error (Some c) msg (s2\<lparr>sv_mq := mq\<rparr>)) = Some s3"
    "server_inv held (h(3 * c + 2 := None)) s3" "grows (s2\<lparr>sv_mq := mq\<rparr>) s3" by blast
  with s1(1) s2(1) mq(1) grows_trans [OF g3 s3(3)] show ?thesis by blast
qed

lemma grows_handle:
  assumes "grows s s'" "server_inv held h s" "sv_ctx s c = Some x" "sv_ctx s' c = Some x'"
  shows "ctx_handle x' = ctx_handle x"
proof -
  have "c < sv_brk s" using assms(3) server_invD(7) [OF assms(2), of c] by (cases "sv_brk s \<le> c") auto
  with assms(1,3,4) show ?thesis by (auto simp: grows_def)
qed

lemma grows_dead:
  assumes "grows s s'" "sv_ctx s c = None" "c < sv_brk s"
  shows "sv_ctx s' c = None"
  using assms by (cases "sv_ctx s' c") (auto simp: grows_def)

lemma inv_new_failure:
  assumes inv: "server_inv (held(c := 1)) h s" and c: "h (3 * c + 2) = Some c" and held: "held c = 0"
  shows "\<exists>s1 x r1 s2 r2 s3 s4. mtask_error (Some c) msg s = Some s1 \<and> sv_ctx s1 c = Some x \<and>
    mtask_context_release c s1 = Some (r1, s2) \<and> handle_retire (ctx_handle x) s2 = Some (r2, s3) \<and>
    release_dead_queue c (ctx_handle x) s3 = Some s4 \<and> server_inv held (h(3 * c + 2 := None)) s4 \<and> grows s s4"
proof -
  have hd: "held(c := 0) = held" using held by auto
  obtain x0 where x0: "sv_ctx s c = Some x0" using held_alive [OF inv, of c] by auto
  then have "\<And>d. Some c = Some d \<Longrightarrow> sv_ctx s d \<noteq> None" by simp
  from inv_error [OF inv this] obtain s1 where s1: "mtask_error (Some c) msg s = Some s1"
    "server_inv (held(c := 1)) h s1" "grows s s1" by blast
  obtain x where x: "sv_ctx s1 c = Some x" using held_alive [OF s1(2), of c] by auto
  have hx: "ctx_handle x \<noteq> 0" using counted_Some(4) [OF s1(2) x] server_invD(4) [OF s1(2)] by blast
  have brk: "c < sv_brk s1" using x server_invD(7) [OF s1(2), of c] by (cases "sv_brk s1 \<le> c") auto
  obtain r1 s2 where s2: "mtask_context_release c s1 = Some (r1, s2)" "server_inv held h s2" "grows s1 s2"
    using inv_release [OF s1(2), of c] by (auto simp: hd)
  obtain r2 s3 where s3: "handle_retire (ctx_handle x) s2 = Some (r2, s3)" "server_inv held h s3" "grows s2 s3"
    "lookup s3 (ctx_handle x) = None" using inv_retire [OF s2(2)] by blast
  have g13: "grows s1 s3" by (rule grows_trans [OF s2(3) s3(3)])
  have nreg: "\<not> registered s3 c"
  proof
    assume rg: "registered s3 c"
    then obtain y where y: "sv_ctx s3 c = Some y" using registered_alive [OF s3(2)] by blast
    have "ctx_handle y = ctx_handle x" by (rule grows_handle [OF g13 s1(2) x y])
    then have "lookup s3 (ctx_handle x) = Some c"
      using lookup_registered [OF s3(2)] rg y by (simp add: ctx_handle_of_def)
    with s3(4) show False by simp
  qed
  have "\<And>d. 3 * c + 2 = 3 * d + 2 \<Longrightarrow> \<not> registered s3 d" using nreg by simp
  from inv_release_dead_queue [OF s3(2) c hx this] obtain s4 where
    "release_dead_queue c (ctx_handle x) s3 = Some s4" "server_inv held (h(3 * c + 2 := None)) s4" "grows s3 s4" by blast
  with s1(1) x s2(1) s3(1) grows_trans [OF grows_trans [OF s1(3) g13]] show ?thesis by blast
qed

lemma inv_new:
  assumes E: "services_ok E" and inv: "server_inv held h s" and fresh: "fresh_handle s"
  shows "\<exists>r s'. mtask_context_new E name param s = Some (r, s') \<and> server_inv held h s' \<and> grows s s'"
proof (cases "\<not> se_query E name \<or> \<not> se_create E name")
  case True
  with inv show ?thesis by (simp add: mtask_context_new_def)
next
  case False
  let ?c = "sv_brk s" let ?h = "h(3 * sv_brk s + 2 := Some (sv_brk s))"
  note none = server_invD(7) [OF inv, of ?c, simplified]
  have held0: "held ?c = 0" using server_invD(3) [OF inv, of ?c] none by (simp add: counted_def)
  have undo: "?h(3 * ?c + 2 := None) = h" using none by (auto simp: fun_eq_iff)
  obtain handle hs where reg: "mtask_handle_register (ctx_handle_of s) (sv_handles s) ?c = Some (handle, hs)"
    "handle \<noteq> 0" "\<And>a b ms. views (sv_mq s) a \<noteq> Some (handle, b, ms)"
    using fresh unfolding fresh_handle_def by blast
  note r = inv_register [OF inv reg]
  let ?s0 = "s\<lparr>sv_brk := ?c + 1, sv_ctx := (sv_ctx s)(?c \<mapsto> new_context ?c 0)\<rparr>"
  have ch0: "ctx_handle_of ?s0 = ctx_handle_of s"
    using none by (intro ext) (simp add: ctx_handle_of_def new_context_def)
  obtain v s1 where s1: "se_init E name ?c param (with_new s handle hs) = Some (v, s1)"
    "server_inv (held(?c := 1)) ?h s1" "grows (with_new s handle hs) s1"
    using E r(1) unfolding services_ok_def by (metis fun_upd_same zero_less_one)
  have g1: "grows s s1" using grows_trans [OF r(2) s1(3)] .
  have start: "mtask_context_new E name param s =
     (if v = 0 then do {
          (ret, s) \<leftarrow> mtask_context_release ?c s1;
          s \<leftarrow> (case ret of None \<Rightarrow> Some s | Some c \<Rightarrow> upd_ctx c (\<lambda>x. x\<lparr>ctx_init := True\<rparr>) s);
          mq \<leftarrow> mtask_globalmq_push (sv_mq s) ?c;
          let s = s\<lparr>sv_mq := mq\<rparr>;
          s \<leftarrow> (case ret of
                 None \<Rightarrow> Some s
               | Some c \<Rightarrow> mtask_error (Some c)
                   (str ''LAUNCH '' @ name @ str '' '' @ (case param of None \<Rightarrow> [] | Some p \<Rightarrow> p)) s);
          Some (ret, s) }
        else do {
          s \<leftarrow> mtask_error (Some ?c) (str ''FAILED launch '' @ name) s1;
          x \<leftarrow> sv_ctx s ?c;
          let handle = ctx_handle x;
          (_, s) \<leftarrow> mtask_context_release ?c s;
          (_, s) \<leftarrow> handle_retire handle s;
          s \<leftarrow> release_dead_queue ?c handle s;
          Some (None, s) })"
    using False reg(1) s1(1) ch0 unfolding mtask_context_new_def
    by (simp add: Let_def new_context_def upd_ctx_def with_new_def)
  have hc: "?h (3 * ?c + 2) = Some ?c" by simp
  show ?thesis
  proof (cases "v = 0")
    case True
    have "?c < sv_brk s1" using s1(3) by (simp add: grows_def with_new_def)
    from inv_new_success [OF s1(2) hc this held0, of "str ''LAUNCH '' @ name @ str '' '' @ (case param of None \<Rightarrow> [] | Some p \<Rightarrow> p)"]
    obtain ret s2 s3 mq s4 where s: "mtask_context_release ?c s1 = Some (ret, s2)"
      "(case ret of None \<Rightarrow> Some s2 | Some c \<Rightarrow> upd_ctx c (\<lambda>x. x\<lparr>ctx_init := True\<rparr>) s2) = Some s3"
      "mtask_globalmq_push (sv_mq s3) ?c = Some mq"
      "(case ret of None \<Rightarrow> Some (s3\<lparr>sv_mq := mq\<rparr>) | Some c \<Rightarrow> mtask_error (Some c)
         (str ''LAUNCH '' @ name @ str '' '' @ (case param of None \<Rightarrow> [] | Some p \<Rightarrow> p)) (s3\<lparr>sv_mq := mq\<rparr>)) = Some s4"
      "server_inv held (?h(3 * ?c + 2 := None)) s4" "grows s1 s4" by blast
    have "mtask_context_new E name param s = Some (ret, s4)"
      unfolding start using True s(1-4) by simp
    then show ?thesis using s(5,6) undo grows_trans [OF g1] by metis
  next
    case False
    from inv_new_failure [OF s1(2) hc held0, of "str ''FAILED launch '' @ name"]
    obtain s2 x r1 s3 r2 s4 s5 where s: "mtask_error (Some ?c) (str ''FAILED launch '' @ name) s1 = Some s2"
      "sv_ctx s2 ?c = Some x" "mtask_context_release ?c s2 = Some (r1, s3)"
      "handle_retire (ctx_handle x) s3 = Some (r2, s4)" "release_dead_queue ?c (ctx_handle x) s4 = Some s5"
      "server_inv held (?h(3 * ?c + 2 := None)) s5" "grows s1 s5" by blast
    have "mtask_context_new E name param s = Some (None, s5)"
      unfolding start using False s(1-5) by simp
    then show ?thesis using s(6,7) undo grows_trans [OF g1] by metis
  qed
qed

end
