(* ===== verification/Server_Command.thy ===== *)
theory Server_Command
  imports Server
begin

text \<open>
  The commands of \<open>mtask-src/mtask_server.c\<close>: what a service asks of the node by name.
  A command gives a string or nothing; a parameter that is the null pointer is \<open>None\<close>.
\<close>

section \<open>Handles as text\<close>

definition id_to_hex :: "u32 \<Rightarrow> byte list" where
  "id_to_hex w = 58 # map (\<lambda>i. let d = unat (drop_bit ((7 - i) * 4) w AND 0xf)
                                 in if d < 10 then of_nat (48 + d) else of_nat (55 + d)) [0..<8]"

definition hex_handle :: "u32 \<Rightarrow> byte list" where
  "hex_handle h = 58 # print_nat 16 (unat h)"

definition tohandle :: "ctxid \<Rightarrow> byte list \<Rightarrow> server \<Rightarrow> (u32 \<times> server) option" where
  "tohandle c param s =
     (if first param = 58 then Some (ucast (strtoul 16 (tl param)), s)
      else if first param = 46 then Some (mtask_handle_findname (sv_handles s) (tl param), s)
      else do {
        s \<leftarrow> mtask_error (Some c) (str ''Can't convert '' @ param @ str '' to handle'') s;
        Some (0, s) })"

definition mtask_queryname :: "ctxid \<Rightarrow> byte list \<Rightarrow> server \<Rightarrow> (u32 \<times> server) option" where
  "mtask_queryname c name s =
     (if first name = 58 then Some (ucast (strtoul 16 (tl name)), s)
      else if first name = 46 then Some (mtask_handle_findname (sv_handles s) (tl name), s)
      else do {
        s \<leftarrow> mtask_error (Some c) (str ''Don't support query global name '' @ name) s;
        Some (0, s) })"

definition mtask_isremote :: "u32 \<Rightarrow> server \<Rightarrow> (bool \<times> nat) option" where
  "mtask_isremote handle s = do {
     r \<leftarrow> mtask_harbor_message_isremote handle s;
     Some (r, unat (drop_bit HANDLE_REMOTE_SHIFT handle)) }"

section \<open>Commands\<close>

text \<open>The result is the string or the null pointer, and the new state.\<close>

type_synonym command = "services \<Rightarrow> ctxid \<Rightarrow> byte list option \<Rightarrow> server \<Rightarrow> (byte list option \<times> server) option"

definition handle_exit :: "ctxid \<Rightarrow> u32 \<Rightarrow> server \<Rightarrow> server option" where
  "handle_exit c handle s = do {
     x \<leftarrow> sv_ctx s c;
     let target = (if handle = 0 then ctx_handle x else handle);
     s \<leftarrow> mtask_error (Some c) (if handle = 0 then str ''KILL self'' else str ''KILL '' @ hex_handle handle) s;
     s \<leftarrow> (if sv_monitor_exit s \<noteq> 0 then
             do { (_, s) \<leftarrow> mtask_send (Some c) target (sv_monitor_exit s) PTYPE_CLIENT 0 None 0 s; Some s }
           else Some s);
     (_, s) \<leftarrow> handle_retire target s;
     Some s }"

text \<open>A negative time is stored as a time far in the future: the test is only for 0.\<close>

definition cmd_timeout :: command where
  "cmd_timeout E c param s = do {
     p \<leftarrow> param;
     (session, s) \<leftarrow> mtask_context_newsession c s;
     x \<leftarrow> sv_ctx s c;
     let (r, T, out) = mtask_timeout (\<lambda>_ _. True) (sv_timer s) (ctx_handle x) (word_of_int (as_int (strtol 10 p))) session;
     s \<leftarrow> (case out of
             None \<Rightarrow> Some (s\<lparr>sv_timer := T\<rparr>)
           | Some (h, m) \<Rightarrow> do { (_, s) \<leftarrow> mtask_context_push h m s; Some s });
     Some (Some (print_int (sint session)), s) }"

definition namehandle :: "u32 \<Rightarrow> byte list \<Rightarrow> server \<Rightarrow> (byte list option \<times> server) option" where
  "namehandle handle name s = do {
     (r, hs) \<leftarrow> mtask_handle_namehandle (sv_handles s) handle name;
     Some (r, s\<lparr>sv_handles := hs\<rparr>) }"

definition cmd_reg :: command where
  "cmd_reg E c param s = do {
     x \<leftarrow> sv_ctx s c;
     case param of
       None \<Rightarrow> Some (Some (hex_handle (ctx_handle x)), s)
     | Some p \<Rightarrow>
         if first p = 0 then Some (Some (hex_handle (ctx_handle x)), s)
         else if first p = 46 then namehandle (ctx_handle x) (tl p) s
         else do {
           s \<leftarrow> mtask_error (Some c) (str ''Can't register global name '' @ p @ str '' in C'') s;
           Some (None, s) } }"

definition cmd_query :: command where
  "cmd_query E c param s = do {
     p \<leftarrow> param;
     if first p = 46 then
       (let handle = mtask_handle_findname (sv_handles s) (tl p)
        in Some (if handle \<noteq> 0 then Some (hex_handle handle) else None, s))
     else Some (None, s) }"

text \<open>
  \<open>sscanf(param, "%s %s", name, handle)\<close>: with fewer than two words the code goes on to read
  an array that was never written.
\<close>

definition cmd_name :: command where
  "cmd_name E c param s = do {
     p \<leftarrow> param;
     (name, rest) \<leftarrow> scan_word p;
     (handle, _) \<leftarrow> scan_word rest;
     if first handle \<noteq> 58 then Some (None, s)
     else
       (let handle_id = ucast (strtoul 16 (tl handle)) in
        if handle_id = 0 then Some (None, s)
        else if first name = 46 then namehandle handle_id (tl name) s
        else do {
          s \<leftarrow> mtask_error (Some c) (str ''Can't set global name '' @ name @ str '' in C'') s;
          Some (None, s) }) }"

definition cmd_now :: command where
  "cmd_now E c param s = Some (Some (print_nat 10 (unat (mtask_gettime (sv_timer s)))), s)"

definition cmd_exit :: command where
  "cmd_exit E c param s = do { s \<leftarrow> handle_exit c 0 s; Some (None, s) }"

definition cmd_kill :: command where
  "cmd_kill E c param s = do {
     p \<leftarrow> param;
     (handle, s) \<leftarrow> tohandle c p s;
     s \<leftarrow> (if handle \<noteq> 0 then handle_exit c handle s else Some s);
     Some (None, s) }"

text \<open>\<open>strsep\<close> with a set of delimiters.\<close>

definition strsep_set :: "byte list \<Rightarrow> byte list option \<Rightarrow> byte list option \<times> byte list option" where
  "strsep_set delim a =
     (case a of
        None \<Rightarrow> (None, None)
      | Some cs \<Rightarrow>
          (let t = takeWhile (\<lambda>x. x \<notin> set delim) cs
           in (Some t, if length t < length cs then Some (drop (length t + 1) cs) else None)))"

definition cmd_launch :: command where
  "cmd_launch E c param s = do {
     p \<leftarrow> param;
     let (md, args) = strsep_set [32, 9, 13, 10] (Some p);
     let (args, _) = strsep_set [13, 10] args;
     name \<leftarrow> md;
     (inst, s) \<leftarrow> mtask_context_new E name args s;
     case inst of
       None \<Rightarrow> Some (None, s)
     | Some i \<Rightarrow> do { x \<leftarrow> sv_ctx s i; Some (Some (id_to_hex (ctx_handle x)), s) } }"

definition cmd_getenv :: command where
  "cmd_getenv E c param s = do { p \<leftarrow> param; Some (sv_env s p, s) }"

text \<open>\<open>mtask_setenv\<close> asserts that the variable is new.\<close>

definition mtask_setenv :: "byte list \<Rightarrow> byte list \<Rightarrow> server \<Rightarrow> server option" where
  "mtask_setenv key v s = (if sv_env s key \<noteq> None then None else Some (s\<lparr>sv_env := (sv_env s)(key \<mapsto> v)\<rparr>))"

definition cmd_setenv :: command where
  "cmd_setenv E c param s = do {
     p \<leftarrow> param;
     let key = takeWhile (\<lambda>x. x \<noteq> 32) p;
     if length key = length p then Some (None, s)
     else do { s \<leftarrow> mtask_setenv key (drop (length key + 1) p) s; Some (None, s) } }"

definition cmd_starttime :: command where
  "cmd_starttime E c param s = Some (Some (print_nat 10 (unat (mtask_gettime_fixsec (sv_timer s)))), s)"

definition cmd_endless :: command where
  "cmd_endless E c param s = do {
     x \<leftarrow> sv_ctx s c;
     if ctx_endless x then do {
       s \<leftarrow> upd_ctx c (\<lambda>x. x\<lparr>ctx_endless := False\<rparr>) s;
       Some (Some [49], s) }
     else Some (None, s) }"

definition cmd_abort :: command where
  "cmd_abort E c param s = do { s \<leftarrow> handle_retireall s; Some (None, s) }"

definition cmd_monitor :: command where
  "cmd_monitor E c param s =
     (case param of
        None \<Rightarrow> Some (if sv_monitor_exit s \<noteq> 0 then Some (hex_handle (sv_monitor_exit s)) else None, s)
      | Some p \<Rightarrow>
          if first p = 0 then Some (if sv_monitor_exit s \<noteq> 0 then Some (hex_handle (sv_monitor_exit s)) else None, s)
          else do {
            (handle, s) \<leftarrow> tohandle c p s;
            Some (None, s\<lparr>sv_monitor_exit := handle\<rparr>) })"

definition cmd_mqlen :: command where
  "cmd_mqlen E c param s = do {
     x \<leftarrow> sv_ctx s c;
     q \<leftarrow> mqs (sv_mq s) (ctx_queue x);
     Some (Some (print_nat 10 (mtask_mq_length q)), s) }"

text \<open>The commands on another service: what is done while its context is referenced.\<close>

definition with_service :: "ctxid \<Rightarrow> byte list \<Rightarrow> (u32 \<Rightarrow> ctxid \<Rightarrow> server \<Rightarrow> server option) \<Rightarrow> server
    \<Rightarrow> (byte list option \<times> server) option" where
  "with_service c p f s = do {
     (handle, s) \<leftarrow> tohandle c p s;
     if handle = 0 then Some (None, s)
     else do {
       (t, s) \<leftarrow> handle_grab handle s;
       case t of
         None \<Rightarrow> Some (None, s)
       | Some t \<Rightarrow> do {
           s \<leftarrow> f handle t s;
           (_, s) \<leftarrow> mtask_context_release t s;
           Some (None, s) } } }"

text \<open>\<open>mtask_log_open\<close> and \<open>mtask_log_close\<close> of mtask_log.c.\<close>

definition mtask_log_open :: "services \<Rightarrow> ctxid \<Rightarrow> u32 \<Rightarrow> server \<Rightarrow> (bool \<times> server) option" where
  "mtask_log_open E c handle s =
     (case sv_env s (str ''logpath'') of
        None \<Rightarrow> Some (False, s)
      | Some logpath \<Rightarrow>
          (let tmp = logpath @ str ''/'' @ print_hex8 handle @ str ''.log'' in
           if se_fopen E tmp then do {
             s \<leftarrow> mtask_error (Some c) (str ''Open log file '' @ tmp) s;
             Some (True, s) }
           else do {
             s \<leftarrow> mtask_error (Some c) (str ''Open log file '' @ tmp @ str '' fail'') s;
             Some (False, s) }))"

definition cmd_logon :: command where
  "cmd_logon E c param s = do {
     p \<leftarrow> param;
     with_service c p (\<lambda>handle t s. do {
       x \<leftarrow> sv_ctx s t;
       if ctx_logfile x then Some s
       else do {
         (f, s) \<leftarrow> mtask_log_open E c handle s;
         if f then do { s \<leftarrow> upd_ctx t (\<lambda>x. x\<lparr>ctx_logfile := True\<rparr>) s; Some (out_ev (SLogOpen t) s) }
         else Some s } }) s }"

definition cmd_logoff :: command where
  "cmd_logoff E c param s = do {
     p \<leftarrow> param;
     with_service c p (\<lambda>handle t s. do {
       x \<leftarrow> sv_ctx s t;
       if ctx_logfile x then do {
         s \<leftarrow> upd_ctx t (\<lambda>x. x\<lparr>ctx_logfile := False\<rparr>) s;
         s \<leftarrow> mtask_error (Some c) (str ''Close log file :'' @ print_hex8 handle) s;
         Some (out_ev (SLogClose t) s) }
       else Some s }) s }"

text \<open>\<open>strtol\<close> with base 0: the prefix of the number tells its base.\<close>

definition strtol0 :: "byte list \<Rightarrow> int" where
  "strtol0 cs =
     (let (neg, ds) = sign_split (dropWhile is_space cs) in
      if hex_prefix ds \<noteq> ds then strtol 16 cs
      else if first ds = 48 then
        (let n = int (fst (digits 8 0 ds)) in if neg then max (- (2 ^ 63)) (- n) else min (2 ^ 63 - 1) n)
      else strtol 10 cs)"

definition cmd_signal :: command where
  "cmd_signal E c param s = do {
     p \<leftarrow> param;
     let rest = dropWhile (\<lambda>x. x \<noteq> 32) p;
     let sig = (if rest = [] then 0 else as_int (strtol0 rest));
     with_service c p (\<lambda>handle t s. Some (out_ev (SSignal t sig) s)) s }"

definition cmd_funcs :: "(byte list \<times> command) list" where
  "cmd_funcs =
     [(str ''TIMEOUT'', cmd_timeout), (str ''REG'', cmd_reg), (str ''QUERY'', cmd_query),
      (str ''NAME'', cmd_name), (str ''NOW'', cmd_now), (str ''EXIT'', cmd_exit),
      (str ''KILL'', cmd_kill), (str ''LAUNCH'', cmd_launch), (str ''GETENV'', cmd_getenv),
      (str ''SETENV'', cmd_setenv), (str ''STARTTIME'', cmd_starttime), (str ''ENDLESS'', cmd_endless),
      (str ''ABORT'', cmd_abort), (str ''MONITOR'', cmd_monitor), (str ''MQLEN'', cmd_mqlen),
      (str ''LOGON'', cmd_logon), (str ''LOGOFF'', cmd_logoff), (str ''SIGNAL'', cmd_signal)]"

definition mtask_command :: "services \<Rightarrow> ctxid \<Rightarrow> byte list \<Rightarrow> byte list option \<Rightarrow> server
    \<Rightarrow> (byte list option \<times> server) option" where
  "mtask_command E c cmd param s =
     (case map_of cmd_funcs cmd of None \<Rightarrow> Some (None, s) | Some f \<Rightarrow> f E c param s)"

end
