(* ===== verification/Server_Run.thy ===== *)
theory Server_Run
  imports Server_Node Server_Command
begin

text \<open>
  The life of a node: what its worker, timer and monitor threads do, one after the other,
  and that it never crashes (\<open>node_never_crashes\<close>); what sending, dispatching, aborting and
  numbering sessions do; the handles that commands print and read back.
\<close>

section \<open>The end of all services\<close>

definition filled :: "server \<Rightarrow> nat" where
  "filled s = length (filter (\<lambda>x. x \<noteq> None) (hs_slot (sv_handles s)))"

lemma filled_update:
  "i < length xs \<Longrightarrow> xs ! i \<noteq> None \<Longrightarrow>
   Suc (length (filter (\<lambda>x. x \<noteq> None) (xs[i := None]))) = length (filter (\<lambda>x. x \<noteq> None) xs)"
proof (induction xs arbitrary: i)
  case (Cons x xs)
  then show ?case by (cases i) auto
qed simp

lemma release_handles: "mtask_context_release c s = Some (r, s') \<Longrightarrow> sv_handles s' = sv_handles s"
  by (auto simp: mtask_context_release_def upd_ctx_def delete_context_def split: bind_splits if_splits)

lemma retire_filled:
  assumes inv: "server_inv held h s" and r: "handle_retire handle s = Some (r, s')"
  shows "filled s = filled s' + (if r = 0 then 0 else 1)"
    and "hs_slot_size (sv_handles s') = hs_slot_size (sv_handles s)"
    and "r = 0 \<Longrightarrow> s' = s"
proof -
  let ?ch = "ctx_handle_of s" let ?H = "sv_handles s" let ?i = "slot_hash (hs_slot_size ?H) handle"
  have shape: "?i < length (hs_slot ?H)"
    using slot_hash_bound [of ?H handle] server_invD(1) [OF inv] by (auto simp: table_inv_def hs_shape_def)
  have "(filled s = filled s' + (if r = 0 then 0 else 1)) \<and> hs_slot_size (sv_handles s') = hs_slot_size ?H \<and> (r = 0 \<longrightarrow> s' = s)"
  proof (cases "\<exists>c. hs_slot ?H ! ?i = Some c \<and> ?ch c = handle")
    case False
    then have "mtask_handle_retire ?ch ?H handle = (0, ?H, None)"
      by (auto simp: mtask_handle_retire_def Let_def split: option.splits)
    with r show ?thesis by (simp add: handle_retire_def)
  next
    case True
    then obtain c where c: "hs_slot ?H ! ?i = Some c" "?ch c = handle" by blast
    then have "\<exists>hs. mtask_handle_retire ?ch ?H handle = (1, hs, Some c) \<and> hs_slot hs = (hs_slot ?H)[?i := None] \<and>
        hs_slot_size hs = hs_slot_size ?H"
      by (simp add: mtask_handle_retire_def Let_def)
    then obtain hs where hs: "mtask_handle_retire ?ch ?H handle = (1, hs, Some c)"
      "hs_slot hs = (hs_slot ?H)[?i := None]" "hs_slot_size hs = hs_slot_size ?H" by blast
    with r obtain q where q: "mtask_context_release c (s\<lparr>sv_handles := hs\<rparr>) = Some (q, s')" "r = 1"
      by (auto simp: handle_retire_def split: bind_splits)
    have "sv_handles s' = hs" using release_handles [OF q(1)] by simp
    with filled_update [OF shape] c(1) hs q(2) show ?thesis by (simp add: filled_def)
  qed
  then show "filled s = filled s' + (if r = 0 then 0 else 1)"
    "hs_slot_size (sv_handles s') = hs_slot_size (sv_handles s)" "r = 0 \<Longrightarrow> s' = s" by blast+
qed

lemma slot_handle:
  assumes inv: "server_inv held h s" and c: "i < length (hs_slot (sv_handles s))" "hs_slot (sv_handles s) ! i = Some c"
  shows "ctx_handle_of s c \<noteq> 0" "lookup s (ctx_handle_of s c) = Some c"
proof -
  have rg: "registered s c" using c by (auto simp: registered_def in_set_conv_nth)
  then show "lookup s (ctx_handle_of s c) = Some c" using registered_look [OF inv] by blast
  obtain x where x: "sv_ctx s c = Some x" using registered_alive [OF inv rg] by blast
  then show "ctx_handle_of s c \<noteq> 0"
    using counted_Some(4) [OF inv x] server_invD(4) [OF inv] by (auto simp: ctx_handle_of_def)
qed

lemma inv_retire_slots:
  "server_inv held h s \<Longrightarrow> \<forall>i\<in>set is. i < hs_slot_size (sv_handles s) \<Longrightarrow>
   \<exists>m s'. retire_slots is n s = Some (n + m, s') \<and> server_inv held h s' \<and> grows s s' \<and>
     filled s = filled s' + m \<and> hs_slot_size (sv_handles s') = hs_slot_size (sv_handles s) \<and>
     (m = 0 \<longrightarrow> s' = s \<and> (\<forall>i\<in>set is. hs_slot (sv_handles s) ! i = None))"
proof (induction "is" arbitrary: n s)
  case Nil
  then show ?case by simp
next
  case (Cons i "is")
  note inv = Cons.prems(1)
  have il: "i < length (hs_slot (sv_handles s))"
    using Cons.prems(2) server_invD(1) [OF inv] by (simp add: table_inv_def hs_shape_def)
  show ?case
  proof (cases "hs_slot (sv_handles s) ! i")
    case None
    with Cons.IH [OF inv, of n] Cons.prems(2) show ?thesis by auto
  next
    case (Some c)
    let ?handle = "ctx_handle_of s c"
    note nz = slot_handle [OF inv il Some]
    obtain r s1 where s1: "handle_retire ?handle s = Some (r, s1)" "server_inv held h s1" "grows s s1"
      "r = 0 \<longleftrightarrow> lookup s ?handle = None" using inv_retire [OF inv] by blast
    have r: "r \<noteq> 0" using s1(4) nz(2) by simp
    note f = retire_filled [OF inv s1(1)]
    have "\<forall>i\<in>set is. i < hs_slot_size (sv_handles s1)" using Cons.prems(2) f(2) by simp
    from Cons.IH [OF s1(2) this, of "n + 1"] obtain m s2 where s2:
      "retire_slots is (n + 1) s1 = Some (n + 1 + m, s2)" "server_inv held h s2" "grows s1 s2" "filled s1 = filled s2 + m"
      "hs_slot_size (sv_handles s2) = hs_slot_size (sv_handles s1)" by blast
    have "retire_slots (i # is) n s = Some (n + Suc m, s2)"
      using Some nz(1) s1(1) r s2(1) by simp
    with s2 f r grows_trans [OF s1(3) s2(3)] show ?thesis
      by (intro exI [of _ "Suc m"] exI [of _ s2]) simp
  qed
qed

lemma inv_retireall_loop:
  "server_inv held h s \<Longrightarrow> filled s < fuel \<Longrightarrow>
   \<exists>s'. retireall_loop fuel s = Some s' \<and> server_inv held h s' \<and> grows s s' \<and> (\<forall>c. \<not> registered s' c)"
proof (induction fuel arbitrary: s)
  case 0
  then show ?case by simp
next
  case (Suc fuel)
  note inv = Suc.prems(1)
  let ?is = "[0..<hs_slot_size (sv_handles s)]"
  obtain m s1 where s1: "retire_slots ?is 0 s = Some (m, s1)" "server_inv held h s1" "grows s s1" "filled s = filled s1 + m"
    "m = 0 \<longrightarrow> s1 = s \<and> (\<forall>i\<in>set ?is. hs_slot (sv_handles s) ! i = None)"
    using inv_retire_slots [OF inv, of ?is 0] by auto
  show ?case
  proof (cases "m = 0")
    case True
    have "length (hs_slot (sv_handles s)) = hs_slot_size (sv_handles s)"
      using server_invD(1) [OF inv] by (simp add: table_inv_def hs_shape_def)
    then have "\<not> registered s1 c" for c
      using s1(5) True by (auto simp: registered_def in_set_conv_nth)
    with True s1 show ?thesis by simp
  next
    case False
    then have "filled s1 < fuel" using s1(4) Suc.prems(2) by linarith
    from Suc.IH [OF s1(2) this] obtain s2 where "retireall_loop fuel s1 = Some s2" "server_inv held h s2"
      "grows s1 s2" "\<forall>c. \<not> registered s2 c" by blast
    with False s1(1) grows_trans [OF s1(3)] show ?thesis by auto
  qed
qed

lemma inv_retireall:
  assumes "server_inv held h s"
  shows "\<exists>s'. handle_retireall s = Some s' \<and> server_inv held h s' \<and> grows s s' \<and> (\<forall>c. \<not> registered s' c)"
proof -
  have "filled s < hs_slot_size (sv_handles s) + 1"
    using server_invD(1) [OF assms] length_filter_le [of "\<lambda>x. x \<noteq> None" "hs_slot (sv_handles s)"]
    by (simp add: filled_def table_inv_def hs_shape_def)
  from inv_retireall_loop [OF assms this] show ?thesis by (simp add: handle_retireall_def)
qed

section \<open>The clock and the monitor\<close>

lemma inv_push_all: "server_inv held h s \<Longrightarrow> \<exists>s'. push_all ms s = Some s' \<and> server_inv held h s' \<and> grows s s'"
proof (induction ms arbitrary: s)
  case Nil
  then show ?case by simp
next
  case (Cons m ms)
  obtain r mq where p: "mtask_context_push (fst m) (snd m) s = Some (r, s\<lparr>sv_mq := mq\<rparr>)"
    "server_inv held h (s\<lparr>sv_mq := mq\<rparr>)" using inv_push [OF Cons.prems] by blast
  from Cons.IH [OF p(2)] obtain s' where s': "push_all ms (s\<lparr>sv_mq := mq\<rparr>) = Some s'" "server_inv held h s'"
    "grows (s\<lparr>sv_mq := mq\<rparr>) s'" by blast
  have "grows s (s\<lparr>sv_mq := mq\<rparr>)" by (rule grows_core) simp_all
  with p(1) s' grows_trans show ?case by (cases m) fastforce
qed

lemma inv_updatetime:
  assumes inv: "server_inv held h s"
  shows "\<exists>s'. server_updatetime cp s = Some s' \<and> server_inv held h s' \<and> grows s s'"
proof -
  obtain T out late where u: "mtask_updatetime cp (sv_timer s) = (T, out, late)"
    by (cases "mtask_updatetime cp (sv_timer s)") auto
  define msg where "msg = str ''time diff error: change from '' @ print_int (sint cp) @
               str '' to '' @ print_int (sint (tm_current_point (sv_timer s)))"
  have "\<exists>s1. (if late then mtask_error None msg s else Some s) = Some s1 \<and> server_inv held h s1 \<and> grows s s1"
    using inv_error [OF inv, of None msg] inv by (cases late) auto
  then obtain s1 where s1: "(if late then mtask_error None msg s else Some s) = Some s1" "server_inv held h s1" "grows s s1"
    by blast
  have inv2: "server_inv held h (s1\<lparr>sv_timer := T\<rparr>)" by (rule inv_core [OF s1(2)]) simp_all
  from inv_push_all [OF inv2] obtain s2 where s2: "push_all (concat out) (s1\<lparr>sv_timer := T\<rparr>) = Some s2"
    "server_inv held h s2" "grows (s1\<lparr>sv_timer := T\<rparr>) s2" by blast
  have "grows s1 (s1\<lparr>sv_timer := T\<rparr>)" by (rule grows_core) simp_all
  with grows_trans [OF grows_trans [OF s1(3)] s2(3)] have "grows s s2" by blast
  moreover have "server_updatetime cp s = Some s2"
    unfolding server_updatetime_def u Let_def prod.case msg_def [symmetric] s1(1) using s2(1) by simp
  ultimately show ?thesis using s2(2) by blast
qed

lemma inv_endless:
  assumes inv: "server_inv held h s"
  shows "\<exists>s'. mtask_context_endless handle s = Some s' \<and> server_inv held h s' \<and> grows s s'"
proof (cases "lookup s handle")
  case None
  then show ?thesis using inv by (simp add: mtask_context_endless_def handle_grab_def lookup_def look_def)
next
  case (Some c)
  then have "registered s c" using lookup_registered [OF inv, of handle c] by blast
  then obtain x where x: "sv_ctx s c = Some x" using registered_alive [OF inv] by blast
  obtain s1 where s1: "mtask_context_grab c s = Some s1" "server_inv (held(c := held c + 1)) h s1" "grows s s1"
    using inv_grab [OF inv x] by blast
  obtain y where y: "sv_ctx s1 c = Some y" using held_alive [OF s1(2), of c] by auto
  let ?y = "y\<lparr>ctx_endless := True\<rparr>" let ?s = "s1\<lparr>sv_ctx := (sv_ctx s1)(c \<mapsto> ?y)\<rparr>"
  have "ctx_queue ?y = ctx_queue y" "ctx_handle ?y = ctx_handle y" "ctx_init y \<longrightarrow> ctx_init ?y"
    "ctx_ref ?y - int (held c + 1) = ctx_ref y - int ((held(c := held c + 1)) c)" "0 < ctx_ref ?y"
    using counted_Some(2) [OF s1(2) y] by simp_all
  from inv_ctx [OF s1(2) y this] have s2: "server_inv (held(c := held c + 1)) h ?s" "grows s1 ?s"
    by (simp_all only: fun_upd_upd)
  obtain q s3 where s3: "mtask_context_release c ?s = Some (q, s3)" "server_inv held h s3" "grows ?s s3"
    using inv_release [OF s2(1), of c] by auto
  have "mtask_context_endless handle s = Some s3"
    using Some s1(1) y s3(1) by (simp add: mtask_context_endless_def handle_grab_def lookup_def look_def upd_ctx_def)
  then show ?thesis using s3(2) grows_trans [OF grows_trans [OF s1(3) s2(2)] s3(3)] by blast
qed

lemma inv_monitor_check:
  assumes inv: "server_inv held h s"
  shows "\<exists>s'. mtask_monitor_check w s = Some s' \<and> server_inv held h s' \<and> grows s s'"
proof -
  let ?m = "sv_monitors s w"
  consider "mo_version ?m \<noteq> mo_check_version ?m" | "mo_version ?m = mo_check_version ?m" "mo_destination ?m = 0"
    | "mo_version ?m = mo_check_version ?m" "mo_destination ?m \<noteq> 0" by blast
  then show ?thesis
  proof cases
    case 1
    let ?s = "s\<lparr>sv_monitors := (sv_monitors s)(w := ?m\<lparr>mo_check_version := mo_version ?m\<rparr>)\<rparr>"
    have "server_inv held h ?s" by (rule inv_core [OF inv]) simp_all
    moreover have "grows s ?s" by (rule grows_core) simp_all
    ultimately show ?thesis using 1 by (simp add: mtask_monitor_check_def Let_def)
  next
    case 2
    then show ?thesis using inv by (simp add: mtask_monitor_check_def Let_def)
  next
    case 3
    obtain s1 where s1: "mtask_context_endless (mo_destination ?m) s = Some s1" "server_inv held h s1" "grows s s1"
      using inv_endless [OF inv] by blast
    obtain s2 where "mtask_error None (str ''A message from [ :'' @ print_hex8 (mo_source ?m) @ str '' ] to [ :'' @
        print_hex8 (mo_destination ?m) @ str '' ] maybe in an endless loop (version = '' @
        print_int (sint (mo_version ?m)) @ str '')'') s1 = Some s2" "server_inv held h s2" "grows s1 s2"
      using inv_error [OF s1(2), of None] by blast
    with 3 s1(1) grows_trans [OF s1(3)] show ?thesis by (fastforce simp: mtask_monitor_check_def Let_def)
  qed
qed

section \<open>The node\<close>

text \<open>
  What the threads do between two moments at which no code of the node runs: a worker
  dispatches a queue (and keeps the next in its hand), a service is started from outside, the
  timer thread follows the clock, the monitor thread looks after a worker, a service is
  retired. The node starts with its harbor service.
\<close>

inductive node_reach :: "services \<Rightarrow> hands \<Rightarrow> server \<Rightarrow> bool" for E where
  start: "server_inv (\<lambda>_. 0) (\<lambda>_. None) s \<Longrightarrow> node_reach E (\<lambda>_. None) s"
| dispatch: "node_reach E h s \<Longrightarrow> mtask_context_message_dispatch E w (h (3 * w)) weight s = Some (q, s') \<Longrightarrow>
    node_reach E (h(3 * w := q)) s'"
| launch: "node_reach E h s \<Longrightarrow> fresh_handle s \<Longrightarrow> mtask_context_new E name param s = Some (r, s') \<Longrightarrow>
    node_reach E h s'"
| tick: "node_reach E h s \<Longrightarrow> server_updatetime cp s = Some s' \<Longrightarrow> node_reach E h s'"
| check: "node_reach E h s \<Longrightarrow> mtask_monitor_check w s = Some s' \<Longrightarrow> node_reach E h s'"
| retire: "node_reach E h s \<Longrightarrow> handle_retire handle s = Some (v, s') \<Longrightarrow> node_reach E h s'"

lemma node_reach_inv:
  assumes E: "services_ok E"
  shows "node_reach E h s \<Longrightarrow> server_inv (\<lambda>_. 0) h s \<and> (\<forall>w. h (3 * w + 1) = None)"
proof (induction rule: node_reach.induct)
  case (start s)
  then show ?case by simp
next
  case (dispatch h s w weight q s')
  then have w: "h (3 * w + 1) = None" by blast
  from inv_dispatch [OF E conjunct1 [OF dispatch.IH] w, of weight] dispatch.hyps(2)
  have "server_inv (\<lambda>_. 0) (h(3 * w := q)) s'" by auto
  moreover have "(h(3 * w := q)) (3 * v + 1) = None" for v
  proof -
    have "3 * v + 1 \<noteq> 3 * w" by presburger
    then show ?thesis using dispatch.IH by simp
  qed
  ultimately show ?case by blast
next
  case (launch h s name param r s')
  with inv_new [OF E conjunct1 [OF launch.IH], of name param] show ?case by auto
next
  case (tick h s cp s')
  with inv_updatetime [OF conjunct1 [OF tick.IH], of cp] show ?case by auto
next
  case (check h s w s')
  with inv_monitor_check [OF conjunct1 [OF check.IH], of w] show ?case by auto
next
  case (retire h s handle v s')
  with inv_retire [OF conjunct1 [OF retire.IH], of handle] show ?case by auto
qed


text \<open>
  C5. Between the operations a context exists exactly while it is registered under its handle
  or is the harbor of the node, its reference count says just that, and its queue exists and
  is not marked for release: none is leaked and none is freed too early.
\<close>

theorem context_refs_exact:
  assumes "services_ok E" "node_reach E h s"
  shows "(sv_ctx s c \<noteq> None \<longleftrightarrow> registered s c \<or> sv_remote s = Some c) \<and>
    (\<forall>x. sv_ctx s c = Some x \<longrightarrow>
       ctx_ref x = of_bool (registered s c) + of_bool (sv_remote s = Some c) \<and>
       (\<exists>q. mqs (sv_mq s) (ctx_queue x) = Some q \<and> mq_handle q = ctx_handle x \<and> mq_release q = 0))"
proof -
  have inv: "server_inv (\<lambda>_. 0) h s" using node_reach_inv [OF assms] by blast
  show ?thesis
  proof (cases "sv_ctx s c")
    case None
    with server_invD(3) [OF inv, of c] show ?thesis by (simp add: counted_def)
  next
    case (Some x)
    note cnt = counted_Some [OF inv Some]
    from cnt(1,2) have "registered s c \<or> sv_remote s = Some c" by (auto simp: of_bool_def split: if_splits)
    with cnt Some show ?thesis by (auto simp: views_Some)
  qed
qed


section \<open>An example node\<close>

text \<open>Services that answer every message with an empty one.\<close>

definition echo_services :: services where
  "echo_services = \<lparr>se_query = (\<lambda>_. True), se_create = (\<lambda>_. True), se_init = (\<lambda>_ _ _ s. Some (0, s)),
     se_cb = (\<lambda>c t session source d z s.
        do { (r, s) \<leftarrow> mtask_send (Some c) 0 source 1 session None 0 s; Some (False, s) }),
     se_fopen = (\<lambda>_. False)\<rparr>"

lemma echo_ok: "services_ok echo_services"
  unfolding services_ok_def
proof (intro conjI allI impI)
  fix held h s c t v src d z
  assume inv: "server_inv held h s" and c: "0 < held c"
  have "sv_ctx s c \<noteq> None" using held_alive [OF inv c] by blast
  then have "send_args s (Some c) 0 1 v None 0"
    by (simp add: send_args_def PTYPE_TAG_ALLOCSESSION_def PTYPE_SYSTEM_def PTYPE_HARBOR_def)
  from inv_context_send [OF inv this] obtain r s' where "mtask_send (Some c) 0 src 1 v None 0 s = Some (r, s')"
    "server_inv held h s'" "grows s s'" by blast
  then show "\<exists>k s'. se_cb echo_services c t v src d z s = Some (k, s') \<and> server_inv held h s' \<and> grows s s'"
    by (intro exI [of _ False] exI [of _ s']) (simp add: echo_services_def)
qed (simp_all add: echo_services_def)

text \<open>The node 1 with its harbor service, the context 0.\<close>

definition example_node :: server where
  "example_node = \<lparr>
     sv_ctx = [0 \<mapsto> (new_context 0 0x01000001)\<lparr>ctx_init := True, ctx_cb := True\<rparr>],
     sv_handles = (mtask_handle_init 1)\<lparr>hs_slot := [None, Some 0, None, None], hs_handle_index := 2\<rparr>,
     sv_mq = mq_upd mtask_mq_init 0 ((mtask_mq_create 0x01000001)\<lparr>mq_in_global := 0\<rparr>),
     sv_timer = timer_create_timer, sv_total = 0, sv_monitor_exit = 0, sv_harbor = 0x01000000,
     sv_remote = Some 0, sv_rmsg = (\<lambda>_. None), sv_logger = 0, sv_env = (\<lambda>_. None),
     sv_monitors = (\<lambda>_. \<lparr>mo_version = 0, mo_check_version = 0, mo_source = 0, mo_destination = 0\<rparr>),
     sv_current = (\<lambda>_. 0), sv_brk = 1, sv_out = []\<rparr>"

lemma example_queues: "queues_inv (\<lambda>_. None) (sv_mq example_node)"
proof -
  have "sched_inv \<lparr>sc_mq = sv_mq example_node, sc_hand = (\<lambda>_. None)\<rparr> []"
  proof (rule sched_invI)
    show "glist (sc_mq \<lparr>sc_mq = sv_mq example_node, sc_hand = (\<lambda>_. None)\<rparr>) []"
      by (simp add: glist_def example_node_def mq_upd_def mtask_mq_init_def)
  next
    fix a q assume "mqs (sc_mq \<lparr>sc_mq = sv_mq example_node, sc_hand = (\<lambda>_. None)\<rparr>) a = Some q"
    then have "q = (mtask_mq_create 0x01000001)\<lparr>mq_in_global := 0\<rparr>"
      by (simp add: example_node_def mtask_mq_init_def split: if_splits)
    then show "queue_ok \<lparr>sc_mq = sv_mq example_node, sc_hand = (\<lambda>_. None)\<rparr> [] a q"
      by (simp add: queue_ok_def mq_inv_def mtask_mq_create_def DEFAULT_QUEUE_SIZE_def)
  qed simp_all
  then show ?thesis by (auto simp: queues_inv_def)
qed

lemma example_inv: "server_inv (\<lambda>_. 0) (\<lambda>_. None) example_node"
proof -
  have H: "hs_slot_size (sv_handles example_node) = 4" "hs_slot (sv_handles example_node) = [None, Some 0, None, None]"
    "hs_harbor (sv_handles example_node) = 0x01000000"
    by (simp_all add: example_node_def mtask_handle_init_def DEFAULT_SLOT_SIZE_def HANDLE_REMOTE_SHIFT_def)
  have ch: "ctx_handle_of example_node = (\<lambda>_. 0)(0 := 0x01000001)"
    by (rule ext) (simp add: ctx_handle_of_def example_node_def new_context_def)
  have shape: "hs_shape (sv_handles example_node)"
    unfolding hs_shape_def H by (auto simp: HANDLE_MASK_def intro!: exI [of _ 2])
  have slot: "i = 1 \<and> c = 0" if "i < 4" "[None, Some 0, None, None] ! i = Some c" for i :: nat and c :: ctxid
    using that by (auto simp: less_Suc_eq numeral_eq_Suc)
  have hash: "slot_hash 4 0x01000001 = 1" by (simp add: slot_hash_def)
  have tab: "table_inv (ctx_handle_of example_node, sv_handles example_node)"
    unfolding table_inv_def prod.case H ch using shape hash by (auto dest!: slot simp: HANDLE_MASK_def)
  have rg: "registered example_node c \<longleftrightarrow> c = 0" for c by (auto simp: registered_def H)
  have vw: "views (sv_mq example_node) = [0 \<mapsto> (0x01000001, True, [])]"
    by (rule ext) (simp add: example_node_def views_def mtask_mq_init_def view_flags create_view)
  show ?thesis
  proof (rule server_invI)
    show "queues_inv (\<lambda>_. None) (sv_mq example_node)" by (rule example_queues)
    show "counted (\<lambda>_. 0) example_node c" for c
      unfolding counted_def rg vw by (simp add: example_node_def new_context_def)
    show "views (sv_mq example_node) a = Some (handle, b, ms) \<Longrightarrow> handle \<noteq> 0" for a handle b ms
      unfolding vw by (auto split: if_splits)
    show "c = a" if "views (sv_mq example_node) a = Some (handle, b, ms)" "lookup example_node handle = Some c" for a handle b ms c
    proof -
      have "c = 0" using that(2) look_eq [OF tab] H by (simp add: lookup_def)
      with that(1) show ?thesis unfolding vw by (simp split: if_splits)
    qed
    show "sv_ctx example_node c = Some x \<Longrightarrow> \<not> ctx_init x \<Longrightarrow> registered example_node c \<Longrightarrow> None = Some c" for c x
      by (auto simp: example_node_def new_context_def split: if_splits)
    show "sv_ctx example_node c = None \<and> views (sv_mq example_node) c = None \<and> None = None" if "sv_brk example_node \<le> c" for c
      using that by (simp add: vw) (simp add: example_node_def)
  qed (use tab in \<open>simp_all add: example_node_def\<close>)
qed

lemma example_reach: "node_reach echo_services (\<lambda>_. None) example_node"
  by (rule node_reach.start [OF example_inv])


lemma context_refs_exact_witness:
  "sv_ctx example_node 1 = None \<and> map_option ctx_ref (sv_ctx example_node 0) = Some 2"
proof -
  have "registered example_node 0" "\<not> registered example_node 1"
    by (simp_all add: registered_def example_node_def)
  moreover have "sv_remote example_node = Some 0" by (simp add: example_node_def)
  ultimately show ?thesis
    using context_refs_exact [OF echo_ok example_reach, of 0] context_refs_exact [OF echo_ok example_reach, of 1] by auto
qed


section \<open>What is sent arrives\<close>

text \<open>The session and the data of the message that \<open>mtask_send\<close> pushes.\<close>

definition sent_session :: "server \<Rightarrow> ctxid option \<Rightarrow> int \<Rightarrow> u32 \<Rightarrow> u32" where
  "sent_session s ctx t session =
     (if t AND PTYPE_TAG_ALLOCSESSION = 0 then session
      else case ctx of None \<Rightarrow> 0 | Some c \<Rightarrow> (case mtask_context_newsession c s of None \<Rightarrow> 0 | Some (v, _) \<Rightarrow> v))"

definition sent_data :: "int \<Rightarrow> byte list option \<Rightarrow> u64 \<Rightarrow> byte list option" where
  "sent_data t data sz = (if t AND PTYPE_TAG_DONTCOPY = 0 then map_option (take (unat sz)) data else data)"

lemma filter_sent:
  assumes "filter_args ctx t session data sz s = Some (v, d, z, s1)"
  shows "v = sent_session s ctx t session" "d = sent_data t data sz"
  using assms
  by (auto simp: filter_args_def sent_session_def sent_data_def Let_def split: bind_splits if_splits option.splits prod.splits)

lemma newsession_frame:
  assumes "mtask_context_newsession c s = Some (v, s')"
  shows "sv_mq s' = sv_mq s" "sv_harbor s' = sv_harbor s" "ctx_handle_of s' = ctx_handle_of s"
  using assms
  by (auto simp: mtask_context_newsession_def upd_ctx_def Let_def ctx_handle_of_def fun_eq_iff split: bind_splits option.splits if_splits)

lemma filter_frame:
  assumes "filter_args ctx t session data sz s = Some (v, d, z, s1)"
  shows "sv_mq s1 = sv_mq s" "sv_harbor s1 = sv_harbor s" "ctx_handle_of s1 = ctx_handle_of s"
  using assms newsession_frame
  by (auto simp: filter_args_def Let_def split: bind_splits if_splits option.splits prod.splits)

text \<open>
  C6. A message to a registered service of the same node is put at the end of its queue with
  its source, its session (a new one when the sender asks for it), a copy of its data (or
  the data itself), its type and its size, all of which can be read back; no other queue
  changes and the caller gets the session.
\<close>

theorem send_delivers:
  assumes inv: "server_inv held h s" and ok: "send_args s ctx source t session data sz"
    and c: "lookup s destination = Some c" and near: "mtask_harbor_message_isremote destination s = Some False"
    and sz: "sz AND MESSAGE_TYPE_MASK = sz" and src: "source \<noteq> 0" and dst: "destination \<noteq> 0"
  shows "\<exists>s' ms m. mtask_send ctx source destination t session data sz s = Some (sint (sent_session s ctx t session), s') \<and>
    views (sv_mq s) c = Some (destination, True, ms) \<and>
    views (sv_mq s') = (views (sv_mq s))(c \<mapsto> (destination, True, ms @ [m])) \<and>
    msg_source m = source \<and> msg_session m = sent_session s ctx t session \<and> msg_data m = sent_data t data sz \<and>
    uint (drop_bit MESSAGE_TYPE_SHIFT (msg_sz m)) = t AND 0xff \<and> msg_sz m AND MESSAGE_TYPE_MASK = sz"
proof -
  define z where "z = sz OR push_bit MESSAGE_TYPE_SHIFT (word_of_int (t AND 0xff))"
  obtain v d s1 where f: "filter_args ctx t session data sz s = Some (v, d, z, s1)" "server_inv held h s1"
    "sv_handles s1 = sv_handles s"
    using inv_filter [OF inv ok] by (auto simp: z_def)
  note vd = filter_sent [OF f(1)] note fr = filter_frame [OF f(1)]
  have c1: "lookup s1 destination = Some c" using c f(3) fr(3) by (simp add: lookup_def)
  have near1: "mtask_harbor_message_isremote destination s1 = Some False"
    using near fr(2) by (simp add: mtask_harbor_message_isremote_def Let_def split: if_splits)
  define m where "m = \<lparr>msg_source = source, msg_session = v, msg_data = d, msg_sz = z\<rparr>"
  obtain mq ms where p: "mtask_context_push destination m s1 = Some (0, s1\<lparr>sv_mq := mq\<rparr>)"
    "views (sv_mq s1) c = Some (destination, True, ms)" "views mq = (views (sv_mq s1))(c \<mapsto> (destination, True, ms @ [m]))"
    using push_some [OF f(2) c1, of m] by blast
  have "mtask_send ctx source destination t session data sz s = Some (sint v, s1\<lparr>sv_mq := mq\<rparr>)"
    using sz f(1) src dst near1 p(1) by (simp add: mtask_send_def source_of_def m_def)
  moreover note message_type [OF sz, of t]
  ultimately show ?thesis
    using p(2,3) fr(1) vd by (intro exI [of _ "s1\<lparr>sv_mq := mq\<rparr>"] exI [of _ ms] exI [of _ m]) (simp add: m_def z_def)
qed

lemma send_delivers_witness:
  "\<exists>s' m. mtask_send None 0x01000009 0x01000001 3 7 (Some [1, 2, 3]) 2 example_node = Some (7, s') \<and>
    views (sv_mq s') 0 = Some (0x01000001, True, [m]) \<and> msg_data m = Some [1, 2] \<and> msg_source m = 0x01000009"
proof -
  have l: "lookup example_node 0x01000001 = Some 0"
    by (simp add: lookup_def look_def mtask_handle_grab_def example_node_def mtask_handle_init_def slot_hash_def
        DEFAULT_SLOT_SIZE_def ctx_handle_of_def new_context_def)
  have n: "mtask_harbor_message_isremote 0x01000001 example_node = Some False"
    by (simp add: mtask_harbor_message_isremote_def example_node_def HANDLE_MASK_def)
  have a: "send_args example_node None 0x01000009 3 7 (Some [1, 2, 3]) 2"
    by (simp add: send_args_def PTYPE_TAG_ALLOCSESSION_def PTYPE_TAG_DONTCOPY_def PTYPE_SYSTEM_def PTYPE_HARBOR_def)
  have v: "views (sv_mq example_node) 0 = Some (0x01000001, True, [])"
    by (simp add: example_node_def views_def view_flags create_view)
  have "(2 :: u64) AND MESSAGE_TYPE_MASK = 2" by (simp add: MESSAGE_TYPE_MASK_def)
  moreover have "sent_session example_node None 3 7 = 7" "sent_data 3 (Some [1, 2, 3 :: byte]) 2 = Some [1, 2]"
    by (simp_all add: sent_session_def sent_data_def PTYPE_TAG_ALLOCSESSION_def PTYPE_TAG_DONTCOPY_def)
  ultimately show ?thesis using send_delivers [OF example_inv a l n] v by auto
qed

section \<open>Sessions\<close>

text \<open>
  C40. Sessions are always positive and count from 1 to 2^31 - 1, then from 1 again, whatever
  the counter holds that the code left there.
\<close>

theorem session_bounds:
  assumes "sv_ctx s c = Some x" "unat (ctx_session_id x) < 2 ^ 31"
  shows "\<exists>v s'. mtask_context_newsession c s = Some (v, s') \<and> 0 < sint v \<and> sint v < 2 ^ 31 \<and>
    unat v = unat (ctx_session_id x) mod (2 ^ 31 - 1) + 1 \<and>
    (\<exists>x'. sv_ctx s' c = Some x' \<and> ctx_session_id x' = v)"
proof -
  let ?n = "unat (ctx_session_id x)"
  let ?w = "ctx_session_id x + 1"
  define v where "v = (if sint ?w \<le> 0 then 1 else ?w)"
  have e: "mtask_context_newsession c s = Some (v, s\<lparr>sv_ctx := (sv_ctx s)(c \<mapsto> x\<lparr>ctx_session_id := v\<rparr>)\<rparr>)"
    using assms(1) by (simp add: mtask_context_newsession_def upd_ctx_def Let_def v_def)
  have u: "unat ?w = ?n + 1" using assms(2) by (simp add: unat_word_ariths)
  have "0 < sint v \<and> sint v < 2 ^ 31 \<and> unat v = ?n mod (2 ^ 31 - 1) + 1"
  proof (cases "?n + 1 = 2 ^ 31")
    case True
    have "?w = 0x80000000" using u True by (simp add: word_unat_eq_iff)
    then have "v = 1" by (simp add: v_def)
    moreover have "?n = 2 ^ 31 - 1" using True by simp
    ultimately show ?thesis by simp
  next
    case False
    then have n: "?n + 1 < 2 ^ 31" using assms(2) by linarith
    have "sint ?w = int (?n + 1)" using sint_small [of ?w] u n by (metis)
    moreover from this have "0 < sint ?w" by linarith
    ultimately have "v = ?w" "sint v = int (?n + 1)" unfolding v_def by simp_all
    moreover have "int (?n + 1) < int (2 ^ 31)" using n by (simp only: of_nat_less_iff)
    moreover have "?n mod (2 ^ 31 - 1) = ?n" using n by simp
    ultimately have sv: "v = ?w" "sint v = int (?n + 1)" "int (?n + 1) < int (2 ^ 31)" "?n mod (2 ^ 31 - 1) = ?n" by blast+
    have "0 < sint v" unfolding sv(2) by (simp only: of_nat_0_less_iff)
    moreover have "sint v < 2 ^ 31" using sv(3) unfolding sv(2) by simp
    moreover have "unat v = ?n mod (2 ^ 31 - 1) + 1" unfolding sv(4) sv(1) by (rule u)
    ultimately show ?thesis by blast
  qed
  then show ?thesis using e by simp
qed

lemma session_bounds_witness:
  "\<exists>s'. mtask_context_newsession 0 example_node = Some (1, s')"
proof -
  have "sv_ctx example_node 0 = Some ((new_context 0 0x01000001)\<lparr>ctx_init := True, ctx_cb := True\<rparr>)"
    by (simp add: example_node_def)
  from session_bounds [OF this] show ?thesis by (auto simp: new_context_def word_unat_eq_iff)
qed

section \<open>Handles as text\<close>

lemma digits_fold:
  "(\<forall>d\<in>set ds. d < base \<and> digit_value (f d) = Some d) \<Longrightarrow>
   digits base acc (map f ds) = (foldl (\<lambda>a d. a * base + d) acc ds, [])"
  by (induction ds arbitrary: acc) simp_all

lemma hex_digit_value: "d < 16 \<Longrightarrow>
    digit_value (if d < 10 then of_nat (48 + d) else of_nat (55 + d)) = Some d"
proof -
  assume d: "d < 16"
  have "unat (of_nat (48 + d) :: byte) = 48 + d" "unat (of_nat (55 + d) :: byte) = 55 + d"
    using d by (simp_all only: unat_of_nat) simp_all
  with d show ?thesis by (simp add: digit_value_def word_le_nat_alt del: of_nat_add)
qed

lemma strtoul_hex:
  assumes d: "\<forall>ch\<in>set cs. \<exists>d<16. digit_value ch = Some d"
    and n: "fst (digits 16 0 cs) = unat (h :: u32)" and pre: "hex_prefix cs = cs"
  shows "(ucast (strtoul 16 cs) :: u32) = h"
proof -
  have sp: "\<not> is_space ch \<and> ch \<noteq> 45 \<and> ch \<noteq> 43" if ch: "ch \<in> set cs" for ch
  proof -
    obtain e where e: "digit_value ch = Some e" using bspec [OF d ch] by auto
    have "48 \<le> unat ch"
    proof (rule ccontr)
      assume "\<not> 48 \<le> unat ch"
      then have "\<not> 48 \<le> ch" "\<not> 97 \<le> ch" "\<not> 65 \<le> ch" by (simp_all add: word_le_nat_alt)
      with e show False by (simp add: digit_value_def)
    qed
    then have "ch \<noteq> 32" "ch \<noteq> 45" "ch \<noteq> 43" "\<not> ch \<le> 13" by (auto simp: word_le_nat_alt)
    then show ?thesis by (simp add: is_space_def)
  qed
  have dw: "dropWhile is_space cs = cs" using sp by (cases cs) simp_all
  have ss: "sign_split cs = (False, cs)" using sp by (cases cs) simp_all
  have b: "unat h < 2 ^ 32" using unsigned_less [of h, where 'a = nat] by simp
  then have "\<not> 2 ^ 64 \<le> unat h" by simp
  with n have e: "strtoul 16 cs = of_nat (unat h)"
    unfolding strtoul_def dw ss prod.case Let_def pre by simp
  have u: "unat (of_nat (unat h) :: u64) = unat h" by (rule unat_u64) (use b in simp)
  show ?thesis unfolding e word_unat_eq_iff unsigned_ucast_eq u using b by (simp add: take_bit_nat_eq_self)
qed

lemma no_hex_prefix: "\<forall>ch\<in>set cs. \<exists>d<16. digit_value ch = Some d \<Longrightarrow> hex_prefix cs = cs"
proof -
  assume d: "\<forall>ch\<in>set cs. \<exists>d<16. digit_value ch = Some d"
  have x: "digit_value 120 = Some 33" "digit_value 88 = Some 33" by (simp_all add: digit_value_def)
  have "120 \<notin> set cs" "88 \<notin> set cs" using d x by force+
  then show ?thesis by (auto simp: hex_prefix_def split: list.splits)
qed

lemma horner_digits:
  fixes n :: nat
  assumes "n < 16 ^ m" "k \<le> m"
  shows "foldl (\<lambda>a d. a * 16 + d) 0 (map (\<lambda>i. n div 16 ^ (m - 1 - i) mod 16) [0..<k]) = n div 16 ^ (m - k)"
  using assms(2)
proof (induction k)
  case 0
  then show ?case using assms(1) by simp
next
  case (Suc k)
  have "m - k = Suc (m - 1 - k)" using Suc.prems by simp
  then have e: "(16 :: nat) ^ (m - k) = 16 ^ (m - 1 - k) * 16" by simp
  let ?f = "\<lambda>i. n div 16 ^ (m - 1 - i) mod 16"
  have ih: "foldl (\<lambda>a d. a * 16 + d) 0 (map ?f [0..<k]) = n div 16 ^ (m - 1 - k) div 16"
    using Suc e by (simp only: div_mult2_eq)
  have "foldl (\<lambda>a d. a * 16 + d) 0 (map ?f [0..<Suc k]) = n div 16 ^ (m - 1 - k) div 16 * 16 + ?f k"
    by (simp only: upt_Suc_append [OF le0] map_append foldl_append ih list.map foldl.simps)
  also have "\<dots> = n div 16 ^ (m - 1 - k)" by (rule div_mult_mod_eq)
  finally show ?case by simp
qed

lemma id_to_hex_digits:
  "\<exists>cs. id_to_hex w = 58 # cs \<and> (\<forall>ch\<in>set cs. \<exists>d<16. digit_value ch = Some d) \<and> fst (digits 16 0 cs) = unat w"
proof -
  let ?f = "\<lambda>d. if d < 10 then of_nat (48 + d) else of_nat (55 + d) :: byte"
  let ?ds = "map (\<lambda>i. unat w div 16 ^ (8 - 1 - i) mod 16) [0..<8]"
  have nib: "unat (drop_bit ((7 - i) * 4) w AND 0xf) = unat w div 16 ^ (8 - 1 - i) mod 16" for i
  proof -
    have m: "(0xf :: u32) = mask 4" by (simp add: mask_eq_exp_minus_1)
    have "unat (drop_bit ((7 - i) * 4) w AND 0xf) = unat w div 2 ^ ((7 - i) * 4) mod 16"
      unfolding m unat_and_mask unat_drop_bit_div by simp
    moreover have "(2 :: nat) ^ ((7 - i) * 4) = 16 ^ (8 - 1 - i)"
      by (subst mult.commute) (simp add: power_mult)
    ultimately show ?thesis by simp
  qed
  have ok: "\<forall>d\<in>set ?ds. d < 16 \<and> digit_value (?f d) = Some d" using hex_digit_value by simp
  have "id_to_hex w = 58 # map ?f ?ds"
    unfolding id_to_hex_def nib Let_def by (simp add: comp_def)
  moreover have "\<forall>ch\<in>set (map ?f ?ds). \<exists>d<16. digit_value ch = Some d" using ok by auto
  moreover have "fst (digits 16 0 (map ?f ?ds)) = unat w"
  proof -
    have "unat w < 16 ^ 8" using unsigned_less [of w, where 'a = nat] by simp
    from horner_digits [OF this, of 8] digits_fold [OF ok, of 0] show ?thesis by simp
  qed
  ultimately show ?thesis by blast
qed

text \<open>
  The two ways in which the node prints a handle, with eight capital digits and without
  leading zeros, are read back as the same handle by every command, for every handle.
\<close>

theorem handle_text_roundtrip:
  "tohandle c (id_to_hex w) s = Some (w, s) \<and> tohandle c (hex_handle w) s = Some (w, s) \<and>
   mtask_queryname c (hex_handle w) s = Some (w, s)"
proof -
  have *: "tohandle c (58 # cs) s = Some (w, s) \<and> mtask_queryname c (58 # cs) s = Some (w, s)"
    if "\<forall>ch\<in>set cs. \<exists>d<16. digit_value ch = Some d" "fst (digits 16 0 cs) = unat w" for cs
    using strtoul_hex [OF that no_hex_prefix [OF that(1)]]
    by (simp add: tohandle_def mtask_queryname_def first_def)
  have "\<forall>ch\<in>set (print_nat 16 (unat w)). \<exists>d<16. digit_value ch = Some d" "fst (digits 16 0 (print_nat 16 (unat w))) = unat w"
    using print_nat_digits [of 16 "unat w"] by simp_all
  then show ?thesis using * id_to_hex_digits [of w] by (auto simp: hex_handle_def)
qed

section \<open>Timeouts in the past\<close>

text \<open>
  A negative time is not handed out at once: it is stored as the time 2^32 - 1 ticks ahead,
  which is more than a year.
\<close>

lemma negative_timeout:
  assumes "sv_ctx s c = Some x"
  shows "\<exists>v s1 s2. mtask_context_newsession c s = Some (v, s1) \<and>
    cmd_timeout E c (Some [45, 49]) s = Some (Some (print_int (sint v)), s2) \<and>
    sv_timer s2 = timer_add (sv_timer s) (-1, ctx_handle x, v)"
proof -
  have n: "as_int (strtol 10 [45, 49]) = -1" by code_simp
  show ?thesis using assms n
    by (simp add: cmd_timeout_def mtask_context_newsession_def upd_ctx_def Let_def mtask_timeout_def)
qed

end
