(* ===== verification/Socket_Server.thy ===== *)
theory Socket_Server
  imports C_Library "HOL-Library.Monad_Syntax"
begin

text \<open>
  \<open>mtask-src/socket_server.c\<close> with \<open>socket_epoll.h\<close>: the 65536 socket slots, their write
  queues, the control pipe between the clients and the network thread, and the event loop.
  The operating system is an argument (\<open>kernel\<close>): its answer to every system call, over a
  state of its own. An operation maps the state to a result and a new state; \<open>None\<close> is a
  crash: a failed assertion, a block freed twice or used after it was freed or past its end,
  the wrong member of the union read, or a call through a null pointer. The blocks to be
  sent are in a heap (\<open>ss_heap\<close>), so that their ownership is part of the model; a block
  that was read from a socket leaves the server with its bytes as the result.
\<close>

section \<open>Data\<close>

definition MAX_SOCKET :: nat where "MAX_SOCKET = 65536"
definition MIN_READ_BUFFER :: int where "MIN_READ_BUFFER = 64"
definition UDP_ADDRESS_SIZE :: nat where "UDP_ADDRESS_SIZE = 19"
definition MAX_UDP_PACKAGE :: nat where "MAX_UDP_PACKAGE = 65535"
definition MAX_EVENT :: nat where "MAX_EVENT = 64"

datatype socket_type =
    SOCKET_TYPE_INVALID
  | SOCKET_TYPE_RESERVE
  | SOCKET_TYPE_PLISTEN
  | SOCKET_TYPE_LISTEN
  | SOCKET_TYPE_CONNECTING
  | SOCKET_TYPE_CONNECTED
  | SOCKET_TYPE_HALFCLOSE
  | SOCKET_TYPE_PACCEPT
  | SOCKET_TYPE_BIND

datatype priority = PRIORITY_HIGH | PRIORITY_LOW

datatype protocol = PROTOCOL_TCP | PROTOCOL_UDP | PROTOCOL_UDPv6

fun protocol_code :: "protocol \<Rightarrow> byte" where
  "protocol_code PROTOCOL_TCP = 0"
| "protocol_code PROTOCOL_UDP = 1"
| "protocol_code PROTOCOL_UDPv6 = 2"

text \<open>The results of \<open>socket_server_poll\<close>; the C value -1 is \<open>None\<close>.\<close>

datatype socket_event =
    SOCKET_DATA
  | SOCKET_CLOSE
  | SOCKET_OPEN
  | SOCKET_ACCEPT
  | SOCKET_ERROR
  | SOCKET_EXIT
  | SOCKET_UDP

text \<open>A block, and a pointer into one: the block's address and an offset.\<close>

type_synonym addr = nat
type_synonym pointer = "addr \<times> nat"
type_synonym heap = "addr \<Rightarrow> byte list option"

record write_buffer =
  wb_buffer :: addr
  wb_ptr :: pointer
  wb_sz :: int
  wb_userobject :: bool
  wb_udp_address :: "byte list"

text \<open>The union \<open>p\<close> of a socket.\<close>

datatype socket_p = Size int | Udp_address "byte list"

record socket =
  so_opaque :: u32
  so_high :: "write_buffer list"
  so_low :: "write_buffer list"
  so_wb_size :: int
  so_fd :: int
  so_id :: int
  so_protocol :: protocol
  so_type :: socket_type
  so_p :: socket_p

datatype sm_data =
    Null
  | Text "byte list"
  | Received "byte list"

record socket_message =
  sm_id :: int
  sm_opaque :: u32
  sm_ud :: int
  sm_data :: sm_data

record event =
  ev_s :: "nat option"
  ev_read :: bool
  ev_write :: bool

text \<open>The control commands, by the letter that the pipe carries.\<close>

datatype request =
    Request_S int u32
  | Request_B int int u32
  | Request_L int int u32
  | Request_K int u32
  | Request_O int int u32 "byte list"
  | Request_X
  | Request_D int int addr
  | Request_P int int addr
  | Request_A int int addr "byte list"
  | Request_T int int int
  | Request_U int int bool u32
  | Request_C int "byte list"

record socket_object_interface =
  soi_buffer :: "addr \<Rightarrow> addr"
  soi_size :: "addr \<Rightarrow> int"
  soi_free :: "addr \<Rightarrow> heap \<Rightarrow> heap option"

record send_object =
  so_buffer :: addr
  so_sz :: int
  so_user :: bool

section \<open>The operating system\<close>

datatype io_result = IoDone nat | IoIntr | IoAgain | IoFail

datatype connect_result = ConnDone | ConnProgress | ConnFail

text \<open>Addresses: port and host in network byte order; an entry of \<open>getaddrinfo\<close> has its text.\<close>

datatype sockaddr = V4 "byte list" "byte list" | V6 "byte list" "byte list"

record addrinfo =
  ai_addr :: sockaddr
  ai_text :: "byte list option"

datatype read_result = ReadDone "byte list" | ReadIntr | ReadAgain | ReadFail

datatype recv_result = RecvDone "byte list" sockaddr | RecvIntr | RecvAgain | RecvFail

type_synonym epoll = "int \<Rightarrow> (nat option \<times> bool) option"

record 'k kernel =
  k_write :: "int \<Rightarrow> byte list \<Rightarrow> 'k \<Rightarrow> io_result \<times> 'k"
  k_sendto :: "int \<Rightarrow> byte list \<Rightarrow> sockaddr option \<Rightarrow> 'k \<Rightarrow> io_result \<times> 'k"
  k_read :: "int \<Rightarrow> nat \<Rightarrow> 'k \<Rightarrow> read_result \<times> 'k"
  k_recvfrom :: "int \<Rightarrow> nat \<Rightarrow> 'k \<Rightarrow> recv_result \<times> 'k"
  k_accept :: "int \<Rightarrow> 'k \<Rightarrow> (int \<times> byte list option \<times> nat) option \<times> 'k"
  k_getaddrinfo :: "byte list \<Rightarrow> int \<Rightarrow> 'k \<Rightarrow> addrinfo list option \<times> 'k"
  k_socket :: "bool \<Rightarrow> 'k \<Rightarrow> int \<times> 'k"
  k_connect :: "int \<Rightarrow> sockaddr \<Rightarrow> 'k \<Rightarrow> connect_result \<times> 'k"
  k_setsockopt :: "int \<Rightarrow> int \<Rightarrow> int \<Rightarrow> 'k \<Rightarrow> bool \<times> 'k"
  k_bind :: "int \<Rightarrow> sockaddr \<Rightarrow> 'k \<Rightarrow> bool \<times> 'k"
  k_listen :: "int \<Rightarrow> int \<Rightarrow> 'k \<Rightarrow> bool \<times> 'k"
  k_so_error :: "int \<Rightarrow> 'k \<Rightarrow> bool \<times> 'k"
  k_peername :: "int \<Rightarrow> 'k \<Rightarrow> byte list option \<times> 'k"
  k_nonblocking :: "int \<Rightarrow> 'k \<Rightarrow> 'k"
  k_close :: "int \<Rightarrow> 'k \<Rightarrow> 'k"
  k_epoll_add :: "int \<Rightarrow> 'k \<Rightarrow> bool \<times> 'k"
  k_epoll_wait :: "epoll \<Rightarrow> nat \<Rightarrow> 'k \<Rightarrow> event list \<times> 'k"

text \<open>The options of \<open>setsockopt\<close> that the server sets.\<close>

definition SO_KEEPALIVE :: int where "SO_KEEPALIVE = 9"
definition SO_REUSEADDR :: int where "SO_REUSEADDR = 2"
definition TCP_NODELAY :: int where "TCP_NODELAY = 1"

text \<open>The pipe, the event poll and the heap are kept in the state, the rest of the system in \<open>ss_os\<close>.\<close>

record 'k socket_server =
  ss_checkctrl :: bool
  ss_alloc_id :: int
  ss_event_index :: nat
  ss_soi :: "socket_object_interface option"
  ss_ev :: "event list"
  ss_slot :: "nat \<Rightarrow> socket"
  ss_pipe :: "request list"
  ss_epoll :: epoll
  ss_heap :: heap
  ss_os :: 'k

text \<open>What a handler returns: the event with its message, or -1, and the state; or a crash.\<close>

type_synonym 'k result = "((socket_event \<times> socket_message) option \<times> 'k socket_server) option"

definition set_slot :: "nat \<Rightarrow> socket \<Rightarrow> 'k socket_server \<Rightarrow> 'k socket_server" where
  "set_slot i s ss = ss\<lparr>ss_slot := (ss_slot ss)(i := s)\<rparr>"

text \<open>A system call: its answer, and the state with the system's new state.\<close>

definition sys :: "('k \<Rightarrow> 'a \<times> 'k) \<Rightarrow> 'k socket_server \<Rightarrow> 'a \<times> 'k socket_server" where
  "sys f ss = (let (r, k) = f (ss_os ss) in (r, ss\<lparr>ss_os := k\<rparr>))"

text \<open>
  \<open>epoll_ctl\<close> and \<open>close\<close>: the registrations are keyed by the descriptor, a second one of
  the same descriptor fails, and closing a descriptor removes it.
\<close>

definition sp_add :: "'k kernel \<Rightarrow> int \<Rightarrow> nat option \<Rightarrow> 'k socket_server \<Rightarrow> bool \<times> 'k socket_server" where
  "sp_add K fd ud ss =
     (let (failed, ss1) = sys (k_epoll_add K fd) ss in
      if failed \<or> ss_epoll ss1 fd \<noteq> None then (True, ss1)
      else (False, ss1\<lparr>ss_epoll := (ss_epoll ss1)(fd \<mapsto> (ud, False))\<rparr>))"

definition sp_del :: "int \<Rightarrow> 'k socket_server \<Rightarrow> 'k socket_server" where
  "sp_del fd ss = ss\<lparr>ss_epoll := (ss_epoll ss)(fd := None)\<rparr>"

definition sp_write :: "int \<Rightarrow> nat option \<Rightarrow> bool \<Rightarrow> 'k socket_server \<Rightarrow> 'k socket_server" where
  "sp_write fd ud enable ss =
     (if ss_epoll ss fd = None then ss else ss\<lparr>ss_epoll := (ss_epoll ss)(fd \<mapsto> (ud, enable))\<rparr>)"

definition sp_nonblocking :: "'k kernel \<Rightarrow> int \<Rightarrow> 'k socket_server \<Rightarrow> 'k socket_server" where
  "sp_nonblocking K fd ss = ss\<lparr>ss_os := k_nonblocking K fd (ss_os ss)\<rparr>"

definition close_fd :: "'k kernel \<Rightarrow> int \<Rightarrow> 'k socket_server \<Rightarrow> 'k socket_server" where
  "close_fd K fd ss = ss\<lparr>ss_os := k_close K fd (ss_os ss), ss_epoll := (ss_epoll ss)(fd := None)\<rparr>"

definition socket_keepalive :: "'k kernel \<Rightarrow> int \<Rightarrow> 'k socket_server \<Rightarrow> 'k socket_server" where
  "socket_keepalive K fd ss = snd (sys (k_setsockopt K fd SO_KEEPALIVE 1) ss)"

section \<open>Blocks\<close>

definition FREE :: "addr \<Rightarrow> 'k socket_server \<Rightarrow> 'k socket_server option" where
  "FREE a ss = (if ss_heap ss a = None then None else Some (ss\<lparr>ss_heap := (ss_heap ss)(a := None)\<rparr>))"

text \<open>The \<open>sz\<close> bytes at a pointer, as a system call reads them.\<close>

definition load :: "pointer \<Rightarrow> int \<Rightarrow> 'k socket_server \<Rightarrow> byte list option" where
  "load p sz ss = (case ss_heap ss (fst p) of
       None \<Rightarrow> None
     | Some bs \<Rightarrow> if 0 \<le> sz \<and> snd p + nat sz \<le> length bs then Some (take (nat sz) (drop (snd p) bs)) else None)"

definition send_object_init :: "addr \<Rightarrow> int \<Rightarrow> 'k socket_server \<Rightarrow> send_object option" where
  "send_object_init object sz ss =
     (if sz < 0 then
        (case ss_soi ss of
           None \<Rightarrow> None
         | Some soi \<Rightarrow> Some \<lparr>so_buffer = soi_buffer soi object, so_sz = soi_size soi object, so_user = True\<rparr>)
      else Some \<lparr>so_buffer = object, so_sz = sz, so_user = False\<rparr>)"

text \<open>\<open>so->free_func(object)\<close>.\<close>

definition free_func :: "bool \<Rightarrow> addr \<Rightarrow> 'k socket_server \<Rightarrow> 'k socket_server option" where
  "free_func user object ss =
     (if user then
        (case ss_soi ss of
           None \<Rightarrow> None
         | Some soi \<Rightarrow> map_option (\<lambda>h. ss\<lparr>ss_heap := h\<rparr>) (soi_free soi object (ss_heap ss)))
      else FREE object ss)"

definition write_buffer_free :: "write_buffer \<Rightarrow> 'k socket_server \<Rightarrow> 'k socket_server option" where
  "write_buffer_free wb ss = free_func (wb_userobject wb) (wb_buffer wb) ss"

fun free_wb_list :: "write_buffer list \<Rightarrow> 'k socket_server \<Rightarrow> 'k socket_server option" where
  "free_wb_list [] ss = Some ss"
| "free_wb_list (wb # rest) ss = Option.bind (write_buffer_free wb ss) (free_wb_list rest)"

section \<open>Slots\<close>

text \<open>\<open>((unsigned)id) % MAX_SOCKET\<close>.\<close>

definition HASH_ID :: "int \<Rightarrow> nat" where
  "HASH_ID i = nat (i mod 2 ^ 32 mod int MAX_SOCKET)"

text \<open>\<open>ATOM_INC\<close> of the identifier, which wraps to the negative numbers, and the mask.\<close>

definition next_id :: "int \<Rightarrow> int" where
  "next_id a = (let i = (if a = 0x7fffffff then - 0x80000000 else a + 1) in if i < 0 then i AND 0x7fffffff else i)"

fun reserve_loop :: "nat \<Rightarrow> 'k socket_server \<Rightarrow> int \<times> 'k socket_server" where
  "reserve_loop 0 ss = (-1, ss)"
| "reserve_loop (Suc n) ss =
     (let i = next_id (ss_alloc_id ss);
          ss1 = ss\<lparr>ss_alloc_id := i\<rparr>;
          s = ss_slot ss1 (HASH_ID i) in
      if so_type s = SOCKET_TYPE_INVALID then
        (i, set_slot (HASH_ID i) (s\<lparr>so_type := SOCKET_TYPE_RESERVE, so_id := i, so_fd := -1\<rparr>) ss1)
      else reserve_loop n ss1)"

definition reserve_id :: "'k socket_server \<Rightarrow> int \<times> 'k socket_server" where
  "reserve_id ss = reserve_loop MAX_SOCKET ss"

text \<open>What a slot of a new server holds besides its type and its lists is not initialised.\<close>

definition blank_socket :: socket where
  "blank_socket = \<lparr>so_opaque = 0, so_high = [], so_low = [], so_wb_size = 0, so_fd = 0, so_id = 0,
     so_protocol = PROTOCOL_TCP, so_type = SOCKET_TYPE_INVALID, so_p = Size 0\<rparr>"

definition socket_server_create :: "'k kernel \<Rightarrow> int \<Rightarrow> 'k \<Rightarrow> 'k socket_server option" where
  "socket_server_create K recvctrl_fd k =
     (let ss = \<lparr>ss_checkctrl = True, ss_alloc_id = 0, ss_event_index = 0, ss_soi = None, ss_ev = [],
                ss_slot = (\<lambda>_. blank_socket), ss_pipe = [], ss_epoll = (\<lambda>_. None), ss_heap = (\<lambda>_. None), ss_os = k\<rparr>;
          (failed, ss1) = sp_add K recvctrl_fd None ss
      in if failed then None else Some ss1)"

definition blank_message :: socket_message where
  "blank_message = \<lparr>sm_id = 0, sm_opaque = 0, sm_ud = 0, sm_data = Null\<rparr>"

definition force_close :: "'k kernel \<Rightarrow> nat \<Rightarrow> 'k socket_server \<Rightarrow> (socket_message \<times> 'k socket_server) option" where
  "force_close K i ss =
     (let s = ss_slot ss i;
          m = \<lparr>sm_id = so_id s, sm_opaque = so_opaque s, sm_ud = 0, sm_data = Null\<rparr> in
      if so_type s = SOCKET_TYPE_INVALID then Some (m, ss)
      else if so_type s = SOCKET_TYPE_RESERVE then None
      else do {
        ss1 \<leftarrow> free_wb_list (so_high s) ss;
        ss2 \<leftarrow> free_wb_list (so_low s) ss1;
        let ss3 = (if so_type s \<noteq> SOCKET_TYPE_PACCEPT \<and> so_type s \<noteq> SOCKET_TYPE_PLISTEN
                   then sp_del (so_fd s) ss2 else ss2);
        let ss4 = (if so_type s \<noteq> SOCKET_TYPE_BIND then close_fd K (so_fd s) ss3 else ss3);
        Some (m, set_slot i (s\<lparr>so_high := [], so_low := [], so_type := SOCKET_TYPE_INVALID\<rparr>) ss4)
      })"

fun release_slots :: "'k kernel \<Rightarrow> nat list \<Rightarrow> 'k socket_server \<Rightarrow> 'k socket_server option" where
  "release_slots K [] ss = Some ss"
| "release_slots K (i # is) ss =
     (if so_type (ss_slot ss i) \<noteq> SOCKET_TYPE_RESERVE
      then Option.bind (force_close K i ss) (\<lambda>(m, ss1). release_slots K is ss1)
      else release_slots K is ss)"

definition socket_server_release :: "'k kernel \<Rightarrow> int \<Rightarrow> int \<Rightarrow> 'k socket_server \<Rightarrow> 'k socket_server option" where
  "socket_server_release K sendctrl_fd recvctrl_fd ss = do {
     ss1 \<leftarrow> release_slots K [0..<MAX_SOCKET] ss;
     Some (close_fd K recvctrl_fd (close_fd K sendctrl_fd ss1))
   }"

text \<open>\<open>new_fd\<close>: \<open>None\<close> when an assertion fails, otherwise whether it gave the slot.\<close>

definition new_fd :: "'k kernel \<Rightarrow> int \<Rightarrow> int \<Rightarrow> protocol \<Rightarrow> u32 \<Rightarrow> bool \<Rightarrow> 'k socket_server
    \<Rightarrow> (bool \<times> 'k socket_server) option" where
  "new_fd K i fd proto opaque add ss =
     (let s = ss_slot ss (HASH_ID i) in
      if so_type s \<noteq> SOCKET_TYPE_RESERVE then None
      else
        let (failed, ss1) = (if add then sp_add K fd (Some (HASH_ID i)) ss else (False, ss)) in
        if failed then Some (False, set_slot (HASH_ID i) (s\<lparr>so_type := SOCKET_TYPE_INVALID\<rparr>) ss1)
        else if so_high s \<noteq> [] \<or> so_low s \<noteq> [] then None
        else Some (True, set_slot (HASH_ID i)
               (s\<lparr>so_opaque := opaque, so_wb_size := 0, so_fd := fd, so_id := i, so_protocol := proto,
                  so_p := Size MIN_READ_BUFFER\<rparr>) ss1))"

section \<open>Opening a connection\<close>

text \<open>The loop over the addresses: the descriptor and the status of \<open>connect\<close>, with the address.\<close>

fun connect_loop :: "'k kernel \<Rightarrow> addrinfo list \<Rightarrow> 'k socket_server
    \<Rightarrow> (int \<times> bool \<times> addrinfo) option \<times> 'k socket_server" where
  "connect_loop K [] ss = (None, ss)"
| "connect_loop K (ai # rest) ss =
     (let (sock, ss1) = sys (k_socket K True) ss in
      if sock < 0 then connect_loop K rest ss1
      else
        let ss2 = sp_nonblocking K sock (socket_keepalive K sock ss1);
            (status, ss3) = sys (k_connect K sock (ai_addr ai)) ss2 in
        (case status of
           ConnFail \<Rightarrow> connect_loop K rest (close_fd K sock ss3)
         | ConnDone \<Rightarrow> (Some (sock, True, ai), ss3)
         | ConnProgress \<Rightarrow> (Some (sock, False, ai), ss3)))"

definition invalidate :: "int \<Rightarrow> 'k socket_server \<Rightarrow> 'k socket_server" where
  "invalidate i ss = set_slot (HASH_ID i) ((ss_slot ss (HASH_ID i))\<lparr>so_type := SOCKET_TYPE_INVALID\<rparr>) ss"

definition text_data :: "byte list option \<Rightarrow> sm_data" where
  "text_data t = (case t of None \<Rightarrow> Null | Some s \<Rightarrow> Text s)"

definition open_socket :: "'k kernel \<Rightarrow> int \<Rightarrow> int \<Rightarrow> u32 \<Rightarrow> byte list \<Rightarrow> 'k socket_server \<Rightarrow> 'k result" where
  "open_socket K i port opaque host ss =
     (let m = \<lparr>sm_id = i, sm_opaque = opaque, sm_ud = 0, sm_data = Null\<rparr>;
          (ai_list, ss1) = sys (k_getaddrinfo K host port) ss in
      case ai_list of
        None \<Rightarrow> Some (Some (SOCKET_ERROR, m), invalidate i ss1)
      | Some ais \<Rightarrow>
          let (found, ss2) = connect_loop K ais ss1 in
          (case found of
             None \<Rightarrow> Some (Some (SOCKET_ERROR, m), invalidate i ss2)
           | Some (sock, done, ai) \<Rightarrow> do {
               (ok, ss3) \<leftarrow> new_fd K i sock PROTOCOL_TCP opaque True ss2;
               let ns = ss_slot ss3 (HASH_ID i);
               if \<not> ok then Some (Some (SOCKET_ERROR, m), invalidate i (close_fd K sock ss3))
               else if done then
                 Some (Some (SOCKET_OPEN, m\<lparr>sm_data := text_data (ai_text ai)\<rparr>),
                       set_slot (HASH_ID i) (ns\<lparr>so_type := SOCKET_TYPE_CONNECTED\<rparr>) ss3)
               else
                 Some (None, sp_write sock (Some (HASH_ID i)) True
                       (set_slot (HASH_ID i) (ns\<lparr>so_type := SOCKET_TYPE_CONNECTING\<rparr>) ss3))
             }))"

section \<open>Sending\<close>

text \<open>The \<open>for (;;)\<close> around \<open>write\<close>, which retries while the call is interrupted.\<close>

partial_function (option) write_retry :: "'k kernel \<Rightarrow> int \<Rightarrow> byte list \<Rightarrow> 'k \<Rightarrow> (io_result \<times> 'k) option" where
  "write_retry K fd bs k =
     (case k_write K fd bs k of (r, k1) \<Rightarrow> if r = IoIntr then write_retry K fd bs k1 else Some (r, k1))"

definition get_list :: "priority \<Rightarrow> socket \<Rightarrow> write_buffer list" where
  "get_list pr s = (case pr of PRIORITY_HIGH \<Rightarrow> so_high s | PRIORITY_LOW \<Rightarrow> so_low s)"

definition set_list :: "priority \<Rightarrow> write_buffer list \<Rightarrow> socket \<Rightarrow> socket" where
  "set_list pr l s = (case pr of PRIORITY_HIGH \<Rightarrow> s\<lparr>so_high := l\<rparr> | PRIORITY_LOW \<Rightarrow> s\<lparr>so_low := l\<rparr>)"

definition advance :: "nat \<Rightarrow> write_buffer \<Rightarrow> write_buffer" where
  "advance n wb = wb\<lparr>wb_ptr := (fst (wb_ptr wb), snd (wb_ptr wb) + n), wb_sz := wb_sz wb - int n\<rparr>"

definition sub_wb_size :: "int \<Rightarrow> socket \<Rightarrow> socket" where
  "sub_wb_size n s = s\<lparr>so_wb_size := so_wb_size s - n\<rparr>"

fun send_tcp_loop :: "'k kernel \<Rightarrow> nat \<Rightarrow> priority \<Rightarrow> write_buffer list \<Rightarrow> 'k socket_server \<Rightarrow> 'k result" where
  "send_tcp_loop K i pr [] ss = Some (None, ss)"
| "send_tcp_loop K i pr (tmp # next) ss = do {
     bs \<leftarrow> load (wb_ptr tmp) (wb_sz tmp) ss;
     (r, k) \<leftarrow> write_retry K (so_fd (ss_slot ss i)) bs (ss_os ss);
     let ss1 = ss\<lparr>ss_os := k\<rparr>;
     let s = ss_slot ss1 i;
     (case r of
        IoDone n \<Rightarrow>
          if int n \<noteq> wb_sz tmp then
            Some (None, set_slot i (set_list pr (advance n tmp # next) (sub_wb_size (int n) s)) ss1)
          else do {
            ss2 \<leftarrow> write_buffer_free tmp (set_slot i (set_list pr next (sub_wb_size (int n) s)) ss1);
            send_tcp_loop K i pr next ss2
          }
      | IoAgain \<Rightarrow> Some (None, ss1)
      | _ \<Rightarrow> do {
          (m, ss2) \<leftarrow> force_close K i ss1;
          Some (Some (SOCKET_CLOSE, m), ss2)
        })
   }"

definition send_list_tcp :: "'k kernel \<Rightarrow> nat \<Rightarrow> priority \<Rightarrow> 'k socket_server \<Rightarrow> 'k result" where
  "send_list_tcp K i pr ss = send_tcp_loop K i pr (get_list pr (ss_slot ss i)) ss"

text \<open>\<open>None\<close> for the address length 0 of a wrong family.\<close>

definition udp_socket_address :: "socket \<Rightarrow> byte list \<Rightarrow> sockaddr option" where
  "udp_socket_address s udp_address =
     (if hd udp_address \<noteq> protocol_code (so_protocol s) then None
      else case so_protocol s of
        PROTOCOL_UDP \<Rightarrow> Some (V4 (take 2 (drop 1 udp_address)) (take 4 (drop 3 udp_address)))
      | PROTOCOL_UDPv6 \<Rightarrow> Some (V6 (take 2 (drop 1 udp_address)) (take 16 (drop 3 udp_address)))
      | PROTOCOL_TCP \<Rightarrow> None)"

fun send_udp_loop :: "'k kernel \<Rightarrow> nat \<Rightarrow> priority \<Rightarrow> write_buffer list \<Rightarrow> 'k socket_server \<Rightarrow> 'k result" where
  "send_udp_loop K i pr [] ss = Some (None, ss)"
| "send_udp_loop K i pr (tmp # next) ss = do {
     bs \<leftarrow> load (wb_ptr tmp) (wb_sz tmp) ss;
     let s = ss_slot ss i;
     let (r, ss1) = sys (k_sendto K (so_fd s) bs (udp_socket_address s (wb_udp_address tmp))) ss;
     (case r of
        IoDone n \<Rightarrow> do {
          ss2 \<leftarrow> write_buffer_free tmp (set_slot i (set_list pr next (sub_wb_size (wb_sz tmp) s)) ss1);
          send_udp_loop K i pr next ss2
        }
      | _ \<Rightarrow> Some (None, ss1))
   }"

definition send_list_udp :: "'k kernel \<Rightarrow> nat \<Rightarrow> priority \<Rightarrow> 'k socket_server \<Rightarrow> 'k result" where
  "send_list_udp K i pr ss = send_udp_loop K i pr (get_list pr (ss_slot ss i)) ss"

definition send_list :: "'k kernel \<Rightarrow> nat \<Rightarrow> priority \<Rightarrow> 'k socket_server \<Rightarrow> 'k result" where
  "send_list K i pr ss =
     (if so_protocol (ss_slot ss i) = PROTOCOL_TCP then send_list_tcp K i pr ss else send_list_udp K i pr ss)"

text \<open>\<open>wb->ptr != wb->buffer\<close> for the first of the list.\<close>

definition list_uncomplete :: "write_buffer list \<Rightarrow> bool" where
  "list_uncomplete l = (case l of [] \<Rightarrow> False | wb # _ \<Rightarrow> wb_ptr wb \<noteq> (wb_buffer wb, 0))"

definition raise_uncomplete :: "socket \<Rightarrow> socket option" where
  "raise_uncomplete s = (case so_low s of
       [] \<Rightarrow> None
     | tmp # next \<Rightarrow> if so_high s \<noteq> [] then None else Some (s\<lparr>so_low := next, so_high := [tmp]\<rparr>))"

definition send_buffer :: "'k kernel \<Rightarrow> nat \<Rightarrow> 'k socket_server \<Rightarrow> 'k result" where
  "send_buffer K i ss =
     (if list_uncomplete (so_low (ss_slot ss i)) then None
      else do {
        (r, ss1) \<leftarrow> send_list K i PRIORITY_HIGH ss;
        let s1 = ss_slot ss1 i;
        if r \<noteq> None then Some (r, ss1)
        else if so_high s1 \<noteq> [] then Some (None, ss1)
        else if so_low s1 \<noteq> [] then do {
          (r2, ss2) \<leftarrow> send_list K i PRIORITY_LOW ss1;
          let s2 = ss_slot ss2 i;
          if r2 \<noteq> None then Some (r2, ss2)
          else if list_uncomplete (so_low s2) then do {
            s3 \<leftarrow> raise_uncomplete s2;
            Some (None, set_slot i s3 ss2)
          }
          else Some (None, ss2)
        }
        else do {
          let ss2 = sp_write (so_fd s1) (Some i) False ss1;
          if so_type s1 = SOCKET_TYPE_HALFCLOSE then do {
            (m, ss3) \<leftarrow> force_close K i ss2;
            Some (Some (SOCKET_CLOSE, m), ss3)
          }
          else Some (None, ss2)
        }
      })"

text \<open>\<open>append_sendbuffer_\<close>; a TCP buffer has no address.\<close>

definition append_sendbuffer_at :: "nat \<Rightarrow> priority \<Rightarrow> addr \<Rightarrow> int \<Rightarrow> nat \<Rightarrow> byte list \<Rightarrow> 'k socket_server
    \<Rightarrow> 'k socket_server option" where
  "append_sendbuffer_at i pr buffer sz n udp_address ss = do {
     so \<leftarrow> send_object_init buffer sz ss;
     let s = ss_slot ss i;
     let buf = \<lparr>wb_buffer = buffer, wb_ptr = (so_buffer so, n), wb_sz = so_sz so - int n,
                wb_userobject = so_user so, wb_udp_address = udp_address\<rparr>;
     Some (set_slot i (set_list pr (get_list pr s @ [buf]) (sub_wb_size (- wb_sz buf) s)) ss)
   }"

definition append_sendbuffer_udp :: "nat \<Rightarrow> priority \<Rightarrow> addr \<Rightarrow> int \<Rightarrow> byte list \<Rightarrow> 'k socket_server
    \<Rightarrow> 'k socket_server option" where
  "append_sendbuffer_udp i pr buffer sz udp_address ss = append_sendbuffer_at i pr buffer sz 0 udp_address ss"

definition append_sendbuffer :: "nat \<Rightarrow> addr \<Rightarrow> int \<Rightarrow> nat \<Rightarrow> 'k socket_server \<Rightarrow> 'k socket_server option" where
  "append_sendbuffer i buffer sz n ss = append_sendbuffer_at i PRIORITY_HIGH buffer sz n [] ss"

definition append_sendbuffer_low :: "nat \<Rightarrow> addr \<Rightarrow> int \<Rightarrow> 'k socket_server \<Rightarrow> 'k socket_server option" where
  "append_sendbuffer_low i buffer sz ss = append_sendbuffer_at i PRIORITY_LOW buffer sz 0 [] ss"

definition send_buffer_empty :: "socket \<Rightarrow> bool" where
  "send_buffer_empty s \<longleftrightarrow> so_high s = [] \<and> so_low s = []"

definition p_udp_address :: "socket \<Rightarrow> byte list option" where
  "p_udp_address s = (case so_p s of Size _ \<Rightarrow> None | Udp_address a \<Rightarrow> Some a)"

definition p_size :: "socket \<Rightarrow> int option" where
  "p_size s = (case so_p s of Size n \<Rightarrow> Some n | Udp_address _ \<Rightarrow> None)"

text \<open>The address of a package to be sent: the given one, or the one set for the socket.\<close>

definition target_address :: "byte list option \<Rightarrow> socket \<Rightarrow> byte list option" where
  "target_address udp_address s = (case udp_address of None \<Rightarrow> p_udp_address s | Some a \<Rightarrow> Some a)"

text \<open>The branch of \<open>send_socket\<close> that writes to a TCP connection with nothing queued.\<close>

definition send_direct_tcp :: "'k kernel \<Rightarrow> nat \<Rightarrow> addr \<Rightarrow> int \<Rightarrow> send_object \<Rightarrow> 'k socket_server \<Rightarrow> 'k result" where
  "send_direct_tcp K i buffer sz so ss = do {
     bs \<leftarrow> load (so_buffer so, 0) (so_sz so) ss;
     let (r, ss1) = sys (k_write K (so_fd (ss_slot ss i)) bs) ss;
     (case r of
        IoFail \<Rightarrow> do {
          (m, ss2) \<leftarrow> force_close K i ss1;
          ss3 \<leftarrow> free_func (so_user so) buffer ss2;
          Some (Some (SOCKET_CLOSE, m), ss3)
        }
      | _ \<Rightarrow>
          let n = (case r of IoDone n \<Rightarrow> n | _ \<Rightarrow> 0) in
          if int n = so_sz so then do {
            ss2 \<leftarrow> free_func (so_user so) buffer ss1;
            Some (None, ss2)
          }
          else do {
            ss2 \<leftarrow> append_sendbuffer i buffer sz n ss1;
            Some (None, sp_write (so_fd (ss_slot ss2 i)) (Some i) True ss2)
          })
   }"

definition send_direct_udp :: "'k kernel \<Rightarrow> nat \<Rightarrow> priority \<Rightarrow> addr \<Rightarrow> int \<Rightarrow> byte list option \<Rightarrow> send_object
    \<Rightarrow> 'k socket_server \<Rightarrow> 'k result" where
  "send_direct_udp K i pr buffer sz udp_address so ss = do {
     let s = ss_slot ss i;
     address \<leftarrow> target_address udp_address s;
     bs \<leftarrow> load (so_buffer so, 0) (so_sz so) ss;
     let (r, ss1) = sys (k_sendto K (so_fd s) bs (udp_socket_address s address)) ss;
     if (case r of IoDone n \<Rightarrow> int n = so_sz so | _ \<Rightarrow> False) then do {
       ss2 \<leftarrow> free_func (so_user so) buffer ss1;
       Some (None, ss2)
     }
     else do {
       ss2 \<leftarrow> append_sendbuffer_udp i pr buffer sz address ss1;
       Some (None, sp_write (so_fd (ss_slot ss2 i)) (Some i) True ss2)
     }
   }"

definition send_socket :: "'k kernel \<Rightarrow> int \<Rightarrow> int \<Rightarrow> addr \<Rightarrow> priority \<Rightarrow> byte list option
    \<Rightarrow> 'k socket_server \<Rightarrow> 'k result" where
  "send_socket K sid sz buffer pr udp_address ss = do {
     let i = HASH_ID sid;
     let s = ss_slot ss i;
     so \<leftarrow> send_object_init buffer sz ss;
     if so_type s = SOCKET_TYPE_INVALID \<or> so_id s \<noteq> sid \<or> so_type s = SOCKET_TYPE_HALFCLOSE \<or>
        so_type s = SOCKET_TYPE_PACCEPT \<or> so_type s = SOCKET_TYPE_PLISTEN \<or> so_type s = SOCKET_TYPE_LISTEN
     then do {
       ss1 \<leftarrow> free_func (so_user so) buffer ss;
       Some (None, ss1)
     }
     else if send_buffer_empty s \<and> so_type s = SOCKET_TYPE_CONNECTED then
       (if so_protocol s = PROTOCOL_TCP then send_direct_tcp K i buffer sz so ss
        else send_direct_udp K i pr buffer sz udp_address so ss)
     else if so_protocol s = PROTOCOL_TCP then do {
       ss1 \<leftarrow> (case pr of PRIORITY_LOW \<Rightarrow> append_sendbuffer_low i buffer sz ss
                        | PRIORITY_HIGH \<Rightarrow> append_sendbuffer i buffer sz 0 ss);
       Some (None, ss1)
     }
     else do {
       address \<leftarrow> target_address udp_address s;
       ss1 \<leftarrow> append_sendbuffer_udp i pr buffer sz address ss;
       Some (None, ss1)
     }
   }"

section \<open>The other commands\<close>

definition listen_socket :: "'k kernel \<Rightarrow> int \<Rightarrow> int \<Rightarrow> u32 \<Rightarrow> 'k socket_server \<Rightarrow> 'k result" where
  "listen_socket K sid listen_fd opaque ss = do {
     (ok, ss1) \<leftarrow> new_fd K sid listen_fd PROTOCOL_TCP opaque False ss;
     if ok then
       Some (None, set_slot (HASH_ID sid) ((ss_slot ss1 (HASH_ID sid))\<lparr>so_type := SOCKET_TYPE_PLISTEN\<rparr>) ss1)
     else
       Some (Some (SOCKET_ERROR, \<lparr>sm_id = sid, sm_opaque = opaque, sm_ud = 0, sm_data = Null\<rparr>),
             invalidate sid (close_fd K listen_fd ss1))
   }"

definition close_socket :: "'k kernel \<Rightarrow> int \<Rightarrow> u32 \<Rightarrow> 'k socket_server \<Rightarrow> 'k result" where
  "close_socket K sid opaque ss =
     (let i = HASH_ID sid; s = ss_slot ss i in
      if so_type s = SOCKET_TYPE_INVALID \<or> so_id s \<noteq> sid then
        Some (Some (SOCKET_CLOSE, \<lparr>sm_id = sid, sm_opaque = opaque, sm_ud = 0, sm_data = Null\<rparr>), ss)
      else do {
        (r, ss1) \<leftarrow> (if \<not> send_buffer_empty s then send_buffer K i ss else Some (None, ss));
        if r \<noteq> None then Some (r, ss1)
        else if send_buffer_empty (ss_slot ss1 i) then do {
          (m, ss2) \<leftarrow> force_close K i ss1;
          Some (Some (SOCKET_CLOSE, m\<lparr>sm_id := sid, sm_opaque := opaque\<rparr>), ss2)
        }
        else Some (None, set_slot i ((ss_slot ss1 i)\<lparr>so_type := SOCKET_TYPE_HALFCLOSE\<rparr>) ss1)
      })"

definition bind_socket :: "'k kernel \<Rightarrow> int \<Rightarrow> int \<Rightarrow> u32 \<Rightarrow> 'k socket_server \<Rightarrow> 'k result" where
  "bind_socket K sid fd opaque ss =
     (let m = \<lparr>sm_id = sid, sm_opaque = opaque, sm_ud = 0, sm_data = Null\<rparr> in do {
        (ok, ss1) \<leftarrow> new_fd K sid fd PROTOCOL_TCP opaque True ss;
        if \<not> ok then Some (Some (SOCKET_ERROR, m), ss1)
        else
          let ss2 = sp_nonblocking K fd ss1 in
          Some (Some (SOCKET_OPEN, m\<lparr>sm_data := Text (str ''binding'')\<rparr>),
                set_slot (HASH_ID sid) ((ss_slot ss2 (HASH_ID sid))\<lparr>so_type := SOCKET_TYPE_BIND\<rparr>) ss2)
      })"

definition start_socket :: "'k kernel \<Rightarrow> int \<Rightarrow> u32 \<Rightarrow> 'k socket_server \<Rightarrow> 'k result" where
  "start_socket K sid opaque ss =
     (let i = HASH_ID sid; s = ss_slot ss i;
          m = \<lparr>sm_id = sid, sm_opaque = opaque, sm_ud = 0, sm_data = Null\<rparr> in
      if so_type s = SOCKET_TYPE_INVALID \<or> so_id s \<noteq> sid then Some (Some (SOCKET_ERROR, m), ss)
      else if so_type s = SOCKET_TYPE_PACCEPT \<or> so_type s = SOCKET_TYPE_PLISTEN then
        (let (failed, ss1) = sp_add K (so_fd s) (Some i) ss in
         if failed then Some (Some (SOCKET_ERROR, m), set_slot i (s\<lparr>so_type := SOCKET_TYPE_INVALID\<rparr>) ss1)
         else Some (Some (SOCKET_OPEN, m\<lparr>sm_data := Text (str ''start'')\<rparr>),
           set_slot i (s\<lparr>so_type := (if so_type s = SOCKET_TYPE_PACCEPT then SOCKET_TYPE_CONNECTED
                                     else SOCKET_TYPE_LISTEN), so_opaque := opaque\<rparr>) ss1))
      else if so_type s = SOCKET_TYPE_CONNECTED then
        Some (Some (SOCKET_OPEN, m\<lparr>sm_data := Text (str ''transfer'')\<rparr>), set_slot i (s\<lparr>so_opaque := opaque\<rparr>) ss)
      else Some (None, ss))"

definition setopt_socket :: "'k kernel \<Rightarrow> int \<Rightarrow> int \<Rightarrow> int \<Rightarrow> 'k socket_server \<Rightarrow> 'k socket_server" where
  "setopt_socket K sid what v ss =
     (let s = ss_slot ss (HASH_ID sid) in
      if so_type s = SOCKET_TYPE_INVALID \<or> so_id s \<noteq> sid then ss
      else snd (sys (k_setsockopt K (so_fd s) what v) ss))"

definition add_udp_socket :: "'k kernel \<Rightarrow> int \<Rightarrow> int \<Rightarrow> bool \<Rightarrow> u32 \<Rightarrow> 'k socket_server \<Rightarrow> 'k socket_server option" where
  "add_udp_socket K sid fd v6 opaque ss = do {
     let proto = (if v6 then PROTOCOL_UDPv6 else PROTOCOL_UDP);
     (ok, ss1) \<leftarrow> new_fd K sid fd proto opaque True ss;
     if \<not> ok then Some (invalidate sid (close_fd K fd ss1))
     else Some (set_slot (HASH_ID sid) ((ss_slot ss1 (HASH_ID sid))
            \<lparr>so_type := SOCKET_TYPE_CONNECTED, so_p := Udp_address (replicate UDP_ADDRESS_SIZE 0)\<rparr>) ss1)
   }"

text \<open>\<open>memcpy\<close> over the front of the address; the union must hold an address.\<close>

definition set_udp_address :: "int \<Rightarrow> byte list \<Rightarrow> 'k socket_server \<Rightarrow> 'k result" where
  "set_udp_address sid address ss =
     (let i = HASH_ID sid; s = ss_slot ss i in
      if so_type s = SOCKET_TYPE_INVALID \<or> so_id s \<noteq> sid then Some (None, ss)
      else if hd address \<noteq> protocol_code (so_protocol s) then
        Some (Some (SOCKET_ERROR, \<lparr>sm_id = so_id s, sm_opaque = so_opaque s, sm_ud = 0, sm_data = Null\<rparr>), ss)
      else do {
        old \<leftarrow> p_udp_address s;
        let n = (if hd address = protocol_code PROTOCOL_UDP then 1+2+4 else 1+2+16);
        if length address < n then None
        else Some (None, set_slot i (s\<lparr>so_p := Udp_address (take n address @ drop n old)\<rparr>) ss)
      })"

definition has_cmd :: "'k socket_server \<Rightarrow> bool" where
  "has_cmd ss \<longleftrightarrow> ss_pipe ss \<noteq> []"

definition ctrl_cmd :: "'k kernel \<Rightarrow> 'k socket_server \<Rightarrow> 'k result" where
  "ctrl_cmd K ss0 = (case ss_pipe ss0 of
       [] \<Rightarrow> None
     | req # rest \<Rightarrow>
         let ss = ss0\<lparr>ss_pipe := rest\<rparr> in
         (case req of
            Request_S sid opaque \<Rightarrow> start_socket K sid opaque ss
          | Request_B sid fd opaque \<Rightarrow> bind_socket K sid fd opaque ss
          | Request_L sid fd opaque \<Rightarrow> listen_socket K sid fd opaque ss
          | Request_K sid opaque \<Rightarrow> close_socket K sid opaque ss
          | Request_O sid port opaque host \<Rightarrow> open_socket K sid port opaque host ss
          | Request_X \<Rightarrow> Some (Some (SOCKET_EXIT, blank_message), ss)
          | Request_D sid sz buffer \<Rightarrow> send_socket K sid sz buffer PRIORITY_HIGH None ss
          | Request_P sid sz buffer \<Rightarrow> send_socket K sid sz buffer PRIORITY_LOW None ss
          | Request_A sid sz buffer address \<Rightarrow> send_socket K sid sz buffer PRIORITY_HIGH (Some address) ss
          | Request_C sid address \<Rightarrow> set_udp_address sid address ss
          | Request_T sid what v \<Rightarrow> Some (None, setopt_socket K sid what v ss)
          | Request_U sid fd v6 opaque \<Rightarrow> map_option (\<lambda>ss1. (None, ss1)) (add_udp_socket K sid fd v6 opaque ss)))"

section \<open>Reading\<close>

text \<open>An \<open>int\<close> that overflowed is negative: the allocation of the next read would fail.\<close>

definition forward_message_tcp :: "'k kernel \<Rightarrow> nat \<Rightarrow> 'k socket_server \<Rightarrow> 'k result" where
  "forward_message_tcp K i ss = do {
     let s = ss_slot ss i;
     sz \<leftarrow> p_size s;
     if sz < 0 then None
     else do {
       let (r, ss1) = sys (k_read K (so_fd s) (nat sz)) ss;
       (case r of
          ReadIntr \<Rightarrow> Some (None, ss1)
        | ReadAgain \<Rightarrow> Some (None, ss1)
        | ReadFail \<Rightarrow> do {
            (m, ss2) \<leftarrow> force_close K i ss1;
            Some (Some (SOCKET_ERROR, m), ss2)
          }
        | ReadDone bs \<Rightarrow>
            let n = int (length bs) in
            if n = 0 then do {
              (m, ss2) \<leftarrow> force_close K i ss1;
              Some (Some (SOCKET_CLOSE, m), ss2)
            }
            else if so_type s = SOCKET_TYPE_HALFCLOSE then Some (None, ss1)
            else
              let sz1 = (if n = sz then as_int (sz * 2)
                         else if sz > MIN_READ_BUFFER \<and> n * 2 < sz then sz div 2 else sz) in
              Some (Some (SOCKET_DATA, \<lparr>sm_id = so_id s, sm_opaque = so_opaque s, sm_ud = n, sm_data = Received bs\<rparr>),
                    set_slot i (s\<lparr>so_p := Size sz1\<rparr>) ss1))
     }
   }"

fun gen_udp_address :: "sockaddr \<Rightarrow> byte list" where
  "gen_udp_address (V4 port host) = protocol_code PROTOCOL_UDP # port @ host"
| "gen_udp_address (V6 port host) = protocol_code PROTOCOL_UDPv6 # port @ host"

definition forward_message_udp :: "'k kernel \<Rightarrow> nat \<Rightarrow> 'k socket_server \<Rightarrow> 'k result" where
  "forward_message_udp K i ss =
     (let s = ss_slot ss i;
          (r, ss1) = sys (k_recvfrom K (so_fd s) MAX_UDP_PACKAGE) ss in
      case r of
        RecvIntr \<Rightarrow> Some (None, ss1)
      | RecvAgain \<Rightarrow> Some (None, ss1)
      | RecvFail \<Rightarrow> do {
          (m, ss2) \<leftarrow> force_close K i ss1;
          Some (Some (SOCKET_ERROR, m), ss2)
        }
      | RecvDone bs sa \<Rightarrow>
          if (case sa of V4 _ _ \<Rightarrow> so_protocol s \<noteq> PROTOCOL_UDP | V6 _ _ \<Rightarrow> so_protocol s \<noteq> PROTOCOL_UDPv6)
          then Some (None, ss1)
          else Some (Some (SOCKET_UDP, \<lparr>sm_id = so_id s, sm_opaque = so_opaque s, sm_ud = int (length bs),
                     sm_data = Received (bs @ gen_udp_address sa)\<rparr>), ss1))"

definition report_connect :: "'k kernel \<Rightarrow> nat \<Rightarrow> 'k socket_server \<Rightarrow> 'k result" where
  "report_connect K i ss =
     (let (error, ss1) = sys (k_so_error K (so_fd (ss_slot ss i))) ss in
      if error then do {
        (m, ss2) \<leftarrow> force_close K i ss1;
        Some (Some (SOCKET_ERROR, m), ss2)
      }
      else
        let s = (ss_slot ss1 i)\<lparr>so_type := SOCKET_TYPE_CONNECTED\<rparr>;
            ss2 = set_slot i s ss1;
            ss3 = (if send_buffer_empty s then sp_write (so_fd s) (Some i) False ss2 else ss2);
            (peer, ss4) = sys (k_peername K (so_fd s)) ss3 in
        Some (Some (SOCKET_OPEN, \<lparr>sm_id = so_id s, sm_opaque = so_opaque s, sm_ud = 0, sm_data = text_data peer\<rparr>), ss4))"

text \<open>\<open>report_accept\<close>: the message, or the C value 0.\<close>

definition report_accept :: "'k kernel \<Rightarrow> nat \<Rightarrow> 'k socket_server
    \<Rightarrow> (socket_message option \<times> 'k socket_server) option" where
  "report_accept K i ss =
     (let s = ss_slot ss i;
          (client, ss1) = sys (k_accept K (so_fd s)) ss in
      case client of
        None \<Rightarrow> Some (None, ss1)
      | Some (client_fd, host, port) \<Rightarrow>
          if client_fd < 0 then Some (None, ss1)
          else
            let (sid, ss2) = reserve_id ss1 in
            if sid < 0 then Some (None, close_fd K client_fd ss2)
            else do {
              let ss3 = sp_nonblocking K client_fd (socket_keepalive K client_fd ss2);
              (ok, ss4) \<leftarrow> new_fd K sid client_fd PROTOCOL_TCP (so_opaque s) False ss3;
              if \<not> ok then Some (None, close_fd K client_fd ss4)
              else
                let ss5 = set_slot (HASH_ID sid)
                            ((ss_slot ss4 (HASH_ID sid))\<lparr>so_type := SOCKET_TYPE_PACCEPT\<rparr>) ss4;
                    t = map_option (\<lambda>h. take 127 (h @ str '':'' @ print_nat 10 port)) host in
                Some (Some \<lparr>sm_id = so_id (ss_slot ss5 i), sm_opaque = so_opaque s, sm_ud = sid, sm_data = text_data t\<rparr>, ss5)
            })"

section \<open>The event loop\<close>

definition clear_closed_event :: "socket_event \<Rightarrow> socket_message \<Rightarrow> 'k socket_server \<Rightarrow> 'k socket_server" where
  "clear_closed_event e m ss =
     (if e = SOCKET_CLOSE \<or> e = SOCKET_ERROR then
        ss\<lparr>ss_ev := take (ss_event_index ss) (ss_ev ss) @
             map (\<lambda>v. case ev_s v of
                    None \<Rightarrow> v
                  | Some i \<Rightarrow> if so_type (ss_slot ss i) = SOCKET_TYPE_INVALID \<and> so_id (ss_slot ss i) = sm_id m
                              then v\<lparr>ev_s := None\<rparr> else v)
               (drop (ss_event_index ss) (ss_ev ss))\<rparr>
      else ss)"

definition cleared :: "(socket_event \<times> socket_message) option \<times> 'k socket_server
    \<Rightarrow> (socket_event \<times> socket_message) option \<times> 'k socket_server" where
  "cleared r = (case r of (None, ss) \<Rightarrow> (None, ss) | (Some (e, m), ss) \<Rightarrow> (Some (e, m), clear_closed_event e m ss))"

text \<open>The events that are left of the last \<open>sp_wait\<close>, with the one at hand changed.\<close>

definition put_event :: "event \<Rightarrow> 'k socket_server \<Rightarrow> 'k socket_server" where
  "put_event e ss = ss\<lparr>ss_event_index := ss_event_index ss - 1, ss_ev := (ss_ev ss)[ss_event_index ss - 1 := e]\<rparr>"

text \<open>The dispatch of one event, whose index has been passed: the \<open>default\<close> case first.\<close>

definition event_default :: "'k kernel \<Rightarrow> event \<Rightarrow> nat \<Rightarrow> 'k socket_server \<Rightarrow> 'k result" where
  "event_default K e i ss =
     (if ev_read e then do {
        (r, ss1) \<leftarrow> (if so_protocol (ss_slot ss i) = PROTOCOL_TCP then forward_message_tcp K i ss
                    else forward_message_udp K i ss);
        if \<exists>m\<in>set_option r. fst m = SOCKET_UDP then Some (r, put_event e ss1)
        else Some (cleared (r, if ev_write e then put_event (e\<lparr>ev_read := False\<rparr>) ss1 else ss1))
      }
      else if ev_write e then map_option cleared (send_buffer K i ss)
      else Some (None, ss))"

definition dispatch_event :: "'k kernel \<Rightarrow> event \<Rightarrow> 'k socket_server \<Rightarrow> 'k result" where
  "dispatch_event K e ss = (case ev_s e of
       None \<Rightarrow> Some (None, ss)
     | Some i \<Rightarrow>
         (case so_type (ss_slot ss i) of
            SOCKET_TYPE_CONNECTING \<Rightarrow> report_connect K i ss
          | SOCKET_TYPE_LISTEN \<Rightarrow>
              map_option (\<lambda>(m, ss1). (map_option (Pair SOCKET_ACCEPT) m, ss1)) (report_accept K i ss)
          | SOCKET_TYPE_INVALID \<Rightarrow> Some (None, ss)
          | _ \<Rightarrow> event_default K e i ss))"

text \<open>One turn of the \<open>for (;;)\<close>: it goes on, or returns an event or -1; and \<open>*more\<close>.\<close>

datatype turn = Continue | Return "(socket_event \<times> socket_message) option"

definition turn_of :: "(socket_event \<times> socket_message) option \<times> 'k socket_server \<Rightarrow> turn \<times> 'k socket_server" where
  "turn_of r = (case r of (None, ss) \<Rightarrow> (Continue, ss) | (Some m, ss) \<Rightarrow> (Return (Some m), ss))"

definition next_event :: "'k kernel \<Rightarrow> 'k socket_server \<Rightarrow> (turn \<times> 'k socket_server) option" where
  "next_event K ss = map_option turn_of
     (dispatch_event K (ss_ev ss ! ss_event_index ss) (ss\<lparr>ss_event_index := ss_event_index ss + 1\<rparr>))"

definition poll_turn :: "'k kernel \<Rightarrow> bool \<Rightarrow> 'k socket_server \<Rightarrow> (turn \<times> bool \<times> 'k socket_server) option" where
  "poll_turn K mo ss =
     (if ss_checkctrl ss \<and> has_cmd ss then
        map_option (\<lambda>r. let (t, ss1) = turn_of (cleared r) in (t, mo, ss1)) (ctrl_cmd K ss)
      else
        let ss1 = ss\<lparr>ss_checkctrl := False\<rparr> in
        if ss_event_index ss1 = length (ss_ev ss1) then
          let (evs, ss2) = sys (k_epoll_wait K (ss_epoll ss1) MAX_EVENT) ss1;
              ss3 = ss2\<lparr>ss_ev := evs, ss_checkctrl := True, ss_event_index := 0\<rparr> in
          if evs = [] then Some (Return None, False, ss3)
          else map_option (\<lambda>(t, ss4). (t, False, ss4)) (next_event K ss3)
        else map_option (\<lambda>(t, ss4). (t, mo, ss4)) (next_event K ss1))"

partial_function (option) socket_server_poll :: "'k kernel \<Rightarrow> bool \<Rightarrow> 'k socket_server
    \<Rightarrow> ((socket_event \<times> socket_message) option \<times> bool \<times> 'k socket_server) option" where
  "socket_server_poll K mo ss =
     Option.bind (poll_turn K mo ss) (\<lambda>(t, mo1, ss1).
       case t of Continue \<Rightarrow> socket_server_poll K mo1 ss1 | Return r \<Rightarrow> Some (r, mo1, ss1))"

section \<open>What the clients call\<close>

definition send_request :: "request \<Rightarrow> 'k socket_server \<Rightarrow> 'k socket_server" where
  "send_request req ss = ss\<lparr>ss_pipe := ss_pipe ss @ [req]\<rparr>"

text \<open>\<open>sizeof(struct request_open)\<close>: two integers, a pointer and one byte, aligned to 8.\<close>

definition SIZEOF_REQUEST_OPEN :: nat where "SIZEOF_REQUEST_OPEN = 24"

definition socket_server_connect :: "u32 \<Rightarrow> byte list \<Rightarrow> int \<Rightarrow> 'k socket_server \<Rightarrow> int \<times> 'k socket_server" where
  "socket_server_connect opaque host port ss =
     (if 256 \<le> length host + SIZEOF_REQUEST_OPEN then (-1, ss)
      else let (sid, ss1) = reserve_id ss in
        if sid < 0 then (-1, ss1) else (sid, send_request (Request_O sid port opaque host) ss1))"

definition free_buffer :: "addr \<Rightarrow> int \<Rightarrow> 'k socket_server \<Rightarrow> 'k socket_server option" where
  "free_buffer buffer sz ss = do {
     so \<leftarrow> send_object_init buffer sz ss;
     free_func (so_user so) buffer ss
   }"

definition socket_server_send :: "int \<Rightarrow> addr \<Rightarrow> int \<Rightarrow> 'k socket_server \<Rightarrow> (int \<times> 'k socket_server) option" where
  "socket_server_send sid buffer sz ss =
     (let s = ss_slot ss (HASH_ID sid) in
      if so_id s \<noteq> sid \<or> so_type s = SOCKET_TYPE_INVALID then map_option (Pair (-1)) (free_buffer buffer sz ss)
      else Some (so_wb_size s, send_request (Request_D sid sz buffer) ss))"

definition socket_server_send_lowpriority :: "int \<Rightarrow> addr \<Rightarrow> int \<Rightarrow> 'k socket_server \<Rightarrow> 'k socket_server option" where
  "socket_server_send_lowpriority sid buffer sz ss =
     (let s = ss_slot ss (HASH_ID sid) in
      if so_id s \<noteq> sid \<or> so_type s = SOCKET_TYPE_INVALID then free_buffer buffer sz ss
      else Some (send_request (Request_P sid sz buffer) ss))"

definition socket_server_exit :: "'k socket_server \<Rightarrow> 'k socket_server" where
  "socket_server_exit ss = send_request Request_X ss"

definition socket_server_close :: "u32 \<Rightarrow> int \<Rightarrow> 'k socket_server \<Rightarrow> 'k socket_server" where
  "socket_server_close opaque sid ss = send_request (Request_K sid opaque) ss"

text \<open>\<open>do_bind\<close>: the descriptor or -1, and whether the family is IPv6.\<close>

definition do_bind :: "'k kernel \<Rightarrow> byte list option \<Rightarrow> int \<Rightarrow> bool \<Rightarrow> 'k socket_server
    \<Rightarrow> (int \<times> bool \<times> 'k socket_server) option" where
  "do_bind K addr port tcp ss =
     (let host = (case addr of None \<Rightarrow> str ''0.0.0.0'' | Some h \<Rightarrow> if h = [] then str ''0.0.0.0'' else h);
          (ai_list, ss1) = sys (k_getaddrinfo K host port) ss in
      case ai_list of
        None \<Rightarrow> Some (-1, False, ss1)
      | Some [] \<Rightarrow> None
      | Some (ai # _) \<Rightarrow>
          let v6 = (case ai_addr ai of V4 _ _ \<Rightarrow> False | V6 _ _ \<Rightarrow> True);
              (fd, ss2) = sys (k_socket K tcp) ss1 in
          if fd < 0 then Some (-1, v6, ss2)
          else
            let (failed, ss3) = sys (k_setsockopt K fd SO_REUSEADDR 1) ss2 in
            if failed then Some (-1, v6, close_fd K fd ss3)
            else
              let (failed2, ss4) = sys (k_bind K fd (ai_addr ai)) ss3 in
              if failed2 then Some (-1, v6, close_fd K fd ss4) else Some (fd, v6, ss4))"

definition do_listen :: "'k kernel \<Rightarrow> byte list option \<Rightarrow> int \<Rightarrow> int \<Rightarrow> 'k socket_server
    \<Rightarrow> (int \<times> 'k socket_server) option" where
  "do_listen K host port backlog ss = do {
     (fd, v6, ss1) \<leftarrow> do_bind K host port True ss;
     if fd < 0 then Some (-1, ss1)
     else
       let (failed, ss2) = sys (k_listen K fd backlog) ss1 in
       if failed then Some (-1, close_fd K fd ss2) else Some (fd, ss2)
   }"

definition socket_server_listen :: "'k kernel \<Rightarrow> u32 \<Rightarrow> byte list option \<Rightarrow> int \<Rightarrow> int \<Rightarrow> 'k socket_server
    \<Rightarrow> (int \<times> 'k socket_server) option" where
  "socket_server_listen K opaque addr port backlog ss = do {
     (fd, ss1) \<leftarrow> do_listen K addr port backlog ss;
     if fd < 0 then Some (-1, ss1)
     else
       let (sid, ss2) = reserve_id ss1 in
       if sid < 0 then Some (sid, close_fd K fd ss2)
       else Some (sid, send_request (Request_L sid fd opaque) ss2)
   }"

definition socket_server_bind :: "u32 \<Rightarrow> int \<Rightarrow> 'k socket_server \<Rightarrow> int \<times> 'k socket_server" where
  "socket_server_bind opaque fd ss =
     (let (sid, ss1) = reserve_id ss in
      if sid < 0 then (-1, ss1) else (sid, send_request (Request_B sid fd opaque) ss1))"

definition socket_server_start :: "u32 \<Rightarrow> int \<Rightarrow> 'k socket_server \<Rightarrow> 'k socket_server" where
  "socket_server_start opaque sid ss = send_request (Request_S sid opaque) ss"

definition socket_server_nodelay :: "int \<Rightarrow> 'k socket_server \<Rightarrow> 'k socket_server" where
  "socket_server_nodelay sid ss = send_request (Request_T sid TCP_NODELAY 1) ss"

definition socket_server_userobject :: "socket_object_interface \<Rightarrow> 'k socket_server \<Rightarrow> 'k socket_server" where
  "socket_server_userobject soi ss = ss\<lparr>ss_soi := Some soi\<rparr>"

definition socket_server_udp :: "'k kernel \<Rightarrow> u32 \<Rightarrow> byte list option \<Rightarrow> int \<Rightarrow> 'k socket_server
    \<Rightarrow> (int \<times> 'k socket_server) option" where
  "socket_server_udp K opaque addr port ss = do {
     (fd, v6, ss1) \<leftarrow>
       (if port \<noteq> 0 \<or> addr \<noteq> None then do_bind K addr port False ss
        else let (fd, ss1) = sys (k_socket K False) ss in Some (fd, False, ss1));
     if fd < 0 then Some (-1, ss1)
     else
       let (sid, ss2) = reserve_id (sp_nonblocking K fd ss1) in
       if sid < 0 then Some (-1, close_fd K fd ss2)
       else Some (sid, send_request (Request_U sid fd v6 opaque) ss2)
   }"

text \<open>The address sizes 1+2+4 and 1+2+16 of the two families, by the first byte.\<close>

definition addrsz :: "byte \<Rightarrow> nat option" where
  "addrsz c = (if c = protocol_code PROTOCOL_UDP then Some (1+2+4)
     else if c = protocol_code PROTOCOL_UDPv6 then Some (1+2+16) else None)"

definition socket_server_udp_send :: "int \<Rightarrow> byte list \<Rightarrow> addr \<Rightarrow> int \<Rightarrow> 'k socket_server
    \<Rightarrow> (int \<times> 'k socket_server) option" where
  "socket_server_udp_send sid udp_address buffer sz ss =
     (let s = ss_slot ss (HASH_ID sid) in
      if so_id s \<noteq> sid \<or> so_type s = SOCKET_TYPE_INVALID then map_option (Pair (-1)) (free_buffer buffer sz ss)
      else case udp_address of
        [] \<Rightarrow> None
      | c # _ \<Rightarrow>
          (case addrsz c of
             None \<Rightarrow> map_option (Pair (-1)) (free_buffer buffer sz ss)
           | Some n \<Rightarrow>
               if length udp_address < n then None
               else Some (so_wb_size s, send_request (Request_A sid sz buffer (take n udp_address)) ss)))"

definition socket_server_udp_connect :: "'k kernel \<Rightarrow> int \<Rightarrow> byte list \<Rightarrow> int \<Rightarrow> 'k socket_server
    \<Rightarrow> (int \<times> 'k socket_server) option" where
  "socket_server_udp_connect K sid addr port ss =
     (let (ai_list, ss1) = sys (k_getaddrinfo K addr port) ss in
      case ai_list of
        None \<Rightarrow> Some (-1, ss1)
      | Some [] \<Rightarrow> None
      | Some (ai # _) \<Rightarrow> Some (0, send_request (Request_C sid (gen_udp_address (ai_addr ai))) ss1))"

text \<open>The address behind the data of a \<open>SOCKET_UDP\<close> message.\<close>

definition socket_server_udp_address :: "byte list \<Rightarrow> nat \<Rightarrow> byte list option option" where
  "socket_server_udp_address data ud = (case drop ud data of
       [] \<Rightarrow> None
     | c # rest \<Rightarrow>
         (case addrsz c of
            None \<Rightarrow> Some None
          | Some n \<Rightarrow> if length rest + 1 < n then None else Some (Some (take n (c # rest)))))"

end
