(* ===== verification/Socket_Inv.thy ===== *)
theory Socket_Inv
  imports Socket_Server
begin

text \<open>
  The invariant of the socket server. Every block of the heap has one owner: a write buffer
  of a slot, a request in the pipe, or the code that is running (\<open>H\<close>); a slot is reserved
  exactly while its creating request is in the pipe or in the hands of the running code
  (\<open>R\<close>); the event poll holds live slots under their descriptors only; and the fields of a
  slot fit its type. Then the steps out of which the operations are made.
\<close>

section \<open>The invariant\<close>

fun live :: "socket_type \<Rightarrow> bool" where
  "live SOCKET_TYPE_INVALID = False"
| "live SOCKET_TYPE_RESERVE = False"
| "live SOCKET_TYPE_PACCEPT = False"
| "live SOCKET_TYPE_PLISTEN = False"
| "live _ = True"

fun unused :: "socket_type \<Rightarrow> bool" where
  "unused SOCKET_TYPE_INVALID = True"
| "unused SOCKET_TYPE_RESERVE = True"
| "unused _ = False"

lemma live_used: "live t \<Longrightarrow> \<not> unused t"
  by (cases t) auto

lemma unused_iff: "unused t \<longleftrightarrow> t = SOCKET_TYPE_INVALID \<or> t = SOCKET_TYPE_RESERVE"
  by (cases t) auto

definition wb_ok :: "heap \<Rightarrow> write_buffer \<Rightarrow> bool" where
  "wb_ok h wb \<longleftrightarrow> \<not> wb_userobject wb \<and> fst (wb_ptr wb) = wb_buffer wb \<and> 0 \<le> wb_sz wb \<and>
     (\<exists>bs. h (wb_buffer wb) = Some bs \<and> snd (wb_ptr wb) + nat (wb_sz wb) \<le> length bs)"

definition buffers :: "socket \<Rightarrow> write_buffer list" where
  "buffers s = so_high s @ so_low s"

text \<open>The union holds what the protocol reads, a read buffer of \<open>64 * 2 ^ k\<close> bytes or an address.\<close>

definition p_ok :: "protocol \<Rightarrow> socket_p \<Rightarrow> bool" where
  "p_ok proto p \<longleftrightarrow> (case p of
       Size n \<Rightarrow> proto = PROTOCOL_TCP \<and> (\<exists>k\<le>24. n = MIN_READ_BUFFER * 2 ^ k)
     | Udp_address a \<Rightarrow> proto \<noteq> PROTOCOL_TCP \<and> length a = UDP_ADDRESS_SIZE)"

definition slot_ok :: "heap \<Rightarrow> socket \<Rightarrow> bool" where
  "slot_ok h s \<longleftrightarrow> (\<forall>wb\<in>set (buffers s). wb_ok h wb) \<and>
     (live (so_type s) \<or> buffers s = []) \<and>
     (unused (so_type s) \<or> p_ok (so_protocol s) (so_p s) \<and> so_wb_size s = sum_list (map wb_sz (buffers s)))"

fun req_id :: "request \<Rightarrow> int" where
  "req_id (Request_S i _) = i"
| "req_id (Request_B i _ _) = i"
| "req_id (Request_L i _ _) = i"
| "req_id (Request_K i _) = i"
| "req_id (Request_O i _ _ _) = i"
| "req_id Request_X = -1"
| "req_id (Request_D i _ _) = i"
| "req_id (Request_P i _ _) = i"
| "req_id (Request_A i _ _ _) = i"
| "req_id (Request_T i _ _) = i"
| "req_id (Request_U i _ _ _) = i"
| "req_id (Request_C i _) = i"

fun creates :: "request \<Rightarrow> bool" where
  "creates (Request_B _ _ _) = True"
| "creates (Request_L _ _ _) = True"
| "creates (Request_O _ _ _ _) = True"
| "creates (Request_U _ _ _ _) = True"
| "creates _ = False"

fun req_buffer :: "request \<Rightarrow> addr list" where
  "req_buffer (Request_D _ _ a) = [a]"
| "req_buffer (Request_P _ _ a) = [a]"
| "req_buffer (Request_A _ _ a _) = [a]"
| "req_buffer _ = []"

definition block_ok :: "heap \<Rightarrow> addr \<Rightarrow> int \<Rightarrow> bool" where
  "block_ok h a sz \<longleftrightarrow> 0 \<le> sz \<and> (\<exists>bs. h a = Some bs \<and> nat sz \<le> length bs)"

fun req_ok :: "heap \<Rightarrow> request \<Rightarrow> bool" where
  "req_ok h (Request_D _ sz a) = block_ok h a sz"
| "req_ok h (Request_P _ sz a) = block_ok h a sz"
| "req_ok h (Request_A _ sz a _) = block_ok h a sz"
| "req_ok h (Request_C _ address) = (\<exists>c rest. address = c # rest \<and> addrsz c = Some (length address))"
| "req_ok h _ = True"

definition created :: "request list \<Rightarrow> int list" where
  "created p = map req_id (filter creates p)"

definition owned :: "addr \<Rightarrow> socket \<Rightarrow> nat" where
  "owned a s = count_list (map wb_buffer (buffers s)) a"

definition owners :: "'k socket_server \<Rightarrow> addr \<Rightarrow> nat" where
  "owners ss a = (\<Sum>i<MAX_SOCKET. owned a (ss_slot ss i)) + count_list (concat (map req_buffer (ss_pipe ss))) a"

definition ids_ok :: "int list \<Rightarrow> (nat \<Rightarrow> socket) \<Rightarrow> bool" where
  "ids_ok L slots \<longleftrightarrow> distinct L \<and>
     (\<forall>i. so_type (slots i) = SOCKET_TYPE_RESERVE \<longrightarrow> so_id (slots i) \<in> set L \<and> HASH_ID (so_id (slots i)) = i) \<and>
     (\<forall>n\<in>set L. so_type (slots (HASH_ID n)) = SOCKET_TYPE_RESERVE \<and> so_id (slots (HASH_ID n)) = n)"

definition static :: "addr list \<Rightarrow> int list \<Rightarrow> 'k socket_server \<Rightarrow> bool" where
  "static H R ss \<longleftrightarrow> ss_soi ss = None \<and> 0 \<le> ss_alloc_id ss \<and> ss_alloc_id ss < 2 ^ 31 \<and>
     (\<forall>i. slot_ok (ss_heap ss) (ss_slot ss i)) \<and>
     (\<forall>i. so_type (ss_slot ss i) \<noteq> SOCKET_TYPE_INVALID \<longrightarrow> HASH_ID (so_id (ss_slot ss i)) = i) \<and>
     (\<forall>a. owners ss a + count_list H a = (if ss_heap ss a = None then 0 else 1)) \<and>
     (\<forall>r\<in>set (ss_pipe ss). req_ok (ss_heap ss) r \<and> req_id r \<le> ss_alloc_id ss) \<and>
     sorted_wrt (\<lambda>r r'. creates r' \<longrightarrow> req_id r \<noteq> req_id r') (ss_pipe ss) \<and>
     ids_ok (created (ss_pipe ss) @ R) (ss_slot ss) \<and>
     (\<forall>fd i w. ss_epoll ss fd = Some (Some i, w) \<longrightarrow> live (so_type (ss_slot ss i)) \<and> so_fd (ss_slot ss i) = fd)"

text \<open>The pending events are of live slots, and of different ones.\<close>

definition ev_ok :: "'k socket_server \<Rightarrow> bool" where
  "ev_ok ss \<longleftrightarrow> ss_event_index ss \<le> length (ss_ev ss) \<and>
     (\<forall>e\<in>set (drop (ss_event_index ss) (ss_ev ss)). \<forall>i. ev_s e = Some i \<longrightarrow> live (so_type (ss_slot ss i))) \<and>
     distinct (List.map_filter ev_s (drop (ss_event_index ss) (ss_ev ss)))"

text \<open>A package of which a part is sent is never in a low list.\<close>

definition lows :: "'k socket_server \<Rightarrow> bool" where
  "lows ss \<longleftrightarrow> (\<forall>i. \<forall>wb\<in>set (so_low (ss_slot ss i)). snd (wb_ptr wb) = 0)"

definition server_ok :: "'k socket_server \<Rightarrow> bool" where
  "server_ok ss \<longleftrightarrow> static [] [] ss \<and> lows ss \<and> ev_ok ss"

text \<open>
  The documented behaviour of the system calls: \<open>write\<close> takes no more than it is given and is
  interrupted finitely often, \<open>read\<close> gives no more than asked for and, as the receive buffers
  of the system are bounded, less than a gigabyte at once, a successful \<open>getaddrinfo\<close> gives an
  address, and the event poll reports registered descriptors, each once.
\<close>

fun sockaddr_ok :: "sockaddr \<Rightarrow> bool" where
  "sockaddr_ok (V4 port host) \<longleftrightarrow> length port = 2 \<and> length host = 4"
| "sockaddr_ok (V6 port host) \<longleftrightarrow> length port = 2 \<and> length host = 16"

definition addresses_ok :: "addrinfo list \<Rightarrow> bool" where
  "addresses_ok ais \<longleftrightarrow> ais \<noteq> [] \<and> (\<forall>ai\<in>set ais. sockaddr_ok (ai_addr ai))"

definition kernel_ok :: "'k kernel \<Rightarrow> bool" where
  "kernel_ok K \<longleftrightarrow>
     (\<forall>fd bs k n k'. k_write K fd bs k = (IoDone n, k') \<longrightarrow> n \<le> length bs) \<and>
     (\<exists>m. \<forall>fd bs k k'. k_write K fd bs k = (IoIntr, k') \<longrightarrow> (m k' :: nat) < m k) \<and>
     (\<forall>fd n k bs k'. k_read K fd n k = (ReadDone bs, k') \<longrightarrow> length bs \<le> n \<and> length bs < 2 ^ 30) \<and>
     (\<forall>host port k ais k'. k_getaddrinfo K host port k = (Some ais, k') \<longrightarrow> addresses_ok ais) \<and>
     (\<forall>ep n k evs k'. k_epoll_wait K ep n k = (evs, k') \<longrightarrow>
        (\<exists>fds. distinct fds \<and> list_all2 (\<lambda>e fd. \<exists>w. ep fd = Some (ev_s e, w)) evs fds))"

lemma kernel_write: "kernel_ok K \<Longrightarrow> k_write K fd bs k = (IoDone n, k') \<Longrightarrow> n \<le> length bs"
  and kernel_interrupts:
    "kernel_ok K \<Longrightarrow> \<exists>m. \<forall>fd bs k k'. k_write K fd bs k = (IoIntr, k') \<longrightarrow> (m k' :: nat) < m k"
  and kernel_read: "kernel_ok K \<Longrightarrow> k_read K fd n k = (ReadDone bs, k') \<Longrightarrow> length bs \<le> n \<and> length bs < 2 ^ 30"
  and kernel_getaddrinfo: "kernel_ok K \<Longrightarrow> k_getaddrinfo K host port k = (Some ais, k') \<Longrightarrow> addresses_ok ais"
  and kernel_epoll_wait: "kernel_ok K \<Longrightarrow> k_epoll_wait K ep n k = (evs, k') \<Longrightarrow>
    \<exists>fds. distinct fds \<and> list_all2 (\<lambda>e fd. \<exists>w. ep fd = Some (ev_s e, w)) evs fds"
  unfolding kernel_ok_def by (elim conjE; meson)+

lemma HASH_ID_less: "HASH_ID n < MAX_SOCKET"
  by (simp add: HASH_ID_def MAX_SOCKET_def nat_less_iff)

lemma staticI:
  assumes "ss_soi ss = None" "0 \<le> ss_alloc_id ss" "ss_alloc_id ss < 2 ^ 31"
    "\<And>i. slot_ok (ss_heap ss) (ss_slot ss i)"
    "\<And>i. so_type (ss_slot ss i) \<noteq> SOCKET_TYPE_INVALID \<Longrightarrow> HASH_ID (so_id (ss_slot ss i)) = i"
    "\<And>a. owners ss a + count_list H a = (if ss_heap ss a = None then 0 else 1)"
    "\<And>r. r \<in> set (ss_pipe ss) \<Longrightarrow> req_ok (ss_heap ss) r \<and> req_id r \<le> ss_alloc_id ss"
    "sorted_wrt (\<lambda>r r'. creates r' \<longrightarrow> req_id r \<noteq> req_id r') (ss_pipe ss)"
    "ids_ok (created (ss_pipe ss) @ R) (ss_slot ss)"
    "\<And>fd i w. ss_epoll ss fd = Some (Some i, w) \<Longrightarrow> live (so_type (ss_slot ss i)) \<and> so_fd (ss_slot ss i) = fd"
  shows "static H R ss"
  unfolding static_def using assms by blast

lemma staticD:
  assumes "static H R ss"
  shows "ss_soi ss = None" "0 \<le> ss_alloc_id ss" "ss_alloc_id ss < 2 ^ 31"
    "slot_ok (ss_heap ss) (ss_slot ss i)"
    "so_type (ss_slot ss i) \<noteq> SOCKET_TYPE_INVALID \<Longrightarrow> HASH_ID (so_id (ss_slot ss i)) = i"
    "owners ss a + count_list H a = (if ss_heap ss a = None then 0 else 1)"
    "r \<in> set (ss_pipe ss) \<Longrightarrow> req_ok (ss_heap ss) r \<and> req_id r \<le> ss_alloc_id ss"
    "sorted_wrt (\<lambda>r r'. creates r' \<longrightarrow> req_id r \<noteq> req_id r') (ss_pipe ss)"
    "ids_ok (created (ss_pipe ss) @ R) (ss_slot ss)"
    "ss_epoll ss fd = Some (Some i, w) \<Longrightarrow> live (so_type (ss_slot ss i)) \<and> so_fd (ss_slot ss i) = fd"
  using assms unfolding static_def by blast+

section \<open>Blocks and their owners\<close>

lemma slot_bound: "static H R ss \<Longrightarrow> so_type (ss_slot ss i) \<noteq> SOCKET_TYPE_INVALID \<Longrightarrow> i < MAX_SOCKET"
  using staticD(5) HASH_ID_less by metis

lemma owned_le: "i < MAX_SOCKET \<Longrightarrow> owned a (ss_slot ss i) \<le> owners ss a"
  unfolding owners_def using member_le_sum [of i "{..<MAX_SOCKET}" "\<lambda>i. owned a (ss_slot ss i)"] by simp

lemma owned_zero: "owned a s = 0 \<longleftrightarrow> a \<notin> wb_buffer ` set (buffers s)"
  by (simp add: owned_def count_list_0_iff)

lemma sum_update:
  assumes "i < (n::nat)"
  shows "(\<Sum>j<n. f ((g(i := s)) j)) + f (g i) = (\<Sum>j<n. f (g j)) + (f s :: nat)"
proof -
  have "(\<Sum>j<n. f ((g(i := s)) j)) = f s + (\<Sum>j\<in>{..<n}-{i}. f (g j))"
    using assms by (subst sum.remove [of _ i]) auto
  moreover have "(\<Sum>j<n. f (g j)) = f (g i) + (\<Sum>j\<in>{..<n}-{i}. f (g j))"
    using assms by (subst sum.remove [of _ i]) auto
  ultimately show ?thesis by simp
qed

lemma owners_set_slot:
  assumes "i < MAX_SOCKET"
  shows "owners (set_slot i s ss) a + owned a (ss_slot ss i) = owners ss a + owned a s"
  unfolding owners_def set_slot_def using sum_update [OF assms, of "owned a" "ss_slot ss" s] by simp

text \<open>Nothing but a slot's own buffers and the held blocks is lost when a block in \<open>A\<close> goes.\<close>

lemma wb_ok_restrict: "wb_ok h wb \<Longrightarrow> wb_buffer wb \<notin> A \<Longrightarrow> wb_ok (\<lambda>a. if a \<in> A then None else h a) wb"
  by (auto simp: wb_ok_def)

lemma slot_ok_restrict:
  assumes "slot_ok h s" "wb_buffer ` set (buffers s) \<inter> A = {}"
  shows "slot_ok (\<lambda>a. if a \<in> A then None else h a) s"
  using assms by (auto simp: slot_ok_def intro!: wb_ok_restrict split: if_splits)

lemma req_ok_restrict: "req_ok h r \<Longrightarrow> set (req_buffer r) \<inter> A = {} \<Longrightarrow> req_ok (\<lambda>a. if a \<in> A then None else h a) r"
  by (cases r) (auto simp: block_ok_def)

section \<open>Steps\<close>

lemma ids_ok_upd:
  assumes "ids_ok L f" "so_type (f i) \<noteq> SOCKET_TYPE_RESERVE" "so_type s \<noteq> SOCKET_TYPE_RESERVE"
  shows "ids_ok L (f(i := s))"
  using assms unfolding ids_ok_def by auto

lemma ids_ok_use:
  assumes "ids_ok (L @ [n]) f" "so_type s \<noteq> SOCKET_TYPE_RESERVE"
  shows "ids_ok L (f(HASH_ID n := s))"
proof -
  have f: "so_type (f (HASH_ID n)) = SOCKET_TYPE_RESERVE" "so_id (f (HASH_ID n)) = n" "n \<notin> set L"
    using assms(1) by (auto simp: ids_ok_def)
  have "HASH_ID m \<noteq> HASH_ID n" if "m \<in> set L" for m
    using assms(1) that f unfolding ids_ok_def by (metis Un_iff set_append)
  then show ?thesis using assms f unfolding ids_ok_def by auto
qed

lemma ids_ok_reserve:
  assumes "ids_ok L f" "so_type (f (HASH_ID n)) = SOCKET_TYPE_INVALID"
    "so_type s = SOCKET_TYPE_RESERVE" "so_id s = n"
  shows "ids_ok (L @ [n]) (f(HASH_ID n := s))"
proof -
  have "n \<notin> set L" using assms(1,2) unfolding ids_ok_def by fastforce
  moreover have "HASH_ID m \<noteq> HASH_ID n" if "m \<in> set L" for m
    using assms(1,2) that unfolding ids_ok_def by fastforce
  ultimately show ?thesis using assms unfolding ids_ok_def by auto
qed

text \<open>A change of one slot, in which the blocks \<open>A\<close> are freed.\<close>

lemma static_change:
  assumes inv: "static H R ss"
    and fields: "ss_soi ss' = ss_soi ss" "ss_alloc_id ss' = ss_alloc_id ss" "ss_pipe ss' = ss_pipe ss"
      "ss_slot ss' = (ss_slot ss)(i := s)" "ss_heap ss' = (\<lambda>a. if a \<in> A then None else ss_heap ss a)"
    and ep: "\<And>fd j w. ss_epoll ss' fd = Some (Some j, w) \<Longrightarrow>
      (j \<noteq> i \<and> (\<exists>v. ss_epoll ss fd = Some (Some j, v))) \<or> (j = i \<and> live (so_type s) \<and> so_fd s = fd)"
    and i: "i < MAX_SOCKET" and ok: "slot_ok (ss_heap ss') s"
    and hash: "so_type s \<noteq> SOCKET_TYPE_INVALID \<Longrightarrow> HASH_ID (so_id s) = i"
    and account: "\<And>a. owned a s + count_list H' a + of_bool (a \<in> A) = owned a (ss_slot ss i) + count_list H a"
    and ids: "ids_ok (created (ss_pipe ss) @ R') ((ss_slot ss)(i := s))"
  shows "static H' R' ss'"
proof -
  have own: "owners ss' a + owned a (ss_slot ss i) = owners ss a + owned a s" for a
    using owners_set_slot [OF i, of s ss a] fields by (simp add: owners_def set_slot_def)
  have free: "ss_heap ss a \<noteq> None" "owners ss a = owned a (ss_slot ss i)" if "a \<in> A" for a
  proof -
    have "1 \<le> owned a (ss_slot ss i) + count_list H a" using account [of a] that by simp
    then have "owners ss a + count_list H a \<noteq> 0" using owned_le [OF i, of a ss] by linarith
    with staticD(6) [OF inv, of a] show "ss_heap ss a \<noteq> None" by (simp split: if_splits)
    with staticD(6) [OF inv, of a] have "owners ss a + count_list H a = 1" by simp
    with account [of a] that owned_le [OF i, of a ss] show "owners ss a = owned a (ss_slot ss i)" by simp
  qed
  have other: "wb_buffer ` set (buffers (ss_slot ss j)) \<inter> A = {}" if j: "j \<noteq> i" for j
  proof (rule ccontr)
    assume "wb_buffer ` set (buffers (ss_slot ss j)) \<inter> A \<noteq> {}"
    then obtain a where a: "a \<in> A" "owned a (ss_slot ss j) \<noteq> 0" by (auto simp: owned_zero)
    have jb: "j < MAX_SOCKET"
    proof (rule slot_bound [OF inv], rule notI)
      assume "so_type (ss_slot ss j) = SOCKET_TYPE_INVALID"
      with staticD(4) [OF inv, of j] a(2) show False by (simp add: slot_ok_def owned_def)
    qed
    have "(\<Sum>k\<in>{i, j}. owned a (ss_slot ss k)) \<le> (\<Sum>k<MAX_SOCKET. owned a (ss_slot ss k))"
      using i jb by (intro sum_mono2) auto
    then have "owned a (ss_slot ss i) + owned a (ss_slot ss j) \<le> owners ss a"
      using j by (simp add: owners_def)
    with free(2) [OF a(1)] a(2) show False by simp
  qed
  have pipe: "set (req_buffer r) \<inter> A = {}" if r: "r \<in> set (ss_pipe ss)" for r
  proof (rule ccontr)
    assume "set (req_buffer r) \<inter> A \<noteq> {}"
    then obtain a where a: "a \<in> A" "a \<in> set (concat (map req_buffer (ss_pipe ss)))" using r by auto
    then have "count_list (concat (map req_buffer (ss_pipe ss))) a \<noteq> 0"
      by (simp add: count_list_0_iff del: set_concat)
    moreover have "owned a (ss_slot ss i) \<le> (\<Sum>k<MAX_SOCKET. owned a (ss_slot ss k))"
      using i member_le_sum [of i "{..<MAX_SOCKET}" "\<lambda>k. owned a (ss_slot ss k)"] by simp
    ultimately show False using free(2) [OF a(1)] unfolding owners_def by linarith
  qed
  show ?thesis
  proof (rule staticI)
    show "ss_soi ss' = None" "0 \<le> ss_alloc_id ss'" "ss_alloc_id ss' < 2 ^ 31"
      using staticD(1-3) [OF inv] fields by simp_all
    show "slot_ok (ss_heap ss') (ss_slot ss' j)" for j
      using ok slot_ok_restrict [OF staticD(4) [OF inv, of j] other] fields by (cases "j = i") simp_all
    show "HASH_ID (so_id (ss_slot ss' j)) = j" if "so_type (ss_slot ss' j) \<noteq> SOCKET_TYPE_INVALID" for j
      using hash staticD(5) [OF inv, of j] that fields by (cases "j = i") simp_all
    show "owners ss' a + count_list H' a = (if ss_heap ss' a = None then 0 else 1)" for a
    proof (cases "a \<in> A")
      case True
      with own [of a] account [of a] free [OF True] staticD(6) [OF inv, of a] fields show ?thesis by (auto split: if_splits)
    next
      case False
      with own [of a] account [of a] staticD(6) [OF inv, of a] fields show ?thesis by simp
    qed
    show "req_ok (ss_heap ss') r \<and> req_id r \<le> ss_alloc_id ss'" if "r \<in> set (ss_pipe ss')" for r
      using staticD(7) [OF inv, of r] that pipe [of r] fields by (simp add: req_ok_restrict)
    show "sorted_wrt (\<lambda>r r'. creates r' \<longrightarrow> req_id r \<noteq> req_id r') (ss_pipe ss')"
      using staticD(8) [OF inv] fields by simp
    show "ids_ok (created (ss_pipe ss') @ R') (ss_slot ss')" using ids fields by simp
    show "live (so_type (ss_slot ss' j)) \<and> so_fd (ss_slot ss' j) = fd"
      if "ss_epoll ss' fd = Some (Some j, w)" for fd j w
      using ep [OF that] staticD(10) [OF inv] fields by auto
  qed
qed

text \<open>A change that leaves the slots and the heap alone.\<close>

lemma static_frame:
  assumes inv: "static H R ss"
    and fields: "ss_soi ss' = ss_soi ss" "ss_alloc_id ss' = ss_alloc_id ss" "ss_pipe ss' = ss_pipe ss"
      "ss_slot ss' = ss_slot ss" "ss_heap ss' = ss_heap ss"
    and ep: "\<And>fd j w. ss_epoll ss' fd = Some (Some j, w) \<Longrightarrow>
      (\<exists>v. ss_epoll ss fd = Some (Some j, v)) \<or> (live (so_type (ss_slot ss j)) \<and> so_fd (ss_slot ss j) = fd)"
  shows "static H R ss'"
proof -
  have own: "owners ss' = owners ss" using fields by (simp add: owners_def fun_eq_iff)
  show ?thesis
  proof (rule staticI)
    show "live (so_type (ss_slot ss' j)) \<and> so_fd (ss_slot ss' j) = fd"
      if "ss_epoll ss' fd = Some (Some j, w)" for fd j w
      using ep [OF that] staticD(10) [OF inv] fields by auto
  qed (use staticD [OF inv] own fields in simp_all)
qed

lemma static_sys: "static H R ss \<Longrightarrow> static H R (snd (sys f ss))"
  by (erule static_frame) (auto simp: sys_def Let_def split: prod.splits)

lemma static_os: "static H R ss \<Longrightarrow> static H R (ss\<lparr>ss_os := k\<rparr>)"
  by (erule static_frame) auto

lemma static_nonblocking: "static H R ss \<Longrightarrow> static H R (sp_nonblocking K fd ss)"
  by (simp add: sp_nonblocking_def static_os)

lemma static_close_fd: "static H R ss \<Longrightarrow> static H R (close_fd K fd ss)"
  by (erule static_frame) (auto simp: close_fd_def split: if_splits)

lemma static_sp_write:
  "static H R ss \<Longrightarrow> live (so_type (ss_slot ss i)) \<Longrightarrow> so_fd (ss_slot ss i) = fd \<Longrightarrow> static H R (sp_write fd (Some i) b ss)"
  by (erule static_frame) (auto simp: sp_write_def split: if_splits)

lemma static_events: "static H R ss \<Longrightarrow> static H R (ss\<lparr>ss_ev := evs\<rparr>)" "static H R ss \<Longrightarrow> static H R (ss\<lparr>ss_event_index := n\<rparr>)"
  "static H R ss \<Longrightarrow> static H R (ss\<lparr>ss_checkctrl := b\<rparr>)"
  by (erule static_frame; simp)+

text \<open>What every operation keeps of the pending events, but for a slot whose closing it reports.\<close>

definition closed_by :: "(socket_event \<times> socket_message) option \<Rightarrow> socket \<Rightarrow> bool" where
  "closed_by r s \<longleftrightarrow> so_type s = SOCKET_TYPE_INVALID \<and>
     (\<exists>e m. r = Some (e, m) \<and> (e = SOCKET_CLOSE \<or> e = SOCKET_ERROR) \<and> so_id s = sm_id m)"

definition tidy :: "(socket_event \<times> socket_message) option \<Rightarrow> 'k socket_server \<Rightarrow> 'k socket_server \<Rightarrow> bool" where
  "tidy r ss ss' \<longleftrightarrow> ss_ev ss' = ss_ev ss \<and> ss_event_index ss' = ss_event_index ss \<and> ss_alloc_id ss \<le> ss_alloc_id ss' \<and>
     (\<forall>j. live (so_type (ss_slot ss j)) \<longrightarrow> live (so_type (ss_slot ss' j)) \<or> closed_by r (ss_slot ss' j))"

lemma tidy_refl [simp]: "tidy r ss ss"
  by (simp add: tidy_def)

lemma tidy_trans: "tidy None ss ss1 \<Longrightarrow> tidy r ss1 ss2 \<Longrightarrow> tidy r ss ss2"
  unfolding tidy_def closed_by_def by fastforce

lemma tidy_frame:
  "ss_ev ss' = ss_ev ss \<Longrightarrow> ss_event_index ss' = ss_event_index ss \<Longrightarrow> ss_alloc_id ss' = ss_alloc_id ss \<Longrightarrow>
   ss_slot ss' = ss_slot ss \<Longrightarrow> tidy r ss ss'"
  by (simp add: tidy_def)

lemma tidy_sys [simp]: "tidy r ss (snd (sys f ss))"
  by (rule tidy_frame) (auto simp: sys_def Let_def split: prod.splits)

lemma tidy_simple [simp]: "tidy r ss (ss\<lparr>ss_os := k\<rparr>)" "tidy r ss (sp_nonblocking K fd ss)" "tidy r ss (close_fd K fd ss)"
  "tidy r ss (sp_write fd ud b ss)" "tidy r ss (ss\<lparr>ss_heap := h\<rparr>)" "tidy r ss (ss\<lparr>ss_pipe := p\<rparr>)"
  by (simp_all add: tidy_def sp_nonblocking_def close_fd_def sp_write_def)

lemma tidy_slot:
  "live (so_type (ss_slot ss i)) \<Longrightarrow> live (so_type s) \<or> closed_by r s \<Longrightarrow> tidy r ss (set_slot i s ss)"
  "\<not> live (so_type (ss_slot ss i)) \<Longrightarrow> tidy r ss (set_slot i s ss)"
  by (auto simp: tidy_def set_slot_def)

section \<open>Freeing and closing\<close>

lemma static_set:
  assumes inv: "static H R ss" and used: "\<not> unused (so_type (ss_slot ss i))" "\<not> unused (so_type s)"
    and same: "so_id s = so_id (ss_slot ss i)" "so_fd s = so_fd (ss_slot ss i)"
      "live (so_type (ss_slot ss i)) \<Longrightarrow> live (so_type s)"
    and ok: "slot_ok (ss_heap ss) s"
    and account: "\<And>a. owned a s + count_list H' a = owned a (ss_slot ss i) + count_list H a"
  shows "static H' R (set_slot i s ss)"
proof (rule static_change [OF inv, where i = i and s = s and A = "{}"])
  show "i < MAX_SOCKET" using slot_bound [OF inv, of i] used(1) by (auto simp: unused_iff)
  show "HASH_ID (so_id s) = i" using staticD(5) [OF inv, of i] used(1) same(1) by (auto simp: unused_iff)
  show "ids_ok (created (ss_pipe ss) @ R) ((ss_slot ss)(i := s))"
    using staticD(9) [OF inv] used by (intro ids_ok_upd) (auto simp: unused_iff)
  show "(j \<noteq> i \<and> (\<exists>v. ss_epoll ss fd = Some (Some j, v))) \<or> (j = i \<and> live (so_type s) \<and> so_fd s = fd)"
    if "ss_epoll (set_slot i s ss) fd = Some (Some j, w)" for fd j w
    using that staticD(10) [OF inv, of fd j w] same by (auto simp: set_slot_def)
qed (use ok account in \<open>simp_all add: set_slot_def\<close>)

lemma FREE_ok:
  assumes inv: "static (a # H) R ss"
  shows "FREE a ss = Some (ss\<lparr>ss_heap := (ss_heap ss)(a := None)\<rparr>)"
    "static H R (ss\<lparr>ss_heap := (ss_heap ss)(a := None)\<rparr>)"
proof -
  have c: "owners ss a + count_list (a # H) a = (if ss_heap ss a = None then 0 else 1)" by (rule staticD(6) [OF inv])
  then show "FREE a ss = Some (ss\<lparr>ss_heap := (ss_heap ss)(a := None)\<rparr>)" by (auto simp: FREE_def split: if_splits)
  have zero: "owners ss a = 0" using c by (simp split: if_splits)
  have h: "(ss_heap ss)(a := None) = (\<lambda>x. if x \<in> {a} then None else ss_heap ss x)" by auto
  have i: "0 < MAX_SOCKET" by (simp add: MAX_SOCKET_def)
  show "static H R (ss\<lparr>ss_heap := (ss_heap ss)(a := None)\<rparr>)"
  proof (rule static_change [OF inv, where i = 0 and s = "ss_slot ss 0" and A = "{a}"])
    have "owned a (ss_slot ss 0) = 0" using owned_le [OF i, of a ss] zero by simp
    then have "wb_buffer ` set (buffers (ss_slot ss 0)) \<inter> {a} = {}" by (simp add: owned_zero)
    from slot_ok_restrict [OF staticD(4) [OF inv, of 0] this]
    show "slot_ok (ss_heap (ss\<lparr>ss_heap := (ss_heap ss)(a := None)\<rparr>)) (ss_slot ss 0)" by (simp only: h) simp
    show "HASH_ID (so_id (ss_slot ss 0)) = 0" if "so_type (ss_slot ss 0) \<noteq> SOCKET_TYPE_INVALID"
      by (rule staticD(5) [OF inv that])
    show "owned x (ss_slot ss 0) + count_list H x + of_bool (x \<in> {a}) = owned x (ss_slot ss 0) + count_list (a # H) x" for x
      by simp
    show "(j \<noteq> 0 \<and> (\<exists>v. ss_epoll ss fd = Some (Some j, v))) \<or>
        (j = 0 \<and> live (so_type (ss_slot ss 0)) \<and> so_fd (ss_slot ss 0) = fd)"
      if "ss_epoll (ss\<lparr>ss_heap := (ss_heap ss)(a := None)\<rparr>) fd = Some (Some j, w)" for fd j w
      using that staticD(10) [OF inv, of fd j w] by auto
  qed (use i staticD(9) [OF inv] h in simp_all)
qed

lemma free_wb_list_eq:
  "\<forall>wb\<in>set l. \<not> wb_userobject wb \<and> ss_heap ss (wb_buffer wb) \<noteq> None \<Longrightarrow> distinct (map wb_buffer l) \<Longrightarrow>
   free_wb_list l ss = Some (ss\<lparr>ss_heap := \<lambda>a. if a \<in> wb_buffer ` set l then None else ss_heap ss a\<rparr>)"
proof (induction l arbitrary: ss)
  case (Cons wb l)
  let ?ss = "ss\<lparr>ss_heap := (ss_heap ss)(wb_buffer wb := None)\<rparr>"
  have f: "write_buffer_free wb ss = Some ?ss" using Cons.prems(1) by (simp add: write_buffer_free_def free_func_def FREE_def)
  have "\<forall>w\<in>set l. \<not> wb_userobject w \<and> ss_heap ?ss (wb_buffer w) \<noteq> None"
    using Cons.prems by auto (metis imageI)
  from Cons.IH [OF this] Cons.prems(2) f show ?case by (auto simp: fun_eq_iff)
qed simp

lemma count_le_distinct: "(\<And>a. count_list xs a \<le> 1) \<Longrightarrow> distinct xs"
proof (induction xs)
  case (Cons x xs)
  have "x \<notin> set xs" using Cons.prems [of x] by (simp add: count_list_0_iff)
  moreover have "count_list xs a \<le> 1" for a using Cons.prems [of a] by (simp split: if_splits)
  ultimately show ?case using Cons.IH by simp
qed simp

lemma distinct_count_le: "distinct xs \<Longrightarrow> count_list xs a \<le> 1"
  by (induction xs) (auto simp: count_list_0_iff)

lemma distinct_buffers: "static H R ss \<Longrightarrow> distinct (map wb_buffer (buffers (ss_slot ss i)))"
proof (cases "i < MAX_SOCKET")
  case True
  assume inv: "static H R ss"
  have "owned a (ss_slot ss i) \<le> 1" for a
  proof -
    have "owned a (ss_slot ss i) \<le> owners ss a" by (rule owned_le [OF True])
    moreover have "owners ss a \<le> 1" using staticD(6) [OF inv, of a] by (simp split: if_splits)
    ultimately show ?thesis by simp
  qed
  then show ?thesis unfolding owned_def by (rule count_le_distinct)
next
  case False
  assume inv: "static H R ss"
  with False slot_bound have "so_type (ss_slot ss i) = SOCKET_TYPE_INVALID" by blast
  then show ?thesis using staticD(4) [OF inv, of i] by (simp add: slot_ok_def)
qed

text \<open>The fields that the work on one slot leaves alone.\<close>

definition untouched :: "'k socket_server \<Rightarrow> 'k socket_server \<Rightarrow> bool" where
  "untouched ss ss' \<longleftrightarrow> ss_ev ss' = ss_ev ss \<and> ss_event_index ss' = ss_event_index ss \<and>
     ss_alloc_id ss' = ss_alloc_id ss \<and> ss_pipe ss' = ss_pipe ss \<and> ss_checkctrl ss' = ss_checkctrl ss"

lemma untouched_refl [simp]: "untouched ss ss"
  by (simp add: untouched_def)

lemma untouched_trans: "untouched ss ss1 \<Longrightarrow> untouched ss1 ss2 \<Longrightarrow> untouched ss ss2"
  by (simp add: untouched_def)

lemma untouched_simps [simp]:
  "untouched ss (ss\<lparr>ss_os := k\<rparr>)" "untouched ss (set_slot i s ss)" "untouched ss (ss\<lparr>ss_heap := h\<rparr>)"
  "untouched ss (sp_write fd u b ss)" "untouched ss (close_fd K fd ss)" "untouched ss (sp_nonblocking K fd ss)"
  by (simp_all add: untouched_def set_slot_def sp_write_def close_fd_def sp_nonblocking_def)

lemma untouched_sys [simp]: "untouched ss (snd (sys f ss))"
  by (simp add: untouched_def sys_def Let_def split: prod.splits)

definition closed_slot :: "socket \<Rightarrow> socket" where
  "closed_slot s = s\<lparr>so_high := [], so_low := [], so_type := SOCKET_TYPE_INVALID\<rparr>"

lemma force_close_ok:
  assumes inv: "static H R ss" and used: "\<not> unused (so_type (ss_slot ss i))"
  obtains ss' where
    "force_close K i ss = Some (\<lparr>sm_id = so_id (ss_slot ss i), sm_opaque = so_opaque (ss_slot ss i), sm_ud = 0,
        sm_data = Null\<rparr>, ss')"
    "static H R ss'" "untouched ss ss'" "ss_slot ss' = (ss_slot ss)(i := closed_slot (ss_slot ss i))"
proof -
  define s where "s = ss_slot ss i"
  define A where "A = wb_buffer ` set (buffers s)"
  define h1 where "h1 = (\<lambda>a. if a \<in> wb_buffer ` set (so_high s) then None else ss_heap ss a)"
  define h2 where "h2 = (\<lambda>a. if a \<in> A then None else ss_heap ss a)"
  have ok: "slot_ok (ss_heap ss) s" unfolding s_def by (rule staticD(4) [OF inv])
  then have wbs: "\<forall>wb\<in>set (buffers s). \<not> wb_userobject wb \<and> ss_heap ss (wb_buffer wb) \<noteq> None"
    by (auto simp: slot_ok_def wb_ok_def)
  have d: "distinct (map wb_buffer (buffers s))" unfolding s_def by (rule distinct_buffers [OF inv])
  have f1: "free_wb_list (so_high s) ss = Some (ss\<lparr>ss_heap := h1\<rparr>)"
    unfolding h1_def using wbs d by (intro free_wb_list_eq) (auto simp: buffers_def)
  have "\<forall>wb\<in>set (so_low s). \<not> wb_userobject wb \<and> ss_heap (ss\<lparr>ss_heap := h1\<rparr>) (wb_buffer wb) \<noteq> None"
    using wbs d by (auto simp: buffers_def h1_def)
  with d have "free_wb_list (so_low s) (ss\<lparr>ss_heap := h1\<rparr>) =
      Some (ss\<lparr>ss_heap := h1, ss_heap := \<lambda>a. if a \<in> wb_buffer ` set (so_low s) then None else h1 a\<rparr>)"
    by (subst free_wb_list_eq) (auto simp: buffers_def cong: if_cong)
  moreover have "(\<lambda>a. if a \<in> wb_buffer ` set (so_low s) then None else h1 a) = h2"
    by (auto simp: h1_def h2_def A_def buffers_def fun_eq_iff)
  ultimately have f2: "free_wb_list (so_low s) (ss\<lparr>ss_heap := h1\<rparr>) = Some (ss\<lparr>ss_heap := h2\<rparr>)" by simp
  define ss3 where "ss3 = (if so_type s \<noteq> SOCKET_TYPE_PACCEPT \<and> so_type s \<noteq> SOCKET_TYPE_PLISTEN
      then sp_del (so_fd s) (ss\<lparr>ss_heap := h2\<rparr>) else ss\<lparr>ss_heap := h2\<rparr>)"
  define ss4 where "ss4 = (if so_type s \<noteq> SOCKET_TYPE_BIND then close_fd K (so_fd s) ss3 else ss3)"
  define ss' where "ss' = set_slot i (closed_slot s) ss4"
  have fc: "force_close K i ss = Some (\<lparr>sm_id = so_id s, sm_opaque = so_opaque s, sm_ud = 0, sm_data = Null\<rparr>, ss')"
    using used f1 f2 unfolding force_close_def s_def [symmetric]
    by (simp add: s_def [symmetric] unused_iff ss3_def ss4_def ss'_def closed_slot_def)
  have ep: "ss_epoll ss' = (ss_epoll ss)(so_fd s := None)"
    by (auto simp: ss'_def ss4_def ss3_def set_slot_def close_fd_def sp_del_def)
  have flds: "ss_soi ss' = ss_soi ss" "ss_heap ss' = h2" "ss_slot ss' = (ss_slot ss)(i := closed_slot s)"
    "untouched ss ss'"
    by (auto simp: ss'_def ss4_def ss3_def set_slot_def close_fd_def sp_del_def untouched_def)
  have "static H R ss'"
  proof (rule static_change [OF inv, where i = i and s = "closed_slot s" and A = A])
    show "i < MAX_SOCKET" using slot_bound [OF inv, of i] used by (auto simp: unused_iff)
    show "slot_ok (ss_heap ss') (closed_slot s)" by (simp add: slot_ok_def closed_slot_def buffers_def)
    show "(j \<noteq> i \<and> (\<exists>v. ss_epoll ss fd = Some (Some j, v))) \<or>
        (j = i \<and> live (so_type (closed_slot s)) \<and> so_fd (closed_slot s) = fd)"
      if "ss_epoll ss' fd = Some (Some j, w)" for fd j w
    proof -
      have e: "ss_epoll ss fd = Some (Some j, w)" "fd \<noteq> so_fd s" using that ep by (auto split: if_splits)
      with staticD(10) [OF inv e(1)] s_def have "j \<noteq> i" by auto
      with e show ?thesis by auto
    qed
    show "ids_ok (created (ss_pipe ss) @ R) ((ss_slot ss)(i := closed_slot s))"
      using staticD(9) [OF inv] used by (intro ids_ok_upd) (auto simp: unused_iff closed_slot_def)
    show "owned a (closed_slot s) + count_list H a + of_bool (a \<in> A) = owned a (ss_slot ss i) + count_list H a" for a
    proof -
      have "owned a s = of_bool (a \<in> A)"
        using distinct_count_le [OF d, of a] owned_zero [of a s] by (fastforce simp: A_def owned_def [symmetric])
      moreover have "owned a (closed_slot s) = 0" by (simp add: owned_def closed_slot_def buffers_def)
      ultimately show ?thesis by (simp add: s_def)
    qed
  qed (use flds in \<open>auto simp: untouched_def h2_def closed_slot_def\<close>)
  with fc flds that show thesis by (simp add: s_def)
qed

end
