(* ===== verification/Socket_Safe.thy ===== *)
theory Socket_Safe
  imports Socket_Inv
begin

text \<open>
  Every operation of the socket server keeps the invariant and does not crash: the loops that
  write, the handlers of the control commands and of the events, and the event loop.
\<close>

section \<open>Writing\<close>

lemma write_retry_returns:
  assumes "kernel_ok (K :: 'k kernel)"
  obtains r k' where "write_retry K fd bs k = Some (r, k')" "r \<noteq> IoIntr" "\<And>n. r = IoDone n \<Longrightarrow> n \<le> length bs"
proof -
  have "\<exists>m::'k \<Rightarrow> nat. \<forall>fd bs k k'. k_write K fd bs k = (IoIntr, k') \<longrightarrow> m k' < m k"
    by (rule kernel_interrupts [OF assms])
  then obtain m :: "'k \<Rightarrow> nat" where m: "\<forall>fd bs k k'. k_write K fd bs k = (IoIntr, k') \<longrightarrow> m k' < m k" ..
  note bound = kernel_write [OF assms]
  have "\<exists>r k'. write_retry K fd bs k = Some (r, k') \<and> r \<noteq> IoIntr \<and> (\<forall>n. r = IoDone n \<longrightarrow> n \<le> length bs)"
  proof (induction "m k" arbitrary: k rule: less_induct)
    case less
    obtain r k1 where w: "k_write K fd bs k = (r, k1)" by fastforce
    show ?case
    proof (cases "r = IoIntr")
      case True
      with w m have "m k1 < m k" by blast
      from less [OF this] w True show ?thesis by (simp add: write_retry.simps [of K fd bs k])
    next
      case False
      with w bound show ?thesis by (auto simp: write_retry.simps [of K fd bs k])
    qed
  qed
  with that show thesis by blast
qed

lemma list_simps [simp]:
  "get_list pr (set_list pr l s) = l" "get_list pr (sub_wb_size d s) = get_list pr s"
  "so_type (set_list pr l s) = so_type s" "so_id (set_list pr l s) = so_id s" "so_fd (set_list pr l s) = so_fd s"
  "so_opaque (set_list pr l s) = so_opaque s"
  "so_protocol (set_list pr l s) = so_protocol s" "so_p (set_list pr l s) = so_p s" "so_wb_size (set_list pr l s) = so_wb_size s"
  "so_type (sub_wb_size d s) = so_type s" "so_id (sub_wb_size d s) = so_id s" "so_fd (sub_wb_size d s) = so_fd s"
  "so_opaque (sub_wb_size d s) = so_opaque s"
  "so_protocol (sub_wb_size d s) = so_protocol s" "so_p (sub_wb_size d s) = so_p s"
  "so_wb_size (sub_wb_size d s) = so_wb_size s - d" "so_high (sub_wb_size d s) = so_high s" "so_low (sub_wb_size d s) = so_low s"
  "set_list pr l (sub_wb_size d (set_list pr l' (sub_wb_size d' s))) = set_list pr l (sub_wb_size (d' + d) s)"
  "set_list pr (get_list pr s) (sub_wb_size 0 s) = s"
  by (cases pr; simp add: get_list_def set_list_def sub_wb_size_def)+

lemma advance_simps [simp]:
  "wb_buffer (advance n wb) = wb_buffer wb" "wb_sz (advance n wb) = wb_sz wb - int n"
  "wb_ptr (advance n wb) = (fst (wb_ptr wb), snd (wb_ptr wb) + n)" "wb_userobject (advance n wb) = wb_userobject wb"
  "advance 0 wb = wb"
  by (simp_all add: advance_def)

lemma get_list_buffers: "wb \<in> set (get_list pr s) \<Longrightarrow> wb \<in> set (buffers s)"
  by (cases pr) (auto simp: get_list_def buffers_def)

lemma owned_set_list:
  "owned a (set_list pr l s) + count_list (map wb_buffer (get_list pr s)) a = owned a s + count_list (map wb_buffer l) a"
  by (cases pr) (simp_all add: owned_def buffers_def set_list_def get_list_def)

lemma owned_sub [simp]: "owned a (sub_wb_size d s) = owned a s"
  by (simp add: owned_def buffers_def)

text \<open>A list replaced by one with as many bytes fewer as the size field loses.\<close>

lemma slot_ok_set_list:
  assumes "slot_ok h s" "live (so_type s)" "\<forall>wb\<in>set l. wb_ok h wb"
    "sum_list (map wb_sz l) = sum_list (map wb_sz (get_list pr s)) - d"
  shows "slot_ok h (set_list pr l (sub_wb_size d s))"
  using assms live_used [OF assms(2)]
  by (cases pr) (auto simp: slot_ok_def buffers_def set_list_def get_list_def sub_wb_size_def)

lemma pending_live: "static H R ss \<Longrightarrow> get_list pr (ss_slot ss i) = tmp # nxt \<Longrightarrow> live (so_type (ss_slot ss i))"
  using staticD(4) [of H R ss i] get_list_buffers [of tmp pr "ss_slot ss i"] by (auto simp: slot_ok_def)

lemma wb_ok_advance: "wb_ok h wb \<Longrightarrow> int n \<le> wb_sz wb \<Longrightarrow> wb_ok h (advance n wb)"
  by (auto simp: wb_ok_def)

lemma load_ok:
  assumes "wb_ok (ss_heap ss) wb"
  obtains bs where "load (wb_ptr wb) (wb_sz wb) ss = Some bs" "int (length bs) = wb_sz wb"
  using assms by (auto simp: wb_ok_def load_def)

lemma block_load:
  assumes "block_ok (ss_heap ss) a sz"
  obtains bs where "load (a, 0) sz ss = Some bs" "int (length bs) = sz"
  using assms by (auto simp: block_ok_def load_def)

text \<open>What a list loop does to the state.\<close>

definition rest_of :: "write_buffer list \<Rightarrow> write_buffer list \<Rightarrow> bool" where
  "rest_of l l' \<longleftrightarrow> l' = [] \<or> (\<exists>pre wb rest n. l = pre @ wb # rest \<and> l' = advance n wb # rest)"

lemma rest_of_step: "rest_of nxt l' \<Longrightarrow> rest_of (tmp # nxt) l'"
  unfolding rest_of_def by (metis append_Cons)

lemma rest_of_head: "rest_of (tmp # nxt) (advance n tmp # nxt)"
  unfolding rest_of_def by (metis append_Nil)

definition sent :: "nat \<Rightarrow> priority \<Rightarrow> (socket_event \<times> socket_message) option \<Rightarrow> 'k socket_server \<Rightarrow> 'k socket_server \<Rightarrow> bool"
  where
  "sent i pr r ss ss' \<longleftrightarrow> untouched ss ss' \<and>
     (case r of
        None \<Rightarrow> \<exists>d l. rest_of (get_list pr (ss_slot ss i)) l \<and>
            ss_slot ss' = (ss_slot ss)(i := set_list pr l (sub_wb_size d (ss_slot ss i)))
      | Some (e, m) \<Rightarrow> e = SOCKET_CLOSE \<and> sm_id m = so_id (ss_slot ss i) \<and>
          (\<exists>s. so_type s = SOCKET_TYPE_INVALID \<and> so_id s = so_id (ss_slot ss i) \<and> buffers s = [] \<and>
               ss_slot ss' = (ss_slot ss)(i := s)))"

lemma sent_stop: "sent i pr None ss (ss\<lparr>ss_os := k\<rparr>)" if "get_list pr (ss_slot ss i) = tmp # nxt"
proof -
  have "rest_of (get_list pr (ss_slot ss i)) (advance 0 tmp # nxt)" unfolding that by (rule rest_of_head)
  then have "rest_of (get_list pr (ss_slot ss i)) (get_list pr (ss_slot ss i))" using that by simp
  then show ?thesis unfolding sent_def
    by (auto simp del: list_simps(19) intro!: exI [of _ 0] exI [of _ "get_list pr (ss_slot ss i)"] simp: list_simps(20))
qed

lemma sent_step:
  assumes "get_list pr (ss_slot ss i) = tmp # nxt" "untouched ss ss1"
    "ss_slot ss1 = (ss_slot ss)(i := set_list pr nxt (sub_wb_size d (ss_slot ss i)))" "sent i pr r ss1 ss'"
  shows "sent i pr r ss ss'"
  using assms rest_of_step [of nxt _ tmp] unfolding sent_def
  by (auto split: option.splits simp: untouched_trans [OF assms(2)] intro: untouched_trans)

text \<open>Taking the first of a list out, and shortening it.\<close>

lemma take_first:
  assumes inv: "static H R ss" and used: "\<not> unused (so_type (ss_slot ss i))"
    and l: "get_list pr (ss_slot ss i) = tmp # nxt"
  shows "static (wb_buffer tmp # H) R (set_slot i (set_list pr nxt (sub_wb_size (wb_sz tmp) (ss_slot ss i))) ss)"
    (is "static _ _ (set_slot i ?s ss)")
proof (rule static_set [OF inv used])
  have ok: "slot_ok (ss_heap ss) (ss_slot ss i)" by (rule staticD(4) [OF inv])
  have "\<forall>wb\<in>set nxt. wb_ok (ss_heap ss) wb"
    using ok get_list_buffers [of _ pr "ss_slot ss i"] l unfolding slot_ok_def by simp
  then show "slot_ok (ss_heap ss) ?s" using ok pending_live [OF inv l] l by (intro slot_ok_set_list) simp_all
  show "owned a ?s + count_list (wb_buffer tmp # H) a = owned a (ss_slot ss i) + count_list H a" for a
    using owned_set_list [of a pr nxt "sub_wb_size (wb_sz tmp) (ss_slot ss i)"] l by (simp split: if_splits)
qed (use used in simp_all)

lemma free_first:
  assumes "static (wb_buffer tmp # H) R ss" "\<not> wb_userobject tmp"
  obtains ss' where "write_buffer_free tmp ss = Some ss'" "static H R ss'" "untouched ss ss'" "ss_slot ss' = ss_slot ss"
    "ss_os ss' = ss_os ss"
proof -
  have f: "write_buffer_free tmp ss = Some (ss\<lparr>ss_heap := (ss_heap ss)(wb_buffer tmp := None)\<rparr>)"
    using FREE_ok(1) [OF assms(1)] assms(2) by (simp add: write_buffer_free_def free_func_def)
  show thesis by (rule that [OF f FREE_ok(2) [OF assms(1)]]) simp_all
qed

lemma shorten_first:
  assumes inv: "static H R ss" and used: "\<not> unused (so_type (ss_slot ss i))"
    and l: "get_list pr (ss_slot ss i) = tmp # nxt" and n: "int n \<le> wb_sz tmp"
  shows "static H R (set_slot i (set_list pr (advance n tmp # nxt) (sub_wb_size (int n) (ss_slot ss i))) ss)"
    (is "static _ _ (set_slot i ?s ss)")
proof (rule static_set [OF inv used])
  have ok: "slot_ok (ss_heap ss) (ss_slot ss i)" by (rule staticD(4) [OF inv])
  then have "\<forall>wb\<in>set (tmp # nxt). wb_ok (ss_heap ss) wb"
    using get_list_buffers [of _ pr "ss_slot ss i"] l unfolding slot_ok_def by simp
  then have "\<forall>wb\<in>set (advance n tmp # nxt). wb_ok (ss_heap ss) wb" using wb_ok_advance [OF _ n] by simp
  then show "slot_ok (ss_heap ss) ?s" using ok pending_live [OF inv l] l by (intro slot_ok_set_list) simp_all
  show "owned a ?s + count_list H a = owned a (ss_slot ss i) + count_list H a" for a
    using owned_set_list [of a pr "advance n tmp # nxt" "sub_wb_size (int n) (ss_slot ss i)"] l by simp
qed (use used in simp_all)

lemma send_tcp_ok:
  assumes K: "kernel_ok K" and "static H R ss" "\<not> unused (so_type (ss_slot ss i))" "get_list pr (ss_slot ss i) = l"
  shows "\<exists>r ss'. send_tcp_loop K i pr l ss = Some (r, ss') \<and> static H R ss' \<and> sent i pr r ss ss'"
  using assms(2-4)
proof (induction l arbitrary: ss)
  case Nil
  have "sent i pr None ss ss" unfolding sent_def rest_of_def
    by (auto simp: Nil intro!: exI [of _ 0] exI [of _ "[]"] simp del: list_simps(20))
      (metis Nil.prems(3) fun_upd_triv list_simps(20))
  with Nil show ?case by simp
next
  case (Cons tmp nxt)
  note inv = Cons.prems(1) and used = Cons.prems(2) and l = Cons.prems(3)
  have wb: "wb_ok (ss_heap ss) tmp"
    using staticD(4) [OF inv, of i] get_list_buffers [of tmp pr "ss_slot ss i"] l unfolding slot_ok_def by simp
  obtain bs where bs: "load (wb_ptr tmp) (wb_sz tmp) ss = Some bs" "int (length bs) = wb_sz tmp" by (rule load_ok [OF wb])
  obtain r k where w: "write_retry K (so_fd (ss_slot ss i)) bs (ss_os ss) = Some (r, k)" "r \<noteq> IoIntr"
      "\<And>n. r = IoDone n \<Longrightarrow> n \<le> length bs" using write_retry_returns [OF K] by metis
  define ss1 where "ss1 = ss\<lparr>ss_os := k\<rparr>"
  have inv1: "static H R ss1" and s1: "ss_slot ss1 = ss_slot ss" "ss_heap ss1 = ss_heap ss" "untouched ss ss1"
    unfolding ss1_def by (simp_all add: inv static_os)
  have used1: "\<not> unused (so_type (ss_slot ss1 i))" and l1: "get_list pr (ss_slot ss1 i) = tmp # nxt" using used l s1 by simp_all
  consider (full) n where "r = IoDone n" "int n = wb_sz tmp" | (part) n where "r = IoDone n" "int n \<noteq> wb_sz tmp"
    | (again) "r = IoAgain" | (fail) "r = IoFail" using w(2) by (cases r) auto
  then show ?case
  proof cases
    case full
    define ss2 where "ss2 = set_slot i (set_list pr nxt (sub_wb_size (wb_sz tmp) (ss_slot ss1 i))) ss1"
    have "static (wb_buffer tmp # H) R ss2" unfolding ss2_def by (rule take_first [OF inv1 used1 l1])
    then obtain ss3 where s3: "write_buffer_free tmp ss2 = Some ss3" "static H R ss3" "untouched ss2 ss3"
        "ss_slot ss3 = ss_slot ss2" using wb free_first unfolding wb_ok_def by metis
    have slot3: "ss_slot ss3 = (ss_slot ss)(i := set_list pr nxt (sub_wb_size (wb_sz tmp) (ss_slot ss i)))"
      by (simp add: s3 ss2_def set_slot_def s1)
    have u3: "untouched ss ss3" by (rule untouched_trans [OF s1(3) untouched_trans [OF _ s3(3)]]) (simp add: ss2_def)
    from Cons.IH [OF s3(2)] slot3 used obtain r' ss' where
      "send_tcp_loop K i pr nxt ss3 = Some (r', ss')" "static H R ss'" "sent i pr r' ss3 ss'" by auto
    moreover have "sent i pr r' ss ss'" by (rule sent_step [OF l u3 slot3]) fact
    ultimately show ?thesis using bs w full s3(1) by (simp add: ss1_def [symmetric] ss2_def s1)
  next
    case part
    with w(3) bs(2) have n: "int n \<le> wb_sz tmp" by fastforce
    define ss2 where "ss2 = set_slot i (set_list pr (advance n tmp # nxt) (sub_wb_size (int n) (ss_slot ss1 i))) ss1"
    have "static H R ss2" unfolding ss2_def by (rule shorten_first [OF inv1 used1 l1 n])
    moreover have "sent i pr None ss ss2" unfolding sent_def
      using rest_of_head [of tmp nxt n] s1 l by (auto simp: ss2_def set_slot_def untouched_def)
    ultimately show ?thesis using bs w part by (simp add: ss1_def [symmetric] ss2_def s1)
  next
    case again
    with bs w inv1 sent_stop [OF l, of k] show ?thesis by (simp add: ss1_def)
  next
    case fail
    obtain ss' where fc: "force_close K i ss1 = Some (\<lparr>sm_id = so_id (ss_slot ss1 i), sm_opaque = so_opaque (ss_slot ss1 i),
          sm_ud = 0, sm_data = Null\<rparr>, ss')" "static H R ss'" "untouched ss1 ss'"
        "ss_slot ss' = (ss_slot ss1)(i := closed_slot (ss_slot ss1 i))" by (rule force_close_ok [OF inv1 used1])
    have "sent i pr (Some (SOCKET_CLOSE, \<lparr>sm_id = so_id (ss_slot ss1 i), sm_opaque = so_opaque (ss_slot ss1 i),
          sm_ud = 0, sm_data = Null\<rparr>)) ss ss'"
      unfolding sent_def using fc(3,4) s1 untouched_trans [OF s1(3)]
      by (auto simp: closed_slot_def buffers_def intro!: exI [of _ "closed_slot (ss_slot ss i)"])
    with fc bs w fail show ?thesis by (simp add: ss1_def [symmetric])
  qed
qed

lemma send_udp_ok:
  assumes "static H R ss" "\<not> unused (so_type (ss_slot ss i))" "get_list pr (ss_slot ss i) = l"
  shows "\<exists>r ss'. send_udp_loop K i pr l ss = Some (r, ss') \<and> static H R ss' \<and> sent i pr r ss ss'"
  using assms
proof (induction l arbitrary: ss)
  case Nil
  have "sent i pr None ss ss" unfolding sent_def rest_of_def
    by (auto simp: Nil intro!: exI [of _ 0] exI [of _ "[]"] simp del: list_simps(20))
      (metis Nil.prems(3) fun_upd_triv list_simps(20))
  with Nil show ?case by simp
next
  case (Cons tmp nxt)
  note inv = Cons.prems(1) and used = Cons.prems(2) and l = Cons.prems(3)
  have wb: "wb_ok (ss_heap ss) tmp"
    using staticD(4) [OF inv, of i] get_list_buffers [of tmp pr "ss_slot ss i"] l unfolding slot_ok_def by simp
  obtain bs where bs: "load (wb_ptr tmp) (wb_sz tmp) ss = Some bs" by (rule load_ok [OF wb])
  obtain r k where w: "k_sendto K (so_fd (ss_slot ss i)) bs (udp_socket_address (ss_slot ss i) (wb_udp_address tmp)) (ss_os ss)
      = (r, k)" by fastforce
  define ss1 where "ss1 = ss\<lparr>ss_os := k\<rparr>"
  have sys: "sys (k_sendto K (so_fd (ss_slot ss i)) bs (udp_socket_address (ss_slot ss i) (wb_udp_address tmp))) ss = (r, ss1)"
    by (simp add: sys_def w ss1_def)
  have inv1: "static H R ss1" and s1: "ss_slot ss1 = ss_slot ss" "untouched ss ss1"
    unfolding ss1_def by (simp_all add: inv static_os)
  have used1: "\<not> unused (so_type (ss_slot ss1 i))" and l1: "get_list pr (ss_slot ss1 i) = tmp # nxt" using used l s1 by simp_all
  show ?case
  proof (cases "\<exists>n. r = IoDone n")
    case False
    with bs sys inv1 sent_stop [OF l, of k] show ?thesis by (cases r) (auto simp: ss1_def)
  next
    case True
    define ss2 where "ss2 = set_slot i (set_list pr nxt (sub_wb_size (wb_sz tmp) (ss_slot ss1 i))) ss1"
    have "static (wb_buffer tmp # H) R ss2" unfolding ss2_def by (rule take_first [OF inv1 used1 l1])
    then obtain ss3 where s3: "write_buffer_free tmp ss2 = Some ss3" "static H R ss3" "untouched ss2 ss3"
        "ss_slot ss3 = ss_slot ss2" using wb free_first unfolding wb_ok_def by metis
    have slot3: "ss_slot ss3 = (ss_slot ss)(i := set_list pr nxt (sub_wb_size (wb_sz tmp) (ss_slot ss i)))"
      by (simp add: s3 ss2_def set_slot_def s1)
    have u3: "untouched ss ss3" by (rule untouched_trans [OF s1(2) untouched_trans [OF _ s3(3)]]) (simp add: ss2_def)
    from Cons.IH [OF s3(2)] slot3 used obtain r' ss' where
      "send_udp_loop K i pr nxt ss3 = Some (r', ss')" "static H R ss'" "sent i pr r' ss3 ss'" by auto
    moreover have "sent i pr r' ss ss'" by (rule sent_step [OF l u3 slot3]) fact
    ultimately show ?thesis using bs sys True s3(1) by (auto simp: ss2_def s1)
  qed
qed

lemma send_list_ok:
  assumes "kernel_ok K" "static H R ss" "\<not> unused (so_type (ss_slot ss i))"
  obtains r ss' where "send_list K i pr ss = Some (r, ss')" "static H R ss'" "sent i pr r ss ss'"
  using send_tcp_ok [OF assms refl, of pr] send_udp_ok [OF assms(2,3) refl, of K pr]
  unfolding send_list_def send_list_tcp_def send_list_udp_def by (cases "so_protocol (ss_slot ss i) = PROTOCOL_TCP") auto

section \<open>One slot at work\<close>

text \<open>What an operation on slot \<open>i\<close> may change: it keeps its type and identifier, or closes it and reports that.\<close>

definition worked :: "nat \<Rightarrow> (socket_event \<times> socket_message) option \<Rightarrow> 'k socket_server \<Rightarrow> 'k socket_server \<Rightarrow> bool" where
  "worked i r ss ss' \<longleftrightarrow> untouched ss ss' \<and> (\<forall>j. j \<noteq> i \<longrightarrow> ss_slot ss' j = ss_slot ss j) \<and>
     so_id (ss_slot ss' i) = so_id (ss_slot ss i) \<and>
     (so_type (ss_slot ss' i) = so_type (ss_slot ss i) \<or> closed_by r (ss_slot ss' i))"

lemma worked_tidy: "worked i r ss ss' \<Longrightarrow> tidy r ss ss'"
  unfolding worked_def tidy_def untouched_def by (metis order_refl)

lemma worked_refl [simp]: "worked i r ss ss"
  by (simp add: worked_def)

lemma worked_trans: "worked i None ss ss1 \<Longrightarrow> worked i r ss1 ss2 \<Longrightarrow> worked i r ss ss2"
  unfolding worked_def closed_by_def by (auto intro: untouched_trans)

lemma worked_frame: "untouched ss ss' \<Longrightarrow> ss_slot ss' = ss_slot ss \<Longrightarrow> worked i r ss ss'"
  by (simp add: worked_def)

lemma worked_set: "so_type s = so_type (ss_slot ss i) \<Longrightarrow> so_id s = so_id (ss_slot ss i) \<Longrightarrow> worked i r ss (set_slot i s ss)"
  by (simp add: worked_def set_slot_def untouched_def)

lemma worked_sent: "sent i pr r ss ss' \<Longrightarrow> worked i r ss ss'"
  unfolding sent_def worked_def closed_by_def by (auto split: option.splits prod.splits)

lemma worked_closed:
  "untouched ss ss' \<Longrightarrow> ss_slot ss' = (ss_slot ss)(i := closed_slot (ss_slot ss i)) \<Longrightarrow>
   e = SOCKET_CLOSE \<or> e = SOCKET_ERROR \<Longrightarrow> sm_id m = so_id (ss_slot ss i) \<Longrightarrow> worked i (Some (e, m)) ss ss'"
  unfolding worked_def closed_by_def by (auto simp: closed_slot_def)

lemma lows_cong: "ss_slot ss' = ss_slot ss \<Longrightarrow> lows ss' = lows ss"
  by (simp add: lows_def)

lemma lows_upd: "lows ss \<Longrightarrow> ss_slot ss' = (ss_slot ss)(i := s) \<Longrightarrow> \<forall>wb\<in>set (so_low s). snd (wb_ptr wb) = 0 \<Longrightarrow> lows ss'"
  by (simp add: lows_def)

lemma lows_closed: "lows ss \<Longrightarrow> ss_slot ss' = (ss_slot ss)(i := closed_slot s) \<Longrightarrow> lows ss'"
  by (erule lows_upd) (auto simp: closed_slot_def)

lemma lowsD: "lows ss \<Longrightarrow> wb \<in> set (so_low (ss_slot ss i)) \<Longrightarrow> snd (wb_ptr wb) = 0"
  by (simp add: lows_def)

text \<open>Closing a slot, with what is needed of it.\<close>

lemma close_ok:
  assumes "static H R ss" "lows ss" "\<not> unused (so_type (ss_slot ss i))" "e = SOCKET_CLOSE \<or> e = SOCKET_ERROR"
  obtains ss' where
    "force_close K i ss = Some (\<lparr>sm_id = so_id (ss_slot ss i), sm_opaque = so_opaque (ss_slot ss i), sm_ud = 0,
        sm_data = Null\<rparr>, ss')"
    "static H R ss'" "lows ss'"
    "\<And>m. sm_id m = so_id (ss_slot ss i) \<Longrightarrow> worked i (Some (e, m)) ss ss'"
    "ss_slot ss' = (ss_slot ss)(i := closed_slot (ss_slot ss i))"
proof -
  obtain ss' where f: "force_close K i ss = Some (\<lparr>sm_id = so_id (ss_slot ss i), sm_opaque = so_opaque (ss_slot ss i),
      sm_ud = 0, sm_data = Null\<rparr>, ss')" "static H R ss'" "untouched ss ss'"
      "ss_slot ss' = (ss_slot ss)(i := closed_slot (ss_slot ss i))" by (rule force_close_ok [OF assms(1,3)])
  show thesis by (rule that [OF f(1,2) lows_closed [OF assms(2) f(4)] worked_closed [OF f(3,4) assms(4)] f(4)])
qed

lemma uncomplete_ok: "slot_ok h s \<Longrightarrow> wb \<in> set (buffers s) \<Longrightarrow> (wb_ptr wb = (wb_buffer wb, 0)) = (snd (wb_ptr wb) = 0)"
  by (auto simp: slot_ok_def wb_ok_def prod_eq_iff)

text \<open>The end of \<open>send_buffer\<close>: the low list has been worked on and its first is moved up.\<close>

lemma low_part_ok:
  assumes inv: "static H R ss" and lo: "lows ss" and high: "so_high (ss_slot ss i) = []"
    and sent: "sent i PRIORITY_LOW None ss ss'" and inv': "static H R ss'"
  shows "list_uncomplete (so_low (ss_slot ss' i)) \<Longrightarrow>
      \<exists>s. raise_uncomplete (ss_slot ss' i) = Some s \<and> static H R (set_slot i s ss') \<and>
         lows (set_slot i s ss') \<and> worked i None ss (set_slot i s ss')"
    and "\<not> list_uncomplete (so_low (ss_slot ss' i)) \<Longrightarrow> lows ss'"
proof -
  obtain d l where l: "rest_of (so_low (ss_slot ss i)) l"
      "ss_slot ss' = (ss_slot ss)(i := set_list PRIORITY_LOW l (sub_wb_size d (ss_slot ss i)))"
    using sent by (auto simp: sent_def get_list_def)
  define s1 where "s1 = ss_slot ss' i"
  have s1: "so_high s1 = []" "so_low s1 = l" using high by (simp_all add: s1_def l(2) set_list_def)
  have tl: "\<forall>wb\<in>set (tl l). snd (wb_ptr wb) = 0"
    using l(1) lowsD [OF lo, of _ i] by (auto simp: rest_of_def)
  have ok: "slot_ok (ss_heap ss') s1" unfolding s1_def by (rule staticD(4) [OF inv'])
  show "lows ss'" if u: "\<not> list_uncomplete (so_low (ss_slot ss' i))"
  proof (rule lows_upd [OF lo l(2)], rule ballI)
    fix wb assume wb: "wb \<in> set (so_low (set_list PRIORITY_LOW l (sub_wb_size d (ss_slot ss i))))"
    then have "wb \<in> set l" by (simp add: set_list_def)
    with u tl s1 show "snd (wb_ptr wb) = 0"
      by (cases l) (auto simp: list_uncomplete_def s1_def [symmetric])
  qed
  assume u: "list_uncomplete (so_low (ss_slot ss' i))"
  then obtain tmp nxt where nxt: "l = tmp # nxt" using s1 by (cases l) (auto simp: list_uncomplete_def s1_def [symmetric])
  define s where "s = s1\<lparr>so_low := nxt, so_high := [tmp]\<rparr>"
  have r: "raise_uncomplete s1 = Some s" using s1 nxt by (simp add: raise_uncomplete_def s_def)
  have live: "live (so_type s1)"
    using ok s1 nxt by (auto simp: slot_ok_def buffers_def)
  have "static H R (set_slot i s ss')"
  proof (rule static_set [OF inv'])
    show "slot_ok (ss_heap ss') s" using ok s1 nxt by (auto simp: slot_ok_def s_def buffers_def)
    show "owned a s + count_list H a = owned a (ss_slot ss' i) + count_list H a" for a
      using s1 nxt by (simp add: owned_def buffers_def s_def s1_def [symmetric])
  qed (use live live_used [OF live] in \<open>auto simp: s_def s1_def [symmetric]\<close>)
  moreover have "lows (set_slot i s ss')"
    by (rule lows_upd [OF lo, of _ i s]) (use tl nxt l(2) in \<open>auto simp: set_slot_def s_def\<close>)
  moreover have "worked i None ss (set_slot i s ss')"
    by (rule worked_trans [OF worked_sent [OF sent]], rule worked_set) (simp_all add: s_def s1_def)
  ultimately show "\<exists>s. raise_uncomplete (ss_slot ss' i) = Some s \<and> static H R (set_slot i s ss') \<and>
         lows (set_slot i s ss') \<and> worked i None ss (set_slot i s ss')"
    using r by (auto simp: s1_def)
qed

lemma send_buffer_ok:
  assumes K: "kernel_ok K" and inv: "static H R ss" and lo: "lows ss" and live: "live (so_type (ss_slot ss i))"
  obtains r ss' where "send_buffer K i ss = Some (r, ss')" "static H R ss'" "lows ss'" "worked i r ss ss'"
proof -
  have used: "\<not> unused (so_type (ss_slot ss i))" by (rule live_used [OF live])
  have low: "\<not> list_uncomplete (so_low (ss_slot ss i))"
    using uncomplete_ok [OF staticD(4) [OF inv, of i]] lowsD [OF lo, of _ i]
    by (auto simp: list_uncomplete_def buffers_def split: list.splits)
  obtain r ss1 where s1: "send_list K i PRIORITY_HIGH ss = Some (r, ss1)" "static H R ss1" "sent i PRIORITY_HIGH r ss ss1"
    by (rule send_list_ok [OF K inv used])
  have w1: "worked i r ss ss1" by (rule worked_sent [OF s1(3)])
  have lo1: "lows ss1"
    using s1(3) lo unfolding sent_def
    by (auto split: option.splits prod.splits intro!: lows_upd [OF lo] simp: set_list_def buffers_def lowsD)
  show thesis
  proof (cases "r = None")
    case False
    with s1 low have "send_buffer K i ss = Some (r, ss1)" by (simp add: send_buffer_def)
    from that [OF this s1(2) lo1 w1] show thesis .
  next
    case True
    note w1 = w1 [unfolded True] and s1 = s1 [unfolded True]
    have live1: "live (so_type (ss_slot ss1 i))" using w1 live by (simp add: worked_def closed_by_def)
    have used1: "\<not> unused (so_type (ss_slot ss1 i))" by (rule live_used [OF live1])
    consider (high) "so_high (ss_slot ss1 i) \<noteq> []" | (low) "so_high (ss_slot ss1 i) = []" "so_low (ss_slot ss1 i) \<noteq> []"
      | (both) "so_high (ss_slot ss1 i) = []" "so_low (ss_slot ss1 i) = []" by blast
    then show thesis
    proof cases
      case high
      with s1 low have "send_buffer K i ss = Some (None, ss1)" by (simp add: send_buffer_def)
      from that [OF this s1(2) lo1 w1] show thesis .
    next
      case low2: low
      obtain r2 ss2 where s2: "send_list K i PRIORITY_LOW ss1 = Some (r2, ss2)" "static H R ss2"
          "sent i PRIORITY_LOW r2 ss1 ss2" by (rule send_list_ok [OF K s1(2) used1])
      note w2 = worked_trans [OF w1 worked_sent [OF s2(3)]]
      show thesis
      proof (cases "r2 = None")
        case False
        have lo2: "lows ss2" using s2(3) False unfolding sent_def
          by (auto split: option.splits prod.splits intro!: lows_upd [OF lo1] simp: buffers_def)
        from False s1 s2 low low2 have "send_buffer K i ss = Some (r2, ss2)" by (simp add: send_buffer_def)
        from that [OF this s2(2) lo2 w2] show thesis .
      next
        case True
        note part = low_part_ok [OF s1(2) lo1 low2(1) s2(3) [unfolded True] s2(2)]
        show thesis
        proof (cases "list_uncomplete (so_low (ss_slot ss2 i))")
          case uc: True
          from part(1) [OF uc] obtain s where s: "raise_uncomplete (ss_slot ss2 i) = Some s" "static H R (set_slot i s ss2)"
              "lows (set_slot i s ss2)" "worked i None ss1 (set_slot i s ss2)" by blast
          with True uc s1 s2 low low2 have "send_buffer K i ss = Some (None, set_slot i s ss2)"
            by (simp add: send_buffer_def)
          from that [OF this s(2,3) worked_trans [OF w1 s(4)]] show thesis .
        next
          case uc: False
          with True s1 s2 low low2 have "send_buffer K i ss = Some (None, ss2)" by (simp add: send_buffer_def)
          from that [OF this s2(2) part(2) [OF uc]] w2 True show thesis by simp
        qed
      qed
    next
      case both
      define ss2 where "ss2 = sp_write (so_fd (ss_slot ss1 i)) (Some i) False ss1"
      have inv2: "static H R ss2" unfolding ss2_def by (rule static_sp_write [OF s1(2) live1 refl])
      have slot2: "ss_slot ss2 = ss_slot ss1" by (simp add: ss2_def sp_write_def)
      have lo2: "lows ss2" using lo1 lows_cong [OF slot2] by simp
      have w2: "worked i None ss ss2"
        by (rule worked_trans [OF w1 worked_frame [OF _ slot2]]) (simp add: ss2_def)
      show thesis
      proof (cases "so_type (ss_slot ss1 i) = SOCKET_TYPE_HALFCLOSE")
        case True
        from used1 slot2 have used2: "\<not> unused (so_type (ss_slot ss2 i))" by simp
        obtain ss3 where c: "force_close K i ss2 = Some (\<lparr>sm_id = so_id (ss_slot ss2 i), sm_opaque = so_opaque (ss_slot ss2 i),
              sm_ud = 0, sm_data = Null\<rparr>, ss3)" "static H R ss3" "lows ss3"
            "\<And>m. sm_id m = so_id (ss_slot ss2 i) \<Longrightarrow> worked i (Some (SOCKET_CLOSE, m)) ss2 ss3"
          by (rule close_ok [OF inv2 lo2 used2, of SOCKET_CLOSE K]) auto
        have "send_buffer K i ss = Some (Some (SOCKET_CLOSE, \<lparr>sm_id = so_id (ss_slot ss2 i),
            sm_opaque = so_opaque (ss_slot ss2 i), sm_ud = 0, sm_data = Null\<rparr>), ss3)"
          using s1 low both True c(1) by (simp add: send_buffer_def ss2_def Let_def)
        from that [OF this c(2,3) worked_trans [OF w2 c(4)]] show thesis by simp
      next
        case False
        with s1 low both have "send_buffer K i ss = Some (None, ss2)" by (simp add: send_buffer_def ss2_def)
        from that [OF this inv2 lo2 w2] show thesis .
      qed
    qed
  qed
qed

section \<open>Packages\<close>

lemma init_plain: "0 \<le> sz \<Longrightarrow> send_object_init a sz ss = Some \<lparr>so_buffer = a, so_sz = sz, so_user = False\<rparr>"
  by (simp add: send_object_init_def)

lemma free_held:
  assumes "static (a # H) R ss" "lows ss"
  obtains ss' where "free_func False a ss = Some ss'" "static H R ss'" "lows ss'" "\<And>i r. worked i r ss ss'"
proof -
  have f: "free_func False a ss = Some (ss\<lparr>ss_heap := (ss_heap ss)(a := None)\<rparr>)"
    using FREE_ok(1) [OF assms(1)] by (simp add: free_func_def)
  show thesis
    by (rule that [OF f FREE_ok(2) [OF assms(1)]]) (use assms(2) in \<open>auto simp: lows_def intro: worked_frame\<close>)
qed

text \<open>Appending a held block to the list of a live slot.\<close>

lemma append_ok:
  assumes inv: "static (a # H) R ss" and lo: "lows ss" and live: "live (so_type (ss_slot ss i))"
    and b: "block_ok (ss_heap ss) a sz" and n: "int n \<le> sz" "pr = PRIORITY_LOW \<Longrightarrow> n = 0"
  obtains ss' where "append_sendbuffer_at i pr a sz n address ss = Some ss'" "static H R ss'" "lows ss'"
    "worked i None ss ss'" "so_fd (ss_slot ss' i) = so_fd (ss_slot ss i)"
proof -
  define s where "s = ss_slot ss i"
  define buf where "buf = \<lparr>wb_buffer = a, wb_ptr = (a, n), wb_sz = sz - int n, wb_userobject = False, wb_udp_address = address\<rparr>"
  define s' where "s' = set_list pr (get_list pr s @ [buf]) (sub_wb_size (- wb_sz buf) s)"
  have sz: "0 \<le> sz" using b by (simp add: block_ok_def)
  have f: "append_sendbuffer_at i pr a sz n address ss = Some (set_slot i s' ss)"
    by (simp add: append_sendbuffer_at_def init_plain [OF sz] s'_def buf_def s_def Let_def)
  have wb: "wb_ok (ss_heap ss) buf" using b n(1) by (auto simp: wb_ok_def block_ok_def buf_def)
  have ok: "slot_ok (ss_heap ss) s" unfolding s_def by (rule staticD(4) [OF inv])
  then have "\<forall>wb\<in>set (get_list pr s @ [buf]). wb_ok (ss_heap ss) wb"
    using wb get_list_buffers [of _ pr s] by (auto simp: slot_ok_def)
  then have "slot_ok (ss_heap ss) s'" unfolding s'_def using ok live s_def by (intro slot_ok_set_list) simp_all
  moreover have "owned x s' + count_list H x = owned x s + count_list (a # H) x" for x
    using owned_set_list [of x pr "get_list pr s @ [buf]" "sub_wb_size (- wb_sz buf) s"]
    by (simp add: s'_def buf_def split: if_splits)
  ultimately have inv': "static H R (set_slot i s' ss)"
    using live_used [OF live] by (intro static_set [OF inv]) (simp_all add: s'_def s_def)
  have "\<forall>wb\<in>set (so_low s'). snd (wb_ptr wb) = 0"
    using lowsD [OF lo, of _ i] n(2) by (cases pr) (auto simp: s'_def s_def set_list_def get_list_def buf_def)
  then have lo': "lows (set_slot i s' ss)" using lows_upd [OF lo, of "set_slot i s' ss" i s'] by (simp add: set_slot_def)
  show thesis
    by (rule that [OF f inv' lo']) (simp_all add: worked_set s'_def s_def, simp add: set_slot_def)
qed

lemma write_event_ok:
  assumes "static H R ss" "lows ss" "live (so_type (ss_slot ss i))" "so_fd (ss_slot ss i) = fd"
  shows "static H R (sp_write fd (Some i) b ss)" "lows (sp_write fd (Some i) b ss)"
    "worked i r ss (sp_write fd (Some i) b ss)"
proof -
  have s: "ss_slot (sp_write fd (Some i) b ss) = ss_slot ss" by (simp add: sp_write_def)
  show "static H R (sp_write fd (Some i) b ss)" by (rule static_sp_write [OF assms(1,3,4)])
  show "lows (sp_write fd (Some i) b ss)" using assms(2) lows_cong [OF s] by simp
  show "worked i r ss (sp_write fd (Some i) b ss)" by (rule worked_frame [OF _ s]) simp
qed

lemma append_write_ok:
  assumes inv: "static (a # H) R ss" and lo: "lows ss" and live: "live (so_type (ss_slot ss i))"
    and b: "block_ok (ss_heap ss) a sz" and n: "int n \<le> sz" "pr = PRIORITY_LOW \<Longrightarrow> n = 0"
  obtains ss' where "append_sendbuffer_at i pr a sz n address ss = Some ss'"
    "static H R (sp_write (so_fd (ss_slot ss' i)) (Some i) True ss')" "lows (sp_write (so_fd (ss_slot ss' i)) (Some i) True ss')"
    "worked i None ss (sp_write (so_fd (ss_slot ss' i)) (Some i) True ss')"
proof -
  obtain ss' where s: "append_sendbuffer_at i pr a sz n address ss = Some ss'" "static H R ss'" "lows ss'"
    "worked i None ss ss'" "so_fd (ss_slot ss' i) = so_fd (ss_slot ss i)" by (rule append_ok [OF assms])
  have "live (so_type (ss_slot ss' i))" using s(4) live by (auto simp: worked_def closed_by_def)
  note w = write_event_ok [OF s(2,3) this refl]
  from that [OF s(1) w(1,2) worked_trans [OF s(4) w(3)]] show thesis .
qed

lemma block_os [simp]: "ss_heap (ss\<lparr>ss_os := k\<rparr>) = ss_heap ss" "ss_slot (ss\<lparr>ss_os := k\<rparr>) = ss_slot ss"
  by simp_all

lemma sys_fields [simp]: "sys f ss = (r, ss1) \<Longrightarrow> ss_heap ss1 = ss_heap ss" "sys f ss = (r, ss1) \<Longrightarrow> ss_slot ss1 = ss_slot ss"
  "sys f ss = (r, ss1) \<Longrightarrow> ss_epoll ss1 = ss_epoll ss" "sys f ss = (r, ss1) \<Longrightarrow> ss_alloc_id ss1 = ss_alloc_id ss"
  by (auto simp: sys_def Let_def split: prod.splits)

lemma sys_ok:
  assumes "static H R ss" "lows ss" "sys f ss = (r, ss1)"
  shows "static H R ss1" "lows ss1" "worked i q ss ss1" "untouched ss ss1"
proof -
  have s: "ss1 = snd (sys f ss)" by (simp add: assms(3))
  show "static H R ss1" unfolding s by (rule static_sys [OF assms(1)])
  show "lows ss1" using lows_cong [of ss1 ss] assms(2,3) by simp
  show u: "untouched ss ss1" unfolding s by simp
  show "worked i q ss ss1" by (rule worked_frame [OF u]) (use assms(3) in simp)
qed

lemma send_direct_tcp_ok:
  assumes K: "kernel_ok K" and inv: "static (a # H) R ss" and lo: "lows ss" and live: "live (so_type (ss_slot ss i))"
    and b: "block_ok (ss_heap ss) a sz"
  obtains r ss' where "send_direct_tcp K i a sz \<lparr>so_buffer = a, so_sz = sz, so_user = False\<rparr> ss = Some (r, ss')"
    "static H R ss'" "lows ss'" "worked i r ss ss'"
proof -
  obtain bs where bs: "load (a, 0) sz ss = Some bs" "int (length bs) = sz" by (rule block_load [OF b])
  obtain r ss1 where w: "sys (k_write K (so_fd (ss_slot ss i)) bs) ss = (r, ss1)" by fastforce
  note o1 = sys_ok [OF inv lo w]
  have b1: "block_ok (ss_heap ss1) a sz" and live1: "live (so_type (ss_slot ss1 i))" using b live w by simp_all
  show thesis
  proof (cases "r = IoFail")
    case True
    have used: "\<not> unused (so_type (ss_slot ss1 i))" by (rule live_used [OF live1])
    obtain ss2 where c: "force_close K i ss1 = Some (\<lparr>sm_id = so_id (ss_slot ss1 i), sm_opaque = so_opaque (ss_slot ss1 i),
        sm_ud = 0, sm_data = Null\<rparr>, ss2)" "static (a # H) R ss2" "lows ss2"
        "\<And>m. sm_id m = so_id (ss_slot ss1 i) \<Longrightarrow> worked i (Some (SOCKET_CLOSE, m)) ss1 ss2"
        "ss_slot ss2 = (ss_slot ss1)(i := closed_slot (ss_slot ss1 i))"
      by (rule close_ok [OF o1(1,2) used, of SOCKET_CLOSE K]) auto
    obtain ss3 where f: "free_func False a ss2 = Some ss3" "static H R ss3" "lows ss3" "\<And>i r. worked i r ss2 ss3"
      by (rule free_held [OF c(2,3)]) blast
    let ?m = "\<lparr>sm_id = so_id (ss_slot ss1 i), sm_opaque = so_opaque (ss_slot ss1 i), sm_ud = 0, sm_data = Null\<rparr>"
    have d: "send_direct_tcp K i a sz \<lparr>so_buffer = a, so_sz = sz, so_user = False\<rparr> ss = Some (Some (SOCKET_CLOSE, ?m), ss3)"
      using bs w c(1) f(1) True by (simp add: send_direct_tcp_def)
    have "worked i (Some (SOCKET_CLOSE, ?m)) ss1 ss3"
      using c(4) [of ?m] f(4) [of i None] unfolding worked_def closed_by_def by (auto intro: untouched_trans)
    from that [OF d f(2,3) worked_trans [OF o1(3) this]] show thesis .
  next
    case False
    define n where "n = (case r of IoDone n \<Rightarrow> n | _ \<Rightarrow> 0)"
    have n: "int n \<le> sz"
    proof (cases r)
      case (IoDone m)
      with w obtain k where "k_write K (so_fd (ss_slot ss i)) bs (ss_os ss) = (IoDone m, k)"
        by (cases "k_write K (so_fd (ss_slot ss i)) bs (ss_os ss)") (simp add: sys_def)
      from kernel_write [OF K this] bs(2) IoDone show ?thesis by (simp add: n_def)
    qed (use b in \<open>simp_all add: n_def block_ok_def\<close>)
    show thesis
    proof (cases "int n = sz")
      case True
      obtain ss2 where f: "free_func False a ss1 = Some ss2" "static H R ss2" "lows ss2" "\<And>i r. worked i r ss1 ss2"
        by (rule free_held [OF o1(1,2)]) blast
      have "send_direct_tcp K i a sz \<lparr>so_buffer = a, so_sz = sz, so_user = False\<rparr> ss = Some (None, ss2)"
        using bs w f(1) False True by (cases r) (simp_all add: send_direct_tcp_def n_def)
      from that [OF this f(2,3) worked_trans [OF o1(3) f(4)]] show thesis .
    next
      case part: False
      obtain ss2 where s2: "append_sendbuffer_at i PRIORITY_HIGH a sz n [] ss1 = Some ss2"
        "static H R (sp_write (so_fd (ss_slot ss2 i)) (Some i) True ss2)" "lows (sp_write (so_fd (ss_slot ss2 i)) (Some i) True ss2)"
        "worked i None ss1 (sp_write (so_fd (ss_slot ss2 i)) (Some i) True ss2)"
        using append_write_ok [OF o1(1,2) live1 b1 n, of PRIORITY_HIGH "[]" thesis] by blast
      have "send_direct_tcp K i a sz \<lparr>so_buffer = a, so_sz = sz, so_user = False\<rparr> ss =
          Some (None, sp_write (so_fd (ss_slot ss2 i)) (Some i) True ss2)"
        using bs w s2(1) False part by (cases r) (simp_all add: send_direct_tcp_def n_def append_sendbuffer_def)
      from that [OF this s2(2,3) worked_trans [OF o1(3) s2(4)]] show thesis .
    qed
  qed
qed

lemma target_address_ok:
  assumes "static H R ss" "\<not> unused (so_type (ss_slot ss i))" "so_protocol (ss_slot ss i) \<noteq> PROTOCOL_TCP"
  obtains address where "target_address u (ss_slot ss i) = Some address"
  using staticD(4) [OF assms(1), of i] assms(2,3)
  by (cases u; cases "so_p (ss_slot ss i)") (auto simp: slot_ok_def p_ok_def target_address_def p_udp_address_def)

lemma send_direct_udp_ok:
  assumes inv: "static (a # H) R ss" and lo: "lows ss" and live: "live (so_type (ss_slot ss i))"
    and b: "block_ok (ss_heap ss) a sz" and u: "so_protocol (ss_slot ss i) \<noteq> PROTOCOL_TCP"
  obtains r ss' where "send_direct_udp K i pr a sz u \<lparr>so_buffer = a, so_sz = sz, so_user = False\<rparr> ss = Some (r, ss')"
    "static H R ss'" "lows ss'" "worked i r ss ss'"
proof -
  obtain address where ad: "target_address u (ss_slot ss i) = Some address"
    by (rule target_address_ok [OF inv live_used [OF live] assms(5)])
  obtain bs where bs: "load (a, 0) sz ss = Some bs" "int (length bs) = sz" by (rule block_load [OF b])
  obtain r ss1 where w: "sys (k_sendto K (so_fd (ss_slot ss i)) bs (udp_socket_address (ss_slot ss i) address)) ss = (r, ss1)"
    by fastforce
  note o1 = sys_ok [OF inv lo w]
  have b1: "block_ok (ss_heap ss1) a sz" and live1: "live (so_type (ss_slot ss1 i))" and z: "int 0 \<le> sz"
    using b live w by (simp_all add: block_ok_def)
  show thesis
  proof (cases "case r of IoDone n \<Rightarrow> int n = sz | _ \<Rightarrow> False")
    case True
    obtain ss2 where f: "free_func False a ss1 = Some ss2" "static H R ss2" "lows ss2" "\<And>i r. worked i r ss1 ss2"
      by (rule free_held [OF o1(1,2)]) blast
    have "send_direct_udp K i pr a sz u \<lparr>so_buffer = a, so_sz = sz, so_user = False\<rparr> ss = Some (None, ss2)"
      using bs ad w f(1) True by (cases r) (simp_all add: send_direct_udp_def Let_def)
    from that [OF this f(2,3) worked_trans [OF o1(3) f(4)]] show thesis .
  next
    case False
    obtain ss2 where s2: "append_sendbuffer_at i pr a sz 0 address ss1 = Some ss2"
      "static H R (sp_write (so_fd (ss_slot ss2 i)) (Some i) True ss2)" "lows (sp_write (so_fd (ss_slot ss2 i)) (Some i) True ss2)"
      "worked i None ss1 (sp_write (so_fd (ss_slot ss2 i)) (Some i) True ss2)"
      using append_write_ok [OF o1(1,2) live1 b1 z, of pr address thesis] by blast
    have "send_direct_udp K i pr a sz u \<lparr>so_buffer = a, so_sz = sz, so_user = False\<rparr> ss =
        Some (None, sp_write (so_fd (ss_slot ss2 i)) (Some i) True ss2)"
      using bs ad w s2(1) False by (cases r) (simp_all add: send_direct_udp_def append_sendbuffer_udp_def Let_def)
    from that [OF this s2(2,3) worked_trans [OF o1(3) s2(4)]] show thesis .
  qed
qed

lemma send_socket_ok:
  assumes K: "kernel_ok K" and inv: "static (a # H) R ss" and lo: "lows ss" and b: "block_ok (ss_heap ss) a sz"
    and res: "so_type (ss_slot ss (HASH_ID sid)) = SOCKET_TYPE_RESERVE \<Longrightarrow> so_id (ss_slot ss (HASH_ID sid)) \<noteq> sid"
  obtains r ss' where "send_socket K sid sz a pr u ss = Some (r, ss')" "static H R ss'" "lows ss'"
    "worked (HASH_ID sid) r ss ss'"
proof -
  define i where "i = HASH_ID sid"
  define s where "s = ss_slot ss i"
  let ?so = "\<lparr>so_buffer = a, so_sz = sz, so_user = False\<rparr>"
  have sz: "0 \<le> sz" and z: "int 0 \<le> sz" using b by (simp_all add: block_ok_def)
  note un = send_socket_def i_def [symmetric] s_def [symmetric] init_plain [OF sz] Let_def
  show thesis
  proof (cases "so_type s = SOCKET_TYPE_INVALID \<or> so_id s \<noteq> sid \<or> so_type s = SOCKET_TYPE_HALFCLOSE \<or>
        so_type s = SOCKET_TYPE_PACCEPT \<or> so_type s = SOCKET_TYPE_PLISTEN \<or> so_type s = SOCKET_TYPE_LISTEN")
    case True
    obtain ss2 where f: "free_func False a ss = Some ss2" "static H R ss2" "lows ss2" "\<And>i r. worked i r ss ss2"
      by (rule free_held [OF inv lo]) blast
    have "send_socket K sid sz a pr u ss = Some (None, ss2)" using True f(1) by (simp add: un)
    from that [OF this f(2,3,4)] show thesis .
  next
    case ok: False
    then have live: "live (so_type (ss_slot ss i))" using res by (cases "so_type s") (auto simp: s_def i_def)
    consider (tcp) "send_buffer_empty s \<and> so_type s = SOCKET_TYPE_CONNECTED" "so_protocol s = PROTOCOL_TCP"
      | (udp) "send_buffer_empty s \<and> so_type s = SOCKET_TYPE_CONNECTED" "so_protocol s \<noteq> PROTOCOL_TCP"
      | (queue) "\<not> (send_buffer_empty s \<and> so_type s = SOCKET_TYPE_CONNECTED)" "so_protocol s = PROTOCOL_TCP"
      | (uqueue) "\<not> (send_buffer_empty s \<and> so_type s = SOCKET_TYPE_CONNECTED)" "so_protocol s \<noteq> PROTOCOL_TCP" by blast
    then show thesis
    proof cases
      case tcp
      obtain r ss' where d: "send_direct_tcp K i a sz ?so ss = Some (r, ss')" "static H R ss'" "lows ss'" "worked i r ss ss'"
        by (rule send_direct_tcp_ok [OF K inv lo live b])
      have "send_socket K sid sz a pr u ss = Some (r, ss')" using tcp ok d(1) by (simp add: un)
      from that [OF this d(2,3)] d(4) show thesis by (simp add: i_def)
    next
      case udp
      obtain r ss' where d: "send_direct_udp K i pr a sz u ?so ss = Some (r, ss')" "static H R ss'" "lows ss'" "worked i r ss ss'"
        using send_direct_udp_ok [OF inv lo live b, of K pr u thesis] udp s_def by blast
      have "send_socket K sid sz a pr u ss = Some (r, ss')" using udp ok d(1) by (simp add: un)
      from that [OF this d(2,3)] d(4) show thesis by (simp add: i_def)
    next
      case queue
      obtain ss' where d: "append_sendbuffer_at i pr a sz 0 [] ss = Some ss'" "static H R ss'" "lows ss'" "worked i None ss ss'"
        using append_ok [OF inv lo live b z, of pr "[]" thesis] by blast
      have "send_socket K sid sz a pr u ss = Some (None, ss')"
        using queue ok d(1) by (cases pr) (auto simp: un append_sendbuffer_def append_sendbuffer_low_def)
      from that [OF this d(2,3)] d(4) show thesis by (simp add: i_def)
    next
      case uqueue
      obtain address where ad: "target_address u s = Some address"
        using target_address_ok [OF inv live_used [OF live], of u thesis] uqueue(2) s_def by blast
      obtain ss' where d: "append_sendbuffer_at i pr a sz 0 address ss = Some ss'" "static H R ss'" "lows ss'"
          "worked i None ss ss'"
        using append_ok [OF inv lo live b z, of pr address thesis] by blast
      have "send_socket K sid sz a pr u ss = Some (None, ss')"
        using uqueue ok d(1) ad by (auto simp: un append_sendbuffer_udp_def)
      from that [OF this d(2,3)] d(4) show thesis by (simp add: i_def)
    qed
  qed
qed

section \<open>The life of a slot\<close>

definition fresh_slot :: "int \<Rightarrow> int \<Rightarrow> protocol \<Rightarrow> socket \<Rightarrow> bool" where
  "fresh_slot sid fd proto s \<longleftrightarrow> so_id s = sid \<and> so_fd s = fd \<and> so_protocol s = proto \<and> buffers s = [] \<and>
     so_wb_size s = 0 \<and> p_ok proto (so_p s)"

lemma reserved_slot:
  assumes "static H (R @ [sid]) ss"
  shows "so_type (ss_slot ss (HASH_ID sid)) = SOCKET_TYPE_RESERVE" "so_id (ss_slot ss (HASH_ID sid)) = sid"
    "buffers (ss_slot ss (HASH_ID sid)) = []"
proof -
  show t: "so_type (ss_slot ss (HASH_ID sid)) = SOCKET_TYPE_RESERVE" "so_id (ss_slot ss (HASH_ID sid)) = sid"
    using staticD(9) [OF assms] by (auto simp: ids_ok_def)
  show "buffers (ss_slot ss (HASH_ID sid)) = []"
    using staticD(4) [OF assms, of "HASH_ID sid"] t by (simp add: slot_ok_def)
qed

lemma not_live_epoll: "static H R ss \<Longrightarrow> \<not> live (so_type (ss_slot ss i)) \<Longrightarrow> ss_epoll ss fd \<noteq> Some (Some i, w)"
  using staticD(10) by metis

text \<open>A reserved slot is given up, or taken into use.\<close>

lemma reserved_change:
  assumes inv: "static H [sid] ss"
    and fields: "ss_soi ss' = ss_soi ss" "ss_alloc_id ss' = ss_alloc_id ss" "ss_pipe ss' = ss_pipe ss"
      "ss_slot ss' = (ss_slot ss)(HASH_ID sid := s)" "ss_heap ss' = ss_heap ss"
    and ep: "\<And>fd j w. ss_epoll ss' fd = Some (Some j, w) \<Longrightarrow>
      (\<exists>v. ss_epoll ss fd = Some (Some j, v)) \<or> (j = HASH_ID sid \<and> live (so_type s) \<and> so_fd s = fd)"
    and s: "buffers s = []" "so_type s \<noteq> SOCKET_TYPE_RESERVE" "so_type s \<noteq> SOCKET_TYPE_INVALID \<Longrightarrow> fresh_slot sid (so_fd s) (so_protocol s) s"
  shows "static H [] ss'"
proof (rule static_change [OF inv, where i = "HASH_ID sid" and s = s and A = "{}"])
  note res = reserved_slot [of H "[]" sid ss, simplified, OF inv]
  show "slot_ok (ss_heap ss') s"
    using s by (cases "so_type s = SOCKET_TYPE_INVALID") (auto simp: slot_ok_def fresh_slot_def)
  show "HASH_ID (so_id s) = HASH_ID sid" if "so_type s \<noteq> SOCKET_TYPE_INVALID" using s(3) [OF that] by (simp add: fresh_slot_def)
  show "owned a s + count_list H a + of_bool (a \<in> {}) = owned a (ss_slot ss (HASH_ID sid)) + count_list H a" for a
    using s(1) res by (simp add: owned_def)
  show "ids_ok (created (ss_pipe ss) @ []) ((ss_slot ss)(HASH_ID sid := s))"
    using ids_ok_use [OF staticD(9) [OF inv] s(2)] by simp
  show "(j \<noteq> HASH_ID sid \<and> (\<exists>v. ss_epoll ss fd = Some (Some j, v))) \<or>
      (j = HASH_ID sid \<and> live (so_type s) \<and> so_fd s = fd)"
    if "ss_epoll ss' fd = Some (Some j, w)" for fd j w
    using ep [OF that] not_live_epoll [OF inv, of "HASH_ID sid" fd] res by auto
qed (use fields HASH_ID_less in simp_all)

lemma sp_add_fields:
  assumes "sp_add K fd ud ss = (failed, ss0)"
  shows "ss_soi ss0 = ss_soi ss" "ss_alloc_id ss0 = ss_alloc_id ss" "ss_pipe ss0 = ss_pipe ss" "ss_slot ss0 = ss_slot ss"
    "ss_heap ss0 = ss_heap ss" "untouched ss ss0"
    "ss_epoll ss0 x = Some (Some j, w) \<Longrightarrow> ss_epoll ss x = Some (Some j, w) \<or> (\<not> failed \<and> ud = Some j \<and> x = fd)"
proof -
  obtain f k where e: "k_epoll_add K fd (ss_os ss) = (f, k)" by fastforce
  have a: "(failed, ss0) = (if f \<or> ss_epoll ss fd \<noteq> None then (True, ss\<lparr>ss_os := k\<rparr>)
      else (False, ss\<lparr>ss_os := k, ss_epoll := (ss_epoll ss)(fd \<mapsto> (ud, False))\<rparr>))"
    using assms by (cases f; cases "ss_epoll ss fd") (simp_all add: sp_add_def sys_def e)
  show "ss_soi ss0 = ss_soi ss" "ss_alloc_id ss0 = ss_alloc_id ss" "ss_pipe ss0 = ss_pipe ss" "ss_slot ss0 = ss_slot ss"
    "ss_heap ss0 = ss_heap ss" "untouched ss ss0"
    using a by (simp_all add: untouched_def split: if_splits)
  show "ss_epoll ss x = Some (Some j, w) \<or> (\<not> failed \<and> ud = Some j \<and> x = fd)" if "ss_epoll ss0 x = Some (Some j, w)"
    using a that by (simp split: if_splits)
qed

lemma new_fd_ok:
  assumes inv: "static H [sid] ss" and lo: "lows ss"
  obtains (failed) ss1 where "new_fd K sid fd proto opaque add ss = Some (False, ss1)" "add"
      "static H [] ss1" "lows ss1" "\<And>r. tidy r ss ss1" "so_type (ss_slot ss1 (HASH_ID sid)) = SOCKET_TYPE_INVALID"
  | (ok) ss1 where "new_fd K sid fd proto opaque add ss = Some (True, ss1)"
      "fresh_slot sid fd PROTOCOL_TCP ((ss_slot ss1 (HASH_ID sid))\<lparr>so_protocol := PROTOCOL_TCP\<rparr>)"
      "so_protocol (ss_slot ss1 (HASH_ID sid)) = proto"
      "\<And>s. fresh_slot sid fd proto s \<Longrightarrow> \<not> unused (so_type s) \<Longrightarrow> add \<Longrightarrow> live (so_type s) \<Longrightarrow>
         static H [] (set_slot (HASH_ID sid) s ss1)"
      "\<And>s. fresh_slot sid fd proto s \<Longrightarrow> \<not> unused (so_type s) \<Longrightarrow> \<not> add \<Longrightarrow> static H [] (set_slot (HASH_ID sid) s ss1)"
      "\<And>s. buffers s = [] \<Longrightarrow> lows (set_slot (HASH_ID sid) s ss1)"
      "\<And>s r. tidy r ss (set_slot (HASH_ID sid) s ss1)"
      "ss_slot ss1 = (ss_slot ss)(HASH_ID sid := ss_slot ss1 (HASH_ID sid))"
proof -
  define i where "i = HASH_ID sid"
  define s where "s = ss_slot ss i"
  note res = reserved_slot [of H "[]" sid ss, simplified, OF inv, folded i_def, folded s_def]
  obtain failed ss0 where a: "(if add then sp_add K fd (Some i) ss else (False, ss)) = (failed, ss0)" by fastforce
  have f0: "ss_soi ss0 = ss_soi ss" "ss_alloc_id ss0 = ss_alloc_id ss" "ss_pipe ss0 = ss_pipe ss" "ss_slot ss0 = ss_slot ss"
    "ss_heap ss0 = ss_heap ss" "untouched ss ss0" "failed \<Longrightarrow> add"
    using a sp_add_fields [of K fd "Some i" ss failed ss0] by (auto split: if_splits)
  have e0: "ss_epoll ss0 x = Some (Some j, w) \<Longrightarrow> ss_epoll ss x = Some (Some j, w) \<or> (\<not> failed \<and> add \<and> j = i \<and> x = fd)"
    for x j w
    using a sp_add_fields(7) [of K fd "Some i" ss failed ss0 x j w] by (auto split: if_splits)
  note un = new_fd_def i_def [symmetric] s_def [symmetric] Let_def
  show thesis
  proof (cases failed)
    case True
    define ss1 where "ss1 = set_slot i (s\<lparr>so_type := SOCKET_TYPE_INVALID\<rparr>) ss0"
    have n: "new_fd K sid fd proto opaque add ss = Some (False, ss1)" unfolding un a prod.case using True res by (simp add: ss1_def)
    have "static H [] ss1"
    proof (rule reserved_change [OF inv, of _ "s\<lparr>so_type := SOCKET_TYPE_INVALID\<rparr>"])
      show "(\<exists>v. ss_epoll ss x = Some (Some j, v)) \<or> (j = HASH_ID sid \<and>
          live (so_type (s\<lparr>so_type := SOCKET_TYPE_INVALID\<rparr>)) \<and> so_fd (s\<lparr>so_type := SOCKET_TYPE_INVALID\<rparr>) = x)"
        if "ss_epoll ss1 x = Some (Some j, w)" for x j w
        using e0 [of x j w] that True by (auto simp: ss1_def set_slot_def)
    qed (use f0 res in \<open>simp_all add: ss1_def set_slot_def i_def buffers_def\<close>)
    moreover have "lows ss1" using lows_upd [OF lo, of ss1 i "s\<lparr>so_type := SOCKET_TYPE_INVALID\<rparr>"] f0 res
      by (simp add: ss1_def set_slot_def buffers_def)
    moreover have "tidy r ss ss1" for r
      using f0 res by (auto simp: tidy_def untouched_def ss1_def set_slot_def s_def)
    ultimately show thesis using failed [OF n] f0(7) True by (simp add: ss1_def set_slot_def i_def)
  next
    case False
    define s1 where "s1 = s\<lparr>so_opaque := opaque, so_wb_size := 0, so_fd := fd, so_id := sid, so_protocol := proto,
        so_p := Size MIN_READ_BUFFER\<rparr>"
    define ss1 where "ss1 = set_slot i s1 ss0"
    have b: "so_high s = []" "so_low s = []" using res(3) by (simp_all add: buffers_def)
    have n: "new_fd K sid fd proto opaque add ss = Some (True, ss1)" unfolding un a prod.case using False res b by (simp add: ss1_def s1_def)
    have sl: "ss_slot ss1 = (ss_slot ss)(i := s1)" by (simp add: ss1_def set_slot_def f0)
    have st: "static H [] (set_slot i t ss1)" if t: "fresh_slot sid fd proto t" "\<not> unused (so_type t)" "add \<longrightarrow> live (so_type t)" for t
    proof (rule reserved_change [OF inv, of _ t])
      show "(\<exists>v. ss_epoll ss x = Some (Some j, v)) \<or> (j = HASH_ID sid \<and> live (so_type t) \<and> so_fd t = x)"
        if "ss_epoll (set_slot i t ss1) x = Some (Some j, w)" for x j w
        using e0 [of x j w] that t by (auto simp: ss1_def set_slot_def fresh_slot_def i_def)
    qed (use t f0 in \<open>simp_all add: ss1_def set_slot_def i_def fresh_slot_def unused_iff\<close>)
    show thesis
    proof (rule ok [OF n])
      show "fresh_slot sid fd PROTOCOL_TCP ((ss_slot ss1 (HASH_ID sid))\<lparr>so_protocol := PROTOCOL_TCP\<rparr>)"
        using b unfolding i_def [symmetric]
        by (auto simp: sl fresh_slot_def s1_def buffers_def p_ok_def intro!: exI [of _ 0])
      show "so_protocol (ss_slot ss1 (HASH_ID sid)) = proto" by (simp add: sl i_def [symmetric] s1_def)
      show "lows (set_slot (HASH_ID sid) t ss1)" if "buffers t = []" for t
        using lows_upd [OF lo, of "set_slot i t ss1" i t] that by (simp add: set_slot_def sl i_def buffers_def)
      show "tidy r ss (set_slot (HASH_ID sid) t ss1)" for t r
        using f0 res by (auto simp: tidy_def untouched_def ss1_def set_slot_def s_def i_def)
      show "ss_slot ss1 = (ss_slot ss)(HASH_ID sid := ss_slot ss1 (HASH_ID sid))" by (simp add: sl i_def)
    qed (use st in \<open>auto simp: i_def\<close>)
  qed
qed

end
