(* ===== verification/Socket_Run.thy ===== *)
theory Socket_Run
  imports Socket_Safe
begin

text \<open>
  The control commands, the events and the event loop of the socket server keep its
  invariant, in every order in which clients and the network thread can come.
\<close>

section \<open>Control commands\<close>

text \<open>The result of a command: the invariant again, and the pending events tidy.\<close>

definition kept :: "(socket_event \<times> socket_message) option \<Rightarrow> 'k socket_server \<Rightarrow> 'k socket_server \<Rightarrow> bool" where
  "kept r ss ss' \<longleftrightarrow> static [] [] ss' \<and> lows ss' \<and> tidy r ss ss'"

lemma kept_worked: "static [] [] ss' \<Longrightarrow> lows ss' \<Longrightarrow> worked i r ss ss' \<Longrightarrow> kept r ss ss'"
  by (simp add: kept_def worked_tidy)

lemma invalidate_ok:
  assumes "static H [sid] ss" "lows ss"
  shows "static H [] (invalidate sid ss)" "lows (invalidate sid ss)" "tidy r ss (invalidate sid ss)"
proof -
  note res = reserved_slot [of H "[]" sid ss, simplified, OF assms(1)]
  let ?s = "(ss_slot ss (HASH_ID sid))\<lparr>so_type := SOCKET_TYPE_INVALID\<rparr>"
  show "static H [] (invalidate sid ss)"
    by (rule reserved_change [OF assms(1), of _ ?s]) (use res in \<open>auto simp: invalidate_def set_slot_def buffers_def\<close>)
  show "lows (invalidate sid ss)"
    by (rule lows_upd [OF assms(2), of _ "HASH_ID sid" ?s]) (use res in \<open>auto simp: invalidate_def set_slot_def buffers_def\<close>)
  show "tidy r ss (invalidate sid ss)" unfolding invalidate_def using res by (intro tidy_slot(2)) simp
qed

lemma invalidate_again:
  assumes "so_type (ss_slot ss (HASH_ID sid)) = SOCKET_TYPE_INVALID"
  shows "invalidate sid ss = ss"
proof -
  have "(ss_slot ss (HASH_ID sid))\<lparr>so_type := SOCKET_TYPE_INVALID\<rparr> = ss_slot ss (HASH_ID sid)" using assms by simp
  then show ?thesis by (simp add: invalidate_def set_slot_def)
qed

lemma close_fd_ok: "static H R ss \<Longrightarrow> lows ss \<Longrightarrow> static H R (close_fd K fd ss)" "lows ss \<Longrightarrow> lows (close_fd K fd ss)"
  "ss_slot (close_fd K fd ss) = ss_slot ss"
  by (simp_all add: static_close_fd) (simp_all add: close_fd_def lows_def)

lemma accepting_fd_ok:
  assumes "static H R ss" "lows ss" and ss': "ss' = sp_nonblocking K fd (socket_keepalive K fd ss)"
  shows "static H R ss'" "lows ss'" "untouched ss ss'" "ss_slot ss' = ss_slot ss"
proof -
  obtain r s1 where c: "sys (k_setsockopt K fd SO_KEEPALIVE 1) ss = (r, s1)" by fastforce
  note o1 = sys_ok [OF assms(1,2) c]
  have s: "ss' = sp_nonblocking K fd s1" by (simp add: ss' socket_keepalive_def c)
  show "static H R ss'" unfolding s by (rule static_nonblocking [OF o1(1)])
  show sl: "ss_slot ss' = ss_slot ss" using c by (simp add: s sp_nonblocking_def)
  show "lows ss'" using assms(2) lows_cong [OF sl] by simp
  show "untouched ss ss'" unfolding s by (rule untouched_trans [OF o1(4)]) simp
qed

lemma connect_loop_ok:
  "static H R ss \<Longrightarrow> lows ss \<Longrightarrow> connect_loop K ais ss = (r, ss1) \<Longrightarrow>
   static H R ss1 \<and> lows ss1 \<and> untouched ss ss1 \<and> ss_slot ss1 = ss_slot ss"
proof (induction ais arbitrary: ss)
  case (Cons ai rest)
  obtain sock s1 where c1: "sys (k_socket K True) ss = (sock, s1)" by fastforce
  note o1 = sys_ok [OF Cons.prems(1,2) c1]
  show ?case
  proof (cases "sock < 0")
    case True
    with Cons.prems(3) c1 have "connect_loop K rest s1 = (r, ss1)" by simp
    from Cons.IH [OF o1(1,2) this] o1(4) c1 show ?thesis by (auto intro: untouched_trans)
  next
    case False
    define s2 where "s2 = sp_nonblocking K sock (socket_keepalive K sock s1)"
    have s2: "static H R s2" "ss_slot s2 = ss_slot ss" "untouched ss s2" "lows s2"
      using accepting_fd_ok [OF o1(1,2) s2_def] untouched_trans [OF o1(4)] c1 by simp_all
    obtain status s3 where c3: "sys (k_connect K sock (ai_addr ai)) s2 = (status, s3)" by fastforce
    note o3 = sys_ok [OF s2(1,4) c3]
    note u3 = untouched_trans [OF s2(3) o3(4)]
    have sl3: "ss_slot s3 = ss_slot ss" using c3 s2(2) by simp
    show ?thesis
    proof (cases status)
      case ConnFail
      with False Cons.prems(3) c1 c3 have "connect_loop K rest (close_fd K sock s3) = (r, ss1)"
        by (simp add: s2_def [symmetric] Let_def)
      from Cons.IH [OF close_fd_ok(1) [OF o3(1,2)] close_fd_ok(2) [OF o3(2)] this] u3 sl3
      show ?thesis by (auto intro: untouched_trans [OF untouched_trans [OF u3 untouched_simps(5)]] simp: close_fd_ok)
    qed (use False Cons.prems(3) c1 c3 o3 u3 sl3 in \<open>auto simp: s2_def [symmetric] Let_def\<close>)
  qed
qed simp

lemma fresh_typed:
  assumes "fresh_slot sid fd PROTOCOL_TCP (s\<lparr>so_protocol := PROTOCOL_TCP\<rparr>)" "so_protocol s = PROTOCOL_TCP"
  shows "fresh_slot sid fd PROTOCOL_TCP (s\<lparr>so_type := t\<rparr>)" "buffers (s\<lparr>so_type := t\<rparr>) = []" "so_fd s = fd"
  using assms by (auto simp: fresh_slot_def buffers_def)

lemma open_socket_ok:
  assumes inv: "static [] [sid] ss" and lo: "lows ss"
  obtains r ss' where "open_socket K sid port opaque host ss = Some (r, ss')" "kept r ss ss'"
proof -
  let ?m = "\<lparr>sm_id = sid, sm_opaque = opaque, sm_ud = 0, sm_data = Null\<rparr>"
  obtain l s1 where c1: "sys (k_getaddrinfo K host port) ss = (l, s1)" by fastforce
  note o1 = sys_ok [OF inv lo c1]
  have t1: "tidy r ss s1" for r by (rule worked_tidy) (rule o1(3))
  show thesis
  proof (cases l)
    case None
    have "open_socket K sid port opaque host ss = Some (Some (SOCKET_ERROR, ?m), invalidate sid s1)"
      using c1 None by (simp add: open_socket_def)
    from that [OF this] invalidate_ok [OF o1(1,2)] tidy_trans [OF t1] show thesis by (simp add: kept_def)
  next
    case (Some ais)
    obtain found s2 where c2: "connect_loop K ais s1 = (found, s2)" by fastforce
    from connect_loop_ok [OF o1(1,2) c2] have o2: "static [] [sid] s2" "lows s2" "untouched s1 s2" "ss_slot s2 = ss_slot s1" by auto
    have t2: "tidy r ss s2" for r by (rule tidy_trans [OF t1]) (use o2 in \<open>simp add: tidy_def untouched_def\<close>)
    show thesis
    proof (cases found)
      case None
      have "open_socket K sid port opaque host ss = Some (Some (SOCKET_ERROR, ?m), invalidate sid s2)"
        using c1 c2 Some None by (simp add: open_socket_def)
      from that [OF this] invalidate_ok [OF o2(1,2)] tidy_trans [OF t2] show thesis by (simp add: kept_def)
    next
      case found: (Some f)
      obtain sock ready ai where f: "f = (sock, ready, ai)" by (cases f)
      show thesis
      proof (cases rule: new_fd_ok [OF o2(1,2), of K sock PROTOCOL_TCP opaque True])
        case (1 s3)
        have i: "invalidate sid (close_fd K sock s3) = close_fd K sock s3"
          by (rule invalidate_again) (simp add: close_fd_ok 1)
        have "open_socket K sid port opaque host ss = Some (Some (SOCKET_ERROR, ?m), close_fd K sock s3)"
          using c1 c2 Some found f 1(1) i by (simp add: open_socket_def Let_def)
        from that [OF this] 1(3,4) tidy_trans [OF t2 tidy_trans [OF 1(5)]] show thesis
          by (simp add: kept_def close_fd_ok)
      next
        case (2 s3)
        note fr = fresh_typed [OF 2(2,3)]
        show thesis
        proof (cases ready)
          case True
          have "open_socket K sid port opaque host ss = Some (Some (SOCKET_OPEN, ?m\<lparr>sm_data := text_data (ai_text ai)\<rparr>),
              set_slot (HASH_ID sid) ((ss_slot s3 (HASH_ID sid))\<lparr>so_type := SOCKET_TYPE_CONNECTED\<rparr>) s3)"
            using c1 c2 Some found f 2(1) True by (simp add: open_socket_def Let_def)
          from that [OF this] 2(4) [OF fr(1)] 2(6) [OF fr(2)] tidy_trans [OF t2 2(7)] show thesis by (simp add: kept_def)
        next
          case False
          define s4 where "s4 = set_slot (HASH_ID sid) ((ss_slot s3 (HASH_ID sid))\<lparr>so_type := SOCKET_TYPE_CONNECTING\<rparr>) s3"
          have o4: "static [] [] s4" "lows s4" "tidy None ss s4" unfolding s4_def
            using 2(4) [OF fr(1)] 2(6) [OF fr(2)] tidy_trans [OF t2 2(7)] by simp_all
          have "live (so_type (ss_slot s4 (HASH_ID sid)))" "so_fd (ss_slot s4 (HASH_ID sid)) = sock"
            using fr(3) by (simp_all add: s4_def set_slot_def)
          note w = write_event_ok [OF o4(1,2) this]
          have "open_socket K sid port opaque host ss = Some (None, sp_write sock (Some (HASH_ID sid)) True s4)"
            using c1 c2 Some found f 2(1) False by (simp add: open_socket_def Let_def s4_def)
          from that [OF this] w(1,2) tidy_trans [OF o4(3) worked_tidy [OF w(3)]] show thesis by (simp add: kept_def)
        qed
      qed
    qed
  qed
qed

lemma listen_socket_ok:
  assumes inv: "static [] [sid] ss" and lo: "lows ss"
  obtains r ss' where "listen_socket K sid fd opaque ss = Some (r, ss')" "kept r ss ss'"
proof (cases rule: new_fd_ok [OF inv lo, of K fd PROTOCOL_TCP opaque False])
  case (2 s3)
  note fr = fresh_typed [OF 2(2,3)]
  have "listen_socket K sid fd opaque ss = Some (None,
      set_slot (HASH_ID sid) ((ss_slot s3 (HASH_ID sid))\<lparr>so_type := SOCKET_TYPE_PLISTEN\<rparr>) s3)"
    using 2(1) by (simp add: listen_socket_def)
  from that [OF this] 2(5) [OF fr(1)] 2(6) [OF fr(2)] 2(7) show thesis by (simp add: kept_def)
qed auto

lemma bind_socket_ok:
  assumes inv: "static [] [sid] ss" and lo: "lows ss"
  obtains r ss' where "bind_socket K sid fd opaque ss = Some (r, ss')" "kept r ss ss'"
proof (cases rule: new_fd_ok [OF inv lo, of K fd PROTOCOL_TCP opaque True])
  case (1 s3)
  then have "bind_socket K sid fd opaque ss =
      Some (Some (SOCKET_ERROR, \<lparr>sm_id = sid, sm_opaque = opaque, sm_ud = 0, sm_data = Null\<rparr>), s3)"
    by (simp add: bind_socket_def)
  from that [OF this] 1 show thesis by (simp add: kept_def)
next
  case (2 s3)
  note fr = fresh_typed(1,2) [OF 2(2,3), of SOCKET_TYPE_BIND]
  let ?s = "(ss_slot s3 (HASH_ID sid))\<lparr>so_type := SOCKET_TYPE_BIND\<rparr>"
  let ?s4 = "set_slot (HASH_ID sid) ?s s3"
  have "set_slot (HASH_ID sid) ?s (sp_nonblocking K fd s3) = sp_nonblocking K fd ?s4"
    by (simp add: set_slot_def sp_nonblocking_def)
  then have b: "bind_socket K sid fd opaque ss = Some (Some (SOCKET_OPEN, \<lparr>sm_id = sid, sm_opaque = opaque, sm_ud = 0,
      sm_data = Text (str ''binding'')\<rparr>), sp_nonblocking K fd ?s4)"
    using 2(1) by (simp add: bind_socket_def Let_def) (simp add: sp_nonblocking_def)
  have "static [] [] (sp_nonblocking K fd ?s4)" by (rule static_nonblocking, rule 2(4) [OF fr(1)]) simp_all
  moreover have "lows (sp_nonblocking K fd ?s4)" using 2(6) [OF fr(2)] by (simp add: lows_def sp_nonblocking_def)
  moreover have "tidy r ss (sp_nonblocking K fd ?s4)" for r by (rule tidy_trans [OF 2(7) tidy_simple(2)])
  ultimately show thesis using that [OF b] by (simp add: kept_def)
qed

lemma add_udp_socket_ok:
  assumes inv: "static [] [sid] ss" and lo: "lows ss"
  obtains ss' where "add_udp_socket K sid fd v6 opaque ss = Some ss'" "kept None ss ss'"
proof (cases rule: new_fd_ok [OF inv lo, of K fd "if v6 then PROTOCOL_UDPv6 else PROTOCOL_UDP" opaque True])
  case (1 s3)
  have i: "invalidate sid (close_fd K fd s3) = close_fd K fd s3"
    by (rule invalidate_again) (simp add: close_fd_ok 1)
  have "add_udp_socket K sid fd v6 opaque ss = Some (close_fd K fd s3)" using 1(1) i by (simp add: add_udp_socket_def)
  from that [OF this] 1(3,4) tidy_trans [OF 1(5)] show thesis by (simp add: kept_def close_fd_ok)
next
  case (2 s3)
  let ?s = "(ss_slot s3 (HASH_ID sid))\<lparr>so_type := SOCKET_TYPE_CONNECTED,
      so_p := Udp_address (replicate UDP_ADDRESS_SIZE 0)\<rparr>"
  have fr: "fresh_slot sid fd (if v6 then PROTOCOL_UDPv6 else PROTOCOL_UDP) ?s" and b: "buffers ?s = []"
    using 2(2,3) by (auto simp: fresh_slot_def buffers_def p_ok_def)
  have "add_udp_socket K sid fd v6 opaque ss = Some (set_slot (HASH_ID sid) ?s s3)"
    using 2(1) by (simp add: add_udp_socket_def)
  from that [OF this] 2(4) [OF fr] 2(6) [OF b] 2(7) show thesis by (simp add: kept_def)
qed

lemma close_socket_ok:
  assumes K: "kernel_ok K" and inv: "static [] [] ss" and lo: "lows ss"
    and res: "so_type (ss_slot ss (HASH_ID sid)) = SOCKET_TYPE_RESERVE \<Longrightarrow> so_id (ss_slot ss (HASH_ID sid)) \<noteq> sid"
  obtains r ss' where "close_socket K sid opaque ss = Some (r, ss')" "kept r ss ss'"
proof -
  define i where "i = HASH_ID sid"
  define s where "s = ss_slot ss i"
  let ?m = "\<lparr>sm_id = sid, sm_opaque = opaque, sm_ud = 0, sm_data = Null\<rparr>"
  note un = close_socket_def i_def [symmetric] s_def [symmetric] Let_def
  show thesis
  proof (cases "so_type s = SOCKET_TYPE_INVALID \<or> so_id s \<noteq> sid")
    case True
    then have "close_socket K sid opaque ss = Some (Some (SOCKET_CLOSE, ?m), ss)" unfolding un by simp
    from that [OF this] inv lo show thesis by (simp add: kept_def)
  next
    case ok: False
    then have used: "\<not> unused (so_type (ss_slot ss i))" using res by (auto simp: unused_iff s_def i_def)
    have sok: "slot_ok (ss_heap ss) s" unfolding s_def by (rule staticD(4) [OF inv])
    obtain r ss1 where s1: "(if \<not> send_buffer_empty s then send_buffer K i ss else Some (None, ss)) = Some (r, ss1)"
        "static [] [] ss1" "lows ss1" "worked i r ss ss1"
    proof (cases "send_buffer_empty s")
      case True
      with that [of None ss] inv lo show thesis by simp
    next
      case False
      then have "live (so_type (ss_slot ss i))" using sok by (auto simp: slot_ok_def buffers_def send_buffer_empty_def s_def)
      then obtain r ss' where "send_buffer K i ss = Some (r, ss')" "static [] [] ss'" "lows ss'" "worked i r ss ss'"
        by (rule send_buffer_ok [OF K inv lo])
      with that False show thesis by simp
    qed
    show thesis
    proof (cases "r = None")
      case False
      then have "close_socket K sid opaque ss = Some (r, ss1)" using ok unfolding un s1(1) by simp
      from that [OF this kept_worked [OF s1(2-4)]] show thesis .
    next
      case True
      have w: "worked i None ss ss1" using s1(4) True by simp
      then have same: "so_type (ss_slot ss1 i) = so_type (ss_slot ss i)" "so_id (ss_slot ss1 i) = so_id (ss_slot ss i)"
        by (auto simp: worked_def closed_by_def)
      show thesis
      proof (cases "send_buffer_empty (ss_slot ss1 i)")
        case empty: True
        have used1: "\<not> unused (so_type (ss_slot ss1 i))" using used same by simp
        obtain ss2 where c: "force_close K i ss1 = Some (\<lparr>sm_id = so_id (ss_slot ss1 i), sm_opaque = so_opaque (ss_slot ss1 i),
              sm_ud = 0, sm_data = Null\<rparr>, ss2)" "static [] [] ss2" "lows ss2"
            "\<And>m. sm_id m = so_id (ss_slot ss1 i) \<Longrightarrow> worked i (Some (SOCKET_CLOSE, m)) ss1 ss2"
          by (rule close_ok [OF s1(2,3) used1, of SOCKET_CLOSE K]) auto
        have "close_socket K sid opaque ss = Some (Some (SOCKET_CLOSE, ?m), ss2)"
          using ok True empty c(1) unfolding un s1(1) by simp
        from that [OF this kept_worked [OF c(2,3) worked_trans [OF w c(4)]]] ok same show thesis by (simp add: s_def)
      next
        case pending: False
        define s' where "s' = (ss_slot ss1 i)\<lparr>so_type := SOCKET_TYPE_HALFCLOSE\<rparr>"
        have sok1: "slot_ok (ss_heap ss1) (ss_slot ss1 i)" by (rule staticD(4) [OF s1(2)])
        then have live: "live (so_type (ss_slot ss1 i))" using pending
          by (auto simp: slot_ok_def buffers_def send_buffer_empty_def)
        have "static [] [] (set_slot i s' ss1)"
          using live_used [OF live] live sok1 by (intro static_set [OF s1(2)])
            (auto simp: s'_def slot_ok_def buffers_def owned_def)
        moreover have "lows (set_slot i s' ss1)"
          by (rule lows_upd [OF s1(3), of _ i s']) (use lowsD [OF s1(3), of _ i] in \<open>auto simp: set_slot_def s'_def\<close>)
        moreover have "tidy None ss (set_slot i s' ss1)"
          by (rule tidy_trans [OF worked_tidy [OF w] tidy_slot(1)]) (use live in \<open>auto simp: s'_def\<close>)
        moreover have "close_socket K sid opaque ss = Some (None, set_slot i s' ss1)"
          using ok True pending unfolding un s1(1) by (simp add: s'_def)
        ultimately show thesis using that by (simp add: kept_def)
      qed
    qed
  qed
qed

lemma start_socket_ok:
  assumes inv: "static [] [] ss" and lo: "lows ss"
  obtains r ss' where "start_socket K sid opaque ss = Some (r, ss')" "kept r ss ss'"
proof -
  define i where "i = HASH_ID sid"
  define s where "s = ss_slot ss i"
  let ?m = "\<lparr>sm_id = sid, sm_opaque = opaque, sm_ud = 0, sm_data = Null\<rparr>"
  note un = start_socket_def i_def [symmetric] s_def [symmetric] Let_def
  have sok: "slot_ok (ss_heap ss) s" unfolding s_def by (rule staticD(4) [OF inv])
  have i: "i < MAX_SOCKET" unfolding i_def by (rule HASH_ID_less)
  consider (none) "so_type s = SOCKET_TYPE_INVALID \<or> so_id s \<noteq> sid"
    | (start) "\<not> (so_type s = SOCKET_TYPE_INVALID \<or> so_id s \<noteq> sid)"
        "so_type s = SOCKET_TYPE_PACCEPT \<or> so_type s = SOCKET_TYPE_PLISTEN"
    | (transfer) "\<not> (so_type s = SOCKET_TYPE_INVALID \<or> so_id s \<noteq> sid)" "so_type s = SOCKET_TYPE_CONNECTED"
    | (other) "\<not> (so_type s = SOCKET_TYPE_INVALID \<or> so_id s \<noteq> sid)"
        "\<not> (so_type s = SOCKET_TYPE_PACCEPT \<or> so_type s = SOCKET_TYPE_PLISTEN)" "so_type s \<noteq> SOCKET_TYPE_CONNECTED" by blast
  then show thesis
  proof cases
    case none
    then have "start_socket K sid opaque ss = Some (Some (SOCKET_ERROR, ?m), ss)" unfolding un by simp
    from that [OF this] inv lo show thesis by (simp add: kept_def)
  next
    case start
    then have not_live: "\<not> live (so_type (ss_slot ss i))" and b: "buffers s = []"
      using sok by (auto simp: s_def [symmetric] slot_ok_def)
    obtain failed ss1 where a: "sp_add K (so_fd s) (Some i) ss = (failed, ss1)" by fastforce
    note f = sp_add_fields [OF a]
    define t where "t = (if failed then SOCKET_TYPE_INVALID
      else if so_type s = SOCKET_TYPE_PACCEPT then SOCKET_TYPE_CONNECTED else SOCKET_TYPE_LISTEN)"
    define s' where "s' = (if failed then s\<lparr>so_type := t\<rparr> else s\<lparr>so_type := t, so_opaque := opaque\<rparr>)"
    have st: "static [] [] (set_slot i s' ss1)"
    proof (rule static_change [OF inv, where i = i and s = s' and A = "{}"])
      show "slot_ok (ss_heap (set_slot i s' ss1)) s'"
        using sok start(2) b by (auto simp: slot_ok_def s'_def t_def buffers_def set_slot_def f)
      show "HASH_ID (so_id s') = i" if "so_type s' \<noteq> SOCKET_TYPE_INVALID"
        using start(1) by (simp add: s'_def i_def)
      show "ids_ok (created (ss_pipe ss) @ []) ((ss_slot ss)(i := s'))"
        using staticD(9) [OF inv] start(2) by (intro ids_ok_upd) (auto simp: s_def [symmetric] s'_def t_def)
      show "(j \<noteq> i \<and> (\<exists>v. ss_epoll ss fd = Some (Some j, v))) \<or> (j = i \<and> live (so_type s') \<and> so_fd s' = fd)"
        if "ss_epoll (set_slot i s' ss1) fd = Some (Some j, w)" for fd j w
        using f(7) [of fd j w] that not_live_epoll [OF inv not_live, of fd w] by (auto simp: set_slot_def s'_def t_def)
    qed (use i f b in \<open>simp_all add: set_slot_def owned_def s_def [symmetric] s'_def buffers_def\<close>)
    have lo': "lows (set_slot i s' ss1)"
      by (rule lows_upd [OF lo, of _ i s']) (use f b in \<open>auto simp: set_slot_def s'_def buffers_def\<close>)
    have td: "tidy r ss (set_slot i s' ss1)" for r
      using f not_live by (auto simp: tidy_def set_slot_def untouched_def)
    obtain r where "start_socket K sid opaque ss = Some (r, set_slot i s' ss1)"
      using start unfolding un a prod.case by (cases failed) (auto simp: s'_def t_def)
    from that [OF this] st lo' td show thesis by (simp add: kept_def)
  next
    case transfer
    let ?s = "s\<lparr>so_opaque := opaque\<rparr>"
    have "static [] [] (set_slot i ?s ss)"
      by (rule static_set [OF inv]) (use transfer sok in \<open>auto simp: s_def [symmetric] slot_ok_def buffers_def owned_def\<close>)
    moreover have "lows (set_slot i ?s ss)"
      by (rule lows_upd [OF lo, of _ i ?s]) (use lowsD [OF lo, of _ i] in \<open>auto simp: set_slot_def s_def\<close>)
    moreover have "worked i r ss (set_slot i ?s ss)" for r by (rule worked_set) (simp_all add: s_def)
    moreover have "start_socket K sid opaque ss = Some (Some (SOCKET_OPEN, ?m\<lparr>sm_data := Text (str ''transfer'')\<rparr>), set_slot i ?s ss)"
      using transfer unfolding un by simp
    ultimately show thesis using that kept_worked by blast
  next
    case other
    then have "start_socket K sid opaque ss = Some (None, ss)" unfolding un by simp
    from that [OF this] inv lo show thesis by (simp add: kept_def)
  qed
qed

lemma setopt_socket_ok:
  assumes "static [] [] ss" "lows ss"
  shows "kept r ss (setopt_socket K sid what v ss)"
proof -
  obtain x ss1 where c: "sys (k_setsockopt K (so_fd (ss_slot ss (HASH_ID sid))) what v) ss = (x, ss1)" by fastforce
  note o1 = sys_ok [OF assms c]
  have "kept r ss ss1" by (rule kept_worked [OF o1(1,2,3)])
  moreover have "kept r ss ss" using assms by (simp add: kept_def)
  ultimately show ?thesis by (simp add: setopt_socket_def Let_def c)
qed

lemma set_udp_address_ok:
  assumes inv: "static [] [] ss" and lo: "lows ss"
    and res: "so_type (ss_slot ss (HASH_ID sid)) = SOCKET_TYPE_RESERVE \<Longrightarrow> so_id (ss_slot ss (HASH_ID sid)) \<noteq> sid"
    and ad: "req_ok h (Request_C sid address)"
  obtains r ss' where "set_udp_address sid address ss = Some (r, ss')" "kept r ss ss'"
proof -
  define i where "i = HASH_ID sid"
  define s where "s = ss_slot ss i"
  note un = set_udp_address_def i_def [symmetric] s_def [symmetric] Let_def
  from ad obtain c rest where c: "address = c # rest" "addrsz c = Some (length address)" by auto
  consider (none) "so_type s = SOCKET_TYPE_INVALID \<or> so_id s \<noteq> sid"
    | (mismatch) "\<not> (so_type s = SOCKET_TYPE_INVALID \<or> so_id s \<noteq> sid)" "c \<noteq> protocol_code (so_protocol s)"
    | (set) "\<not> (so_type s = SOCKET_TYPE_INVALID \<or> so_id s \<noteq> sid)" "c = protocol_code (so_protocol s)" by blast
  then show thesis
  proof cases
    case none
    then have "set_udp_address sid address ss = Some (None, ss)" unfolding un by simp
    from that [OF this] inv lo show thesis by (simp add: kept_def)
  next
    case mismatch
    then have "set_udp_address sid address ss = Some (Some (SOCKET_ERROR,
        \<lparr>sm_id = so_id s, sm_opaque = so_opaque s, sm_ud = 0, sm_data = Null\<rparr>), ss)" unfolding un by (simp add: c(1))
    from that [OF this] inv lo show thesis by (simp add: kept_def)
  next
    case set
    have used: "\<not> unused (so_type (ss_slot ss i))" using set res by (auto simp: unused_iff s_def i_def)
    have sok: "slot_ok (ss_heap ss) s" unfolding s_def by (rule staticD(4) [OF inv])
    have udp: "so_protocol s \<noteq> PROTOCOL_TCP" using set(2) c(2) by (auto simp: addrsz_def)
    with sok used obtain old where old: "so_p s = Udp_address old" "length old = UDP_ADDRESS_SIZE"
      by (cases "so_p s") (auto simp: slot_ok_def p_ok_def s_def)
    define n :: nat where "n = (if c = protocol_code PROTOCOL_UDP then 1+2+4 else 1+2+16)"
    have n: "length address = n" "n \<le> UDP_ADDRESS_SIZE"
      using c(2) by (auto simp: addrsz_def n_def UDP_ADDRESS_SIZE_def split: if_splits)
    define s' where "s' = s\<lparr>so_p := Udp_address (take n address @ drop n old)\<rparr>"
    have u: "set_udp_address sid address ss = Some (None, set_slot i s' ss)"
      using set n(1) old(1) unfolding un n_def s'_def by (simp add: c(1) p_udp_address_def)
    have "static [] [] (set_slot i s' ss)"
      by (rule static_set [OF inv])
        (use used sok udp n old(2) in \<open>auto simp: s_def [symmetric] s'_def slot_ok_def buffers_def owned_def p_ok_def\<close>)
    moreover have "lows (set_slot i s' ss)"
      by (rule lows_upd [OF lo, of _ i s']) (use lowsD [OF lo, of _ i] in \<open>auto simp: set_slot_def s_def s'_def\<close>)
    moreover have "worked i None ss (set_slot i s' ss)" by (rule worked_set) (simp_all add: s'_def s_def)
    ultimately show thesis using that u kept_worked by blast
  qed
qed

text \<open>Taking a command out of the pipe: its block and its reserved slot are in hand.\<close>

lemma ids_ok_cong: "set L' = set L \<Longrightarrow> distinct L' \<Longrightarrow> ids_ok L f \<Longrightarrow> ids_ok L' f"
  by (simp add: ids_ok_def)

lemma pop_request:
  assumes inv: "static [] [] ss" and p: "ss_pipe ss = req # rest"
  shows "static (req_buffer req) (if creates req then [req_id req] else []) (ss\<lparr>ss_pipe := rest\<rparr>)" (is ?A)
    and "req_ok (ss_heap ss) req"
    and "\<not> creates req \<Longrightarrow> so_type (ss_slot ss (HASH_ID (req_id req))) = SOCKET_TYPE_RESERVE \<Longrightarrow>
      so_id (ss_slot ss (HASH_ID (req_id req))) \<noteq> req_id req"
proof -
  note srt = staticD(8) [OF inv, unfolded p]
  note ids = staticD(9) [OF inv, unfolded p]
  show "req_ok (ss_heap ss) req" using staticD(7) [OF inv, of req] p by simp
  show "so_id (ss_slot ss (HASH_ID (req_id req))) \<noteq> req_id req"
    if "\<not> creates req" "so_type (ss_slot ss (HASH_ID (req_id req))) = SOCKET_TYPE_RESERVE"
  proof
    assume "so_id (ss_slot ss (HASH_ID (req_id req))) = req_id req"
    moreover have "so_id (ss_slot ss (HASH_ID (req_id req))) \<in> set (created (req # rest) @ [])"
      using ids that(2) unfolding ids_ok_def by blast
    ultimately have "req_id req \<in> set (created rest)" using that(1) by (simp add: created_def)
    with srt show False by (auto simp: created_def)
  qed
  have own: "owners (ss\<lparr>ss_pipe := rest\<rparr>) a + count_list (req_buffer req) a = owners ss a" for a
    by (simp add: owners_def p)
  have cr: "created (req # rest) = (if creates req then [req_id req] else []) @ created rest" by (simp add: created_def)
  show ?A
  proof (rule staticI)
    show "owners (ss\<lparr>ss_pipe := rest\<rparr>) a + count_list (req_buffer req) a =
        (if ss_heap (ss\<lparr>ss_pipe := rest\<rparr>) a = None then 0 else 1)" for a
      using own [of a] staticD(6) [OF inv, of a] by simp
    show "req_ok (ss_heap (ss\<lparr>ss_pipe := rest\<rparr>)) r \<and> req_id r \<le> ss_alloc_id (ss\<lparr>ss_pipe := rest\<rparr>)"
      if "r \<in> set (ss_pipe (ss\<lparr>ss_pipe := rest\<rparr>))" for r using staticD(7) [OF inv, of r] that p by simp
    show "ids_ok (created (ss_pipe (ss\<lparr>ss_pipe := rest\<rparr>)) @ (if creates req then [req_id req] else []))
        (ss_slot (ss\<lparr>ss_pipe := rest\<rparr>))"
      by (rule ids_ok_cong [of _ "created (req # rest) @ []"]) (use ids in \<open>auto simp: cr ids_ok_def\<close>)
    show "live (so_type (ss_slot (ss\<lparr>ss_pipe := rest\<rparr>) i)) \<and> so_fd (ss_slot (ss\<lparr>ss_pipe := rest\<rparr>) i) = fd"
      if "ss_epoll (ss\<lparr>ss_pipe := rest\<rparr>) fd = Some (Some i, w)" for fd i w
      using staticD(10) [OF inv, of fd i w] that by simp
  qed (use staticD(1-5) [OF inv] srt in simp_all)
qed

lemma ctrl_cmd_ok:
  assumes K: "kernel_ok K" and inv: "static [] [] ss" and lo: "lows ss" and cmd: "has_cmd ss"
  obtains r ss' where "ctrl_cmd K ss = Some (r, ss')" "kept r ss ss'"
proof -
  obtain req rest where p: "ss_pipe ss = req # rest" using cmd by (cases "ss_pipe ss") (auto simp: has_cmd_def)
  note pop = pop_request [OF inv p]
  note fin = that
  define s0 where "s0 = ss\<lparr>ss_pipe := rest\<rparr>"
  have lo0: "lows s0" using lo by (simp add: s0_def lows_def)
  have same: "ss_slot s0 = ss_slot ss" "ss_heap s0 = ss_heap ss" by (simp_all add: s0_def)
  have undo: "kept r ss ss'" if "kept r s0 ss'" for r ss'
    using that tidy_trans [of ss s0 r ss'] by (simp add: kept_def s0_def)
  have run: thesis if "ctrl_cmd K ss = Some (r, ss')" "kept r s0 ss'" for r ss' by (rule fin [OF that(1) undo [OF that(2)]])
  note un = ctrl_cmd_def p Let_def s0_def [symmetric]
  show thesis
  proof (cases req)
    case (Request_S sid opaque)
    have i0: "static [] [] s0" using pop(1) Request_S by (simp add: s0_def)
    obtain r ss' where "start_socket K sid opaque s0 = Some (r, ss')" "kept r s0 ss'" by (rule start_socket_ok [OF i0 lo0])
    with run [of r ss'] Request_S show thesis by (simp add: un)
  next
    case (Request_B sid fd opaque)
    have i0: "static [] [sid] s0" using pop(1) Request_B by (simp add: s0_def)
    obtain r ss' where "bind_socket K sid fd opaque s0 = Some (r, ss')" "kept r s0 ss'" by (rule bind_socket_ok [OF i0 lo0])
    with run [of r ss'] Request_B show thesis by (simp add: un)
  next
    case (Request_L sid fd opaque)
    have i0: "static [] [sid] s0" using pop(1) Request_L by (simp add: s0_def)
    obtain r ss' where "listen_socket K sid fd opaque s0 = Some (r, ss')" "kept r s0 ss'" by (rule listen_socket_ok [OF i0 lo0])
    with run [of r ss'] Request_L show thesis by (simp add: un)
  next
    case (Request_K sid opaque)
    have i0: "static [] [] s0" using pop(1) Request_K by (simp add: s0_def)
    have "so_type (ss_slot s0 (HASH_ID sid)) = SOCKET_TYPE_RESERVE \<Longrightarrow> so_id (ss_slot s0 (HASH_ID sid)) \<noteq> sid"
      using pop(3) Request_K same by simp
    then obtain r ss' where "close_socket K sid opaque s0 = Some (r, ss')" "kept r s0 ss'" by (rule close_socket_ok [OF K i0 lo0])
    with run [of r ss'] Request_K show thesis by (simp add: un)
  next
    case (Request_O sid port opaque host)
    have i0: "static [] [sid] s0" using pop(1) Request_O by (simp add: s0_def)
    obtain r ss' where "open_socket K sid port opaque host s0 = Some (r, ss')" "kept r s0 ss'" by (rule open_socket_ok [OF i0 lo0])
    with run [of r ss'] Request_O show thesis by (simp add: un)
  next
    case Request_X
    have "kept r s0 s0" for r using pop(1) lo0 Request_X by (simp add: kept_def s0_def)
    with run Request_X show thesis by (simp add: un)
  next
    case (Request_D sid sz a)
    have i0: "static [a] [] s0" using pop(1) Request_D by (simp add: s0_def)
    have b: "block_ok (ss_heap s0) a sz" using pop(2) Request_D same by simp
    have "so_type (ss_slot s0 (HASH_ID sid)) = SOCKET_TYPE_RESERVE \<Longrightarrow> so_id (ss_slot s0 (HASH_ID sid)) \<noteq> sid"
      using pop(3) Request_D same by simp
    then obtain r ss' where "send_socket K sid sz a PRIORITY_HIGH None s0 = Some (r, ss')" "static [] [] ss'" "lows ss'"
      "worked (HASH_ID sid) r s0 ss'" by (rule send_socket_ok [OF K i0 lo0 b])
    with run [of r ss'] kept_worked [of ss' "HASH_ID sid" r s0] Request_D show thesis by (simp add: un)
  next
    case (Request_P sid sz a)
    have i0: "static [a] [] s0" using pop(1) Request_P by (simp add: s0_def)
    have b: "block_ok (ss_heap s0) a sz" using pop(2) Request_P same by simp
    have "so_type (ss_slot s0 (HASH_ID sid)) = SOCKET_TYPE_RESERVE \<Longrightarrow> so_id (ss_slot s0 (HASH_ID sid)) \<noteq> sid"
      using pop(3) Request_P same by simp
    then obtain r ss' where "send_socket K sid sz a PRIORITY_LOW None s0 = Some (r, ss')" "static [] [] ss'" "lows ss'"
      "worked (HASH_ID sid) r s0 ss'" by (rule send_socket_ok [OF K i0 lo0 b])
    with run [of r ss'] kept_worked [of ss' "HASH_ID sid" r s0] Request_P show thesis by (simp add: un)
  next
    case (Request_A sid sz a address)
    have i0: "static [a] [] s0" using pop(1) Request_A by (simp add: s0_def)
    have b: "block_ok (ss_heap s0) a sz" using pop(2) Request_A same by simp
    have "so_type (ss_slot s0 (HASH_ID sid)) = SOCKET_TYPE_RESERVE \<Longrightarrow> so_id (ss_slot s0 (HASH_ID sid)) \<noteq> sid"
      using pop(3) Request_A same by simp
    then obtain r ss' where "send_socket K sid sz a PRIORITY_HIGH (Some address) s0 = Some (r, ss')" "static [] [] ss'"
      "lows ss'" "worked (HASH_ID sid) r s0 ss'" by (rule send_socket_ok [OF K i0 lo0 b])
    with run [of r ss'] kept_worked [of ss' "HASH_ID sid" r s0] Request_A show thesis by (simp add: un)
  next
    case (Request_T sid what v)
    have i0: "static [] [] s0" using pop(1) Request_T by (simp add: s0_def)
    from run [OF _ setopt_socket_ok [OF i0 lo0]] Request_T show thesis by (simp add: un)
  next
    case (Request_U sid fd v6 opaque)
    have i0: "static [] [sid] s0" using pop(1) Request_U by (simp add: s0_def)
    obtain ss' where "add_udp_socket K sid fd v6 opaque s0 = Some ss'" "kept None s0 ss'"
      by (rule add_udp_socket_ok [OF i0 lo0])
    with run [of None ss'] Request_U show thesis by (simp add: un)
  next
    case (Request_C sid address)
    have i0: "static [] [] s0" using pop(1) Request_C by (simp add: s0_def)
    have "so_type (ss_slot s0 (HASH_ID sid)) = SOCKET_TYPE_RESERVE \<Longrightarrow> so_id (ss_slot s0 (HASH_ID sid)) \<noteq> sid"
      using pop(3) Request_C same by simp
    then obtain r ss' where "set_udp_address sid address s0 = Some (r, ss')" "kept r s0 ss'"
      using set_udp_address_ok [OF i0 lo0, of sid "ss_heap ss" address thesis] pop(2) Request_C by blast
    with run [of r ss'] Request_C show thesis by (simp add: un)
  qed
qed

section \<open>Identifiers\<close>

definition ids_left :: "'k socket_server \<Rightarrow> bool" where
  "ids_left ss \<longleftrightarrow> ss_alloc_id ss + int MAX_SOCKET < 2 ^ 31"

lemma next_id_suc: "0 \<le> a \<Longrightarrow> a + 1 < 2 ^ 31 \<Longrightarrow> next_id a = a + 1"
  by (simp add: next_id_def)

lemma static_alloc:
  assumes inv: "static H R ss" and a: "ss_alloc_id ss \<le> a" "a < 2 ^ 31"
  shows "static H R (ss\<lparr>ss_alloc_id := a\<rparr>)"
proof (rule staticI)
  show "req_ok (ss_heap (ss\<lparr>ss_alloc_id := a\<rparr>)) r \<and> req_id r \<le> ss_alloc_id (ss\<lparr>ss_alloc_id := a\<rparr>)"
    if "r \<in> set (ss_pipe (ss\<lparr>ss_alloc_id := a\<rparr>))" for r
    using staticD(7) [OF inv, of r] that a by simp
  show "owners (ss\<lparr>ss_alloc_id := a\<rparr>) x + count_list H x = (if ss_heap (ss\<lparr>ss_alloc_id := a\<rparr>) x = None then 0 else 1)" for x
    using staticD(6) [OF inv, of x] by (simp add: owners_def)
  show "live (so_type (ss_slot (ss\<lparr>ss_alloc_id := a\<rparr>) i)) \<and> so_fd (ss_slot (ss\<lparr>ss_alloc_id := a\<rparr>) i) = fd"
    if "ss_epoll (ss\<lparr>ss_alloc_id := a\<rparr>) fd = Some (Some i, w)" for fd i w
    using staticD(10) [OF inv, of fd i w] that by simp
qed (use staticD(1-5,8,9) [OF inv] a in simp_all)

lemma reserve_loop_ok:
  "static H [] ss \<Longrightarrow> lows ss \<Longrightarrow> ss_alloc_id ss + int n < 2 ^ 31 \<Longrightarrow> reserve_loop n ss = (sid, ss1) \<Longrightarrow>
   lows ss1 \<and> (\<forall>r. tidy r ss ss1) \<and> ss_pipe ss1 = ss_pipe ss \<and> ss_heap ss1 = ss_heap ss \<and> ss_alloc_id ss1 < 2 ^ 31 \<and>
   (if sid < 0 then sid = -1 \<and> static H [] ss1 \<and> ss_slot ss1 = ss_slot ss
    else ss_alloc_id ss < sid \<and> sid \<le> ss_alloc_id ss1 \<and> static H [sid] ss1 \<and>
      (\<forall>j. so_type (ss_slot ss j) \<noteq> SOCKET_TYPE_INVALID \<longrightarrow> ss_slot ss1 j = ss_slot ss j))"
proof (induction n arbitrary: ss)
  case (Suc n)
  note inv = Suc.prems(1) and lo = Suc.prems(2)
  define i where "i = next_id (ss_alloc_id ss)"
  define s1 where "s1 = ss\<lparr>ss_alloc_id := i\<rparr>"
  define s where "s = ss_slot ss (HASH_ID i)"
  have i: "i = ss_alloc_id ss + 1" unfolding i_def
    by (rule next_id_suc) (use staticD(2) [OF inv] Suc.prems(3) in simp_all)
  have inv1: "static H [] s1" unfolding s1_def by (rule static_alloc [OF inv]) (use i Suc.prems(3) in simp_all)
  have lo1: "lows s1" using lo by (simp add: s1_def lows_def)
  have t1: "tidy r ss s1" for r using i by (simp add: s1_def tidy_def)
  define s' where "s' = s\<lparr>so_type := SOCKET_TYPE_RESERVE, so_id := i, so_fd := -1\<rparr>"
  have un: "reserve_loop (Suc n) ss =
      (if so_type s = SOCKET_TYPE_INVALID then (i, set_slot (HASH_ID i) s' s1) else reserve_loop n s1)"
    by (simp add: Let_def i_def s1_def s_def s'_def)
  show ?case
  proof (cases "so_type s = SOCKET_TYPE_INVALID")
    case True
    have b: "buffers s = []" using staticD(4) [OF inv, of "HASH_ID i"] True by (simp add: slot_ok_def s_def)
    have r: "sid = i" "ss1 = set_slot (HASH_ID i) s' s1"
      using Suc.prems(4) True unfolding un by auto
    have "static H [i] ss1"
    proof (rule static_change [OF inv1, where i = "HASH_ID i" and s = s' and A = "{}"])
      show "slot_ok (ss_heap ss1) s'" using b by (simp add: slot_ok_def s'_def buffers_def)
      show "ids_ok (created (ss_pipe s1) @ [i]) ((ss_slot s1)(HASH_ID i := s'))"
        by (rule ids_ok_reserve) (use staticD(9) [OF inv1] True in \<open>simp_all add: s'_def s1_def s_def\<close>)
      show "(j \<noteq> HASH_ID i \<and> (\<exists>v. ss_epoll s1 fd = Some (Some j, v))) \<or>
          (j = HASH_ID i \<and> live (so_type s') \<and> so_fd s' = fd)"
        if "ss_epoll ss1 fd = Some (Some j, w)" for fd j w
        using that not_live_epoll [OF inv1, of "HASH_ID i" fd w] True by (auto simp: r(2) set_slot_def s1_def s_def)
      show "owned a s' + count_list H a + of_bool (a \<in> {}) = owned a (ss_slot s1 (HASH_ID i)) + count_list H a" for a
        using b by (simp add: owned_def s'_def s1_def s_def [symmetric] buffers_def)
    qed (simp_all add: r(2) set_slot_def HASH_ID_less s'_def)
    moreover have "lows ss1" using lows_upd [OF lo1, of ss1 "HASH_ID i" s'] b
      by (simp add: r(2) set_slot_def s'_def buffers_def)
    moreover have "tidy q ss ss1" for q
      by (rule tidy_trans [OF t1]) (use True in \<open>simp add: r(2) tidy_slot(2) s1_def s_def\<close>)
    ultimately show ?thesis using r i staticD(2,3) [OF inv1] True by (simp add: s1_def set_slot_def s_def)
  next
    case False
    with Suc.prems(4) have r: "reserve_loop n s1 = (sid, ss1)" unfolding un by simp
    have "ss_alloc_id s1 + int n < 2 ^ 31" using Suc.prems(3) i by (simp add: s1_def)
    from Suc.IH [OF inv1 lo1 this r] show ?thesis using tidy_trans [OF t1] i
      by (auto simp: s1_def split: if_splits)
  qed
qed (use staticD(3) in auto)

lemma reserve_id_ok:
  assumes "static H [] ss" "lows ss" "ids_left ss"
  obtains (full) ss1 where "reserve_id ss = (-1, ss1)" "static H [] ss1" "lows ss1" "\<And>r. tidy r ss ss1"
      "ss_slot ss1 = ss_slot ss"
  | (ok) sid ss1 where "reserve_id ss = (sid, ss1)" "\<not> sid < 0" "static H [sid] ss1" "lows ss1" "\<And>r. tidy r ss ss1"
      "ss_pipe ss1 = ss_pipe ss" "ss_alloc_id ss < sid" "sid \<le> ss_alloc_id ss1"
      "\<And>j. so_type (ss_slot ss j) \<noteq> SOCKET_TYPE_INVALID \<Longrightarrow> ss_slot ss1 j = ss_slot ss j"
proof -
  obtain sid ss1 where r: "reserve_loop MAX_SOCKET ss = (sid, ss1)" by fastforce
  from reserve_loop_ok [OF assms(1,2) _ r] assms(3) have
    "lows ss1 \<and> (\<forall>r. tidy r ss ss1) \<and> ss_pipe ss1 = ss_pipe ss \<and> ss_heap ss1 = ss_heap ss \<and> ss_alloc_id ss1 < 2 ^ 31 \<and>
     (if sid < 0 then sid = -1 \<and> static H [] ss1 \<and> ss_slot ss1 = ss_slot ss
      else ss_alloc_id ss < sid \<and> sid \<le> ss_alloc_id ss1 \<and> static H [sid] ss1 \<and>
        (\<forall>j. so_type (ss_slot ss j) \<noteq> SOCKET_TYPE_INVALID \<longrightarrow> ss_slot ss1 j = ss_slot ss j))" by (simp add: ids_left_def)
  with r full ok show thesis by (cases "sid < 0") (auto simp: reserve_id_def)
qed

section \<open>Events\<close>

lemma forward_message_tcp_ok:
  assumes K: "kernel_ok K" and inv: "static [] [] ss" and lo: "lows ss" and live: "live (so_type (ss_slot ss i))"
    and tcp: "so_protocol (ss_slot ss i) = PROTOCOL_TCP"
  obtains r ss' where "forward_message_tcp K i ss = Some (r, ss')" "static [] [] ss'" "lows ss'" "worked i r ss ss'"
    "\<And>e m. r = Some (e, m) \<Longrightarrow> e \<noteq> SOCKET_UDP"
proof -
  define s where "s = ss_slot ss i"
  have used: "\<not> unused (so_type s)" using live_used [OF live] by (simp add: s_def)
  have sok: "slot_ok (ss_heap ss) s" unfolding s_def by (rule staticD(4) [OF inv])
  with used tcp obtain k where k: "k \<le> 24" "so_p s = Size (MIN_READ_BUFFER * 2 ^ k)"
    by (auto simp: slot_ok_def p_ok_def s_def split: socket_p.splits)
  define sz where "sz = MIN_READ_BUFFER * 2 ^ k"
  have p: "p_size s = Some sz" "\<not> sz < 0" using k by (simp_all add: p_size_def sz_def MIN_READ_BUFFER_def)
  obtain q ss1 where c: "sys (k_read K (so_fd s) (nat sz)) ss = (q, ss1)" by fastforce
  note o1 = sys_ok [OF inv lo c]
  have sl1: "ss_slot ss1 i = s" using c by (simp add: s_def)
  note un = forward_message_tcp_def s_def [symmetric] Let_def p(1) Option.bind.simps p(2) if_False c prod.case
  have closing: "\<exists>ss'. force_close K i ss1 = Some (\<lparr>sm_id = so_id s, sm_opaque = so_opaque s, sm_ud = 0, sm_data = Null\<rparr>, ss') \<and>
      static [] [] ss' \<and> lows ss' \<and>
      worked i (Some (e, \<lparr>sm_id = so_id s, sm_opaque = so_opaque s, sm_ud = 0, sm_data = Null\<rparr>)) ss ss'"
    if e: "e = SOCKET_CLOSE \<or> e = SOCKET_ERROR" for e
  proof -
    have u1: "\<not> unused (so_type (ss_slot ss1 i))" using used sl1 by simp
    obtain ss' where "force_close K i ss1 = Some (\<lparr>sm_id = so_id (ss_slot ss1 i), sm_opaque = so_opaque (ss_slot ss1 i),
          sm_ud = 0, sm_data = Null\<rparr>, ss')" "static [] [] ss'" "lows ss'"
        "\<And>m. sm_id m = so_id (ss_slot ss1 i) \<Longrightarrow> worked i (Some (e, m)) ss1 ss'"
      by (rule close_ok [OF o1(1,2) u1 e, of K]) blast
    with worked_trans [OF o1(3)] sl1 show ?thesis by simp
  qed
  show thesis
  proof (cases q)
    case ReadFail
    from closing [of SOCKET_ERROR] obtain ss' where c2: "force_close K i ss1 =
        Some (\<lparr>sm_id = so_id s, sm_opaque = so_opaque s, sm_ud = 0, sm_data = Null\<rparr>, ss')" "static [] [] ss'" "lows ss'"
        "worked i (Some (SOCKET_ERROR, \<lparr>sm_id = so_id s, sm_opaque = so_opaque s, sm_ud = 0, sm_data = Null\<rparr>)) ss ss'" by auto
    have "forward_message_tcp K i ss = Some (Some (SOCKET_ERROR,
        \<lparr>sm_id = so_id s, sm_opaque = so_opaque s, sm_ud = 0, sm_data = Null\<rparr>), ss')"
      unfolding un using p(2) ReadFail c2(1) by simp
    from that [OF this c2(2-4)] show thesis by simp
  next
    case (ReadDone bs)
    consider (eof) "bs = []" | (half) "bs \<noteq> []" "so_type s = SOCKET_TYPE_HALFCLOSE"
      | (data) "bs \<noteq> []" "so_type s \<noteq> SOCKET_TYPE_HALFCLOSE" by blast
    then show thesis
    proof cases
      case eof
      from closing [of SOCKET_CLOSE] obtain ss' where c2: "force_close K i ss1 =
          Some (\<lparr>sm_id = so_id s, sm_opaque = so_opaque s, sm_ud = 0, sm_data = Null\<rparr>, ss')" "static [] [] ss'" "lows ss'"
          "worked i (Some (SOCKET_CLOSE, \<lparr>sm_id = so_id s, sm_opaque = so_opaque s, sm_ud = 0, sm_data = Null\<rparr>)) ss ss'" by auto
      have "forward_message_tcp K i ss = Some (Some (SOCKET_CLOSE,
          \<lparr>sm_id = so_id s, sm_opaque = so_opaque s, sm_ud = 0, sm_data = Null\<rparr>), ss')"
        unfolding un using p(2) ReadDone eof c2(1) by simp
      from that [OF this c2(2-4)] show thesis by simp
    next
      case half
      have "forward_message_tcp K i ss = Some (None, ss1)" unfolding un using p(2) ReadDone half by simp
      from that [OF this o1(1,2,3)] show thesis by simp
    next
      case data
      define sz1 where "sz1 = (if int (length bs) = sz then as_int (sz * 2)
          else if sz > MIN_READ_BUFFER \<and> int (length bs) * 2 < sz then sz div 2 else sz)"
      obtain k' where "k_read K (so_fd s) (nat sz) (ss_os ss) = (ReadDone bs, k')"
        using c ReadDone by (cases "k_read K (so_fd s) (nat sz) (ss_os ss)") (simp add: sys_def)
      from kernel_read [OF K this] have len: "length bs < 2 ^ 30" by blast
      have size: "\<exists>j\<le>24. sz1 = MIN_READ_BUFFER * 2 ^ j"
      proof (cases "int (length bs) = sz")
        case True
        have "(64 :: int) * 2 ^ k < 2 ^ 30" using True len by (simp add: sz_def MIN_READ_BUFFER_def)
        then have lt: "(2 :: int) ^ k < 2 ^ 24" by simp
        have "k < 24" by (rule power_less_imp_less_exp [OF _ lt]) simp
        moreover have "sz * 2 = MIN_READ_BUFFER * 2 ^ Suc k" by (simp add: sz_def)
        moreover have "sz * 2 < 2 ^ 31" using True len by simp
        ultimately show ?thesis using True p(2) by (intro exI [of _ "Suc k"]) (simp add: sz1_def as_int_small)
      next
        case False
        show ?thesis
        proof (cases "sz > MIN_READ_BUFFER \<and> int (length bs) * 2 < sz")
          case True
          then obtain j where "k = Suc j" by (cases k) (auto simp: sz_def)
          with False True k(1) show ?thesis by (intro exI [of _ j]) (simp add: sz1_def sz_def)
        next
          case n: False
          have "sz1 = MIN_READ_BUFFER * 2 ^ k" using False n by (simp only: sz1_def if_False) (simp add: sz_def)
          with k(1) show ?thesis by blast
        qed
      qed
      let ?s = "s\<lparr>so_p := Size sz1\<rparr>"
      let ?ss = "set_slot i ?s ss1"
      have "slot_ok (ss_heap ss1) ?s" using sok size tcp c
        by (auto simp: slot_ok_def buffers_def p_ok_def s_def)
      then have "static [] [] ?ss" using sl1 used by (intro static_set [OF o1(1)]) (simp_all add: owned_def buffers_def)
      moreover have "lows ?ss"
        by (rule lows_upd [OF o1(2), of _ i ?s]) (use lowsD [OF lo, of _ i] in \<open>auto simp: set_slot_def s_def\<close>)
      moreover have "worked i r ss ?ss" for r by (rule worked_trans [OF o1(3) worked_set]) (simp_all add: sl1)
      moreover have "forward_message_tcp K i ss = Some (Some (SOCKET_DATA, \<lparr>sm_id = so_id s, sm_opaque = so_opaque s,
          sm_ud = int (length bs), sm_data = Received bs\<rparr>), ?ss)"
        unfolding un using p(2) ReadDone data by (simp add: sz1_def)
      ultimately show thesis using that by blast
    qed
  next
    case ReadIntr
    have "forward_message_tcp K i ss = Some (None, ss1)" unfolding un using p(2) ReadIntr by simp
    from that [OF this o1(1,2,3)] show thesis by simp
  next
    case ReadAgain
    have "forward_message_tcp K i ss = Some (None, ss1)" unfolding un using p(2) ReadAgain by simp
    from that [OF this o1(1,2,3)] show thesis by simp
  qed
qed

lemma forward_message_udp_ok:
  assumes inv: "static [] [] ss" and lo: "lows ss" and live: "live (so_type (ss_slot ss i))"
  obtains r ss' where "forward_message_udp K i ss = Some (r, ss')" "static [] [] ss'" "lows ss'" "worked i r ss ss'"
proof -
  define s where "s = ss_slot ss i"
  obtain q ss1 where c: "sys (k_recvfrom K (so_fd s) MAX_UDP_PACKAGE) ss = (q, ss1)" by fastforce
  note o1 = sys_ok [OF inv lo c]
  have sl1: "ss_slot ss1 i = s" using c by (simp add: s_def)
  note un = forward_message_udp_def s_def [symmetric] Let_def c prod.case
  show thesis
  proof (cases q)
    case RecvFail
    have u1: "\<not> unused (so_type (ss_slot ss1 i))" using live_used [OF live] sl1 by (simp add: s_def)
    obtain ss' where c2: "force_close K i ss1 = Some (\<lparr>sm_id = so_id (ss_slot ss1 i), sm_opaque = so_opaque (ss_slot ss1 i),
          sm_ud = 0, sm_data = Null\<rparr>, ss')" "static [] [] ss'" "lows ss'"
        "\<And>m. sm_id m = so_id (ss_slot ss1 i) \<Longrightarrow> worked i (Some (SOCKET_ERROR, m)) ss1 ss'"
      by (rule close_ok [OF o1(1,2) u1, of SOCKET_ERROR K]) auto
    have "forward_message_udp K i ss = Some (Some (SOCKET_ERROR,
        \<lparr>sm_id = so_id (ss_slot ss1 i), sm_opaque = so_opaque (ss_slot ss1 i), sm_ud = 0, sm_data = Null\<rparr>), ss')"
      unfolding un using RecvFail c2(1) by simp
    from that [OF this c2(2,3) worked_trans [OF o1(3) c2(4)]] show thesis by simp
  next
    case (RecvDone bs sa)
    let ?wrong = "case sa of V4 _ _ \<Rightarrow> so_protocol s \<noteq> PROTOCOL_UDP | V6 _ _ \<Rightarrow> so_protocol s \<noteq> PROTOCOL_UDPv6"
    show thesis
    proof (cases ?wrong)
      case True
      have "forward_message_udp K i ss = Some (None, ss1)" unfolding un using RecvDone True by simp
      from that [OF this o1(1,2,3)] show thesis .
    next
      case False
      have "forward_message_udp K i ss = Some (Some (SOCKET_UDP, \<lparr>sm_id = so_id s, sm_opaque = so_opaque s,
          sm_ud = int (length bs), sm_data = Received (bs @ gen_udp_address sa)\<rparr>), ss1)"
        unfolding un using RecvDone False by simp
      from that [OF this o1(1,2,3)] show thesis .
    qed
  next
    case RecvIntr
    have "forward_message_udp K i ss = Some (None, ss1)" unfolding un using RecvIntr by simp
    from that [OF this o1(1,2,3)] show thesis .
  next
    case RecvAgain
    have "forward_message_udp K i ss = Some (None, ss1)" unfolding un using RecvAgain by simp
    from that [OF this o1(1,2,3)] show thesis .
  qed
qed

text \<open>A connection that is established or has failed: the slot stays live, or its closing is reported.\<close>

lemma report_connect_ok:
  assumes inv: "static [] [] ss" and lo: "lows ss" and conn: "so_type (ss_slot ss i) = SOCKET_TYPE_CONNECTING"
  obtains r ss' where "report_connect K i ss = Some (r, ss')" "kept r ss ss'"
    "\<And>j. j \<noteq> i \<Longrightarrow> ss_slot ss' j = ss_slot ss j"
proof -
  obtain err ss1 where c: "sys (k_so_error K (so_fd (ss_slot ss i))) ss = (err, ss1)" by fastforce
  note o1 = sys_ok [OF inv lo c]
  have sl1: "ss_slot ss1 = ss_slot ss" using c by simp
  note un = report_connect_def Let_def c prod.case
  show thesis
  proof (cases err)
    case True
    have u1: "\<not> unused (so_type (ss_slot ss1 i))" using conn sl1 by simp
    obtain ss' where c2: "force_close K i ss1 = Some (\<lparr>sm_id = so_id (ss_slot ss1 i), sm_opaque = so_opaque (ss_slot ss1 i),
          sm_ud = 0, sm_data = Null\<rparr>, ss')" "static [] [] ss'" "lows ss'"
        "\<And>m. sm_id m = so_id (ss_slot ss1 i) \<Longrightarrow> worked i (Some (SOCKET_ERROR, m)) ss1 ss'"
      by (rule close_ok [OF o1(1,2) u1, of SOCKET_ERROR K]) auto
    let ?m = "\<lparr>sm_id = so_id (ss_slot ss1 i), sm_opaque = so_opaque (ss_slot ss1 i), sm_ud = 0, sm_data = Null\<rparr>"
    have w: "worked i (Some (SOCKET_ERROR, ?m)) ss ss'" by (rule worked_trans [OF o1(3) c2(4)]) simp
    have "report_connect K i ss = Some (Some (SOCKET_ERROR, ?m), ss')" unfolding un using True c2(1) by simp
    from that [OF this kept_worked [OF c2(2,3) w]] w show thesis by (simp add: worked_def)
  next
    case False
    define s where "s = (ss_slot ss1 i)\<lparr>so_type := SOCKET_TYPE_CONNECTED\<rparr>"
    define ss2 where "ss2 = set_slot i s ss1"
    have sok: "slot_ok (ss_heap ss1) (ss_slot ss1 i)" by (rule staticD(4) [OF o1(1)])
    have i2: "static [] [] ss2" unfolding ss2_def
      by (rule static_set [OF o1(1)]) (use conn sl1 sok in \<open>auto simp: s_def slot_ok_def buffers_def owned_def\<close>)
    have l2: "lows ss2"
      by (rule lows_upd [OF o1(2), of _ i s]) (use lowsD [OF o1(2), of _ i] in \<open>auto simp: set_slot_def s_def ss2_def\<close>)
    define ss3 where "ss3 = (if send_buffer_empty s then sp_write (so_fd s) (Some i) False ss2 else ss2)"
    have "live (so_type (ss_slot ss2 i))" "so_fd (ss_slot ss2 i) = so_fd s" by (simp_all add: ss2_def set_slot_def s_def)
    note w = write_event_ok [OF i2 l2 this]
    have i3: "static [] [] ss3" "lows ss3" "ss_slot ss3 = ss_slot ss2" using w i2 l2 by (auto simp: ss3_def sp_write_def)
    have u3: "untouched ss2 ss3" by (simp add: ss3_def)
    obtain peer ss4 where c4: "sys (k_peername K (so_fd s)) ss3 = (peer, ss4)" by fastforce
    note o4 = sys_ok [OF i3(1,2) c4]
    have sl4: "ss_slot ss4 = (ss_slot ss)(i := s)" using c4 i3(3) sl1 by (simp add: ss2_def set_slot_def)
    have "untouched ss ss4"
      by (rule untouched_trans [OF o1(4) untouched_trans [OF _ untouched_trans [OF u3 o4(4)]]]) (simp add: ss2_def)
    then have td: "tidy r ss ss4" for r by (auto simp: tidy_def untouched_def sl4 s_def)
    have "report_connect K i ss = Some (Some (SOCKET_OPEN, \<lparr>sm_id = so_id s, sm_opaque = so_opaque s, sm_ud = 0,
        sm_data = text_data peer\<rparr>), ss4)"
      unfolding un s_def [symmetric] ss2_def [symmetric] ss3_def [symmetric] c4 prod.case using False by simp
    from that [OF this] o4(1,2) td sl4 show thesis by (simp add: kept_def)
  qed
qed

lemma report_accept_ok:
  assumes inv: "static [] [] ss" and lo: "lows ss" and ids: "ids_left ss"
  obtains m ss' where "report_accept K i ss = Some (m, ss')" "static [] [] ss'" "lows ss'" "\<And>r. tidy r ss ss'"
proof -
  obtain client ss1 where c: "sys (k_accept K (so_fd (ss_slot ss i))) ss = (client, ss1)" by fastforce
  note o1 = sys_ok [OF inv lo c]
  have t1: "tidy r ss ss1" for r by (rule worked_tidy) (rule o1(3))
  have ids1: "ids_left ss1" using ids c by (simp add: ids_left_def)
  note un = report_accept_def Let_def c prod.case
  consider (none) "client = None \<or> (\<exists>fd h p. client = Some (fd, h, p) \<and> fd < 0)"
    | (some) fd h p where "client = Some (fd, h, p)" "\<not> fd < 0" by (cases client) auto
  then show thesis
  proof cases
    case none
    then have "report_accept K i ss = Some (None, ss1)" unfolding un by auto
    from that [OF this o1(1,2) t1] show thesis .
  next
    case some
    show thesis
    proof (cases rule: reserve_id_ok [OF o1(1,2) ids1])
      case (1 ss2)
      have "report_accept K i ss = Some (None, close_fd K fd ss2)" unfolding un using some 1(1) by simp
      from that [OF this close_fd_ok(1) [OF 1(2,3)] close_fd_ok(2) [OF 1(3)] tidy_trans [OF t1 tidy_trans [OF 1(4) tidy_simple(3)]]]
      show thesis .
    next
      case (2 sid ss2)
      define ss3 where "ss3 = sp_nonblocking K fd (socket_keepalive K fd ss2)"
      note o3 = accepting_fd_ok [OF 2(3,4) ss3_def]
      have t3: "tidy r ss ss3" for r
        by (rule tidy_trans [OF t1 tidy_trans [OF 2(5)]]) (use o3 in \<open>simp add: tidy_def untouched_def\<close>)
      show thesis
      proof (cases rule: new_fd_ok [OF o3(1,2), of K fd PROTOCOL_TCP "so_opaque (ss_slot ss i)" False])
        case (2 ss4)
        note fr = fresh_typed(1,2) [OF 2(2,3), of SOCKET_TYPE_PACCEPT]
        let ?ss5 = "set_slot (HASH_ID sid) ((ss_slot ss4 (HASH_ID sid))\<lparr>so_type := SOCKET_TYPE_PACCEPT\<rparr>) ss4"
        have i5: "static [] [] ?ss5" by (rule 2(5) [OF fr(1)]) simp_all
        obtain m where "report_accept K i ss = Some (m, ?ss5)"
          unfolding un using some \<open>reserve_id ss1 = (sid, ss2)\<close> \<open>\<not> sid < 0\<close> 2(1) by (simp add: ss3_def [symmetric])
        from that [OF this i5 2(6) [OF fr(2)] tidy_trans [OF t3 2(7)]] show thesis .
      qed simp
    qed
  qed
qed

text \<open>The pending events stay in order under every operation; those of a closed slot are cleared.\<close>

lemma ev_ok_index: "ev_ok ss \<Longrightarrow> n = Suc (ss_event_index ss) \<Longrightarrow> n \<le> length (ss_ev ss) \<Longrightarrow> ev_ok (ss\<lparr>ss_event_index := n\<rparr>)"
proof -
  assume a: "ev_ok ss" "n = Suc (ss_event_index ss)" "n \<le> length (ss_ev ss)"
  then have "drop (ss_event_index ss) (ss_ev ss) = ss_ev ss ! ss_event_index ss # drop n (ss_ev ss)"
    by (simp add: Cons_nth_drop_Suc)
  with a show ?thesis by (auto simp: ev_ok_def map_filter_simps split: option.splits)
qed

lemma ev_ok_kept: "ev_ok ss \<Longrightarrow> tidy None ss ss' \<Longrightarrow> ev_ok ss'"
  unfolding ev_ok_def tidy_def closed_by_def by auto

lemma map_filter_clear:
  "set (List.map_filter ev_s (map (\<lambda>v. if c v then v\<lparr>ev_s := None\<rparr> else v) l)) \<subseteq> set (List.map_filter ev_s l)"
  "distinct (List.map_filter ev_s l) \<Longrightarrow>
   distinct (List.map_filter ev_s (map (\<lambda>v. if c v then v\<lparr>ev_s := None\<rparr> else v) l))"
  by (induction l) (auto simp: map_filter_simps split: option.splits)

lemma clear_closed_ok:
  assumes inv: "static [] [] ss'" and lo: "lows ss'" and ev: "ev_ok ss" and td: "tidy (Some (e, m)) ss ss'"
  shows "server_ok (clear_closed_event e m ss')"
proof (cases "e = SOCKET_CLOSE \<or> e = SOCKET_ERROR")
  case False
  then have "tidy None ss ss'" using td unfolding tidy_def closed_by_def by auto
  with False inv lo ev_ok_kept [OF ev] show ?thesis by (simp add: server_ok_def clear_closed_event_def)
next
  case True
  define c where "c v \<longleftrightarrow> (\<exists>i. ev_s v = Some i \<and> so_type (ss_slot ss' i) = SOCKET_TYPE_INVALID \<and>
    so_id (ss_slot ss' i) = sm_id m)" for v :: event
  define n where "n = ss_event_index ss'"
  define l where "l = drop n (ss_ev ss')"
  define l' where "l' = map (\<lambda>v. if c v then v\<lparr>ev_s := None\<rparr> else v) l"
  have f: "(\<lambda>v. case ev_s v of None \<Rightarrow> v | Some i \<Rightarrow> if so_type (ss_slot ss' i) = SOCKET_TYPE_INVALID \<and>
      so_id (ss_slot ss' i) = sm_id m then v\<lparr>ev_s := None\<rparr> else v) = (\<lambda>v. if c v then v\<lparr>ev_s := None\<rparr> else v)"
    by (auto simp: c_def fun_eq_iff split: option.splits)
  have cl: "clear_closed_event e m ss' = ss'\<lparr>ss_ev := take n (ss_ev ss') @ l'\<rparr>"
    using True by (auto simp: clear_closed_event_def f n_def l_def l'_def)
  have n: "n \<le> length (ss_ev ss')" "ss_ev ss' = ss_ev ss" "n = ss_event_index ss"
    using ev td by (auto simp: ev_ok_def tidy_def n_def)
  have d: "drop n (take n (ss_ev ss') @ l') = l'" using n by simp
  have live: "live (so_type (ss_slot ss' i))" if v: "v \<in> set l'" "ev_s v = Some i" for v i
  proof -
    from v obtain w where w: "w \<in> set l" "\<not> c w" "ev_s w = Some i" by (auto simp: l'_def split: if_splits)
    then have "live (so_type (ss_slot ss i))" using ev n by (auto simp: ev_ok_def l_def)
    then show ?thesis using td w by (auto simp: tidy_def closed_by_def c_def)
  qed
  have "distinct (List.map_filter ev_s l')" unfolding l'_def
    by (rule map_filter_clear(2)) (use ev n in \<open>simp add: ev_ok_def l_def\<close>)
  with live d n(1) have "ev_ok (clear_closed_event e m ss')" unfolding ev_ok_def cl
    by (auto simp: n_def [symmetric] l'_def l_def)
  moreover have "static [] [] (clear_closed_event e m ss')" unfolding cl by (rule static_events(1) [OF inv])
  moreover have "lows (clear_closed_event e m ss')" using lo by (simp add: cl lows_def)
  ultimately show ?thesis by (simp add: server_ok_def)
qed

lemma cleared_ok:
  assumes "kept r ss ss'" "ev_ok ss"
  obtains ss'' where "cleared (r, ss') = (r, ss'')" "server_ok ss''" "ss_alloc_id ss'' = ss_alloc_id ss'"
proof (cases r)
  case None
  with that [of ss'] assms ev_ok_kept show thesis by (auto simp: kept_def server_ok_def cleared_def)
next
  case (Some em)
  obtain e m where em: "em = (e, m)" by fastforce
  from clear_closed_ok [of ss' ss e m] assms Some em
  have "server_ok (clear_closed_event e m ss')" by (simp add: kept_def)
  with that [of "clear_closed_event e m ss'"] Some em show thesis by (simp add: cleared_def clear_closed_event_def)
qed

lemma ev_ok_update:
  assumes ev: "ev_ok ss" and n: "ss_event_index ss < length (ss_ev ss)" "ev_s e = ev_s (ss_ev ss ! ss_event_index ss)"
  shows "ev_ok (ss\<lparr>ss_ev := (ss_ev ss)[ss_event_index ss := e]\<rparr>)"
proof -
  let ?n = "ss_event_index ss"
  have "drop ?n ((ss_ev ss)[?n := e]) = e # drop (Suc ?n) (ss_ev ss)"
    using n(1) by (simp add: drop_update_swap Cons_nth_drop_Suc [symmetric])
  moreover have "drop ?n (ss_ev ss) = ss_ev ss ! ?n # drop (Suc ?n) (ss_ev ss)" using n(1) by (simp add: Cons_nth_drop_Suc)
  ultimately show ?thesis using ev n by (simp add: ev_ok_def map_filter_simps)
qed

text \<open>Work on the slot of the event at hand, after which the event, perhaps changed, is put back.\<close>

lemma put_event_ok:
  assumes inv: "static [] [] ss'" and lo: "lows ss'" and w: "worked i r (ss\<lparr>ss_event_index := Suc n\<rparr>) ss'"
    and ev: "ev_ok ss" and n: "n = ss_event_index ss" "n < length (ss_ev ss)" "ev_s e = ev_s (ss_ev ss ! n)"
  obtains base where "ev_ok base" "kept r base (put_event e ss')"
proof -
  let ?base = "ss\<lparr>ss_ev := (ss_ev ss)[n := e]\<rparr>"
  have u: "ss_ev ss' = ss_ev ss" "ss_event_index ss' = Suc n" "ss_alloc_id ss' = ss_alloc_id ss"
    using w by (simp_all add: worked_def untouched_def)
  have "static [] [] (put_event e ss')"
    unfolding put_event_def by (rule static_frame [OF inv]) auto
  moreover have "lows (put_event e ss')" using lo by (simp add: put_event_def lows_def)
  moreover have "tidy r ?base (put_event e ss')"
    using worked_tidy [OF w] u by (simp add: tidy_def put_event_def n)
  ultimately have "kept r ?base (put_event e ss')" by (simp add: kept_def)
  moreover have "ev_ok ?base" using ev_ok_update [OF ev] n by simp
  ultimately show thesis using that by blast
qed

lemma event_default_ok:
  assumes K: "kernel_ok K" and inv: "static [] [] ss" and lo: "lows ss" and ev: "ev_ok ss"
    and n: "n = ss_event_index ss" "n < length (ss_ev ss)" and e: "e = ss_ev ss ! n" "ev_s e = Some i"
    and live: "live (so_type (ss_slot ss i))"
  obtains r ss' where "event_default K e i (ss\<lparr>ss_event_index := Suc n\<rparr>) = Some (r, ss')" "server_ok ss'"
proof -
  define s1 where "s1 = ss\<lparr>ss_event_index := Suc n\<rparr>"
  have i1: "static [] [] s1" "lows s1" "live (so_type (ss_slot s1 i))" "ev_ok s1" "ss_slot s1 = ss_slot ss"
    using inv lo live ev_ok_index [OF ev] n by (simp_all add: s1_def static_events lows_def)
  consider (read) "ev_read e" | (flush) "\<not> ev_read e" "ev_write e" | (none) "\<not> ev_read e" "\<not> ev_write e" by blast
  then show thesis
  proof cases
    case none
    then have "event_default K e i s1 = Some (None, s1)" by (simp add: event_default_def)
    with that i1 show thesis by (simp add: server_ok_def s1_def)
  next
    case flush
    obtain r ss' where s: "send_buffer K i s1 = Some (r, ss')" "static [] [] ss'" "lows ss'" "worked i r s1 ss'"
      by (rule send_buffer_ok [OF K i1(1,2,3)])
    obtain ss'' where c: "cleared (r, ss') = (r, ss'')" "server_ok ss''"
      by (rule cleared_ok [OF kept_worked [OF s(2-4)] i1(4)])
    have "event_default K e i s1 = Some (r, ss'')" using flush s(1) c(1) by (simp add: event_default_def)
    with that c(2) show thesis by (simp add: s1_def)
  next
    case read
    obtain r s2 where s2: "(if so_protocol (ss_slot s1 i) = PROTOCOL_TCP then forward_message_tcp K i s1
          else forward_message_udp K i s1) = Some (r, s2)" "static [] [] s2" "lows s2" "worked i r s1 s2"
    proof (cases "so_protocol (ss_slot s1 i) = PROTOCOL_TCP")
      case True
      obtain r s2 where "forward_message_tcp K i s1 = Some (r, s2)" "static [] [] s2" "lows s2" "worked i r s1 s2"
        by (rule forward_message_tcp_ok [OF K i1(1-3) True]) blast
      with that True show thesis by simp
    next
      case False
      obtain r s2 where "forward_message_udp K i s1 = Some (r, s2)" "static [] [] s2" "lows s2" "worked i r s1 s2"
        by (rule forward_message_udp_ok [OF i1(1-3)])
      with that False show thesis by simp
    qed
    note w = s2(4) [unfolded s1_def]
    show thesis
    proof (cases "\<exists>m\<in>set_option r. fst m = SOCKET_UDP")
      case True
      obtain base where b: "ev_ok base" "kept r base (put_event e s2)"
        by (rule put_event_ok [OF s2(2,3) w ev n]) (simp_all add: e)
      from True have "closed_by r = (\<lambda>_. False)" by (auto simp: closed_by_def fun_eq_iff)
      with b(2) have "tidy None base (put_event e s2)" by (simp add: kept_def tidy_def)
      with ev_ok_kept [OF b(1)] b(2) have "server_ok (put_event e s2)" by (simp add: kept_def server_ok_def)
      moreover have "event_default K e i s1 = Some (r, put_event e s2)"
        using read s2(1) True by (simp add: event_default_def)
      ultimately show thesis using that by (simp add: s1_def)
    next
      case False
      show thesis
      proof (cases "ev_write e")
        case True
        obtain base where b: "ev_ok base" "kept r base (put_event (e\<lparr>ev_read := False\<rparr>) s2)"
          by (rule put_event_ok [OF s2(2,3) w ev n, of "e\<lparr>ev_read := False\<rparr>"]) (simp_all add: e)
        obtain ss'' where c: "cleared (r, put_event (e\<lparr>ev_read := False\<rparr>) s2) = (r, ss'')" "server_ok ss''"
          by (rule cleared_ok [OF b(2,1)])
        have "event_default K e i s1 = Some (r, ss'')"
          using read s2(1) False True c(1) by (simp add: event_default_def)
        with that c(2) show thesis by (simp add: s1_def)
      next
        case no_write: False
        obtain ss'' where c: "cleared (r, s2) = (r, ss'')" "server_ok ss''"
          by (rule cleared_ok [OF kept_worked [OF s2(2-4)] i1(4)])
        have "event_default K e i s1 = Some (r, ss'')" using read s2(1) False no_write c(1) by (simp add: event_default_def)
        with that c(2) show thesis by (simp add: s1_def)
      qed
    qed
  qed
qed

lemma next_event_ok:
  assumes K: "kernel_ok K" and ok: "server_ok ss" and ids: "ids_left ss" and n: "ss_event_index ss < length (ss_ev ss)"
  obtains t ss' where "next_event K ss = Some (t, ss')" "server_ok ss'"
proof -
  define k where "k = ss_event_index ss"
  define e where "e = ss_ev ss ! k"
  define s1 where "s1 = ss\<lparr>ss_event_index := Suc k\<rparr>"
  have inv: "static [] [] ss" "lows ss" "ev_ok ss" using ok by (simp_all add: server_ok_def)
  have ok1: "server_ok s1" and sl1: "ss_slot s1 = ss_slot ss" and ids1: "ids_left s1"
    using inv ids ev_ok_index [OF inv(3)] n by (simp_all add: server_ok_def s1_def k_def static_events lows_def ids_left_def)
  have inv1: "static [] [] s1" "lows s1" "ev_ok s1" using ok1 by (simp_all add: server_ok_def)
  have split: "drop k (ss_ev ss) = e # drop (Suc k) (ss_ev ss)" using n by (simp add: Cons_nth_drop_Suc e_def k_def)
  have "\<exists>r ss'. dispatch_event K e s1 = Some (r, ss') \<and> server_ok ss'"
  proof (cases "ev_s e")
    case None
    with ok1 show ?thesis by (simp add: dispatch_event_def)
  next
    case (Some i)
    have live: "live (so_type (ss_slot ss i))" using inv(3) split Some by (simp add: ev_ok_def k_def [symmetric])
    consider (conn) "so_type (ss_slot ss i) = SOCKET_TYPE_CONNECTING" | (listen) "so_type (ss_slot ss i) = SOCKET_TYPE_LISTEN"
      | (other) "so_type (ss_slot ss i) \<noteq> SOCKET_TYPE_CONNECTING" "so_type (ss_slot ss i) \<noteq> SOCKET_TYPE_LISTEN" by blast
    then show ?thesis
    proof cases
      case conn
      then have conn1: "so_type (ss_slot s1 i) = SOCKET_TYPE_CONNECTING" by (simp add: sl1)
      obtain r ss' where r: "report_connect K i s1 = Some (r, ss')" "kept r s1 ss'"
          "\<And>j. j \<noteq> i \<Longrightarrow> ss_slot ss' j = ss_slot s1 j" by (rule report_connect_ok [OF inv1(1,2) conn1, of K]) blast
      have "i \<notin> set (List.map_filter ev_s (drop (Suc k) (ss_ev ss)))"
        using inv(3) split Some by (simp add: ev_ok_def k_def [symmetric] map_filter_simps)
      then have other: "j \<noteq> i" if "v \<in> set (drop (Suc k) (ss_ev ss))" "ev_s v = Some j" for v j
        using that by (auto simp: map_filter_def image_iff)
      have "ev_ok ss'" using inv1(3) r(2,3) other unfolding ev_ok_def kept_def tidy_def by (auto simp: s1_def)
      with r(1,2) conn1 Some show ?thesis by (simp add: dispatch_event_def kept_def server_ok_def)
    next
      case listen
      obtain m ss' where r: "report_accept K i s1 = Some (m, ss')" "static [] [] ss'" "lows ss'" "\<And>r. tidy r s1 ss'"
        by (rule report_accept_ok [OF inv1(1,2) ids1, of K i]) blast
      have "server_ok ss'" using r(2,3) ev_ok_kept [OF inv1(3) r(4)] by (simp add: server_ok_def)
      with r(1) listen sl1 Some show ?thesis by (simp add: dispatch_event_def)
    next
      case other
      obtain r ss' where "event_default K e i s1 = Some (r, ss')" "server_ok ss'"
        unfolding s1_def by (rule event_default_ok [OF K inv k_def _ e_def Some live]) (use n in \<open>simp_all add: k_def\<close>)
      moreover have "dispatch_event K e s1 = event_default K e i s1"
        using other live Some sl1 by (cases "so_type (ss_slot ss i)") (simp_all add: dispatch_event_def)
      ultimately show ?thesis by simp
    qed
  qed
  then obtain r ss' where "dispatch_event K e s1 = Some (r, ss')" "server_ok ss'" by blast
  moreover have "next_event K ss = map_option turn_of (dispatch_event K e s1)"
    by (simp add: next_event_def e_def s1_def k_def)
  ultimately show thesis using that [of _ ss'] by (cases r) (auto simp: turn_of_def)
qed

lemma poll_turn_ok:
  assumes K: "kernel_ok K" and ok: "server_ok ss" and ids: "ids_left ss"
  obtains t mo' ss' where "poll_turn K mo ss = Some (t, mo', ss')" "server_ok ss'"
proof -
  have inv: "static [] [] ss" "lows ss" "ev_ok ss" using ok by (simp_all add: server_ok_def)
  show thesis
  proof (cases "ss_checkctrl ss \<and> has_cmd ss")
    case True
    obtain r ss' where r: "ctrl_cmd K ss = Some (r, ss')" "kept r ss ss'" by (rule ctrl_cmd_ok [OF K inv(1,2)]) (use True in simp)
    obtain ss'' where c: "cleared (r, ss') = (r, ss'')" "server_ok ss''" by (rule cleared_ok [OF r(2) inv(3)])
    have "poll_turn K mo ss = Some (fst (turn_of (r, ss'')), mo, ss'')"
      using True r(1) c(1) by (cases r) (simp_all add: poll_turn_def turn_of_def)
    from that [OF this c(2)] show thesis .
  next
    case False
    define s1 where "s1 = ss\<lparr>ss_checkctrl := False\<rparr>"
    have ok1: "server_ok s1" "ids_left s1"
      using inv ids by (simp_all add: server_ok_def s1_def static_events lows_def ev_ok_def ids_left_def)
    show thesis
    proof (cases "ss_event_index s1 = length (ss_ev s1)")
      case finished: True
      obtain evs s2 where c: "sys (k_epoll_wait K (ss_epoll s1) MAX_EVENT) s1 = (evs, s2)" by fastforce
      define s3 where "s3 = s2\<lparr>ss_ev := evs, ss_checkctrl := True, ss_event_index := 0\<rparr>"
      have inv1: "static [] [] s1" "lows s1" using ok1 by (simp_all add: server_ok_def)
      note o1 = sys_ok [OF inv1 c]
      have "static [] [] s3" unfolding s3_def by (intro static_events o1)
      moreover have "lows s3" using o1(2) by (simp add: s3_def lows_def)
      moreover have "ev_ok s3"
      proof -
        obtain k where "k_epoll_wait K (ss_epoll s1) MAX_EVENT (ss_os s1) = (evs, k)"
          using c by (cases "k_epoll_wait K (ss_epoll s1) MAX_EVENT (ss_os s1)") (simp add: sys_def)
        from kernel_epoll_wait [OF K this] obtain fds where fds: "distinct fds"
          "list_all2 (\<lambda>e fd. \<exists>w. ss_epoll s1 fd = Some (ev_s e, w)) evs fds" by blast
        have reg: "\<exists>w. ss_epoll s1 (so_fd (ss_slot s1 i)) = Some (Some i, w) \<and> live (so_type (ss_slot s1 i))"
          if "ss_epoll s1 fd = Some (Some i, w)" for fd i w using staticD(10) [OF inv1(1) that] that by auto
        have "set (List.map_filter ev_s es) \<subseteq> {i. so_fd (ss_slot s1 i) \<in> set fs \<and> live (so_type (ss_slot s1 i))} \<and>
            distinct (List.map_filter ev_s es)"
          if "list_all2 (\<lambda>e fd. \<exists>w. ss_epoll s1 fd = Some (ev_s e, w)) es fs" "distinct fs" for es fs
          using that
        proof (induction rule: list_all2_induct)
          case (Cons e es fd fs)
          then obtain w where w: "ss_epoll s1 fd = Some (ev_s e, w)" by blast
          show ?case
          proof (cases "ev_s e")
            case (Some i)
            with w staticD(10) [OF inv1(1), of fd i w] have "so_fd (ss_slot s1 i) = fd" "live (so_type (ss_slot s1 i))" by auto
            with Cons Some show ?thesis by (auto simp: map_filter_simps)
          qed (use Cons in \<open>auto simp: map_filter_simps\<close>)
        qed (simp add: map_filter_simps)
        from this [OF fds(2,1)] have "distinct (List.map_filter ev_s evs)"
          "\<forall>i\<in>set (List.map_filter ev_s evs). live (so_type (ss_slot s1 i))" by auto
        then show ?thesis using c by (auto simp: ev_ok_def s3_def map_filter_def image_iff)
      qed
      ultimately have ok3: "server_ok s3" by (simp add: server_ok_def)
      have ids3: "ids_left s3" using ok1(2) c by (simp add: s3_def ids_left_def)
      show thesis
      proof (cases "evs = []")
        case True
        have "poll_turn K mo ss = Some (Return None, False, s3)"
          using False finished c True unfolding poll_turn_def s1_def [symmetric] Let_def by (auto simp: s3_def)
        from that [OF this ok3] show thesis .
      next
        case some: False
        obtain t ss' where t: "next_event K s3 = Some (t, ss')" "server_ok ss'"
          by (rule next_event_ok [OF K ok3 ids3]) (use some in \<open>simp add: s3_def\<close>)
        have "poll_turn K mo ss = Some (t, False, ss')"
          using False finished c some t(1) unfolding poll_turn_def s1_def [symmetric] Let_def by (auto simp: s3_def)
        from that [OF this t(2)] show thesis .
      qed
    next
      case more: False
      have "ss_event_index s1 < length (ss_ev s1)" using ok1(1) more by (simp add: server_ok_def ev_ok_def)
      then obtain t ss' where t: "next_event K s1 = Some (t, ss')" "server_ok ss'" by (rule next_event_ok [OF K ok1])
      have "poll_turn K mo ss = Some (t, mo, ss')"
        using False more t(1) unfolding poll_turn_def s1_def [symmetric] Let_def by auto
      from that [OF this t(2)] show thesis .
    qed
  qed
qed

end
