(* ===== verification/Socket_Net.thy ===== *)
theory Socket_Net
  imports Socket_Run
begin

text \<open>
  The socket server as a whole: the clients' calls and the turns of the event loop, in any
  order (\<open>net_reach\<close>), and what holds throughout. A client uses identifiers that it has been
  given, and hands over blocks of its own; \<open>ids_left\<close> says that the identifiers have not
  come near to 2^31, where they start again.
\<close>

section \<open>The calls of the clients\<close>

datatype client =
    Connect u32 "byte list" int
  | Listen u32 "byte list option" int int
  | Bind u32 int
  | Udp u32 "byte list option" int
  | Send int addr "byte list" int
  | Send_low int addr "byte list" int
  | Udp_send int "byte list" addr "byte list" int
  | Udp_connect int "byte list" int
  | Close u32 int
  | Start u32 int
  | Nodelay int
  | Exit

definition hand_over :: "addr \<Rightarrow> byte list \<Rightarrow> 'k socket_server \<Rightarrow> 'k socket_server" where
  "hand_over a bs ss = ss\<lparr>ss_heap := (ss_heap ss)(a \<mapsto> bs)\<rparr>"

fun client_call :: "'k kernel \<Rightarrow> client \<Rightarrow> 'k socket_server \<Rightarrow> (int \<times> 'k socket_server) option" where
  "client_call K (Connect opaque host port) ss = Some (socket_server_connect opaque host port ss)"
| "client_call K (Listen opaque host port backlog) ss = socket_server_listen K opaque host port backlog ss"
| "client_call K (Bind opaque fd) ss = Some (socket_server_bind opaque fd ss)"
| "client_call K (Udp opaque host port) ss = socket_server_udp K opaque host port ss"
| "client_call K (Send sid a bs sz) ss = socket_server_send sid a sz (hand_over a bs ss)"
| "client_call K (Send_low sid a bs sz) ss = map_option (Pair 0) (socket_server_send_lowpriority sid a sz (hand_over a bs ss))"
| "client_call K (Udp_send sid address a bs sz) ss = socket_server_udp_send sid address a sz (hand_over a bs ss)"
| "client_call K (Udp_connect sid host port) ss = socket_server_udp_connect K sid host port ss"
| "client_call K (Close opaque sid) ss = Some (0, socket_server_close opaque sid ss)"
| "client_call K (Start opaque sid) ss = Some (0, socket_server_start opaque sid ss)"
| "client_call K (Nodelay sid) ss = Some (0, socket_server_nodelay sid ss)"
| "client_call K Exit ss = Some (0, socket_server_exit ss)"

definition owns :: "addr \<Rightarrow> byte list \<Rightarrow> int \<Rightarrow> 'k socket_server \<Rightarrow> bool" where
  "owns a bs sz ss \<longleftrightarrow> ss_heap ss a = None \<and> 0 \<le> sz \<and> nat sz \<le> length bs"

fun client_ok :: "client \<Rightarrow> 'k socket_server \<Rightarrow> bool" where
  "client_ok (Send sid a bs sz) ss \<longleftrightarrow> sid \<le> ss_alloc_id ss \<and> owns a bs sz ss"
| "client_ok (Send_low sid a bs sz) ss \<longleftrightarrow> sid \<le> ss_alloc_id ss \<and> owns a bs sz ss"
| "client_ok (Udp_send sid address a bs sz) ss \<longleftrightarrow> sid \<le> ss_alloc_id ss \<and> owns a bs sz ss \<and> address \<noteq> [] \<and>
     (case addrsz (hd address) of None \<Rightarrow> True | Some n \<Rightarrow> n \<le> length address)"
| "client_ok (Udp_connect sid host port) ss \<longleftrightarrow> sid \<le> ss_alloc_id ss"
| "client_ok (Close opaque sid) ss \<longleftrightarrow> sid \<le> ss_alloc_id ss"
| "client_ok (Start opaque sid) ss \<longleftrightarrow> sid \<le> ss_alloc_id ss"
| "client_ok (Nodelay sid) ss \<longleftrightarrow> sid \<le> ss_alloc_id ss"
| "client_ok _ ss \<longleftrightarrow> True"

section \<open>Requests and blocks\<close>

lemma send_request_ok:
  assumes inv: "static (req_buffer req) R ss" and R: "R = (if creates req then [req_id req] else [])"
    and ok: "req_ok (ss_heap ss) req" "req_id req \<le> ss_alloc_id ss"
    and new: "creates req \<Longrightarrow> \<forall>r\<in>set (ss_pipe ss). req_id r \<noteq> req_id req"
  shows "static [] [] (send_request req ss)"
proof (rule staticI)
  have own: "owners (send_request req ss) a = owners ss a + count_list (req_buffer req) a" for a
    by (simp add: owners_def send_request_def)
  show "owners (send_request req ss) a + count_list [] a = (if ss_heap (send_request req ss) a = None then 0 else 1)" for a
    using own [of a] staticD(6) [OF inv, of a] by (simp add: send_request_def)
  show "req_ok (ss_heap (send_request req ss)) r \<and> req_id r \<le> ss_alloc_id (send_request req ss)"
    if "r \<in> set (ss_pipe (send_request req ss))" for r
    using that ok staticD(7) [OF inv, of r] by (auto simp: send_request_def)
  show "sorted_wrt (\<lambda>r r'. creates r' \<longrightarrow> req_id r \<noteq> req_id r') (ss_pipe (send_request req ss))"
    using staticD(8) [OF inv] new by (auto simp: send_request_def sorted_wrt_append)
  show "ids_ok (created (ss_pipe (send_request req ss)) @ []) (ss_slot (send_request req ss))"
    using staticD(9) [OF inv] by (simp add: send_request_def created_def R split: if_splits)
  show "live (so_type (ss_slot (send_request req ss) i)) \<and> so_fd (ss_slot (send_request req ss) i) = fd"
    if "ss_epoll (send_request req ss) fd = Some (Some i, w)" for fd i w
    using staticD(10) [OF inv, of fd i w] that by (simp add: send_request_def)
qed (use staticD(1-5) [OF inv] in \<open>simp_all add: send_request_def\<close>)

lemma request_tidy [simp]: "tidy r ss (send_request req ss)" "lows (send_request req ss) = lows ss"
  by (simp_all add: send_request_def lows_def)

lemma plain_request_ok:
  assumes "static (req_buffer req) [] ss" "lows ss" "tidy None ss0 ss" "\<not> creates req" "req_ok (ss_heap ss) req"
    "req_id req \<le> ss_alloc_id ss"
  shows "kept None ss0 (send_request req ss)"
  using send_request_ok [OF assms(1)] assms tidy_trans [OF assms(3) request_tidy(1)] by (simp add: kept_def)

lemma hand_over_ok:
  assumes inv: "static [] [] ss" and a: "ss_heap ss a = None"
  shows "static [a] [] (hand_over a bs ss)"
proof -
  have wb: "wb_ok ((ss_heap ss)(a \<mapsto> bs)) wb" if "wb_ok (ss_heap ss) wb" for wb using that a by (auto simp: wb_ok_def)
  have bl: "block_ok ((ss_heap ss)(a \<mapsto> bs)) x sz" if "block_ok (ss_heap ss) x sz" for x sz
    using that a by (auto simp: block_ok_def)
  show ?thesis
  proof (rule staticI)
    show "slot_ok (ss_heap (hand_over a bs ss)) (ss_slot (hand_over a bs ss) i)" for i
      using staticD(4) [OF inv, of i] wb by (auto simp: hand_over_def slot_ok_def)
    show "owners (hand_over a bs ss) x + count_list [a] x = (if ss_heap (hand_over a bs ss) x = None then 0 else 1)" for x
      using staticD(6) [OF inv, of x] a by (simp add: hand_over_def owners_def split: if_splits)
    show "req_ok (ss_heap (hand_over a bs ss)) r \<and> req_id r \<le> ss_alloc_id (hand_over a bs ss)"
      if "r \<in> set (ss_pipe (hand_over a bs ss))" for r
      using staticD(7) [OF inv, of r] that bl by (cases r) (auto simp: hand_over_def)
    show "live (so_type (ss_slot (hand_over a bs ss) i)) \<and> so_fd (ss_slot (hand_over a bs ss) i) = fd"
      if "ss_epoll (hand_over a bs ss) fd = Some (Some i, w)" for fd i w
      using staticD(10) [OF inv, of fd i w] that by (simp add: hand_over_def)
  qed (use staticD(1-3,5,8,9) [OF inv] in \<open>simp_all add: hand_over_def\<close>)
qed

lemma hand_over_simps [simp]: "tidy r ss (hand_over a bs ss)" "lows (hand_over a bs ss) = lows ss"
  "ss_alloc_id (hand_over a bs ss) = ss_alloc_id ss" "ss_slot (hand_over a bs ss) = ss_slot ss"
  "ss_heap (hand_over a bs ss) a = Some bs"
  by (simp_all add: hand_over_def lows_def)

text \<open>A block that is sent, with the request that carries it, or that is freed at once.\<close>

lemma owned_request_ok:
  assumes inv: "static [] [] ss" and lo: "lows ss" and a: "owns a bs sz ss"
    and req: "req_buffer req = [a]" "\<not> creates req" "req_id req \<le> ss_alloc_id ss"
      "block_ok (ss_heap (hand_over a bs ss)) a sz \<Longrightarrow> req_ok (ss_heap (hand_over a bs ss)) req"
  shows "kept None ss (send_request req (hand_over a bs ss))"
proof (rule plain_request_ok)
  show "static (req_buffer req) [] (hand_over a bs ss)" using hand_over_ok [OF inv] a req(1) by (simp add: owns_def)
  show "req_ok (ss_heap (hand_over a bs ss)) req" by (rule req(4)) (use a in \<open>auto simp: block_ok_def owns_def\<close>)
qed (use lo req in simp_all)

lemma owned_free_ok:
  assumes inv: "static [] [] ss" and lo: "lows ss" and a: "owns a bs sz ss"
  obtains ss' where "free_buffer a sz (hand_over a bs ss) = Some ss'" "kept None ss ss'"
proof -
  have "static [a] [] (hand_over a bs ss)" using hand_over_ok [OF inv] a by (simp add: owns_def)
  then obtain ss' where f: "free_func False a (hand_over a bs ss) = Some ss'" "static [] [] ss'" "lows ss'"
      "\<And>i r. worked i r (hand_over a bs ss) ss'" by (rule free_held) (use lo in simp_all)
  have "free_buffer a sz (hand_over a bs ss) = Some ss'"
    using f(1) a by (simp add: free_buffer_def init_plain owns_def)
  moreover have "kept None ss ss'"
    using f(2,3) tidy_trans [OF hand_over_simps(1) worked_tidy [OF f(4)]] by (simp add: kept_def)
  ultimately show thesis using that by blast
qed

text \<open>A slot that is reserved, with the request that takes it into use.\<close>

lemma reserved_request_ok:
  assumes "static [] [] ss" "static [] [sid] ss1" "lows ss1" "tidy None ss ss1" "ss_pipe ss1 = ss_pipe ss"
    "ss_alloc_id ss < sid" "sid \<le> ss_alloc_id ss1" "req_id req = sid" "creates req"
  shows "kept None ss (send_request req ss1)"
proof -
  have "\<forall>r\<in>set (ss_pipe ss1). req_id r \<noteq> req_id req" using staticD(7) [OF assms(1)] assms(5,6,8) by fastforce
  moreover have "req_buffer req = []" "req_ok (ss_heap ss1) req" using assms(9) by (cases req; simp)+
  ultimately have "static [] [] (send_request req ss1)"
    using assms by (intro send_request_ok [where R = "[sid]"]) simp_all
  with assms(3,4) tidy_trans [OF assms(4) request_tidy(1)] show ?thesis by (simp add: kept_def)
qed

text \<open>System calls alone.\<close>

definition near :: "addr list \<Rightarrow> int list \<Rightarrow> 'k socket_server \<Rightarrow> 'k socket_server \<Rightarrow> bool" where
  "near H R ss y \<longleftrightarrow> static H R y \<and> lows y \<and> untouched ss y \<and> ss_slot y = ss_slot ss"

lemma near_refl: "static H R ss \<Longrightarrow> lows ss \<Longrightarrow> near H R ss ss"
  by (simp add: near_def)

lemma near_sys: "near H R ss x \<Longrightarrow> sys f x = (v, y) \<Longrightarrow> near H R ss y"
  using sys_ok [of H R x f v y] untouched_trans [of ss x y] by (simp add: near_def)

lemma near_close: "near H R ss x \<Longrightarrow> near H R ss (close_fd K fd x)"
  using close_fd_ok(1) [of H R x K fd] close_fd_ok(2) [of x K fd] close_fd_ok(3) [of K fd x] untouched_trans [of ss x "close_fd K fd x"] by (simp add: near_def)

lemma near_nonblocking: "near H R ss x \<Longrightarrow> near H R ss (sp_nonblocking K fd x)"
  using untouched_trans [of ss x "sp_nonblocking K fd x"]
  by (simp add: near_def static_nonblocking) (simp add: sp_nonblocking_def lows_def)

lemma nearD: "near H R ss x \<Longrightarrow> static H R x" "near H R ss x \<Longrightarrow> lows x" "near H R ss x \<Longrightarrow> tidy r ss x"
  "near H R ss x \<Longrightarrow> ss_pipe x = ss_pipe ss" "near H R ss x \<Longrightarrow> ss_alloc_id x = ss_alloc_id ss"
  by (simp_all add: near_def untouched_def tidy_def)

lemma resolved:
  assumes "kernel_ok K" "sys (k_getaddrinfo K host port) ss = (l, x)" "l = Some ais"
  shows "ais \<noteq> [] \<and> (\<forall>ai\<in>set ais. sockaddr_ok (ai_addr ai))"
proof -
  obtain k where "k_getaddrinfo K host port (ss_os ss) = (Some ais, k)"
    using assms(2,3) by (cases "k_getaddrinfo K host port (ss_os ss)") (simp add: sys_def)
  from kernel_getaddrinfo [OF assms(1) this] show ?thesis by (simp add: addresses_ok_def)
qed

lemma do_bind_ok:
  assumes K: "kernel_ok K" and near: "near H R ss x"
  obtains fd v6 y where "do_bind K host port tcp x = Some (fd, v6, y)" "near H R ss y"
proof -
  define h where "h = (case host of None \<Rightarrow> str ''0.0.0.0'' | Some h \<Rightarrow> if h = [] then str ''0.0.0.0'' else h)"
  obtain l s1 where c1: "sys (k_getaddrinfo K h port) x = (l, s1)" by fastforce
  note n1 = near_sys [OF near c1]
  have ne: "l \<noteq> Some []" using resolved [OF K c1] by auto
  note un = do_bind_def h_def [symmetric] Let_def c1 prod.case
  show thesis
  proof (cases l)
    case None
    then have "do_bind K host port tcp x = Some (-1, False, s1)" unfolding un by simp
    from that [OF this n1] show thesis .
  next
    case (Some ais)
    then obtain ai rest where ai: "l = Some (ai # rest)" using ne by (cases ais) auto
    obtain fd s2 where c2: "sys (k_socket K tcp) s1 = (fd, s2)" by fastforce
    obtain f s3 where c3: "sys (k_setsockopt K fd SO_REUSEADDR 1) s2 = (f, s3)" by fastforce
    obtain g s4 where c4: "sys (k_bind K fd (ai_addr ai)) s3 = (g, s4)" by fastforce
    note n2 = near_sys [OF n1 c2] note n3 = near_sys [OF n2 c3] note n4 = near_sys [OF n3 c4]
    let ?v6 = "case ai_addr ai of V4 _ _ \<Rightarrow> False | V6 _ _ \<Rightarrow> True"
    have "do_bind K host port tcp x = Some
        (if fd < 0 then (-1, ?v6, s2) else if f then (-1, ?v6, close_fd K fd s3)
         else if g then (-1, ?v6, close_fd K fd s4) else (fd, ?v6, s4))"
      unfolding un using ai c2 c3 c4 by simp
    with that n2 near_close [OF n3] near_close [OF n4] n4 show thesis by (simp split: if_splits)
  qed
qed

lemma do_listen_ok:
  assumes K: "kernel_ok K" and near: "near H R ss x"
  obtains fd y where "do_listen K host port backlog x = Some (fd, y)" "near H R ss y"
proof -
  obtain fd v6 y where b: "do_bind K host port True x = Some (fd, v6, y)" "near H R ss y" by (rule do_bind_ok [OF K near])
  obtain f z where c: "sys (k_listen K fd backlog) y = (f, z)" by fastforce
  have "do_listen K host port backlog x =
      Some (if fd < 0 then (-1, y) else if f then (-1, close_fd K fd z) else (fd, z))"
    using b(1) c by (simp add: do_listen_def)
  with that b(2) near_close [OF near_sys [OF b(2) c]] near_sys [OF b(2) c] show thesis by (simp split: if_splits)
qed

section \<open>The clients keep the invariant\<close>

lemma reserve_near:
  assumes "static [] [] ss" "near [] [] ss x" "ids_left ss"
  obtains (full) y where "reserve_id x = (-1, y)" "static [] [] y" "lows y" "tidy None ss y"
  | (ok) sid y where "reserve_id x = (sid, y)" "\<not> sid < 0"
      "\<And>req. req_id req = sid \<Longrightarrow> creates req \<Longrightarrow> kept None ss (send_request req y)"
proof -
  have ids: "ids_left x" using assms(3) nearD(5) [OF assms(2)] by (simp add: ids_left_def)
  show thesis
  proof (cases rule: reserve_id_ok [OF nearD(1,2) [OF assms(2)] ids])
    case (1 y)
    with full tidy_trans [OF nearD(3) [OF assms(2)]] show thesis by blast
  next
    case (2 sid y)
    have "kept None ss (send_request req y)" if "req_id req = sid" "creates req" for req
      by (rule reserved_request_ok [OF assms(1) 2(3,4) tidy_trans [OF nearD(3) [OF assms(2)] 2(5)] _ _ 2(8) that])
        (use 2 nearD [OF assms(2)] in simp_all)
    with ok 2(1,2) show thesis by blast
  qed
qed

lemma client_call_ok:
  assumes K: "kernel_ok K" and inv: "static [] [] ss" and lo: "lows ss" and ids: "ids_left ss" and c: "client_ok c ss"
  obtains v ss' where "client_call K c ss = Some (v, ss')" "kept None ss ss'"
proof -
  note n0 = near_refl [OF inv lo]
  have stay: "kept None ss y" if "near [] [] ss y" for y using nearD [OF that] by (simp add: kept_def)
  show thesis
  proof (cases c)
    case (Connect opaque host port)
    show thesis
    proof (cases "256 \<le> length host + SIZEOF_REQUEST_OPEN")
      case True
      with that [of "-1" ss] stay [OF n0] Connect show thesis by (simp add: socket_server_connect_def)
    next
      case False
      show thesis
      proof (cases rule: reserve_near [OF inv n0 ids])
        case (1 y)
        with that [of "-1" y] False Connect show thesis by (simp add: socket_server_connect_def kept_def)
      next
        case (2 sid y)
        with that [of sid "send_request (Request_O sid port opaque host) y"] False Connect show thesis
          by (simp add: socket_server_connect_def)
      qed
    qed
  next
    case (Listen opaque host port backlog)
    obtain fd x where l: "do_listen K host port backlog ss = Some (fd, x)" "near [] [] ss x" by (rule do_listen_ok [OF K n0])
    show thesis
    proof (cases "fd < 0")
      case True
      with that [of "-1" x] stay [OF l(2)] l(1) Listen show thesis by (simp add: socket_server_listen_def)
    next
      case False
      show thesis
      proof (cases rule: reserve_near [OF inv l(2) ids])
        case (1 y)
        with tidy_trans [OF 1(4) tidy_simple(3)] close_fd_ok(1) [of "[]" "[]" y K fd] close_fd_ok(2) [of y K fd]
        have "kept None ss (close_fd K fd y)" by (simp add: kept_def)
        with 1 that [of "-1" "close_fd K fd y"] False l(1) Listen show thesis by (simp add: socket_server_listen_def)
      next
        case (2 sid y)
        with that [of sid "send_request (Request_L sid fd opaque) y"] False l(1) Listen show thesis
          by (simp add: socket_server_listen_def)
      qed
    qed
  next
    case (Bind opaque fd)
    show thesis
    proof (cases rule: reserve_near [OF inv n0 ids])
      case (1 y)
      with that [of "-1" y] Bind show thesis by (simp add: socket_server_bind_def kept_def)
    next
      case (2 sid y)
      with that [of sid "send_request (Request_B sid fd opaque) y"] Bind show thesis by (simp add: socket_server_bind_def)
    qed
  next
    case (Udp opaque host port)
    obtain fd v6 x where b: "(if port \<noteq> 0 \<or> host \<noteq> None then do_bind K host port False ss
        else let (fd, ss1) = sys (k_socket K False) ss in Some (fd, False, ss1)) = Some (fd, v6, x)" "near [] [] ss x"
    proof (cases "port \<noteq> 0 \<or> host \<noteq> None")
      case True
      with do_bind_ok [OF K n0, of host port False] that show thesis by metis
    next
      case False
      obtain fd x where "sys (k_socket K False) ss = (fd, x)" by fastforce
      with near_sys [OF n0 this] that [of fd False x] False show thesis by simp
    qed
    show thesis
    proof (cases "fd < 0")
      case True
      with that [of "-1" x] stay [OF b(2)] b(1) Udp show thesis by (simp add: socket_server_udp_def)
    next
      case False
      show thesis
      proof (cases rule: reserve_near [OF inv near_nonblocking [OF b(2)] ids, of K fd])
        case (1 y)
        with tidy_trans [OF 1(4) tidy_simple(3)] close_fd_ok(1) [of "[]" "[]" y K fd] close_fd_ok(2) [of y K fd]
        have "kept None ss (close_fd K fd y)" by (simp add: kept_def)
        with 1 that [of "-1" "close_fd K fd y"] False b(1) Udp show thesis by (simp add: socket_server_udp_def)
      next
        case (2 sid y)
        with that [of sid "send_request (Request_U sid fd v6 opaque) y"] False b(1) Udp show thesis
          by (simp add: socket_server_udp_def)
      qed
    qed
  next
    case (Send sid a bs sz)
    with c have own: "sid \<le> ss_alloc_id ss" "owns a bs sz ss" by simp_all
    obtain ss' where f: "free_buffer a sz (hand_over a bs ss) = Some ss'" "kept None ss ss'" by (rule owned_free_ok [OF inv lo own(2)])
    have "kept None ss (send_request (Request_D sid sz a) (hand_over a bs ss))"
      by (rule owned_request_ok [OF inv lo own(2)]) (use own in simp_all)
    with that [of "-1" ss'] that [of _ "send_request (Request_D sid sz a) (hand_over a bs ss)"] f Send show thesis
      by (cases "so_id (ss_slot ss (HASH_ID sid)) \<noteq> sid \<or> so_type (ss_slot ss (HASH_ID sid)) = SOCKET_TYPE_INVALID") (simp_all add: socket_server_send_def)
  next
    case (Send_low sid a bs sz)
    with c have own: "sid \<le> ss_alloc_id ss" "owns a bs sz ss" by simp_all
    obtain ss' where f: "free_buffer a sz (hand_over a bs ss) = Some ss'" "kept None ss ss'" by (rule owned_free_ok [OF inv lo own(2)])
    have "kept None ss (send_request (Request_P sid sz a) (hand_over a bs ss))"
      by (rule owned_request_ok [OF inv lo own(2)]) (use own in simp_all)
    with that [of 0 ss'] that [of 0 "send_request (Request_P sid sz a) (hand_over a bs ss)"] f Send_low show thesis
      by (cases "so_id (ss_slot ss (HASH_ID sid)) \<noteq> sid \<or> so_type (ss_slot ss (HASH_ID sid)) = SOCKET_TYPE_INVALID") (simp_all add: socket_server_send_lowpriority_def)
  next
    case (Udp_send sid address a bs sz)
    with c have own: "sid \<le> ss_alloc_id ss" "owns a bs sz ss" by simp_all
    obtain ss' where f: "free_buffer a sz (hand_over a bs ss) = Some ss'" "kept None ss ss'" by (rule owned_free_ok [OF inv lo own(2)])
    have k: "kept None ss (send_request (Request_A sid sz a ad) (hand_over a bs ss))" for ad
      by (rule owned_request_ok [OF inv lo own(2)]) (use own in simp_all)
    from c Udp_send obtain ch rest where ad: "address = ch # rest" by (cases address) auto
    with c Udp_send have "\<And>n. addrsz ch = Some n \<Longrightarrow> n \<le> length address" by simp
    then have n: "addrsz ch = Some n \<Longrightarrow> \<not> length address < n" for n by fastforce
    have "\<exists>v y. client_call K c ss = Some (v, y) \<and> kept None ss y"
    proof (cases "so_id (ss_slot ss (HASH_ID sid)) \<noteq> sid \<or> so_type (ss_slot ss (HASH_ID sid)) = SOCKET_TYPE_INVALID")
      case True
      with f Udp_send show ?thesis by (simp add: socket_server_udp_send_def)
    next
      case False
      with f k n Udp_send ad show ?thesis by (cases "addrsz ch") (simp_all add: socket_server_udp_send_def)
    qed
    with that show thesis by blast
  next
    case (Udp_connect sid host port)
    obtain l x where s: "sys (k_getaddrinfo K host port) ss = (l, x)" by fastforce
    note n1 = near_sys [OF n0 s]
    show thesis
    proof (cases l)
      case None
      with that [of "-1" x] stay [OF n1] s Udp_connect show thesis by (simp add: socket_server_udp_connect_def)
    next
      case (Some ais)
      with resolved [OF K s] obtain ai rest where ai: "l = Some (ai # rest)" "sockaddr_ok (ai_addr ai)" by (cases ais) auto
      have "kept None ss (send_request (Request_C sid (gen_udp_address (ai_addr ai))) x)"
      proof (rule plain_request_ok)
        show "req_ok (ss_heap x) (Request_C sid (gen_udp_address (ai_addr ai)))"
          using ai(2) by (cases "ai_addr ai") (auto simp: addrsz_def)
      qed (use nearD [OF n1] c Udp_connect in simp_all)
      with that s ai(1) Udp_connect show thesis by (simp add: socket_server_udp_connect_def)
    qed
  next
    case (Close opaque sid)
    have "kept None ss (send_request (Request_K sid opaque) ss)"
      by (rule plain_request_ok) (use inv lo c Close in simp_all)
    with that Close show thesis by (simp add: socket_server_close_def)
  next
    case (Start opaque sid)
    have "kept None ss (send_request (Request_S sid opaque) ss)"
      by (rule plain_request_ok) (use inv lo c Start in simp_all)
    with that Start show thesis by (simp add: socket_server_start_def)
  next
    case (Nodelay sid)
    have "kept None ss (send_request (Request_T sid TCP_NODELAY 1) ss)"
      by (rule plain_request_ok) (use inv lo c Nodelay in simp_all)
    with that Nodelay show thesis by (simp add: socket_server_nodelay_def)
  next
    case Exit
    have "kept None ss (send_request Request_X ss)"
      by (rule plain_request_ok) (use inv lo staticD(2) [OF inv] in simp_all)
    with that Exit show thesis by (simp add: socket_server_exit_def)
  qed
qed

section \<open>The server in operation\<close>

inductive net_reach :: "'k kernel \<Rightarrow> 'k socket_server \<Rightarrow> bool" for K where
  net_create: "socket_server_create K fd k = Some ss \<Longrightarrow> net_reach K ss"
| net_client: "net_reach K ss \<Longrightarrow> ids_left ss \<Longrightarrow> client_ok c ss \<Longrightarrow> client_call K c ss = Some (v, ss') \<Longrightarrow> net_reach K ss'"
| net_turn: "net_reach K ss \<Longrightarrow> ids_left ss \<Longrightarrow> poll_turn K mo ss = Some (t, mo', ss') \<Longrightarrow> net_reach K ss'"

inductive_cases net_reachE: "net_reach K ss"

lemma create_ok:
  assumes "socket_server_create K fd k = Some ss"
  shows "server_ok ss"
proof -
  define s0 where "s0 = \<lparr>ss_checkctrl = True, ss_alloc_id = 0, ss_event_index = 0, ss_soi = None, ss_ev = [],
      ss_slot = (\<lambda>_. blank_socket), ss_pipe = [], ss_epoll = (\<lambda>_. None), ss_heap = (\<lambda>_. None), ss_os = k\<rparr>"
  have b: "buffers blank_socket = []" "so_type blank_socket = SOCKET_TYPE_INVALID" by (simp_all add: blank_socket_def buffers_def)
  have "static [] [] s0"
    by (rule staticI) (use b in \<open>simp_all add: s0_def slot_ok_def owners_def owned_def ids_ok_def created_def\<close>)
  moreover obtain f s1 where a: "sp_add K fd None s0 = (f, s1)" by fastforce
  ultimately have s: "ss = s1" "static [] [] s1"
    using assms static_frame [of "[]" "[]" s0 s1] sp_add_fields [OF a]
    by (auto simp: socket_server_create_def s0_def [symmetric] Let_def split: if_splits)
  have "ss_slot s1 = (\<lambda>_. blank_socket)" "ss_ev s1 = []" "ss_event_index s1 = 0"
    using sp_add_fields [OF a] by (simp_all add: untouched_def s0_def)
  with s show ?thesis
    by (auto simp: server_ok_def lows_def ev_ok_def map_filter_simps) (auto simp: blank_socket_def)
qed

lemma net_reach_ok:
  assumes "kernel_ok K" "net_reach K ss"
  shows "server_ok ss"
  using assms(2)
proof (induction rule: net_reach.induct)
  case (net_client ss c v ss')
  then have inv: "static [] [] ss" "lows ss" "ev_ok ss" by (simp_all add: server_ok_def)
  obtain w y where c: "client_call K c ss = Some (w, y)" "kept None ss y"
    by (rule client_call_ok [OF assms(1) inv(1,2) net_client(2,3)])
  with net_client(4) ev_ok_kept [OF inv(3)] show ?case by (simp add: kept_def server_ok_def)
next
  case (net_turn ss mo t mo' ss')
  obtain u mo'' y where "poll_turn K mo ss = Some (u, mo'', y)" "server_ok y"
    by (rule poll_turn_ok [OF assms(1) net_turn(4,2)])
  with net_turn(3) show ?case by simp
qed (rule create_ok)

lemma released_ok:
  "static H R ss \<Longrightarrow> lows ss \<Longrightarrow> \<exists>ss'. release_slots K l ss = Some ss' \<and> static H R ss' \<and> lows ss' \<and>
     ss_pipe ss' = ss_pipe ss \<and> (\<forall>i. buffers (ss_slot ss i) = [] \<or> i \<in> set l \<longrightarrow> buffers (ss_slot ss' i) = [])"
proof (induction l arbitrary: ss)
  case (Cons i l)
  consider (reserved) "so_type (ss_slot ss i) = SOCKET_TYPE_RESERVE" | (invalid) "so_type (ss_slot ss i) = SOCKET_TYPE_INVALID"
    | (used) "\<not> unused (so_type (ss_slot ss i))" by (auto simp: unused_iff)
  then obtain ss1 where s1: "release_slots K (i # l) ss = release_slots K l ss1" "static H R ss1" "lows ss1"
      "ss_pipe ss1 = ss_pipe ss" "\<forall>j. buffers (ss_slot ss j) = [] \<or> j = i \<longrightarrow> buffers (ss_slot ss1 j) = []"
  proof cases
    case reserved
    with that [of ss] Cons.prems staticD(4) [OF Cons.prems(1), of i] show thesis by (auto simp: slot_ok_def)
  next
    case invalid
    with that [of ss] Cons.prems staticD(4) [OF Cons.prems(1), of i] show thesis
      by (auto simp: slot_ok_def force_close_def Let_def)
  next
    case used
    obtain ss1 where c: "force_close K i ss = Some (\<lparr>sm_id = so_id (ss_slot ss i), sm_opaque = so_opaque (ss_slot ss i),
          sm_ud = 0, sm_data = Null\<rparr>, ss1)" "static H R ss1" "lows ss1"
        "\<And>m. sm_id m = so_id (ss_slot ss i) \<Longrightarrow> worked i (Some (SOCKET_CLOSE, m)) ss ss1"
        "ss_slot ss1 = (ss_slot ss)(i := closed_slot (ss_slot ss i))"
      by (rule close_ok [OF Cons.prems used, of SOCKET_CLOSE K]) auto
    have "ss_pipe ss1 = ss_pipe ss" using c(4) [of "\<lparr>sm_id = so_id (ss_slot ss i), sm_opaque = 0, sm_ud = 0, sm_data = Null\<rparr>"]
      by (simp add: worked_def untouched_def)
    with that [of ss1] used c show thesis by (auto simp: unused_iff closed_slot_def buffers_def)
  qed
  from Cons.IH [OF s1(2,3)] s1 show ?case by auto
qed auto

section \<open>An example\<close>

text \<open>A system with one host, where every call succeeds and nothing is ever received.\<close>

definition demo_kernel :: "int kernel" where
  "demo_kernel = \<lparr>
     k_write = (\<lambda>fd bs k. (IoDone (length bs), k)), k_sendto = (\<lambda>fd bs a k. (IoDone (length bs), k)),
     k_read = (\<lambda>fd n k. (ReadAgain, k)), k_recvfrom = (\<lambda>fd n k. (RecvAgain, k)), k_accept = (\<lambda>fd k. (None, k)),
     k_getaddrinfo = (\<lambda>h p k. (Some [\<lparr>ai_addr = V4 [0, 80] [127, 0, 0, 1], ai_text = Some h\<rparr>], k)),
     k_socket = (\<lambda>t k. (k, k + 1)), k_connect = (\<lambda>fd a k. (ConnDone, k)), k_setsockopt = (\<lambda>fd w v k. (False, k)),
     k_bind = (\<lambda>fd a k. (False, k)), k_listen = (\<lambda>fd b k. (False, k)), k_so_error = (\<lambda>fd k. (False, k)),
     k_peername = (\<lambda>fd k. (None, k)), k_nonblocking = (\<lambda>fd k. k), k_close = (\<lambda>fd k. k),
     k_epoll_add = (\<lambda>fd k. (False, k)), k_epoll_wait = (\<lambda>ep n k. ([], k))\<rparr>"

lemma demo_kernel_ok: "kernel_ok demo_kernel"
  by (auto simp: kernel_ok_def demo_kernel_def addresses_ok_def intro!: exI [of _ "[]"])

definition demo_start :: "int socket_server" where
  "demo_start = the (socket_server_create demo_kernel 3 5)"

definition demo_net :: "int socket_server" where
  "demo_net = snd (socket_server_connect 1 (str ''localhost'') 80 demo_start)"

lemma demo_created: "socket_server_create demo_kernel 3 5 = Some demo_start"
  by (simp add: demo_start_def socket_server_create_def sp_add_def sys_def demo_kernel_def)

lemma demo_start_fields: "ss_alloc_id demo_start = 0" "ss_slot demo_start = (\<lambda>_. blank_socket)" "ss_pipe demo_start = []"
  "ss_heap demo_start = (\<lambda>_. None)"
  by (simp_all add: demo_start_def socket_server_create_def sp_add_def sys_def demo_kernel_def)

lemma demo_reserve: "reserve_id demo_start = (1, set_slot 1 (blank_socket\<lparr>so_type := SOCKET_TYPE_RESERVE, so_id := 1, so_fd := -1\<rparr>)
    (demo_start\<lparr>ss_alloc_id := 1\<rparr>))"
proof -
  have "HASH_ID 1 = 1" by (simp add: MAX_SOCKET_def HASH_ID_def)
  then have "reserve_loop (Suc n) demo_start = (1, set_slot 1 (blank_socket\<lparr>so_type := SOCKET_TYPE_RESERVE, so_id := 1, so_fd := -1\<rparr>)
      (demo_start\<lparr>ss_alloc_id := 1\<rparr>))" for n
    by (simp add: demo_start_fields next_id_def blank_socket_def)
  from this [of 65535] show ?thesis by (simp add: reserve_id_def MAX_SOCKET_def)
qed

lemma demo_reach: "net_reach demo_kernel demo_net" and demo_ids: "ids_left demo_net" and demo_alloc: "ss_alloc_id demo_net = 1"
proof -
  have c: "demo_net = send_request (Request_O 1 80 1 (str ''localhost'')) (snd (reserve_id demo_start))"
    by (simp add: demo_net_def socket_server_connect_def demo_reserve SIZEOF_REQUEST_OPEN_def str_def)
  show "ss_alloc_id demo_net = 1" by (simp add: c send_request_def demo_reserve set_slot_def)
  then show "ids_left demo_net" by (simp add: ids_left_def MAX_SOCKET_def)
  have "client_call demo_kernel (Connect 1 (str ''localhost'') 80) demo_start =
      Some (fst (socket_server_connect 1 (str ''localhost'') 80 demo_start), demo_net)" by (simp add: demo_net_def)
  from net_client [OF net_create [OF demo_created] _ _ this] show "net_reach demo_kernel demo_net"
    by (simp_all add: ids_left_def demo_start_fields MAX_SOCKET_def)
qed

section \<open>Properties\<close>



text \<open>
  C9. Ownership of the blocks: each block that is allocated is in exactly one place, the queue of
  a slot or a request in the pipe, so none is lost or shared; and when the server is
  released, only the blocks of requests that were never taken out of the pipe remain.
\<close>

theorem blocks_have_one_owner:
  assumes "kernel_ok K" "net_reach K ss"
  shows "owners ss a = (if ss_heap ss a = None then 0 else 1) \<and>
    (\<exists>ss'. socket_server_release K sendctrl recvctrl ss = Some ss' \<and>
       (ss_heap ss' a \<noteq> None \<longleftrightarrow> a \<in> set (concat (map req_buffer (ss_pipe ss)))))"
proof -
  have inv: "static [] [] ss" "lows ss" using net_reach_ok [OF assms] by (simp_all add: server_ok_def)
  obtain ss1 where r: "release_slots K [0..<MAX_SOCKET] ss = Some ss1" "static [] [] ss1" "ss_pipe ss1 = ss_pipe ss"
      "\<forall>i. buffers (ss_slot ss i) = [] \<or> i \<in> set [0..<MAX_SOCKET] \<longrightarrow> buffers (ss_slot ss1 i) = []"
    using released_ok [OF inv, of K "[0..<MAX_SOCKET]"] by blast
  have "owners ss1 a = count_list (concat (map req_buffer (ss_pipe ss))) a"
    using r(3,4) by (simp add: owners_def owned_def)
  with staticD(6) [OF r(2), of a] have "ss_heap ss1 a \<noteq> None \<longleftrightarrow> a \<in> set (concat (map req_buffer (ss_pipe ss)))"
    using count_list_0_iff [of "concat (map req_buffer (ss_pipe ss))" a] by (auto simp del: set_concat split: if_splits)
  moreover have "socket_server_release K sendctrl recvctrl ss = Some (close_fd K recvctrl (close_fd K sendctrl ss1))"
    by (simp add: socket_server_release_def r(1))
  moreover have "ss_heap (close_fd K recvctrl (close_fd K sendctrl ss1)) = ss_heap ss1" by (simp add: close_fd_def)
  ultimately show ?thesis using staticD(6) [OF inv(1), of a] by simp
qed

lemma blocks_have_one_owner_witness: "owners demo_net 7 = (if ss_heap demo_net 7 = None then 0 else 1)"
  using blocks_have_one_owner [OF demo_kernel_ok demo_reach, of 7] by blast

text \<open>
  C11. The fields of a slot fit its type: a used slot has an identifier that hashes to it; a TCP
  slot has a read buffer of 64 times a power of two, at most 2^30 bytes, and any other an
  address of 19 bytes; its byte count is the sum of what is queued; and only a slot in the
  event poll has anything queued.
\<close>

theorem slots_well_typed:
  assumes "kernel_ok K" "net_reach K ss" "s = ss_slot ss i"
  shows "(so_type s \<noteq> SOCKET_TYPE_INVALID \<longrightarrow> HASH_ID (so_id s) = i) \<and>
    (so_high s @ so_low s \<noteq> [] \<longrightarrow> live (so_type s)) \<and>
    (\<not> unused (so_type s) \<longrightarrow>
       (if so_protocol s = PROTOCOL_TCP then \<exists>k\<le>24. so_p s = Size (64 * 2 ^ k)
        else \<exists>a. so_p s = Udp_address a \<and> length a = UDP_ADDRESS_SIZE) \<and>
       so_wb_size s = sum_list (map wb_sz (so_high s @ so_low s)) \<and> 0 \<le> so_wb_size s)"
proof -
  have inv: "static [] [] ss" using net_reach_ok [OF assms(1,2)] by (simp add: server_ok_def)
  have ok: "slot_ok (ss_heap ss) s" unfolding assms(3) by (rule staticD(4) [OF inv])
  have "0 \<le> sum_list (map wb_sz (buffers s))" by (rule sum_list_nonneg) (use ok in \<open>auto simp: slot_ok_def wb_ok_def\<close>)
  with ok staticD(5) [OF inv, of i] show ?thesis unfolding assms(3)
    by (auto simp: slot_ok_def buffers_def p_ok_def MIN_READ_BUFFER_def split: socket_p.splits)
qed

lemma slots_well_typed_witness:
  "HASH_ID (so_id (ss_slot demo_net 1)) = 1 \<or> so_type (ss_slot demo_net 1) = SOCKET_TYPE_INVALID"
  using slots_well_typed [OF demo_kernel_ok demo_reach refl, of 1] by blast



end
