(* ===== verification/Socket_Stream.thy ===== *)
theory Socket_Stream
  imports Socket_Net
begin

text \<open>
  What a peer receives: the bytes that the system took for a TCP connection are whole
  packages one after the other, but for the one that is being written, and the packages of
  each priority come in the order in which they were sent. \<open>records\<close> is the documented effect
  of \<open>write\<close>: what it takes is appended to the output of the descriptor.
\<close>

section \<open>The specification\<close>

type_synonym sent_package = "priority \<times> byte list"

definition of_priority :: "priority \<Rightarrow> sent_package list \<Rightarrow> byte list list" where
  "of_priority pr l = map snd (filter (\<lambda>p. fst p = pr) l)"

lemma of_priority_simps [simp]: "of_priority pr [] = []" "of_priority pr (l @ l') = of_priority pr l @ of_priority pr l'"
  "of_priority pr [(q, bs)] = (if q = pr then [bs] else [])"
  by (simp_all add: of_priority_def)

definition records :: "'k kernel \<Rightarrow> ('k \<Rightarrow> int \<Rightarrow> byte list) \<Rightarrow> bool" where
  "records K out \<longleftrightarrow> (\<forall>fd bs k r k'. k_write K fd bs k = (r, k') \<longrightarrow>
     out k' = (case r of IoDone n \<Rightarrow> (out k)(fd := out k fd @ take n bs) | _ \<Rightarrow> out k))"

text \<open>
  The bytes of a package still to be written; and the state of a connection with \<open>w\<close> written
  of the packages \<open>subs\<close>: some are done, with at most the first of the high list begun.
\<close>

definition rest :: "(addr \<Rightarrow> byte list) \<Rightarrow> write_buffer \<Rightarrow> byte list" where
  "rest content wb = drop (snd (wb_ptr wb)) (content (wb_buffer wb))"

definition streamed :: "(addr \<Rightarrow> byte list) \<Rightarrow> write_buffer list \<Rightarrow> write_buffer list \<Rightarrow> byte list \<Rightarrow> sent_package list \<Rightarrow> bool"
  where
  "streamed content high low w subs \<longleftrightarrow>
     (\<exists>started cur hs. high = cur @ hs \<and> length cur \<le> 1 \<and>
        w @ concat (map (rest content) cur) = concat (map snd started) \<and>
        (\<forall>wb\<in>set cur. started \<noteq> [] \<and> snd (last started) = content (wb_buffer wb)) \<and>
        (\<forall>wb\<in>set (hs @ low). snd (wb_ptr wb) = 0) \<and>
        of_priority PRIORITY_HIGH subs = of_priority PRIORITY_HIGH started @ map (content \<circ> wb_buffer) hs \<and>
        of_priority PRIORITY_LOW subs = of_priority PRIORITY_LOW started @ map (content \<circ> wb_buffer) low)"

lemma streamed_empty: "streamed content [] [] [] []"
  by (auto simp: streamed_def intro: exI [of _ "[]"])

text \<open>The first of the high list can always be taken as begun.\<close>

lemma streamed_begin:
  assumes "streamed content (tmp # nxt) low w subs"
  obtains started where "w @ rest content tmp = concat (map snd started)"
    "started \<noteq> [] \<and> snd (last started) = content (wb_buffer tmp)" "\<forall>wb\<in>set (nxt @ low). snd (wb_ptr wb) = 0"
    "of_priority PRIORITY_HIGH subs = of_priority PRIORITY_HIGH started @ map (content \<circ> wb_buffer) nxt"
    "of_priority PRIORITY_LOW subs = of_priority PRIORITY_LOW started @ map (content \<circ> wb_buffer) low"
proof -
  obtain started cur hs where s: "tmp # nxt = cur @ hs" "length cur \<le> 1"
      "w @ concat (map (rest content) cur) = concat (map snd started)"
      "\<forall>wb\<in>set cur. started \<noteq> [] \<and> snd (last started) = content (wb_buffer wb)" "\<forall>wb\<in>set (hs @ low). snd (wb_ptr wb) = 0"
      "of_priority PRIORITY_HIGH subs = of_priority PRIORITY_HIGH started @ map (content \<circ> wb_buffer) hs"
      "of_priority PRIORITY_LOW subs = of_priority PRIORITY_LOW started @ map (content \<circ> wb_buffer) low"
    using assms unfolding streamed_def by blast
  show thesis
  proof (cases cur)
    case Nil
    from s(1) Nil have h: "hs = tmp # nxt" by simp
    with s Nil that [of "started @ [(PRIORITY_HIGH, content (wb_buffer tmp))]"] show thesis by (simp add: rest_def h)
  next
    case (Cons x xs)
    with s(1,2) have "cur = [tmp]" "hs = nxt" by auto
    with s that [of started] show thesis by simp
  qed
qed

lemma streamed_partly:
  assumes "w @ rest content tmp = concat (map snd started)"
    "started \<noteq> [] \<and> snd (last started) = content (wb_buffer tmp)" "\<forall>wb\<in>set (nxt @ low). snd (wb_ptr wb) = 0"
    "of_priority PRIORITY_HIGH subs = of_priority PRIORITY_HIGH started @ map (content \<circ> wb_buffer) nxt"
    "of_priority PRIORITY_LOW subs = of_priority PRIORITY_LOW started @ map (content \<circ> wb_buffer) low"
  shows "streamed content (advance n tmp # nxt) low (w @ take n (rest content tmp)) subs"
    "length (rest content tmp) \<le> n \<Longrightarrow> streamed content nxt low (w @ take n (rest content tmp)) subs"
proof -
  have "rest content (advance n tmp) = drop n (rest content tmp)" by (simp add: rest_def add.commute)
  then have "(w @ take n (rest content tmp)) @ concat (map (rest content) [advance n tmp]) = concat (map snd started)"
    using assms(1) by simp
  then show "streamed content (advance n tmp # nxt) low (w @ take n (rest content tmp)) subs"
    unfolding streamed_def using assms(2-5)
    by (intro exI [of _ started] exI [of _ "[advance n tmp]"] exI [of _ nxt]) simp
  assume "length (rest content tmp) \<le> n"
  with assms show "streamed content nxt low (w @ take n (rest content tmp)) subs"
    unfolding streamed_def by (intro exI [of _ started] exI [of _ "[]"] exI [of _ nxt]) simp
qed

text \<open>The low list is begun only when there is nothing in the high one.\<close>

lemma streamed_low:
  assumes "streamed content [] (tmp # nxt) w subs"
  obtains started where "w @ rest content tmp = concat (map snd started)"
    "started \<noteq> [] \<and> snd (last started) = content (wb_buffer tmp)" "\<forall>wb\<in>set nxt. snd (wb_ptr wb) = 0"
    "of_priority PRIORITY_HIGH subs = of_priority PRIORITY_HIGH started"
    "of_priority PRIORITY_LOW subs = of_priority PRIORITY_LOW started @ map (content \<circ> wb_buffer) nxt"
proof -
  obtain started where s: "w = concat (map snd started)" "\<forall>wb\<in>set (tmp # nxt). snd (wb_ptr wb) = 0"
      "of_priority PRIORITY_HIGH subs = of_priority PRIORITY_HIGH started"
      "of_priority PRIORITY_LOW subs = of_priority PRIORITY_LOW started @ map (content \<circ> wb_buffer) (tmp # nxt)"
    using assms unfolding streamed_def by auto
  with that [of "started @ [(PRIORITY_LOW, content (wb_buffer tmp))]"] show thesis by (simp add: rest_def)
qed

lemma streamed_queue:
  assumes "streamed content high low w subs" "snd (wb_ptr wb) = 0" "content (wb_buffer wb) = bs"
  shows "streamed content (high @ [wb]) low w (subs @ [(PRIORITY_HIGH, bs)])"
    "streamed content high (low @ [wb]) w (subs @ [(PRIORITY_LOW, bs)])"
proof -
  obtain started cur hs where s: "high = cur @ hs" "length cur \<le> 1"
      "w @ concat (map (rest content) cur) = concat (map snd started)"
      "\<forall>wb\<in>set cur. started \<noteq> [] \<and> snd (last started) = content (wb_buffer wb)" "\<forall>wb\<in>set (hs @ low). snd (wb_ptr wb) = 0"
      "of_priority PRIORITY_HIGH subs = of_priority PRIORITY_HIGH started @ map (content \<circ> wb_buffer) hs"
      "of_priority PRIORITY_LOW subs = of_priority PRIORITY_LOW started @ map (content \<circ> wb_buffer) low"
    using assms(1) unfolding streamed_def by blast
  show "streamed content (high @ [wb]) low w (subs @ [(PRIORITY_HIGH, bs)])"
    unfolding streamed_def using s assms(2,3) by (intro exI [of _ started] exI [of _ cur] exI [of _ "hs @ [wb]"]) auto
  show "streamed content high (low @ [wb]) w (subs @ [(PRIORITY_LOW, bs)])"
    unfolding streamed_def using s assms(2,3) by (intro exI [of _ started] exI [of _ cur] exI [of _ hs]) auto
qed

lemma streamed_direct:
  assumes "streamed content [] [] w subs" "snd (wb_ptr wb) = n" "content (wb_buffer wb) = bs"
  shows "streamed content [wb] [] (w @ take n bs) (subs @ [(pr, bs)])"
    "length bs \<le> n \<Longrightarrow> streamed content [] [] (w @ take n bs) (subs @ [(pr, bs)])"
proof -
  obtain started where s: "w = concat (map snd started)" "of_priority PRIORITY_HIGH subs = of_priority PRIORITY_HIGH started"
      "of_priority PRIORITY_LOW subs = of_priority PRIORITY_LOW started"
    using assms(1) unfolding streamed_def by auto
  show "streamed content [wb] [] (w @ take n bs) (subs @ [(pr, bs)])" unfolding streamed_def using s assms(2,3)
    by (intro exI [of _ "started @ [(pr, bs)]"] exI [of _ "[wb]"] exI [of _ "[]"]) (auto simp: rest_def)
  assume "length bs \<le> n"
  then show "streamed content [] [] (w @ take n bs) (subs @ [(pr, bs)])" unfolding streamed_def using s
    by (intro exI [of _ "started @ [(pr, bs)]"] exI [of _ "[]"] exI [of _ "[]"]) auto
qed

lemma streamed_cong:
  assumes "streamed content high low w subs" "\<forall>wb\<in>set (high @ low). content' (wb_buffer wb) = content (wb_buffer wb)"
  shows "streamed content' high low w subs"
proof -
  obtain started cur hs where s: "high = cur @ hs" "length cur \<le> 1"
      "w @ concat (map (rest content) cur) = concat (map snd started)"
      "\<forall>wb\<in>set cur. started \<noteq> [] \<and> snd (last started) = content (wb_buffer wb)" "\<forall>wb\<in>set (hs @ low). snd (wb_ptr wb) = 0"
      "of_priority PRIORITY_HIGH subs = of_priority PRIORITY_HIGH started @ map (content \<circ> wb_buffer) hs"
      "of_priority PRIORITY_LOW subs = of_priority PRIORITY_LOW started @ map (content \<circ> wb_buffer) low"
    using assms(1) unfolding streamed_def by blast
  have "map (rest content') cur = map (rest content) cur" "\<forall>wb\<in>set cur. content' (wb_buffer wb) = content (wb_buffer wb)" "map (content' \<circ> wb_buffer) hs = map (content \<circ> wb_buffer) hs"
    "map (content' \<circ> wb_buffer) low = map (content \<circ> wb_buffer) low"
    using assms(2) s(1) by (auto simp: rest_def)
  with s show ?thesis unfolding streamed_def
    by - (rule exI [of _ started], rule exI [of _ cur], rule exI [of _ hs], simp cong: map_cong)
qed

section \<open>The queues of a connection\<close>

text \<open>A buffer without a user object that has all of its block left from its pointer on.\<close>

definition fits :: "(addr \<Rightarrow> byte list) \<Rightarrow> write_buffer \<Rightarrow> bool" where
  "fits content wb \<longleftrightarrow> \<not> wb_userobject wb \<and> fst (wb_ptr wb) = wb_buffer wb \<and>
     0 \<le> wb_sz wb \<and> int (snd (wb_ptr wb)) + wb_sz wb = int (length (content (wb_buffer wb)))"

definition contents :: "'k socket_server \<Rightarrow> addr \<Rightarrow> byte list" where
  "contents ss a = (case ss_heap ss a of None \<Rightarrow> [] | Some bs \<Rightarrow> bs)"

definition queued :: "nat \<Rightarrow> 'k socket_server \<Rightarrow> bool" where
  "queued i ss \<longleftrightarrow> distinct (map wb_buffer (buffers (ss_slot ss i))) \<and>
     (\<forall>wb\<in>set (buffers (ss_slot ss i)). fits (contents ss) wb \<and> ss_heap ss (wb_buffer wb) \<noteq> None)"

definition ident :: "socket \<Rightarrow> int \<times> int \<times> protocol \<times> socket_type" where
  "ident s = (so_id s, so_fd s, so_protocol s, so_type s)"

text \<open>The state of connection \<open>i\<close>, with \<open>v\<close> written before its first package.\<close>

definition streaming :: "('k \<Rightarrow> int \<Rightarrow> byte list) \<Rightarrow> nat \<Rightarrow> byte list \<Rightarrow> sent_package list \<Rightarrow> 'k socket_server \<Rightarrow> bool" where
  "streaming out i v subs ss \<longleftrightarrow> queued i ss \<and>
     (\<exists>w. out (ss_os ss) (so_fd (ss_slot ss i)) = v @ w \<and>
        streamed (contents ss) (so_high (ss_slot ss i)) (so_low (ss_slot ss i)) w subs)"

lemma fits_cong: "fits content wb \<Longrightarrow> content' (wb_buffer wb) = content (wb_buffer wb) \<Longrightarrow> fits content' wb"
  by (simp add: fits_def rest_def)

lemma fits_rest: "fits content wb \<Longrightarrow> int (length (rest content wb)) = wb_sz wb"
  unfolding fits_def rest_def length_drop by linarith

lemma load_fits:
  assumes "load (wb_ptr wb) (wb_sz wb) ss = Some bs" "fits (contents ss) wb"
  shows "bs = rest (contents ss) wb"
proof -
  obtain b where b: "ss_heap ss (wb_buffer wb) = Some b" "bs = take (nat (wb_sz wb)) (drop (snd (wb_ptr wb)) b)"
    using assms unfolding load_def fits_def by (simp split: option.splits if_splits)
  then have r: "rest (contents ss) wb = drop (snd (wb_ptr wb)) b" by (simp add: rest_def contents_def)
  have "length (drop (snd (wb_ptr wb)) b) \<le> nat (wb_sz wb)" using fits_rest [OF assms(2)] r by simp
  with b(2) r show ?thesis by simp
qed

lemma fits_advance: "fits content wb \<Longrightarrow> int n \<le> wb_sz wb \<Longrightarrow> fits content (advance n wb)"
  by (simp add: fits_def)

lemma free_fits:
  "write_buffer_free wb ss = Some ss' \<Longrightarrow> fits content wb \<Longrightarrow> ss' = ss\<lparr>ss_heap := (ss_heap ss)(wb_buffer wb := None)\<rparr>"
  by (auto simp: write_buffer_free_def free_func_def FREE_def fits_def split: if_splits)

lemma write_retry_out:
  assumes "records K out" "write_retry K fd bs k = Some (r, k')"
  shows "out k' fd = out k fd @ (case r of IoDone n \<Rightarrow> take n bs | _ \<Rightarrow> [])"
proof -
  have "K = K \<longrightarrow> out (snd (r, k')) fd = out k fd @ (case fst (r, k') of IoDone n \<Rightarrow> take n bs | _ \<Rightarrow> [])"
  proof (rule write_retry.raw_induct [OF _ assms(2), of "\<lambda>K' fd bs k rk. K' = K \<longrightarrow>
      out (snd rk) fd = out k fd @ (case fst rk of IoDone n \<Rightarrow> take n bs | _ \<Rightarrow> [])"], rule impI)
    fix f K' fd bs k y
    assume IH: "\<And>K' fd bs k y. f K' fd bs k = Some y \<Longrightarrow>
        K' = K \<longrightarrow> out (snd y) fd = out k fd @ (case fst y of IoDone n \<Rightarrow> take n bs | _ \<Rightarrow> [])"
      and y: "(case k_write K' fd bs k of (r, k1) \<Rightarrow> if r = IoIntr then f K' fd bs k1 else Some (r, k1)) = Some y"
      and K: "K' = K"
    obtain r1 k1 where w: "k_write K' fd bs k = (r1, k1)" by fastforce
    with assms(1) K have o: "out k1 = (case r1 of IoDone n \<Rightarrow> (out k)(fd := out k fd @ take n bs) | _ \<Rightarrow> out k)"
      unfolding records_def by blast
    show "out (snd y) fd = out k fd @ (case fst y of IoDone n \<Rightarrow> take n bs | _ \<Rightarrow> [])"
    proof (cases "r1 = IoIntr")
      case True
      with y w have "f K' fd bs k1 = Some y" by simp
      from IH [OF this] K o True show ?thesis by simp
    next
      case False
      with y w have "y = (r1, k1)" by simp
      with o False show ?thesis by (cases r1) auto
    qed
  qed
  then show ?thesis by simp
qed

text \<open>A turn of the loop that did not close the connection: it stops, or goes on with the next buffer.\<close>

lemma send_tcp_turn:
  assumes K: "kernel_ok K" "records K out" and q: "queued i ss" and l: "get_list pr (ss_slot ss i) = tmp # nxt"
    and run: "send_tcp_loop K i pr (tmp # nxt) ss = Some (None, ss')"
  obtains
    (stop) n where "int n \<le> wb_sz tmp" "ss_heap ss' = ss_heap ss" "ident (ss_slot ss' i) = ident (ss_slot ss i)"
      "get_list pr (ss_slot ss' i) = advance n tmp # nxt" "\<And>q. q \<noteq> pr \<Longrightarrow> get_list q (ss_slot ss' i) = get_list q (ss_slot ss i)"
      "out (ss_os ss') (so_fd (ss_slot ss i)) = out (ss_os ss) (so_fd (ss_slot ss i)) @ take n (rest (contents ss) tmp)"
  | (go) n ss1 where "int n = wb_sz tmp" "ss_heap ss1 = (ss_heap ss)(wb_buffer tmp := None)"
      "ident (ss_slot ss1 i) = ident (ss_slot ss i)" "get_list pr (ss_slot ss1 i) = nxt"
      "\<And>q. q \<noteq> pr \<Longrightarrow> get_list q (ss_slot ss1 i) = get_list q (ss_slot ss i)"
      "out (ss_os ss1) (so_fd (ss_slot ss i)) = out (ss_os ss) (so_fd (ss_slot ss i)) @ take n (rest (contents ss) tmp)"
      "send_tcp_loop K i pr nxt ss1 = Some (None, ss')"
proof -
  define fd where "fd = so_fd (ss_slot ss i)"
  have tmp: "tmp \<in> set (buffers (ss_slot ss i))" using get_list_buffers [of tmp pr "ss_slot ss i"] l by simp
  then have fit: "fits (contents ss) tmp" using q by (simp add: queued_def)
  from run obtain bs r k where w: "load (wb_ptr tmp) (wb_sz tmp) ss = Some bs" "write_retry K fd bs (ss_os ss) = Some (r, k)"
    by (auto simp: fd_def split: Option.bind_splits)
  have bs: "bs = rest (contents ss) tmp" by (rule load_fits [OF w(1) fit])
  have o: "out k fd = out (ss_os ss) fd @ (case r of IoDone n \<Rightarrow> take n bs | _ \<Rightarrow> [])"
    by (rule write_retry_out [OF K(2) w(2)])
  obtain r' k' where w': "write_retry K fd bs (ss_os ss) = Some (r', k')" "r' \<noteq> IoIntr" "\<And>n. r' = IoDone n \<Longrightarrow> n \<le> length bs"
    using write_retry_returns [OF K(1)] by metis
  with w(2) have r: "r \<noteq> IoIntr" "\<And>n. r = IoDone n \<Longrightarrow> n \<le> length bs" by auto
  consider (full) n where "r = IoDone n" "int n = wb_sz tmp" | (part) n where "r = IoDone n" "int n \<noteq> wb_sz tmp"
    | (again) "r = IoAgain" | (fail) "r = IoFail" using r(1) by (cases r) auto
  then show thesis
  proof cases
    case full
    with run w obtain ss1 where s1: "write_buffer_free tmp
          (set_slot i (set_list pr nxt (sub_wb_size (wb_sz tmp) (ss_slot ss i))) (ss\<lparr>ss_os := k\<rparr>)) = Some ss1"
        "send_tcp_loop K i pr nxt ss1 = Some (None, ss')" by (auto simp: fd_def split: Option.bind_splits)
    note f = free_fits [OF s1(1) fit]
    show thesis
      by (rule go [of n ss1]) (use s1(2) f o full bs in \<open>auto simp: set_slot_def ident_def fd_def get_list_def
        set_list_def sub_wb_size_def split: priority.splits\<close>)
  next
    case part
    with run w have s': "ss' = set_slot i (set_list pr (advance n tmp # nxt) (sub_wb_size (int n) (ss_slot ss i))) (ss\<lparr>ss_os := k\<rparr>)"
      by (simp add: fd_def)
    have "int n \<le> wb_sz tmp" using r(2) [OF part(1)] fits_rest [OF fit] bs by simp
    then show thesis
      by (rule stop [of n]) (use s' o part bs in \<open>auto simp: set_slot_def ident_def fd_def get_list_def
        set_list_def sub_wb_size_def split: priority.splits\<close>)
  next
    case again
    with run w have s': "ss' = ss\<lparr>ss_os := k\<rparr>" by (simp add: fd_def)
    show thesis by (rule stop [of 0]) (use s' o again l fit in \<open>auto simp: fd_def fits_def\<close>)
  next
    case fail
    with run w show thesis by (auto simp: fd_def split: Option.bind_splits)
  qed
qed

lemma lists_of: "so_high s = get_list PRIORITY_HIGH s" "so_low s = get_list PRIORITY_LOW s"
  by (simp_all add: get_list_def)

lemma queued_stop:
  assumes q: "queued i ss" and l: "get_list pr (ss_slot ss i) = tmp # nxt" and n: "int n \<le> wb_sz tmp"
    and h: "ss_heap ss' = ss_heap ss" and l': "get_list pr (ss_slot ss' i) = advance n tmp # nxt"
    and other: "\<And>q. q \<noteq> pr \<Longrightarrow> get_list q (ss_slot ss' i) = get_list q (ss_slot ss i)"
  shows "queued i ss'"
proof -
  have c: "contents ss' = contents ss" by (simp add: contents_def fun_eq_iff h)
  have "fits (contents ss) (advance n tmp)" using q l get_list_buffers [of tmp pr] n by (intro fits_advance) (auto simp: queued_def)
  with q l l' other [of PRIORITY_HIGH] other [of PRIORITY_LOW] show ?thesis
    by (cases pr) (auto simp: queued_def buffers_def lists_of c h)
qed

lemma queued_go:
  assumes q: "queued i ss" and l: "get_list pr (ss_slot ss i) = tmp # nxt"
    and h: "ss_heap ss' = (ss_heap ss)(wb_buffer tmp := None)" and l': "get_list pr (ss_slot ss' i) = nxt"
    and other: "\<And>q. q \<noteq> pr \<Longrightarrow> get_list q (ss_slot ss' i) = get_list q (ss_slot ss i)"
  shows "queued i ss'" "wb \<in> set (buffers (ss_slot ss' i)) \<Longrightarrow> contents ss' (wb_buffer wb) = contents ss (wb_buffer wb)"
proof -
  have b: "set (buffers (ss_slot ss' i)) \<subseteq> set (buffers (ss_slot ss i))"
      "distinct (map wb_buffer (buffers (ss_slot ss' i)))" "wb_buffer tmp \<notin> wb_buffer ` set (buffers (ss_slot ss' i))"
    using q l l' other [of PRIORITY_HIGH] other [of PRIORITY_LOW]
    by (cases pr; auto simp: queued_def buffers_def lists_of)+
  show c: "contents ss' (wb_buffer wb) = contents ss (wb_buffer wb)" if "wb \<in> set (buffers (ss_slot ss' i))" for wb
    using b(3) imageI [OF that, of wb_buffer] by (auto simp: contents_def h)
  have "fits (contents ss') wb \<and> ss_heap ss' (wb_buffer wb) \<noteq> None" if wb: "wb \<in> set (buffers (ss_slot ss' i))" for wb
  proof -
    have "fits (contents ss) wb \<and> ss_heap ss (wb_buffer wb) \<noteq> None" using b(1) wb q unfolding queued_def by blast
    with b(3) imageI [OF wb, of wb_buffer] fits_cong [of "contents ss" wb "contents ss'"] c [OF wb] show ?thesis by (auto simp: h)
  qed
  with b(2) show "queued i ss'" by (simp add: queued_def)
qed

lemma high_streamed:
  assumes K: "kernel_ok K" "records K out"
  shows "send_tcp_loop K i PRIORITY_HIGH l ss = Some (None, ss') \<Longrightarrow> so_high (ss_slot ss i) = l \<Longrightarrow>
    streaming out i v subs ss \<Longrightarrow>
    streaming out i v subs ss' \<and> ident (ss_slot ss' i) = ident (ss_slot ss i) \<and>
    so_low (ss_slot ss' i) = so_low (ss_slot ss i)"
proof (induction l arbitrary: ss)
  case (Cons tmp nxt)
  obtain w where q: "queued i ss" and w: "out (ss_os ss) (so_fd (ss_slot ss i)) = v @ w"
      "streamed (contents ss) (tmp # nxt) (so_low (ss_slot ss i)) w subs"
    using Cons.prems(2,3) by (auto simp: streaming_def)
  have l: "get_list PRIORITY_HIGH (ss_slot ss i) = tmp # nxt" using Cons.prems(2) by (simp add: get_list_def)
  have fit: "fits (contents ss) tmp" using q l by (simp add: queued_def buffers_def lists_of)
  show ?case
  proof (rule send_tcp_turn [OF K q l Cons.prems(1)])
    fix n assume s: "int n \<le> wb_sz tmp" "ss_heap ss' = ss_heap ss" "ident (ss_slot ss' i) = ident (ss_slot ss i)"
        "get_list PRIORITY_HIGH (ss_slot ss' i) = advance n tmp # nxt"
        "\<And>q. q \<noteq> PRIORITY_HIGH \<Longrightarrow> get_list q (ss_slot ss' i) = get_list q (ss_slot ss i)"
        "out (ss_os ss') (so_fd (ss_slot ss i)) = out (ss_os ss) (so_fd (ss_slot ss i)) @ take n (rest (contents ss) tmp)"
    have "streamed (contents ss) (advance n tmp # nxt) (so_low (ss_slot ss i)) (w @ take n (rest (contents ss) tmp)) subs"
      using streamed_begin [OF w(2)] streamed_partly(1) by metis
    moreover have "contents ss' = contents ss" by (simp add: contents_def fun_eq_iff s(2))
    moreover have "queued i ss'" by (rule queued_stop [OF q l s(1,2,4,5)])
    ultimately show ?case using s(3,4,6) s(5) [of PRIORITY_LOW] w(1)
      by (auto simp: streaming_def lists_of ident_def)
  next
    fix n ss1 assume s: "int n = wb_sz tmp" "ss_heap ss1 = (ss_heap ss)(wb_buffer tmp := None)"
      "ident (ss_slot ss1 i) = ident (ss_slot ss i)" "get_list PRIORITY_HIGH (ss_slot ss1 i) = nxt"
      "\<And>q. q \<noteq> PRIORITY_HIGH \<Longrightarrow> get_list q (ss_slot ss1 i) = get_list q (ss_slot ss i)"
      "out (ss_os ss1) (so_fd (ss_slot ss i)) = out (ss_os ss) (so_fd (ss_slot ss i)) @ take n (rest (contents ss) tmp)"
      "send_tcp_loop K i PRIORITY_HIGH nxt ss1 = Some (None, ss')"
    have "length (rest (contents ss) tmp) \<le> n" using fits_rest [OF fit] s(1) by simp
    then have "streamed (contents ss) nxt (so_low (ss_slot ss i)) (w @ take n (rest (contents ss) tmp)) subs"
      using streamed_begin [OF w(2)] streamed_partly(2) by metis
    then have "streamed (contents ss1) (so_high (ss_slot ss1 i)) (so_low (ss_slot ss1 i)) (w @ take n (rest (contents ss) tmp)) subs"
      using queued_go(2) [OF q l s(2,4,5)] s(4) s(5) [of PRIORITY_LOW]
      by (auto simp: lists_of buffers_def elim: streamed_cong)
    then have "streaming out i v subs ss1" using queued_go(1) [OF q l s(2,4,5)] s(3,6) w(1)
      by (auto simp: streaming_def ident_def)
    from Cons.IH [OF s(7) _ this] s(3,4) s(5) [of PRIORITY_LOW] show ?case by (simp add: lists_of)
  qed
qed simp

text \<open>The low list is written when the high one is empty; a package that is begun is moved to the high list.\<close>

lemma low_streamed:
  assumes K: "kernel_ok K" "records K out"
  shows "send_tcp_loop K i PRIORITY_LOW l ss = Some (None, ss') \<Longrightarrow> so_low (ss_slot ss i) = l \<Longrightarrow>
    so_high (ss_slot ss i) = [] \<Longrightarrow> streaming out i v subs ss \<Longrightarrow>
    so_high (ss_slot ss' i) = [] \<and> ident (ss_slot ss' i) = ident (ss_slot ss i) \<and>
    (if list_uncomplete (so_low (ss_slot ss' i))
     then streaming out i v subs (set_slot i (the (raise_uncomplete (ss_slot ss' i))) ss')
     else streaming out i v subs ss')"
proof (induction l arbitrary: ss)
  case Nil
  then show ?case by (simp add: list_uncomplete_def)
next
  case (Cons tmp nxt)
  obtain w where q: "queued i ss" and w: "out (ss_os ss) (so_fd (ss_slot ss i)) = v @ w"
      "streamed (contents ss) [] (tmp # nxt) w subs"
    using Cons.prems(2-4) by (auto simp: streaming_def)
  have l: "get_list PRIORITY_LOW (ss_slot ss i) = tmp # nxt" using Cons.prems(2) by (simp add: get_list_def)
  have fit: "fits (contents ss) tmp" using q l by (simp add: queued_def buffers_def lists_of)
  obtain started where st: "w @ rest (contents ss) tmp = concat (map snd started)"
      "started \<noteq> [] \<and> snd (last started) = contents ss (wb_buffer tmp)" "\<forall>wb\<in>set nxt. snd (wb_ptr wb) = 0"
      "of_priority PRIORITY_HIGH subs = of_priority PRIORITY_HIGH started"
      "of_priority PRIORITY_LOW subs = of_priority PRIORITY_LOW started @ map (contents ss \<circ> wb_buffer) nxt"
    by (rule streamed_low [OF w(2)])
  have begun: "w @ rest (contents ss) tmp = concat (map snd started)"
      "started \<noteq> [] \<and> snd (last started) = contents ss (wb_buffer tmp)" "\<forall>wb\<in>set ([] @ nxt). snd (wb_ptr wb) = 0"
      "of_priority PRIORITY_HIGH subs = of_priority PRIORITY_HIGH started @ map (contents ss \<circ> wb_buffer) []"
      "of_priority PRIORITY_LOW subs = of_priority PRIORITY_LOW started @ map (contents ss \<circ> wb_buffer) nxt"
    using st by simp_all
  show ?case
  proof (rule send_tcp_turn [OF K q l Cons.prems(1)])
    fix n assume s: "int n \<le> wb_sz tmp" "ss_heap ss' = ss_heap ss" "ident (ss_slot ss' i) = ident (ss_slot ss i)"
        "get_list PRIORITY_LOW (ss_slot ss' i) = advance n tmp # nxt"
        "\<And>q. q \<noteq> PRIORITY_LOW \<Longrightarrow> get_list q (ss_slot ss' i) = get_list q (ss_slot ss i)"
        "out (ss_os ss') (so_fd (ss_slot ss i)) = out (ss_os ss) (so_fd (ss_slot ss i)) @ take n (rest (contents ss) tmp)"
    have c: "contents ss' = contents ss" by (simp add: contents_def fun_eq_iff s(2))
    have h: "so_high (ss_slot ss' i) = []" "so_low (ss_slot ss' i) = advance n tmp # nxt"
      using s(4) s(5) [of PRIORITY_HIGH] Cons.prems(3) by (simp_all add: lists_of)
    have q': "queued i ss'" by (rule queued_stop [OF q l s(1,2,4,5)])
    show ?case
    proof (cases "n = 0 \<and> snd (wb_ptr tmp) = 0")
      case True
      with h fit have "\<not> list_uncomplete (so_low (ss_slot ss' i))"
        by (simp add: list_uncomplete_def fits_def prod_eq_iff)
      with True h s w c q' show ?thesis by (simp add: streaming_def ident_def)
    next
      case False
      then have u: "list_uncomplete (so_low (ss_slot ss' i))"
        using h fit by (auto simp: list_uncomplete_def fits_def prod_eq_iff)
      define s1 where "s1 = the (raise_uncomplete (ss_slot ss' i))"
      have s1: "so_high s1 = [advance n tmp]" "so_low s1 = nxt" "ident s1 = ident (ss_slot ss i)"
        using h s(3) by (simp_all add: s1_def raise_uncomplete_def ident_def)
      have "streamed (contents ss) [advance n tmp] nxt (w @ take n (rest (contents ss) tmp)) subs"
        by (rule streamed_partly(1) [OF begun])
      moreover have "queued i (set_slot i s1 ss')"
        using q' h s1 by (simp add: queued_def set_slot_def buffers_def contents_def [abs_def])
      ultimately have "streaming out i v subs (set_slot i s1 ss')"
        using s1 s(3,6) w(1) c by (auto simp: streaming_def set_slot_def ident_def contents_def [abs_def])
      with u h s(3) show ?thesis by (simp add: s1_def)
    qed
  next
    fix n ss1 assume s: "int n = wb_sz tmp" "ss_heap ss1 = (ss_heap ss)(wb_buffer tmp := None)"
      "ident (ss_slot ss1 i) = ident (ss_slot ss i)" "get_list PRIORITY_LOW (ss_slot ss1 i) = nxt"
      "\<And>q. q \<noteq> PRIORITY_LOW \<Longrightarrow> get_list q (ss_slot ss1 i) = get_list q (ss_slot ss i)"
      "out (ss_os ss1) (so_fd (ss_slot ss i)) = out (ss_os ss) (so_fd (ss_slot ss i)) @ take n (rest (contents ss) tmp)"
      "send_tcp_loop K i PRIORITY_LOW nxt ss1 = Some (None, ss')"
    have h: "so_high (ss_slot ss1 i) = []" "so_low (ss_slot ss1 i) = nxt"
      using s(4) s(5) [of PRIORITY_HIGH] Cons.prems(3) by (simp_all add: lists_of)
    have "length (rest (contents ss) tmp) \<le> n" using fits_rest [OF fit] s(1) by simp
    then have "streamed (contents ss) [] nxt (w @ take n (rest (contents ss) tmp)) subs"
      by (rule streamed_partly(2) [OF begun])
    then have "streamed (contents ss1) (so_high (ss_slot ss1 i)) (so_low (ss_slot ss1 i)) (w @ take n (rest (contents ss) tmp)) subs"
      using queued_go(2) [OF q l s(2,4,5)] h by (auto simp: buffers_def elim: streamed_cong)
    then have "streaming out i v subs ss1" using queued_go(1) [OF q l s(2,4,5)] s(3,6) w(1)
      by (auto simp: streaming_def ident_def)
    from Cons.IH [OF s(7) h(2,1) this] s(3) show ?case by simp
  qed
qed

section \<open>The operations on a connection\<close>

definition connected :: "int \<Rightarrow> socket \<Rightarrow> bool" where
  "connected sid s \<longleftrightarrow> so_id s = sid \<and> so_protocol s = PROTOCOL_TCP \<and> so_type s = SOCKET_TYPE_CONNECTED"

lemma streaming_frame:
  assumes "streaming out i v subs ss" "ss_slot ss' i = ss_slot ss i"
    "\<forall>wb\<in>set (buffers (ss_slot ss i)). ss_heap ss' (wb_buffer wb) = ss_heap ss (wb_buffer wb)"
    "out (ss_os ss') (so_fd (ss_slot ss i)) = out (ss_os ss) (so_fd (ss_slot ss i))"
  shows "streaming out i v subs ss'"
proof -
  obtain w where w: "queued i ss" "out (ss_os ss) (so_fd (ss_slot ss i)) = v @ w"
      "streamed (contents ss) (so_high (ss_slot ss i)) (so_low (ss_slot ss i)) w subs"
    using assms(1) by (auto simp: streaming_def)
  have c: "\<forall>wb\<in>set (buffers (ss_slot ss i)). contents ss' (wb_buffer wb) = contents ss (wb_buffer wb)"
    using assms(3) by (simp add: contents_def)
  have "fits (contents ss') wb" if "wb \<in> set (buffers (ss_slot ss i))" for wb
    using w(1) c that fits_cong [of "contents ss" wb "contents ss'"] by (simp add: queued_def)
  with w(1) assms(2,3) have "queued i ss'" by (simp add: queued_def)
  moreover have "streamed (contents ss') (so_high (ss_slot ss i)) (so_low (ss_slot ss i)) w subs"
    by (rule streamed_cong [OF w(3)]) (use c in \<open>simp add: buffers_def\<close>)
  ultimately show ?thesis using w(2) assms(2,4) by (simp add: streaming_def)
qed

lemma sp_write_frame [simp]:
  "ss_slot (sp_write fd u b ss) = ss_slot ss" "ss_heap (sp_write fd u b ss) = ss_heap ss" "ss_os (sp_write fd u b ss) = ss_os ss"
  by (simp_all add: sp_write_def)

lemma streaming_sp_write [simp]: "streaming out i v subs (sp_write fd u b ss) = streaming out i v subs ss"
  by (simp add: streaming_def queued_def contents_def [abs_def])

lemma connected_ident: "ident s' = ident s \<Longrightarrow> connected sid s' = connected sid s"
  by (auto simp: ident_def connected_def)

lemma send_buffer_streaming:
  assumes K: "kernel_ok K" "records K out" and con: "connected sid (ss_slot ss i)" and st: "streaming out i v subs ss"
    and run: "send_buffer K i ss = Some (None, ss')"
  shows "streaming out i v subs ss' \<and> ident (ss_slot ss' i) = ident (ss_slot ss i)"
proof -
  have tcp: "so_protocol (ss_slot ss i) = PROTOCOL_TCP" using con by (simp add: connected_def)
  from run obtain r ss1 where s1: "send_list K i PRIORITY_HIGH ss = Some (r, ss1)"
    by (auto simp: send_buffer_def split: Option.bind_splits if_splits)
  with run have r: "r = None" by (cases r) (auto simp: send_buffer_def Let_def split: if_splits)
  with s1 tcp have "send_tcp_loop K i PRIORITY_HIGH (so_high (ss_slot ss i)) ss = Some (None, ss1)"
    by (simp add: send_list_def send_list_tcp_def get_list_def)
  from high_streamed [OF K this refl st]
  have st1: "streaming out i v subs ss1" and id1: "ident (ss_slot ss1 i) = ident (ss_slot ss i)" by simp_all
  consider (high) "so_high (ss_slot ss1 i) \<noteq> []" | (low) "so_high (ss_slot ss1 i) = []" "so_low (ss_slot ss1 i) \<noteq> []"
    | (both) "so_high (ss_slot ss1 i) = []" "so_low (ss_slot ss1 i) = []" by blast
  then show ?thesis
  proof cases
    case high
    with run s1 r have "ss' = ss1" by (auto simp: send_buffer_def split: if_splits)
    with st1 id1 show ?thesis by simp
  next
    case low
    with run s1 r obtain r2 ss2 where s2: "send_list K i PRIORITY_LOW ss1 = Some (r2, ss2)"
      by (auto simp: send_buffer_def split: Option.bind_splits if_splits)
    with run s1 r low have r2: "r2 = None" by (cases r2) (auto simp: send_buffer_def Let_def split: if_splits)
    from s2 r2 tcp id1 have "send_tcp_loop K i PRIORITY_LOW (so_low (ss_slot ss1 i)) ss1 = Some (None, ss2)"
      by (simp add: send_list_def send_list_tcp_def get_list_def ident_def)
    note l = low_streamed [OF K this refl low(1) st1]
    show ?thesis
    proof (cases "list_uncomplete (so_low (ss_slot ss2 i))")
      case True
      with run s1 r low s2 r2 have "ss' = set_slot i (the (raise_uncomplete (ss_slot ss2 i))) ss2"
        by (auto simp: send_buffer_def split: if_splits Option.bind_splits)
      moreover from True l have "ident (the (raise_uncomplete (ss_slot ss2 i))) = ident (ss_slot ss2 i)"
        by (auto simp: raise_uncomplete_def ident_def list_uncomplete_def split: list.splits)
      ultimately show ?thesis using l True id1 by (simp add: set_slot_def)
    next
      case False
      with run s1 r low s2 r2 have "ss' = ss2" by (auto simp: send_buffer_def split: if_splits)
      with l False id1 show ?thesis by simp
    qed
  next
    case both
    have "so_type (ss_slot ss1 i) = SOCKET_TYPE_CONNECTED" using id1 con by (simp add: ident_def connected_def)
    with run s1 r both have "ss' = sp_write (so_fd (ss_slot ss1 i)) (Some i) False ss1"
      by (auto simp: send_buffer_def split: if_splits)
    with st1 id1 show ?thesis by simp
  qed
qed

lemma hand_over_streaming:
  assumes "streaming out i v subs ss" "ss_heap ss a = None"
  shows "streaming out i v subs (hand_over a bs ss)" "a \<notin> wb_buffer ` set (buffers (ss_slot (hand_over a bs ss) i))"
proof -
  have "ss_heap ss (wb_buffer wb) \<noteq> None" if "wb \<in> set (buffers (ss_slot ss i))" for wb
    using assms(1) that by (simp add: streaming_def queued_def)
  with assms(2) have n: "wb_buffer wb \<noteq> a" if "wb \<in> set (buffers (ss_slot ss i))" for wb using that by metis
  then show "a \<notin> wb_buffer ` set (buffers (ss_slot (hand_over a bs ss) i))" by (auto simp: hand_over_def)
  show "streaming out i v subs (hand_over a bs ss)"
    by (rule streaming_frame [OF assms(1)]) (use n in \<open>simp_all add: hand_over_def\<close>)
qed

text \<open>A package that is queued behind the others.\<close>

lemma append_streaming:
  assumes st: "streaming out i v subs ss" and a: "ss_heap ss a = Some bs" "a \<notin> wb_buffer ` set (buffers (ss_slot ss i))"
    and run: "append_sendbuffer_at i pr a (int (length bs)) 0 [] ss = Some ss'"
  shows "streaming out i v (subs @ [(pr, bs)]) ss' \<and> ident (ss_slot ss' i) = ident (ss_slot ss i)"
proof -
  define wb where "wb = \<lparr>wb_buffer = a, wb_ptr = (a, 0), wb_sz = int (length bs), wb_userobject = False, wb_udp_address = []\<rparr>"
  define s where "s = set_list pr (get_list pr (ss_slot ss i) @ [wb]) (sub_wb_size (- int (length bs)) (ss_slot ss i))"
  have ss': "ss' = set_slot i s ss"
    using run by (simp add: append_sendbuffer_at_def send_object_init_def s_def wb_def Let_def)
  obtain w where w: "queued i ss" "out (ss_os ss) (so_fd (ss_slot ss i)) = v @ w"
      "streamed (contents ss) (so_high (ss_slot ss i)) (so_low (ss_slot ss i)) w subs"
    using st by (auto simp: streaming_def)
  have f: "fits (contents ss) wb" using a by (simp add: fits_def wb_def contents_def)
  have c: "contents (set_slot i s ss) = contents ss" by (simp add: contents_def [abs_def] set_slot_def)
  have "set (buffers s) = insert wb (set (buffers (ss_slot ss i)))"
    by (cases pr) (auto simp: s_def buffers_def set_list_def get_list_def sub_wb_size_def)
  moreover have "distinct (map wb_buffer (buffers s))"
    using w(1) a(2) by (cases pr) (auto simp: queued_def s_def buffers_def set_list_def get_list_def sub_wb_size_def wb_def)
  ultimately have "queued i ss'" using w(1) f a by (auto simp: queued_def ss' c) (auto simp: set_slot_def wb_def)
  moreover have "streamed (contents ss) (so_high s) (so_low s) w (subs @ [(pr, bs)])"
    using streamed_queue [OF w(3), of wb bs] a by (cases pr) (auto simp: s_def set_list_def get_list_def sub_wb_size_def wb_def contents_def)
  moreover have "ident s = ident (ss_slot ss i)" by (simp add: s_def ident_def)
  ultimately show ?thesis using w(2) c by (auto simp: streaming_def ss' ident_def) (auto simp: set_slot_def)
qed

text \<open>A package that is written at once, as far as the system takes it.\<close>

lemma direct_streaming:
  fixes K :: "'k kernel"
  assumes K: "kernel_ok K" "records K out" and st: "streaming out i v subs ss" and emp: "send_buffer_empty (ss_slot ss i)"
    and a: "ss_heap ss a = Some bs"
    and run: "send_direct_tcp K i a (int (length bs)) \<lparr>so_buffer = a, so_sz = int (length bs), so_user = False\<rparr> ss = Some (None, ss')"
  shows "streaming out i v (subs @ [(pr, bs)]) ss' \<and> ident (ss_slot ss' i) = ident (ss_slot ss i)"
proof -
  define fd where "fd = so_fd (ss_slot ss i)"
  obtain w where w: "out (ss_os ss) fd = v @ w" "streamed (contents ss) [] [] w subs"
    using st emp by (auto simp: streaming_def send_buffer_empty_def fd_def)
  have ld: "load (a, 0) (int (length bs)) ss = Some bs" using a by (simp add: load_def)
  obtain r k where kw: "k_write K fd bs (ss_os ss) = (r, k)" by fastforce
  then have sys: "sys (k_write K fd bs) ss = (r, ss\<lparr>ss_os := k\<rparr>)" by (simp add: sys_def)
  define n where "n = (case r of IoDone n \<Rightarrow> n | _ \<Rightarrow> 0)"
  have n: "n \<le> length bs" using kernel_write [OF K(1), of fd bs "ss_os ss"] kw by (cases r) (auto simp: n_def)
  have o: "out k fd = out (ss_os ss) fd @ take n bs"
    using K(2) kw unfolding records_def by (cases r) (fastforce simp: n_def)+
  have r: "r \<noteq> IoFail" using run ld sys by (auto simp: send_direct_tcp_def fd_def split: Option.bind_splits)
  define ss1 where "ss1 = ss\<lparr>ss_os := k\<rparr>"
  have run': "(if int n = int (length bs) then Option.bind (free_func False a ss1) (\<lambda>ss2. Some (None, ss2))
      else Option.bind (append_sendbuffer i a (int (length bs)) n ss1) (\<lambda>ss2. Some (None, sp_write (so_fd (ss_slot ss2 i)) (Some i) True ss2)))
      = (Some (None, ss') :: 'k result)"
    using run ld sys r unfolding send_direct_tcp_def by (cases r) (simp_all add: fd_def [symmetric] ss1_def n_def Let_def split: if_splits)
  have no: "buffers (ss_slot ss i) = []" using emp by (simp add: send_buffer_empty_def buffers_def)
  show ?thesis
  proof (cases "n = length bs")
    case True
    with run' a have s': "ss' = ss1\<lparr>ss_heap := (ss_heap ss1)(a := None)\<rparr>"
      by (auto simp: free_func_def FREE_def ss1_def)
    have "streamed (contents ss) [] [] (w @ take n bs) (subs @ [(pr, bs)])"
      using streamed_direct(2) [OF w(2), of "\<lparr>wb_buffer = a, wb_ptr = (a, n), wb_sz = 0, wb_userobject = False, wb_udp_address = []\<rparr>" n bs]
        a True by (simp add: contents_def)
    then have "streamed (contents ss') [] [] (w @ take n bs) (subs @ [(pr, bs)])" by (rule streamed_cong) simp
    with no emp w o s' show ?thesis
      by (simp add: streaming_def queued_def ss1_def fd_def send_buffer_empty_def)
  next
    case False
    define wb where "wb = \<lparr>wb_buffer = a, wb_ptr = (a, n), wb_sz = int (length bs) - int n, wb_userobject = False, wb_udp_address = []\<rparr>"
    define s where "s = set_list PRIORITY_HIGH [wb] (sub_wb_size (- wb_sz wb) (ss_slot ss i))"
    from run' False emp have s': "ss' = sp_write fd (Some i) True (set_slot i s ss1)"
      by (auto simp: append_sendbuffer_def append_sendbuffer_at_def send_object_init_def s_def wb_def ss1_def get_list_def
        send_buffer_empty_def fd_def set_slot_def set_list_def sub_wb_size_def Let_def algebra_simps)
    have hs: "so_high s = [wb]" "so_low s = []" "ident s = ident (ss_slot ss i)"
      using emp by (simp_all add: s_def set_list_def send_buffer_empty_def ident_def sub_wb_size_def)
    have c: "contents (set_slot i s ss1) = contents ss" by (simp add: contents_def [abs_def] set_slot_def ss1_def)
    have "streamed (contents ss) [wb] [] (w @ take n bs) (subs @ [(pr, bs)])"
      using streamed_direct(1) [OF w(2), of wb n bs] a by (simp add: wb_def contents_def)
    moreover have "queued i (set_slot i s ss1)"
      using hs a n by (simp add: queued_def buffers_def c fits_def) (simp add: set_slot_def wb_def ss1_def contents_def buffers_def hs [unfolded wb_def])
    ultimately have "streaming out i v (subs @ [(pr, bs)]) (set_slot i s ss1)" using hs w(1) o c
      by (simp add: streaming_def) (auto simp: set_slot_def ss1_def ident_def fd_def)
    with hs(3) show ?thesis by (simp add: s') (simp add: set_slot_def)
  qed
qed

lemma send_socket_streaming:
  fixes K :: "'k kernel"
  assumes K: "kernel_ok K" "records K out" and con: "connected sid (ss_slot ss (HASH_ID sid))"
    and st: "streaming out (HASH_ID sid) v subs ss" and a: "ss_heap ss a = None"
    and run: "send_socket K sid (int (length bs)) a pr None (hand_over a bs ss) = Some (None, ss')"
  shows "streaming out (HASH_ID sid) v (subs @ [(pr, bs)]) ss' \<and>
    ident (ss_slot ss' (HASH_ID sid)) = ident (ss_slot ss (HASH_ID sid))"
proof -
  define h where "h = hand_over a bs ss"
  have slot: "ss_slot h = ss_slot ss" and ha: "ss_heap h a = Some bs" by (simp_all add: h_def hand_over_def)
  have sth: "streaming out (HASH_ID sid) v subs h" "a \<notin> wb_buffer ` set (buffers (ss_slot h (HASH_ID sid)))"
    using hand_over_streaming [OF st a] by (simp_all add: h_def)
  have so: "send_object_init a (int (length bs)) h = Some \<lparr>so_buffer = a, so_sz = int (length bs), so_user = False\<rparr>"
    by (simp add: send_object_init_def)
  show ?thesis
  proof (cases "send_buffer_empty (ss_slot ss (HASH_ID sid))")
    case True
    with run con so have "send_direct_tcp K (HASH_ID sid) a (int (length bs))
        \<lparr>so_buffer = a, so_sz = int (length bs), so_user = False\<rparr> h = Some (None, ss')"
      unfolding h_def [symmetric] send_socket_def connected_def by (simp add: slot Let_def)
    with direct_streaming [OF K sth(1) _ ha, of ss' pr] True slot show ?thesis by simp
  next
    case False
    with run con so have "append_sendbuffer_at (HASH_ID sid) pr a (int (length bs)) 0 [] h = Some ss'"
      unfolding h_def [symmetric] send_socket_def connected_def append_sendbuffer_def append_sendbuffer_low_def
      by (auto simp: slot Let_def split: priority.splits Option.bind_splits)
    from append_streaming [OF sth(1) ha sth(2) this] slot show ?thesis by simp
  qed
qed

text \<open>
  What happens to a connection that stays open: packages for it are taken from the pipe,
  it becomes writable, and the server works elsewhere, on other slots and blocks.
\<close>

inductive serves :: "'k kernel \<Rightarrow> ('k \<Rightarrow> int \<Rightarrow> byte list) \<Rightarrow> int \<Rightarrow> 'k socket_server \<Rightarrow> sent_package list \<Rightarrow> 'k socket_server \<Rightarrow> bool"
  for K out sid ss0 where
  serves_start: "serves K out sid ss0 [] ss0"
| serves_package: "serves K out sid ss0 subs ss \<Longrightarrow> ss_heap ss a = None \<Longrightarrow>
    send_socket K sid (int (length bs)) a pr None (hand_over a bs ss) = Some (None, ss') \<Longrightarrow>
    serves K out sid ss0 (subs @ [(pr, bs)]) ss'"
| serves_writable: "serves K out sid ss0 subs ss \<Longrightarrow> send_buffer K (HASH_ID sid) ss = Some (None, ss') \<Longrightarrow>
    serves K out sid ss0 subs ss'"
| serves_elsewhere: "serves K out sid ss0 subs ss \<Longrightarrow> ss_slot ss' (HASH_ID sid) = ss_slot ss (HASH_ID sid) \<Longrightarrow>
    \<forall>wb\<in>set (buffers (ss_slot ss (HASH_ID sid))). ss_heap ss' (wb_buffer wb) = ss_heap ss (wb_buffer wb) \<Longrightarrow>
    out (ss_os ss') (so_fd (ss_slot ss (HASH_ID sid))) = out (ss_os ss) (so_fd (ss_slot ss (HASH_ID sid))) \<Longrightarrow>
    serves K out sid ss0 subs ss'"

lemma serves_streaming:
  assumes K: "kernel_ok K" "records K out" and con: "connected sid (ss_slot ss0 (HASH_ID sid))"
    and emp: "send_buffer_empty (ss_slot ss0 (HASH_ID sid))" and run: "serves K out sid ss0 subs ss"
  shows "streaming out (HASH_ID sid) (out (ss_os ss0) (so_fd (ss_slot ss0 (HASH_ID sid)))) subs ss \<and>
    ident (ss_slot ss (HASH_ID sid)) = ident (ss_slot ss0 (HASH_ID sid))"
  using run
proof (induction rule: serves.induct)
  case serves_start
  with emp streamed_empty show ?case by (auto simp: streaming_def queued_def send_buffer_empty_def buffers_def)
next
  case (serves_package subs ss a bs pr ss')
  with con have "connected sid (ss_slot ss (HASH_ID sid))" using connected_ident by metis
  from send_socket_streaming [OF K this conjunct1 [OF serves_package(4)] serves_package(2,3)] serves_package(4)
  show ?case by simp
next
  case (serves_writable subs ss ss')
  with con have "connected sid (ss_slot ss (HASH_ID sid))" using connected_ident by metis
  from send_buffer_streaming [OF K this conjunct1 [OF serves_writable(3)] serves_writable(2)] serves_writable(3)
  show ?case by simp
next
  case (serves_elsewhere subs ss ss')
  from streaming_frame [OF conjunct1 [OF serves_elsewhere(5)] serves_elsewhere(2-4)] serves_elsewhere show ?case by simp
qed

section \<open>An example\<close>

text \<open>A system that keeps what was written and takes at most two bytes at a time; slot 1 is connected.\<close>

definition tape_kernel :: "(int \<Rightarrow> byte list) kernel" where
  "tape_kernel = \<lparr>
     k_write = (\<lambda>fd bs k. (IoDone (min 2 (length bs)), k(fd := k fd @ take 2 bs))), k_sendto = (\<lambda>fd bs a k. (IoAgain, k)),
     k_read = (\<lambda>fd n k. (ReadAgain, k)), k_recvfrom = (\<lambda>fd n k. (RecvAgain, k)), k_accept = (\<lambda>fd k. (None, k)),
     k_getaddrinfo = (\<lambda>h p k. (None, k)), k_socket = (\<lambda>t k. (-1, k)), k_connect = (\<lambda>fd a k. (ConnFail, k)),
     k_setsockopt = (\<lambda>fd w v k. (False, k)), k_bind = (\<lambda>fd a k. (False, k)), k_listen = (\<lambda>fd b k. (False, k)),
     k_so_error = (\<lambda>fd k. (False, k)), k_peername = (\<lambda>fd k. (None, k)), k_nonblocking = (\<lambda>fd k. k),
     k_close = (\<lambda>fd k. k), k_epoll_add = (\<lambda>fd k. (False, k)), k_epoll_wait = (\<lambda>ep n k. ([], k))\<rparr>"

lemma tape_kernel_ok: "kernel_ok tape_kernel" and tape_records: "records tape_kernel (\<lambda>k. k)"
proof -
  have t: "take (min 2 (length bs)) bs = take 2 bs" for bs :: "byte list" by (simp add: min_def)
  show "kernel_ok tape_kernel" "records tape_kernel (\<lambda>k. k)"
    by (auto simp: kernel_ok_def tape_kernel_def addresses_ok_def records_def t intro!: exI [of _ "[]"])
qed

definition chat_slot :: socket where
  "chat_slot = blank_socket\<lparr>so_type := SOCKET_TYPE_CONNECTED, so_id := 1, so_fd := 7\<rparr>"

definition chat :: "byte list \<Rightarrow> heap \<Rightarrow> bool \<Rightarrow> int \<Rightarrow> write_buffer list \<Rightarrow> write_buffer list \<Rightarrow> (int \<Rightarrow> byte list) socket_server" where
  "chat bs heap wr n high low = \<lparr>ss_checkctrl = True, ss_alloc_id = 1, ss_event_index = 0, ss_soi = None, ss_ev = [],
     ss_slot = (\<lambda>_. blank_socket)(1 := chat_slot\<lparr>so_high := high, so_low := low, so_wb_size := n\<rparr>), ss_pipe = [],
     ss_epoll = [7 \<mapsto> (Some 1, wr)], ss_heap = heap, ss_os = (\<lambda>_. [])(7 := bs)\<rparr>"

lemma chat_hash: "HASH_ID 1 = 1"
  by (simp add: HASH_ID_def MAX_SOCKET_def)

definition chat_buffer :: "addr \<Rightarrow> nat \<Rightarrow> int \<Rightarrow> write_buffer" where
  "chat_buffer a n sz = \<lparr>wb_buffer = a, wb_ptr = (a, n), wb_sz = sz, wb_userobject = False, wb_udp_address = []\<rparr>"

lemma chat_first: "send_socket tape_kernel 1 3 5 PRIORITY_HIGH None (hand_over 5 [1, 2, 3] (chat [] Map.empty False 0 [] [])) =
    Some (None, chat [1, 2] [5 \<mapsto> [1, 2, 3]] True 1 [chat_buffer 5 2 1] [])"
  by (simp add: send_socket_def send_direct_tcp_def chat_def chat_hash chat_slot_def blank_socket_def hand_over_def
    send_object_init_def send_buffer_empty_def load_def sys_def tape_kernel_def append_sendbuffer_def append_sendbuffer_at_def
    sp_write_def set_slot_def set_list_def get_list_def sub_wb_size_def chat_buffer_def Let_def fun_upd_def numeral_2_eq_2 cong: if_cong)

lemma chat_second: "send_socket tape_kernel 1 1 6 PRIORITY_LOW None
      (hand_over 6 [4] (chat [1, 2] [5 \<mapsto> [1, 2, 3]] True 1 [chat_buffer 5 2 1] [])) =
    Some (None, chat [1, 2] [5 \<mapsto> [1, 2, 3], 6 \<mapsto> [4]] True 2 [chat_buffer 5 2 1] [chat_buffer 6 0 1])"
  by (simp add: send_socket_def chat_def chat_hash chat_slot_def blank_socket_def hand_over_def
    send_object_init_def send_buffer_empty_def append_sendbuffer_low_def append_sendbuffer_at_def
    set_slot_def set_list_def get_list_def sub_wb_size_def chat_buffer_def Let_def fun_upd_def cong: if_cong)

lemma chat_write: "write_retry tape_kernel fd bs k = Some (IoDone (min 2 (length bs)), k(fd := k fd @ take 2 bs))"
  by (subst write_retry.simps) (simp add: tape_kernel_def)

lemma chat_third: "send_buffer tape_kernel 1
      (chat [1, 2] [5 \<mapsto> [1, 2, 3], 6 \<mapsto> [4]] True 2 [chat_buffer 5 2 1] [chat_buffer 6 0 1]) =
    Some (None, chat [1, 2, 3, 4] Map.empty True 0 [] [])"
  by (simp add: send_buffer_def send_list_def send_list_tcp_def chat_write chat_def chat_slot_def blank_socket_def
    load_def write_buffer_free_def free_func_def FREE_def list_uncomplete_def
    set_slot_def set_list_def get_list_def sub_wb_size_def chat_buffer_def Let_def fun_upd_def cong: if_cong)
section \<open>Properties\<close>

text \<open>
  C8. The stream of a connection: as long as it stays open, what the peer is sent consists of
  whole packages in the order in which they were begun, but for the last of them, of which
  the front is sent; the packages begun of each priority are the first ones that were handed
  over with that priority, in that order; and when nothing is queued all of them are sent
  in full. The system may take any part of what it is given, and may be busy, at every call.
\<close>

theorem packages_in_order:
  assumes K: "kernel_ok K" "records K out" and con: "connected sid (ss_slot ss0 (HASH_ID sid))"
    and emp: "send_buffer_empty (ss_slot ss0 (HASH_ID sid))" and run: "serves K out sid ss0 subs ss"
  shows "\<exists>started n. out (ss_os ss) (so_fd (ss_slot ss0 (HASH_ID sid))) =
      out (ss_os ss0) (so_fd (ss_slot ss0 (HASH_ID sid))) @
        (if started = [] then [] else concat (map snd (butlast started)) @ take n (snd (last started))) \<and>
    (\<forall>pr. take (length (of_priority pr started)) (of_priority pr subs) = of_priority pr started) \<and>
    (send_buffer_empty (ss_slot ss (HASH_ID sid)) \<longrightarrow>
       (\<forall>pr. of_priority pr started = of_priority pr subs) \<and> (started \<noteq> [] \<longrightarrow> length (snd (last started)) \<le> n))"
proof -
  define fd where "fd = so_fd (ss_slot ss0 (HASH_ID sid))"
  define s where "s = ss_slot ss (HASH_ID sid)"
  note st = serves_streaming [OF assms]
  then have fd: "so_fd s = fd" by (simp add: ident_def s_def fd_def)
  obtain w where w: "out (ss_os ss) fd = out (ss_os ss0) fd @ w" "streamed (contents ss) (so_high s) (so_low s) w subs"
    using st fd by (auto simp: streaming_def s_def fd_def)
  obtain started cur hs where d: "so_high s = cur @ hs" "length cur \<le> 1"
      "w @ concat (map (rest (contents ss)) cur) = concat (map snd started)"
      "\<forall>wb\<in>set cur. started \<noteq> [] \<and> snd (last started) = contents ss (wb_buffer wb)"
      "of_priority PRIORITY_HIGH subs = of_priority PRIORITY_HIGH started @ map (contents ss \<circ> wb_buffer) hs"
      "of_priority PRIORITY_LOW subs = of_priority PRIORITY_LOW started @ map (contents ss \<circ> wb_buffer) (so_low s)"
    using w(2) unfolding streamed_def by blast
  have o: "take (length (of_priority pr started)) (of_priority pr subs) = of_priority pr started" for pr
    using d(5,6) by (cases pr) simp_all
  have all: "of_priority pr started = of_priority pr subs" if "send_buffer_empty s" for pr
    using d(1,5,6) that by (cases pr) (simp_all add: send_buffer_empty_def)
  show ?thesis
  proof (cases cur)
    case Nil
    have "w = (if started = [] then [] else concat (map snd (butlast started)) @ take (length (snd (last started))) (snd (last started)))"
    proof (cases started rule: rev_cases)
      case (snoc xs x)
      with d(3) Nil show ?thesis by simp
    qed (use d(3) Nil in simp)
    with w(1) o all show ?thesis unfolding fd_def s_def
      by (intro exI [of _ started] exI [of _ "length (snd (last started))"]) simp
  next
    case (Cons wb cur')
    with d(2) have c: "cur = [wb]" by simp
    define n where "n = snd (wb_ptr wb)"
    from c d(4) obtain xs x where x: "started = xs @ [x]" "snd x = contents ss (wb_buffer wb)"
      by (cases started rule: rev_cases) auto
    have "w @ drop n (snd x) = (concat (map snd xs) @ take n (snd x)) @ drop n (snd x)"
      using d(3) c x by (simp add: rest_def n_def)
    then have "w = concat (map snd xs) @ take n (snd x)" by (rule append_same_eq [THEN iffD1])
    moreover have "\<not> send_buffer_empty s" using d(1) c by (simp add: send_buffer_empty_def)
    ultimately show ?thesis using w(1) o x(1) unfolding fd_def s_def
      by (intro exI [of _ started] exI [of _ n]) simp
  qed
qed

lemma packages_in_order_witness: "\<exists>started n. [1, 2, 3, 4] =
    (if started = [] then [] else concat (map snd (butlast started)) @ take n (snd (last started))) \<and>
    of_priority PRIORITY_HIGH started = [[1, 2, 3]] \<and> of_priority PRIORITY_LOW started = [[4]]"
proof -
  have c: "connected 1 (ss_slot (chat bs h wr n hi lo) (HASH_ID 1))" for bs h wr n hi lo
    by (simp add: chat_def chat_hash connected_def chat_slot_def blank_socket_def)
  have "serves tape_kernel (\<lambda>k. k) 1 (chat [] Map.empty False 0 [] []) ([] @ [(PRIORITY_HIGH, [1, 2, 3])])
      (chat [1, 2] [5 \<mapsto> [1, 2, 3]] True 1 [chat_buffer 5 2 1] [])"
    by (rule serves_package [where a = 5, OF serves_start]) (use chat_first in \<open>simp_all add: chat_def\<close>)
  then have "serves tape_kernel (\<lambda>k. k) 1 (chat [] Map.empty False 0 [] []) (([] @ [(PRIORITY_HIGH, [1, 2, 3])]) @ [(PRIORITY_LOW, [4])])
      (chat [1, 2] [5 \<mapsto> [1, 2, 3], 6 \<mapsto> [4]] True 2 [chat_buffer 5 2 1] [chat_buffer 6 0 1])"
    by (rule serves_package [where a = 6]) (use chat_second in \<open>simp_all add: chat_def\<close>)
  then have r: "serves tape_kernel (\<lambda>k. k) 1 (chat [] Map.empty False 0 [] []) (([] @ [(PRIORITY_HIGH, [1, 2, 3])]) @ [(PRIORITY_LOW, [4])])
      (chat [1, 2, 3, 4] Map.empty True 0 [] [])"
    by (rule serves_writable) (simp only: chat_hash chat_third)
  have e: "send_buffer_empty (ss_slot (chat bs h wr n [] []) (HASH_ID 1))" for bs h wr n
    by (simp add: chat_def chat_hash send_buffer_empty_def)
  have f: "ss_os (chat bs h wr n hi lo) (so_fd (ss_slot (chat bs' h' wr' n' hi' lo') (HASH_ID 1))) = bs"
    for bs h wr n hi lo bs' h' wr' n' hi' lo'
    by (simp add: chat_def chat_hash chat_slot_def blank_socket_def)
  from packages_in_order [OF tape_kernel_ok tape_records c e r] obtain started n where
      "[1, 2, 3, 4] = (if started = [] then [] else concat (map snd (butlast started)) @ take n (snd (last started)))"
      "\<forall>pr. of_priority pr started = of_priority pr (([] @ [(PRIORITY_HIGH, [1, 2, 3])]) @ [(PRIORITY_LOW, [4])])"
    by (elim exE conjE) (simp only: e f append_Nil simp_thms)
  then show ?thesis by (intro exI [of _ started] exI [of _ n]) (simp add: of_priority_def)
qed

end
