(* ===== verification/Sproto_Pack.thy ===== *)
theory Sproto_Pack
  imports C_Library "HOL-Library.Monad_Syntax"
begin

text \<open>
  The zero packing of \<open>lualib-src/sproto/sproto.c\<close> with its Lua functions in \<open>lsproto.c\<close>.
  A block of 8 bytes is stored as a bitmap and its bytes other than 0, and a run of blocks
  with few zeros as it is. A buffer is the list of the bytes of its memory object, and a
  store outside it, or a read past the end of the source, is a crash (\<open>None\<close>). Texts are
  shorter than 2^29 bytes, so that the \<open>int\<close> arithmetic does not overflow.
\<close>

section \<open>Packing\<close>

definition store :: "nat \<Rightarrow> byte \<Rightarrow> byte list \<Rightarrow> byte list option" where
  "store p b buf = (if p < length buf then Some (buf[p := b]) else None)"

fun store_all :: "nat \<Rightarrow> byte list \<Rightarrow> byte list \<Rightarrow> byte list option" where
  "store_all p [] buf = Some buf"
| "store_all p (b # bs) buf = Option.bind (store p b buf) (store_all (Suc p) bs)"

text \<open>The loop over the 8 bytes, with the counters \<open>notzero\<close> and \<open>header\<close>.\<close>

fun seg_loop :: "byte list \<Rightarrow> nat \<Rightarrow> nat \<Rightarrow> int \<Rightarrow> nat \<Rightarrow> byte \<Rightarrow> byte list \<Rightarrow> (nat \<times> byte \<times> byte list) option" where
  "seg_loop [] i p sz notzero header buf = Some (notzero, header, buf)"
| "seg_loop (b # bs) i p sz notzero header buf =
     (if b \<noteq> 0 then
        if 0 < sz then do {
          buf1 \<leftarrow> store p b buf;
          seg_loop bs (Suc i) (Suc p) (sz - 1) (Suc notzero) (header OR push_bit i 1) buf1
        }
        else seg_loop bs (Suc i) p sz (Suc notzero) (header OR push_bit i 1) buf
      else seg_loop bs (Suc i) p sz notzero header buf)"

definition pack_seg :: "byte list \<Rightarrow> nat \<Rightarrow> int \<Rightarrow> nat \<Rightarrow> byte list \<Rightarrow> (nat \<times> byte list) option" where
  "pack_seg src p sz n buf =
     (if length src < 8 then None
      else do {
        (notzero, header, buf1) \<leftarrow> seg_loop (take 8 src) 0 (Suc p) (sz - 1) 0 0 buf;
        let notzero = (if (notzero = 7 \<or> notzero = 6) \<and> 0 < n then 8 else notzero);
        if notzero = 8 then Some (if 0 < n then 8 else 10, buf1)
        else if sz - 1 < 0 then Some (notzero + 1, buf1)
        else do {
          buf2 \<leftarrow> store p header buf1;
          Some (notzero + 1, buf2)
        }
      })"

definition write_ff :: "byte list \<Rightarrow> nat \<Rightarrow> nat \<Rightarrow> byte list \<Rightarrow> byte list option" where
  "write_ff src des n buf =
     (let align8_n = (n + 7) div 8 * 8 in
      if length src < n then None
      else store_all des ([0xff, of_nat (align8_n div 8 - 1)] @ take n src @ replicate (align8_n - n) 0) buf)"

text \<open>The pointer \<open>ff_srcstart\<close>: into the source, or to the padded last block.\<close>

datatype ff_start = In_Source nat | In_Tmp "byte list"

fun ff_bytes :: "byte list \<Rightarrow> ff_start \<Rightarrow> byte list" where
  "ff_bytes srcv (In_Source k) = drop k srcv"
| "ff_bytes srcv (In_Tmp t) = t"

text \<open>The end of a run, inside the loop.\<close>

definition flush_ff :: "byte list \<Rightarrow> int \<Rightarrow> ff_start \<Rightarrow> nat \<Rightarrow> nat \<Rightarrow> byte list \<Rightarrow> byte list option" where
  "flush_ff srcv bufsz start des n buf =
     (if 0 \<le> bufsz then write_ff (ff_bytes srcv start) des (n * 8) buf else Some buf)"

function pack_loop :: "byte list \<Rightarrow> nat \<Rightarrow> nat \<Rightarrow> int \<Rightarrow> ff_start \<Rightarrow> nat \<Rightarrow> nat \<Rightarrow> nat \<Rightarrow> byte list
    \<Rightarrow> (nat \<times> int \<times> ff_start \<times> nat \<times> nat \<times> byte list) option" where
  "pack_loop srcv i p bufsz start des ff_n sz buf =
     (if length srcv \<le> i then Some (sz, bufsz, start, des, ff_n, buf)
      else do {
        let padding = i + 8 - length srcv;
        let src = (if 0 < padding then drop i srcv @ replicate padding 0 else drop i srcv);
        (n, buf1) \<leftarrow> pack_seg src p bufsz ff_n buf;
        let bufsz1 = bufsz - int n;
        if n = 10 then
          pack_loop srcv (i + 8) (p + n) bufsz1 (if 0 < padding then In_Tmp src else In_Source i) p 1 (sz + n) buf1
        else if n = 8 \<and> 0 < ff_n then
          if ff_n + 1 = 256 then do {
            buf2 \<leftarrow> flush_ff srcv bufsz1 start des 256 buf1;
            pack_loop srcv (i + 8) (p + n) bufsz1 start des 0 (sz + n) buf2
          }
          else pack_loop srcv (i + 8) (p + n) bufsz1 start des (ff_n + 1) (sz + n) buf1
        else if 0 < ff_n then do {
          buf2 \<leftarrow> flush_ff srcv bufsz1 start des ff_n buf1;
          pack_loop srcv (i + 8) (p + n) bufsz1 start des 0 (sz + n) buf2
        }
        else pack_loop srcv (i + 8) (p + n) bufsz1 start des 0 (sz + n) buf1
      })"
  by pat_completeness auto
termination by (relation "measure (\<lambda>(srcv, i, _). length srcv - i)") auto

declare pack_loop.simps [simp del]

text \<open>After the loop. A difference of pointers into different objects is undefined.\<close>

fun pack_finish :: "byte list \<Rightarrow> nat \<times> int \<times> ff_start \<times> nat \<times> nat \<times> byte list \<Rightarrow> (nat \<times> byte list) option" where
  "pack_finish srcv (sz, bufsz, start, des, ff_n, buf) =
     (if bufsz < 0 then Some (sz, buf)
      else if ff_n = 1 then map_option (Pair sz) (write_ff (ff_bytes srcv start) des 8 buf)
      else if 1 < ff_n then
        (case start of
           In_Tmp _ \<Rightarrow> None
         | In_Source k \<Rightarrow> map_option (Pair sz) (write_ff (drop k srcv) des (length srcv - k) buf))
      else Some (sz, buf))"

definition sproto_pack :: "byte list \<Rightarrow> int \<Rightarrow> byte list \<Rightarrow> (nat \<times> byte list) option" where
  "sproto_pack srcv bufsz buf = Option.bind (pack_loop srcv 0 0 bufsz (In_Source 0) 0 0 0 buf) (pack_finish srcv)"

section \<open>Unpacking\<close>

text \<open>
  The loop over the bits of a header. The check \<open>srcsz < 0\<close> comes a byte late: with no byte left and
  room in the buffer the source is read past its end, and without room the next byte gives -1.
\<close>

fun unpack_bits :: "nat list \<Rightarrow> byte \<Rightarrow> byte list \<Rightarrow> nat \<Rightarrow> int \<Rightarrow> byte list
    \<Rightarrow> (byte list \<times> nat \<times> int \<times> byte list) option option" where
  "unpack_bits [] header src p bufsz buf = Some (Some (src, p, bufsz, buf))"
| "unpack_bits (i # is) header src p bufsz buf =
     (if bit header i then
        (case src of
           [] \<Rightarrow> if 0 < bufsz then None
                 else if list_ex (bit header) is then Some None
                 else Some (Some ([], p, bufsz, buf))
         | c # src1 \<Rightarrow>
             if 0 < bufsz then do {
               buf1 \<leftarrow> store p c buf;
               unpack_bits is header src1 (Suc p) (bufsz - 1) buf1
             }
             else unpack_bits is header src1 p bufsz buf)
      else if 0 < bufsz then do {
        buf1 \<leftarrow> store p 0 buf;
        unpack_bits is header src (Suc p) (bufsz - 1) buf1
      }
      else unpack_bits is header src p bufsz buf)"

lemma unpack_bits_length: "unpack_bits is header src p bufsz buf = Some (Some (src', r)) \<Longrightarrow> length src' \<le> length src"
proof (induction "is" arbitrary: src p bufsz buf)
  case (Cons i "is")
  show ?case
  proof (cases "bit header i")
    case bit: True
    show ?thesis
    proof (cases src)
      case Nil
      with bit Cons.prems show ?thesis by (auto split: if_splits)
    next
      case (Cons c src1)
      with bit Cons.prems obtain p1 bufsz1 buf1 where "unpack_bits is header src1 p1 bufsz1 buf1 = Some (Some (src', r))"
        by (auto split: if_splits Option.bind_splits)
      from Cons.IH [OF this] Cons show ?thesis by simp
    qed
  next
    case False
    with Cons.prems obtain p1 bufsz1 buf1 where "unpack_bits is header src p1 bufsz1 buf1 = Some (Some (src', r))"
      by (auto split: if_splits Option.bind_splits)
    from Cons.IH [OF this] show ?thesis .
  qed
qed simp

text \<open>The result: a crash, the C value -1, or the size and the buffer.\<close>

function unpack_steps :: "byte list \<Rightarrow> nat \<Rightarrow> int \<Rightarrow> nat \<Rightarrow> byte list \<Rightarrow> (nat \<times> byte list) option option" where
  "unpack_steps [] p bufsz sz buf = Some (Some (sz, buf))"
| "unpack_steps (header # src) p bufsz sz buf =
     (if header = 0xff then
        (case src of
           [] \<Rightarrow> None
         | c # src1 \<Rightarrow>
             let n = (unat c + 1) * 8 in
             if length src < n + 1 then Some None
             else do {
               buf1 \<leftarrow> (if int n \<le> bufsz then store_all p (take n src1) buf else Some buf);
               unpack_steps (drop n src1) (p + n) (bufsz - int n) (sz + n) buf1
             })
      else
        (case unpack_bits [0..<8] header src p bufsz buf of
           None \<Rightarrow> None
         | Some None \<Rightarrow> Some None
         | Some (Some (src1, p1, bufsz1, buf1)) \<Rightarrow> unpack_steps src1 p1 bufsz1 (sz + 8) buf1))"
  by pat_completeness auto
termination
  by (relation "measure (\<lambda>(src, _). length src)") (auto dest: unpack_bits_length simp: less_Suc_eq_le)

definition sproto_unpack :: "byte list \<Rightarrow> int \<Rightarrow> byte list \<Rightarrow> (nat \<times> byte list) option option" where
  "sproto_unpack srcv bufsz buf = unpack_steps srcv 0 bufsz 0 buf"

section \<open>The Lua functions\<close>

definition ENCODE_BUFFERSIZE :: nat where "ENCODE_BUFFERSIZE = 2050"
definition ENCODE_MAXSIZE :: nat where "ENCODE_MAXSIZE = 0x1000000"

datatype sproto_error = Too_Large | Packing_Error nat | Invalid_Unpack_Stream

text \<open>The doubling loop: from size 0 it does not end (\<open>None\<close>); the buffer is made with \<open>ENCODE_BUFFERSIZE\<close>.\<close>

function double_until :: "nat \<Rightarrow> nat \<Rightarrow> nat option" where
  "double_until osz nsz =
     (if osz * 2 < nsz then if osz = 0 then None else double_until (osz * 2) nsz else Some (osz * 2))"
  by pat_completeness auto
termination by (relation "measure (\<lambda>(osz, nsz). nsz - osz)") auto

declare double_until.simps [simp del]

text \<open>The new buffer is kept as the upvalue. What a new block holds is not defined; no result depends on it.\<close>

definition expand_buffer :: "nat \<Rightarrow> nat \<Rightarrow> (sproto_error + byte list) option" where
  "expand_buffer osz nsz = do {
     osz \<leftarrow> double_until osz nsz;
     Some (if ENCODE_MAXSIZE < osz then Inl Too_Large else Inr (replicate osz 0))
   }"

definition pack_maxsz :: "nat \<Rightarrow> nat" where
  "pack_maxsz sz = (sz + 2047) div 2048 * 2 + sz"

definition sproto_lpack :: "byte list \<Rightarrow> byte list \<Rightarrow> (sproto_error + byte list) option" where
  "sproto_lpack output s = do {
     let maxsz = pack_maxsz (length s);
     r \<leftarrow> (if length output < maxsz then expand_buffer (length output) maxsz else Some (Inr output));
     (case r of
        Inl e \<Rightarrow> Some (Inl e)
      | Inr out \<Rightarrow> do {
          (bytes, out1) \<leftarrow> sproto_pack s (int maxsz) out;
          Some (if maxsz < bytes then Inl (Packing_Error bytes) else Inr (take bytes out1))
        })
   }"

definition sproto_lunpack :: "byte list \<Rightarrow> byte list \<Rightarrow> (sproto_error + byte list) option" where
  "sproto_lunpack output s = do {
     r \<leftarrow> sproto_unpack s (int (length output)) output;
     (case r of
        None \<Rightarrow> Some (Inl Invalid_Unpack_Stream)
      | Some (sz, out1) \<Rightarrow>
          if length output < sz then do {
            e \<leftarrow> expand_buffer (length output) sz;
            (case e of
               Inl e \<Rightarrow> Some (Inl e)
             | Inr out \<Rightarrow> do {
                 r2 \<leftarrow> sproto_unpack s (int sz) out;
                 (case r2 of
                    None \<Rightarrow> Some (Inl Invalid_Unpack_Stream)
                  | Some (sz2, out2) \<Rightarrow> Some (Inr (take sz2 out2)))
               })
          }
          else Some (Inr (take sz out1)))
   }"

end
