(* ===== verification/Sproto_Pack_Correct.thy ===== *)
theory Sproto_Pack_Correct
  imports Sproto_Pack
begin

text \<open>
  Packing stays inside its buffer, its result is a list of blocks and runs that does not
  depend on the buffer, and unpacking gives the source back, filled up with zeros to a
  multiple of 8.
\<close>

section \<open>The packed format\<close>

definition nonzero :: "byte list \<Rightarrow> byte list" where
  "nonzero b = filter (\<lambda>c. c \<noteq> 0) b"

fun bitmap :: "nat \<Rightarrow> byte list \<Rightarrow> byte" where
  "bitmap i [] = 0"
| "bitmap i (b # bs) = (if b \<noteq> 0 then push_bit i 1 else 0) OR bitmap (Suc i) bs"

text \<open>A block belongs to a run of \<open>n\<close> blocks.\<close>

definition in_run :: "nat \<Rightarrow> byte list \<Rightarrow> bool" where
  "in_run n b \<longleftrightarrow> length (nonzero b) = 8 \<or> 0 < n \<and> (length (nonzero b) = 7 \<or> length (nonzero b) = 6)"

definition packed_run :: "byte list list \<Rightarrow> byte list" where
  "packed_run run = (if run = [] then [] else [0xff, of_nat (length run - 1)] @ concat run)"

definition packed_block :: "byte list \<Rightarrow> byte list" where
  "packed_block b = bitmap 0 b # nonzero b"

fun packed :: "byte list list \<Rightarrow> byte list list \<Rightarrow> byte list" where
  "packed run [] = packed_run run"
| "packed run (b # bs) =
     (if in_run (length run) b then
        if length run + 1 = 256 then packed_run (run @ [b]) @ packed [] bs else packed (run @ [b]) bs
      else packed_run run @ packed_block b @ packed [] bs)"

text \<open>The blocks of a source, the last one filled up with zeros.\<close>

definition block :: "byte list \<Rightarrow> nat \<Rightarrow> byte list" where
  "block s i = take 8 (drop i s @ replicate 8 0)"

function blocks :: "byte list \<Rightarrow> nat \<Rightarrow> byte list list" where
  "blocks s i = (if length s \<le> i then [] else block s i # blocks s (i + 8))"
  by pat_completeness auto
termination by (relation "measure (\<lambda>(s, i). length s - i)") auto

declare blocks.simps [simp del]

lemma length_block [simp]: "length (block s i) = 8"
  by (simp add: block_def)

section \<open>Stores\<close>

definition holds :: "nat \<Rightarrow> byte list \<Rightarrow> byte list \<Rightarrow> bool" where
  "holds p bs buf \<longleftrightarrow> take (length bs) (drop p buf) = bs"

lemma store_ok: "p < length buf \<Longrightarrow> store p b buf = Some (buf[p := b])"
  by (simp add: store_def)

lemma store_all_ok: "p + length bs \<le> length buf \<Longrightarrow> store_all p bs buf = Some (take p buf @ bs @ drop (p + length bs) buf)"
proof (induction bs arbitrary: p buf)
  case (Cons b bs)
  then have "store_all (Suc p) bs (buf[p := b]) = Some (take (Suc p) (buf[p := b]) @ bs @ drop (Suc p + length bs) (buf[p := b]))"
    by simp
  with Cons.prems show ?case by (simp add: store_ok take_update_swap take_Suc_conv_app_nth list_update_append)
qed simp

lemma seg_loop_ok:
  "0 < sz \<Longrightarrow> int p + sz \<le> int (length buf) \<Longrightarrow>
   \<exists>buf'. seg_loop bs i p sz n h buf = Some (n + length (nonzero bs), h OR bitmap i bs, buf') \<and>
     length buf' = length buf \<and> take p buf' = take p buf \<and>
     (int (length (nonzero bs)) \<le> sz \<longrightarrow> holds p (nonzero bs) buf')"
  "sz \<le> 0 \<Longrightarrow> seg_loop bs i p sz n h buf = Some (n + length (nonzero bs), h OR bitmap i bs, buf)"
proof -
  show *: "sz \<le> 0 \<Longrightarrow> seg_loop bs i p sz n h buf = Some (n + length (nonzero bs), h OR bitmap i bs, buf)" for bs i p sz n h buf
    by (induction bs arbitrary: i p sz n h) (auto simp: nonzero_def or.assoc)
  show "0 < sz \<Longrightarrow> int p + sz \<le> int (length buf) \<Longrightarrow> \<exists>buf'. seg_loop bs i p sz n h buf =
      Some (n + length (nonzero bs), h OR bitmap i bs, buf') \<and> length buf' = length buf \<and> take p buf' = take p buf \<and>
      (int (length (nonzero bs)) \<le> sz \<longrightarrow> holds p (nonzero bs) buf')"
  proof (induction bs arbitrary: i p sz n h buf)
    case Nil
    then show ?case by (simp add: nonzero_def holds_def)
  next
    case (Cons b bs)
    show ?case
    proof (cases "b = 0")
      case True
      with Cons show ?thesis by (simp add: nonzero_def)
    next
      case False
      let ?buf = "buf[p := b]"
      have p: "p < length buf" using Cons.prems by simp
      have tk: "take p buf' = take p buf \<and> (holds (Suc p) l buf' \<longrightarrow> holds p (b # l) buf')"
        if "length buf' = length buf" "take (Suc p) buf' = take (Suc p) ?buf" for buf' l
      proof -
        have d: "drop p buf' = buf' ! p # drop (Suc p) buf'" using p that(1) by (simp add: Cons_nth_drop_Suc)
        have "buf' ! p = b" using that p by (metis lessI nth_list_update_eq nth_take)
        moreover have "take p buf' = take p buf"
          using that(2) by (metis Suc_n_not_le_n min.absorb1 nat_le_linear take_take take_update_cancel order_refl)
        ultimately show ?thesis by (simp add: holds_def d)
      qed
      show ?thesis
      proof (cases "sz = 1")
        case True
        with False p * [of 0 bs "Suc i" "Suc p" "Suc n" "h OR push_bit i 1" ?buf] tk [of ?buf "[]"] show ?thesis
          by (auto simp: store_ok nonzero_def or.assoc holds_def)
      next
        case sz: False
        then obtain buf' where "seg_loop bs (Suc i) (Suc p) (sz - 1) (Suc n) (h OR push_bit i 1) ?buf =
            Some (Suc n + length (nonzero bs), (h OR push_bit i 1) OR bitmap (Suc i) bs, buf')"
            "length buf' = length ?buf" "take (Suc p) buf' = take (Suc p) ?buf"
            "int (length (nonzero bs)) \<le> sz - 1 \<longrightarrow> holds (Suc p) (nonzero bs) buf'"
          using Cons.IH [of "sz - 1" "Suc p" ?buf "Suc i" "Suc n" "h OR push_bit i 1"] Cons.prems by auto
        with False p Cons.prems tk [of buf' "nonzero bs"] show ?thesis
          by (auto simp: store_ok nonzero_def or.assoc)
      qed
    qed
  qed
qed

definition seg_size :: "nat \<Rightarrow> byte list \<Rightarrow> nat" where
  "seg_size n b = (if in_run n b then if 0 < n then 8 else 10 else length (nonzero b) + 1)"

lemma nonzero_le: "length (nonzero b) \<le> length b"
  by (simp add: nonzero_def)

lemma pack_seg_ok:
  assumes src: "8 \<le> length src" and cap: "cap \<le> length buf" and sz: "sz = int cap - int p"
  obtains buf' where "pack_seg src p sz n buf = Some (seg_size n (take 8 src), buf')" "length buf' = length buf"
    "take p buf' = take p buf"
    "\<not> in_run n (take 8 src) \<Longrightarrow> p + seg_size n (take 8 src) \<le> cap \<Longrightarrow> holds p (packed_block (take 8 src)) buf'"
proof -
  define b where "b = take 8 src"
  have nz: "length (nonzero b) \<le> 8" using nonzero_le [of b] src by (simp add: b_def)
  define n8 where "n8 = (if (length (nonzero b) = 7 \<or> length (nonzero b) = 6) \<and> 0 < n then 8 else length (nonzero b))"
  have r: "n8 = 8 \<longleftrightarrow> in_run n b" by (auto simp: n8_def in_run_def)
  have sl: "\<exists>buf1. seg_loop b 0 (Suc p) (sz - 1) 0 0 buf = Some (length (nonzero b), bitmap 0 b, buf1) \<and>
      length buf1 = length buf \<and> take (Suc p) buf1 = take (Suc p) buf \<and>
      (int (length (nonzero b)) \<le> sz - 1 \<longrightarrow> holds (Suc p) (nonzero b) buf1)"
  proof (cases "0 < sz - 1")
    case True
    with seg_loop_ok(1) [of "sz - 1" "Suc p" buf b 0 0 0] cap sz show ?thesis by auto
  next
    case False
    then have "int (length (nonzero b)) \<le> sz - 1 \<longrightarrow> nonzero b = []" by (cases "nonzero b") auto
    with False seg_loop_ok(2) [of "sz - 1" b 0 "Suc p" 0 0 buf] show ?thesis by (auto simp: holds_def)
  qed
  then obtain buf1 where buf1: "seg_loop b 0 (Suc p) (sz - 1) 0 0 buf = Some (length (nonzero b), bitmap 0 b, buf1)"
      "length buf1 = length buf" "take (Suc p) buf1 = take (Suc p) buf"
      "int (length (nonzero b)) \<le> sz - 1 \<longrightarrow> holds (Suc p) (nonzero b) buf1" by blast
  have tp: "take p buf1 = take p buf" using buf1(3) by (metis le_SucI min.absorb1 order_refl take_take)
  have ps: "pack_seg src p sz n buf = (if n8 = 8 then Some (if 0 < n then 8 else 10, buf1)
      else if sz - 1 < 0 then Some (n8 + 1, buf1) else Option.bind (store p (bitmap 0 b) buf1) (\<lambda>buf2. Some (n8 + 1, buf2)))"
    using src buf1(1) unfolding pack_seg_def b_def [symmetric] n8_def by (simp add: Let_def)
  consider (run) "n8 = 8" | (full) "n8 \<noteq> 8" "sz - 1 < 0" | (plain) "n8 \<noteq> 8" "0 \<le> sz - 1" by linarith
  then show thesis
  proof cases
    case run
    with that [of buf1] ps buf1(2) tp r show thesis by (simp add: seg_size_def b_def [symmetric])
  next
    case full
    with that [of buf1] ps buf1(2) tp r sz show thesis
      by (auto simp: seg_size_def n8_def b_def [symmetric] split: if_splits)
  next
    case plain
    have p: "p < length buf1" using plain(2) sz cap buf1(2) by simp
    have "holds p (packed_block b) (buf1[p := bitmap 0 b])" if "p + seg_size n b \<le> cap"
    proof -
      have "int (length (nonzero b)) \<le> sz - 1" using that plain(1) r sz by (simp add: seg_size_def)
      then have "holds (Suc p) (nonzero b) buf1" using buf1(4) by simp
      moreover have "drop p (buf1[p := bitmap 0 b]) = bitmap 0 b # drop (Suc p) buf1"
        using p by (simp add: Cons_nth_drop_Suc [symmetric])
      ultimately show ?thesis by (simp add: holds_def packed_block_def)
    qed
    with that [of "buf1[p := bitmap 0 b]"] ps plain p buf1(2) tp r show thesis
      by (auto simp: seg_size_def store_ok n8_def b_def [symmetric] split: if_splits)
  qed
qed

section \<open>The loop\<close>

lemma write_ff_ok:
  assumes run: "concat run = take n src @ replicate (8 * length run - n) 0" "run \<noteq> []"
    and n: "n \<le> length src" "(n + 7) div 8 = length run"
    and fit: "des + 2 + 8 * length run \<le> length buf"
  shows "write_ff src des n buf = Some (take des buf @ packed_run run @ drop (des + 2 + 8 * length run) buf)"
proof -
  define m where "m = 8 * length run"
  have m: "(n + 7) div 8 * 8 = m" "n \<le> m" using n(2) by (auto simp: m_def)
  have len: "length (concat run) = m" unfolding run(1) using n(1) m(2) by (simp add: m_def [symmetric])
  have "store_all des (packed_run run) buf = Some (take des buf @ packed_run run @ drop (des + length (packed_run run)) buf)"
    by (rule store_all_ok) (use run(2) fit len m_def in \<open>simp add: packed_run_def\<close>)
  moreover have "length (packed_run run) = 2 + m" using run(2) len by (simp add: packed_run_def)
  moreover have "[0xff, of_nat (m div 8 - 1)] @ take n src @ replicate (m - n) 0 = packed_run run"
    using run by (simp add: packed_run_def m_def)
  ultimately show ?thesis using n(1) unfolding write_ff_def Let_def m(1) by (simp add: m_def add.assoc)
qed

lemma concat_blocks:
  "concat (map (\<lambda>j. block s (k + 8 * j)) [0..<n]) = take (8 * n) (drop k s) @ replicate (8 * n - length (drop k s)) 0"
proof (induction n)
  case (Suc n)
  define xs where "xs = drop (k + 8 * n) s"
  have x: "drop (8 * n) (drop k s) = xs" by (simp add: xs_def add.commute)
  have "take (8 * Suc n) (drop k s) = take (8 * n) (drop k s) @ take 8 xs"
    using take_add [of "8 * n" 8 "drop k s"] x by (simp add: add.commute)
  moreover have "block s (k + 8 * n) = take 8 xs @ replicate (8 - length xs) 0"
    by (simp add: block_def xs_def)
  moreover have "replicate (8 * n - length (drop k s)) 0 @ take 8 xs @ replicate (8 - length xs) 0 =
      take 8 xs @ replicate (8 * Suc n - length (drop k s)) (0 :: byte)"
  proof (cases "8 * n \<le> length (drop k s)")
    case True
    then have "8 - length xs = 8 * Suc n - length (drop k s)" by (simp add: xs_def)
    with True show ?thesis by simp
  next
    case False
    then have "xs = []" by (simp add: xs_def)
    with False show ?thesis by (simp flip: replicate_add)
  qed
  ultimately show ?case using Suc.IH by simp
qed simp

definition run_at :: "byte list \<Rightarrow> ff_start \<Rightarrow> byte list list \<Rightarrow> nat \<Rightarrow> bool" where
  "run_at s start run i \<longleftrightarrow> run = [] \<or> (\<exists>k. start = In_Source k \<and> i = k + 8 * length run \<and> k + 8 \<le> length s \<and>
     run = map (\<lambda>j. block s (k + 8 * j)) [0..<length run])"

lemma flush_ok:
  assumes r: "run_at s start run i" "run \<noteq> []" "i \<le> length s" and fit: "des + 2 + 8 * length run \<le> length buf"
  shows "write_ff (ff_bytes s start) des (length run * 8) buf =
    Some (take des buf @ packed_run run @ drop (des + 2 + 8 * length run) buf)"
proof -
  obtain k where k: "start = In_Source k" "i = k + 8 * length run" "run = map (\<lambda>j. block s (k + 8 * j)) [0..<length run]"
    using r(1,2) by (auto simp: run_at_def)
  have "concat run = take (8 * length run) (drop k s) @ replicate (8 * length run - length (drop k s)) 0"
    by (subst k(3)) (rule concat_blocks)
  with write_ff_ok [of run "8 * length run" "drop k s" des buf] k r(2,3) fit show ?thesis by (simp add: mult.commute)
qed

lemma finish_ok:
  assumes r: "run_at s start run i" "length s \<le> i" "i < length s + 8" and des: "run = [] \<or> p = des + 2 + 8 * length run"
    and cap: "cap \<le> length buf" and sz: "sz = int cap - int p"
    and E: "length E = (if run = [] then p else des)" "p \<le> cap \<Longrightarrow> take (length E) buf = E"
  shows "\<exists>buf'. pack_finish s (p, sz, start, des, length run, buf) = Some (length (E @ packed_run run), buf') \<and>
    length buf' = length buf \<and> (length (E @ packed_run run) \<le> cap \<longrightarrow> take (length (E @ packed_run run)) buf' = E @ packed_run run)"
proof (cases "run = []")
  case True
  with E sz show ?thesis by (auto simp: packed_run_def)
next
  case False
  obtain k where k: "start = In_Source k" "i = k + 8 * length run" "k + 8 \<le> length s"
      "run = map (\<lambda>j. block s (k + 8 * j)) [0..<length run]"
    using r(1) False by (auto simp: run_at_def)
  have c: "concat run = take (8 * length run) (drop k s) @ replicate (8 * length run - length (drop k s)) 0"
    by (subst k(4)) (rule concat_blocks)
  have lc: "length (concat run) = 8 * length run" unfolding c by simp
  then have lr: "length (packed_run run) = 2 + 8 * length run" using False by (simp add: packed_run_def)
  have d: "p = des + 2 + 8 * length run" using des False by simp
  show ?thesis
  proof (cases "sz < 0")
    case True
    with d E(1) lr False sz show ?thesis by simp
  next
    case pos: False
    then have fit: "des + 2 + 8 * length run \<le> length buf" "p \<le> cap" using d sz cap by simp_all
    have "write_ff (ff_bytes s start) des 8 buf = Some (take des buf @ packed_run run @ drop (des + 2 + 8 * length run) buf)"
      if "length run = 1"
      using write_ff_ok [of run 8 "drop k s" des buf] that c k fit False by simp
    moreover have "write_ff (drop k s) des (length s - k) buf = Some (take des buf @ packed_run run @ drop (des + 2 + 8 * length run) buf)"
    proof (rule write_ff_ok)
      show "concat run = take (length s - k) (drop k s) @ replicate (8 * length run - (length s - k)) 0"
        using c r(2) k(2) by simp
      show "(length s - k + 7) div 8 = length run" using k(2,3) r(2,3) by linarith
    qed (use False fit in simp_all)
    ultimately have f: "pack_finish s (p, sz, start, des, length run, buf) =
        Some (p, take des buf @ packed_run run @ drop (des + 2 + 8 * length run) buf)"
      using pos False k(1) by (cases "length run = 1") (auto simp: Suc_lessI)
    have "take des buf = E" using E fit(2) False by simp
    with f d E(1) lr False fit show ?thesis by simp
  qed
qed

text \<open>The block at \<open>i\<close> as the loop reads it, and what the size says when it joins a full run.\<close>

lemma block_read:
  assumes "i < length s"
  shows "take 8 (if 0 < i + 8 - length s then drop i s @ replicate (i + 8 - length s) 0 else drop i s) = block s i"
    "8 \<le> length (if 0 < i + 8 - length s then drop i s @ replicate (i + 8 - length s) 0 else drop i s)"
  using assms by (auto simp: block_def min_def)

lemma nonzero_replicate: "nonzero (replicate n 0) = []"
  by (simp add: nonzero_def)

lemma nonzero_block: "i < length s \<Longrightarrow> length (nonzero (block s i)) \<le> length s - i"
proof -
  assume i: "i < length s"
  have "nonzero (block s i) = nonzero (take 8 (drop i s)) @ nonzero (replicate (min (8 - length (drop i s)) 8) 0)"
    unfolding block_def nonzero_def take_append take_replicate by simp
  then show ?thesis using nonzero_le [of "take 8 (drop i s)"] by (simp add: nonzero_replicate)
qed

lemma run_at_step:
  assumes "run_at s start run i" "run \<noteq> []"
  shows "run_at s start (run @ [block s i]) (i + 8)"
  using assms by (auto simp: run_at_def)

lemma run_at_start: "i + 8 \<le> length s \<Longrightarrow> run_at s (In_Source i) [block s i] (i + 8)"
  by (auto simp: run_at_def)

definition pack_rest :: "byte list \<Rightarrow> nat \<Rightarrow> nat \<Rightarrow> int \<Rightarrow> ff_start \<Rightarrow> nat \<Rightarrow> byte list list \<Rightarrow> byte list \<Rightarrow> (nat \<times> byte list) option" where
  "pack_rest s i p sz start des run buf = Option.bind (pack_loop s i p sz start des (length run) p buf) (pack_finish s)"

definition packs :: "nat \<Rightarrow> byte list \<Rightarrow> byte list \<Rightarrow> (nat \<times> byte list) option \<Rightarrow> bool" where
  "packs cap buf T r \<longleftrightarrow> (\<exists>buf'. r = Some (length T, buf') \<and> length buf' = length buf \<and>
     (length T \<le> cap \<longrightarrow> take (length T) buf' = T))"

lemma packsD: "packs cap buf T r \<Longrightarrow> length buf = length buf0 \<Longrightarrow> T = T0 \<Longrightarrow> packs cap buf0 T0 r"
  by (simp add: packs_def)

lemma pack_rest_step:
  assumes i: "\<not> length s \<le> i"
    and src: "src = (if 0 < i + 8 - length s then drop i s @ replicate (i + 8 - length s) 0 else drop i s)"
    and seg: "pack_seg src p sz (length run) buf = Some (n, buf1)"
  shows "pack_rest s i p sz start des run buf =
    (if n = 10 then pack_rest s (i + 8) (p + n) (sz - int n) (if 0 < i + 8 - length s then In_Tmp src else In_Source i) p [b] buf1
     else if n = 8 \<and> run \<noteq> [] then
       if length run = 255 then Option.bind (flush_ff s (sz - int n) start des 256 buf1)
           (pack_rest s (i + 8) (p + n) (sz - int n) start des [])
       else pack_rest s (i + 8) (p + n) (sz - int n) start des (run @ [b]) buf1
     else if run \<noteq> [] then Option.bind (flush_ff s (sz - int n) start des (length run) buf1)
           (pack_rest s (i + 8) (p + n) (sz - int n) start des [])
     else pack_rest s (i + 8) (p + n) (sz - int n) start des [] buf1)"
  using i unfolding pack_rest_def pack_loop.simps [of s i p] Let_def src [symmetric] seg
  by simp

lemma run_length:
  assumes "run_at s start run i" "run \<noteq> []"
  shows "length (packed_run run) = 2 + 8 * length run"
proof -
  obtain k where "run = map (\<lambda>j. block s (k + 8 * j)) [0..<length run]" using assms by (auto simp: run_at_def)
  then have "concat run = take (8 * length run) (drop k s) @ replicate (8 * length run - length (drop k s)) 0"
    using concat_blocks by metis
  then have "length (concat run) = 8 * length run" by simp
  with assms(2) show ?thesis by (simp add: packed_run_def)
qed

lemma flush_step:
  assumes r: "run_at s start run i" "run \<noteq> []" "i \<le> length s" and cap: "cap \<le> length buf" and sz: "sz = int cap - int q"
    and q: "des + 2 + 8 * length run \<le> q" and E: "length E = des" "q \<le> cap \<Longrightarrow> take des buf = E"
  obtains buf2 where "flush_ff s sz start des (length run) buf = Some buf2" "length buf2 = length buf"
    "q \<le> cap \<Longrightarrow> take (des + 2 + 8 * length run) buf2 = E @ packed_run run"
    "q \<le> cap \<Longrightarrow> drop (des + 2 + 8 * length run) buf2 = drop (des + 2 + 8 * length run) buf"
proof (cases "q \<le> cap")
  case True
  then have fit: "des + 2 + 8 * length run \<le> length buf" using q cap by simp
  have "flush_ff s sz start des (length run) buf = Some (take des buf @ packed_run run @ drop (des + 2 + 8 * length run) buf)"
    using flush_ok [OF r fit] True sz by (simp add: flush_ff_def)
  from that [OF this] show thesis using E fit True run_length [OF r(1,2)] by simp
next
  case False
  with that [of buf] sz show thesis by (simp add: flush_ff_def)
qed

lemma pack_rest_ok:
  assumes safe: "8 dvd length s \<or> length s < 2046" and cap: "cap \<le> length buf" and sz: "sz = int cap - int p"
    and r: "length run < 256" "run_at s start run i" "run = [] \<or> p = des + 2 + 8 * length run"
    and i: "8 dvd i" "i < length s + 8"
    and E: "length E = (if run = [] then p else des)" "p \<le> cap \<Longrightarrow> take (length E) buf = E"
  shows "packs cap buf (E @ packed run (blocks s i)) (pack_rest s i p sz start des run buf)"
  using cap sz r i E
proof (induction "length s + 8 - i" arbitrary: i p sz start des run buf E rule: less_induct)
  case less
  note cap = less.prems(1) and sz = less.prems(2) and r = less.prems(3-5) and i = less.prems(6,7) and E = less.prems(8,9)
  show ?case
  proof (cases "length s \<le> i")
    case True
    with finish_ok [OF r(2) True i(2) r(3) cap sz E] show ?thesis
      by (simp add: pack_rest_def packs_def pack_loop.simps [of s i] blocks.simps [of s i])
  next
    case False
    define b where "b = block s i"
    define n where "n = seg_size (length run) b"
    define src where "src = (if 0 < i + 8 - length s then drop i s @ replicate (i + 8 - length s) 0 else drop i s)"
    have src: "take 8 src = b" "8 \<le> length src" using block_read [of i s] False by (simp_all add: src_def b_def)
    obtain buf1 where seg: "pack_seg src p sz (length run) buf = Some (n, buf1)" "length buf1 = length buf" "take p buf1 = take p buf"
        "\<not> in_run (length run) b \<Longrightarrow> p + n \<le> cap \<Longrightarrow> holds p (packed_block b) buf1"
      using pack_seg_ok [OF src(2) cap sz, of "length run"] src(1) by (auto simp: n_def)
    have bl: "blocks s i = b # blocks s (i + 8)" using False by (simp add: blocks.simps [of s i] b_def)
    have nz: "length (nonzero b) \<le> 8" "length (nonzero b) \<le> length s - i"
      using nonzero_le [of b] nonzero_block [of i s] False by (simp_all add: b_def)
    have next_i: "8 dvd i + 8" "i + 8 < length s + 8" "length s + 8 - (i + 8) < length s + 8 - i" using i False by auto
    have cap1: "cap \<le> length buf1" using cap seg(2) by simp
    have sz1: "sz - int n = int cap - int (p + n)" using sz by simp
    have keep: "take (length E) buf1 = E" if "p + n \<le> cap"
    proof -
      have "length E \<le> p" using E(1) r(3) by (auto split: if_splits)
      then have "take (length E) buf1 = take (length E) buf" using seg(3) by (metis min.absorb1 take_take)
      with E(2) that show ?thesis by simp
    qed
    note loop = pack_rest_step [OF False src_def seg(1), where start = start and des = des and b = b]
    note IH = less.hyps [OF next_i(3) _ sz1 _ _ _ next_i(1,2)]
    show ?thesis
    proof (cases "in_run (length run) b")
      case not_run: False
      then have n: "n = length (nonzero b) + 1" "n \<noteq> 10" "n = 8 \<longrightarrow> run = []"
        using nz by (auto simp: n_def seg_size_def in_run_def)
      have ln: "length (packed_block b) = n" using n by (simp add: packed_block_def)
      show ?thesis
      proof (cases "run = []")
        case True
        have "pack_rest s i p sz start des run buf = pack_rest s (i + 8) (p + n) (sz - int n) start des [] buf1"
          using loop n(2) True by simp
        moreover have "packed run (blocks s i) = packed_block b @ packed [] (blocks s (i + 8))"
          using bl not_run True by (simp add: packed_run_def)
        moreover have "packs cap buf1 ((E @ packed_block b) @ packed [] (blocks s (i + 8)))
            (pack_rest s (i + 8) (p + n) (sz - int n) start des [] buf1)"
        proof (rule IH [OF cap1])
          show "take (length (E @ packed_block b)) buf1 = E @ packed_block b" if "p + n \<le> cap"
            using keep [OF that] seg(4) [OF not_run that] E(1) True by (simp add: holds_def take_add)
        qed (use E(1) True ln in \<open>simp_all add: run_at_def\<close>)
        ultimately show ?thesis by (simp add: packs_def seg(2))
      next
        case run: False
        have p: "p = des + 2 + 8 * length run" using r(3) run by simp
        obtain buf2 where buf2: "flush_ff s (sz - int n) start des (length run) buf1 = Some buf2" "length buf2 = length buf1"
            "p + n \<le> cap \<Longrightarrow> take p buf2 = E @ packed_run run" "p + n \<le> cap \<Longrightarrow> drop p buf2 = drop p buf1"
          using flush_step [OF r(2) run _ cap1 sz1, of des E] False p E(1) run keep by auto
        have "pack_rest s i p sz start des run buf = pack_rest s (i + 8) (p + n) (sz - int n) start des [] buf2"
          using loop n(2,3) run buf2(1) by simp
        moreover have "packed run (blocks s i) = packed_run run @ packed_block b @ packed [] (blocks s (i + 8))"
          using bl not_run by simp
        moreover have "packs cap buf2 ((E @ packed_run run @ packed_block b) @ packed [] (blocks s (i + 8)))
            (pack_rest s (i + 8) (p + n) (sz - int n) start des [] buf2)"
        proof (rule IH)
          have l: "length (E @ packed_run run @ packed_block b) = p + n" using p run_length [OF r(2) run] E(1) run ln by simp
          show "take (length (E @ packed_run run @ packed_block b)) buf2 = E @ packed_run run @ packed_block b" if "p + n \<le> cap"
            using buf2(3,4) [OF that] seg(4) [OF not_run that] unfolding l by (simp add: take_add holds_def ln)
          show "length (E @ packed_run run @ packed_block b) = (if [] = [] then p + n else des)" using l by simp
        qed (use cap1 buf2(2) in \<open>simp_all add: run_at_def\<close>)
        ultimately show ?thesis by (simp add: packs_def seg(2) buf2(2))
      qed
    next
      case in_run: True
      show ?thesis
      proof (cases "run = []")
        case True
        then have n: "n = 10" and full: "i + 8 \<le> length s"
          using in_run nz False by (auto simp: n_def seg_size_def in_run_def)
        have "pack_rest s i p sz start des run buf = pack_rest s (i + 8) (p + n) (sz - int n) (In_Source i) p [b] buf1"
          using loop n full by simp
        moreover have "packed run (blocks s i) = packed [b] (blocks s (i + 8))" using bl in_run True by simp
        moreover have "packs cap buf1 (E @ packed [b] (blocks s (i + 8))) (pack_rest s (i + 8) (p + n) (sz - int n) (In_Source i) p [b] buf1)"
        proof (rule IH [OF cap1])
          show "run_at s (In_Source i) [b] (i + 8)" using run_at_start [OF full] by (simp add: b_def)
        qed (use E(1) True n keep in simp_all)
        ultimately show ?thesis by (simp add: packs_def seg(2))
      next
        case run: False
        then have n: "n = 8" using in_run by (simp add: n_def seg_size_def)
        have p: "p = des + 2 + 8 * length run" using r(3) run by simp
        have at: "run_at s start (run @ [b]) (i + 8)" using run_at_step [OF r(2) run] by (simp add: b_def)
        show ?thesis
        proof (cases "length run = 255")
          case len: False
          have "pack_rest s i p sz start des run buf = pack_rest s (i + 8) (p + n) (sz - int n) start des (run @ [b]) buf1"
            using loop n run len by simp
          moreover have "packed run (blocks s i) = packed (run @ [b]) (blocks s (i + 8))" using bl in_run len by simp
          moreover have "packs cap buf1 (E @ packed (run @ [b]) (blocks s (i + 8))) (pack_rest s (i + 8) (p + n) (sz - int n) start des (run @ [b]) buf1)"
            by (rule IH [OF cap1 _ at]) (use E(1) run n keep p r(1) len in simp_all)
          ultimately show ?thesis by (simp add: packs_def seg(2))
        next
          case full: True
          have i8: "i + 8 \<le> length s"
          proof (rule ccontr)
            assume ns: "\<not> i + 8 \<le> length s"
            then have "\<not> 8 dvd length s" using i(1) False by (auto elim!: dvdE)
            then have "length s < 2046" using safe by simp
            moreover obtain k where "i = k + 8 * length run" using r(2) run by (auto simp: run_at_def)
            moreover have "6 \<le> length (nonzero b)" using in_run by (auto simp: in_run_def)
            ultimately show False using full nz(2) by simp
          qed
          have q: "p + n = des + 2 + 8 * length (run @ [b])" using p n by simp
          obtain buf2 where buf2: "flush_ff s (sz - int n) start des (length (run @ [b])) buf1 = Some buf2" "length buf2 = length buf1"
              "p + n \<le> cap \<Longrightarrow> take (p + n) buf2 = E @ packed_run (run @ [b])"
            using flush_step [OF at _ i8 cap1 sz1, of des E] q E(1) run keep by auto
          have "pack_rest s i p sz start des run buf = pack_rest s (i + 8) (p + n) (sz - int n) start des [] buf2"
            using loop n run full buf2(1) by simp
          moreover have "packed run (blocks s i) = packed_run (run @ [b]) @ packed [] (blocks s (i + 8))"
            using bl in_run full by simp
          moreover have "packs cap buf2 ((E @ packed_run (run @ [b])) @ packed [] (blocks s (i + 8)))
              (pack_rest s (i + 8) (p + n) (sz - int n) start des [] buf2)"
          proof (rule IH)
            have l: "length (E @ packed_run (run @ [b])) = p + n" using q run_length [OF at] E(1) run by simp
            show "take (length (E @ packed_run (run @ [b]))) buf2 = E @ packed_run (run @ [b])" if "p + n \<le> cap"
              using buf2(3) [OF that] unfolding l .
            show "length (E @ packed_run (run @ [b])) = (if [] = [] then p + n else des)" using l by simp
          qed (use cap1 buf2(2) in \<open>simp_all add: run_at_def\<close>)
          ultimately show ?thesis by (simp add: packs_def seg(2) buf2(2))
        qed
      qed
    qed
  qed
qed

text \<open>From the start: the result does not depend on what the buffer held.\<close>

lemma sproto_pack_ok:
  assumes "8 dvd length s \<or> length s < 2046" "cap \<le> length buf"
  shows "packs cap buf (packed [] (blocks s 0)) (sproto_pack s (int cap) buf)"
  using pack_rest_ok [OF assms, of "int cap" 0 "[]" "In_Source 0" 0 0 "[]"]
  by (simp add: run_at_def pack_rest_def sproto_pack_def)

section \<open>The size\<close>

definition block_count :: "nat \<Rightarrow> nat" where
  "block_count n = (n + 255) div 256"

lemma packed_block_le: "length b = 8 \<Longrightarrow> \<not> in_run n b \<Longrightarrow> length (packed_block b) \<le> (if n = 0 then 8 else 6)"
  using nonzero_le [of b] by (auto simp: packed_block_def in_run_def)

lemma length_concat_8: "\<forall>b \<in> set bs. length b = (8 :: nat) \<Longrightarrow> length (concat bs) = 8 * length bs"
  by (induction bs) auto

lemma packed_le:
  "length run < 256 \<Longrightarrow> \<forall>b \<in> set (run @ bs). length b = 8 \<Longrightarrow>
   length (packed run bs) \<le> 8 * (length run + length bs) + 2 * block_count (length run + length bs)"
proof (induction run bs rule: packed.induct)
  case (1 run)
  then show ?case using length_concat_8 [of run] by (cases run) (auto simp: packed_run_def block_count_def)
next
  case (2 run b bs)
  have c: "length (concat run) = 8 * length run" using 2(5) length_concat_8 [of run] by simp
  have bs: "\<forall>b \<in> set bs. length b = 8" and b: "length b = 8" using 2(5) by simp_all
  show ?case
  proof (cases "in_run (length run) b")
    case True
    show ?thesis
    proof (cases "length run + 1 = 256")
      case full: True
      have "length (packed [] bs) \<le> 8 * length bs + 2 * block_count (length bs)" using 2(1) True full bs by simp
      moreover have "block_count (length run + length (b # bs)) = Suc (block_count (length bs))"
        using full by (simp add: block_count_def)
      ultimately show ?thesis using True full c b by (simp add: packed_run_def)
    qed (use True 2 in simp)
  next
    case False
    have "length (packed [] bs) \<le> 8 * length bs + 2 * block_count (length bs)" using 2(3) False bs by simp
    moreover have "length (packed_block b) \<le> (if length run = 0 then 8 else 6)"
      using packed_block_le [OF b False] by simp
    moreover have "block_count (length bs) \<le> block_count (length run + length (b # bs))"
      unfolding block_count_def by (rule div_le_mono) simp
    moreover have "length (packed_run run) \<le> (if length run = 0 then 0 else 2 + 8 * length run)"
      using c by (simp add: packed_run_def)
    ultimately show ?thesis using False by (auto split: if_splits)
  qed
qed

lemma div8_step: "0 < n \<Longrightarrow> (n + 7) div 8 = Suc ((n - 8 + 7) div (8 :: nat))"
  using le_div_geq [of 8 "n + 7"] by (cases "8 \<le> n") simp_all

lemma length_blocks: "length (blocks s i) = (length s - i + 7) div 8"
proof (induction s i rule: blocks.induct)
  case (1 s i)
  show ?case
  proof (cases "length s \<le> i")
    case False
    then show ?thesis using 1 div8_step [of "length s - i"] by (simp add: blocks.simps [of s i])
  qed (simp add: blocks.simps [of s i])
qed

lemma length_in_blocks: "b \<in> set (blocks s i) \<Longrightarrow> length b = 8"
proof (induction s i rule: blocks.induct)
  case (1 s i)
  then show ?case by (cases "length s \<le> i") (auto simp: blocks.simps [of s i])
qed

lemma packed_size:
  "length (packed [] (blocks s 0)) \<le> (length s + 7) div 8 * 8 + (length s + 2047) div 2048 * 2"
proof -
  have "(length s + 2047) div 8 = (length s + 7) div 8 + 255"
    using div_mult_self1 [of 8 "length s + 7" 255] by simp
  then have "((length s + 7) div 8 + 255) div 256 = (length s + 2047) div 2048"
    using div_mult2_eq [of "length s + 2047" 8 256] by simp
  with packed_le [of "[]" "blocks s 0"] length_in_blocks show ?thesis
    by (simp add: length_blocks block_count_def)
qed

section \<open>Unpacking\<close>

lemma bit_bitmap: "k < 8 \<Longrightarrow> bit (bitmap i bs) k \<longleftrightarrow> i \<le> k \<and> k < i + length bs \<and> bs ! (k - i) \<noteq> 0"
proof (induction bs arbitrary: i)
  case (Cons b bs)
  have h: "bit (bitmap i (b # bs)) k \<longleftrightarrow> b \<noteq> 0 \<and> k = i \<or> bit (bitmap (Suc i) bs) k"
    using Cons.prems by (cases "b = 0") (auto simp: bit_or_iff bit_simps)
  consider "k < i" | "k = i" | d where "k = Suc (i + d)" using less_imp_Suc_add by (metis linorder_neqE_nat)
  then show ?case using h Cons.IH [OF Cons.prems, of "Suc i"] by cases auto
qed simp

lemma bits_ok:
  assumes "\<forall>k < length bs. bit h (j + k) \<longleftrightarrow> bs ! k \<noteq> 0" "0 < bufsz \<Longrightarrow> int p + bufsz \<le> int (length buf)"
  shows "unpack_bits [j..<j + length bs] h (nonzero bs @ T) p bufsz buf =
    (let m = min (length bs) (nat bufsz) in
     Some (Some (T, p + m, bufsz - int m, take p buf @ take m bs @ drop (p + m) buf)))"
  using assms
proof (induction bs arbitrary: j p bufsz buf)
  case Nil
  then show ?case by (simp add: nonzero_def)
next
  case (Cons b bs)
  have hb: "bit h j \<longleftrightarrow> b \<noteq> 0" using Cons.prems(1) by force
  have hs: "\<forall>k < length bs. bit h (Suc j + k) \<longleftrightarrow> bs ! k \<noteq> 0" using Cons.prems(1) by force
  have u: "[j..<j + length (b # bs)] = j # [Suc j..<Suc j + length bs]" by (simp add: upt_conv_Cons del: upt_Suc)
  show ?case
  proof (cases "0 < bufsz")
    case True
    let ?m = "min (length bs) (nat (bufsz - 1))"
    have p: "p < length buf" using True Cons.prems(2) by simp
    have m: "min (length (b # bs)) (nat bufsz) = Suc ?m" using True by (auto simp: min_def)
    have "unpack_bits [Suc j..<Suc j + length bs] h (nonzero bs @ T) (Suc p) (bufsz - 1) (buf[p := b]) =
        Some (Some (T, Suc p + ?m, bufsz - 1 - int ?m, take (Suc p) (buf[p := b]) @ take ?m bs @ drop (Suc p + ?m) (buf[p := b])))"
      using Cons.IH [OF hs, of "bufsz - 1" "Suc p" "buf[p := b]"] Cons.prems(2) True by (simp add: Let_def)
    moreover have "take (Suc p) (buf[p := b]) = take p buf @ [b]" using p by (simp add: take_Suc_conv_app_nth)
    ultimately show ?thesis
      using True hb p unfolding u m Let_def by (cases "b = 0") (simp_all add: nonzero_def store_ok)
  next
    case False
    then show ?thesis using Cons.IH [OF hs, of bufsz p buf] hb unfolding u by (cases "b = 0") (simp_all add: nonzero_def)
  qed
qed

definition unpacks :: "byte list \<Rightarrow> byte list \<Rightarrow> bool" where
  "unpacks T D \<longleftrightarrow> (\<forall>p bufsz sz buf. (0 < bufsz \<longrightarrow> int p + bufsz \<le> int (length buf)) \<longrightarrow>
     (\<exists>buf'. unpack_steps T p bufsz sz buf = Some (Some (sz + length D, buf')) \<and> length buf' = length buf \<and>
       take p buf' = take p buf \<and> (int (length D) \<le> bufsz \<longrightarrow> holds p D buf')))"

lemma unpacks_Nil: "unpacks [] []"
  by (simp add: unpacks_def holds_def)

text \<open>What is written at \<open>p\<close> stays when the rest is unpacked behind it.\<close>

lemma holds_append:
  assumes "length buf' = length buf" "take (p + length A) buf' = take (p + length A) buf"
    "holds p A buf" "holds (p + length A) B buf'"
  shows "holds p (A @ B) buf'" "take p buf' = take p buf"
proof -
  have "take (length A) (drop p buf') = take (length A) (drop p buf)"
    using assms(2) by (metis add.commute take_drop)
  with assms(3,4) show "holds p (A @ B) buf'" by (simp add: holds_def take_add add.commute)
  show "take p buf' = take p buf" using assms(2) by (metis min.absorb1 le_add1 take_take)
qed

lemma header_block: "length b = 8 \<Longrightarrow> \<not> in_run n b \<Longrightarrow> bitmap 0 b \<noteq> 0xff"
proof
  assume b: "length b = 8" "\<not> in_run n b" and h: "bitmap 0 b = 0xff"
  have "b ! k \<noteq> 0" if "k < 8" for k
  proof -
    have "bit (0xff :: byte) k"
      using that by (simp add: bit_mask_iff flip: mask_eq_exp_minus_1 [where 'a = byte and n = 8, simplified])
    with h bit_bitmap [OF that, of 0 b] show ?thesis by simp
  qed
  then have "\<forall>x \<in> set b. x \<noteq> 0" using b(1) by (auto simp: in_set_conv_nth)
  then have "nonzero b = b" by (simp add: nonzero_def)
  with b show False by (simp add: in_run_def)
qed

lemma unpacks_block:
  assumes b: "length b = 8" "\<not> in_run n b" and T: "unpacks T D"
  shows "unpacks (packed_block b @ T) (b @ D)"
  unfolding unpacks_def
proof (intro allI impI)
  fix p bufsz sz and buf :: "byte list"
  assume cap: "0 < bufsz \<longrightarrow> int p + bufsz \<le> int (length buf)"
  define m where "m = min 8 (nat bufsz)"
  define buf1 where "buf1 = take p buf @ take m b @ drop (p + m) buf"
  have ub: "unpack_bits [0..<8] (bitmap 0 b) (nonzero b @ T) p bufsz buf = Some (Some (T, p + m, bufsz - int m, buf1))"
    using bits_ok [of b "bitmap 0 b" 0 bufsz p buf T] bit_bitmap [of _ 0 b] b(1) cap by (simp add: Let_def m_def buf1_def)
  have us: "unpack_steps (packed_block b @ T) p bufsz sz buf = unpack_steps T (p + m) (bufsz - int m) (sz + 8) buf1"
    using header_block [OF b] ub by (simp add: packed_block_def)
  have l1: "length buf1 = length buf"
    using cap b(1) by (cases "0 < bufsz") (auto simp: buf1_def m_def)
  have "0 < bufsz - int m \<longrightarrow> int (p + m) + (bufsz - int m) \<le> int (length buf1)" using cap l1 by (auto simp: m_def)
  then obtain buf2 where buf2: "unpack_steps T (p + m) (bufsz - int m) (sz + 8) buf1 = Some (Some (sz + 8 + length D, buf2))"
      "length buf2 = length buf1" "take (p + m) buf2 = take (p + m) buf1"
      "int (length D) \<le> bufsz - int m \<longrightarrow> holds (p + m) D buf2"
    using T unfolding unpacks_def by blast
  have "take p buf2 = take p buf1" using buf2(3) by (metis min.absorb1 le_add1 take_take)
  also have "take p buf1 = take p buf" by (cases "p \<le> length buf") (use cap in \<open>auto simp: buf1_def m_def\<close>)
  finally have "take p buf2 = take p buf" .
  moreover have "holds p (b @ D) buf2" if "int (length (b @ D)) \<le> bufsz"
  proof (rule holds_append(1))
    have "m = 8" "p + 8 \<le> length buf" using that cap b(1) by (simp_all add: m_def)
    then show "take (p + length b) buf2 = take (p + length b) buf1" "holds p b buf1" "holds (p + length b) D buf2"
      using buf2 that b(1) by (auto simp: holds_def buf1_def)
  qed (rule buf2(2))
  ultimately show "\<exists>buf'. unpack_steps (packed_block b @ T) p bufsz sz buf = Some (Some (sz + length (b @ D), buf')) \<and>
      length buf' = length buf \<and> take p buf' = take p buf \<and> (int (length (b @ D)) \<le> bufsz \<longrightarrow> holds p (b @ D) buf')"
    using us buf2(1,2) l1 b(1) by simp
qed

lemma unpacks_run:
  assumes run: "length run \<le> 256" "\<forall>b \<in> set run. length b = 8" and T: "unpacks T D"
  shows "unpacks (packed_run run @ T) (concat run @ D)"
proof (cases "run = []")
  case True
  with T show ?thesis by (simp add: packed_run_def)
next
  case False
  define n where "n = 8 * length run"
  have len: "length (concat run) = n" using run(2) length_concat_8 by (simp add: n_def)
  have c: "(unat (of_nat (length run - 1) :: byte) + 1) * 8 = n"
    using run(1) False by (simp add: n_def unat_of_nat)
  show ?thesis
    unfolding unpacks_def
  proof (intro allI impI)
    fix p bufsz sz and buf :: "byte list"
    assume cap: "0 < bufsz \<longrightarrow> int p + bufsz \<le> int (length buf)"
    define buf1 where "buf1 = (if int n \<le> bufsz then take p buf @ concat run @ drop (p + n) buf else buf)"
    have n0: "0 < n" using False by (simp add: n_def)
    have st: "(if int n \<le> bufsz then store_all p (concat run) buf else Some buf) = Some buf1"
    proof (cases "int n \<le> bufsz")
      case True
      then have "p + n \<le> length buf" using cap n0 by simp
      with True store_all_ok [of p "concat run" buf] len show ?thesis by (simp add: buf1_def)
    qed (simp add: buf1_def)
    have us: "unpack_steps (packed_run run @ T) p bufsz sz buf = unpack_steps T (p + n) (bufsz - int n) (sz + n) buf1"
      using st c len False by (simp add: packed_run_def split: if_splits)
    have l1: "length buf1 = length buf" using cap len n0 by (auto simp: buf1_def)
    have "0 < bufsz - int n \<longrightarrow> int (p + n) + (bufsz - int n) \<le> int (length buf1)" using cap l1 by auto
    then obtain buf2 where buf2: "unpack_steps T (p + n) (bufsz - int n) (sz + n) buf1 = Some (Some (sz + n + length D, buf2))"
        "length buf2 = length buf1" "take (p + n) buf2 = take (p + n) buf1"
        "int (length D) \<le> bufsz - int n \<longrightarrow> holds (p + n) D buf2"
      using T unfolding unpacks_def by blast
    have "take p buf2 = take p buf1" using buf2(3) by (metis min.absorb1 le_add1 take_take)
    also have "take p buf1 = take p buf" by (cases "p \<le> length buf") (use cap n0 in \<open>auto simp: buf1_def\<close>)
    finally have "take p buf2 = take p buf" .
    moreover have "holds p (concat run @ D) buf2" if "int (length (concat run @ D)) \<le> bufsz"
    proof (rule holds_append(1))
      have "int n \<le> bufsz" "p + n \<le> length buf" using that cap len n0 by simp_all
      then show "take (p + length (concat run)) buf2 = take (p + length (concat run)) buf1"
          "holds p (concat run) buf1" "holds (p + length (concat run)) D buf2"
        using buf2 that len by (auto simp: holds_def buf1_def)
    qed (rule buf2(2))
    ultimately show "\<exists>buf'. unpack_steps (packed_run run @ T) p bufsz sz buf = Some (Some (sz + length (concat run @ D), buf')) \<and>
        length buf' = length buf \<and> take p buf' = take p buf \<and>
        (int (length (concat run @ D)) \<le> bufsz \<longrightarrow> holds p (concat run @ D) buf')"
      using us buf2(1,2) l1 len by simp
  qed
qed

lemma unpacks_packed:
  "length run < 256 \<Longrightarrow> \<forall>b \<in> set (run @ bs). length b = 8 \<Longrightarrow> unpacks (packed run bs) (concat (run @ bs))"
proof (induction run bs rule: packed.induct)
  case (1 run)
  then show ?case using unpacks_run [of run "[]" "[]"] unpacks_Nil by simp
next
  case (2 run b bs)
  show ?case
  proof (cases "in_run (length run) b")
    case True
    show ?thesis
    proof (cases "length run + 1 = 256")
      case full: True
      then have "unpacks (packed [] bs) (concat bs)" using 2 True by simp
      from unpacks_run [OF _ _ this, of "run @ [b]"] show ?thesis using True full 2(5) by simp
    qed (use True 2 in simp)
  next
    case False
    then have "unpacks (packed [] bs) (concat bs)" using 2 by simp
    from unpacks_block [OF _ False this] unpacks_run [of run "packed_block b @ packed [] bs" "b @ concat bs"] 2(4,5) False
    show ?thesis by simp
  qed
qed

lemma div8_up: "n \<le> 8 * ((n + 7) div (8 :: nat))"
  by linarith

lemma concat_blocks_0: "concat (blocks s i) = drop i s @ replicate ((length s - i + 7) div 8 * 8 - (length s - i)) 0"
proof -
  have "blocks s i = map (\<lambda>j. block s (i + 8 * j)) [0..<length (blocks s i)]"
  proof (induction s i rule: blocks.induct)
    case (1 s i)
    show ?case
    proof (cases "length s \<le> i")
      case False
      then have "blocks s i = block s i # blocks s (i + 8)" by (simp add: blocks.simps [of s i])
      moreover have "map (\<lambda>j. block s (i + 8 * j)) [0..<Suc n] = block s i # map (\<lambda>j. block s (i + 8 + 8 * j)) [0..<n]" for n
        by (simp add: upt_conv_Cons map_Suc_upt [symmetric] ac_simps del: upt_Suc)
      ultimately show ?thesis using 1 [OF False] by simp
    qed (simp add: blocks.simps [of s i])
  qed
  then have "concat (blocks s i) = take (8 * length (blocks s i)) (drop i s) @
      replicate (8 * length (blocks s i) - length (drop i s)) 0"
    using concat_blocks by metis
  with div8_up [of "length s - i"] show ?thesis by (simp add: length_blocks mult.commute)
qed

section \<open>The Lua functions\<close>

text \<open>The source filled up with zeros to a multiple of 8.\<close>

definition filled_up :: "byte list \<Rightarrow> byte list" where
  "filled_up s = s @ replicate ((length s + 7) div 8 * 8 - length s) 0"

lemma blocks_filled_up: "concat (blocks s 0) = filled_up s"
  using concat_blocks_0 [of s 0] by (simp add: filled_up_def)

lemma double_until_ok:
  "0 < osz \<Longrightarrow> osz \<le> nsz \<Longrightarrow> \<exists>r. double_until osz nsz = Some r \<and> nsz \<le> r \<and> r \<le> 2 * nsz"
proof (induction osz nsz rule: double_until.induct)
  case (1 osz nsz)
  then show ?case by (cases "osz * 2 < nsz") (auto simp: double_until.simps [of osz])
qed

lemma expand_buffer_ok:
  assumes "0 < osz" "osz \<le> nsz" "2 * nsz \<le> ENCODE_MAXSIZE"
  shows "\<exists>out. expand_buffer osz nsz = Some (Inr out) \<and> nsz \<le> length out"
  using double_until_ok [OF assms(1,2)] assms(3) by (auto simp: expand_buffer_def)

lemma lpack_result:
  assumes s: "8 dvd length s \<or> length s < 2046" and out: "0 < length output" "2 * pack_maxsz (length s) \<le> ENCODE_MAXSIZE"
  shows "sproto_lpack output s = (let T = packed [] (blocks s 0) in
    Some (if pack_maxsz (length s) < length T then Inl (Packing_Error (length T)) else Inr T))"
proof -
  obtain out1 where o1: "(if length output < pack_maxsz (length s) then expand_buffer (length output) (pack_maxsz (length s))
      else Some (Inr output)) = Some (Inr out1)" "pack_maxsz (length s) \<le> length out1"
    using expand_buffer_ok [OF out(1) _ out(2)] by (cases "length output < pack_maxsz (length s)") auto
  from sproto_pack_ok [OF s o1(2)] obtain out2 where
    "sproto_pack s (int (pack_maxsz (length s))) out1 = Some (length (packed [] (blocks s 0)), out2)"
    "length (packed [] (blocks s 0)) \<le> pack_maxsz (length s) \<longrightarrow> take (length (packed [] (blocks s 0))) out2 = packed [] (blocks s 0)"
    by (auto simp: packs_def)
  with o1(1) show ?thesis by (simp add: sproto_lpack_def Let_def)
qed

lemma sproto_unpack_result:
  assumes "cap \<le> length buf"
  shows "\<exists>buf'. sproto_unpack (packed [] (blocks s 0)) (int cap) buf = Some (Some (length (filled_up s), buf')) \<and>
    (length (filled_up s) \<le> cap \<longrightarrow> take (length (filled_up s)) buf' = filled_up s)"
proof -
  have "unpacks (packed [] (blocks s 0)) (filled_up s)"
    using unpacks_packed [of "[]" "blocks s 0"] length_in_blocks by (simp add: blocks_filled_up)
  moreover have "0 < int cap \<longrightarrow> int 0 + int cap \<le> int (length buf)" using assms by simp
  ultimately obtain buf' where "unpack_steps (packed [] (blocks s 0)) 0 (int cap) 0 buf = Some (Some (0 + length (filled_up s), buf'))"
      "int (length (filled_up s)) \<le> int cap \<longrightarrow> holds 0 (filled_up s) buf'"
    unfolding unpacks_def by blast
  then show ?thesis by (simp add: sproto_unpack_def holds_def)
qed

lemma lunpack_result:
  assumes "0 < length output" "2 * length (filled_up s) \<le> ENCODE_MAXSIZE"
  shows "sproto_lunpack output (packed [] (blocks s 0)) = Some (Inr (filled_up s))"
proof (cases "length output < length (filled_up s)")
  case True
  obtain out where "expand_buffer (length output) (length (filled_up s)) = Some (Inr out)" "length (filled_up s) \<le> length out"
    using expand_buffer_ok [OF assms(1) _ assms(2)] True by auto
  with True sproto_unpack_result [of "length output" "output" s] sproto_unpack_result [of "length (filled_up s)" out s]
  show ?thesis by (auto simp: sproto_lunpack_def)
next
  case False
  with sproto_unpack_result [of "length output" "output" s] show ?thesis by (auto simp: sproto_lunpack_def)
qed

section \<open>Properties\<close>


text \<open>C36. Packing a text of whole blocks always gives a result, whose size is at most the bound computed
  from the text's length (two bytes for each 2048 bytes), so the error is not reached.\<close>

theorem pack_within_bound:
  assumes "8 dvd length s" "0 < length output" "2 * pack_maxsz (length s) \<le> ENCODE_MAXSIZE"
  shows "\<exists>t. sproto_lpack output s = Some (Inr t) \<and> length t \<le> pack_maxsz (length s)"
proof -
  have "(length s + 7) div 8 * 8 = length s" using assms(1) by (auto elim!: dvdE)
  then have "length (packed [] (blocks s 0)) \<le> pack_maxsz (length s)"
    using packed_size [of s] by (simp add: pack_maxsz_def)
  with lpack_result [OF _ assms(2,3)] assms(1) show ?thesis by simp
qed


lemma pack_within_bound_witness:
  "\<exists>t. sproto_lpack (replicate 4 0) (replicate 16 7) = Some (Inr t) \<and> length t \<le> pack_maxsz 16"
  using pack_within_bound [of "replicate 16 7" "replicate 4 0"] by (simp add: pack_maxsz_def ENCODE_MAXSIZE_def)

text \<open>Without whole blocks the bound is too small: 15 bytes other than 0 are packed as a run of two
  blocks with its two header bytes, 18 bytes where 17 are allowed.\<close>

lemma pack_bound_exceeded: "sproto_lpack (replicate 40 0) (replicate 15 7) = Some (Inl (Packing_Error 18))"
  by code_simp

text \<open>The end of a truncated packed text is not seen: unpacking reads behind it.\<close>

lemma unpack_reads_past_end: "sproto_lunpack (replicate 40 0) [1] = None" "sproto_lunpack (replicate 40 0) [0xff] = None"
  by code_simp+

end
