(* ===== verification/Socket_Buffer.thy ===== *)
theory Socket_Buffer
  imports C_Library "HOL-Library.Monad_Syntax"
begin

text \<open>
  The receive buffers of Lua sockets (\<open>lualib-src/mtask_lua_socket.c\<close>): a buffer is a chain of
  nodes, each with a message block, and all buffers of a Lua state take their nodes from one
  pool. A node is named by its number in the pool, in the order in which the chunks were made;
  \<open>None\<close> as a pointer is \<open>NULL\<close>, and \<open>None\<close> as a result is a crash (a pointer that is not to a node, a read
  outside a block, a failed assertion) or a loop that does not end.
\<close>

section \<open>Nodes, buffers and the pool\<close>

definition LARGE_PAGE_NODE :: nat where "LARGE_PAGE_NODE = 12"

record buffer_node =
  bn_msg :: "byte list option"
  bn_sz :: int
  bn_next :: "nat option"

record socket_buffer =
  sb_size :: int
  sb_offset :: int
  sb_head :: "nat option"
  sb_tail :: "nat option"

text \<open>The pool table: its length, the free node at index 1, and the chunks behind it.\<close>

record buffer_pool =
  bp_length :: nat
  bp_free :: "nat option"
  bp_nodes :: "buffer_node list"

definition node_at :: "buffer_pool \<Rightarrow> nat option \<Rightarrow> buffer_node option" where
  "node_at P p = (case p of None \<Rightarrow> None | Some a \<Rightarrow> if a < length (bp_nodes P) then Some (bp_nodes P ! a) else None)"

definition put_node :: "buffer_pool \<Rightarrow> nat option \<Rightarrow> buffer_node \<Rightarrow> buffer_pool option" where
  "put_node P p n =
     (case p of
        None \<Rightarrow> None
      | Some a \<Rightarrow> if a < length (bp_nodes P) then Some (P\<lparr>bp_nodes := (bp_nodes P)[a := n]\<rparr>) else None)"

text \<open>\<open>n\<close> bytes of the block of a node from \<open>from\<close> on.\<close>

definition bytes_at :: "buffer_node \<Rightarrow> int \<Rightarrow> int \<Rightarrow> byte list option" where
  "bytes_at node from n =
     (case bn_msg node of
        None \<Rightarrow> None
      | Some msg \<Rightarrow>
          if 0 \<le> from \<and> 0 \<le> n \<and> from + n \<le> int (length msg) then Some (take (nat n) (drop (nat from) msg)) else None)"

definition lnewpool :: "nat \<Rightarrow> nat \<Rightarrow> buffer_node list" where
  "lnewpool base sz =
     map (\<lambda>i. \<lparr>bn_msg = None, bn_sz = 0, bn_next = (if i = sz - 1 then None else Some (base + i + 1))\<rparr>) [0..<sz]"

definition lfreepool :: "buffer_pool \<Rightarrow> buffer_pool" where
  "lfreepool P = P\<lparr>bp_nodes := map (\<lambda>n. n\<lparr>bn_msg := None\<rparr>) (bp_nodes P)\<rparr>"

definition lnewbuffer :: socket_buffer where
  "lnewbuffer = \<lparr>sb_size = 0, sb_offset = 0, sb_head = None, sb_tail = None\<rparr>"

definition blank_pool :: buffer_pool where
  "blank_pool = \<lparr>bp_length = 0, bp_free = None, bp_nodes = []\<rparr>"

section \<open>Adding a block\<close>

text \<open>A free node is taken from the pool, which gets a new chunk when it has none.\<close>

definition expand_pool :: "buffer_pool \<Rightarrow> buffer_pool" where
  "expand_pool P =
     (let tsz = (if bp_length P = 0 then 1 else bp_length P);
          size = (if tsz \<le> LARGE_PAGE_NODE - 3 then 8 * 2 ^ tsz else 8 * 2 ^ (LARGE_PAGE_NODE - 3));
          base = length (bp_nodes P)
      in P\<lparr>bp_length := tsz + 1, bp_free := Some base, bp_nodes := bp_nodes P @ lnewpool base size\<rparr>)"

definition lpushbuffer :: "socket_buffer \<Rightarrow> buffer_pool \<Rightarrow> byte list \<Rightarrow> int \<Rightarrow> (int \<times> socket_buffer \<times> buffer_pool) option" where
  "lpushbuffer sb P msg sz = do {
     let P1 = (if bp_free P = None then expand_pool P else P);
     let free_node = bp_free P1;
     node \<leftarrow> node_at P1 free_node;
     P2 \<leftarrow> put_node (P1\<lparr>bp_free := bn_next node\<rparr>) free_node \<lparr>bn_msg = Some msg, bn_sz = sz, bn_next = None\<rparr>;
     (sb1, P3) \<leftarrow>
       (if sb_head sb = None then
          if sb_tail sb = None then Some (sb\<lparr>sb_head := free_node, sb_tail := free_node\<rparr>, P2) else None
        else do {
          last \<leftarrow> node_at P2 (sb_tail sb);
          P3 \<leftarrow> put_node P2 (sb_tail sb) (last\<lparr>bn_next := free_node\<rparr>);
          Some (sb\<lparr>sb_tail := free_node\<rparr>, P3)
        });
     let sb2 = sb1\<lparr>sb_size := sb_size sb1 + sz\<rparr>;
     Some (sb_size sb2, sb2, P3)
   }"

section \<open>Taking bytes\<close>

definition return_free_node :: "buffer_pool \<Rightarrow> socket_buffer \<Rightarrow> (buffer_pool \<times> socket_buffer) option" where
  "return_free_node P sb = do {
     let free_node = sb_head sb;
     node \<leftarrow> node_at P free_node;
     let sb1 = sb\<lparr>sb_offset := 0, sb_head := bn_next node\<rparr>;
     let sb2 = (if sb_head sb1 = None then sb1\<lparr>sb_tail := None\<rparr> else sb1);
     P1 \<leftarrow> put_node P free_node \<lparr>bn_msg = None, bn_sz = 0, bn_next = bp_free P\<rparr>;
     Some (P1\<lparr>bp_free := free_node\<rparr>, sb2)
   }"

text \<open>The loop of \<open>pop_lstring\<close> with the text collected so far. The assertion on \<open>current\<close> is the crash of \<open>node_at\<close>.\<close>

partial_function (option) pop_loop ::
    "buffer_pool \<Rightarrow> socket_buffer \<Rightarrow> int \<Rightarrow> int \<Rightarrow> byte list \<Rightarrow> (byte list \<times> buffer_pool \<times> socket_buffer) option" where
  "pop_loop P sb sz skip acc = do {
     current \<leftarrow> node_at P (sb_head sb);
     let bytes = bn_sz current - sb_offset sb;
     if sz \<le> bytes then do {
       acc1 \<leftarrow> (if skip < sz then map_option ((@) acc) (bytes_at current (sb_offset sb) (sz - skip)) else Some acc);
       let sb1 = sb\<lparr>sb_offset := sb_offset sb + sz\<rparr>;
       (P1, sb2) \<leftarrow> (if bytes = sz then return_free_node P sb1 else Some (P, sb1));
       Some (acc1, P1, sb2)
     }
     else do {
       let real_sz = sz - skip;
       acc1 \<leftarrow> (if 0 < real_sz then map_option ((@) acc) (bytes_at current (sb_offset sb) (min real_sz bytes)) else Some acc);
       (P1, sb1) \<leftarrow> return_free_node P sb;
       if sz - bytes = 0 then Some (acc1, P1, sb1) else pop_loop P1 sb1 (sz - bytes) skip acc1
     }
   }"

definition pop_lstring :: "buffer_pool \<Rightarrow> socket_buffer \<Rightarrow> int \<Rightarrow> int \<Rightarrow> (byte list \<times> buffer_pool \<times> socket_buffer) option" where
  "pop_lstring P sb sz skip = do {
     current \<leftarrow> node_at P (sb_head sb);
     if sz < bn_sz current - sb_offset sb then do {
       s \<leftarrow> bytes_at current (sb_offset sb) (sz - skip);
       Some (s, P, sb\<lparr>sb_offset := sb_offset sb + sz\<rparr>)
     }
     else if sz = bn_sz current - sb_offset sb then do {
       s \<leftarrow> bytes_at current (sb_offset sb) (sz - skip);
       (P1, sb1) \<leftarrow> return_free_node P sb;
       Some (s, P1, sb1)
     }
     else pop_loop P sb sz skip []
   }"

definition lpopbuffer :: "socket_buffer \<Rightarrow> buffer_pool \<Rightarrow> int \<Rightarrow> ((byte list option \<times> int) \<times> socket_buffer \<times> buffer_pool) option" where
  "lpopbuffer sb P sz =
     (if sb_size sb < sz \<or> sz = 0 then Some ((None, sb_size sb), sb, P)
      else do {
        (s, P1, sb1) \<leftarrow> pop_lstring P sb sz 0;
        let sb2 = sb1\<lparr>sb_size := sb_size sb1 - sz\<rparr>;
        Some ((Some s, sb_size sb2), sb2, P1)
      })"

partial_function (option) clear_loop :: "buffer_pool \<Rightarrow> socket_buffer \<Rightarrow> (buffer_pool \<times> socket_buffer) option" where
  "clear_loop P sb =
     (if sb_head sb = None then Some (P, sb)
      else do { (P1, sb1) \<leftarrow> return_free_node P sb; clear_loop P1 sb1 })"

definition lclearbuffer :: "socket_buffer \<Rightarrow> buffer_pool \<Rightarrow> (socket_buffer \<times> buffer_pool) option" where
  "lclearbuffer sb P = do { (P1, sb1) \<leftarrow> clear_loop P sb; Some (sb1\<lparr>sb_size := 0\<rparr>, P1) }"

partial_function (option) readall_loop :: "buffer_pool \<Rightarrow> socket_buffer \<Rightarrow> byte list \<Rightarrow> (byte list \<times> buffer_pool \<times> socket_buffer) option" where
  "readall_loop P sb acc =
     (if sb_head sb = None then Some (acc, P, sb)
      else do {
        current \<leftarrow> node_at P (sb_head sb);
        s \<leftarrow> bytes_at current (sb_offset sb) (bn_sz current - sb_offset sb);
        (P1, sb1) \<leftarrow> return_free_node P sb;
        readall_loop P1 sb1 (acc @ s)
      })"

definition lreadall :: "socket_buffer \<Rightarrow> buffer_pool \<Rightarrow> (byte list \<times> socket_buffer \<times> buffer_pool) option" where
  "lreadall sb P = do { (s, P1, sb1) \<leftarrow> readall_loop P sb []; Some (s, sb1\<lparr>sb_size := 0\<rparr>, P1) }"

section \<open>Lines\<close>

text \<open>The separator is matched at a position of a node, over the end of the node when it is longer.\<close>

partial_function (option) check_sep :: "buffer_pool \<Rightarrow> nat option \<Rightarrow> int \<Rightarrow> byte list \<Rightarrow> bool option" where
  "check_sep P p from sep = do {
     node \<leftarrow> node_at P p;
     let sz = bn_sz node - from;
     if int (length sep) \<le> sz then do {
       s \<leftarrow> bytes_at node from (int (length sep));
       Some (s = sep)
     }
     else if 0 < sz then do {
       s \<leftarrow> bytes_at node from sz;
       if s \<noteq> take (nat sz) sep then Some False else check_sep P (bn_next node) 0 (drop (nat sz) sep)
     }
     else if sz = 0 then check_sep P (bn_next node) 0 sep
     else None
   }"

text \<open>The search for the separator gives its position. \<open>bytes\<close> counts down to the end of the node.\<close>

function line_loop :: "buffer_pool \<Rightarrow> int \<Rightarrow> byte list \<Rightarrow> int \<Rightarrow> nat option \<Rightarrow> int \<Rightarrow> int \<Rightarrow> int option option" where
  "line_loop P len sep i current from bytes =
     (if len - int (length sep) < i then Some None
      else do {
        found \<leftarrow> check_sep P current from sep;
        if found then Some (Some i)
        else if bytes - 1 \<noteq> 0 then line_loop P len sep (i + 1) current (from + 1) (bytes - 1)
        else do {
          node \<leftarrow> node_at P current;
          if bn_next node = None then Some None
          else do {
            node1 \<leftarrow> node_at P (bn_next node);
            line_loop P len sep (i + 1) (bn_next node) 0 (bn_sz node1)
          }
        }
      })"
  by pat_completeness auto
termination by (relation "measure (\<lambda>(P, len, sep, i, _). nat (len - int (length sep) + 1 - i))") auto

declare line_loop.simps [simp del]

datatype line_result = No_Line | Line_Found | Line "byte list"

definition lreadline :: "socket_buffer \<Rightarrow> buffer_pool \<Rightarrow> bool \<Rightarrow> byte list \<Rightarrow> (line_result \<times> socket_buffer \<times> buffer_pool) option" where
  "lreadline sb P check sep =
     (if sb_head sb = None then Some (No_Line, sb, P)
      else do {
        current \<leftarrow> node_at P (sb_head sb);
        r \<leftarrow> line_loop P (sb_size sb) sep 0 (sb_head sb) (sb_offset sb) (bn_sz current - sb_offset sb);
        (case r of
           None \<Rightarrow> Some (No_Line, sb, P)
         | Some i \<Rightarrow>
             if check then Some (Line_Found, sb, P)
             else do {
               (s, P1, sb1) \<leftarrow> pop_lstring P sb (i + int (length sep)) (int (length sep));
               Some (Line s, sb1\<lparr>sb_size := sb_size sb1 - (i + int (length sep))\<rparr>, P1)
             })
      })"

declare pop_loop.simps [code] clear_loop.simps [code] readall_loop.simps [code] check_sep.simps [code]

section \<open>The length before a package\<close>

definition lheader :: "byte list \<Rightarrow> nat option" where
  "lheader s = (if 4 < length s \<or> length s < 1 then None else Some (foldl (\<lambda>sz c. sz * 256 + unat c) 0 s))"

end
