(* ===== verification/Socket_Buffer_Queue.thy ===== *)
theory Socket_Buffer_Queue
  imports Socket_Buffer Framing
begin

text \<open>
  The receive buffers of Lua sockets are byte queues: whatever the blocks they are made of, a read
  gives the next bytes, a line ends at the first separator, and the nodes of the pool are each
  free or in one buffer.
\<close>

section \<open>Chains of nodes\<close>

fun node_path :: "buffer_node list \<Rightarrow> nat option \<Rightarrow> nat list \<Rightarrow> bool" where
  "node_path m p [] \<longleftrightarrow> p = None"
| "node_path m p (a # as) \<longleftrightarrow> p = Some a \<and> a < length m \<and> node_path m (bn_next (m ! a)) as"

definition holds_block :: "buffer_node \<Rightarrow> byte list \<Rightarrow> bool" where
  "holds_block n msg \<longleftrightarrow> bn_msg n = Some msg \<and> bn_sz n = int (length msg) \<and> msg \<noteq> []"

definition chain_ok :: "buffer_node list \<Rightarrow> socket_buffer \<Rightarrow> nat list \<Rightarrow> byte list list \<Rightarrow> bool" where
  "chain_ok m sb ns msgs \<longleftrightarrow> node_path m (sb_head sb) ns \<and> sb_tail sb = (if ns = [] then None else Some (last ns)) \<and>
     list_all2 (\<lambda>a msg. holds_block (m ! a) msg) ns msgs"

definition free_ok :: "buffer_pool \<Rightarrow> nat list \<Rightarrow> bool" where
  "free_ok P fs \<longleftrightarrow> node_path (bp_nodes P) (bp_free P) fs \<and> (\<forall>a \<in> set fs. bn_msg (bp_nodes P ! a) = None)"

definition buffer_owns :: "buffer_pool \<Rightarrow> socket_buffer \<Rightarrow> nat list \<Rightarrow> byte list list \<Rightarrow> nat list \<Rightarrow> bool" where
  "buffer_owns P sb ns msgs fs \<longleftrightarrow> chain_ok (bp_nodes P) sb ns msgs \<and> free_ok P fs \<and> distinct (ns @ fs)"

text \<open>The offset is in the first block.\<close>

definition offset_ok :: "socket_buffer \<Rightarrow> byte list list \<Rightarrow> bool" where
  "offset_ok sb msgs \<longleftrightarrow> 0 \<le> sb_offset sb \<and>
     (case msgs of [] \<Rightarrow> sb_offset sb = 0 | msg # _ \<Rightarrow> sb_offset sb < int (length msg))"

definition held_bytes :: "socket_buffer \<Rightarrow> byte list list \<Rightarrow> byte list" where
  "held_bytes sb msgs = drop (nat (sb_offset sb)) (concat msgs)"

text \<open>Only nodes of \<open>R\<close> and new ones differ.\<close>

definition only_in :: "nat set \<Rightarrow> buffer_node list \<Rightarrow> buffer_node list \<Rightarrow> bool" where
  "only_in R m m' \<longleftrightarrow> length m \<le> length m' \<and> (\<forall>a < length m. a \<notin> R \<longrightarrow> m' ! a = m ! a)"

lemma only_in_refl [simp]: "only_in R m m"
  by (simp add: only_in_def)

lemma only_in_trans: "only_in R m m' \<Longrightarrow> only_in R m' m'' \<Longrightarrow> only_in R m m''"
  by (simp add: only_in_def)

lemma only_in_mono: "only_in R m m' \<Longrightarrow> R \<subseteq> S \<Longrightarrow> only_in S m m'"
  by (auto simp: only_in_def)

lemma only_in_update: "a \<in> R \<Longrightarrow> only_in R m (m[a := n])"
  unfolding only_in_def by (metis length_list_update nth_list_update_neq order_refl)

lemma path_bound: "node_path m p ns \<Longrightarrow> a \<in> set ns \<Longrightarrow> a < length m"
  by (induction m p ns rule: node_path.induct) auto

lemma path_cong:
  "node_path m p ns \<Longrightarrow> length m \<le> length m' \<Longrightarrow> \<forall>a \<in> set ns. bn_next (m' ! a) = bn_next (m ! a) \<Longrightarrow> node_path m' p ns"
  by (induction m p ns rule: node_path.induct) auto

lemma path_only_in: "node_path m p ns \<Longrightarrow> only_in R m m' \<Longrightarrow> set ns \<inter> R = {} \<Longrightarrow> node_path m' p ns"
  by (rule path_cong) (auto simp: only_in_def dest: path_bound)

lemma chain_only_in:
  assumes "chain_ok m sb ns msgs" "only_in R m m'" "set ns \<inter> R = {}"
  shows "chain_ok m' sb ns msgs"
proof -
  have p: "node_path m (sb_head sb) ns" and l: "list_all2 (\<lambda>a msg. holds_block (m ! a) msg) ns msgs"
    using assms(1) by (simp_all add: chain_ok_def)
  have "m' ! a = m ! a" if "a \<in> set ns" for a
    using assms(2,3) that path_bound [OF p that] by (auto simp: only_in_def)
  with l have "list_all2 (\<lambda>a msg. holds_block (m' ! a) msg) ns msgs" by (auto elim!: list.rel_mono_strong)
  with assms(1) path_only_in [OF p assms(2,3)] show ?thesis by (simp add: chain_ok_def)
qed

lemma free_only_in:
  assumes "free_ok P fs" "only_in R (bp_nodes P) (bp_nodes P')" "set fs \<inter> R = {}" "bp_free P' = bp_free P"
  shows "free_ok P' fs"
proof -
  have "bp_nodes P' ! a = bp_nodes P ! a" if "a \<in> set fs" for a
    using assms that path_bound [of "bp_nodes P" "bp_free P" fs] by (fastforce simp: free_ok_def only_in_def)
  with assms path_only_in show ?thesis by (auto simp: free_ok_def)
qed

lemma node_at_simps [simp]: "a < length (bp_nodes P) \<Longrightarrow> node_at P (Some a) = Some (bp_nodes P ! a)"
  "a < length (bp_nodes P) \<Longrightarrow> put_node P (Some a) n = Some (P\<lparr>bp_nodes := (bp_nodes P)[a := n]\<rparr>)"
  by (simp_all add: node_at_def put_node_def)

lemma owns_Cons: "buffer_owns P sb (a # ns) msgs fs \<Longrightarrow>
    sb_head sb = Some a \<and> a < length (bp_nodes P) \<and> (\<exists>msg ms. msgs = msg # ms \<and> holds_block (bp_nodes P ! a) msg)"
  by (auto simp: buffer_owns_def chain_ok_def list_all2_Cons1)

lemma owns_head: "buffer_owns P sb ns msgs fs \<Longrightarrow> sb_head sb = None \<longleftrightarrow> ns = []"
  "buffer_owns P sb ns msgs fs \<Longrightarrow> ns = [] \<longleftrightarrow> msgs = []"
  by (cases ns; auto simp: buffer_owns_def chain_ok_def)+

section \<open>Returning a node\<close>

definition moved :: "buffer_pool \<Rightarrow> nat list \<Rightarrow> nat list \<Rightarrow> buffer_pool \<Rightarrow> nat list \<Rightarrow> nat list \<Rightarrow> bool" where
  "moved P ns fs P' ns' fs' \<longleftrightarrow> only_in (set ns \<union> set fs) (bp_nodes P) (bp_nodes P') \<and>
     set ns' \<union> set fs' = set ns \<union> set fs \<union> {length (bp_nodes P)..<length (bp_nodes P')}"

lemma moved_refl [simp]: "moved P ns fs P ns fs"
  by (simp add: moved_def)

lemma moved_trans:
  assumes "moved P ns fs P1 ns1 fs1" "moved P1 ns1 fs1 P2 ns2 fs2"
  shows "moved P ns fs P2 ns2 fs2"
proof -
  let ?m = "bp_nodes P" and ?m1 = "bp_nodes P1" and ?m2 = "bp_nodes P2"
  have l: "length ?m \<le> length ?m1" "length ?m1 \<le> length ?m2" using assms by (simp_all add: moved_def only_in_def)
  have s: "set ns1 \<union> set fs1 = set ns \<union> set fs \<union> {length ?m..<length ?m1}"
      "set ns2 \<union> set fs2 = set ns1 \<union> set fs1 \<union> {length ?m1..<length ?m2}"
    using assms by (simp_all add: moved_def)
  have "?m2 ! a = ?m ! a" if "a < length ?m" "a \<notin> set ns \<union> set fs" for a
  proof -
    have "a \<notin> set ns1 \<union> set fs1" using that s(1) by auto
    then have "?m2 ! a = ?m1 ! a" using assms(2) that(1) l(1) by (simp add: moved_def only_in_def)
    also have "?m1 ! a = ?m ! a" using assms(1) that by (simp add: moved_def only_in_def)
    finally show ?thesis .
  qed
  moreover have "set ns2 \<union> set fs2 = set ns \<union> set fs \<union> {length ?m..<length ?m2}"
    unfolding s using l by auto
  ultimately show ?thesis using l by (simp add: moved_def only_in_def)
qed

lemma return_ok:
  assumes o: "buffer_owns P sb (a # ns) (msg # msgs) fs"
  obtains P' sb' where "return_free_node P sb = Some (P', sb')" "buffer_owns P' sb' ns msgs (a # fs)" "sb_offset sb' = 0"
    "sb_size sb' = sb_size sb" "moved P (a # ns) fs P' ns (a # fs)"
proof -
  let ?m = "bp_nodes P" and ?n = "\<lparr>bn_msg = None, bn_sz = 0, bn_next = bp_free P\<rparr>"
  let ?P = "P\<lparr>bp_nodes := ?m[a := ?n], bp_free := Some a\<rparr>"
  have h: "sb_head sb = Some a" "a < length ?m" using owns_Cons [OF o] by auto
  define sb' where "sb' = (if bn_next (?m ! a) = None then sb\<lparr>sb_offset := 0, sb_head := bn_next (?m ! a), sb_tail := None\<rparr>
      else sb\<lparr>sb_offset := 0, sb_head := bn_next (?m ! a)\<rparr>)"
  have f: "sb_head sb' = bn_next (?m ! a)" "sb_offset sb' = 0" "sb_size sb' = sb_size sb" by (simp_all add: sb'_def)
  have c: "node_path ?m (bn_next (?m ! a)) ns" "sb_tail sb = Some (last (a # ns))"
      "list_all2 (\<lambda>a msg. holds_block (?m ! a) msg) ns msgs" "a \<notin> set ns" "a \<notin> set fs"
      "free_ok P fs" "distinct (ns @ fs)"
    using o by (auto simp: buffer_owns_def chain_ok_def)
  have u: "only_in {a} ?m (?m[a := ?n])" by (rule only_in_update) simp
  have "sb_tail sb' = (if ns = [] then None else Some (last ns))"
    using c(1,2) by (cases ns) (auto simp: sb'_def)
  with c f have "chain_ok ?m sb' ns msgs" by (simp add: chain_ok_def)
  with u c(4) have "chain_ok (?m[a := ?n]) sb' ns msgs" using chain_only_in by blast
  moreover have "free_ok (P\<lparr>bp_nodes := ?m[a := ?n]\<rparr>) fs" using free_only_in [OF c(6), of "{a}"] u c(5) by simp
  then have "free_ok ?P (a # fs)" using h(2) by (auto simp: free_ok_def)
  ultimately have "buffer_owns ?P sb' ns msgs (a # fs)" using c by (auto simp: buffer_owns_def)
  moreover have "return_free_node P sb = Some (?P, sb')"
    using h by (simp add: return_free_node_def Let_def sb'_def)
  moreover have "moved P (a # ns) fs ?P ns (a # fs)" by (auto simp: moved_def intro!: only_in_update)
  ultimately show thesis using that f by blast
qed

section \<open>Adding a block\<close>

lemma path_newpool:
  "0 < n \<Longrightarrow> node_path (m @ lnewpool (length m) n) (Some (length m)) [length m..<length m + n]"
proof -
  assume n: "0 < n"
  let ?m = "m @ lnewpool (length m) n"
  have "node_path ?m (if i < n then Some (length m + i) else None) [length m + i..<length m + n]" if "i \<le> n" for i
    using that
  proof (induction "n - i" arbitrary: i)
    case 0
    then show ?case by simp
  next
    case (Suc k)
    then have i: "i < n" "k = n - Suc i" "Suc i \<le> n" by simp_all
    have "bn_next (?m ! (length m + i)) = (if Suc i < n then Some (length m + Suc i) else None)"
      using i by (auto simp: lnewpool_def nth_append)
    moreover have "[length m + i..<length m + n] = (length m + i) # [length m + Suc i..<length m + n]"
      using i(1) by (simp add: upt_conv_Cons)
    ultimately show ?case using Suc.hyps(1) [OF i(2,3)] i(1) by (simp add: lnewpool_def)
  qed
  from this [of 0] n show ?thesis by simp
qed

lemma expand_pool_ok:
  assumes "buffer_owns P sb ns msgs []"
  obtains fs where "fs \<noteq> []" "buffer_owns (expand_pool P) sb ns msgs fs" "moved P ns [] (expand_pool P) ns fs"
proof -
  let ?m = "bp_nodes P"
  obtain n base where e: "bp_free (expand_pool P) = Some (length ?m)" "bp_nodes (expand_pool P) = ?m @ lnewpool (length ?m) n" "0 < n"
  proof -
    have "0 < (if (if bp_length P = 0 then 1 else bp_length P) \<le> LARGE_PAGE_NODE - 3
        then 8 * 2 ^ (if bp_length P = 0 then 1 else bp_length P) else 8 * 2 ^ (LARGE_PAGE_NODE - 3) :: nat)" by simp
    from that [OF _ _ this] show thesis by (simp add: expand_pool_def Let_def)
  qed
  define fs where "fs = [length ?m..<length ?m + n]"
  have c: "chain_ok ?m sb ns msgs" and p: "node_path ?m (sb_head sb) ns" and d: "distinct ns"
    using assms by (simp_all add: buffer_owns_def chain_ok_def)
  have "only_in {} ?m (bp_nodes (expand_pool P))" by (simp add: only_in_def e nth_append)
  then have "chain_ok (bp_nodes (expand_pool P)) sb ns msgs" using chain_only_in [OF c] by blast
  moreover have "free_ok (expand_pool P) fs"
    using path_newpool [OF e(3), of ?m] by (auto simp: free_ok_def e fs_def nth_append lnewpool_def)
  moreover have "distinct (ns @ fs)" using path_bound [OF p] d by (fastforce simp: fs_def)
  ultimately have "buffer_owns (expand_pool P) sb ns msgs fs" by (simp add: buffer_owns_def)
  moreover have "moved P ns [] (expand_pool P) ns fs"
    by (auto simp: moved_def only_in_def e fs_def nth_append lnewpool_def)
  moreover have "fs \<noteq> []" using e(3) by (simp add: fs_def)
  ultimately show thesis using that by blast
qed

lemma path_snoc:
  "node_path m p ns \<Longrightarrow> ns \<noteq> [] \<Longrightarrow> distinct ns \<Longrightarrow> b \<notin> set ns \<Longrightarrow> b < length m \<Longrightarrow> bn_next (m ! b) = None \<Longrightarrow>
   node_path (m[last ns := (m ! last ns)\<lparr>bn_next := Some b\<rparr>]) p (ns @ [b])"
proof (induction m p ns rule: node_path.induct)
  case (2 m p a as)
  show ?case
  proof (cases "as = []")
    case False
    with 2 have "node_path (m[last as := (m ! last as)\<lparr>bn_next := Some b\<rparr>]) (bn_next (m ! a)) (as @ [b])" by simp
    moreover have "last as \<noteq> a" using 2(4) False by (metis distinct.simps(2) last_in_set)
    ultimately show ?thesis using 2 False by simp
  qed (use 2 in auto)
qed simp

text \<open>The block goes to the end, into the first free node.\<close>

lemma push_node_ok:
  assumes o: "buffer_owns P sb ns msgs (b # fs)" and msg: "msg \<noteq> []" and len: "sz = int (length msg)"
  obtains P' sb' where "lpushbuffer sb P msg sz = Some (sb_size sb + sz, sb', P')" "buffer_owns P' sb' (ns @ [b]) (msgs @ [msg]) fs"
    "sb_offset sb' = sb_offset sb" "sb_size sb' = sb_size sb + sz" "moved P ns (b # fs) P' (ns @ [b]) fs"
proof -
  let ?m = "bp_nodes P" and ?n = "\<lparr>bn_msg = Some msg, bn_sz = sz, bn_next = None\<rparr>"
  have f: "bp_free P = Some b" "b < length ?m" "free_ok P (b # fs)" "node_path ?m (bn_next (?m ! b)) fs" "\<forall>a \<in> set fs. bn_msg (?m ! a) = None"
    and c: "chain_ok ?m sb ns msgs" and d: "distinct ns" "distinct fs" "b \<notin> set ns" "b \<notin> set fs" "set ns \<inter> set fs = {}"
    using o by (auto simp: buffer_owns_def free_ok_def)
  define m1 where "m1 = ?m[b := ?n]"
  have u1: "only_in {b} ?m m1" by (simp add: m1_def only_in_update)
  have c1: "chain_ok m1 sb ns msgs" using chain_only_in [OF c u1] d(3) by simp
  have fp1: "node_path m1 (bn_next (?m ! b)) fs" using path_only_in [OF f(4) u1] d(4) by simp
  have fm1: "\<forall>a \<in> set fs. bn_msg (m1 ! a) = None" using f(5) d(4) by (metis m1_def nth_list_update_neq)
  have b1: "m1 ! b = ?n" "b < length m1" and lm: "length m1 = length ?m" using f(2) by (simp_all add: m1_def)
  show thesis
  proof (cases "ns = []")
    case True
    let ?P = "P\<lparr>bp_free := bn_next (?m ! b), bp_nodes := m1\<rparr>"
      and ?sb = "sb\<lparr>sb_head := Some b, sb_tail := Some b, sb_size := sb_size sb + sz\<rparr>"
    have h: "sb_head sb = None" "sb_tail sb = None" "msgs = []" using c True by (auto simp: chain_ok_def)
    have "lpushbuffer sb P msg sz = Some (sb_size sb + sz, ?sb, ?P)"
      using f(1,2) h by (simp add: lpushbuffer_def Let_def m1_def)
    moreover have "buffer_owns ?P ?sb (ns @ [b]) (msgs @ [msg]) fs"
      using True h b1 fp1 fm1 d msg len by (simp add: buffer_owns_def chain_ok_def free_ok_def holds_block_def)
    moreover have "moved P ns (b # fs) ?P (ns @ [b]) fs" using True u1 by (auto simp: moved_def only_in_def lm)
    ultimately show thesis using that by simp
  next
    case False
    let ?l = "last ns"
    let ?P = "P\<lparr>bp_free := bn_next (?m ! b), bp_nodes := m1[?l := (m1 ! ?l)\<lparr>bn_next := Some b\<rparr>]\<rparr>"
      and ?sb = "sb\<lparr>sb_tail := Some b, sb_size := sb_size sb + sz\<rparr>"
    have h: "sb_head sb \<noteq> None" "sb_tail sb = Some ?l" and p1: "node_path m1 (sb_head sb) ns"
      using c1 False by (cases ns; auto simp: chain_ok_def)+
    have l: "?l < length m1" "?l \<in> set ns" "?l \<noteq> b" using path_bound [OF p1] False d(3) by auto
    have u2: "only_in {?l} m1 (bp_nodes ?P)" by (simp add: only_in_update)
    have "lpushbuffer sb P msg sz = Some (sb_size sb + sz, ?sb, ?P)"
      using f(1,2) h l(1) by (auto simp: lpushbuffer_def Let_def m1_def)
    moreover have "chain_ok (bp_nodes ?P) ?sb (ns @ [b]) (msgs @ [msg])"
    proof -
      have "node_path (bp_nodes ?P) (sb_head sb) (ns @ [b])" using path_snoc [OF p1 False d(1) d(3)] b1 by simp
      moreover have "list_all2 (\<lambda>a msg. holds_block (bp_nodes ?P ! a) msg) ns msgs"
      proof -
        have "list_all2 (\<lambda>a msg. holds_block (m1 ! a) msg) ns msgs" using c1 by (simp add: chain_ok_def)
        then show ?thesis
          by (rule list.rel_mono_strong) (use l(1) in \<open>auto simp: holds_block_def nth_list_update\<close>)
      qed
      moreover have "holds_block (bp_nodes ?P ! b) msg" using b1 l(3) msg len by (simp add: holds_block_def)
      ultimately show ?thesis by (simp add: chain_ok_def list_all2_appendI)
    qed
    moreover have "free_ok ?P fs"
    proof -
      have "?l \<notin> set fs" using l(2) d(5) by auto
      then show ?thesis using path_only_in [OF fp1 u2] fm1 by (auto simp: free_ok_def) (metis nth_list_update_neq)
    qed
    moreover have "moved P ns (b # fs) ?P (ns @ [b]) fs"
      using u1 u2 l(2) by (auto simp: moved_def only_in_def lm) (metis nth_list_update_neq)
    ultimately show thesis using that d by (simp add: buffer_owns_def)
  qed
qed

text \<open>How an operation on one buffer that leaves it with the bytes \<open>q\<close> changes the nodes.\<close>

definition leaves :: "buffer_pool \<Rightarrow> nat list \<Rightarrow> nat list \<Rightarrow> buffer_pool \<Rightarrow> socket_buffer \<Rightarrow> byte list \<Rightarrow> bool" where
  "leaves P ns fs P' sb' q \<longleftrightarrow> (\<exists>ns' msgs' fs'. buffer_owns P' sb' ns' msgs' fs' \<and> offset_ok sb' msgs' \<and> held_bytes sb' msgs' = q \<and>
     moved P ns fs P' ns' fs')"

lemma leaves_moved: "moved P ns fs P1 ns1 fs1 \<Longrightarrow> leaves P1 ns1 fs1 P2 sb2 q \<Longrightarrow> leaves P ns fs P2 sb2 q"
  unfolding leaves_def using moved_trans by blast

lemma offset_size [simp]: "offset_ok (sb\<lparr>sb_size := n\<rparr>) msgs \<longleftrightarrow> offset_ok sb msgs"
  by (cases msgs) (simp_all add: offset_ok_def)

lemma leaves_size [simp]: "leaves P ns fs P' (sb'\<lparr>sb_size := n\<rparr>) q \<longleftrightarrow> leaves P ns fs P' sb' q"
  by (simp add: leaves_def buffer_owns_def chain_ok_def held_bytes_def)

lemma offset_le: "offset_ok sb msgs \<Longrightarrow> nat (sb_offset sb) \<le> length (concat msgs)"
  by (cases msgs) (auto simp: offset_ok_def)

lemma lpushbuffer_ok:
  assumes o: "buffer_owns P sb ns msgs fs" "offset_ok sb msgs" and msg: "msg \<noteq> []"
  shows "\<exists>P' sb'. lpushbuffer sb P msg (int (length msg)) = Some (sb_size sb + int (length msg), sb', P') \<and>
    leaves P ns fs P' sb' (held_bytes sb msgs @ msg) \<and> sb_size sb' = sb_size sb + int (length msg)"
proof -
  obtain P1 b fs1 where P1: "P1 = (if bp_free P = None then expand_pool P else P)" "buffer_owns P1 sb ns msgs (b # fs1)"
      "moved P ns fs P1 ns (b # fs1)"
  proof (cases fs)
    case Nil
    then have "bp_free P = None" using o(1) by (simp add: buffer_owns_def free_ok_def)
    with expand_pool_ok [of P sb ns msgs] o(1) Nil that show thesis by (metis list.exhaust)
  next
    case (Cons b fs1)
    with o(1) have "bp_free P \<noteq> None" by (simp add: buffer_owns_def free_ok_def)
    with that [of P b fs1] o(1) Cons show thesis by simp
  qed
  obtain P' sb' where P': "lpushbuffer sb P1 msg (int (length msg)) = Some (sb_size sb + int (length msg), sb', P')"
      "buffer_owns P' sb' (ns @ [b]) (msgs @ [msg]) fs1" "sb_offset sb' = sb_offset sb" "sb_size sb' = sb_size sb + int (length msg)"
      "moved P1 ns (b # fs1) P' (ns @ [b]) fs1"
    using push_node_ok [OF P1(2) msg refl] by blast
  have "bp_free P1 \<noteq> None" using P1(2) by (simp add: buffer_owns_def free_ok_def)
  then have "lpushbuffer sb P msg (int (length msg)) = lpushbuffer sb P1 msg (int (length msg))"
    using P1(1) by (cases "bp_free P = None") (simp_all only: lpushbuffer_def Let_def if_True if_False)
  moreover have "offset_ok sb' (msgs @ [msg])" using o(2) P'(3) msg by (cases msgs) (auto simp: offset_ok_def)
  moreover have "held_bytes sb' (msgs @ [msg]) = held_bytes sb msgs @ msg" using offset_le [OF o(2)] P'(3) by (simp add: held_bytes_def)
  moreover have "moved P ns fs P' (ns @ [b]) fs1" using moved_trans P1(3) P'(5) by blast
  ultimately show ?thesis using P' unfolding leaves_def by (metis (no_types))
qed

section \<open>Taking bytes\<close>

lemma bytes_at_ok:
  "holds_block n msg \<Longrightarrow> 0 \<le> from \<Longrightarrow> 0 \<le> k \<Longrightarrow> from + k \<le> int (length msg) \<Longrightarrow>
   bytes_at n from k = Some (take (nat k) (drop (nat from) msg))"
  by (simp add: bytes_at_def holds_block_def)

lemma held_Cons: "0 \<le> sb_offset sb \<Longrightarrow> sb_offset sb \<le> int (length msg) \<Longrightarrow>
    held_bytes sb (msg # msgs) = drop (nat (sb_offset sb)) msg @ concat msgs"
  by (simp add: held_bytes_def)

text \<open>Part of the first block is taken, or exactly the rest of it.\<close>

lemma advance_ok:
  assumes "buffer_owns P sb (a # ns) (msg # msgs) fs" "offset_ok sb (msg # msgs)" "0 \<le> sz" "sz < int (length msg) - sb_offset sb"
  shows "leaves P (a # ns) fs P (sb\<lparr>sb_offset := sb_offset sb + sz\<rparr>) (drop (nat sz) (held_bytes sb (msg # msgs)))"
proof -
  let ?sb = "sb\<lparr>sb_offset := sb_offset sb + sz\<rparr>"
  have o: "0 \<le> sb_offset sb" "sb_offset sb + sz < int (length msg)" using assms(2,4) by (simp_all add: offset_ok_def)
  then have "buffer_owns P ?sb (a # ns) (msg # msgs) fs" "offset_ok ?sb (msg # msgs)"
    using assms(1,3) by (simp_all add: buffer_owns_def chain_ok_def offset_ok_def)
  moreover have "held_bytes ?sb (msg # msgs) = drop (nat sz) (held_bytes sb (msg # msgs))"
    using o assms(3) by (simp add: held_bytes_def nat_add_distrib add.commute)
  ultimately show ?thesis unfolding leaves_def using moved_refl by blast
qed

lemma return_leaves:
  assumes "buffer_owns P sb (a # ns) (msg # msgs) fs"
  obtains P' sb' where "return_free_node P sb = Some (P', sb')" "leaves P (a # ns) fs P' sb' (concat msgs)"
    "buffer_owns P' sb' ns msgs (a # fs)" "offset_ok sb' msgs" "held_bytes sb' msgs = concat msgs" "sb_size sb' = sb_size sb"
    "moved P (a # ns) fs P' ns (a # fs)"
proof -
  obtain P' sb' where r: "return_free_node P sb = Some (P', sb')" "buffer_owns P' sb' ns msgs (a # fs)" "sb_offset sb' = 0"
      "sb_size sb' = sb_size sb" "moved P (a # ns) fs P' ns (a # fs)"
    using return_ok [OF assms] .
  have "msg \<noteq> []" if "msg \<in> set msgs" for msg
    using r(2) that by (auto simp: buffer_owns_def chain_ok_def list_all2_conv_all_nth holds_block_def in_set_conv_nth)
  then have o: "offset_ok sb' msgs" using r(3) by (cases msgs) (auto simp: offset_ok_def)
  moreover have "held_bytes sb' msgs = concat msgs" using r(3) by (simp add: held_bytes_def)
  ultimately show thesis using that [OF r(1) _ r(2)] r unfolding leaves_def by blast
qed

text \<open>The text is all but the last \<open>skip\<close> bytes of what is taken.\<close>

lemma pop_loop_ok:
  assumes "buffer_owns P sb ns msgs fs" "offset_ok sb msgs" "0 < sz" "sz \<le> int (length (held_bytes sb msgs))" "0 \<le> skip"
  shows "\<exists>P' sb'. pop_loop P sb sz skip acc = Some (acc @ take (nat (sz - skip)) (held_bytes sb msgs), P', sb') \<and>
    leaves P ns fs P' sb' (drop (nat sz) (held_bytes sb msgs)) \<and> sb_size sb' = sb_size sb"
  using assms
proof (induction msgs arbitrary: P sb ns fs sz acc)
  case Nil
  then show ?case by (simp add: held_bytes_def)
next
  case (Cons msg msgs)
  obtain a ns' where ns: "ns = a # ns'" using owns_head(2) [OF Cons.prems(1)] by (cases ns) auto
  note o = Cons.prems(1) [unfolded ns] and off = Cons.prems(2)
  have h: "sb_head sb = Some a" "a < length (bp_nodes P)" "holds_block (bp_nodes P ! a) msg" using owns_Cons [OF o] by auto
  have n: "node_at P (sb_head sb) = Some (bp_nodes P ! a)" "bn_sz (bp_nodes P ! a) = int (length msg)"
    using h by (simp_all add: holds_block_def)
  have off': "0 \<le> sb_offset sb" "sb_offset sb < int (length msg)" using off by (simp_all add: offset_ok_def)
  define bytes where "bytes = int (length msg) - sb_offset sb"
  have hd: "held_bytes sb (msg # msgs) = drop (nat (sb_offset sb)) msg @ concat msgs" using off' by (simp add: held_Cons)
  have l: "length (drop (nat (sb_offset sb)) msg) = nat bytes" using off' by (simp add: bytes_def)
  show ?case
  proof (cases "sz \<le> bytes")
    case True
    have acc: "(if skip < sz then map_option ((@) acc) (bytes_at (bp_nodes P ! a) (sb_offset sb) (sz - skip)) else Some acc) =
        Some (acc @ take (nat (sz - skip)) (held_bytes sb (msg # msgs)))"
      using bytes_at_ok [OF h(3) off'(1), of "sz - skip"] True off' Cons.prems(3,5) hd l by (auto simp: bytes_def)
    show ?thesis
    proof (cases "bytes = sz")
      case eq: True
      have o1: "buffer_owns P (sb\<lparr>sb_offset := sb_offset sb + sz\<rparr>) (a # ns') (msg # msgs) fs"
        using o by (simp add: buffer_owns_def chain_ok_def)
      obtain P' sb' where r: "return_free_node P (sb\<lparr>sb_offset := sb_offset sb + sz\<rparr>) = Some (P', sb')"
          "leaves P (a # ns') fs P' sb' (concat msgs)" "sb_size sb' = sb_size sb"
        using return_leaves [OF o1] by simp metis
      have "drop (nat sz) (held_bytes sb (msg # msgs)) = concat msgs" using hd l eq by simp
      then show ?thesis
        using r acc True eq n unfolding ns pop_loop.simps [of P sb] by (simp add: bytes_def [symmetric])
    next
      case False
      with advance_ok [OF o off, of sz] True Cons.prems(3) have
        "leaves P (a # ns') fs P (sb\<lparr>sb_offset := sb_offset sb + sz\<rparr>) (drop (nat sz) (held_bytes sb (msg # msgs)))"
        by (simp add: bytes_def)
      then show ?thesis
        using acc True False n unfolding ns pop_loop.simps [of P sb] by (simp add: bytes_def [symmetric])
    qed
  next
    case False
    obtain P1 sb1 where r: "return_free_node P sb = Some (P1, sb1)" "buffer_owns P1 sb1 ns' msgs (a # fs)" "offset_ok sb1 msgs"
        "held_bytes sb1 msgs = concat msgs" "sb_size sb1 = sb_size sb" "moved P (a # ns') fs P1 ns' (a # fs)"
      using return_leaves [OF o] by metis
    define acc1 where "acc1 = acc @ take (nat (min (sz - skip) bytes)) (drop (nat (sb_offset sb)) msg)"
    have acc: "(if 0 < sz - skip then map_option ((@) acc) (bytes_at (bp_nodes P ! a) (sb_offset sb) (min (sz - skip) bytes)) else Some acc) =
        Some acc1"
      using bytes_at_ok [OF h(3) off'(1), of "min (sz - skip) bytes"] off' by (auto simp: bytes_def acc1_def)
    have sz: "0 < sz - bytes" "sz - bytes \<le> int (length (held_bytes sb1 msgs))"
      using False Cons.prems(4) hd l off' r(4) by (simp_all add: bytes_def)
    obtain P' sb' where p: "pop_loop P1 sb1 (sz - bytes) skip acc1 =
          Some (acc1 @ take (nat (sz - bytes - skip)) (held_bytes sb1 msgs), P', sb')"
        "leaves P1 ns' (a # fs) P' sb' (drop (nat (sz - bytes)) (held_bytes sb1 msgs))" "sb_size sb' = sb_size sb1"
      using Cons.IH [OF r(2,3) sz Cons.prems(5)] by blast
    have "acc1 @ take (nat (sz - bytes - skip)) (held_bytes sb1 msgs) = acc @ take (nat (sz - skip)) (held_bytes sb (msg # msgs))"
    proof -
      have "take (nat (min (sz - skip) bytes)) (drop (nat (sb_offset sb)) msg) = take (nat (sz - skip)) (drop (nat (sb_offset sb)) msg)"
        using l by (cases "sz - skip \<le> bytes") (simp_all add: min_def)
      moreover have "nat (sz - skip) - nat bytes = nat (sz - bytes - skip)" using off' by (simp add: bytes_def)
      ultimately show ?thesis using l by (simp add: acc1_def hd r(4))
    qed
    moreover have "drop (nat sz) (held_bytes sb (msg # msgs)) = drop (nat (sz - bytes)) (held_bytes sb1 msgs)"
    proof -
      have "nat sz - nat bytes = nat (sz - bytes)" "length msg \<le> nat sz + nat (sb_offset sb)" using sz(1) off' by (simp_all add: bytes_def)
      with l show ?thesis by (simp add: hd r(4))
    qed
    moreover have "pop_loop P sb sz skip acc = pop_loop P1 sb1 (sz - bytes) skip acc1"
      using acc False n r(1) sz(1) unfolding pop_loop.simps [of P sb] by (simp add: bytes_def [symmetric])
    moreover have "leaves P (a # ns') fs P' sb' (drop (nat (sz - bytes)) (held_bytes sb1 msgs))"
      by (rule leaves_moved [OF r(6) p(2)])
    ultimately show ?thesis using p r(5) unfolding ns by simp
  qed
qed

lemma pop_lstring_ok:
  assumes "buffer_owns P sb ns msgs fs" "offset_ok sb msgs" "msgs \<noteq> []" "0 \<le> skip" "skip \<le> sz" "sz \<le> int (length (held_bytes sb msgs))"
  shows "\<exists>P' sb'. pop_lstring P sb sz skip = Some (take (nat (sz - skip)) (held_bytes sb msgs), P', sb') \<and>
    leaves P ns fs P' sb' (drop (nat sz) (held_bytes sb msgs)) \<and> sb_size sb' = sb_size sb"
proof -
  obtain msg ms a ns' where m: "msgs = msg # ms" "ns = a # ns'"
    using assms(3) owns_head(2) [OF assms(1)] by (cases msgs; cases ns) auto
  note o = assms(1) [unfolded m] and off = assms(2) [unfolded m]
  have h: "sb_head sb = Some a" "a < length (bp_nodes P)" "holds_block (bp_nodes P ! a) msg" using owns_Cons [OF o] by auto
  have n: "node_at P (sb_head sb) = Some (bp_nodes P ! a)" "bn_sz (bp_nodes P ! a) = int (length msg)"
    using h by (simp_all add: holds_block_def)
  have off': "0 \<le> sb_offset sb" "sb_offset sb < int (length msg)" using off by (simp_all add: offset_ok_def)
  have hd: "held_bytes sb (msg # ms) = drop (nat (sb_offset sb)) msg @ concat ms" using off' by (simp add: held_Cons)
  have b: "bytes_at (bp_nodes P ! a) (sb_offset sb) (sz - skip) = Some (take (nat (sz - skip)) (held_bytes sb (msg # ms)))"
    if "sz \<le> int (length msg) - sb_offset sb"
    using bytes_at_ok [OF h(3) off'(1), of "sz - skip"] that assms(4,5) hd off' by simp
  consider (less) "sz < int (length msg) - sb_offset sb" | (eq) "sz = int (length msg) - sb_offset sb"
    | (more) "int (length msg) - sb_offset sb < sz" by linarith
  then show ?thesis
  proof cases
    case less
    with advance_ok [OF o off, of sz] b n assms(4,5) show ?thesis by (simp add: pop_lstring_def m)
  next
    case eq
    obtain P' sb' where r: "return_free_node P sb = Some (P', sb')" "leaves P (a # ns') fs P' sb' (concat ms)" "sb_size sb' = sb_size sb"
      using return_leaves [OF o] by metis
    have "length (drop (nat (sb_offset sb)) msg) = nat sz" using eq off' by simp
    then have "drop (nat sz) (held_bytes sb (msg # ms)) = concat ms" using hd by simp
    with r b n eq show ?thesis by (simp add: pop_lstring_def m)
  next
    case more
    with pop_loop_ok [OF o off _ _ assms(4), of sz "[]"] assms(4-6) off' n show ?thesis
      by (simp add: pop_lstring_def m)
  qed
qed

section \<open>Clearing and reading everything\<close>

lemma clear_loop_ok:
  "buffer_owns P sb ns msgs fs \<Longrightarrow> offset_ok sb msgs \<Longrightarrow>
   \<exists>P' sb'. clear_loop P sb = Some (P', sb') \<and> leaves P ns fs P' sb' []"
proof (induction msgs arbitrary: P sb ns fs)
  case Nil
  then have "leaves P ns fs P sb []" unfolding leaves_def by (metis held_bytes_def concat.simps(1) drop_Nil moved_refl)
  with Nil show ?case using owns_head [OF Nil(1)] by (simp add: clear_loop.simps [of P sb])
next
  case (Cons msg msgs)
  obtain a ns' where ns: "ns = a # ns'" using owns_head(2) [OF Cons.prems(1)] by (cases ns) auto
  obtain P1 sb1 where r: "return_free_node P sb = Some (P1, sb1)" "buffer_owns P1 sb1 ns' msgs (a # fs)" "offset_ok sb1 msgs"
      "moved P (a # ns') fs P1 ns' (a # fs)"
    using return_leaves [OF Cons.prems(1) [unfolded ns]] by metis
  from Cons.IH [OF r(2,3)] obtain P' sb' where "clear_loop P1 sb1 = Some (P', sb')" "leaves P1 ns' (a # fs) P' sb' []" by blast
  with leaves_moved [OF r(4)] r(1) owns_head(1) [OF Cons.prems(1)] ns show ?case
    by (auto simp: clear_loop.simps [of P sb])
qed

lemma readall_loop_ok:
  "buffer_owns P sb ns msgs fs \<Longrightarrow> offset_ok sb msgs \<Longrightarrow>
   \<exists>P' sb'. readall_loop P sb acc = Some (acc @ held_bytes sb msgs, P', sb') \<and> leaves P ns fs P' sb' []"
proof (induction msgs arbitrary: P sb ns fs acc)
  case Nil
  then have "leaves P ns fs P sb []" unfolding leaves_def by (metis held_bytes_def concat.simps(1) drop_Nil moved_refl)
  with Nil show ?case using owns_head [OF Nil(1)] by (simp add: readall_loop.simps [of P sb] held_bytes_def)
next
  case (Cons msg msgs)
  obtain a ns' where ns: "ns = a # ns'" using owns_head(2) [OF Cons.prems(1)] by (cases ns) auto
  have h: "sb_head sb = Some a" "a < length (bp_nodes P)" "holds_block (bp_nodes P ! a) msg"
    using owns_Cons [OF Cons.prems(1) [unfolded ns]] by auto
  have off: "0 \<le> sb_offset sb" "sb_offset sb < int (length msg)" using Cons.prems(2) by (simp_all add: offset_ok_def)
  have s: "bytes_at (bp_nodes P ! a) (sb_offset sb) (bn_sz (bp_nodes P ! a) - sb_offset sb) = Some (drop (nat (sb_offset sb)) msg)"
    using bytes_at_ok [OF h(3) off(1), of "int (length msg) - sb_offset sb"] h(3) off
    by (simp add: holds_block_def nat_diff_distrib)
  obtain P1 sb1 where r: "return_free_node P sb = Some (P1, sb1)" "buffer_owns P1 sb1 ns' msgs (a # fs)" "offset_ok sb1 msgs"
      "held_bytes sb1 msgs = concat msgs" "moved P (a # ns') fs P1 ns' (a # fs)"
    using return_leaves [OF Cons.prems(1) [unfolded ns]] by metis
  from Cons.IH [OF r(2,3)] obtain P' sb' where
    "readall_loop P1 sb1 (acc @ drop (nat (sb_offset sb)) msg) = Some ((acc @ drop (nat (sb_offset sb)) msg) @ concat msgs, P', sb')"
    "leaves P1 ns' (a # fs) P' sb' []"
    unfolding r(4) by blast
  moreover have "held_bytes sb (msg # msgs) = drop (nat (sb_offset sb)) msg @ concat msgs" using off by (simp add: held_Cons)
  ultimately show ?case
    using leaves_moved [OF r(5)] r(1) s h ns by (simp add: readall_loop.simps [of P sb])
qed

section \<open>Lines\<close>

text \<open>The position of the first separator.\<close>

fun find_sep :: "byte list \<Rightarrow> byte list \<Rightarrow> nat option" where
  "find_sep sep [] = (if sep = [] then Some 0 else None)"
| "find_sep sep (c # cs) = (if take (length sep) (c # cs) = sep then Some 0 else map_option Suc (find_sep sep cs))"

lemma find_sep_Some:
  "find_sep sep cs = Some i \<Longrightarrow> take (length sep) (drop i cs) = sep \<and> i + length sep \<le> length cs \<and>
   (\<forall>j < i. take (length sep) (drop j cs) \<noteq> sep)"
proof (induction cs arbitrary: i)
  case Nil
  then show ?case by (auto split: if_splits)
next
  case (Cons c cs)
  show ?case
  proof (cases "take (length sep) (c # cs) = sep")
    case True
    then have "length sep \<le> length (c # cs)" by (metis length_take min.cobounded1)
    with True Cons show ?thesis by simp
  next
    case False
    with Cons obtain k where "find_sep sep cs = Some k" "i = Suc k" by auto
    with Cons.IH [of k] False show ?thesis by (auto simp: less_Suc_eq_0_disj)
  qed
qed

lemma find_sep_short: "length cs < length sep \<Longrightarrow> find_sep sep cs = None"
proof (induction cs)
  case (Cons c cs)
  then have "take (length sep) (c # cs) \<noteq> sep" by (metis length_take min_less_iff_conj nless_le)
  with Cons show ?case by simp
qed auto

lemma check_sep_ok:
  "node_path (bp_nodes P) p ns \<Longrightarrow> list_all2 (\<lambda>a msg. holds_block (bp_nodes P ! a) msg) ns (msg # msgs) \<Longrightarrow>
   0 \<le> from \<Longrightarrow> from < int (length msg) \<Longrightarrow> length sep \<le> length (drop (nat from) msg @ concat msgs) \<Longrightarrow>
   check_sep P p from sep = Some (take (length sep) (drop (nat from) msg @ concat msgs) = sep)"
proof (induction msgs arbitrary: p ns msg "from" sep)
  case Nil
  then obtain a where a: "p = Some a" "a < length (bp_nodes P)" "holds_block (bp_nodes P ! a) msg" by (cases ns) auto
  have sz: "bn_sz (bp_nodes P ! a) = int (length msg)" using a(3) by (simp add: holds_block_def)
  have "from + int (length sep) \<le> int (length msg)" using Nil.prems(3-5) by simp
  with bytes_at_ok [OF a(3) Nil.prems(3)] show ?case
    unfolding check_sep.simps [of P p] by (simp add: a(1,2) sz)
next
  case (Cons m2 ms)
  then obtain a ns' where a: "p = Some a" "a < length (bp_nodes P)" "holds_block (bp_nodes P ! a) msg"
      "node_path (bp_nodes P) (bn_next (bp_nodes P ! a)) ns'" "list_all2 (\<lambda>a msg. holds_block (bp_nodes P ! a) msg) ns' (m2 # ms)"
    by (cases ns) auto
  have sz: "bn_sz (bp_nodes P ! a) = int (length msg)" using a(3) by (simp add: holds_block_def)
  define d where "d = drop (nat from) msg"
  have d: "int (length d) = int (length msg) - from" "d \<noteq> []" using Cons.prems(3,4) by (auto simp: d_def)
  show ?case
  proof (cases "length sep \<le> length d")
    case True
    then have "int (length sep) \<le> int (length msg) - from" using d by linarith
    with bytes_at_ok [OF a(3), of "from" "int (length sep)"] Cons.prems(3) True a(1,2) sz show ?thesis
      unfolding check_sep.simps [of P p] by (simp add: d_def [symmetric])
  next
    case False
    let ?rest = "drop (length d) sep"
    have b: "bytes_at (bp_nodes P ! a) from (int (length msg) - from) = Some d"
      using bytes_at_ok [OF a(3), of "from" "int (length msg) - from"] Cons.prems(3,4) d by (simp add: d_def)
    have n: "nat (int (length msg) - from) = length d" using d(1) by linarith
    have m2: "m2 \<noteq> []" using a(5) by (cases ns') (auto simp: holds_block_def)
    have "check_sep P (bn_next (bp_nodes P ! a)) 0 ?rest = Some (take (length ?rest) (m2 @ concat ms) = ?rest)"
      using Cons.IH [OF a(4,5), of 0 ?rest] Cons.prems(5) m2 False by (simp add: d_def [symmetric])
    moreover have "take (length sep) (d @ m2 @ concat ms) = sep \<longleftrightarrow> d = take (length d) sep \<and> take (length ?rest) (m2 @ concat ms) = ?rest"
      using False append_take_drop_id [of "length d" sep] by (auto simp: min_def) (metis append_eq_append_conv append_take_drop_id length_take min.absorb2 nat_le_linear)+
    moreover have "check_sep P p from sep = (if d \<noteq> take (length d) sep then Some False
        else check_sep P (bn_next (bp_nodes P ! a)) 0 ?rest)"
      unfolding check_sep.simps [of P p] using False a(1,2) sz b n d Cons.prems(4) by (simp add: Let_def)
    ultimately show ?thesis by (simp add: d_def [symmetric])
  qed
qed

text \<open>From a position in the chain the loop finds the first separator.\<close>

lemma line_loop_ok:
  assumes "node_path (bp_nodes P) p ns" "list_all2 (\<lambda>a msg. holds_block (bp_nodes P ! a) msg) ns (msg # msgs)"
    "0 \<le> from" "from < int (length msg)" "bytes = int (length msg) - from"
    "len = i + int (length (drop (nat from) msg @ concat msgs))"
  shows "line_loop P len sep i p from bytes =
    Some (map_option (\<lambda>k. i + int k) (find_sep sep (drop (nat from) msg @ concat msgs)))"
  using assms
proof (induction "length (drop (nat from) msg @ concat msgs)" arbitrary: p ns msg msgs "from" bytes i rule: less_induct)
  case less
  obtain a ns' where a: "p = Some a" "a < length (bp_nodes P)" "holds_block (bp_nodes P ! a) msg"
      "node_path (bp_nodes P) (bn_next (bp_nodes P ! a)) ns'" "list_all2 (\<lambda>a msg. holds_block (bp_nodes P ! a) msg) ns' msgs"
    using less.prems(1,2) by (cases ns) auto
  define c where "c = drop (nat from) msg @ concat msgs"
  have cc: "c = msg ! nat from # (drop (nat (from + 1)) msg @ concat msgs)"
    using less.prems(3,4) by (simp add: c_def Cons_nth_drop_Suc [symmetric] nat_add_distrib)
  show ?case
  proof (cases "length c < length sep")
    case True
    with less.prems(6) find_sep_short [OF True] show ?thesis
      unfolding line_loop.simps [of P len sep i p "from" bytes] by (simp add: c_def [symmetric])
  next
    case long: False
    have cs: "check_sep P p from sep = Some (take (length sep) c = sep)"
      using check_sep_ok [OF less.prems(1-4)] long by (simp add: c_def)
    have fs: "find_sep sep c = (if take (length sep) c = sep then Some 0
        else map_option Suc (find_sep sep (drop (nat (from + 1)) msg @ concat msgs)))"
      by (simp add: cc)
    have ll: "\<not> len - int (length sep) < i" using long less.prems(6) by (simp add: c_def)
    show ?thesis
    proof (cases "take (length sep) c = sep")
      case True
      with cs fs ll show ?thesis unfolding line_loop.simps [of P len sep i p "from" bytes] by (simp add: c_def [symmetric])
    next
      case miss: False
      have step: "line_loop P len sep i p from bytes = (if bytes - 1 \<noteq> 0 then line_loop P len sep (i + 1) p (from + 1) (bytes - 1)
          else if bn_next (bp_nodes P ! a) = None then Some None
          else Option.bind (node_at P (bn_next (bp_nodes P ! a)))
            (\<lambda>node1. line_loop P len sep (i + 1) (bn_next (bp_nodes P ! a)) 0 (bn_sz node1)))"
        unfolding line_loop.simps [of P len sep i p "from" bytes] using cs miss ll a(1,2) by simp
      show ?thesis
      proof (cases "bytes - 1 = 0")
        case False
        let ?d = "drop (nat (from + 1)) msg @ concat msgs"
        have "line_loop P len sep (i + 1) p (from + 1) (bytes - 1) = Some (map_option (\<lambda>k. (i + 1) + int k) (find_sep sep ?d))"
        proof (rule less.hyps [OF _ less.prems(1,2)])
          show "length ?d < length (drop (nat from) msg @ concat msgs)" using cc by (simp add: c_def)
          show "len = i + 1 + int (length ?d)" using less.prems(6) unfolding c_def [symmetric] cc by simp
        qed (use less.prems False in auto)
        with step False fs miss show ?thesis by (auto simp: c_def [symmetric] option.map_comp comp_def add.assoc)
      next
        case True
        then have d: "drop (nat (from + 1)) msg = []" using less.prems(5) by simp
        show ?thesis
        proof (cases msgs)
          case Nil
          then have "bn_next (bp_nodes P ! a) = None" using a(4,5) by simp
          moreover have "sep \<noteq> []" using miss by auto
          ultimately show ?thesis unfolding c_def [symmetric] using step True fs miss d Nil by simp
        next
          case (Cons m2 ms)
          then obtain b ns2 where b: "bn_next (bp_nodes P ! a) = Some b" "b < length (bp_nodes P)" "holds_block (bp_nodes P ! b) m2"
            using a(4,5) by (cases ns') auto
          then have m2: "bn_sz (bp_nodes P ! b) = int (length m2)" "m2 \<noteq> []" by (simp_all add: holds_block_def)
          have "line_loop P len sep (i + 1) (bn_next (bp_nodes P ! a)) 0 (int (length m2)) =
              Some (map_option (\<lambda>k. (i + 1) + int k) (find_sep sep (drop (nat 0) m2 @ concat ms)))"
          proof (rule less.hyps [OF _ a(4) a(5) [unfolded Cons]])
            show "length (drop (nat 0) m2 @ concat ms) < length (drop (nat from) msg @ concat msgs)"
              using cc d Cons by (simp add: c_def)
            show "len = i + 1 + int (length (drop (nat 0) m2 @ concat ms))" using less.prems(6) unfolding c_def [symmetric] cc
              using d Cons by simp
          qed (use m2 in simp_all)
          with step True b m2 fs miss d Cons show ?thesis
            unfolding c_def [symmetric] by (auto simp: option.map_comp comp_def add.assoc)
        qed
      qed
    qed
  qed
qed

section \<open>Any number of buffers over one pool\<close>

text \<open>The calls of the Lua functions of the module on the buffers of a Lua state, with their results.\<close>

datatype sb_op =
    SB_New
  | SB_Push nat "byte list"
  | SB_Pop nat int
  | SB_Readall nat
  | SB_Clear nat
  | SB_Readline nat bool "byte list"

datatype sb_result = SB_None | SB_Size int | SB_Popped "byte list option" int | SB_All "byte list" | SB_Line line_result

type_synonym sb_state = "buffer_pool \<times> socket_buffer list"

definition on_buffer :: "nat \<Rightarrow> sb_state \<Rightarrow> (socket_buffer \<Rightarrow> buffer_pool \<Rightarrow> ('r \<times> socket_buffer \<times> buffer_pool) option) \<Rightarrow>
    ('r \<Rightarrow> sb_result) \<Rightarrow> (sb_result \<times> sb_state) option" where
  "on_buffer k st f g =
     (case st of (P, sbs) \<Rightarrow>
        map_option (\<lambda>(r, sb1, P1). (g r, P1, sbs[k := sb1])) (f (sbs ! k) P))"

fun sb_exec :: "sb_op \<Rightarrow> sb_state \<Rightarrow> (sb_result \<times> sb_state) option" where
  "sb_exec SB_New (P, sbs) = Some (SB_None, P, sbs @ [lnewbuffer])"
| "sb_exec (SB_Push k msg) st = on_buffer k st (\<lambda>sb P. lpushbuffer sb P msg (int (length msg))) SB_Size"
| "sb_exec (SB_Pop k sz) st = on_buffer k st (\<lambda>sb P. lpopbuffer sb P sz) (\<lambda>(s, n). SB_Popped s n)"
| "sb_exec (SB_Readall k) st = on_buffer k st lreadall SB_All"
| "sb_exec (SB_Clear k) st = on_buffer k st (\<lambda>sb P. map_option (Pair ()) (lclearbuffer sb P)) (\<lambda>_. SB_None)"
| "sb_exec (SB_Readline k check sep) st = on_buffer k st (\<lambda>sb P. lreadline sb P check sep) SB_Line"

fun sb_run :: "sb_op list \<Rightarrow> sb_state \<Rightarrow> (sb_result list \<times> sb_state) option" where
  "sb_run [] st = Some ([], st)"
| "sb_run (x # xs) st = do {
     (r, st1) \<leftarrow> sb_exec x st;
     (rs, st2) \<leftarrow> sb_run xs st1;
     Some (r # rs, st2)
   }"

text \<open>The specification: a byte queue for each buffer.\<close>

fun read_line :: "bool \<Rightarrow> byte list \<Rightarrow> byte list \<Rightarrow> line_result \<times> byte list" where
  "read_line check sep q =
     (case find_sep sep q of
        None \<Rightarrow> (No_Line, q)
      | Some i \<Rightarrow> if q = [] then (No_Line, q) else if check then (Line_Found, q) else (Line (take i q), drop (i + length sep) q))"

fun queue_exec :: "sb_op \<Rightarrow> byte list list \<Rightarrow> sb_result \<times> byte list list" where
  "queue_exec SB_New qs = (SB_None, qs @ [[]])"
| "queue_exec (SB_Push k msg) qs = (SB_Size (int (length (qs ! k @ msg))), qs[k := qs ! k @ msg])"
| "queue_exec (SB_Pop k sz) qs =
     (let q = qs ! k; n = nat sz in
      if length q < n \<or> n = 0 then (SB_Popped None (int (length q)), qs)
      else (SB_Popped (Some (take n q)) (int (length q - n)), qs[k := drop n q]))"
| "queue_exec (SB_Readall k) qs = (SB_All (qs ! k), qs[k := []])"
| "queue_exec (SB_Clear k) qs = (SB_None, qs[k := []])"
| "queue_exec (SB_Readline k check sep) qs =
     (case read_line check sep (qs ! k) of (r, q) \<Rightarrow> (SB_Line r, qs[k := q]))"

fun queue_run :: "sb_op list \<Rightarrow> byte list list \<Rightarrow> sb_result list \<times> byte list list" where
  "queue_run [] qs = ([], qs)"
| "queue_run (x # xs) qs =
     (case queue_exec x qs of (r, qs1) \<Rightarrow> case queue_run xs qs1 of (rs, qs2) \<Rightarrow> (r # rs, qs2))"

text \<open>A call is on a buffer that exists, with a block that is not empty and a size that is not negative.\<close>

fun op_ok :: "nat \<Rightarrow> sb_op \<Rightarrow> bool" where
  "op_ok n SB_New = True"
| "op_ok n (SB_Push k msg) = (k < n \<and> msg \<noteq> [])"
| "op_ok n (SB_Pop k sz) = (k < n \<and> 0 \<le> sz)"
| "op_ok n (SB_Readall k) = (k < n)"
| "op_ok n (SB_Clear k) = (k < n)"
| "op_ok n (SB_Readline k check sep) = (k < n)"

fun ops_ok :: "nat \<Rightarrow> sb_op list \<Rightarrow> bool" where
  "ops_ok n [] = True"
| "ops_ok n (x # xs) = (op_ok n x \<and> ops_ok (if x = SB_New then Suc n else n) xs)"

text \<open>The nodes are divided: each is free or in one buffer.\<close>

definition divided :: "sb_state \<Rightarrow> nat list list \<Rightarrow> nat list \<Rightarrow> byte list list list \<Rightarrow> bool" where
  "divided st nss fs msgss \<longleftrightarrow> (case st of (P, sbs) \<Rightarrow>
     length nss = length sbs \<and> length msgss = length sbs \<and>
     (\<forall>k < length sbs. chain_ok (bp_nodes P) (sbs ! k) (nss ! k) (msgss ! k) \<and> offset_ok (sbs ! k) (msgss ! k) \<and>
        sb_size (sbs ! k) = int (length (held_bytes (sbs ! k) (msgss ! k)))) \<and>
     free_ok P fs \<and> distinct (concat nss @ fs) \<and> set (concat nss @ fs) = {..<length (bp_nodes P)})"

definition queues_of :: "sb_state \<Rightarrow> byte list list \<Rightarrow> bool" where
  "queues_of st qs \<longleftrightarrow> (\<exists>nss fs msgss. divided st nss fs msgss \<and> qs = map2 held_bytes (snd st) msgss)"

lemma divided_at:
  assumes "divided (P, sbs) nss fs msgss" "k < length sbs"
  shows "buffer_owns P (sbs ! k) (nss ! k) (msgss ! k) fs" "offset_ok (sbs ! k) (msgss ! k)"
    "sb_size (sbs ! k) = int (length (held_bytes (sbs ! k) (msgss ! k)))"
proof -
  have d: "distinct (concat nss @ fs)" and k: "k < length nss" using assms by (simp_all add: divided_def)
  have "concat nss = concat (take k nss) @ nss ! k @ concat (drop (Suc k) nss)"
    by (metis k id_take_nth_drop concat.simps(2) concat_append)
  with d have "distinct (nss ! k @ fs)" by auto
  with assms show "buffer_owns P (sbs ! k) (nss ! k) (msgss ! k) fs" "offset_ok (sbs ! k) (msgss ! k)"
    "sb_size (sbs ! k) = int (length (held_bytes (sbs ! k) (msgss ! k)))" by (simp_all add: divided_def buffer_owns_def)
qed

lemma divided_step:
  assumes d: "divided (P, sbs) nss fs msgss" and k: "k < length sbs"
    and l: "leaves P (nss ! k) fs P' sb' q" and s: "sb_size sb' = int (length q)"
  shows "queues_of (P', sbs[k := sb']) ((map2 held_bytes sbs msgss)[k := q])"
proof -
  obtain ns' msgs' fs' where n: "buffer_owns P' sb' ns' msgs' fs'" "offset_ok sb' msgs'" "held_bytes sb' msgs' = q" "moved P (nss ! k) fs P' ns' fs'"
    using l by (auto simp: leaves_def)
  have len: "length nss = length sbs" "length msgss = length sbs" using d by (simp_all add: divided_def)
  define A B where "A = concat (take k nss)" and "B = concat (drop (Suc k) nss)"
  have old: "concat nss = A @ nss ! k @ B" unfolding A_def B_def by (metis k len(1) id_take_nth_drop concat.simps(2) concat_append)
  have new: "concat (nss[k := ns']) = A @ ns' @ B" using k len(1) by (simp add: A_def B_def upd_conv_take_nth_drop)
  have dist: "distinct (A @ nss ! k @ B @ fs)" and all: "set A \<union> set (nss ! k) \<union> set B \<union> set fs = {..<length (bp_nodes P)}"
    using d old by (simp_all add: divided_def Un_assoc)
  have m: "only_in (set (nss ! k) \<union> set fs) (bp_nodes P) (bp_nodes P')"
      "set ns' \<union> set fs' = set (nss ! k) \<union> set fs \<union> {length (bp_nodes P)..<length (bp_nodes P')}"
      "length (bp_nodes P) \<le> length (bp_nodes P')"
    using n(4) by (simp_all add: moved_def only_in_def)
  have AB: "set A \<subseteq> {..<length (bp_nodes P)}" "set B \<subseteq> {..<length (bp_nodes P)}" using all by auto
  have "(set A \<union> set B) \<inter> (set ns' \<union> set fs') = {}" unfolding m(2) using dist AB by auto
  then have "distinct (concat (nss[k := ns']) @ fs')"
    using dist n(1) unfolding new buffer_owns_def by auto
  moreover have "set (concat (nss[k := ns']) @ fs') = {..<length (bp_nodes P')}"
  proof -
    have "set (concat (nss[k := ns']) @ fs') = set A \<union> set B \<union> (set ns' \<union> set fs')" unfolding new by auto
    also have "\<dots> = {..<length (bp_nodes P)} \<union> {length (bp_nodes P)..<length (bp_nodes P')}" unfolding m(2) using all by auto
    also have "\<dots> = {..<length (bp_nodes P')}" using m(3) by auto
    finally show ?thesis .
  qed
  moreover have "chain_ok (bp_nodes P') (sbs[k := sb'] ! j) (nss[k := ns'] ! j) (msgss[k := msgs'] ! j) \<and>
      offset_ok (sbs[k := sb'] ! j) (msgss[k := msgs'] ! j) \<and>
      sb_size (sbs[k := sb'] ! j) = int (length (held_bytes (sbs[k := sb'] ! j) (msgss[k := msgs'] ! j)))" if j: "j < length sbs" for j
  proof (cases "j = k")
    case True
    with n s k len show ?thesis by (simp add: buffer_owns_def)
  next
    case False
    have "nss ! j \<in> set (take k nss) \<union> set (drop (Suc k) nss)"
    proof (cases "j < k")
      case True
      then have "nss ! j = take k nss ! j" "j < length (take k nss)" using j len by simp_all
      then show ?thesis by (metis UnI1 nth_mem)
    next
      case False
      then have "nss ! j = drop (Suc k) nss ! (j - Suc k)" "j - Suc k < length (drop (Suc k) nss)"
        using \<open>j \<noteq> k\<close> j len by simp_all
      then show ?thesis by (metis UnI2 nth_mem)
    qed
    then have "set (nss ! j) \<subseteq> set A \<union> set B" by (auto simp: A_def B_def)
    then have "set (nss ! j) \<inter> (set (nss ! k) \<union> set fs) = {}" using dist by auto
    then have "chain_ok (bp_nodes P') (sbs ! j) (nss ! j) (msgss ! j)"
      using chain_only_in [OF _ m(1)] d j by (simp add: divided_def)
    with d j False show ?thesis by (simp add: divided_def)
  qed
  ultimately have "divided (P', sbs[k := sb']) (nss[k := ns']) fs' (msgss[k := msgs'])"
    using n(1) len unfolding divided_def buffer_owns_def by simp
  moreover have "(map2 held_bytes sbs msgss)[k := q] = map2 held_bytes (sbs[k := sb']) (msgss[k := msgs'])"
    using n(3) by (simp add: zip_update map_update)
  ultimately show ?thesis unfolding queues_of_def by auto
qed

lemma queues_of_at:
  assumes "divided (P, sbs) nss fs msgss" "k < length sbs"
  shows "map2 held_bytes sbs msgss ! k = held_bytes (sbs ! k) (msgss ! k)"
  using assms by (simp add: divided_def)

text \<open>Each call does on the buffer what the specification does on the queue.\<close>

lemma lpopbuffer_ok:
  assumes "buffer_owns P sb ns msgs fs" "offset_ok sb msgs" "sb_size sb = int (length (held_bytes sb msgs))" "0 \<le> sz"
  shows "\<exists>P' sb' q. lpopbuffer sb P sz = Some ((if length (held_bytes sb msgs) < nat sz \<or> sz = 0 then None else Some (take (nat sz) (held_bytes sb msgs)),
       int (length q)), sb', P') \<and> leaves P ns fs P' sb' q \<and> sb_size sb' = int (length q) \<and>
     q = (if length (held_bytes sb msgs) < nat sz then held_bytes sb msgs else drop (nat sz) (held_bytes sb msgs))"
proof (cases "sb_size sb < sz \<or> sz = 0")
  case True
  have "leaves P ns fs P sb (held_bytes sb msgs)" unfolding leaves_def using assms(1,2) moved_refl by blast
  with True assms(3,4) show ?thesis by (auto simp: lpopbuffer_def)
next
  case False
  then have "msgs \<noteq> []" "sz \<le> int (length (held_bytes sb msgs))" using assms(3,4) by (auto simp: held_bytes_def)
  from pop_lstring_ok [OF assms(1,2) this(1) _ assms(4) this(2)] obtain P' sb' where
    "pop_lstring P sb sz 0 = Some (take (nat (sz - 0)) (held_bytes sb msgs), P', sb')"
    "leaves P ns fs P' sb' (drop (nat sz) (held_bytes sb msgs))" "sb_size sb' = sb_size sb" by blast
  with False assms(3,4) show ?thesis by (auto simp: lpopbuffer_def)
qed

lemma lreadline_ok:
  assumes "buffer_owns P sb ns msgs fs" "offset_ok sb msgs" "sb_size sb = int (length (held_bytes sb msgs))"
  shows "\<exists>P' sb'. lreadline sb P check sep = Some (fst (read_line check sep (held_bytes sb msgs)), sb', P') \<and>
    leaves P ns fs P' sb' (snd (read_line check sep (held_bytes sb msgs))) \<and>
    sb_size sb' = int (length (snd (read_line check sep (held_bytes sb msgs))))"
proof (cases msgs)
  case Nil
  then have "sb_head sb = None" "held_bytes sb msgs = []" using owns_head [OF assms(1)] by (simp_all add: held_bytes_def)
  moreover have "leaves P ns fs P sb (held_bytes sb msgs)" unfolding leaves_def using assms(1,2) moved_refl by blast
  ultimately show ?thesis using assms(3) by (auto simp: lreadline_def)
next
  case (Cons msg ms)
  obtain a ns' where ns: "ns = a # ns'" using owns_head(2) [OF assms(1)] Cons by (cases ns) auto
  have h: "sb_head sb = Some a" "a < length (bp_nodes P)" "holds_block (bp_nodes P ! a) msg"
    using owns_Cons [OF assms(1) [unfolded ns]] Cons by auto
  have off: "0 \<le> sb_offset sb" "sb_offset sb < int (length msg)" using assms(2) Cons by (simp_all add: offset_ok_def)
  have hd: "held_bytes sb msgs = drop (nat (sb_offset sb)) msg @ concat ms" using held_Cons off Cons by simp
  have "line_loop P (sb_size sb) sep 0 (sb_head sb) (sb_offset sb) (bn_sz (bp_nodes P ! a) - sb_offset sb) =
      Some (map_option (\<lambda>k. 0 + int k) (find_sep sep (held_bytes sb msgs)))"
    unfolding hd by (rule line_loop_ok [of P _ ns])
      (use assms(1,3) h(3) off hd Cons in \<open>simp_all add: buffer_owns_def chain_ok_def holds_block_def\<close>)
  then have l: "line_loop P (sb_size sb) sep 0 (Some a) (sb_offset sb) (bn_sz (bp_nodes P ! a) - sb_offset sb) =
      Some (map_option int (find_sep sep (held_bytes sb msgs)))" using h(1) by simp
  have ne: "held_bytes sb msgs \<noteq> []" using hd off by auto
  have stay: "leaves P ns fs P sb (held_bytes sb msgs)" unfolding leaves_def using assms(1,2) moved_refl by blast
  show ?thesis
  proof (cases "find_sep sep (held_bytes sb msgs)")
    case None
    with l h stay assms(3) show ?thesis by (simp add: lreadline_def)
  next
    case (Some i)
    note f = find_sep_Some [OF Some]
    show ?thesis
    proof (cases check)
      case True
      with Some l h stay ne assms(3) show ?thesis by (simp add: lreadline_def)
    next
      case False
      have "int i + int (length sep) \<le> int (length (held_bytes sb msgs))" using f by linarith
      from pop_lstring_ok [OF assms(1,2) _ _ _ this, of "int (length sep)"] Cons obtain P' sb' where
        "pop_lstring P sb (int i + int (length sep)) (int (length sep)) = Some (take i (held_bytes sb msgs), P', sb')"
        "leaves P ns fs P' sb' (drop (i + length sep) (held_bytes sb msgs))" "sb_size sb' = sb_size sb"
        by (auto simp: nat_int_add)
      with Some False l h ne assms(3) f show ?thesis by (simp add: lreadline_def)
    qed
  qed
qed

lemma on_buffer_ok:
  assumes d: "divided (P, sbs) nss fs msgss" and k: "k < length sbs"
    and f: "\<exists>P' sb'. f (sbs ! k) P = Some (r, sb', P') \<and> leaves P (nss ! k) fs P' sb' q \<and> sb_size sb' = int (length q)"
  shows "\<exists>st'. on_buffer k (P, sbs) f g = Some (g r, st') \<and> queues_of st' ((map2 held_bytes sbs msgss)[k := q]) \<and>
    length (snd st') = length sbs"
proof -
  obtain P' sb' where "f (sbs ! k) P = Some (r, sb', P')" "leaves P (nss ! k) fs P' sb' q" "sb_size sb' = int (length q)"
    using f by blast
  with divided_step [OF d k] show ?thesis by (simp add: on_buffer_def)
qed

lemma sb_exec_ok:
  assumes q: "queues_of st qs" and x: "op_ok (length (snd st)) x"
  shows "\<exists>st'. sb_exec x st = Some (fst (queue_exec x qs), st') \<and> queues_of st' (snd (queue_exec x qs)) \<and>
    length (snd st') = (if x = SB_New then Suc (length (snd st)) else length (snd st))"
proof -
  obtain P sbs where st: "st = (P, sbs)" by fastforce
  obtain nss fs msgss where d: "divided (P, sbs) nss fs msgss" and qs: "qs = map2 held_bytes sbs msgss"
    using q st by (auto simp: queues_of_def)
  note at = divided_at [OF d] and qk = queues_of_at [OF d] and on = on_buffer_ok [OF d]
  show ?thesis
  proof (cases x)
    case SB_New
    have "chain_ok m lnewbuffer [] []" "offset_ok lnewbuffer []" "held_bytes lnewbuffer [] = []" "sb_size lnewbuffer = 0" for m
      by (simp_all add: chain_ok_def lnewbuffer_def offset_ok_def held_bytes_def)
    then have "divided (P, sbs @ [lnewbuffer]) (nss @ [[]]) fs (msgss @ [[]])"
      using d by (auto simp: divided_def nth_append less_Suc_eq)
    moreover have "map2 held_bytes (sbs @ [lnewbuffer]) (msgss @ [[]]) = qs @ [[]]"
      using d qs by (simp add: divided_def held_bytes_def)
    ultimately have "queues_of (P, sbs @ [lnewbuffer]) (qs @ [[]])" unfolding queues_of_def by (metis snd_conv)
    with SB_New st show ?thesis by simp
  next
    case (SB_Push k msg)
    then have k: "k < length sbs" "msg \<noteq> []" using x st by simp_all
    have "\<exists>P' sb'. lpushbuffer (sbs ! k) P msg (int (length msg)) = Some (int (length (qs ! k @ msg)), sb', P') \<and>
        leaves P (nss ! k) fs P' sb' (qs ! k @ msg) \<and> sb_size sb' = int (length (qs ! k @ msg))"
      using lpushbuffer_ok [OF at(1,2) k(2)] at(3) k(1) qk [OF k(1)] qs by fastforce
    from on [OF k(1), of "\<lambda>sb P. lpushbuffer sb P msg (int (length msg))", OF this, of SB_Size] SB_Push st qs show ?thesis by simp
  next
    case (SB_Pop k sz)
    then have k: "k < length sbs" "0 \<le> sz" using x st by simp_all
    have e: "qs[k := qs ! k] = qs" "drop (nat 0) q = q" for q :: "byte list" by simp_all
    from lpopbuffer_ok [OF at(1,2,3) k(2)] k(1) obtain P' sb' q where p:
      "lpopbuffer (sbs ! k) P sz = Some ((if length (qs ! k) < nat sz \<or> sz = 0 then None else Some (take (nat sz) (qs ! k)), int (length q)), sb', P')"
      "leaves P (nss ! k) fs P' sb' q" "sb_size sb' = int (length q)"
      "q = (if length (qs ! k) < nat sz then qs ! k else drop (nat sz) (qs ! k))"
      unfolding qs qk [OF k(1)] by blast
    have "nat sz = 0 \<longleftrightarrow> sz = 0" using k(2) by simp
    then have "queue_exec (SB_Pop k sz) qs = (SB_Popped (if length (qs ! k) < nat sz \<or> sz = 0 then None else Some (take (nat sz) (qs ! k)))
        (int (length q)), qs[k := q])"
      using p(4) by (auto simp: Let_def)
    with on [OF k(1), of "\<lambda>sb P. lpopbuffer sb P sz" _ q "\<lambda>(s, n). SB_Popped s n"] p(1-3) SB_Pop st qs show ?thesis by fastforce
  next
    case (SB_Readall k)
    then have k: "k < length sbs" using x st by simp
    have "\<exists>P' sb'. lreadall (sbs ! k) P = Some (qs ! k, sb', P') \<and> leaves P (nss ! k) fs P' sb' [] \<and> sb_size sb' = int (length ([] :: byte list))"
      using readall_loop_ok [OF at(1,2), of k "[]"] k qk [OF k] qs by (auto simp: lreadall_def)
    from on [OF k, of lreadall, OF this, of SB_All] SB_Readall st qs show ?thesis by simp
  next
    case (SB_Clear k)
    then have k: "k < length sbs" using x st by simp
    have "\<exists>P' sb'. map_option (Pair ()) (lclearbuffer (sbs ! k) P) = Some ((), sb', P') \<and> leaves P (nss ! k) fs P' sb' [] \<and>
        sb_size sb' = int (length ([] :: byte list))"
    proof -
      obtain P' sb' where "clear_loop P (sbs ! k) = Some (P', sb')" "leaves P (nss ! k) fs P' sb' []"
        using clear_loop_ok [OF at(1,2)] k by blast
      then show ?thesis by (simp add: lclearbuffer_def)
    qed
    from on [OF k, of "\<lambda>sb P. map_option (Pair ()) (lclearbuffer sb P)", OF this, of "\<lambda>_. SB_None"] SB_Clear st qs show ?thesis by simp
  next
    case (SB_Readline k check sep)
    then have k: "k < length sbs" using x st by simp
    obtain r q where rq: "read_line check sep (qs ! k) = (r, q)" by fastforce
    have "\<exists>P' sb'. lreadline (sbs ! k) P check sep = Some (r, sb', P') \<and> leaves P (nss ! k) fs P' sb' q \<and> sb_size sb' = int (length q)"
      using lreadline_ok [OF at(1,2,3), of k check sep] k qk [OF k] qs rq by auto
    from on [OF k, of "\<lambda>sb P. lreadline sb P check sep", OF this, of SB_Line] SB_Readline st qs rq show ?thesis by simp
  qed
qed

lemma sb_run_ok:
  "queues_of st qs \<Longrightarrow> ops_ok (length (snd st)) xs \<Longrightarrow>
   \<exists>st'. sb_run xs st = Some (fst (queue_run xs qs), st') \<and> queues_of st' (snd (queue_run xs qs))"
proof (induction xs arbitrary: st qs)
  case (Cons x xs)
  have x: "op_ok (length (snd st)) x" using Cons.prems(2) by simp
  obtain st1 where s1: "sb_exec x st = Some (fst (queue_exec x qs), st1)" "queues_of st1 (snd (queue_exec x qs))"
      "length (snd st1) = (if x = SB_New then Suc (length (snd st)) else length (snd st))"
    using sb_exec_ok [OF Cons.prems(1) x] by blast
  then obtain st2 where "sb_run xs st1 = Some (fst (queue_run xs (snd (queue_exec x qs))), st2)"
      "queues_of st2 (snd (queue_run xs (snd (queue_exec x qs))))"
    using Cons.IH [OF s1(2)] Cons.prems(2) s1(3) by auto
  with s1(1) show ?case by (auto split: prod.splits)
qed simp

lemma queues_of_start: "queues_of (blank_pool, []) []"
proof -
  have "divided (blank_pool, []) [] [] []" by (simp add: divided_def free_ok_def blank_pool_def)
  then show ?thesis unfolding queues_of_def by auto
qed

lemma sb_run_start:
  assumes "ops_ok 0 xs"
  obtains st where "sb_run xs (blank_pool, []) = Some (fst (queue_run xs []), st)" "queues_of st (snd (queue_run xs []))"
proof -
  have "ops_ok (length (snd (blank_pool, [] :: socket_buffer list))) xs" using assms by simp
  from sb_run_ok [OF queues_of_start this] that show thesis by blast
qed

section \<open>Properties\<close>

text \<open>C23. The receive buffers are byte queues. For every sequence of calls on any number of buffers that share a
  pool, none crashes or fails to return, and each gives what a byte queue gives: a read of n bytes
  the next n, a line the bytes before the first separator (which is dropped, also when it lies over the
  end of blocks), and the sizes the number of bytes held.\<close>

theorem buffers_are_queues:
  assumes "ops_ok 0 xs"
  shows "\<exists>st. sb_run xs (blank_pool, []) = Some (fst (queue_run xs []), st) \<and> map sb_size (snd st) = map (int \<circ> length) (snd (queue_run xs []))"
proof -
  obtain st where st: "sb_run xs (blank_pool, []) = Some (fst (queue_run xs []), st)" "queues_of st (snd (queue_run xs []))"
    by (rule sb_run_start [OF assms])
  have "map sb_size (snd st) = map (int \<circ> length) (snd (queue_run xs []))"
    using st(2) by (cases st) (auto simp: queues_of_def divided_def intro!: nth_equalityI)
  with st(1) show ?thesis by blast
qed

text \<open>C24. After every sequence of calls the nodes of the pool are divided among the buffers and the free list: the
  chains from the heads of the buffers and from the free node are lists without a common node, together they hold
  every node, each buffer ends with its tail, and a block is at a node of a buffer and at no free one.\<close>

theorem pool_divided:
  assumes "ops_ok 0 xs" "sb_run xs (blank_pool, []) = Some (rs, P, sbs)"
  shows "\<exists>nss fs. length nss = length sbs \<and> distinct (concat nss @ fs) \<and> set (concat nss @ fs) = {..<length (bp_nodes P)} \<and>
    node_path (bp_nodes P) (bp_free P) fs \<and> (\<forall>a \<in> set fs. bn_msg (bp_nodes P ! a) = None) \<and>
    (\<forall>k < length sbs. node_path (bp_nodes P) (sb_head (sbs ! k)) (nss ! k) \<and>
       sb_tail (sbs ! k) = (if nss ! k = [] then None else Some (last (nss ! k))) \<and>
       (\<forall>a \<in> set (nss ! k). bn_msg (bp_nodes P ! a) \<noteq> None))"
proof -
  obtain nss fs msgss where "divided (P, sbs) nss fs msgss"
  proof -
    obtain st where "sb_run xs (blank_pool, []) = Some (fst (queue_run xs []), st)" "queues_of st (snd (queue_run xs []))"
      by (rule sb_run_start [OF assms(1)])
    with assms(2) have "queues_of (P, sbs) (snd (queue_run xs []))" by simp
    with that show thesis unfolding queues_of_def by blast
  qed
  then have d: "length nss = length sbs" "free_ok P fs" "distinct (concat nss @ fs)" "set (concat nss @ fs) = {..<length (bp_nodes P)}"
      "\<forall>k < length sbs. chain_ok (bp_nodes P) (sbs ! k) (nss ! k) (msgss ! k)"
    by (simp_all add: divided_def)
  moreover have "bn_msg (bp_nodes P ! a) \<noteq> None" if "k < length sbs" "a \<in> set (nss ! k)" for k a
    using d(5) that by (fastforce simp: chain_ok_def list_all2_conv_all_nth holds_block_def in_set_conv_nth)
  ultimately show ?thesis
    by (intro exI [of _ nss] exI [of _ fs]) (auto simp: free_ok_def chain_ok_def)
qed

definition line_session :: "sb_op list" where
  "line_session = [SB_New, SB_New, SB_Push 0 (str ''GET /''), SB_Push 1 (str ''xy''), SB_Push 0 [13], SB_Push 0 (10 # str ''rest''),
     SB_Readline 0 True [13, 10], SB_Readline 0 False [13, 10], SB_Pop 1 1, SB_Pop 0 9, SB_Readall 0]"

lemma buffers_are_queues_witness:
  "\<exists>st. sb_run line_session (blank_pool, []) = Some ([SB_None, SB_None, SB_Size 5, SB_Size 2, SB_Size 6, SB_Size 11,
     SB_Line Line_Found, SB_Line (Line (str ''GET /'')), SB_Popped (Some (str ''x'')) 1, SB_Popped None 4, SB_All (str ''rest'')], st) \<and>
   map sb_size (snd st) = [0, 1]"
proof -
  have "queue_run line_session [] = ([SB_None, SB_None, SB_Size 5, SB_Size 2, SB_Size 6, SB_Size 11,
     SB_Line Line_Found, SB_Line (Line (str ''GET /'')), SB_Popped (Some (str ''x'')) 1, SB_Popped None 4, SB_All (str ''rest'')], [[], str ''y''])"
    by code_simp
  moreover have "ops_ok 0 line_session" by code_simp
  ultimately show ?thesis using buffers_are_queues [of line_session] by (simp add: str_def)
qed

lemma pool_divided_witness:
  "\<exists>rs P sbs. sb_run line_session (blank_pool, []) = Some (rs, P, sbs) \<and>
     (\<exists>nss fs. distinct (concat nss @ fs) \<and> set (concat nss @ fs) = {..<length (bp_nodes P)})"
proof -
  have ok: "ops_ok 0 line_session" by code_simp
  obtain rs P sbs where "sb_run line_session (blank_pool, []) = Some (rs, P, sbs)"
    using sb_run_start [OF ok] by (metis prod.collapse)
  with pool_divided [OF ok this] show ?thesis by blast
qed

section \<open>The length of a package\<close>

lemma lheader_be: "1 \<le> length s \<Longrightarrow> length s \<le> 4 \<Longrightarrow> lheader s = Some (be_nat s)"
  by (cases s) (simp_all add: lheader_def be_nat_def mult.commute)

end
