(* ===== verification/Mtask_Socket.thy ===== *)
theory Mtask_Socket
  imports Server_Run Socket_Net
begin

text \<open>
  The socket server as the services of a node see it (\<open>mtask-src/mtask_socket.c\<close>): the socket thread
  turns each event into a message for the service that owns the socket, and the services' calls go
  to the socket server with their handles. A message is the bytes of a \<open>struct mtask_socket_message\<close>; a received
  block is named by its address.
\<close>

section \<open>Messages\<close>

definition MTASK_SOCKET_TYPE_DATA :: int where "MTASK_SOCKET_TYPE_DATA = 1"
definition MTASK_SOCKET_TYPE_CONNECT :: int where "MTASK_SOCKET_TYPE_CONNECT = 2"
definition MTASK_SOCKET_TYPE_CLOSE :: int where "MTASK_SOCKET_TYPE_CLOSE = 3"
definition MTASK_SOCKET_TYPE_ACCEPT :: int where "MTASK_SOCKET_TYPE_ACCEPT = 4"
definition MTASK_SOCKET_TYPE_ERROR :: int where "MTASK_SOCKET_TYPE_ERROR = 5"
definition MTASK_SOCKET_TYPE_UDP :: int where "MTASK_SOCKET_TYPE_UDP = 6"
definition MTASK_SOCKET_TYPE_WARNING :: int where "MTASK_SOCKET_TYPE_WARNING = 7"

text \<open>
  The struct: three integers, four bytes to align, and a pointer. What \<open>malloc\<close> leaves in the four bytes
  is not defined; nothing reads them.
\<close>

definition socket_message_bytes :: "int \<Rightarrow> int \<Rightarrow> int \<Rightarrow> u64 \<Rightarrow> byte list" where
  "socket_message_bytes t sid ud buffer =
     le32 (word_of_int t) @ le32 (word_of_int sid) @ le32 (word_of_int ud) @ replicate 4 0 @ le64 buffer"

definition SIZEOF_SOCKET_MESSAGE :: nat where "SIZEOF_SOCKET_MESSAGE = 24"

text \<open>A node: its services, its socket server, and the received blocks that were handed on.\<close>

record 'k node =
  nd_server :: server
  nd_net :: "'k socket_server"
  nd_block :: "u64 \<Rightarrow> byte list option"
  nd_brk :: nat

section \<open>Events to messages\<close>

text \<open>
  The pointer that goes into the message, and the text behind the struct. A text that is not copied, or
  a received block taken for a text, would be undefined when it is freed or measured: it is the crash here, and
  no event has this form (\<open>event_shape\<close>).
\<close>

definition message_parts :: "bool \<Rightarrow> sm_data \<Rightarrow> 'k node \<Rightarrow> (u64 \<times> byte list \<times> 'k node) option" where
  "message_parts padding data nd =
     (case data of
        Null \<Rightarrow> Some (0, [], nd)
      | Text t \<Rightarrow> if padding then Some (0, t, nd) else None
      | Received bs \<Rightarrow>
          if padding then None
          else let a = of_nat (nd_brk nd) in
            Some (a, [], nd\<lparr>nd_block := (nd_block nd)(a := Some bs), nd_brk := nd_brk nd + 1\<rparr>))"

definition forward_message :: "int \<Rightarrow> bool \<Rightarrow> socket_message \<Rightarrow> 'k node \<Rightarrow> 'k node option" where
  "forward_message t padding result nd = do {
     (buffer, text, nd1) \<leftarrow> message_parts padding (sm_data result) nd;
     let sz = SIZEOF_SOCKET_MESSAGE + length text;
     let sm = socket_message_bytes t (sm_id result) (sm_ud result) buffer @ text;
     let message = \<lparr>msg_source = 0, msg_session = 0, msg_data = Some sm,
                    msg_sz = of_nat sz OR push_bit MESSAGE_TYPE_SHIFT (word_of_int PTYPE_SOCKET)\<rparr>;
     (r, s) \<leftarrow> mtask_context_push (sm_opaque result) message (nd_server nd1);
     let nd2 = nd1\<lparr>nd_server := s\<rparr>;
     Some (if r \<noteq> 0 then nd2\<lparr>nd_block := (nd_block nd2)(buffer := None)\<rparr> else nd2)
   }"

definition mtask_socket_poll :: "'k kernel \<Rightarrow> 'k node \<Rightarrow> (int \<times> 'k node) option" where
  "mtask_socket_poll K nd = do {
     (r, again, ss) \<leftarrow> socket_server_poll K True (nd_net nd);
     let nd1 = nd\<lparr>nd_net := ss\<rparr>;
     let done = (\<lambda>nd2. (if again then -1 else 1, nd2));
     (case r of
        None \<Rightarrow> do {
          s \<leftarrow> mtask_error None (str ''Unknown socket message type -1.'') (nd_server nd1);
          Some (-1, nd1\<lparr>nd_server := s\<rparr>)
        }
      | Some (e, result) \<Rightarrow>
          (case e of
             SOCKET_EXIT \<Rightarrow> Some (0, nd1)
           | SOCKET_DATA \<Rightarrow> map_option done (forward_message MTASK_SOCKET_TYPE_DATA False result nd1)
           | SOCKET_CLOSE \<Rightarrow> map_option done (forward_message MTASK_SOCKET_TYPE_CLOSE False result nd1)
           | SOCKET_OPEN \<Rightarrow> map_option done (forward_message MTASK_SOCKET_TYPE_CONNECT True result nd1)
           | SOCKET_ERROR \<Rightarrow> map_option done (forward_message MTASK_SOCKET_TYPE_ERROR False result nd1)
           | SOCKET_ACCEPT \<Rightarrow> map_option done (forward_message MTASK_SOCKET_TYPE_ACCEPT True result nd1)
           | SOCKET_UDP \<Rightarrow> map_option done (forward_message MTASK_SOCKET_TYPE_UDP False result nd1)))
   }"

section \<open>The calls of services\<close>

definition context_handle :: "ctxid \<Rightarrow> server \<Rightarrow> u32 option" where
  "context_handle ctx s = map_option ctx_handle (sv_ctx s ctx)"

text \<open>A backlog of more than 1M gives the service a warning about its socket.\<close>

definition check_wsz :: "ctxid \<Rightarrow> int \<Rightarrow> int \<Rightarrow> server \<Rightarrow> (int \<times> server) option" where
  "check_wsz ctx sid wsz s =
     (if wsz < 0 then Some (-1, s)
      else if 1024 * 1024 < wsz then do {
        handle \<leftarrow> context_handle ctx s;
        (_, s1) \<leftarrow> mtask_send (Some ctx) 0 handle PTYPE_SOCKET 0
          (Some (socket_message_bytes MTASK_SOCKET_TYPE_WARNING sid (as_int (wsz div 1024)) 0))
          (of_nat SIZEOF_SOCKET_MESSAGE) s;
        Some (0, s1)
      }
      else Some (0, s))"

definition mtask_socket_send :: "ctxid \<Rightarrow> int \<Rightarrow> addr \<Rightarrow> int \<Rightarrow> 'k node \<Rightarrow> (int \<times> 'k node) option" where
  "mtask_socket_send ctx sid buffer sz nd = do {
     (wsz, ss) \<leftarrow> socket_server_send sid buffer sz (nd_net nd);
     (r, s) \<leftarrow> check_wsz ctx sid wsz (nd_server nd);
     Some (r, nd\<lparr>nd_net := ss, nd_server := s\<rparr>)
   }"

definition mtask_socket_udp_send :: "ctxid \<Rightarrow> int \<Rightarrow> byte list \<Rightarrow> addr \<Rightarrow> int \<Rightarrow> 'k node \<Rightarrow> (int \<times> 'k node) option" where
  "mtask_socket_udp_send ctx sid address buffer sz nd = do {
     (wsz, ss) \<leftarrow> socket_server_udp_send sid address buffer sz (nd_net nd);
     (r, s) \<leftarrow> check_wsz ctx sid wsz (nd_server nd);
     Some (r, nd\<lparr>nd_net := ss, nd_server := s\<rparr>)
   }"

definition mtask_socket_send_lowpriority :: "int \<Rightarrow> addr \<Rightarrow> int \<Rightarrow> 'k node \<Rightarrow> 'k node option" where
  "mtask_socket_send_lowpriority sid buffer sz nd =
     map_option (\<lambda>ss. nd\<lparr>nd_net := ss\<rparr>) (socket_server_send_lowpriority sid buffer sz (nd_net nd))"

text \<open>The calls with the handle of the service as the owner.\<close>

definition as_owner :: "ctxid \<Rightarrow> 'k node \<Rightarrow> (u32 \<Rightarrow> 'k socket_server \<Rightarrow> ('r \<times> 'k socket_server) option) \<Rightarrow> ('r \<times> 'k node) option" where
  "as_owner ctx nd f = do {
     source \<leftarrow> context_handle ctx (nd_server nd);
     (r, ss) \<leftarrow> f source (nd_net nd);
     Some (r, nd\<lparr>nd_net := ss\<rparr>)
   }"

definition mtask_socket_listen :: "'k kernel \<Rightarrow> ctxid \<Rightarrow> byte list option \<Rightarrow> int \<Rightarrow> int \<Rightarrow> 'k node \<Rightarrow> (int \<times> 'k node) option" where
  "mtask_socket_listen K ctx host port backlog nd =
     as_owner ctx nd (\<lambda>source. socket_server_listen K source host port backlog)"

definition mtask_socket_connect :: "ctxid \<Rightarrow> byte list \<Rightarrow> int \<Rightarrow> 'k node \<Rightarrow> (int \<times> 'k node) option" where
  "mtask_socket_connect ctx host port nd = as_owner ctx nd (\<lambda>source ss. Some (socket_server_connect source host port ss))"

definition mtask_socket_bind :: "ctxid \<Rightarrow> int \<Rightarrow> 'k node \<Rightarrow> (int \<times> 'k node) option" where
  "mtask_socket_bind ctx fd nd = as_owner ctx nd (\<lambda>source ss. Some (socket_server_bind source fd ss))"

definition mtask_socket_close :: "ctxid \<Rightarrow> int \<Rightarrow> 'k node \<Rightarrow> (unit \<times> 'k node) option" where
  "mtask_socket_close ctx sid nd = as_owner ctx nd (\<lambda>source ss. Some ((), socket_server_close source sid ss))"

definition mtask_socket_start :: "ctxid \<Rightarrow> int \<Rightarrow> 'k node \<Rightarrow> (unit \<times> 'k node) option" where
  "mtask_socket_start ctx sid nd = as_owner ctx nd (\<lambda>source ss. Some ((), socket_server_start source sid ss))"

definition mtask_socket_nodelay :: "int \<Rightarrow> 'k node \<Rightarrow> 'k node" where
  "mtask_socket_nodelay sid nd = nd\<lparr>nd_net := socket_server_nodelay sid (nd_net nd)\<rparr>"

definition mtask_socket_udp :: "'k kernel \<Rightarrow> ctxid \<Rightarrow> byte list option \<Rightarrow> int \<Rightarrow> 'k node \<Rightarrow> (int \<times> 'k node) option" where
  "mtask_socket_udp K ctx addr port nd = as_owner ctx nd (\<lambda>source. socket_server_udp K source addr port)"

definition mtask_socket_udp_connect :: "'k kernel \<Rightarrow> int \<Rightarrow> byte list \<Rightarrow> int \<Rightarrow> 'k node \<Rightarrow> (int \<times> 'k node) option" where
  "mtask_socket_udp_connect K sid addr port nd =
     map_option (\<lambda>(r, ss). (r, nd\<lparr>nd_net := ss\<rparr>)) (socket_server_udp_connect K sid addr port (nd_net nd))"

text \<open>The address behind a received UDP package.\<close>

definition mtask_socket_udp_address :: "int \<Rightarrow> int \<Rightarrow> byte list \<Rightarrow> byte list option option" where
  "mtask_socket_udp_address t ud buffer =
     (if t \<noteq> MTASK_SOCKET_TYPE_UDP then Some None else socket_server_udp_address buffer (nat ud))"

end
