(* ===== verification/Mtask_Socket_Events.thy ===== *)
theory Mtask_Socket_Events
  imports Mtask_Socket
begin

text \<open>
  Every event of the socket server becomes one message for the service that owns the socket, with
  the block it received, or the block is freed when there is no such service; and warnings about a
  backlog reach the service that sends.
\<close>

section \<open>What events carry\<close>

definition event_shape :: "socket_event \<Rightarrow> sm_data \<Rightarrow> bool" where
  "event_shape e d =
     (case d of
        Null \<Rightarrow> e \<noteq> SOCKET_DATA \<and> e \<noteq> SOCKET_UDP
      | Text _ \<Rightarrow> e = SOCKET_OPEN \<or> e = SOCKET_ACCEPT
      | Received _ \<Rightarrow> e = SOCKET_DATA \<or> e = SOCKET_UDP)"

definition shaped :: "'k result \<Rightarrow> bool" where
  "shaped x \<longleftrightarrow> (\<forall>e m ss. x = Some (Some (e, m), ss) \<longrightarrow> event_shape e (sm_data m))"

lemma shapedD: "shaped x \<Longrightarrow> x = Some (Some (e, m), ss) \<Longrightarrow> event_shape e (sm_data m)"
  by (simp add: shaped_def)

lemma shaped_simps [simp]: "shaped None" "shaped (Some (None, ss))"
  "shaped (Some (Some (e, m), ss)) \<longleftrightarrow> event_shape e (sm_data m)"
  by (simp_all add: shaped_def)

lemma shaped_bind: "(\<And>a. x = Some a \<Longrightarrow> shaped (f a)) \<Longrightarrow> shaped (Option.bind x f)"
  by (cases x) simp_all

lemma text_shape: "event_shape SOCKET_OPEN (text_data t)" "event_shape SOCKET_ACCEPT (text_data t)"
  by (simp_all add: event_shape_def text_data_def split: option.splits)

lemma null_shape: "e \<noteq> SOCKET_DATA \<Longrightarrow> e \<noteq> SOCKET_UDP \<Longrightarrow> event_shape e Null"
  by (simp add: event_shape_def)

lemma force_close_null: "force_close K i ss = Some (m, ss') \<Longrightarrow> sm_data m = Null"
  by (auto simp: force_close_def Let_def split: if_splits Option.bind_splits)

lemma shaped_map: "shaped (map_option (\<lambda>ss1. (None, ss1)) x)" "shaped (map_option (Pair None) x)"
  by (cases x; simp)+

named_theorems shape

lemmas [shape] = text_shape null_shape

lemma open_shaped [shape]: "shaped (open_socket K i port opaque host ss)"
  by (auto simp: open_socket_def Let_def intro!: shape shaped_bind split: prod.splits option.splits)

lemma send_tcp_shaped: "shaped (send_tcp_loop K i pr l ss)"
  by (induction K i pr l ss rule: send_tcp_loop.induct)
    (auto simp: Let_def intro!: shape shaped_bind dest!: force_close_null split: prod.splits io_result.splits)

lemma send_udp_shaped: "shaped (send_udp_loop K i pr l ss)"
  by (induction K i pr l ss rule: send_udp_loop.induct)
    (auto simp: Let_def intro!: shape shaped_bind split: prod.splits io_result.splits)

lemma send_list_shaped [shape]: "shaped (send_list K i pr ss)"
  by (simp add: send_list_def send_list_tcp_def send_list_udp_def send_tcp_shaped send_udp_shaped)

lemma send_buffer_shaped [shape]: "shaped (send_buffer K i ss)"
  unfolding send_buffer_def
  by (auto simp: Let_def null_shape intro!: shaped_bind dest!: force_close_null split: prod.splits)
    (erule shapedD [OF send_list_shaped])+

lemma send_socket_shaped [shape]: "shaped (send_socket K sid sz buffer pr udp_address ss)"
  unfolding send_socket_def send_direct_tcp_def send_direct_udp_def
  by (auto simp: Let_def null_shape intro!: shape shaped_bind dest!: force_close_null split: prod.splits io_result.splits)

lemma close_shaped [shape]: "shaped (close_socket K sid opaque ss)"
  unfolding close_socket_def Let_def
  by (auto simp: null_shape intro!: shaped_bind dest!: force_close_null split: prod.splits)
    (erule shapedD [OF send_buffer_shaped])+

lemma command_shaped [shape]: "shaped (listen_socket K sid fd opaque ss)" "shaped (bind_socket K sid fd opaque ss)"
  "shaped (start_socket K sid opaque ss)" "shaped (set_udp_address sid address ss)"
  unfolding listen_socket_def bind_socket_def start_socket_def set_udp_address_def Let_def
  by (auto simp: event_shape_def intro!: shaped_bind split: prod.splits)

lemma ctrl_shaped: "shaped (ctrl_cmd K ss)"
  by (auto simp: ctrl_cmd_def Let_def shaped_map blank_message_def event_shape_def intro!: shape split: list.splits request.splits option.splits)

lemma forward_tcp_shaped: "shaped (forward_message_tcp K i ss)"
  unfolding forward_message_tcp_def
  by (auto simp: Let_def null_shape event_shape_def intro!: shape shaped_bind dest!: force_close_null split: prod.splits read_result.splits)

lemma forward_udp_shaped: "shaped (forward_message_udp K i ss)"
  unfolding forward_message_udp_def
  by (auto simp: Let_def null_shape event_shape_def intro!: shape shaped_bind dest!: force_close_null split: prod.splits recv_result.splits)

lemma report_connect_shaped: "shaped (report_connect K i ss)"
  unfolding report_connect_def
  by (auto simp: Let_def null_shape intro!: shape shaped_bind dest!: force_close_null split: prod.splits)

lemma report_accept_shaped: "shaped (map_option (\<lambda>(m, ss1). (map_option (Pair SOCKET_ACCEPT) m, ss1)) (report_accept K i ss))"
  unfolding report_accept_def
  by (auto simp: Let_def shaped_def intro!: shape split: prod.splits option.splits if_splits Option.bind_splits)

lemma event_default_shaped: "shaped (event_default K e i ss)"
proof -
  have f: "shaped (if so_protocol (ss_slot ss i) = PROTOCOL_TCP then forward_message_tcp K i ss else forward_message_udp K i ss)"
    by (simp add: forward_tcp_shaped forward_udp_shaped)
  show ?thesis
    using f send_buffer_shaped [of K i ss] unfolding event_default_def
    by (auto simp: shaped_def cleared_def split: if_splits Option.bind_splits option.splits prod.splits)
qed

lemma dispatch_shaped: "shaped (dispatch_event K e ss)"
  by (auto simp: dispatch_event_def event_default_shaped report_connect_shaped report_accept_shaped
      split: option.splits socket_type.splits)

lemma turn_shape: "poll_turn K mo ss = Some (Return (Some (e, m)), mo', ss') \<Longrightarrow> event_shape e (sm_data m)"
  using ctrl_shaped [of K ss]
  by (auto simp: poll_turn_def next_event_def turn_of_def cleared_def Let_def
      intro: shapedD [OF ctrl_shaped] split: if_splits option.splits prod.splits)
    (erule shapedD [OF dispatch_shaped] shapedD [OF ctrl_shaped])+

lemma poll_shape:
  assumes "socket_server_poll K mo ss = Some (Some (e, m), mo', ss')"
  shows "event_shape e (sm_data m)"
proof -
  have "\<forall>e' m'. fst (Some (e, m), mo', ss') = Some (e', m') \<longrightarrow> event_shape e' (sm_data m')"
  proof (rule socket_server_poll.raw_induct [OF _ assms, of "\<lambda>K mo ss y. \<forall>e m. fst y = Some (e, m) \<longrightarrow> event_shape e (sm_data m)"])
    fix poll :: "'a kernel \<Rightarrow> bool \<Rightarrow> 'a socket_server \<Rightarrow> ((socket_event \<times> socket_message) option \<times> bool \<times> 'a socket_server) option"
      and K mo ss y
    assume "\<And>K mo ss y. poll K mo ss = Some y \<Longrightarrow> \<forall>e m. fst y = Some (e, m) \<longrightarrow> event_shape e (sm_data m)"
      and "Option.bind (poll_turn K mo ss) (\<lambda>(t, mo1, ss1). case t of Continue \<Rightarrow> poll K mo1 ss1 | Return r \<Rightarrow> Some (r, mo1, ss1)) = Some y"
    then show "\<forall>e m. fst y = Some (e, m) \<longrightarrow> event_shape e (sm_data m)"
      by (auto split: Option.bind_splits prod.splits turn.splits dest: turn_shape)
  qed
  then show ?thesis by simp
qed

section \<open>Delivery\<close>

definition type_code :: "socket_event \<Rightarrow> int" where
  "type_code e =
     (case e of
        SOCKET_DATA \<Rightarrow> MTASK_SOCKET_TYPE_DATA
      | SOCKET_CLOSE \<Rightarrow> MTASK_SOCKET_TYPE_CLOSE
      | SOCKET_OPEN \<Rightarrow> MTASK_SOCKET_TYPE_CONNECT
      | SOCKET_ACCEPT \<Rightarrow> MTASK_SOCKET_TYPE_ACCEPT
      | SOCKET_ERROR \<Rightarrow> MTASK_SOCKET_TYPE_ERROR
      | SOCKET_UDP \<Rightarrow> MTASK_SOCKET_TYPE_UDP
      | SOCKET_EXIT \<Rightarrow> 0)"

definition payload :: "sm_data \<Rightarrow> byte list" where
  "payload d = (case d of Null \<Rightarrow> [] | Text t \<Rightarrow> t | Received bs \<Rightarrow> bs)"

text \<open>What a service reads in a message: type, socket, number, and the block or the text behind the struct.\<close>

definition read_message :: "(u64 \<Rightarrow> byte list option) \<Rightarrow> byte list \<Rightarrow> int \<times> int \<times> int \<times> byte list" where
  "read_message blocks b =
     (let p = un_le64 (take 8 (drop 16 b)) in
      (sint (un_le32 (take 4 b)), sint (un_le32 (take 4 (drop 4 b))), sint (un_le32 (take 4 (drop 8 b))),
       if p = 0 then drop SIZEOF_SOCKET_MESSAGE b else case blocks p of None \<Rightarrow> [] | Some bs \<Rightarrow> bs))"

definition blocks_ok :: "'k node \<Rightarrow> bool" where
  "blocks_ok nd \<longleftrightarrow> 0 < nd_brk nd \<and> nd_brk nd < 2 ^ 64 \<and> nd_block nd 0 = None \<and> nd_block nd (of_nat (nd_brk nd)) = None"

lemma blocks_ok_address: "blocks_ok nd \<Longrightarrow> (of_nat (nd_brk nd) :: u64) \<noteq> 0"
proof
  assume ok: "blocks_ok nd" and z: "(of_nat (nd_brk nd) :: u64) = 0"
  have "unat (of_nat (nd_brk nd) :: u64) = nd_brk nd" using ok by (simp add: blocks_ok_def unat_of_nat)
  with ok z show False by (simp add: blocks_ok_def)
qed

lemma read_message_bytes:
  "read_message blocks (socket_message_bytes t sid ud p @ rest) =
     (as_int t, as_int sid, as_int ud, if p = 0 then rest else case blocks p of None \<Rightarrow> [] | Some bs \<Rightarrow> bs)"
proof -
  have l: "length (le32 w) = 4" "length (le64 p) = 8" for w by (simp_all add: length_codec)
  have "take 4 (socket_message_bytes t sid ud p @ rest) = le32 (word_of_int t)"
    "take 4 (drop 4 (socket_message_bytes t sid ud p @ rest)) = le32 (word_of_int sid)"
    "take 4 (drop 8 (socket_message_bytes t sid ud p @ rest)) = le32 (word_of_int ud)"
    "take 8 (drop 16 (socket_message_bytes t sid ud p @ rest)) = le64 p"
    "drop 24 (socket_message_bytes t sid ud p @ rest) = rest"
    by (simp_all add: socket_message_bytes_def l)
  then show ?thesis by (cases "p = 0") (simp_all add: read_message_def as_int_def SIZEOF_SOCKET_MESSAGE_def del: take_append drop_append)
qed

lemma length_message_bytes: "length (socket_message_bytes t sid ud p) = SIZEOF_SOCKET_MESSAGE"
  by (simp add: socket_message_bytes_def SIZEOF_SOCKET_MESSAGE_def length_codec)

definition padding_of :: "socket_event \<Rightarrow> bool" where
  "padding_of e \<longleftrightarrow> e = SOCKET_OPEN \<or> e = SOCKET_ACCEPT"

lemma poll_forwards:
  assumes "socket_server_poll K True (nd_net nd) = Some (Some (e, m), again, ss)" "e \<noteq> SOCKET_EXIT"
  shows "mtask_socket_poll K nd = map_option (Pair (if again then -1 else 1)) (forward_message (type_code e) (padding_of e) m (nd\<lparr>nd_net := ss\<rparr>))"
  using assms by (cases e) (simp_all add: mtask_socket_poll_def type_code_def padding_of_def)

text \<open>The pointer and the text, and the node with the block that was received.\<close>

lemma parts_ok:
  assumes "event_shape e d" "blocks_ok nd"
  obtains p rest nd1 where "message_parts (padding_of e) d nd = Some (p, rest, nd1)"
    "nd_server nd1 = nd_server nd" "nd_net nd1 = nd_net nd" "length rest \<le> length (payload d)"
    "read_message (nd_block nd1) (socket_message_bytes t sid ud p @ rest) = (as_int t, as_int sid, as_int ud, payload d)"
    "(nd_block nd1)(p := None) = nd_block nd"
proof (cases d)
  case Null
  from that [of 0 "[]" nd] Null assms(2) read_message_bytes [of _ t sid ud 0 "[]"] show thesis
    by (simp add: message_parts_def payload_def blocks_ok_def fun_upd_idem)
next
  case (Text x)
  with assms(1) have "padding_of e" by (simp add: event_shape_def padding_of_def)
  with that [of 0 x nd] Text assms(2) show thesis
    by (simp add: message_parts_def read_message_bytes payload_def blocks_ok_def fun_upd_idem)
next
  case (Received bs)
  with assms(1) have "\<not> padding_of e" by (auto simp: event_shape_def padding_of_def)
  with that [of "of_nat (nd_brk nd)" "[]" "nd\<lparr>nd_block := (nd_block nd)(of_nat (nd_brk nd) := Some bs), nd_brk := nd_brk nd + 1\<rparr>"]
    Received assms(2) blocks_ok_address [OF assms(2)]
      read_message_bytes [of _ t sid ud "of_nat (nd_brk nd)" "[]"] show thesis
    by (simp add: message_parts_def read_message_bytes payload_def blocks_ok_def fun_upd_idem Let_def)
qed

lemma message_size:
  assumes "n < 2 ^ 56"
  shows "(of_nat n :: u64) AND MESSAGE_TYPE_MASK = of_nat n"
proof -
  have m: "MESSAGE_TYPE_MASK = (mask 56 :: u64)" by (simp add: MESSAGE_TYPE_MASK_def mask_eq_exp_minus_1)
  have n: "unat (of_nat n :: u64) = n" using assms by (simp add: unat_of_nat)
  show ?thesis unfolding word_unat_eq_iff m unat_and_mask n using assms by simp
qed

text \<open>C12. An event of the socket server becomes exactly one message, the last in the queue of the service that owns the
  socket: from 0 with session 0, of type PTYPE_SOCKET and its size, and the service reads in it the type of the event,
  the socket, the number and all received bytes or the text. No other queue changes.\<close>

theorem event_delivered:
  assumes inv: "server_inv held h (nd_server nd)" and poll: "socket_server_poll K True (nd_net nd) = Some (Some (e, m), again, ss)"
    and e: "e \<noteq> SOCKET_EXIT" and c: "lookup (nd_server nd) (sm_opaque m) = Some c"
    and ok: "blocks_ok nd" and len: "length (payload (sm_data m)) < 2 ^ 55"
  shows "\<exists>nd' ms msg d. mtask_socket_poll K nd = Some (if again then -1 else 1, nd') \<and> nd_net nd' = ss \<and>
    views (sv_mq (nd_server nd)) c = Some (sm_opaque m, True, ms) \<and>
    views (sv_mq (nd_server nd')) = (views (sv_mq (nd_server nd)))(c \<mapsto> (sm_opaque m, True, ms @ [msg])) \<and>
    msg_source msg = 0 \<and> msg_session msg = 0 \<and> msg_data msg = Some d \<and>
    uint (drop_bit MESSAGE_TYPE_SHIFT (msg_sz msg)) = PTYPE_SOCKET \<and> unat (msg_sz msg AND MESSAGE_TYPE_MASK) = length d \<and>
    read_message (nd_block nd') d = (type_code e, as_int (sm_id m), as_int (sm_ud m), payload (sm_data m)) \<and>
    server_inv held h (nd_server nd')"
proof -
  let ?nd = "nd\<lparr>nd_net := ss\<rparr>" and ?t = "type_code e"
  have ok': "blocks_ok ?nd" using ok by (simp add: blocks_ok_def)
  obtain p rest nd1 where parts: "message_parts (padding_of e) (sm_data m) ?nd = Some (p, rest, nd1)"
      "nd_server nd1 = nd_server nd" "nd_net nd1 = ss" "length rest \<le> length (payload (sm_data m))"
      "read_message (nd_block nd1) (socket_message_bytes ?t (sm_id m) (sm_ud m) p @ rest) =
         (as_int ?t, as_int (sm_id m), as_int (sm_ud m), payload (sm_data m))"
    by (rule parts_ok [OF poll_shape [OF poll] ok', of ?t "sm_id m" "sm_ud m"]) simp
  define d where "d = socket_message_bytes ?t (sm_id m) (sm_ud m) p @ rest"
  define z :: u64 where "z = of_nat (SIZEOF_SOCKET_MESSAGE + length rest) OR push_bit MESSAGE_TYPE_SHIFT (word_of_int PTYPE_SOCKET)"
  define msg where "msg = \<lparr>msg_source = 0, msg_session = 0, msg_data = Some d, msg_sz = z\<rparr>"
  have n: "SIZEOF_SOCKET_MESSAGE + length rest < 2 ^ 56" using parts(4) len by (simp add: SIZEOF_SOCKET_MESSAGE_def)
  have "PTYPE_SOCKET AND 0xff = PTYPE_SOCKET" by (simp add: PTYPE_SOCKET_def)
  then have z: "uint (drop_bit MESSAGE_TYPE_SHIFT z) = PTYPE_SOCKET" "z AND MESSAGE_TYPE_MASK = of_nat (SIZEOF_SOCKET_MESSAGE + length rest)"
    using message_type [OF message_size [OF n], of PTYPE_SOCKET] by (simp_all add: z_def)
  have ld: "length d = SIZEOF_SOCKET_MESSAGE + length rest" by (simp add: d_def length_message_bytes)
  obtain mq ms where q: "mtask_context_push (sm_opaque m) msg (nd_server nd) = Some (0, nd_server nd\<lparr>sv_mq := mq\<rparr>)"
      "server_inv held h (nd_server nd\<lparr>sv_mq := mq\<rparr>)" "views (sv_mq (nd_server nd)) c = Some (sm_opaque m, True, ms)"
      "views mq = (views (sv_mq (nd_server nd)))(c \<mapsto> (sm_opaque m, True, ms @ [msg]))"
    using push_some [OF inv c, of msg] by blast
  have "forward_message ?t (padding_of e) m ?nd = Some (nd1\<lparr>nd_server := nd_server nd\<lparr>sv_mq := mq\<rparr>\<rparr>)"
    using parts(1,2) q(1) by (simp add: forward_message_def msg_def d_def z_def)
  moreover have "as_int ?t = ?t" by (cases e) (simp_all add: type_code_def as_int_small
      MTASK_SOCKET_TYPE_DATA_def MTASK_SOCKET_TYPE_CONNECT_def MTASK_SOCKET_TYPE_CLOSE_def MTASK_SOCKET_TYPE_ACCEPT_def
      MTASK_SOCKET_TYPE_ERROR_def MTASK_SOCKET_TYPE_UDP_def)
  moreover have "unat (of_nat (SIZEOF_SOCKET_MESSAGE + length rest) :: u64) = length d" 
    using n unat_of_nat [of "SIZEOF_SOCKET_MESSAGE + length rest", where 'a = 64] unfolding ld by simp
  ultimately show ?thesis
    using poll_forwards [OF poll e] parts(3,5) q z
    by (intro exI [of _ "nd1\<lparr>nd_server := nd_server nd\<lparr>sv_mq := mq\<rparr>\<rparr>"] exI [of _ ms] exI [of _ msg] exI [of _ d])
      (simp add: msg_def d_def)
qed

text \<open>C13. An event for a service that has ended changes nothing in the node but the socket server: no queue changes, and
  the received block is freed, so nothing is lost.\<close>

theorem event_dropped:
  assumes poll: "socket_server_poll K True (nd_net nd) = Some (Some (e, m), again, ss)"
    and e: "e \<noteq> SOCKET_EXIT" and c: "lookup (nd_server nd) (sm_opaque m) = None" and ok: "blocks_ok nd"
  shows "\<exists>nd'. mtask_socket_poll K nd = Some (if again then -1 else 1, nd') \<and> nd_net nd' = ss \<and>
    nd_server nd' = nd_server nd \<and> nd_block nd' = nd_block nd"
proof -
  let ?nd = "nd\<lparr>nd_net := ss\<rparr>"
  have ok': "blocks_ok ?nd" using ok by (simp add: blocks_ok_def)
  obtain p rest nd1 where parts: "message_parts (padding_of e) (sm_data m) ?nd = Some (p, rest, nd1)"
      "nd_server nd1 = nd_server nd" "nd_net nd1 = ss" "(nd_block nd1)(p := None) = nd_block nd"
    by (rule parts_ok [OF poll_shape [OF poll] ok']) simp
  have "forward_message (type_code e) (padding_of e) m ?nd = Some (nd1\<lparr>nd_block := (nd_block nd1)(p := None)\<rparr>)"
    using parts push_none [OF c] by (simp add: forward_message_def)
  with poll_forwards [OF poll e] parts show ?thesis by simp
qed

lemma send_as_self:
  assumes "sv_ctx s ctx = Some x" "t AND PTYPE_TAG_ALLOCSESSION = 0" "ctx_handle x \<noteq> 0"
  shows "mtask_send (Some ctx) 0 destination t session data sz s = mtask_send (Some ctx) (ctx_handle x) destination t session data sz s"
  using assms by (simp add: mtask_send_def filter_args_def source_of_def Let_def)

text \<open>A call that finds more than 1M bytes waiting for the socket gives the calling service one message about it, the last
  in its own queue: a warning with the socket and the backlog in K; a smaller backlog gives none, and a
  negative one is the error -1.\<close>

theorem backlog_warning:
  assumes inv: "server_inv held h s" and x: "sv_ctx s ctx = Some x" "lookup s (ctx_handle x) = Some ctx"
    and near: "mtask_harbor_message_isremote (ctx_handle x) s = Some False" "ctx_handle x \<noteq> 0"
  shows "\<exists>s' ms new. check_wsz ctx sid wsz s = Some (if wsz < 0 then -1 else 0, s') \<and>
    views (sv_mq s) ctx = Some (ctx_handle x, True, ms) \<and>
    views (sv_mq s') = (views (sv_mq s))(ctx \<mapsto> (ctx_handle x, True, ms @ new)) \<and>
    (if wsz \<le> 1024 * 1024 then new = []
     else \<exists>m d. new = [m] \<and> msg_data m = Some d \<and> uint (drop_bit MESSAGE_TYPE_SHIFT (msg_sz m)) = PTYPE_SOCKET \<and>
       read_message (\<lambda>_. None) d = (MTASK_SOCKET_TYPE_WARNING, as_int sid, as_int (as_int (wsz div 1024)), []))"
proof -
  obtain ms where ms: "views (sv_mq s) ctx = Some (ctx_handle x, True, ms)"
    using counted_Some(4) [OF inv x(1)] by blast
  show ?thesis
  proof (cases "wsz \<le> 1024 * 1024")
    case True
    with ms show ?thesis by (auto simp: check_wsz_def fun_upd_idem)
  next
    case False
    let ?d = "socket_message_bytes MTASK_SOCKET_TYPE_WARNING sid (as_int (wsz div 1024)) 0"
    have tags: "PTYPE_SOCKET AND PTYPE_TAG_ALLOCSESSION = 0" "PTYPE_SOCKET AND PTYPE_TAG_DONTCOPY = 0" "PTYPE_SOCKET AND 0xff = PTYPE_SOCKET"
      by (simp_all add: PTYPE_SOCKET_def PTYPE_TAG_ALLOCSESSION_def PTYPE_TAG_DONTCOPY_def)
    have ok: "send_args s (Some ctx) (ctx_handle x) PTYPE_SOCKET 0 (Some ?d) (of_nat SIZEOF_SOCKET_MESSAGE)"
      using x(1) by (simp add: send_args_def tags length_message_bytes SIZEOF_SOCKET_MESSAGE_def)
        (simp add: PTYPE_SOCKET_def PTYPE_SYSTEM_def PTYPE_HARBOR_def)
    have sz: "(of_nat SIZEOF_SOCKET_MESSAGE :: u64) AND MESSAGE_TYPE_MASK = of_nat SIZEOF_SOCKET_MESSAGE"
      by (rule message_size) (simp add: SIZEOF_SOCKET_MESSAGE_def)
    have sd: "sent_data PTYPE_SOCKET (Some ?d) (of_nat SIZEOF_SOCKET_MESSAGE) = Some ?d"
      by (simp add: sent_data_def tags length_message_bytes) (simp add: SIZEOF_SOCKET_MESSAGE_def length_message_bytes)
    obtain s' ms' m where m: "mtask_send (Some ctx) (ctx_handle x) (ctx_handle x) PTYPE_SOCKET 0 (Some ?d) (of_nat SIZEOF_SOCKET_MESSAGE) s =
          Some (sint (sent_session s (Some ctx) PTYPE_SOCKET 0), s')"
        "views (sv_mq s) ctx = Some (ctx_handle x, True, ms')"
        "views (sv_mq s') = (views (sv_mq s))(ctx \<mapsto> (ctx_handle x, True, ms' @ [m]))"
        "msg_data m = Some ?d" "uint (drop_bit MESSAGE_TYPE_SHIFT (msg_sz m)) = PTYPE_SOCKET"
      using send_delivers [OF inv ok x(2) near(1) sz near(2) near(2)] sd tags(3) by auto
    have "read_message (\<lambda>_. None) ?d = (MTASK_SOCKET_TYPE_WARNING, as_int sid, as_int (as_int (wsz div 1024)), [])"
      using read_message_bytes [of "\<lambda>_. None" MTASK_SOCKET_TYPE_WARNING sid "as_int (wsz div 1024)" 0 "[]"]
      by (simp add: MTASK_SOCKET_TYPE_WARNING_def as_int_small)
    with False m x(1) send_as_self [OF x(1) tags(1) near(2)] ms show ?thesis
      by (intro exI [of _ s'] exI [of _ ms'] exI [of _ "[m]"]) (simp add: check_wsz_def context_handle_def)
  qed
qed

section \<open>An example\<close>

text \<open>The service with the handle 0x01000001 has closed a socket that does not exist.\<close>

definition demo_node :: "u32 \<Rightarrow> int node" where
  "demo_node handle = \<lparr>nd_server = example_node, nd_net = socket_server_close handle 7 demo_start, nd_block = (\<lambda>_. None), nd_brk = 1\<rparr>"

lemma demo_poll: "\<exists>again ss. socket_server_poll demo_kernel True (nd_net (demo_node handle)) =
    Some (Some (SOCKET_CLOSE, \<lparr>sm_id = 7, sm_opaque = handle, sm_ud = 0, sm_data = Null\<rparr>), again, ss)"
proof -
  have c: "ss_checkctrl demo_start" by (simp add: demo_start_def socket_server_create_def sp_add_def sys_def demo_kernel_def)
  then show ?thesis
    by (auto simp: socket_server_poll.simps [of demo_kernel True] demo_node_def socket_server_close_def send_request_def
        poll_turn_def has_cmd_def ctrl_cmd_def close_socket_def demo_start_fields blank_socket_def turn_of_def cleared_def Let_def)
qed

lemma demo_blocks: "blocks_ok (demo_node handle)"
  by (simp add: blocks_ok_def demo_node_def)

lemma demo_lookup: "lookup example_node 0x01000001 = Some 0" "lookup example_node 0x01000002 = None"
  by (simp_all add: lookup_def look_def mtask_handle_grab_def example_node_def mtask_handle_init_def slot_hash_def
      DEFAULT_SLOT_SIZE_def ctx_handle_of_def new_context_def)

lemma event_delivered_witness:
  "\<exists>nd' msg d r. mtask_socket_poll demo_kernel (demo_node 0x01000001) = Some (r, nd') \<and>
     views (sv_mq (nd_server nd')) 0 = Some (0x01000001, True, [msg]) \<and> msg_data msg = Some d \<and>
     read_message (nd_block nd') d = (MTASK_SOCKET_TYPE_CLOSE, 7, 0, [])"
proof -
  obtain again ss where p: "socket_server_poll demo_kernel True (nd_net (demo_node 0x01000001)) =
    Some (Some (SOCKET_CLOSE, \<lparr>sm_id = 7, sm_opaque = 0x01000001, sm_ud = 0, sm_data = Null\<rparr>), again, ss)"
    using demo_poll by blast
  have v: "views (sv_mq example_node) 0 = Some (0x01000001, True, [])"
    by (simp add: example_node_def views_def view_flags create_view)
  have n: "nd_server (demo_node 0x01000001) = example_node" by (simp add: demo_node_def)
  from event_delivered [of "\<lambda>_. 0" "\<lambda>_. None" "demo_node 0x01000001", OF _ p] show ?thesis
    using demo_lookup(1) demo_blocks example_inv v unfolding n
    by (fastforce simp: payload_def type_code_def as_int_small)
qed

lemma event_dropped_witness:
  "\<exists>nd' r. mtask_socket_poll demo_kernel (demo_node 0x01000002) = Some (r, nd') \<and> nd_server nd' = example_node"
proof -
  obtain again ss where p: "socket_server_poll demo_kernel True (nd_net (demo_node 0x01000002)) =
    Some (Some (SOCKET_CLOSE, \<lparr>sm_id = 7, sm_opaque = 0x01000002, sm_ud = 0, sm_data = Null\<rparr>), again, ss)"
    using demo_poll by blast
  have n: "nd_server (demo_node 0x01000002) = example_node" by (simp add: demo_node_def)
  from event_dropped [OF p _ _ demo_blocks] show ?thesis using demo_lookup(2) unfolding n by auto
qed

lemma backlog_warning_witness:
  "\<exists>s' m. check_wsz 0 3 (5 * 1024 * 1024) example_node = Some (0, s') \<and> views (sv_mq s') 0 = Some (0x01000001, True, [m])"
proof -
  define x where "x = (new_context 0 0x01000001)\<lparr>ctx_init := True, ctx_cb := True\<rparr>"
  have x: "sv_ctx example_node 0 = Some x" "ctx_handle x = 0x01000001" by (simp_all add: example_node_def x_def new_context_def)
  have n: "mtask_harbor_message_isremote 0x01000001 example_node = Some False"
    by (simp add: mtask_harbor_message_isremote_def example_node_def HANDLE_MASK_def)
  have v: "views (sv_mq example_node) 0 = Some (0x01000001, True, [])"
    by (simp add: example_node_def views_def view_flags create_view)
  from backlog_warning [OF example_inv x(1), of 3 "5 * 1024 * 1024"] show ?thesis
    unfolding x(2) using demo_lookup(1) n v by auto
qed

end
