(* ===== verification/Sha1.thy ===== *)
theory Sha1
  imports Framing "HOL-Library.Monad_Syntax"
begin

unbundle bit_operations_syntax

text \<open>
  SHA-1 and HMAC-SHA1 of \<open>lualib-src/lsha1.c\<close>, as the compiler sees them on a little endian machine: the
  block is a union of 64 bytes and 16 words that is changed in place while the rounds use it.
\<close>

section \<open>One block\<close>

definition rol :: "u32 \<Rightarrow> nat \<Rightarrow> u32" where
  "rol value bits = push_bit bits value OR drop_bit (32 - bits) value"

definition load_block :: "byte list \<Rightarrow> u32 list" where
  "load_block buffer = map (\<lambda>i. un_le32 (take 4 (drop (4 * i) buffer))) [0..<16]"

definition blk0 :: "nat \<Rightarrow> u32 list \<Rightarrow> u32 list" where
  "blk0 i l = l[i := (rol (l ! i) 24 AND 0xFF00FF00) OR (rol (l ! i) 8 AND 0x00FF00FF)]"

definition blk :: "nat \<Rightarrow> u32 list \<Rightarrow> u32 list" where
  "blk i l = l[i mod 16 := rol (l ! ((i + 13) mod 16) XOR l ! ((i + 8) mod 16) XOR l ! ((i + 2) mod 16) XOR l ! (i mod 16)) 1]"

type_synonym sha1_vars = "u32 \<times> u32 \<times> u32 \<times> u32 \<times> u32"

fun R0 :: "nat \<Rightarrow> sha1_vars \<times> u32 list \<Rightarrow> sha1_vars \<times> u32 list" where
  "R0 i ((v, w, x, y, z), l) =
     (let l = blk0 i l in ((v, rol w 30, x, y, z + (((w AND (x XOR y)) XOR y) + l ! i + 0x5A827999 + rol v 5)), l))"

fun R1 :: "nat \<Rightarrow> sha1_vars \<times> u32 list \<Rightarrow> sha1_vars \<times> u32 list" where
  "R1 i ((v, w, x, y, z), l) =
     (let l = blk i l in ((v, rol w 30, x, y, z + (((w AND (x XOR y)) XOR y) + l ! (i mod 16) + 0x5A827999 + rol v 5)), l))"

fun R2 :: "nat \<Rightarrow> sha1_vars \<times> u32 list \<Rightarrow> sha1_vars \<times> u32 list" where
  "R2 i ((v, w, x, y, z), l) =
     (let l = blk i l in ((v, rol w 30, x, y, z + ((w XOR x XOR y) + l ! (i mod 16) + 0x6ED9EBA1 + rol v 5)), l))"

fun R3 :: "nat \<Rightarrow> sha1_vars \<times> u32 list \<Rightarrow> sha1_vars \<times> u32 list" where
  "R3 i ((v, w, x, y, z), l) =
     (let l = blk i l in ((v, rol w 30, x, y, z + ((((w OR x) AND y) OR (w AND x)) + l ! (i mod 16) + 0x8F1BBCDC + rol v 5)), l))"

fun R4 :: "nat \<Rightarrow> sha1_vars \<times> u32 list \<Rightarrow> sha1_vars \<times> u32 list" where
  "R4 i ((v, w, x, y, z), l) =
     (let l = blk i l in ((v, rol w 30, x, y, z + ((w XOR x XOR y) + l ! (i mod 16) + 0xCA62C1D6 + rol v 5)), l))"

text \<open>
  The 80 lines: from each to the next the arguments go round, \<open>(a,b,c,d,e)\<close> to \<open>(e,a,b,c,d)\<close>, so that after
  80 they are in their order again.
\<close>

fun next_args :: "sha1_vars \<times> u32 list \<Rightarrow> sha1_vars \<times> u32 list" where
  "next_args ((v, w, x, y, z), l) = ((z, v, w, x, y), l)"

definition sha1_round :: "nat \<Rightarrow> sha1_vars \<times> u32 list \<Rightarrow> sha1_vars \<times> u32 list" where
  "sha1_round i s = next_args
     (if i < 16 then R0 i s else if i < 20 then R1 i s else if i < 40 then R2 i s else if i < 60 then R3 i s else R4 i s)"

definition SHA1_Transform :: "u32 list \<Rightarrow> byte list \<Rightarrow> u32 list" where
  "SHA1_Transform state buffer =
     (case fold sha1_round [0..<80] ((state ! 0, state ! 1, state ! 2, state ! 3, state ! 4), load_block buffer) of
        ((a, b, c, d, e), _) \<Rightarrow> [state ! 0 + a, state ! 1 + b, state ! 2 + c, state ! 3 + d, state ! 4 + e])"

section \<open>Contexts\<close>

record sha1_ctx =
  cx_state :: "u32 list"
  cx_count0 :: u32
  cx_count1 :: u32
  cx_buffer :: "byte list"

definition sat_SHA1_Init :: "sha1_ctx \<Rightarrow> sha1_ctx" where
  "sat_SHA1_Init context = context\<lparr>
     cx_state := [0x67452301, 0xEFCDAB89, 0x98BADCFE, 0x10325476, 0xC3D2E1F0], cx_count0 := 0, cx_count1 := 0\<rparr>"

text \<open>The whole blocks of the data from \<open>i\<close> on: the place behind them, and the state.\<close>

function block_loop :: "byte list \<Rightarrow> nat \<Rightarrow> u32 list \<Rightarrow> nat \<times> u32 list" where
  "block_loop data i state =
     (if i + 63 < length data then block_loop data (i + 64) (SHA1_Transform state (take 64 (drop i data))) else (i, state))"
  by pat_completeness auto
termination by (relation "measure (\<lambda>(data, i, _). length data - i)") auto

declare block_loop.simps [simp del]

text \<open>The number of bits is compared as a \<open>size_t\<close> with the 32 bits that were added.\<close>

definition sat_SHA1_Update :: "sha1_ctx \<Rightarrow> byte list \<Rightarrow> sha1_ctx" where
  "sat_SHA1_Update context data =
     (let len = of_nat (length data) :: u64;
          j = unat (drop_bit 3 (cx_count0 context) AND 63);
          count0 = cx_count0 context + ucast (push_bit 3 len);
          count1 = (if ucast count0 < push_bit 3 len then cx_count1 context + 1 else cx_count1 context) + ucast (drop_bit 29 len);
          ctx = context\<lparr>cx_count0 := count0, cx_count1 := count1\<rparr>
      in if 63 < j + length data then
           let buffer = take j (cx_buffer context) @ take (64 - j) data;
               (i, state) = block_loop data (64 - j) (SHA1_Transform (cx_state context) buffer)
           in ctx\<lparr>cx_state := state, cx_buffer := drop i data @ drop (length data - i) buffer\<rparr>
         else ctx\<lparr>cx_buffer := take j (cx_buffer context) @ data @ drop (j + length data) (cx_buffer context)\<rparr>)"

partial_function (option) pad_bytes :: "sha1_ctx \<Rightarrow> sha1_ctx option" where
  "pad_bytes context =
     (if cx_count0 context AND 504 \<noteq> 448 then pad_bytes (sat_SHA1_Update context [0]) else Some context)"

declare pad_bytes.simps [code]

definition sat_SHA1_Final :: "sha1_ctx \<Rightarrow> byte list option" where
  "sat_SHA1_Final context = do {
     let finalcount = be32 (cx_count1 context) @ be32 (cx_count0 context);
     ctx \<leftarrow> pad_bytes (sat_SHA1_Update context [0x80]);
     Some (concat (map be32 (cx_state (sat_SHA1_Update ctx finalcount))))
   }"

section \<open>The Lua functions\<close>

text \<open>A context on the stack: what its fields hold is not defined.\<close>

definition lsha1 :: "sha1_ctx \<Rightarrow> byte list \<Rightarrow> byte list option" where
  "lsha1 junk buffer = sat_SHA1_Final (sat_SHA1_Update (sat_SHA1_Init junk) buffer)"

definition BLOCKSIZE :: nat where "BLOCKSIZE = 64"

definition xor_words :: "u32 \<Rightarrow> byte list \<Rightarrow> byte list" where
  "xor_words x key = concat (map (\<lambda>i. le32 (un_le32 (take 4 (drop (4 * i) key)) XOR x)) [0..<16])"

definition lhmac_sha1 :: "sha1_ctx \<Rightarrow> byte list \<Rightarrow> byte list \<Rightarrow> byte list option" where
  "lhmac_sha1 junk key msg = do {
     rkey \<leftarrow>
       (if BLOCKSIZE < length key then
          map_option (\<lambda>d. d @ replicate (BLOCKSIZE - length d) 0) (sat_SHA1_Final (sat_SHA1_Update (sat_SHA1_Init junk) key))
        else Some (key @ replicate (BLOCKSIZE - length key) 0));
     let rkey1 = xor_words 0x5c5c5c5c rkey;
     let ctx1 = sat_SHA1_Update (sat_SHA1_Init junk) rkey1;
     let rkey2 = xor_words (0x5c5c5c5c XOR 0x36363636) rkey1;
     let ctx2 = sat_SHA1_Update (sat_SHA1_Update (sat_SHA1_Init junk) rkey2) msg;
     digest2 \<leftarrow> sat_SHA1_Final ctx2;
     sat_SHA1_Final (sat_SHA1_Update ctx1 digest2)
   }"

end
