(* ===== verification/Sha1_Correct.thy ===== *)
theory Sha1_Correct
  imports Sha1
begin

text \<open>
  The code computes SHA-1 as FIPS 180-4 defines it and HMAC as RFC 2104 defines it: the words
  changed in place are the message schedule, contexts may be fed in pieces, and the padding
  loop ends.
\<close>

section \<open>The standard\<close>

function schedule :: "byte list \<Rightarrow> nat \<Rightarrow> u32" where
  "schedule m t =
     (if t < 16 then un_be32 (take 4 (drop (4 * t) m))
      else word_rotl 1 (schedule m (t - 3) XOR schedule m (t - 8) XOR schedule m (t - 14) XOR schedule m (t - 16)))"
  by pat_completeness auto
termination by (relation "measure snd") auto

declare schedule.simps [simp del]

definition Ch :: "u32 \<Rightarrow> u32 \<Rightarrow> u32 \<Rightarrow> u32" where "Ch x y z = (x AND y) XOR (NOT x AND z)"
definition Parity :: "u32 \<Rightarrow> u32 \<Rightarrow> u32 \<Rightarrow> u32" where "Parity x y z = x XOR y XOR z"
definition Maj :: "u32 \<Rightarrow> u32 \<Rightarrow> u32 \<Rightarrow> u32" where "Maj x y z = (x AND y) XOR (x AND z) XOR (y AND z)"

definition sha1_f :: "nat \<Rightarrow> u32 \<Rightarrow> u32 \<Rightarrow> u32 \<Rightarrow> u32" where
  "sha1_f t = (if t < 20 then Ch else if t < 40 then Parity else if t < 60 then Maj else Parity)"

definition sha1_K :: "nat \<Rightarrow> u32" where
  "sha1_K t = (if t < 20 then 0x5a827999 else if t < 40 then 0x6ed9eba1 else if t < 60 then 0x8f1bbcdc else 0xca62c1d6)"

fun fips_round :: "byte list \<Rightarrow> nat \<Rightarrow> sha1_vars \<Rightarrow> sha1_vars" where
  "fips_round m t (a, b, c, d, e) =
     (word_rotl 5 a + sha1_f t b c d + e + sha1_K t + schedule m t, a, word_rotl 30 b, c, d)"

definition compress :: "u32 list \<Rightarrow> byte list \<Rightarrow> u32 list" where
  "compress H m =
     (case fold (fips_round m) [0..<80] (H ! 0, H ! 1, H ! 2, H ! 3, H ! 4) of
        (a, b, c, d, e) \<Rightarrow> [a + H ! 0, b + H ! 1, c + H ! 2, d + H ! 3, e + H ! 4])"

function hash_blocks :: "u32 list \<Rightarrow> byte list \<Rightarrow> u32 list" where
  "hash_blocks H m = (if length m < 64 then H else hash_blocks (compress H (take 64 m)) (drop 64 m))"
  by pat_completeness auto
termination by (relation "measure (\<lambda>(H, m). length m)") auto

declare hash_blocks.simps [simp del]

definition sha1_H0 :: "u32 list" where
  "sha1_H0 = [0x67452301, 0xefcdab89, 0x98badcfe, 0x10325476, 0xc3d2e1f0]"

definition fips_pad :: "byte list \<Rightarrow> byte list" where
  "fips_pad m = m @ [0x80] @ replicate ((119 - length m mod 64) mod 64) 0 @ be_bytes 8 (8 * length m)"

definition SHA1 :: "byte list \<Rightarrow> byte list" where
  "SHA1 m = concat (map be32 (hash_blocks sha1_H0 (fips_pad m)))"

definition HMAC_SHA1 :: "byte list \<Rightarrow> byte list \<Rightarrow> byte list" where
  "HMAC_SHA1 key m =
     (let k = (if 64 < length key then SHA1 key else key);
          k0 = k @ replicate (64 - length k) 0
      in SHA1 (map (\<lambda>c. c XOR 0x5c) k0 @ SHA1 (map (\<lambda>c. c XOR 0x36) k0 @ m)))"

section \<open>Words\<close>

lemma rol_rotl: "0 < k \<Longrightarrow> k < 32 \<Longrightarrow> rol w k = word_rotl k w"
proof (rule bit_word_eqI)
  fix n assume k: "0 < k" "k < 32" and n: "n < LENGTH(32)"
  show "bit (rol w k) n = bit (word_rotl k w) n"
  proof (cases "n < k")
    case True
    then have "(n + (32 - k)) mod 32 = 32 - k + n" using k by simp
    with True k n show ?thesis by (simp add: rol_def bit_simps bit_word_rotl_iff)
  next
    case False
    have "n + (32 - k) = (n - k) + 32" using False k by simp
    moreover have "n - k < 32" using n by simp
    ultimately have "(n + (32 - k)) mod 32 = n - k" by simp
    moreover have "\<not> bit w (32 - k + n)" using False k bit_imp_le_length [of w "32 - k + n"] by auto
    ultimately show ?thesis using False k n by (simp add: rol_def bit_simps bit_word_rotl_iff)
  qed
qed

lemma length_4: "length bs = 4 \<Longrightarrow> \<exists>a b c d. bs = [a, b, c, d]"
  by (auto simp: numeral_eq_Suc length_Suc_conv)

lemma blk0_swap:
  assumes "length bs = 4"
  shows "(rol (un_le32 bs) 24 AND 0xFF00FF00) OR (rol (un_le32 bs) 8 AND 0x00FF00FF) = un_be32 bs"
proof -
  obtain a b c d where bs: "bs = [a, b, c, d]" using length_4 [OF assms] by blast
  have m: "(0xFF00FF00 :: u32) = push_bit 24 (mask 8) OR push_bit 8 (mask 8)" "(0x00FF00FF :: u32) = push_bit 16 (mask 8) OR mask 8"
    by (simp_all add: mask_eq_exp_minus_1)
  have no: "\<not> bit x k" if "8 \<le> k" for x :: byte and k using that bit_imp_le_length [of x k] by fastforce
  show ?thesis
  proof (rule bit_word_eqI)
    fix n assume "n < LENGTH(32)"
    then show "bit ((rol (un_le32 bs) 24 AND 0xFF00FF00) OR (rol (un_le32 bs) 8 AND 0x00FF00FF)) n = bit (un_be32 bs) n"
      unfolding m by (cases "n < 8"; cases "n < 16"; cases "n < 24")
        (auto simp: rol_def un_le32_def un_be32_def bs bit_simps no)
  qed
qed

lemma choice: "((w AND (x XOR y)) XOR y) = Ch w x y"
  by (rule bit_word_eqI) (auto simp: Ch_def bit_simps)

lemma majority: "(((w OR x) AND y) OR (w AND x)) = Maj w x y"
  by (rule bit_word_eqI) (auto simp: Maj_def bit_simps)

section \<open>Rounds\<close>

text \<open>Before round \<open>i\<close> the 16 words hold the last 16 words of the schedule, or still the raw block.\<close>

definition words_ok :: "byte list \<Rightarrow> nat \<Rightarrow> u32 list \<Rightarrow> bool" where
  "words_ok m i l \<longleftrightarrow> length l = 16 \<and> (\<forall>t < i. i \<le> t + 16 \<longrightarrow> l ! (t mod 16) = schedule m t) \<and>
     (\<forall>t < 16. i \<le> t \<longrightarrow> l ! t = un_le32 (take 4 (drop (4 * t) m)))"

lemma words_start: "words_ok m 0 (load_block m)"
  by (simp add: words_ok_def load_block_def)

lemma words_blk0:
  assumes "words_ok m i l" "i < 16" "length m = 64"
  shows "words_ok m (Suc i) (blk0 i l)" "blk0 i l ! i = schedule m i"
proof -
  have "length (take 4 (drop (4 * i) m)) = 4" using assms(2,3) by simp
  then have e: "blk0 i l ! i = schedule m i"
    using assms(1,2) blk0_swap by (simp add: blk0_def words_ok_def schedule.simps [of m i])
  then show "blk0 i l ! i = schedule m i" .
  show "words_ok m (Suc i) (blk0 i l)"
    using assms(1,2) e by (auto simp: words_ok_def blk0_def less_Suc_eq nth_list_update)
qed

lemma words_blk:
  assumes "words_ok m i l" "16 \<le> i"
  shows "words_ok m (Suc i) (blk i l)" "blk i l ! (i mod 16) = schedule m i"
proof -
  have l: "length l = 16" and w: "\<And>t. t < i \<Longrightarrow> i \<le> t + 16 \<Longrightarrow> l ! (t mod 16) = schedule m t"
    using assms(1) by (simp_all add: words_ok_def)
  have prev: "l ! ((i + (16 - k)) mod 16) = schedule m (i - k)" if "0 < k" "k \<le> 16" for k
  proof -
    have "(i + (16 - k)) mod 16 = (i - k) mod 16" using that assms(2) mod_add_self2 [of "i - k" 16] by simp
    with w [of "i - k"] that assms(2) show ?thesis by simp
  qed
  have e: "blk i l ! (i mod 16) = schedule m i"
    using l prev [of 3] prev [of 8] prev [of 14] prev [of 16] assms(2)
    by (simp add: blk_def rol_rotl schedule.simps [of m i])
  then show "blk i l ! (i mod 16) = schedule m i" .
  have "i mod 16 \<noteq> t mod 16" if "t < i" "i < t + 16" for t
  proof
    assume "i mod 16 = t mod 16"
    then have "t mod 16 = i mod 16" by simp
    then have "16 dvd i - t" using that(1) by (metis mod_eq_dvd_iff_nat nat_less_le)
    with that show False by (auto dest: dvd_imp_le)
  qed
  then show "words_ok m (Suc i) (blk i l)"
    using l e w assms(2) by (auto simp: words_ok_def blk_def less_Suc_eq nth_list_update_neq)
qed

lemma round_ok:
  assumes "words_ok m i l" "i < 80" "length m = 64"
  shows "\<exists>l'. sha1_round i ((a, b, c, d, e), l) = (fips_round m i (a, b, c, d, e), l') \<and> words_ok m (Suc i) l'"
proof (cases "i < 16")
  case True
  with words_blk0 [OF assms(1) True assms(3)] show ?thesis
    by (simp add: sha1_round_def Let_def choice sha1_f_def sha1_K_def rol_rotl add_ac)
next
  case False
  with words_blk [OF assms(1)] show ?thesis
    by (auto simp: sha1_round_def Let_def choice majority sha1_f_def sha1_K_def rol_rotl Parity_def add_ac)
qed

lemma transform_compress:
  assumes "length m = 64"
  shows "SHA1_Transform H m = compress H m"
proof -
  have "\<exists>l. fold sha1_round [0..<n] (s, load_block m) = (fold (fips_round m) [0..<n] s, l) \<and> words_ok m n l" if "n \<le> 80" for n s
    using that
  proof (induction n)
    case 0
    then show ?case using words_start by simp
  next
    case (Suc n)
    then obtain l where l: "fold sha1_round [0..<n] (s, load_block m) = (fold (fips_round m) [0..<n] s, l)" "words_ok m n l"
      by auto
    obtain a b c d e where s: "fold (fips_round m) [0..<n] s = (a, b, c, d, e)" by (metis prod_cases5)
    from round_ok [OF l(2) _ assms, of a b c d e] Suc.prems l(1) s show ?case by auto
  qed
  from this [of 80 "(H ! 0, H ! 1, H ! 2, H ! 3, H ! 4)"] show ?thesis
    by (auto simp: SHA1_Transform_def compress_def add_ac split: prod.splits)
qed

section \<open>Contexts\<close>

lemma hash_blocks_short [simp]: "length m < 64 \<Longrightarrow> hash_blocks H m = H"
  by (simp add: hash_blocks.simps [of H m])

lemma hash_blocks_step: "length b = 64 \<Longrightarrow> hash_blocks H (b @ m) = hash_blocks (compress H b) m"
  by (simp add: hash_blocks.simps [of H "b @ m"])

lemma hash_blocks_append: "64 dvd length m \<Longrightarrow> hash_blocks H (m @ n) = hash_blocks (hash_blocks H m) n"
proof (induction H m rule: hash_blocks.induct)
  case (1 H m)
  show ?case
  proof (cases "length m < 64")
    case True
    with 1(2) have "m = []" by (auto dest: dvd_imp_le)
    then show ?thesis by simp
  next
    case False
    then have "64 dvd length (drop 64 m)" using 1(2) by simp
    from 1(1) [OF False this] False show ?thesis
      by (simp add: hash_blocks.simps [of H "m @ n"] hash_blocks.simps [of H m])
  qed
qed

lemma block_loop_ok:
  "i \<le> length data \<Longrightarrow> block_loop data i st = (i + (length data - i) div 64 * 64, hash_blocks st (drop i data))"
proof (induction data i st rule: block_loop.induct)
  case (1 data i st)
  show ?case
  proof (cases "i + 63 < length data")
    case True
    have "(length data - i) div 64 = Suc ((length data - (i + 64)) div 64)"
      using le_div_geq [of 64 "length data - i"] True by simp
    moreover have "SHA1_Transform st (take 64 (drop i data)) = compress st (take 64 (drop i data))"
      using True by (intro transform_compress) simp
    moreover have "\<not> length (drop i data) < 64" using True by simp
    ultimately show ?thesis
      using 1 True by (simp add: block_loop.simps [of data i] hash_blocks.simps [of st "drop i data"] add.commute)
  next
    case False
    with 1 show ?thesis by (simp add: block_loop.simps [of data i])
  qed
qed

definition bit_count :: "sha1_ctx \<Rightarrow> nat" where
  "bit_count ctx = unat (cx_count1 ctx) * 2 ^ 32 + unat (cx_count0 ctx)"

text \<open>The context has taken the bytes \<open>m\<close>: whole blocks are hashed, the others are in the buffer.\<close>

definition took :: "byte list \<Rightarrow> sha1_ctx \<Rightarrow> bool" where
  "took m ctx \<longleftrightarrow> cx_state ctx = hash_blocks sha1_H0 m \<and> length (cx_buffer ctx) = 64 \<and>
     take (length m mod 64) (cx_buffer ctx) = drop (length m div 64 * 64) m \<and> bit_count ctx = 8 * length m mod 2 ^ 64"

lemma count0: "bit_count ctx = 8 * n mod 2 ^ 64 \<Longrightarrow> unat (cx_count0 ctx) = 8 * n mod 2 ^ 32"
proof -
  assume "bit_count ctx = 8 * n mod 2 ^ 64"
  then have "bit_count ctx mod 2 ^ 32 = 8 * n mod 2 ^ 64 mod 2 ^ 32" by simp
  moreover have "8 * n mod 2 ^ 64 mod 2 ^ 32 = 8 * n mod (2 ^ 32 :: nat)" by (rule mod_mod_cancel) simp
  moreover have "bit_count ctx mod 2 ^ 32 = unat (cx_count0 ctx)"
    using unsigned_less [of "cx_count0 ctx", where ?'a = nat] by (simp add: bit_count_def)
  ultimately show ?thesis by simp
qed

lemma buffered_count: "bit_count ctx = 8 * n mod 2 ^ 64 \<Longrightarrow> unat (drop_bit 3 (cx_count0 ctx) AND 63) = n mod 64"
proof -
  assume "bit_count ctx = 8 * n mod 2 ^ 64"
  note c = count0 [OF this]
  have m: "(63 :: u32) = mask 6" by (simp add: mask_eq_exp_minus_1)
  have "unat (drop_bit 3 (cx_count0 ctx) AND 63) = 8 * n mod 2 ^ 32 div 8 mod 64"
    unfolding m unat_and_mask unat_drop_bit_div c by simp
  also have "8 * n mod 2 ^ 32 div 8 = n mod 2 ^ 29" using mult_mod_right [of 8 n "2 ^ 29"] by simp
  also have "n mod 2 ^ 29 mod 64 = n mod 64" by (rule mod_mod_cancel) simp
  finally show ?thesis .
qed

lemma count_added:
  fixes c0 c1 :: u32 and n :: nat
  assumes "n < 2 ^ 29"
  defines "d \<equiv> push_bit 3 (of_nat n :: u64)"
  defines "c0' \<equiv> c0 + ucast d"
  defines "c1' \<equiv> (if (ucast c0' :: u64) < d then c1 + 1 else c1) + ucast (drop_bit 29 (of_nat n :: u64))"
  shows "unat c1' * 2 ^ 32 + unat c0' = (unat c1 * 2 ^ 32 + unat c0 + 8 * n) mod 2 ^ 64"
proof -
  have n: "unat (of_nat n :: u64) = n" using assms(1) by (simp add: unat_of_nat)
  have d: "unat d = 8 * n" using n assms(1) by (simp add: d_def push_bit_eq_mult unat_word_ariths mult.commute)
  have "drop_bit 29 (of_nat n :: u64) = 0" using n assms(1) by (simp add: word_unat_eq_iff unat_drop_bit_div)
  then have c1': "c1' = (if unat c0' < 8 * n then c1 + 1 else c1)"
  proof -
    have "unat (ucast c0' :: u64) = unat c0'"
      using unsigned_less [of c0', where ?'a = nat] by (simp add: unsigned_ucast_eq take_bit_nat_eq_self)
    with \<open>drop_bit 29 (of_nat n :: u64) = 0\<close> show ?thesis by (simp add: c1'_def word_less_nat_alt d)
  qed
  have c0': "unat c0' = (unat c0 + 8 * n) mod 2 ^ 32"
    using d assms(1) by (simp add: c0'_def unat_word_ariths unsigned_ucast_eq take_bit_eq_mod)
  have b: "unat c0 < 2 ^ 32" "unat c1 < 2 ^ 32" 
    using unsigned_less [of c0, where ?'a = nat] unsigned_less [of c1, where ?'a = nat] by simp_all
  have join: "(a mod 2 ^ 32) * 2 ^ 32 + x = (a * 2 ^ 32 + x) mod 2 ^ 64" if "x < 2 ^ 32" for a x :: nat
    using mod_mult2_eq [of "a * 2 ^ 32 + x" "2 ^ 32" "2 ^ 32"] that by simp
  show ?thesis
  proof (cases "unat c0 + 8 * n < 2 ^ 32")
    case True
    with c0' c1' b join [of "unat c0 + 8 * n" "unat c1"] show ?thesis by (simp add: add.assoc)
  next
    case False
    then have c: "unat c0' = unat c0 + 8 * n - 2 ^ 32" using c0' b(1) assms(1) by (simp add: le_mod_geq)
    then have "c1' = c1 + 1" using c1' b(1) False by simp
    then have "unat c1' = (unat c1 + 1) mod 2 ^ 32" by (simp add: unat_word_ariths)
    moreover have e: "(unat c1 + 1) * 2 ^ 32 + unat c0' = unat c1 * 2 ^ 32 + unat c0 + 8 * n" using c False by simp
    moreover have "unat c0' < 2 ^ 32" using c b(1) assms(1) by simp
    ultimately show ?thesis using join [of "unat c0'" "unat c1 + 1"] by (simp only: e)
  qed
qed

lemma took_init: "length (cx_buffer junk) = 64 \<Longrightarrow> took [] (sat_SHA1_Init junk)"
  by (simp add: took_def sat_SHA1_Init_def sha1_H0_def bit_count_def)

lemma update_counts:
  "cx_count0 (sat_SHA1_Update ctx data) = cx_count0 ctx + ucast (push_bit 3 (of_nat (length data) :: u64))"
  "cx_count1 (sat_SHA1_Update ctx data) =
     (if (ucast (cx_count0 ctx + ucast (push_bit 3 (of_nat (length data) :: u64))) :: u64) < push_bit 3 (of_nat (length data) :: u64)
      then cx_count1 ctx + 1 else cx_count1 ctx) + ucast (drop_bit 29 (of_nat (length data) :: u64))"
  unfolding sat_SHA1_Update_def Let_def by (simp_all split: prod.splits)

text \<open>
  Beyond that size the comparison sees a carry that is not there: after one update of 2^29 bytes the context has
  counted twice as many bits as it took, and the digest is not the SHA-1 of the data.
\<close>

lemma update_counts_twice:
  assumes "cx_count0 ctx = 0" "cx_count1 ctx = 0" "length data = 2 ^ 29"
  shows "bit_count (sat_SHA1_Update ctx data) = 2 * (8 * length data)"
  unfolding bit_count_def update_counts assms(1,2) assms(3)
  by (simp add: push_bit_of_nat drop_bit_of_nat push_bit_eq_mult)

lemma update_count:
  assumes "bit_count ctx = 8 * n mod 2 ^ 64" "length data < 2 ^ 29"
  shows "bit_count (sat_SHA1_Update ctx data) = 8 * (n + length data) mod 2 ^ 64"
proof -
  have "bit_count (sat_SHA1_Update ctx data) = (bit_count ctx + 8 * length data) mod 2 ^ 64"
    unfolding bit_count_def update_counts by (rule count_added [OF assms(2)])
  then show ?thesis using assms(1) by (simp add: distrib_left mod_add_left_eq)
qed

lemma split_64:
  fixes n d r :: nat
  assumes "r = n mod 64"
  shows "(n + d) div 64 = n div 64 + (r + d) div 64" "(n + d) mod 64 = (r + d) mod 64" "n = n div 64 * 64 + r"
proof -
  show n: "n = n div 64 * 64 + r" using assms by simp
  have "(n div 64 * 64 + (r + d)) div 64 = n div 64 + (r + d) div 64" "(n div 64 * 64 + (r + d)) mod 64 = (r + d) mod 64" by simp_all
  then show "(n + d) div 64 = n div 64 + (r + d) div 64" "(n + d) mod 64 = (r + d) mod 64" using n by (metis add.assoc)+
qed

lemma took_update:
  assumes t: "took m ctx" and len: "length data < 2 ^ 29"
  shows "took (m @ data) (sat_SHA1_Update ctx data)"
proof -
  let ?ctx = "sat_SHA1_Update ctx data"
  define r where "r = length m mod 64"
  define q where "q = length m div 64 * 64"
  define tl where "tl = drop q m"
  note sp = split_64 [OF r_def]
  have r: "r < 64" and lm: "length m = q + r" "64 dvd q" by (simp_all add: r_def q_def)
  have m: "m = take q m @ tl" "length (take q m) = q" "length tl = r" using lm by (simp_all add: tl_def)
  have H: "hash_blocks sha1_H0 (m @ x) = hash_blocks (hash_blocks sha1_H0 (take q m)) (tl @ x)" for x
    using hash_blocks_append [of "take q m" sha1_H0 "tl @ x"] m lm(2) by (metis append.assoc)
  have c: "cx_state ctx = hash_blocks sha1_H0 (take q m)" "length (cx_buffer ctx) = 64" "take r (cx_buffer ctx) = tl"
    "bit_count ctx = 8 * length m mod 2 ^ 64"
    using t H [of "[]"] m(3) r by (simp_all add: took_def r_def [symmetric] q_def [symmetric] tl_def [symmetric])
  have j: "unat (drop_bit 3 (cx_count0 ctx) AND 63) = r" using buffered_count [OF c(4)] by (simp add: r_def)
  note count = update_count [OF c(4) len]
  show ?thesis
  proof (cases "63 < r + length data")
    case False
    have u: "cx_state ?ctx = cx_state ctx" "cx_buffer ?ctx = tl @ data @ drop (r + length data) (cx_buffer ctx)"
      using False j c(3) by (simp_all add: sat_SHA1_Update_def Let_def)
    have n: "(length m + length data) div 64 * 64 = q" "(length m + length data) mod 64 = r + length data"
      using False sp(1,2) [of "length data"] by (simp_all add: q_def)
    have "cx_state ?ctx = hash_blocks sha1_H0 (m @ data)" using u(1) c(1) H [of data] False m(3) by simp
    moreover have "take (r + length data) (cx_buffer ?ctx) = drop q (m @ data)"
      using u(2) m(3) lm(1) by (simp add: tl_def)
    moreover have "length (cx_buffer ?ctx) = 64" using u(2) m(3) c(2) False by simp
    ultimately show ?thesis using count n by (simp add: took_def)
  next
    case True
    define b where "b = tl @ take (64 - r) data"
    define d where "d = length data - (64 - r)"
    define i where "i = 64 - r + d div 64 * 64"
    have b: "length b = 64" "tl @ data = b @ drop (64 - r) data" using True m(3) r by (simp_all add: b_def)
    have d: "r + length data = 64 + d" "length data = 64 - r + d" using True r by (simp_all add: d_def)
    have s: "(64 + d) div 64 = Suc (d div 64)" "(64 + d) mod 64 = d mod 64" by simp_all
    have di: "length data - i = d mod 64" "i \<le> length data" using d(2) by (simp_all add: i_def minus_div_mult_eq_mod)
    have "block_loop data (64 - r) (SHA1_Transform (cx_state ctx) b) = (i, hash_blocks (compress (cx_state ctx) b) (drop (64 - r) data))"
      using block_loop_ok [of "64 - r" data] d(2) transform_compress [OF b(1)] by (simp add: i_def)
    then have u: "cx_state ?ctx = hash_blocks (compress (cx_state ctx) b) (drop (64 - r) data)"
        "cx_buffer ?ctx = drop i data @ drop (length data - i) b"
      using True j c(3) by (simp_all add: sat_SHA1_Update_def Let_def b_def)
    have "cx_state ?ctx = hash_blocks sha1_H0 (m @ data)"
      using u(1) H [of data] b(2) hash_blocks_step [OF b(1)] c(1) by simp
    moreover have n: "(length m + length data) div 64 * 64 = q + r + i" "(length m + length data) mod 64 = d mod 64"
      using sp(1,2) [of "length data"] r unfolding d(1) s by (simp_all add: q_def i_def)
    moreover have "drop (q + r + i) (m @ data) = drop i data" using lm(1) by simp
    moreover have "take (d mod 64) (cx_buffer ?ctx) = drop i data" "length (cx_buffer ?ctx) = 64"
      using u(2) di b(1) by simp_all
    ultimately show ?thesis using count by (simp add: took_def)
  qed
qed

section \<open>Padding\<close>

lemma be_bytes_mod: "be_bytes k (n mod 256 ^ k) = be_bytes k n"
proof (induction k arbitrary: n)
  case (Suc k)
  have "n mod 256 ^ Suc k div 256 = n div 256 mod 256 ^ k" using mod_mult2_eq [of n 256 "256 ^ k"] by simp
  moreover have "n mod 256 ^ Suc k mod 256 = n mod 256" by (simp add: mod_mult2_eq)
  ultimately show ?case using Suc.IH [of "n div 256"] by simp
qed simp

lemma be_bytes_add: "be_bytes (j + k) n = be_bytes j (n div 256 ^ k) @ be_bytes k n"
  by (induction k arbitrary: n) (simp_all add: div_mult2_eq)

lemma be32_bytes: "be32 w = be_bytes 4 (unat w)"
proof -
  have "be_bytes 4 (be_nat (be32 w)) = be32 w" by (rule be_bytes_be_nat) simp
  moreover have "be_nat (be32 w) = unat w" using unat_un_be32 [of "be32 w"] by simp
  ultimately show ?thesis by simp
qed

lemma count_bytes: "be32 c1 @ be32 c0 = be_bytes 8 (unat c1 * 2 ^ 32 + unat c0)"
proof -
  have b: "unat c0 < 256 ^ 4" using unsigned_less [of c0, where ?'a = nat] by simp
  have "be_bytes (4 + 4) (unat c1 * 256 ^ 4 + unat c0) = be_bytes 4 (unat c1) @ be_bytes 4 (unat c0)"
    unfolding be_bytes_add using b be_bytes_mod [of 4 "unat c1 * 256 ^ 4 + unat c0"] by simp
  then show ?thesis by (simp add: be32_bytes)
qed

lemma pad_full: "bit_count ctx = 8 * n mod 2 ^ 64 \<Longrightarrow> cx_count0 ctx AND 504 = 448 \<longleftrightarrow> n mod 64 = 56"
proof -
  assume "bit_count ctx = 8 * n mod 2 ^ 64"
  note c = buffered_count [OF this]
  have e: "cx_count0 ctx AND 504 = push_bit 3 (drop_bit 3 (cx_count0 ctx) AND 63)"
  proof (rule bit_word_eqI)
    fix k assume "k < LENGTH(32)"
    have "(504 :: u32) = push_bit 3 (mask 6)" "(63 :: u32) = mask 6" by (simp_all add: mask_eq_exp_minus_1)
    note m = this
    show "bit (cx_count0 ctx AND 504) k = bit (push_bit 3 (drop_bit 3 (cx_count0 ctx) AND 63)) k"
      unfolding m by (auto simp: bit_simps)
  qed
  define w where "w = drop_bit 3 (cx_count0 ctx) AND 63"
  have w: "unat w = n mod 64" using c by (simp add: w_def)
  then have "unat (push_bit 3 w) = 8 * (n mod 64)"
    using mod_less_divisor [of 64 n] by (simp add: push_bit_eq_mult unat_word_ariths)
  then have "unat (cx_count0 ctx AND 504) = 8 * (n mod 64)" using e by (simp add: w_def)
  then show ?thesis by (simp add: word_unat_eq_iff)
qed

lemma zeros_missing: "r < 64 \<Longrightarrow> (120 - r) mod 64 = (if r \<le> 56 then 56 - r else 120 - r)" for r :: nat
  by (simp add: le_mod_geq)

lemma pad_bytes_ok:
  "took m ctx \<Longrightarrow> k = (120 - length m mod 64) mod 64 \<Longrightarrow> \<exists>ctx'. pad_bytes ctx = Some ctx' \<and> took (m @ replicate k 0) ctx'"
proof (induction k arbitrary: m ctx)
  case 0
  have "length m mod 64 = 56" using 0(2) zeros_missing [of "length m mod 64"] by (simp split: if_splits)
  then have "cx_count0 ctx AND 504 = 448" using 0(1) pad_full by (simp add: took_def)
  then show ?case using 0(1) by (subst pad_bytes.simps) simp
next
  case (Suc k)
  define r where "r = length m mod 64"
  have r: "r < 64" by (simp add: r_def)
  have e: "Suc k = (120 - r) mod 64" using Suc.prems(2) by (simp add: r_def)
  have "length (m @ [0]) mod 64 = (if r = 63 then 0 else Suc r)" by (simp add: mod_Suc r_def)
  moreover have "k = (120 - (if r = 63 then 0 else Suc r)) mod 64"
  proof (cases "r \<le> 55")
    case True
    then show ?thesis using e r zeros_missing [OF r] zeros_missing [of "Suc r"] by simp
  next
    case False
    moreover have "r \<noteq> 56" using e by auto
    ultimately have "Suc k = 120 - r" using e zeros_missing [OF r] by simp
    then have "k = 119 - r" by arith
    then show ?thesis using False r zeros_missing [of "Suc r"] by simp
  qed
  ultimately have k: "k = (120 - length (m @ [0]) mod 64) mod 64" by simp
  have "length m mod 64 \<noteq> 56" using e by (auto simp: r_def)
  then have "cx_count0 ctx AND 504 \<noteq> 448" using Suc.prems(1) pad_full by (simp add: took_def)
  moreover have "took (m @ [0]) (sat_SHA1_Update ctx [0])" by (rule took_update [OF Suc.prems(1)]) simp
  ultimately show ?case using Suc.IH [OF _ k] by (subst pad_bytes.simps) simp
qed

lemma took_whole: "took m ctx \<Longrightarrow> cx_state ctx = hash_blocks sha1_H0 m"
  by (simp add: took_def)

lemma final_ok:
  assumes "took m ctx"
  shows "sat_SHA1_Final ctx = Some (SHA1 m)"
proof -
  define n where "n = (120 - length (m @ [0x80]) mod 64) mod 64"
  have "took (m @ [0x80]) (sat_SHA1_Update ctx [0x80])" by (rule took_update [OF assms]) simp
  from pad_bytes_ok [OF this n_def] obtain ctx' where
    p: "pad_bytes (sat_SHA1_Update ctx [0x80]) = Some ctx'" "took ((m @ [0x80]) @ replicate n 0) ctx'" by auto
  have "be32 (cx_count1 ctx) @ be32 (cx_count0 ctx) = be_bytes 8 (8 * length m mod 256 ^ 8)"
    using assms by (simp add: count_bytes took_def bit_count_def)
  then have c: "be32 (cx_count1 ctx) @ be32 (cx_count0 ctx) = be_bytes 8 (8 * length m)" by (simp only: be_bytes_mod)
  have "length m mod 64 < 64" by simp
  then have n: "n = (119 - length m mod 64) mod 64" unfolding n_def by (auto simp: mod_Suc)
  have "took (((m @ [0x80]) @ replicate n 0) @ be_bytes 8 (8 * length m)) (sat_SHA1_Update ctx' (be_bytes 8 (8 * length m)))"
    by (rule took_update [OF p(2)]) simp
  from took_whole [OF this] show ?thesis
    by (simp add: sat_SHA1_Final_def p(1) c SHA1_def fips_pad_def n)
qed

section \<open>What the Lua functions return\<close>

lemma lsha1_some:
  "length (cx_buffer junk) = 64 \<Longrightarrow> length s < 2 ^ 29 \<Longrightarrow> took s (sat_SHA1_Update (sat_SHA1_Init junk) s)"
  using took_update [OF took_init, of junk s] by simp

text \<open>C30. \<open>crypt.sha1\<close> returns, and what it returns is the SHA-1 of FIPS 180-4, for every string below 2^29 bytes,
  whatever the stack holds before.\<close>

theorem sha1_is_fips:
  assumes "length (cx_buffer junk) = 64" "length s < 2 ^ 29"
  shows "lsha1 junk s = Some (SHA1 s)"
  unfolding lsha1_def by (rule final_ok [OF lsha1_some [OF assms]])

theorem sha1_is_fips_witness:
  "lsha1 \<lparr>cx_state = [], cx_count0 = 7, cx_count1 = 9, cx_buffer = replicate 64 1\<rparr> [0x61, 0x62, 0x63] = Some (SHA1 [0x61, 0x62, 0x63])"
  by (rule sha1_is_fips) simp_all

lemma xor_word: "length bs = 4 \<Longrightarrow> le32 (un_le32 bs XOR un_le32 [x, x, x, x]) = map (\<lambda>c. c XOR x) bs"
proof -
  assume "length bs = 4"
  then obtain a b c d where bs: "bs = [a, b, c, d]" using length_4 by blast
  have no: "\<not> bit y k" if "8 \<le> k" for y :: byte and k using that bit_imp_le_length [of y k] by fastforce
  show ?thesis
    by (auto simp: bs le32_def un_le32_def bit_simps bit_octet no intro!: bit_word_eqI)
qed

lemma SHA1_length: "length (SHA1 m) = 20"
proof -
  have "length (hash_blocks H m) = 5" if "length H = 5" for H m
    using that
  proof (induction H m rule: hash_blocks.induct)
    case (1 H m)
    then show ?case by (cases "length m < 64") (simp_all add: hash_blocks.simps [of H m] compress_def split: prod.splits)
  qed
  then have "length (hash_blocks sha1_H0 (fips_pad m)) = 5" by (simp add: sha1_H0_def)
  moreover have "length (concat (map be32 ws)) = 4 * length ws" for ws by (induction ws) simp_all
  ultimately show ?thesis by (simp add: SHA1_def)
qed

lemma map_take_split: "length xs = 64 \<Longrightarrow> concat (map (\<lambda>i. map f (take 4 (drop (4 * i) xs))) [0..<16]) = map f xs"
proof -
  assume l: "length xs = 64"
  have st: "take (4 * Suc n) xs = take (4 * n) xs @ take 4 (drop (4 * n) xs)" for n
    using take_add [of "4 * n" 4 xs] by (simp add: add.commute)
  have "concat (map (\<lambda>i. map f (take 4 (drop (4 * i) xs))) [0..<n]) = map f (take (4 * n) xs)" for n
  proof (induction n)
    case (Suc n)
    then show ?case unfolding st by simp
  qed simp
  from this [of 16] l show ?thesis by simp
qed

lemma xor_words_map:
  assumes "length key = 64" "w = un_le32 [x, x, x, x]"
  shows "xor_words w key = map (\<lambda>c. c XOR x) key"
proof -
  have "map (\<lambda>i. le32 (un_le32 (take 4 (drop (4 * i) key)) XOR w)) [0..<16] =
        map (\<lambda>i. map (\<lambda>c. c XOR x) (take 4 (drop (4 * i) key))) [0..<16]"
    unfolding assms(2) by (rule map_cong [OF refl], rule xor_word) (use assms(1) in auto)
  then show ?thesis unfolding xor_words_def using map_take_split [OF assms(1), of "\<lambda>c. c XOR x"] by (simp only:)
qed

lemma pad_masks:
  "(0x5c5c5c5c :: u32) = un_le32 [0x5c, 0x5c, 0x5c, 0x5c]" "(0x6a6a6a6a :: u32) = un_le32 [0x6a, 0x6a, 0x6a, 0x6a]"
  "(0x5c5c5c5c XOR 0x36363636 :: u32) = 0x6a6a6a6a"
  by (simp_all add: un_le32_def)

lemma lhmac_key:
  assumes "length (cx_buffer junk) = 64" "length key < 2 ^ 29"
  shows "(if BLOCKSIZE < length key then
            map_option (\<lambda>d. d @ replicate (BLOCKSIZE - length d) 0) (sat_SHA1_Final (sat_SHA1_Update (sat_SHA1_Init junk) key))
          else Some (key @ replicate (BLOCKSIZE - length key) 0)) =
         Some (let k = (if 64 < length key then SHA1 key else key) in k @ replicate (64 - length k) 0)"
  using final_ok [OF lsha1_some [OF assms]] by (simp add: BLOCKSIZE_def Let_def)

text \<open>\<open>crypt.hmac_sha1\<close> returns the HMAC of RFC 2104 over SHA-1, for keys of any length below 2^29 bytes: a long key is
  hashed first, a short one is filled with zeros.\<close>

theorem hmac_is_rfc:
  assumes "length (cx_buffer junk) = 64" "length key < 2 ^ 29" "length msg < 2 ^ 29"
  shows "lhmac_sha1 junk key msg = Some (HMAC_SHA1 key msg)"
proof -
  define k where "k = (if 64 < length key then SHA1 key else key)"
  define k0 where "k0 = k @ replicate (64 - length k) 0"
  have k0: "length k0 = 64" by (simp add: k0_def k_def SHA1_length)
  define opad ipad where "opad = map (\<lambda>c. c XOR 0x5c) k0" and "ipad = map (\<lambda>c. c XOR 0x36) k0"
  have len: "length opad = 64" "length ipad = 64" using k0 by (simp_all add: opad_def ipad_def)
  have o: "xor_words 0x5c5c5c5c k0 = opad"
    unfolding opad_def by (rule xor_words_map [OF k0]) (rule pad_masks(1))
  have "xor_words (0x5c5c5c5c XOR 0x36363636) opad = map (\<lambda>c. c XOR 0x6a) opad"
    unfolding pad_masks(3) by (rule xor_words_map [OF len(1) pad_masks(2)])
  then have i: "xor_words (0x5c5c5c5c XOR 0x36363636) opad = ipad"
    by (simp add: opad_def ipad_def xor.assoc)
  have t1: "took opad (sat_SHA1_Update (sat_SHA1_Init junk) opad)" and t2: "took ipad (sat_SHA1_Update (sat_SHA1_Init junk) ipad)"
    using lsha1_some [OF assms(1)] len by simp_all
  have d2: "sat_SHA1_Final (sat_SHA1_Update (sat_SHA1_Update (sat_SHA1_Init junk) ipad) msg) = Some (SHA1 (ipad @ msg))"
    by (rule final_ok [OF took_update [OF t2 assms(3)]])
  have d1: "sat_SHA1_Final (sat_SHA1_Update (sat_SHA1_Update (sat_SHA1_Init junk) opad) (SHA1 (ipad @ msg))) =
            Some (SHA1 (opad @ SHA1 (ipad @ msg)))"
    by (rule final_ok [OF took_update [OF t1]]) (simp add: SHA1_length)
  show ?thesis
    unfolding lhmac_sha1_def lhmac_key [OF assms(1,2)] HMAC_SHA1_def
    unfolding Let_def bind.bind_lunit k_def [symmetric] k0_def [symmetric] o i d2 d1 opad_def [symmetric] ipad_def [symmetric] ..
qed

theorem hmac_is_rfc_witness:
  "lhmac_sha1 \<lparr>cx_state = [], cx_count0 = 7, cx_count1 = 9, cx_buffer = replicate 64 1\<rparr> [0x4b, 0x65, 0x79] [0x48, 0x69] =
     Some (HMAC_SHA1 [0x4b, 0x65, 0x79] [0x48, 0x69])"
  by (rule hmac_is_rfc) simp_all

end
