(* ===== verification/Sharedata.thy ===== *)
theory Sharedata
  imports C_Library "HOL-Library.Monad_Syntax"
begin

text \<open>
  Shared configuration (\<open>lualib-src/mtask_lua_sharedata.c\<close>): a Lua table is converted once into a tree of C
  tables, which all Lua states of the process then read without a lock. Each C table has an array and a hash part,
  a hash table whose collisions are chained through free slots. The strings are in a Lua state of
  their own and are named by their place on its stack.

  A Lua table is given by its border, as \<open>lua_rawlen\<close> finds it, and its entries in the order of \<open>lua_next\<close>. What \<open>malloc\<close> leaves in a
  node is an argument. \<open>None\<close> is an access outside a table or a walk that does not end.
\<close>

section \<open>Lua tables and C tables\<close>

datatype shared_key = Integer_Key int | String_Key "byte list" | Float_Key u64 | Table_Key | Other_Key

datatype lua_data =
    D_Nil
  | D_Integer int
  | D_Real u64
  | D_String "byte list"
  | D_Boolean bool
  | D_Table nat "(shared_key \<times> lua_data) list"
  | D_Other

datatype key_type = KEYTYPE_INTEGER | KEYTYPE_STRING

datatype 'v conf_node = Conf_Node (sn_v: 'v) (sn_key: int) (sn_next: int) (sn_keyhash: u32) (sn_keytype: key_type) (sn_nocolliding: bool)

datatype conf_value =
    VALUETYPE_NIL
  | VALUETYPE_REAL u64
  | VALUETYPE_STRING int
  | VALUETYPE_BOOLEAN bool
  | VALUETYPE_TABLE "conf_value list" "conf_value conf_node list"
  | VALUETYPE_INTEGER int

record conf_table =
  tb_array :: "conf_value list"
  tb_hash :: "conf_value conf_node list"

datatype conf_error =
    Invalid_Key | Invalid_Key_Type | Unsupport_Value_Type | No_Empty_Slot | Need_Table | Need_New_Object

text \<open>The string map of the conversion: the string at position \<open>i\<close> has the index \<open>i + 2\<close>.\<close>

type_synonym string_map = "byte list list"

type_synonym 'a conversion = "string_map \<Rightarrow> conf_error + 'a \<times> string_map"

definition then_convert :: "conf_error + 'a \<times> string_map \<Rightarrow> ('a \<Rightarrow> 'b conversion) \<Rightarrow> conf_error + 'b \<times> string_map" where
  "then_convert r f = on_ok r (\<lambda>(a, S). f a S)"

section \<open>Keys\<close>

fun countsize :: "nat \<Rightarrow> (shared_key \<times> 'a) list \<Rightarrow> conf_error + nat" where
  "countsize sizearray [] = Inr 0"
| "countsize sizearray ((k, v) # es) =
     (case k of
        Integer_Key nkey \<Rightarrow>
          map_sum id (\<lambda>n. if 0 < nkey \<and> nkey \<le> int sizearray then n else Suc n) (countsize sizearray es)
      | Float_Key _ \<Rightarrow> Inl Invalid_Key
      | Other_Key \<Rightarrow> Inl Invalid_Key_Type
      | _ \<Rightarrow> map_sum id Suc (countsize sizearray es))"

text \<open>\<open>step\<close> is the distance of the characters used, less 1.\<close>

function calchash_loop :: "byte list \<Rightarrow> nat \<Rightarrow> nat \<Rightarrow> u32 \<Rightarrow> u32" where
  "calchash_loop s step l1 h =
     (if Suc step \<le> l1
      then calchash_loop s step (l1 - Suc step) (h XOR (push_bit 5 h + drop_bit 2 h + ucast (s ! (l1 - 1))))
      else h)"
  by pat_completeness auto
termination by (relation "measure (\<lambda>(s, step, l1, h). l1)") auto

declare calchash_loop.simps [simp del]

definition calchash :: "byte list \<Rightarrow> u32" where
  "calchash s = calchash_loop s (length s div 32) (length s) (of_nat (length s))"

definition stringindex :: "byte list \<Rightarrow> string_map \<Rightarrow> int \<times> string_map" where
  "stringindex s S =
     (let n = length (takeWhile (\<lambda>t. t \<noteq> s) S) in (int n + 2, if n < length S then S else S @ [s]))"

datatype key_place = Array_Place int | Hash_Place int u32 key_type

text \<open>
  An integer is cut to an \<open>int\<close>. For a key that is neither a number nor a string \<open>lua_tolstring\<close> gives no text, of
  length 0.
\<close>

definition ishashkey :: "nat \<Rightarrow> shared_key \<Rightarrow> string_map \<Rightarrow> key_place \<times> string_map" where
  "ishashkey sizearray k S =
     (let number = (\<lambda>key. if 0 < key \<and> key \<le> int sizearray then Array_Place key else Hash_Place key (word_of_int key) KEYTYPE_INTEGER);
          named = (\<lambda>s. case stringindex s S of (key, S1) \<Rightarrow> (Hash_Place key (calchash s) KEYTYPE_STRING, S1))
      in case k of
           Integer_Key i \<Rightarrow> (number (as_int i), S)
         | Float_Key _ \<Rightarrow> (number 0, S)
         | String_Key s \<Rightarrow> named s
         | _ \<Rightarrow> named [])"

section \<open>The conversion\<close>

text \<open>The functions that fill a table take the conversion of its values as an argument, which \<open>setvalue\<close> then is.\<close>

definition setarray :: "(lua_data \<Rightarrow> conf_value conversion) \<Rightarrow> lua_data \<Rightarrow> int \<Rightarrow> conf_table \<Rightarrow> conf_table conversion" where
  "setarray setv v key t S = then_convert (setv v S) (\<lambda>x S1. Inr (t\<lparr>tb_array := (tb_array t)[nat (key - 1) := x]\<rparr>, S1))"

fun fillnocolliding :: "(lua_data \<Rightarrow> conf_value conversion) \<Rightarrow> (shared_key \<times> lua_data) list \<Rightarrow> conf_table \<Rightarrow> conf_table conversion" where
  "fillnocolliding setv [] t S = Inr (t, S)"
| "fillnocolliding setv ((k, v) # es) t S =
     (case ishashkey (length (tb_array t)) k S of
        (Array_Place key, S1) \<Rightarrow> then_convert (setarray setv v key t S1) (fillnocolliding setv es)
      | (Hash_Place key keyhash keytype, S1) \<Rightarrow>
          let i = unat keyhash mod length (tb_hash t) in
          if sn_v (tb_hash t ! i) = VALUETYPE_NIL then
            then_convert (setv v S1) (\<lambda>x.
              fillnocolliding setv es (t\<lparr>tb_hash := (tb_hash t)[i := Conf_Node x key (-1) keyhash keytype True]\<rparr>))
          else fillnocolliding setv es t S1)"

definition empty_slot :: "conf_value conf_node list \<Rightarrow> nat option" where
  "empty_slot hash = find (\<lambda>i. sn_v (hash ! i) = VALUETYPE_NIL) [0..<length hash]"

text \<open>The node at \<open>i\<close> is put behind the one at the main position.\<close>

definition link_node :: "conf_value conf_node list \<Rightarrow> nat \<Rightarrow> nat \<Rightarrow> int \<Rightarrow> u32 \<Rightarrow> key_type \<Rightarrow> conf_value conf_node list" where
  "link_node hash i m key keyhash keytype =
     (case hash ! i of Conf_Node v k _ kh kt nc \<Rightarrow>
       let hash1 = hash[i := Conf_Node v k (sn_next (hash ! m)) kh kt nc] in
       (case hash1 ! m of Conf_Node v' k' _ kh' kt' _ \<Rightarrow>
         let hash2 = hash1[m := Conf_Node v' k' (int i) kh' kt' False]
         in hash2[i := Conf_Node (sn_v (hash2 ! i)) key (sn_next (hash2 ! i)) keyhash keytype False]))"

definition put_value :: "conf_value conf_node list \<Rightarrow> nat \<Rightarrow> conf_value \<Rightarrow> conf_value conf_node list" where
  "put_value hash i x =
     (case hash ! i of Conf_Node _ k n kh kt nc \<Rightarrow> hash[i := Conf_Node x k n kh kt nc])"

fun fillcolliding :: "(lua_data \<Rightarrow> conf_value conversion) \<Rightarrow> (shared_key \<times> lua_data) list \<Rightarrow> conf_table \<Rightarrow> conf_table conversion" where
  "fillcolliding setv [] t S = Inr (t, S)"
| "fillcolliding setv ((k, v) # es) t S =
     (case ishashkey (length (tb_array t)) k S of
        (Array_Place key, S1) \<Rightarrow> fillcolliding setv es t S1
      | (Hash_Place key keyhash keytype, S1) \<Rightarrow>
          let m = unat keyhash mod length (tb_hash t) in
          if sn_keytype (tb_hash t ! m) = keytype \<and> sn_key (tb_hash t ! m) = key then fillcolliding setv es t S1
          else
            (case empty_slot (tb_hash t) of
               None \<Rightarrow> Inl No_Empty_Slot
             | Some i \<Rightarrow>
                 let hash = link_node (tb_hash t) i m key keyhash keytype in
                 then_convert (setv v S1) (\<lambda>x. fillcolliding setv es (t\<lparr>tb_hash := put_value hash i x\<rparr>))))"

definition rawget :: "(shared_key \<times> lua_data) list \<Rightarrow> nat \<Rightarrow> lua_data" where
  "rawget es i = (case map_of es (Integer_Key (int i)) of None \<Rightarrow> D_Nil | Some v \<Rightarrow> v)"

fun array_loop :: "(lua_data \<Rightarrow> conf_value conversion) \<Rightarrow> (shared_key \<times> lua_data) list \<Rightarrow> nat list \<Rightarrow> conf_table \<Rightarrow> conf_table conversion" where
  "array_loop setv es [] t S = Inr (t, S)"
| "array_loop setv es (i # is) t S = then_convert (setarray setv (rawget es i) (int i) t S) (array_loop setv es is)"

definition new_node :: "conf_value conf_node \<Rightarrow> conf_value conf_node" where
  "new_node junk = Conf_Node VALUETYPE_NIL (sn_key junk) (sn_next junk) (sn_keyhash junk) (sn_keytype junk) False"

definition convtable :: "(nat \<Rightarrow> conf_value conf_node) \<Rightarrow> (lua_data \<Rightarrow> conf_value conversion) \<Rightarrow> nat \<Rightarrow>
    (shared_key \<times> lua_data) list \<Rightarrow> conf_table conversion" where
  "convtable junk setv sizearray es S =
     (case countsize sizearray es of
        Inl e \<Rightarrow> Inl e
      | Inr sizehash \<Rightarrow>
          let t = \<lparr>tb_array = replicate sizearray VALUETYPE_NIL, tb_hash = map (\<lambda>i. new_node (junk i)) [0..<sizehash]\<rparr> in
          if sizehash \<noteq> 0 then then_convert (fillnocolliding setv es t S) (fillcolliding setv es)
          else array_loop setv es [1..<Suc sizearray] t S)"

lemma setarray_cong [fundef_cong]:
  "v = v' \<Longrightarrow> key = key' \<Longrightarrow> t = t' \<Longrightarrow> S = S' \<Longrightarrow> (\<And>T. setv v' T = setv' v' T) \<Longrightarrow> setarray setv v key t S = setarray setv' v' key' t' S'"
  by (simp add: setarray_def)

lemma fillnocolliding_same:
  "(\<And>k v T. (k, v) \<in> set es \<Longrightarrow> setv v T = setv' v T) \<Longrightarrow> fillnocolliding setv es t S = fillnocolliding setv' es t S"
proof (induction es arbitrary: t S)
  case (Cons e es)
  obtain k v where e: "e = (k, v)" by force
  then have "fillnocolliding setv es = fillnocolliding setv' es" "setv v = setv' v"
    using Cons.IH Cons.prems by (fastforce intro!: ext)+
  then show ?case unfolding e fillnocolliding.simps setarray_def by (simp only:)
qed simp

lemma fillcolliding_same:
  "(\<And>k v T. (k, v) \<in> set es \<Longrightarrow> setv v T = setv' v T) \<Longrightarrow> fillcolliding setv es t S = fillcolliding setv' es t S"
proof (induction es arbitrary: t S)
  case (Cons e es)
  obtain k v where e: "e = (k, v)" by force
  then have "fillcolliding setv es = fillcolliding setv' es" "setv v = setv' v"
    using Cons.IH Cons.prems by (fastforce intro!: ext)+
  then show ?case unfolding e fillcolliding.simps by (simp only:)
qed simp

lemma rawget_in: "rawget es i = D_Nil \<or> (\<exists>k. (k, rawget es i) \<in> set es)"
  by (auto simp: rawget_def dest: map_of_SomeD split: option.splits)

lemma array_loop_same:
  "(\<And>k v T. (k, v) \<in> set es \<Longrightarrow> setv v T = setv' v T) \<Longrightarrow> setv D_Nil = setv' D_Nil \<Longrightarrow>
   array_loop setv es is t S = array_loop setv' es is t S"
proof (induction "is" arbitrary: t S)
  case (Cons i "is")
  have "setv (rawget es i) = setv' (rawget es i)" using rawget_in [of es i] Cons.prems by (metis ext)
  moreover have "array_loop setv es is = array_loop setv' es is" using Cons by (fastforce intro!: ext)
  ultimately show ?case by (simp add: setarray_def)
qed simp

lemma convtable_cong [fundef_cong]:
  assumes "junk = junk'" "n = n'" "es = es'" "S = S'"
    "\<And>k v T. (k, v) \<in> set es' \<Longrightarrow> setv v T = setv' v T" "\<And>T. setv D_Nil T = setv' D_Nil T"
  shows "convtable junk setv n es S = convtable junk' setv' n' es' S'"
proof -
  have "fillnocolliding setv es' = fillnocolliding setv' es'" "fillcolliding setv es' = fillcolliding setv' es'"
      "array_loop setv es' = array_loop setv' es'"
    by (intro ext fillnocolliding_same fillcolliding_same array_loop_same; simp add: assms(5,6))+
  then show ?thesis unfolding convtable_def assms(1-4) by (simp only:)
qed

function setvalue :: "(nat \<Rightarrow> conf_value conf_node) \<Rightarrow> lua_data \<Rightarrow> conf_value conversion" where
  "setvalue junk D_Nil S = Inr (VALUETYPE_NIL, S)"
| "setvalue junk (D_Integer i) S = Inr (VALUETYPE_INTEGER i, S)"
| "setvalue junk (D_Real x) S = Inr (VALUETYPE_REAL x, S)"
| "setvalue junk (D_String s) S = (case stringindex s S of (i, S1) \<Rightarrow> Inr (VALUETYPE_STRING i, S1))"
| "setvalue junk (D_Boolean b) S = Inr (VALUETYPE_BOOLEAN b, S)"
| "setvalue junk (D_Table n es) S =
     then_convert (convtable junk (setvalue junk) n es S) (\<lambda>t S1. Inr (VALUETYPE_TABLE (tb_array t) (tb_hash t), S1))"
| "setvalue junk D_Other S = Inl Unsupport_Value_Type"
  by pat_completeness auto
termination
proof (relation "measure (\<lambda>(junk, d, S). size d)", goal_cases)
  case (2 junk n es S k v T)
  then have "size v < Suc (size_list (size_prod (\<lambda>x. 0) size) es)" by (induction es) auto
  then show ?case by simp
qed auto

text \<open>The main table, with the strings.\<close>

definition lnewconf :: "(nat \<Rightarrow> conf_value conf_node) \<Rightarrow> lua_data \<Rightarrow> conf_error + conf_table \<times> string_map" where
  "lnewconf junk d = (case d of D_Table n es \<Rightarrow> convtable junk (setvalue junk) n es [] | _ \<Rightarrow> Inl Need_Table)"

section \<open>Reading\<close>

datatype pushed =
    P_Nil | P_Real u64 | P_Integer int | P_String "byte list" | P_Boolean bool | P_Table conf_table

definition string_at :: "string_map \<Rightarrow> int \<Rightarrow> byte list option" where
  "string_at S i = (if 2 \<le> i \<and> nat (i - 2) < length S then Some (S ! nat (i - 2)) else None)"

fun pushvalue :: "string_map \<Rightarrow> conf_value \<Rightarrow> pushed option" where
  "pushvalue S (VALUETYPE_REAL x) = Some (P_Real x)"
| "pushvalue S (VALUETYPE_INTEGER i) = Some (P_Integer i)"
| "pushvalue S (VALUETYPE_STRING i) = map_option P_String (string_at S i)"
| "pushvalue S (VALUETYPE_BOOLEAN b) = Some (P_Boolean b)"
| "pushvalue S (VALUETYPE_TABLE a h) = Some (P_Table \<lparr>tb_array = a, tb_hash = h\<rparr>)"
| "pushvalue S VALUETYPE_NIL = Some P_Nil"

partial_function (option) lookup_loop ::
    "conf_value conf_node list \<Rightarrow> string_map \<Rightarrow> u32 \<Rightarrow> int \<Rightarrow> key_type \<Rightarrow> byte list \<Rightarrow> int \<Rightarrow> nat option option" where
  "lookup_loop hash S keyhash key keytype s i =
     (if i < 0 \<or> int (length hash) \<le> i then None
      else do {
        let n = hash ! nat i;
        found \<leftarrow>
          (if keyhash = sn_keyhash n then
             (case sn_keytype n of
                KEYTYPE_INTEGER \<Rightarrow> Some (keytype = KEYTYPE_INTEGER \<and> sn_key n = key)
              | KEYTYPE_STRING \<Rightarrow>
                  if keytype = KEYTYPE_STRING then map_option (\<lambda>s2. s = s2) (string_at S (sn_key n)) else Some False)
           else Some False);
        if found then Some (Some (nat i))
        else if sn_next n < 0 then Some None
        else lookup_loop hash S keyhash key keytype s (sn_next n)
      })"

declare lookup_loop.simps [code]

definition lookup_key :: "conf_table \<Rightarrow> string_map \<Rightarrow> u32 \<Rightarrow> int \<Rightarrow> key_type \<Rightarrow> byte list \<Rightarrow> nat option option" where
  "lookup_key tbl S keyhash key keytype s =
     (if tb_hash tbl = [] then Some None
      else
        let i = unat keyhash mod length (tb_hash tbl); n = tb_hash tbl ! i in
        if keyhash \<noteq> sn_keyhash n \<and> sn_nocolliding n then Some None
        else lookup_loop (tb_hash tbl) S keyhash key keytype s (int i))"

text \<open>
  The key as an argument: its place in the array, or how it is looked up. The error for keys that are neither
  numbers nor strings is that of \<open>luaL_checklstring\<close>.
\<close>

definition key_arg :: "conf_table \<Rightarrow> shared_key \<Rightarrow> conf_error + (nat + int \<times> u32 \<times> key_type \<times> byte list)" where
  "key_arg tbl k =
     (case k of
        Integer_Key i \<Rightarrow>
          let key = as_int i in
          Inr (if 0 < key \<and> key \<le> int (length (tb_array tbl)) then Inl (nat (key - 1)) else Inr (key, word_of_int key, KEYTYPE_INTEGER, []))
      | Float_Key _ \<Rightarrow> Inl Invalid_Key
      | String_Key s \<Rightarrow> Inr (Inr (0, calchash s, KEYTYPE_STRING, s))
      | _ \<Rightarrow> Inl Invalid_Key_Type)"

text \<open>\<open>Some None\<close> is no result.\<close>

definition lindexconf :: "conf_table \<Rightarrow> string_map \<Rightarrow> shared_key \<Rightarrow> (conf_error + pushed option) option" where
  "lindexconf tbl S k =
     (case key_arg tbl k of
        Inl e \<Rightarrow> Some (Inl e)
      | Inr (Inl i) \<Rightarrow> map_option (Inr \<circ> Some) (pushvalue S (tb_array tbl ! i))
      | Inr (Inr (key, keyhash, keytype, s)) \<Rightarrow> do {
          n \<leftarrow> lookup_key tbl S keyhash key keytype s;
          (case n of
             None \<Rightarrow> Some (Inr None)
           | Some i \<Rightarrow> map_option (Inr \<circ> Some) (pushvalue S (sn_v (tb_hash tbl ! i))))
        })"

definition pushkey :: "string_map \<Rightarrow> conf_value conf_node \<Rightarrow> shared_key option" where
  "pushkey S n =
     (case sn_keytype n of
        KEYTYPE_INTEGER \<Rightarrow> Some (Integer_Key (sn_key n))
      | KEYTYPE_STRING \<Rightarrow> map_option String_Key (string_at S (sn_key n)))"

definition pushfirsthash :: "conf_table \<Rightarrow> string_map \<Rightarrow> shared_key option option" where
  "pushfirsthash tbl S = (if tb_hash tbl = [] then Some None else map_option Some (pushkey S (tb_hash tbl ! 0)))"

text \<open>The first place from \<open>i\<close> on in the array that is not nil, or the first of the hash part.\<close>

definition next_array :: "conf_table \<Rightarrow> string_map \<Rightarrow> nat \<Rightarrow> shared_key option option" where
  "next_array tbl S i =
     (case find (\<lambda>i. tb_array tbl ! i \<noteq> VALUETYPE_NIL) [i..<length (tb_array tbl)] of
        Some j \<Rightarrow> Some (Some (Integer_Key (int j + 1)))
      | None \<Rightarrow> pushfirsthash tbl S)"

definition lnextkey :: "conf_table \<Rightarrow> string_map \<Rightarrow> shared_key option \<Rightarrow> (conf_error + shared_key option) option" where
  "lnextkey tbl S ko =
     (case ko of
        None \<Rightarrow> map_option Inr (next_array tbl S 0)
      | Some (Float_Key _) \<Rightarrow> Some (Inr None)
      | Some k \<Rightarrow>
          (case key_arg tbl k of
             Inl e \<Rightarrow> Some (Inl e)
           | Inr (Inl i) \<Rightarrow> map_option Inr (next_array tbl S (Suc i))
           | Inr (Inr (key, keyhash, keytype, s)) \<Rightarrow> do {
               n \<leftarrow> lookup_key tbl S keyhash key keytype s;
               (case n of
                  None \<Rightarrow> Some (Inr None)
                | Some i \<Rightarrow>
                    if Suc i = length (tb_hash tbl) then Some (Inr None)
                    else map_option (Inr \<circ> Some) (pushkey S (tb_hash tbl ! Suc i)))
             }))"

definition llen :: "conf_table \<Rightarrow> nat" where "llen tbl = length (tb_array tbl)"

definition lhashlen :: "conf_table \<Rightarrow> nat" where "lhashlen tbl = length (tb_hash tbl)"

section \<open>Owners\<close>

text \<open>
  The objects of a process, by their addresses, and the control objects with which the Lua states hold them
  (a control object is dropped by \<open>releaseobj\<close> when its state collects it). \<open>None\<close> as a result is the use of an object that
  was deleted.
\<close>

record conf_object =
  co_table :: conf_table
  co_strings :: string_map
  co_dirty :: int
  co_ref :: int

record conf_ctrl =
  cc_root :: "nat option"
  cc_update :: "nat option"

record conf_world =
  cw_objects :: "nat \<Rightarrow> conf_object option"
  cw_ctrls :: "nat \<Rightarrow> conf_ctrl option"
  cw_brk :: nat

definition object_upd :: "nat \<Rightarrow> (conf_object \<Rightarrow> conf_object) \<Rightarrow> conf_world \<Rightarrow> conf_world option" where
  "object_upd a f w = map_option (\<lambda>ob. w\<lparr>cw_objects := (cw_objects w)(a \<mapsto> f ob)\<rparr>) (cw_objects w a)"

definition new_conf :: "(nat \<Rightarrow> conf_value conf_node) \<Rightarrow> lua_data \<Rightarrow> conf_world \<Rightarrow> (conf_error + nat) \<times> conf_world" where
  "new_conf junk d w =
     (case lnewconf junk d of
        Inl e \<Rightarrow> (Inl e, w)
      | Inr (t, S) \<Rightarrow>
          (Inr (cw_brk w),
           w\<lparr>cw_objects := (cw_objects w)(cw_brk w \<mapsto> \<lparr>co_table = t, co_strings = S, co_dirty = 0, co_ref = 0\<rparr>), cw_brk := cw_brk w + 1\<rparr>))"

definition ldeleteconf :: "nat \<Rightarrow> conf_world \<Rightarrow> conf_world option" where
  "ldeleteconf a w = map_option (\<lambda>_. w\<lparr>cw_objects := (cw_objects w)(a := None)\<rparr>) (cw_objects w a)"

definition lboxconf :: "nat \<Rightarrow> conf_world \<Rightarrow> (nat \<times> conf_world) option" where
  "lboxconf a w = do {
     w1 \<leftarrow> object_upd a (\<lambda>ob. ob\<lparr>co_ref := co_ref ob + 1\<rparr>) w;
     Some (cw_brk w1,
       w1\<lparr>cw_ctrls := (cw_ctrls w1)(cw_brk w1 \<mapsto> \<lparr>cc_root = Some a, cc_update = None\<rparr>), cw_brk := cw_brk w1 + 1\<rparr>)
   }"

definition releaseobj :: "nat \<Rightarrow> conf_world \<Rightarrow> conf_world option" where
  "releaseobj c w = do {
     ctrl \<leftarrow> cw_ctrls w c;
     a \<leftarrow> cc_root ctrl;
     w1 \<leftarrow> object_upd a (\<lambda>ob. ob\<lparr>co_ref := co_ref ob - 1\<rparr>) w;
     Some (w1\<lparr>cw_ctrls := (cw_ctrls w1)(c \<mapsto> \<lparr>cc_root = None, cc_update = None\<rparr>)\<rparr>)
   }"

definition lmarkdirty :: "nat \<Rightarrow> conf_world \<Rightarrow> conf_world option" where
  "lmarkdirty a w = object_upd a (\<lambda>ob. ob\<lparr>co_dirty := 1\<rparr>) w"

definition lisdirty :: "nat \<Rightarrow> conf_world \<Rightarrow> bool option" where
  "lisdirty a w = map_option (\<lambda>ob. co_dirty ob \<noteq> 0) (cw_objects w a)"

definition lgetref :: "nat \<Rightarrow> conf_world \<Rightarrow> int option" where
  "lgetref a w = map_option co_ref (cw_objects w a)"

definition lincref :: "nat \<Rightarrow> conf_world \<Rightarrow> (int \<times> conf_world) option" where
  "lincref a w = do {
     w1 \<leftarrow> object_upd a (\<lambda>ob. ob\<lparr>co_ref := co_ref ob + 1\<rparr>) w;
     r \<leftarrow> lgetref a w1;
     Some (r, w1)
   }"

definition ldecref :: "nat \<Rightarrow> conf_world \<Rightarrow> (int \<times> conf_world) option" where
  "ldecref a w = do {
     w1 \<leftarrow> object_upd a (\<lambda>ob. ob\<lparr>co_ref := co_ref ob - 1\<rparr>) w;
     r \<leftarrow> lgetref a w1;
     Some (r, w1)
   }"

definition lneedupdate :: "nat \<Rightarrow> conf_world \<Rightarrow> nat option option" where
  "lneedupdate c w = map_option cc_update (cw_ctrls w c)"

definition lupdate :: "nat \<Rightarrow> nat \<Rightarrow> conf_world \<Rightarrow> (conf_error + conf_world) option" where
  "lupdate c a w = do {
     ctrl \<leftarrow> cw_ctrls w c;
     Some (if cc_root ctrl = Some a then Inl Need_New_Object
           else Inr (w\<lparr>cw_ctrls := (cw_ctrls w)(c \<mapsto> ctrl\<lparr>cc_update := Some a\<rparr>)\<rparr>))
   }"

end
