(* ===== verification/Sharedata_Lookup.thy ===== *)
theory Sharedata_Lookup
  imports Sharedata "HOL-Library.Sublist"
begin

text \<open>
  A shared table answers as the Lua table it was made from: every key finds its value and no other key
  finds one, down every path of nested tables, and the traversal gives every key once.
\<close>

section \<open>The string map\<close>

lemma stringindex_ok:
  assumes "distinct S" "stringindex s S = (i, S')"
  shows "string_at S' i = Some s" "prefix S S'" "distinct S'"
proof -
  define n where "n = length (takeWhile (\<lambda>t. t \<noteq> s) S)"
  have r: "i = int n + 2" "S' = (if n < length S then S else S @ [s])"
    using assms(2) by (simp_all add: stringindex_def Let_def n_def)
  have n: "n \<le> length S" by (simp add: n_def length_takeWhile_le)
  have "n < length S \<Longrightarrow> S ! n = s" using nth_length_takeWhile [of "\<lambda>t. t \<noteq> s" S] by (simp add: n_def)
  moreover have "\<not> n < length S \<Longrightarrow> n = length S \<and> s \<notin> set S"
    using n takeWhile_eq_all_conv [of "\<lambda>t. t \<noteq> s" S] takeWhile_eq_take [of "\<lambda>t. t \<noteq> s" S] by (auto simp: n_def)
  ultimately show "string_at S' i = Some s" "prefix S S'" "distinct S'" using r assms(1) by (auto simp: string_at_def nth_append)
qed

lemma string_at_prefix: "string_at S i = Some s \<Longrightarrow> prefix S S' \<Longrightarrow> string_at S' i = Some s"
  by (auto simp: string_at_def prefix_def nth_append split: if_splits)

lemma string_at_inj: "distinct S \<Longrightarrow> string_at S i = Some s \<Longrightarrow> string_at S j = Some s \<Longrightarrow> i = j"
  by (auto simp: string_at_def nth_eq_iff_index_eq split: if_splits)

section \<open>Keys\<close>

fun plain_key :: "shared_key \<Rightarrow> bool" where
  "plain_key (Integer_Key i) \<longleftrightarrow> as_int i = i"
| "plain_key (String_Key s) \<longleftrightarrow> True"
| "plain_key _ \<longleftrightarrow> False"

fun key_hash :: "shared_key \<Rightarrow> u32" where
  "key_hash (Integer_Key i) = word_of_int i"
| "key_hash (String_Key s) = calchash s"
| "key_hash _ = 0"

definition in_array :: "nat \<Rightarrow> shared_key \<Rightarrow> bool" where
  "in_array n k \<longleftrightarrow> (\<exists>i. k = Integer_Key i \<and> 0 < i \<and> i \<le> int n)"

text \<open>A node with these fields has the key \<open>k\<close>.\<close>

definition names_key :: "string_map \<Rightarrow> shared_key \<Rightarrow> int \<Rightarrow> key_type \<Rightarrow> bool" where
  "names_key S k key keytype \<longleftrightarrow>
     (case keytype of
        KEYTYPE_INTEGER \<Rightarrow> k = Integer_Key key
      | KEYTYPE_STRING \<Rightarrow> (\<exists>s. string_at S key = Some s \<and> k = String_Key s))"

lemma pushkey_names: "pushkey S n = Some k \<longleftrightarrow> names_key S k (sn_key n) (sn_keytype n)"
  by (auto simp: pushkey_def names_key_def split: key_type.splits)

lemma names_prefix: "names_key S k key keytype \<Longrightarrow> prefix S S' \<Longrightarrow> names_key S' k key keytype"
  by (auto simp: names_key_def intro: string_at_prefix split: key_type.splits)

lemma names_unique: "names_key S k key keytype \<Longrightarrow> names_key S k' key keytype \<Longrightarrow> k = k'"
  by (auto simp: names_key_def split: key_type.splits)

lemma names_same:
  "distinct S \<Longrightarrow> names_key S k key keytype \<Longrightarrow> names_key S k key' keytype' \<Longrightarrow> keytype = keytype' \<and> key = key'"
proof (cases k)
  case (String_Key s)
  assume "distinct S" "names_key S k key keytype" "names_key S k key' keytype'"
  then have "keytype = KEYTYPE_STRING" "keytype' = KEYTYPE_STRING" "string_at S key = Some s" "string_at S key' = Some s"
    using String_Key by (auto simp: names_key_def split: key_type.splits)
  with string_at_inj [OF \<open>distinct S\<close>] show ?thesis by blast
qed (auto simp: names_key_def split: key_type.splits)

lemma ishashkey_ok:
  assumes "plain_key k" "distinct S" "ishashkey n k S = (p, S')"
  shows "prefix S S' \<and> distinct S' \<and>
    (case p of
       Array_Place key \<Rightarrow> k = Integer_Key key \<and> 0 < key \<and> key \<le> int n
     | Hash_Place key keyhash keytype \<Rightarrow> \<not> in_array n k \<and> keyhash = key_hash k \<and> names_key S' k key keytype)"
proof (cases k)
  case (Integer_Key i)
  then show ?thesis using assms by (auto simp: ishashkey_def in_array_def names_key_def split: if_splits)
next
  case (String_Key s)
  obtain i S1 where i: "stringindex s S = (i, S1)" by force
  with stringindex_ok [OF assms(2) i] assms(3) String_Key show ?thesis
    by (auto simp: ishashkey_def in_array_def names_key_def)
qed (use assms(1) in auto)

text \<open>A key of more than 32 bits is taken for another one.\<close>

lemma long_key_cut: "ishashkey 1 (Integer_Key (2 ^ 32 + 1)) S = (Array_Place 1, S)" "countsize 1 [(Integer_Key (2 ^ 32 + 1), v)] = Inr 1"
  by (simp_all add: ishashkey_def as_int_def)

section \<open>What is shared\<close>

definition is_filled :: "conf_value conf_node list \<Rightarrow> nat \<Rightarrow> bool" where
  "is_filled h i \<longleftrightarrow> i < length h \<and> sn_v (h ! i) \<noteq> VALUETYPE_NIL"

definition main_place :: "conf_value conf_node list \<Rightarrow> nat \<Rightarrow> nat" where
  "main_place h i = unat (sn_keyhash (h ! i)) mod length h"

fun node_chain :: "conf_value conf_node list \<Rightarrow> int \<Rightarrow> nat list \<Rightarrow> bool" where
  "node_chain h i [] \<longleftrightarrow> i = -1"
| "node_chain h i (j # js) \<longleftrightarrow> i = int j \<and> j < length h \<and> node_chain h (sn_next (h ! j)) js"

text \<open>
  The chain from a main position holds exactly the nodes that belong there; the main position of every node
  starts such a chain.
\<close>

definition chained :: "conf_value conf_node list \<Rightarrow> bool" where
  "chained h \<longleftrightarrow>
     (\<forall>i. is_filled h i \<longrightarrow> is_filled h (main_place h i) \<and> main_place h (main_place h i) = main_place h i) \<and>
     (\<forall>p. is_filled h p \<and> main_place h p = p \<longrightarrow>
        (\<exists>js. node_chain h (int p) js \<and> distinct js \<and> (\<forall>j. j \<in> set js \<longleftrightarrow> is_filled h j \<and> main_place h j = p)) \<and>
        (sn_nocolliding (h ! p) \<longrightarrow> sn_next (h ! p) = -1)) \<and>
     (\<forall>p. is_filled h p \<and> main_place h p \<noteq> p \<longrightarrow> \<not> sn_nocolliding (h ! p))"

inductive shares :: "string_map \<Rightarrow> lua_data \<Rightarrow> conf_value \<Rightarrow> bool" for S where
  shares_nil: "shares S D_Nil VALUETYPE_NIL"
| shares_integer: "shares S (D_Integer i) (VALUETYPE_INTEGER i)"
| shares_real: "shares S (D_Real x) (VALUETYPE_REAL x)"
| shares_boolean: "shares S (D_Boolean b) (VALUETYPE_BOOLEAN b)"
| shares_string: "string_at S i = Some s \<Longrightarrow> shares S (D_String s) (VALUETYPE_STRING i)"
| shares_table:
    "length a = n \<Longrightarrow> \<forall>i < n. shares S (rawget es (Suc i)) (a ! i) \<Longrightarrow> chained h \<Longrightarrow>
     \<forall>i < length h. sn_v (h ! i) \<noteq> VALUETYPE_NIL \<and>
       (\<exists>k v. (k, v) \<in> set es \<and> \<not> in_array n k \<and> pushkey S (h ! i) = Some k \<and> sn_keyhash (h ! i) = key_hash k \<and> shares S v (sn_v (h ! i))) \<Longrightarrow>
     \<forall>k v. (k, v) \<in> set es \<and> \<not> in_array n k \<longrightarrow> (\<exists>i < length h. pushkey S (h ! i) = Some k) \<Longrightarrow>
     \<forall>i < length h. \<forall>j < length h. pushkey S (h ! i) = pushkey S (h ! j) \<longrightarrow> i = j \<Longrightarrow>
     shares S (D_Table n es) (VALUETYPE_TABLE a h)"

inductive_cases shares_tableE: "shares S (D_Table n es) c"
inductive_simps shares_simps: "shares S D_Nil c" "shares S d VALUETYPE_NIL" "shares S (D_Integer i) c" "shares S (D_Real x) c"
  "shares S (D_Boolean b) c" "shares S (D_String s) c" "shares S D_Other c"

lemma pushkey_prefix: "pushkey S n = Some k \<Longrightarrow> prefix S S' \<Longrightarrow> pushkey S' n = Some k"
  by (simp add: pushkey_names names_prefix)

lemma shares_prefix: "shares S d c \<Longrightarrow> prefix S S' \<Longrightarrow> shares S' d c"
proof (induction rule: shares.induct)
  case (shares_table a n es h)
  note hyps = shares_table.hyps and IH = shares_table.IH
  have push: "pushkey S' (h ! i) = pushkey S (h ! i)" if i: "i < length h" for i
  proof -
    obtain k where "pushkey S (h ! i) = Some k" using IH(2) i by blast
    then show ?thesis using pushkey_prefix [OF _ shares_table.prems] by simp
  qed
  show ?case
  proof (rule shares.shares_table)
    show "\<forall>i<length h. sn_v (h ! i) \<noteq> VALUETYPE_NIL \<and> (\<exists>k v. (k, v) \<in> set es \<and> \<not> in_array n k \<and> pushkey S' (h ! i) = Some k \<and>
        sn_keyhash (h ! i) = key_hash k \<and> shares S' v (sn_v (h ! i)))"
      using IH(2) shares_table.prems push by fastforce
    show "\<forall>k v. (k, v) \<in> set es \<and> \<not> in_array n k \<longrightarrow> (\<exists>i<length h. pushkey S' (h ! i) = Some k)"
      using hyps(3) push by metis
    show "\<forall>i<length h. \<forall>j<length h. pushkey S' (h ! i) = pushkey S' (h ! j) \<longrightarrow> i = j"
      using hyps(4) push by metis
  qed (use hyps IH shares_table.prems in auto)
qed (auto intro: shares.intros string_at_prefix)

section \<open>Filling the hash part\<close>

abbreviation home_place :: "conf_value conf_node list \<Rightarrow> shared_key \<Rightarrow> nat" where
  "home_place h k \<equiv> unat (key_hash k) mod length h"

definition hash_keys :: "nat \<Rightarrow> (shared_key \<times> lua_data) list \<Rightarrow> shared_key set" where
  "hash_keys n es = {k \<in> fst ` set es. \<not> in_array n k}"

text \<open>The keys \<open>P\<close> of the table are at nodes with their values, each at one, and there are no other nodes.\<close>

definition stored :: "string_map \<Rightarrow> nat \<Rightarrow> (shared_key \<times> lua_data) list \<Rightarrow> shared_key set \<Rightarrow> conf_value conf_node list \<Rightarrow> bool" where
  "stored S n es P h \<longleftrightarrow> P \<subseteq> hash_keys n es \<and>
     (\<forall>i. is_filled h i \<longrightarrow> (\<exists>k v. k \<in> P \<and> (k, v) \<in> set es \<and> pushkey S (h ! i) = Some k \<and> sn_keyhash (h ! i) = key_hash k \<and> shares S v (sn_v (h ! i)))) \<and>
     (\<forall>k\<in>P. \<exists>i. is_filled h i \<and> pushkey S (h ! i) = Some k) \<and>
     (\<forall>i j. is_filled h i \<longrightarrow> is_filled h j \<longrightarrow> pushkey S (h ! i) = pushkey S (h ! j) \<longrightarrow> i = j)"

lemma storedD:
  assumes "stored S n es P h"
  shows "P \<subseteq> hash_keys n es"
    "\<And>i. is_filled h i \<Longrightarrow> \<exists>k v. k \<in> P \<and> (k, v) \<in> set es \<and> pushkey S (h ! i) = Some k \<and> sn_keyhash (h ! i) = key_hash k \<and> shares S v (sn_v (h ! i))"
    "\<And>k. k \<in> P \<Longrightarrow> \<exists>i. is_filled h i \<and> pushkey S (h ! i) = Some k"
    "\<And>i j. is_filled h i \<Longrightarrow> is_filled h j \<Longrightarrow> pushkey S (h ! i) = pushkey S (h ! j) \<Longrightarrow> i = j"
  using assms unfolding stored_def by blast+

lemma stored_key:
  assumes "stored S n es P h" "is_filled h i" "pushkey S (h ! i) = Some k"
  shows "k \<in> P" "sn_keyhash (h ! i) = key_hash k" "main_place h i = home_place h k"
  using storedD(2) [OF assms(1,2)] assms(3) by (auto simp: main_place_def)

lemma stored_prefix:
  assumes "stored S n es P h" "prefix S S'"
  shows "stored S' n es P h"
proof -
  have push: "pushkey S' (h ! i) = pushkey S (h ! i)" if "is_filled h i" for i
    using storedD(2) [OF assms(1) that] pushkey_prefix [OF _ assms(2)] by force
  show ?thesis unfolding stored_def
  proof (intro conjI allI impI ballI)
    fix i assume i: "is_filled h i"
    then show "\<exists>k v. k \<in> P \<and> (k, v) \<in> set es \<and> pushkey S' (h ! i) = Some k \<and> sn_keyhash (h ! i) = key_hash k \<and> shares S' v (sn_v (h ! i))"
      using storedD(2) [OF assms(1) i] push [OF i] shares_prefix [OF _ assms(2)] by metis
  next
    fix k assume "k \<in> P"
    then show "\<exists>i. is_filled h i \<and> pushkey S' (h ! i) = Some k" using storedD(3) [OF assms(1)] push by metis
  next
    fix i j assume "is_filled h i" "is_filled h j" "pushkey S' (h ! i) = pushkey S' (h ! j)"
    then show "i = j" using storedD(4) [OF assms(1)] push by metis
  qed (rule storedD(1) [OF assms(1)])
qed

text \<open>A key more, at a free node, when the other nodes keep what they hold.\<close>

definition same_entry :: "conf_value conf_node \<Rightarrow> conf_value conf_node \<Rightarrow> bool" where
  "same_entry a b \<longleftrightarrow> sn_v a = sn_v b \<and> sn_key a = sn_key b \<and> sn_keyhash a = sn_keyhash b \<and> sn_keytype a = sn_keytype b"

lemma same_entry_push: "same_entry a b \<Longrightarrow> pushkey S a = pushkey S b"
  by (simp add: same_entry_def pushkey_def split: key_type.splits)

lemma stored_insert:
  assumes st: "stored S n es P h" and h': "length h' = length h" "\<And>j. j \<noteq> i \<Longrightarrow> same_entry (h' ! j) (h ! j)"
    and i: "i < length h" "\<not> is_filled h i"
    and new: "sn_v (h' ! i) \<noteq> VALUETYPE_NIL" "shares S v (sn_v (h' ! i))" "names_key S k (sn_key (h' ! i)) (sn_keytype (h' ! i))"
      "sn_keyhash (h' ! i) = key_hash k"
    and k: "k \<notin> P" "(k, v) \<in> set es" "\<not> in_array n k"
  shows "stored S n es (insert k P) h'" "\<And>j. is_filled h' j \<longleftrightarrow> j = i \<or> is_filled h j"
proof -
  show f: "is_filled h' j \<longleftrightarrow> j = i \<or> is_filled h j" for j
    using h' i new(1) by (cases "j = i") (auto simp: is_filled_def same_entry_def)
  have pi: "pushkey S (h' ! i) = Some k" using new(3) by (simp add: pushkey_names)
  have ni: "j \<noteq> i" if "is_filled h j" for j using that i(2) by blast
  have pj: "pushkey S (h' ! j) = pushkey S (h ! j)" "sn_keyhash (h' ! j) = sn_keyhash (h ! j)" "sn_v (h' ! j) = sn_v (h ! j)" if "is_filled h j" for j
    using h'(2) [OF ni [OF that]] same_entry_push [OF h'(2) [OF ni [OF that]]] by (simp_all add: same_entry_def)
  show "stored S n es (insert k P) h'" unfolding stored_def
  proof (intro conjI allI impI ballI)
    show "insert k P \<subseteq> hash_keys n es" using storedD(1) [OF st] k by (force simp: hash_keys_def)
  next
    fix j assume "is_filled h' j"
    then consider "j = i" | "is_filled h j" using f by blast
    then show "\<exists>k' v'. k' \<in> insert k P \<and> (k', v') \<in> set es \<and> pushkey S (h' ! j) = Some k' \<and> sn_keyhash (h' ! j) = key_hash k' \<and> shares S v' (sn_v (h' ! j))"
    proof cases
      case 1
      then show ?thesis using pi new k by blast
    next
      case 2
      then show ?thesis using storedD(2) [OF st 2] pj [OF 2] by (metis insertCI)
    qed
  next
    fix k' assume "k' \<in> insert k P"
    then consider "k' = k" | "k' \<in> P" by blast
    then show "\<exists>j. is_filled h' j \<and> pushkey S (h' ! j) = Some k'"
    proof cases
      case 1
      then show ?thesis using pi f by blast
    next
      case 2
      then show ?thesis using storedD(3) [OF st 2] pj f by metis
    qed
  next
    have no: "pushkey S (h ! j) \<noteq> Some k" if "is_filled h j" for j using stored_key(1) [OF st that] k(1) by blast
    fix j j' assume "is_filled h' j" "is_filled h' j'" "pushkey S (h' ! j) = pushkey S (h' ! j')"
    then show "j = j'" using f pi pj no storedD(4) [OF st] by metis
  qed
qed

lemma hash_keys_value:
  assumes "k \<in> hash_keys n es"
  obtains v where "(k, v) \<in> set es" "\<not> in_array n k"
  using assms by (auto simp: hash_keys_def)

lemma free_slot:
  assumes st: "stored S n es P h" and k: "k \<in> hash_keys n es" "k \<notin> P" and len: "length h = card (hash_keys n es)"
  shows "\<exists>i. empty_slot h = Some i \<and> i < length h \<and> \<not> is_filled h i"
proof -
  have fin: "finite (hash_keys n es)" by (simp add: hash_keys_def)
  have "\<exists>i < length h. \<not> is_filled h i"
  proof (rule ccontr)
    assume "\<not> ?thesis"
    then have all: "\<And>i. i < length h \<Longrightarrow> is_filled h i" by blast
    have "inj_on (\<lambda>i. pushkey S (h ! i)) {..<length h}" using storedD(4) [OF st] all by (auto simp: inj_on_def)
    moreover have "(\<lambda>i. pushkey S (h ! i)) ` {..<length h} \<subseteq> Some ` P" using storedD(2) [OF st] all by fastforce
    moreover have "finite (Some ` P)" using storedD(1) [OF st] fin finite_subset by blast
    ultimately have "length h \<le> card (Some ` P)" using card_inj_on_le by fastforce
    also have "\<dots> = card P" by (rule card_image) simp
    also have "\<dots> < card (hash_keys n es)" using storedD(1) [OF st] k fin by (intro psubset_card_mono) auto
    finally show False using len by simp
  qed
  then obtain i where i: "i < length h" "sn_v (h ! i) = VALUETYPE_NIL" by (auto simp: is_filled_def)
  have "empty_slot h \<noteq> None"
  proof
    assume "empty_slot h = None"
    then have "\<forall>i \<in> set [0..<length h]. sn_v (h ! i) \<noteq> VALUETYPE_NIL" unfolding empty_slot_def find_None_iff by blast
    with i show False by simp
  qed
  then obtain j where j: "empty_slot h = Some j" by blast
  then have "j < length h" "sn_v (h ! j) = VALUETYPE_NIL" by (auto simp: empty_slot_def find_Some_iff)
  with j show ?thesis by (simp add: is_filled_def)
qed

lemma all_filled:
  assumes st: "stored S n es (hash_keys n es) h" and len: "length h = card (hash_keys n es)" and i: "i < length h"
  shows "is_filled h i"
proof -
  have "\<forall>k \<in> hash_keys n es. \<exists>i. is_filled h i \<and> pushkey S (h ! i) = Some k" using storedD(3) [OF st] by blast
  then obtain f where f: "\<And>k. k \<in> hash_keys n es \<Longrightarrow> is_filled h (f k) \<and> pushkey S (h ! f k) = Some k" by metis
  have "inj_on f (hash_keys n es)" using f by (metis inj_on_def option.inject)
  then have "card (f ` hash_keys n es) = length h" using len by (simp add: card_image)
  moreover have "f ` hash_keys n es \<subseteq> {..<length h}" using f by (auto simp: is_filled_def)
  ultimately have "f ` hash_keys n es = {..<length h}" using card_subset_eq [of "{..<length h}"] by simp
  then have "i \<in> f ` hash_keys n es" using i by simp
  then show ?thesis using f by fast
qed

section \<open>The first pass\<close>

text \<open>In the first pass every node is at its main position and starts a chain of its own.\<close>

definition flat :: "conf_value conf_node list \<Rightarrow> bool" where
  "flat h \<longleftrightarrow> (\<forall>i. is_filled h i \<longrightarrow> main_place h i = i \<and> sn_next (h ! i) = -1)"

lemma flat_chained: "flat h \<Longrightarrow> chained h"
proof -
  assume f: "flat h"
  have "\<exists>js. node_chain h (int p) js \<and> distinct js \<and> (\<forall>j. j \<in> set js \<longleftrightarrow> is_filled h j \<and> main_place h j = p)" if "is_filled h p" for p
    using f that by (intro exI [of _ "[p]"]) (auto simp: flat_def is_filled_def)
  then show ?thesis using f by (auto simp: chained_def flat_def)
qed

definition array_part :: "string_map \<Rightarrow> nat \<Rightarrow> (shared_key \<times> lua_data) list \<Rightarrow> shared_key set \<Rightarrow> conf_value list \<Rightarrow> bool" where
  "array_part S n es K a \<longleftrightarrow> length a = n \<and>
     (\<forall>i < n. if Integer_Key (int (Suc i)) \<in> K then shares S (rawget es (Suc i)) (a ! i) else a ! i = VALUETYPE_NIL)"

lemma array_part_prefix: "array_part S n es K a \<Longrightarrow> prefix S S' \<Longrightarrow> array_part S' n es K a"
  unfolding array_part_def by (metis shares_prefix)

lemma array_part_hash:
  assumes "array_part S n es K a" "\<not> in_array n k"
  shows "array_part S n es (insert k K) a"
proof -
  have "Integer_Key (int (Suc i)) \<noteq> k" if "i < n" for i
  proof
    assume "Integer_Key (int (Suc i)) = k"
    then have "in_array n k" unfolding in_array_def using that by (intro exI [of _ "int (Suc i)"]) simp
    with assms(2) show False ..
  qed
  with assms(1) show ?thesis by (auto simp: array_part_def)
qed

definition plain_entries :: "(shared_key \<times> lua_data) list \<Rightarrow> bool" where
  "plain_entries es \<longleftrightarrow> distinct (map fst es) \<and> (\<forall>e \<in> set es. plain_key (fst e) \<and> snd e \<noteq> D_Nil)"

definition converts :: "(lua_data \<Rightarrow> conf_value conversion) \<Rightarrow> lua_data \<Rightarrow> bool" where
  "converts setv v \<longleftrightarrow>
     (\<forall>S. distinct S \<longrightarrow> (\<exists>x S'. setv v S = Inr (x, S') \<and> prefix S S' \<and> distinct S' \<and> shares S' v x))"

lemma convertsE:
  assumes "converts setv v" "distinct S"
  obtains x S' where "setv v S = Inr (x, S')" "prefix S S'" "distinct S'" "shares S' v x"
  using assms unfolding converts_def by blast

lemma then_convert_simps [simp]: "then_convert (Inl e) f = Inl e" "then_convert (Inr (x, S)) f = f x S"
  by (simp_all add: then_convert_def)

lemma entry_value: "plain_entries es \<Longrightarrow> (k, v) \<in> set es \<Longrightarrow> map_of es k = Some v"
  by (simp add: plain_entries_def)

lemma setarray_ok:
  assumes pl: "plain_entries es" and e: "(Integer_Key key, v) \<in> set es" and key: "0 < key" "key \<le> int n"
    and arr: "array_part S n es K (tb_array t)" and S: "distinct S" and c: "converts setv v"
  obtains t' S' where "setarray setv v key t S = Inr (t', S')" "prefix S S'" "distinct S'"
    "array_part S' n es (insert (Integer_Key key) K) (tb_array t')" "tb_hash t' = tb_hash t"
proof -
  obtain x S' where x: "setv v S = Inr (x, S')" "prefix S S'" "distinct S'" "shares S' v x" by (rule convertsE [OF c S])
  have v: "rawget es (nat key) = v" using entry_value [OF pl e] key by (simp add: rawget_def)
  let ?t = "t\<lparr>tb_array := (tb_array t)[nat (key - 1) := x]\<rparr>"
  have "array_part S' n es (insert (Integer_Key key) K) (tb_array ?t)"
    unfolding array_part_def
  proof (intro conjI allI impI)
    show "length (tb_array ?t) = n" using arr by (simp add: array_part_def)
    fix i assume i: "i < n"
    show "if Integer_Key (int (Suc i)) \<in> insert (Integer_Key key) K then shares S' (rawget es (Suc i)) (tb_array ?t ! i)
          else tb_array ?t ! i = VALUETYPE_NIL"
    proof (cases "int (Suc i) = key")
      case True
      then have "nat (key - 1) = i" "nat key = Suc i" by simp_all
      then show ?thesis using True x(4) v i arr by (simp add: array_part_def)
    next
      case False
      then have "nat (key - 1) \<noteq> i" using key by linarith
      moreover have "i < n \<Longrightarrow> if Integer_Key (int (Suc i)) \<in> K then shares S' (rawget es (Suc i)) (tb_array t ! i) else tb_array t ! i = VALUETYPE_NIL"
        using array_part_prefix [OF arr x(2)] by (simp add: array_part_def)
      ultimately show ?thesis using False i by simp
    qed
  qed
  with x that [of ?t S'] show thesis by (simp add: setarray_def)
qed

text \<open>After the entries \<open>es1\<close>: those of the array are there, and the main positions of the others are taken.\<close>

definition pass1 :: "string_map \<Rightarrow> nat \<Rightarrow> (shared_key \<times> lua_data) list \<Rightarrow> shared_key set \<Rightarrow> shared_key set \<Rightarrow> conf_table \<Rightarrow> bool" where
  "pass1 S n es K P t \<longleftrightarrow> array_part S n es K (tb_array t) \<and> stored S n es P (tb_hash t) \<and> flat (tb_hash t) \<and>
     length (tb_hash t) = card (hash_keys n es) \<and> tb_hash t \<noteq> [] \<and> P \<subseteq> K \<and>
     (\<forall>k \<in> K. \<not> in_array n k \<longrightarrow> is_filled (tb_hash t) (home_place (tb_hash t) k))"

lemma pass1_step:
  assumes pl: "plain_entries es" and e: "(k, v) \<in> set es" "k \<notin> K" and inv: "pass1 S n es K P t" and S: "distinct S"
    and c: "converts setv v"
  obtains t' P' S' where "fillnocolliding setv ((k, v) # rest) t S = fillnocolliding setv rest t' S'"
    "pass1 S' n es (insert k K) P' t'" "prefix S S'" "distinct S'"
proof -
  have inv1: "array_part S n es K (tb_array t)" "stored S n es P (tb_hash t)" "flat (tb_hash t)" "P \<subseteq> K"
      "length (tb_hash t) = card (hash_keys n es)" "tb_hash t \<noteq> []"
      "\<And>k. k \<in> K \<Longrightarrow> \<not> in_array n k \<Longrightarrow> is_filled (tb_hash t) (home_place (tb_hash t) k)"
    using inv unfolding pass1_def by blast+
  have n: "length (tb_array t) = n" using inv1(1) by (simp add: array_part_def)
  have pk: "plain_key k" using pl e(1) by (auto simp: plain_entries_def)
  obtain p S1 where p: "ishashkey n k S = (p, S1)" by force
  note hk = ishashkey_ok [OF pk S p]
  have S1: "prefix S S1" "distinct S1" using hk by simp_all
  have arr1: "array_part S1 n es K (tb_array t)" by (rule array_part_prefix [OF inv1(1) S1(1)])
  have st1: "stored S1 n es P (tb_hash t)" by (rule stored_prefix [OF inv1(2) S1(1)])
  show thesis
  proof (cases p)
    case (Array_Place key)
    then have key: "k = Integer_Key key" "0 < key" "key \<le> int n" using hk by simp_all
    obtain t' S' where t': "setarray setv v key t S1 = Inr (t', S')" "prefix S1 S'" "distinct S'"
        "array_part S' n es (insert k K) (tb_array t')" "tb_hash t' = tb_hash t"
      using setarray_ok [OF pl _ key(2,3) arr1 S1(2) c] e(1) key(1) by blast
    have "in_array n k" using key by (simp add: in_array_def)
    then have "pass1 S' n es (insert k K) P t'"
      using t'(4,5) stored_prefix [OF st1 t'(2)] inv1 by (auto simp: pass1_def)
    moreover have "fillnocolliding setv ((k, v) # rest) t S = fillnocolliding setv rest t' S'"
      using p Array_Place n t'(1) by simp
    ultimately show thesis using that S1(1) t'(2,3) prefix_order.trans by blast
  next
    case (Hash_Place key keyhash keytype)
    then have key: "\<not> in_array n k" "keyhash = key_hash k" "names_key S1 k key keytype" using hk by simp_all
    let ?i = "home_place (tb_hash t) k"
    have i: "?i < length (tb_hash t)" using inv1(6) by simp
    show thesis
    proof (cases "sn_v (tb_hash t ! ?i) = VALUETYPE_NIL")
      case False
      then have "is_filled (tb_hash t) ?i" using i by (simp add: is_filled_def)
      moreover have "array_part S1 n es (insert k K) (tb_array t)"
        by (rule array_part_hash [OF arr1 key(1)])
      ultimately have "pass1 S1 n es (insert k K) P t" using inv1 st1 by (auto simp: pass1_def)
      moreover have "fillnocolliding setv ((k, v) # rest) t S = fillnocolliding setv rest t S1"
        using p Hash_Place n False key(2) by (simp add: Let_def)
      ultimately show thesis using that S1 by blast
    next
      case True
      obtain x S' where x: "setv v S1 = Inr (x, S')" "prefix S1 S'" "distinct S'" "shares S' v x" by (rule convertsE [OF c S1(2)])
      define h' where "h' = (tb_hash t)[?i := Conf_Node x key (-1) keyhash keytype True]"
      have nil: "x \<noteq> VALUETYPE_NIL" using x(4) pl e(1) by (auto simp: shares_simps plain_entries_def)
      have st': "stored S' n es P (tb_hash t)" by (rule stored_prefix [OF st1 x(2)])
      have nf: "\<not> is_filled (tb_hash t) ?i" using True by (simp add: is_filled_def)
      have kP: "k \<notin> P" using inv1(4) e(2) by blast
      have st'': "stored S' n es (insert k P) h'" and f: "\<And>j. is_filled h' j \<longleftrightarrow> j = ?i \<or> is_filled (tb_hash t) j"
        using stored_insert [OF st', of h' ?i v k] i nf nil x(4) names_prefix [OF key(3) x(2)] key(2,1) kP e(1)
        by (simp_all add: h'_def same_entry_def)
      have l: "length h' = length (tb_hash t)" by (simp add: h'_def)
      have "flat h'"
        using inv1(3) f i unfolding flat_def by (auto simp: h'_def main_place_def nth_list_update key(2))
      moreover have "array_part S' n es (insert k K) (tb_array t)"
        by (rule array_part_hash [OF array_part_prefix [OF arr1 x(2)] key(1)])
      moreover have "\<forall>k' \<in> insert k K. \<not> in_array n k' \<longrightarrow> is_filled h' (home_place h' k')"
        using inv1(7) f l by auto
      moreover have "h' \<noteq> []" using l inv1(6) by auto
      ultimately have "pass1 S' n es (insert k K) (insert k P) (t\<lparr>tb_hash := h'\<rparr>)"
        using st'' l inv1(4,5) by (auto simp: pass1_def)
      moreover have "fillnocolliding setv ((k, v) # rest) t S = fillnocolliding setv rest (t\<lparr>tb_hash := h'\<rparr>) S'"
        using p Hash_Place n True key(2) x(1) by (simp add: Let_def h'_def)
      ultimately show thesis using that S1(1) x(2,3) prefix_order.trans by blast
    qed
  qed
qed

lemma pass1_ok:
  assumes "plain_entries es" "set rest \<subseteq> set es" "distinct (map fst rest)" "K \<inter> fst ` set rest = {}" "pass1 S n es K P t" "distinct S"
    "\<forall>e \<in> set rest. converts setv (snd e)"
  shows "\<exists>t' P' S'. fillnocolliding setv rest t S = Inr (t', S') \<and> pass1 S' n es (K \<union> fst ` set rest) P' t' \<and> prefix S S' \<and> distinct S'"
  using assms(2-)
proof (induction rest arbitrary: K P t S)
  case Nil
  then show ?case by auto
next
  case (Cons e rest)
  obtain k v where e: "e = (k, v)" by force
  have kv: "(k, v) \<in> set es" "k \<notin> K" "converts setv v" using Cons.prems e by auto
  obtain t1 P1 S1 where s: "fillnocolliding setv ((k, v) # rest) t S = fillnocolliding setv rest t1 S1"
      "pass1 S1 n es (insert k K) P1 t1" "prefix S S1" "distinct S1"
    by (rule pass1_step [OF assms(1) kv(1,2) Cons.prems(4,5) kv(3)])
  have "\<exists>t' P' S'. fillnocolliding setv rest t1 S1 = Inr (t', S') \<and> pass1 S' n es (insert k K \<union> fst ` set rest) P' t' \<and> prefix S1 S' \<and> distinct S'"
    by (rule Cons.IH [OF _ _ _ s(2,4)]) (use Cons.prems e in auto)
  then show ?case using s(1,3) e prefix_order.trans by (auto simp del: fillnocolliding.simps)
qed

section \<open>The second pass\<close>

lemma linked_node:
  assumes "i \<noteq> m" "i < length h" "m < length h"
  shows "put_value (link_node h i m key keyhash keytype) i x =
    h[m := Conf_Node (sn_v (h ! m)) (sn_key (h ! m)) (int i) (sn_keyhash (h ! m)) (sn_keytype (h ! m)) False,
      i := Conf_Node x key (sn_next (h ! m)) keyhash keytype False]"
  using assms by (cases "h ! i"; cases "h ! m") (simp add: put_value_def link_node_def Let_def list_update_swap)

lemma chain_bound: "node_chain h i js \<Longrightarrow> j \<in> set js \<Longrightarrow> j < length h"
  by (induction js arbitrary: i) auto

lemma chain_kept:
  "node_chain h i js \<Longrightarrow> length h' = length h \<Longrightarrow> \<forall>j \<in> set js. sn_next (h' ! j) = sn_next (h ! j) \<Longrightarrow> node_chain h' i js"
  by (induction js arbitrary: i) auto

lemma chained_insert:
  fixes key :: int and keytype :: key_type
  assumes ch: "chained h" and m: "is_filled h m" "main_place h m = m" and i: "i < length h" "\<not> is_filled h i"
    and kh: "unat keyhash mod length h = m" and x: "x \<noteq> VALUETYPE_NIL"
  defines "h' \<equiv> h[m := Conf_Node (sn_v (h ! m)) (sn_key (h ! m)) (int i) (sn_keyhash (h ! m)) (sn_keytype (h ! m)) False,
      i := Conf_Node x key (sn_next (h ! m)) keyhash keytype False]"
  shows "chained h'"
proof -
  have im: "i \<noteq> m" "m < length h" using m(1) i(2) by (auto simp: is_filled_def)
  have l: "length h' = length h" by (simp add: h'_def)
  have at: "h' ! i = Conf_Node x key (sn_next (h ! m)) keyhash keytype False" 
      "h' ! m = Conf_Node (sn_v (h ! m)) (sn_key (h ! m)) (int i) (sn_keyhash (h ! m)) (sn_keytype (h ! m)) False"
      "\<And>j. j \<noteq> i \<Longrightarrow> j \<noteq> m \<Longrightarrow> h' ! j = h ! j"
    using im i(1) by (simp_all add: h'_def)
  have f: "is_filled h' j \<longleftrightarrow> j = i \<or> is_filled h j" for j
    using at i im x m(1) l by (cases "j = i"; cases "j = m") (auto simp: is_filled_def)
  have mi: "main_place h' i = m" using at(1) kh l by (simp add: main_place_def)
  have mj: "main_place h' j = main_place h j" if "j \<noteq> i" for j
    using at that l by (cases "j = m") (simp_all add: main_place_def)
  have heads: "\<And>j. is_filled h j \<Longrightarrow> is_filled h (main_place h j) \<and> main_place h (main_place h j) = main_place h j"
      "\<And>p. is_filled h p \<Longrightarrow> main_place h p = p \<Longrightarrow>
        (\<exists>js. node_chain h (int p) js \<and> distinct js \<and> (\<forall>j. j \<in> set js \<longleftrightarrow> is_filled h j \<and> main_place h j = p)) \<and>
        (sn_nocolliding (h ! p) \<longrightarrow> sn_next (h ! p) = -1)"
      "\<And>p. is_filled h p \<Longrightarrow> main_place h p \<noteq> p \<Longrightarrow> \<not> sn_nocolliding (h ! p)"
    using ch unfolding chained_def by blast+
  show ?thesis unfolding chained_def
  proof (intro conjI allI impI; (elim conjE)?)
    fix j assume "is_filled h' j"
    then show "is_filled h' (main_place h' j)" "main_place h' (main_place h' j) = main_place h' j"
      using f mi mj m heads(1) [of j] i(2) im by (cases "j = i"; force)+
  next
    fix p assume p: "is_filled h' p" "main_place h' p = p"
    then have pi: "p \<noteq> i" using mi im by auto
    then have p': "is_filled h p" "main_place h p = p" using p f mj by auto
    obtain js where js: "node_chain h (int p) js" "distinct js" "\<And>j. j \<in> set js \<longleftrightarrow> is_filled h j \<and> main_place h j = p"
      using heads(2) [OF p'] by blast
    show "\<exists>js. node_chain h' (int p) js \<and> distinct js \<and> (\<forall>j. j \<in> set js \<longleftrightarrow> is_filled h' j \<and> main_place h' j = p)"
    proof (cases "p = m")
      case True
      then obtain ks where ks: "js = m # ks" "node_chain h (sn_next (h ! m)) ks" using js(1,3) m by (cases js) auto
      have "\<forall>j \<in> set ks. j \<noteq> i \<and> j \<noteq> m" using ks(1) js(2,3) i(2) by auto
      then have "node_chain h' (sn_next (h ! m)) ks" using chain_kept [OF ks(2) l] at(3) by simp
      then have "node_chain h' (int p) (m # i # ks)" using True at im i(1) l by simp
      moreover have "distinct (m # i # ks)" using ks(1) js(2,3) i(2) im by auto
      moreover have "j \<in> set (m # i # ks) \<longleftrightarrow> is_filled h' j \<and> main_place h' j = p" for j
        using js(3) [of j] ks(1) f [of j] mi mj [of j] True by (cases "j = i") auto
      ultimately show ?thesis by blast
    next
      case False
      have "\<forall>j \<in> set js. j \<noteq> i \<and> j \<noteq> m" using js(3) i(2) m(2) False by auto
      then have "node_chain h' (int p) js" using chain_kept [OF js(1) l] at(3) by simp
      moreover have "j \<in> set js \<longleftrightarrow> is_filled h' j \<and> main_place h' j = p" for j
        using js(3) [of j] f [of j] mi mj [of j] False i(2) by (cases "j = i") auto
      ultimately show ?thesis using js(2) by blast
    qed
    assume "sn_nocolliding (h' ! p)"
    then have "p \<noteq> m" using at(2) by auto
    then show "sn_next (h' ! p) = -1" using \<open>sn_nocolliding (h' ! p)\<close> at(3) pi heads(2) [OF p'] by simp
  next
    fix p assume "is_filled h' p" "main_place h' p \<noteq> p"
    then show "\<not> sn_nocolliding (h' ! p)"
      using at f mj heads(3) by (cases "p = i"; cases "p = m") auto
  qed
qed

text \<open>After the entries \<open>K\<close>: they are at nodes; of the others those may be that are at their main position.\<close>

definition pass2 :: "string_map \<Rightarrow> nat \<Rightarrow> (shared_key \<times> lua_data) list \<Rightarrow> shared_key set \<Rightarrow> shared_key set \<Rightarrow> conf_table \<Rightarrow> bool" where
  "pass2 S n es K P t \<longleftrightarrow> array_part S n es (fst ` set es) (tb_array t) \<and> stored S n es P (tb_hash t) \<and> chained (tb_hash t) \<and>
     length (tb_hash t) = card (hash_keys n es) \<and> tb_hash t \<noteq> [] \<and> (\<forall>k \<in> K. \<not> in_array n k \<longrightarrow> k \<in> P) \<and>
     (\<forall>k \<in> hash_keys n es. is_filled (tb_hash t) (home_place (tb_hash t) k) \<and>
        main_place (tb_hash t) (home_place (tb_hash t) k) = home_place (tb_hash t) k) \<and>
     (\<forall>k \<in> P. k \<notin> K \<longrightarrow> pushkey S (tb_hash t ! home_place (tb_hash t) k) = Some k)"

lemma pass1_pass2:
  assumes "pass1 S n es (fst ` set es) P t"
  shows "pass2 S n es {} P t"
proof -
  let ?h = "tb_hash t"
  have inv: "array_part S n es (fst ` set es) (tb_array t)" "stored S n es P ?h" "flat ?h" "length ?h = card (hash_keys n es)" "?h \<noteq> []"
      "\<And>k. k \<in> fst ` set es \<Longrightarrow> \<not> in_array n k \<Longrightarrow> is_filled ?h (home_place ?h k)"
    using assms unfolding pass1_def by blast+
  have "pushkey S (?h ! home_place ?h k) = Some k" if k: "k \<in> P" for k
  proof -
    obtain i where i: "is_filled ?h i" "pushkey S (?h ! i) = Some k" using storedD(3) [OF inv(2) k] by blast
    then have "main_place ?h i = home_place ?h k" "main_place ?h i = i" using stored_key(3) [OF inv(2) i] inv(3) by (auto simp: flat_def)
    with i(2) show ?thesis by metis
  qed
  moreover have "is_filled ?h (home_place ?h k) \<and> main_place ?h (home_place ?h k) = home_place ?h k" if "k \<in> hash_keys n es" for k
    using inv(3,6) that by (auto simp: hash_keys_def flat_def)
  ultimately show ?thesis using inv flat_chained unfolding pass2_def by blast
qed

lemma pass2_prefix: "pass2 S n es K P t \<Longrightarrow> prefix S S' \<Longrightarrow> pass2 S' n es K P t"
  unfolding pass2_def by (blast intro: array_part_prefix stored_prefix pushkey_prefix)

lemma pass2_known:
  assumes "pass2 S n es K P t" "k \<in> P \<or> in_array n k"
  shows "pass2 S n es (insert k K) P t"
  using assms unfolding pass2_def by blast

lemma pass2_step:
  assumes pl: "plain_entries es" and e: "(k, v) \<in> set es" "k \<notin> K" and inv: "pass2 S n es K P t" and S: "distinct S"
    and c: "converts setv v"
  obtains t' P' S' where "fillcolliding setv ((k, v) # rest) t S = fillcolliding setv rest t' S'"
    "pass2 S' n es (insert k K) P' t'" "prefix S S'" "distinct S'"
proof -
  let ?h = "tb_hash t" and ?p = "home_place (tb_hash t) k"
  have inv1: "array_part S n es (fst ` set es) (tb_array t)" "stored S n es P ?h" "chained ?h" "length ?h = card (hash_keys n es)" "?h \<noteq> []"
      "\<And>k. k \<in> K \<Longrightarrow> \<not> in_array n k \<Longrightarrow> k \<in> P"
      "\<And>k. k \<in> hash_keys n es \<Longrightarrow> is_filled ?h (home_place ?h k) \<and> main_place ?h (home_place ?h k) = home_place ?h k"
      "\<And>k. k \<in> P \<Longrightarrow> k \<notin> K \<Longrightarrow> pushkey S (?h ! home_place ?h k) = Some k"
    using inv unfolding pass2_def by blast+
  have n: "length (tb_array t) = n" using inv1(1) by (simp add: array_part_def)
  have pk: "plain_key k" using pl e(1) by (auto simp: plain_entries_def)
  obtain p S1 where p: "ishashkey n k S = (p, S1)" by force
  note hk = ishashkey_ok [OF pk S p]
  have S1: "prefix S S1" "distinct S1" using hk by simp_all
  show thesis
  proof (cases p)
    case (Array_Place key)
    then have "in_array n k" using hk by (simp add: in_array_def)
    then have "pass2 S1 n es (insert k K) P t"
      using pass2_known [OF pass2_prefix [OF inv S1(1)]] by blast
    moreover have "fillcolliding setv ((k, v) # rest) t S = fillcolliding setv rest t S1" using p Array_Place n by simp
    ultimately show thesis using that S1 by blast
  next
    case (Hash_Place key keyhash keytype)
    then have key: "\<not> in_array n k" "keyhash = key_hash k" "names_key S1 k key keytype" using hk by simp_all
    have kh: "k \<in> hash_keys n es" using e(1) key(1) by (force simp: hash_keys_def)
    have m: "is_filled ?h ?p" "main_place ?h ?p = ?p" using inv1(7) [OF kh] by simp_all
    have st1: "stored S1 n es P ?h" by (rule stored_prefix [OF inv1(2) S1(1)])
    have here: "sn_keytype (?h ! ?p) = keytype \<and> sn_key (?h ! ?p) = key \<longleftrightarrow> k \<in> P"
    proof
      assume "sn_keytype (?h ! ?p) = keytype \<and> sn_key (?h ! ?p) = key"
      then have "pushkey S1 (?h ! ?p) = Some k" using key(3) by (simp add: pushkey_names)
      then show "k \<in> P" by (rule stored_key(1) [OF st1 m(1)])
    next
      assume "k \<in> P"
      then have "pushkey S1 (?h ! ?p) = Some k" using inv1(8) e(2) pushkey_prefix [OF _ S1(1)] by blast
      then show "sn_keytype (?h ! ?p) = keytype \<and> sn_key (?h ! ?p) = key"
        using names_same [OF S1(2) key(3)] by (simp add: pushkey_names)
    qed
    show thesis
    proof (cases "k \<in> P")
      case True
      have "pass2 S1 n es (insert k K) P t" using pass2_known [OF pass2_prefix [OF inv S1(1)]] True by blast
      moreover have "fillcolliding setv ((k, v) # rest) t S = fillcolliding setv rest t S1"
        using p Hash_Place n here True key(2) by (simp add: Let_def)
      ultimately show thesis using that S1 by blast
    next
      case False
      obtain i where i: "empty_slot ?h = Some i" "i < length ?h" "\<not> is_filled ?h i"
        using free_slot [OF st1 kh False inv1(4)] by blast
      obtain x S' where x: "setv v S1 = Inr (x, S')" "prefix S1 S'" "distinct S'" "shares S' v x" by (rule convertsE [OF c S1(2)])
      have nil: "x \<noteq> VALUETYPE_NIL" using x(4) pl e(1) by (auto simp: shares_simps plain_entries_def)
      have pb: "?p < length ?h" "i \<noteq> ?p" using m(1) i(3) by (auto simp: is_filled_def)
      define h' where "h' = put_value (link_node ?h i ?p key keyhash keytype) i x"
      have h': "h' = ?h[?p := Conf_Node (sn_v (?h ! ?p)) (sn_key (?h ! ?p)) (int i) (sn_keyhash (?h ! ?p)) (sn_keytype (?h ! ?p)) False,
          i := Conf_Node x key (sn_next (?h ! ?p)) keyhash keytype False]"
        unfolding h'_def by (rule linked_node [OF pb(2) i(2) pb(1)])
      have ch: "chained h'"
        unfolding h' by (rule chained_insert [OF inv1(3) m i(2,3) _ nil]) (simp add: key(2))
      have l: "length h' = length ?h" by (simp add: h')
      have same: "same_entry (h' ! j) (?h ! j)" if "j \<noteq> i" for j
        using that pb by (cases "j = ?p") (simp_all add: h' same_entry_def)
      have new: "sn_v (h' ! i) = x" "sn_key (h' ! i) = key" "sn_keyhash (h' ! i) = key_hash k" "sn_keytype (h' ! i) = keytype"
        using i(2) by (simp_all add: h' key(2))
      have st': "stored S' n es P ?h" by (rule stored_prefix [OF st1 x(2)])
      have SS: "prefix S S'" using S1(1) x(2) prefix_order.trans by blast
      have st'': "stored S' n es (insert k P) h'" and f: "\<And>j. is_filled h' j \<longleftrightarrow> j = i \<or> is_filled ?h j"
        using stored_insert [OF st' l same i(2,3), of v k] new nil x(4) names_prefix [OF key(3) x(2)] False e(1) key(1) by simp_all
      have other: "is_filled h' (home_place h' k') \<and> main_place h' (home_place h' k') = home_place h' k'" if "k' \<in> hash_keys n es" for k'
      proof -
        have "is_filled ?h (home_place ?h k')" "main_place ?h (home_place ?h k') = home_place ?h k'" using inv1(7) [OF that] by simp_all
        moreover then have "home_place ?h k' \<noteq> i" using i(3) by auto
        ultimately show ?thesis using f l same unfolding main_place_def same_entry_def by simp
      qed
      have "pushkey S' (h' ! home_place h' k') = Some k'" if "k' \<in> insert k P" "k' \<notin> insert k K" for k'
      proof -
        have k': "k' \<in> P" "k' \<notin> K" using that by auto
        then have "k' \<in> hash_keys n es" using storedD(1) [OF inv1(2)] by blast
        then have "home_place ?h k' \<noteq> i" using inv1(7) i(3) by metis
        then show ?thesis using same_entry_push [OF same] pushkey_prefix [OF inv1(8) [OF k'] SS] l by simp
      qed
      moreover have "array_part S' n es (fst ` set es) (tb_array t)" by (rule array_part_prefix [OF inv1(1) SS])
      moreover have "h' \<noteq> []" using l inv1(5) by auto
      ultimately have "pass2 S' n es (insert k K) (insert k P) (t\<lparr>tb_hash := h'\<rparr>)"
        using st'' ch l inv1(4,6) other by (auto simp: pass2_def)
      moreover have "fillcolliding setv ((k, v) # rest) t S = fillcolliding setv rest (t\<lparr>tb_hash := h'\<rparr>) S'"
        using p Hash_Place n here False key(2) i(1) x(1) unfolding h'_def by (auto simp: Let_def)
      ultimately show thesis using that SS x(3) by blast
    qed
  qed
qed

lemma pass2_ok:
  assumes "plain_entries es" "set rest \<subseteq> set es" "distinct (map fst rest)" "K \<inter> fst ` set rest = {}" "pass2 S n es K P t" "distinct S"
    "\<forall>e \<in> set rest. converts setv (snd e)"
  shows "\<exists>t' P' S'. fillcolliding setv rest t S = Inr (t', S') \<and> pass2 S' n es (K \<union> fst ` set rest) P' t' \<and> prefix S S' \<and> distinct S'"
  using assms(2-)
proof (induction rest arbitrary: K P t S)
  case Nil
  then show ?case by auto
next
  case (Cons e rest)
  obtain k v where e: "e = (k, v)" by force
  have kv: "(k, v) \<in> set es" "k \<notin> K" "converts setv v" using Cons.prems e by auto
  obtain t1 P1 S1 where s: "fillcolliding setv ((k, v) # rest) t S = fillcolliding setv rest t1 S1"
      "pass2 S1 n es (insert k K) P1 t1" "prefix S S1" "distinct S1"
    by (rule pass2_step [OF assms(1) kv(1,2) Cons.prems(4,5) kv(3)])
  have "\<exists>t' P' S'. fillcolliding setv rest t1 S1 = Inr (t', S') \<and> pass2 S' n es (insert k K \<union> fst ` set rest) P' t' \<and> prefix S1 S' \<and> distinct S'"
    by (rule Cons.IH [OF _ _ _ s(2,4)]) (use Cons.prems e in auto)
  then show ?case using s(1,3) e prefix_order.trans by (auto simp del: fillcolliding.simps)
qed

lemma pass2_shares:
  assumes "plain_entries es" "pass2 S n es (fst ` set es) P t"
  shows "shares S (D_Table n es) (VALUETYPE_TABLE (tb_array t) (tb_hash t))"
proof -
  let ?h = "tb_hash t"
  have inv: "array_part S n es (fst ` set es) (tb_array t)" "stored S n es P ?h" "chained ?h" "length ?h = card (hash_keys n es)"
      "\<And>k. k \<in> fst ` set es \<Longrightarrow> \<not> in_array n k \<Longrightarrow> k \<in> P"
    using assms(2) unfolding pass2_def by blast+
  have P: "P = hash_keys n es" using storedD(1) [OF inv(2)] inv(5) by (auto simp: hash_keys_def)
  have all: "is_filled ?h i" if "i < length ?h" for i using all_filled [OF _ inv(4) that] inv(2) P by simp
  show ?thesis
  proof (rule shares_table)
    show "length (tb_array t) = n" using inv(1) by (simp add: array_part_def)
    have "rawget es (Suc i) = D_Nil" if "Integer_Key (int (Suc i)) \<notin> fst ` set es" for i
      using that by (simp add: rawget_def map_of_eq_None_iff [symmetric])
    then show "\<forall>i<n. shares S (rawget es (Suc i)) (tb_array t ! i)"
      using inv(1) unfolding array_part_def by (metis shares_nil)
    show "\<forall>i<length ?h. sn_v (?h ! i) \<noteq> VALUETYPE_NIL \<and> (\<exists>k v. (k, v) \<in> set es \<and> \<not> in_array n k \<and> pushkey S (?h ! i) = Some k \<and>
        sn_keyhash (?h ! i) = key_hash k \<and> shares S v (sn_v (?h ! i)))"
      using all storedD(2) [OF inv(2)] P unfolding is_filled_def hash_keys_def by blast
    show "\<forall>k v. (k, v) \<in> set es \<and> \<not> in_array n k \<longrightarrow> (\<exists>i<length ?h. pushkey S (?h ! i) = Some k)"
      using storedD(3) [OF inv(2)] P unfolding is_filled_def hash_keys_def by force
    show "\<forall>i<length ?h. \<forall>j<length ?h. pushkey S (?h ! i) = pushkey S (?h ! j) \<longrightarrow> i = j"
      using storedD(4) [OF inv(2)] all by blast
  qed (rule inv(3))
qed

section \<open>The conversion\<close>

lemma countsize_ok:
  assumes "\<forall>e \<in> set es. plain_key (fst e)" "distinct (map fst es)"
  shows "countsize n es = Inr (card (hash_keys n es))"
  using assms
proof (induction es)
  case (Cons e es)
  obtain k v where e: "e = (k, v)" by force
  have "hash_keys n ((k, v) # es) = (if in_array n k then hash_keys n es else insert k (hash_keys n es))"
    by (auto simp: hash_keys_def)
  moreover have "k \<notin> hash_keys n es" "finite (hash_keys n es)" using Cons.prems e by (auto simp: hash_keys_def)
  ultimately have "card (hash_keys n (e # es)) = (if in_array n k then card (hash_keys n es) else Suc (card (hash_keys n es)))"
    using e by simp
  moreover have "plain_key k" using Cons.prems e by simp
  moreover have "countsize n es = Inr (card (hash_keys n es))" using Cons by simp
  ultimately show ?case using e by (cases k) (auto simp: in_array_def)
qed (simp add: hash_keys_def)

lemma array_loop_ok:
  assumes pl: "plain_entries es" and hk: "hash_keys n es = {}" and conv: "\<forall>e \<in> set es. converts setv (snd e)" "converts setv D_Nil"
    and m: "m \<le> n" and arr: "length (tb_array t) = n" "\<forall>i < m. shares S (rawget es (Suc i)) (tb_array t ! i)" and S: "distinct S"
  shows "\<exists>t' S'. array_loop setv es [Suc m..<Suc n] t S = Inr (t', S') \<and> length (tb_array t') = n \<and> tb_hash t' = tb_hash t \<and>
    (\<forall>i < n. shares S' (rawget es (Suc i)) (tb_array t' ! i)) \<and> prefix S S' \<and> distinct S'"
  using m arr S
proof (induction "n - m" arbitrary: m t S)
  case 0
  then have "m = n" by simp
  with 0 show ?case by auto
next
  case (Suc d)
  then have mn: "m < n" and d: "d = n - Suc m" by simp_all
  have "converts setv (rawget es (Suc m))" using rawget_in [of es "Suc m"] conv by (metis snd_conv)
  then obtain x S1 where x: "setv (rawget es (Suc m)) S = Inr (x, S1)" "prefix S S1" "distinct S1" "shares S1 (rawget es (Suc m)) x"
    by (rule convertsE [OF _ Suc.prems(4)])
  let ?t = "t\<lparr>tb_array := (tb_array t)[m := x]\<rparr>"
  have "\<forall>i < Suc m. shares S1 (rawget es (Suc i)) (tb_array ?t ! i)"
    using Suc.prems(2,3) x(2,4) mn shares_prefix by (auto simp: nth_list_update less_Suc_eq)
  then obtain t' S' where t': "array_loop setv es [Suc (Suc m)..<Suc n] ?t S1 = Inr (t', S')" "length (tb_array t') = n" "tb_hash t' = tb_hash t"
      "\<forall>i < n. shares S' (rawget es (Suc i)) (tb_array t' ! i)" "prefix S1 S'" "distinct S'"
    using Suc.hyps(1) [of "Suc m" ?t S1] d Suc.prems(2) x(3) mn by (auto simp del: upt_Suc)
  have "[Suc m..<Suc n] = Suc m # [Suc (Suc m)..<Suc n]" using mn by (simp add: upt_conv_Cons)
  moreover have "nat (int (Suc m) - 1) = m" by simp
  ultimately have "array_loop setv es [Suc m..<Suc n] t S = Inr (t', S')" using x(1) t'(1) by (simp add: setarray_def)
  with t' x(2) show ?case using prefix_order.trans by blast
qed

lemma convtable_ok:
  assumes pl: "plain_entries es" and conv: "\<forall>e \<in> set es. converts setv (snd e)" "converts setv D_Nil" and S: "distinct S"
  shows "\<exists>t S'. convtable junk setv n es S = Inr (t, S') \<and> prefix S S' \<and> distinct S' \<and>
    shares S' (D_Table n es) (VALUETYPE_TABLE (tb_array t) (tb_hash t))"
proof -
  have keys: "\<forall>e \<in> set es. plain_key (fst e)" "distinct (map fst es)" using pl by (simp_all add: plain_entries_def)
  define N where "N = card (hash_keys n es)"
  define t where "t = \<lparr>tb_array = replicate n VALUETYPE_NIL, tb_hash = map (\<lambda>i. new_node (junk i)) [0..<N]\<rparr>"
  have count: "countsize n es = Inr N" using countsize_ok [OF keys] by (simp add: N_def)
  have empty: "\<not> is_filled (tb_hash t) i" for i by (simp add: t_def is_filled_def new_node_def)
  show ?thesis
  proof (cases "N = 0")
    case False
    then have "pass1 S n es {} {} t" using empty
      by (auto simp: pass1_def stored_def flat_def array_part_def t_def N_def)
    then obtain t1 P1 S1 where t1: "fillnocolliding setv es t S = Inr (t1, S1)" "pass1 S1 n es (fst ` set es) P1 t1" "prefix S S1" "distinct S1"
      using pass1_ok [of es es "{}" S n "{}" t setv] pl keys(2) S conv(1) by auto
    obtain t2 P2 S2 where t2: "fillcolliding setv es t1 S1 = Inr (t2, S2)" "pass2 S2 n es (fst ` set es) P2 t2" "prefix S1 S2" "distinct S2"
      using pass2_ok [of es es "{}" S1 n P1 t1 setv] pl keys(2) pass1_pass2 [OF t1(2)] t1(4) conv(1) by auto
    have "convtable junk setv n es S = Inr (t2, S2)"
      using count False t1(1) t2(1) by (simp add: convtable_def t_def Let_def)
    with pass2_shares [OF pl t2(2)] t1(3) t2(3,4) show ?thesis using prefix_order.trans by blast
  next
    case True
    have hk: "hash_keys n es = {}" using True by (simp add: N_def hash_keys_def card_eq_0_iff)
    obtain t' S' where t': "array_loop setv es [Suc 0..<Suc n] t S = Inr (t', S')" "length (tb_array t') = n" "tb_hash t' = tb_hash t"
        "\<forall>i < n. shares S' (rawget es (Suc i)) (tb_array t' ! i)" "prefix S S'" "distinct S'"
      using array_loop_ok [OF pl hk conv, of 0 t S] S by (auto simp: t_def)
    have h: "tb_hash t' = []" using t'(3) True by (simp add: t_def)
    have "convtable junk setv n es S = Inr (t', S')" using count True t'(1) by (simp add: convtable_def t_def Let_def)
    moreover have "shares S' (D_Table n es) (VALUETYPE_TABLE (tb_array t') (tb_hash t'))"
      using t'(2,4) h hk by (intro shares_table) (auto simp: chained_def is_filled_def hash_keys_def)
    ultimately show ?thesis using t'(5,6) by blast
  qed
qed

text \<open>Lua tables that can be shared: keys are strings or integers that fit an \<open>int\<close>, values are data.\<close>

inductive plain :: "lua_data \<Rightarrow> bool" where
  plain_nil: "plain D_Nil"
| plain_integer: "plain (D_Integer i)"
| plain_real: "plain (D_Real x)"
| plain_string: "plain (D_String s)"
| plain_boolean: "plain (D_Boolean b)"
| plain_table: "plain_entries es \<Longrightarrow> \<forall>e \<in> set es. plain (snd e) \<Longrightarrow> plain (D_Table n es)"

inductive_cases plain_tableE: "plain (D_Table n es)"

lemma setvalue_ok: "plain d \<Longrightarrow> converts (setvalue junk) d"
proof (induction rule: plain.induct)
  case (plain_string s)
  show ?case unfolding converts_def
  proof (intro allI impI)
    fix S :: string_map assume S: "distinct S"
    obtain i S' where i: "stringindex s S = (i, S')" by force
    with stringindex_ok [OF S i] show "\<exists>x S'. setvalue junk (D_String s) S = Inr (x, S') \<and> prefix S S' \<and> distinct S' \<and> shares S' (D_String s) x"
      by (auto simp: shares_simps)
  qed
next
  case (plain_table es n)
  have "converts (setvalue junk) D_Nil" "\<forall>e \<in> set es. converts (setvalue junk) (snd e)"
    using plain_table by (auto simp: converts_def shares_simps)
  note conv = convtable_ok [OF plain_table.hyps(1) this(2) this(1)]
  show ?case unfolding converts_def
  proof (intro allI impI)
    fix S :: string_map assume S: "distinct S"
    obtain t S' where t: "convtable junk (setvalue junk) n es S = Inr (t, S')" "prefix S S'" "distinct S'"
        "shares S' (D_Table n es) (VALUETYPE_TABLE (tb_array t) (tb_hash t))"
      using conv [OF S] by blast
    then show "\<exists>x S'. setvalue junk (D_Table n es) S = Inr (x, S') \<and> prefix S S' \<and> distinct S' \<and> shares S' (D_Table n es) x"
      by auto
  qed
qed (auto simp: converts_def shares_simps)

end
