(* ===== verification/Sharedata_Read.thy ===== *)
theory Sharedata_Read
  imports Sharedata_Lookup
begin

text \<open>
  Reading a shared table: the walk along a chain, the value of a key down a path of nested tables, the
  traversal, and the references that keep a table alive.
\<close>

section \<open>The walk along a chain\<close>

text \<open>What is looked up for a key.\<close>

fun sought :: "shared_key \<Rightarrow> int \<times> u32 \<times> key_type \<times> byte list" where
  "sought (Integer_Key i) = (i, word_of_int i, KEYTYPE_INTEGER, [])"
| "sought (String_Key s) = (0, calchash s, KEYTYPE_STRING, s)"
| "sought _ = (0, 0, KEYTYPE_INTEGER, [])"

definition names_at :: "conf_value conf_node list \<Rightarrow> string_map \<Rightarrow> nat \<Rightarrow> shared_key \<Rightarrow> bool" where
  "names_at h S j k \<longleftrightarrow> pushkey S (h ! j) = Some k \<and> sn_keyhash (h ! j) = key_hash k"

lemma lookup_step:
  assumes k: "plain_key k" "sought k = (key, keyhash, keytype, s)" and j: "j < length h" "names_at h S j k'"
  shows "lookup_loop h S keyhash key keytype s (int j) =
    (if k' = k then Some (Some j) else if sn_next (h ! j) < 0 then Some None else lookup_loop h S keyhash key keytype s (sn_next (h ! j)))"
proof -
  have "(if keyhash = sn_keyhash (h ! j) then
             (case sn_keytype (h ! j) of
                KEYTYPE_INTEGER \<Rightarrow> Some (keytype = KEYTYPE_INTEGER \<and> sn_key (h ! j) = key)
              | KEYTYPE_STRING \<Rightarrow>
                  if keytype = KEYTYPE_STRING then map_option (\<lambda>s2. s = s2) (string_at S (sn_key (h ! j))) else Some False)
           else Some False) = Some (k' = k)"
    using k j(2) by (cases k; cases k'; auto simp: names_at_def pushkey_def split: key_type.splits)
  then show ?thesis using j(1) by (subst lookup_loop.simps) (simp add: Let_def)
qed

lemma lookup_chain:
  assumes k: "plain_key k" "sought k = (key, keyhash, keytype, s)"
  shows "node_chain h i js \<Longrightarrow> js \<noteq> [] \<Longrightarrow> \<forall>j \<in> set js. \<exists>k'. names_at h S j k' \<Longrightarrow>
    lookup_loop h S keyhash key keytype s i = Some (find (\<lambda>j. pushkey S (h ! j) = Some k) js)"
proof (induction js arbitrary: i)
  case (Cons j js)
  then obtain k' where j: "i = int j" "j < length h" "names_at h S j k'" "node_chain h (sn_next (h ! j)) js" by auto
  show ?case
  proof (cases js)
    case Nil
    then show ?thesis using j lookup_step [OF k j(2,3)] by (simp add: names_at_def)
  next
    case (Cons j' js')
    then have "\<not> sn_next (h ! j) < 0" using j(4) by simp
    then show ?thesis using j lookup_step [OF k j(2,3)] Cons.IH Cons.prems Cons by (simp add: names_at_def)
  qed
qed simp

text \<open>What is known of a converted table.\<close>

lemma shares_table_parts:
  assumes "shares S (D_Table n es) (VALUETYPE_TABLE a h)"
  shows "length a = n" "\<And>i. i < n \<Longrightarrow> shares S (rawget es (Suc i)) (a ! i)" "chained h"
    "\<And>i. i < length h \<Longrightarrow> is_filled h i"
    "\<And>i. i < length h \<Longrightarrow> \<exists>k v. (k, v) \<in> set es \<and> \<not> in_array n k \<and> names_at h S i k \<and> shares S v (sn_v (h ! i))"
    "\<And>k v. (k, v) \<in> set es \<Longrightarrow> \<not> in_array n k \<Longrightarrow> \<exists>i < length h. pushkey S (h ! i) = Some k"
    "\<And>i j. i < length h \<Longrightarrow> j < length h \<Longrightarrow> pushkey S (h ! i) = pushkey S (h ! j) \<Longrightarrow> i = j"
  using assms by (auto elim!: shares_tableE simp: is_filled_def names_at_def)

lemma lookup_key_ok:
  assumes sh: "shares S (D_Table n es) (VALUETYPE_TABLE a h)" and k: "plain_key k" "sought k = (key, keyhash, keytype, s)" "\<not> in_array n k"
  shows "\<exists>r. lookup_key \<lparr>tb_array = a, tb_hash = h\<rparr> S keyhash key keytype s = Some r \<and>
    (case r of None \<Rightarrow> k \<notin> fst ` set es | Some i \<Rightarrow> i < length h \<and> pushkey S (h ! i) = Some k)"
proof (cases "h = []")
  case True
  have "k \<notin> fst ` set es" using shares_table_parts(6) [OF sh] k(3) True by force
  with True show ?thesis by (simp add: lookup_key_def)
next
  case False
  let ?p = "home_place h k"
  note parts = shares_table_parts [OF sh]
  have kh: "keyhash = key_hash k" using k(1,2) by (cases k) auto
  have p: "?p < length h" using False by simp
  have ch: "\<And>j. is_filled h j \<Longrightarrow> is_filled h (main_place h j) \<and> main_place h (main_place h j) = main_place h j"
      "\<And>p. is_filled h p \<Longrightarrow> main_place h p = p \<Longrightarrow>
        (\<exists>js. node_chain h (int p) js \<and> distinct js \<and> (\<forall>j. j \<in> set js \<longleftrightarrow> is_filled h j \<and> main_place h j = p)) \<and>
        (sn_nocolliding (h ! p) \<longrightarrow> sn_next (h ! p) = -1)"
    using parts(3) unfolding chained_def by blast+
  have head: "is_filled h ?p \<and> main_place h ?p = ?p" "j < length h \<and> main_place h j = ?p" if k': "k \<in> fst ` set es" and j: "j < length h" "pushkey S (h ! j) = Some k" for j
  proof -
    obtain k' where "names_at h S j k'" using parts(5) [OF j(1)] by blast
    then have "main_place h j = ?p" using j(2) by (simp add: names_at_def main_place_def)
    then show "j < length h \<and> main_place h j = ?p" "is_filled h ?p \<and> main_place h ?p = ?p"
      using j(1) ch(1) [OF parts(4) [OF j(1)]] by simp_all
  qed
  have "\<exists>js. node_chain h (int ?p) js \<and> js \<noteq> [] \<and> (k \<in> fst ` set es \<longrightarrow> (\<forall>j < length h. pushkey S (h ! j) = Some k \<longrightarrow> j \<in> set js))"
  proof (cases "main_place h ?p = ?p")
    case True
    obtain js where js: "node_chain h (int ?p) js" "\<And>j. j \<in> set js \<longleftrightarrow> is_filled h j \<and> main_place h j = ?p"
      using ch(2) [OF parts(4) [OF p] True] by blast
    have "?p \<in> set js" using js(2) parts(4) [OF p] True by blast
    moreover have "j \<in> set js" if "k \<in> fst ` set es" "j < length h" "pushkey S (h ! j) = Some k" for j
      using js(2) parts(4) head(2) [OF that] by blast
    ultimately show ?thesis using js(1) by (intro exI [of _ js]) auto
  next
    case False
    have "is_filled h ?p" by (rule parts(4) [OF p])
    then obtain js where js: "node_chain h (int (main_place h ?p)) js" "?p \<in> set js"
      using ch(1) ch(2) [of "main_place h ?p"] by blast
    have "\<exists>ks. node_chain h (int q) ks \<and> ks \<noteq> []" if "node_chain h i js" "q \<in> set js" for i q
      using that
    proof (induction js arbitrary: i)
      case (Cons j js)
      then show ?case
      proof (cases "q = j")
        case True
        then show ?thesis using Cons.prems(1) by (intro exI [of _ "j # js"]) auto
      next
        case False
        then show ?thesis using Cons.IH [of "sn_next (h ! j)"] Cons.prems by auto
      qed
    qed simp
    then obtain ks where "node_chain h (int ?p) ks" "ks \<noteq> []" using js by blast
    moreover have "k \<notin> fst ` set es"
    proof
      assume k': "k \<in> fst ` set es"
      then obtain j where "j < length h" "pushkey S (h ! j) = Some k" using parts(6) k(3) by fastforce
      with head(1) [OF k'] False show False by blast
    qed
    ultimately show ?thesis by blast
  qed
  then obtain js where js: "node_chain h (int ?p) js" "js \<noteq> []" "k \<in> fst ` set es \<Longrightarrow> \<forall>j < length h. pushkey S (h ! j) = Some k \<longrightarrow> j \<in> set js" by blast
  have names: "\<forall>j \<in> set js. \<exists>k'. names_at h S j k'" using parts(5) chain_bound [OF js(1)] by blast
  note walk = lookup_chain [OF k(1,2) js(1,2) names]
  show ?thesis
  proof (cases "keyhash \<noteq> sn_keyhash (h ! ?p) \<and> sn_nocolliding (h ! ?p)")
    case True
    have "k \<notin> fst ` set es"
    proof
      assume k': "k \<in> fst ` set es"
      then obtain j where j: "j < length h" "pushkey S (h ! j) = Some k" using parts(6) k(3) by fastforce
      have hp: "is_filled h ?p" "main_place h ?p = ?p" using head(1) [OF k' j] by simp_all
      then have "sn_next (h ! ?p) = -1" using ch(2) True by blast
      then have "js = [?p]" using js(1,2) by (cases js; cases "tl js") auto
      then have "j = ?p" using js(3) [OF k'] j by auto
      moreover have "sn_keyhash (h ! j) = key_hash k" using parts(5) [OF j(1)] j(2) by (auto simp: names_at_def)
      ultimately show False using True kh by simp
    qed
    with True False kh show ?thesis by (simp add: lookup_key_def Let_def)
  next
    case nc: False
    define r where "r = find (\<lambda>j. pushkey S (h ! j) = Some k) js"
    have "lookup_key \<lparr>tb_array = a, tb_hash = h\<rparr> S keyhash key keytype s = Some r"
      using nc False kh walk by (auto simp: lookup_key_def Let_def r_def)
    moreover have "case r of None \<Rightarrow> k \<notin> fst ` set es | Some i \<Rightarrow> i < length h \<and> pushkey S (h ! i) = Some k"
    proof (cases r)
      case None
      then have "\<forall>j \<in> set js. pushkey S (h ! j) \<noteq> Some k" by (simp add: r_def find_None_iff)
      moreover have "\<exists>j < length h. pushkey S (h ! j) = Some k" if "k \<in> fst ` set es" using that parts(6) k(3) by fastforce
      ultimately show ?thesis using None js(3) by force
    next
      case (Some i)
      then have "i \<in> set js" "pushkey S (h ! i) = Some k" by (auto simp: r_def find_Some_iff)
      then show ?thesis using Some chain_bound [OF js(1)] by simp
    qed
    ultimately show ?thesis by blast
  qed
qed

section \<open>One table\<close>

lemma sought_arg:
  assumes "plain_key k" "sought k = (key, keyhash, keytype, s)"
  shows "key_arg tbl k =
    Inr (if in_array (length (tb_array tbl)) k then Inl (case k of Integer_Key i \<Rightarrow> nat (i - 1) | _ \<Rightarrow> 0) else Inr (key, keyhash, keytype, s))"
  using assms by (cases k) (auto simp: key_arg_def in_array_def)

lemma shares_pushed: "shares S d c \<Longrightarrow> \<exists>p. pushvalue S c = Some p"
  by (cases rule: shares.cases, assumption) auto

lemma index_ok:
  assumes pl: "plain_entries es" and sh: "shares S (D_Table n es) (VALUETYPE_TABLE a h)" and k: "plain_key k"
  shows "\<exists>r. lindexconf \<lparr>tb_array = a, tb_hash = h\<rparr> S k = Some (Inr r) \<and>
    (case map_of es k of
       None \<Rightarrow> r = None \<or> r = Some P_Nil
     | Some v \<Rightarrow> \<exists>c. shares S v c \<and> r = pushvalue S c \<and> r \<noteq> None)"
proof -
  obtain key keyhash keytype s where q: "sought k = (key, keyhash, keytype, s)" by (metis prod_cases4)
  note parts = shares_table_parts [OF sh]
  note arg = sought_arg [OF k q, of "\<lparr>tb_array = a, tb_hash = h\<rparr>"]
  show ?thesis
  proof (cases "in_array n k")
    case True
    then obtain i where i: "k = Integer_Key i" "0 < i" "i \<le> int n" by (auto simp: in_array_def)
    define j where "j = nat (i - 1)"
    have j: "j < n" "i = int (Suc j)" using i by (simp_all add: j_def)
    have sj: "shares S (rawget es (Suc j)) (a ! j)" by (rule parts(2) [OF j(1)])
    then obtain p where p: "pushvalue S (a ! j) = Some p" using shares_pushed by blast
    have "lindexconf \<lparr>tb_array = a, tb_hash = h\<rparr> S k = Some (Inr (Some p))"
      using True arg parts(1) i(1) p by (simp add: lindexconf_def j_def)
    moreover have "rawget es (Suc j) = (case map_of es k of None \<Rightarrow> D_Nil | Some v \<Rightarrow> v)" using i(1) j(2) by (simp add: rawget_def)
    ultimately show ?thesis using sj p by (auto simp: shares_simps split: option.splits)
  next
    case False
    obtain r where r: "lookup_key \<lparr>tb_array = a, tb_hash = h\<rparr> S keyhash key keytype s = Some r"
        "case r of None \<Rightarrow> k \<notin> fst ` set es | Some i \<Rightarrow> i < length h \<and> pushkey S (h ! i) = Some k"
      using lookup_key_ok [OF sh k q False] by blast
    show ?thesis
    proof (cases r)
      case None
      then have "map_of es k = None" using r(2) by (simp add: map_of_eq_None_iff)
      with None r(1) False arg parts(1) show ?thesis by (simp add: lindexconf_def)
    next
      case (Some i)
      then have i: "i < length h" "pushkey S (h ! i) = Some k" using r(2) by simp_all
      then obtain v where v: "(k, v) \<in> set es" "shares S v (sn_v (h ! i))" using parts(5) [OF i(1)] by (auto simp: names_at_def)
      then obtain p where p: "pushvalue S (sn_v (h ! i)) = Some p" using shares_pushed by blast
      have "lindexconf \<lparr>tb_array = a, tb_hash = h\<rparr> S k = Some (Inr (Some p))"
        using False arg parts(1) r(1) Some p by (simp add: lindexconf_def)
      then show ?thesis using entry_value [OF pl v(1)] v(2) p by (auto intro!: exI [of _ "sn_v (h ! i)"])
    qed
  qed
qed

section \<open>Down a path\<close>

fun lua_at :: "lua_data \<Rightarrow> shared_key list \<Rightarrow> lua_data" where
  "lua_at d [] = d"
| "lua_at d (k # ks) =
     (case d of D_Table n es \<Rightarrow> lua_at (case map_of es k of None \<Rightarrow> D_Nil | Some v \<Rightarrow> v) ks | _ \<Rightarrow> D_Nil)"

fun conf_at :: "string_map \<Rightarrow> pushed \<Rightarrow> shared_key list \<Rightarrow> pushed option" where
  "conf_at S p [] = Some p"
| "conf_at S p (k # ks) =
     (case p of
        P_Table t \<Rightarrow>
          (case lindexconf t S k of
             Some (Inr r) \<Rightarrow> conf_at S (case r of None \<Rightarrow> P_Nil | Some q \<Rightarrow> q) ks
           | _ \<Rightarrow> None)
      | _ \<Rightarrow> Some P_Nil)"

fun same_data :: "lua_data \<Rightarrow> pushed \<Rightarrow> bool" where
  "same_data D_Nil p \<longleftrightarrow> p = P_Nil"
| "same_data (D_Integer i) p \<longleftrightarrow> p = P_Integer i"
| "same_data (D_Real x) p \<longleftrightarrow> p = P_Real x"
| "same_data (D_String s) p \<longleftrightarrow> p = P_String s"
| "same_data (D_Boolean b) p \<longleftrightarrow> p = P_Boolean b"
| "same_data (D_Table n es) p \<longleftrightarrow> (\<exists>t. p = P_Table t \<and> length (tb_array t) = n)"
| "same_data D_Other p \<longleftrightarrow> False"

lemma shares_same_data: "shares S d c \<Longrightarrow> pushvalue S c = Some p \<Longrightarrow> same_data d p"
  by (cases rule: shares.cases, assumption) auto

lemma conf_at_nil: "conf_at S P_Nil ks = Some P_Nil"
  by (cases ks) simp_all

lemma lua_at_nil: "lua_at D_Nil ks = D_Nil"
  by (cases ks) simp_all

lemma path_ok:
  "plain d \<Longrightarrow> shares S d c \<Longrightarrow> pushvalue S c = Some p \<Longrightarrow> list_all plain_key ks \<Longrightarrow>
   \<exists>c' q. shares S (lua_at d ks) c' \<and> pushvalue S c' = Some q \<and> conf_at S p ks = Some q \<and> plain (lua_at d ks)"
proof (induction ks arbitrary: d c p)
  case (Cons k ks)
  have nil: "\<exists>c' q. shares S D_Nil c' \<and> pushvalue S c' = Some q \<and> Some P_Nil = Some q \<and> plain D_Nil"
    by (auto simp: shares_simps intro: plain_nil)
  show ?case
  proof (cases "\<exists>n es. d = D_Table n es")
    case False
    then have "\<not> (\<exists>t. p = P_Table t)" using shares_same_data [OF Cons.prems(2,3)] by (cases d) auto
    then have "conf_at S p (k # ks) = Some P_Nil" by (cases p) auto
    moreover have "lua_at d (k # ks) = D_Nil" using False by (cases d) auto
    ultimately show ?thesis using nil by simp
  next
    case True
    then obtain n es where d: "d = D_Table n es" by blast
    then obtain a h where c: "c = VALUETYPE_TABLE a h" using Cons.prems(2) by (auto elim: shares_tableE)
    have p: "p = P_Table \<lparr>tb_array = a, tb_hash = h\<rparr>" using Cons.prems(3) c by simp
    have pl: "plain_entries es" "\<forall>e \<in> set es. plain (snd e)" using Cons.prems(1) d by (auto elim: plain_tableE)
    obtain r where r: "lindexconf \<lparr>tb_array = a, tb_hash = h\<rparr> S k = Some (Inr r)"
        "case map_of es k of None \<Rightarrow> r = None \<or> r = Some P_Nil | Some v \<Rightarrow> \<exists>c. shares S v c \<and> r = pushvalue S c \<and> r \<noteq> None"
      using index_ok [OF pl(1), of S n a h k] Cons.prems d c by auto
    show ?thesis
    proof (cases "map_of es k")
      case None
      then have "conf_at S p (k # ks) = Some P_Nil" using r p conf_at_nil by auto
      moreover have "lua_at d (k # ks) = D_Nil" using None d lua_at_nil by simp
      ultimately show ?thesis using nil by simp
    next
      case (Some v)
      then obtain c' q where v: "shares S v c'" "r = Some q" "pushvalue S c' = Some q" using r(2) by auto
      have "plain v" using pl(2) map_of_SomeD [OF Some] by fastforce
      from Cons.IH [OF this v(1,3)] Cons.prems(4) show ?thesis using Some d p r(1) v(2) by simp
    qed
  qed
qed auto

section \<open>The traversal\<close>

fun traverse :: "nat \<Rightarrow> conf_table \<Rightarrow> string_map \<Rightarrow> shared_key option \<Rightarrow> shared_key list option" where
  "traverse 0 t S ko = None"
| "traverse (Suc fuel) t S ko =
     (case lnextkey t S ko of
        Some (Inr None) \<Rightarrow> Some []
      | Some (Inr (Some k)) \<Rightarrow> map_option ((#) k) (traverse fuel t S (Some k))
      | _ \<Rightarrow> None)"

lemma find_next:
  assumes "find P [i..<n] = Some j"
  shows "filter P [i..<n] = j # filter P [Suc j..<n]" "i \<le> j" "j < n" "P j"
proof -
  obtain m where m: "m < n - i" "P (i + m)" "j = i + m" "\<forall>l < m. \<not> P (i + l)" using assms by (auto simp: find_Some_iff)
  then show j: "i \<le> j" "j < n" "P j" by simp_all
  then have "[i..<n] = [i..<j] @ j # [Suc j..<n]" by (metis upt_add_eq_append le_add_diff_inverse upt_conv_Cons less_imp_le)
  moreover have "filter P [i..<j] = []" using m(3,4) by (auto simp: filter_empty_conv) (metis le_Suc_ex less_diff_conv2 nat_add_left_cancel_less)
  ultimately show "filter P [i..<n] = j # filter P [Suc j..<n]" using j(3) by simp
qed

definition key_of :: "string_map \<Rightarrow> conf_value conf_node \<Rightarrow> shared_key" where
  "key_of S nd = the (pushkey S nd)"

lemma traverse_hash:
  assumes pl: "plain_entries es" and sh: "shares S (D_Table n es) (VALUETYPE_TABLE a h)"
  shows "j < length h \<Longrightarrow> length h - Suc j < fuel \<Longrightarrow>
    traverse fuel \<lparr>tb_array = a, tb_hash = h\<rparr> S (Some (key_of S (h ! j))) = Some (map (\<lambda>j. key_of S (h ! j)) [Suc j..<length h])"
proof (induction "length h - j" arbitrary: j fuel)
  case (Suc d)
  note parts = shares_table_parts [OF sh]
  obtain k v where k: "(k, v) \<in> set es" "\<not> in_array n k" "pushkey S (h ! j) = Some k" 
    using parts(5) [OF Suc.prems(1)] by (auto simp: names_at_def)
  have kj: "key_of S (h ! j) = k" using k(3) by (simp add: key_of_def)
  have pk: "plain_key k" using pl k(1) by (force simp: plain_entries_def)
  obtain key keyhash keytype s where q: "sought k = (key, keyhash, keytype, s)" by (metis prod_cases4)
  obtain r where r: "lookup_key \<lparr>tb_array = a, tb_hash = h\<rparr> S keyhash key keytype s = Some r"
      "case r of None \<Rightarrow> k \<notin> fst ` set es | Some i \<Rightarrow> i < length h \<and> pushkey S (h ! i) = Some k"
    using lookup_key_ok [OF sh pk q k(2)] by blast
  have "r = Some j" using r(2) k(1,3) parts(7) Suc.prems(1) by (force split: option.splits)
  then have next_k: "lnextkey \<lparr>tb_array = a, tb_hash = h\<rparr> S (Some k) =
      (if Suc j = length h then Some (Inr None) else map_option (Inr \<circ> Some) (pushkey S (h ! Suc j)))"
    using sought_arg [OF pk q, of "\<lparr>tb_array = a, tb_hash = h\<rparr>"] k(2) parts(1) r(1) pk
    by (cases k) (auto simp: lnextkey_def)
  obtain f where f: "fuel = Suc f" using Suc.prems(2) by (cases fuel) auto
  show ?case
  proof (cases "Suc j = length h")
    case True
    then show ?thesis using next_k kj f by simp
  next
    case False
    then have sj: "Suc j < length h" using Suc.prems(1) by simp
    then obtain k' where k': "pushkey S (h ! Suc j) = Some k'" using parts(5) [OF sj] by (auto simp: names_at_def)
    have "traverse f \<lparr>tb_array = a, tb_hash = h\<rparr> S (Some (key_of S (h ! Suc j))) = Some (map (\<lambda>j. key_of S (h ! j)) [Suc (Suc j)..<length h])"
      by (rule Suc.hyps(1)) (use Suc.hyps(2) Suc.prems f sj in auto)
    moreover have "[Suc j..<length h] = Suc j # [Suc (Suc j)..<length h]" using sj by (simp add: upt_conv_Cons)
    ultimately show ?thesis using next_k kj f k' False by (simp add: key_of_def)
  qed
qed simp

lemma traverse_array:
  assumes pl: "plain_entries es" and sh: "shares S (D_Table n es) (VALUETYPE_TABLE a h)"
  shows "i \<le> n \<Longrightarrow> n - i + length h < fuel \<Longrightarrow>
    lnextkey \<lparr>tb_array = a, tb_hash = h\<rparr> S ko = map_option Inr (next_array \<lparr>tb_array = a, tb_hash = h\<rparr> S i) \<Longrightarrow>
    traverse fuel \<lparr>tb_array = a, tb_hash = h\<rparr> S ko =
      Some (map (\<lambda>j. Integer_Key (int j + 1)) (filter (\<lambda>j. a ! j \<noteq> VALUETYPE_NIL) [i..<n]) @ map (\<lambda>j. key_of S (h ! j)) [0..<length h])"
proof (induction "n - i" arbitrary: i fuel ko rule: less_induct)
  case less
  note parts = shares_table_parts [OF sh]
  obtain f where f: "fuel = Suc f" using less.prems(2) by (cases fuel) auto
  show ?case
  proof (cases "find (\<lambda>j. a ! j \<noteq> VALUETYPE_NIL) [i..<n]")
    case None
    then have fl: "filter (\<lambda>j. a ! j \<noteq> VALUETYPE_NIL) [i..<n] = []" by (auto simp: find_None_iff filter_empty_conv)
    have nx: "lnextkey \<lparr>tb_array = a, tb_hash = h\<rparr> S ko = map_option Inr (pushfirsthash \<lparr>tb_array = a, tb_hash = h\<rparr> S)"
      using less.prems(3) None parts(1) by (simp add: next_array_def)
    show ?thesis
    proof (cases "h = []")
      case True
      then show ?thesis using nx fl f by (simp add: pushfirsthash_def)
    next
      case False
      then have "0 < length h" by simp
      obtain k where k: "pushkey S (h ! 0) = Some k" using parts(5) [OF \<open>0 < length h\<close>] by (auto simp: names_at_def)
      have "traverse f \<lparr>tb_array = a, tb_hash = h\<rparr> S (Some (key_of S (h ! 0))) = Some (map (\<lambda>j. key_of S (h ! j)) [Suc 0..<length h])"
        by (rule traverse_hash [OF pl sh]) (use less.prems(2) f \<open>0 < length h\<close> in linarith)+
      moreover have "[0..<length h] = 0 # [Suc 0..<length h]" using False by (simp add: upt_conv_Cons)
      ultimately show ?thesis using nx fl f k False by (simp add: pushfirsthash_def key_of_def)
    qed
  next
    case (Some j)
    note j = find_next [OF Some]
    have "rawget es (Suc j) \<noteq> D_Nil" using parts(2) [OF j(3)] j(4) by (auto simp: shares_simps)
    then obtain v where "(Integer_Key (int (Suc j)), v) \<in> set es" by (auto simp: rawget_def dest: map_of_SomeD split: option.splits)
    then have "plain_key (Integer_Key (int (Suc j)))" using pl by (force simp: plain_entries_def)
    then have "as_int (int j + 1) = int j + 1" by (simp add: add.commute)
    then have nx: "lnextkey \<lparr>tb_array = a, tb_hash = h\<rparr> S (Some (Integer_Key (int j + 1))) = map_option Inr (next_array \<lparr>tb_array = a, tb_hash = h\<rparr> S (Suc j))"
      using j(3) parts(1) by (simp add: lnextkey_def key_arg_def)
    have "traverse f \<lparr>tb_array = a, tb_hash = h\<rparr> S (Some (Integer_Key (int j + 1))) =
        Some (map (\<lambda>j. Integer_Key (int j + 1)) (filter (\<lambda>j. a ! j \<noteq> VALUETYPE_NIL) [Suc j..<n]) @ map (\<lambda>j. key_of S (h ! j)) [0..<length h])"
      by (rule less.hyps [OF _ _ _ nx]) (use j(2,3) less.prems(2) f in auto)
    moreover have "lnextkey \<lparr>tb_array = a, tb_hash = h\<rparr> S ko = Some (Inr (Some (Integer_Key (int j + 1))))"
      using less.prems(3) Some parts(1) by (simp add: next_array_def)
    ultimately show ?thesis using f j(1) by simp
  qed
qed

lemma traverse_ok:
  assumes pl: "plain_entries es" and sh: "shares S (D_Table n es) (VALUETYPE_TABLE a h)" and fuel: "n + length h < fuel"
  shows "\<exists>l. traverse fuel \<lparr>tb_array = a, tb_hash = h\<rparr> S None = Some l \<and> distinct l \<and> set l = fst ` set es"
proof -
  note parts = shares_table_parts [OF sh]
  define A where "A = map (\<lambda>j. Integer_Key (int j + 1)) (filter (\<lambda>j. a ! j \<noteq> VALUETYPE_NIL) [0..<n])"
  define H where "H = map (\<lambda>j. key_of S (h ! j)) [0..<length h]"
  have "traverse fuel \<lparr>tb_array = a, tb_hash = h\<rparr> S None = Some (A @ H)"
    unfolding A_def H_def by (rule traverse_array [OF pl sh]) (use fuel in \<open>simp_all add: lnextkey_def\<close>)
  moreover have pushed: "pushkey S (h ! j) = Some (key_of S (h ! j))" if "j < length h" for j
    using parts(5) [OF that] by (auto simp: names_at_def key_of_def)
  have "distinct H" unfolding H_def distinct_map using parts(7) pushed by (auto simp: inj_on_def)
  moreover have "distinct A" by (auto simp: A_def distinct_map inj_on_def)
  moreover have A: "k \<in> set A \<longleftrightarrow> k \<in> fst ` set es \<and> in_array n k" for k
  proof
    assume "k \<in> set A"
    then obtain j where j: "k = Integer_Key (int (Suc j))" "j < n" "a ! j \<noteq> VALUETYPE_NIL" by (auto simp: A_def add.commute)
    then have "rawget es (Suc j) \<noteq> D_Nil" using parts(2) [OF j(2)] by (auto simp: shares_simps)
    then show "k \<in> fst ` set es \<and> in_array n k"
      using j(1,2) by (force simp: rawget_def in_array_def dest: map_of_SomeD split: option.splits)
  next
    assume k: "k \<in> fst ` set es \<and> in_array n k"
    then obtain i v where i: "k = Integer_Key i" "0 < i" "i \<le> int n" "(k, v) \<in> set es" by (auto simp: in_array_def)
    define j where "j = nat (i - 1)"
    have j: "j < n" "i = int j + 1" "k = Integer_Key (int (Suc j))" using i by (simp_all add: j_def)
    have "rawget es (Suc j) = v" using entry_value [OF pl i(4)] j(3) by (simp add: rawget_def)
    moreover have "v \<noteq> D_Nil" using pl i(4) by (force simp: plain_entries_def)
    ultimately have "a ! j \<noteq> VALUETYPE_NIL" using parts(2) [OF j(1)] by (auto simp: shares_simps)
    then show "k \<in> set A" using j i(1) by (auto simp: A_def)
  qed
  moreover have H: "k \<in> set H \<longleftrightarrow> k \<in> fst ` set es \<and> \<not> in_array n k" for k
  proof
    assume "k \<in> set H"
    then obtain j where j: "j < length h" "key_of S (h ! j) = k" by (auto simp: H_def)
    then show "k \<in> fst ` set es \<and> \<not> in_array n k" using parts(5) [OF j(1)] by (force simp: names_at_def key_of_def)
  next
    assume "k \<in> fst ` set es \<and> \<not> in_array n k"
    then obtain j where "j < length h" "pushkey S (h ! j) = Some k" using parts(6) by fastforce
    then show "k \<in> set H" by (force simp: H_def key_of_def)
  qed
  ultimately show ?thesis by auto
qed

section \<open>References\<close>

text \<open>
  The host of a shared table (\<open>service/sharedatad.lua\<close>) deletes it when nothing refers to it; readers box a table
  that the host hands them, with a reference taken for the time of the message.
\<close>

inductive conf_step :: "conf_world \<Rightarrow> (nat \<Rightarrow> int) \<Rightarrow> conf_world \<Rightarrow> (nat \<Rightarrow> int) \<Rightarrow> bool" where
  step_new: "new_conf junk d w = (Inr a, w') \<Longrightarrow> conf_step w e w' e"
| step_box: "lboxconf a w = Some (c, w') \<Longrightarrow> conf_step w e w' e"
| step_release: "releaseobj c w = Some w' \<Longrightarrow> conf_step w e w' e"
| step_incref: "lincref a w = Some (r, w') \<Longrightarrow> conf_step w e w' (e(a := e a + 1))"
| step_decref: "0 < e a \<Longrightarrow> ldecref a w = Some (r, w') \<Longrightarrow> conf_step w e w' (e(a := e a - 1))"
| step_dirty: "lmarkdirty a w = Some w' \<Longrightarrow> conf_step w e w' e"
| step_update: "lupdate c a w = Some (Inr w') \<Longrightarrow> conf_step w e w' e"
| step_delete: "lgetref a w = Some r \<Longrightarrow> r \<le> 0 \<Longrightarrow> ldeleteconf a w = Some w' \<Longrightarrow> conf_step w e w' e"

definition conf_start :: conf_world where
  "conf_start = \<lparr>cw_objects = \<lambda>_. None, cw_ctrls = \<lambda>_. None, cw_brk = 0\<rparr>"

inductive conf_reach :: "conf_world \<Rightarrow> (nat \<Rightarrow> int) \<Rightarrow> bool" where
  reach_start: "conf_reach conf_start (\<lambda>_. 0)"
| reach_step: "conf_reach w e \<Longrightarrow> conf_step w e w' e' \<Longrightarrow> conf_reach w' e'"

definition holders :: "conf_world \<Rightarrow> nat \<Rightarrow> nat set" where
  "holders w a = {c. \<exists>ctrl. cw_ctrls w c = Some ctrl \<and> cc_root ctrl = Some a}"

definition refs_counted :: "conf_world \<Rightarrow> (nat \<Rightarrow> int) \<Rightarrow> bool" where
  "refs_counted w e \<longleftrightarrow> finite (dom (cw_ctrls w)) \<and> (\<forall>c \<in> dom (cw_ctrls w). c < cw_brk w) \<and> (\<forall>a \<in> dom (cw_objects w). a < cw_brk w) \<and>
     (\<forall>a. (case cw_objects w a of
            None \<Rightarrow> holders w a = {} \<and> e a = 0
          | Some ob \<Rightarrow> co_ref ob = int (card (holders w a)) + e a \<and> 0 \<le> e a))"

lemma refs_countedD:
  assumes "refs_counted w e"
  shows "finite (holders w a)" "cw_objects w a = None \<Longrightarrow> holders w a = {} \<and> e a = 0"
    "cw_objects w a = Some ob \<Longrightarrow> co_ref ob = int (card (holders w a)) + e a \<and> 0 \<le> e a"
    "c \<in> holders w a \<Longrightarrow> c < cw_brk w" "cw_objects w a = Some ob \<Longrightarrow> a < cw_brk w"
proof -
  have i: "finite (dom (cw_ctrls w))" "\<forall>c \<in> dom (cw_ctrls w). c < cw_brk w" "\<forall>a \<in> dom (cw_objects w). a < cw_brk w"
      "case cw_objects w a of None \<Rightarrow> holders w a = {} \<and> e a = 0 | Some ob \<Rightarrow> co_ref ob = int (card (holders w a)) + e a \<and> 0 \<le> e a"
    using assms unfolding refs_counted_def by blast+
  have "holders w a \<subseteq> dom (cw_ctrls w)" by (auto simp: holders_def)
  then show "finite (holders w a)" "c \<in> holders w a \<Longrightarrow> c < cw_brk w" using i(1,2) finite_subset by blast+
  show "cw_objects w a = None \<Longrightarrow> holders w a = {} \<and> e a = 0"
    "cw_objects w a = Some ob \<Longrightarrow> co_ref ob = int (card (holders w a)) + e a \<and> 0 \<le> e a" "cw_objects w a = Some ob \<Longrightarrow> a < cw_brk w"
    using i(3,4) by auto
qed

text \<open>A change of the count of one object, with the holders changed accordingly.\<close>

lemma refs_change:
  assumes inv: "refs_counted w e"
    and w': "cw_objects w' = (cw_objects w)(a := ob')" "cw_brk w \<le> cw_brk w'" "finite (dom (cw_ctrls w'))"
      "\<forall>c \<in> dom (cw_ctrls w'). c < cw_brk w'" "\<And>b. b \<noteq> a \<Longrightarrow> holders w' b = holders w b"
    and e': "\<And>b. b \<noteq> a \<Longrightarrow> e' b = e b"
      "case ob' of None \<Rightarrow> holders w' a = {} \<and> e' a = 0
         | Some ob \<Rightarrow> a < cw_brk w' \<and> co_ref ob = int (card (holders w' a)) + e' a \<and> 0 \<le> e' a"
  shows "refs_counted w' e'"
proof -
  have "case cw_objects w' b of None \<Rightarrow> holders w' b = {} \<and> e' b = 0 | Some ob \<Rightarrow> co_ref ob = int (card (holders w' b)) + e' b \<and> 0 \<le> e' b" for b
    using refs_countedD(2,3) [OF inv, of b] w'(1,5) e' by (cases "b = a") (auto split: option.splits)
  moreover have "b < cw_brk w'" if "cw_objects w' b = Some ob" for b ob
    using that w'(1,2) refs_countedD(5) [OF inv, of b ob] e'(2) by (cases "b = a") (auto split: option.splits)
  ultimately show ?thesis using w'(3,4) unfolding refs_counted_def by blast
qed

lemma refs_step:
  assumes inv: "refs_counted w e" and ob: "cw_objects w a = Some ob"
    and w': "cw_objects w' = (cw_objects w)(a \<mapsto> ob')" "cw_brk w \<le> cw_brk w'" "finite (dom (cw_ctrls w'))"
      "\<forall>c \<in> dom (cw_ctrls w'). c < cw_brk w'" "\<And>b. b \<noteq> a \<Longrightarrow> holders w' b = holders w b"
    and e': "\<And>b. b \<noteq> a \<Longrightarrow> e' b = e b" "co_ref ob' = int (card (holders w' a)) + e' a" "0 \<le> e' a"
  shows "refs_counted w' e'"
  using refs_change [OF inv w' e'(1)] refs_countedD(5) [OF inv ob] w'(2) e'(2,3) by simp

lemma object_upd_Some: "object_upd a f w = Some w' \<longleftrightarrow> (\<exists>ob. cw_objects w a = Some ob \<and> w' = w\<lparr>cw_objects := (cw_objects w)(a \<mapsto> f ob)\<rparr>)"
  by (auto simp: object_upd_def)

lemma conf_step_counted: "conf_step w e w' e' \<Longrightarrow> refs_counted w e \<Longrightarrow> refs_counted w' e'"
proof (induction rule: conf_step.induct)
  case (step_new junk d w a w' e)
  then have w': "a = cw_brk w" "\<exists>ob. w' = w\<lparr>cw_objects := (cw_objects w)(a \<mapsto> ob), cw_brk := cw_brk w + 1\<rparr> \<and> co_ref ob = 0"
    by (auto simp: new_conf_def split: sum.splits prod.splits)
  have "cw_objects w a = None" using refs_countedD(5) [OF step_new.prems, of a] w'(1) by (cases "cw_objects w a") auto
  then have no: "holders w a = {} \<and> e a = 0" by (rule refs_countedD(2) [OF step_new.prems])
  have h: "holders w' b = holders w b" for b using w'(2) by (auto simp: holders_def)
  have dom: "finite (dom (cw_ctrls w))" "\<forall>c \<in> dom (cw_ctrls w). c < cw_brk w" using step_new.prems unfolding refs_counted_def by blast+
  obtain ob where "w' = w\<lparr>cw_objects := (cw_objects w)(a \<mapsto> ob), cw_brk := cw_brk w + 1\<rparr>" "co_ref ob = 0" using w'(2) by blast
  then show ?case
    by (intro refs_change [OF step_new.prems, where a = a and ob' = "Some ob"]) (use dom no h w'(1) in \<open>auto simp: less_SucI\<close>)
next
  case (step_box a w c w' e)
  then obtain ob where ob: "cw_objects w a = Some ob" and c: "c = cw_brk w"
    and w': "w' = w\<lparr>cw_objects := (cw_objects w)(a \<mapsto> ob\<lparr>co_ref := co_ref ob + 1\<rparr>),
       cw_ctrls := (cw_ctrls w)(c \<mapsto> \<lparr>cc_root = Some a, cc_update = None\<rparr>), cw_brk := cw_brk w + 1\<rparr>"
    by (auto simp: lboxconf_def object_upd_Some split: bind_splits)
  have dom: "finite (dom (cw_ctrls w))" "\<forall>c \<in> dom (cw_ctrls w). c < cw_brk w" using step_box.prems unfolding refs_counted_def by blast+
  have new: "cw_ctrls w c = None" using dom(2) c by blast
  have h: "holders w' a = insert c (holders w a)" "c \<notin> holders w a" "\<And>b. b \<noteq> a \<Longrightarrow> holders w' b = holders w b"
    using new by (auto simp: holders_def w')
  show ?case
  proof (rule refs_step [OF step_box.prems ob])
    show "co_ref (ob\<lparr>co_ref := co_ref ob + 1\<rparr>) = int (card (holders w' a)) + e a"
      using h(1,2) refs_countedD(1,3) [OF step_box.prems] ob by simp
  qed (use w' dom c h(3) refs_countedD(3) [OF step_box.prems ob] in \<open>auto simp: less_SucI\<close>)
next
  case (step_release c w w' e)
  then obtain ctrl a ob where c: "cw_ctrls w c = Some ctrl" "cc_root ctrl = Some a" and ob: "cw_objects w a = Some ob"
    and w': "w' = w\<lparr>cw_objects := (cw_objects w)(a \<mapsto> ob\<lparr>co_ref := co_ref ob - 1\<rparr>),
       cw_ctrls := (cw_ctrls w)(c \<mapsto> \<lparr>cc_root = None, cc_update = None\<rparr>)\<rparr>"
    by (auto simp: releaseobj_def object_upd_Some split: bind_splits)
  have dom: "finite (dom (cw_ctrls w))" "\<forall>c \<in> dom (cw_ctrls w). c < cw_brk w" using step_release.prems unfolding refs_counted_def by blast+
  have h: "holders w' a = holders w a - {c}" "c \<in> holders w a" "\<And>b. b \<noteq> a \<Longrightarrow> holders w' b = holders w b"
    using c by (auto simp: holders_def w')
  have "0 < card (holders w a)" using h(2) refs_countedD(1) [OF step_release.prems, of a] by (auto simp: card_gt_0_iff)
  show ?case
  proof (rule refs_step [OF step_release.prems ob])
    show "co_ref (ob\<lparr>co_ref := co_ref ob - 1\<rparr>) = int (card (holders w' a)) + e a"
      using h(1,2) refs_countedD(1,3) [OF step_release.prems] ob \<open>0 < card (holders w a)\<close> by (simp add: card_Diff_singleton of_nat_diff)
  qed (use w' dom c h(3) refs_countedD(3) [OF step_release.prems ob] in auto)
next
  case (step_incref a w r w' e)
  then obtain ob where ob: "cw_objects w a = Some ob" and w': "w' = w\<lparr>cw_objects := (cw_objects w)(a \<mapsto> ob\<lparr>co_ref := co_ref ob + 1\<rparr>)\<rparr>"
    by (auto simp: lincref_def object_upd_Some split: bind_splits)
  have h: "holders w' b = holders w b" for b by (simp add: holders_def w')
  have dom: "finite (dom (cw_ctrls w))" "\<forall>c \<in> dom (cw_ctrls w). c < cw_brk w" using step_incref.prems unfolding refs_counted_def by blast+
  show ?case
    by (rule refs_step [OF step_incref.prems ob]) (use w' h dom refs_countedD(3) [OF step_incref.prems ob] in auto)
next
  case (step_decref e a w r w')
  then obtain ob where ob: "cw_objects w a = Some ob" and w': "w' = w\<lparr>cw_objects := (cw_objects w)(a \<mapsto> ob\<lparr>co_ref := co_ref ob - 1\<rparr>)\<rparr>"
    by (auto simp: ldecref_def object_upd_Some split: bind_splits)
  have h: "holders w' b = holders w b" for b by (simp add: holders_def w')
  have dom: "finite (dom (cw_ctrls w))" "\<forall>c \<in> dom (cw_ctrls w). c < cw_brk w" using step_decref.prems unfolding refs_counted_def by blast+
  show ?case
    by (rule refs_step [OF step_decref.prems ob]) (use w' h dom step_decref.hyps(1) refs_countedD(3) [OF step_decref.prems ob] in auto)
next
  case (step_dirty a w w' e)
  then obtain ob where ob: "cw_objects w a = Some ob" and w': "w' = w\<lparr>cw_objects := (cw_objects w)(a \<mapsto> ob\<lparr>co_dirty := 1\<rparr>)\<rparr>"
    by (auto simp: lmarkdirty_def object_upd_Some)
  have h: "holders w' b = holders w b" for b by (simp add: holders_def w')
  have dom: "finite (dom (cw_ctrls w))" "\<forall>c \<in> dom (cw_ctrls w). c < cw_brk w" using step_dirty.prems unfolding refs_counted_def by blast+
  show ?case
    by (rule refs_step [OF step_dirty.prems ob]) (use w' h dom refs_countedD(3) [OF step_dirty.prems ob] in auto)
next
  case (step_update c a w w' e)
  then obtain ctrl where c: "cw_ctrls w c = Some ctrl" and w': "w' = w\<lparr>cw_ctrls := (cw_ctrls w)(c \<mapsto> ctrl\<lparr>cc_update := Some a\<rparr>)\<rparr>"
    by (auto simp: lupdate_def split: bind_splits if_splits)
  have h: "holders w' b = holders w b" for b using c by (auto simp: holders_def w')
  have "dom (cw_ctrls w') = dom (cw_ctrls w)" "cw_objects w' = cw_objects w" "cw_brk w' = cw_brk w" using c w' by auto
  then show ?case using step_update.prems unfolding refs_counted_def h by simp
next
  case (step_delete a w r w' e)
  then obtain ob where ob: "cw_objects w a = Some ob" "co_ref ob \<le> 0" and w': "w' = w\<lparr>cw_objects := (cw_objects w)(a := None)\<rparr>"
    by (auto simp: lgetref_def ldeleteconf_def)
  have "card (holders w a) = 0" "e a = 0" using refs_countedD(3) [OF step_delete.prems ob(1)] ob(2) by auto
  then have "holders w a = {}" "e a = 0" using refs_countedD(1) [OF step_delete.prems, of a] by simp_all
  moreover have h: "holders w' b = holders w b" for b by (simp add: holders_def w')
  moreover have "finite (dom (cw_ctrls w))" "\<forall>c \<in> dom (cw_ctrls w). c < cw_brk w" using step_delete.prems unfolding refs_counted_def by blast+
  ultimately show ?case
    by (intro refs_change [OF step_delete.prems, where a = a and ob' = None]) (use w' in auto)
qed

lemma reach_counted: "conf_reach w e \<Longrightarrow> refs_counted w e"
proof (induction rule: conf_reach.induct)
  case reach_start
  show ?case by (simp add: refs_counted_def conf_start_def holders_def)
qed (rule conf_step_counted)

section \<open>Properties\<close>

lemma newconf_ok:
  assumes "plain (D_Table n es)"
  obtains t S where "lnewconf junk (D_Table n es) = Inr (t, S)" "shares S (D_Table n es) (VALUETYPE_TABLE (tb_array t) (tb_hash t))"
proof -
  have "converts (setvalue junk) D_Nil" "\<forall>e \<in> set es. converts (setvalue junk) (snd e)"
    using assms by (auto elim!: plain_tableE intro: setvalue_ok plain_nil)
  moreover have "plain_entries es" using assms by (rule plain_tableE)
  ultimately obtain t S where "convtable junk (setvalue junk) n es [] = Inr (t, S)" "shares S (D_Table n es) (VALUETYPE_TABLE (tb_array t) (tb_hash t))"
    using convtable_ok [of es "setvalue junk" "[]"] by fastforce
  with that show thesis by (simp add: lnewconf_def)
qed

text \<open>C25. A table of data with strings and 32 bit integers as keys is converted, whatever the memory holds before, and
  then answers as the Lua table does: down every path of keys through nested tables a reader finds the value
  that the Lua table has there, and nil where it has none.\<close>

theorem shared_table_reads:
  assumes "plain (D_Table n es)"
  shows "\<exists>t S. lnewconf junk (D_Table n es) = Inr (t, S) \<and>
    (\<forall>ks. list_all plain_key ks \<longrightarrow> (\<exists>p. conf_at S (P_Table t) ks = Some p \<and> same_data (lua_at (D_Table n es) ks) p))"
proof -
  obtain t S where t: "lnewconf junk (D_Table n es) = Inr (t, S)" "shares S (D_Table n es) (VALUETYPE_TABLE (tb_array t) (tb_hash t))"
    by (rule newconf_ok [OF assms])
  have "\<exists>p. conf_at S (P_Table t) ks = Some p \<and> same_data (lua_at (D_Table n es) ks) p" if ks: "list_all plain_key ks" for ks
  proof -
    have "pushvalue S (VALUETYPE_TABLE (tb_array t) (tb_hash t)) = Some (P_Table t)" by simp
    then obtain c p where "shares S (lua_at (D_Table n es) ks) c" "pushvalue S c = Some p" "conf_at S (P_Table t) ks = Some p"
      using path_ok [OF assms t(2) _ ks] by blast
    then show ?thesis using shares_same_data by blast
  qed
  with t(1) show ?thesis by blast
qed

lemma plain_example:
  "plain (D_Table 2 [(Integer_Key 1, D_Integer 10), (Integer_Key 2, D_Boolean True),
     (String_Key [97], D_Table 0 [(Integer_Key (-5), D_String [98])]), (Integer_Key 7, D_String [97])])"
proof -
  have "plain (D_Table 0 [(Integer_Key (-5), D_String [98])])"
    by (rule plain_table) (auto simp: plain_entries_def as_int_def intro: plain.intros)
  then show ?thesis by (intro plain_table) (auto simp: plain_entries_def as_int_def intro: plain.intros)
qed

theorem shared_table_reads_witness:
  "\<exists>t S. lnewconf (\<lambda>i. Conf_Node VALUETYPE_NIL 3 9 5 KEYTYPE_STRING True)
     (D_Table 2 [(Integer_Key 1, D_Integer 10), (Integer_Key 2, D_Boolean True),
       (String_Key [97], D_Table 0 [(Integer_Key (-5), D_String [98])]), (Integer_Key 7, D_String [97])]) = Inr (t, S) \<and>
     conf_at S (P_Table t) [String_Key [97], Integer_Key (-5)] = Some (P_String [98])"
  using shared_table_reads [OF plain_example, of "\<lambda>i. Conf_Node VALUETYPE_NIL 3 9 5 KEYTYPE_STRING True"]
  by (fastforce simp: as_int_def dest!: spec [where x = "[String_Key [97], Integer_Key (-5)]"])

text \<open>C26. The traversal of a shared table, of the main one or of one nested in it, returns and gives every key of the Lua table
  exactly once: those of the array in order, then those of the hash part.\<close>

theorem shared_table_traversed:
  assumes "plain (D_Table n es)" "lnewconf junk (D_Table n es) = Inr (t, S)" "list_all plain_key ks"
    "lua_at (D_Table n es) ks = D_Table n' es'"
  shows "\<exists>t' l. conf_at S (P_Table t) ks = Some (P_Table t') \<and>
    traverse (llen t' + lhashlen t' + 1) t' S None = Some l \<and> distinct l \<and> set l = fst ` set es'"
proof -
  have sh: "shares S (D_Table n es) (VALUETYPE_TABLE (tb_array t) (tb_hash t))"
    by (rule newconf_ok [OF assms(1), of junk]) (use assms(2) in simp)
  obtain c q where c: "shares S (D_Table n' es') c" "pushvalue S c = Some q" "conf_at S (P_Table t) ks = Some q" "plain (D_Table n' es')"
    using path_ok [OF assms(1) sh _ assms(3), of "P_Table t"] assms(4) by auto
  then obtain a h where ah: "c = VALUETYPE_TABLE a h" by (auto elim: shares_tableE)
  have pl: "plain_entries es'" using c(4) by (rule plain_tableE)
  note sh' = c(1) [unfolded ah]
  have "n' = length a" using shares_table_parts(1) [OF sh'] by simp
  with traverse_ok [OF pl sh', of "length a + length h + 1"] c(2,3) ah show ?thesis
    by (intro exI [of _ "\<lparr>tb_array = a, tb_hash = h\<rparr>"]) (auto simp: llen_def lhashlen_def)
qed

theorem shared_table_traversed_witness:
  "\<exists>t S l. lnewconf (\<lambda>i. Conf_Node VALUETYPE_NIL 3 9 5 KEYTYPE_STRING True)
     (D_Table 2 [(Integer_Key 1, D_Integer 10), (Integer_Key 2, D_Boolean True),
       (String_Key [97], D_Table 0 [(Integer_Key (-5), D_String [98])]), (Integer_Key 7, D_String [97])]) = Inr (t, S) \<and>
     traverse (llen t + lhashlen t + 1) t S None = Some l \<and> distinct l \<and> set l = {Integer_Key 1, Integer_Key 2, Integer_Key 7, String_Key [97]}"
proof (rule newconf_ok [OF plain_example, of "\<lambda>i. Conf_Node VALUETYPE_NIL 3 9 5 KEYTYPE_STRING True"], goal_cases)
  case (1 t S)
  from shared_table_traversed [OF plain_example 1(1), of "[]"] 1(1) show ?case by auto
qed

text \<open>C27. A shared table lives as long as a control object refers to it: in every order in which tables are made, boxed,
  referred to, released, marked, updated and deleted (by the host, when the count is not above 0), the count of a table is the
  number of its control objects and of the references of the host, and the release of a control object finds its table.\<close>

theorem held_tables_live:
  assumes "conf_reach w e" "cw_ctrls w c = Some ctrl" "cc_root ctrl = Some a"
  shows "\<exists>ob w'. cw_objects w a = Some ob \<and> co_ref ob = int (card {c. \<exists>ctrl. cw_ctrls w c = Some ctrl \<and> cc_root ctrl = Some a}) + e a \<and>
    0 \<le> e a \<and> releaseobj c w = Some w'"
proof -
  note inv = reach_counted [OF assms(1)]
  have "c \<in> holders w a" using assms(2,3) by (auto simp: holders_def)
  then obtain ob where ob: "cw_objects w a = Some ob" using refs_countedD(2) [OF inv, of a] by (cases "cw_objects w a") auto
  then have "releaseobj c w \<noteq> None" using assms(2,3) by (simp add: releaseobj_def object_upd_def)
  with ob refs_countedD(3) [OF inv ob] show ?thesis by (auto simp: holders_def)
qed

theorem held_tables_live_witness:
  "\<exists>w w'. cw_ctrls w 1 = Some \<lparr>cc_root = Some 0, cc_update = None\<rparr> \<and> releaseobj 1 w = Some w'"
proof -
  define w1 where "w1 = snd (new_conf (\<lambda>i. Conf_Node VALUETYPE_NIL 3 9 5 KEYTYPE_STRING True) (D_Table 0 []) conf_start)"
  define w2 where "w2 = snd (the (lboxconf 0 w1))"
  have n: "new_conf (\<lambda>i. Conf_Node VALUETYPE_NIL 3 9 5 KEYTYPE_STRING True) (D_Table 0 []) conf_start = (Inr 0, w1)"
    by (simp add: w1_def new_conf_def lnewconf_def convtable_def conf_start_def)
  have b: "lboxconf 0 w1 = Some (1, w2)"
    by (simp add: w2_def w1_def new_conf_def lnewconf_def convtable_def conf_start_def lboxconf_def object_upd_def)
  have "conf_reach w2 (\<lambda>_. 0)"
    by (rule reach_step [OF reach_step [OF reach_start step_new [OF n]] step_box [OF b]])
  moreover have c: "cw_ctrls w2 1 = Some \<lparr>cc_root = Some 0, cc_update = None\<rparr>"
    by (simp add: w2_def w1_def new_conf_def lnewconf_def convtable_def conf_start_def lboxconf_def object_upd_def)
  ultimately obtain w' where "releaseobj 1 w2 = Some w'" using held_tables_live [of w2 "\<lambda>_. 0" 1 _ 0] by fastforce
  with c show ?thesis by blast
qed

end
